(* ===== verification/Prelude.thy ===== *)
theory Prelude
  imports Main "HOL-Library.Word"
begin

text \<open>
  Shared vocabulary of the development: the machine types of the Go sources (bytes, fixed-width
  unsigned integers, byte slices), the little-endian and big-endian codecs of Go's
  \<^verbatim>\<open>encoding/binary\<close>, writes into a byte buffer, \<^verbatim>\<open>bits.TrailingZeros64\<close>, the byte order of
  \<^verbatim>\<open>bytes.Compare\<close>, and the generic list and word facts the component theories use.

  Go's \<^verbatim>\<open>int\<close> lengths and indices are \<^typ>\<open>nat\<close> (or \<^typ>\<open>int\<close> where the code uses a negative
  sentinel): a slice cannot be longer than the address space, so index sums do not wrap.
  Fixed-width integers keep their width as words.
\<close>

unbundle bit_operations_syntax

type_synonym byte = "8 word"
type_synonym bytes = "8 word list"
type_synonym u8 = "8 word"
type_synonym u16 = "16 word"
type_synonym u32 = "32 word"
type_synonym u64 = "64 word"

named_theorems codec_simps \<open>lengths and round trips of the integer codecs\<close>
named_theorems buffer_simps \<open>reads of a written byte buffer\<close>

abbreviation ascii :: "string \<Rightarrow> bytes" where
  "ascii s \<equiv> map of_char s"

section \<open>Integer codecs (encoding/binary)\<close>

text \<open>\<open>le_bytes n w\<close> is \<^verbatim>\<open>binary.LittleEndian.PutUint{8n}\<close>, \<open>le_word\<close> the matching read;
  \<open>be_bytes\<close> is \<^verbatim>\<open>binary.BigEndian.AppendUint{8n}\<close>.\<close>

definition le_bytes :: "nat \<Rightarrow> 'a::len word \<Rightarrow> bytes" where
  "le_bytes n w = map (\<lambda>k. ucast (drop_bit (8 * k) w)) [0..<n]"

fun le_word :: "bytes \<Rightarrow> 'a::len word" where
  "le_word [] = 0"
| "le_word (b # bs) = ucast b OR push_bit 8 (le_word bs)"

definition be_bytes :: "nat \<Rightarrow> 'a::len word \<Rightarrow> bytes" where
  "be_bytes n w = rev (le_bytes n w)"

lemma length_le_bytes [simp, codec_simps]: "length (le_bytes n w) = n"
  by (simp add: le_bytes_def)

lemma nth_le_bytes: "k < n \<Longrightarrow> le_bytes n w ! k = ucast (drop_bit (8 * k) w)"
  by (simp add: le_bytes_def)

lemma length_be_bytes [simp, codec_simps]: "length (be_bytes n w) = n"
  by (simp add: be_bytes_def)

lemma bit_le_word:
  "bit (le_word bs :: 'a::len word) m \<longleftrightarrow>
     m < LENGTH('a) \<and> m < 8 * length bs \<and> bit (bs ! (m div 8)) (m mod 8)"
proof (induction bs arbitrary: m)
  case Nil
  then show ?case by simp
next
  case (Cons b bs)
  show ?case
  proof (cases "m < 8")
    case True
    then show ?thesis
      by (auto simp: bit_or_iff bit_push_bit_iff bit_ucast_iff)
  next
    case False
    then obtain j where j: "m = j + 8"
      using le_Suc_ex [of 8 m] by (auto simp: add.commute)
    then have d: "m div 8 = Suc ((m - 8) div 8)" and r: "(m - 8) mod 8 = m mod 8"
      by simp_all
    have "\<not> bit (ucast b :: 'a word) m"
      using False by (auto simp: bit_ucast_iff dest: bit_imp_le_length)
    then show ?thesis
      using False Cons.IH [of "m - 8"] d r
      by (auto simp: bit_or_iff bit_push_bit_iff)
  qed
qed

lemma le_word_le_bytes [codec_simps]:
  fixes w :: "'a::len word"
  assumes "LENGTH('a) \<le> 8 * n"
  shows "le_word (le_bytes n w) = w"
proof (rule bit_word_eqI)
  fix m assume m: "m < LENGTH('a)"
  then have "m div 8 < n" using assms by auto
  then show "bit (le_word (le_bytes n w) :: 'a word) m = bit w m"
    using m assms
    by (auto simp: bit_le_word nth_le_bytes bit_ucast_iff bit_drop_bit_eq)
qed

lemma le_word_le_bytes16 [simp]: "le_word (le_bytes 2 w) = (w :: u16)"
  and le_word_le_bytes32 [simp]: "le_word (le_bytes 4 w') = (w' :: u32)"
  and le_word_le_bytes64 [simp]: "le_word (le_bytes 8 w'') = (w'' :: u64)"
  by (simp_all add: le_word_le_bytes)

lemma le_bytes_le_word:
  assumes "8 * length bs \<le> LENGTH('a::len)"
  shows "le_bytes (length bs) (le_word bs :: 'a word) = bs"
proof (rule nth_equalityI)
  show "length (le_bytes (length bs) (le_word bs :: 'a word)) = length bs" by simp
next
  fix k assume "k < length (le_bytes (length bs) (le_word bs :: 'a word))"
  then have k: "k < length bs" by simp
  show "le_bytes (length bs) (le_word bs :: 'a word) ! k = bs ! k"
  proof (rule bit_word_eqI)
    fix m :: nat assume m: "m < LENGTH(8)"
    then have "8 * k + m < 8 * length bs" using k by simp
    then show "bit (le_bytes (length bs) (le_word bs :: 'a word) ! k) m = bit (bs ! k) m"
      using k m assms by (auto simp: nth_le_bytes bit_ucast_iff bit_drop_bit_eq bit_le_word)
  qed
qed

lemma le_word_inj:
  assumes "length bs = length cs" "8 * length bs \<le> LENGTH('a::len)"
    and "(le_word bs :: 'a word) = le_word cs"
  shows "bs = cs"
proof -
  have "bs = le_bytes (length bs) (le_word bs :: 'a word)"
    using assms(2) by (rule le_bytes_le_word [symmetric])
  also have "\<dots> = le_bytes (length cs) (le_word cs :: 'a word)"
    using assms(1,3) by simp
  also have "\<dots> = cs"
    using assms(1,2) by (intro le_bytes_le_word) simp
  finally show ?thesis .
qed

section \<open>Buffers\<close>

text \<open>\<open>put_bytes off bs buf\<close> is a Go \<^verbatim>\<open>copy(buf[off:], bs)\<close> (which stops at the end of the buffer) or
  \<^verbatim>\<open>PutUint\<close> where \<open>bs\<close> fits; \<open>get_bytes off n buf\<close> is the slice expression \<^verbatim>\<open>buf[off:off+n]\<close>.\<close>

definition put_bytes :: "nat \<Rightarrow> bytes \<Rightarrow> bytes \<Rightarrow> bytes" where
  "put_bytes off bs buf = take (length buf) (take off buf @ bs @ drop (off + length bs) buf)"

definition get_bytes :: "nat \<Rightarrow> nat \<Rightarrow> bytes \<Rightarrow> bytes" where
  "get_bytes off n buf = take n (drop off buf)"

lemma put_bytes_fit:
  "off + length bs \<le> length buf \<Longrightarrow> put_bytes off bs buf = take off buf @ bs @ drop (off + length bs) buf"
  by (simp add: put_bytes_def)

lemma length_put_bytes [simp, buffer_simps]: "length (put_bytes off bs buf) = length buf"
  by (auto simp: put_bytes_def min_def)

lemma length_get_bytes [simp, buffer_simps]:
  "off + n \<le> length buf \<Longrightarrow> length (get_bytes off n buf) = n"
  by (simp add: get_bytes_def)

lemma nth_put_bytes [simp, buffer_simps]:
  assumes "k < length buf"
  shows "put_bytes off bs buf ! k = (if off \<le> k \<and> k < off + length bs then bs ! (k - off) else buf ! k)"
proof -
  have "take off buf ! k = buf ! k" if "k < off" using that by simp
  moreover have "off + length bs + (k - off - length bs) = k" if "off + length bs \<le> k" using that by simp
  ultimately show ?thesis using assms by (auto simp: put_bytes_def nth_append min_def not_less)
qed

lemma get_put_same [buffer_simps]:
  "off + length bs \<le> length buf \<Longrightarrow> n = length bs \<Longrightarrow> get_bytes off n (put_bytes off bs buf) = bs"
  by (simp add: get_bytes_def put_bytes_fit)

lemma get_put_before [buffer_simps]:
  "o' + n \<le> off \<Longrightarrow> get_bytes o' n (put_bytes off bs buf) = get_bytes o' n buf"
  by (rule nth_equalityI) (auto simp: get_bytes_def min_def split: if_splits)

lemma get_put_after [buffer_simps]:
  "off + length bs \<le> o' \<Longrightarrow> get_bytes o' n (put_bytes off bs buf) = get_bytes o' n buf"
  by (rule nth_equalityI) (auto simp: get_bytes_def min_def split: if_splits)

lemma get_replicate [buffer_simps]:
  "off + n \<le> m \<Longrightarrow> get_bytes off n (replicate m b) = replicate n b"
  by (simp add: get_bytes_def)

lemma get_bytes_nth: "k < n \<Longrightarrow> off + n \<le> length buf \<Longrightarrow> get_bytes off n buf ! k = buf ! (off + k)"
  by (simp add: get_bytes_def)

lemma nth_get1: "off < length buf \<Longrightarrow> buf ! off = hd (get_bytes off 1 buf)"
  by (simp add: get_bytes_def hd_drop_conv_nth take_Suc)

definition allZero :: "bytes \<Rightarrow> bool" where
  "allZero src = (foldl (OR) 0 src = (0 :: byte))"

lemma foldl_or_zero: "foldl (OR) a src = (0::byte) \<longleftrightarrow> a = 0 \<and> (\<forall>b \<in> set src. b = 0)"
  by (induction src arbitrary: a) (auto simp: or_eq_0_iff)

lemma allZero_iff: "allZero src \<longleftrightarrow> (\<forall>b \<in> set src. b = 0)"
  by (simp add: allZero_def foldl_or_zero)

lemma allZero_replicate [simp, buffer_simps]: "allZero (replicate n 0)"
  by (simp add: allZero_iff)

section \<open>Trailing zeros and lanes of a 64-bit word\<close>

text \<open>\<^verbatim>\<open>bits.TrailingZeros64\<close>: the index of the lowest set bit, 64 for zero.\<close>

definition trailing_zeros64 :: "u64 \<Rightarrow> nat" where
  "trailing_zeros64 m = length (takeWhile (\<lambda>i. \<not> bit m i) [0..<64])"

lemma takeWhile_upt_eq:
  assumes "i < n" "\<not> P i" "\<And>j. j < i \<Longrightarrow> P j"
  shows "takeWhile P [0..<n] = [0..<i]"
proof -
  have "[0..<n] = [0..<i] @ i # [Suc i..<n]"
    using assms(1) upt_add_eq_append [of 0 i "n - i"] by (simp add: upt_conv_Cons)
  moreover have "takeWhile P ([0..<i] @ i # [Suc i..<n]) = [0..<i] @ takeWhile P (i # [Suc i..<n])"
    by (rule takeWhile_append2) (use assms(3) in auto)
  ultimately show ?thesis using assms(2) by simp
qed

lemma trailing_zeros64_eqI:
  assumes "bit m i" "\<And>j. j < i \<Longrightarrow> \<not> bit m j"
  shows "trailing_zeros64 m = i"
proof -
  have "i < 64" using assms(1) bit_imp_le_length [of m i] by simp
  then have "takeWhile (\<lambda>i. \<not> bit m i) [0..<64] = [0..<i]"
    by (rule takeWhile_upt_eq) (use assms in auto)
  then show ?thesis by (simp add: trailing_zeros64_def)
qed

text \<open>The byte order of \<^verbatim>\<open>bytes.Compare\<close>: lexicographic, a proper prefix first.\<close>

fun bytes_less :: "bytes \<Rightarrow> bytes \<Rightarrow> bool" where
  "bytes_less _ [] = False"
| "bytes_less [] (_ # _) = True"
| "bytes_less (a # as) (b # bs) = (a < b \<or> a = b \<and> bytes_less as bs)"

lemma bytes_less_irrefl [simp]: "\<not> bytes_less as as"
  by (induction as) auto

lemma bytes_less_append_same [simp]: "bytes_less (p @ as) (p @ bs) = bytes_less as bs"
  by (induction p) auto

lemma bytes_less_trans: "bytes_less as bs \<Longrightarrow> bytes_less bs cs \<Longrightarrow> bytes_less as cs"
proof (induction as bs arbitrary: cs rule: bytes_less.induct)
  case (2 b bs)
  then show ?case by (cases cs) auto
next
  case (3 a as b bs)
  then show ?case by (cases cs) auto
qed simp

lemma bytes_less_total: "as = bs \<or> bytes_less as bs \<or> bytes_less bs as"
proof (induction as bs rule: bytes_less.induct)
  case (1 as)
  then show ?case by (cases as) auto
next
  case (3 a as b bs)
  then show ?case by (auto simp: not_less_iff_gr_or_eq)
qed auto

section \<open>Widening\<close>

lemma unat_ucast_up:
  assumes "LENGTH('a::len) \<le> LENGTH('b::len)"
  shows "unat (ucast (x :: 'a word) :: 'b word) = unat x"
proof -
  have "unat x < 2 ^ LENGTH('a)" by (rule unsigned_less)
  also have "\<dots> \<le> (2::nat) ^ LENGTH('b)" using assms by (simp add: power_increasing)
  finally have "take_bit LENGTH('b) (unat x) = unat x" by (simp add: take_bit_nat_eq_self_iff)
  then show ?thesis by (simp add: unsigned_ucast_eq)
qed

lemma unat_ucast_u32_u64 [simp]: "unat (ucast (x :: u32) :: u64) = unat x"
  by (rule unat_ucast_up) simp

end
