(* ===== verification/Utf8.thy ===== *)
theory Utf8
  imports Prelude
begin

text \<open>
  The parts of Go's \<^verbatim>\<open>unicode/utf8\<close> and \<^verbatim>\<open>unicode/utf16\<close> that the sources use. Code points are
  natural numbers. \<open>encodeRune\<close> is \<^verbatim>\<open>utf8.AppendRune\<close>/\<^verbatim>\<open>EncodeRune\<close> (surrogates and values past
  U+10FFFF become U+FFFD), \<open>decodeRune\<close> is \<^verbatim>\<open>utf8.DecodeRune\<close> with Go's accept ranges (invalid
  input gives U+FFFD and width one), \<open>utf8_valid\<close> is \<^verbatim>\<open>utf8.Valid\<close>. The lemmas show that decoding
  inverts encoding on every Unicode scalar value and accepts nothing else.
\<close>

type_synonym rune = nat

definition RuneError :: rune where
  "RuneError = 0xFFFD"

definition is_surrogate :: "rune \<Rightarrow> bool" where
  "is_surrogate r \<longleftrightarrow> 0xD800 \<le> r \<and> r \<le> 0xDFFF"

definition is_scalar :: "rune \<Rightarrow> bool" where
  "is_scalar r \<longleftrightarrow> r \<le> 0x10FFFF \<and> \<not> is_surrogate r"

definition encodeScalar :: "rune \<Rightarrow> bytes" where
  "encodeScalar r =
     (if r < 0x80 then [of_nat r]
      else if r < 0x800 then [of_nat (0xC0 + r div 64), of_nat (0x80 + r mod 64)]
      else if r < 0x10000 then
        [of_nat (0xE0 + r div 4096), of_nat (0x80 + r div 64 mod 64), of_nat (0x80 + r mod 64)]
      else
        [of_nat (0xF0 + r div 262144), of_nat (0x80 + r div 4096 mod 64),
         of_nat (0x80 + r div 64 mod 64), of_nat (0x80 + r mod 64)])"

definition encodeRune :: "rune \<Rightarrow> bytes" where
  "encodeRune r = encodeScalar (if is_scalar r then r else RuneError)"

definition cont :: "byte \<Rightarrow> bool" where
  "cont b \<longleftrightarrow> 0x80 \<le> b \<and> b \<le> 0xBF"

fun decodeRune :: "bytes \<Rightarrow> rune \<times> nat" where
  "decodeRune [] = (RuneError, 0)"
| "decodeRune (b0 # bs) =
     (if b0 < 0x80 then (unat b0, 1)
      else if 0xC2 \<le> b0 \<and> b0 \<le> 0xDF then
        (case bs of
           b1 # _ \<Rightarrow> if cont b1 then ((unat b0 - 0xC0) * 64 + (unat b1 - 0x80), 2) else (RuneError, 1)
         | _ \<Rightarrow> (RuneError, 1))
      else if 0xE0 \<le> b0 \<and> b0 \<le> 0xEF then
        (case bs of
           b1 # b2 # _ \<Rightarrow>
             if (if b0 = 0xE0 then 0xA0 \<le> b1 \<and> b1 \<le> 0xBF
                 else if b0 = 0xED then 0x80 \<le> b1 \<and> b1 \<le> 0x9F else cont b1) \<and> cont b2
             then ((unat b0 - 0xE0) * 4096 + (unat b1 - 0x80) * 64 + (unat b2 - 0x80), 3)
             else (RuneError, 1)
         | _ \<Rightarrow> (RuneError, 1))
      else if 0xF0 \<le> b0 \<and> b0 \<le> 0xF4 then
        (case bs of
           b1 # b2 # b3 # _ \<Rightarrow>
             if (if b0 = 0xF0 then 0x90 \<le> b1 \<and> b1 \<le> 0xBF
                 else if b0 = 0xF4 then 0x80 \<le> b1 \<and> b1 \<le> 0x8F else cont b1) \<and> cont b2 \<and> cont b3
             then ((unat b0 - 0xF0) * 262144 + (unat b1 - 0x80) * 4096 +
                   (unat b2 - 0x80) * 64 + (unat b3 - 0x80), 4)
             else (RuneError, 1)
         | _ \<Rightarrow> (RuneError, 1))
      else (RuneError, 1))"

declare decodeRune.simps [simp del]

lemma decodeRune_width: "bs \<noteq> [] \<Longrightarrow> 0 < snd (decodeRune bs) \<and> snd (decodeRune bs) \<le> length bs"
  by (cases bs) (auto simp: decodeRune.simps split: list.splits)

function utf8_valid :: "bytes \<Rightarrow> bool" where
  "utf8_valid bs =
     (if bs = [] then True
      else let (r, n) = decodeRune bs in
        if r = RuneError \<and> n = 1 then False else utf8_valid (drop n bs))"
  by pat_completeness auto
termination
proof (relation "measure length")
  fix bs :: bytes and z r n
  assume a: "bs \<noteq> []" "z = decodeRune bs" "(r, n) = z"
  then have "0 < n" using decodeRune_width [of bs] by (metis snd_conv)
  then show "(drop n bs, bs) \<in> measure length" using a(1) by simp
qed simp

declare utf8_valid.simps [simp del]

definition utf16_decode :: "rune \<Rightarrow> rune \<Rightarrow> rune" where
  "utf16_decode hi lo =
     (if 0xD800 \<le> hi \<and> hi \<le> 0xDBFF \<and> 0xDC00 \<le> lo \<and> lo \<le> 0xDFFF
      then (hi - 0xD800) * 1024 + (lo - 0xDC00) + 0x10000 else RuneError)"

lemma utf16_decode_scalar:
  "0xD800 \<le> hi \<Longrightarrow> hi \<le> 0xDBFF \<Longrightarrow> 0xDC00 \<le> lo \<Longrightarrow> lo \<le> 0xDFFF \<Longrightarrow>
   is_scalar (utf16_decode hi lo) \<and> 0x10000 \<le> utf16_decode hi lo"
  by (auto simp: utf16_decode_def is_scalar_def is_surrogate_def)

lemma encodeRune_not_Nil [simp]: "encodeRune r \<noteq> []"
  by (simp add: encodeRune_def encodeScalar_def)

lemma unat_of_nat_byte [simp]: "n < 256 \<Longrightarrow> unat (of_nat n :: byte) = n"
  by (simp add: unat_of_nat)

lemmas byte_order = word_le_nat_alt word_less_nat_alt word_unat_eq_iff

lemma decodeRune_2:
  assumes "0x80 \<le> r" "r < 0x800"
  shows "decodeRune (of_nat (0xC0 + r div 64) # of_nat (0x80 + r mod 64) # rest) = (r, 2)"
proof -
  have "2 \<le> r div 64" "r div 64 < 32" "r mod 64 < 64" using assms by linarith+
  then show ?thesis
    by (simp add: decodeRune.simps cont_def byte_order del: of_nat_add)
qed

lemma radix64_3: "r div 4096 * 4096 + r div 64 mod 64 * 64 + r mod 64 = (r::nat)"
proof -
  have "r div 4096 = r div 64 div 64" using div_mult2_eq [of r 64 64] by simp
  then have "64 * (r div 4096) + r div 64 mod 64 = r div 64" by simp
  moreover have "64 * (r div 64) + r mod 64 = r" by simp
  ultimately show ?thesis by linarith
qed

lemma radix64_4:
  "r div 262144 * 262144 + r div 4096 mod 64 * 4096 + r div 64 mod 64 * 64 + r mod 64 = (r::nat)"
proof -
  have "r div 262144 = r div 4096 div 64" using div_mult2_eq [of r 4096 64] by simp
  then have "64 * (r div 262144) + r div 4096 mod 64 = r div 4096" by simp
  then show ?thesis using radix64_3 [of r] by linarith
qed

lemma decodeRune_3:
  assumes "0x800 \<le> r" "r < 0x10000" "\<not> is_surrogate r"
  shows "decodeRune (of_nat (0xE0 + r div 4096) # of_nat (0x80 + r div 64 mod 64) #
           of_nat (0x80 + r mod 64) # rest) = (r, 3)"
proof -
  define a b c where abc: "a = r div 4096" "b = r div 64 mod 64" "c = r mod 64"
  have r: "r = a * 4096 + b * 64 + c" and bnd: "b < 64" "c < 64"
    unfolding abc by (simp_all add: radix64_3)
  then have "a < 16" using assms(2) by linarith
  have "a = 0 \<longrightarrow> 32 \<le> b" "a = 13 \<longrightarrow> b < 32"
    using assms r bnd by (auto simp: is_surrogate_def)
  then show ?thesis
    using bnd \<open>a < 16\<close> unfolding abc [symmetric]
    by (auto simp: decodeRune.simps cont_def byte_order r simp del: of_nat_add)
qed

lemma decodeRune_4:
  assumes "0x10000 \<le> r" "r \<le> 0x10FFFF"
  shows "decodeRune (of_nat (0xF0 + r div 262144) # of_nat (0x80 + r div 4096 mod 64) #
           of_nat (0x80 + r div 64 mod 64) # of_nat (0x80 + r mod 64) # rest) = (r, 4)"
proof -
  define a b c d where abcd: "a = r div 262144" "b = r div 4096 mod 64" "c = r div 64 mod 64"
    "d = r mod 64"
  have r: "r = a * 262144 + b * 4096 + c * 64 + d" and bnd: "b < 64" "c < 64" "d < 64"
    unfolding abcd by (simp_all add: radix64_4)
  then have "a < 5" using assms(2) by linarith
  have "a = 0 \<longrightarrow> 16 \<le> b" "a = 4 \<longrightarrow> b < 16"
    using assms r bnd by auto
  then show ?thesis
    using bnd \<open>a < 5\<close> unfolding abcd [symmetric]
    by (auto simp: decodeRune.simps cont_def byte_order r simp del: of_nat_add)
qed

lemma decodeRune_encodeRune:
  assumes "is_scalar r"
  shows "decodeRune (encodeRune r @ rest) = (r, length (encodeRune r))"
proof -
  consider "r < 0x80" | "0x80 \<le> r" "r < 0x800" | "0x800 \<le> r" "r < 0x10000" | "0x10000 \<le> r"
    by linarith
  then show ?thesis
  proof cases
    case 1
    then show ?thesis
      using assms by (simp add: encodeRune_def encodeScalar_def decodeRune.simps byte_order)
  next
    case 2
    then show ?thesis
      using assms decodeRune_2 by (simp add: encodeRune_def encodeScalar_def)
  next
    case 3
    then show ?thesis
      using assms decodeRune_3 by (simp add: encodeRune_def encodeScalar_def is_scalar_def)
  next
    case 4
    then show ?thesis
      using assms decodeRune_4 by (simp add: encodeRune_def encodeScalar_def is_scalar_def)
  qed
qed

text \<open>Conversely, every accepted sequence is the encoding of a scalar value.\<close>

lemma radix_div_mod: "c < m \<Longrightarrow> (q * m + c) mod m = c" "c < m \<Longrightarrow> (q * m + c) div m = (q::nat)"
  by simp_all

lemma encodeRune_2:
  assumes "2 \<le> a" "a < 32" "b < 64"
  shows "encodeRune (a * 64 + b) = [of_nat (0xC0 + a), of_nat (0x80 + b)]" "is_scalar (a * 64 + b)"
proof -
  have d: "(a * 64 + b) div 64 = a" "(a * 64 + b) mod 64 = b" using assms(3) by simp_all
  show sc: "is_scalar (a * 64 + b)" using assms by (auto simp: is_scalar_def is_surrogate_def)
  show "encodeRune (a * 64 + b) = [of_nat (0xC0 + a), of_nat (0x80 + b)]"
    using assms sc by (simp add: encodeRune_def encodeScalar_def d)
qed

lemma encodeRune_3:
  assumes "a < 16" "b < 64" "c < 64" "a = 0 \<longrightarrow> 32 \<le> b" "a = 13 \<longrightarrow> b < 32"
  shows "encodeRune (a * 4096 + b * 64 + c) =
      [of_nat (0xE0 + a), of_nat (0x80 + b), of_nat (0x80 + c)]"
    "is_scalar (a * 4096 + b * 64 + c)"
proof -
  let ?r = "a * 4096 + b * 64 + c"
  have r: "?r = (a * 64 + b) * 64 + c" by simp
  have m: "?r mod 64 = c" and q: "?r div 64 = a * 64 + b"
    unfolding r by (simp_all only: radix_div_mod [OF assms(3)])
  have d: "?r div 4096 = a" "?r div 64 mod 64 = b"
    using div_mult2_eq [of ?r 64 64] q assms(2) by simp_all
  show sc: "is_scalar ?r"
    using assms by (cases "a < 13"; cases "a = 13") (auto simp: is_scalar_def is_surrogate_def)
  show "encodeRune ?r = [of_nat (0xE0 + a), of_nat (0x80 + b), of_nat (0x80 + c)]"
    using assms sc by (cases "a = 0") (simp_all add: encodeRune_def encodeScalar_def d m)
qed

lemma encodeRune_4:
  assumes "a < 5" "b < 64" "c < 64" "d < 64" "a = 0 \<longrightarrow> 16 \<le> b" "a = 4 \<longrightarrow> b < 16"
  shows "encodeRune (a * 262144 + b * 4096 + c * 64 + d) =
      [of_nat (0xF0 + a), of_nat (0x80 + b), of_nat (0x80 + c), of_nat (0x80 + d)]"
    "is_scalar (a * 262144 + b * 4096 + c * 64 + d)"
proof -
  let ?r = "a * 262144 + b * 4096 + c * 64 + d"
  have r: "?r = ((a * 64 + b) * 64 + c) * 64 + d" by simp
  have m: "?r mod 64 = d" and q: "?r div 64 = (a * 64 + b) * 64 + c"
    unfolding r by (simp_all only: radix_div_mod [OF assms(4)])
  have dd: "?r div 4096 = ?r div 64 div 64" using div_mult2_eq [of ?r 64 64] by simp
  have q2: "?r div 4096 = a * 64 + b" "?r div 64 mod 64 = c"
    unfolding dd q by (simp_all only: radix_div_mod [OF assms(3)])
  have d: "?r div 262144 = a" "?r div 4096 mod 64 = b"
    using div_mult2_eq [of ?r 4096 64] q2 assms(2) by simp_all
  have big: "0x10000 \<le> ?r" using assms by (cases "a = 0") auto
  show sc: "is_scalar ?r" using assms big by (cases "a = 4") (auto simp: is_scalar_def is_surrogate_def)
  show "encodeRune ?r = [of_nat (0xF0 + a), of_nat (0x80 + b), of_nat (0x80 + c), of_nat (0x80 + d)]"
    using sc big assms(2) by (simp add: encodeRune_def encodeScalar_def d m q2)
qed

lemma byte_offset: "unat k \<le> unat (b :: byte) \<Longrightarrow> b = of_nat (unat k + (unat b - unat k))"
  by simp

lemma decodeRune_accepts:
  assumes dec: "decodeRune bs = (r, n)" and ok: "bs \<noteq> []" "\<not> (r = RuneError \<and> n = 1)"
  shows "is_scalar r \<and> n = length (encodeRune r) \<and> bs = encodeRune r @ drop n bs"
proof -
  obtain b0 cs where bs: "bs = b0 # cs" using ok(1) by (cases bs) auto
  have u: "unat b < 256" for b :: byte using unsigned_less [of b, where 'a = nat] by simp
  consider (one) "b0 < 0x80"
    | (two) b1 ds where "0xC2 \<le> b0" "b0 \<le> 0xDF" "cs = b1 # ds" "cont b1"
        "r = (unat b0 - 0xC0) * 64 + (unat b1 - 0x80)" "n = 2"
    | (three) b1 b2 ds where "0xE0 \<le> b0" "b0 \<le> 0xEF" "cs = b1 # b2 # ds" "cont b2"
        "if b0 = 0xE0 then 0xA0 \<le> b1 \<and> b1 \<le> 0xBF
         else if b0 = 0xED then 0x80 \<le> b1 \<and> b1 \<le> 0x9F else cont b1"
        "r = (unat b0 - 0xE0) * 4096 + (unat b1 - 0x80) * 64 + (unat b2 - 0x80)" "n = 3"
    | (four) b1 b2 b3 ds where "0xF0 \<le> b0" "b0 \<le> 0xF4" "cs = b1 # b2 # b3 # ds" "cont b2" "cont b3"
        "if b0 = 0xF0 then 0x90 \<le> b1 \<and> b1 \<le> 0xBF
         else if b0 = 0xF4 then 0x80 \<le> b1 \<and> b1 \<le> 0x8F else cont b1"
        "r = (unat b0 - 0xF0) * 262144 + (unat b1 - 0x80) * 4096 +
             (unat b2 - 0x80) * 64 + (unat b3 - 0x80)" "n = 4"
    using dec ok(2) unfolding bs
    by (simp add: decodeRune.simps split: if_splits list.splits)
  then show ?thesis
  proof cases
    case one
    then have "r = unat b0" "n = 1" using dec bs by (auto simp: decodeRune.simps)
    then show ?thesis
      using one bs by (auto simp: is_scalar_def is_surrogate_def encodeRune_def encodeScalar_def byte_order)
  next
    case two
    define a b where ab: "a = unat b0 - 0xC0" "b = unat b1 - 0x80"
    have f: "2 \<le> a" "a < 32" "b < 64" and e: "of_nat (0xC0 + a) = b0" "of_nat (0x80 + b) = b1"
      using two u [of b0] u [of b1] unfolding ab by (auto simp: cont_def byte_order)
    have "r = a * 64 + b" using two(5) by (simp only: ab)
    then show ?thesis using encodeRune_2 [OF f] two(3,6) bs unfolding e by simp
  next
    case three
    define a b c where abc: "a = unat b0 - 0xE0" "b = unat b1 - 0x80" "c = unat b2 - 0x80"
    have f: "a < 16" "b < 64" "c < 64" "a = 0 \<longrightarrow> 32 \<le> b" "a = 13 \<longrightarrow> b < 32"
      and e: "of_nat (0xE0 + a) = b0" "of_nat (0x80 + b) = b1" "of_nat (0x80 + c) = b2"
      using three unfolding abc by (auto simp: cont_def byte_order split: if_splits)
    have "r = a * 4096 + b * 64 + c" using three(6) by (simp only: abc)
    then show ?thesis using encodeRune_3 [OF f] three(3,7) bs unfolding e by simp
  next
    case four
    define a b c d where abcd: "a = unat b0 - 0xF0" "b = unat b1 - 0x80" "c = unat b2 - 0x80"
      "d = unat b3 - 0x80"
    have f: "a < 5" "b < 64" "c < 64" "d < 64" "a = 0 \<longrightarrow> 16 \<le> b" "a = 4 \<longrightarrow> b < 16"
      and e: "of_nat (0xF0 + a) = b0" "of_nat (0x80 + b) = b1" "of_nat (0x80 + c) = b2"
      "of_nat (0x80 + d) = b3"
      using four unfolding abcd by (auto simp: cont_def byte_order split: if_splits)
    have "r = a * 262144 + b * 4096 + c * 64 + d" using four(7) by (simp only: abcd)
    then show ?thesis using encodeRune_4 [OF f] four(3,8) bs unfolding e by simp
  qed
qed

end
