(* ===== verification/Swar.thy ===== *)
theory Swar
  imports Prelude
begin

text \<open>
  The word-at-a-time byte masks of \<^verbatim>\<open>internal/scanner/scan_generic.go\<close>
  (\<^verbatim>\<open>byteEqMask\<close>, \<^verbatim>\<open>stringSpecialMask\<close>, \<^verbatim>\<open>stringSyntaxMask\<close>, \<^verbatim>\<open>htmlStringSpecialMask\<close>) and the
  proof that their lowest set bit names the first matching byte lane. A subtraction borrow can set
  mask bits above the first match, never below it, which is what the scanners rely on; the relation
  \<open>first_lane\<close> states exactly that and is closed under bitwise or.
\<close>

section \<open>Lanes\<close>

definition lane :: "nat \<Rightarrow> u64 \<Rightarrow> byte" where
  "lane k x = ucast (drop_bit (8 * k) x)"

definition load64 :: "bytes \<Rightarrow> nat \<Rightarrow> u64" where
  "load64 src i = le_word (get_bytes i 8 src)"

lemma bit_lane: "bit (lane k x) n \<longleftrightarrow> n < 8 \<and> bit x (8 * k + n)"
  by (auto simp: lane_def bit_ucast_iff bit_drop_bit_eq)

lemma lane_load64: "k < 8 \<Longrightarrow> i + 8 \<le> length src \<Longrightarrow> lane k (load64 src i) = src ! (i + k)"
  by (rule bit_word_eqI) (auto simp: bit_lane load64_def bit_le_word get_bytes_nth)

lemma lane_replicate [simp]: "k < 8 \<Longrightarrow> lane k (le_word (replicate 8 c)) = c"
  by (rule bit_word_eqI) (auto simp: bit_lane bit_le_word)

lemma lane_or [simp]: "lane k (x OR y) = lane k x OR lane k y"
  and lane_xor [simp]: "lane k (x XOR y) = lane k x XOR lane k y"
  by (auto intro!: bit_word_eqI simp: bit_lane bit_or_iff bit_xor_iff)

lemma uint_lane: "uint (lane k x) = uint x div 256 ^ k mod 256"
proof -
  have "take_bit 64 (uint x) = uint x"
    using uint_bounded [of x] by (simp add: take_bit_int_eq_self)
  then have "uint (lane k x) = take_bit 8 (drop_bit (8 * k) (uint x))"
    by (simp add: lane_def unsigned_ucast_eq unsigned_drop_bit_eq)
  also have "\<dots> = uint x div 2 ^ (8 * k) mod 2 ^ 8"
    by (simp add: take_bit_eq_mod drop_bit_eq_div)
  finally show ?thesis by (simp add: power_mult)
qed

lemma le_word_Cons_add: "(le_word (b # bs) :: u64) = ucast b + 256 * le_word bs"
proof -
  have "(ucast b :: u64) AND push_bit 8 (le_word bs) = 0"
    by (rule bit_word_eqI)
       (auto simp: bit_and_iff bit_push_bit_iff bit_ucast_iff dest: bit_imp_le_length)
  then have "(ucast b :: u64) OR push_bit 8 (le_word bs) = ucast b + push_bit 8 (le_word bs)"
    by (rule disjunctive_add_eq_or [symmetric])
  then show ?thesis by (simp add: push_bit_eq_mult mult.commute)
qed

lemma broadcast_mult: "(ucast b :: u64) * 0x0101010101010101 = le_word (replicate 8 b)"
proof -
  have r8: "replicate 8 b = [b, b, b, b, b, b, b, b]"
    by (simp add: eval_nat_numeral)
  show ?thesis
    unfolding r8 by (simp only: le_word_Cons_add le_word.simps(1)) (simp add: algebra_simps)
qed

section \<open>Subtracting a broadcast constant\<close>

lemma mod_pow_Suc: "(x::int) mod 256 ^ Suc k = x mod 256 ^ k + 256 ^ k * (x div 256 ^ k mod 256)"
  using zmod_zmult2_eq [of 256 x "256 ^ k"] by (simp add: mult.commute)

lemma low_lanes_le:
  assumes "\<And>j. j < k \<Longrightarrow> lane j c \<le> lane j x"
  shows "uint c mod 256 ^ k \<le> uint x mod 256 ^ k"
  using assms
proof (induction k)
  case 0
  then show ?case by simp
next
  case (Suc k)
  have "uint (lane k c) \<le> uint (lane k x)"
    using Suc.prems [of k] by (simp add: word_le_def)
  then have "256 ^ k * (uint c div 256 ^ k mod 256) \<le> 256 ^ k * (uint x div 256 ^ k mod 256)"
    by (simp add: uint_lane)
  moreover have "uint c mod 256 ^ k \<le> uint x mod 256 ^ k"
    using Suc by simp
  ultimately show ?case by (simp only: mod_pow_Suc)
qed

lemma div_diff_no_borrow:
  assumes "(0::int) < b" "y mod b \<le> x mod b"
  shows "(x - y) div b = x div b - y div b"
proof (rule int_div_pos_eq)
  show "x - y = b * (x div b - y div b) + (x mod b - y mod b)"
    using mult_div_mod_eq [of b x] mult_div_mod_eq [of b y] by (simp add: algebra_simps)
  show "0 \<le> x mod b - y mod b" using assms by simp
  show "x mod b - y mod b < b"
    using assms(1) pos_mod_bound [of b x] pos_mod_sign [of b y] by linarith
qed

lemma lane_diff:
  assumes k: "k < 8" and le: "\<And>j. j < k \<Longrightarrow> lane j c \<le> lane j x"
  shows "lane k (x - c) = lane k x - lane k c"
proof -
  let ?b = "256 ^ k :: int" and ?m = "256 ^ (8 - k) :: int"
  have bm: "?b * ?m = 2 ^ 64"
    using k by (simp add: power_add [symmetric])
  have "256 dvd ?m" using k by (simp add: dvd_power)
  have "uint (x - c) = (uint x - uint c) mod (?b * ?m)"
    by (simp add: bm uint_word_ariths)
  also have "\<dots> = ?b * ((uint x - uint c) div ?b mod ?m) + (uint x - uint c) mod ?b"
    by (rule zmod_zmult2_eq) simp
  finally have "uint (x - c) div ?b = (uint x - uint c) div ?b mod ?m"
    by simp
  also have "\<dots> mod 256 = (uint x - uint c) div ?b mod 256"
    by (rule mod_mod_cancel) fact
  also have "\<dots> = (uint x div ?b - uint c div ?b) mod 256"
    using low_lanes_le [of k c x] le by (simp add: div_diff_no_borrow)
  finally have "uint (lane k (x - c)) = uint (lane k x - lane k c)"
    by (simp add: uint_lane uint_word_ariths mod_diff_eq)
  then show ?thesis by (simp only: word_uint_eq_iff)
qed

section \<open>Masks\<close>

definition highBits :: u64 where
  "highBits = 0x8080808080808080"

definition byteEqMask :: "u64 \<Rightarrow> byte \<Rightarrow> u64" where
  "byteEqMask x b =
     (let y = x XOR (ucast b * 0x0101010101010101)
      in (y - 0x0101010101010101) AND NOT y AND highBits)"

definition stringSyntaxMask :: "u64 \<Rightarrow> u64" where
  "stringSyntaxMask x =
     (byteEqMask x 0x22 OR byteEqMask x 0x5C) OR
     ((x - 0x2020202020202020) AND NOT x AND highBits)"

definition stringSpecialMask :: "u64 \<Rightarrow> u64" where
  "stringSpecialMask x =
     ((byteEqMask x 0x22 OR byteEqMask x 0x5C) OR
      ((x - 0x2020202020202020) AND NOT x AND highBits)) OR
     (x AND highBits)"

definition htmlQuoteAmpFold :: u64 where
  "htmlQuoteAmpFold = 0x0404040404040404"

definition htmlAngleBracketFold :: u64 where
  "htmlAngleBracketFold = 0x0202020202020202"

definition htmlStringSyntaxMask :: "u64 \<Rightarrow> u64" where
  "htmlStringSyntaxMask x =
     ((byteEqMask (x OR htmlQuoteAmpFold) 0x26 OR byteEqMask x 0x5C) OR
      ((x - 0x2020202020202020) AND NOT x AND highBits)) OR
     byteEqMask (x OR htmlAngleBracketFold) 0x3E"

definition htmlStringSpecialMask :: "u64 \<Rightarrow> u64" where
  "htmlStringSpecialMask x =
     (((byteEqMask (x OR htmlQuoteAmpFold) 0x26 OR byteEqMask x 0x5C) OR
       ((x - 0x2020202020202020) AND NOT x AND highBits)) OR
      (x AND highBits)) OR
     byteEqMask (x OR htmlAngleBracketFold) 0x3E"

text \<open>\<open>first_lane P x m\<close>: the mask \<open>m\<close> has only lane-top bits, and up to and including the first
  lane of \<open>x\<close> that satisfies \<open>P\<close> its bits agree with \<open>P\<close>. Above that lane they are arbitrary.\<close>

definition first_lane :: "(byte \<Rightarrow> bool) \<Rightarrow> u64 \<Rightarrow> u64 \<Rightarrow> bool" where
  "first_lane P x m \<longleftrightarrow>
     (\<forall>n. bit m n \<longrightarrow> n mod 8 = 7) \<and>
     (\<forall>k < 8. (\<forall>j < k. \<not> P (lane j x)) \<longrightarrow> bit m (8 * k + 7) = P (lane k x))"

lemma first_laneI:
  assumes "\<And>n. bit m n \<Longrightarrow> n mod 8 = 7"
    and "\<And>k. k < 8 \<Longrightarrow> (\<And>j. j < k \<Longrightarrow> \<not> P (lane j x)) \<Longrightarrow> bit m (8 * k + 7) = P (lane k x)"
  shows "first_lane P x m"
  using assms by (simp add: first_lane_def)

lemma first_lane_or:
  assumes "first_lane P x m" "first_lane Q x n"
  shows "first_lane (\<lambda>b. P b \<or> Q b) x (m OR n)"
  using assms by (auto simp: first_lane_def bit_or_iff)

lemma first_lane_cong:
  assumes "first_lane P x m" "\<And>j. j < 8 \<Longrightarrow> P (lane j x) = Q (lane j y)"
  shows "first_lane Q y m"
  using assms unfolding first_lane_def by (auto dest: less_trans)

lemma bit_highBits: "bit highBits n \<longleftrightarrow> n < 64 \<and> n mod 8 = 7"
proof -
  have h: "highBits = le_word (replicate 8 0x80)"
    using broadcast_mult [of "0x80"] by (simp add: highBits_def)
  have "bit (0x80 :: byte) i \<longleftrightarrow> i = 7" for i
    using bit_exp_iff [where 'a = byte, of 7 i] by auto
  then have "bit (replicate 8 (0x80 :: byte) ! (n div 8)) (n mod 8) \<longleftrightarrow> n mod 8 = 7" if "n < 64"
    using that by (simp only: nth_replicate less_mult_imp_div_less [of n 8 8])
  then show ?thesis
    unfolding h by (subst bit_le_word) auto
qed

lemma bit7_iff: "bit (v :: byte) 7 \<longleftrightarrow> 0x80 \<le> v"
proof -
  have "bit v 7 \<longleftrightarrow> bit (uint v) 7"
    by (simp add: bit_uint_iff)
  also have "\<dots> \<longleftrightarrow> odd (uint v div 128)"
    by (simp add: bit_iff_odd)
  also have "\<dots> \<longleftrightarrow> 128 \<le> uint v"
    using uint_bounded [of v] by (cases "uint v < 128") (auto simp: int_div_pos_eq [of _ 128 1 "uint v - 128"])
  finally show ?thesis by (simp add: word_le_def)
qed

lemma lane_ones: "j < 8 \<Longrightarrow> lane j 0x0101010101010101 = 1"
  using broadcast_mult [of 1] lane_replicate [of j 1] by simp

lemma lane_spaces: "j < 8 \<Longrightarrow> lane j 0x2020202020202020 = 0x20"
  using broadcast_mult [of "0x20"] lane_replicate [of j "0x20"] by simp

lemma lane_folds:
  "j < 8 \<Longrightarrow> lane j htmlQuoteAmpFold = 0x04" "j < 8 \<Longrightarrow> lane j htmlAngleBracketFold = 0x02"
  using broadcast_mult [of "0x04"] lane_replicate [of j "0x04"]
    broadcast_mult [of "0x02"] lane_replicate [of j "0x02"]
  by (simp_all add: htmlQuoteAmpFold_def htmlAngleBracketFold_def)

lemma first_lane_below:
  assumes c: "0 < c" "c \<le> 0x80" and C: "\<And>j. j < 8 \<Longrightarrow> lane j C = c"
  shows "first_lane (\<lambda>b. b < c) x ((x - C) AND NOT x AND highBits)"
proof (rule first_laneI)
  fix n assume "bit ((x - C) AND NOT x AND highBits) n"
  then show "n mod 8 = 7" by (simp add: bit_and_iff bit_highBits)
next
  fix k :: nat assume k: "k < 8" and no: "\<And>j. j < k \<Longrightarrow> \<not> lane j x < c"
  have d: "lane k (x - C) = lane k x - c"
    using k no by (subst lane_diff) (auto simp: C not_less)
  have "bit ((x - C) AND NOT x AND highBits) (8 * k + 7) \<longleftrightarrow>
        bit (lane k (x - C)) 7 \<and> \<not> bit (lane k x) 7"
    using k by (simp add: bit_and_iff bit_not_iff bit_highBits bit_lane)
  also have "\<dots> \<longleftrightarrow> 0x80 \<le> lane k x - c \<and> lane k x < 0x80"
    by (simp add: bit7_iff d not_le)
  also have "\<dots> \<longleftrightarrow> lane k x < c"
    using c by (auto simp: word_le_nat_alt word_less_nat_alt unat_sub_if' split: if_splits)
  finally show "bit ((x - C) AND NOT x AND highBits) (8 * k + 7) = (lane k x < c)" .
qed

lemma first_lane_control:
  "first_lane (\<lambda>b. b < 0x20) x ((x - 0x2020202020202020) AND NOT x AND highBits)"
  by (rule first_lane_below) (simp_all add: lane_spaces)

lemma xor_eq_zero_iff: "(a :: 'a::len word) XOR b = 0 \<longleftrightarrow> a = b"
  by (auto simp: bit_eq_iff bit_xor_iff)

lemma first_lane_byteEq: "first_lane (\<lambda>b. b = c) x (byteEqMask x c)"
proof -
  let ?y = "x XOR (ucast c * 0x0101010101010101)"
  have "first_lane (\<lambda>b. b < 1) ?y ((?y - 0x0101010101010101) AND NOT ?y AND highBits)"
    by (rule first_lane_below) (simp_all add: lane_ones)
  then show ?thesis
    unfolding byteEqMask_def Let_def
    by (rule first_lane_cong) (simp add: broadcast_mult xor_eq_zero_iff word_less_1)
qed

lemma first_lane_high: "first_lane (\<lambda>b. 0x80 \<le> b) x (x AND highBits)"
  by (rule first_laneI) (auto simp: bit_and_iff bit_highBits bit_lane simp flip: bit7_iff)

text \<open>The lowest set bit of a correct mask is in the first matching lane; a zero mask means that no
  lane matches.\<close>

lemma first_lane_zero:
  assumes "first_lane P x 0" "k < 8"
  shows "\<not> P (lane k x)"
  using assms(2)
proof (induction k rule: less_induct)
  case (less k)
  then show ?case using assms(1) by (auto simp: first_lane_def)
qed

lemma first_lane_trailing_zeros:
  assumes m: "first_lane P x m" and nz: "m \<noteq> 0"
  defines "k \<equiv> trailing_zeros64 m div 8"
  shows "k < 8" "P (lane k x)" "\<And>j. j < k \<Longrightarrow> \<not> P (lane j x)"
proof -
  from nz obtain n where n: "bit m n" by (auto simp: bit_eq_iff)
  have n8: "n = 8 * (n div 8) + 7" "n div 8 < 8"
    using m n bit_imp_le_length [OF n] mult_div_mod_eq [of 8 n]
    by (auto simp: first_lane_def)
  have "\<exists>j < 8. P (lane j x)"
  proof (rule ccontr)
    assume "\<not> (\<exists>j < 8. P (lane j x))"
    then have "\<not> bit m (8 * (n div 8) + 7)"
      using m n8(2) by (auto simp: first_lane_def)
    then show False using n n8(1) by simp
  qed
  then obtain i where i: "i < 8" "P (lane i x)" "\<And>j. j < i \<Longrightarrow> \<not> P (lane j x)"
    using exists_least_iff [of "\<lambda>j. j < 8 \<and> P (lane j x)"] by (metis less_trans)
  have "trailing_zeros64 m = 8 * i + 7"
  proof (rule trailing_zeros64_eqI)
    show "bit m (8 * i + 7)" using m i by (auto simp: first_lane_def)
    fix b assume b: "b < 8 * i + 7"
    show "\<not> bit m b"
    proof
      assume "bit m b"
      then have b8: "b = 8 * (b div 8) + 7"
        using m mult_div_mod_eq [of 8 b] by (simp add: first_lane_def)
      then have "b div 8 < i" using b by simp
      then have "\<not> bit m (8 * (b div 8) + 7)"
        using m i by (auto simp: first_lane_def)
      then show False using \<open>bit m b\<close> b8 by simp
    qed
  qed
  then have "k = i" by (simp add: k_def)
  then show "k < 8" "P (lane k x)" "\<And>j. j < k \<Longrightarrow> \<not> P (lane j x)"
    using i by auto
qed

section \<open>The byte classes behind the masks\<close>

definition is_syntax_byte :: "byte \<Rightarrow> bool" where
  "is_syntax_byte c \<longleftrightarrow> c = 0x22 \<or> c = 0x5C \<or> c < 0x20"

definition is_special_byte :: "byte \<Rightarrow> bool" where
  "is_special_byte c \<longleftrightarrow> c = 0x22 \<or> c = 0x5C \<or> c < 0x20 \<or> 0x80 \<le> c"

definition is_html_syntax_byte :: "byte \<Rightarrow> bool" where
  "is_html_syntax_byte c \<longleftrightarrow>
     c = 0x22 \<or> c = 0x5C \<or> c = 0x3C \<or> c = 0x3E \<or> c = 0x26 \<or> c < 0x20"

definition is_html_special_byte :: "byte \<Rightarrow> bool" where
  "is_html_special_byte c \<longleftrightarrow>
     c = 0x22 \<or> c = 0x5C \<or> c = 0x3C \<or> c = 0x3E \<or> c = 0x26 \<or> c < 0x20 \<or> 0x80 \<le> c"

text \<open>Folding one bit before the comparison merges the two bytes that differ in that bit.\<close>

lemma fold_bit_eq:
  fixes v :: byte
  assumes "c AND f = f" "d = c AND NOT f" "f = 2 ^ k" "k < 8"
  shows "v OR f = c \<longleftrightarrow> v = c \<or> v = d"
proof -
  have bits: "bit f n \<longleftrightarrow> n = k" for n
    using assms(3,4) by (auto simp: bit_exp_iff)
  have ck: "bit c k"
    using arg_cong [OF assms(1), of "\<lambda>w. bit w k"] by (simp add: bit_and_iff bits)
  show ?thesis
  proof
    assume vc: "v OR f = c"
    have off: "bit v n = bit c n" if "n \<noteq> k" for n
      using arg_cong [OF vc, of "\<lambda>w. bit w n"] that by (simp add: bit_or_iff bits)
    show "v = c \<or> v = d"
    proof (cases "bit v k")
      case True
      then have "v = c" by (intro bit_word_eqI) (metis off ck)
      then show ?thesis ..
    next
      case False
      have "v = d"
        unfolding assms(2)
      proof (rule bit_word_eqI)
        fix n assume "n < LENGTH(8)"
        then show "bit v n = bit (c AND NOT f) n"
          using False off [of n] by (cases "n = k") (simp_all add: bit_and_iff bit_not_iff bits)
      qed
      then show ?thesis ..
    qed
  next
    assume "v = c \<or> v = d"
    then show "v OR f = c"
      using ck by (auto intro!: bit_word_eqI simp: assms(2) bit_or_iff bit_and_iff bit_not_iff bits)
  qed
qed

lemma first_lane_quote_amp:
  "first_lane (\<lambda>b. b = 0x26 \<or> b = 0x22) x (byteEqMask (x OR htmlQuoteAmpFold) 0x26)"
  using first_lane_byteEq [of "0x26" "x OR htmlQuoteAmpFold"]
  by (rule first_lane_cong) (simp add: lane_folds fold_bit_eq [where d = "0x22" and k = 2])

lemma first_lane_angle:
  "first_lane (\<lambda>b. b = 0x3E \<or> b = 0x3C) x (byteEqMask (x OR htmlAngleBracketFold) 0x3E)"
  using first_lane_byteEq [of "0x3E" "x OR htmlAngleBracketFold"]
  by (rule first_lane_cong) (simp add: lane_folds fold_bit_eq [where d = "0x3C" and k = 1])

lemmas first_lane_parts =
  first_lane_or first_lane_byteEq first_lane_control first_lane_high
  first_lane_quote_amp first_lane_angle

lemma first_lane_syntax: "first_lane is_syntax_byte x (stringSyntaxMask x)"
  unfolding stringSyntaxMask_def
  by (rule first_lane_cong, (rule first_lane_parts)+) (auto simp: is_syntax_byte_def)

lemma first_lane_special: "first_lane is_special_byte x (stringSpecialMask x)"
  unfolding stringSpecialMask_def
  by (rule first_lane_cong, (rule first_lane_parts)+) (auto simp: is_special_byte_def)

lemma first_lane_html_syntax: "first_lane is_html_syntax_byte x (htmlStringSyntaxMask x)"
  unfolding htmlStringSyntaxMask_def
  by (rule first_lane_cong, (rule first_lane_parts)+) (auto simp: is_html_syntax_byte_def)

lemma first_lane_html_special: "first_lane is_html_special_byte x (htmlStringSpecialMask x)"
  unfolding htmlStringSpecialMask_def
  by (rule first_lane_cong, (rule first_lane_parts)+) (auto simp: is_html_special_byte_def)

end
