(* ===== verification/Scanner.thy ===== *)
theory Scanner
  imports Swar
begin

text \<open>
  Byte scanning: \<^verbatim>\<open>space.go\<close> (whitespace skipping, literal matching), \<^verbatim>\<open>scan.go\<close> and
  \<^verbatim>\<open>internal/scanner/scan_generic.go\<close> (the string scanners of the portable backend). Each routine is
  modelled with the word strides the code has; \<open>first_stop\<close> is the one-byte-at-a-time reference,
  and the locale \<open>lane_mask\<close> is the contract between a mask and the scanners that use it.
\<close>

section \<open>The reference: first stopping byte\<close>

definition first_stop :: "(byte \<Rightarrow> bool) \<Rightarrow> bytes \<Rightarrow> nat \<Rightarrow> nat \<Rightarrow> nat" where
  "first_stop P src i limit = i + length (takeWhile (\<lambda>c. \<not> P c) (take (limit - i) (drop i src)))"

lemma first_stop_ge: "i \<le> first_stop P src i limit"
  by (simp add: first_stop_def)

lemma first_stop_le: "i \<le> limit \<Longrightarrow> limit \<le> length src \<Longrightarrow> first_stop P src i limit \<le> limit"
  using length_takeWhile_le [of "\<lambda>c. \<not> P c" "take (limit - i) (drop i src)"]
  by (simp add: first_stop_def)

lemma first_stop_step:
  assumes "i < limit" "limit \<le> length src"
  shows "first_stop P src i limit = (if P (src ! i) then i else first_stop P src (Suc i) limit)"
proof -
  have "take (limit - i) (drop i src) = src ! i # take (limit - Suc i) (drop (Suc i) src)"
    using assms by (simp add: Cons_nth_drop_Suc [symmetric] take_Cons' )
  then show ?thesis by (simp add: first_stop_def)
qed

lemma first_stop_end [simp]: "first_stop P src i i = i"
  by (simp add: first_stop_def)

lemma first_stop_eqI:
  assumes "i \<le> r" "r \<le> limit" "limit \<le> length src"
    and "\<And>j. i \<le> j \<Longrightarrow> j < r \<Longrightarrow> \<not> P (src ! j)" "r < limit \<Longrightarrow> P (src ! r)"
  shows "first_stop P src i limit = r"
  using assms
proof (induction "r - i" arbitrary: i)
  case 0
  then show ?case by (cases "r < limit") (simp_all add: first_stop_step)
next
  case (Suc n)
  then have "first_stop P src (Suc i) limit = r" by simp
  then show ?case using Suc by (simp add: first_stop_step)
qed

lemma first_stop_skip:
  assumes "i \<le> k" "k \<le> limit" "limit \<le> length src" "\<And>j. i \<le> j \<Longrightarrow> j < k \<Longrightarrow> \<not> P (src ! j)"
  shows "first_stop P src i limit = first_stop P src k limit"
  using assms
proof (induction "k - i" arbitrary: i)
  case 0
  then show ?case by simp
next
  case (Suc n)
  then have "first_stop P src (Suc i) limit = first_stop P src k limit" by simp
  then show ?case using Suc by (simp add: first_stop_step)
qed

lemma first_stop_before:
  "i \<le> j \<Longrightarrow> j < first_stop P src i limit \<Longrightarrow> \<not> P (src ! j) \<and> j < limit"
proof -
  let ?xs = "take (limit - i) (drop i src)"
  assume j: "i \<le> j" "j < first_stop P src i limit"
  then have l: "j - i < length (takeWhile (\<lambda>c. \<not> P c) ?xs)" by (simp add: first_stop_def)
  then have "\<not> P (takeWhile (\<lambda>c. \<not> P c) ?xs ! (j - i))"
    using set_takeWhileD nth_mem by fastforce
  moreover have "j - i < length ?xs" using l length_takeWhile_le less_le_trans by blast
  moreover obtain n where "j = i + n" using j(1) le_Suc_ex by blast
  ultimately show ?thesis using l by (auto simp: takeWhile_nth)
qed

lemma first_stop_hit:
  assumes "first_stop P src i limit < limit" "limit \<le> length src"
  shows "P (src ! first_stop P src i limit)"
proof -
  let ?xs = "take (limit - i) (drop i src)"
  have i: "i \<le> limit" using assms first_stop_ge [of i P src limit] by simp
  have "length (takeWhile (\<lambda>c. \<not> P c) ?xs) < length ?xs"
    using assms i by (simp add: first_stop_def)
  from nth_length_takeWhile [OF this] show ?thesis
    using assms i by (simp add: first_stop_def)
qed

section \<open>Whitespace (space.go)\<close>

definition isJSONWhitespace :: "byte \<Rightarrow> bool" where
  "isJSONWhitespace c \<longleftrightarrow> c = 0x20 \<or> c = 0x0A \<or> c = 0x0D \<or> c = 0x09"

text \<open>The inner loops of \<^verbatim>\<open>skipSpace\<close>: whole words of eight spaces.\<close>

function skipSpaceWords :: "bytes \<Rightarrow> nat \<Rightarrow> nat" where
  "skipSpaceWords src i =
     (if i + 8 \<le> length src \<and> load64 src i = 0x2020202020202020
      then skipSpaceWords src (i + 8) else i)"
  by pat_completeness auto
termination
  by (relation "measure (\<lambda>(src, i). length src - i)") auto

declare skipSpaceWords.simps [simp del]

lemma skipSpaceWords_ge: "i \<le> skipSpaceWords src i"
proof (induction src i rule: skipSpaceWords.induct)
  case (1 src i)
  then show ?case by (subst skipSpaceWords.simps) auto
qed

function skipSpace :: "bytes \<Rightarrow> nat \<Rightarrow> nat" where
  "skipSpace src i =
     (if i < length src then
        (let c = src ! i in
         if c > 0x20 then i
         else if c \<noteq> 0x20 \<and> c \<noteq> 0x0A \<and> c \<noteq> 0x0D \<and> c \<noteq> 0x09 then i
         else skipSpace src (skipSpaceWords src (i + 1)))
      else i)"
  by pat_completeness auto
termination
  by (relation "measure (\<lambda>(src, i). length src - i)")
     (auto simp: Suc_le_lessD [OF skipSpaceWords_ge [of "Suc _"]] intro!: diff_less_mono2)

declare skipSpace.simps [simp del]

definition skipFour :: "bytes \<Rightarrow> nat \<Rightarrow> nat" where
  "skipFour src i =
     (if i + 4 \<le> length src \<and> (le_word (get_bytes i 4 src) :: u32) = 0x20202020 then i + 4 else i)"

lemma skipFour_ge: "i \<le> skipFour src i"
  by (simp add: skipFour_def)

function skipSpaceIndent :: "bytes \<Rightarrow> nat \<Rightarrow> nat" where
  "skipSpaceIndent src i =
     (if i < length src then
        (let c = src ! i in
         if c > 0x20 then i
         else if c \<noteq> 0x20 \<and> c \<noteq> 0x0A \<and> c \<noteq> 0x0D \<and> c \<noteq> 0x09 then i
         else skipSpaceIndent src (skipFour src (skipSpaceWords src (i + 1))))
      else i)"
  by pat_completeness auto
termination
proof (relation "measure (\<lambda>(src, i). length src - i)")
  fix src :: bytes and i :: nat and c
  assume "i < length src"
  moreover have "Suc i \<le> skipFour src (skipSpaceWords src (i + 1))"
    using skipSpaceWords_ge [of "i + 1" src] skipFour_ge [of "skipSpaceWords src (i + 1)" src] by simp
  ultimately show "((src, skipFour src (skipSpaceWords src (i + 1))), (src, i))
      \<in> measure (\<lambda>(src, i). length src - i)"
    by auto
qed simp

declare skipSpaceIndent.simps [simp del]

fun matchFrom :: "bytes \<Rightarrow> nat \<Rightarrow> bytes \<Rightarrow> bool" where
  "matchFrom src i [] = True"
| "matchFrom src i (c # s) = (src ! i = c \<and> matchFrom src (Suc i) s)"

definition matchStringAt :: "bytes \<Rightarrow> nat \<Rightarrow> bytes \<Rightarrow> bool" where
  "matchStringAt src i s \<longleftrightarrow> (if int (length src) - int i < int (length s) then False else matchFrom src i s)"

lemma skip_step_eq:
  "(c::byte) > 0x20 \<or> (c \<noteq> 0x20 \<and> c \<noteq> 0x0A \<and> c \<noteq> 0x0D \<and> c \<noteq> 0x09) \<longleftrightarrow> \<not> isJSONWhitespace c"
  by (auto simp: isJSONWhitespace_def)

lemma skipSpaceWords_run:
  "i \<le> length src \<Longrightarrow>
   skipSpaceWords src i \<le> length src \<and>
   (\<forall>j. i \<le> j \<and> j < skipSpaceWords src i \<longrightarrow> src ! j = 0x20)"
proof (induction src i rule: skipSpaceWords.induct)
  case (1 src i)
  show ?case
  proof (cases "i + 8 \<le> length src \<and> load64 src i = 0x2020202020202020")
    case True
    then have "src ! (i + k) = 0x20" if "k < 8" for k
      using that lane_load64 [of k i src] by (simp add: lane_spaces)
    then have "src ! j = 0x20" if "i \<le> j" "j < i + 8" for j
      using that by (metis add_diff_inverse_nat less_diff_conv2 linorder_not_less add.commute)
    then show ?thesis
      using 1 True by (subst (1 2) skipSpaceWords.simps) (simp, metis not_le)
  next
    case False
    then show ?thesis using 1 by (subst (1 2) skipSpaceWords.simps) auto
  qed
qed

lemma skipFour_run:
  "i \<le> length src \<Longrightarrow>
   skipFour src i \<le> length src \<and> (\<forall>j. i \<le> j \<and> j < skipFour src i \<longrightarrow> src ! j = 0x20)"
proof -
  assume "i \<le> length src"
  have "src ! (i + k) = 0x20" if m: "(le_word (get_bytes i 4 src) :: u32) = 0x20202020"
    "i + 4 \<le> length src" "k < 4" for k
  proof -
    have "(0x20202020 :: u32) = le_word [0x20, 0x20, 0x20, 0x20]" by simp
    then have "get_bytes i 4 src = [0x20, 0x20, 0x20, 0x20]"
      using m by (intro le_word_inj [where 'a = 32]) simp_all
    moreover have "k = 0 \<or> k = 1 \<or> k = 2 \<or> k = 3" using m(3) by linarith
    ultimately have "get_bytes i 4 src ! k = 0x20" by auto
    then show ?thesis using m by (simp add: get_bytes_nth)
  qed
  then show ?thesis
    using \<open>i \<le> length src\<close>
    by (auto simp: skipFour_def)
       (metis add_diff_inverse_nat less_diff_conv2 linorder_not_less add.commute)
qed

lemma skip_first_stop:
  assumes "i < length src" "isJSONWhitespace (src ! i)" "Suc i \<le> k" "k \<le> length src"
    and "\<forall>j. Suc i \<le> j \<and> j < k \<longrightarrow> src ! j = 0x20"
  shows "first_stop (\<lambda>c. \<not> isJSONWhitespace c) src i (length src) =
         first_stop (\<lambda>c. \<not> isJSONWhitespace c) src k (length src)"
proof (rule first_stop_skip)
  fix j assume "i \<le> j" "j < k"
  then show "\<not> \<not> isJSONWhitespace (src ! j)"
    using assms by (cases "j = i") (auto simp: isJSONWhitespace_def)
qed (use assms in auto)

lemma skipSpace_first_stop:
  "i \<le> length src \<Longrightarrow> skipSpace src i = first_stop (\<lambda>c. \<not> isJSONWhitespace c) src i (length src)"
proof (induction src i rule: skipSpace.induct)
  case (1 src i)
  show ?case
  proof (cases "i < length src \<and> isJSONWhitespace (src ! i)")
    case True
    let ?k = "skipSpaceWords src (i + 1)"
    have k: "?k \<le> length src" "Suc i \<le> ?k" "\<forall>j. Suc i \<le> j \<and> j < ?k \<longrightarrow> src ! j = 0x20"
      using True skipSpaceWords_run [of "i + 1" src] skipSpaceWords_ge [of "i + 1" src] by auto
    have "skipSpace src i = skipSpace src ?k"
      using True skip_step_eq [of "src ! i"] by (subst skipSpace.simps) (auto simp: Let_def)
    also have "\<dots> = first_stop (\<lambda>c. \<not> isJSONWhitespace c) src ?k (length src)"
      using 1 True skip_step_eq [of "src ! i"] k by auto
    finally show ?thesis using skip_first_stop [of i src ?k] True k by simp
  next
    case False
    then show ?thesis
      using 1 skip_step_eq [of "src ! i"]
      by (subst skipSpace.simps) (auto simp: Let_def first_stop_step)
  qed
qed

lemma skipSpaceIndent_first_stop:
  "i \<le> length src \<Longrightarrow>
   skipSpaceIndent src i = first_stop (\<lambda>c. \<not> isJSONWhitespace c) src i (length src)"
proof (induction src i rule: skipSpaceIndent.induct)
  case (1 src i)
  show ?case
  proof (cases "i < length src \<and> isJSONWhitespace (src ! i)")
    case True
    let ?w = "skipSpaceWords src (i + 1)"
    let ?k = "skipFour src ?w"
    have w: "?w \<le> length src" "Suc i \<le> ?w" "\<forall>j. Suc i \<le> j \<and> j < ?w \<longrightarrow> src ! j = 0x20"
      using True skipSpaceWords_run [of "i + 1" src] skipSpaceWords_ge [of "i + 1" src] by auto
    have k: "?k \<le> length src" "?w \<le> ?k" "\<forall>j. ?w \<le> j \<and> j < ?k \<longrightarrow> src ! j = 0x20"
      using w skipFour_run [of ?w src] skipFour_ge by auto
    have run: "\<forall>j. Suc i \<le> j \<and> j < ?k \<longrightarrow> src ! j = 0x20"
      using w(3) k(3) by (metis not_le)
    have "skipSpaceIndent src i = skipSpaceIndent src ?k"
      using True skip_step_eq [of "src ! i"] by (subst skipSpaceIndent.simps) (auto simp: Let_def)
    also have "\<dots> = first_stop (\<lambda>c. \<not> isJSONWhitespace c) src ?k (length src)"
      using 1 True skip_step_eq [of "src ! i"] k by auto
    finally show ?thesis using skip_first_stop [of i src ?k] True w k run by simp
  next
    case False
    then show ?thesis
      using 1 skip_step_eq [of "src ! i"]
      by (subst skipSpaceIndent.simps) (auto simp: Let_def first_stop_step)
  qed
qed

lemma matchFrom_iff:
  "i + length s \<le> length src \<Longrightarrow> matchFrom src i s \<longleftrightarrow> get_bytes i (length s) src = s"
proof (induction s arbitrary: i)
  case Nil
  then show ?case by (simp add: get_bytes_def)
next
  case (Cons c s)
  then have "get_bytes i (length (c # s)) src = src ! i # get_bytes (Suc i) (length s) src"
    by (simp add: get_bytes_def Cons_nth_drop_Suc [symmetric])
  then show ?case using Cons by simp
qed

lemma matchStringAt_iff:
  "i \<le> length src \<Longrightarrow>
   matchStringAt src i s \<longleftrightarrow> i + length s \<le> length src \<and> get_bytes i (length s) src = s"
  using matchFrom_iff [of i s src] by (auto simp: matchStringAt_def)

section \<open>String scanners (internal/scanner/scan_generic.go)\<close>

text \<open>The byte loop that ends every scanner, and the two word-stride shapes: 16 bytes then 8 then
  bytes (\<^verbatim>\<open>scanStringSpecialScalarUntil\<close>, \<^verbatim>\<open>scanStringSyntaxScalar\<close>), and 8 then bytes (the HTML
  scanners). The mask and the stop set of the byte loop are the two places where the Go copies of
  the loop differ.\<close>

function scanBytes :: "(byte \<Rightarrow> bool) \<Rightarrow> bytes \<Rightarrow> nat \<Rightarrow> nat \<Rightarrow> nat" where
  "scanBytes stop src i limit =
     (if i < limit then (if stop (src ! i) then i else scanBytes stop src (i + 1) limit) else limit)"
  by pat_completeness auto
termination
  by (relation "measure (\<lambda>(stop, src, i, limit). limit - i)") auto

function scanWords16 ::
  "(u64 \<Rightarrow> u64) \<Rightarrow> (byte \<Rightarrow> bool) \<Rightarrow> bytes \<Rightarrow> nat \<Rightarrow> nat \<Rightarrow> nat" where
  "scanWords16 lmask stop src i limit =
     (if i + 16 \<le> limit then
        (let m = lmask (load64 src i) in
         if m \<noteq> 0 then i + trailing_zeros64 m div 8
         else let m = lmask (load64 src (i + 8)) in
           if m \<noteq> 0 then i + 8 + trailing_zeros64 m div 8
           else scanWords16 lmask stop src (i + 16) limit)
      else if i + 8 \<le> limit then
        (let m = lmask (load64 src i) in
         if m \<noteq> 0 then i + trailing_zeros64 m div 8
         else scanBytes stop src (i + 8) limit)
      else scanBytes stop src i limit)"
  by pat_completeness auto
termination
  by (relation "measure (\<lambda>(lmask, stop, src, i, limit). limit - i)") auto

function scanWords8 ::
  "(u64 \<Rightarrow> u64) \<Rightarrow> (byte \<Rightarrow> bool) \<Rightarrow> bytes \<Rightarrow> nat \<Rightarrow> nat \<Rightarrow> nat" where
  "scanWords8 lmask stop src i limit =
     (if i + 8 \<le> limit then
        (let m = lmask (load64 src i) in
         if m \<noteq> 0 then i + trailing_zeros64 m div 8
         else scanWords8 lmask stop src (i + 8) limit)
      else scanBytes stop src i limit)"
  by pat_completeness auto
termination
  by (relation "measure (\<lambda>(lmask, stop, src, i, limit). limit - i)") auto

declare scanBytes.simps [simp del] scanWords16.simps [simp del] scanWords8.simps [simp del]

definition scanStringSpecialScalarUntil :: "bytes \<Rightarrow> nat \<Rightarrow> nat \<Rightarrow> nat" where
  "scanStringSpecialScalarUntil src i limit =
     scanWords16 stringSpecialMask (\<lambda>c. c = 0x22 \<or> c = 0x5C \<or> c < 0x20 \<or> c \<ge> 0x80) src i limit"

definition scanStringSpecialScalar :: "bytes \<Rightarrow> nat \<Rightarrow> nat" where
  "scanStringSpecialScalar src i = scanStringSpecialScalarUntil src i (length src)"

definition scanStringSyntaxScalar :: "bytes \<Rightarrow> nat \<Rightarrow> nat" where
  "scanStringSyntaxScalar src i =
     scanWords16 stringSyntaxMask (\<lambda>c. c = 0x22 \<or> c = 0x5C \<or> c < 0x20) src i (length src)"

definition scanEncodedHTMLSyntaxScalar :: "bytes \<Rightarrow> nat \<Rightarrow> nat" where
  "scanEncodedHTMLSyntaxScalar src i =
     scanWords8 htmlStringSyntaxMask
       (\<lambda>c. c = 0x22 \<or> c = 0x5C \<or> c = 0x3C \<or> c = 0x3E \<or> c = 0x26 \<or> c < 0x20) src i (length src)"

definition scanEncodedHTMLSpecialScalar :: "bytes \<Rightarrow> nat \<Rightarrow> nat" where
  "scanEncodedHTMLSpecialScalar src i =
     scanWords8 htmlStringSpecialMask
       (\<lambda>c. c = 0x22 \<or> c = 0x5C \<or> c = 0x3C \<or> c = 0x3E \<or> c = 0x26 \<or> c < 0x20 \<or> c \<ge> 0x80)
       src i (length src)"

text \<open>\<^verbatim>\<open>scanStringSpecialShort\<close> of \<^verbatim>\<open>scan.go\<close>: the tail shorter than a word, \<open>None\<close> when the code
  answers false and the caller takes the word path.\<close>

definition scanStringSpecialShort :: "bytes \<Rightarrow> nat \<Rightarrow> nat option" where
  "scanStringSpecialShort src i =
     (if int (length src) - int i \<ge> 8 then None
      else Some (scanBytes (\<lambda>c. c < 0x20 \<or> c \<ge> 0x80 \<or> c = 0x22 \<or> c = 0x5C) src i (length src)))"

text \<open>\<^verbatim>\<open>copyStringPrefix\<close> and \<^verbatim>\<open>copyHTMLStringPrefix\<close> of \<^verbatim>\<open>scan_default.go\<close>: the destination after
  the copy and the number of bytes copied; \<^verbatim>\<open>CopyStringPrefix\<close> of \<^verbatim>\<open>api.go\<close> answers -1
  (\<open>None\<close>) for a short destination or when \<^verbatim>\<open>slicesOverlap\<close>, the comparison of the two
  slices' addresses, holds; its outcome is the argument \<open>overlap\<close>.\<close>

definition CopyStringPrefix :: "bool \<Rightarrow> bytes \<Rightarrow> bytes \<Rightarrow> (bytes \<times> nat) option" where
  "CopyStringPrefix overlap dst src =
     (if length dst < length src then None
      else if overlap then None
      else let end = scanStringSpecialScalar src 0
           in Some (put_bytes 0 (take end src) dst, end))"

definition CopyHTMLStringPrefix :: "bool \<Rightarrow> bytes \<Rightarrow> bytes \<Rightarrow> (bytes \<times> nat) option" where
  "CopyHTMLStringPrefix overlap dst src =
     (if length dst < length src then None
      else if overlap then None
      else let end = scanEncodedHTMLSpecialScalar src 0
           in Some (put_bytes 0 (take end src) dst, end))"

text \<open>The contract of a mask: its first marked lane is the first byte of the class.\<close>

locale lane_mask =
  fixes lmask :: "u64 \<Rightarrow> u64" and stop :: "byte \<Rightarrow> bool"
  assumes mask_first_lane: "first_lane stop x (lmask x)"
begin

lemma word_hit:
  assumes "lmask (load64 src i) \<noteq> 0" "i + 8 \<le> limit" "limit \<le> length src"
  shows "first_stop stop src i limit = i + trailing_zeros64 (lmask (load64 src i)) div 8"
proof -
  let ?k = "trailing_zeros64 (lmask (load64 src i)) div 8"
  note hit = first_lane_trailing_zeros [OF mask_first_lane assms(1)]
  have len: "i + 8 \<le> length src" using assms by simp
  show ?thesis
  proof (rule first_stop_eqI)
    show "i + ?k \<le> limit" using hit(1) assms(2) by simp
    show "stop (src ! (i + ?k))"
      using hit(1,2) lane_load64 [OF _ len] by simp
    fix j assume j: "i \<le> j" "j < i + ?k"
    then have "\<not> stop (lane (j - i) (load64 src i))" using hit(3) [of "j - i"] by simp
    then show "\<not> stop (src ! j)"
      using j hit(1) lane_load64 [OF _ len, of "j - i"] by simp
  qed (use assms in auto)
qed

lemma word_miss:
  assumes "lmask (load64 src i) = 0" "i + 8 \<le> limit" "limit \<le> length src"
  shows "first_stop stop src i limit = first_stop stop src (i + 8) limit"
proof (rule first_stop_skip)
  fix j assume j: "i \<le> j" "j < i + 8"
  have "\<not> stop (lane (j - i) (load64 src i))"
    using first_lane_zero [of stop "load64 src i" "j - i"] mask_first_lane [of "load64 src i"] assms(1) j
    by simp
  then show "\<not> stop (src ! j)"
    using j assms lane_load64 [of "j - i" i src] by simp
qed (use assms in auto)

lemma bytes_eq:
  "i \<le> limit \<Longrightarrow> limit \<le> length src \<Longrightarrow> scanBytes stop src i limit = first_stop stop src i limit"
proof (induction stop src i limit rule: scanBytes.induct)
  case (1 stop src i limit)
  then show ?case by (subst scanBytes.simps) (auto simp: first_stop_step)
qed

lemma words8_eq:
  "i \<le> limit \<Longrightarrow> limit \<le> length src \<Longrightarrow> scanWords8 lmask stop src i limit = first_stop stop src i limit"
proof (induction "limit - i" arbitrary: i rule: less_induct)
  case less
  show ?case
  proof (cases "i + 8 \<le> limit \<and> lmask (load64 src i) = 0")
    case True
    then have "scanWords8 lmask stop src (i + 8) limit = first_stop stop src (i + 8) limit"
      using less.hyps [of "i + 8"] less.prems by (auto simp: diff_less_mono2)
    then show ?thesis using True less.prems word_miss by (subst scanWords8.simps) simp
  next
    case False
    then show ?thesis
      using less.prems word_hit [of src i limit] bytes_eq [of i limit src]
      by (subst scanWords8.simps) (auto simp: Let_def)
  qed
qed

lemma words16_eq:
  "i \<le> limit \<Longrightarrow> limit \<le> length src \<Longrightarrow> scanWords16 lmask stop src i limit = first_stop stop src i limit"
proof (induction "limit - i" arbitrary: i rule: less_induct)
  case less
  consider (both) "i + 16 \<le> limit" "lmask (load64 src i) = 0" "lmask (load64 src (i + 8)) = 0"
    | (second) "i + 16 \<le> limit" "lmask (load64 src i) = 0" "lmask (load64 src (i + 8)) \<noteq> 0"
    | (first) "i + 16 \<le> limit" "lmask (load64 src i) \<noteq> 0"
    | (short) "\<not> i + 16 \<le> limit"
    by blast
  then show ?case
  proof cases
    case both
    then have "scanWords16 lmask stop src (i + 16) limit = first_stop stop src (i + 16) limit"
      using less.hyps [of "i + 16"] less.prems by (auto simp: diff_less_mono2)
    then show ?thesis
      using both less.prems word_miss [of src i limit] word_miss [of src "i + 8" limit]
      by (subst scanWords16.simps) (simp add: Let_def add.assoc)
  next
    case second
    then show ?thesis
      using less.prems word_miss [of src i limit] word_hit [of src "i + 8" limit]
      by (subst scanWords16.simps) (simp add: Let_def)
  next
    case first
    then show ?thesis
      using less.prems word_hit [of src i limit] by (subst scanWords16.simps) (simp add: Let_def)
  next
    case short
    then show ?thesis
      using less.prems word_hit [of src i limit] word_miss [of src i limit]
        bytes_eq [of i limit src] bytes_eq [of "i + 8" limit src]
      by (subst scanWords16.simps) (auto simp: Let_def)
  qed
qed

end

interpretation special: lane_mask stringSpecialMask is_special_byte
  by unfold_locales (rule first_lane_special)

interpretation syntax_bytes: lane_mask stringSyntaxMask is_syntax_byte
  by unfold_locales (rule first_lane_syntax)

interpretation html_special: lane_mask htmlStringSpecialMask is_html_special_byte
  by unfold_locales (rule first_lane_html_special)

interpretation html_syntax: lane_mask htmlStringSyntaxMask is_html_syntax_byte
  by unfold_locales (rule first_lane_html_syntax)

lemma scanStringSpecialScalarUntil_eq:
  "i \<le> limit \<Longrightarrow> limit \<le> length src \<Longrightarrow>
   scanStringSpecialScalarUntil src i limit = first_stop is_special_byte src i limit"
  using special.words16_eq [of i limit src]
  by (simp add: scanStringSpecialScalarUntil_def is_special_byte_def [abs_def])

lemma scanStringSpecialScalar_eq:
  "i \<le> length src \<Longrightarrow> scanStringSpecialScalar src i = first_stop is_special_byte src i (length src)"
  by (simp add: scanStringSpecialScalar_def scanStringSpecialScalarUntil_eq)

lemma scanStringSyntaxScalar_eq:
  "i \<le> length src \<Longrightarrow> scanStringSyntaxScalar src i = first_stop is_syntax_byte src i (length src)"
  using syntax_bytes.words16_eq [of i "length src" src]
  by (simp add: scanStringSyntaxScalar_def is_syntax_byte_def [abs_def])

lemma scanEncodedHTMLSpecialScalar_eq:
  "i \<le> length src \<Longrightarrow>
   scanEncodedHTMLSpecialScalar src i = first_stop is_html_special_byte src i (length src)"
  using html_special.words8_eq [of i "length src" src]
  by (simp add: scanEncodedHTMLSpecialScalar_def is_html_special_byte_def [abs_def])

lemma scanEncodedHTMLSyntaxScalar_eq:
  "i \<le> length src \<Longrightarrow>
   scanEncodedHTMLSyntaxScalar src i = first_stop is_html_syntax_byte src i (length src)"
  using html_syntax.words8_eq [of i "length src" src]
  by (simp add: scanEncodedHTMLSyntaxScalar_def is_html_syntax_byte_def [abs_def])

lemma scanStringSpecialShort_eq:
  "i \<le> length src \<Longrightarrow> scanStringSpecialShort src i = Some r \<Longrightarrow>
   r = scanStringSpecialScalar src i"
proof -
  assume i: "i \<le> length src" and r: "scanStringSpecialShort src i = Some r"
  have "(\<lambda>c::byte. c < 0x20 \<or> c \<ge> 0x80 \<or> c = 0x22 \<or> c = 0x5C) = is_special_byte"
    by (auto simp: is_special_byte_def)
  then show ?thesis
    using i r special.bytes_eq [of i "length src" src]
    by (simp add: scanStringSpecialShort_def scanStringSpecialScalar_eq split: if_splits)
qed

section \<open>Properties\<close>

text \<open>C33. Each of the four word-at-a-time string scanners returns the position of the first byte of
  its class at or after the start, or the length of the input when there is none.\<close>

theorem scanners_find_first:
  assumes "i \<le> length src"
  shows "scanStringSpecialScalar src i = first_stop is_special_byte src i (length src) \<and>
    scanStringSyntaxScalar src i = first_stop is_syntax_byte src i (length src) \<and>
    scanEncodedHTMLSpecialScalar src i = first_stop is_html_special_byte src i (length src) \<and>
    scanEncodedHTMLSyntaxScalar src i = first_stop is_html_syntax_byte src i (length src)"
  using assms
  by (simp add: scanStringSpecialScalar_eq scanStringSyntaxScalar_eq scanEncodedHTMLSpecialScalar_eq
      scanEncodedHTMLSyntaxScalar_eq)

theorem scanners_find_first_witness:
  "scanStringSpecialScalar (ascii ''0123456789 abcdefgh & \"'') 2 = 22 \<and>
   scanEncodedHTMLSpecialScalar (ascii ''0123456789 abcdefgh & \"'') 2 = 20"
  using scanners_find_first [of 2 "ascii ''0123456789 abcdefgh & \"''"]
  by (simp add: first_stop_def is_special_byte_def is_html_special_byte_def)

text \<open>\<^verbatim>\<open>skipSpace\<close>, with its eight-space words, and \<^verbatim>\<open>skipSpaceIndent\<close>, with its extra
  four-space step, both return the first byte that is not JSON white space.\<close>

theorem skipSpace_variants_agree:
  assumes "i \<le> length src"
  shows "skipSpace src i = first_stop (\<lambda>c. \<not> isJSONWhitespace c) src i (length src) \<and>
    skipSpaceIndent src i = skipSpace src i"
  using assms by (simp add: skipSpace_first_stop skipSpaceIndent_first_stop)

theorem skipSpace_variants_agree_witness:
  "skipSpace (ascii ''            x'') 0 = 12 \<and> skipSpaceIndent (ascii ''            x'') 0 = 12"
  using skipSpace_variants_agree [of 0 "ascii ''            x''"]
  by (simp add: first_stop_def isJSONWhitespace_def)

text \<open>\<^verbatim>\<open>CopyStringPrefix\<close> copies exactly the longest prefix that needs no escaping: the first
  bytes of the destination become that prefix, the rest of the destination is untouched, and the byte
  after the prefix, if any, is special.\<close>

theorem CopyStringPrefix_copies:
  assumes "CopyStringPrefix overlap dst src = Some (dst', n)"
  shows "n \<le> length src \<and> take n dst' = take n src \<and> drop n dst' = drop n dst \<and>
    length dst' = length dst \<and> list_all (\<lambda>c. \<not> is_special_byte c) (take n src) \<and>
    (n = length src \<or> is_special_byte (src ! n))"
proof -
  have l: "length src \<le> length dst" and n: "n = first_stop is_special_byte src 0 (length src)"
    and d: "dst' = put_bytes 0 (take n src) dst"
    using assms by (auto simp: CopyStringPrefix_def Let_def scanStringSpecialScalar_eq split: if_splits)
  have n1: "n \<le> length src" using n first_stop_le [of 0 "length src" src] by simp
  moreover have "list_all (\<lambda>c. \<not> is_special_byte c) (take n src)"
    using n1 first_stop_before [of 0 _ is_special_byte src "length src"] n
    by (auto simp: list_all_length)
  moreover have "n = length src \<or> is_special_byte (src ! n)"
    using first_stop_hit [of is_special_byte src 0 "length src"] n n1 by fastforce
  ultimately show ?thesis using l d by (simp add: put_bytes_def min_absorb2)
qed

theorem CopyStringPrefix_copies_witness:
  "CopyStringPrefix False (ascii ''zzzzz'') (ascii ''ab\"c'') = Some (ascii ''abzzz'', 2) \<and>
   drop 2 (ascii ''abzzz'') = drop 2 (ascii ''zzzzz'')"
proof -
  have "CopyStringPrefix False (ascii ''zzzzz'') (ascii ''ab\"c'') = Some (ascii ''abzzz'', 2)"
    by (simp add: CopyStringPrefix_def scanStringSpecialScalar_eq first_stop_def is_special_byte_def put_bytes_def)
  with CopyStringPrefix_copies [OF this] show ?thesis by simp
qed

end
