(* ===== verification/JsonText.thy ===== *)
theory JsonText
  imports Utf8 Scanner
begin

text \<open>
  The specification side of the JSON components: an abstract syntax of JSON documents and, as
  inductive relations over byte strings, the RFC 8259 grammar with strict UTF-8 strings. Nothing
  here translates code; the validator and the string decoder are proved against these relations.
\<close>

section \<open>Slices\<close>

definition segment :: "bytes \<Rightarrow> nat \<Rightarrow> nat \<Rightarrow> bytes" where
  "segment src i j = take (j - i) (drop i src)"

lemma segment_same [simp]: "segment src i i = []"
  by (simp add: segment_def)

lemma length_segment [simp]: "j \<le> length src \<Longrightarrow> length (segment src i j) = j - i"
  by (simp add: segment_def)

lemma segment_append: "i \<le> j \<Longrightarrow> j \<le> k \<Longrightarrow> segment src i j @ segment src j k = segment src i k"
proof -
  assume "i \<le> j" "j \<le> k"
  then obtain a b where "j = i + a" "k = j + b" using le_Suc_ex by metis
  then show ?thesis by (simp add: segment_def take_add add.commute)
qed

lemma segment_Cons: "i < j \<Longrightarrow> j \<le> length src \<Longrightarrow> segment src i j = src ! i # segment src (Suc i) j"
  by (simp add: segment_def Cons_nth_drop_Suc [symmetric] take_Cons')

lemma segment_one: "i < length src \<Longrightarrow> segment src i (Suc i) = [src ! i]"
  by (simp add: segment_Cons)

lemma segment_snoc: "i \<le> j \<Longrightarrow> j < length src \<Longrightarrow> segment src i (Suc j) = segment src i j @ [src ! j]"
  using segment_append [of i j "Suc j" src] by (simp add: segment_one)

lemma nth_segment: "k < j - i \<Longrightarrow> j \<le> length src \<Longrightarrow> segment src i j ! k = src ! (i + k)"
  by (simp add: segment_def)

lemma segment_all_iff:
  assumes "j \<le> length src"
  shows "(\<forall>c \<in> set (segment src i j). P c) \<longleftrightarrow> (\<forall>k. i \<le> k \<and> k < j \<longrightarrow> P (src ! k))"
proof
  assume a: "\<forall>c \<in> set (segment src i j). P c"
  show "\<forall>k. i \<le> k \<and> k < j \<longrightarrow> P (src ! k)"
  proof (intro allI impI)
    fix k assume k: "i \<le> k \<and> k < j"
    then have "segment src i j ! (k - i) \<in> set (segment src i j)"
      using assms by (intro nth_mem) (simp, linarith)
    moreover have "segment src i j ! (k - i) = src ! k"
      using k assms by (subst nth_segment) auto
    ultimately show "P (src ! k)" using a by metis
  qed
next
  assume a: "\<forall>k. i \<le> k \<and> k < j \<longrightarrow> P (src ! k)"
  show "\<forall>c \<in> set (segment src i j). P c"
    using a assms by (auto simp: in_set_conv_nth nth_segment)
qed

text \<open>\<open>at src i t\<close>: the bytes of \<open>src\<close> from position \<open>i\<close> on are exactly \<open>t\<close>.\<close>

definition at :: "bytes \<Rightarrow> nat \<Rightarrow> bytes \<Rightarrow> bool" where
  "at src i t \<longleftrightarrow> i \<le> length src \<and> drop i src = t"

lemma at_append: "at src i (s @ t) \<Longrightarrow> at src (i + length s) t"
  unfolding at_def
proof -
  assume a: "i \<le> length src \<and> drop i src = s @ t"
  then have "length src - i = length s + length t"
    by (metis length_append length_drop)
  moreover have "drop (i + length s) src = t"
    by (metis a add.commute append_eq_conv_conj drop_drop)
  ultimately show "i + length s \<le> length src \<and> drop (i + length s) src = t"
    using a by (auto simp: add.commute)
qed

lemma at_Cons: "at src i (c # t) \<Longrightarrow> i < length src \<and> src ! i = c \<and> at src (Suc i) t"
  using at_append [of src i "[c]" t] by (auto simp: at_def nth_via_drop intro: leI ccontr)

lemma at_Nil: "at src i [] \<longleftrightarrow> i = length src"
  by (auto simp: at_def)

lemma at_length: "at src i t \<Longrightarrow> length src = i + length t"
  by (auto simp: at_def)

lemma at_nth: "at src i (s @ t) \<Longrightarrow> k < length s \<Longrightarrow> src ! (i + k) = s ! k"
  by (auto simp: at_def nth_append dest!: arg_cong [where f = "\<lambda>xs. xs ! k"])

lemma at_segment: "at src i (s @ t) \<Longrightarrow> segment src i (i + length s) = s"
  by (simp add: at_def segment_def)

lemma at_refl: "i \<le> length src \<Longrightarrow> at src i (drop i src)"
  by (simp add: at_def)

section \<open>Grammar\<close>

definition isDigit :: "byte \<Rightarrow> bool" where
  "isDigit c \<longleftrightarrow> 0x30 \<le> c \<and> c \<le> 0x39"

definition isOneNine :: "byte \<Rightarrow> bool" where
  "isOneNine c \<longleftrightarrow> 0x31 \<le> c \<and> c \<le> 0x39"

definition ws :: "bytes \<Rightarrow> bool" where
  "ws t \<longleftrightarrow> (\<forall>c \<in> set t. isJSONWhitespace c)"

definition digits :: "bytes \<Rightarrow> bool" where
  "digits t \<longleftrightarrow> (\<forall>c \<in> set t. isDigit c)"

definition int_text :: "bytes \<Rightarrow> bool" where
  "int_text t \<longleftrightarrow> t = [0x30] \<or> (\<exists>c ds. t = c # ds \<and> isOneNine c \<and> digits ds)"

definition frac_text :: "bytes \<Rightarrow> bool" where
  "frac_text t \<longleftrightarrow> t = [] \<or> (\<exists>ds. t = 0x2E # ds \<and> ds \<noteq> [] \<and> digits ds)"

definition exp_text :: "bytes \<Rightarrow> bool" where
  "exp_text t \<longleftrightarrow> t = [] \<or>
     (\<exists>e sg ds. t = e # sg @ ds \<and> (e = 0x65 \<or> e = 0x45) \<and>
        (sg = [] \<or> sg = [0x2B] \<or> sg = [0x2D]) \<and> ds \<noteq> [] \<and> digits ds)"

definition number_text :: "bytes \<Rightarrow> bool" where
  "number_text t \<longleftrightarrow>
     (\<exists>sg n f e. t = sg @ n @ f @ e \<and> (sg = [] \<or> sg = [0x2D]) \<and>
        int_text n \<and> frac_text f \<and> exp_text e)"

definition isHex :: "byte \<Rightarrow> bool" where
  "isHex c \<longleftrightarrow> 0x30 \<le> c \<and> c \<le> 0x39 \<or> 0x61 \<le> c \<and> c \<le> 0x66 \<or> 0x41 \<le> c \<and> c \<le> 0x46"

definition hexval :: "byte \<Rightarrow> nat" where
  "hexval c =
     (if c \<le> 0x39 then unat c - 0x30 else if c \<le> 0x46 then unat c - 0x41 + 10
      else unat c - 0x61 + 10)"

fun hexnum :: "bytes \<Rightarrow> nat" where
  "hexnum [] = 0"
| "hexnum (c # cs) = hexval c * 16 ^ length cs + hexnum cs"

definition hex_quad :: "bytes \<Rightarrow> bool" where
  "hex_quad h \<longleftrightarrow> length h = 4 \<and> (\<forall>c \<in> set h. isHex c)"

definition simple_escape :: "byte \<Rightarrow> byte option" where
  "simple_escape c =
     (if c = 0x22 \<or> c = 0x5C \<or> c = 0x2F then Some c
      else if c = 0x62 then Some 0x08 else if c = 0x66 then Some 0x0C
      else if c = 0x6E then Some 0x0A else if c = 0x72 then Some 0x0D
      else if c = 0x74 then Some 0x09 else None)"

text \<open>\<open>string_text raw rs\<close>: \<open>raw\<close> is the inside of a JSON string literal and \<open>rs\<close> the code points
  it denotes.\<close>

inductive string_text :: "bytes \<Rightarrow> rune list \<Rightarrow> bool" where
  empty: "string_text [] []"
| plain: "is_scalar r \<Longrightarrow> 0x20 \<le> r \<Longrightarrow> r \<noteq> 0x22 \<Longrightarrow> r \<noteq> 0x5C \<Longrightarrow> string_text t rs \<Longrightarrow>
    string_text (encodeRune r @ t) (r # rs)"
| escape: "simple_escape c = Some d \<Longrightarrow> string_text t rs \<Longrightarrow>
    string_text (0x5C # c # t) (unat d # rs)"
| unicode: "hex_quad h \<Longrightarrow> \<not> is_surrogate (hexnum h) \<Longrightarrow> string_text t rs \<Longrightarrow>
    string_text (0x5C # 0x75 # h @ t) (hexnum h # rs)"
| surrogates: "hex_quad h \<Longrightarrow> hex_quad l \<Longrightarrow>
    0xD800 \<le> hexnum h \<Longrightarrow> hexnum h \<le> 0xDBFF \<Longrightarrow> 0xDC00 \<le> hexnum l \<Longrightarrow> hexnum l \<le> 0xDFFF \<Longrightarrow>
    string_text t rs \<Longrightarrow>
    string_text (0x5C # 0x75 # h @ 0x5C # 0x75 # l @ t) (utf16_decode (hexnum h) (hexnum l) # rs)"

datatype json =
    JNull | JTrue | JFalse
  | JNumber bytes
  | JString "rune list"
  | JArray "json list"
  | JObject "(rune list \<times> json) list"

fun jdepth :: "json \<Rightarrow> nat" where
  "jdepth (JArray vs) = Suc (foldr (\<lambda>v. max (jdepth v)) vs 0)"
| "jdepth (JObject ms) = Suc (foldr (\<lambda>m. max (jdepth (snd m))) ms 0)"
| "jdepth _ = 0"

inductive json_text :: "json \<Rightarrow> bytes \<Rightarrow> bool"
  and elems_text :: "json list \<Rightarrow> bytes \<Rightarrow> bool"
  and members_text :: "(rune list \<times> json) list \<Rightarrow> bytes \<Rightarrow> bool" where
  null: "json_text JNull (ascii ''null'')"
| true: "json_text JTrue (ascii ''true'')"
| false: "json_text JFalse (ascii ''false'')"
| number: "number_text t \<Longrightarrow> json_text (JNumber t) t"
| str: "string_text t rs \<Longrightarrow> json_text (JString rs) (0x22 # t @ [0x22])"
| array_empty: "ws w \<Longrightarrow> json_text (JArray []) (0x5B # w @ [0x5D])"
| array: "elems_text vs t \<Longrightarrow> json_text (JArray vs) (0x5B # t @ [0x5D])"
| object_empty: "ws w \<Longrightarrow> json_text (JObject []) (0x7B # w @ [0x7D])"
| object: "members_text ms t \<Longrightarrow> json_text (JObject ms) (0x7B # t @ [0x7D])"
| elems_one: "ws a \<Longrightarrow> json_text v t \<Longrightarrow> ws b \<Longrightarrow> elems_text [v] (a @ t @ b)"
| elems_cons: "ws a \<Longrightarrow> json_text v t \<Longrightarrow> ws b \<Longrightarrow> elems_text vs u \<Longrightarrow>
    elems_text (v # vs) (a @ t @ b @ 0x2C # u)"
| members_one: "ws a \<Longrightarrow> string_text k rs \<Longrightarrow> ws b \<Longrightarrow> ws c \<Longrightarrow> json_text v t \<Longrightarrow> ws d \<Longrightarrow>
    members_text [(rs, v)] (a @ (0x22 # k @ [0x22]) @ b @ (0x3A # c @ t @ d))"
| members_cons: "ws a \<Longrightarrow> string_text k rs \<Longrightarrow> ws b \<Longrightarrow> ws c \<Longrightarrow> json_text v t \<Longrightarrow> ws d \<Longrightarrow>
    members_text ms u \<Longrightarrow>
    members_text ((rs, v) # ms) (a @ (0x22 # k @ [0x22]) @ b @ (0x3A # c @ t @ d @ 0x2C # u))"

text \<open>A whole document: one value between optional whitespace.\<close>

definition document_text :: "json \<Rightarrow> bytes \<Rightarrow> bool" where
  "document_text v src \<longleftrightarrow> (\<exists>a t b. src = a @ t @ b \<and> ws a \<and> json_text v t \<and> ws b)"

lemma ws_Nil [simp]: "ws []" by (simp add: ws_def)

lemma ws_append [simp]: "ws (a @ b) \<longleftrightarrow> ws a \<and> ws b" by (auto simp: ws_def)

lemma ws_Cons [simp]: "ws (c # b) \<longleftrightarrow> isJSONWhitespace c \<and> ws b" by (simp add: ws_def)

lemma digits_Nil [simp]: "digits []" by (simp add: digits_def)

lemma digits_append [simp]: "digits (a @ b) \<longleftrightarrow> digits a \<and> digits b" by (auto simp: digits_def)

lemma digits_Cons [simp]: "digits (c # b) \<longleftrightarrow> isDigit c \<and> digits b" by (simp add: digits_def)

lemma isOneNine_isDigit: "isOneNine c \<Longrightarrow> isDigit c"
  by (auto simp: isOneNine_def isDigit_def elim: order_trans [rotated])

end
