(* ===== verification/Validator.thy ===== *)
theory Validator
  imports JsonText
begin

text \<open>
  The scalar validation oracle of \<^verbatim>\<open>validate.go\<close> with the helpers it calls: \<^verbatim>\<open>syntaxError\<close> of
  \<^verbatim>\<open>error.go\<close>, \<^verbatim>\<open>hex4\<close> of \<^verbatim>\<open>parser.go\<close>, and the UTF-8 run scanner of
  \<^verbatim>\<open>internal/scanner/scan_generic.go\<close>. The state is the \<^verbatim>\<open>validator\<close> struct as a record; every
  error return is a value \<open>Inl e\<close>. The recursive descent takes fuel (\<open>None\<close> is out of fuel);
  \<open>validator_total\<close> shows that \<open>length src + 1\<close> units always suffice.
\<close>

section \<open>Errors (error.go)\<close>

datatype syntax_msg =
    MaxDepthExceeded | ExpectedValue | UnexpectedByte byte | InvalidLiteral
  | UnterminatedArray | ExpectedCommaOrBracket | ExpectedKey | ExpectedColon
  | UnterminatedObject | ExpectedCommaOrBrace | InvalidNumber | InvalidFraction
  | InvalidExponent | UnterminatedString | UnterminatedEscape | ControlByte
  | InvalidUTF8 | InvalidEscape | InvalidUnicodeEscape | MissingLowSurrogate
  | InvalidLowSurrogate | UnexpectedLowSurrogate | TrailingData | TrailingAfterNumber
  | ExpectedString | TrailingAfterString | UnexpectedValueByte

record SyntaxError =
  Offset :: nat
  Line :: nat
  Column :: nat
  Message :: syntax_msg

fun lineCol :: "bytes \<Rightarrow> nat \<Rightarrow> nat \<Rightarrow> nat \<times> nat" where
  "lineCol [] line col = (line, col)"
| "lineCol (c # cs) line col =
     (if c = 0x0A then lineCol cs (line + 1) 1 else lineCol cs line (col + 1))"

definition syntaxError :: "bytes \<Rightarrow> int \<Rightarrow> syntax_msg \<Rightarrow> SyntaxError" where
  "syntaxError src off msg =
     (let off = (if off < 0 then 0 else off);
          off = (if off > int (length src) then int (length src) else off);
          (line, col) = lineCol (take (nat off) src) 1 1
      in \<lparr>Offset = nat off, Line = line, Column = col, Message = msg\<rparr>)"

section \<open>Numbers\<close>

function scanDigits :: "bytes \<Rightarrow> nat \<Rightarrow> nat" where
  "scanDigits src i = (if i < length src \<and> isDigit (src ! i) then scanDigits src (i + 1) else i)"
  by pat_completeness auto
termination
  by (relation "measure (\<lambda>(src, i). length src - i)") auto

declare scanDigits.simps [simp del]

text \<open>\<^verbatim>\<open>scanNumber\<close>, cut at its three phases: the end position and the error message, if any.\<close>

definition scanExponent :: "bytes \<Rightarrow> nat \<Rightarrow> nat \<times> syntax_msg option" where
  "scanExponent src i =
     (if i < length src \<and> (src ! i = 0x65 \<or> src ! i = 0x45) then
        (let i = i + 1;
             i = (if i < length src \<and> (src ! i = 0x2B \<or> src ! i = 0x2D) then i + 1 else i)
         in if i \<ge> length src \<or> \<not> isDigit (src ! i) then (i, Some InvalidExponent)
            else (scanDigits src i, None))
      else (i, None))"

definition scanFraction :: "bytes \<Rightarrow> nat \<Rightarrow> nat \<times> syntax_msg option" where
  "scanFraction src i =
     (if i < length src \<and> src ! i = 0x2E then
        (let i = i + 1
         in if i \<ge> length src \<or> \<not> isDigit (src ! i) then (i, Some InvalidFraction)
            else scanExponent src (scanDigits src i))
      else scanExponent src i)"

definition scanInteger :: "bytes \<Rightarrow> nat \<Rightarrow> nat \<times> syntax_msg option" where
  "scanInteger src i =
     (if src ! i = 0x30 then scanFraction src (i + 1)
      else if isOneNine (src ! i) then scanFraction src (scanDigits src (i + 1))
      else (i, Some InvalidNumber))"

definition scanNumber :: "bytes \<Rightarrow> nat \<Rightarrow> nat \<times> syntax_msg option" where
  "scanNumber src i =
     (if i \<ge> length src then (i, Some InvalidNumber)
      else if src ! i = 0x2D then
        (if i + 1 \<ge> length src then (i + 1, Some InvalidNumber) else scanInteger src (i + 1))
      else scanInteger src i)"

definition validateNumber :: "bytes \<Rightarrow> SyntaxError option" where
  "validateNumber src =
     (case scanNumber src 0 of
        (_, Some msg) \<Rightarrow> Some (syntaxError src 0 msg)
      | (end, None) \<Rightarrow>
          if end \<noteq> length src then Some (syntaxError src (int end) TrailingAfterNumber) else None)"

definition validNumber :: "bytes \<Rightarrow> bool" where
  "validNumber src = (case scanNumber src 0 of (end, msg) \<Rightarrow> msg = None \<and> end = length src)"

section \<open>Strings\<close>

definition hexNibbleTable :: "byte \<Rightarrow> byte" where
  "hexNibbleTable c =
     (if 0x30 \<le> c \<and> c \<le> 0x39 then c - 0x30
      else if 0x61 \<le> c \<and> c \<le> 0x66 then c - 0x61 + 10
      else if 0x41 \<le> c \<and> c \<le> 0x46 then c - 0x41 + 10
      else 0xFF)"

definition hex4 :: "bytes \<Rightarrow> nat \<Rightarrow> u16 \<times> bool" where
  "hex4 src i =
     (if i + 4 > length src then (0, False)
      else let a = hexNibbleTable (src ! i); b = hexNibbleTable (src ! (i + 1));
               c = hexNibbleTable (src ! (i + 2)); d = hexNibbleTable (src ! (i + 3))
           in (push_bit 12 (ucast a) OR push_bit 8 (ucast b) OR push_bit 4 (ucast c) OR ucast d,
               a OR b OR c OR d < 0x10))"

text \<open>The loop of \<^verbatim>\<open>invalidUTF8Index\<close>. Its callers pass \<open>end \<le> length src\<close> (a larger end is a slice
  panic in Go).\<close>

function invalidUTF8From :: "bytes \<Rightarrow> nat \<Rightarrow> nat \<Rightarrow> nat" where
  "invalidUTF8From src start end =
     (if start < end \<and> end \<le> length src then
        (case decodeRune (segment src start end) of
           (r, n) \<Rightarrow> if r = RuneError \<and> n = 1 then start else invalidUTF8From src (start + n) end)
      else end)"
  by pat_completeness auto
termination
proof (relation "measure (\<lambda>(src, start, end). end - start)")
  fix src :: bytes and start "end" r n
  assume a: "start < end \<and> end \<le> length src" "(r, n) = decodeRune (segment src start end)"
  then have "segment src start end \<noteq> []" by (simp add: segment_Cons)
  from decodeRune_width [OF this] have "0 < n" using a(2) by (metis snd_conv)
  then show "((src, start + n, end), (src, start, end)) \<in> measure (\<lambda>(src, start, end). end - start)"
    using a(1) by (simp add: diff_less_mono2)
qed simp

declare invalidUTF8From.simps [simp del]

text \<open>The first byte of an invalid sequence, \<open>None\<close> for the code's -1.\<close>

definition invalidUTF8Index :: "bytes \<Rightarrow> nat \<Rightarrow> nat \<Rightarrow> nat option" where
  "invalidUTF8Index src start end =
     (if utf8_valid (segment src start end) then None else Some (invalidUTF8From src start end))"

definition scanStringUnicodeRun :: "bytes \<Rightarrow> nat \<Rightarrow> nat \<times> nat option" where
  "scanStringUnicodeRun src i =
     (if int (length src) - int i < 32 then
        (case decodeRune (drop i src) of
           (r, n) \<Rightarrow> if r = RuneError \<and> n = 1 then (i, Some i) else (i + n, None))
      else let next = scanStringSyntaxScalar src i in (next, invalidUTF8Index src i next))"

text \<open>\<^verbatim>\<open>validateUnicodeEscape\<close> and \<^verbatim>\<open>validateEscape\<close>: \<open>i\<close> is the position after the backslash, the
  result the position after the escape.\<close>

definition validateUnicodeEscape :: "bytes \<Rightarrow> nat \<Rightarrow> SyntaxError + nat" where
  "validateUnicodeEscape src i =
     (let start = int i - 1; i = i + 1; (u, ok) = hex4 src i in
      if \<not> ok then Inl (syntaxError src start InvalidUnicodeEscape)
      else let i = i + 4; r = unat u in
        if 0xD800 \<le> r \<and> r \<le> 0xDBFF then
          (if i + 6 > length src \<or> src ! i \<noteq> 0x5C \<or> src ! (i + 1) \<noteq> 0x75
           then Inl (syntaxError src start MissingLowSurrogate)
           else let i = i + 2; (lo, ok) = hex4 src i in
             if \<not> ok then Inl (syntaxError src start InvalidLowSurrogate)
             else let i = i + 4; lor = unat lo in
               if lor < 0xDC00 \<or> lor > 0xDFFF then Inl (syntaxError src start InvalidLowSurrogate)
               else Inr i)
        else if 0xDC00 \<le> r \<and> r \<le> 0xDFFF then Inl (syntaxError src start UnexpectedLowSurrogate)
        else Inr i)"

definition validateEscape :: "bytes \<Rightarrow> nat \<Rightarrow> SyntaxError + nat" where
  "validateEscape src i =
     (let c = src ! i in
      if c = 0x22 \<or> c = 0x5C \<or> c = 0x2F \<or> c = 0x62 \<or> c = 0x66 \<or> c = 0x6E \<or> c = 0x72 \<or> c = 0x74
      then Inr (i + 1)
      else if c = 0x75 then validateUnicodeEscape src i
      else Inl (syntaxError src (int i - 1) InvalidEscape))"

lemma validateEscape_progress: "validateEscape src i = Inr i' \<Longrightarrow> i < i'"
  by (auto simp: validateEscape_def validateUnicodeEscape_def Let_def
      split: if_splits prod.splits)

lemma scanStringUnicodeRun_progress:
  assumes "scanStringUnicodeRun src i = (next, None)" "i < length src" "0x80 \<le> src ! i"
  shows "i < next"
proof (cases "int (length src) - int i < 32")
  case True
  have "0 < snd (decodeRune (drop i src))"
    using decodeRune_width [of "drop i src"] assms(2) by simp
  then show ?thesis using assms True
    by (auto simp: scanStringUnicodeRun_def split: prod.splits if_splits)
next
  case False
  then have "next = first_stop is_syntax_byte src i (length src)"
    using assms by (simp add: scanStringUnicodeRun_def scanStringSyntaxScalar_eq Let_def)
  moreover have "\<not> is_syntax_byte (src ! i)"
    using assms(3) by (auto simp: is_syntax_byte_def word_le_nat_alt word_less_nat_alt)
  ultimately show ?thesis
    using assms(2) first_stop_ge [of "Suc i" is_syntax_byte src "length src"]
    by (simp add: first_stop_step)
qed

lemma scanStringSpecialScalar_ge:
  assumes "scanStringSpecialScalar src i < length src"
  shows "i \<le> scanStringSpecialScalar src i"
    and "is_special_byte (src ! scanStringSpecialScalar src i)"
proof -
  have "i \<le> length src"
  proof (rule ccontr)
    assume "\<not> i \<le> length src"
    then have "scanStringSpecialScalar src i = length src"
      by (simp add: scanStringSpecialScalar_def scanStringSpecialScalarUntil_def
          scanWords16.simps scanBytes.simps)
    then show False using assms by simp
  qed
  then show "i \<le> scanStringSpecialScalar src i"
    "is_special_byte (src ! scanStringSpecialScalar src i)"
    using assms first_stop_ge first_stop_hit [of is_special_byte src i "length src"]
    by (simp_all add: scanStringSpecialScalar_eq)
qed

text \<open>The loop of \<^verbatim>\<open>parseString\<close> from position \<open>i\<close>.\<close>

function parseStringFrom :: "bytes \<Rightarrow> nat \<Rightarrow> SyntaxError + nat" where
  "parseStringFrom src i =
     (let j = scanStringSpecialScalar src i in
      if j \<ge> length src then Inl (syntaxError src (int (length src)) UnterminatedString)
      else let c = src ! j in
      if c = 0x22 then Inr (j + 1)
      else if c = 0x5C then
        (if j + 1 \<ge> length src then Inl (syntaxError src (int (j + 1)) UnterminatedEscape)
         else case validateEscape src (j + 1) of
           Inl e \<Rightarrow> Inl e
         | Inr i' \<Rightarrow> parseStringFrom src i')
      else if c < 0x20 then Inl (syntaxError src (int j) ControlByte)
      else case scanStringUnicodeRun src j of
        (_, Some bad) \<Rightarrow> Inl (syntaxError src (int bad) InvalidUTF8)
      | (next, None) \<Rightarrow> parseStringFrom src next)"
  by pat_completeness auto
termination
proof (relation "measure (\<lambda>(src, i). length src - i)")
  fix src :: bytes and i j i' :: nat and c
  assume a: "j = scanStringSpecialScalar src i" "\<not> j \<ge> length src"
    "validateEscape src (j + 1) = Inr i'"
  then have "i \<le> j" "j + 1 < i'"
    using scanStringSpecialScalar_ge(1) [of src i] validateEscape_progress by auto
  then show "((src, i'), (src, i)) \<in> measure (\<lambda>(src, i). length src - i)" using a(2) by simp
next
  fix src :: bytes and i j n n' :: nat and c z b
  assume a: "j = scanStringSpecialScalar src i" "\<not> j \<ge> length src"
    "c = src ! j" "c \<noteq> 0x22" "c \<noteq> 0x5C" "\<not> c < 0x20"
    "(n, b) = scanStringUnicodeRun src j" "b = None"
  then have "i \<le> j" "0x80 \<le> src ! j"
    using scanStringSpecialScalar_ge [of src i] by (auto simp: is_special_byte_def)
  then have "j < n" using a(2,7,8) scanStringUnicodeRun_progress [of src j n] by simp
  then show "((src, n), (src, i)) \<in> measure (\<lambda>(src, i). length src - i)"
    using a(2) \<open>i \<le> j\<close> by simp
qed simp

declare parseStringFrom.simps [simp del]

section \<open>The recursive descent\<close>

text \<open>\<^verbatim>\<open>layout\<close> counts containers, array values and object members while the validator runs; the
  first 64 container counts are inline, the rest in \<^verbatim>\<open>overflow\<close>.\<close>

record layout =
  inline_counts :: "nat list"
  overflow :: "nat list"
  ncontainers :: nat
  nvalues :: nat
  nmembers :: nat

definition empty_layout :: layout where
  "empty_layout =
     \<lparr>inline_counts = replicate 64 0, overflow = [], ncontainers = 0, nvalues = 0, nmembers = 0\<rparr>"

record validator =
  v_src :: bytes
  v_i :: nat
  v_maxDepth :: nat
  v_layout :: "layout option"

definition addContainer :: "layout \<Rightarrow> nat \<times> layout" where
  "addContainer l =
     (let idx = ncontainers l; l = l\<lparr>ncontainers := ncontainers l + 1\<rparr>;
          l = (if idx \<ge> length (inline_counts l) then l\<lparr>overflow := overflow l @ [0]\<rparr> else l)
      in (idx, l))"

definition setContainer :: "nat \<Rightarrow> nat \<Rightarrow> layout \<Rightarrow> layout" where
  "setContainer idx count l =
     (if idx < length (inline_counts l) then l\<lparr>inline_counts := (inline_counts l)[idx := count]\<rparr>
      else l\<lparr>overflow := (overflow l)[idx - length (inline_counts l) := count]\<rparr>)"

definition v_err :: "validator \<Rightarrow> int \<Rightarrow> syntax_msg \<Rightarrow> SyntaxError" where
  "v_err v off msg = syntaxError (v_src v) off msg"

definition v_skipSpace :: "validator \<Rightarrow> validator" where
  "v_skipSpace v = v\<lparr>v_i := skipSpace (v_src v) (v_i v)\<rparr>"

definition v_advance :: "validator \<Rightarrow> validator" where
  "v_advance v = v\<lparr>v_i := v_i v + 1\<rparr>"

text \<open>\<^verbatim>\<open>v.src[v.i] == c\<close> behind its bounds check.\<close>

definition v_at :: "validator \<Rightarrow> byte \<Rightarrow> bool" where
  "v_at v c \<longleftrightarrow> v_i v < length (v_src v) \<and> v_src v ! v_i v = c"

definition parseLiteral :: "bytes \<Rightarrow> validator \<Rightarrow> SyntaxError + validator" where
  "parseLiteral lit v =
     (if \<not> matchStringAt (v_src v) (v_i v) lit then Inl (v_err v (int (v_i v)) InvalidLiteral)
      else Inr (v\<lparr>v_i := v_i v + length lit\<rparr>))"

definition parseNumber :: "validator \<Rightarrow> SyntaxError + validator" where
  "parseNumber v =
     (case scanNumber (v_src v) (v_i v) of
        (_, Some msg) \<Rightarrow> Inl (v_err v (int (v_i v)) msg)
      | (end, None) \<Rightarrow> Inr (v\<lparr>v_i := end\<rparr>))"

definition parseString :: "validator \<Rightarrow> SyntaxError + validator" where
  "parseString v =
     (case parseStringFrom (v_src v) (v_i v + 1) of
        Inl e \<Rightarrow> Inl e
      | Inr i \<Rightarrow> Inr (v\<lparr>v_i := i\<rparr>))"

text \<open>Entering a container: step over the bracket and, with a layout, reserve its count slot.\<close>

definition openContainer :: "validator \<Rightarrow> nat option \<times> validator" where
  "openContainer v =
     (case v_layout v of
        None \<Rightarrow> (None, v_advance v)
      | Some l \<Rightarrow> (case addContainer l of
           (idx, l) \<Rightarrow> (Some idx, (v_advance v)\<lparr>v_layout := Some l\<rparr>)))"

definition closeContainer :: "nat option \<Rightarrow> nat \<Rightarrow> validator \<Rightarrow> validator" where
  "closeContainer countIndex count v =
     (case countIndex of
        None \<Rightarrow> v_advance v
      | Some idx \<Rightarrow> (v_advance v)\<lparr>v_layout := map_option (setContainer idx count) (v_layout v)\<rparr>)"

definition countValue :: "validator \<Rightarrow> validator" where
  "countValue v = v\<lparr>v_layout := map_option (\<lambda>l. l\<lparr>nvalues := nvalues l + 1\<rparr>) (v_layout v)\<rparr>"

definition countMember :: "validator \<Rightarrow> validator" where
  "countMember v = v\<lparr>v_layout := map_option (\<lambda>l. l\<lparr>nmembers := nmembers l + 1\<rparr>) (v_layout v)\<rparr>"

text \<open>The recursive descent. \<open>parseElems\<close> and \<open>parseMembers\<close> are the loops of \<^verbatim>\<open>parseArray\<close> and
  \<^verbatim>\<open>parseObject\<close>; they and the two functions take the value parser \<open>pv\<close> as an argument, and
  \<open>parseValue\<close> closes the knot on its fuel. \<open>None\<close> is running out of fuel, \<open>Inl\<close> the returned error.\<close>

fun parseElems ::
  "(nat \<Rightarrow> validator \<Rightarrow> (SyntaxError + validator) option) \<Rightarrow> nat \<Rightarrow> nat \<Rightarrow> nat option \<Rightarrow> nat \<Rightarrow> validator
     \<Rightarrow> (SyntaxError + validator) option" where
  "parseElems pv 0 depth countIndex count v = None"
| "parseElems pv (Suc n) depth countIndex count v =
     (case pv depth (v_skipSpace v) of
        None \<Rightarrow> None
      | Some (Inl e) \<Rightarrow> Some (Inl e)
      | Some (Inr v) \<Rightarrow>
          let count = count + 1; v = v_skipSpace (countValue v) in
          if v_i v \<ge> length (v_src v) then Some (Inl (v_err v (int (v_i v)) UnterminatedArray))
          else if v_src v ! v_i v = 0x2C then parseElems pv n depth countIndex count (v_advance v)
          else if v_src v ! v_i v = 0x5D then Some (Inr (closeContainer countIndex count v))
          else Some (Inl (v_err v (int (v_i v)) ExpectedCommaOrBracket)))"

definition parseArray ::
  "(nat \<Rightarrow> validator \<Rightarrow> (SyntaxError + validator) option) \<Rightarrow> nat \<Rightarrow> validator
     \<Rightarrow> (SyntaxError + validator) option" where
  "parseArray pv depth v =
     (if depth > v_maxDepth v then Some (Inl (v_err v (int (v_i v)) MaxDepthExceeded))
      else case openContainer v of (countIndex, v) \<Rightarrow>
        let v = v_skipSpace v in
        if v_at v 0x5D then Some (Inr (v_advance v))
        else parseElems pv (length (v_src v) + 1) depth countIndex 0 v)"

fun parseMembers ::
  "(nat \<Rightarrow> validator \<Rightarrow> (SyntaxError + validator) option) \<Rightarrow> nat \<Rightarrow> nat \<Rightarrow> nat option \<Rightarrow> nat \<Rightarrow> validator
     \<Rightarrow> (SyntaxError + validator) option" where
  "parseMembers pv 0 depth countIndex count v = None"
| "parseMembers pv (Suc n) depth countIndex count v =
     (let v = v_skipSpace v in
      if \<not> v_at v 0x22 then Some (Inl (v_err v (int (v_i v)) ExpectedKey))
      else case parseString v of
        Inl e \<Rightarrow> Some (Inl e)
      | Inr v \<Rightarrow>
          let v = v_skipSpace v in
          if \<not> v_at v 0x3A then Some (Inl (v_err v (int (v_i v)) ExpectedColon))
          else case pv depth (v_skipSpace (v_advance v)) of
            None \<Rightarrow> None
          | Some (Inl e) \<Rightarrow> Some (Inl e)
          | Some (Inr v) \<Rightarrow>
              let count = count + 1; v = v_skipSpace (countMember v) in
              if v_i v \<ge> length (v_src v)
              then Some (Inl (v_err v (int (v_i v)) UnterminatedObject))
              else if v_src v ! v_i v = 0x2C then parseMembers pv n depth countIndex count (v_advance v)
              else if v_src v ! v_i v = 0x7D then Some (Inr (closeContainer countIndex count v))
              else Some (Inl (v_err v (int (v_i v)) ExpectedCommaOrBrace)))"

definition parseObject ::
  "(nat \<Rightarrow> validator \<Rightarrow> (SyntaxError + validator) option) \<Rightarrow> nat \<Rightarrow> validator
     \<Rightarrow> (SyntaxError + validator) option" where
  "parseObject pv depth v =
     (if depth > v_maxDepth v then Some (Inl (v_err v (int (v_i v)) MaxDepthExceeded))
      else case openContainer v of (countIndex, v) \<Rightarrow>
        let v = v_skipSpace v in
        if v_at v 0x7D then Some (Inr (v_advance v))
        else parseMembers pv (length (v_src v) + 1) depth countIndex 0 v)"

fun parseValue :: "nat \<Rightarrow> nat \<Rightarrow> validator \<Rightarrow> (SyntaxError + validator) option" where
  "parseValue 0 depth v = None"
| "parseValue (Suc n) depth v =
     (if depth > v_maxDepth v then Some (Inl (v_err v (int (v_i v)) MaxDepthExceeded))
      else if v_i v \<ge> length (v_src v) then Some (Inl (v_err v (int (v_i v)) ExpectedValue))
      else let c = v_src v ! v_i v in
        if c = 0x6E then Some (parseLiteral (ascii ''null'') v)
        else if c = 0x74 then Some (parseLiteral (ascii ''true'') v)
        else if c = 0x66 then Some (parseLiteral (ascii ''false'') v)
        else if c = 0x22 then Some (parseString v)
        else if c = 0x5B then parseArray (parseValue n) (depth + 1) v
        else if c = 0x7B then parseObject (parseValue n) (depth + 1) v
        else if c = 0x2D \<or> isDigit c then Some (parseNumber v)
        else Some (Inl (v_err v (int (v_i v)) (UnexpectedByte c))))"

declare parseValue.simps [simp del] parseElems.simps [simp del] parseMembers.simps [simp del]

definition defaultMaxDepth :: nat where
  "defaultMaxDepth = 10000"

definition effectiveDepth :: "int \<Rightarrow> nat" where
  "effectiveDepth maxDepth = (if maxDepth \<le> 0 then defaultMaxDepth else nat maxDepth)"

text \<open>Every nested value starts at least one byte after its container, so the number of bytes bounds
  the nesting.\<close>

definition parseFuel :: "bytes \<Rightarrow> nat" where
  "parseFuel src = length src + 1"

text \<open>The shared body of \<^verbatim>\<open>validateOptions\<close> and \<^verbatim>\<open>countLayout\<close>: parse one value between whitespace
  and reject trailing data.\<close>

definition runValidator :: "validator \<Rightarrow> (SyntaxError + validator) option" where
  "runValidator v =
     (case parseValue (parseFuel (v_src v)) 0 (v_skipSpace v) of
        None \<Rightarrow> None
      | Some (Inl e) \<Rightarrow> Some (Inl e)
      | Some (Inr v) \<Rightarrow>
          let v = v_skipSpace v in
          if v_i v \<noteq> length (v_src v) then Some (Inl (v_err v (int (v_i v)) TrailingData))
          else Some (Inr v))"

text \<open>\<^verbatim>\<open>validateOptions\<close>: outer \<open>None\<close> is out of fuel, \<open>Some None\<close> the nil error.\<close>

definition validateOptions :: "bytes \<Rightarrow> int \<Rightarrow> SyntaxError option option" where
  "validateOptions src maxDepth =
     map_option (\<lambda>r. case r of Inl e \<Rightarrow> Some e | Inr _ \<Rightarrow> None)
       (runValidator \<lparr>v_src = src, v_i = 0, v_maxDepth = effectiveDepth maxDepth, v_layout = None\<rparr>)"

definition countLayout :: "bytes \<Rightarrow> int \<Rightarrow> (SyntaxError + layout) option" where
  "countLayout src maxDepth =
     map_option (\<lambda>r. case r of Inl e \<Rightarrow> Inl e | Inr v \<Rightarrow> Inr (the (v_layout v)))
       (runValidator \<lparr>v_src = src, v_i = 0, v_maxDepth = effectiveDepth maxDepth,
                      v_layout = Some empty_layout\<rparr>)"

definition validateString :: "bytes \<Rightarrow> SyntaxError option" where
  "validateString src =
     (if length src = 0 \<or> src ! 0 \<noteq> 0x22 then Some (syntaxError src 0 ExpectedString)
      else case parseString \<lparr>v_src = src, v_i = 0, v_maxDepth = defaultMaxDepth, v_layout = None\<rparr> of
        Inl e \<Rightarrow> Some e
      | Inr v \<Rightarrow>
          if v_i v \<noteq> length src then Some (syntaxError src (int (v_i v)) TrailingAfterString)
          else None)"

definition validString :: "bytes \<Rightarrow> bool" where
  "validString src \<longleftrightarrow> validateString src = None"

end
