(* ===== verification/IntegerText.thy ===== *)
theory IntegerText
  imports Validator
begin

text \<open>
  Integers to and from decimal text: the word kernels of \<^verbatim>\<open>simd/digits.go\<close> (the portable ones), the
  digit scanners and parsers of \<^verbatim>\<open>number_digits.go\<close> and the integer formatter of \<^verbatim>\<open>encoder_int.go\<close>. An
  integer is its 64-bit word; a destination slice is its bytes and the bytes of its remaining capacity.
\<close>

section \<open>Word kernels (simd/digits.go)\<close>

definition digitLower :: u64 where "digitLower = 0x3030303030303030"

definition digitUpper :: u64 where "digitUpper = 0x4646464646464646"

definition digitHigh :: u64 where "digitHigh = 0x8080808080808080"

definition nonDigitMask8 :: "u64 \<Rightarrow> u64" where
  "nonDigitMask8 x = ((x + digitUpper) OR (x - digitLower)) AND digitHigh"

definition All8Digits :: "bytes \<Rightarrow> bool" where
  "All8Digits ds \<longleftrightarrow> nonDigitMask8 (load64 ds 0) = 0"

definition All16Digits :: "bytes \<Rightarrow> bool" where
  "All16Digits ds \<longleftrightarrow> nonDigitMask8 (load64 ds 0) = 0 \<and> nonDigitMask8 (load64 ds 8) = 0"

definition parse8DigitsWord :: "u64 \<Rightarrow> u64" where
  "parse8DigitsWord x =
     (let x = drop_bit 8 ((x AND 0x0F0F0F0F0F0F0F0F) * 2561);
          x = drop_bit 16 ((x AND 0x00FF00FF00FF00FF) * 6553601)
      in drop_bit 32 ((x AND 0x0000FFFF0000FFFF) * 42949672960001))"

definition Parse8Digits :: "bytes \<Rightarrow> u64" where
  "Parse8Digits ds = parse8DigitsWord (load64 ds 0)"

definition encodeTwoFourDigitChunks :: "u64 \<Rightarrow> u64 \<Rightarrow> u64" where
  "encodeTwoFourDigitChunks hi lo =
     (let merged = hi OR push_bit 32 lo;
          top = drop_bit 20 (merged * 10486) AND (0x7F OR push_bit 32 0x7F);
          bottom = merged - 100 * top;
          hundreds = push_bit 16 bottom + top;
          tens = drop_bit 10 (hundreds * 103)
            AND (0x0F OR push_bit 16 0x0F OR push_bit 32 0x0F OR push_bit 48 0x0F)
      in tens + push_bit 8 (hundreds - 10 * tens))"

text \<open>The eight and sixteen bytes that \<^verbatim>\<open>Store8Digits\<close> and \<^verbatim>\<open>store16DigitsScalar\<close> write.\<close>

definition Store8Digits :: "u64 \<Rightarrow> bytes" where
  "Store8Digits v = le_bytes 8 (0x3030303030303030 + encodeTwoFourDigitChunks (v div 10000) (v mod 10000))"

definition Store16Digits :: "u64 \<Rightarrow> bytes" where
  "Store16Digits v =
     (let hi = v div 100000000; lo = v - hi * 100000000;
          first = 0x3030303030303030 + encodeTwoFourDigitChunks (hi div 10000) (hi mod 10000);
          second = 0x3030303030303030 + encodeTwoFourDigitChunks (lo div 10000) (lo mod 10000)
      in le_bytes 8 first @ le_bytes 8 second)"

section \<open>Scanning and parsing (number_digits.go)\<close>

function scanDigitsLong :: "bytes \<Rightarrow> nat \<Rightarrow> nat" where
  "scanDigitsLong src i =
     (if i + 8 \<le> length src then
        (let invalid = nonDigitMask8 (load64 src i) in
         if invalid \<noteq> 0 then i + trailing_zeros64 invalid div 8 else scanDigitsLong src (i + 8))
      else scanDigits src i)"
  by pat_completeness auto
termination
  by (relation "measure (\<lambda>(src, i). length src - i)") auto

declare scanDigitsLong.simps [simp del]

definition scanDigitsFast :: "bytes \<Rightarrow> nat \<Rightarrow> nat" where
  "scanDigitsFast src i =
     (if i + 4 \<le> length src \<and> isDigit (src ! (i + 3)) then scanDigitsLong src i else scanDigits src i)"

definition parse16Digits :: "bytes \<Rightarrow> nat \<Rightarrow> u64" where
  "parse16Digits src i = parse8DigitsWord (load64 src i) * 100000000 + parse8DigitsWord (load64 src (i + 8))"

definition parseTrailingDigits :: "u64 \<Rightarrow> nat \<Rightarrow> u64" where
  "parseTrailingDigits w k =
     (let s = (8 - k) * 8
      in parse8DigitsWord ((w AND push_bit s (NOT 0)) OR drop_bit (64 - s) digitLower))"

definition parseScalar :: "bytes \<Rightarrow> nat \<Rightarrow> nat \<Rightarrow> u64" where
  "parseScalar src i j = foldl (\<lambda>value c. value * 10 + ucast (c - 0x30)) 0 (segment src i j)"

definition parseTapeDigitsUint64 :: "bytes \<Rightarrow> nat \<Rightarrow> nat \<Rightarrow> u64 option" where
  "parseTapeDigitsUint64 src i j =
     (let d = j - i in
      if d \<le> 8 then
        (if j \<ge> 8 then Some (parseTrailingDigits (load64 src (j - 8)) d) else Some (parseScalar src i j))
      else if d \<le> 16 then
        (if j \<ge> 16
         then Some (parseTrailingDigits (load64 src (j - 16)) (d - 8) * 100000000 + Parse8Digits (drop (j - 8) src))
         else Some (parseScalar src i j))
      else if d \<le> 19 then
        (if j \<ge> 24
         then Some (parseTrailingDigits (load64 src (j - 24)) (d - 16) * 10000000000000000 + parse16Digits src (j - 16))
         else Some (parseScalar src i j))
      else None)"

section \<open>Formatting (encoder_int.go)\<close>

text \<open>A slice: its bytes and the contents of its remaining capacity. \<open>extendSlice\<close> is \<^verbatim>\<open>dst[:len+n]\<close>, which panics
  beyond the capacity; \<open>append\<close> that has to reallocate leaves no capacity in the model.\<close>

type_synonym slice = "bytes \<times> bytes"

definition appendBytes :: "slice \<Rightarrow> bytes \<Rightarrow> slice" where
  "appendBytes s bs = (fst s @ bs, drop (length bs) (snd s))"

definition extendSlice :: "slice \<Rightarrow> nat \<Rightarrow> slice option" where
  "extendSlice s n = (if n \<le> length (snd s) then Some (fst s @ take n (snd s), drop n (snd s)) else None)"

definition encodeDigitPairs :: bytes where
  "encodeDigitPairs =
     ascii ''00010203040506070809'' @ ascii ''10111213141516171819'' @ ascii ''20212223242526272829'' @
     ascii ''30313233343536373839'' @ ascii ''40414243444546474849'' @ ascii ''50515253545556575859'' @
     ascii ''60616263646566676869'' @ ascii ''70717273747576777879'' @ ascii ''80818283848586878889'' @
     ascii ''90919293949596979899''"

definition storeCompactDigitPair :: "bytes \<Rightarrow> nat \<Rightarrow> u64 \<Rightarrow> bytes" where
  "storeCompactDigitPair buf i pair = put_bytes i (get_bytes (unat pair * 2) 2 encodeDigitPairs) buf"

text \<open>\<^verbatim>\<open>strconv.AppendUint\<close> in base ten: the shortest decimal spelling.\<close>

fun decimalText :: "nat \<Rightarrow> bytes" where
  "decimalText n = (if n < 10 then [of_nat (0x30 + n)] else decimalText (n div 10) @ [of_nat (0x30 + n mod 10)])"

declare decimalText.simps [simp del]

text \<open>\<^verbatim>\<open>bits.Len64\<close> and the digit count that the formatters derive from it.\<close>

fun bitLength :: "nat \<Rightarrow> nat" where
  "bitLength n = (if n = 0 then 0 else Suc (bitLength (n div 2)))"

declare bitLength.simps [simp del]

definition pow10Uint64 :: "u64 list" where
  "pow10Uint64 = map (\<lambda>k. 10 ^ k) [0..<20]"

definition digitCount :: "u64 \<Rightarrow> nat" where
  "digitCount v =
     (let n = drop_bit 12 (bitLength (unat v) * 1233) + 1
      in if v < pow10Uint64 ! (n - 1) then n - 1 else n)"

definition storePair :: "bytes \<times> nat \<times> u64 \<Rightarrow> bytes \<times> nat \<times> u64" where
  "storePair st = (case st of (buf, i, v) \<Rightarrow> (storeCompactDigitPair buf (i - 2) (v mod 100), i - 2, v div 100))"

text \<open>The switch with its fall-through: one pair for every two digits above the first two.\<close>

definition storePairs :: "bytes \<times> nat \<times> u64 \<Rightarrow> bytes \<times> nat \<times> u64" where
  "storePairs st =
     (let v = snd (snd st) in
      if v \<ge> 100000000 then storePair (storePair (storePair (storePair st)))
      else if v \<ge> 1000000 then storePair (storePair (storePair st))
      else if v \<ge> 10000 then storePair (storePair st)
      else if v \<ge> 100 then storePair st
      else st)"

definition storeDigits :: "bytes \<Rightarrow> u64 \<Rightarrow> bytes" where
  "storeDigits buf v =
     (case storePairs (buf, length buf, v) of
        (buf, i, v) \<Rightarrow>
          if v \<ge> 10 then storeCompactDigitPair buf (i - 2) v else buf[i - 1 := ucast (0x30 + v)])"

definition appendCompactUint9 :: "slice \<Rightarrow> u64 \<Rightarrow> slice option" where
  "appendCompactUint9 s v =
     (if length (snd s) < 9 then Some (appendBytes s (decimalText (unat v)))
      else
        let hi = v div 100000000; lo = v - hi * 100000000 in
        case extendSlice s 9 of
          None \<Rightarrow> None
        | Some (dst, spare) \<Rightarrow>
            Some (put_bytes (length dst - 8) (Store8Digits lo) (dst[length dst - 9 := ucast (0x30 + hi)]), spare))"

definition appendCompactUint10 :: "slice \<Rightarrow> u64 \<Rightarrow> slice option" where
  "appendCompactUint10 s v =
     (if length (snd s) < 10 then Some (appendBytes s (decimalText (unat v)))
      else
        let hi = v div 100000000; lo = v - hi * 100000000; start = length (fst s) in
        case extendSlice s 10 of
          None \<Rightarrow> None
        | Some (dst, spare) \<Rightarrow> Some (put_bytes (start + 2) (Store8Digits lo) (storeCompactDigitPair dst start hi), spare))"

text \<open>The part of \<^verbatim>\<open>appendCompactUint\<close> below 10 to the 8, after the guards.\<close>

definition appendCompactUintShort :: "slice \<Rightarrow> u64 \<Rightarrow> slice option" where
  "appendCompactUintShort s v =
     (let n = digitCount v in
      if length (snd s) < n then Some (appendBytes s (decimalText (unat v)))
      else
        case extendSlice s n of
          None \<Rightarrow> None
        | Some (dst, spare) \<Rightarrow>
            let start = length (fst s) in
            if n = 8 then Some (put_bytes start (Store8Digits v) dst, spare)
            else Some (take start dst @ storeDigits (drop start dst) v, spare))"

text \<open>\<^verbatim>\<open>appendCompactUintLarge\<close> calls \<^verbatim>\<open>appendCompactUint\<close>, its parameter here, on a quotient by 10 to the 16.\<close>

definition appendCompactUintLarge :: "(slice \<Rightarrow> u64 \<Rightarrow> slice option) \<Rightarrow> slice \<Rightarrow> u64 \<Rightarrow> slice option" where
  "appendCompactUintLarge appendUint s v =
     (let n = digitCount v in
      if length (snd s) < n then Some (appendBytes s (decimalText (unat v)))
      else if v < 10000000000000000 then Some (appendBytes s (drop (16 - n) (Store16Digits v)))
      else
        let hi = v div 10000000000000000; lo = v - hi * 10000000000000000 in
        case appendUint s hi of
          None \<Rightarrow> None
        | Some s \<Rightarrow>
            let start = length (fst s) in
            case extendSlice s 16 of
              None \<Rightarrow> None
            | Some (dst, spare) \<Rightarrow> Some (put_bytes start (Store16Digits lo) dst, spare))"

lemma appendCompactUintLarge_cong [fundef_cong]:
  assumes "s = s'" "v = v'" "\<And>w. w < v' \<Longrightarrow> f s' w = g s' w"
  shows "appendCompactUintLarge f s v = appendCompactUintLarge g s' v'"
proof -
  have "\<not> v' < 10000000000000000 \<Longrightarrow> v' div 10000000000000000 < v'"
    by (simp add: word_less_nat_alt unat_div)
  then show ?thesis using assms by (simp add: appendCompactUintLarge_def Let_def)
qed

function appendCompactUint :: "slice \<Rightarrow> u64 \<Rightarrow> slice option" where
  "appendCompactUint s v =
     (if v < 10 then Some (appendBytes s [ucast (0x30 + v)])
      else if v < 100 then Some (appendBytes s [encodeDigitPairs ! unat (v * 2), encodeDigitPairs ! unat (v * 2 + 1)])
      else if v \<ge> 10000000000 then appendCompactUintLarge appendCompactUint s v
      else if v \<ge> 1000000000 then appendCompactUint10 s v
      else if v \<ge> 100000000 then appendCompactUint9 s v
      else appendCompactUintShort s v)"
  by pat_completeness auto
termination
  by (relation "measure (\<lambda>(s, v). unat v)") (simp_all add: word_less_nat_alt)

declare appendCompactUint.simps [simp del]

definition appendCompactInt :: "slice \<Rightarrow> u64 \<Rightarrow> slice option" where
  "appendCompactInt s v =
     (if sint v < 0 then appendCompactUint (appendBytes s [0x2D]) (- v) else appendCompactUint s v)"

definition appendCommaCompactUint :: "slice \<Rightarrow> u64 \<Rightarrow> slice option" where
  "appendCommaCompactUint s v =
     (if v < 10 then Some (appendBytes s [0x2C, ucast (0x30 + v)])
      else if v < 100 then
        Some (appendBytes s [0x2C, encodeDigitPairs ! unat (v * 2), encodeDigitPairs ! unat (v * 2 + 1)])
      else
        let n = digitCount v in
        if v \<ge> 10000000000000000 \<or> length (snd s) < n + 1 then appendCompactUint (appendBytes s [0x2C]) v
        else
          let start = length (fst s) in
          case extendSlice s (n + 1) of
            None \<Rightarrow> None
          | Some (dst, spare) \<Rightarrow>
              Some (put_bytes (start + 1) (drop (16 - n) (Store16Digits v)) (dst[start := 0x2C]), spare))"

definition appendCommaCompactInt :: "slice \<Rightarrow> u64 \<Rightarrow> slice option" where
  "appendCommaCompactInt s v =
     (if sint v < 0 then appendCompactUint (appendBytes s [0x2C, 0x2D]) (- v) else appendCommaCompactUint s v)"

end
