(* ===== verification/FastScan.thy ===== *)
theory FastScan
  imports IntegerText
begin

text \<open>
  The happy-path scanners of \<^verbatim>\<open>valid_fast.go\<close> and the bool-only validator built on them. They read the source
  through a base pointer without bounds checks. A read outside the source is undefined in Go; \<open>fastByteAt\<close> gives 0
  there, and every caller guards its reads. A scanner returns the position it stopped at and its flags, the last
  of which is the verdict; the position of a refused input is not used.
\<close>

section \<open>White space\<close>

definition fastByteAt :: "bytes \<Rightarrow> nat \<Rightarrow> byte" where
  "fastByteAt src i = (if i < length src then src ! i else 0)"

function nextSignificantFast :: "bytes \<Rightarrow> nat \<Rightarrow> nat \<times> byte" where
  "nextSignificantFast src i =
     (if i < length src then
        (let c = fastByteAt src i in
         if c > 0x20 \<or> (c \<noteq> 0x20 \<and> c \<noteq> 0x0A \<and> c \<noteq> 0x0D \<and> c \<noteq> 0x09) then (i, c)
         else nextSignificantFast src (i + 1))
      else (i, 0))"
  by pat_completeness auto
termination
  by (relation "measure (\<lambda>(src, i). length src - i)") auto

function skipSpaceFast :: "bytes \<Rightarrow> nat \<Rightarrow> nat" where
  "skipSpaceFast src i =
     (if i < length src then
        (let c = fastByteAt src i in
         if c > 0x20 \<or> (c \<noteq> 0x20 \<and> c \<noteq> 0x0A \<and> c \<noteq> 0x0D \<and> c \<noteq> 0x09) then i
         else skipSpaceFast src (i + 1))
      else i)"
  by pat_completeness auto
termination
  by (relation "measure (\<lambda>(src, i). length src - i)") auto

declare nextSignificantFast.simps [simp del] skipSpaceFast.simps [simp del]

lemma nextSignificantFast_ge: "nextSignificantFast src i = (j, c) \<Longrightarrow> i \<le> j \<and> (c \<noteq> 0 \<longrightarrow> j < length src)"
proof (induction src i rule: nextSignificantFast.induct)
  case (1 src i)
  then show ?case by (subst (asm) (2) nextSignificantFast.simps) (fastforce simp: Let_def split: if_splits)
qed

lemma skipSpaceFast_ge: "i \<le> skipSpaceFast src i"
proof (induction src i rule: skipSpaceFast.induct)
  case (1 src i)
  then show ?case by (subst skipSpaceFast.simps) (auto simp: Let_def)
qed

section \<open>Numbers\<close>

text \<open>\<^verbatim>\<open>scanNumberFastTagged\<close> and its long-integer variant, cut at their phases: the end, whether the number is a plain
  integer, and the verdict. Only the integer part differs between the two.\<close>

definition fastExponent :: "bytes \<Rightarrow> nat \<Rightarrow> bool \<Rightarrow> nat \<times> bool \<times> bool" where
  "fastExponent src i integer =
     (if i < length src \<and> (fastByteAt src i = 0x65 \<or> fastByteAt src i = 0x45) then
        (let i = i + 1;
             i = (if i < length src \<and> (fastByteAt src i = 0x2B \<or> fastByteAt src i = 0x2D) then i + 1 else i)
         in if i \<ge> length src \<or> \<not> isDigit (fastByteAt src i) then (i, False, False)
            else (scanDigits src (i + 1), False, True))
      else (i, integer, True))"

definition fastFraction :: "bytes \<Rightarrow> nat \<Rightarrow> nat \<times> bool \<times> bool" where
  "fastFraction src i =
     (if i < length src \<and> fastByteAt src i = 0x2E then
        (let i = i + 1 in
         if i \<ge> length src \<or> \<not> isDigit (fastByteAt src i) then (i, False, False)
         else if i + 8 \<le> length src \<and> isDigit (fastByteAt src (i + 7))
         then fastExponent src (scanDigitsLong src i) False
         else fastExponent src (scanDigits src (i + 1)) False)
      else fastExponent src i True)"

definition fastInteger :: "(bytes \<Rightarrow> nat \<Rightarrow> nat) \<Rightarrow> bytes \<Rightarrow> nat \<Rightarrow> nat \<times> bool \<times> bool" where
  "fastInteger tail src i =
     (if fastByteAt src i = 0x30 then fastFraction src (i + 1)
      else if isOneNine (fastByteAt src i) then fastFraction src (tail src (i + 1))
      else (i, False, False))"

definition scanNumberWith :: "(bytes \<Rightarrow> nat \<Rightarrow> nat) \<Rightarrow> bytes \<Rightarrow> nat \<Rightarrow> nat \<times> bool \<times> bool" where
  "scanNumberWith tail src i =
     (if fastByteAt src i = 0x2D then
        (if i + 1 \<ge> length src then (i + 1, False, False) else fastInteger tail src (i + 1))
      else fastInteger tail src i)"

definition scanNumberFastTagged :: "bytes \<Rightarrow> nat \<Rightarrow> nat \<times> bool \<times> bool" where
  "scanNumberFastTagged = scanNumberWith scanDigits"

definition swarTail :: "bytes \<Rightarrow> nat \<Rightarrow> nat" where
  "swarTail src i =
     scanDigits src (if i + 8 \<le> length src \<and> nonDigitMask8 (load64 src i) = 0 then i + 8 else i)"

definition scanNumberFastTaggedSWAR :: "bytes \<Rightarrow> nat \<Rightarrow> nat \<times> bool \<times> bool" where
  "scanNumberFastTaggedSWAR = scanNumberWith swarTail"

definition scanNumberFast :: "bytes \<Rightarrow> nat \<Rightarrow> nat \<times> bool" where
  "scanNumberFast src i = (case scanNumberFastTagged src i of (j, _, ok) \<Rightarrow> (j, ok))"

lemma scanDigits_ge: "i \<le> scanDigits src i"
proof (induction src i rule: scanDigits.induct)
  case (1 src i)
  then show ?case by (subst scanDigits.simps) auto
qed

lemma scanDigitsLong_ge: "i \<le> scanDigitsLong src i"
proof (induction src i rule: scanDigitsLong.induct)
  case (1 src i)
  then show ?case using scanDigits_ge [of i src] by (subst scanDigitsLong.simps) (auto simp: Let_def)
qed

lemma fastExponent_ge: "fastExponent src i g = (j, h, True) \<Longrightarrow> i \<le> j"
  using scanDigits_ge [of "Suc (Suc i)" src] scanDigits_ge [of "Suc (Suc (Suc i))" src]
  by (auto simp: fastExponent_def Let_def split: if_splits)

lemma fastFraction_ge: "fastFraction src i = (j, h, True) \<Longrightarrow> i \<le> j"
  using scanDigitsLong_ge [of "Suc i" src] scanDigits_ge [of "Suc (Suc i)" src]
  by (auto simp: fastFraction_def Let_def split: if_splits dest!: fastExponent_ge)

lemma fastInteger_progress:
  "fastInteger tail src i = (j, h, True) \<Longrightarrow> (\<And>k. k \<le> tail src k) \<Longrightarrow> i < j"
  using fastFraction_ge [of src "Suc i"] fastFraction_ge [of src "tail src (Suc i)"]
  by (fastforce simp: fastInteger_def split: if_splits dest: Suc_le_lessD order_trans [of "Suc i"])

lemma scanNumber_progress:
  "scanNumberFastTagged src i = (j, h, True) \<Longrightarrow> i < j"
  "scanNumberFastTaggedSWAR src i = (j, h, True) \<Longrightarrow> i < j"
proof -
  have t: "k \<le> swarTail src k" for src k
    using scanDigits_ge [of k src] scanDigits_ge [of "k + 8" src] by (auto simp: swarTail_def)
  show "scanNumberFastTagged src i = (j, h, True) \<Longrightarrow> i < j" "scanNumberFastTaggedSWAR src i = (j, h, True) \<Longrightarrow> i < j"
    using fastInteger_progress [of scanDigits src "Suc i" j h, OF _ scanDigits_ge]
      fastInteger_progress [of scanDigits src i j h, OF _ scanDigits_ge]
      fastInteger_progress [of swarTail src "Suc i" j h, OF _ t] fastInteger_progress [of swarTail src i j h, OF _ t]
    by (auto simp: scanNumberFastTagged_def scanNumberFastTaggedSWAR_def scanNumberWith_def split: if_splits)
qed

section \<open>Strings\<close>

text \<open>The portable \<^verbatim>\<open>scanUnicodeEscapeRun\<close> consumes nothing and accepts.\<close>

definition scanUnicodeEscapeRun :: "bytes \<Rightarrow> nat \<Rightarrow> nat \<times> bool" where
  "scanUnicodeEscapeRun src i = (i, True)"

text \<open>What \<^verbatim>\<open>scanJSONStringFastFrom\<close> does with a \<^verbatim>\<open>u\<close> escape whose digits start at \<open>i\<close>: the end of the escape or
  surrogate pair, or \<open>None\<close>.\<close>

definition fastUnicodeEscape :: "bytes \<Rightarrow> nat \<Rightarrow> nat option" where
  "fastUnicodeEscape src i =
     (case hex4 src i of (u, ok) \<Rightarrow>
        if \<not> ok then None
        else let i = i + 4 in
          if 0xD800 \<le> u \<and> u \<le> 0xDBFF then
            (if i + 6 > length src \<or> fastByteAt src i \<noteq> 0x5C \<or> fastByteAt src (i + 1) \<noteq> 0x75 then None
             else case hex4 src (i + 2) of (lo, ok) \<Rightarrow>
               if \<not> ok \<or> lo < 0xDC00 \<or> lo > 0xDFFF then None else Some (i + 6))
          else if 0xDC00 \<le> u \<and> u \<le> 0xDFFF then None
          else Some i)"

lemma fastUnicodeEscape_progress: "fastUnicodeEscape src i = Some j \<Longrightarrow> i < j"
  by (auto simp: fastUnicodeEscape_def Let_def split: prod.splits if_splits)

text \<open>The inner loop over a run of \<^verbatim>\<open>u\<close> escapes: the position after it and the escaped flag, or \<open>None\<close>.\<close>

function fastEscapeRun :: "bytes \<Rightarrow> nat \<Rightarrow> bool \<Rightarrow> (nat \<times> bool) option" where
  "fastEscapeRun src i escaped =
     (if i + 6 \<le> length src \<and> fastByteAt src i = 0x5C \<and> fastByteAt src (i + 1) = 0x75 then
        (case fastUnicodeEscape src (i + 2) of None \<Rightarrow> None | Some j \<Rightarrow> fastEscapeRun src j True)
      else Some (i, escaped))"
  by pat_completeness auto
termination
  by (relation "measure (\<lambda>(src, i, _). length src - i)")
     (auto dest!: fastUnicodeEscape_progress intro!: diff_less_mono2)

declare fastEscapeRun.simps [simp del]

lemma fastEscapeRun_ge: "fastEscapeRun src i escaped = Some (j, e) \<Longrightarrow> i \<le> j"
proof (induction src i escaped rule: fastEscapeRun.induct)
  case (1 src i escaped)
  then show ?case
    by (subst (asm) (2) fastEscapeRun.simps)
       (auto split: if_splits option.splits dest: fastUnicodeEscape_progress)
qed

lemma fastStop_ge:
  assumes "j = (if i \<ge> length src \<or> fastByteAt src i \<noteq> 0x5C then scanStringSpecialScalar src i else i)" "j < length src"
  shows "i \<le> j" "is_special_byte (src ! j)"
  using assms scanStringSpecialScalar_ge [of src i]
  by (auto simp: fastByteAt_def is_special_byte_def split: if_splits)

text \<open>The body of the loop of \<^verbatim>\<open>scanJSONStringFastFrom\<close>, cut at the end of its escape runs. \<open>Inl\<close> returns (the
  position after the closing quote, whether an escape was seen, the verdict), \<open>Inr\<close> continues.\<close>

definition fastStringStop :: "bytes \<Rightarrow> nat \<Rightarrow> bool \<Rightarrow> (nat \<times> bool \<times> bool) + (nat \<times> bool)" where
  "fastStringStop src i escaped =
     (let j = (if i \<ge> length src \<or> fastByteAt src i \<noteq> 0x5C then scanStringSpecialScalar src i else i) in
      if j \<ge> length src then Inl (length src, escaped, False)
      else let c = fastByteAt src j in
      if c = 0x22 then Inl (j + 1, escaped, True)
      else if c = 0x5C then
        (let j = j + 1 in
         if j \<ge> length src then Inl (j, True, False)
         else let c = fastByteAt src j in
         if c = 0x22 \<or> c = 0x5C \<or> c = 0x2F \<or> c = 0x62 \<or> c = 0x66 \<or> c = 0x6E \<or> c = 0x72 \<or> c = 0x74
         then Inr (j + 1, True)
         else if c = 0x75 then
           (case fastUnicodeEscape src (j + 1) of
              None \<Rightarrow> Inl (j, True, False)
            | Some i \<Rightarrow> Inr (i, True))
         else Inl (j, True, False))
      else if c < 0x20 then Inl (j, escaped, False)
      else case scanStringUnicodeRun src j of
        (_, Some bad) \<Rightarrow> Inl (bad, escaped, False)
      | (next, None) \<Rightarrow> Inr (next, escaped))"

definition fastStringStep :: "bytes \<Rightarrow> nat \<Rightarrow> bool \<Rightarrow> (nat \<times> bool \<times> bool) + (nat \<times> bool)" where
  "fastStringStep src i escaped =
     (let (end, ok) = (if i + 1 < length src \<and> fastByteAt src i = 0x5C \<and> fastByteAt src (i + 1) = 0x75
                       then scanUnicodeEscapeRun src i else (i, True))
      in if \<not> ok then Inl (i, escaped, False)
         else case fastEscapeRun src end (escaped \<or> end \<noteq> i) of
           None \<Rightarrow> Inl (i, True, False)
         | Some (i, escaped) \<Rightarrow> fastStringStop src i escaped)"

lemma fastStringStop_progress:
  assumes "fastStringStop src i escaped = Inr (k, e)"
  shows "i < length src \<and> i < k"
proof -
  let ?j = "if i \<ge> length src \<or> fastByteAt src i \<noteq> 0x5C then scanStringSpecialScalar src i else i"
  have j: "?j < length src" using assms by (auto simp: fastStringStop_def Let_def split: if_splits)
  note ge = fastStop_ge [OF refl j]
  have "0x80 \<le> src ! ?j" if "fastByteAt src ?j \<noteq> 0x22" "fastByteAt src ?j \<noteq> 0x5C" "\<not> fastByteAt src ?j < 0x20"
    using ge(2) j that by (auto simp: is_special_byte_def fastByteAt_def)
  then have "?j < k"
    using assms j scanStringUnicodeRun_progress [of src ?j k]
    by (auto simp: fastStringStop_def Let_def split: if_splits option.splits prod.splits dest: fastUnicodeEscape_progress)
  then show ?thesis using ge(1) j by linarith
qed

lemma fastStringStep_progress:
  assumes "fastStringStep src i escaped = Inr (k, e)"
  shows "i < length src \<and> i < k"
  using assms
  by (auto simp: fastStringStep_def scanUnicodeEscapeRun_def split: if_splits option.splits
      dest!: fastStringStop_progress fastEscapeRun_ge)

function fastStringLoop :: "bytes \<Rightarrow> nat \<Rightarrow> bool \<Rightarrow> nat \<times> bool \<times> bool" where
  "fastStringLoop src i escaped =
     (case fastStringStep src i escaped of Inl r \<Rightarrow> r | Inr (i, escaped) \<Rightarrow> fastStringLoop src i escaped)"
  by pat_completeness auto
termination
  by (relation "measure (\<lambda>(src, i, _). length src - i)") (auto dest: fastStringStep_progress)

declare fastStringLoop.simps [simp del]

definition scanJSONStringFastFrom :: "bytes \<Rightarrow> nat \<Rightarrow> nat \<times> bool \<times> bool" where
  "scanJSONStringFastFrom src i = fastStringLoop src i False"

lemma fastStringStep_return:
  assumes "fastStringStep src i fl = Inl (k, e, True)"
  shows "i < k \<and> k \<le> length src"
proof -
  obtain m b where r: "fastEscapeRun src i fl = Some (m, b)" "fastStringStop src m b = Inl (k, e, True)"
    using assms by (auto simp: fastStringStep_def scanUnicodeEscapeRun_def split: if_splits option.splits)
  let ?j = "if m \<ge> length src \<or> fastByteAt src m \<noteq> 0x5C then scanStringSpecialScalar src m else m"
  have "?j < length src \<and> k = Suc ?j"
    using r(2) unfolding fastStringStop_def Let_def by (auto split: if_splits option.splits prod.splits)
  then show ?thesis using fastStop_ge(1) [OF refl, of src m] fastEscapeRun_ge [OF r(1)] by auto
qed

lemma fastStringLoop_progress: "fastStringLoop src i fl = (k, e, True) \<Longrightarrow> i < k \<and> k \<le> length src"
proof (induction src i fl rule: fastStringLoop.induct)
  case (1 src i fl)
  show ?case
  proof (cases "fastStringStep src i fl")
    case (Inl r)
    then show ?thesis using 1(2) fastStringStep_return [of src i fl k e] by (subst (asm) fastStringLoop.simps) simp
  next
    case (Inr r)
    obtain m b where [simp]: "r = (m, b)" by (cases r)
    then show ?thesis using 1 Inr fastStringStep_progress [of src i fl m b] by (subst (asm) (2) fastStringLoop.simps) fastforce
  qed
qed

definition scanJSONStringFastLong :: "bytes \<Rightarrow> nat \<Rightarrow> nat \<times> bool \<times> bool" where
  "scanJSONStringFastLong src i = scanJSONStringFastFrom src (i + 1)"

text \<open>The loop of \<^verbatim>\<open>scanShortJSONString\<close>, up to eight bytes after the quote.\<close>

function shortStringLoop :: "bytes \<Rightarrow> nat \<Rightarrow> nat \<Rightarrow> nat \<times> bool" where
  "shortStringLoop src limit i =
     (if i < limit then
        (let c = fastByteAt src i in
         if c = 0x22 then (i + 1, True)
         else if c = 0x5C \<or> c < 0x20 \<or> c \<ge> 0x80 then (0, False)
         else shortStringLoop src limit (i + 1))
      else (0, False))"
  by pat_completeness auto
termination
  by (relation "measure (\<lambda>(src, limit, i). limit - i)") auto

declare shortStringLoop.simps [simp del]

definition scanShortJSONString :: "bytes \<Rightarrow> nat \<Rightarrow> nat \<times> bool" where
  "scanShortJSONString src quote =
     (let limit = quote + 9; limit = (if limit > length src then length src else limit)
      in shortStringLoop src limit (quote + 1))"

definition scanJSONStringFast :: "bytes \<Rightarrow> nat \<Rightarrow> bool \<Rightarrow> nat \<times> bool \<times> bool" where
  "scanJSONStringFast src i short =
     (if short then
        (case scanShortJSONString src i of
           (end, ok) \<Rightarrow> if ok then (end, False, True) else scanJSONStringFastLong src i)
      else scanJSONStringFastLong src i)"

section \<open>The bool-only validator\<close>

text \<open>\<^verbatim>\<open>validStringFast\<close>: up to two words inline before the general scanner.\<close>

definition validStringFast :: "bytes \<Rightarrow> nat \<Rightarrow> nat \<times> bool" where
  "validStringFast src i =
     (let start = i + 1; long = (case scanJSONStringFastLong src i of (end, _, ok) \<Rightarrow> (end, ok)) in
      if start + 8 \<le> length src then
        (let m = stringSpecialMask (load64 src start) in
         if m \<noteq> 0 then
           (let j = start + trailing_zeros64 m div 8 in
            if fastByteAt src j = 0x22 then (j + 1, True) else long)
         else
           (let start = start + 8; m = stringSpecialMask (load64 src start);
                j = start + trailing_zeros64 m div 8 in
            if start + 8 \<le> length src \<and> m \<noteq> 0 \<and> fastByteAt src j = 0x22 then (j + 1, True)
            else let start = (if start + 8 \<le> length src \<and> m = 0 then start + 8 else start) in
              case scanJSONStringFastFrom src start of (end, _, ok) \<Rightarrow> (end, ok)))
      else long)"

text \<open>The literal probes compare a little-endian word: four bytes at \<open>i\<close>.\<close>

definition wordTrueLE :: u32 where "wordTrueLE = 0x65757274"

definition wordAlseLE :: u32 where "wordAlseLE = 0x65736C61"

definition wordNullLE :: u32 where "wordNullLE = 0x6C6C756E"

definition loadUint32LE :: "bytes \<Rightarrow> nat \<Rightarrow> u32" where
  "loadUint32LE src i = le_word (get_bytes i 4 src)"

text \<open>The two loops of \<^verbatim>\<open>validValueFast\<close> over the value validator \<open>vv\<close>; each turn starts at the significant byte \<open>c\<close> at \<open>i\<close>.
  \<open>None\<close> is running out of fuel.\<close>

fun validElemsFast ::
  "(nat \<Rightarrow> byte \<Rightarrow> nat \<Rightarrow> (nat \<times> bool) option) \<Rightarrow> bytes \<Rightarrow> nat \<Rightarrow> nat \<Rightarrow> byte \<Rightarrow> nat \<Rightarrow> (nat \<times> bool) option" where
  "validElemsFast vv src 0 i c depth = None"
| "validElemsFast vv src (Suc n) i c depth =
     (case vv i c (depth + 1) of
        None \<Rightarrow> None
      | Some (i, False) \<Rightarrow> Some (i, False)
      | Some (i, True) \<Rightarrow>
          (case nextSignificantFast src i of (i, c) \<Rightarrow>
             if i \<ge> length src then Some (i, False)
             else if c = 0x2C then
               (case nextSignificantFast src (i + 1) of (i, c) \<Rightarrow>
                  if i \<ge> length src then Some (i, False) else validElemsFast vv src n i c depth)
             else if c = 0x5D then Some (i + 1, True)
             else Some (i, False)))"

fun validMembersFast ::
  "(nat \<Rightarrow> byte \<Rightarrow> nat \<Rightarrow> (nat \<times> bool) option) \<Rightarrow> bytes \<Rightarrow> nat \<Rightarrow> nat \<Rightarrow> byte \<Rightarrow> nat \<Rightarrow> (nat \<times> bool) option" where
  "validMembersFast vv src 0 i c depth = None"
| "validMembersFast vv src (Suc n) i c depth =
     (if c \<noteq> 0x22 then Some (i, False)
      else case validStringFast src i of
        (i, False) \<Rightarrow> Some (i, False)
      | (i, True) \<Rightarrow>
          (case nextSignificantFast src i of (i, c) \<Rightarrow>
             if i \<ge> length src \<or> c \<noteq> 0x3A then Some (i, False)
             else case nextSignificantFast src (i + 1) of (i, c) \<Rightarrow>
               if i \<ge> length src then Some (i, False)
               else case vv i c (depth + 1) of
                 None \<Rightarrow> None
               | Some (i, False) \<Rightarrow> Some (i, False)
               | Some (i, True) \<Rightarrow>
                   (case nextSignificantFast src i of (i, c) \<Rightarrow>
                      if i \<ge> length src then Some (i, False)
                      else if c = 0x2C then
                        (case nextSignificantFast src (i + 1) of (i, c) \<Rightarrow>
                           if i \<ge> length src then Some (i, False) else validMembersFast vv src n i c depth)
                      else if c = 0x7D then Some (i + 1, True)
                      else Some (i, False))))"

fun validValueFast :: "bytes \<Rightarrow> nat \<Rightarrow> nat \<Rightarrow> byte \<Rightarrow> nat \<Rightarrow> (nat \<times> bool) option" where
  "validValueFast src 0 i c depth = None"
| "validValueFast src (Suc n) i c depth =
     (if c = 0x7B then
        (if depth \<ge> defaultMaxDepth then Some (i, False)
         else case nextSignificantFast src (i + 1) of (i, c) \<Rightarrow>
           if i \<ge> length src then Some (i, False)
           else if c = 0x7D then Some (i + 1, True)
           else validMembersFast (validValueFast src n) src (length src + 1) i c depth)
      else if c = 0x5B then
        (if depth \<ge> defaultMaxDepth then Some (i, False)
         else case nextSignificantFast src (i + 1) of (i, c) \<Rightarrow>
           if i \<ge> length src then Some (i, False)
           else if c = 0x5D then Some (i + 1, True)
           else validElemsFast (validValueFast src n) src (length src + 1) i c depth)
      else if c = 0x22 then Some (validStringFast src i)
      else if c = 0x74 then
        (if i + 4 > length src \<or> loadUint32LE src i \<noteq> wordTrueLE then Some (i, False) else Some (i + 4, True))
      else if c = 0x66 then
        (if i + 5 > length src \<or> loadUint32LE src (i + 1) \<noteq> wordAlseLE then Some (i, False) else Some (i + 5, True))
      else if c = 0x6E then
        (if i + 4 > length src \<or> loadUint32LE src i \<noteq> wordNullLE then Some (i, False) else Some (i + 4, True))
      else if c \<noteq> 0x2D \<and> \<not> isDigit c then Some (i, False)
      else Some (scanNumberFast src i))"

declare validElemsFast.simps [simp del] validMembersFast.simps [simp del] validValueFast.simps [simp del]

text \<open>The entry points. The bitmap engine is an argument, with its pair of the verdict and of whether it decided; it sees the
  inputs from \<^verbatim>\<open>validBitmapMinBytes\<close> bytes on.\<close>

definition validBitmapMinBytes :: nat where "validBitmapMinBytes = 65536"

definition validWalkFast :: "bytes \<Rightarrow> bool option" where
  "validWalkFast src =
     (case nextSignificantFast src 0 of (i, c) \<Rightarrow>
        if i \<ge> length src then Some False
        else case validValueFast src (parseFuel src) i c 0 of
          None \<Rightarrow> None
        | Some (i, False) \<Rightarrow> Some False
        | Some (i, True) \<Rightarrow> Some (skipSpaceFast src i = length src))"

definition validFast :: "(bytes \<Rightarrow> bool \<times> bool) \<Rightarrow> bytes \<Rightarrow> bool option" where
  "validFast validBitmap src =
     (if length src \<ge> validBitmapMinBytes
      then (case validBitmap src of (ok, decided) \<Rightarrow> if decided then Some ok else validWalkFast src)
      else validWalkFast src)"

definition Valid :: "(bytes \<Rightarrow> bool \<times> bool) \<Rightarrow> bytes \<Rightarrow> bool option" where
  "Valid validBitmap src = validFast validBitmap src"

definition Validate :: "(bytes \<Rightarrow> bool \<times> bool) \<Rightarrow> bytes \<Rightarrow> SyntaxError option option" where
  "Validate validBitmap src =
     (if length src \<ge> validBitmapMinBytes
      then (case validBitmap src of (ok, decided) \<Rightarrow> if decided \<and> ok then Some None else validateOptions src 0)
      else validateOptions src 0)"

end
