(* ===== verification/Tape.thy ===== *)
theory Tape
  imports FastScan
begin

text \<open>
  The structural index of one document (\<^verbatim>\<open>index.go\<close>): the entry layout, the iterative happy-path builder \<^verbatim>\<open>walkFast\<close> with
  its long-integer twin of \<^verbatim>\<open>walk_number_swar.go\<close>, the diagnostic builder \<^verbatim>\<open>parse\<close>, and their router. The caller's entry
  storage is its capacity; an entry list never grows beyond it. Entry numbers and member counts are \<open>nat\<close>: both are
  bounded by the capacity and the source length, which the router checks to be below \<open>2 ^ 32\<close>. The bitmap engine
  (\<^verbatim>\<open>index_positions.go\<close>), which large documents try first, is not modelled.
\<close>

section \<open>Entries\<close>

record IndexEntry =
  e_start :: u32
  e_end :: u32
  e_next :: u32
  e_info :: u32

text \<open>\<^verbatim>\<open>document.Kind\<close> is a byte.\<close>

abbreviation "KInvalid \<equiv> 0 :: u8"
abbreviation "KNull \<equiv> 1 :: u8"
abbreviation "KBool \<equiv> 2 :: u8"
abbreviation "KNumber \<equiv> 3 :: u8"
abbreviation "KString \<equiv> 4 :: u8"
abbreviation "KArray \<equiv> 5 :: u8"
abbreviation "KObject \<equiv> 6 :: u8"

definition tapeFlagEscaped :: u8 where "tapeFlagEscaped = 1"

definition tapeFlagKey :: u8 where "tapeFlagKey = 2"

definition tapeFlagInt :: u8 where "tapeFlagInt = 4"

definition infoCountMask :: u32 where "infoCountMask = 0x3FFFFFF"

definition infoKindMask :: u32 where "infoKindMask = push_bit 26 7"

definition infoMaxCount :: nat where "infoMaxCount = 67108863"

definition Kind :: "IndexEntry \<Rightarrow> u8" where
  "Kind e = ucast (drop_bit 26 (e_info e AND infoKindMask))"

definition entryFlags :: "IndexEntry \<Rightarrow> u8" where
  "entryFlags e = ucast (drop_bit 29 (e_info e))"

definition Count :: "IndexEntry \<Rightarrow> u32" where
  "Count e = e_info e AND infoCountMask"

definition keysHashed :: "IndexEntry \<Rightarrow> bool" where
  "keysHashed e \<longleftrightarrow> entryFlags e AND tapeFlagEscaped \<noteq> 0"

definition packInfo :: "u32 \<Rightarrow> u8 \<Rightarrow> u8 \<Rightarrow> u32" where
  "packInfo count kind flags = count AND infoCountMask OR push_bit 26 (ucast kind) OR push_bit 29 (ucast flags)"

definition setCount :: "u32 \<Rightarrow> IndexEntry \<Rightarrow> IndexEntry" where
  "setCount count e = e\<lparr>e_info := e_info e AND NOT infoCountMask OR count AND infoCountMask\<rparr>"

definition bumpCount :: "IndexEntry \<Rightarrow> IndexEntry" where
  "bumpCount e = e\<lparr>e_info := e_info e + 1\<rparr>"

definition numberFlags :: "bool \<Rightarrow> u8" where
  "numberFlags integer = (if integer then tapeFlagInt else 0)"

section \<open>The happy path\<close>

datatype tapeParseStatus = tapeParseOK | tapeParseInvalid | tapeParseFull

text \<open>Writing one entry behind \<open>entries\<close>, as long as the capacity allows it.\<close>

definition pushEntry :: "nat \<Rightarrow> IndexEntry list \<Rightarrow> IndexEntry \<Rightarrow> IndexEntry list option" where
  "pushEntry capacity entries e = (if length entries = capacity then None else Some (entries @ [e]))"

definition scalarEntry :: "nat \<Rightarrow> nat \<Rightarrow> u8 \<Rightarrow> u8 \<Rightarrow> IndexEntry" where
  "scalarEntry start end kind flags =
     \<lparr>e_start = of_nat start, e_end = of_nat end, e_next = 1, e_info = packInfo 0 kind flags\<rparr>"

definition openEntry :: "nat \<Rightarrow> u8 \<Rightarrow> IndexEntry" where
  "openEntry start kind = \<lparr>e_start = of_nat start, e_end = 0, e_next = 0, e_info = packInfo 0 kind 0\<rparr>"

text \<open>A step returns or goes on: \<open>Inl\<close> the status with the builder's cursor and entries, \<open>Inr\<close> the next label.
  \<^verbatim>\<open>emitScalar\<close> and \<^verbatim>\<open>stringFast\<close> report the status, the cursor and the entries.\<close>

definition emitScalar :: "nat \<Rightarrow> nat \<Rightarrow> nat \<Rightarrow> u8 \<Rightarrow> u8 \<Rightarrow> IndexEntry list \<Rightarrow> tapeParseStatus \<times> nat \<times> IndexEntry list" where
  "emitScalar capacity start end kind flags entries =
     (case pushEntry capacity entries (scalarEntry start end kind flags) of
        None \<Rightarrow> (tapeParseFull, start, entries)
      | Some entries \<Rightarrow> (tapeParseOK, end, entries))"

definition stringFast :: "bytes \<Rightarrow> nat \<Rightarrow> nat \<Rightarrow> u8 \<Rightarrow> IndexEntry list \<Rightarrow> tapeParseStatus \<times> nat \<times> IndexEntry list" where
  "stringFast src capacity start flags entries =
     (let m = stringSpecialMask (load64 src (start + 1)); j = start + 1 + trailing_zeros64 m div 8 in
      if start + 9 \<le> length src \<and> m \<noteq> 0 \<and> src ! j = 0x22
      then emitScalar capacity start (j + 1) KString flags entries
      else
        (let scanStart = (if start + 9 \<le> length src then (if m \<noteq> 0 then j else start + 9) else start + 1) in
         case scanJSONStringFastFrom src scanStart of (end, escaped, ok) \<Rightarrow>
           if \<not> ok then (tapeParseInvalid, start, entries)
           else emitScalar capacity start end KString (if escaped then flags OR tapeFlagEscaped else flags) entries))"

text \<open>The labels of \<^verbatim>\<open>walkFast\<close>. The three scope arrays are one stack of (entry, count, is array), innermost first; its
  depth is \<^verbatim>\<open>sp\<close>. The variable \<^verbatim>\<open>c\<close> is live at label \<^verbatim>\<open>objectKey\<close> only, so it is an argument of that label.\<close>

datatype label = LValue | LKey byte | LScopeEnd

record walkState =
  w_label :: label
  w_i :: nat
  w_entries :: "IndexEntry list"
  w_scopes :: "(nat \<times> nat \<times> bool) list"

type_synonym walkResult = "tapeParseStatus \<times> nat \<times> IndexEntry list"

definition w_stop :: "tapeParseStatus \<Rightarrow> walkState \<Rightarrow> walkResult + walkState" where
  "w_stop status s = Inl (status, w_i s, w_entries s)"

text \<open>Continuing after a scalar at label \<^verbatim>\<open>scopeEnd\<close>, unless the entry was refused.\<close>

definition w_scalar :: "walkResult \<Rightarrow> walkState \<Rightarrow> walkResult + walkState" where
  "w_scalar r s =
     (case r of (status, i, entries) \<Rightarrow>
        if status \<noteq> tapeParseOK then Inl r
        else Inr (s\<lparr>w_label := LScopeEnd, w_i := i, w_entries := entries\<rparr>))"

definition closeEntry :: "nat \<Rightarrow> nat \<Rightarrow> IndexEntry list \<Rightarrow> IndexEntry list" where
  "closeEntry entry end entries =
     entries[entry := (entries ! entry)\<lparr>e_end := of_nat end, e_next := of_nat (length entries) - of_nat entry\<rparr>]"

definition walkObject :: "bytes \<Rightarrow> nat \<Rightarrow> nat \<Rightarrow> walkState \<Rightarrow> walkResult + walkState" where
  "walkObject src capacity depthLimit s =
     (if length (w_scopes s) \<ge> depthLimit then w_stop tapeParseInvalid s
      else case pushEntry capacity (w_entries s) (openEntry (w_i s) KObject) of
        None \<Rightarrow> w_stop tapeParseFull s
      | Some entries \<Rightarrow>
          (let entry = length (w_entries s); (i, c) = nextSignificantFast src (w_i s + 1) in
           if c = 0x7D
           then Inr (s\<lparr>w_label := LScopeEnd, w_i := i + 1, w_entries := closeEntry entry (i + 1) entries\<rparr>)
           else Inr (s\<lparr>w_label := LKey c, w_i := i, w_entries := entries,
                       w_scopes := (entry, 0, False) # w_scopes s\<rparr>)))"

definition walkArray :: "bytes \<Rightarrow> nat \<Rightarrow> nat \<Rightarrow> walkState \<Rightarrow> walkResult + walkState" where
  "walkArray src capacity depthLimit s =
     (if length (w_scopes s) \<ge> depthLimit then w_stop tapeParseInvalid s
      else case pushEntry capacity (w_entries s) (openEntry (w_i s) KArray) of
        None \<Rightarrow> w_stop tapeParseFull s
      | Some entries \<Rightarrow>
          (let entry = length (w_entries s); (i, c) = nextSignificantFast src (w_i s + 1) in
           if i \<ge> length src then w_stop tapeParseInvalid (s\<lparr>w_entries := entries\<rparr>)
           else if c = 0x5D
           then Inr (s\<lparr>w_label := LScopeEnd, w_i := i + 1, w_entries := closeEntry entry (i + 1) entries\<rparr>)
           else Inr (s\<lparr>w_label := LValue, w_i := i, w_entries := entries,
                       w_scopes := (entry, 0, True) # w_scopes s\<rparr>)))"

text \<open>Label \<^verbatim>\<open>value\<close>. \<^verbatim>\<open>walkFastSWAR\<close> is the same machine with the other number scanner; \<open>swar\<close> chooses it.\<close>

definition walkValue :: "bool \<Rightarrow> bytes \<Rightarrow> nat \<Rightarrow> nat \<Rightarrow> walkState \<Rightarrow> walkResult + walkState" where
  "walkValue swar src capacity depthLimit s =
     (let i = w_i s; ch = fastByteAt src i in
      if ch = 0x7B then walkObject src capacity depthLimit s
      else if ch = 0x5B then walkArray src capacity depthLimit s
      else if ch = 0x22 then w_scalar (stringFast src capacity i 0 (w_entries s)) s
      else if ch = 0x74 then
        (if i + 4 > length src \<or> loadUint32LE src i \<noteq> wordTrueLE then w_stop tapeParseInvalid s
         else w_scalar (emitScalar capacity i (i + 4) KBool 0 (w_entries s)) s)
      else if ch = 0x66 then
        (if i + 5 > length src \<or> loadUint32LE src (i + 1) \<noteq> wordAlseLE then w_stop tapeParseInvalid s
         else w_scalar (emitScalar capacity i (i + 5) KBool 0 (w_entries s)) s)
      else if ch = 0x6E then
        (if i + 4 > length src \<or> loadUint32LE src i \<noteq> wordNullLE then w_stop tapeParseInvalid s
         else w_scalar (emitScalar capacity i (i + 4) KNull 0 (w_entries s)) s)
      else if ch \<noteq> 0x2D \<and> \<not> isDigit ch then w_stop tapeParseInvalid s
      else case (if swar then scanNumberFastTaggedSWAR src i else scanNumberFastTagged src i) of (end, integer, ok) \<Rightarrow>
        if \<not> ok then w_stop tapeParseInvalid s
        else w_scalar (emitScalar capacity i end KNumber (numberFlags integer) (w_entries s)) s)"

text \<open>Label \<^verbatim>\<open>objectKey\<close>.\<close>

definition walkKey :: "bytes \<Rightarrow> nat \<Rightarrow> byte \<Rightarrow> walkState \<Rightarrow> walkResult + walkState" where
  "walkKey src capacity c s =
     (if c \<noteq> 0x22 then w_stop tapeParseInvalid s
      else case stringFast src capacity (w_i s) tapeFlagKey (w_entries s) of (status, i, entries) \<Rightarrow>
        if status \<noteq> tapeParseOK then Inl (status, i, entries)
        else let s = s\<lparr>w_entries := entries\<rparr>; (i, c) = nextSignificantFast src i in
          if c \<noteq> 0x3A then w_stop tapeParseInvalid s
          else let i = skipSpaceFast src (i + 1) in
            if i \<ge> length src then w_stop tapeParseInvalid s
            else Inr (s\<lparr>w_label := LValue, w_i := i\<rparr>))"

text \<open>Label \<^verbatim>\<open>scopeEnd\<close>.\<close>

definition closeScope :: "nat \<Rightarrow> nat \<Rightarrow> nat \<Rightarrow> walkState \<Rightarrow> walkResult + walkState" where
  "closeScope entry count i s =
     (if count > infoMaxCount then w_stop tapeParseInvalid s
      else let entries = w_entries s;
               e = (entries ! entry)\<lparr>e_end := of_nat (i + 1)\<rparr>;
               e = (setCount (of_nat count) e)\<lparr>e_next := of_nat (length entries) - of_nat entry\<rparr>
           in Inr (s\<lparr>w_label := LScopeEnd, w_i := i + 1, w_entries := entries[entry := e], w_scopes := tl (w_scopes s)\<rparr>))"

definition walkScopeEnd :: "bytes \<Rightarrow> walkState \<Rightarrow> walkResult + walkState" where
  "walkScopeEnd src s =
     (case w_scopes s of
        [] \<Rightarrow> w_stop tapeParseOK s
      | (entry, count, isArray) # outer \<Rightarrow>
          (let (i, c) = nextSignificantFast src (w_i s) in
           if c = 0x2C then
             (let s = s\<lparr>w_scopes := (entry, count + 1, isArray) # outer\<rparr> in
              if isArray then
                (let i = skipSpaceFast src (i + 1) in
                 if i \<ge> length src then w_stop tapeParseInvalid s
                 else Inr (s\<lparr>w_label := LValue, w_i := i\<rparr>))
              else let (i, c) = nextSignificantFast src (i + 1)
                in Inr (s\<lparr>w_label := LKey c, w_i := i\<rparr>))
           else if c \<noteq> (if isArray then 0x5D else 0x7D) then w_stop tapeParseInvalid s
           else closeScope entry (count + 1) i s))"

definition walkStep :: "bool \<Rightarrow> bytes \<Rightarrow> nat \<Rightarrow> nat \<Rightarrow> walkState \<Rightarrow> walkResult + walkState" where
  "walkStep swar src capacity depthLimit s =
     (case w_label s of
        LValue \<Rightarrow> walkValue swar src capacity depthLimit s
      | LKey c \<Rightarrow> walkKey src capacity c s
      | LScopeEnd \<Rightarrow> walkScopeEnd src s)"

text \<open>Every step moves the cursor forward, inside the source.\<close>

lemma emitScalar_ok: "emitScalar capacity i j k f es = (tapeParseOK, m, es') \<Longrightarrow> m = j"
  by (auto simp: emitScalar_def split: option.splits)

lemma stringFast_progress:
  assumes "stringFast src capacity i f es = (tapeParseOK, m, es')"
  shows "i < m \<and> i < length src"
proof -
  let ?m = "stringSpecialMask (load64 src (Suc i))"
  let ?j = "Suc i + trailing_zeros64 ?m div 8"
  let ?s = "if i + 9 \<le> length src then if ?m \<noteq> 0 then ?j else i + 9 else Suc i"
  show ?thesis
  proof (cases "i + 9 \<le> length src \<and> ?m \<noteq> 0 \<and> src ! ?j = 0x22")
    case True
    then have "emitScalar capacity i (?j + 1) KString f es = (tapeParseOK, m, es')"
      using assms by (simp add: stringFast_def Let_def)
    then show ?thesis using True emitScalar_ok by fastforce
  next
    case False
    obtain k e ok where r: "scanJSONStringFastFrom src ?s = (k, e, ok)" by (cases "scanJSONStringFastFrom src ?s")
    have "ok \<and> m = k" using assms False r emitScalar_ok
      by (fastforce simp: stringFast_def Let_def split: if_splits)
    then show ?thesis using fastStringLoop_progress [of src ?s False k e] r
      by (auto simp: scanJSONStringFastFrom_def split: if_splits)
  qed
qed

lemma fastByteAt_in: "fastByteAt src i \<noteq> 0 \<Longrightarrow> i < length src"
  by (auto simp: fastByteAt_def split: if_splits)

lemma w_scalar_Inr: "w_scalar r s = Inr s' \<Longrightarrow> \<exists>i es. r = (tapeParseOK, i, es) \<and> w_i s' = i"
  by (cases r) (auto simp: w_scalar_def split: if_splits)

lemma walkStep_progress:
  assumes "walkStep swar src capacity d s = Inr s'"
  shows "w_i s < length src \<and> w_i s < w_i s'"
proof (cases "w_label s")
  case LValue
  then have v: "walkValue swar src capacity d s = Inr s'" using assms by (simp add: walkStep_def)
  have "fastByteAt src (w_i s) \<noteq> 0" using v by (auto simp: walkValue_def w_stop_def Let_def isDigit_def)
  then have "w_i s < length src" by (rule fastByteAt_in)
  moreover have "w_i s < w_i s'"
    using v
    by (auto simp: walkValue_def walkObject_def walkArray_def w_stop_def Let_def
        split: if_splits option.splits prod.splits
        dest!: w_scalar_Inr stringFast_progress emitScalar_ok scanNumber_progress nextSignificantFast_ge)
  ultimately show ?thesis ..
next
  case (LKey c')
  then obtain i es j c where k: "stringFast src capacity (w_i s) tapeFlagKey (w_entries s) = (tapeParseOK, i, es)"
    "nextSignificantFast src i = (j, c)" "w_i s' = skipSpaceFast src (j + 1)"
    using assms by (auto simp: walkStep_def walkKey_def w_stop_def Let_def split: if_splits prod.splits)
  then show ?thesis
    using stringFast_progress [OF k(1)] nextSignificantFast_ge [OF k(2)] skipSpaceFast_ge [of "j + 1" src] by linarith
next
  case LScopeEnd
  then have e: "walkScopeEnd src s = Inr s'" using assms by (simp add: walkStep_def)
  obtain j c where n: "nextSignificantFast src (w_i s) = (j, c)" by (cases "nextSignificantFast src (w_i s)")
  have "c \<noteq> 0 \<and> j < w_i s'"
    using e n skipSpaceFast_ge [of "Suc j" src]
    by (auto simp: walkScopeEnd_def closeScope_def w_stop_def Let_def
        split: if_splits list.splits prod.splits dest!: nextSignificantFast_ge)
  then show ?thesis using nextSignificantFast_ge [OF n] by auto
qed

function walk :: "bool \<Rightarrow> bytes \<Rightarrow> nat \<Rightarrow> nat \<Rightarrow> walkState \<Rightarrow> walkResult" where
  "walk swar src capacity depthLimit s =
     (case walkStep swar src capacity depthLimit s of
        Inl r \<Rightarrow> r
      | Inr s \<Rightarrow> walk swar src capacity depthLimit s)"
  by pat_completeness auto
termination
  by (relation "measure (\<lambda>(_, src, _, _, s). length src - w_i s)") (auto dest: walkStep_progress)

declare walk.simps [simp del]

definition fastWalkMaxDepth :: nat where
  "fastWalkMaxDepth = 64"

definition walkFrom :: "bool \<Rightarrow> bytes \<Rightarrow> nat \<Rightarrow> nat \<Rightarrow> nat \<Rightarrow> walkResult" where
  "walkFrom swar src capacity maxDepth i =
     walk swar src capacity (if maxDepth > fastWalkMaxDepth then fastWalkMaxDepth else maxDepth)
       \<lparr>w_label = LValue, w_i = i, w_entries = [], w_scopes = []\<rparr>"

definition walkFast :: "bytes \<Rightarrow> nat \<Rightarrow> nat \<Rightarrow> nat \<Rightarrow> walkResult" where
  "walkFast = walkFrom False"

definition walkFastSWAR :: "bytes \<Rightarrow> nat \<Rightarrow> nat \<Rightarrow> nat \<Rightarrow> walkResult" where
  "walkFastSWAR = walkFrom True"

definition parseFast :: "bytes \<Rightarrow> nat \<Rightarrow> nat \<Rightarrow> tapeParseStatus \<times> IndexEntry list" where
  "parseFast src capacity maxDepth =
     (let i = skipSpaceFast src 0 in
      if i \<ge> length src then (tapeParseInvalid, [])
      else case walkFast src capacity maxDepth i of (status, i, entries) \<Rightarrow>
        if status \<noteq> tapeParseOK then (status, entries)
        else if skipSpaceFast src i \<noteq> length src then (tapeParseInvalid, entries)
        else (tapeParseOK, entries))"

definition parseFastSWAR :: "bytes \<Rightarrow> nat \<Rightarrow> nat \<Rightarrow> tapeParseStatus \<times> IndexEntry list" where
  "parseFastSWAR src capacity maxDepth =
     (let i = skipSpaceFast src 0 in
      if i \<ge> length src then (tapeParseInvalid, [])
      else case walkFastSWAR src capacity maxDepth i of (status, i, entries) \<Rightarrow>
        if status \<noteq> tapeParseOK then (status, entries)
        else if skipSpaceFast src i \<noteq> length src then (tapeParseInvalid, entries)
        else (tapeParseOK, entries))"

section \<open>The diagnostic builder\<close>

datatype buildError = ErrIndexTooLarge | ErrIndexFull | Syntax SyntaxError

text \<open>The mutable part of \<^verbatim>\<open>tapeBuilder\<close>. While a container is open, the next word of its header holds the entry number
  of the enclosing one.\<close>

record tapeBuilder =
  b_entries :: "IndexEntry list"
  b_parent :: u32
  b_i :: nat
  b_sp :: nat

definition noTapeParent :: u32 where
  "noTapeParent = NOT 0"

definition b_err :: "bytes \<Rightarrow> int \<Rightarrow> syntax_msg \<Rightarrow> buildError" where
  "b_err src off msg = Syntax (syntaxError src off msg)"

definition b_skipSpace :: "bytes \<Rightarrow> tapeBuilder \<Rightarrow> tapeBuilder" where
  "b_skipSpace src b = b\<lparr>b_i := skipSpaceFast src (b_i b)\<rparr>"

text \<open>\<^verbatim>\<open>b.i < len(b.src) && b.src[b.i] == c\<close>.\<close>

definition b_at :: "bytes \<Rightarrow> tapeBuilder \<Rightarrow> byte \<Rightarrow> bool" where
  "b_at src b c \<longleftrightarrow> b_i b < length src \<and> src ! b_i b = c"

definition addEntry :: "nat \<Rightarrow> IndexEntry \<Rightarrow> tapeBuilder \<Rightarrow> buildError + (nat \<times> tapeBuilder)" where
  "addEntry capacity e b =
     (if length (b_entries b) = capacity then Inl ErrIndexFull
      else Inr (length (b_entries b), b\<lparr>b_entries := b_entries b @ [e]\<rparr>))"

definition pushContainer :: "nat \<Rightarrow> tapeBuilder \<Rightarrow> tapeBuilder" where
  "pushContainer entry b =
     b\<lparr>b_entries := (b_entries b)[entry := (b_entries b ! entry)\<lparr>e_next := b_parent b\<rparr>],
       b_parent := of_nat entry, b_sp := b_sp b + 1\<rparr>"

definition finishContainer :: "tapeBuilder \<Rightarrow> tapeBuilder" where
  "finishContainer b =
     (let entry = unat (b_parent b); e = b_entries b ! entry in
      b\<lparr>b_parent := e_next e, b_sp := b_sp b - 1,
        b_entries := (b_entries b)[entry := e\<lparr>e_end := of_nat (b_i b), e_next := of_nat (length (b_entries b)) - b_parent b\<rparr>]\<rparr>)"

text \<open>The loop of \<^verbatim>\<open>parseStringRaw\<close> of \<^verbatim>\<open>raw.go\<close> from position \<open>i\<close>: the position after the closing quote and whether an escape
  was seen.\<close>

function parseStringRawFrom :: "bytes \<Rightarrow> nat \<Rightarrow> bool \<Rightarrow> SyntaxError + (nat \<times> bool)" where
  "parseStringRawFrom src i escaped =
     (let j = scanStringSpecialScalar src i in
      if j \<ge> length src then Inl (syntaxError src (int (length src)) UnterminatedString)
      else let c = src ! j in
      if c = 0x22 then Inr (j + 1, escaped)
      else if c = 0x5C then
        (if j + 1 \<ge> length src then Inl (syntaxError src (int (j + 1)) UnterminatedEscape)
         else case validateEscape src (j + 1) of
           Inl e \<Rightarrow> Inl e
         | Inr i' \<Rightarrow> parseStringRawFrom src i' True)
      else if c < 0x20 then Inl (syntaxError src (int j) ControlByte)
      else case scanStringUnicodeRun src j of
        (_, Some bad) \<Rightarrow> Inl (syntaxError src (int bad) InvalidUTF8)
      | (next, None) \<Rightarrow> parseStringRawFrom src next escaped)"
  by pat_completeness auto
termination
proof (relation "measure (\<lambda>(src, i, _). length src - i)")
  fix src :: bytes and i j i' :: nat and c escaped
  assume a: "j = scanStringSpecialScalar src i" "\<not> j \<ge> length src" "validateEscape src (j + 1) = Inr i'"
  then have "i \<le> j" "j + 1 < i'"
    using scanStringSpecialScalar_ge(1) [of src i] validateEscape_progress by auto
  then show "((src, i', True), (src, i, escaped)) \<in> measure (\<lambda>(src, i, _). length src - i)" using a(2) by simp
next
  fix src :: bytes and i j n :: nat and c b escaped
  assume a: "j = scanStringSpecialScalar src i" "\<not> j \<ge> length src"
    "c = src ! j" "c \<noteq> 0x22" "c \<noteq> 0x5C" "\<not> c < 0x20" "(n, b) = scanStringUnicodeRun src j" "b = None"
  then have "i \<le> j" "0x80 \<le> src ! j"
    using scanStringSpecialScalar_ge [of src i] by (auto simp: is_special_byte_def)
  then have "j < n" using a(2,7,8) scanStringUnicodeRun_progress [of src j n] by simp
  then show "((src, n, escaped), (src, i, escaped)) \<in> measure (\<lambda>(src, i, _). length src - i)"
    using a(2) \<open>i \<le> j\<close> by simp
qed simp

declare parseStringRawFrom.simps [simp del]

definition tapeString :: "bytes \<Rightarrow> tapeBuilder \<Rightarrow> buildError + (nat \<times> bool \<times> tapeBuilder)" where
  "tapeString src b =
     (case scanJSONStringFast src (b_i b) (length src \<le> 64) of (end, escaped, ok) \<Rightarrow>
        if ok then Inr (end, escaped, b\<lparr>b_i := end\<rparr>)
        else case parseStringRawFrom src (b_i b + 1) False of
          Inl e \<Rightarrow> Inl (Syntax e)
        | Inr (end, escaped) \<Rightarrow> Inr (end, escaped, b\<lparr>b_i := end\<rparr>))"

definition tapeScalarAt :: "nat \<Rightarrow> u8 \<Rightarrow> nat \<Rightarrow> nat \<Rightarrow> u8 \<Rightarrow> tapeBuilder \<Rightarrow> buildError + (u8 \<times> nat \<times> tapeBuilder)" where
  "tapeScalarAt capacity kind start end flags b =
     (case addEntry capacity (scalarEntry start end kind flags) b of
        Inl e \<Rightarrow> Inl e
      | Inr (entry, b) \<Rightarrow> Inr (kind, entry, b))"

definition tapeLiteral :: "bytes \<Rightarrow> nat \<Rightarrow> bytes \<Rightarrow> u8 \<Rightarrow> tapeBuilder \<Rightarrow> buildError + (u8 \<times> nat \<times> tapeBuilder)" where
  "tapeLiteral src capacity lit kind b =
     (if \<not> matchStringAt src (b_i b) lit then Inl (b_err src (int (b_i b)) InvalidLiteral)
      else tapeScalarAt capacity kind (b_i b) (b_i b + length lit) 0 (b\<lparr>b_i := b_i b + length lit\<rparr>))"

definition tapeOpen :: "nat \<Rightarrow> u8 \<Rightarrow> tapeBuilder \<Rightarrow> buildError + (u8 \<times> nat \<times> tapeBuilder)" where
  "tapeOpen capacity kind b =
     (case addEntry capacity (openEntry (b_i b) kind) (b\<lparr>b_i := b_i b + 1\<rparr>) of
        Inl e \<Rightarrow> Inl e
      | Inr (entry, b) \<Rightarrow> Inr (kind, entry, b))"

definition tapeValue :: "bytes \<Rightarrow> nat \<Rightarrow> tapeBuilder \<Rightarrow> buildError + (u8 \<times> nat \<times> tapeBuilder)" where
  "tapeValue src capacity b =
     (let b = b_skipSpace src b; start = b_i b in
      if start \<ge> length src then Inl (b_err src (int start) ExpectedValue)
      else let c = src ! start in
      if c = 0x6E then tapeLiteral src capacity (ascii ''null'') KNull b
      else if c = 0x74 then tapeLiteral src capacity (ascii ''true'') KBool b
      else if c = 0x66 then tapeLiteral src capacity (ascii ''false'') KBool b
      else if c = 0x22 then
        (case tapeString src b of
           Inl e \<Rightarrow> Inl e
         | Inr (end, escaped, b) \<Rightarrow>
             tapeScalarAt capacity KString start end (if escaped then tapeFlagEscaped else 0) b)
      else if c = 0x5B then tapeOpen capacity KArray b
      else if c = 0x7B then tapeOpen capacity KObject b
      else if fastByteAt src start \<noteq> 0x2D \<and> \<not> isDigit (fastByteAt src start)
      then Inl (b_err src (int start) UnexpectedValueByte)
      else case scanNumberFastTagged src start of (end, integer, ok) \<Rightarrow>
        if \<not> ok then Inl (b_err src (int start) (case snd (scanNumber src start) of None \<Rightarrow> InvalidNumber | Some m \<Rightarrow> m))
        else tapeScalarAt capacity KNumber start end (numberFlags integer) (b\<lparr>b_i := end\<rparr>))"

definition tapeObjectKey :: "bytes \<Rightarrow> nat \<Rightarrow> tapeBuilder \<Rightarrow> buildError + tapeBuilder" where
  "tapeObjectKey src capacity b =
     (let b = b_skipSpace src b in
      if \<not> b_at src b 0x22 then Inl (b_err src (int (b_i b)) ExpectedKey)
      else let start = b_i b in
      case tapeString src b of
        Inl e \<Rightarrow> Inl e
      | Inr (end, escaped, b) \<Rightarrow>
          (case addEntry capacity (scalarEntry start end KString (if escaped then tapeFlagKey OR tapeFlagEscaped else tapeFlagKey)) b of
             Inl e \<Rightarrow> Inl e
           | Inr (_, b) \<Rightarrow>
               (let b = b_skipSpace src b in
                if \<not> b_at src b 0x3A then Inl (b_err src (int (b_i b)) ExpectedColon)
                else Inr (b\<lparr>b_i := b_i b + 1\<rparr>))))"

text \<open>\<^verbatim>\<open>parse\<close>: one turn of the outer loop while no value is complete, one turn of the inner loop after one. \<open>Inl\<close> returns,
  \<open>Inr\<close> continues with the flag \<^verbatim>\<open>completed\<close>. On the refused number the second scanner always has a message.\<close>

definition tapeOpenValue ::
  "bytes \<Rightarrow> nat \<Rightarrow> nat \<Rightarrow> tapeBuilder \<Rightarrow> (buildError + tapeBuilder) + (bool \<times> tapeBuilder)" where
  "tapeOpenValue src capacity maxDepth b =
     (case tapeValue src capacity b of
        Inl e \<Rightarrow> Inl (Inl e)
      | Inr (kind, entry, b) \<Rightarrow>
          if kind \<noteq> KArray \<and> kind \<noteq> KObject then Inr (True, b)
          else if b_sp b \<ge> maxDepth then Inl (Inl (b_err src (int (b_i b) - 1) MaxDepthExceeded))
          else let b = b_skipSpace src (pushContainer entry b) in
            if b_at src b (if kind = KObject then 0x7D else 0x5D)
            then Inr (True, finishContainer (b\<lparr>b_i := b_i b + 1\<rparr>))
            else if kind = KObject then
              (case tapeObjectKey src capacity b of Inl e \<Rightarrow> Inl (Inl e) | Inr b \<Rightarrow> Inr (False, b))
            else Inr (False, b))"

definition tapeComplete ::
  "bytes \<Rightarrow> nat \<Rightarrow> tapeBuilder \<Rightarrow> (buildError + tapeBuilder) + (bool \<times> tapeBuilder)" where
  "tapeComplete src capacity b =
     (if b_sp b = 0 then
        (let b = b_skipSpace src b in
         if b_i b \<noteq> length src then Inl (Inl (b_err src (int (b_i b)) TrailingData)) else Inl (Inr b))
      else let frame = b_entries b ! unat (b_parent b) in
      if unat (Count frame) = infoMaxCount then Inl (Inl ErrIndexTooLarge)
      else let b = b_skipSpace src (b\<lparr>b_entries := (b_entries b)[unat (b_parent b) := bumpCount frame]\<rparr>);
               isArray = (Kind frame = KArray) in
        if b_i b \<ge> length src
        then Inl (Inl (b_err src (int (b_i b)) (if isArray then UnterminatedArray else UnterminatedObject)))
        else if src ! b_i b = 0x2C then
          (if isArray then Inr (False, b\<lparr>b_i := b_i b + 1\<rparr>)
           else case tapeObjectKey src capacity (b\<lparr>b_i := b_i b + 1\<rparr>) of
             Inl e \<Rightarrow> Inl (Inl e)
           | Inr b \<Rightarrow> Inr (False, b))
        else if src ! b_i b = (if isArray then 0x5D else 0x7D)
        then Inr (True, finishContainer (b\<lparr>b_i := b_i b + 1\<rparr>))
        else Inl (Inl (b_err src (int (b_i b)) (if isArray then ExpectedCommaOrBracket else ExpectedCommaOrBrace))))"

definition tapeStep ::
  "bytes \<Rightarrow> nat \<Rightarrow> nat \<Rightarrow> bool \<times> tapeBuilder \<Rightarrow> (buildError + tapeBuilder) + (bool \<times> tapeBuilder)" where
  "tapeStep src capacity maxDepth st =
     (case st of (completed, b) \<Rightarrow>
        if completed then tapeComplete src capacity b else tapeOpenValue src capacity maxDepth b)"

text \<open>Every turn moves the cursor forward, inside the source.\<close>

lemma shortString_progress: "shortStringLoop src limit i = (k, True) \<Longrightarrow> i < k \<and> i < limit"
proof (induction src limit i rule: shortStringLoop.induct)
  case (1 src limit i)
  then show ?case by (subst (asm) (2) shortStringLoop.simps) (auto simp: Let_def split: if_splits)
qed

lemma parseStringRaw_progress: "parseStringRawFrom src i e = Inr (k, e') \<Longrightarrow> i < k \<and> i < length src"
proof (induction src i e rule: parseStringRawFrom.induct)
  case (1 src i e)
  let ?j = "scanStringSpecialScalar src i"
  have j: "i \<le> ?j" "?j < length src" "is_special_byte (src ! ?j)"
    using 1(3) scanStringSpecialScalar_ge [of src i] by (auto simp: parseStringRawFrom.simps [of src i] Let_def split: if_splits)
  consider "src ! ?j = 0x22" | i' where "src ! ?j = 0x5C" "\<not> length src \<le> ?j + 1" "validateEscape src (?j + 1) = Inr i'"
      "parseStringRawFrom src i' True = Inr (k, e')"
    | n where "src ! ?j \<noteq> 0x22" "src ! ?j \<noteq> 0x5C" "\<not> src ! ?j < 0x20" "scanStringUnicodeRun src ?j = (n, None)"
      "parseStringRawFrom src n e = Inr (k, e')"
    using 1(3) j(2) by (auto simp: parseStringRawFrom.simps [of src i] Let_def split: if_splits sum.splits prod.splits option.splits)
  then show ?case
  proof cases
    case 1
    then show ?thesis using \<open>parseStringRawFrom src i e = Inr (k, e')\<close> j by (auto simp: parseStringRawFrom.simps [of src i])
  next
    case (2 i')
    have "i' < k" by (rule 1(1) [THEN conjunct1, OF refl _ refl]) (use 2 j in auto)
    then show ?thesis using validateEscape_progress [OF 2(3)] j by linarith
  next
    case (3 n)
    then have "0x80 \<le> src ! ?j" using j(3) by (auto simp: is_special_byte_def)
    then have "?j < n" using scanStringUnicodeRun_progress [OF 3(4) j(2)] by simp
    moreover have "n < k" by (rule 1(2) [THEN conjunct1, OF refl _ refl]) (use 3 j in auto)
    ultimately show ?thesis using j by linarith
  qed
qed

lemma tapeString_progress:
  assumes "tapeString src b = Inr (k, e, b')"
  shows "b_i b < k \<and> b_i b < length src \<and> b_i b' = k"
proof -
  obtain j g ok where s: "scanJSONStringFast src (b_i b) (length src \<le> 64) = (j, g, ok)"
    by (cases "scanJSONStringFast src (b_i b) (length src \<le> 64)")
  show ?thesis
  proof (cases ok)
    case True
    then have "b_i b < j \<and> b_i b < length src"
      using s by (auto simp: scanJSONStringFast_def scanShortJSONString_def scanJSONStringFastLong_def
          scanJSONStringFastFrom_def Let_def split: if_splits prod.splits dest!: shortString_progress fastStringLoop_progress)
    then show ?thesis using assms s True by (auto simp: tapeString_def)
  next
    case False
    then show ?thesis using assms s
      by (auto simp: tapeString_def split: sum.splits dest!: parseStringRaw_progress)
  qed
qed

lemma tapeObjectKey_progress:
  assumes "tapeObjectKey src capacity b = Inr b'"
  shows "b_i b < length src \<and> b_i b < b_i b'"
proof -
  obtain k e m where s: "tapeString src (b_skipSpace src b) = Inr (k, e, m)" "b_i b' = Suc (skipSpaceFast src (b_i m))"
    using assms by (auto simp: tapeObjectKey_def addEntry_def b_skipSpace_def Let_def split: if_splits sum.splits prod.splits)
  then show ?thesis
    using tapeString_progress [OF s(1)] skipSpaceFast_ge [of "b_i b" src] skipSpaceFast_ge [of "b_i m" src]
    by (simp add: b_skipSpace_def)
qed

lemma tapeValue_progress:
  assumes "tapeValue src capacity b = Inr (k, n, b')"
  shows "b_i b < length src \<and> b_i b < b_i b'"
proof -
  let ?b = "b_skipSpace src b"
  have i: "b_i b \<le> b_i ?b" using skipSpaceFast_ge [of "b_i b" src] by (simp add: b_skipSpace_def)
  have "b_i ?b < length src \<and> b_i ?b < b_i b'"
    using assms
    by (auto simp: tapeValue_def tapeLiteral_def tapeScalarAt_def tapeOpen_def addEntry_def Let_def
        split: if_splits sum.splits prod.splits dest!: scanNumber_progress tapeString_progress)
  then show ?thesis using i by auto
qed

lemma finishContainer_i [simp]: "b_i (finishContainer b) = b_i b"
  by (simp add: finishContainer_def Let_def)

lemma tapeStep_progress:
  assumes "tapeStep src capacity maxDepth (c, b) = Inr (c', b')"
  shows "b_i b < length src \<and> b_i b < b_i b'"
proof (cases c)
  case True
  have "b_i b \<le> skipSpaceFast src (b_i b)" by (rule skipSpaceFast_ge)
  then show ?thesis
    using assms True
    by (auto simp: tapeStep_def tapeComplete_def b_skipSpace_def Let_def split: if_splits sum.splits
        dest!: tapeObjectKey_progress)
next
  case False
  then obtain k n m where v: "tapeValue src capacity b = Inr (k, n, m)"
    using assms by (auto simp: tapeStep_def tapeOpenValue_def split: sum.splits)
  have "b_i m \<le> b_i b'"
    using assms False v skipSpaceFast_ge [of "b_i m" src]
    by (auto simp: tapeStep_def tapeOpenValue_def b_skipSpace_def pushContainer_def Let_def split: if_splits sum.splits
        dest!: tapeObjectKey_progress)
  then show ?thesis using tapeValue_progress [OF v] by auto
qed

function tapeLoop :: "bytes \<Rightarrow> nat \<Rightarrow> nat \<Rightarrow> bool \<times> tapeBuilder \<Rightarrow> buildError + tapeBuilder" where
  "tapeLoop src capacity maxDepth st =
     (case tapeStep src capacity maxDepth st of
        Inl r \<Rightarrow> r
      | Inr st \<Rightarrow> tapeLoop src capacity maxDepth st)"
  by pat_completeness auto
termination
  by (relation "measure (\<lambda>(src, _, _, st). length src - b_i (snd st))") (auto dest: tapeStep_progress)

declare tapeLoop.simps [simp del]

definition tapeParse :: "bytes \<Rightarrow> nat \<Rightarrow> nat \<Rightarrow> buildError + tapeBuilder" where
  "tapeParse src capacity maxDepth =
     tapeLoop src capacity maxDepth
       (False, b_skipSpace src \<lparr>b_entries = [], b_parent = noTapeParent, b_i = 0, b_sp = 0\<rparr>)"

section \<open>Key hashes (hash enrichment)\<close>

definition keyHashSeed :: u64 where "keyHashSeed = 0x9E3779B97F4A7C15"

definition keyHashMul :: u64 where "keyHashMul = 0xFF51AFD7ED558CCD"

definition keyHashInit :: "nat \<Rightarrow> u64" where
  "keyHashInit n = keyHashSeed XOR of_nat n * keyHashMul"

definition keyHashMix :: "u64 \<Rightarrow> u64 \<Rightarrow> u64" where
  "keyHashMix h w = (h XOR w) * keyHashMul"

definition keyHashFinish :: "u64 \<Rightarrow> u32" where
  "keyHashFinish h = (let h = h XOR drop_bit 29 h; h = h * keyHashSeed in ucast (drop_bit 32 h))"

text \<open>The eight-byte chunks before the last one.\<close>

function keyHashChunks :: "bytes \<Rightarrow> nat \<Rightarrow> u64 \<Rightarrow> u64" where
  "keyHashChunks content i h =
     (if i < length content then keyHashChunks content (i + 8) (keyHashMix h (load64 content (i - 8))) else h)"
  by pat_completeness auto
termination
  by (relation "measure (\<lambda>(content, i, _). length content - i)") auto

declare keyHashChunks.simps [simp del]

definition hashKeyContent :: "bytes \<Rightarrow> u32" where
  "hashKeyContent content =
     (let n = length content; h = keyHashInit n in
      keyHashFinish
        (if n \<ge> 8 then keyHashMix (keyHashChunks content 8 h) (load64 content (n - 8))
         else if n \<ge> 4 then
           (let lo = ucast (loadUint32LE content 0); hi = ucast (loadUint32LE content (n - 4))
            in keyHashMix h (lo OR push_bit (8 * (n - 4)) hi))
         else
           (let w = (if n > 0
                     then ucast (content ! 0) OR push_bit (8 * (n div 2)) (ucast (content ! (n div 2))) OR
                          push_bit (8 * (n - 1)) (ucast (content ! (n - 1)))
                     else 0)
            in keyHashMix h w)))"

definition hashKeyContentWord :: "u64 \<Rightarrow> nat \<Rightarrow> u32" where
  "hashKeyContentWord w n = keyHashFinish (keyHashMix (keyHashInit n) (w AND drop_bit (8 * (8 - n)) (NOT 0)))"

definition hashKeyString :: "bytes \<Rightarrow> u32" where
  "hashKeyString key = hashKeyContent key"

definition enrichEntry :: "bytes \<Rightarrow> IndexEntry \<Rightarrow> IndexEntry" where
  "enrichEntry src e =
     (if entryFlags e AND tapeFlagKey \<noteq> 0 then
        (let len = unat (e_end e - e_start e) - 2 in
         if len \<le> 8 \<and> unat (e_start e) + 9 \<le> length src
         then e\<lparr>e_next := hashKeyContentWord (load64 src (unat (e_start e) + 1)) len\<rparr>
         else e\<lparr>e_next := hashKeyContent (segment src (unat (e_start e) + 1) (unat (e_end e) - 1))\<rparr>)
      else if Kind e = KObject then e\<lparr>e_info := e_info e OR push_bit 29 (ucast tapeFlagEscaped)\<rparr>
      else e)"

definition enrichKeyHashes :: "bytes \<Rightarrow> IndexEntry list \<Rightarrow> IndexEntry list" where
  "enrichKeyHashes src entries = map (enrichEntry src) entries"

section \<open>The router\<close>

text \<open>\<^verbatim>\<open>buildIndexOptions\<close>: the bitmap engine, the fast walk, and the diagnostic builder when that declines. The bitmap
  engine \<^verbatim>\<open>buildIndexPositions\<close> and the choice of the number scanner \<^verbatim>\<open>indexFallbackNumberMode\<close>, which samples with the engine's first
  stage, are arguments; the engine returns the entries when it succeeds.\<close>

definition indexBitmapMaxBytes :: nat where "indexBitmapMaxBytes = 134217728"

definition bitmapSees :: "bytes \<Rightarrow> nat \<Rightarrow> bool" where
  "bitmapSees src maxDepth \<longleftrightarrow>
     maxDepth \<ge> fastWalkMaxDepth \<and> length src \<ge> validBitmapMinBytes \<and> length src < indexBitmapMaxBytes"

definition buildIndexPortable :: "bool \<Rightarrow> bytes \<Rightarrow> nat \<Rightarrow> nat \<Rightarrow> buildError + IndexEntry list" where
  "buildIndexPortable swar src capacity maxDepth =
     (case (if swar then parseFastSWAR src capacity maxDepth else parseFast src capacity maxDepth) of
        (tapeParseOK, es) \<Rightarrow> Inr es
      | (tapeParseFull, _) \<Rightarrow> Inl ErrIndexFull
      | (tapeParseInvalid, _) \<Rightarrow> (case tapeParse src capacity maxDepth of Inl e \<Rightarrow> Inl e | Inr b \<Rightarrow> Inr (b_entries b)))"

definition buildIndexOptions ::
  "(bytes \<Rightarrow> nat \<Rightarrow> IndexEntry list option) \<Rightarrow> (bytes \<Rightarrow> bool) \<Rightarrow> bytes \<Rightarrow> nat \<Rightarrow> int \<Rightarrow> bool \<Rightarrow> buildError + IndexEntry list" where
  "buildIndexOptions buildIndexPositions indexFallbackNumberMode src capacity depth hashKeys =
     (if length src > 0xFFFFFFFF \<or> capacity > 0xFFFFFFFF then Inl ErrIndexTooLarge
      else let maxDepth = effectiveDepth depth;
               built = (if bitmapSees src maxDepth
                        then (case buildIndexPositions src capacity of
                                Some es \<Rightarrow> Inr es
                              | None \<Rightarrow> buildIndexPortable (indexFallbackNumberMode src) src capacity maxDepth)
                        else buildIndexPortable False src capacity maxDepth)
           in case built of
                Inl e \<Rightarrow> Inl e
              | Inr es \<Rightarrow> Inr (if hashKeys then enrichKeyHashes src es else es))"

definition RequiredIndexEntries :: "bytes \<Rightarrow> (SyntaxError + nat) option" where
  "RequiredIndexEntries src =
     map_option (\<lambda>r. case r of Inl e \<Rightarrow> Inl e | Inr l \<Rightarrow> Inr (1 + nvalues l + 2 * nmembers l))
       (countLayout src (int defaultMaxDepth))"

end
