(* ===== verification/NumberEqual.thy ===== *)
theory NumberEqual
  imports Validator
begin

text \<open>
  Exact equality of JSON number spellings, \<^verbatim>\<open>number_equal.go\<close>: the decomposition of a spelling into
  offsets, the comparison of weights with its cold path on decimal digit strings, and the lockstep walk
  over the significant digits. Offsets that can be -1 and the int64 fields are \<open>int\<close> (their ranges are
  proved where the code relies on them); the uint64 magnitudes of the cold path are 64-bit words.
\<close>

section \<open>Decomposition\<close>

record decNumber =
  dn_zero :: bool
  dn_neg :: bool
  dn_sigFirst :: int
  dn_sigLast :: int
  dn_dot :: int
  dn_weight :: int
  dn_expFits :: bool
  dn_expNeg :: bool
  dn_expDigits :: bytes
  dn_adj :: int

function skipZeros :: "bytes \<Rightarrow> nat \<Rightarrow> nat" where
  "skipZeros src i = (if i < length src \<and> src ! i = 0x30 then skipZeros src (i + 1) else i)"
  by pat_completeness auto
termination
  by (relation "measure (\<lambda>(src, i). length src - i)") auto

declare skipZeros.simps [simp del]

text \<open>The scans for the first and the last nonzero byte of \<^verbatim>\<open>src[lo:hi]\<close>, -1 when there is none.\<close>

function firstNonzero :: "bytes \<Rightarrow> nat \<Rightarrow> nat \<Rightarrow> int" where
  "firstNonzero src j hi =
     (if j < hi then (if src ! j \<noteq> 0x30 then int j else firstNonzero src (j + 1) hi) else - 1)"
  by pat_completeness auto
termination
  by (relation "measure (\<lambda>(src, j, hi). hi - j)") auto

declare firstNonzero.simps [simp del]

fun lastNonzero :: "bytes \<Rightarrow> nat \<Rightarrow> nat \<Rightarrow> int" where
  "lastNonzero src lo 0 = - 1"
| "lastNonzero src lo (Suc j) =
     (if j < lo then - 1 else if src ! j \<noteq> 0x30 then int j else lastNonzero src lo j)"

definition decimalValue :: "bytes \<Rightarrow> int" where
  "decimalValue ds = foldl (\<lambda>e c. e * 10 + int (unat (c - 0x30))) 0 ds"

text \<open>The exponent: sign, digits without leading zeros, value and whether it fits.\<close>

definition decExponent :: "bytes \<Rightarrow> nat \<Rightarrow> bool \<times> bytes \<times> bool \<times> int" where
  "decExponent src i =
     (if i < length src then
        (let i = i + 1;
             expNeg = src ! i \<noteq> 0x2B \<and> src ! i = 0x2D;
             i = (if src ! i = 0x2B \<or> src ! i = 0x2D then i + 1 else i);
             expDigits = drop (skipZeros src i) src
         in if length expDigits \<le> 18
            then (expNeg, expDigits, True, if expNeg then - decimalValue expDigits else decimalValue expDigits)
            else (expNeg, expDigits, False, 0))
      else (False, [], True, 0))"

definition zeroDec :: decNumber where
  "zeroDec = \<lparr>dn_zero = False, dn_neg = False, dn_sigFirst = 0, dn_sigLast = 0, dn_dot = 0, dn_weight = 0,
     dn_expFits = False, dn_expNeg = False, dn_expDigits = [], dn_adj = 0\<rparr>"

definition parseDecNumber :: "bytes \<Rightarrow> decNumber" where
  "parseDecNumber src =
     (let neg = src ! 0 = 0x2D;
          intStart = (if neg then 1 else 0);
          intEnd = scanDigits src intStart;
          hasDot = intEnd < length src \<and> src ! intEnd = 0x2E;
          dot = (if hasDot then int intEnd else - 1);
          fracStart = (if hasDot then intEnd + 1 else 0);
          fracEnd = (if hasDot then scanDigits src fracStart else 0);
          (expNeg, expDigits, expFits, exp) = decExponent src (if hasDot then fracEnd else intEnd);
          d = zeroDec\<lparr>dn_neg := neg, dn_dot := dot, dn_expFits := expFits, dn_expNeg := expNeg,
                dn_expDigits := expDigits\<rparr>;
          first = (if src ! intStart \<noteq> 0x30 then int intStart else firstNonzero src fracStart fracEnd);
          d = d\<lparr>dn_sigFirst := first\<rparr>
      in if first < 0 then d\<lparr>dn_zero := True\<rparr>
         else
           let adj = (if src ! intStart \<noteq> 0x30 then int (intEnd - intStart) - 1
                      else - (first - int fracStart) - 1);
               d = d\<lparr>dn_adj := adj\<rparr>;
               d = (if expFits then d\<lparr>dn_weight := exp + adj\<rparr> else d);
               final = lastNonzero src fracStart fracEnd;
               final = (if final < 0 then lastNonzero src 0 intEnd else final)
           in d\<lparr>dn_sigLast := final\<rparr>)"

section \<open>Weights\<close>

definition absInt64 :: "int \<Rightarrow> u64" where
  "absInt64 v = word_of_int (if v < 0 then - v else v)"

definition decSignedAdd :: "bool \<Rightarrow> u64 \<Rightarrow> int \<Rightarrow> bool \<times> u64" where
  "decSignedAdd neg m adj =
     (let a = absInt64 adj in
      if neg = (adj < 0) then (neg \<and> m + a \<noteq> 0, m + a)
      else if m \<ge> a then (neg \<and> m \<noteq> a, m - a)
      else (\<not> neg, a - m))"

text \<open>The loop of \<^verbatim>\<open>appendDecimalUint64\<close>; a 64-bit value has at most 20 digits.\<close>

function decimalDigits :: "u64 \<Rightarrow> bytes \<Rightarrow> bytes" where
  "decimalDigits v buf =
     (let buf = ucast (0x30 + v mod 10) # buf; v = v div 10 in
      if v = 0 then buf else decimalDigits v buf)"
  by pat_completeness auto
termination
proof (relation "measure (\<lambda>(v, buf). unat v)")
  fix v w :: u64 and buf b :: bytes
  assume w: "w = v div 10" "w \<noteq> 0"
  then have "v \<noteq> 0" by auto
  then show "((w, b), v, buf) \<in> measure (\<lambda>(v, buf). unat v)" using w(1) by (simp add: unat_div unat_gt_0)
qed simp

declare decimalDigits.simps [simp del]

definition appendDecimalUint64 :: "bytes \<Rightarrow> u64 \<Rightarrow> bytes" where
  "appendDecimalUint64 dst v = dst @ decimalDigits v []"

text \<open>The two digit-string loops run from the last digit to the first; the list is reversed.\<close>

fun addFromLast :: "bytes \<Rightarrow> u64 \<Rightarrow> bytes" where
  "addFromLast [] u = []"
| "addFromLast (c # cs) u =
     (if u = 0 then c # cs
      else
        let s = ucast (c - 0x30) + u mod 10; u = u div 10;
            (s, u) = (if s \<ge> 10 then (s - 10, u + 1) else (s, u))
        in ucast (0x30 + s) # addFromLast cs u)"

definition decDigitsAddUint64 :: "bytes \<Rightarrow> u64 \<Rightarrow> bytes" where
  "decDigitsAddUint64 ds u =
     (let out = rev (addFromLast (rev (0x30 # ds)) u) in if out ! 0 = 0x30 then drop 1 out else out)"

fun subFromLast :: "bytes \<Rightarrow> u64 \<Rightarrow> u64 \<Rightarrow> bytes" where
  "subFromLast [] u borrow = []"
| "subFromLast (c # cs) u borrow =
     (if u = 0 \<and> borrow = 0 then c # cs
      else
        let sub = u mod 10 + borrow; u = u div 10; have = ucast (c - 0x30) in
        if have \<ge> sub then ucast (0x30 + have - sub) # subFromLast cs u 0
        else ucast (0x30 + have + 10 - sub) # subFromLast cs u 1)"

fun trimLeadingZeros :: "bytes \<Rightarrow> bytes" where
  "trimLeadingZeros (c # d # cs) = (if c = 0x30 then trimLeadingZeros (d # cs) else c # d # cs)"
| "trimLeadingZeros cs = cs"

definition decDigitsSubUint64 :: "bytes \<Rightarrow> u64 \<Rightarrow> bytes" where
  "decDigitsSubUint64 ds u = trimLeadingZeros (rev (subFromLast (rev ds) u 0))"

definition decWeightTermSmallLimit :: u64 where
  "decWeightTermSmallLimit = 10000000000000000000"

definition decimalWord :: "bytes \<Rightarrow> u64" where
  "decimalWord ds = foldl (\<lambda>m c. m * 10 + ucast (c - 0x30)) 0 ds"

text \<open>\<^verbatim>\<open>decWeightTerm\<close>: sign, small flag, magnitude, digits.\<close>

definition decWeightTerm :: "decNumber \<Rightarrow> bool \<times> bool \<times> u64 \<times> bytes" where
  "decWeightTerm d =
     (if length (dn_expDigits d) \<le> 19 then
        (let m = decimalWord (dn_expDigits d);
             (neg, mag) = decSignedAdd (dn_expNeg d) m (dn_adj d)
         in if mag < decWeightTermSmallLimit then (neg, True, mag, [])
            else (neg, False, 0, appendDecimalUint64 [] mag))
      else
        let ds = (if dn_expNeg d = (dn_adj d < 0)
                  then decDigitsAddUint64 (dn_expDigits d) (absInt64 (dn_adj d))
                  else decDigitsSubUint64 (dn_expDigits d) (absInt64 (dn_adj d)));
            m = decimalWord ds
        in if length ds \<le> 19 \<and> m < decWeightTermSmallLimit then (dn_expNeg d, True, m, [])
           else (dn_expNeg d, False, 0, ds))"

definition decWeightEqual :: "decNumber \<Rightarrow> decNumber \<Rightarrow> bool" where
  "decWeightEqual a b =
     (if dn_expFits a \<and> dn_expFits b then dn_weight a = dn_weight b
      else
        let (an, aSmall, aMag, aDigits) = decWeightTerm a;
            (bn, bSmall, bMag, bDigits) = decWeightTerm b
        in if aSmall \<noteq> bSmall then False
           else if aSmall then an = bn \<and> aMag = bMag
           else an = bn \<and> aDigits = bDigits)"

section \<open>Equality\<close>

text \<open>The lockstep loop over the significant digits, each cursor stepping over its decimal point.\<close>

function digitsAgree :: "bytes \<Rightarrow> bytes \<Rightarrow> decNumber \<Rightarrow> decNumber \<Rightarrow> nat \<Rightarrow> nat \<Rightarrow> bool" where
  "digitsAgree a b da db i j =
     (let i = (if int i = dn_dot da then i + 1 else i);
          j = (if int j = dn_dot db then j + 1 else j);
          aMore = int i \<le> dn_sigLast da; bMore = int j \<le> dn_sigLast db
      in if \<not> aMore \<or> \<not> bMore then aMore = bMore
         else if a ! i \<noteq> b ! j then False
         else digitsAgree a b da db (i + 1) (j + 1))"
  by pat_completeness auto
termination
  by (relation "measure (\<lambda>(a, b, da, db, i, j). nat (dn_sigLast da + 1 - int i))") auto

declare digitsAgree.simps [simp del]

definition jsonNumberEqual :: "bytes \<Rightarrow> bytes \<Rightarrow> bool" where
  "jsonNumberEqual a b =
     (if a = b then True
      else
        let da = parseDecNumber a; db = parseDecNumber b in
        if dn_zero da \<or> dn_zero db then dn_zero da = dn_zero db
        else if dn_neg da \<noteq> dn_neg db \<or> \<not> decWeightEqual da db then False
        else digitsAgree a b da db (nat (dn_sigFirst da)) (nat (dn_sigFirst db)))"

end
