(* ===== verification/OrderedKey.thy ===== *)
theory OrderedKey
  imports Validator
begin

unbundle bit_operations_syntax

text \<open>
  The order-preserving scalar keys of \<^verbatim>\<open>internal/orderedkey/key.go\<close>. Every \<^verbatim>\<open>Append\<close> function
  returns the extended buffer and its ok flag; on a refusal the buffer is the one passed in. The
  64-bit signed exponent arithmetic is on \<open>int\<close> with the code's own range checks. Theory
  \<open>OrderedKeyOrder\<close> has the proofs.
\<close>

type_synonym Direction = u8

definition Ascending :: Direction where "Ascending = 0"
definition Descending :: Direction where "Descending = 1"

definition tagNull :: byte where "tagNull = 0x10"
definition tagFalse :: byte where "tagFalse = 0x20"
definition tagTrue :: byte where "tagTrue = 0x21"
definition tagNumber :: byte where "tagNumber = 0x30"
definition tagNumberNegative :: byte where "tagNumberNegative = 0x10"
definition tagNumberZero :: byte where "tagNumberZero = 0x20"
definition tagNumberPositive :: byte where "tagNumberPositive = 0x30"
definition tagString :: byte where "tagString = 0x40"

definition invert :: "bytes \<Rightarrow> bytes" where
  "invert value = map NOT value"

definition invertDescending :: "bytes \<Rightarrow> Direction \<Rightarrow> bytes" where
  "invertDescending component direction = (if direction = Descending then invert component else component)"

section \<open>Null and Booleans\<close>

definition AppendNull :: "bytes \<Rightarrow> Direction \<Rightarrow> bytes \<times> bool" where
  "AppendNull dst direction =
     (if direction > Descending then (dst, False)
      else (dst @ invertDescending [tagNull] direction, True))"

definition AppendBool :: "bytes \<Rightarrow> bool \<Rightarrow> Direction \<Rightarrow> bytes \<times> bool" where
  "AppendBool dst value direction =
     (if direction > Descending then (dst, False)
      else (dst @ invertDescending [if value then tagTrue else tagFalse] direction, True))"

section \<open>Numbers\<close>

text \<open>\<^verbatim>\<open>validNumber\<close> of this package. Its digit loops are \<open>scanDigits\<close>; the two optional parts are cut
  out as functions from the position where they may start to the position after them, \<open>None\<close> for the
  return of false.\<close>

definition keyFraction :: "bytes \<Rightarrow> nat \<Rightarrow> nat option" where
  "keyFraction number i =
     (if i < length number \<and> number ! i = 0x2E then
        let start = i + 1; i = scanDigits number start in if i = start then None else Some i
      else Some i)"

definition keyExponent :: "bytes \<Rightarrow> nat \<Rightarrow> nat option" where
  "keyExponent number i =
     (if i < length number \<and> (number ! i = 0x65 \<or> number ! i = 0x45) then
        let i = i + 1;
            i = (if i < length number \<and> (number ! i = 0x2B \<or> number ! i = 0x2D) then i + 1 else i);
            start = i; i = scanDigits number start
        in if i = start then None else Some i
      else Some i)"

definition keyInteger :: "bytes \<Rightarrow> nat \<Rightarrow> nat option" where
  "keyInteger number i =
     (if number ! i = 0x30 then
        let i = i + 1 in
        if i < length number \<and> number ! i \<ge> 0x30 \<and> number ! i \<le> 0x39 then None else Some i
      else if number ! i < 0x31 \<or> number ! i > 0x39 then None
      else Some (scanDigits number i))"

definition keyValidNumber :: "bytes \<Rightarrow> bool" where
  "keyValidNumber number =
     (if length number = 0 then False
      else let i = (if number ! 0 = 0x2D then 1 else 0 :: nat) in
        if number ! 0 = 0x2D \<and> i = length number then False
        else case keyInteger number i of
          None \<Rightarrow> False
        | Some i \<Rightarrow> (case keyFraction number i of
            None \<Rightarrow> False
          | Some i \<Rightarrow> (case keyExponent number i of
              None \<Rightarrow> False
            | Some i \<Rightarrow> i = length number)))"

text \<open>The loop over a run of digits that tracks the first and last nonzero digit of the combined
  sequence; \<open>-1\<close> is no digit yet.\<close>

fun digitSpan :: "bytes \<Rightarrow> int \<Rightarrow> int \<Rightarrow> int \<Rightarrow> int \<times> int \<times> int" where
  "digitSpan [] digitIndex first final = (digitIndex, first, final)"
| "digitSpan (c # cs) digitIndex first final =
     (if c \<noteq> 0x30
      then digitSpan cs (digitIndex + 1) (if first < 0 then digitIndex else first) digitIndex
      else digitSpan cs (digitIndex + 1) first final)"

definition maxInt64 :: int where "maxInt64 = 2 ^ 63 - 1"
definition minInt64 :: int where "minInt64 = - (2 ^ 63)"

text \<open>The exponent loop; \<open>None\<close> when the accumulated value would leave \<^verbatim>\<open>int64\<close>.\<close>

fun exponentValue :: "bytes \<Rightarrow> int \<Rightarrow> int option" where
  "exponentValue [] e = Some e"
| "exponentValue (c # cs) e =
     (let digit = int (unat (c - 0x30)) in
      if e > (maxInt64 - digit) div 10 then None else exponentValue cs (e * 10 + digit))"

record numberGeometry =
  g_negative :: bool
  g_integerDigits :: int
  g_first :: int
  g_last :: int
  g_exponent :: int

definition numberParts :: "bytes \<Rightarrow> numberGeometry option" where
  "numberParts number =
     (if \<not> keyValidNumber number then None
      else
        let negative = number ! 0 = 0x2D;
            integerStart = (if negative then 1 else 0);
            i = scanDigits number integerStart;
            integerDigits = int (i - integerStart);
            (digitIndex, first, final) = digitSpan (take (i - integerStart) (drop integerStart number)) 0 (-1) (-1);
            fracEnd = (if i < length number \<and> number ! i = 0x2E then scanDigits number (i + 1) else i);
            (digitIndex, first, final) =
              (if i < length number \<and> number ! i = 0x2E
               then digitSpan (take (fracEnd - (i + 1)) (drop (i + 1) number)) digitIndex first final
               else (digitIndex, first, final))
        in if fracEnd = length number
           then Some \<lparr>g_negative = negative, g_integerDigits = integerDigits, g_first = first,
                      g_last = final, g_exponent = 0\<rparr>
           else
             let i = fracEnd + 1;
                 signed = number ! i = 0x2B \<or> number ! i = 0x2D;
                 exponentNegative = signed \<and> number ! i = 0x2D;
                 i = (if signed then i + 1 else i)
             in case exponentValue (drop i number) 0 of
                  None \<Rightarrow> None
                | Some e \<Rightarrow> Some \<lparr>g_negative = negative, g_integerDigits = integerDigits, g_first = first,
                                  g_last = final, g_exponent = (if exponentNegative then - e else e)\<rparr>)"

text \<open>The digit loop of \<^verbatim>\<open>AppendNumber\<close>: it walks the whole text up to an exponent letter and emits the
  digits between the first and the last nonzero one.\<close>

fun emitDigits :: "bool \<Rightarrow> int \<Rightarrow> int \<Rightarrow> bytes \<Rightarrow> int \<Rightarrow> bytes" where
  "emitDigits negative first final [] digitIndex = []"
| "emitDigits negative first final (b # bs) digitIndex =
     (if b < 0x30 \<or> b > 0x39 then
        (if b = 0x65 \<or> b = 0x45 then [] else emitDigits negative first final bs digitIndex)
      else
        (if digitIndex \<ge> first \<and> digitIndex \<le> final
         then [if negative then 10 - (b - 0x30) else (b - 0x30) + 1] else []) @
        emitDigits negative first final bs (digitIndex + 1))"

definition AppendNumber :: "bytes \<Rightarrow> bytes \<Rightarrow> Direction \<Rightarrow> bytes \<times> bool" where
  "AppendNumber dst number direction =
     (if direction > Descending then (dst, False)
      else case numberParts number of
        None \<Rightarrow> (dst, False)
      | Some g \<Rightarrow>
          if g_first g < 0 then (dst @ invertDescending [tagNumber, tagNumberZero] direction, True)
          else
            let delta = g_integerDigits g - g_first g in
            if g_exponent g > 0 \<and> delta > maxInt64 - g_exponent g \<or>
               g_exponent g < 0 \<and> delta < minInt64 - g_exponent g
            then (dst, False)
            else
              let adjusted = g_exponent g + delta;
                  sign = (if g_negative g then tagNumberNegative else tagNumberPositive);
                  exponent = be_bytes 8 ((word_of_int adjusted :: u64) XOR push_bit 63 1);
                  exponent = (if g_negative g then invert exponent else exponent);
                  digits = emitDigits (g_negative g) (g_first g) (g_last g) number 0;
                  terminator = (if g_negative g then 11 else 0)
              in (dst @ invertDescending ([tagNumber, sign] @ exponent @ digits @ [terminator]) direction, True))"

section \<open>Strings\<close>

definition appendStringByte :: "bytes \<Rightarrow> byte \<Rightarrow> bytes" where
  "appendStringByte dst b = (if b = 0 then dst @ [0, 0xFF] else dst @ [b])"

definition AppendString :: "bytes \<Rightarrow> bytes \<Rightarrow> Direction \<Rightarrow> bytes \<times> bool" where
  "AppendString dst decoded direction =
     (if direction > Descending \<or> \<not> utf8_valid decoded then (dst, False)
      else (dst @ invertDescending (foldl appendStringByte [tagString] decoded @ [0, 0]) direction, True))"

fun decodeHexDigits :: "bytes \<Rightarrow> u16 \<Rightarrow> u16 option" where
  "decodeHexDigits [] value = Some value"
| "decodeHexDigits (b # bs) value =
     (let value = push_bit 4 value in
      if b \<ge> 0x30 \<and> b \<le> 0x39 then decodeHexDigits bs (value OR ucast (b - 0x30))
      else if b \<ge> 0x61 \<and> b \<le> 0x66 then decodeHexDigits bs (value OR (ucast (b - 0x61) + 10))
      else if b \<ge> 0x41 \<and> b \<le> 0x46 then decodeHexDigits bs (value OR (ucast (b - 0x41) + 10))
      else None)"

definition decodeHex4 :: "bytes \<Rightarrow> nat \<Rightarrow> (u16 \<times> nat) option" where
  "decodeHex4 raw start =
     (if int start + 4 > int (length raw) - 1 then None
      else map_option (\<lambda>v. (v, start + 4)) (decodeHexDigits (take 4 (drop start raw)) 0))"

text \<open>One escape after its backslash at \<open>i\<close>: the code point or byte it stands for and the next
  position.\<close>

definition keyEscape :: "bytes \<Rightarrow> nat \<Rightarrow> (bytes \<times> nat) option" where
  "keyEscape raw i =
     (let c = raw ! i in
      if c = 0x22 \<or> c = 0x5C \<or> c = 0x2F then Some ([c], i + 1)
      else if c = 0x62 then Some ([0x08], i + 1)
      else if c = 0x66 then Some ([0x0C], i + 1)
      else if c = 0x6E then Some ([0x0A], i + 1)
      else if c = 0x72 then Some ([0x0D], i + 1)
      else if c = 0x74 then Some ([0x09], i + 1)
      else if c = 0x75 then
        (case decodeHex4 raw (i + 1) of
           None \<Rightarrow> None
         | Some (high, next) \<Rightarrow>
             if 0xD800 \<le> high \<and> high \<le> 0xDBFF then
               (if next + 2 > length raw - 1 \<or> raw ! next \<noteq> 0x5C \<or> raw ! (next + 1) \<noteq> 0x75 then None
                else case decodeHex4 raw (next + 2) of
                  None \<Rightarrow> None
                | Some (low, lowNext) \<Rightarrow>
                    if low < 0xDC00 \<or> low > 0xDFFF then None
                    else Some (encodeRune (utf16_decode (unat high) (unat low)), lowNext))
             else if 0xDC00 \<le> high \<and> high \<le> 0xDFFF then None
             else Some (encodeRune (unat high), next))
      else None)"

lemma decodeHex4_next: "decodeHex4 raw i = Some (v, n) \<Longrightarrow> n = i + 4"
  by (auto simp: decodeHex4_def split: if_splits)

lemma keyEscape_next: "keyEscape raw i = Some (bs, n) \<Longrightarrow> i < n"
  by (auto simp: keyEscape_def Let_def dest!: decodeHex4_next split: if_splits option.splits prod.splits)

function keyStringFrom :: "bytes \<Rightarrow> nat \<Rightarrow> bytes \<Rightarrow> bytes option" where
  "keyStringFrom raw i dst =
     (if i < length raw - 1 then
        let b = raw ! i in
        if b \<noteq> 0x5C then
          (if b < 0x20 \<or> b = 0x22 then None else keyStringFrom raw (i + 1) (appendStringByte dst b))
        else if i + 1 \<ge> length raw - 1 then None
        else case keyEscape raw (i + 1) of
          None \<Rightarrow> None
        | Some (bs, next) \<Rightarrow> keyStringFrom raw next (foldl appendStringByte dst bs)
      else Some dst)"
  by pat_completeness auto
termination
  by (relation "measure (\<lambda>(raw, i, dst). length raw - i)") (auto dest!: keyEscape_next)

declare keyStringFrom.simps [simp del]

definition AppendJSONString :: "bytes \<Rightarrow> bytes \<Rightarrow> Direction \<Rightarrow> bytes \<times> bool" where
  "AppendJSONString dst raw direction =
     (if direction > Descending \<or> length raw < 2 \<or> raw ! 0 \<noteq> 0x22 \<or>
         raw ! (length raw - 1) \<noteq> 0x22 \<or> \<not> utf8_valid raw then (dst, False)
      else case keyStringFrom raw 1 [tagString] of
        None \<Rightarrow> (dst, False)
      | Some component \<Rightarrow> (dst @ invertDescending (component @ [0, 0]) direction, True))"

section \<open>Prefix bounds\<close>

text \<open>\<^verbatim>\<open>AppendPrefixEnd\<close> walks back from the last byte to one that is not \<^verbatim>\<open>0xff\<close>; on the reversed
  prefix that is a walk from its head.\<close>

fun bumpLast :: "bytes \<Rightarrow> bytes option" where
  "bumpLast [] = None"
| "bumpLast (b # rest) = (if b \<noteq> 0xFF then Some ((b + 1) # rest) else bumpLast rest)"

definition AppendPrefixEnd :: "bytes \<Rightarrow> bytes \<Rightarrow> bytes \<times> bool" where
  "AppendPrefixEnd dst pre =
     (case bumpLast (rev pre) of
        None \<Rightarrow> (dst, False)
      | Some r \<Rightarrow> (dst @ rev r, True))"

end
