(* ===== verification/ValidatorStrings.thy ===== *)
theory ValidatorStrings
  imports Validator
begin

text \<open>
  Correctness of the string part of the validator: \<open>parseStringFrom\<close> accepts exactly the string
  bodies of the grammar, whichever of its run strategies it takes.
\<close>

section \<open>Four hex digits\<close>

lemma isHex_nibble:
  assumes "isHex c"
  shows "hexNibbleTable c < 0x10" "unat (hexNibbleTable c) = hexval c"
  using assms
  by (auto simp: isHex_def hexNibbleTable_def hexval_def word_less_nat_alt word_le_nat_alt
      unat_sub_if' unat_word_ariths)

lemma not_isHex_nibble: "\<not> isHex c \<Longrightarrow> hexNibbleTable c = 0xFF"
  by (auto simp: isHex_def hexNibbleTable_def)

lemma nibble_iff: "hexNibbleTable c < 0x10 \<longleftrightarrow> isHex c"
  using isHex_nibble(1) not_isHex_nibble by (cases "isHex c") auto

lemma less_16_iff_drop_bit: "(w :: byte) < 0x10 \<longleftrightarrow> drop_bit 4 w = 0"
proof -
  have "drop_bit 4 w = 0 \<longleftrightarrow> unat (drop_bit 4 w) = 0" by (simp add: unat_eq_0)
  also have "\<dots> \<longleftrightarrow> unat w div 16 = 0" by (simp add: drop_bit_eq_div unat_div)
  finally show ?thesis by (auto simp: word_less_nat_alt)
qed

lemma or_less_16: "(x :: byte) OR y < 0x10 \<longleftrightarrow> x < 0x10 \<and> y < 0x10"
  by (simp add: less_16_iff_drop_bit or_eq_0_iff)

lemma nibble_bits:
  assumes "(a :: byte) < 0x10" "bit a n"
  shows "n < 4"
proof (rule ccontr)
  assume "\<not> n < 4"
  then have "bit (drop_bit 4 a) (n - 4)" using assms(2) by (simp add: bit_drop_bit_eq)
  then show False using assms(1) by (simp add: less_16_iff_drop_bit)
qed

lemma nibbles_value:
  fixes a b c d :: byte
  assumes "a < 0x10" "b < 0x10" "c < 0x10" "d < 0x10"
  shows "unat (push_bit 12 (ucast a) OR push_bit 8 (ucast b) OR push_bit 4 (ucast c) OR ucast d :: u16)
    = unat a * 4096 + unat b * 256 + unat c * 16 + unat d"
proof -
  note bits = assms [THEN nibble_bits]
  have cd: "push_bit 4 (ucast c) OR ucast d = push_bit 4 (ucast c) + (ucast d :: u16)"
    by (rule disjunctive_add_eq_or [symmetric], rule bit_word_eqI)
       (auto simp: bit_and_iff bit_push_bit_iff bit_ucast_iff dest: bits)
  have bcd: "push_bit 8 (ucast b) OR (push_bit 4 (ucast c) OR ucast d) =
      push_bit 8 (ucast b) + (push_bit 4 (ucast c) OR (ucast d :: u16))"
    by (rule disjunctive_add_eq_or [symmetric], rule bit_word_eqI)
       (auto simp: bit_and_iff bit_or_iff bit_push_bit_iff bit_ucast_iff dest: bits)
  have abcd: "push_bit 12 (ucast a) OR (push_bit 8 (ucast b) OR (push_bit 4 (ucast c) OR ucast d)) =
      push_bit 12 (ucast a) + (push_bit 8 (ucast b) OR (push_bit 4 (ucast c) OR (ucast d :: u16)))"
    by (rule disjunctive_add_eq_or [symmetric], rule bit_word_eqI)
       (auto simp: bit_and_iff bit_or_iff bit_push_bit_iff bit_ucast_iff dest: bits)
  have "push_bit 12 (ucast a) OR (push_bit 8 (ucast b) OR (push_bit 4 (ucast c) OR ucast d)) =
      (of_nat (unat a * 4096 + unat b * 256 + unat c * 16 + unat d) :: u16)"
    by (subst abcd, subst bcd, subst cd) (simp add: push_bit_eq_mult)
  moreover have "unat a * 4096 + unat b * 256 + unat c * 16 + unat d < 65536"
    using assms by (simp add: word_less_nat_alt)
  ultimately show ?thesis
    by (simp only: unat_of_nat or.assoc) simp
qed

lemma segment_quad:
  assumes "i + 4 \<le> length src"
  shows "segment src i (i + 4) = [src ! i, src ! (i + 1), src ! (i + 2), src ! (i + 3)]"
  using assms by (simp add: segment_Cons numeral_eq_Suc)

lemma hex4_eq:
  "hex4 src i = (u, ok) \<Longrightarrow>
   ok = (i + 4 \<le> length src \<and> hex_quad (segment src i (i + 4))) \<and>
   (ok \<longrightarrow> unat u = hexnum (segment src i (i + 4)))"
proof (cases "i + 4 \<le> length src")
  case False
  then show "hex4 src i = (u, ok) \<Longrightarrow> ?thesis" by (auto simp: hex4_def)
next
  case True
  assume h: "hex4 src i = (u, ok)"
  have ok: "ok = hex_quad (segment src i (i + 4))"
    using h True
    by (auto simp: hex4_def Let_def hex_quad_def segment_quad or_less_16 nibble_iff)
  have "unat u = hexnum (segment src i (i + 4))" if ok
  proof -
    have "isHex (src ! i)" "isHex (src ! (i + 1))" "isHex (src ! (i + 2))" "isHex (src ! (i + 3))"
      using that ok True by (auto simp: hex_quad_def segment_quad)
    note hx = this [THEN isHex_nibble(1)] and hv = this [THEN isHex_nibble(2)]
    have "unat u = unat (hexNibbleTable (src ! i)) * 4096 + unat (hexNibbleTable (src ! (i + 1))) * 256
        + unat (hexNibbleTable (src ! (i + 2))) * 16 + unat (hexNibbleTable (src ! (i + 3)))"
      using h True nibbles_value [OF hx] by (auto simp: hex4_def Let_def)
    then show ?thesis unfolding hv segment_quad [OF True] by simp
  qed
  then show ?thesis using ok True by blast
qed

section \<open>Building string bodies\<close>

lemma encodeRune_ascii: "b < 0x80 \<Longrightarrow> encodeRune (unat b) = [b]"
  by (simp add: encodeRune_def encodeScalar_def is_scalar_def is_surrogate_def word_less_nat_alt)

lemma string_text_byte:
  assumes "\<not> is_special_byte b" "string_text t rs"
  shows "string_text (b # t) (unat b # rs)"
proof -
  have b: "b < 0x80" "0x20 \<le> b" "b \<noteq> 0x22" "b \<noteq> 0x5C"
    using assms(1) by (auto simp: is_special_byte_def)
  then have "string_text (encodeRune (unat b) @ t) (unat b # rs)"
    by (intro string_text.plain assms(2))
       (auto simp: is_scalar_def is_surrogate_def word_less_nat_alt word_le_nat_alt word_unat_eq_iff)
  then show ?thesis using b by (simp add: encodeRune_ascii)
qed

lemma string_text_bytes:
  "\<forall>b \<in> set s. \<not> is_special_byte b \<Longrightarrow> string_text t rs \<Longrightarrow> string_text (s @ t) (map unat s @ rs)"
  by (induction s) (auto intro: string_text_byte)

lemma encodeRune_hd:
  assumes "is_scalar r"
  shows "hd (encodeRune r) < 0x80 \<Longrightarrow> encodeRune r = [of_nat r] \<and> r < 0x80"
    and "0x80 \<le> hd (encodeRune r) \<Longrightarrow> 0x80 \<le> r"
proof -
  consider "r < 0x80" | "0x80 \<le> r" "r < 0x800" | "0x800 \<le> r" "r < 0x10000" | "0x10000 \<le> r"
    by linarith
  then have "(r < 0x80 \<and> encodeRune r = [of_nat r]) \<or> (0x80 \<le> r \<and> 0x80 \<le> hd (encodeRune r))"
  proof cases
    case 1
    then show ?thesis using assms by (simp add: encodeRune_def encodeScalar_def)
  next
    case 2
    then have "r div 64 < 32" by linarith
    with 2 show ?thesis
      using assms by (simp add: encodeRune_def encodeScalar_def word_le_nat_alt del: of_nat_add)
  next
    case 3
    then have "r div 4096 < 16" by linarith
    with 3 show ?thesis
      using assms by (simp add: encodeRune_def encodeScalar_def word_le_nat_alt del: of_nat_add)
  next
    case 4
    moreover have "r div 262144 < 5" using assms by (simp add: is_scalar_def) linarith
    ultimately show ?thesis
      using assms by (simp add: encodeRune_def encodeScalar_def word_le_nat_alt del: of_nat_add)
  qed
  then show "hd (encodeRune r) < 0x80 \<Longrightarrow> encodeRune r = [of_nat r] \<and> r < 0x80"
    "0x80 \<le> hd (encodeRune r) \<Longrightarrow> 0x80 \<le> r"
    by (auto simp: word_le_nat_alt word_less_nat_alt)
qed

lemma string_text_decoded:
  assumes "is_scalar r" "\<not> is_syntax_byte (hd (encodeRune r))" "string_text t rs"
  shows "string_text (encodeRune r @ t) (r # rs)"
proof (cases "hd (encodeRune r) < 0x80")
  case True
  then have e: "encodeRune r = [of_nat r]" "r < 0x80" using encodeRune_hd(1) assms(1) by auto
  then have "0x20 \<le> r" "r \<noteq> 0x22" "r \<noteq> 0x5C"
    using assms(2) by (auto simp: is_syntax_byte_def word_less_nat_alt word_unat_eq_iff)
  then show ?thesis using assms by (intro string_text.plain)
next
  case False
  then have "0x80 \<le> r" using encodeRune_hd(2) assms(1) by (simp add: not_less)
  then show ?thesis using assms by (intro string_text.plain) auto
qed

lemma utf8_valid_string_text:
  "utf8_valid bs \<Longrightarrow> \<forall>b \<in> set bs. \<not> is_syntax_byte b \<Longrightarrow> string_text t rs \<Longrightarrow>
   \<exists>rs'. string_text (bs @ t) (rs' @ rs)"
proof (induction bs rule: utf8_valid.induct)
  case (1 bs)
  show ?case
  proof (cases "bs = []")
    case True
    then show ?thesis using 1 by (metis append_Nil)
  next
    case False
    obtain r n where d: "decodeRune bs = (r, n)" by (cases "decodeRune bs")
    have "utf8_valid bs \<longleftrightarrow> \<not> (r = RuneError \<and> n = 1) \<and> utf8_valid (drop n bs)"
      by (subst utf8_valid.simps) (simp add: False d)
    then have ok: "\<not> (r = RuneError \<and> n = 1)" "utf8_valid (drop n bs)"
      using 1(2) by blast+
    have acc: "is_scalar r" "bs = encodeRune r @ drop n bs"
      using decodeRune_accepts [OF d False ok(1)] by auto
    obtain rs' where "string_text (drop n bs @ t) (rs' @ rs)"
      using 1(1) [OF False d [symmetric] refl ok(1) ok(2)] 1(3,4) by (metis in_set_dropD)
    moreover have "hd (encodeRune r) \<in> set bs"
      by (metis acc(2) append_is_Nil_conv encodeRune_not_Nil hd_append2 hd_in_set False)
    ultimately have "string_text (encodeRune r @ drop n bs @ t) (r # rs' @ rs)"
      using 1(3) acc(1) by (intro string_text_decoded) auto
    then show ?thesis using acc(2) by (metis append_Cons append_assoc)
  qed
qed

lemma first_stop_plain:
  assumes "i \<le> length src"
  shows "\<forall>b \<in> set (segment src i (first_stop P src i (length src))). \<not> P b"
  using assms first_stop_before [of i _ P src "length src"] first_stop_le [of i "length src" src P]
  by (subst segment_all_iff) auto

section \<open>Soundness\<close>

lemma validateEscape_sound:
  assumes "validateEscape src (Suc j) = Inr i'" "Suc j < length src" "src ! j = 0x5C"
    and t: "string_text t rs"
  shows "i' \<le> length src \<and> (\<exists>r. string_text (segment src j i' @ t) (r # rs))"
proof (cases "src ! Suc j = 0x75")
  case False
  then have i': "i' = Suc (Suc j)" and c: "\<exists>d. simple_escape (src ! Suc j) = Some d"
    using assms(1) by (auto simp: validateEscape_def simple_escape_def Let_def split: if_splits)
  have "segment src j i' = [0x5C, src ! Suc j]"
    using i' assms(2,3) by (simp add: segment_Cons)
  then show ?thesis
    using c i' assms(2) string_text.escape [OF _ t] by auto
next
  case True
  then have u: "validateUnicodeEscape src (Suc j) = Inr i'"
    using assms(1) by (simp add: validateEscape_def)
  obtain u ok where h: "hex4 src (j + 2) = (u, ok)" by (cases "hex4 src (j + 2)")
  note H = hex4_eq [OF h]
  let ?h = "segment src (j + 2) (j + 6)"
  have ok: ok using u h by (auto simp: validateUnicodeEscape_def Let_def split: if_splits)
  then have len: "j + 6 \<le> length src" and q: "hex_quad ?h" and v: "unat u = hexnum ?h"
    using H by (auto simp: add.commute)
  have pre: "segment src j (j + 6) = 0x5C # 0x75 # ?h"
    using len assms(3) True segment_append [of j "j + 2" "j + 6" src]
    by (simp add: segment_Cons)
  show ?thesis
  proof (cases "0xD800 \<le> unat u \<and> unat u \<le> 0xDBFF")
    case False
    then have "\<not> is_surrogate (hexnum ?h)" "i' = j + 6"
      using u h ok v by (auto simp: validateUnicodeEscape_def Let_def is_surrogate_def split: if_splits)
    then show ?thesis
      using string_text.unicode [OF q _ t] len pre by auto
  next
    case hi: True
    obtain lo ok2 where l: "hex4 src (j + 8) = (lo, ok2)" by (cases "hex4 src (j + 8)")
    note L = hex4_eq [OF l]
    let ?l = "segment src (j + 8) (j + 12)"
    have r: "j + 12 \<le> length src" "src ! (j + 6) = 0x5C" "src ! (j + 7) = 0x75" ok2
      "0xDC00 \<le> unat lo" "unat lo \<le> 0xDFFF" "i' = j + 12"
      using u h ok hi l
      by (auto simp: validateUnicodeEscape_def Let_def add.commute split: if_splits)
    then have lq: "hex_quad ?l" "unat lo = hexnum ?l"
      using L by (auto simp: add.commute)
    have "segment src (j + 6) (j + 12) = 0x5C # 0x75 # ?l"
      using r segment_append [of "j + 6" "j + 8" "j + 12" src] by (simp add: segment_Cons add.commute)
    then have "segment src j i' = 0x5C # 0x75 # ?h @ 0x5C # 0x75 # ?l"
      using pre r(7) segment_append [of j "j + 6" "j + 12" src] by simp
    moreover have "string_text (0x5C # 0x75 # ?h @ 0x5C # 0x75 # ?l @ t)
        (utf16_decode (hexnum ?h) (hexnum ?l) # rs)"
      using hi r lq v q t by (intro string_text.surrogates) auto
    ultimately show ?thesis using r(1,7) by auto
  qed
qed

lemma scanStringUnicodeRun_sound:
  assumes "scanStringUnicodeRun src j = (next, None)" "j < length src" "0x80 \<le> src ! j"
    and t: "string_text t rs"
  shows "next \<le> length src \<and> (\<exists>rs'. string_text (segment src j next @ t) (rs' @ rs))"
proof (cases "int (length src) - int j < 32")
  case True
  obtain r n where d: "decodeRune (drop j src) = (r, n)" by (cases "decodeRune (drop j src)")
  have ok: "\<not> (r = RuneError \<and> n = 1)" and nx: "next = j + n"
    using assms(1) True d by (auto simp: scanStringUnicodeRun_def split: if_splits)
  have acc: "is_scalar r" "n = length (encodeRune r)" "drop j src = encodeRune r @ drop n (drop j src)"
    using decodeRune_accepts [OF d _ ok] assms(2) by auto
  have seg: "segment src j next = encodeRune r"
    unfolding segment_def nx using acc(2,3) by (metis append_eq_conv_conj diff_add_inverse)
  have "next \<le> length src"
    using decodeRune_width [of "drop j src"] d nx assms(2) by auto
  moreover have "hd (encodeRune r) = src ! j"
    using acc(3) assms(2) by (metis encodeRune_not_Nil hd_append2 hd_drop_conv_nth)
  then have "\<not> is_syntax_byte (hd (encodeRune r))"
    using assms(3) by (auto simp: is_syntax_byte_def word_le_nat_alt word_less_nat_alt)
  then have "string_text (encodeRune r @ t) ([r] @ rs)"
    using string_text_decoded [OF acc(1) _ t] by simp
  ultimately show ?thesis using seg by metis
next
  case False
  then have nx: "next = first_stop is_syntax_byte src j (length src)"
    and v: "utf8_valid (segment src j next)"
    using assms(1,2)
    by (auto simp: scanStringUnicodeRun_def scanStringSyntaxScalar_eq invalidUTF8Index_def Let_def
        split: if_splits)
  moreover have "\<forall>b \<in> set (segment src j next). \<not> is_syntax_byte b"
    unfolding nx using assms(2) by (intro first_stop_plain) simp
  ultimately show ?thesis
    using utf8_valid_string_text [OF v _ t] first_stop_le [of j "length src" src] assms(2) by simp
qed

lemma parseStringFrom_sound:
  "parseStringFrom src i = Inr k \<Longrightarrow> i \<le> length src \<Longrightarrow>
   i < k \<and> k \<le> length src \<and> src ! (k - 1) = 0x22 \<and> (\<exists>rs. string_text (segment src i (k - 1)) rs)"
proof (induction src i rule: parseStringFrom.induct)
  case (1 src i)
  define j where "j = scanStringSpecialScalar src i"
  have jstop: "j = first_stop is_special_byte src i (length src)"
    using 1(4) by (simp add: j_def scanStringSpecialScalar_eq)
  have j: "i \<le> j" "j < length src" "is_special_byte (src ! j)"
  proof -
    show "j < length src"
      using 1(3) by (subst (asm) parseStringFrom.simps) (auto simp: j_def Let_def split: if_splits)
    then show "i \<le> j" "is_special_byte (src ! j)"
      using scanStringSpecialScalar_ge [of src i] by (simp_all add: j_def)
  qed
  note split_at_j = segment_append [of i j _ src]
  have plain: "\<forall>b \<in> set (segment src i j). \<not> is_special_byte b"
    unfolding jstop using 1(4) by (rule first_stop_plain)
  have lift: "\<exists>rs. string_text (segment src i (k - 1)) rs"
    if "string_text (segment src j (k - 1)) rs" "j \<le> k - 1" for rs
    using string_text_bytes [OF plain that(1)] split_at_j [OF j(1) that(2)] by auto
  consider (quote) "src ! j = 0x22" | (esc) "src ! j = 0x5C"
    | (uni) "src ! j \<noteq> 0x22" "src ! j \<noteq> 0x5C" "\<not> src ! j < 0x20" "0x80 \<le> src ! j"
    | (ctl) "src ! j \<noteq> 0x22" "src ! j \<noteq> 0x5C" "src ! j < 0x20"
    using j(3) by (auto simp: is_special_byte_def)
  then show ?case
  proof cases
    case quote
    then have "k = Suc j"
      using 1(3) j(2) by (subst (asm) parseStringFrom.simps) (simp add: j_def [symmetric])
    then show ?thesis using quote j lift [of "[]"] string_text.empty by simp
  next
    case esc
    have lj: "Suc j < length src" and rec: "\<exists>i'. validateEscape src (Suc j) = Inr i' \<and> parseStringFrom src i' = Inr k"
      using 1(3) esc j(2)
      by (subst (asm) parseStringFrom.simps, simp add: j_def [symmetric] split: if_splits sum.splits)+
    then obtain i' where i': "validateEscape src (Suc j) = Inr i'" "parseStringFrom src i' = Inr k"
      by blast
    have i'len: "i' \<le> length src"
      using validateEscape_sound [OF i'(1) lj esc string_text.empty] by simp
    have "i' < k \<and> k \<le> length src \<and> src ! (k - 1) = 0x22 \<and> (\<exists>rs. string_text (segment src i' (k - 1)) rs)"
      using 1(1) [of j "src ! j" i'] i' i'len esc j lj by (simp add: j_def)
    then obtain rs where k: "i' < k" "k \<le> length src" "src ! (k - 1) = 0x22"
      "string_text (segment src i' (k - 1)) rs"
      by blast
    obtain r where "string_text (segment src j i' @ segment src i' (k - 1)) (r # rs)"
      using validateEscape_sound [OF i'(1) lj esc k(4)] by blast
    moreover have "Suc j < i'" using validateEscape_progress [OF i'(1)] .
    ultimately show ?thesis
      using k j(1) lift [of "r # rs"] segment_append [of j i' "k - 1" src] by auto
  next
    case uni
    obtain nx where n: "scanStringUnicodeRun src j = (nx, None)" "parseStringFrom src nx = Inr k"
      using 1(3) uni j(2)
      by (subst (asm) parseStringFrom.simps)
         (auto simp: j_def [symmetric] split: if_splits prod.splits option.splits)
    have nlen: "nx \<le> length src" and "j < nx"
      using scanStringUnicodeRun_sound [OF n(1) j(2) uni(4) string_text.empty]
        scanStringUnicodeRun_progress [OF n(1) j(2) uni(4)] by auto
    have "nx < k \<and> k \<le> length src \<and> src ! (k - 1) = 0x22 \<and> (\<exists>rs. string_text (segment src nx (k - 1)) rs)"
      using 1(2) [of j "src ! j" nx None] n nlen uni j by (simp add: j_def)
    then obtain rs where k: "nx < k" "k \<le> length src" "src ! (k - 1) = 0x22"
      "string_text (segment src nx (k - 1)) rs"
      by blast
    obtain rs' where "string_text (segment src j nx @ segment src nx (k - 1)) (rs' @ rs)"
      using scanStringUnicodeRun_sound [OF n(1) j(2) uni(4) k(4)] by blast
    then show ?thesis
      using k j(1) \<open>j < nx\<close> lift [of "rs' @ rs"] segment_append [of j nx "k - 1" src] by auto
  next
    case ctl
    then have False
      using 1(3) j(2) by (subst (asm) parseStringFrom.simps) (simp add: j_def [symmetric])
    then show ?thesis ..
  qed
qed

section \<open>Completeness\<close>

lemma parseStringFrom_skip:
  assumes "i < length src" "\<not> is_special_byte (src ! i)"
  shows "parseStringFrom src i = parseStringFrom src (Suc i)"
proof -
  have "scanStringSpecialScalar src i = scanStringSpecialScalar src (Suc i)"
    using assms by (simp add: scanStringSpecialScalar_eq first_stop_step)
  then show ?thesis by (subst (1 2) parseStringFrom.simps) simp
qed

lemma special_here:
  "i < length src \<Longrightarrow> is_special_byte (src ! i) \<Longrightarrow> scanStringSpecialScalar src i = i"
  by (simp add: scanStringSpecialScalar_eq first_stop_step)

lemma parseStringFrom_quote:
  "i < length src \<Longrightarrow> src ! i = 0x22 \<Longrightarrow> parseStringFrom src i = Inr (Suc i)"
  by (subst parseStringFrom.simps) (simp add: special_here is_special_byte_def)

lemma parseStringFrom_escape:
  "Suc i < length src \<Longrightarrow> src ! i = 0x5C \<Longrightarrow> validateEscape src (Suc i) = Inr i' \<Longrightarrow>
   parseStringFrom src i = parseStringFrom src i'"
  by (subst parseStringFrom.simps) (simp add: special_here is_special_byte_def)

lemma parseStringFrom_run:
  assumes "i < length src" "0x80 \<le> src ! i" "scanStringUnicodeRun src i = (nx, None)"
  shows "parseStringFrom src i = parseStringFrom src nx"
proof -
  have "\<not> src ! i < 0x20" "src ! i \<noteq> 0x22" "src ! i \<noteq> 0x5C"
    using assms(2) by (auto simp: word_le_nat_alt word_less_nat_alt)
  then show ?thesis
    using assms
    by (subst parseStringFrom.simps) (simp add: special_here is_special_byte_def)
qed

lemma utf8_valid_encode: "is_scalar r \<Longrightarrow> utf8_valid u \<Longrightarrow> utf8_valid (encodeRune r @ u)"
proof -
  assume r: "is_scalar r" "utf8_valid u"
  have "\<not> (r = RuneError \<and> length (encodeRune r) = 1)"
    by (auto simp: RuneError_def encodeRune_def encodeScalar_def is_scalar_def is_surrogate_def)
  then show ?thesis
    using r by (subst utf8_valid.simps) (simp add: decodeRune_encodeRune)
qed

lemma encodeRune_no_syntax:
  assumes "is_scalar r" "0x20 \<le> r" "r \<noteq> 0x22" "r \<noteq> 0x5C"
  shows "\<forall>b \<in> set (encodeRune r). \<not> is_syntax_byte b"
proof -
  have big: "\<not> is_syntax_byte (of_nat n)" if "0x80 \<le> n" "n < 256" for n
    using that by (auto simp: is_syntax_byte_def word_less_nat_alt word_unat_eq_iff)
  have m: "x mod 64 < 64" for x :: nat by simp
  consider "r < 0x80" | "0x80 \<le> r" "r < 0x800" | "0x800 \<le> r" "r < 0x10000" | "0x10000 \<le> r"
    by linarith
  then show ?thesis
  proof cases
    case 1
    then show ?thesis
      using assms
      by (auto simp: encodeRune_def encodeScalar_def is_syntax_byte_def word_less_nat_alt word_unat_eq_iff)
  next
    case 2
    then have "r div 64 < 32" by linarith
    with 2 show ?thesis
      using assms(1) m [of r] big by (auto simp: encodeRune_def encodeScalar_def simp del: of_nat_add)
  next
    case 3
    then have "r div 4096 < 16" by linarith
    with 3 show ?thesis
      using assms(1) m [of r] m [of "r div 64"] big
      by (auto simp: encodeRune_def encodeScalar_def simp del: of_nat_add)
  next
    case 4
    moreover have "r div 262144 < 5" using assms(1) by (simp add: is_scalar_def) linarith
    ultimately show ?thesis
      using assms(1) m [of r] m [of "r div 64"] m [of "r div 4096"] big
      by (auto simp: encodeRune_def encodeScalar_def simp del: of_nat_add)
  qed
qed

text \<open>The longest prefix of literal characters, which is what the long-run strategy consumes.\<close>

lemma prefix_escape:
  assumes "string_text (0x5C # x) rs"
  shows "\<exists>u t' rs'. 0x5C # x = u @ t' \<and> utf8_valid u \<and> (\<forall>b \<in> set u. \<not> is_syntax_byte b) \<and>
     string_text t' rs' \<and> (t' = [] \<or> (\<exists>x. t' = 0x5C # x))"
proof -
  have "0x5C # x = [] @ 0x5C # x" "utf8_valid []" by (simp_all add: utf8_valid.simps)
  then show ?thesis using assms by (metis empty_iff empty_set)
qed

lemma string_text_prefix:
  "string_text t rs \<Longrightarrow>
   \<exists>u t' rs'. t = u @ t' \<and> utf8_valid u \<and> (\<forall>b \<in> set u. \<not> is_syntax_byte b) \<and>
     string_text t' rs' \<and> (t' = [] \<or> (\<exists>x. t' = 0x5C # x))"
proof (induction rule: string_text.induct)
  case (plain r t rs)
  then obtain u t' rs' where p: "t = u @ t'" "utf8_valid u" "\<forall>b \<in> set u. \<not> is_syntax_byte b"
    "string_text t' rs'" "t' = [] \<or> (\<exists>x. t' = 0x5C # x)"
    by blast
  have "utf8_valid (encodeRune r @ u)" using plain(1) p(2) by (rule utf8_valid_encode)
  moreover have "\<forall>b \<in> set (encodeRune r @ u). \<not> is_syntax_byte b"
    using encodeRune_no_syntax [OF plain(1-4)] p(3) by auto
  ultimately show ?case using p by (metis append_assoc)
next
  case empty
  show ?case by (rule exI [of _ "[]"]) (auto intro: string_text.empty simp: utf8_valid.simps)
next
  case (escape c d t rs)
  from escape(1,2) show ?case by (rule prefix_escape [OF string_text.escape])
next
  case (unicode h t rs)
  from unicode(1-3) show ?case by (rule prefix_escape [OF string_text.unicode])
next
  case (surrogates h l t rs)
  from surrogates(1-7) show ?case by (rule prefix_escape [OF string_text.surrogates])
qed

lemma hex4_complete:
  assumes "at src i (h @ rest)" "hex_quad h"
  shows "\<exists>u. hex4 src i = (u, True) \<and> unat u = hexnum h"
proof -
  obtain u ok where h: "hex4 src i = (u, ok)" by (cases "hex4 src i")
  have "i + 4 \<le> length src" "segment src i (i + 4) = h"
    using assms at_segment [OF assms(1)] at_length [OF assms(1)] by (auto simp: hex_quad_def)
  then show ?thesis using hex4_eq [OF h] h assms(2) by auto
qed

lemma validateEscape_complete_unicode:
  assumes "at src i (0x5C # 0x75 # h @ rest)" "hex_quad h" "\<not> is_surrogate (hexnum h)"
  shows "validateEscape src (Suc i) = Inr (i + 6)"
proof -
  have a: "at src (i + 2) (h @ rest)" "src ! Suc i = 0x75"
    using at_append [of src i "[0x5C, 0x75]"] at_Cons [OF assms(1)] assms(1)
    by (auto dest: at_Cons)
  obtain u where "hex4 src (i + 2) = (u, True)" "unat u = hexnum h"
    using hex4_complete [OF a(1) assms(2)] by blast
  then show ?thesis
    using a(2) assms(3)
    by (auto simp: validateEscape_def validateUnicodeEscape_def is_surrogate_def Let_def)
qed

lemma validateEscape_complete_pair:
  assumes src: "at src i (0x5C # 0x75 # h @ 0x5C # 0x75 # l @ rest)" and q: "hex_quad h" "hex_quad l"
    and r: "0xD800 \<le> hexnum h" "hexnum h \<le> 0xDBFF" "0xDC00 \<le> hexnum l" "hexnum l \<le> 0xDFFF"
  shows "validateEscape src (Suc i) = Inr (i + 12)"
proof -
  have len: "length h = 4" "length l = 4" using q by (simp_all add: hex_quad_def)
  have a: "at src (i + 2) (h @ 0x5C # 0x75 # l @ rest)" and u: "src ! Suc i = 0x75"
    using at_append [of src i "[0x5C, 0x75]"] src by (auto dest: at_Cons)
  have b: "at src (i + 6) (0x5C # 0x75 # l @ rest)"
    using at_append [OF a] len by (simp add: add.commute)
  have c: "at src (i + 8) (l @ rest)" "src ! (i + 6) = 0x5C" "src ! (i + 7) = 0x75"
    using at_append [of src "i + 6" "[0x5C, 0x75]"] at_nth [of src "i + 6" "[0x5C, 0x75]" _ 1]
      at_Cons [OF b] b by (auto simp: add.assoc numeral_eq_Suc)
  have "i + 12 \<le> length src" using at_length [OF c(1)] len by simp
  moreover obtain u where "hex4 src (i + 2) = (u, True)" "unat u = hexnum h"
    using hex4_complete [OF a q(1)] by blast
  moreover obtain v where "hex4 src (i + 8) = (v, True)" "unat v = hexnum l"
    using hex4_complete [OF c(1) q(2)] by blast
  ultimately show ?thesis
    using u c r
    by (auto simp: validateEscape_def validateUnicodeEscape_def Let_def
        add.commute [of i "numeral k" for k])
qed

lemma scanStringUnicodeRun_long:
  assumes src: "at src i (u @ t' @ 0x22 # rest)" and u: "utf8_valid u" "\<forall>b \<in> set u. \<not> is_syntax_byte b"
    and t': "t' = [] \<or> (\<exists>x. t' = 0x5C # x)" and long: "\<not> int (length src) - int i < 32"
  shows "scanStringUnicodeRun src i = (i + length u, None)"
proof -
  let ?k = "i + length u"
  have k: "?k < length src" using at_length [OF src] by simp
  have "at src ?k (t' @ 0x22 # rest)" using src by (rule at_append)
  then have "is_syntax_byte (src ! ?k)"
    using t' by (auto simp: is_syntax_byte_def dest: at_Cons)
  moreover have "\<not> is_syntax_byte (src ! j)" if "i \<le> j" "j < ?k" for j
    using u(2) at_nth [OF src, of "j - i"] that by (metis add_diff_inverse_nat less_diff_conv2
        linorder_not_less nth_mem add.commute)
  ultimately have "first_stop is_syntax_byte src i (length src) = ?k"
    using k by (intro first_stop_eqI) auto
  moreover have "segment src i ?k = u" using src by (rule at_segment)
  ultimately show ?thesis
    using u(1) k long
    by (simp add: scanStringUnicodeRun_def scanStringSyntaxScalar_eq invalidUTF8Index_def Let_def)
qed

lemma parseStringFrom_complete:
  "string_text t rs \<Longrightarrow> at src i (t @ 0x22 # rest) \<Longrightarrow>
   parseStringFrom src i = Inr (i + length t + 1)"
proof (induction "length t" arbitrary: t rs i rule: less_induct)
  case less
  note src = less.prems(2)
  show ?case
    using less.prems(1)
  proof (cases rule: string_text.cases)
    case empty
    then show ?thesis using src at_Cons [of src i "0x22" rest] parseStringFrom_quote by simp
  next
    case (plain r t1 rs1)
    have at1: "at src (i + length (encodeRune r)) (t1 @ 0x22 # rest)"
      using src plain(1) by (metis append_assoc at_append)
    have len: "length t = length (encodeRune r) + length t1" "0 < length (encodeRune r)"
      using plain(1) by simp_all
    have i: "i < length src" "src ! i = hd (encodeRune r)"
      using src plain(1) at_length [OF src] at_nth [of src i "encodeRune r" "t1 @ 0x22 # rest" 0] len
      by (simp_all add: hd_conv_nth)
    show ?thesis
    proof (cases "hd (encodeRune r) < 0x80")
      case True
      then have e: "encodeRune r = [of_nat r]" "r < 0x80"
        using encodeRune_hd(1) [OF plain(3)] by auto
      then have "\<not> is_special_byte (src ! i)"
        using i plain by (auto simp: is_special_byte_def word_less_nat_alt word_le_nat_alt word_unat_eq_iff)
      then have "parseStringFrom src i = parseStringFrom src (Suc i)"
        using i parseStringFrom_skip by blast
      also have "\<dots> = Inr (Suc i + length t1 + 1)"
        using less.hyps [of t1 rs1 "Suc i"] plain(7) at1 e len by simp
      finally show ?thesis using len e by simp
    next
      case high: False
      then have hb: "0x80 \<le> src ! i" using i by (simp add: not_less)
      show ?thesis
      proof (cases "int (length src) - int i < 32")
        case True
        have "drop i src = encodeRune r @ t1 @ 0x22 # rest" using src plain(1) by (simp add: at_def)
        moreover have "\<not> (r = RuneError \<and> length (encodeRune r) = 1)"
          by (auto simp: RuneError_def encodeRune_def encodeScalar_def is_scalar_def is_surrogate_def)
        ultimately have "scanStringUnicodeRun src i = (i + length (encodeRune r), None)"
          using True plain(3) by (auto simp: scanStringUnicodeRun_def decodeRune_encodeRune)
        then have "parseStringFrom src i = parseStringFrom src (i + length (encodeRune r))"
          using i hb parseStringFrom_run by blast
        also have "\<dots> = Inr (i + length (encodeRune r) + length t1 + 1)"
          using less.hyps [of t1 rs1] plain(7) at1 len by simp
        finally show ?thesis using len by simp
      next
        case False
        obtain u t' rs' where p: "t = u @ t'" "utf8_valid u" "\<forall>b \<in> set u. \<not> is_syntax_byte b"
          "string_text t' rs'" "t' = [] \<or> (\<exists>x. t' = 0x5C # x)"
          using string_text_prefix [OF less.prems(1)] by blast
        have un: "u \<noteq> []"
        proof
          assume "u = []"
          then have "src ! i = 0x22 \<or> src ! i = 0x5C"
            using p(1,5) src by (auto dest: at_Cons)
          then show False using hb by (auto simp: word_le_nat_alt)
        qed
        have "scanStringUnicodeRun src i = (i + length u, None)"
          using scanStringUnicodeRun_long [OF _ p(2,3,5) False] src p(1) by simp
        then have "parseStringFrom src i = parseStringFrom src (i + length u)"
          using i hb parseStringFrom_run by blast
        also have "\<dots> = Inr (i + length u + length t' + 1)"
          using less.hyps [of t' rs' "i + length u"] p un at_append [of src i u] src by simp
        finally show ?thesis using p(1) by simp
      qed
    qed
  next
    case (escape c d t1 rs1)
    have a: "at src (i + 2) (t1 @ 0x22 # rest)" "src ! i = 0x5C" "src ! Suc i = c" "Suc i < length src"
      using src escape(1) at_length [OF src] at_append [of src i "[0x5C, c]"]
      by (auto dest: at_Cons)
    have "validateEscape src (Suc i) = Inr (i + 2)"
      using escape(3) a(3) by (auto simp: validateEscape_def simple_escape_def split: if_splits)
    then show ?thesis
      using parseStringFrom_escape [OF a(4,2)] less.hyps [of t1 rs1 "i + 2"] escape a(1) by simp
  next
    case (unicode h t1 rs1)
    have len: "length h = 4" using unicode(3) by (simp add: hex_quad_def)
    have v: "validateEscape src (Suc i) = Inr (i + 6)"
      using validateEscape_complete_unicode [of src i h] src unicode by simp
    have a: "at src (i + 6) (t1 @ 0x22 # rest)" "src ! i = 0x5C" "Suc i < length src"
      using src unicode(1) at_length [OF src] at_append [of src i "0x5C # 0x75 # h"] len
      by (auto dest: at_Cons)
    show ?thesis
      using parseStringFrom_escape [OF a(3,2) v] less.hyps [of t1 rs1 "i + 6"] unicode a(1) len by simp
  next
    case (surrogates h l t1 rs1)
    have len: "length h = 4" "length l = 4" using surrogates(3,4) by (simp_all add: hex_quad_def)
    have v: "validateEscape src (Suc i) = Inr (i + 12)"
      using validateEscape_complete_pair [of src i h l] src surrogates by simp
    have a: "at src (i + 12) (t1 @ 0x22 # rest)" "src ! i = 0x5C" "Suc i < length src"
      using src surrogates(1) at_length [OF src] len
        at_append [of src i "0x5C # 0x75 # h @ 0x5C # 0x75 # l"]
      by (auto dest: at_Cons)
    show ?thesis
      using parseStringFrom_escape [OF a(3,2) v] less.hyps [of t1 rs1 "i + 12"] surrogates a(1) len
      by simp
  qed
qed

end
