(* ===== verification/ValidatorNumbers.thy ===== *)
theory ValidatorNumbers
  imports Validator
begin

text \<open>
  Correctness of \<^verbatim>\<open>scanNumber\<close>: it accepts exactly the number grammar, and in front of a byte that
  cannot continue a number it consumes the whole number.
\<close>

lemma scanDigits_first_stop:
  "i \<le> length src \<Longrightarrow> scanDigits src i = first_stop (\<lambda>c. \<not> isDigit c) src i (length src)"
proof (induction src i rule: scanDigits.induct)
  case (1 src i)
  then show ?case
    by (cases "i < length src"; subst scanDigits.simps) (auto simp: first_stop_step)
qed

lemma scanDigits_sound:
  assumes "i \<le> length src"
  shows "i \<le> scanDigits src i" "scanDigits src i \<le> length src"
    "digits (segment src i (scanDigits src i))"
proof -
  let ?k = "first_stop (\<lambda>c. \<not> isDigit c) src i (length src)"
  show "i \<le> scanDigits src i" "scanDigits src i \<le> length src"
    using assms first_stop_ge first_stop_le by (simp_all add: scanDigits_first_stop)
  have "?k \<le> length src" using assms first_stop_le by simp
  then have "digits (segment src i ?k)"
    unfolding digits_def using first_stop_before [of i _ "\<lambda>c. \<not> isDigit c" src "length src"]
    by (subst segment_all_iff) auto
  then show "digits (segment src i (scanDigits src i))"
    using assms by (simp add: scanDigits_first_stop)
qed

lemma scanDigits_nonempty:
  "i < length src \<Longrightarrow> isDigit (src ! i) \<Longrightarrow> segment src i (scanDigits src i) \<noteq> [] \<and> i < scanDigits src i"
  using scanDigits_sound [of "Suc i" src] by (subst (1 2) scanDigits.simps) (simp add: segment_Cons)

lemma scanExponent_sound:
  assumes "scanExponent src i = (e, None)" "i \<le> length src"
  shows "i \<le> e \<and> e \<le> length src \<and> exp_text (segment src i e)"
proof (cases "i < length src \<and> (src ! i = 0x65 \<or> src ! i = 0x45)")
  case False
  then show ?thesis using assms by (auto simp: scanExponent_def exp_text_def)
next
  case True
  define k where "k = (if Suc i < length src \<and> (src ! Suc i = 0x2B \<or> src ! Suc i = 0x2D)
    then Suc (Suc i) else Suc i)"
  have k: "k < length src" "isDigit (src ! k)" "e = scanDigits src k" "Suc i \<le> k"
    using assms(1) True by (auto simp: scanExponent_def k_def Let_def not_le split: if_splits)
  let ?sg = "segment src (Suc i) k" and ?ds = "segment src k e"
  have "?sg = [] \<or> ?sg = [0x2B] \<or> ?sg = [0x2D]"
    using k(1) by (auto simp: k_def segment_one split: if_splits)
  moreover have "digits ?ds" "?ds \<noteq> []" "k < e" "e \<le> length src"
    using scanDigits_sound [of k src] scanDigits_nonempty [OF k(1,2)] k(1,3) by auto
  moreover have "segment src i e = src ! i # ?sg @ ?ds"
    using k(4) \<open>k < e\<close> \<open>e \<le> length src\<close> segment_append [of "Suc i" k e src]
    by (simp add: segment_Cons)
  ultimately show ?thesis using True k(4) unfolding exp_text_def by auto
qed

lemma scanFraction_sound:
  assumes "scanFraction src i = (e, None)" "i \<le> length src"
  shows "i \<le> e \<and> e \<le> length src \<and>
    (\<exists>f x. segment src i e = f @ x \<and> frac_text f \<and> exp_text x)"
proof (cases "i < length src \<and> src ! i = 0x2E")
  case False
  then have "scanExponent src i = (e, None)" using assms(1) by (auto simp: scanFraction_def)
  then show ?thesis using scanExponent_sound assms(2) by (fastforce simp: frac_text_def)
next
  case True
  then have k: "Suc i < length src" "isDigit (src ! Suc i)"
    and x: "scanExponent src (scanDigits src (Suc i)) = (e, None)"
    using assms(1) by (auto simp: scanFraction_def Let_def split: if_splits)
  let ?k = "scanDigits src (Suc i)"
  have d: "Suc i < ?k" "?k \<le> length src" "digits (segment src (Suc i) ?k)" "segment src (Suc i) ?k \<noteq> []"
    using scanDigits_sound [of "Suc i" src] scanDigits_nonempty [OF k] k by auto
  have e: "?k \<le> e" "e \<le> length src" "exp_text (segment src ?k e)"
    using scanExponent_sound [OF x] d by auto
  have "segment src i e = (0x2E # segment src (Suc i) ?k) @ segment src ?k e"
    using True d e segment_append [of "Suc i" ?k e src] by (simp add: segment_Cons)
  then show ?thesis using d e unfolding frac_text_def by (metis less_imp_le less_trans lessI le_trans)
qed

lemma scanInteger_sound:
  assumes "scanInteger src i = (e, None)" "i < length src"
  shows "i < e \<and> e \<le> length src \<and>
    (\<exists>n f x. segment src i e = n @ f @ x \<and> int_text n \<and> frac_text f \<and> exp_text x)"
proof -
  have go: ?thesis if s: "scanFraction src k = (e, None)" and k: "i < k" "k \<le> length src"
    and n: "int_text (segment src i k)" for k
  proof -
    obtain f x where fx: "k \<le> e" "e \<le> length src" "segment src k e = f @ x" "frac_text f" "exp_text x"
      using scanFraction_sound [OF s k(2)] by blast
    then have "segment src i e = segment src i k @ f @ x"
      using segment_append [of i k e src] k(1) by simp
    then show ?thesis using fx k n by (meson less_le_trans)
  qed
  show ?thesis
  proof (cases "src ! i = 0x30")
    case True
    then show ?thesis
      using go [of "Suc i"] assms by (simp add: scanInteger_def segment_one int_text_def)
  next
    case False
    then have o: "isOneNine (src ! i)" and s: "scanFraction src (scanDigits src (Suc i)) = (e, None)"
      using assms(1) by (auto simp: scanInteger_def split: if_splits)
    let ?k = "scanDigits src (Suc i)"
    have d: "Suc i \<le> ?k" "?k \<le> length src" "digits (segment src (Suc i) ?k)"
      using scanDigits_sound [of "Suc i" src] assms(2) by auto
    then have "int_text (segment src i ?k)"
      using o unfolding int_text_def by (simp add: segment_Cons)
    then show ?thesis using go [OF s] d by simp
  qed
qed

lemma scanNumber_sound:
  assumes "scanNumber src i = (e, None)" "i \<le> length src"
  shows "i < e \<and> e \<le> length src \<and> number_text (segment src i e)"
proof (cases "i < length src \<and> src ! i = 0x2D")
  case True
  then have s: "scanInteger src (Suc i) = (e, None)" and l: "Suc i < length src"
    using assms(1) by (auto simp: scanNumber_def split: if_splits)
  obtain n f x where r: "Suc i < e" "e \<le> length src" "segment src (Suc i) e = n @ f @ x"
    "int_text n" "frac_text f" "exp_text x"
    using scanInteger_sound [OF s l] by blast
  then have "segment src i e = [0x2D] @ n @ f @ x" using True by (simp add: segment_Cons)
  then show ?thesis using r unfolding number_text_def by (metis Suc_lessD)
next
  case False
  then have s: "scanInteger src i = (e, None)" and l: "i < length src"
    using assms by (auto simp: scanNumber_def split: if_splits)
  obtain n f x where r: "i < e" "e \<le> length src" "segment src i e = n @ f @ x"
    "int_text n" "frac_text f" "exp_text x"
    using scanInteger_sound [OF s l] by blast
  then have "segment src i e = [] @ n @ f @ x" by simp
  then show ?thesis using r unfolding number_text_def by metis
qed

section \<open>Completeness\<close>

text \<open>The bytes that can follow a number without extending it.\<close>

definition number_end :: "bytes \<Rightarrow> bool" where
  "number_end rest \<longleftrightarrow>
     rest = [] \<or> (\<not> isDigit (hd rest) \<and> hd rest \<noteq> 0x2E \<and> hd rest \<noteq> 0x65 \<and> hd rest \<noteq> 0x45)"

lemma scanDigits_complete:
  assumes src: "at src i (ds @ rest)" and "digits ds" and rest: "rest = [] \<or> \<not> isDigit (hd rest)"
  shows "scanDigits src i = i + length ds"
  using assms(1,2)
proof (induction ds arbitrary: i)
  case Nil
  then have "\<not> (i < length src \<and> isDigit (src ! i))"
    using rest by (cases rest) (auto simp: at_Nil dest: at_Cons)
  then show ?case by (subst scanDigits.simps) auto
next
  case (Cons d ds)
  then have "i < length src" "src ! i = d" "at src (Suc i) (ds @ rest)"
    using at_Cons [of src i d "ds @ rest"] by auto
  then show ?case using Cons by (subst scanDigits.simps) simp
qed

lemma number_end_digit: "number_end rest \<Longrightarrow> rest = [] \<or> \<not> isDigit (hd rest)"
  by (auto simp: number_end_def)

lemma scanExponent_complete:
  assumes src: "at src i (x @ rest)" and x: "exp_text x" and rest: "number_end rest"
  shows "scanExponent src i = (i + length x, None)"
proof (cases "x = []")
  case True
  then have "\<not> (i < length src \<and> (src ! i = 0x65 \<or> src ! i = 0x45))"
    using src rest by (cases rest) (auto simp: at_Nil number_end_def dest: at_Cons)
  then show ?thesis using True by (auto simp: scanExponent_def)
next
  case False
  then obtain e sg ds where x': "x = e # sg @ ds" "e = 0x65 \<or> e = 0x45"
    "sg = [] \<or> sg = [0x2B] \<or> sg = [0x2D]" "ds \<noteq> []" "digits ds"
    using x by (auto simp: exp_text_def)
  have a: "i < length src" "src ! i = e" "at src (Suc i) (sg @ ds @ rest)"
    using at_Cons [of src i e "sg @ ds @ rest"] src x'(1) by auto
  have b: "at src (Suc i + length sg) (ds @ rest)" using a(3) by (rule at_append)
  obtain d ds' where ds: "ds = d # ds'" "isDigit d" using x'(4,5) by (cases ds) auto
  have c: "Suc i + length sg < length src" "src ! (Suc i + length sg) = d"
    using at_Cons [of src "Suc i + length sg" d "ds' @ rest"] b ds by auto
  have dg: "d \<noteq> 0x2B" "d \<noteq> 0x2D" using ds(2) by (auto simp: isDigit_def)
  let ?k = "if Suc i < length src \<and> (src ! Suc i = 0x2B \<or> src ! Suc i = 0x2D)
    then Suc (Suc i) else Suc i"
  have "?k = Suc i + length sg"
    using x'(3) c dg a(3) by (auto dest: at_Cons)
  moreover have "scanExponent src i = (if ?k \<ge> length src \<or> \<not> isDigit (src ! ?k)
      then (?k, Some InvalidExponent) else (scanDigits src ?k, None))"
    using a(1,2) x'(2) by (auto simp: scanExponent_def Let_def Suc_eq_plus1 [symmetric] split del: if_split cong: if_cong)
  moreover have "scanDigits src (Suc i + length sg) = Suc i + length sg + length ds"
    using b x'(5) number_end_digit [OF rest] by (rule scanDigits_complete)
  ultimately show ?thesis
    using x'(1) c ds(2) by (simp split del: if_split)
qed

lemma exp_hd: "exp_text x \<Longrightarrow> number_end rest \<Longrightarrow>
   x @ rest = [] \<or> (\<not> isDigit (hd (x @ rest)) \<and> hd (x @ rest) \<noteq> 0x2E)"
  by (cases "x = []") (auto simp: exp_text_def number_end_def isDigit_def)

lemma scanFraction_complete:
  assumes src: "at src i (f @ x @ rest)" and f: "frac_text f" and x: "exp_text x"
    and rest: "number_end rest"
  shows "scanFraction src i = (i + length f + length x, None)"
proof (cases "f = []")
  case True
  then have "\<not> (i < length src \<and> src ! i = 0x2E)"
    using src exp_hd [OF x rest] by (cases "x @ rest") (auto simp: at_Nil dest: at_Cons)
  then show ?thesis
    using True scanExponent_complete [OF _ x rest] src by (auto simp: scanFraction_def)
next
  case False
  then obtain d ds where f': "f = 0x2E # d # ds" "digits (d # ds)"
    using f unfolding frac_text_def by (metis neq_Nil_conv)
  have a: "i < length src" "src ! i = 0x2E" "at src (Suc i) ((d # ds) @ x @ rest)"
    using at_Cons [of src i "0x2E" "(d # ds) @ x @ rest"] src f'(1) by auto
  have b: "Suc i < length src" "src ! Suc i = d"
    using at_Cons [of src "Suc i" d "ds @ x @ rest"] a(3) by auto
  have k: "scanDigits src (Suc i) = Suc i + length (d # ds)"
    using scanDigits_complete [OF a(3) f'(2)] exp_hd [OF x rest] by auto
  have "at src (Suc i + length (d # ds)) (x @ rest)" using a(3) by (rule at_append)
  from scanExponent_complete [OF this x rest] show ?thesis
    using a b k f' by (simp add: scanFraction_def)
qed

lemma frac_hd: "frac_text f \<Longrightarrow> exp_text x \<Longrightarrow> number_end rest \<Longrightarrow>
   f @ x @ rest = [] \<or> \<not> isDigit (hd (f @ x @ rest))"
  using exp_hd [of x rest] by (cases "f = []") (auto simp: frac_text_def isDigit_def)

lemma scanInteger_complete:
  assumes src: "at src i (n @ f @ x @ rest)" and n: "int_text n" and f: "frac_text f"
    and x: "exp_text x" and rest: "number_end rest"
  shows "scanInteger src i = (i + length n + length f + length x, None)"
proof -
  have fr: "at src (i + length n) (f @ x @ rest)" using src by (rule at_append)
  note tail = scanFraction_complete [OF fr f x rest]
  consider "n = [0x30]" | c ds where "n = c # ds" "isOneNine c" "digits ds"
    using n by (auto simp: int_text_def)
  then show ?thesis
  proof cases
    case 1
    then show ?thesis using src tail by (auto simp: scanInteger_def dest: at_Cons)
  next
    case 2
    have a: "src ! i = c" "at src (Suc i) (ds @ f @ x @ rest)"
      using at_Cons [of src i c "ds @ f @ x @ rest"] src 2(1) by auto
    have "scanDigits src (Suc i) = Suc i + length ds"
      using scanDigits_complete [OF a(2) 2(3) frac_hd [OF f x rest]] .
    moreover have "c \<noteq> 0x30" using 2(2) by (auto simp: isOneNine_def)
    ultimately show ?thesis using a 2 tail by (simp add: scanInteger_def)
  qed
qed

lemma int_text_hd: "int_text n \<Longrightarrow> n \<noteq> [] \<and> hd n \<noteq> 0x2D \<and> isDigit (hd n)"
  by (auto simp: int_text_def isOneNine_def isDigit_def word_le_nat_alt word_unat_eq_iff)

lemma scanNumber_complete:
  assumes src: "at src i (t @ rest)" and t: "number_text t" and rest: "number_end rest"
  shows "scanNumber src i = (i + length t, None)"
proof -
  obtain sg n f x where t': "t = sg @ n @ f @ x" "sg = [] \<or> sg = [0x2D]" "int_text n"
    "frac_text f" "exp_text x"
    using t by (auto simp: number_text_def)
  have a: "at src (i + length sg) (n @ f @ x @ rest)"
    using src t'(1) at_append [of src i sg] by simp
  obtain c n' where n: "n = c # n'" "c \<noteq> 0x2D" using int_text_hd [OF t'(3)] by (cases n) auto
  have c: "i + length sg < length src" "src ! (i + length sg) = c"
    using at_Cons [of src "i + length sg" c "n' @ f @ x @ rest"] a n(1) by auto
  note s = scanInteger_complete [OF a t'(3-5) rest]
  show ?thesis
  proof (cases "sg = []")
    case True
    then show ?thesis using c n s t'(1) by (simp add: scanNumber_def)
  next
    case False
    then have "sg = [0x2D]" using t'(2) by simp
    moreover from this have "src ! i = 0x2D" using src t'(1) by (auto dest: at_Cons)
    ultimately show ?thesis using c s t'(1) by (simp add: scanNumber_def)
  qed
qed

end
