(* ===== verification/ValidatorComplete.thy ===== *)
theory ValidatorComplete
  imports ValidatorParse
begin

text \<open>
  Completeness of the recursive descent and the meaning of its layout counters: on the text of a
  value the parser consumes exactly that text and appends the value's container sizes, in the order
  the containers open, to the counters.
\<close>

section \<open>Layout counters\<close>

definition lay_wf :: "layout \<Rightarrow> bool" where
  "lay_wf l \<longleftrightarrow> length (inline_counts l) = 64 \<and> length (overflow l) = ncontainers l - 64 \<and>
     (\<forall>k. ncontainers l \<le> k \<and> k < 64 \<longrightarrow> inline_counts l ! k = 0)"

definition lay_counts :: "layout \<Rightarrow> nat list" where
  "lay_counts l = take (ncontainers l) (inline_counts l) @ overflow l"

lemma length_lay_counts: "lay_wf l \<Longrightarrow> length (lay_counts l) = ncontainers l"
  by (auto simp: lay_wf_def lay_counts_def min_def)

lemma lay_wf_empty: "lay_wf empty_layout" "lay_counts empty_layout = []"
  "nvalues empty_layout = 0" "nmembers empty_layout = 0"
  by (simp_all add: lay_wf_def empty_layout_def lay_counts_def)

lemma addContainer_counts:
  assumes "lay_wf l" "addContainer l = (idx, l')"
  shows "lay_wf l'" "lay_counts l' = lay_counts l @ [0]" "idx = length (lay_counts l)"
    "nvalues l' = nvalues l" "nmembers l' = nmembers l"
proof -
  have idx: "idx = ncontainers l" using assms(2) by (auto simp: addContainer_def Let_def)
  then show "idx = length (lay_counts l)" using assms(1) by (simp add: length_lay_counts)
  show "lay_wf l'" "nvalues l' = nvalues l" "nmembers l' = nmembers l"
    using assms by (auto simp: addContainer_def Let_def lay_wf_def split: if_splits)
  show "lay_counts l' = lay_counts l @ [0]"
    using assms by (auto simp: addContainer_def Let_def lay_wf_def lay_counts_def take_Suc_conv_app_nth)
qed

lemma setContainer_counts:
  assumes "lay_wf l" "idx < length (lay_counts l)"
  shows "lay_wf (setContainer idx c l)" "lay_counts (setContainer idx c l) = (lay_counts l)[idx := c]"
    "nvalues (setContainer idx c l) = nvalues l" "nmembers (setContainer idx c l) = nmembers l"
proof -
  have idx: "idx < ncontainers l" using assms by (simp add: length_lay_counts)
  then show "lay_wf (setContainer idx c l)"
    using assms(1) by (auto simp: setContainer_def lay_wf_def nth_list_update)
  show "lay_counts (setContainer idx c l) = (lay_counts l)[idx := c]"
    using assms(1) idx
    by (auto simp: setContainer_def lay_wf_def lay_counts_def list_update_append take_update_swap)
qed (simp_all add: setContainer_def)

text \<open>The change of the optional layout over a parser call.\<close>

definition lay_ok :: "layout option \<Rightarrow> bool" where
  "lay_ok lo \<longleftrightarrow> (\<forall>l. lo = Some l \<longrightarrow> lay_wf l)"

definition lay_to :: "(nat list \<Rightarrow> nat list) \<Rightarrow> nat \<Rightarrow> nat \<Rightarrow> layout option \<Rightarrow> layout option \<Rightarrow> bool" where
  "lay_to f a b lo lo' \<longleftrightarrow> lo = None \<and> lo' = None \<or>
     (\<exists>l l'. lo = Some l \<and> lo' = Some l' \<and> lay_wf l \<and> lay_wf l' \<and> lay_counts l' = f (lay_counts l) \<and>
        nvalues l' = nvalues l + a \<and> nmembers l' = nmembers l + b)"

lemma lay_to_id: "lay_ok lo \<Longrightarrow> (\<And>cs. f cs = cs) \<Longrightarrow> lay_to f 0 0 lo lo"
  by (cases lo) (auto simp: lay_to_def lay_ok_def)

lemma lay_to_trans: "lay_to f a b x y \<Longrightarrow> lay_to g c d y z \<Longrightarrow> lay_to (\<lambda>cs. g (f cs)) (a + c) (b + d) x z"
  by (auto simp: lay_to_def)

lemma lay_to_ok: "lay_to f a b x y \<Longrightarrow> lay_ok y"
  by (auto simp: lay_to_def lay_ok_def)

text \<open>A container's count index is present exactly when there is a layout, and in range.\<close>

definition ci_ok :: "nat option \<Rightarrow> layout option \<Rightarrow> bool" where
  "ci_ok ci lo \<longleftrightarrow> ci = None \<and> lo = None \<or>
     (\<exists>idx l. ci = Some idx \<and> lo = Some l \<and> lay_wf l \<and> idx < length (lay_counts l))"

definition closed :: "nat option \<Rightarrow> nat \<Rightarrow> nat list \<Rightarrow> nat list" where
  "closed ci c cs = (case ci of None \<Rightarrow> cs | Some idx \<Rightarrow> cs[idx := c])"

lemma ci_ok_lay_ok: "ci_ok ci lo \<Longrightarrow> lay_ok lo"
  by (auto simp: ci_ok_def lay_ok_def)

lemma ci_ok_step: "ci_ok ci x \<Longrightarrow> lay_to (\<lambda>cs. cs @ ds) a b x y \<Longrightarrow> ci_ok ci y"
  by (auto simp: ci_ok_def lay_to_def)

lemma lay_to_countValue: "lay_ok (v_layout v) \<Longrightarrow> lay_to (\<lambda>cs. cs) 1 0 (v_layout v) (v_layout (countValue v))"
  by (cases "v_layout v") (auto simp: lay_to_def countValue_def lay_ok_def lay_wf_def lay_counts_def)

lemma lay_to_countMember: "lay_ok (v_layout v) \<Longrightarrow> lay_to (\<lambda>cs. cs) 0 1 (v_layout v) (v_layout (countMember v))"
  by (cases "v_layout v") (auto simp: lay_to_def countMember_def lay_ok_def lay_wf_def lay_counts_def)

lemma lay_to_close:
  "ci_ok ci (v_layout v) \<Longrightarrow> lay_to (closed ci c) 0 0 (v_layout v) (v_layout (closeContainer ci c v))"
  by (auto simp: ci_ok_def lay_to_def closeContainer_def closed_def setContainer_counts)

lemma openContainer_layout:
  assumes "openContainer v = (ci, w)" "lay_ok (v_layout v)"
  shows "lay_to (\<lambda>cs. cs @ [0]) 0 0 (v_layout v) (v_layout w)" "ci_ok ci (v_layout w)"
    "ci = map_option (\<lambda>l. length (lay_counts l)) (v_layout v)"
proof -
  have "lay_to (\<lambda>cs. cs @ [0]) 0 0 (v_layout v) (v_layout w) \<and> ci_ok ci (v_layout w) \<and>
    ci = map_option (\<lambda>l. length (lay_counts l)) (v_layout v)"
  proof (cases "v_layout v")
    case (Some l)
    obtain idx l' where a: "addContainer l = (idx, l')" by (cases "addContainer l")
    have "lay_wf l" using assms(2) Some by (simp add: lay_ok_def)
    with addContainer_counts [OF this a] show ?thesis
      using assms(1) Some a by (auto simp: openContainer_def lay_to_def ci_ok_def)
  qed (use assms in \<open>auto simp: openContainer_def lay_to_def ci_ok_def\<close>)
  then show "lay_to (\<lambda>cs. cs @ [0]) 0 0 (v_layout v) (v_layout w)" "ci_ok ci (v_layout w)"
    "ci = map_option (\<lambda>l. length (lay_counts l)) (v_layout v)" by blast+
qed

section \<open>What the counters count\<close>

fun jcounts :: "json \<Rightarrow> nat list" where
  "jcounts (JArray vs) = length vs # concat (map jcounts vs)"
| "jcounts (JObject ms) = length ms # concat (map (\<lambda>m. jcounts (snd m)) ms)"
| "jcounts _ = []"

fun jvalues :: "json \<Rightarrow> nat" where
  "jvalues (JArray vs) = length vs + sum_list (map jvalues vs)"
| "jvalues (JObject ms) = sum_list (map (\<lambda>m. jvalues (snd m)) ms)"
| "jvalues _ = 0"

fun jmembers :: "json \<Rightarrow> nat" where
  "jmembers (JArray vs) = sum_list (map jmembers vs)"
| "jmembers (JObject ms) = length ms + sum_list (map (\<lambda>m. jmembers (snd m)) ms)"
| "jmembers _ = 0"

section \<open>Completeness\<close>

definition value_complete :: "json \<Rightarrow> bytes \<Rightarrow> bool" where
  "value_complete j t \<longleftrightarrow> (\<forall>n depth v rest.
     at (v_src v) (v_i v) (t @ rest) \<longrightarrow> number_end rest \<longrightarrow> depth + jdepth j \<le> v_maxDepth v \<longrightarrow>
     length t \<le> n \<longrightarrow> lay_ok (v_layout v) \<longrightarrow>
     (\<exists>v'. parseValue n depth v = Some (Inr v') \<and> v_src v' = v_src v \<and> v_maxDepth v' = v_maxDepth v \<and>
        v_i v' = v_i v + length t \<and>
        lay_to (\<lambda>cs. cs @ jcounts j) (jvalues j) (jmembers j) (v_layout v) (v_layout v')))"

definition elems_complete :: "json list \<Rightarrow> bytes \<Rightarrow> bool" where
  "elems_complete vs u \<longleftrightarrow> (\<forall>n m depth v rest ci c.
     at (v_src v) (v_i v) (u @ 0x5D # rest) \<longrightarrow> (\<forall>j \<in> set vs. depth + jdepth j \<le> v_maxDepth v) \<longrightarrow>
     length u \<le> n \<longrightarrow> length u < m \<longrightarrow> ci_ok ci (v_layout v) \<longrightarrow>
     (\<exists>v'. parseElems (parseValue n) m depth ci c v = Some (Inr v') \<and> v_src v' = v_src v \<and>
        v_maxDepth v' = v_maxDepth v \<and> v_i v' = v_i v + length u + 1 \<and>
        lay_to (\<lambda>cs. closed ci (c + length vs) (cs @ concat (map jcounts vs)))
          (length vs + sum_list (map jvalues vs)) (sum_list (map jmembers vs)) (v_layout v) (v_layout v')))"

definition members_complete :: "(rune list \<times> json) list \<Rightarrow> bytes \<Rightarrow> bool" where
  "members_complete ms u \<longleftrightarrow> (\<forall>n m depth v rest ci c.
     at (v_src v) (v_i v) (u @ 0x7D # rest) \<longrightarrow> (\<forall>j \<in> snd ` set ms. depth + jdepth j \<le> v_maxDepth v) \<longrightarrow>
     length u \<le> n \<longrightarrow> length u < m \<longrightarrow> ci_ok ci (v_layout v) \<longrightarrow>
     (\<exists>v'. parseMembers (parseValue n) m depth ci c v = Some (Inr v') \<and> v_src v' = v_src v \<and>
        v_maxDepth v' = v_maxDepth v \<and> v_i v' = v_i v + length u + 1 \<and>
        lay_to (\<lambda>cs. closed ci (c + length ms) (cs @ concat (map (\<lambda>m. jcounts (snd m)) ms)))
          (sum_list (map (\<lambda>m. jvalues (snd m)) ms)) (length ms + sum_list (map (\<lambda>m. jmembers (snd m)) ms))
          (v_layout v) (v_layout v')))"

lemma number_end_ws: "ws w \<Longrightarrow> number_end t \<Longrightarrow> number_end (w @ t)"
  by (cases w) (auto simp: number_end_def isJSONWhitespace_def isDigit_def)

lemma number_end_sep: "x = 0x2C \<or> x = 0x5D \<or> x = 0x7D \<Longrightarrow> number_end (x # rest)"
  by (auto simp: number_end_def isDigit_def)

lemma sep_not_ws: "x = 0x2C \<or> x = 0x5D \<or> x = 0x7D \<or> x = 0x22 \<or> x = 0x3A \<Longrightarrow> \<not> isJSONWhitespace x"
  by (auto simp: isJSONWhitespace_def)

lemma number_text_hd: "number_text t \<Longrightarrow> t \<noteq> [] \<and> (hd t = 0x2D \<or> isDigit (hd t))"
  unfolding number_text_def by (auto dest: int_text_hd)

lemma json_text_hd:
  "json_text j t \<Longrightarrow> t \<noteq> [] \<and> \<not> isJSONWhitespace (hd t) \<and> hd t \<noteq> 0x5D"
  by (erule json_text.cases)
    (auto simp: isJSONWhitespace_def isDigit_def dest!: number_text_hd)

lemma parseElems_turn:
  assumes vc: "value_complete j t" and j: "json_text j t" and ws: "ws a" "ws b"
    and at: "at (v_src v) (v_i v) (a @ t @ b @ x # rest)" and x: "x = 0x2C \<or> x = 0x5D"
    and d: "depth + jdepth j \<le> v_maxDepth v" and n: "length t \<le> n" and lo: "lay_ok (v_layout v)"
  shows "\<exists>w. v_src w = v_src v \<and> v_maxDepth w = v_maxDepth v \<and> v_i w = v_i v + length (a @ t @ b) \<and>
     lay_to (\<lambda>cs. cs @ jcounts j) (jvalues j + 1) (jmembers j) (v_layout v) (v_layout w) \<and>
     parseElems (parseValue n) (Suc m) depth ci c v =
       (if x = 0x2C then parseElems (parseValue n) m depth ci (c + 1) (v_advance w)
        else Some (Inr (closeContainer ci (c + 1) w)))"
proof -
  let ?s = "v_src v"
  have hd: "t @ b @ x # rest = [] \<or> \<not> isJSONWhitespace (hd (t @ b @ x # rest))"
    using json_text_hd [OF j] by simp
  have sk: "skipSpace ?s (v_i v) = v_i v + length a" by (rule skipSpace_complete [OF at ws(1) hd])
  have ne: "number_end (b @ x # rest)" using x ws(2) by (auto intro: number_end_ws number_end_sep)
  have at1: "at ?s (v_i v + length a) (t @ b @ x # rest)" using at_append [OF at] by simp
  then obtain y where y: "parseValue n depth (v_skipSpace v) = Some (Inr y)" "v_src y = ?s"
    "v_maxDepth y = v_maxDepth v" "v_i y = v_i v + length a + length t"
    "lay_to (\<lambda>cs. cs @ jcounts j) (jvalues j) (jmembers j) (v_layout v) (v_layout y)"
    using vc [unfolded value_complete_def, rule_format, of "v_skipSpace v" "b @ x # rest" depth n] ne d n lo sk
    by auto
  have at2: "at ?s (v_i y) (b @ x # rest)" using at_append [OF at1] y(4) by simp
  have sk2: "skipSpace ?s (v_i y) = v_i y + length b"
    by (rule skipSpace_complete [OF at2 ws(2)]) (use x in \<open>auto simp: sep_not_ws\<close>)
  have at3: "v_i y + length b < length ?s" "?s ! (v_i y + length b) = x"
    using at_Cons [OF at_append [OF at2]] by auto
  have "lay_to (\<lambda>cs. cs @ jcounts j) (jvalues j + 1) (jmembers j) (v_layout v) (v_layout (countValue y))"
    using lay_to_trans [OF y(5) lay_to_countValue] lay_to_ok [OF y(5)] by simp
  then show ?thesis
    using y sk2 at3 x
    by (intro exI [of _ "v_skipSpace (countValue y)"]) (auto simp: parseElems.simps Let_def)
qed

lemma elems_complete_one:
  assumes "ws a" "json_text j t" "value_complete j t" "ws b"
  shows "elems_complete [j] (a @ t @ b)"
  unfolding elems_complete_def
proof (intro allI impI)
  fix n m depth and v :: validator and rest ci c
  assume at: "at (v_src v) (v_i v) ((a @ t @ b) @ 0x5D # rest)" and d: "\<forall>j \<in> set [j]. depth + jdepth j \<le> v_maxDepth v"
    and l: "length (a @ t @ b) \<le> n" "length (a @ t @ b) < m" and ci: "ci_ok ci (v_layout v)"
  obtain m' where m: "m = Suc m'" using l(2) by (cases m) auto
  obtain w where w: "v_src w = v_src v" "v_maxDepth w = v_maxDepth v" "v_i w = v_i v + length (a @ t @ b)"
    "lay_to (\<lambda>cs. cs @ jcounts j) (jvalues j + 1) (jmembers j) (v_layout v) (v_layout w)"
    "parseElems (parseValue n) (Suc m') depth ci c v = Some (Inr (closeContainer ci (c + 1) w))"
    using parseElems_turn [OF assms(3,2,1,4), of v "0x5D" rest depth n m' ci c] at d l ci_ok_lay_ok [OF ci]
    by auto
  show "\<exists>v'. parseElems (parseValue n) m depth ci c v = Some (Inr v') \<and> v_src v' = v_src v \<and>
      v_maxDepth v' = v_maxDepth v \<and> v_i v' = v_i v + length (a @ t @ b) + 1 \<and>
      lay_to (\<lambda>cs. closed ci (c + length [j]) (cs @ concat (map jcounts [j])))
        (length [j] + sum_list (map jvalues [j])) (sum_list (map jmembers [j])) (v_layout v) (v_layout v')"
    using w m lay_to_trans [OF w(4) lay_to_close [OF ci_ok_step [OF ci w(4)], of "c + 1"]] by simp
qed

lemma elems_complete_cons:
  assumes "ws a" "json_text j t" "value_complete j t" "ws b" "elems_complete vs u"
  shows "elems_complete (j # vs) (a @ t @ b @ 0x2C # u)"
  unfolding elems_complete_def
proof (intro allI impI)
  fix n m depth and v :: validator and rest ci c
  let ?t = "a @ t @ b @ 0x2C # u"
  assume at: "at (v_src v) (v_i v) (?t @ 0x5D # rest)"
    and d: "\<forall>j \<in> set (j # vs). depth + jdepth j \<le> v_maxDepth v"
    and l: "length ?t \<le> n" "length ?t < m" and ci: "ci_ok ci (v_layout v)"
  obtain m' where m: "m = Suc m'" using l(2) by (cases m) auto
  obtain w where w: "v_src w = v_src v" "v_maxDepth w = v_maxDepth v" "v_i w = v_i v + length (a @ t @ b)"
    "lay_to (\<lambda>cs. cs @ jcounts j) (jvalues j + 1) (jmembers j) (v_layout v) (v_layout w)"
    "parseElems (parseValue n) (Suc m') depth ci c v =
      parseElems (parseValue n) m' depth ci (c + 1) (v_advance w)"
    using parseElems_turn [OF assms(3,2,1,4), of v "0x2C" "u @ 0x5D # rest" depth n m' ci c]
      at d l ci_ok_lay_ok [OF ci] by auto
  have "at (v_src v) (Suc (v_i w)) (u @ 0x5D # rest)"
    using at_append [of "v_src v" "v_i v" "a @ t @ b @ [0x2C]" "u @ 0x5D # rest"] at w(3)
    by (simp add: add.commute add.left_commute)
  then obtain v' where v': "parseElems (parseValue n) m' depth ci (c + 1) (v_advance w) = Some (Inr v')"
    "v_src v' = v_src v" "v_maxDepth v' = v_maxDepth v" "v_i v' = Suc (v_i w) + length u + 1"
    "lay_to (\<lambda>cs. closed ci (c + 1 + length vs) (cs @ concat (map jcounts vs)))
        (length vs + sum_list (map jvalues vs)) (sum_list (map jmembers vs)) (v_layout w) (v_layout v')"
    using assms(5) [unfolded elems_complete_def, rule_format, of "v_advance w" rest depth n m' ci "c + 1"]
      w d l m ci_ok_step [OF ci w(4)] by auto
  show "\<exists>v'. parseElems (parseValue n) m depth ci c v = Some (Inr v') \<and> v_src v' = v_src v \<and>
      v_maxDepth v' = v_maxDepth v \<and> v_i v' = v_i v + length ?t + 1 \<and>
      lay_to (\<lambda>cs. closed ci (c + length (j # vs)) (cs @ concat (map jcounts (j # vs))))
        (length (j # vs) + sum_list (map jvalues (j # vs))) (sum_list (map jmembers (j # vs)))
        (v_layout v) (v_layout v')"
    using w m v' lay_to_trans [OF w(4) v'(5)] by (simp add: add_ac)
qed

lemma parseMembers_turn_complete:
  assumes vc: "value_complete j t" and j: "json_text j t" and k: "string_text k rs"
    and ws: "ws a" "ws b" "ws e" "ws d"
    and at: "at (v_src v) (v_i v) (a @ (0x22 # k @ [0x22]) @ b @ (0x3A # e @ t @ d) @ x # rest)"
    and x: "x = 0x2C \<or> x = 0x7D"
    and dj: "depth + jdepth j \<le> v_maxDepth v" and n: "length t \<le> n" and lo: "lay_ok (v_layout v)"
  shows "\<exists>w. v_src w = v_src v \<and> v_maxDepth w = v_maxDepth v \<and>
     v_i w = v_i v + length (a @ (0x22 # k @ [0x22]) @ b @ (0x3A # e @ t @ d)) \<and>
     lay_to (\<lambda>cs. cs @ jcounts j) (jvalues j) (jmembers j + 1) (v_layout v) (v_layout w) \<and>
     parseMembers (parseValue n) (Suc m) depth ci c v =
       (if x = 0x2C then parseMembers (parseValue n) m depth ci (c + 1) (v_advance w)
        else Some (Inr (closeContainer ci (c + 1) w)))"
proof -
  let ?s = "v_src v"
  let ?r4 = "x # rest"
  let ?r3 = "t @ d @ ?r4"
  let ?r2 = "b @ 0x3A # e @ ?r3"
  have sa: "skipSpace ?s (v_i v) = v_i v + length a"
    by (rule skipSpace_complete [OF at ws(1)]) (simp add: sep_not_ws)
  have ata: "at ?s (v_i v + length a) (0x22 # k @ 0x22 # ?r2)" using at_append [OF at] by simp
  note qa = at_Cons [OF ata]
  have st: "parseString (v_skipSpace v) = Inr ((v_skipSpace v)\<lparr>v_i := v_i v + length a + length k + 2\<rparr>)"
    using parseStringFrom_complete [OF k, of ?s "Suc (v_i v + length a)" ?r2] qa
    by (simp add: parseString_def sa)
  let ?y = "v_i v + length a + length k + 2"
  have aty: "at ?s ?y ?r2"
    using at_append [of ?s "v_i v + length a" "0x22 # k @ [0x22]" ?r2] ata by (simp add: add_ac)
  have sy: "skipSpace ?s ?y = ?y + length b"
    by (rule skipSpace_complete [OF aty ws(2)]) (simp add: sep_not_ws)
  note qb = at_Cons [OF at_append [OF aty]]
  have sb: "skipSpace ?s (Suc (?y + length b)) = Suc (?y + length b) + length e"
    by (rule skipSpace_complete [of _ _ _ ?r3]) (use qb ws(3) json_text_hd [OF j] in auto)
  let ?z = "v_skipSpace (v_advance (v_skipSpace ((v_skipSpace v)\<lparr>v_i := ?y\<rparr>)))"
  have zi: "v_i ?z = Suc (?y + length b) + length e" using sy sb by simp
  have atz: "at ?s (Suc (?y + length b) + length e) ?r3"
    by (rule at_append) (use qb in simp)
  have ne: "number_end (d @ ?r4)" using x ws(4) by (auto intro: number_end_ws number_end_sep)
  obtain q where q: "parseValue n depth ?z = Some (Inr q)" "v_src q = ?s"
    "v_maxDepth q = v_maxDepth v" "v_i q = Suc (?y + length b) + length e + length t"
    "lay_to (\<lambda>cs. cs @ jcounts j) (jvalues j) (jmembers j) (v_layout v) (v_layout q)"
    using vc [unfolded value_complete_def, rule_format, of ?z "d @ ?r4" depth n] atz ne dj n lo zi by auto
  have atq: "at ?s (v_i q) (d @ ?r4)" using at_append [OF atz] q(4) by simp
  have sq: "skipSpace ?s (v_i q) = v_i q + length d"
    by (rule skipSpace_complete [OF atq ws(4)]) (use x in \<open>auto simp: sep_not_ws\<close>)
  have atd: "v_i q + length d < length ?s" "?s ! (v_i q + length d) = x"
    using at_Cons [OF at_append [OF atq]] by auto
  have lw: "lay_to (\<lambda>cs. cs @ jcounts j) (jvalues j) (jmembers j + 1) (v_layout v) (v_layout (countMember q))"
    using lay_to_trans [OF q(5) lay_to_countMember] lay_to_ok [OF q(5)] by simp
  have "parseMembers (parseValue n) (Suc m) depth ci c v =
      (if x = 0x2C then parseMembers (parseValue n) m depth ci (c + 1) (v_advance (v_skipSpace (countMember q)))
       else Some (Inr (closeContainer ci (c + 1) (v_skipSpace (countMember q)))))"
    using qa qb st sa sy q(1,2) sq atd x by (auto simp: parseMembers.simps Let_def v_at_def)
  then show ?thesis
    using lw q sq by (intro exI [of _ "v_skipSpace (countMember q)"]) auto
qed

lemma members_complete_one:
  assumes g: "ws a" "string_text k rs" "ws b" "ws e" "json_text j t" "value_complete j t" "ws d"
  shows "members_complete [(rs, j)] (a @ (0x22 # k @ [0x22]) @ b @ (0x3A # e @ t @ d))"
    (is "members_complete _ ?t")
  unfolding members_complete_def
proof (intro allI impI)
  fix n m depth and v :: validator and rest ci c
  assume at: "at (v_src v) (v_i v) (?t @ 0x7D # rest)"
    and d: "\<forall>j \<in> snd ` set [(rs, j)]. depth + jdepth j \<le> v_maxDepth v"
    and l: "length ?t \<le> n" "length ?t < m" and ci: "ci_ok ci (v_layout v)"
  obtain m' where m: "m = Suc m'" using l(2) by (cases m) auto
  obtain w where w: "v_src w = v_src v" "v_maxDepth w = v_maxDepth v" "v_i w = v_i v + length ?t"
    "lay_to (\<lambda>cs. cs @ jcounts j) (jvalues j) (jmembers j + 1) (v_layout v) (v_layout w)"
    "parseMembers (parseValue n) (Suc m') depth ci c v = Some (Inr (closeContainer ci (c + 1) w))"
    using parseMembers_turn_complete [OF g(6,5,2,1,3,4,7), of v "0x7D" rest depth n m' ci c] at d l
      ci_ok_lay_ok [OF ci] by auto
  show "\<exists>v'. parseMembers (parseValue n) m depth ci c v = Some (Inr v') \<and> v_src v' = v_src v \<and>
      v_maxDepth v' = v_maxDepth v \<and> v_i v' = v_i v + length ?t + 1 \<and>
      lay_to (\<lambda>cs. closed ci (c + length [(rs, j)]) (cs @ concat (map (\<lambda>m. jcounts (snd m)) [(rs, j)])))
        (sum_list (map (\<lambda>m. jvalues (snd m)) [(rs, j)]))
        (length [(rs, j)] + sum_list (map (\<lambda>m. jmembers (snd m)) [(rs, j)])) (v_layout v) (v_layout v')"
    using w m lay_to_trans [OF w(4) lay_to_close [OF ci_ok_step [OF ci w(4)], of "c + 1"]] by simp
qed

lemma members_complete_cons:
  assumes g: "ws a" "string_text k rs" "ws b" "ws e" "json_text j t" "value_complete j t" "ws d"
    and ms: "members_complete ms u"
  shows "members_complete ((rs, j) # ms) (a @ (0x22 # k @ [0x22]) @ b @ (0x3A # e @ t @ d @ 0x2C # u))"
    (is "members_complete ?ms ?t")
  unfolding members_complete_def
proof (intro allI impI)
  fix n m depth and v :: validator and rest ci c
  let ?p = "a @ (0x22 # k @ [0x22]) @ b @ (0x3A # e @ t @ d)"
  assume at: "at (v_src v) (v_i v) (?t @ 0x7D # rest)"
    and d: "\<forall>j \<in> snd ` set ?ms. depth + jdepth j \<le> v_maxDepth v"
    and l: "length ?t \<le> n" "length ?t < m" and ci: "ci_ok ci (v_layout v)"
  obtain m' where m: "m = Suc m'" using l(2) by (cases m) auto
  obtain w where w: "v_src w = v_src v" "v_maxDepth w = v_maxDepth v" "v_i w = v_i v + length ?p"
    "lay_to (\<lambda>cs. cs @ jcounts j) (jvalues j) (jmembers j + 1) (v_layout v) (v_layout w)"
    "parseMembers (parseValue n) (Suc m') depth ci c v =
       parseMembers (parseValue n) m' depth ci (c + 1) (v_advance w)"
    using parseMembers_turn_complete [OF g(6,5,2,1,3,4,7), of v "0x2C" "u @ 0x7D # rest" depth n m' ci c]
      at d l ci_ok_lay_ok [OF ci] by auto
  have "at (v_src v) (Suc (v_i w)) (u @ 0x7D # rest)"
    using at_append [of "v_src v" "v_i v" "?p @ [0x2C]" "u @ 0x7D # rest"] at w(3)
    by (simp add: add.commute add.left_commute)
  then obtain v' where v': "parseMembers (parseValue n) m' depth ci (c + 1) (v_advance w) = Some (Inr v')"
    "v_src v' = v_src v" "v_maxDepth v' = v_maxDepth v" "v_i v' = Suc (v_i w) + length u + 1"
    "lay_to (\<lambda>cs. closed ci (c + 1 + length ms) (cs @ concat (map (\<lambda>m. jcounts (snd m)) ms)))
        (sum_list (map (\<lambda>m. jvalues (snd m)) ms))
        (length ms + sum_list (map (\<lambda>m. jmembers (snd m)) ms)) (v_layout w) (v_layout v')"
    using ms [unfolded members_complete_def, rule_format, of "v_advance w" rest depth n m' ci "c + 1"]
      w d l m ci_ok_step [OF ci w(4)] by auto
  show "\<exists>v'. parseMembers (parseValue n) m depth ci c v = Some (Inr v') \<and> v_src v' = v_src v \<and>
      v_maxDepth v' = v_maxDepth v \<and> v_i v' = v_i v + length ?t + 1 \<and>
      lay_to (\<lambda>cs. closed ci (c + length ?ms) (cs @ concat (map (\<lambda>m. jcounts (snd m)) ?ms)))
        (sum_list (map (\<lambda>m. jvalues (snd m)) ?ms))
        (length ?ms + sum_list (map (\<lambda>m. jmembers (snd m)) ?ms)) (v_layout v) (v_layout v')"
    using w m v' lay_to_trans [OF w(4) v'(5)] by (simp add: add_ac)
qed

lemma parseElems_skip:
  "v_i v \<le> length (v_src v) \<Longrightarrow> parseElems pv m d ci c (v_skipSpace v) = parseElems pv m d ci c v"
  by (cases m) (simp_all add: parseElems.simps v_skipSpace_idem)

lemma parseMembers_skip:
  "v_i v \<le> length (v_src v) \<Longrightarrow> parseMembers pv m d ci c (v_skipSpace v) = parseMembers pv m d ci c v"
  by (cases m) (simp_all add: parseMembers.simps v_skipSpace_idem)

lemma elems_text_head:
  assumes "elems_text vs u"
  shows "\<exists>a t. u = a @ t \<and> ws a \<and> t \<noteq> [] \<and> \<not> isJSONWhitespace (hd t) \<and> hd t \<noteq> 0x5D"
  using assms
proof (cases rule: elems_text.cases)
  case (elems_one a v t b)
  then show ?thesis using json_text_hd [of v t] by (intro exI [of _ a] exI [of _ "t @ b"]) auto
next
  case (elems_cons a v t b vs' r)
  then show ?thesis using json_text_hd [of v t] by (intro exI [of _ a] exI [of _ "t @ b @ 0x2C # r"]) auto
qed

lemma members_text_head:
  assumes "members_text ms u"
  shows "\<exists>a t. u = a @ 0x22 # t \<and> ws a"
  using assms by (cases rule: members_text.cases) auto

text \<open>The counter list after a container closes: its own size in front of its children's sizes.\<close>

lemma closed_open:
  assumes "ci = map_option (\<lambda>l. length (lay_counts l)) lo"
    and "lay_to (\<lambda>cs. cs @ [0]) 0 0 lo y" and "lay_to (\<lambda>cs. closed ci k (cs @ ds)) a b y z"
  shows "lay_to (\<lambda>cs. cs @ k # ds) a b lo z"
  using assms by (auto simp: lay_to_def closed_def)

lemma array_complete:
  assumes u: "elems_text vs u" and ih: "elems_complete vs u"
  shows "value_complete (JArray vs) (0x5B # u @ [0x5D])"
  unfolding value_complete_def
proof (intro allI impI)
  fix n depth and v :: validator and rest
  assume at: "at (v_src v) (v_i v) ((0x5B # u @ [0x5D]) @ rest)"
    and d: "depth + jdepth (JArray vs) \<le> v_maxDepth v" and n: "length (0x5B # u @ [0x5D]) \<le> n"
    and lo: "lay_ok (v_layout v)"
  let ?s = "v_src v"
  obtain n' where n': "n = Suc n'" using n by (cases n) auto
  obtain ci w where w: "openContainer v = (ci, w)" by (cases "openContainer v")
  note ow = openContainer_sel [OF w] and lw = openContainer_layout [OF w lo]
  have at0: "at ?s (v_i v) (0x5B # (u @ 0x5D # rest))" using at by simp
  note q = at_Cons [OF at0]
  obtain a t where at': "u = a @ t" "ws a" "t \<noteq> []" "\<not> isJSONWhitespace (hd t)" "hd t \<noteq> 0x5D"
    using elems_text_head [OF u] by blast
  have atw: "at ?s (Suc (v_i v)) (a @ t @ 0x5D # rest)" using q at'(1) by simp
  have sk: "skipSpace ?s (Suc (v_i v)) = Suc (v_i v) + length a"
    by (rule skipSpace_complete [OF atw at'(2)]) (use at' in auto)
  have "?s ! (Suc (v_i v) + length a) = hd t"
    using at_Cons [of ?s "Suc (v_i v) + length a" "hd t" "tl t @ 0x5D # rest"] at_append [OF atw] at'(3)
    by (cases t) auto
  then have nb: "\<not> v_at (v_skipSpace w) 0x5D" using sk ow at'(5) by (simp add: v_at_def)
  have dd: "Suc depth \<le> v_maxDepth v" "\<forall>j \<in> set vs. Suc depth + jdepth j \<le> v_maxDepth v"
    using d unfolding jdepth_JArray by blast+
  have wl: "v_i w \<le> length (v_src w)" using ow q by simp
  have "length u < length ?s + 1" using at_length [OF at0] by simp
  then obtain v' where v': "parseElems (parseValue n') (length ?s + 1) (Suc depth) ci 0 w = Some (Inr v')"
    "v_src v' = ?s" "v_maxDepth v' = v_maxDepth v" "v_i v' = Suc (v_i v) + length u + 1"
    "lay_to (\<lambda>cs. closed ci (length vs) (cs @ concat (map jcounts vs)))
       (length vs + sum_list (map jvalues vs)) (sum_list (map jmembers vs)) (v_layout w) (v_layout v')"
    using ih [unfolded elems_complete_def, rule_format, of w rest "Suc depth" n' "length ?s + 1" ci 0]
      q ow dd(2) n n' lw(2) by auto
  have "parseValue n depth v = Some (Inr v')"
    using n' q dd(1) w nb v'(1) ow parseElems_skip [OF wl]
    by (simp add: parseValue.simps parseArray_def Let_def)
  then show "\<exists>v'. parseValue n depth v = Some (Inr v') \<and> v_src v' = ?s \<and> v_maxDepth v' = v_maxDepth v \<and>
      v_i v' = v_i v + length (0x5B # u @ [0x5D]) \<and>
      lay_to (\<lambda>cs. cs @ jcounts (JArray vs)) (jvalues (JArray vs)) (jmembers (JArray vs)) (v_layout v) (v_layout v')"
    using v' closed_open [OF lw(3,1) v'(5)] by simp
qed

lemma object_complete:
  assumes u: "members_text ms u" and ih: "members_complete ms u"
  shows "value_complete (JObject ms) (0x7B # u @ [0x7D])"
  unfolding value_complete_def
proof (intro allI impI)
  fix n depth and v :: validator and rest
  assume at: "at (v_src v) (v_i v) ((0x7B # u @ [0x7D]) @ rest)"
    and d: "depth + jdepth (JObject ms) \<le> v_maxDepth v" and n: "length (0x7B # u @ [0x7D]) \<le> n"
    and lo: "lay_ok (v_layout v)"
  let ?s = "v_src v"
  obtain n' where n': "n = Suc n'" using n by (cases n) auto
  obtain ci w where w: "openContainer v = (ci, w)" by (cases "openContainer v")
  note ow = openContainer_sel [OF w] and lw = openContainer_layout [OF w lo]
  have at0: "at ?s (v_i v) (0x7B # (u @ 0x7D # rest))" using at by simp
  note q = at_Cons [OF at0]
  obtain a t where at': "u = a @ 0x22 # t" "ws a" using members_text_head [OF u] by blast
  have atw: "at ?s (Suc (v_i v)) (a @ 0x22 # t @ 0x7D # rest)" using q at'(1) by simp
  have sk: "skipSpace ?s (Suc (v_i v)) = Suc (v_i v) + length a"
    by (rule skipSpace_complete [OF atw at'(2)]) (simp add: sep_not_ws)
  have nb: "\<not> v_at (v_skipSpace w) 0x7D" using at_Cons [OF at_append [OF atw]] sk ow by (simp add: v_at_def)
  have dd: "Suc depth \<le> v_maxDepth v" "\<forall>j \<in> snd ` set ms. Suc depth + jdepth j \<le> v_maxDepth v"
    using d unfolding jdepth_JObject by blast+
  have wl: "v_i w \<le> length (v_src w)" using ow q by simp
  have "length u < length ?s + 1" using at_length [OF at0] by simp
  then obtain v' where v': "parseMembers (parseValue n') (length ?s + 1) (Suc depth) ci 0 w = Some (Inr v')"
    "v_src v' = ?s" "v_maxDepth v' = v_maxDepth v" "v_i v' = Suc (v_i v) + length u + 1"
    "lay_to (\<lambda>cs. closed ci (length ms) (cs @ concat (map (\<lambda>m. jcounts (snd m)) ms)))
       (sum_list (map (\<lambda>m. jvalues (snd m)) ms)) (length ms + sum_list (map (\<lambda>m. jmembers (snd m)) ms))
       (v_layout w) (v_layout v')"
    using ih [unfolded members_complete_def, rule_format, of w rest "Suc depth" n' "length ?s + 1" ci 0]
      q ow dd(2) n n' lw(2) by auto
  have "parseValue n depth v = Some (Inr v')"
    using n' q dd(1) w nb v'(1) ow parseMembers_skip [OF wl]
    by (simp add: parseValue.simps parseObject_def Let_def)
  then show "\<exists>v'. parseValue n depth v = Some (Inr v') \<and> v_src v' = ?s \<and> v_maxDepth v' = v_maxDepth v \<and>
      v_i v' = v_i v + length (0x7B # u @ [0x7D]) \<and>
      lay_to (\<lambda>cs. cs @ jcounts (JObject ms)) (jvalues (JObject ms)) (jmembers (JObject ms)) (v_layout v) (v_layout v')"
    using v' closed_open [OF lw(3,1) v'(5)] by simp
qed

lemma empty_complete:
  assumes ws: "ws u" and b: "b = 0x5B \<and> e = 0x5D \<and> j = JArray [] \<or> b = 0x7B \<and> e = 0x7D \<and> j = JObject []"
  shows "value_complete j (b # u @ [e])"
  unfolding value_complete_def
proof (intro allI impI)
  fix n depth and v :: validator and rest
  assume at: "at (v_src v) (v_i v) ((b # u @ [e]) @ rest)"
    and d: "depth + jdepth j \<le> v_maxDepth v" and n: "length (b # u @ [e]) \<le> n"
    and lo: "lay_ok (v_layout v)"
  let ?s = "v_src v"
  obtain n' where n': "n = Suc n'" using n by (cases n) auto
  obtain ci w where w: "openContainer v = (ci, w)" by (cases "openContainer v")
  note ow = openContainer_sel [OF w] and lw = openContainer_layout [OF w lo]
  have at0: "at ?s (v_i v) (b # (u @ e # rest))" using at by simp
  note q = at_Cons [OF at0]
  then have atw: "at ?s (Suc (v_i v)) (u @ e # rest)" by simp
  have sk: "skipSpace ?s (Suc (v_i v)) = Suc (v_i v) + length u"
    by (rule skipSpace_complete [OF atw ws]) (use b in \<open>auto simp: sep_not_ws\<close>)
  have e: "v_at (v_skipSpace w) e" using at_Cons [OF at_append [OF atw]] sk ow by (simp add: v_at_def)
  have "Suc depth \<le> v_maxDepth v" "jcounts j = [0]" "jvalues j = 0" "jmembers j = 0" using b d by auto
  then show "\<exists>v'. parseValue n depth v = Some (Inr v') \<and> v_src v' = ?s \<and> v_maxDepth v' = v_maxDepth v \<and>
      v_i v' = v_i v + length (b # u @ [e]) \<and>
      lay_to (\<lambda>cs. cs @ jcounts j) (jvalues j) (jmembers j) (v_layout v) (v_layout v')"
    using n' q w e sk ow lw b
    by (intro exI [of _ "v_advance (v_skipSpace w)"])
      (auto simp: parseValue.simps parseArray_def parseObject_def Let_def)
qed

lemma scalar_complete:
  assumes "\<And>v n depth rest. at (v_src v) (v_i v) (t @ rest) \<Longrightarrow> number_end rest \<Longrightarrow> depth \<le> v_maxDepth v \<Longrightarrow>
      parseValue (Suc n) depth v = Some (Inr (v\<lparr>v_i := v_i v + length t\<rparr>))"
    and "t \<noteq> []" "jdepth j = 0" "jcounts j = []" "jvalues j = 0" "jmembers j = 0"
  shows "value_complete j t"
  unfolding value_complete_def
proof (intro allI impI)
  fix n depth and v :: validator and rest
  assume a: "at (v_src v) (v_i v) (t @ rest)" "number_end rest" "depth + jdepth j \<le> v_maxDepth v"
    "length t \<le> n" "lay_ok (v_layout v)"
  obtain n' where "n = Suc n'" using a(4) assms(2) by (cases n) auto
  then show "\<exists>v'. parseValue n depth v = Some (Inr v') \<and> v_src v' = v_src v \<and> v_maxDepth v' = v_maxDepth v \<and>
      v_i v' = v_i v + length t \<and>
      lay_to (\<lambda>cs. cs @ jcounts j) (jvalues j) (jmembers j) (v_layout v) (v_layout v')"
    using assms a by (auto intro!: lay_to_id)
qed

lemma matchStringAt_complete: "at src i (lit @ rest) \<Longrightarrow> matchStringAt src i lit"
  by (auto simp: at_def matchStringAt_iff get_bytes_def dest!: arg_cong [where f = length])

lemma literal_complete:
  assumes "lit = ascii ''null'' \<and> j = JNull \<or> lit = ascii ''true'' \<and> j = JTrue \<or> lit = ascii ''false'' \<and> j = JFalse"
  shows "value_complete j lit"
proof (rule scalar_complete)
  fix v :: validator and n depth rest
  assume at: "at (v_src v) (v_i v) (lit @ rest)" and "depth \<le> v_maxDepth v"
  moreover have "v_i v < length (v_src v)" "v_src v ! v_i v = hd lit"
    using assms at at_Cons [of "v_src v" "v_i v" "hd lit" "tl lit @ rest"] by auto
  ultimately show "parseValue (Suc n) depth v = Some (Inr (v\<lparr>v_i := v_i v + length lit\<rparr>))"
    using assms matchStringAt_complete [OF at] by (auto simp: parseValue.simps Let_def parseLiteral_def)
qed (use assms in auto)

lemma str_complete:
  assumes "string_text k rs"
  shows "value_complete (JString rs) (0x22 # k @ [0x22])"
proof (rule scalar_complete)
  fix v :: validator and n depth rest
  assume at: "at (v_src v) (v_i v) ((0x22 # k @ [0x22]) @ rest)" and "depth \<le> v_maxDepth v"
  moreover have q: "v_i v < length (v_src v) \<and> v_src v ! v_i v = 0x22 \<and> at (v_src v) (Suc (v_i v)) (k @ 0x22 # rest)"
    using at at_Cons [of "v_src v" "v_i v" "0x22" "k @ 0x22 # rest"] by auto
  ultimately show "parseValue (Suc n) depth v = Some (Inr (v\<lparr>v_i := v_i v + length (0x22 # k @ [0x22])\<rparr>))"
    using parseStringFrom_complete [OF assms, of "v_src v" "Suc (v_i v)" rest]
    by (simp add: parseValue.simps Let_def parseString_def)
qed auto

lemma number_complete:
  assumes "number_text t"
  shows "value_complete (JNumber t) t"
proof (rule scalar_complete)
  note hd = number_text_hd [OF assms]
  then show "t \<noteq> []" by simp
  fix v :: validator and n depth rest
  assume at: "at (v_src v) (v_i v) (t @ rest)" and ne: "number_end rest" and "depth \<le> v_maxDepth v"
  moreover have "v_i v < length (v_src v) \<and> v_src v ! v_i v = hd t"
    using hd at at_Cons [of "v_src v" "v_i v" "hd t" "tl t @ rest"] by (cases t) auto
  moreover have "hd t \<noteq> 0x6E" "hd t \<noteq> 0x74" "hd t \<noteq> 0x66" "hd t \<noteq> 0x22" "hd t \<noteq> 0x5B" "hd t \<noteq> 0x7B"
    using hd by (auto simp: isDigit_def)
  ultimately show "parseValue (Suc n) depth v = Some (Inr (v\<lparr>v_i := v_i v + length t\<rparr>))"
    using hd scanNumber_complete [OF at assms ne]
    by (auto simp: parseValue.simps Let_def parseNumber_def)
qed auto

lemma text_complete:
  shows "json_text j t \<Longrightarrow> value_complete j t"
    and "elems_text vs u \<Longrightarrow> elems_complete vs u"
    and "members_text ms w \<Longrightarrow> members_complete ms w"
proof (induction rule: json_text_elems_text_members_text.inducts)
qed (simp_all only: literal_complete str_complete number_complete empty_complete array_complete
    object_complete elems_complete_one elems_complete_cons members_complete_one members_complete_cons simp_thms)

section \<open>Whole documents\<close>

lemma runValidator_total:
  assumes "v_i v = 0"
  shows "runValidator v \<noteq> None"
proof -
  have "skipSpace (v_src v) (v_i v) \<le> length (v_src v)" using assms skipSpace_sound(2) by simp
  then obtain r where "parseValue (parseFuel (v_src v)) 0 (v_skipSpace v) = Some r"
    using pv_totalD [OF parseValue_total, of "v_skipSpace v" "parseFuel (v_src v)" 0]
    by (auto simp: parseFuel_def less_Suc_eq_le)
  then show ?thesis by (cases r) (auto simp: runValidator_def Let_def)
qed

lemma runValidator_sound:
  assumes "runValidator v = Some (Inr v')" "v_i v = 0"
  shows "\<exists>j. document_text j (v_src v) \<and> jdepth j \<le> v_maxDepth v"
proof -
  let ?s = "v_src v"
  let ?a = "skipSpace ?s 0"
  obtain w where w: "parseValue (parseFuel ?s) 0 (v_skipSpace v) = Some (Inr w)"
    using assms by (auto simp: runValidator_def split: option.splits sum.splits)
  have sp: "?a \<le> length ?s" "ws (segment ?s 0 ?a)" using skipSpace_sound [of 0 ?s] by auto
  note s = pv_soundD [OF parseValue_sound w, simplified, unfolded assms(2), OF sp(1)]
  note sb = skipSpace_sound [OF s(4)]
  obtain j where j: "json_text j (segment ?s ?a (v_i w))" "jdepth j \<le> v_maxDepth v" using s(5) by auto
  have e: "skipSpace ?s (v_i w) = length ?s"
    using assms w s(1) by (auto simp: runValidator_def Let_def split: if_splits)
  have "?s = segment ?s 0 ?a @ segment ?s ?a (v_i w) @ segment ?s (v_i w) (skipSpace ?s (v_i w))"
    using s(3,4) e by (simp add: segment_append) (simp add: segment_def)
  then show ?thesis using sp(2) j sb(3) unfolding document_text_def by blast
qed

lemma runValidator_complete:
  assumes doc: "document_text j (v_src v)" and d: "jdepth j \<le> v_maxDepth v" and "v_i v = 0" "lay_ok (v_layout v)"
  shows "\<exists>v'. runValidator v = Some (Inr v') \<and>
    lay_to (\<lambda>cs. cs @ jcounts j) (jvalues j) (jmembers j) (v_layout v) (v_layout v')"
proof -
  let ?s = "v_src v"
  obtain a t b where s: "?s = a @ t @ b" "ws a" "json_text j t" "ws b"
    using doc unfolding document_text_def by blast
  have at0: "at ?s 0 (a @ t @ b)" using s by (simp add: at_def)
  have sk: "skipSpace ?s 0 = length a"
    using skipSpace_complete [OF at0 s(2)] json_text_hd [OF s(3)] by simp
  have at1: "at ?s (length a) (t @ b)" using at_append [OF at0] by simp
  have "number_end b" using number_end_ws [OF s(4), of "[]"] by (simp add: number_end_def)
  then obtain w where w: "parseValue (parseFuel ?s) 0 (v_skipSpace v) = Some (Inr w)" "v_src w = ?s"
    "v_i w = length a + length t"
    "lay_to (\<lambda>cs. cs @ jcounts j) (jvalues j) (jmembers j) (v_layout v) (v_layout w)"
    using text_complete(1) [OF s(3), unfolded value_complete_def, rule_format, of "v_skipSpace v" b 0 "parseFuel ?s"]
      at1 sk assms s(1) by (auto simp: parseFuel_def)
  have "at ?s (v_i w) (b @ [])" using at_append [OF at1] w(3) by simp
  then have "skipSpace ?s (v_i w) = length ?s" using skipSpace_complete [OF _ s(4), of ?s "v_i w" "[]"] w(3) s(1)
    by simp
  then show ?thesis using w by (simp add: runValidator_def Let_def)
qed

section \<open>The counters do not influence the verdict\<close>

definition erase :: "validator \<Rightarrow> validator" where
  "erase v = v\<lparr>v_layout := None\<rparr>"

definition erase_result :: "(SyntaxError + validator) option \<Rightarrow> (SyntaxError + validator) option" where
  "erase_result r = map_option (map_sum id erase) r"

lemma erase_simps [simp]:
  "v_src (erase v) = v_src v" "v_i (erase v) = v_i v" "v_maxDepth (erase v) = v_maxDepth v"
  "v_skipSpace (erase v) = erase (v_skipSpace v)" "v_advance (erase v) = erase (v_advance v)"
  "countValue (erase v) = erase (countValue v)" "countMember (erase v) = erase (countMember v)"
  "v_err (erase v) off msg = v_err v off msg" "v_at (erase v) b = v_at v b"
  "erase_result (Some (Inl e)) = Some (Inl e)" "erase_result (Some (Inr v)) = Some (Inr (erase v))"
  "erase_result None = None"
  by (simp_all add: erase_def v_skipSpace_def v_advance_def countValue_def countMember_def
      closeContainer_def v_err_def v_at_def erase_result_def split: option.split)

lemma erase_close: "closeContainer None c (erase v) = erase (closeContainer ci c v)"
  by (simp add: erase_def v_advance_def closeContainer_def split: option.split)

lemma erase_leaf:
  "parseLiteral lit (erase v) = map_sum id erase (parseLiteral lit v)"
  "parseNumber (erase v) = map_sum id erase (parseNumber v)"
  "parseString (erase v) = map_sum id erase (parseString v)"
  by (simp_all add: parseLiteral_def parseNumber_def parseString_def erase_def v_err_def
      split: prod.split option.split sum.split)

lemma erase_open: "openContainer v = (ci, w) \<Longrightarrow> openContainer (erase v) = (None, erase w)"
  by (auto simp: openContainer_def erase_def v_advance_def split: option.splits prod.splits)

lemma erase_parseElems:
  assumes pv: "\<And>d v. pv d (erase v) = erase_result (pv d v)"
  shows "parseElems pv m d None c (erase v) = erase_result (parseElems pv m d ci c v)"
proof (induction m arbitrary: c v)
  case (Suc m)
  show ?case
  proof (cases "pv d (v_skipSpace v)")
    case (Some r)
    then show ?thesis by (cases r) (simp_all add: parseElems.simps Let_def pv Suc.IH erase_close [of _ _ ci])
  qed (simp add: parseElems.simps pv)
qed (simp add: parseElems.simps)

lemma erase_parseMembers:
  assumes pv: "\<And>d v. pv d (erase v) = erase_result (pv d v)"
  shows "parseMembers pv m d None c (erase v) = erase_result (parseMembers pv m d ci c v)"
proof (induction m arbitrary: c v)
  case (Suc m)
  note step = parseMembers.simps Let_def pv Suc.IH erase_close [of _ _ ci] erase_leaf
  show ?case
  proof (cases "parseString (v_skipSpace v)")
    case (Inr y)
    show ?thesis
    proof (cases "pv d (v_skipSpace (v_advance (v_skipSpace y)))")
      case (Some r)
      then show ?thesis using Inr by (cases r) (simp_all add: step)
    qed (simp add: step Inr)
  qed (simp add: step)
qed (simp add: parseMembers.simps)

lemma erase_containers:
  assumes "\<And>d v. pv d (erase v) = erase_result (pv d v)"
  shows "parseArray pv d (erase v) = erase_result (parseArray pv d v)"
    "parseObject pv d (erase v) = erase_result (parseObject pv d v)"
proof -
  obtain ci w where w: "openContainer v = (ci, w)" by (cases "openContainer v")
  show "parseArray pv d (erase v) = erase_result (parseArray pv d v)"
    "parseObject pv d (erase v) = erase_result (parseObject pv d v)"
    using w erase_open [OF w] erase_parseElems [of pv, OF assms] erase_parseMembers [of pv, OF assms]
    by (simp_all add: parseArray_def parseObject_def Let_def)
qed

lemma erase_parseValue: "parseValue n d (erase v) = erase_result (parseValue n d v)"
proof (induction n arbitrary: d v)
  case (Suc n)
  show ?case
    by (simp add: parseValue.simps Let_def erase_leaf erase_containers [of "parseValue n", OF Suc.IH])
      (simp add: erase_result_def)
qed (simp add: parseValue.simps)

lemma erase_runValidator: "runValidator (erase v) = erase_result (runValidator v)"
  by (simp add: runValidator_def erase_parseValue Let_def split: option.split sum.split)

lemma validateOptions_iff:
  "validateOptions src d = Some None \<longleftrightarrow> (\<exists>j. document_text j src \<and> jdepth j \<le> effectiveDepth d)"
proof -
  let ?v = "\<lparr>v_src = src, v_i = 0, v_maxDepth = effectiveDepth d, v_layout = None\<rparr>"
  have "validateOptions src d = Some None \<longleftrightarrow> (\<exists>v'. runValidator ?v = Some (Inr v'))"
    by (auto simp: validateOptions_def split: sum.split_asm)
  then show ?thesis
    using runValidator_sound [of ?v] runValidator_complete [of _ ?v] by (auto simp: lay_ok_def)
qed

section \<open>Properties\<close>

text \<open>C1. \<^verbatim>\<open>validateOptions\<close> accepts an input exactly when it is one RFC 8259 document with strict UTF-8 strings, between optional white space, whose nesting does not exceed the depth limit in force.\<close>

theorem validateOptions_correct:
  "validateOptions src d = Some None \<longleftrightarrow> (\<exists>j. document_text j src \<and> jdepth j \<le> effectiveDepth d)"
  by (rule validateOptions_iff)

text \<open>C18. The validator always answers: neither entry point runs out of fuel, on any input and any depth limit.\<close>

theorem validator_terminates:
  "(\<exists>r. validateOptions src d = Some r) \<and> (\<exists>r. countLayout src d = Some r)"
  using runValidator_total [of "\<lparr>v_src = src, v_i = 0, v_maxDepth = effectiveDepth d, v_layout = None\<rparr>"]
    runValidator_total [of "\<lparr>v_src = src, v_i = 0, v_maxDepth = effectiveDepth d, v_layout = Some empty_layout\<rparr>"]
  by (auto simp: validateOptions_def countLayout_def)

text \<open>On a document within the depth limit \<^verbatim>\<open>countLayout\<close> returns, for every container in the order they open, its number of elements or members, and the total number of array values and object members.\<close>

theorem countLayout_counts:
  assumes "document_text j src" "jdepth j \<le> effectiveDepth d"
  shows "\<exists>l. countLayout src d = Some (Inr l) \<and> lay_wf l \<and> lay_counts l = jcounts j \<and>
    nvalues l = jvalues j \<and> nmembers l = jmembers j"
proof -
  let ?v = "\<lparr>v_src = src, v_i = 0, v_maxDepth = effectiveDepth d, v_layout = Some empty_layout\<rparr>"
  obtain v' where "runValidator ?v = Some (Inr v')"
    "lay_to (\<lambda>cs. cs @ jcounts j) (jvalues j) (jmembers j) (Some empty_layout) (v_layout v')"
    using runValidator_complete [of j ?v] assms lay_wf_empty by (auto simp: lay_ok_def)
  then show ?thesis
    by (auto simp: countLayout_def lay_to_def lay_wf_empty)
qed

theorem countLayout_counts_witness:
  "\<exists>l. countLayout (ascii ''[[],true]'') 0 = Some (Inr l) \<and> lay_wf l \<and> lay_counts l = [2, 0] \<and>
    nvalues l = 2 \<and> nmembers l = 0"
proof -
  have "elems_text [JArray [], JTrue] ([] @ ascii ''[]'' @ [] @ 0x2C # ([] @ ascii ''true'' @ []))"
    using array_empty [of "[]"] by (intro elems_cons elems_one true) auto
  then have "document_text (JArray [JArray [], JTrue]) (ascii ''[[],true]'')"
    using array [of "[JArray [], JTrue]" "ascii ''[],true''"] unfolding document_text_def
    by (intro exI [of _ "[]"] exI [of _ "ascii ''[[],true]''"]) simp
  from countLayout_counts [OF this, of 0] show ?thesis
    by (simp add: effectiveDepth_def defaultMaxDepth_def numeral_2_eq_2)
qed

text \<open>\<^verbatim>\<open>countLayout\<close> and \<^verbatim>\<open>validateOptions\<close> give the same verdict on every input, with the same error on a rejected one.\<close>

theorem countLayout_agrees:
  "validateOptions src d =
     (case countLayout src d of None \<Rightarrow> None | Some (Inl e) \<Rightarrow> Some (Some e) | Some (Inr l) \<Rightarrow> Some None)"
proof -
  let ?v = "\<lparr>v_src = src, v_i = 0, v_maxDepth = effectiveDepth d, v_layout = Some empty_layout\<rparr>"
  have "\<lparr>v_src = src, v_i = 0, v_maxDepth = effectiveDepth d, v_layout = None\<rparr> = erase ?v"
    by (simp add: erase_def)
  then show ?thesis
    using erase_runValidator [of ?v]
    by (simp add: validateOptions_def countLayout_def erase_result_def split: option.split sum.split)
qed

text \<open>\<^verbatim>\<open>validNumber\<close> accepts exactly the JSON number grammar.\<close>

theorem validNumber_correct: "validNumber src \<longleftrightarrow> number_text src"
proof
  assume "validNumber src"
  then show "number_text src"
    using scanNumber_sound [of src 0] by (auto simp: validNumber_def segment_def split: prod.splits)
next
  assume "number_text src"
  then show "validNumber src"
    using scanNumber_complete [of src 0 src "[]"] by (simp add: validNumber_def at_def number_end_def)
qed

text \<open>\<^verbatim>\<open>validString\<close> accepts exactly the quoted strings of the grammar: no raw control byte, only the eight short escapes and \<^verbatim>\<open>\\u\<close> escapes whose surrogates pair up, and only well-formed UTF-8.\<close>

theorem validString_correct: "validString src \<longleftrightarrow> (\<exists>k rs. string_text k rs \<and> src = 0x22 # k @ [0x22])"
proof
  assume "validString src"
  then show "\<exists>k rs. string_text k rs \<and> src = 0x22 # k @ [0x22]"
    using parseString_sound [of "\<lparr>v_src = src, v_i = 0, v_maxDepth = defaultMaxDepth, v_layout = None\<rparr>"]
    by (auto simp: validString_def validateString_def segment_def split: sum.splits if_splits)
next
  assume "\<exists>k rs. string_text k rs \<and> src = 0x22 # k @ [0x22]"
  then obtain k rs where k: "string_text k rs" "src = 0x22 # k @ [0x22]" by blast
  then show "validString src"
    using parseStringFrom_complete [OF k(1), of src 1 "[]"]
    by (simp add: validString_def validateString_def parseString_def at_def)
qed

section \<open>Error positions\<close>

lemma lineCol_spec:
  "lineCol cs line col = (line + count_list cs 0x0A,
     if 0x0A \<in> set cs then 1 + length (takeWhile (\<lambda>c. c \<noteq> 0x0A) (rev cs)) else col + length cs)"
  by (induction cs line col rule: lineCol.induct) (auto simp: takeWhile_append takeWhile_tail)

lemma takeWhile_rev_all: "x \<notin> set cs \<Longrightarrow> takeWhile (\<lambda>c. c \<noteq> x) (rev cs) = rev cs"
  by (auto simp: takeWhile_eq_all_conv)

text \<open>An error's offset is the reported one clamped into the input, its line is one more than the number of newlines before the offset, and its column one more than the number of bytes since the last of them.\<close>

theorem syntaxError_position:
  "Offset (syntaxError src off msg) = nat (max 0 (min off (int (length src)))) \<and>
   Line (syntaxError src off msg) = 1 + count_list (take (Offset (syntaxError src off msg)) src) 0x0A \<and>
   Column (syntaxError src off msg) =
     1 + length (takeWhile (\<lambda>c. c \<noteq> 0x0A) (rev (take (Offset (syntaxError src off msg)) src))) \<and>
   Message (syntaxError src off msg) = msg"
  by (auto simp: syntaxError_def Let_def lineCol_spec takeWhile_rev_all split: prod.splits)

end
