(* ===== verification/OrderedKeyOrder.thy ===== *)
theory OrderedKeyOrder
  imports OrderedKey ValidatorComplete
begin

unbundle bit_operations_syntax

text \<open>
  The order of the keys: byte comparison of two encoded components is the semantic order of the
  scalars, whatever bytes follow, and descending components reverse it.
\<close>

section \<open>Comparison decided before either key ends\<close>

fun sless :: "bytes \<Rightarrow> bytes \<Rightarrow> bool" where
  "sless (a # as) (b # bs) = (a < b \<or> a = b \<and> sless as bs)"
| "sless _ _ = False"

lemma sless_append: "sless as bs \<Longrightarrow> sless (as @ x) (bs @ y)"
  by (induction as bs rule: sless.induct) auto

lemma sless_bytes_less: "sless as bs \<Longrightarrow> bytes_less as bs"
  by (induction as bs rule: sless.induct) auto

lemma sless_prefix [simp]: "sless (p @ as) (p @ bs) = sless as bs"
  by (induction p) auto

lemma sless_map_antitone:
  assumes "\<And>a b. a \<in> S \<Longrightarrow> b \<in> S \<Longrightarrow> (g a < g b) = (b < a)" "\<And>a b. a \<in> S \<Longrightarrow> b \<in> S \<Longrightarrow> (g a = g b) = (b = a)"
  shows "set as \<subseteq> S \<Longrightarrow> set bs \<subseteq> S \<Longrightarrow> sless (map g as) (map g bs) = sless bs as"
proof (induction as bs rule: sless.induct)
  case (1 a as b bs)
  then show ?case using assms [of a b] by (auto simp: eq_commute)
qed auto

lemma unat_not_byte: "unat (NOT b) = 255 - unat b" for b :: byte
proof -
  have "NOT b = - 1 - b" by (simp add: not_eq_complement)
  then have "unat (NOT b) = unat (- 1 :: byte) - unat b" using unat_sub [of b "- 1"] by simp
  then show ?thesis by (simp add: unsigned_minus_1_eq_mask mask_eq_exp_minus_1)
qed

lemma sless_invert: "sless (invert as) (invert bs) = sless bs as"
proof -
  have le: "unat b \<le> 255" for b :: byte using unsigned_less [of b, where ?'a = nat] by simp
  have "(NOT a < NOT b) = (b < a)" "(NOT a = NOT b) = (b = a)" for a b :: byte
    using le [of a] le [of b] by (auto simp: word_less_nat_alt unat_not_byte word_unat_eq_iff)
  then show ?thesis using sless_map_antitone [of UNIV NOT as bs] by (simp add: invert_def)
qed

text \<open>The order of a component in the direction asked for.\<close>

lemma sless_direction:
  "sless as bs \<Longrightarrow> (if d = Descending then sless (invertDescending bs d) (invertDescending as d)
     else sless (invertDescending as d) (invertDescending bs d))"
  by (simp add: invertDescending_def sless_invert)

section \<open>Big-endian words\<close>

lemma be_bytes_Suc: "be_bytes (Suc n) w = ucast (drop_bit (8 * n) w) # be_bytes n w"
  by (simp add: be_bytes_def le_bytes_def)

lemma unat_ucast_byte: "unat (ucast w :: byte) = unat w mod 256" for w :: "'a::len word"
  by (simp only: unsigned_ucast_eq) (simp add: take_bit_eq_mod)

lemma sless_be_bytes:
  "sless (be_bytes n a) (be_bytes n b) \<longleftrightarrow> unat a mod 256 ^ n < unat b mod 256 ^ n"
  "be_bytes n a = be_bytes n b \<longleftrightarrow> unat a mod 256 ^ n = unat b mod 256 ^ n"
  for a b :: "'a::len word"
proof (induction n)
  case 0
  { case 1 show ?case by (simp add: be_bytes_def le_bytes_def) }
  { case 2 show ?case by (simp add: be_bytes_def le_bytes_def) }
next
  case (Suc n)
  define K where "K = (256::nat) ^ n"
  have K: "0 < K" by (simp add: K_def)
  have hd: "unat (ucast (drop_bit (8 * n) w) :: byte) = unat w div K mod 256" for w :: "'a word"
  proof -
    have "(2::nat) ^ (8 * n) = K" by (simp add: K_def power_mult)
    then show ?thesis unfolding unat_ucast_byte unat_drop_bit_eq by (simp add: drop_bit_eq_div)
  qed
  have sp: "unat w mod 256 ^ Suc n = K * (unat w div K mod 256) + unat w mod K" for w :: "'a word"
    by (simp add: K_def mod_mult2_eq mult.commute [of 256])
  have lex: "K * q + r < K * q' + r' \<longleftrightarrow> q < q' \<or> q = q' \<and> r < r'" "K * q + r = K * q' + r' \<longleftrightarrow> q = q' \<and> r = r'"
    if "r < K" "r' < K" for q q' r r'
  proof -
    have a: "K * x + y < K * x' + y'" if "x < x'" "y < K" for x x' y y'
    proof -
      have "K * x + y < K * x + K" using that by simp
      also have "\<dots> = K * Suc x" by simp
      also have "\<dots> \<le> K * x'" using that by (intro mult_le_mono2) simp
      finally show ?thesis by simp
    qed
    show "K * q + r < K * q' + r' \<longleftrightarrow> q < q' \<or> q = q' \<and> r < r'"
      using a [of q q' r r'] a [of q' q r' r] that by (cases q q' rule: linorder_cases) auto
    show "K * q + r = K * q' + r' \<longleftrightarrow> q = q' \<and> r = r'"
      using a [of q q' r r'] a [of q' q r' r] that by (cases q q' rule: linorder_cases) auto
  qed
  note lx = lex [OF mod_less_divisor [OF K] mod_less_divisor [OF K]]
  { case 1 show ?case
      unfolding sp be_bytes_Suc sless.simps word_less_nat_alt word_unat_eq_iff hd lx using Suc(1) by (simp add: K_def) }
  { case 2 show ?case
      unfolding sp be_bytes_Suc list.inject word_unat_eq_iff hd lx using Suc(2) by (simp add: K_def) }
qed

lemma be_bytes8_order:
  "sless (be_bytes 8 a) (be_bytes 8 b) \<longleftrightarrow> a < b" "be_bytes 8 a = be_bytes 8 b \<longleftrightarrow> a = b" for a b :: u64
  using unsigned_less [of a, where ?'a = nat] unsigned_less [of b, where ?'a = nat]
  by (simp_all add: sless_be_bytes word_less_nat_alt word_unat_eq_iff)

text \<open>Flipping the top bit of a 64-bit two's complement integer turns signed into unsigned order.\<close>

lemma xor_top: "x XOR push_bit 63 1 = x + push_bit 63 1" for x :: u64
proof -
  define top :: u64 where "top = push_bit 63 1"
  have bt: "bit top n \<longleftrightarrow> n = 63" for n unfolding top_def bit_push_bit_iff by (auto simp: bit_1_iff)
  have tt: "top + top = 0" unfolding top_def by (simp add: push_bit_eq_mult)
  show ?thesis unfolding top_def [symmetric]
  proof (cases "bit x 63")
    case False
    then have "x AND top = 0" by (intro bit_word_eqI) (auto simp: bit_and_iff bt)
    then have "x + top = x OR top" by (simp add: disjunctive_add_eq_or)
    also have "\<dots> = x XOR top"
      using False by (intro bit_word_eqI) (auto simp: bit_or_iff bit_xor_iff bt)
    finally show "x XOR top = x + top" by simp
  next
    case True
    define y where "y = x XOR top"
    have "y AND top = 0" unfolding y_def
      using True by (intro bit_word_eqI) (auto simp: bit_and_iff bit_xor_iff bt)
    then have "y + top = y OR top" by (simp add: disjunctive_add_eq_or)
    also have "\<dots> = x" unfolding y_def
      using True by (intro bit_word_eqI) (auto simp: bit_or_iff bit_xor_iff bt)
    finally have "x = y + top" by simp
    then show "x XOR top = x + top" unfolding y_def [symmetric] using tt by (simp add: add.assoc)
  qed
qed

lemma biased_order:
  assumes "minInt64 \<le> a" "a \<le> maxInt64" "minInt64 \<le> b" "b \<le> maxInt64"
  shows "((word_of_int a :: u64) XOR push_bit 63 1 < word_of_int b XOR push_bit 63 1) \<longleftrightarrow> a < b"
    "((word_of_int a :: u64) XOR push_bit 63 1 = word_of_int b XOR push_bit 63 1) \<longleftrightarrow> a = b"
proof -
  have u: "uint ((word_of_int x :: u64) XOR push_bit 63 1) = x + 2 ^ 63" if "minInt64 \<le> x" "x \<le> maxInt64" for x
  proof -
    have "(word_of_int x :: u64) XOR push_bit 63 1 = word_of_int (x + 2 ^ 63)"
      unfolding xor_top by (simp add: push_bit_eq_mult)
    moreover have "uint (word_of_int (x + 2 ^ 63) :: u64) = (x + 2 ^ 63) mod 2 ^ 64"
      by (simp only: unsigned_of_int) (simp add: take_bit_eq_mod)
    moreover have "0 \<le> x + 2 ^ 63" "x + 2 ^ 63 < 2 ^ 64" using that by (auto simp: minInt64_def maxInt64_def)
    ultimately show ?thesis by simp
  qed
  show "((word_of_int a :: u64) XOR push_bit 63 1 < word_of_int b XOR push_bit 63 1) \<longleftrightarrow> a < b"
    "((word_of_int a :: u64) XOR push_bit 63 1 = word_of_int b XOR push_bit 63 1) \<longleftrightarrow> a = b"
    by (simp_all only: word_less_def word_uint_eq_iff u [OF assms(1,2)] u [OF assms(3,4)]) auto
qed

end
