(* ===== verification/OrderedKeyNumbers.thy ===== *)
theory OrderedKeyNumbers
  imports OrderedKeyOrder Complex_Main
begin

unbundle bit_operations_syntax

text \<open>
  Numbers in keys: the digits and the adjusted exponent that \<^verbatim>\<open>AppendNumber\<close> writes determine the
  value, and their byte order is the order of the values.
\<close>

section \<open>Decimal digit strings\<close>

definition dval :: "byte \<Rightarrow> nat" where
  "dval c = unat c - 0x30"

primrec dec :: "bytes \<Rightarrow> nat" where
  "dec [] = 0"
| "dec (c # cs) = dval c * 10 ^ length cs + dec cs"

definition fracv :: "bytes \<Rightarrow> rat" where
  "fracv ds = of_nat (dec ds) / 10 ^ length ds"

lemma dval_digit: "isDigit c \<Longrightarrow> dval c \<le> 9 \<and> unat c = 48 + dval c"
  by (auto simp: isDigit_def dval_def word_le_nat_alt)

lemma dval_inj: "isDigit c \<Longrightarrow> isDigit c' \<Longrightarrow> dval c = dval c' \<longleftrightarrow> c = c'"
  using dval_digit [of c] dval_digit [of c'] by (auto simp: word_unat_eq_iff)

lemma dval_zero: "isDigit c \<Longrightarrow> dval c = 0 \<longleftrightarrow> c = 0x30"
  using dval_digit [of c] by (auto simp: word_unat_eq_iff)

lemma dec_append: "dec (a @ b) = dec a * 10 ^ length b + dec b"
  by (induction a) (simp_all add: power_add algebra_simps)

lemma dec_zeros: "(\<forall>c \<in> set zs. c = 0x30) \<Longrightarrow> dec zs = 0"
  by (induction zs) (simp_all add: dval_def)

lemma dec_less: "digits ds \<Longrightarrow> dec ds < 10 ^ length ds"
proof (induction ds)
  case (Cons c cs)
  have "dval c * 10 ^ length cs + dec cs < dval c * 10 ^ length cs + 10 ^ length cs" using Cons by simp
  also have "\<dots> = Suc (dval c) * 10 ^ length cs" by simp
  also have "\<dots> \<le> 10 * 10 ^ length cs" using Cons.prems dval_digit [of c] by (intro mult_le_mono1) simp
  finally show ?case by simp
qed simp

lemma fracv_Nil [simp]: "fracv [] = 0"
  by (simp add: fracv_def)

lemma fracv_Cons: "fracv (c # cs) = (of_nat (dval c) + fracv cs) / 10"
  by (simp add: fracv_def field_simps)

lemma fracv_bounds: "digits ds \<Longrightarrow> 0 \<le> fracv ds \<and> fracv ds < 1"
proof -
  assume "digits ds"
  then have "of_nat (dec ds) < (of_nat (10 ^ length ds) :: rat)" using dec_less by (simp only: of_nat_less_iff)
  then show ?thesis by (simp add: fracv_def)
qed

definition trimmed :: "bytes \<Rightarrow> bool" where
  "trimmed ds \<longleftrightarrow> ds = [] \<or> last ds \<noteq> 0x30"

lemma trimmed_pos: "digits ds \<Longrightarrow> trimmed ds \<Longrightarrow> ds \<noteq> [] \<Longrightarrow> 0 < fracv ds"
proof (induction ds)
  case (Cons c cs)
  show ?case
  proof (cases "cs = []")
    case True
    then have "0 < dval c" using Cons.prems dval_zero [of c] by (auto simp: trimmed_def)
    then show ?thesis using True by (simp add: fracv_Cons)
  next
    case False
    then have "0 < fracv cs" using Cons by (simp add: trimmed_def)
    then show ?thesis by (simp add: fracv_Cons add_nonneg_pos)
  qed
qed simp

definition digit_code :: "bytes \<Rightarrow> bytes" where
  "digit_code ds = map (\<lambda>c. c - 0x30 + 1) ds @ [0]"

lemma digit_code_byte: "isDigit c \<Longrightarrow> unat (c - 0x30 + 1 :: byte) = dval c + 1"
proof -
  assume c: "isDigit c"
  then have "47 \<le> c" by (simp add: isDigit_def word_le_nat_alt)
  then have "unat (c - 47) = unat c - 47" by (simp add: unat_sub)
  then show ?thesis using dval_digit [OF c] by simp
qed

lemma digit_code_order:
  "digits a \<Longrightarrow> trimmed a \<Longrightarrow> digits b \<Longrightarrow> trimmed b \<Longrightarrow>
   (fracv a < fracv b \<longrightarrow> sless (digit_code a) (digit_code b)) \<and> (fracv a = fracv b \<longrightarrow> a = b)"
proof (induction a arbitrary: b)
  case Nil
  show ?case
  proof (cases b)
    case (Cons c cs)
    then have "isDigit c" using Nil by simp
    then have "(0::byte) < c - 0x30 + 1" using digit_code_byte [of c] by (simp add: word_less_nat_alt)
    then show ?thesis using Cons trimmed_pos [OF Nil(3,4)] by (simp add: digit_code_def)
  qed simp
next
  case (Cons c cs)
  show ?case
  proof (cases b)
    case Nil
    then show ?thesis using trimmed_pos [OF Cons.prems(1,2)] by simp
  next
    case (Cons d ds)
    note b = Cons
    have dg: "isDigit c" "isDigit d" "digits cs" "digits ds" using Cons.prems b by auto
    have tr: "trimmed cs" "trimmed ds" using Cons.prems(2,4) b by (auto simp: trimmed_def split: if_splits)
    note ih = Cons.IH [OF dg(3) tr(1) dg(4) tr(2)]
    note f = fracv_bounds [OF dg(3)] fracv_bounds [OF dg(4)]
    note code = digit_code_byte [OF dg(1)] digit_code_byte [OF dg(2)]
    consider "dval c < dval d" | "dval c = dval d" | "dval d < dval c" by linarith
    then show ?thesis
    proof cases
      case 1
      then have "fracv (c # cs) < fracv b"
      proof -
        have "of_nat (dval c) + fracv cs < (of_nat (dval c) + 1 :: rat)" using f by simp
        also have "\<dots> \<le> of_nat (dval d)" using 1 by (metis Suc_leI of_nat_Suc of_nat_le_iff add.commute)
        also have "\<dots> \<le> of_nat (dval d) + fracv ds" using f by simp
        finally show ?thesis using b by (simp add: fracv_Cons divide_strict_right_mono)
      qed
      then show ?thesis using 1 code b by (simp add: digit_code_def word_less_nat_alt)
    next
      case 2
      then have "c = d" using dval_inj dg by blast
      then show ?thesis using ih b by (simp add: fracv_Cons digit_code_def divide_less_cancel)
    next
      case 3
      have "of_nat (dval d) + fracv ds < (of_nat (dval d) + 1 :: rat)" using f by simp
      also have "\<dots> \<le> of_nat (dval c)" using 3 by (metis Suc_leI of_nat_Suc of_nat_le_iff add.commute)
      also have "\<dots> \<le> of_nat (dval c) + fracv cs" using f by simp
      finally have "fracv b < fracv (c # cs)" using b by (simp add: fracv_Cons divide_strict_right_mono)
      then show ?thesis by auto
    qed
  qed
qed

section \<open>Magnitudes\<close>

text \<open>A core is the significant digits of a nonzero number, without leading and trailing zeros.\<close>

definition core_ok :: "bytes \<Rightarrow> bool" where
  "core_ok ds \<longleftrightarrow> digits ds \<and> ds \<noteq> [] \<and> hd ds \<noteq> 0x30 \<and> last ds \<noteq> 0x30"

definition mag :: "int \<Rightarrow> bytes \<Rightarrow> rat" where
  "mag adj core = fracv core * 10 powi adj"

lemma core_trimmed: "core_ok ds \<Longrightarrow> digits ds \<and> trimmed ds"
  by (simp add: core_ok_def trimmed_def)

lemma core_frac: "core_ok ds \<Longrightarrow> 1 / 10 \<le> fracv ds \<and> fracv ds < 1"
proof -
  assume c: "core_ok ds"
  then obtain d r where d: "ds = d # r" by (cases ds) (auto simp: core_ok_def)
  then have "isDigit d" "d \<noteq> 0x30" "digits r" using c by (auto simp: core_ok_def)
  then have "1 \<le> dval d" "0 \<le> fracv r" using dval_zero [of d] fracv_bounds [of r] by auto
  then have "1 \<le> (of_nat (dval d) + fracv r :: rat)" by (metis add_increasing2 of_nat_1 of_nat_le_iff)
  then show ?thesis using d fracv_bounds [of ds] c by (simp add: fracv_Cons core_ok_def)
qed

lemma mag_pos: "core_ok ds \<Longrightarrow> 0 < mag adj ds"
  using core_frac [of ds] by (simp add: mag_def zero_less_power_int)

lemma mag_less:
  assumes "core_ok c" "core_ok d" "a < b"
  shows "mag a c < mag b d"
proof -
  have "mag a c < 10 powi a" using core_frac [OF assms(1)] by (simp add: mag_def zero_less_power_int)
  also have "\<dots> \<le> 10 powi (b - 1)" using assms(3) by (intro power_int_increasing) auto
  also have "\<dots> = 1 / 10 * 10 powi b" by (simp add: power_int_diff)
  also have "\<dots> \<le> mag b d" unfolding mag_def using core_frac [OF assms(2)] by (intro mult_right_mono) auto
  finally show ?thesis .
qed

lemma mag_cases:
  assumes "core_ok c" "core_ok d" "mag a c < mag b d"
  shows "a < b \<or> a = b \<and> fracv c < fracv d"
proof (cases a b rule: linorder_cases)
  case equal
  have "0 < (10::rat) powi b" by (simp add: zero_less_power_int)
  then show ?thesis using equal assms(3) unfolding mag_def by (simp only: mult_less_cancel_right_pos) simp
next
  case greater
  then show ?thesis using mag_less [OF assms(2,1)] assms(3) by (meson order.asym)
qed simp

lemma mag_eq:
  assumes "core_ok c" "core_ok d" "mag a c = mag b d"
  shows "a = b \<and> c = d"
proof -
  have "a = b" using mag_less [OF assms(1,2), of a b] mag_less [OF assms(2,1), of b a] assms(3)
    by (cases a b rule: linorder_cases) auto
  moreover from this have "fracv c = fracv d" using assms(3) by (simp add: mag_def)
  ultimately show ?thesis using digit_code_order core_trimmed assms(1,2) by blast
qed

section \<open>Encoded magnitudes\<close>

definition int64_range :: "int \<Rightarrow> bool" where
  "int64_range e \<longleftrightarrow> minInt64 \<le> e \<and> e \<le> maxInt64"

definition exp_code :: "int \<Rightarrow> bytes" where
  "exp_code adj = be_bytes 8 ((word_of_int adj :: u64) XOR push_bit 63 1)"

definition neg_digit_code :: "bytes \<Rightarrow> bytes" where
  "neg_digit_code ds = map (\<lambda>c. 10 - (c - 0x30)) ds @ [11]"

lemma exp_code_order:
  "int64_range a \<Longrightarrow> int64_range b \<Longrightarrow> sless (exp_code a) (exp_code b) \<longleftrightarrow> a < b"
  "int64_range a \<Longrightarrow> int64_range b \<Longrightarrow> exp_code a = exp_code b \<longleftrightarrow> a = b"
  by (simp_all only: exp_code_def be_bytes8_order biased_order int64_range_def)

lemma pos_order:
  assumes "core_ok c" "core_ok d" "int64_range a" "int64_range b" "mag a c < mag b d"
  shows "sless (exp_code a @ digit_code c) (exp_code b @ digit_code d)"
proof (cases "a = b")
  case True
  then have "fracv c < fracv d" using mag_cases [OF assms(1,2,5)] by simp
  then show ?thesis using True digit_code_order core_trimmed [OF assms(1)] core_trimmed [OF assms(2)] by simp
next
  case False
  then have "a < b" using mag_cases [OF assms(1,2,5)] by simp
  then show ?thesis using exp_code_order(1) [OF assms(3,4)] by (simp add: sless_append)
qed

lemma neg_digit_code_map: "digits ds \<Longrightarrow> neg_digit_code ds = map (\<lambda>b. 11 - b) (digit_code ds)"
  by (simp add: neg_digit_code_def digit_code_def algebra_simps)

lemma digit_code_le: "digits ds \<Longrightarrow> set (digit_code ds) \<subseteq> {..11}"
  using digit_code_byte dval_digit by (fastforce simp: digit_code_def digits_def word_le_nat_alt)

lemma neg_digit_code_order:
  assumes "core_ok c" "core_ok d" "fracv c < fracv d"
  shows "sless (neg_digit_code d) (neg_digit_code c)"
proof -
  have s: "sless (digit_code c) (digit_code d)"
    using digit_code_order core_trimmed [OF assms(1)] core_trimmed [OF assms(2)] assms(3) by blast
  have dg: "digits c" "digits d" using assms by (auto simp: core_ok_def)
  have u: "unat (11 - x) = 11 - unat x" if "x \<le> 11" for x :: byte using that by (simp add: unat_sub)
  have "sless (map (\<lambda>b. 11 - b) (digit_code d)) (map (\<lambda>b. 11 - b) (digit_code c)) = sless (digit_code c) (digit_code d)"
    by (rule sless_map_antitone [OF _ _ digit_code_le [OF dg(2)] digit_code_le [OF dg(1)]])
      (auto simp: word_less_nat_alt word_unat_eq_iff u word_le_nat_alt)
  then show ?thesis using s dg by (simp add: neg_digit_code_map)
qed

lemma neg_order:
  assumes "core_ok c" "core_ok d" "int64_range a" "int64_range b" "mag a c < mag b d"
  shows "sless (invert (exp_code b) @ neg_digit_code d) (invert (exp_code a) @ neg_digit_code c)"
proof (cases "a = b")
  case True
  then have "fracv c < fracv d" using mag_cases [OF assms(1,2,5)] by simp
  then show ?thesis using True neg_digit_code_order [OF assms(1,2)] by simp
next
  case False
  then have "a < b" using mag_cases [OF assms(1,2,5)] by simp
  then show ?thesis using exp_code_order(1) [OF assms(3,4)] by (simp add: sless_append sless_invert)
qed

section \<open>The component of a value\<close>

text \<open>\<open>num_component v k\<close>: \<open>k\<close> is the ascending component of the rational \<open>v\<close>.\<close>

definition num_component :: "rat \<Rightarrow> bytes \<Rightarrow> bool" where
  "num_component v k \<longleftrightarrow>
     v = 0 \<and> k = [tagNumber, tagNumberZero] \<or>
     (\<exists>adj core. core_ok core \<and> int64_range adj \<and>
        (v = mag adj core \<and> k = [tagNumber, tagNumberPositive] @ exp_code adj @ digit_code core \<or>
         v = - mag adj core \<and> k = [tagNumber, tagNumberNegative] @ invert (exp_code adj) @ neg_digit_code core))"

lemmas tags = tagNull_def tagFalse_def tagTrue_def tagNumber_def tagNumberNegative_def tagNumberZero_def
  tagNumberPositive_def tagString_def

lemma num_component_cases:
  assumes "num_component v k"
  obtains (zero) "v = 0" "k = [tagNumber, tagNumberZero]"
  | (pos) adj core where "core_ok core" "int64_range adj" "0 < v" "v = mag adj core"
      "k = [tagNumber, tagNumberPositive] @ exp_code adj @ digit_code core"
  | (neg) adj core where "core_ok core" "int64_range adj" "v < 0" "v = - mag adj core"
      "k = [tagNumber, tagNumberNegative] @ invert (exp_code adj) @ neg_digit_code core"
  using assms mag_pos unfolding num_component_def by (metis neg_less_0_iff_less)

lemma num_component_order:
  assumes k: "num_component v k" and l: "num_component w l" and lt: "v < w"
  shows "sless k l"
  using k
proof (cases rule: num_component_cases)
  case zero
  from l show ?thesis by (cases rule: num_component_cases) (use zero lt in \<open>auto simp: tags\<close>)
next
  case (pos a c)
  from l show ?thesis by (cases rule: num_component_cases) (use pos lt in \<open>auto simp: pos_order\<close>)
next
  case (neg a c)
  from l show ?thesis by (cases rule: num_component_cases) (use neg lt in \<open>auto simp: tags neg_order\<close>)
qed

lemma num_component_unique:
  assumes k: "num_component v k" and l: "num_component v l"
  shows "k = l"
  using k
proof (cases rule: num_component_cases)
  case zero
  from l show ?thesis by (cases rule: num_component_cases) (use zero in auto)
next
  case p: (pos a c)
  from l show ?thesis
  proof (cases rule: num_component_cases)
    case (pos b d)
    then show ?thesis using p mag_eq [OF p(1) pos(1), of a b] by simp
  qed (use p in auto)
next
  case p: (neg a c)
  from l show ?thesis
  proof (cases rule: num_component_cases)
    case (neg b d)
    then show ?thesis using p mag_eq [OF p(1) neg(1), of a b] by simp
  qed (use p in auto)
qed

end
