(* ===== verification/OrderedKeyCorrect.thy ===== *)
theory OrderedKeyCorrect
  imports OrderedKeyNumbers
begin

unbundle bit_operations_syntax

text \<open>
  The code of the key encoders against the component relation: what the loops of \<^verbatim>\<open>numberParts\<close> and
  \<^verbatim>\<open>AppendNumber\<close> compute, and the properties of all encoders.
\<close>

section \<open>The value of a number text\<close>

definition exp_val :: "bytes \<Rightarrow> int" where
  "exp_val x =
     (case x of
        e # c # ds \<Rightarrow> if c = 0x2D then - int (dec ds) else if c = 0x2B then int (dec ds) else int (dec (c # ds))
      | _ \<Rightarrow> 0)"

definition number_parts :: "bytes \<Rightarrow> bytes \<Rightarrow> bytes \<Rightarrow> bytes \<Rightarrow> bytes \<Rightarrow> bool" where
  "number_parts t sg n f x \<longleftrightarrow> t = sg @ n @ f @ x \<and> (sg = [] \<or> sg = [0x2D]) \<and>
     int_text n \<and> frac_text f \<and> exp_text x"

definition number_val :: "bytes \<Rightarrow> rat \<Rightarrow> bool" where
  "number_val t v \<longleftrightarrow> (\<exists>sg n f x. number_parts t sg n f x \<and>
     v = (if sg = [] then 1 else - 1) * of_nat (dec (n @ tl f)) * 10 powi (exp_val x - int (length (tl f))))"

section \<open>Significant digits\<close>

definition zeros :: "bytes \<Rightarrow> bool" where
  "zeros zs \<longleftrightarrow> (\<forall>c \<in> set zs. c = 0x30)"

lemma strip_zeros:
  assumes "digits ds"
  shows "zeros ds \<or> (\<exists>zs core zs'. ds = zs @ core @ zs' \<and> zeros zs \<and> zeros zs' \<and> core_ok core)"
proof (cases "zeros ds")
  case False
  let ?P = "\<lambda>c. c = (0x30 :: byte)"
  define r where "r = dropWhile ?P ds"
  define core where "core = rev (dropWhile ?P (rev r))"
  have ds: "ds = takeWhile ?P ds @ r" by (simp add: r_def)
  have r: "r = core @ rev (takeWhile ?P (rev r))"
    unfolding core_def by (metis rev_append rev_rev_ident takeWhile_dropWhile_id)
  have rne: "r \<noteq> []" "hd r \<noteq> 0x30"
    using False hd_dropWhile [of ?P ds] by (auto simp: r_def zeros_def dropWhile_eq_Nil_conv)
  then have "\<exists>c \<in> set (rev r). \<not> ?P c" by (metis hd_in_set set_rev)
  then have cne: "core \<noteq> []" "last core \<noteq> 0x30"
    using hd_dropWhile [of ?P "rev r"] by (auto simp: core_def dropWhile_eq_Nil_conv last_rev)
  have "hd core \<noteq> 0x30" using rne r cne(1) by (metis hd_append2)
  moreover have "digits core" using assms ds r by (metis digits_append)
  ultimately have "core_ok core" using cne by (simp add: core_ok_def)
  moreover have "zeros (takeWhile ?P ds)" "zeros (rev (takeWhile ?P (rev r)))"
    by (auto simp: zeros_def dest: set_takeWhileD)
  ultimately show ?thesis using ds r by metis
qed simp

lemma digitSpan_append:
  "digitSpan (a @ b) i f l = (case digitSpan a i f l of (i', f', l') \<Rightarrow> digitSpan b i' f' l')"
  by (induction a i f l rule: digitSpan.induct) auto

lemma digitSpan_zeros: "zeros zs \<Longrightarrow> digitSpan (zs @ r) i f l = digitSpan r (i + int (length zs)) f l"
  by (induction zs arbitrary: i) (auto simp: zeros_def add_ac)

lemma digitSpan_last:
  "ds \<noteq> [] \<Longrightarrow> last ds \<noteq> 0x30 \<Longrightarrow> 0 \<le> f \<Longrightarrow>
   digitSpan ds i f l = (i + int (length ds), f, i + int (length ds) - 1)"
proof (induction ds arbitrary: i l)
  case (Cons c cs)
  then show ?case by (cases "cs = []") auto
qed simp

lemma digitSpan_core:
  assumes "core_ok core" "0 \<le> i"
  shows "digitSpan core i (-1) l = (i + int (length core), i, i + int (length core) - 1)"
proof -
  obtain c cs where c: "core = c # cs" using assms(1) by (cases core) (auto simp: core_ok_def)
  then show ?thesis
    using assms digitSpan_last [of cs i "i + 1" i] by (cases "cs = []") (auto simp: core_ok_def)
qed

lemma digitSpan_digits:
  "zeros ds \<Longrightarrow> digitSpan ds 0 (-1) (-1) = (int (length ds), -1, -1)"
  "zeros zs \<Longrightarrow> zeros zs' \<Longrightarrow> core_ok core \<Longrightarrow>
   digitSpan (zs @ core @ zs') 0 (-1) (-1) =
     (int (length (zs @ core @ zs')), int (length zs), int (length zs) + int (length core) - 1)"
  using digitSpan_zeros [of ds "[]" 0 "-1" "-1"] digitSpan_zeros [of zs' "[]"]
  by (auto simp: digitSpan_zeros digitSpan_append [of core] digitSpan_core)

section \<open>Emitted digits\<close>

lemma digit_test: "(c < 0x30 \<or> c > 0x39) \<longleftrightarrow> \<not> isDigit c" for c :: byte
  by (auto simp: isDigit_def)

lemma emit_in:
  "digits ds \<Longrightarrow> f \<le> i \<Longrightarrow> i + int (length ds) \<le> l + 1 \<Longrightarrow>
   emitDigits neg f l (ds @ r) i =
     map (\<lambda>c. if neg then 10 - (c - 0x30) else (c - 0x30) + 1) ds @ emitDigits neg f l r (i + int (length ds))"
  by (induction ds arbitrary: i) (auto simp: digit_test add_ac)

lemma emit_out:
  "digits ds \<Longrightarrow> i + int (length ds) \<le> f \<or> l < i \<Longrightarrow>
   emitDigits neg f l (ds @ r) i = emitDigits neg f l r (i + int (length ds))"
  by (induction ds arbitrary: i) (auto simp: digit_test add_ac)

lemma emit_skip: "\<not> isDigit b \<Longrightarrow> b \<noteq> 0x65 \<Longrightarrow> b \<noteq> 0x45 \<Longrightarrow> digits ds \<Longrightarrow>
   emitDigits neg f l (ds @ b # r) i = emitDigits neg f l (ds @ r) i"
  by (induction ds arbitrary: i) (auto simp: digit_test)

lemma emit_exp: "exp_text x \<Longrightarrow> emitDigits neg f l x i = []"
  by (auto simp: exp_text_def digit_test isDigit_def)

lemma zeros_digits: "zeros zs \<Longrightarrow> digits zs"
  by (auto simp: zeros_def digits_def isDigit_def)

lemma emit_number:
  assumes "number_parts t sg n f x" "n @ tl f = zs @ core @ zs'" "zeros zs" "zeros zs'" "core_ok core"
  shows "emitDigits neg (int (length zs)) (int (length zs) + int (length core) - 1) t 0 =
     map (\<lambda>c. if neg then 10 - (c - 0x30) else (c - 0x30) + 1) core"
proof -
  let ?e = "emitDigits neg (int (length zs)) (int (length zs) + int (length core) - 1)"
  have t: "t = sg @ n @ f @ x" and sg: "sg = [] \<or> sg = [0x2D]" and n: "digits n" and x: "exp_text x"
    using assms(1) int_text_hd isOneNine_isDigit by (auto simp: number_parts_def int_text_def isDigit_def)
  have f: "f = [] \<or> (\<exists>fd. f = 0x2E # fd \<and> digits fd)" using assms(1) by (auto simp: number_parts_def frac_text_def)
  have "?e t 0 = ?e (n @ f @ x) 0"
    using sg t emit_skip [of "0x2D" "[]"] by (auto simp: isDigit_def)
  also have "\<dots> = ?e ((n @ tl f) @ x) 0"
    using f emit_skip [of "0x2E" n] n by (auto simp: isDigit_def)
  also have "\<dots> = ?e (zs @ core @ zs' @ x) 0" by (simp add: assms(2))
  also have "\<dots> = map (\<lambda>c. if neg then 10 - (c - 0x30) else (c - 0x30) + 1) core"
    using assms(3-5) emit_exp [OF x]
    by (simp add: emit_out [OF zeros_digits] emit_in core_ok_def)
  finally show ?thesis .
qed

section \<open>Geometry\<close>

lemma exponentValue_dec:
  "digits ds \<Longrightarrow> exponentValue ds e = Some v \<Longrightarrow> v = e * 10 ^ length ds + int (dec ds)"
proof (induction ds arbitrary: e)
  case (Cons c cs)
  have d: "unat (c - 0x30) = dval c"
    using Cons.prems(1) by (simp add: isDigit_def dval_def unat_sub)
  have "exponentValue cs (e * 10 + int (dval c)) = Some v"
    using Cons.prems(2) by (simp add: Let_def d split: if_splits)
  from Cons.IH [OF _ this] Cons.prems(1) show ?case by (simp add: algebra_simps)
qed simp

lemma exponentValue_range:
  "digits ds \<Longrightarrow> exponentValue ds e = Some v \<Longrightarrow> 0 \<le> e \<Longrightarrow> e \<le> maxInt64 \<Longrightarrow> 0 \<le> v \<and> v \<le> maxInt64"
proof (induction ds arbitrary: e)
  case (Cons c cs)
  let ?d = "int (unat (c - 0x30))"
  have d: "0 \<le> ?d" by simp
  have e: "e \<le> (maxInt64 - ?d) div 10" "exponentValue cs (e * 10 + ?d) = Some v"
    using Cons.prems(2) by (auto simp: Let_def split: if_splits)
  have "e * 10 + ?d \<le> maxInt64" using e(1) by linarith
  then show ?case using Cons.IH [OF _ e(2)] Cons.prems d by simp
qed simp

lemma scanDigits_at:
  "JsonText.at src i (ds @ rest) \<Longrightarrow> digits ds \<Longrightarrow> rest = [] \<or> \<not> isDigit (hd rest) \<Longrightarrow> scanDigits src i = i + length ds"
  by (rule scanDigits_complete)

lemma int_text_digits: "int_text n \<Longrightarrow> digits n \<and> n \<noteq> []"
  using isOneNine_isDigit by (auto simp: int_text_def isDigit_def)

lemma numberParts_split:
  assumes p: "number_parts t sg n f x" and v: "keyValidNumber t"
  shows "numberParts t = (case digitSpan (n @ tl f) 0 (-1) (-1) of (di, fi, la) \<Rightarrow>
      if x = [] then Some \<lparr>g_negative = (sg \<noteq> []), g_integerDigits = int (length n), g_first = fi, g_last = la, g_exponent = 0\<rparr>
      else (let i = length sg + length n + length f + 1; signed = t ! i = 0x2B \<or> t ! i = 0x2D;
               exponentNegative = signed \<and> t ! i = 0x2D; i = (if signed then i + 1 else i)
           in case exponentValue (drop i t) 0 of None \<Rightarrow> None
              | Some e \<Rightarrow> Some \<lparr>g_negative = (sg \<noteq> []), g_integerDigits = int (length n), g_first = fi, g_last = la,
                  g_exponent = (if exponentNegative then - e else e)\<rparr>))"
proof -
  have t: "t = sg @ n @ f @ x" and sg: "sg = [] \<or> sg = [0x2D]" and x: "exp_text x"
    and n: "digits n" "n \<noteq> []" and hn: "hd n \<noteq> 0x2D"
    using p int_text_digits int_text_hd by (auto simp: number_parts_def)
  have f: "f = [] \<or> (\<exists>fd. f = 0x2E # fd \<and> fd \<noteq> [] \<and> digits fd)" using p by (auto simp: number_parts_def frac_text_def)
  have xh: "x = [] \<or> \<not> isDigit (hd x) \<and> hd x \<noteq> 0x2E" using x by (auto simp: exp_text_def isDigit_def)
  have fh: "f @ x = [] \<or> \<not> isDigit (hd (f @ x))" using f xh by (auto simp: isDigit_def)
  let ?s = "length sg"
  have neg: "(t ! 0 = 0x2D) \<longleftrightarrow> sg \<noteq> []"
    using t sg n(2) hn by (cases n) auto
  have start: "(if t ! 0 = 0x2D then 1 else 0) = ?s" using neg sg by auto
  have at0: "JsonText.at t ?s (n @ f @ x)" using t by (simp add: JsonText.at_def)
  have i: "scanDigits t ?s = ?s + length n" by (rule scanDigits_at [OF at0 n(1) fh])
  have nseg: "take (length n) (drop ?s t) = n" using t by simp
  have at1: "JsonText.at t (?s + length n) (f @ x)" using at_append [OF at0] .
  have dot: "(?s + length n < length t \<and> t ! (?s + length n) = 0x2E) \<longleftrightarrow> f \<noteq> []"
  proof (cases f)
    case Nil
    then show ?thesis using at1 xh by (cases x) (auto simp: at_Nil dest: at_Cons)
  next
    case (Cons c cs)
    then show ?thesis using at1 f by (auto dest: at_Cons)
  qed
  have fe: "(if ?s + length n < length t \<and> t ! (?s + length n) = 0x2E then scanDigits t (?s + length n + 1)
      else ?s + length n) = ?s + length n + length f"
  proof (cases "f = []")
    case True
    then show ?thesis using dot by auto
  next
    case False
    then obtain fd where fd: "f = 0x2E # fd" "digits fd" using f by auto
    have "JsonText.at t (Suc (?s + length n)) (fd @ x)" using at1 fd at_Cons [of t "?s + length n" "0x2E" "fd @ x"] by simp
    then have "scanDigits t (Suc (?s + length n)) = Suc (?s + length n) + length fd"
      using scanDigits_at fd(2) xh by blast
    then show ?thesis using dot False fd by simp
  qed
  have fseg: "take (length (tl f)) (drop (?s + length n + 1) t) = tl f" if "f \<noteq> []"
    using t that by (cases f) auto
  define sp where "sp = digitSpan (n @ tl f) 0 (-1) (-1)"
  have span: "(case digitSpan n 0 (-1) (-1) of (di, fi, la) \<Rightarrow>
      if f \<noteq> [] then digitSpan (tl f) di fi la else (di, fi, la)) = sp"
    by (auto simp: sp_def digitSpan_append split: prod.split)
  have "numberParts t = (case sp of (di, fi, la) \<Rightarrow>
      if x = [] then Some \<lparr>g_negative = (sg \<noteq> []), g_integerDigits = int (length n), g_first = fi, g_last = la, g_exponent = 0\<rparr>
      else (let i = length sg + length n + length f + 1; signed = t ! i = 0x2B \<or> t ! i = 0x2D;
               exponentNegative = signed \<and> t ! i = 0x2D; i = (if signed then i + 1 else i)
           in case exponentValue (drop i t) 0 of None \<Rightarrow> None
              | Some e \<Rightarrow> Some \<lparr>g_negative = (sg \<noteq> []), g_integerDigits = int (length n), g_first = fi, g_last = la,
                  g_exponent = (if exponentNegative then - e else e)\<rparr>))"
  proof -
    have fl: "length (tl f) = length f - 1" by simp
    have xl: "(?s + length n + length f = length t) \<longleftrightarrow> x = []" using t by auto
    obtain d1 f1 l1 where s1: "digitSpan n 0 (-1) (-1) = (d1, f1, l1)" by (metis prod_cases3)
    have nl: "?s + length n - ?s = length n" "?s + length n + length f - (?s + length n + 1) = length (tl f)" by auto
    have sp: "sp = (if f \<noteq> [] then digitSpan (tl f) d1 f1 l1 else (d1, f1, l1))" using span s1 by simp
    have start': "(if sg \<noteq> [] then 1 else 0) = ?s" using sg by auto
    show ?thesis
    proof (cases "f = []")
      case True
      have xl': "(?s + length n = length t) \<longleftrightarrow> x = []" using xl True by simp
      show ?thesis
        by (simp only: numberParts_def v Let_def neg start' i nl nseg s1 sp dot xl' True not_True_eq_False
            simp_thms if_True if_False prod.case list.size add_0_right)
    next
      case False
      have fe': "scanDigits t (?s + length n + 1) = ?s + length n + length f" using fe dot False by simp
      show ?thesis
        by (simp only: numberParts_def v Let_def neg start' i fe' nl nseg s1 sp dot xl False fseg [OF False] not_True_eq_False
            simp_thms if_True if_False prod.case)
    qed
  qed
  then show ?thesis unfolding sp_def .
qed

text \<open>The sign and the digits of an exponent.\<close>

definition exp_digits :: "bytes \<Rightarrow> bytes" where
  "exp_digits x = (case x of e # c # ds \<Rightarrow> if c = 0x2B \<or> c = 0x2D then ds else c # ds | _ \<Rightarrow> [])"

definition exp_negative :: "bytes \<Rightarrow> bool" where
  "exp_negative x = (case x of e # c # ds \<Rightarrow> c = 0x2D | _ \<Rightarrow> False)"

lemma exp_digits_ok: "exp_text x \<Longrightarrow> digits (exp_digits x)"
  by (auto simp: exp_text_def exp_digits_def split: list.splits)

lemma exp_val_digits: "exp_val x = (if exp_negative x then - int (dec (exp_digits x)) else int (dec (exp_digits x)))"
  by (auto simp: exp_val_def exp_negative_def exp_digits_def split: list.splits)

lemma numberParts_eq:
  assumes p: "number_parts t sg n f x" and v: "keyValidNumber t"
  shows "numberParts t = (case digitSpan (n @ tl f) 0 (-1) (-1) of (di, fi, la) \<Rightarrow>
     map_option (\<lambda>e. \<lparr>g_negative = (sg \<noteq> []), g_integerDigits = int (length n), g_first = fi, g_last = la,
        g_exponent = (if exp_negative x then - e else e)\<rparr>) (exponentValue (exp_digits x) 0))"
proof (cases "x = []")
  case True
  then show ?thesis using numberParts_split [OF assms] by (simp add: exp_digits_def split: prod.split)
next
  case False
  have t: "t = sg @ n @ f @ x" and x: "exp_text x" using p by (auto simp: number_parts_def)
  obtain e sgn ds where xs: "x = e # sgn @ ds" "sgn = [] \<or> sgn = [0x2B] \<or> sgn = [0x2D]" "ds \<noteq> []" "digits ds"
      using x False by (auto simp: exp_text_def)
    have hds: "isDigit (hd ds)" using xs by (cases ds) auto
    let ?i = "length sg + length n + length f + 1"
    have drp: "drop ?i t = sgn @ ds" using t xs(1) by simp
    have il: "?i < length t" using t xs by simp
    have ti: "t ! ?i = hd (sgn @ ds)" using hd_drop_conv_nth [OF il] drp by simp
    have sgd: "(t ! ?i = 0x2B \<or> t ! ?i = 0x2D) \<longleftrightarrow> sgn \<noteq> []" "t ! ?i = 0x2D \<longleftrightarrow> sgn = [0x2D]"
      using ti xs(2,3) hds by (auto simp: isDigit_def)
    have dd: "drop (if t ! ?i = 0x2B \<or> t ! ?i = 0x2D then ?i + 1 else ?i) t = ds"
    proof (cases "sgn = []")
      case False
      then obtain c where "sgn = [c]" using xs(2) by auto
      then have "drop (Suc ?i) t = ds" using drp drop_Suc [of ?i t] by (metis append_Cons append_Nil drop_tl list.sel(3) tl_drop)
      then show ?thesis using sgd(1) False by simp
    qed (use sgd drp in auto)
    have ed: "exp_digits x = ds" "exp_negative x = (sgn = [0x2D])"
      using xs hds by (cases ds; auto simp: exp_digits_def exp_negative_def isDigit_def)+
    show ?thesis
      unfolding numberParts_split [OF assms] Let_def dd ed using False sgd
      by (auto split: prod.split option.split)
qed

lemma numberParts_geometry:
  assumes p: "number_parts t sg n f x" and g: "numberParts t = Some g"
  shows "g_negative g = (sg \<noteq> [])" "g_integerDigits g = int (length n)" "g_exponent g = exp_val x"
    "\<exists>i. digitSpan (n @ tl f) 0 (-1) (-1) = (i, g_first g, g_last g)"
    "- maxInt64 \<le> g_exponent g \<and> g_exponent g \<le> maxInt64"
proof -
  have v: "keyValidNumber t" using g by (auto simp: numberParts_def split: if_splits)
  have d: "digits (exp_digits x)" using p exp_digits_ok by (auto simp: number_parts_def)
  obtain e where e: "exponentValue (exp_digits x) 0 = Some e" "g_exponent g = (if exp_negative x then - e else e)"
    "g_negative g = (sg \<noteq> [])" "g_integerDigits g = int (length n)"
    "\<exists>i. digitSpan (n @ tl f) 0 (-1) (-1) = (i, g_first g, g_last g)"
    using g unfolding numberParts_eq [OF p v] by (auto split: prod.splits)
  have "e = int (dec (exp_digits x))" "0 \<le> e \<and> e \<le> maxInt64"
    using exponentValue_dec [OF d e(1)] exponentValue_range [OF d e(1)] by (auto simp: maxInt64_def)
  then show "g_negative g = (sg \<noteq> [])" "g_integerDigits g = int (length n)" "g_exponent g = exp_val x"
    "\<exists>i. digitSpan (n @ tl f) 0 (-1) (-1) = (i, g_first g, g_last g)"
    "- maxInt64 \<le> g_exponent g \<and> g_exponent g \<le> maxInt64"
    using e by (auto simp: exp_val_digits)
qed

lemma exponentValue_some:
  "digits ds \<Longrightarrow> 0 \<le> e \<Longrightarrow> e * 10 ^ length ds + int (dec ds) \<le> maxInt64 \<Longrightarrow> \<exists>v. exponentValue ds e = Some v"
proof (induction ds arbitrary: e)
  case (Cons c cs)
  have d: "unat (c - 0x30) = dval c"
    using Cons.prems(1) by (simp add: isDigit_def dval_def unat_sub)
  let ?e = "e * 10 + int (dval c)"
  have le: "?e * 10 ^ length cs + int (dec cs) \<le> maxInt64" using Cons.prems(3) by (simp add: algebra_simps)
  have "?e * 1 \<le> ?e * 10 ^ length cs" using Cons.prems(2) by (intro mult_left_mono) auto
  moreover have "0 \<le> int (dec cs)" by simp
  ultimately have "?e \<le> maxInt64" using le unfolding mult_1_right by (meson add_increasing2 order_trans)
  then have "\<not> e > (maxInt64 - int (dval c)) div 10" by linarith
  then show ?case using Cons.IH [OF _ _ le] Cons.prems by (simp add: Let_def d)
qed simp

end
