(* ===== verification/OrderedKeyProps.thy ===== *)
theory OrderedKeyProps
  imports OrderedKeyCorrect
begin

unbundle bit_operations_syntax

text \<open>
  The properties of the key encoders: numbers sort by value, strings by their bytes and free of
  prefixes, prefix bounds are exact.
\<close>

section \<open>Numbers\<close>

lemma powi_split: "(10::rat) powi (a + int n) = 10 powi a * 10 ^ n"
  by (simp add: power_int_add)

lemma number_mag:
  assumes "n @ m = zs @ core @ zs'" "zeros zs" "zeros zs'"
  shows "of_nat (dec (n @ m)) * 10 powi (e - int (length m)) = mag (e + (int (length n) - int (length zs))) core"
proof -
  have d: "dec (n @ m) = dec core * 10 ^ length zs'"
    using assms by (simp add: dec_append dec_zeros zeros_def)
  have l: "length n + length m = length zs + length core + length zs'" using assms(1) by (metis length_append add.assoc)
  have x: "e + (int (length n) - int (length zs)) = (e - int (length m) + int (length zs')) + int (length core)"
    using l by linarith
  have p: "(10::rat) ^ length core \<noteq> 0" by simp
  show ?thesis unfolding d mag_def fracv_def x powi_split by simp
qed

lemma AppendNumber_form:
  assumes nv: "number_val t v" and len: "int (length t) \<le> maxInt64" and ap: "AppendNumber dst t d = (k, True)"
  shows "\<exists>c. num_component v c \<and> k = dst @ invertDescending c d"
proof -
  obtain sg n f x where p: "number_parts t sg n f x"
    and v: "v = (if sg = [] then 1 else - 1) * of_nat (dec (n @ tl f)) * 10 powi (exp_val x - int (length (tl f)))"
    using nv by (auto simp: number_val_def)
  obtain g where g: "numberParts t = Some g" using ap by (auto simp: AppendNumber_def split: if_splits option.splits)
  note geo = numberParts_geometry [OF p g]
  have dg: "digits (n @ tl f)"
    using p int_text_digits by (auto simp: number_parts_def frac_text_def)
  have lt: "length n \<le> length t" "length (n @ tl f) \<le> length t" using p by (auto simp: number_parts_def)
  show ?thesis
  proof (cases "zeros (n @ tl f)")
    case True
    then have "g_first g < 0" "v = 0" using geo(4) digitSpan_digits(1) [OF True] v
      by (auto simp: dec_zeros zeros_def)
    then show ?thesis using ap g by (auto simp: AppendNumber_def num_component_def split: if_splits)
  next
    case False
    then obtain zs core zs' where c: "n @ tl f = zs @ core @ zs'" "zeros zs" "zeros zs'" "core_ok core"
      using strip_zeros [OF dg] by auto
    have fl: "g_first g = int (length zs)" "g_last g = int (length zs) + int (length core) - 1"
      using geo(4) digitSpan_digits(2) [OF c(2-4)] c(1) by auto
    have zl: "length zs \<le> length t" using lt(2) c(1) by simp
    define delta where "delta = int (length n) - int (length zs)"
    define adj where "adj = exp_val x + delta"
    have ok: "\<not> (exp_val x > 0 \<and> delta > maxInt64 - exp_val x \<or> exp_val x < 0 \<and> delta < minInt64 - exp_val x)"
      using ap g fl by (auto simp: AppendNumber_def delta_def geo Let_def split: if_splits)
    have rng: "int64_range adj"
      using ok geo(5) len lt zl unfolding int64_range_def adj_def delta_def geo(3) maxInt64_def minInt64_def by linarith
    have m: "v = (if sg = [] then 1 else - 1) * mag adj core"
      using number_mag [OF c(1-3), of "exp_val x"] unfolding v adj_def delta_def by simp
    have e: "emitDigits (sg \<noteq> []) (g_first g) (g_last g) t 0 =
        map (\<lambda>c. if sg \<noteq> [] then 10 - (c - 0x30) else (c - 0x30) + 1) core"
      unfolding fl by (rule emit_number [OF p c])
    have k: "k = dst @ invertDescending ([tagNumber, if sg \<noteq> [] then tagNumberNegative else tagNumberPositive] @
        (if sg \<noteq> [] then invert (exp_code adj) else exp_code adj) @
        (if sg \<noteq> [] then neg_digit_code core else digit_code core)) d"
      using ap g ok fl e unfolding AppendNumber_def
      by (auto simp: geo Let_def adj_def delta_def exp_code_def digit_code_def neg_digit_code_def split: if_splits)
    have "num_component v ([tagNumber, if sg \<noteq> [] then tagNumberNegative else tagNumberPositive] @
        (if sg \<noteq> [] then invert (exp_code adj) else exp_code adj) @
        (if sg \<noteq> [] then neg_digit_code core else digit_code core))"
      unfolding num_component_def using c(4) rng m by (cases "sg = []") auto
    then show ?thesis using k by blast
  qed
qed

lemma scanDigits_stuck: "scanDigits src i = i \<longleftrightarrow> \<not> (i < length src \<and> isDigit (src ! i))"
proof
  assume "scanDigits src i = i"
  then show "\<not> (i < length src \<and> isDigit (src ! i))" using scanDigits_nonempty [of i src] by auto
qed (subst scanDigits.simps, auto)

lemma scanDigits_step: "i < length src \<Longrightarrow> isDigit (src ! i) \<Longrightarrow> scanDigits src i = scanDigits src (Suc i)"
  by (subst scanDigits.simps) simp

lemma keyExponent_scan: "keyExponent t i = (case scanExponent t i of (e, m) \<Rightarrow> if m = None then Some e else None)"
  by (auto simp: keyExponent_def scanExponent_def Let_def scanDigits_stuck)

lemma keyFraction_scan:
  "(case keyFraction t i of None \<Rightarrow> None | Some j \<Rightarrow> keyExponent t j) =
   (case scanFraction t i of (e, m) \<Rightarrow> if m = None then Some e else None)"
  by (cases "i < length t \<and> t ! i = 0x2E"; cases "Suc i < length t \<and> isDigit (t ! Suc i)")
    (simp_all add: keyFraction_def scanFraction_def Let_def scanDigits_stuck keyExponent_scan not_le, blast+)

lemma isDigit_neq: "isDigit c \<Longrightarrow> c \<noteq> 0x2E \<and> c \<noteq> 0x65 \<and> c \<noteq> 0x45 \<and> c \<noteq> 0x2D"
  by (intro conjI notI) (simp_all add: isDigit_def)

lemma scanFraction_digit: "isDigit (t ! i) \<Longrightarrow> scanFraction t i = (i, None)"
  using isDigit_neq [of "t ! i"] by (simp add: scanFraction_def scanExponent_def)

lemma keyInteger_scan:
  assumes "i < length t"
  shows "(case keyInteger t i of None \<Rightarrow> False | Some i \<Rightarrow>
      (case keyFraction t i of None \<Rightarrow> False | Some i \<Rightarrow>
        (case keyExponent t i of None \<Rightarrow> False | Some i \<Rightarrow> i = length t))) \<longleftrightarrow>
    scanInteger t i = (length t, None)"
proof -
  have tail: "(case keyFraction t j of None \<Rightarrow> False | Some i \<Rightarrow>
        (case keyExponent t i of None \<Rightarrow> False | Some i \<Rightarrow> i = length t)) \<longleftrightarrow> scanFraction t j = (length t, None)" for j
    using keyFraction_scan [of t j] by (auto split: option.splits prod.splits if_splits)
  have ki: "keyInteger t i = (if t ! i = 0x30 then if i + 1 < length t \<and> isDigit (t ! (i + 1)) then None else Some (i + 1)
      else if isOneNine (t ! i) then Some (scanDigits t (i + 1)) else None)"
    using scanDigits_step [OF assms] isOneNine_isDigit [of "t ! i"]
    by (auto simp: keyInteger_def Let_def isDigit_def isOneNine_def)
  show ?thesis unfolding ki scanInteger_def using tail scanFraction_digit [of t "i + 1"] by auto
qed

lemma keyValidNumber_scan: "keyValidNumber t \<longleftrightarrow> scanNumber t 0 = (length t, None)"
  using keyInteger_scan [of 0 t] keyInteger_scan [of 1 t]
  by (cases t) (auto simp: keyValidNumber_def scanNumber_def Let_def)

lemma scanNumber_whole: "scanNumber t 0 = (length t, None) \<longleftrightarrow> number_text t"
  using scanNumber_sound [of t 0 "length t"] scanNumber_complete [of t 0 t "[]"]
  by (auto simp: segment_def JsonText.at_def number_end_def)

text \<open>The number check in front of every key accepts exactly the JSON number grammar.\<close>

theorem keyValidNumber_correct: "keyValidNumber t \<longleftrightarrow> number_text t"
  using keyValidNumber_scan scanNumber_whole by blast

lemma exp_text_one: "isDigit c \<Longrightarrow> exp_text [0x65, c]"
  unfolding exp_text_def by (rule disjI2, rule exI [of _ "0x65"], rule exI [of _ "[]"], rule exI [of _ "[c]"]) simp

text \<open>Every JSON number shorter than 2^62 bytes whose exponent is below 2^62 in absolute value is accepted in both directions.\<close>

theorem AppendNumber_accepts:
  assumes p: "number_parts t sg n f x" and d: "d = Ascending \<or> d = Descending"
    and e: "\<bar>exp_val x\<bar> < 2 ^ 62" and len: "length t < 2 ^ 62"
  shows "\<exists>k. AppendNumber dst t d = (k, True)"
proof -
  have "number_text t" using p by (auto simp: number_parts_def number_text_def)
  then have v: "keyValidNumber t" using keyValidNumber_scan scanNumber_whole by blast
  have "int (dec (exp_digits x)) \<le> maxInt64" using e by (auto simp: exp_val_digits maxInt64_def split: if_splits)
  then obtain ev where ev: "exponentValue (exp_digits x) 0 = Some ev"
    using exponentValue_some [of "exp_digits x" 0] exp_digits_ok p by (auto simp: number_parts_def)
  obtain di fi la where sp: "digitSpan (n @ tl f) 0 (-1) (-1) = (di, fi, la)" by (metis prod_cases3)
  obtain g where g: "numberParts t = Some g" using numberParts_eq [OF p v] ev sp by auto
  note geo = numberParts_geometry [OF p g]
  have dg: "digits (n @ tl f)" using p int_text_digits by (auto simp: number_parts_def frac_text_def)
  have fl: "g_first g < 0 \<or> 0 \<le> g_first g \<and> g_first g \<le> int (length (n @ tl f))"
    using strip_zeros [OF dg]
  proof (elim disjE exE conjE)
    fix zs core zs' assume "n @ tl f = zs @ core @ zs'" "zeros zs" "zeros zs'" "core_ok core"
    then show ?thesis using digitSpan_digits(2) [of zs zs' core] geo(4) by auto
  qed (use digitSpan_digits(1) geo(4) in auto)
  have "length (n @ tl f) \<le> length t" using p by (auto simp: number_parts_def)
  then have "g_first g < 0 \<or> 0 \<le> g_first g \<and> g_first g \<le> int (length t)" using fl by linarith
  moreover have "length n \<le> length t" using p by (auto simp: number_parts_def)
  moreover have "d \<le> Descending" using d by (auto simp: Ascending_def Descending_def)
  moreover have "int (length t) < 2 ^ 62" using len by simp
  ultimately show ?thesis
    using g e by (auto simp: AppendNumber_def Let_def geo maxInt64_def minInt64_def abs_less_iff not_less)
qed

theorem AppendNumber_accepts_witness:
  "(\<exists>k. AppendNumber [7] (ascii ''-1.50e3'') Descending = (k, True))"
proof -
  have p: "number_parts (ascii ''-1.50e3'') [0x2D] [0x31] [0x2E, 0x35, 0x30] [0x65, 0x33]"
    using exp_text_one [of "0x33"]
    by (auto simp: number_parts_def int_text_def isOneNine_def frac_text_def isDigit_def)
  show ?thesis by (rule AppendNumber_accepts [OF p]) (simp_all add: exp_val_def dval_def)
qed

section \<open>Strings\<close>

definition esc :: "bytes \<Rightarrow> bytes" where
  "esc s = concat (map (\<lambda>b. if b = 0 then [0, 0xFF] else [b]) s)"

lemma foldl_appendStringByte: "foldl appendStringByte dst s = dst @ esc s"
  by (induction s arbitrary: dst) (auto simp: esc_def appendStringByte_def)

lemma esc_order: "bytes_less s t \<Longrightarrow> sless (esc s @ [0, 0]) (esc t @ [0, 0])"
proof (induction s t rule: bytes_less.induct)
  case (2 b bs)
  then show ?case by (auto simp: esc_def word_neq_0_conv)
next
  case (3 a as b bs)
  then show ?case by (auto simp: esc_def word_neq_0_conv)
qed simp

section \<open>Tuples of scalars\<close>

text \<open>The values a key component stands for and their order: null, then the Booleans, then numbers
  by value, then strings by their bytes.\<close>

datatype key_value = VNull | VBool bool | VNumber rat | VString bytes

fun val_less :: "key_value \<Rightarrow> key_value \<Rightarrow> bool" where
  "val_less VNull w = (w \<noteq> VNull)"
| "val_less (VBool b) w = (case w of VNull \<Rightarrow> False | VBool c \<Rightarrow> \<not> b \<and> c | _ \<Rightarrow> True)"
| "val_less (VNumber x) w = (case w of VNumber y \<Rightarrow> x < y | VString _ \<Rightarrow> True | _ \<Rightarrow> False)"
| "val_less (VString s) w = (case w of VString t \<Rightarrow> bytes_less s t | _ \<Rightarrow> False)"

fun val_component :: "key_value \<Rightarrow> bytes \<Rightarrow> bool" where
  "val_component VNull c = (c = [tagNull])"
| "val_component (VBool b) c = (c = [if b then tagTrue else tagFalse])"
| "val_component (VNumber v) c = num_component v c"
| "val_component (VString s) c = (c = tagString # esc s @ [0, 0])"

lemma num_component_tag: "num_component v c \<Longrightarrow> \<exists>r. c = tagNumber # r"
  by (auto simp: num_component_def)

lemma val_component_order: "val_component v c \<Longrightarrow> val_component w e \<Longrightarrow> val_less v w \<Longrightarrow> sless c e"
  by (cases v; cases w)
    (auto simp: tags num_component_order esc_order dest!: num_component_tag split: if_splits)

lemma val_component_unique: "val_component v c \<Longrightarrow> val_component v e \<Longrightarrow> c = e"
  by (cases v) (auto intro: num_component_unique)

text \<open>A key part is one call of an encoder; a composite key is a sequence of such calls.\<close>

datatype key_part = PNull | PBool bool | PNumber bytes | PString bytes

fun appendPart :: "bytes \<Rightarrow> key_part \<Rightarrow> Direction \<Rightarrow> bytes \<times> bool" where
  "appendPart dst PNull d = AppendNull dst d"
| "appendPart dst (PBool b) d = AppendBool dst b d"
| "appendPart dst (PNumber t) d = AppendNumber dst t d"
| "appendPart dst (PString s) d = AppendString dst s d"

fun part_value :: "key_part \<Rightarrow> key_value \<Rightarrow> bool" where
  "part_value PNull v = (v = VNull)"
| "part_value (PBool b) v = (v = VBool b)"
| "part_value (PNumber t) v = (int (length t) \<le> maxInt64 \<and> (\<exists>x. number_val t x \<and> v = VNumber x))"
| "part_value (PString s) v = (v = VString s)"

lemma appendPart_form:
  "part_value p v \<Longrightarrow> appendPart dst p d = (k, True) \<Longrightarrow> \<exists>c. val_component v c \<and> k = dst @ invertDescending c d"
  by (cases p)
    (auto simp: AppendNull_def AppendBool_def AppendString_def foldl_appendStringByte
      dest: AppendNumber_form split: if_splits)

fun appendTuple :: "bytes \<Rightarrow> (key_part \<times> Direction) list \<Rightarrow> bytes \<times> bool" where
  "appendTuple dst [] = (dst, True)"
| "appendTuple dst ((p, d) # ps) =
     (case appendPart dst p d of (k, ok) \<Rightarrow> if ok then appendTuple k ps else (dst, False))"

fun tuple_less :: "Direction list \<Rightarrow> key_value list \<Rightarrow> key_value list \<Rightarrow> bool" where
  "tuple_less (d # ds) (v # vs) (w # us) =
     (if v = w then tuple_less ds vs us else if d = Descending then val_less w v else val_less v w)"
| "tuple_less _ _ _ = False"

lemma appendTuple_extends:
  "list_all2 part_value ps vs \<Longrightarrow> appendTuple a (zip ps ds) = (k, True) \<Longrightarrow> \<exists>r. k = a @ r"
proof (induction ps vs arbitrary: a ds rule: list_all2_induct)
  case (Cons p ps v vs)
  show ?case
  proof (cases ds)
    case Nil
    then show ?thesis using Cons.prems by simp
  next
    case (Cons d ds')
    obtain m where m: "appendPart a p d = (m, True)" "appendTuple m (zip ps ds') = (k, True)"
      using Cons.prems Cons by (auto split: prod.splits if_splits)
    then show ?thesis using appendPart_form [OF Cons.hyps(1) m(1)] Cons.IH [OF m(2)] by auto
  qed
qed simp

lemma appendTuple_cons:
  assumes "part_value p v" "list_all2 part_value ps vs" "appendTuple a (zip (p # ps) (d # ds)) = (k, True)"
  obtains c r where "val_component v c" "k = a @ invertDescending c d @ r"
    "appendTuple (a @ invertDescending c d) (zip ps ds) = (k, True)"
proof -
  obtain m where m: "appendPart a p d = (m, True)" "appendTuple m (zip ps ds) = (k, True)"
    using assms(3) by (auto split: prod.splits if_splits)
  obtain c where c: "val_component v c" "m = a @ invertDescending c d"
    using appendPart_form [OF assms(1) m(1)] by auto
  show thesis using that [OF c(1)] appendTuple_extends [OF assms(2) m(2)] c(2) m(2) by auto
qed

lemma appendTuple_order:
  "list_all2 part_value ps vs \<Longrightarrow> list_all2 part_value qs us \<Longrightarrow>
   length ps = length ds \<Longrightarrow> length qs = length ds \<Longrightarrow>
   appendTuple a (zip ps ds) = (k, True) \<Longrightarrow> appendTuple a (zip qs ds) = (l, True) \<Longrightarrow>
   (vs = us \<longrightarrow> k = l) \<and> (tuple_less ds vs us \<longrightarrow> sless k l)"
proof (induction ds arbitrary: ps qs vs us a)
  case (Cons d ds)
  obtain p ps' v vs' where p: "ps = p # ps'" "vs = v # vs'" "part_value p v" "list_all2 part_value ps' vs'"
    using Cons.prems(1,3) by (cases ps; cases vs) auto
  obtain q qs' u us' where q: "qs = q # qs'" "us = u # us'" "part_value q u" "list_all2 part_value qs' us'"
    using Cons.prems(2,4) by (cases qs; cases us) auto
  obtain c r where c: "val_component v c" "k = a @ invertDescending c d @ r"
    "appendTuple (a @ invertDescending c d) (zip ps' ds) = (k, True)"
    using appendTuple_cons [OF p(3,4)] Cons.prems(5) p(1) by blast
  obtain e s where e: "val_component u e" "l = a @ invertDescending e d @ s"
    "appendTuple (a @ invertDescending e d) (zip qs' ds) = (l, True)"
    using appendTuple_cons [OF q(3,4)] Cons.prems(6) q(1) by blast
  show ?case
  proof (cases "v = u")
    case True
    then have "c = e" using val_component_unique c(1) e(1) by blast
    then show ?thesis using Cons.IH [OF p(4) q(4)] c(3) e(3) p q True Cons.prems(3,4) by simp
  next
    case False
    have lt: "val_less v u \<Longrightarrow> sless c e" "val_less u v \<Longrightarrow> sless e c"
      using val_component_order c(1) e(1) by blast+
    have "tuple_less (d # ds) vs us \<Longrightarrow> sless (invertDescending c d @ r) (invertDescending e d @ s)"
      using False p q lt sless_direction [of c e d] sless_direction [of e c d] by (auto intro!: sless_append split: if_splits)
    then show ?thesis using False p q c(2) e(2) by simp
  qed
qed simp

section \<open>JSON string literals\<close>

lemma decodeHexDigits_nibble:
  "isHex b \<Longrightarrow> decodeHexDigits (b # bs) v = decodeHexDigits bs (push_bit 4 v OR ucast (hexNibbleTable b))"
proof -
  have u: "ucast (x + 10 :: byte) = (ucast x + 10 :: u16)" if "x < 0x10" for x :: byte
    using that by (simp add: word_unat_eq_iff unat_ucast_up unat_word_ariths word_less_nat_alt)
  assume h: "isHex b"
  consider "0x30 \<le> b" "b \<le> 0x39" | "0x61 \<le> b" "b \<le> 0x66" | "0x41 \<le> b" "b \<le> 0x46"
    using h by (auto simp: isHex_def)
  then show ?thesis
  proof cases
    case 2
    then have "b - 0x61 < 0x10" by (simp add: word_le_nat_alt word_less_nat_alt unat_sub)
    from u [OF this] show ?thesis using 2 by (simp add: hexNibbleTable_def word_le_nat_alt)
  next
    case 3
    then have "b - 0x41 < 0x10" by (simp add: word_le_nat_alt word_less_nat_alt unat_sub)
    from u [OF this] show ?thesis using 3 by (simp add: hexNibbleTable_def word_le_nat_alt)
  qed (simp add: hexNibbleTable_def)
qed

lemma decodeHex4_quad:
  assumes "hex_quad h" "JsonText.at raw i (h @ r)" "r \<noteq> []"
  shows "\<exists>v. decodeHex4 raw i = Some (v, i + 4) \<and> unat v = hexnum h"
proof -
  obtain a b c d where h: "h = [a, b, c, d]" "isHex a" "isHex b" "isHex c" "isHex d"
    using assms(1) by (auto simp: hex_quad_def numeral_eq_Suc length_Suc_conv)
  have len: "length raw = i + 4 + length r" "take 4 (drop i raw) = h"
    using assms(2) h(1) at_length [OF assms(2)] by (auto simp: JsonText.at_def)
  have "decodeHexDigits h 0 = Some (push_bit 12 (ucast (hexNibbleTable a)) OR push_bit 8 (ucast (hexNibbleTable b))
      OR push_bit 4 (ucast (hexNibbleTable c)) OR ucast (hexNibbleTable d))"
    unfolding h(1) by (simp only: decodeHexDigits_nibble h decodeHexDigits.simps(1))
      (simp add: push_bit_or or.assoc)
  moreover have "unat (push_bit 12 (ucast (hexNibbleTable a)) OR push_bit 8 (ucast (hexNibbleTable b))
      OR push_bit 4 (ucast (hexNibbleTable c)) OR ucast (hexNibbleTable d) :: u16) = hexnum h"
    using h by (simp add: nibbles_value isHex_nibble)
  ultimately show ?thesis using len assms(3) by (cases r) (auto simp: decodeHex4_def)
qed

lemma keyString_plain:
  "\<forall>b \<in> set s. \<not> is_syntax_byte b \<Longrightarrow> JsonText.at raw i (s @ r) \<Longrightarrow> r \<noteq> [] \<Longrightarrow>
   keyStringFrom raw i dst = keyStringFrom raw (i + length s) (dst @ esc s)"
proof (induction s arbitrary: i dst)
  case (Cons b bs)
  have a: "i < length raw" "raw ! i = b" "JsonText.at raw (Suc i) (bs @ r)" using at_Cons [of raw i b "bs @ r"] Cons.prems(2) by auto
  have l: "i < length raw - 1" using at_length [OF a(3)] Cons.prems(3) by (cases r) auto
  have s: "\<not> (b < 0x20 \<or> b = 0x22)" "b \<noteq> 0x5C" using Cons.prems(1) by (auto simp: is_syntax_byte_def)
  have "keyStringFrom raw i dst = keyStringFrom raw (Suc i) (appendStringByte dst b)"
    using a s l by (subst keyStringFrom.simps) simp
  then show ?case using Cons.IH [OF _ a(3) Cons.prems(3)] Cons.prems(1) by (simp add: appendStringByte_def esc_def)
qed (simp add: esc_def)

lemma keyString_escape:
  assumes "JsonText.at raw i (0x5C # c # r)" "r \<noteq> []" "keyEscape raw (Suc i) = Some (bs, j)"
  shows "keyStringFrom raw i dst = keyStringFrom raw j (dst @ esc bs)"
  using assms at_length [OF assms(1)] at_Cons [OF assms(1)]
  by (cases r; subst keyStringFrom.simps) (auto simp: foldl_appendStringByte)

lemma esc_append: "esc (a @ b) = esc a @ esc b" "esc (b' # c) = esc [b'] @ esc c" by (simp_all add: esc_def)

lemma keyString_complete:
  "string_text body rs \<Longrightarrow> JsonText.at raw i (body @ [0x22]) \<Longrightarrow>
   keyStringFrom raw i dst = Some (dst @ esc (concat (map encodeRune rs)))"
proof (induction arbitrary: i dst rule: string_text.induct)
  case empty
  then have "length raw = Suc i" using at_length by fastforce
  then show ?case by (subst keyStringFrom.simps) (simp add: esc_def)
next
  case (plain r t rs)
  have "keyStringFrom raw i dst = keyStringFrom raw (i + length (encodeRune r)) (dst @ esc (encodeRune r))"
    by (rule keyString_plain [OF encodeRune_no_syntax [OF plain.hyps(1-4)]]) (use plain.prems in auto)
  then show ?case using plain.IH [OF at_append] plain.prems by (simp add: esc_append(1))
next
  case (escape c d t rs)
  have a: "JsonText.at raw i (0x5C # c # t @ [0x22])" using escape.prems by simp
  note a1 = at_Cons [OF a] and a2 = at_Cons [OF at_Cons [OF a, THEN conjunct2, THEN conjunct2]]
  have "keyEscape raw (Suc i) = Some ([d], i + 2)" "d < 0x80"
    using escape.hyps(1) a2 by (auto simp: simple_escape_def keyEscape_def split: if_splits)
  then show ?case using keyString_escape [OF a, of "[d]" "i + 2"] escape.IH [of "i + 2"] a2
    by (simp add: encodeRune_ascii esc_append(2) [of d "concat _"])
next
  case (unicode h t rs)
  have a: "JsonText.at raw i (0x5C # 0x75 # h @ t @ [0x22])" using unicode.prems by simp
  have a2: "raw ! Suc i = 0x75" "JsonText.at raw (i + 2) (h @ t @ [0x22])"
    using at_Cons [OF a] at_Cons [of raw "Suc i" "0x75"] by auto
  obtain v where v: "decodeHex4 raw (i + 2) = Some (v, i + 6)" "unat v = hexnum h"
    using decodeHex4_quad [OF unicode.hyps(1) a2(2)] by auto
  have "keyEscape raw (Suc i) = Some (encodeRune (hexnum h), i + 6)"
    using a2(1) v unicode.hyps(2) by (auto simp: keyEscape_def is_surrogate_def word_le_nat_alt)
  moreover have "JsonText.at raw (i + 6) (t @ [0x22])"
    using at_append [OF a2(2)] unicode.hyps(1) by (simp add: hex_quad_def add.commute)
  ultimately show ?case using keyString_escape [OF a, of "encodeRune (hexnum h)" "i + 6"] unicode.IH
    by (simp add: esc_append(1))
next
  case (surrogates h l t rs)
  have a: "JsonText.at raw i (0x5C # 0x75 # h @ 0x5C # 0x75 # l @ t @ [0x22])" using surrogates.prems by simp
  have a2: "raw ! Suc i = 0x75" "JsonText.at raw (i + 2) (h @ 0x5C # 0x75 # l @ t @ [0x22])"
    using at_Cons [OF a] at_Cons [of raw "Suc i" "0x75"] by auto
  have "JsonText.at raw (i + 6) (0x5C # 0x75 # l @ t @ [0x22])"
    using at_append [OF a2(2)] surrogates.hyps(1) by (simp add: hex_quad_def add.commute)
  note a6 = at_Cons [OF this]
  note a7 = at_Cons [OF a6 [THEN conjunct2, THEN conjunct2]]
  have a8: "JsonText.at raw (i + 8) (l @ t @ [0x22])" using a7 by (simp add: add.commute)
  obtain v where v: "decodeHex4 raw (i + 2) = Some (v, i + 6)" "unat v = hexnum h"
    using decodeHex4_quad [OF surrogates.hyps(1) a2(2)] by auto
  obtain w where w: "decodeHex4 raw (i + 8) = Some (w, i + 12)" "unat w = hexnum l"
    using decodeHex4_quad [OF surrogates.hyps(2) a8] by (auto simp: add.assoc)
  have w': "decodeHex4 raw (8 + i) = Some (w, i + 12)" using w(1) by (simp add: add.commute)
  have len: "i + 8 < length raw" using at_length [OF a8] surrogates.hyps(2) by (simp add: hex_quad_def)
  have "keyEscape raw (Suc i) = Some (encodeRune (utf16_decode (hexnum h) (hexnum l)), i + 12)"
    using a2(1) v w(2) w' surrogates.hyps(3-6) a6 a7 len by (auto simp: keyEscape_def word_le_nat_alt word_less_nat_alt)
  moreover have "JsonText.at raw (i + 12) (t @ [0x22])"
    using at_append [OF a8] surrogates.hyps(2) by (simp add: hex_quad_def add.commute)
  ultimately show ?case
    using keyString_escape [OF a, of "encodeRune (utf16_decode (hexnum h) (hexnum l))" "i + 12"] surrogates.IH
    by (simp add: esc_append(1))
qed

lemma string_text_scalar: "string_text body rs \<Longrightarrow> \<forall>r \<in> set rs. is_scalar r"
proof (induction rule: string_text.induct)
  case (escape c d t rs)
  then have "d < 0x80" by (auto simp: simple_escape_def split: if_splits)
  then show ?case using escape by (auto simp: is_scalar_def is_surrogate_def word_less_nat_alt)
next
  case (unicode h t rs)
  then have "hexnum h < 65536" using decodeHex4_quad [of h "h @ [0]" 0 "[0]"] unsigned_less [where ?'a = nat and ?'b = 16]
    by (auto simp: JsonText.at_def) (metis)
  then show ?case using unicode by (auto simp: is_scalar_def)
next
  case (surrogates h l t rs)
  then show ?case using utf16_decode_scalar by auto
qed auto

lemma decoded_utf8: "string_text body rs \<Longrightarrow> utf8_valid (concat (map encodeRune rs))"
proof (drule string_text_scalar, induction rs)
  case Nil
  show ?case by (simp add: utf8_valid.simps)
qed (auto simp: utf8_valid_encode)

lemma utf8_ascii: "\<forall>b \<in> set s. b < 0x80 \<Longrightarrow> utf8_valid u \<Longrightarrow> utf8_valid (s @ u)"
proof (induction s)
  case (Cons b s)
  then have "is_scalar (unat b)" by (auto simp: is_scalar_def is_surrogate_def word_less_nat_alt)
  then show ?case using utf8_valid_encode [of "unat b"] Cons by (simp add: encodeRune_ascii)
qed simp

lemma hex_quad_ascii: "hex_quad h \<Longrightarrow> \<forall>b \<in> set h. b < 0x80"
  by (auto simp: hex_quad_def isHex_def word_le_nat_alt word_less_nat_alt)

lemma body_utf8: "string_text body rs \<Longrightarrow> utf8_valid u \<Longrightarrow> utf8_valid (body @ u)"
proof (induction rule: string_text.induct)
  case (escape c d t rs)
  then have "c < 0x80" by (auto simp: simple_escape_def split: if_splits)
  then show ?case using escape utf8_ascii [of "[0x5C, c]"] by simp
next
  case (unicode h t rs)
  then show ?case using utf8_ascii [of "[0x5C, 0x75] @ h"] hex_quad_ascii by simp
next
  case (surrogates h l t rs)
  then show ?case using utf8_ascii [of "[0x5C, 0x75] @ h @ [0x5C, 0x75] @ l"] hex_quad_ascii by auto
qed (simp_all add: utf8_valid_encode)

lemma literal_utf8: "string_text body rs \<Longrightarrow> utf8_valid (0x22 # body @ [0x22])"
proof -
  assume "string_text body rs"
  moreover have "utf8_valid [0x22]" using utf8_ascii [of "[0x22]" "[]"] by (simp add: utf8_valid.simps)
  ultimately have "utf8_valid (body @ [0x22])" by (rule body_utf8)
  then show ?thesis using utf8_ascii [of "[0x22]" "body @ [0x22]"] by simp
qed

text \<open>A valid JSON string literal gets the key of the text it denotes: escapes, surrogate pairs included, are decoded on the way, so equal texts have equal keys whatever their spelling.\<close>

theorem AppendJSONString_decodes:
  assumes "string_text body rs"
  shows "AppendJSONString dst (0x22 # body @ [0x22]) d = AppendString dst (concat (map encodeRune rs)) d"
proof -
  let ?raw = "0x22 # body @ [0x22]"
  have u: "utf8_valid ?raw" "utf8_valid (concat (map encodeRune rs))"
    using literal_utf8 [OF assms] decoded_utf8 [OF assms] by auto
  have k: "keyStringFrom ?raw 1 [tagString] = Some ([tagString] @ esc (concat (map encodeRune rs)))"
    by (rule keyString_complete [OF assms]) (simp add: JsonText.at_def)
  have last: "?raw ! (length ?raw - 1) = 0x22" by (simp add: nth_append)
  show ?thesis
    unfolding AppendJSONString_def AppendString_def k last using u by (simp add: foldl_appendStringByte)
qed

theorem AppendJSONString_decodes_witness:
  "AppendJSONString [] ([0x22, 0x5C, 0x75, 0x30, 0x30, 0x34, 0x31, 0x5C, 0x6E, 0x22]) Ascending = AppendString [] [0x41, 0x0A] Ascending \<and>
   AppendString [] [0x41, 0x0A] Ascending = ([0x40, 0x41, 0x0A, 0, 0], True)"
proof -
  have "string_text [0x5C, 0x6E] [0x0A]" using string_text.escape [OF _ string_text.empty, of "0x6E" "0x0A"]
    by (simp add: simple_escape_def)
  then have "string_text (0x5C # 0x75 # ascii ''0041'' @ [0x5C, 0x6E]) (hexnum (ascii ''0041'') # [0x0A])"
    by (intro string_text.unicode)
      (simp_all add: hex_quad_def isHex_def hexval_def is_surrogate_def)
  from AppendJSONString_decodes [OF this, of "[]" Ascending]
  show ?thesis
    by (simp add: hexval_def encodeRune_def encodeScalar_def is_scalar_def is_surrogate_def AppendString_def
        Ascending_def Descending_def appendStringByte_def tagString_def invertDescending_def utf8_valid.simps
        decodeRune.simps RuneError_def)
qed

section \<open>Prefix bounds\<close>

lemma bumpLast_append:
  "bumpLast (xs @ ys) = (case bumpLast xs of Some r \<Rightarrow> Some (r @ ys) | None \<Rightarrow> bumpLast ys)"
  by (induction xs) auto

lemma bumpLast_Cons:
  "map_option rev (bumpLast (rev (b # bs))) =
     (case map_option rev (bumpLast (rev bs)) of Some r \<Rightarrow> Some (b # r) | None \<Rightarrow> if b \<noteq> 0xFF then Some [b + 1] else None)"
  by (auto simp: bumpLast_append split: option.split)

lemma byte_top: "b \<le> 0xFF" "b \<noteq> 0xFF \<Longrightarrow> c < b + 1 \<longleftrightarrow> c \<le> b" for b c :: byte
proof -
  have m: "(0xFF :: byte) = - 1" by simp
  show "b \<le> 0xFF" unfolding m by (rule word_order.extremum)
  assume "b \<noteq> 0xFF"
  then have "unat b \<noteq> 255" by (auto simp: word_unat_eq_iff)
  then have "unat b + 1 < 256" using unsigned_less [of b, where ?'a = nat] by simp
  then have "unat (b + 1) = unat b + 1" by (simp add: unat_word_ariths)
  then show "c < b + 1 \<longleftrightarrow> c \<le> b" by (simp add: word_less_nat_alt word_le_nat_alt less_Suc_eq_le)
qed

lemma prefix_end_bound:
  "(case map_option rev (bumpLast (rev p)) of None \<Rightarrow> (\<forall>k. (\<exists>r. k = p @ r) \<longleftrightarrow> \<not> bytes_less k p)
    | Some e \<Rightarrow> (\<forall>k. (\<exists>r. k = p @ r) \<longleftrightarrow> \<not> bytes_less k p \<and> bytes_less k e))"
proof (induction p)
  case (Cons b bs)
  have pre: "(\<exists>r. k = (b # bs) @ r) \<longleftrightarrow> (case k of [] \<Rightarrow> False | c # cs \<Rightarrow> c = b \<and> (\<exists>r. cs = bs @ r))" for k
    by (cases k) auto
  have less: "bytes_less k (b # bs) \<longleftrightarrow> (case k of [] \<Rightarrow> True | c # cs \<Rightarrow> c < b \<or> c = b \<and> bytes_less cs bs)" for k
    by (cases k) auto
  show ?case
  proof (cases "map_option rev (bumpLast (rev bs))")
    case None
    have ih: "(\<exists>r. k = bs @ r) \<longleftrightarrow> \<not> bytes_less k bs" for k using Cons unfolding None option.case by blast
    have n: "map_option rev (bumpLast (rev (b # bs))) = (if b \<noteq> 0xFF then Some [b + 1] else None)"
      unfolding bumpLast_Cons None by simp
    have top: "\<not> c < b \<and> c < b + 1 \<longleftrightarrow> c = b" if "b \<noteq> 0xFF" for c using byte_top(2) [OF that, of c] by auto
    have top': "c < b \<or> c = b" if "b = 0xFF" for c using byte_top(1) [of c] that by auto
    show ?thesis unfolding n pre less using ih top top' by (auto split: list.splits)
  next
    case (Some e)
    have ih: "(\<exists>r. k = bs @ r) \<longleftrightarrow> \<not> bytes_less k bs \<and> bytes_less k e" for k using Cons unfolding Some option.case by blast
    have n: "map_option rev (bumpLast (rev (b # bs))) = Some (b # e)" unfolding bumpLast_Cons Some by simp
    show ?thesis unfolding n pre less using ih by (auto split: list.splits)
  qed
qed simp

lemma bumpLast_None: "bumpLast p = None \<longleftrightarrow> (\<forall>b \<in> set p. b = 0xFF)"
  by (induction p) auto

text \<open>\<^verbatim>\<open>AppendPrefixEnd\<close> is the exclusive upper bound of a prefix scan: the keys that start with the prefix are exactly those not below it and below the bound; it refuses exactly the prefixes of \<^verbatim>\<open>0xff\<close> bytes, where every key not below the prefix starts with it.\<close>

theorem AppendPrefixEnd_bound:
  "(case AppendPrefixEnd dst pre of (out, ok) \<Rightarrow>
      ok = (\<exists>b \<in> set pre. b \<noteq> 0xFF) \<and>
      (\<exists>e. out = dst @ e \<and>
        (\<forall>k. (\<exists>r. k = pre @ r) = (\<not> bytes_less k pre \<and> (ok \<longrightarrow> bytes_less k e)))))"
proof (cases "bumpLast (rev pre)")
  case None
  have "\<forall>b \<in> set pre. b = 0xFF" using None bumpLast_None [of "rev pre"] by simp
  then show ?thesis using prefix_end_bound [of pre] None by (auto simp: AppendPrefixEnd_def)
next
  case (Some r)
  have "\<exists>b \<in> set pre. b \<noteq> 0xFF" using Some bumpLast_None [of "rev pre"] by auto
  then show ?thesis using prefix_end_bound [of pre] Some by (auto simp: AppendPrefixEnd_def)
qed

theorem AppendPrefixEnd_bound_witness:
  "AppendPrefixEnd [7] [1, 0xFF] = ([7, 2], True) \<and>
   (\<forall>k. (\<exists>r. k = [1, 0xFF] @ r) = (\<not> bytes_less k [1, 0xFF] \<and> bytes_less k [2]))"
proof -
  have "AppendPrefixEnd [7] [1, 0xFF] = ([7, 2], True)" by (simp add: AppendPrefixEnd_def)
  then show ?thesis using AppendPrefixEnd_bound [where dst = "[7]" and pre = "[1, 0xFF]"] by auto
qed

section \<open>Composite keys\<close>

text \<open>C35. Composite keys: two tuples of scalars encoded with the same directions compare, byte by byte and whatever follows them, as the tuples do component by component (null before Booleans before numbers by value before strings by their bytes, each component reversed when descending); tuples of equal values, such as the numbers \<^verbatim>\<open>10\<close> and \<^verbatim>\<open>1e1\<close>, have the same key.\<close>

theorem composite_key_order:
  assumes "list_all2 part_value ps vs" "list_all2 part_value qs us"
    and "length ps = length ds" "length qs = length ds"
    and "appendTuple a (zip ps ds) = (k, True)" "appendTuple a (zip qs ds) = (l, True)"
  shows "(vs = us \<longrightarrow> k = l) \<and> (tuple_less ds vs us \<longrightarrow> bytes_less (k @ x) (l @ y))"
  using appendTuple_order [OF assms] sless_append [of k l] sless_bytes_less by auto

theorem composite_key_order_witness:
  "bytes_less (fst (appendTuple [] [(PNumber (ascii ''9''), Ascending), (PString (ascii ''b''), Descending)]))
     (fst (appendTuple [] [(PNumber (ascii ''1e1''), Ascending), (PString (ascii ''c''), Descending)]))"
proof -
  have v: "number_val (ascii ''9'') 9"
    unfolding number_val_def number_parts_def
    by (rule exI [of _ "[]"], rule exI [of _ "[0x39]"], rule exI [of _ "[]"], rule exI [of _ "[]"])
      (auto simp: int_text_def isOneNine_def frac_text_def exp_text_def exp_val_def dval_def)
  have w: "number_val (ascii ''1e1'') 10"
    unfolding number_val_def number_parts_def
    by (rule exI [of _ "[]"], rule exI [of _ "[0x31]"], rule exI [of _ "[]"], rule exI [of _ "[0x65, 0x31]"])
      (use exp_text_one [of "0x31"] in \<open>auto simp: int_text_def isOneNine_def isDigit_def frac_text_def exp_val_def dval_def\<close>)
  let ?a = "appendTuple [] [(PNumber (ascii ''9''), Ascending), (PString (ascii ''b''), Descending)]"
  let ?b = "appendTuple [] [(PNumber (ascii ''1e1''), Ascending), (PString (ascii ''c''), Descending)]"
  have ok: "snd ?a" "snd ?b"
    by (simp_all add: AppendNumber_def numberParts_def keyValidNumber_def keyInteger_def keyFraction_def keyExponent_def
        scanDigits.simps isDigit_def Ascending_def Descending_def AppendString_def maxInt64_def utf8_valid.simps
        decodeRune.simps RuneError_def Let_def)
  show ?thesis
    using composite_key_order [of "[PNumber (ascii ''9''), PString (ascii ''b'')]" "[VNumber 9, VString (ascii ''b'')]"
        "[PNumber (ascii ''1e1''), PString (ascii ''c'')]" "[VNumber 10, VString (ascii ''c'')]"
        "[Ascending, Descending]" "[]" "fst ?a" "fst ?b" "[]" "[]"] v w ok
    by (simp add: maxInt64_def prod_eq_iff Ascending_def Descending_def)
qed

end
