(* ===== verification/NumberEqualWeights.thy ===== *)
theory NumberEqualWeights
  imports NumberEqual OrderedKeyProps
begin

text \<open>
  The weights of \<^verbatim>\<open>number_equal.go\<close>: the digit-string arithmetic of the cold path is exact, and two
  weight terms are equal exactly when the integers they stand for are.
\<close>

section \<open>Digit strings\<close>

lemma digit_unat: "isDigit c \<Longrightarrow> unat (c - 0x30) = dval c"
  by (simp add: isDigit_def dval_def unat_sub)

lemma digit_uint: "isDigit c \<Longrightarrow> uint (c - 0x30) = int (dval c)"
  using digit_unat [of c] by (metis of_nat_unat)

lemma decimalValue_dec: "digits ds \<Longrightarrow> decimalValue ds = int (dec ds)"
proof -
  have "digits ds \<Longrightarrow> foldl (\<lambda>e c. e * 10 + int (unat (c - 0x30))) e ds = e * 10 ^ length ds + int (dec ds)" for e
    by (induction ds arbitrary: e) (simp_all add: digit_uint algebra_simps)
  then show "digits ds \<Longrightarrow> ?thesis" by (simp add: decimalValue_def)
qed

lemma ucast_digit: "isDigit c \<Longrightarrow> (ucast (c - 0x30) :: u64) = of_nat (dval c)"
  by (simp add: word_unat_eq_iff unsigned_ucast_eq digit_unat unat_of_nat take_bit_eq_mod flip: digit_unat)

lemma decimalWord_dec: "digits ds \<Longrightarrow> decimalWord ds = of_nat (dec ds)"
proof -
  have "digits ds \<Longrightarrow> foldl (\<lambda>m c. m * 10 + ucast (c - 0x30)) m ds = m * 10 ^ length ds + (of_nat (dec ds) :: u64)" for m
    by (induction ds arbitrary: m) (simp_all add: ucast_digit algebra_simps)
  then show "digits ds \<Longrightarrow> ?thesis" by (simp add: decimalWord_def)
qed

definition canonical :: "bytes \<Rightarrow> bool" where
  "canonical ds \<longleftrightarrow> digits ds \<and> ds \<noteq> [] \<and> hd ds \<noteq> 0x30"

lemma canonical_lower: "canonical ds \<Longrightarrow> 10 ^ (length ds - 1) \<le> dec ds"
proof -
  assume c: "canonical ds"
  then obtain d r where d: "ds = d # r" "isDigit d" "d \<noteq> 0x30" by (cases ds) (auto simp: canonical_def)
  then have "1 \<le> dval d" using dval_zero [of d] by (cases "dval d") auto
  then have "1 * 10 ^ length r \<le> dval d * 10 ^ length r" by (rule mult_le_mono1)
  then show ?thesis using d by (simp add: trans_le_add1)
qed

lemma dec_inj: "digits a \<Longrightarrow> digits b \<Longrightarrow> length a = length b \<Longrightarrow> dec a = dec b \<Longrightarrow> a = b"
proof (induction a arbitrary: b)
  case (Cons c cs)
  obtain d ds where b: "b = d # ds" using Cons.prems(3) by (cases b) auto
  have l: "length ds = length cs" using Cons.prems(3) b by simp
  have lt: "dec cs < 10 ^ length cs" "dec ds < 10 ^ length cs" using dec_less [of cs] dec_less [of ds] Cons.prems(1,2) b l by auto
  have eq: "dval c * 10 ^ length cs + dec cs = dval d * 10 ^ length cs + dec ds" using Cons.prems(4) b l by simp
  have "dval c = dval d" using eq lt by (metis div_mult_self3 div_less add.right_neutral power_not_zero zero_neq_numeral add.commute)
  moreover from this have "dec cs = dec ds" using eq by simp
  ultimately show ?case using Cons.IH [of ds] Cons.prems b l dval_inj [of c d] by simp
qed simp

lemma canonical_inj:
  assumes "canonical a" "canonical b" "dec a = dec b"
  shows "a = b"
proof -
  have "length a = length b"
  proof (rule ccontr)
    assume "length a \<noteq> length b"
    have less: "dec x < dec y" if "length x < length y" "canonical x" "canonical y" for x y
    proof -
      have "dec x < 10 ^ length x" using dec_less that(2) by (simp add: canonical_def)
      also have "\<dots> \<le> 10 ^ (length y - 1)" using that(1) by (intro power_increasing) auto
      also have "\<dots> \<le> dec y" by (rule canonical_lower [OF that(3)])
      finally show ?thesis .
    qed
    from \<open>length a \<noteq> length b\<close> show False using less [of a b] less [of b a] assms by linarith
  qed
  then show ?thesis using dec_inj assms by (simp add: canonical_def)
qed

text \<open>The reversed digit strings of the loops, least significant digit first.\<close>

fun rdec :: "bytes \<Rightarrow> nat" where
  "rdec [] = 0"
| "rdec (c # cs) = dval c + 10 * rdec cs"

lemma rdec_rev: "rdec cs = dec (rev cs)"
  by (induction cs) (simp_all add: dec_append)

lemma digit_of: "k < 10 \<Longrightarrow> isDigit (ucast (0x30 + of_nat k :: u64)) \<and> dval (ucast (0x30 + of_nat k :: u64)) = k"
proof -
  assume k: "k < 10"
  then have "unat (ucast (0x30 + of_nat k :: u64) :: byte) = 0x30 + k"
    by (simp add: unsigned_ucast_eq unsigned_take_bit_eq unat_word_ariths unat_of_nat take_bit_nat_eq_self)
  then show ?thesis using k by (simp add: isDigit_def dval_def word_le_nat_alt)
qed

lemma unat_u64: "n < 18446744073709551616 \<Longrightarrow> unat (of_nat n :: u64) = n"
  by (simp add: unat_of_nat)

lemma u64_bound: "unat (u :: u64) < 18446744073709551616"
  using unsigned_less [of u, where 'a = nat] by simp

lemma word_of_unat: "(u :: u64) = of_nat (unat u)"
  by simp

lemma u64_div_mod: "u mod 10 = (of_nat (unat u mod 10) :: u64)" "u div 10 = (of_nat (unat u div 10) :: u64)"
  using le_less_trans [OF div_le_dividend u64_bound, of u 10] le_less_trans [OF mod_less_eq_dividend u64_bound, of u 10]
  by (simp_all add: word_unat_eq_iff unat_div unat_mod unat_of_nat)

lemma addFromLast_correct:
  "digits cs \<Longrightarrow> rdec cs + unat u < 10 ^ length cs \<Longrightarrow>
   digits (addFromLast cs u) \<and> length (addFromLast cs u) = length cs \<and> rdec (addFromLast cs u) = rdec cs + unat u"
proof (induction cs arbitrary: u)
  case (Cons c cs)
  define k where "k = unat u"
  define q r where "q = k div 10" "r = k mod 10"
  have k: "k = 10 * q + r" "r < 10" "k < 18446744073709551616" using u64_bound [of u] by (simp_all add: k_def q_r_def)
  have c: "isDigit c" "dval c \<le> 9" using Cons.prems(1) dval_digit by auto
  have b: "dval c + 10 * rdec cs + k < 10 * 10 ^ length cs" using Cons.prems(2) by (simp add: k_def)
  show ?case
  proof (cases "u = 0")
    case False
    have s: "ucast (c - 0x30) + u mod 10 = (of_nat (dval c + r) :: u64)" using c(1) by (simp add: ucast_digit u64_div_mod(1) q_r_def k_def)
    have d: "u div 10 = of_nat q" by (simp add: u64_div_mod(2) q_r_def k_def)
    have ge: "(10 :: u64) \<le> of_nat (dval c + r) \<longleftrightarrow> 10 \<le> dval c + r"
      using c(2) k(2) unat_u64 [of "dval c + r"] by (simp add: word_le_nat_alt)
    show ?thesis
    proof (cases "10 \<le> dval c + r")
      case True
      then have s': "(of_nat (dval c + r) - 10 :: u64) = of_nat (dval c + r - 10)" by (simp add: of_nat_diff)
      have u': "(of_nat q + 1 :: u64) = of_nat (q + 1)" by simp
      have q1: "unat (of_nat (q + 1) :: u64) = q + 1" using k by (intro unat_u64) linarith
      have "rdec cs + (q + 1) < 10 ^ length cs" using b k(1) True by linarith
      then have ih: "digits (addFromLast cs (of_nat (q + 1)))" "length (addFromLast cs (of_nat (q + 1))) = length cs"
        "rdec (addFromLast cs (of_nat (q + 1))) = rdec cs + (q + 1)"
        using Cons.IH [of "of_nat (q + 1)"] Cons.prems(1) unfolding q1 by auto
      have "addFromLast (c # cs) u = ucast (0x30 + of_nat (dval c + r - 10) :: u64) # addFromLast cs (of_nat (q + 1))"
        using False True by (simp only: addFromLast.simps Let_def s d ge s' u' if_True if_False prod.case)
      then show ?thesis using ih digit_of [of "dval c + r - 10"] c(2) k True by (simp add: k_def [symmetric])
    next
      case small: False
      have q1: "unat (of_nat q :: u64) = q" using k by (intro unat_u64) linarith
      have "rdec cs + q < 10 ^ length cs" using b k(1) by linarith
      then have ih: "digits (addFromLast cs (of_nat q))" "length (addFromLast cs (of_nat q)) = length cs"
        "rdec (addFromLast cs (of_nat q)) = rdec cs + q"
        using Cons.IH [of "of_nat q"] Cons.prems(1) unfolding q1 by auto
      have "addFromLast (c # cs) u = ucast (0x30 + of_nat (dval c + r) :: u64) # addFromLast cs (of_nat q)"
        using False small by (simp only: addFromLast.simps Let_def s d ge if_True if_False prod.case)
      then show ?thesis using ih digit_of [of "dval c + r"] small k by (simp add: k_def [symmetric])
    qed
  qed (use Cons.prems in simp)
qed simp

lemma subFromLast_correct:
  "digits cs \<Longrightarrow> unat u + b \<le> rdec cs \<Longrightarrow> b \<le> 1 \<Longrightarrow>
   digits (subFromLast cs u (of_nat b)) \<and> length (subFromLast cs u (of_nat b)) = length cs \<and>
   rdec (subFromLast cs u (of_nat b)) + unat u + b = rdec cs"
proof (induction cs arbitrary: u b)
  case (Cons c cs)
  define k where "k = unat u"
  define q r where "q = k div 10" "r = k mod 10"
  have k: "k = 10 * q + r" "r < 10" "k < 18446744073709551616" using u64_bound [of u] by (simp_all add: k_def q_r_def)
  have c: "isDigit c" "dval c \<le> 9" using Cons.prems(1) dval_digit by auto
  have bd: "k + b \<le> dval c + 10 * rdec cs" using Cons.prems(2) by (simp add: k_def)
  have q1: "unat (of_nat q :: u64) = q" using k by (intro unat_u64) linarith
  have zero: "u = 0 \<and> (of_nat b :: u64) = 0 \<longleftrightarrow> u = 0 \<and> b = 0" using Cons.prems(3) by (cases b) auto
  show ?case
  proof (cases "u = 0 \<and> b = 0")
    case False
    have s: "u mod 10 + of_nat b = (of_nat (r + b) :: u64)" by (simp add: u64_div_mod(1) q_r_def k_def)
    have d: "u div 10 = of_nat q" by (simp add: u64_div_mod(2) q_r_def k_def)
    have h: "(ucast (c - 0x30) :: u64) = of_nat (dval c)" using c(1) by (rule ucast_digit)
    have ge: "(of_nat (r + b) :: u64) \<le> of_nat (dval c) \<longleftrightarrow> r + b \<le> dval c"
      using c(2) k(2) Cons.prems(3) unat_u64 [of "r + b"] unat_u64 [of "dval c"] by (simp add: word_le_nat_alt)
    show ?thesis
    proof (cases "r + b \<le> dval c")
      case True
      have s': "(0x30 + of_nat (dval c) - of_nat (r + b) :: u64) = 0x30 + of_nat (dval c - (r + b))"
        using True by (simp add: of_nat_diff)
      have "q + 0 \<le> rdec cs" using bd k(1) True c(2) by linarith
      then have ih: "digits (subFromLast cs (of_nat q) 0)" "length (subFromLast cs (of_nat q) 0) = length cs"
        "rdec (subFromLast cs (of_nat q) 0) + q = rdec cs"
        using Cons.IH [of "of_nat q" 0] Cons.prems(1) unfolding q1 by auto
      have "subFromLast (c # cs) u (of_nat b) = ucast (0x30 + of_nat (dval c - (r + b)) :: u64) # subFromLast cs (of_nat q) 0"
        using False True by (simp only: subFromLast.simps zero Let_def s d h ge s' if_True if_False)
      then show ?thesis using ih digit_of [of "dval c - (r + b)"] c(2) k True by (simp add: k_def [symmetric])
    next
      case less: False
      have s': "(0x30 + of_nat (dval c) + 10 - of_nat (r + b) :: u64) = 0x30 + of_nat (dval c + 10 - (r + b))"
        using k(2) Cons.prems(3) by (simp add: of_nat_diff)
      have "q + 1 \<le> rdec cs" using bd k(1) less by linarith
      then have ih: "digits (subFromLast cs (of_nat q) 1)" "length (subFromLast cs (of_nat q) 1) = length cs"
        "rdec (subFromLast cs (of_nat q) 1) + q + 1 = rdec cs"
        using Cons.IH [of "of_nat q" 1] Cons.prems(1) unfolding q1 by auto
      have "subFromLast (c # cs) u (of_nat b) = ucast (0x30 + of_nat (dval c + 10 - (r + b)) :: u64) # subFromLast cs (of_nat q) 1"
        using False less by (simp only: subFromLast.simps zero Let_def s d h ge s' if_True if_False)
      then show ?thesis using ih digit_of [of "dval c + 10 - (r + b)"] k less Cons.prems(3) by (simp add: k_def [symmetric])
    qed
  qed (use Cons.prems in \<open>simp\<close>)
qed simp

lemma digits_rev [simp]: "digits (rev ds) = digits ds"
  by (simp add: digits_def)

lemma decDigitsAdd_correct:
  assumes "canonical ds" "20 \<le> length ds"
  shows "canonical (decDigitsAddUint64 ds u) \<and> dec (decDigitsAddUint64 ds u) = dec ds + unat u"
proof -
  let ?out = "rev (addFromLast (rev (0x30 # ds)) u)"
  have ds: "digits (0x30 # ds)" using assms(1) by (simp add: canonical_def isDigit_def)
  have "unat u < 10 ^ length ds"
  proof -
    have "(10 :: nat) ^ 20 \<le> 10 ^ length ds" using assms(2) by (intro power_increasing) auto
    then show ?thesis using u64_bound [of u] by simp
  qed
  then have "rdec (rev (0x30 # ds)) + unat u < 10 ^ length (rev (0x30 # ds))"
    using dec_less [of ds] assms(1) by (simp add: rdec_rev canonical_def dval_def)
  from addFromLast_correct [OF _ this] ds
  have o: "digits ?out" "length ?out = Suc (length ds)" "dec ?out = dec ds + unat u"
    by (auto simp: rdec_rev dval_def simp del: rev.simps)
  obtain h r where hr: "?out = h # r" using o(2) by (cases ?out) auto
  show ?thesis
  proof (cases "h = 0x30")
    case True
    have r: "digits r" "dec r = dec ds + unat u" "length r = length ds"
      using o [unfolded hr] True by (simp_all add: dval_def)
    have e: "decDigitsAddUint64 ds u = r" unfolding decDigitsAddUint64_def Let_def hr using True by simp
    have "hd r \<noteq> 0x30"
    proof
      assume h: "hd r = 0x30"
      obtain c cs where c: "r = c # cs" using r(3) assms(2) by (cases r) auto
      then have "dec r < 10 ^ (length ds - 1)" using h r(1) r(3) [symmetric] dec_less [of cs] by (simp add: dval_def)
      then show False using canonical_lower [OF assms(1)] r(2) by simp
    qed
    then show ?thesis unfolding e using r assms by (auto simp: canonical_def)
  next
    case False
    then have e: "decDigitsAddUint64 ds u = h # r" unfolding decDigitsAddUint64_def Let_def hr by simp
    show ?thesis unfolding e using False o [unfolded hr] by (simp add: canonical_def)
  qed
qed

lemma trimLeadingZeros_correct:
  "digits cs \<Longrightarrow> 0 < dec cs \<Longrightarrow> canonical (trimLeadingZeros cs) \<and> dec (trimLeadingZeros cs) = dec cs"
proof (induction cs rule: trimLeadingZeros.induct)
  case (1 c d cs)
  then show ?case by (cases "c = 0x30") (auto simp: canonical_def dval_def)
qed (auto simp: canonical_def dval_def)

lemma decDigitsSub_correct:
  assumes "canonical ds" "unat u < dec ds"
  shows "canonical (decDigitsSubUint64 ds u) \<and> dec (decDigitsSubUint64 ds u) + unat u = dec ds"
proof -
  let ?out = "rev (subFromLast (rev ds) u 0)"
  have "digits (rev ds)" using assms(1) by (simp add: canonical_def)
  from subFromLast_correct [OF this, of u 0] assms(2)
  have "digits ?out" "dec ?out + unat u = dec ds" by (auto simp: rdec_rev)
  then show ?thesis using trimLeadingZeros_correct [of ?out] assms(2) by (auto simp: decDigitsSubUint64_def)
qed

lemma decimalDigits_correct:
  "\<exists>ds. decimalDigits v buf = ds @ buf \<and> digits ds \<and> ds \<noteq> [] \<and> dec ds = unat v \<and> (v \<noteq> 0 \<longrightarrow> hd ds \<noteq> 0x30)"
proof (induction v buf rule: decimalDigits.induct)
  case (1 v buf)
  let ?c = "ucast (0x30 + v mod 10 :: u64) :: byte"
  have c: "isDigit ?c" "dval ?c = unat v mod 10"
    using digit_of [of "unat v mod 10"] by (simp_all add: u64_div_mod(1))
  show ?case
  proof (cases "v div 10 = 0")
    case True
    then have "unat (v div 10) = 0" by simp
    then have "unat v div 10 = 0" by (simp add: unat_div)
    then have v: "unat v < 10" "dval ?c = unat v" using c(2) by auto
    have "v \<noteq> 0 \<Longrightarrow> ?c \<noteq> 0x30" using v(2) dval_zero [OF c(1)] by (metis unat_eq_0)
    then show ?thesis using True c(1) v by (subst decimalDigits.simps) (auto intro!: exI [of _ "[?c]"])
  next
    case False
    then obtain ds where ds: "decimalDigits (v div 10) (?c # buf) = ds @ ?c # buf" "digits ds" "ds \<noteq> []"
      "dec ds = unat (v div 10)" "hd ds \<noteq> 0x30"
      using 1 [OF refl refl False] by auto
    have "dec (ds @ [?c]) = unat v" using ds(4) c(2) by (simp add: dec_append unat_div)
    then show ?thesis using False ds c(1) by (subst decimalDigits.simps) (auto intro!: exI [of _ "ds @ [?c]"])
  qed
qed

section \<open>Weight terms\<close>

text \<open>A term stands for the integer \<open>W\<close> in canonical form.\<close>

definition term_of :: "int \<Rightarrow> bool \<times> bool \<times> u64 \<times> bytes \<Rightarrow> bool" where
  "term_of W t = (case t of (neg, small, m, ds) \<Rightarrow>
     neg = (W < 0) \<and> small = (\<bar>W\<bar> < 10 ^ 19) \<and>
     (if small then int (unat m) = \<bar>W\<bar> \<and> ds = [] else m = 0 \<and> canonical ds \<and> int (dec ds) = \<bar>W\<bar>))"

definition spelled :: "decNumber \<Rightarrow> int" where
  "spelled d = (if dn_expNeg d then - int (dec (dn_expDigits d)) else int (dec (dn_expDigits d)))"

definition exp_ok :: "decNumber \<Rightarrow> bool" where
  "exp_ok d \<longleftrightarrow> digits (dn_expDigits d) \<and> (dn_expDigits d \<noteq> [] \<longrightarrow> hd (dn_expDigits d) \<noteq> 0x30) \<and> \<bar>dn_adj d\<bar> < 2 ^ 32"

lemma absInt64_eq: "\<bar>v\<bar> < 2 ^ 32 \<Longrightarrow> absInt64 v = of_nat (nat \<bar>v\<bar>) \<and> unat (absInt64 v) = nat \<bar>v\<bar>"
proof -
  assume v: "\<bar>v\<bar> < 2 ^ 32"
  have "absInt64 v = word_of_int \<bar>v\<bar>" by (simp add: absInt64_def abs_if)
  then have e: "absInt64 v = of_nat (nat \<bar>v\<bar>)" by simp
  moreover have "unat (of_nat (nat \<bar>v\<bar>) :: u64) = nat \<bar>v\<bar>" using v by (intro unat_u64) simp
  ultimately show ?thesis by simp
qed

lemma decSignedAdd_correct:
  assumes "m < 10 ^ 19" "\<bar>adj\<bar> < 2 ^ 32" "decSignedAdd neg (of_nat m) adj = (ng, mg)"
  shows "ng = ((if neg then - int m else int m) + adj < 0)" "int (unat mg) = \<bar>(if neg then - int m else int m) + adj\<bar>"
proof -
  define k where "k = nat \<bar>adj\<bar>"
  have a: "absInt64 adj = of_nat k" "k < 4294967296" "int k = \<bar>adj\<bar>"
    using absInt64_eq [OF assms(2)] assms(2) by (auto simp: k_def)
  have um: "unat (of_nat m :: u64) = m" using assms(1) by (intro unat_u64) simp
  have ua: "unat (of_nat k :: u64) = k" using a(2) by (intro unat_u64) simp
  have us: "unat (of_nat m + of_nat k :: u64) = m + k"
    using assms(1) a(2) unat_u64 [of "m + k"] by simp
  have z: "(of_nat m + of_nat k :: u64) = 0 \<longleftrightarrow> m + k = 0" by (metis us unat_eq_0)
  have le: "(of_nat k :: u64) \<le> of_nat m \<longleftrightarrow> k \<le> m" by (simp only: word_le_nat_alt um ua)
  have eq: "(of_nat m :: u64) = of_nat k \<longleftrightarrow> m = k" by (metis um ua)
  have d1: "k \<le> m \<Longrightarrow> unat (of_nat m - of_nat k :: u64) = m - k" by (simp add: unat_sub le um ua)
  have d2: "\<not> k \<le> m \<Longrightarrow> unat (of_nat k - of_nat m :: u64) = k - m" by (simp add: unat_sub word_le_nat_alt um ua)
  have "(ng, mg) = (if neg = (adj < 0) then (neg \<and> m + k \<noteq> 0, of_nat m + of_nat k)
      else if k \<le> m then (neg \<and> m \<noteq> k, of_nat m - of_nat k) else (\<not> neg, of_nat k - of_nat m))"
    using assms(3) by (simp only: decSignedAdd_def Let_def a(1) le eq z)
  then show "ng = ((if neg then - int m else int m) + adj < 0)" "int (unat mg) = \<bar>(if neg then - int m else int m) + adj\<bar>"
    using us d1 d2 a(3) by (auto simp del: of_nat_unat split: if_splits)
qed

lemma decWeightTerm_exact:
  assumes "exp_ok d"
  shows "term_of (spelled d + dn_adj d) (decWeightTerm d)"
proof -
  let ?ds = "dn_expDigits d" and ?W = "spelled d + dn_adj d"
  have ok: "digits ?ds" "?ds \<noteq> [] \<Longrightarrow> canonical ?ds" "\<bar>dn_adj d\<bar> < 2 ^ 32" using assms by (auto simp: exp_ok_def canonical_def)
  have lim: "unat decWeightTermSmallLimit = 10 ^ 19" by (simp add: decWeightTermSmallLimit_def)
  show ?thesis
  proof (cases "length ?ds \<le> 19")
    case True
    have m: "dec ?ds < 10 ^ 19"
    proof -
      have "(10::nat) ^ length ?ds \<le> 10 ^ 19" using True by (intro power_increasing) auto
      then show ?thesis using dec_less [OF ok(1)] by linarith
    qed
    obtain ng mg where s: "decSignedAdd (dn_expNeg d) (of_nat (dec ?ds)) (dn_adj d) = (ng, mg)" by (metis surj_pair)
    note sa = decSignedAdd_correct [OF m ok(3) s, folded spelled_def]
    have small: "mg < decWeightTermSmallLimit \<longleftrightarrow> \<bar>?W\<bar> < 10 ^ 19"
      unfolding word_less_nat_alt lim sa(2) [symmetric] by (metis of_nat_less_iff of_nat_numeral of_nat_power)
    obtain ds where ds: "decimalDigits mg [] = ds" "digits ds" "ds \<noteq> []" "dec ds = unat mg" "mg \<noteq> 0 \<longrightarrow> hd ds \<noteq> 0x30"
      using decimalDigits_correct [of mg "[]"] by auto
    have t: "decWeightTerm d = (if \<bar>?W\<bar> < 10 ^ 19 then (ng, True, mg, []) else (ng, False, 0, ds))"
      using True s ds(1) unfolding decWeightTerm_def decimalWord_dec [OF ok(1)]
      by (simp add: Let_def small appendDecimalUint64_def)
    have "\<not> \<bar>?W\<bar> < 10 ^ 19 \<Longrightarrow> mg \<noteq> 0" using sa(2) by auto
    then show ?thesis unfolding t using sa ds(2-5) by (auto simp: term_of_def canonical_def)
  next
    case False
    then have "?ds \<noteq> []" by auto
    then have c: "canonical ?ds" "20 \<le> length ?ds" using ok(2) False by auto
    let ?a = "absInt64 (dn_adj d)"
    have a: "unat ?a = nat \<bar>dn_adj d\<bar>" "nat \<bar>dn_adj d\<bar> < 4294967296" using absInt64_eq [OF ok(3)] ok(3) by auto
    have big: "10 ^ 19 \<le> dec ?ds"
    proof -
      have "(10::nat) ^ 19 \<le> 10 ^ (length ?ds - 1)" using c(2) by (intro power_increasing) auto
      then show ?thesis using canonical_lower [OF c(1)] by linarith
    qed
    then have a': "unat ?a < dec ?ds" using a by simp
    define ds where "ds = (if dn_expNeg d = (dn_adj d < 0) then decDigitsAddUint64 ?ds ?a else decDigitsSubUint64 ?ds ?a)"
    have r: "canonical ds" "int (dec ds) = \<bar>?W\<bar>" "dn_expNeg d = (?W < 0)"
      using decDigitsAdd_correct [OF c, of ?a] decDigitsSub_correct [OF c(1) a'] a big
      by (auto simp: ds_def spelled_def split: if_splits)
    have dd: "digits ds" using r(1) by (simp add: canonical_def)
    have small: "(length ds \<le> 19 \<and> decimalWord ds < decWeightTermSmallLimit) \<longleftrightarrow> \<bar>?W\<bar> < 10 ^ 19"
    proof (cases "length ds \<le> 19")
      case True
      have "(10::nat) ^ length ds \<le> 10 ^ 19" using True by (intro power_increasing) auto
      then have l: "dec ds < 10 ^ 19" using dec_less [OF dd] by linarith
      then have "unat (decimalWord ds) = dec ds" unfolding decimalWord_dec [OF dd] by (intro unat_u64) simp
      then show ?thesis using True l r(2) by (simp add: word_less_nat_alt lim)
    next
      case False
      then have "(10::nat) ^ 19 \<le> 10 ^ (length ds - 1)" by (intro power_increasing) auto
      then have "10 ^ 19 \<le> dec ds" using canonical_lower [OF r(1)] by linarith
      then have "\<not> \<bar>?W\<bar> < 10 ^ 19" unfolding r(2) [symmetric] by simp
      then show ?thesis using False by simp
    qed
    have t: "decWeightTerm d = (if \<bar>?W\<bar> < 10 ^ 19 then (dn_expNeg d, True, decimalWord ds, []) else (dn_expNeg d, False, 0, ds))"
      using False small unfolding decWeightTerm_def ds_def [symmetric] by (simp add: Let_def)
    have "\<bar>?W\<bar> < 10 ^ 19 \<Longrightarrow> unat (decimalWord ds) = dec ds"
      unfolding decimalWord_dec [OF dd] using r(2) by (intro unat_u64) simp
    then show ?thesis unfolding t using r by (auto simp: term_of_def simp del: of_nat_unat)
  qed
qed

lemma term_of_unique:
  assumes "term_of V (n, s, m, ds)" "term_of W (n', s', m', ds')"
  shows "(if s \<noteq> s' then False else if s then n = n' \<and> m = m' else n = n' \<and> ds = ds') \<longleftrightarrow> V = W"
proof
  assume "V = W"
  then have "s = s'" "n = n'" using assms by (auto simp: term_of_def)
  moreover have "s \<Longrightarrow> m = m'" using assms \<open>V = W\<close> calculation by (simp add: term_of_def word_uint_eq_iff)
  moreover have "\<not> s \<Longrightarrow> ds = ds'" using assms \<open>V = W\<close> calculation canonical_inj [of ds ds'] by (simp add: term_of_def)
  ultimately show "if s \<noteq> s' then False else if s then n = n' \<and> m = m' else n = n' \<and> ds = ds'" by simp
next
  assume e: "if s \<noteq> s' then False else if s then n = n' \<and> m = m' else n = n' \<and> ds = ds'"
  then have "\<bar>V\<bar> = \<bar>W\<bar>" "(V < 0) = (W < 0)" using assms by (auto simp: term_of_def split: if_splits)
  then show "V = W" by linarith
qed

lemma decWeightEqual_correct:
  assumes "exp_ok a" "exp_ok b" "dn_expFits a \<Longrightarrow> dn_weight a = spelled a + dn_adj a"
    "dn_expFits b \<Longrightarrow> dn_weight b = spelled b + dn_adj b"
  shows "decWeightEqual a b \<longleftrightarrow> spelled a + dn_adj a = spelled b + dn_adj b"
proof (cases "dn_expFits a \<and> dn_expFits b")
  case True
  then show ?thesis using assms(3,4) by (simp add: decWeightEqual_def)
next
  case False
  obtain n s m ds where ta: "decWeightTerm a = (n, s, m, ds)" by (metis surj_pair)
  obtain n' s' m' ds' where tb: "decWeightTerm b = (n', s', m', ds')" by (metis surj_pair)
  show ?thesis
    using term_of_unique [OF decWeightTerm_exact [OF assms(1), unfolded ta] decWeightTerm_exact [OF assms(2), unfolded tb]] False
    unfolding decWeightEqual_def ta tb if_not_P [OF False] by (simp add: Let_def)
qed

end
