(* ===== verification/IntegerKernels.thy ===== *)
theory IntegerKernels
  imports IntegerText NumberEqualWeights
begin

text \<open>
  The word kernels are exact: words are packed lanes, and every step of the reductions acts lane by lane.
\<close>

section \<open>Packed lanes\<close>

primrec pack :: "nat \<Rightarrow> nat list \<Rightarrow> u64" where
  "pack w [] = 0"
| "pack w (x # xs) = of_nat x + push_bit w (pack w xs)"

lemma bit_word_nat: "bit (of_nat x :: u64) n \<longleftrightarrow> n < 64 \<and> bit x n"
  by transfer (simp add: bit_take_bit_iff bit_of_nat_iff)

lemma add_disjoint_or:
  assumes "x < 2 ^ w"
  shows "(of_nat x + push_bit w y :: u64) = of_nat x OR push_bit w y"
proof -
  have "\<not> bit x n" if "w \<le> n" for n
  proof -
    have "take_bit w x = x" using assms by (simp add: take_bit_nat_eq_self_iff)
    then show ?thesis using that by (metis bit_take_bit_iff not_le)
  qed
  then have "(of_nat x AND push_bit w y :: u64) = 0"
    by (intro bit_word_eqI) (auto simp: bit_and_iff bit_push_bit_iff bit_word_nat)
  then show ?thesis by (rule disjunctive_add_eq_or)
qed

lemma bit_pack:
  assumes "\<forall>x \<in> set xs. x < 2 ^ w" "0 < w"
  shows "bit (pack w xs) n \<longleftrightarrow> n < 64 \<and> n div w < length xs \<and> bit (xs ! (n div w)) (n mod w)"
  using assms(1)
proof (induction xs arbitrary: n)
  case (Cons x xs)
  then have x: "x < 2 ^ w" by simp
  have hi: "\<not> bit x m" if "w \<le> m" for m
    using x that by (metis bit_take_bit_iff not_le take_bit_nat_eq_self_iff)
  show ?case
  proof (cases "n < w")
    case True
    then show ?thesis using x by (auto simp: add_disjoint_or bit_or_iff bit_push_bit_iff bit_word_nat)
  next
    case False
    then have d: "n div w = Suc ((n - w) div w)" "n mod w = (n - w) mod w"
      using assms(2) by (simp_all add: le_div_geq le_mod_geq)
    have "bit (pack w (x # xs)) n \<longleftrightarrow> n < 64 \<and> bit (pack w xs) (n - w)"
      using False hi [of n] x by (auto simp: add_disjoint_or bit_or_iff bit_push_bit_iff bit_word_nat)
    also have "\<dots> \<longleftrightarrow> n < 64 \<and> n div w < length (x # xs) \<and> bit ((x # xs) ! (n div w)) (n mod w)"
      using Cons by (auto simp: d)
    finally show ?thesis .
  qed
qed simp

lemma pack_and:
  assumes "\<forall>x \<in> set xs. x < 2 ^ w" "\<forall>x \<in> set ys. x < 2 ^ w" "0 < w" "length xs = length ys"
  shows "pack w xs AND pack w ys = pack w (map2 (AND) xs ys)"
proof (rule bit_word_eqI)
  fix n
  have "x AND y < 2 ^ w" if "x < 2 ^ w" "y < 2 ^ w" for x y :: nat
    using that by (metis take_bit_and take_bit_nat_eq_self_iff)
  then have "\<forall>z \<in> set (map2 (AND) xs ys). z < 2 ^ w"
    using assms(1,2) by (auto elim!: in_set_zipE)
  then show "bit (pack w xs AND pack w ys) n = bit (pack w (map2 (AND) xs ys)) n"
    using assms by (auto simp: bit_and_iff bit_pack)
qed

lemma le_word_pack: "(le_word bs :: u64) = pack 8 (map unat bs)"
proof (induction bs)
  case (Cons b bs)
  have "unat b < 2 ^ 8" using unsigned_less [of b] by simp
  moreover have "(of_nat (unat b) :: u64) = ucast b" by simp
  ultimately show ?case using Cons add_disjoint_or [of "unat b" 8] by simp
qed simp

lemma pack_drop:
  assumes "\<forall>y \<in> set (x # xs). y < 2 ^ w" "0 < w" "length (x # xs) * w \<le> 64"
  shows "drop_bit w (pack w (x # xs)) = pack w xs"
proof (rule bit_word_eqI)
  fix n
  assume n: "n < LENGTH(64)"
  have "n div w < length xs \<Longrightarrow> n + w < 64"
  proof -
    assume "n div w < length xs"
    then have "n < length xs * w" using assms(2) by (simp add: div_less_iff_less_mult)
    then show "n + w < 64" using assms(3) by simp
  qed
  then show "bit (drop_bit w (pack w (x # xs))) n = bit (pack w xs) n"
    using assms n by (auto simp: bit_drop_bit_eq bit_pack simp del: pack.simps)
qed

lemma and_low_mask: "x < 2 ^ k \<Longrightarrow> x AND (2 ^ k - 1) = (x :: nat)"
  by (metis mask_eq_exp_minus_1 take_bit_eq_mask take_bit_nat_eq_self)

lemmas and_masks = and_low_mask [of _ 4, simplified] and_low_mask [of _ 8, simplified] and_low_mask [of _ 16, simplified]

section \<open>Parsing eight digits\<close>

lemma u64_overflow: "(184467440737095516160 :: u64) = 0" "(1844674407370955161600 :: u64) = 0" "(184467440737095516160000 :: u64) = 0"
  by simp_all

lemma parse_pairs:
  assumes "\<forall>d \<in> {a, b, c, d, e, f, g, h}. d < 10"
  shows "drop_bit 8 (pack 8 [a, b, c, d, e, f, g, h] * 2561) AND 0x00FF00FF00FF00FF =
    pack 16 [10 * a + b, 10 * c + d, 10 * e + f, 10 * g + h]"
proof -
  have m: "pack 8 [a, b, c, d, e, f, g, h] * 2561 =
    pack 8 [a, 10 * a + b, 10 * b + c, 10 * c + d, 10 * d + e, 10 * e + f, 10 * f + g, 10 * g + h]"
    by (simp add: push_bit_eq_mult algebra_simps u64_overflow)
  have k: "(0x00FF00FF00FF00FF :: u64) = pack 8 [255, 0, 255, 0, 255, 0, 255]" by (simp add: push_bit_eq_mult)
  show ?thesis using assms unfolding m k
    by (simp add: pack_drop pack_and and_masks del: pack.simps) (simp add: push_bit_eq_mult algebra_simps)
qed

lemma parse_quads:
  assumes "\<forall>d \<in> {a, b, c, d}. d < 100"
  shows "drop_bit 16 (pack 16 [a, b, c, d] * 6553601) AND 0x0000FFFF0000FFFF = pack 32 [100 * a + b, 100 * c + d]"
proof -
  have m: "pack 16 [a, b, c, d] * 6553601 = pack 16 [a, 100 * a + b, 100 * b + c, 100 * c + d]"
    by (simp add: push_bit_eq_mult algebra_simps u64_overflow)
  have k: "(0x0000FFFF0000FFFF :: u64) = pack 16 [65535, 0, 65535]" by (simp add: push_bit_eq_mult)
  show ?thesis using assms unfolding m k
    by (simp add: pack_drop pack_and and_masks del: pack.simps) (simp add: push_bit_eq_mult algebra_simps)
qed

lemma parse_eight:
  assumes "a < 10000" "b < 10000"
  shows "drop_bit 32 (pack 32 [a, b] * 42949672960001) = of_nat (10000 * a + b)"
proof -
  have "pack 32 [a, b] * 42949672960001 = pack 32 [a, 10000 * a + b]"
    by (simp add: push_bit_eq_mult algebra_simps u64_overflow)
  then show ?thesis using assms by (simp add: pack_drop del: pack.simps) simp
qed

lemma list8: "length xs = 8 \<Longrightarrow> \<exists>a b c d e f g h. xs = [a, b, c, d, e, f, g, h]"
  by (auto simp: numeral_eq_Suc length_Suc_conv)

lemma byte_bound: "unat (c :: byte) < 256"
  using unsigned_less [of c] by simp

lemma digit_nibble: "isDigit c \<Longrightarrow> unat c AND 15 = dval c \<and> dval c < 10"
proof -
  assume "isDigit c"
  then have d: "dval c < 10" "unat c = 48 + dval c" using dval_digit [of c] by auto
  have "unat c AND 15 = unat c mod 16" using take_bit_eq_mask [of 4 "unat c"] by (simp add: take_bit_eq_mod mask_eq_exp_minus_1)
  also have "\<dots> = dval c" using mod_mult_self1 [of "dval c" 3 16] d by (simp add: add.commute)
  finally show ?thesis using d by simp
qed

lemma parse8DigitsWord_correct:
  assumes "length ds = 8" "digits ds"
  shows "parse8DigitsWord (le_word ds) = of_nat (dec ds)"
proof -
  obtain a b c d e f g h where ds: "ds = [a, b, c, d, e, f, g, h]" using list8 [OF assms(1)] by auto
  let ?n = "map dval [a, b, c, d, e, f, g, h]"
  note dg = digit_nibble [of a] digit_nibble [of b] digit_nibble [of c] digit_nibble [of d] digit_nibble [of e]
    digit_nibble [of f] digit_nibble [of g] digit_nibble [of h]
  have k: "(0x0F0F0F0F0F0F0F0F :: u64) = pack 8 [15, 15, 15, 15, 15, 15, 15, 15]" by (simp add: push_bit_eq_mult)
  have 1: "le_word ds AND 0x0F0F0F0F0F0F0F0F = pack 8 ?n"
    using assms(2) dg byte_bound unfolding ds le_word_pack k
    by (simp add: pack_and del: pack.simps)
  have 2: "drop_bit 8 (pack 8 ?n * 2561) AND 0x00FF00FF00FF00FF =
    pack 16 [10 * dval a + dval b, 10 * dval c + dval d, 10 * dval e + dval f, 10 * dval g + dval h]"
    using assms(2) dg parse_pairs [of "dval a" "dval b" "dval c" "dval d" "dval e" "dval f" "dval g" "dval h"]
    by (simp add: ds del: pack.simps)
  show ?thesis using assms(2) dg
    unfolding parse8DigitsWord_def Let_def 1 2
    by (simp add: parse_quads parse_eight ds del: pack.simps)
qed

section \<open>Parsing a run of digits\<close>

lemma pad_word:
  assumes "length bs = 8" "k \<le> 8"
  shows "(le_word bs AND push_bit ((8 - k) * 8) (NOT 0)) OR drop_bit (64 - (8 - k) * 8) digitLower =
    (le_word (replicate (8 - k) 0x30 @ drop (8 - k) bs) :: u64)"
proof (rule bit_word_eqI)
  fix n
  assume n: "n < LENGTH(64)"
  have l: "digitLower = le_word (replicate 8 0x30)" using broadcast_mult [of "0x30"] by (simp add: digitLower_def)
  show "bit ((le_word bs AND push_bit ((8 - k) * 8) (NOT 0)) OR drop_bit (64 - (8 - k) * 8) digitLower) n =
    bit (le_word (replicate (8 - k) 0x30 @ drop (8 - k) bs) :: u64) n"
  proof (cases "n < (8 - k) * 8")
    case True
    then have d: "n div 8 < 8 - k" by (simp add: div_less_iff_less_mult)
    have "64 - (8 - k) * 8 = 8 * k" using assms(2) by linarith
    moreover have "8 * k + n < 64" using True by linarith
    moreover have "(8 * k + n) div 8 < 8" "(8 * k + n) mod 8 = n mod 8" using calculation(2) by auto
    ultimately show ?thesis
      using True n d assms unfolding l
      by (simp add: bit_or_iff bit_and_iff bit_not_iff bit_mask_iff bit_drop_bit_eq bit_le_word nth_append)
  next
    case False
    then have "\<not> n div 8 < 8 - k" by (simp add: div_less_iff_less_mult)
    then show ?thesis
      using False n assms unfolding l
      by (auto simp: bit_or_iff bit_and_iff bit_push_bit_iff bit_drop_bit_eq bit_not_iff bit_mask_iff bit_le_word nth_append)
  qed
qed

lemma parseTrailingDigits_correct:
  assumes "length bs = 8" "k \<le> 8" "digits (drop (8 - k) bs)"
  shows "parseTrailingDigits (le_word bs) k = of_nat (dec (drop (8 - k) bs))"
proof -
  let ?ds = "replicate (8 - k) 0x30 @ drop (8 - k) bs"
  have "digits ?ds" using assms(3) by (auto simp: digits_def isDigit_def)
  moreover have "dec ?ds = dec (drop (8 - k) bs)" by (simp add: dec_append dec_zeros)
  ultimately show ?thesis
    using parse8DigitsWord_correct [of ?ds] assms(1,2)
    unfolding parseTrailingDigits_def Let_def pad_word [OF assms(1,2)] by simp
qed

lemma parseScalar_correct: "digits (segment src i j) \<Longrightarrow> parseScalar src i j = of_nat (dec (segment src i j))"
  by (simp add: parseScalar_def flip: decimalWord_def decimalWord_dec)

lemma parseTapeDigits_correct:
  assumes "i < j" "j \<le> length src" "digits (segment src i j)"
  shows "parseTapeDigitsUint64 src i j = (if j - i \<le> 19 then Some (of_nat (dec (segment src i j))) else None)"
proof -
  have tail: "parseTrailingDigits (load64 src m) k = of_nat (dec (segment src (m + 8 - k) (m + 8)))"
    if "m + 8 \<le> j" "i \<le> m + 8 - k" "k \<le> 8" for m k
  proof -
    have e: "drop (8 - k) (get_bytes m 8 src) = segment src (m + 8 - k) (m + 8)"
      using that by (simp add: get_bytes_def segment_def drop_take add.commute)
    have "digits (segment src (m + 8 - k) (m + 8))"
      using assms that by (auto simp: digits_def segment_all_iff)
    then show ?thesis
      using parseTrailingDigits_correct [of "get_bytes m 8 src" k] that assms(2) e by (simp add: load64_def)
  qed
  have word: "parse8DigitsWord (load64 src m) = of_nat (dec (segment src m (m + 8)))" if "i \<le> m" "m + 8 \<le> j" for m
  proof -
    have "digits (segment src m (m + 8))" using assms that by (auto simp: digits_def segment_all_iff)
    then show ?thesis
      using parse8DigitsWord_correct [of "segment src m (m + 8)"] that assms(2) by (simp add: load64_def get_bytes_def segment_def)
  qed
  have cut: "dec (segment src i j) = dec (segment src i m) * 10 ^ (j - m) + dec (segment src m j)" if "i \<le> m" "m \<le> j" for m
    using arg_cong [OF segment_append [OF that], of dec src] assms(2) by (simp add: dec_append)
  consider "j - i \<le> 8" | "8 < j - i" "j - i \<le> 16" | "16 < j - i" "j - i \<le> 19" | "19 < j - i" by linarith
  then show ?thesis
  proof cases
    case 1
    then show ?thesis
      using tail [of "j - 8" "j - i"] assms parseScalar_correct by (simp add: parseTapeDigitsUint64_def Let_def)
  next
    case 2
    have p: "Parse8Digits (drop (j - 8) src) = parse8DigitsWord (load64 src (j - 8))"
      by (simp add: Parse8Digits_def load64_def get_bytes_def)
    show ?thesis
      using 2 tail [of "j - 16" "j - i - 8"] word [of "j - 8"] cut [of "j - 8"] assms parseScalar_correct
      by (simp add: parseTapeDigitsUint64_def Let_def p)
  next
    case 3
    have "dec (segment src (j - 16) j) = dec (segment src (j - 16) (j - 8)) * 10 ^ 8 + dec (segment src (j - 8) j)"
      using arg_cong [OF segment_append [of "j - 16" "j - 8" j src], of dec] 3 assms(2) by (simp add: dec_append)
    then have "parse16Digits src (j - 16) = of_nat (dec (segment src (j - 16) j))"
      using 3 word [of "j - 16"] word [of "j - 8"] by (simp add: parse16Digits_def)
    then show ?thesis
      using 3 tail [of "j - 24" "j - i - 16"] cut [of "j - 16"] assms parseScalar_correct
      by (simp add: parseTapeDigitsUint64_def Let_def)
  next
    case 4
    then show ?thesis by (simp add: parseTapeDigitsUint64_def)
  qed
qed

section \<open>Scanning digits\<close>

lemma lane_add:
  assumes "k < 8" "\<And>j. j < k \<Longrightarrow> lane j c \<le> 0xFF - lane j x"
  shows "lane k (x + c) = lane k x + lane k c"
proof -
  have n: "lane j (NOT x) = NOT (lane j x)" if "j < 8" for j
    using that by (intro bit_word_eqI) (auto simp: bit_lane bit_not_iff)
  have c: "NOT (b :: byte) = 0xFF - b" for b by (simp add: not_eq_complement)
  have "lane k (NOT x - c) = lane k (NOT x) - lane k c"
    using assms by (intro lane_diff) (simp_all add: n c less_trans)
  moreover have e: "x + c = NOT (NOT x - c)" by (simp add: not_eq_complement)
  have "lane k (x + c) = NOT (lane k (NOT x - c))"
    using assms(1) unfolding e by (intro bit_word_eqI) (auto simp: bit_lane bit_not_iff)
  ultimately have "lane k (x + c) = NOT (NOT (lane k x) - lane k c)" using n [OF assms(1)] by simp
  then show ?thesis by (simp add: not_eq_complement)
qed

lemma lane_digit_words: "j < 8 \<Longrightarrow> lane j digitLower = 0x30" "j < 8 \<Longrightarrow> lane j digitUpper = 0x46"
proof -
  have e: "digitLower = le_word (replicate 8 0x30)" "digitUpper = le_word (replicate 8 0x46)"
    using broadcast_mult [of "0x30"] broadcast_mult [of "0x46"] by (simp_all add: digitLower_def digitUpper_def)
  show "j < 8 \<Longrightarrow> lane j digitLower = 0x30" "j < 8 \<Longrightarrow> lane j digitUpper = 0x46"
    unfolding e by (rule lane_replicate; assumption)+
qed

lemma first_lane_nonDigit: "first_lane (\<lambda>b. \<not> isDigit b) x (nonDigitMask8 x)"
proof (rule first_laneI)
  have h: "digitHigh = highBits" by (simp add: digitHigh_def highBits_def)
  show "bit (nonDigitMask8 x) n \<Longrightarrow> n mod 8 = 7" for n by (simp add: nonDigitMask8_def h bit_and_iff bit_highBits)
  fix k :: nat
  assume k: "k < 8" and dg: "\<And>j. j < k \<Longrightarrow> \<not> \<not> isDigit (lane j x)"
  have a: "lane k (x + digitUpper) = lane k x + 0x46"
  proof -
    have "lane j digitUpper \<le> 0xFF - lane j x" if "j < k" for j
      using dg [OF that] lane_digit_words(2) [of j] k that
      by (auto simp: isDigit_def word_le_nat_alt unat_sub_if')
    then show ?thesis using k by (simp add: lane_add lane_digit_words)
  qed
  have s: "lane k (x - digitLower) = lane k x - 0x30"
    using k dg by (subst lane_diff) (auto simp: lane_digit_words isDigit_def)
  have "bit (nonDigitMask8 x) (8 * k + 7) \<longleftrightarrow> bit (lane k (x + digitUpper)) 7 \<or> bit (lane k (x - digitLower)) 7"
    using k by (simp add: nonDigitMask8_def h bit_and_iff bit_or_iff bit_highBits bit_lane)
  also have "\<dots> \<longleftrightarrow> 0x80 \<le> lane k x + 0x46 \<or> 0x80 \<le> lane k x - 0x30" by (simp add: a s bit7_iff)
  also have "\<dots> \<longleftrightarrow> \<not> isDigit (lane k x)"
    using byte_bound [of "lane k x"] 
    by (auto simp: isDigit_def word_le_nat_alt unat_sub_if' unat_word_ariths split: if_splits)
  finally show "bit (nonDigitMask8 x) (8 * k + 7) = (\<not> isDigit (lane k x))" .
qed

lemma scanDigitsLong_eq: "i \<le> length src \<Longrightarrow> scanDigitsLong src i = scanDigits src i"
proof (induction src i rule: scanDigitsLong.induct)
  case (1 src i)
  show ?case
  proof (cases "i + 8 \<le> length src")
    case True
    let ?m = "nonDigitMask8 (load64 src i)"
    note fl = first_lane_nonDigit [of "load64 src i"]
    have ln: "lane k (load64 src i) = src ! (i + k)" if "k < 8" for k using that True by (rule lane_load64)
    show ?thesis
    proof (cases "?m = 0")
      case True
      have d: "isDigit (src ! j)" if "i \<le> j" "j < i + 8" for j
        using first_lane_zero [of "\<lambda>b. \<not> isDigit b" "load64 src i" "j - i"] fl that True ln [of "j - i"] by simp
      have "scanDigits src i = scanDigits src (i + 8)"
        using \<open>i + 8 \<le> length src\<close> d
        by (simp add: scanDigits_first_stop, intro first_stop_skip) auto
      then show ?thesis using 1 True \<open>i + 8 \<le> length src\<close> by (subst scanDigitsLong.simps) simp
    next
      case False
      note t = first_lane_trailing_zeros [OF fl False]
      have "scanDigits src i = i + trailing_zeros64 ?m div 8"
        unfolding scanDigits_first_stop [OF 1(2)]
      proof (rule first_stop_eqI)
        show "\<not> \<not> isDigit (src ! j)" if "i \<le> j" "j < i + trailing_zeros64 ?m div 8" for j
          using t(3) [of "j - i"] t(1) that ln [of "j - i"] by simp
      qed (use t True ln in auto)
      then show ?thesis using False True by (subst scanDigitsLong.simps) simp
    qed
  qed (subst scanDigitsLong.simps, simp)
qed

lemma scanDigitsFast_eq: "i \<le> length src \<Longrightarrow> scanDigitsFast src i = scanDigits src i"
  by (simp add: scanDigitsFast_def scanDigitsLong_eq)

section \<open>Formatting eight digits\<close>

text \<open>The last \<open>n\<close> decimal digits of \<open>v\<close>.\<close>

primrec fixed_digits :: "nat \<Rightarrow> nat \<Rightarrow> bytes" where
  "fixed_digits 0 v = []"
| "fixed_digits (Suc n) v = fixed_digits n (v div 10) @ [of_nat (0x30 + v mod 10)]"

lemma length_fixed_digits [simp]: "length (fixed_digits n v) = n"
  by (induction n arbitrary: v) auto

lemma fixed_digits_split: "fixed_digits (m + n) v = fixed_digits m (v div 10 ^ n) @ fixed_digits n (v mod 10 ^ n)"
proof (induction n arbitrary: v)
  case (Suc n)
  have "v div 10 div 10 ^ n = v div 10 ^ Suc n" by (simp add: div_mult2_eq)
  moreover have "v mod 10 ^ Suc n div 10 = v div 10 mod 10 ^ n" "v mod 10 ^ Suc n mod 10 = v mod 10"
    by (simp_all add: mod_mult2_eq)
  ultimately show ?case using Suc by simp
qed simp

lemma bit_mask: "bit ((2::nat) ^ k - Suc 0) n \<longleftrightarrow> n < k"
  using bit_mask_iff [of k n, where 'a = nat] by (simp add: mask_eq_exp_minus_1)

lemma bit_div_mod: "bit ((x::nat) div 2 ^ s mod 2 ^ k) n \<longleftrightarrow> n < k \<and> bit x (s + n)"
  by (simp add: bit_take_bit_iff bit_drop_bit_eq flip: take_bit_eq_mod drop_bit_eq_div)

lemma pack_chunk:
  assumes xs: "\<forall>x \<in> set xs. x < 2 ^ w" and w: "0 < w" "s + k \<le> w" "length xs * w \<le> 64"
  shows "drop_bit s (pack w xs) AND pack w (replicate (length xs) (2 ^ k - 1)) = pack w (map (\<lambda>x. x div 2 ^ s mod 2 ^ k) xs)"
proof (rule bit_word_eqI)
  fix n
  have kw: "(2::nat) ^ k \<le> 2 ^ w" using w(2) by (intro power_increasing) auto
  then have m: "\<forall>x \<in> set (replicate (length xs) (2 ^ k - 1)). x < (2::nat) ^ w" using less_le_trans [of "2 ^ k - 1" "2 ^ k" "2 ^ w :: nat"] by simp
  have r: "\<forall>x \<in> set (map (\<lambda>x. x div 2 ^ s mod 2 ^ k) xs). x < 2 ^ w" using kw by (auto intro: less_le_trans [OF mod_less_divisor])
  show "bit (drop_bit s (pack w xs) AND pack w (replicate (length xs) (2 ^ k - 1))) n =
    bit (pack w (map (\<lambda>x. x div 2 ^ s mod 2 ^ k) xs)) n"
  proof (cases "n div w < length xs \<and> n mod w < k \<and> n < 64")
    case True
    define q r where "q = n div w" and "r = n mod w"
    have e: "s + n = q * w + (s + r)" by (simp add: q_def r_def)
    have "s + r < w" using True w(2) by (simp add: r_def)
    then have "(s + n) div w = q" "(s + n) mod w = s + r" unfolding e by simp_all
    then have d: "(s + n) div w = n div w" "(s + n) mod w = s + n mod w" by (simp_all add: q_def r_def)
    have "n div w * w + w \<le> length xs * w" using True by (metis Suc_leI add.commute mult_Suc mult_le_mono1)
    then have "s + n < 64" using w(3) \<open>s + r < w\<close> e by (simp add: q_def)
    then show ?thesis
      using True d
      unfolding bit_and_iff bit_drop_bit_eq bit_pack [OF xs w(1)] bit_pack [OF m w(1)] bit_pack [OF r w(1)]
      by (simp add: bit_mask bit_div_mod)
  next
    case False
    then show ?thesis
      unfolding bit_and_iff bit_drop_bit_eq bit_pack [OF m w(1)] bit_pack [OF r w(1)]
      by (auto simp: bit_mask bit_div_mod)
  qed
qed

lemma div_100: "x < 10000 \<Longrightarrow> x * 10486 div 1048576 mod 128 = (x div 100 :: nat)"
proof -
  assume x: "x < 10000"
  define q r where "q = x div 100" and "r = x mod 100"
  have qr: "x = 100 * q + r" "r < 100" "q < 100" using x by (auto simp: q_def r_def)
  have "x * 10486 = q * 1048576 + (24 * q + 10486 * r)" by (simp add: qr(1))
  moreover have "24 * q + 10486 * r < 1048576" using qr by linarith
  ultimately have "x * 10486 div 1048576 = q" by simp
  then show ?thesis using qr(3) by (simp add: q_def)
qed

lemma div_10: "x < 100 \<Longrightarrow> x * 103 div 1024 mod 16 = (x div 10 :: nat)"
proof -
  assume x: "x < 100"
  define q r where "q = x div 10" and "r = x mod 10"
  have qr: "x = 10 * q + r" "r < 10" "q < 10" using x by (auto simp: q_def r_def)
  have "x * 103 = q * 1024 + (6 * q + 103 * r)" by (simp add: qr(1))
  moreover have "6 * q + 103 * r < 1024" using qr by linarith
  ultimately have "x * 103 div 1024 = q" by simp
  then show ?thesis using qr(3) by (simp add: q_def)
qed

lemma digits_of: "(of_nat x :: u64) = of_nat m * of_nat (x div m) + of_nat (x mod m)"
  by (metis mult_div_mod_eq of_nat_add of_nat_mult)

lemma encodeTwoFour_eq:
  assumes "hi < 10000" "lo < 10000"
  shows "encodeTwoFourDigitChunks (of_nat hi) (of_nat lo) =
    pack 8 (concat (map (\<lambda>x. [x div 10, x mod 10]) [hi div 100, hi mod 100, lo div 100, lo mod 100]))"
proof -
  let ?a = "hi div 100" and ?b = "hi mod 100" and ?c = "lo div 100" and ?d = "lo mod 100"
  have b: "?a < 100" "?b < 100" "?c < 100" "?d < 100" using assms by auto
  have merged: "(of_nat hi OR push_bit 32 (of_nat lo) :: u64) = pack 32 [hi, lo]"
    using assms add_disjoint_or [of hi 32 "of_nat lo"] by simp
  have m1: "(0x7F OR push_bit 32 0x7F :: u64) = pack 32 [2 ^ 7 - 1, 2 ^ 7 - 1]" by (simp add: push_bit_eq_mult)
  have "pack 32 [hi, lo] * 10486 = pack 32 [hi * 10486, lo * 10486]" by (simp add: push_bit_eq_mult algebra_simps)
  then have top: "drop_bit 20 (pack 32 [hi, lo] * 10486) AND (0x7F OR push_bit 32 0x7F) = pack 32 [?a, ?c]"
    using pack_chunk [of "[hi * 10486, lo * 10486]" 32 20 7] assms div_100 unfolding m1 by (simp del: pack.simps)
  have bottom: "pack 32 [hi, lo] - 100 * pack 32 [?a, ?c] = pack 32 [?b, ?d]"
    unfolding pack.simps digits_of [of hi 100] digits_of [of lo 100] by (simp add: push_bit_eq_mult algebra_simps)
  have hundreds: "push_bit 16 (pack 32 [?b, ?d]) + pack 32 [?a, ?c] = pack 16 [?a, ?b, ?c, ?d]"
    by (simp add: push_bit_eq_mult algebra_simps)
  have m2: "(0x0F OR push_bit 16 0x0F OR push_bit 32 0x0F OR push_bit 48 0x0F :: u64) = pack 16 [2 ^ 4 - 1, 2 ^ 4 - 1, 2 ^ 4 - 1, 2 ^ 4 - 1]"
    by (simp add: push_bit_eq_mult)
  have "pack 16 [?a, ?b, ?c, ?d] * 103 = pack 16 [?a * 103, ?b * 103, ?c * 103, ?d * 103]" by (simp add: push_bit_eq_mult algebra_simps)
  then have tens: "drop_bit 10 (pack 16 [?a, ?b, ?c, ?d] * 103) AND (0x0F OR push_bit 16 0x0F OR push_bit 32 0x0F OR push_bit 48 0x0F)
      = pack 16 [?a div 10, ?b div 10, ?c div 10, ?d div 10]"
    using pack_chunk [of "[?a * 103, ?b * 103, ?c * 103, ?d * 103]" 16 10 4] b div_10 unfolding m2 by (simp del: pack.simps)
  have e: "encodeTwoFourDigitChunks (of_nat hi) (of_nat lo) = pack 16 [?a div 10, ?b div 10, ?c div 10, ?d div 10] +
      push_bit 8 (pack 16 [?a, ?b, ?c, ?d] - 10 * pack 16 [?a div 10, ?b div 10, ?c div 10, ?d div 10])"
    unfolding encodeTwoFourDigitChunks_def Let_def merged top bottom hundreds tens by (rule refl)
  show ?thesis
    unfolding e pack.simps concat.simps list.map append.simps
      digits_of [of ?a 10] digits_of [of ?b 10] digits_of [of ?c 10] digits_of [of ?d 10]
    by (simp add: push_bit_eq_mult algebra_simps)
qed

lemma le_bytes_pack:
  assumes "\<forall>x \<in> set xs. x < 256" "length xs = 8"
  shows "le_bytes 8 (pack 8 xs) = map of_nat xs"
proof -
  have "map unat (map of_nat xs :: bytes) = xs"
    using assms(1) by (induction xs) (simp_all add: unat_of_nat take_bit_nat_eq_self)
  then have "pack 8 xs = le_word (map of_nat xs)" by (simp add: le_word_pack)
  then show ?thesis using le_bytes_le_word [of "map of_nat xs", where 'a = 64] assms(2) by simp
qed

lemma fixed_two: "y < 100 \<Longrightarrow> fixed_digits 2 y = [of_nat (48 + y div 10), of_nat (48 + y mod 10)]"
  by (simp add: eval_nat_numeral(2) [of "num.One"] numeral_2_eq_2)

lemma store_chunk:
  assumes "v < 10 ^ 8"
  shows "le_bytes 8 (0x3030303030303030 + encodeTwoFourDigitChunks (of_nat (v div 10000)) (of_nat (v mod 10000))) = fixed_digits 8 v"
proof -
  let ?ds = "concat (map (\<lambda>x. [x div 10, x mod 10]) [v div 10000 div 100, v div 10000 mod 100, v mod 10000 div 100, v mod 10000 mod 100])"
  have b: "v div 10000 < 10000" "v mod 10000 < 10000" using assms by auto
  have e: "0x3030303030303030 + pack 8 ?ds = pack 8 (map (\<lambda>x. 48 + x) ?ds)" by (simp add: push_bit_eq_mult algebra_simps)
  have "le_bytes 8 (pack 8 (map (\<lambda>x. 48 + x) ?ds)) = map of_nat (map (\<lambda>x. 48 + x) ?ds)"
    using b by (intro le_bytes_pack) auto
  also have "\<dots> = fixed_digits 8 v"
    using fixed_digits_split [of 4 4 v] fixed_digits_split [of 2 2 "v div 10000"] fixed_digits_split [of 2 2 "v mod 10000"] b
    by (simp add: fixed_two)
  finally show ?thesis unfolding encodeTwoFour_eq [OF b] e .
qed

lemma Store8Digits_eq:
  assumes "unat v < 10 ^ 8"
  shows "Store8Digits v = fixed_digits 8 (unat v)"
proof -
  have "v div 10000 = of_nat (unat v div 10000)" "v mod 10000 = of_nat (unat v mod 10000)"
    using le_less_trans [OF div_le_dividend u64_bound, of v 10000] le_less_trans [OF mod_less_eq_dividend u64_bound, of v 10000]
    by (simp_all add: word_unat_eq_iff unat_div unat_mod unat_of_nat)
  then show ?thesis using store_chunk [OF assms] by (simp add: Store8Digits_def)
qed

lemma Store16Digits_eq:
  assumes "unat v < 10 ^ 16"
  shows "Store16Digits v = fixed_digits 16 (unat v)"
proof -
  let ?hi = "v div 100000000" and ?lo = "v - v div 100000000 * 100000000"
  have lo: "?lo = v mod 100000000" by (simp add: minus_div_mult_eq_mod)
  have u: "unat ?hi = unat v div 10 ^ 8" "unat ?lo = unat v mod 10 ^ 8" unfolding lo by (simp_all add: unat_div unat_mod)
  have b: "unat ?hi < 10 ^ 8" "unat ?lo < 10 ^ 8" using assms unfolding u by auto
  show ?thesis
    using Store8Digits_eq [OF b(1)] Store8Digits_eq [OF b(2)] fixed_digits_split [of 8 8 "unat v"]
    unfolding u by (simp add: Store16Digits_def Store8Digits_def Let_def)
qed

end
