(* ===== verification/FastScanCorrect.thy ===== *)
theory FastScanCorrect
  imports FastScan IntegerKernels ValidatorComplete
begin

text \<open>
  The happy-path scanners agree with the diagnostic ones of theory \<open>Validator\<close>: white space, numbers with their
  integer tag, string literals with their escaped flag; and the bool-only validator accepts exactly the documents.
\<close>

section \<open>White space\<close>

lemma skipSpaceFast_eq: "i \<le> length src \<Longrightarrow> skipSpaceFast src i = skipSpace src i"
proof (induction src i rule: skipSpaceFast.induct)
  case (1 src i)
  then show ?case
    by (subst skipSpaceFast.simps)
       (auto simp: skipSpace_first_stop first_stop_step isJSONWhitespace_def Let_def fastByteAt_def)
qed

lemma nextSignificantFast_eq:
  "i \<le> length src \<Longrightarrow> nextSignificantFast src i = (skipSpace src i, fastByteAt src (skipSpace src i))"
proof (induction src i rule: nextSignificantFast.induct)
  case (1 src i)
  then show ?case
    by (subst nextSignificantFast.simps)
       (auto simp: skipSpace_first_stop first_stop_step isJSONWhitespace_def Let_def fastByteAt_def)
qed

section \<open>Strings\<close>

lemma unicode_escape_agrees:
  assumes "Suc j < length src" "src ! Suc j = 0x75"
  shows "case fastUnicodeEscape src (j + 2) of
      None \<Rightarrow> \<exists>e. validateEscape src (Suc j) = Inl e
    | Some i' \<Rightarrow> validateEscape src (Suc j) = Inr i'"
proof -
  have "validateEscape src (Suc j) = validateUnicodeEscape src (Suc j)"
    using assms by (simp add: validateEscape_def)
  then show ?thesis
    by (auto simp: validateUnicodeEscape_def fastUnicodeEscape_def Let_def fastByteAt_def word_le_nat_alt
        word_less_nat_alt split: prod.splits)
qed

text \<open>\<open>skips src i k fl e\<close>: scanning on from \<open>k\<close> with the flag \<open>e\<close> is scanning from \<open>i\<close> with the flag \<open>fl\<close>.\<close>

definition skips :: "bytes \<Rightarrow> nat \<Rightarrow> nat \<Rightarrow> bool \<Rightarrow> bool \<Rightarrow> bool" where
  "skips src i k fl e \<longleftrightarrow> i \<le> k \<and> k \<le> length src \<and> parseStringFrom src i = parseStringFrom src k \<and>
     (e \<longleftrightarrow> fl \<or> 0x5C \<in> set (segment src i k))"

definition string_verdict :: "bytes \<Rightarrow> nat \<Rightarrow> bool \<Rightarrow> nat \<times> bool \<times> bool \<Rightarrow> bool" where
  "string_verdict src i fl r \<longleftrightarrow>
     (case parseStringFrom src i of
        Inl _ \<Rightarrow> \<not> snd (snd r)
      | Inr k \<Rightarrow> r = (k, fl \<or> 0x5C \<in> set (segment src i (k - 1)), True))"

lemma segment_mem_append:
  "i \<le> j \<Longrightarrow> j \<le> k \<Longrightarrow> x \<in> set (segment src i k) \<longleftrightarrow> x \<in> set (segment src i j) \<or> x \<in> set (segment src j k)"
  by (simp flip: segment_append [of i j k] add: Un_iff)

lemma skips_trans: "skips src i j a b \<Longrightarrow> skips src j k b c \<Longrightarrow> skips src i k a c"
  by (auto simp: skips_def segment_mem_append [of i j k])

lemma skips_verdict:
  assumes "skips src i k a b" "string_verdict src k b r"
  shows "string_verdict src i a r"
proof (cases "parseStringFrom src k")
  case (Inr m)
  then have "k \<le> m - 1" using parseStringFrom_sound [of src k m] assms(1) by (auto simp: skips_def)
  then show ?thesis using assms Inr segment_mem_append [of i k "m - 1" "0x5C" src]
    by (auto simp: skips_def string_verdict_def)
qed (use assms in \<open>auto simp: skips_def string_verdict_def\<close>)

lemma escape_skips:
  assumes "Suc j < length src" "src ! j = 0x5C" "validateEscape src (Suc j) = Inr k"
  shows "skips src j k fl True"
proof -
  have "k \<le> length src" using validateEscape_sound [OF assms(3,1,2) string_text.empty] by simp
  moreover have "Suc j < k" using assms(3) by (rule validateEscape_progress)
  ultimately show ?thesis
    using parseStringFrom_escape [OF assms(1,2,3)] assms(2) by (simp add: skips_def segment_Cons)
qed

lemma fastEscapeRun_agrees:
  "i \<le> length src \<Longrightarrow> (case fastEscapeRun src i fl of
      None \<Rightarrow> \<exists>e. parseStringFrom src i = Inl e
    | Some (k, e) \<Rightarrow> skips src i k fl e)"
proof (induction src i fl rule: fastEscapeRun.induct)
  case (1 src i fl)
  show ?case
  proof (cases "i + 6 \<le> length src \<and> fastByteAt src i = 0x5C \<and> fastByteAt src (i + 1) = 0x75")
    case True
    then have h: "Suc i < length src" "src ! i = 0x5C" "src ! Suc i = 0x75" by (auto simp: fastByteAt_def)
    note u = unicode_escape_agrees [OF h(1,3)]
    show ?thesis
    proof (cases "fastUnicodeEscape src (i + 2)")
      case None
      then have "\<exists>e. parseStringFrom src i = Inl e"
        using u h by (subst parseStringFrom.simps) (auto simp: special_here is_special_byte_def)
      then show ?thesis using None True by (subst fastEscapeRun.simps) simp
    next
      case (Some k)
      then have s: "skips src i k fl True" using escape_skips [OF h(1,2)] u by simp
      have "case fastEscapeRun src k True of
          None \<Rightarrow> \<exists>e. parseStringFrom src i = Inl e | Some (m, e) \<Rightarrow> skips src i m fl e"
      proof (cases "fastEscapeRun src k True")
        case None
        then show ?thesis using 1(1) [OF True Some] s by (auto simp: skips_def)
      next
        case (Some r)
        obtain m e where [simp]: "r = (m, e)" by (cases r)
        have "skips src k m True e" using 1(1) [OF True \<open>fastUnicodeEscape src (i + 2) = Some k\<close>] Some s
          by (simp add: skips_def)
        then show ?thesis using Some skips_trans [OF s] by simp
      qed
      then show ?thesis using True Some by (subst fastEscapeRun.simps) simp
    qed
  next
    case False
    then show ?thesis using 1(2) by (subst fastEscapeRun.simps) (auto simp: skips_def)
  qed
qed

lemma run_no_backslash:
  assumes "scanStringUnicodeRun src j = (k, None)" "j < length src" "0x80 \<le> src ! j"
  shows "0x5C \<notin> set (segment src j k)"
proof (cases "int (length src) - int j < 32")
  case True
  obtain r n where d: "decodeRune (drop j src) = (r, n)" by (cases "decodeRune (drop j src)")
  have ok: "\<not> (r = RuneError \<and> n = 1)" and k: "k = j + n"
    using assms(1) True d by (auto simp: scanStringUnicodeRun_def split: if_splits)
  have acc: "is_scalar r" "n = length (encodeRune r)" "drop j src = encodeRune r @ drop n (drop j src)"
    using decodeRune_accepts [OF d _ ok] assms(2) by auto
  have "hd (encodeRune r) = src ! j"
    using acc(3) assms(2) by (metis encodeRune_not_Nil hd_append2 hd_drop_conv_nth)
  moreover have "unat (of_nat r :: byte) = r" if "r < 0x80" using that by (simp add: unat_of_nat)
  ultimately have "0x80 \<le> r"
    using assms(3) acc(1) by (cases "r < 0x80") (auto simp: encodeRune_def encodeScalar_def word_le_nat_alt dest: arg_cong [where f = unat])
  then have "\<forall>b \<in> set (encodeRune r). \<not> is_syntax_byte b" using acc(1) by (intro encodeRune_no_syntax) auto
  moreover have "segment src j k = encodeRune r"
    unfolding segment_def k using acc(2,3) by (metis append_eq_conv_conj diff_add_inverse)
  ultimately show ?thesis by (auto simp: is_syntax_byte_def)
next
  case False
  then have "k = first_stop is_syntax_byte src j (length src)"
    using assms(1,2) by (auto simp: scanStringUnicodeRun_def scanStringSyntaxScalar_eq Let_def split: if_splits)
  then show ?thesis using first_stop_plain [of j src is_syntax_byte] assms(2) by (auto simp: is_syntax_byte_def)
qed

lemma run_skips:
  assumes "scanStringUnicodeRun src j = (k, None)" "j < length src" "0x80 \<le> src ! j"
  shows "skips src j k fl fl"
  using parseStringFrom_run [OF assms(2,3,1)] scanStringUnicodeRun_progress [OF assms]
    scanStringUnicodeRun_sound [OF assms string_text.empty] run_no_backslash [OF assms]
  by (simp add: skips_def)

text \<open>The stop that both scanners find first, and the bytes before it.\<close>

lemma stop_skips:
  assumes "i \<le> length src"
  shows "skips src i (scanStringSpecialScalar src i) fl fl"
proof -
  let ?j = "scanStringSpecialScalar src i"
  have j: "?j = first_stop is_special_byte src i (length src)" using assms by (rule scanStringSpecialScalar_eq)
  have le: "i \<le> ?j" "?j \<le> length src" using assms by (simp_all add: j first_stop_ge first_stop_le)
  have "first_stop is_special_byte src ?j (length src) = ?j"
    using le first_stop_hit [of is_special_byte src i "length src"] by (intro first_stop_eqI) (auto simp: j)
  then have "scanStringSpecialScalar src ?j = ?j" using scanStringSpecialScalar_eq [OF le(2)] by simp
  then have "parseStringFrom src i = parseStringFrom src ?j" by (subst (1 2) parseStringFrom.simps) simp
  then show ?thesis
    using le first_stop_plain [of i src is_special_byte] assms by (auto simp: skips_def j is_special_byte_def)
qed

lemma fastStringStop_agrees:
  assumes "i \<le> length src"
  shows "case fastStringStop src i fl of
      Inl r \<Rightarrow> string_verdict src i fl r
    | Inr (k, e) \<Rightarrow> skips src i k fl e"
proof -
  define j where "j = (if i \<ge> length src \<or> fastByteAt src i \<noteq> 0x5C then scanStringSpecialScalar src i else i)"
  have sk: "skips src i j fl fl" using assms stop_skips [OF assms] by (auto simp: j_def skips_def)
  have "case fastStringStop src i fl of Inl r \<Rightarrow> string_verdict src j fl r | Inr (k, e) \<Rightarrow> skips src j k fl e"
  proof (cases "j < length src")
    case False
    then have "\<exists>e. parseStringFrom src j = Inl e"
      using sk by (subst parseStringFrom.simps) (simp add: skips_def scanStringSpecialScalar_eq)
    then show ?thesis using False by (auto simp: fastStringStop_def j_def [symmetric] string_verdict_def)
  next
    case jl: True
    have sp: "is_special_byte (src ! j)" "scanStringSpecialScalar src j = j"
      using fastStop_ge(2) [OF j_def jl] special_here [OF jl] by auto
    have b: "fastByteAt src j = src ! j" using jl by (simp add: fastByteAt_def)
    consider (quote) "src ! j = 0x22" | (esc) "src ! j = 0x5C" | (ctl) "src ! j \<noteq> 0x22" "src ! j \<noteq> 0x5C" "src ! j < 0x20"
      | (run) "src ! j \<noteq> 0x22" "src ! j \<noteq> 0x5C" "\<not> src ! j < 0x20" by blast
    then show ?thesis
    proof cases
      case quote
      then show ?thesis using jl b parseStringFrom_quote [OF jl quote]
        by (simp add: fastStringStop_def j_def [symmetric] string_verdict_def)
    next
      case ctl
      then have "\<exists>e. parseStringFrom src j = Inl e" using sp jl by (subst parseStringFrom.simps) auto
      then show ?thesis using ctl jl b by (auto simp: fastStringStop_def j_def [symmetric] string_verdict_def)
    next
      case run
      then have hi: "0x80 \<le> src ! j" using sp by (auto simp: is_special_byte_def)
      obtain k bad where r: "scanStringUnicodeRun src j = (k, bad)" by (cases "scanStringUnicodeRun src j")
      show ?thesis
      proof (cases bad)
        case None
        then show ?thesis using run_skips [of src j k fl] r jl hi run b
          by (simp add: fastStringStop_def j_def [symmetric])
      next
        case (Some p)
        then have "\<exists>e. parseStringFrom src j = Inl e" using sp jl run r by (subst parseStringFrom.simps) auto
        then show ?thesis using Some r jl run b by (auto simp: fastStringStop_def j_def [symmetric] string_verdict_def)
      qed
    next
      case esc
      have p: "parseStringFrom src j = (if Suc j \<ge> length src then Inl (syntaxError src (int (j + 1)) UnterminatedEscape)
          else case validateEscape src (Suc j) of Inl e \<Rightarrow> Inl e | Inr k \<Rightarrow> parseStringFrom src k)"
        using sp jl esc by (subst parseStringFrom.simps) simp
      show ?thesis
      proof (cases "Suc j < length src")
        case False
        then show ?thesis using p jl b esc by (auto simp: fastStringStop_def j_def [symmetric] string_verdict_def)
      next
        case True
        note e = escape_skips [OF True esc, of _ fl]
        have c: "fastByteAt src (Suc j) = src ! Suc j" using True by (simp add: fastByteAt_def)
        show ?thesis
        proof (cases "src ! Suc j = 0x75")
          case u: True
          show ?thesis using unicode_escape_agrees [OF True u] p True jl b c u esc e
            by (auto simp: fastStringStop_def j_def [symmetric] string_verdict_def split: option.splits)
        next
          case False
          then have "validateEscape src (Suc j) = Inr (Suc (Suc j)) \<or> (\<exists>e. validateEscape src (Suc j) = Inl e)"
            by (simp add: validateEscape_def Let_def)
          then show ?thesis using p True jl b c False esc e
            by (auto simp: fastStringStop_def j_def [symmetric] string_verdict_def validateEscape_def Let_def split: if_splits)
        qed
      qed
    qed
  qed
  then show ?thesis using skips_verdict [OF sk] skips_trans [OF sk] by (auto split: sum.splits)
qed

lemma fastStringStep_agrees:
  assumes "i \<le> length src"
  shows "case fastStringStep src i fl of
      Inl r \<Rightarrow> string_verdict src i fl r
    | Inr (k, e) \<Rightarrow> skips src i k fl e"
proof -
  have e: "fastStringStep src i fl = (case fastEscapeRun src i fl of
      None \<Rightarrow> Inl (i, True, False) | Some (i, fl) \<Rightarrow> fastStringStop src i fl)"
    by (simp add: fastStringStep_def scanUnicodeEscapeRun_def)
  show ?thesis
  proof (cases "fastEscapeRun src i fl")
    case None
    then show ?thesis using fastEscapeRun_agrees [OF assms, of fl] by (auto simp: e string_verdict_def)
  next
    case (Some r)
    obtain k b where [simp]: "r = (k, b)" by (cases r)
    have sk: "skips src i k fl b" using fastEscapeRun_agrees [OF assms, of fl] Some by simp
    then have "k \<le> length src" by (simp add: skips_def)
    from fastStringStop_agrees [OF this, of b] show ?thesis
      using Some skips_verdict [OF sk] skips_trans [OF sk] by (auto simp: e split: sum.splits)
  qed
qed

lemma fastStringLoop_agrees: "i \<le> length src \<Longrightarrow> string_verdict src i fl (fastStringLoop src i fl)"
proof (induction src i fl rule: fastStringLoop.induct)
  case (1 src i fl)
  note st = fastStringStep_agrees [OF 1(2), of fl]
  show ?case
  proof (cases "fastStringStep src i fl")
    case (Inl r)
    then show ?thesis using st by (subst fastStringLoop.simps) simp
  next
    case (Inr r)
    obtain k b where [simp]: "r = (k, b)" by (cases r)
    have sk: "skips src i k fl b" using st Inr by simp
    then have "string_verdict src k b (fastStringLoop src k b)" using 1(1) [OF Inr] by (simp add: skips_def)
    then show ?thesis using Inr skips_verdict [OF sk] by (subst fastStringLoop.simps) simp
  qed
qed

lemma scanJSONStringFastFrom_agrees:
  "i \<le> length src \<Longrightarrow> string_verdict src i False (scanJSONStringFastFrom src i)"
  by (simp add: scanJSONStringFastFrom_def fastStringLoop_agrees)

text \<open>A whole word without a special byte, and the first special byte of a word.\<close>

lemma clean_skips:
  assumes "i \<le> k" "k \<le> length src" "\<And>j. i \<le> j \<Longrightarrow> j < k \<Longrightarrow> \<not> is_special_byte (src ! j)"
  shows "skips src i k fl fl"
proof -
  have "scanStringSpecialScalar src i = scanStringSpecialScalar src k"
    using assms by (simp add: scanStringSpecialScalar_eq first_stop_skip)
  then have "parseStringFrom src i = parseStringFrom src k" by (subst (1 2) parseStringFrom.simps) simp
  moreover have "\<forall>c \<in> set (segment src i k). \<not> is_special_byte c" using assms by (subst segment_all_iff) auto
  ultimately show ?thesis using assms(1,2) by (auto simp: skips_def is_special_byte_def)
qed

lemma word_skips:
  assumes "i + 8 \<le> length src"
  shows "stringSpecialMask (load64 src i) = 0 \<Longrightarrow> skips src i (i + 8) fl fl"
    and "stringSpecialMask (load64 src i) \<noteq> 0 \<Longrightarrow>
      skips src i (i + trailing_zeros64 (stringSpecialMask (load64 src i)) div 8) fl fl \<and>
      i + trailing_zeros64 (stringSpecialMask (load64 src i)) div 8 < length src"
proof -
  let ?m = "stringSpecialMask (load64 src i)"
  have fl: "first_lane is_special_byte (load64 src i) ?m" by (rule first_lane_special)
  have ln: "lane k (load64 src i) = src ! (i + k)" if "k < 8" for k using that assms by (rule lane_load64)
  show "?m = 0 \<Longrightarrow> skips src i (i + 8) fl fl" for fl
  proof (rule clean_skips)
    show "\<not> is_special_byte (src ! j)" if "?m = 0" "i \<le> j" "j < i + 8" for j
      using first_lane_zero [of is_special_byte "load64 src i" "j - i"] fl that ln [of "j - i"] by simp
  qed (use assms in auto)
  assume "?m \<noteq> 0"
  note t = first_lane_trailing_zeros [OF fl this]
  have "skips src i (i + trailing_zeros64 ?m div 8) fl fl" for fl
  proof (rule clean_skips)
    show "\<not> is_special_byte (src ! j)" if "i \<le> j" "j < i + trailing_zeros64 ?m div 8" for j
      using t(1) t(3) [of "j - i"] ln [of "j - i"] that by simp
  qed (use t(1) assms in auto)
  then show "skips src i (i + trailing_zeros64 ?m div 8) fl fl \<and> i + trailing_zeros64 ?m div 8 < length src" for fl
    using t(1) assms by simp
qed

lemma quote_verdict: "j < length src \<Longrightarrow> fastByteAt src j = 0x22 \<Longrightarrow> string_verdict src j fl (j + 1, fl, True)"
  by (simp add: string_verdict_def fastByteAt_def parseStringFrom_quote)

text \<open>What \<^verbatim>\<open>parseString\<close> of the validator does, as the value of a scanner that drops the escaped flag.\<close>

definition accepted_end :: "SyntaxError + nat \<Rightarrow> nat \<times> bool \<Rightarrow> bool" where
  "accepted_end p r \<longleftrightarrow> (case p of Inl _ \<Rightarrow> \<not> snd r | Inr k \<Rightarrow> r = (k, True))"

lemma verdict_accepted: "string_verdict src i fl (k, e, ok) \<Longrightarrow> accepted_end (parseStringFrom src i) (k, ok)"
  by (auto simp: string_verdict_def accepted_end_def split: sum.splits)

lemma validStringFast_agrees:
  assumes "i < length src"
  shows "accepted_end (parseStringFrom src (Suc i)) (validStringFast src i)"
proof -
  let ?n = "length src"
  have fin: "accepted_end (parseStringFrom src (Suc i)) (case scanJSONStringFastFrom src k of (x, _, ok) \<Rightarrow> (x, ok))"
    if "skips src (Suc i) k False False" for k
    using skips_verdict [OF that] scanJSONStringFastFrom_agrees [of k src] that
    by (auto simp: skips_def split: prod.splits intro: verdict_accepted)
  have q: "accepted_end (parseStringFrom src (Suc i)) (Suc j, True)"
    if "skips src (Suc i) j False False" "j < ?n" "fastByteAt src j = 0x22" for j
    using skips_verdict [OF that(1) quote_verdict [OF that(2,3)]] by (auto intro: verdict_accepted)
  have base: "skips src (Suc i) (Suc i) False False" using assms by (simp add: skips_def)
  show ?thesis
  proof (cases "Suc i + 8 \<le> ?n")
    case False
    then show ?thesis using fin [OF base] by (simp add: validStringFast_def scanJSONStringFastLong_def Let_def)
  next
    case True
    note w = word_skips [OF True, of False]
    show ?thesis
    proof (cases "stringSpecialMask (load64 src (Suc i)) = 0")
      case False
      then show ?thesis using w(2) q fin [OF base] True
        by (auto simp: validStringFast_def scanJSONStringFastLong_def Let_def)
    next
      case zero: True
      note sk = w(1) [OF zero]
      show ?thesis
      proof (cases "Suc i + 8 + 8 \<le> ?n")
        case False
        then show ?thesis using zero True fin [OF sk] by (simp add: validStringFast_def Let_def)
      next
        case t2: True
        note w2 = word_skips [OF t2, of False]
        show ?thesis
        proof (cases "stringSpecialMask (load64 src (Suc i + 8)) = 0")
          case z2: True
          then show ?thesis using fin [OF skips_trans [OF sk w2(1) [OF z2]]] zero True t2
            by (simp add: validStringFast_def Let_def)
        next
          case False
          then have s2: "skips src (Suc i) (Suc i + 8 + trailing_zeros64 (stringSpecialMask (load64 src (Suc i + 8))) div 8) False False"
            "Suc i + 8 + trailing_zeros64 (stringSpecialMask (load64 src (Suc i + 8))) div 8 < ?n"
            using w2(2) skips_trans [OF sk] by auto
          show ?thesis using q [OF s2] fin [OF sk] zero True t2 False by (simp add: validStringFast_def Let_def)
        qed
      qed
    qed
  qed
qed

section \<open>Numbers\<close>

lemma swarTail_eq: "i \<le> length src \<Longrightarrow> swarTail src i = scanDigits src i"
proof -
  assume i: "i \<le> length src"
  have "scanDigits src i = scanDigits src (i + 8)" if w: "i + 8 \<le> length src" "nonDigitMask8 (load64 src i) = 0"
  proof -
    have "isDigit (src ! j)" if "i \<le> j" "j < i + 8" for j
      using first_lane_zero [of "\<lambda>b. \<not> isDigit b" "load64 src i" "j - i"] first_lane_nonDigit [of "load64 src i"] w that
        lane_load64 [of "j - i" i src] by simp
    then show ?thesis using w by (simp add: scanDigits_first_stop, intro first_stop_skip) auto
  qed
  then show ?thesis by (auto simp: swarTail_def)
qed

lemma fastInteger_swar: "i < length src \<Longrightarrow> fastInteger swarTail src i = fastInteger scanDigits src i"
  by (simp add: fastInteger_def swarTail_eq)

lemma scanNumber_variants_agree:
  "i < length src \<Longrightarrow> scanNumberFastTaggedSWAR src i = scanNumberFastTagged src i"
  by (simp add: scanNumberFastTaggedSWAR_def scanNumberFastTagged_def scanNumberWith_def fastInteger_swar)

lemma scanDigits_unroll: "i < length src \<Longrightarrow> isDigit (src ! i) \<Longrightarrow> scanDigits src i = scanDigits src (Suc i)"
  by (subst scanDigits.simps) simp

text \<open>\<open>plain_integer t\<close>: an optional minus and digits only.\<close>

definition plain_integer :: "bytes \<Rightarrow> bool" where
  "plain_integer t \<longleftrightarrow> (\<forall>c \<in> set t. c = 0x2D \<or> isDigit c)"

definition number_verdict :: "bytes \<Rightarrow> nat \<Rightarrow> nat \<times> syntax_msg option \<Rightarrow> bool \<Rightarrow> nat \<times> bool \<times> bool \<Rightarrow> bool" where
  "number_verdict src i p pre r \<longleftrightarrow>
     (case p of (k, Some _) \<Rightarrow> \<not> snd (snd r) | (k, None) \<Rightarrow> r = (k, pre \<and> plain_integer (segment src i k), True))"

lemma not_plain: "i \<le> j \<Longrightarrow> j < k \<Longrightarrow> k \<le> length src \<Longrightarrow> src ! j \<noteq> 0x2D \<Longrightarrow> \<not> isDigit (src ! j) \<Longrightarrow>
   \<not> plain_integer (segment src i k)"
  unfolding plain_integer_def by (subst segment_all_iff) auto

lemma plain_split: "i \<le> j \<Longrightarrow> j \<le> k \<Longrightarrow>
   plain_integer (segment src i k) \<longleftrightarrow> plain_integer (segment src i j) \<and> plain_integer (segment src j k)"
  by (auto simp: plain_integer_def segment_mem_append [of i j k])

lemma fastExponent_agrees:
  assumes "i \<le> length src"
  shows "number_verdict src i (scanExponent src i) pre (fastExponent src i pre)"
proof (cases "i < length src \<and> (src ! i = 0x65 \<or> src ! i = 0x45)")
  case False
  then show ?thesis
    by (auto simp: scanExponent_def fastExponent_def number_verdict_def fastByteAt_def plain_integer_def)
next
  case True
  define j where "j = (if Suc i < length src \<and> (src ! Suc i = 0x2B \<or> src ! Suc i = 0x2D) then Suc (Suc i) else Suc i)"
  have j: "fastExponent src i pre = (if j \<ge> length src \<or> \<not> isDigit (src ! j) then (j, False, False) else (scanDigits src (Suc j), False, True))"
    "scanExponent src i = (if j \<ge> length src \<or> \<not> isDigit (src ! j) then (j, Some InvalidExponent) else (scanDigits src j, None))"
    using True by (auto simp: fastExponent_def scanExponent_def fastByteAt_def j_def Let_def)
  have ij: "i < j" by (simp add: j_def)
  show ?thesis
  proof (cases "j \<ge> length src \<or> \<not> isDigit (src ! j)")
    case False
    then have d: "scanDigits src j = scanDigits src (Suc j)" "j < scanDigits src j" "scanDigits src j \<le> length src"
      using scanDigits_nonempty [of j src] scanDigits_sound(2) [of j src] by (auto simp: scanDigits_unroll)
    have "\<not> isDigit (src ! i) \<and> src ! i \<noteq> 0x2D" using True by (auto simp: isDigit_def)
    then have "\<not> plain_integer (segment src i (scanDigits src j))" using d ij by (intro not_plain [of i i]) auto
    then show ?thesis using False j d(1) by (simp add: number_verdict_def)
  qed (use j in \<open>auto simp: number_verdict_def\<close>)
qed

lemma verdict_false:
  "number_verdict src j p False r \<Longrightarrow> (\<And>k. p = (k, None) \<Longrightarrow> \<not> plain_integer (segment src i k)) \<Longrightarrow> number_verdict src i p True r"
  by (auto simp: number_verdict_def split: prod.splits option.splits)

lemma verdict_extend:
  assumes "number_verdict src j p True r" "i \<le> j" "plain_integer (segment src i j)" "\<And>k. p = (k, None) \<Longrightarrow> j \<le> k"
  shows "number_verdict src i p True r"
proof -
  obtain k e where p: "p = (k, e)" by (cases p)
  show ?thesis
  proof (cases e)
    case None
    then have "plain_integer (segment src i k) \<longleftrightarrow> plain_integer (segment src j k)"
      using assms plain_split [of i j k src] p by simp
    then show ?thesis using assms(1) p None by (simp add: number_verdict_def)
  qed (use assms(1) p in \<open>simp add: number_verdict_def\<close>)
qed

lemma fastFraction_agrees:
  assumes "i \<le> length src"
  shows "number_verdict src i (scanFraction src i) True (fastFraction src i)"
proof (cases "i < length src \<and> src ! i = 0x2E")
  case False
  then show ?thesis using fastExponent_agrees [OF assms] by (auto simp: scanFraction_def fastFraction_def fastByteAt_def)
next
  case True
  show ?thesis
  proof (cases "Suc i \<ge> length src \<or> \<not> isDigit (src ! Suc i)")
    case bad: True
    then show ?thesis using True by (auto simp: scanFraction_def fastFraction_def fastByteAt_def number_verdict_def)
  next
    case False
    then have d: "scanDigits src (Suc i) = scanDigits src (Suc (Suc i))" "scanDigitsLong src (Suc i) = scanDigits src (Suc i)"
      "Suc i < scanDigits src (Suc i)" "scanDigits src (Suc i) \<le> length src"
      using scanDigits_nonempty [of "Suc i" src] scanDigits_sound(2) [of "Suc i" src]
      by (auto simp: scanDigits_unroll scanDigitsLong_eq)
    let ?j = "scanDigits src (Suc i)"
    have e: "scanFraction src i = scanExponent src ?j" "fastFraction src i = fastExponent src ?j False"
      using True False d by (auto simp: scanFraction_def fastFraction_def fastByteAt_def)
    have "\<not> plain_integer (segment src i k)" if "scanExponent src ?j = (k, None)" for k
      using scanExponent_sound [OF that d(4)] d(3) True by (intro not_plain [of i i]) (auto simp: isDigit_def)
    then show ?thesis unfolding e using fastExponent_agrees [OF d(4), of False] by (rule verdict_false [rotated])
  qed
qed

lemma digits_plain: "digits t \<Longrightarrow> plain_integer t"
  by (simp add: digits_def plain_integer_def)

lemma fastInteger_agrees:
  assumes "i < length src"
  shows "number_verdict src i (scanInteger src i) True (fastInteger scanDigits src i)"
proof -
  have step: "number_verdict src i (scanFraction src j) True (fastFraction src j)"
    if "i \<le> j" "j \<le> length src" "digits (segment src i j)" for j
    using verdict_extend [OF fastFraction_agrees [OF that(2)] that(1) digits_plain [OF that(3)]]
      scanFraction_sound [OF _ that(2)] by fastforce
  have z: "number_verdict src i (scanFraction src (Suc i)) True (fastFraction src (Suc i))" if "src ! i = 0x30"
    using that assms by (intro step) (auto simp: segment_one isDigit_def)
  have o: "number_verdict src i (scanFraction src (scanDigits src (Suc i))) True (fastFraction src (scanDigits src (Suc i)))"
    if "isOneNine (src ! i)"
    using that assms isOneNine_isDigit [OF that] scanDigits_sound [of i src] scanDigits_unroll [of i src]
    by (intro step) auto
  show ?thesis
    using assms z o by (auto simp: scanInteger_def fastInteger_def fastByteAt_def number_verdict_def [of _ _ "(_, Some _)"])
qed

lemma scanNumberFastTagged_agrees:
  assumes "i < length src"
  shows "number_verdict src i (scanNumber src i) True (scanNumberFastTagged src i)"
proof (cases "src ! i = 0x2D")
  case True
  show ?thesis
  proof (cases "Suc i < length src")
    case l: True
    have "number_verdict src i (scanInteger src (Suc i)) True (fastInteger scanDigits src (Suc i))"
    proof (rule verdict_extend [OF fastInteger_agrees [OF l]])
      show "plain_integer (segment src i (Suc i))" using True assms by (simp add: segment_one plain_integer_def)
      show "scanInteger src (Suc i) = (k, None) \<Longrightarrow> Suc i \<le> k" for k using scanInteger_sound [OF _ l] by fastforce
    qed simp
    then show ?thesis using assms True l
      by (simp add: scanNumber_def scanNumberFastTagged_def scanNumberWith_def fastByteAt_def)
  next
    case False
    then show ?thesis using assms True
      by (simp add: scanNumber_def scanNumberFastTagged_def scanNumberWith_def fastByteAt_def number_verdict_def)
  qed
next
  case False
  then show ?thesis using fastInteger_agrees [OF assms] assms
    by (simp add: scanNumber_def scanNumberFastTagged_def scanNumberWith_def fastByteAt_def)
qed

section \<open>Literals\<close>

lemma literal_word:
  assumes "length t = 4" "i + 4 \<le> length src"
  shows "loadUint32LE src i = le_word t \<longleftrightarrow> get_bytes i 4 src = t"
  using le_word_inj [of "get_bytes i 4 src" t, where 'a = 32] assms
  by (auto simp: loadUint32LE_def length_get_bytes)

lemma literal_words:
  "wordTrueLE = le_word (ascii ''true'')" "wordAlseLE = le_word (ascii ''alse'')" "wordNullLE = le_word (ascii ''null'')"
  by (simp_all add: wordTrueLE_def wordAlseLE_def wordNullLE_def)

lemma get_bytes_Cons: "i < length src \<Longrightarrow> get_bytes i (Suc n) src = src ! i # get_bytes (Suc i) n src"
  by (simp add: get_bytes_def Cons_nth_drop_Suc [symmetric])

lemma literal_probes:
  assumes "i < length src"
  shows "\<not> (i + 4 > length src \<or> loadUint32LE src i \<noteq> wordTrueLE) \<longleftrightarrow> matchStringAt src i (ascii ''true'')"
    and "\<not> (i + 4 > length src \<or> loadUint32LE src i \<noteq> wordNullLE) \<longleftrightarrow> matchStringAt src i (ascii ''null'')"
    and "src ! i = 0x66 \<Longrightarrow>
      \<not> (i + 5 > length src \<or> loadUint32LE src (i + 1) \<noteq> wordAlseLE) \<longleftrightarrow> matchStringAt src i (ascii ''false'')"
proof -
  have l: "length (ascii ''true'') = 4" "length (ascii ''null'') = 4" "length (ascii ''alse'') = 4" "length (ascii ''false'') = 5"
    by simp_all
  have m: "matchStringAt src i t \<longleftrightarrow> i + length t \<le> length src \<and> get_bytes i (length t) src = t" for t
    using assms by (simp add: matchStringAt_iff)
  show "\<not> (i + 4 > length src \<or> loadUint32LE src i \<noteq> wordTrueLE) \<longleftrightarrow> matchStringAt src i (ascii ''true'')"
    unfolding m l literal_words using literal_word [OF l(1), of i src] by auto
  show "\<not> (i + 4 > length src \<or> loadUint32LE src i \<noteq> wordNullLE) \<longleftrightarrow> matchStringAt src i (ascii ''null'')"
    unfolding m l literal_words using literal_word [OF l(2), of i src] by auto
  assume f: "src ! i = 0x66"
  have "get_bytes i 5 src = ascii ''false'' \<longleftrightarrow> get_bytes (i + 1) 4 src = ascii ''alse''"
    using assms f get_bytes_Cons [of i src 4] by simp
  then show "\<not> (i + 5 > length src \<or> loadUint32LE src (i + 1) \<noteq> wordAlseLE) \<longleftrightarrow> matchStringAt src i (ascii ''false'')"
    unfolding m l literal_words using literal_word [OF l(3), of "i + 1" src] by auto
qed

section \<open>The bool-only validator\<close>

definition at_pos :: "bytes \<Rightarrow> nat \<Rightarrow> validator" where
  "at_pos src i = \<lparr>v_src = src, v_i = i, v_maxDepth = defaultMaxDepth, v_layout = None\<rparr>"

lemma at_pos_sel [simp]:
  "v_src (at_pos src i) = src" "v_i (at_pos src i) = i" "v_maxDepth (at_pos src i) = defaultMaxDepth"
  "v_advance (at_pos src i) = at_pos src (Suc i)" "v_skipSpace (at_pos src i) = at_pos src (skipSpace src i)"
  "countValue (at_pos src i) = at_pos src i" "countMember (at_pos src i) = at_pos src i"
  "openContainer (at_pos src i) = (None, at_pos src (Suc i))" "closeContainer None n (at_pos src i) = at_pos src (Suc i)"
  "v_at (at_pos src i) c \<longleftrightarrow> i < length src \<and> src ! i = c" "(at_pos src i)\<lparr>v_i := j\<rparr> = at_pos src j"
  by (simp_all add: at_pos_def v_advance_def v_skipSpace_def countValue_def countMember_def openContainer_def
      closeContainer_def v_at_def)

text \<open>The two validators agree: unless the diagnostic one ran out of fuel, both refuse or both stop at the same position.\<close>

definition agrees :: "bytes \<Rightarrow> (SyntaxError + validator) option \<Rightarrow> (nat \<times> bool) option \<Rightarrow> bool" where
  "agrees src p r \<longleftrightarrow>
     (case p of
        None \<Rightarrow> True
      | Some (Inl _) \<Rightarrow> (\<exists>k. r = Some (k, False))
      | Some (Inr w) \<Rightarrow> (\<exists>k. w = at_pos src k \<and> k \<le> length src \<and> r = Some (k, True)))"

lemma agrees_simps [simp]:
  "agrees src None r" "agrees src (Some (Inl e)) (Some (k, False))"
  "k \<le> length src \<Longrightarrow> agrees src (Some (Inr (at_pos src k))) (Some (k, True))"
  by (auto simp: agrees_def)

definition values_agree :: "bytes \<Rightarrow> (nat \<Rightarrow> validator \<Rightarrow> (SyntaxError + validator) option) \<Rightarrow>
    (nat \<Rightarrow> byte \<Rightarrow> nat \<Rightarrow> (nat \<times> bool) option) \<Rightarrow> bool" where
  "values_agree src pv vv \<longleftrightarrow>
     (\<forall>i d. i < length src \<longrightarrow> d \<le> defaultMaxDepth \<longrightarrow> agrees src (pv d (at_pos src i)) (vv i (src ! i) d)) \<and>
     (\<forall>d. pv d (at_pos src (length src)) = None \<or> (\<exists>e. pv d (at_pos src (length src)) = Some (Inl e)))"

lemma values_agreeD:
  assumes "values_agree src pv vv"
  shows "i < length src \<Longrightarrow> d \<le> defaultMaxDepth \<Longrightarrow> agrees src (pv d (at_pos src i)) (vv i (src ! i) d)"
    and "pv d (at_pos src (length src)) = Some (Inr w) \<Longrightarrow> False"
proof -
  show "i < length src \<Longrightarrow> d \<le> defaultMaxDepth \<Longrightarrow> agrees src (pv d (at_pos src i)) (vv i (src ! i) d)"
    using assms by (simp add: values_agree_def)
  show "pv d (at_pos src (length src)) = Some (Inr w) \<Longrightarrow> False"
    using assms unfolding values_agree_def by (metis Inl_Inr_False option.distinct(1) option.inject)
qed

lemma agrees_cases:
  assumes "agrees src p r"
  obtains "p = None" | e k where "p = Some (Inl e)" "r = Some (k, False)"
  | k where "p = Some (Inr (at_pos src k))" "r = Some (k, True)" "k \<le> length src"
  using assms by (auto simp: agrees_def split: option.splits sum.splits)

lemma elems_at_end:
  assumes "values_agree src pv vv"
  shows "agrees src (parseElems pv n d None c (at_pos src (length src))) (Some (k, False))"
proof (cases n)
  case (Suc m)
  have "skipSpace src (length src) = length src" using skipSpace_sound [of "length src" src] by simp
  then show ?thesis using values_agreeD(2) [OF assms] Suc
    by (auto simp: parseElems.simps split: option.splits sum.splits)
qed (simp add: parseElems.simps)

lemma elems_agree:
  assumes "values_agree src pv vv" "d < defaultMaxDepth"
  shows "i < length src \<Longrightarrow> skipSpace src i = i \<Longrightarrow>
    agrees src (parseElems pv n (Suc d) None c (at_pos src i)) (validElemsFast vv src n i (src ! i) d)"
proof (induction n arbitrary: i c)
  case (Suc n)
  have "agrees src (pv (Suc d) (at_pos src i)) (vv i (src ! i) (Suc d))"
    using values_agreeD(1) [OF assms(1)] assms(2) Suc.prems(1) by simp
  then show ?case
  proof (cases rule: agrees_cases)
    case (3 k)
    let ?j = "skipSpace src k"
    note sp = skipSpace_sound [OF 3(3)]
    have nx: "nextSignificantFast src k = (?j, fastByteAt src ?j)" using 3(3) by (rule nextSignificantFast_eq)
    consider "?j = length src" | "?j < length src" "src ! ?j = 0x2C" | "?j < length src" "src ! ?j \<noteq> 0x2C"
      using sp(2) by linarith
    then show ?thesis
    proof cases
      case 2
      let ?k = "skipSpace src (Suc ?j)"
      have le: "Suc ?j \<le> length src" using 2 by simp
      note sp2 = skipSpace_sound [OF le]
      have nx2: "nextSignificantFast src (Suc ?j) = (?k, fastByteAt src ?k)" using le by (rule nextSignificantFast_eq)
      have sk: "parseElems pv n (Suc d) None (Suc c) (at_pos src (Suc ?j)) = parseElems pv n (Suc d) None (Suc c) (at_pos src ?k)"
        using parseElems_skip [of "at_pos src (Suc ?j)" pv n "Suc d" None "Suc c"] le by simp
      show ?thesis
      proof (cases "?k < length src")
        case True
        then show ?thesis
          using Suc.IH [of ?k "Suc c"] skipSpace_idem [OF le] 2 3 nx nx2 sk Suc.prems
          by (simp add: parseElems.simps validElemsFast.simps fastByteAt_def)
      next
        case False
        then have e: "?k = length src" using sp2 by simp
        then show ?thesis
          using 2 3 nx nx2 sk Suc.prems elems_at_end [OF assms(1), of n "Suc d" "Suc c" "?k"]
          by (simp add: parseElems.simps validElemsFast.simps fastByteAt_def)
      qed
    qed (use 3 nx Suc.prems in \<open>simp_all add: parseElems.simps validElemsFast.simps fastByteAt_def\<close>)
  qed (use Suc.prems in \<open>simp_all add: parseElems.simps validElemsFast.simps\<close>)
qed (simp add: parseElems.simps)

lemma parseString_at_pos:
  "parseString (at_pos src i) = (case parseStringFrom src (Suc i) of Inl e \<Rightarrow> Inl e | Inr k \<Rightarrow> Inr (at_pos src k))"
  by (simp add: parseString_def split: sum.splits)

lemma members_at_end:
  "agrees src (parseMembers pv n d None c (at_pos src (length src))) (Some (k, False))"
proof (cases n)
  case (Suc m)
  have "skipSpace src (length src) = length src" using skipSpace_sound [of "length src" src] by simp
  then show ?thesis using Suc by (simp add: parseMembers.simps)
qed (simp add: parseMembers.simps)

text \<open>One turn of the member loop, up to its value.\<close>

lemma members_agree:
  assumes "values_agree src pv vv" "d < defaultMaxDepth"
  shows "i < length src \<Longrightarrow> skipSpace src i = i \<Longrightarrow>
    agrees src (parseMembers pv n (Suc d) None c (at_pos src i)) (validMembersFast vv src n i (src ! i) d)"
proof (induction n arbitrary: i c)
  case (Suc n)
  note simps = parseMembers.simps validMembersFast.simps fastByteAt_def parseString_at_pos
  show ?case
  proof (cases "src ! i = 0x22")
    case quote: True
    note str = validStringFast_agrees [OF Suc.prems(1)]
    show ?thesis
    proof (cases "parseStringFrom src (Suc i)")
      case (Inl e)
      then obtain k where "validStringFast src i = (k, False)" using str by (cases "validStringFast src i") (auto simp: accepted_end_def)
      then show ?thesis using Inl quote Suc.prems by (simp add: simps)
    next
      case (Inr k)
      then have vs: "validStringFast src i = (k, True)" using str by (simp add: accepted_end_def)
      have k: "k \<le> length src" using parseStringFrom_sound [OF Inr] Suc.prems(1) by simp
      let ?a = "skipSpace src k"
      have na: "nextSignificantFast src k = (?a, fastByteAt src ?a)" using k by (rule nextSignificantFast_eq)
      show ?thesis
      proof (cases "?a < length src \<and> src ! ?a = 0x3A")
        case False
        then show ?thesis using Inr vs na quote Suc.prems by (auto simp: simps)
      next
        case colon: True
        let ?b = "skipSpace src (Suc ?a)"
        have le: "Suc ?a \<le> length src" using colon by simp
        have nb: "nextSignificantFast src (Suc ?a) = (?b, fastByteAt src ?b)" using le by (rule nextSignificantFast_eq)
        show ?thesis
        proof (cases "?b < length src")
          case False
          then have e: "?b = length src" using skipSpace_sound(2) [OF le] by simp
          then show ?thesis using values_agreeD(2) [OF assms(1)] Inr vs na nb colon quote Suc.prems
            by (auto simp: simps split: option.splits sum.splits)
        next
          case True
          have "agrees src (pv (Suc d) (at_pos src ?b)) (vv ?b (src ! ?b) (Suc d))"
            using values_agreeD(1) [OF assms(1)] assms(2) True by simp
          then show ?thesis
          proof (cases rule: agrees_cases)
            case (3 m)
            let ?j = "skipSpace src m"
            note sp = skipSpace_sound [OF 3(3)]
            have nx: "nextSignificantFast src m = (?j, fastByteAt src ?j)" using 3(3) by (rule nextSignificantFast_eq)
            note so_far = Inr vs na nb colon quote Suc.prems True 3 nx
            consider "?j = length src" | "?j < length src" "src ! ?j = 0x2C" | "?j < length src" "src ! ?j \<noteq> 0x2C"
              using sp(2) by linarith
            then show ?thesis
            proof cases
              case 2
              let ?k = "skipSpace src (Suc ?j)"
              have le2: "Suc ?j \<le> length src" using 2 by simp
              have nx2: "nextSignificantFast src (Suc ?j) = (?k, fastByteAt src ?k)" using le2 by (rule nextSignificantFast_eq)
              have sk: "parseMembers pv n (Suc d) None (Suc c) (at_pos src (Suc ?j)) = parseMembers pv n (Suc d) None (Suc c) (at_pos src ?k)"
                using parseMembers_skip [of "at_pos src (Suc ?j)" pv n "Suc d" None "Suc c"] le2 by simp
              show ?thesis
              proof (cases "?k < length src")
                case True
                then show ?thesis using so_far 2 nx2 sk Suc.IH [of ?k "Suc c"] skipSpace_idem [OF le2] by (simp add: simps)
              next
                case False
                then have "?k = length src" using skipSpace_sound(2) [OF le2] by simp
                then show ?thesis using so_far 2 nx2 sk members_at_end [of src pv n "Suc d" "Suc c" ?k] by (simp add: simps)
              qed
            qed (use so_far in \<open>simp_all add: simps\<close>)
          qed (use Inr vs na nb colon quote Suc.prems True in \<open>simp_all add: simps\<close>)
        qed
      qed
    qed
  qed (use Suc.prems in \<open>simp add: simps\<close>)
qed (simp add: parseMembers.simps)

lemma literal_agrees:
  assumes i: "i < length src" and d: "d \<le> defaultMaxDepth" and c: "src ! i = 0x6E \<or> src ! i = 0x74 \<or> src ! i = 0x66"
  shows "agrees src (parseValue (Suc n) d (at_pos src i)) (validValueFast src (Suc n) i (src ! i) d)"
proof -
  have lit: "agrees src (Some (parseLiteral t (at_pos src i))) (if bad then Some (i, False) else Some (i + m, True))"
    if "\<not> bad \<longleftrightarrow> matchStringAt src i t" "length t = m" for t bad m
    using that i by (auto simp: parseLiteral_def matchStringAt_iff)
  show ?thesis
    using c
  proof (elim disjE)
    assume "src ! i = 0x6E"
    then show ?thesis using lit [OF literal_probes(2) [OF i], of 4] i d by (simp add: parseValue.simps validValueFast.simps split: if_splits)
  next
    assume "src ! i = 0x74"
    then show ?thesis using lit [OF literal_probes(1) [OF i], of 4] i d by (simp add: parseValue.simps validValueFast.simps split: if_splits)
  next
    assume f: "src ! i = 0x66"
    then show ?thesis using lit [OF literal_probes(3) [OF i f], of 5] i d by (simp add: parseValue.simps validValueFast.simps split: if_splits)
  qed
qed

lemma string_agrees:
  assumes i: "i < length src"
  shows "agrees src (Some (parseString (at_pos src i))) (Some (validStringFast src i))"
proof (cases "parseStringFrom src (Suc i)")
  case (Inl e)
  then obtain k where "validStringFast src i = (k, False)"
    using validStringFast_agrees [OF i] by (cases "validStringFast src i") (auto simp: accepted_end_def)
  then show ?thesis using Inl by (simp add: parseString_at_pos)
next
  case (Inr k)
  then show ?thesis
    using validStringFast_agrees [OF i] parseStringFrom_sound [OF Inr] i by (simp add: parseString_at_pos accepted_end_def)
qed

lemma number_agrees:
  assumes i: "i < length src"
  shows "agrees src (Some (parseNumber (at_pos src i))) (Some (scanNumberFast src i))"
proof -
  obtain k m where p: "scanNumber src i = (k, m)" by (cases "scanNumber src i")
  obtain k' g ok where f: "scanNumberFastTagged src i = (k', g, ok)" by (cases "scanNumberFastTagged src i")
  have v: "number_verdict src i (k, m) True (k', g, ok)" using scanNumberFastTagged_agrees [OF i] p f by simp
  show ?thesis
  proof (cases m)
    case None
    then show ?thesis using v p f scanNumber_sound [of src i k] i
      by (simp add: parseNumber_def number_verdict_def scanNumberFast_def)
  qed (use v p f in \<open>simp add: parseNumber_def number_verdict_def scanNumberFast_def\<close>)
qed

lemma array_agrees:
  assumes va: "values_agree src (parseValue n) (validValueFast src n)" and i: "i < length src" and c: "src ! i = 0x5B"
  shows "agrees src (parseArray (parseValue n) (Suc d) (at_pos src i)) (validValueFast src (Suc n) i (src ! i) d)"
proof (cases "d < defaultMaxDepth")
  case d: True
  let ?k = "skipSpace src (Suc i)"
  have le: "Suc i \<le> length src" using i by simp
  have nx: "nextSignificantFast src (Suc i) = (?k, fastByteAt src ?k)" using le by (rule nextSignificantFast_eq)
  show ?thesis
  proof (cases "?k < length src")
    case True
    then show ?thesis using d nx c elems_agree [OF va d True skipSpace_idem [OF le], of "length src + 1" 0]
      by (simp add: validValueFast.simps parseArray_def fastByteAt_def)
  next
    case False
    then have "?k = length src" using skipSpace_sound(2) [OF le] by simp
    then show ?thesis using d nx c elems_at_end [OF va, of "length src + 1" "Suc d" 0 ?k]
      by (simp add: validValueFast.simps parseArray_def)
  qed
qed (use c in \<open>simp add: validValueFast.simps parseArray_def\<close>)

lemma object_agrees:
  assumes va: "values_agree src (parseValue n) (validValueFast src n)" and i: "i < length src" and c: "src ! i = 0x7B"
  shows "agrees src (parseObject (parseValue n) (Suc d) (at_pos src i)) (validValueFast src (Suc n) i (src ! i) d)"
proof (cases "d < defaultMaxDepth")
  case d: True
  let ?k = "skipSpace src (Suc i)"
  have le: "Suc i \<le> length src" using i by simp
  have nx: "nextSignificantFast src (Suc i) = (?k, fastByteAt src ?k)" using le by (rule nextSignificantFast_eq)
  show ?thesis
  proof (cases "?k < length src")
    case True
    then show ?thesis using d nx c members_agree [OF va d True skipSpace_idem [OF le], of "length src + 1" 0]
      by (simp add: validValueFast.simps parseObject_def fastByteAt_def)
  next
    case False
    then have "?k = length src" using skipSpace_sound(2) [OF le] by simp
    then show ?thesis using d nx c members_at_end [of src "parseValue n" "length src + 1" "Suc d" 0 ?k]
      by (simp add: validValueFast.simps parseObject_def)
  qed
qed (use c in \<open>simp add: validValueFast.simps parseObject_def\<close>)

lemma values_fast_agree: "values_agree src (parseValue n) (validValueFast src n)"
proof (induction n)
  case (Suc n)
  have "agrees src (parseValue (Suc n) d (at_pos src i)) (validValueFast src (Suc n) i (src ! i) d)"
    if i: "i < length src" and d: "d \<le> defaultMaxDepth" for i d
  proof -
    let ?c = "src ! i"
    consider (lit) "?c = 0x6E \<or> ?c = 0x74 \<or> ?c = 0x66" | (str) "?c = 0x22" | (arr) "?c = 0x5B" | (obj) "?c = 0x7B"
      | (num) "?c \<notin> {0x6E, 0x74, 0x66, 0x22, 0x5B, 0x7B}" "?c = 0x2D \<or> isDigit ?c"
      | (bad) "?c \<notin> {0x6E, 0x74, 0x66, 0x22, 0x5B, 0x7B}" "\<not> (?c = 0x2D \<or> isDigit ?c)" by blast
    then show ?thesis
    proof cases
      case lit
      then show ?thesis by (rule literal_agrees [OF i d])
    next
      case str
      then show ?thesis using string_agrees [OF i] i d by (simp add: parseValue.simps validValueFast.simps)
    next
      case arr
      then show ?thesis using array_agrees [OF Suc i arr, of d] i d by (simp add: parseValue.simps)
    next
      case obj
      then show ?thesis using object_agrees [OF Suc i obj, of d] i d by (simp add: parseValue.simps)
    next
      case num
      then show ?thesis using number_agrees [OF i] i d by (auto simp: parseValue.simps validValueFast.simps)
    next
      case bad
      then show ?thesis using i d by (simp add: parseValue.simps validValueFast.simps)
    qed
  qed
  moreover have "\<exists>e. parseValue (Suc n) d (at_pos src (length src)) = Some (Inl e)" for d
    by (simp add: parseValue.simps)
  ultimately show ?case unfolding values_agree_def by blast
qed (simp add: values_agree_def parseValue.simps)

text \<open>The recursive bool-only validator answers on every input.\<close>

lemma validWalkFast_exact:
  "validWalkFast src = Some (\<exists>j. document_text j src \<and> jdepth j \<le> defaultMaxDepth)"
proof -
  let ?i = "skipSpace src 0"
  let ?p = "parseValue (parseFuel src) 0 (at_pos src ?i)"
  have run: "runValidator (at_pos src 0) = (case ?p of None \<Rightarrow> None | Some (Inl e) \<Rightarrow> Some (Inl e)
      | Some (Inr v) \<Rightarrow> let v = v_skipSpace v in
          if v_i v \<noteq> length (v_src v) then Some (Inl (v_err v (int (v_i v)) TrailingData)) else Some (Inr v))"
    by (simp add: runValidator_def)
  have spec: "(\<exists>w. runValidator (at_pos src 0) = Some (Inr w)) \<longleftrightarrow> (\<exists>j. document_text j src \<and> jdepth j \<le> defaultMaxDepth)"
    using runValidator_sound [of "at_pos src 0"] runValidator_complete [of _ "at_pos src 0"]
    by (auto simp: lay_ok_def at_pos_def)
  have some: "?p \<noteq> None" using runValidator_total [of "at_pos src 0"] run by (auto split: option.splits)
  have nx: "nextSignificantFast src 0 = (?i, fastByteAt src ?i)" by (simp add: nextSignificantFast_eq)
  note va = values_agreeD [OF values_fast_agree [of src "parseFuel src"]]
  have le: "?i \<le> length src" using skipSpace_sound [of 0 src] by simp
  have "validWalkFast src = Some (\<exists>w. runValidator (at_pos src 0) = Some (Inr w))"
  proof (cases "?i < length src")
    case True
    then have "agrees src ?p (validValueFast src (parseFuel src) ?i (src ! ?i) 0)" using va(1) by simp
    then show ?thesis
    proof (cases rule: agrees_cases)
      case (3 k)
      then show ?thesis using True nx run skipSpaceFast_eq [OF 3(3)] by (simp add: validWalkFast_def fastByteAt_def Let_def)
    qed (use True nx run some in \<open>simp_all add: validWalkFast_def fastByteAt_def\<close>)
  next
    case False
    then have "?i = length src" using le by simp
    then show ?thesis
      using False nx run va(2) [of 0] by (auto simp: validWalkFast_def split: option.splits sum.splits)
  qed
  then show ?thesis using spec by simp
qed

text \<open>C4. \<^verbatim>\<open>Valid\<close> and \<^verbatim>\<open>Validate\<close> decide the same language: on every input that the bitmap engine does not see or does not decide, the bool-only recursive validator answers, accepts exactly the RFC 8259 documents within the default depth limit, and agrees with the diagnostic validator.\<close>

theorem Valid_exact:
  assumes "length src < validBitmapMinBytes \<or> \<not> snd (validBitmap src)"
  shows "Valid validBitmap src = Some (\<exists>j. document_text j src \<and> jdepth j \<le> defaultMaxDepth) \<and>
    (Validate validBitmap src = Some None \<longleftrightarrow> (\<exists>j. document_text j src \<and> jdepth j \<le> defaultMaxDepth))"
proof -
  have "Valid validBitmap src = validWalkFast src" "Validate validBitmap src = validateOptions src 0"
    using assms by (auto simp: Valid_def validFast_def Validate_def split: prod.splits)
  then show ?thesis using validateOptions_iff [of src 0] by (simp add: validWalkFast_exact effectiveDepth_def)
qed

theorem Valid_exact_witness:
  "Valid (\<lambda>_. (False, False)) (ascii ''[1, {}]'') = Some (\<exists>j. document_text j (ascii ''[1, {}]'') \<and> jdepth j \<le> defaultMaxDepth) \<and>
   (Validate (\<lambda>_. (False, False)) (ascii ''[1, {}]'') = Some None \<longleftrightarrow> (\<exists>j. document_text j (ascii ''[1, {}]'') \<and> jdepth j \<le> defaultMaxDepth))"
  by (rule Valid_exact) simp

end
