(* ===== verification/TapeSpec.thy ===== *)
theory TapeSpec
  imports Tape FastScanCorrect
begin

text \<open>
  What a tape is: a relation between a region of the source, the value it denotes and the entries of that value, in
  the shape of the grammar of theory \<open>JsonText\<close>. It is independent of the builders. A container's entry spans its text, counts
  its members and skips its whole subtree; a key precedes the entries of its value.
\<close>

section \<open>The specification\<close>

definition gap :: "bytes \<Rightarrow> nat \<Rightarrow> nat \<Rightarrow> bool" where
  "gap src i j \<longleftrightarrow> i \<le> j \<and> j \<le> length src \<and> ws (segment src i j)"

definition byte_at :: "bytes \<Rightarrow> nat \<Rightarrow> byte \<Rightarrow> bool" where
  "byte_at src i c \<longleftrightarrow> i < length src \<and> src ! i = c"

definition literal_at :: "bytes \<Rightarrow> nat \<Rightarrow> nat \<Rightarrow> bytes \<Rightarrow> bool" where
  "literal_at src i j t \<longleftrightarrow> i \<le> j \<and> j \<le> length src \<and> segment src i j = t"

text \<open>A string literal with its quotes at \<open>[i, j)\<close>; the escaped flag says whether its inside has a backslash.\<close>

definition string_at :: "bytes \<Rightarrow> nat \<Rightarrow> nat \<Rightarrow> rune list \<Rightarrow> bool" where
  "string_at src i j rs \<longleftrightarrow> i + 1 < j \<and> j \<le> length src \<and> src ! i = 0x22 \<and> src ! (j - 1) = 0x22 \<and>
     string_text (segment src (i + 1) (j - 1)) rs"

definition escaped_flag :: "bytes \<Rightarrow> nat \<Rightarrow> nat \<Rightarrow> u8" where
  "escaped_flag src i j = (if 0x5C \<in> set (segment src (i + 1) (j - 1)) then tapeFlagEscaped else 0)"

definition containerEntry :: "nat \<Rightarrow> nat \<Rightarrow> u8 \<Rightarrow> nat \<Rightarrow> nat \<Rightarrow> IndexEntry" where
  "containerEntry i j kind count next =
     \<lparr>e_start = of_nat i, e_end = of_nat j, e_next = of_nat next, e_info = packInfo (of_nat count) kind 0\<rparr>"

inductive value_tape :: "bytes \<Rightarrow> nat \<Rightarrow> json \<Rightarrow> nat \<Rightarrow> IndexEntry list \<Rightarrow> bool"
  and elems_tape :: "bytes \<Rightarrow> nat \<Rightarrow> json list \<Rightarrow> nat \<Rightarrow> IndexEntry list \<Rightarrow> bool"
  and members_tape :: "bytes \<Rightarrow> nat \<Rightarrow> (rune list \<times> json) list \<Rightarrow> nat \<Rightarrow> IndexEntry list \<Rightarrow> bool" for src where
  t_null: "literal_at src i (i + 4) (ascii ''null'') \<Longrightarrow> value_tape src i JNull (i + 4) [scalarEntry i (i + 4) KNull 0]"
| t_true: "literal_at src i (i + 4) (ascii ''true'') \<Longrightarrow> value_tape src i JTrue (i + 4) [scalarEntry i (i + 4) KBool 0]"
| t_false: "literal_at src i (i + 5) (ascii ''false'') \<Longrightarrow> value_tape src i JFalse (i + 5) [scalarEntry i (i + 5) KBool 0]"
| t_number: "literal_at src i j t \<Longrightarrow> number_text t \<Longrightarrow>
    value_tape src i (JNumber t) j [scalarEntry i j KNumber (numberFlags (plain_integer t))]"
| t_string: "string_at src i j rs \<Longrightarrow>
    value_tape src i (JString rs) j [scalarEntry i j KString (escaped_flag src i j)]"
| t_array_empty: "byte_at src i 0x5B \<Longrightarrow> gap src (i + 1) k \<Longrightarrow> byte_at src k 0x5D \<Longrightarrow>
    value_tape src i (JArray []) (k + 1) [containerEntry i (k + 1) KArray 0 1]"
| t_array: "byte_at src i 0x5B \<Longrightarrow> gap src (i + 1) k \<Longrightarrow> elems_tape src k vs j es \<Longrightarrow> length vs \<le> infoMaxCount \<Longrightarrow>
    value_tape src i (JArray vs) j (containerEntry i j KArray (length vs) (1 + length es) # es)"
| t_object_empty: "byte_at src i 0x7B \<Longrightarrow> gap src (i + 1) k \<Longrightarrow> byte_at src k 0x7D \<Longrightarrow>
    value_tape src i (JObject []) (k + 1) [containerEntry i (k + 1) KObject 0 1]"
| t_object: "byte_at src i 0x7B \<Longrightarrow> gap src (i + 1) k \<Longrightarrow> members_tape src k ms j es \<Longrightarrow> length ms \<le> infoMaxCount \<Longrightarrow>
    value_tape src i (JObject ms) j (containerEntry i j KObject (length ms) (1 + length es) # es)"
| t_elems_one: "value_tape src i v k es \<Longrightarrow> gap src k m \<Longrightarrow> byte_at src m 0x5D \<Longrightarrow> elems_tape src i [v] (m + 1) es"
| t_elems_cons: "value_tape src i v k es \<Longrightarrow> gap src k m \<Longrightarrow> byte_at src m 0x2C \<Longrightarrow> gap src (m + 1) p \<Longrightarrow>
    elems_tape src p vs j fs \<Longrightarrow> elems_tape src i (v # vs) j (es @ fs)"
| t_members_one: "string_at src i q rs \<Longrightarrow> gap src q a \<Longrightarrow> byte_at src a 0x3A \<Longrightarrow> gap src (a + 1) b \<Longrightarrow>
    value_tape src b v k es \<Longrightarrow> gap src k m \<Longrightarrow> byte_at src m 0x7D \<Longrightarrow>
    members_tape src i [(rs, v)] (m + 1) (scalarEntry i q KString (tapeFlagKey OR escaped_flag src i q) # es)"
| t_members_cons: "string_at src i q rs \<Longrightarrow> gap src q a \<Longrightarrow> byte_at src a 0x3A \<Longrightarrow> gap src (a + 1) b \<Longrightarrow>
    value_tape src b v k es \<Longrightarrow> gap src k m \<Longrightarrow> byte_at src m 0x2C \<Longrightarrow> gap src (m + 1) p \<Longrightarrow>
    members_tape src p ms j fs \<Longrightarrow>
    members_tape src i ((rs, v) # ms) j (scalarEntry i q KString (tapeFlagKey OR escaped_flag src i q) # es @ fs)"

text \<open>The tape of a whole document.\<close>

definition document_tape :: "bytes \<Rightarrow> json \<Rightarrow> IndexEntry list \<Rightarrow> bool" where
  "document_tape src v es \<longleftrightarrow> (\<exists>i j. gap src 0 i \<and> value_tape src i v j es \<and> gap src j (length src))"

section \<open>The info word\<close>

lemma bit_infoCountMask: "bit infoCountMask n \<longleftrightarrow> n < 26"
proof -
  have e: "infoCountMask = mask 26" by (simp add: infoCountMask_def mask_eq_exp_minus_1)
  show ?thesis unfolding e by (auto simp: bit_mask_iff)
qed

lemma bit_infoKindMask: "bit infoKindMask n \<longleftrightarrow> 26 \<le> n \<and> n < 29"
proof -
  have e: "infoKindMask = push_bit 26 (mask 3)" by (simp add: infoKindMask_def mask_eq_exp_minus_1)
  show ?thesis unfolding e bit_push_bit_iff bit_mask_iff by auto
qed

lemma small_bits: "unat x < 2 ^ m \<Longrightarrow> m \<le> n \<Longrightarrow> \<not> bit (x :: 'a::len word) n"
proof -
  assume "unat x < 2 ^ m" "m \<le> n"
  then have "\<not> bit (unat x) n" by (metis bit_take_bit_iff leD take_bit_nat_eq_self_iff)
  then show ?thesis by (simp add: bit_unsigned_iff bit_imp_le_length)
qed

lemma packInfo_parts:
  assumes "e_info e = packInfo n k f" "n < 2 ^ 26" "k < 8" "f < 8"
  shows "Kind e = k" "Count e = n" "entryFlags e = f"
proof -
  have n: "\<not> bit n m" if "26 \<le> m" for m
    using small_bits [of n 26 m] assms(2) that by (simp add: word_less_nat_alt)
  have k: "\<not> bit k m" if "3 \<le> m" for m using small_bits [of k 3 m] assms(3) that by (simp add: word_less_nat_alt)
  have f: "\<not> bit f m" if "3 \<le> m" for m using small_bits [of f 3 m] assms(4) that by (simp add: word_less_nat_alt)
  show "Kind e = k"
    unfolding Kind_def assms(1) packInfo_def
    by (rule bit_word_eqI) (use n k in \<open>auto simp: bit_simps bit_infoKindMask bit_infoCountMask simp flip: not_le\<close>)
  show "Count e = n"
    unfolding Count_def assms(1) packInfo_def
    by (rule bit_word_eqI) (use n in \<open>auto simp: bit_simps bit_infoCountMask simp flip: not_le\<close>)
  show "entryFlags e = f"
    unfolding entryFlags_def assms(1) packInfo_def
    by (rule bit_word_eqI) (use k f in \<open>auto simp: bit_simps bit_infoCountMask simp flip: not_le\<close>)
qed

lemma setCount_pack: "e_info (setCount n (openEntry i k)) = packInfo n k 0"
  unfolding setCount_def openEntry_def packInfo_def
  by (simp, rule bit_word_eqI) (auto simp: bit_simps bit_infoCountMask)

section \<open>White space\<close>

lemma gap_skip: "i \<le> length src \<Longrightarrow> gap src i (skipSpace src i)"
  using skipSpace_sound [of i src] by (simp add: gap_def)

lemma region_at: "i \<le> j \<Longrightarrow> j \<le> length src \<Longrightarrow> JsonText.at src i (segment src i j @ drop j src)"
  by (metis (no_types, lifting) JsonText.at_def append_take_drop_id drop_drop le_add_diff_inverse2 order_trans segment_def)

lemma skip_gap:
  assumes "gap src i j" "j = length src \<or> \<not> isJSONWhitespace (src ! j)"
  shows "skipSpace src i = j"
proof -
  have "JsonText.at src i (segment src i j @ drop j src)" using assms(1) by (intro region_at) (auto simp: gap_def)
  from skipSpace_complete [OF this] show ?thesis
    using assms by (cases "j < length src") (auto simp: gap_def hd_drop_conv_nth)
qed

lemma skip_gap_byte: "gap src i j \<Longrightarrow> byte_at src j c \<Longrightarrow> \<not> isJSONWhitespace c \<Longrightarrow>
   skipSpace src i = j \<and> nextSignificantFast src i = (j, c) \<and> skipSpaceFast src i = j"
  using skip_gap [of src i j] by (auto simp: byte_at_def gap_def nextSignificantFast_eq skipSpaceFast_eq fastByteAt_def)

lemma gap_le: "gap src i j \<Longrightarrow> i \<le> j \<and> j \<le> length src"
  by (simp add: gap_def)

lemma gap_trans: "gap src i j \<Longrightarrow> gap src j k \<Longrightarrow> gap src i k"
  unfolding gap_def using segment_append [of i j k src] ws_append [of "segment src i j" "segment src j k"] by auto

section \<open>The tape follows the grammar\<close>

lemma segment_bracket:
  "byte_at src i a \<Longrightarrow> i < k \<Longrightarrow> byte_at src k b \<Longrightarrow> segment src i (Suc k) = a # segment src (Suc i) k @ [b]"
  using segment_Cons [of i "Suc k" src] segment_snoc [of "Suc i" k src] by (simp add: byte_at_def)

lemma segment_byte: "byte_at src i a \<Longrightarrow> i < j \<Longrightarrow> j \<le> length src \<Longrightarrow> segment src i j = a # segment src (Suc i) j"
  by (simp add: byte_at_def segment_Cons)

lemma string_at_segment: "string_at src i j rs \<Longrightarrow> segment src i j = 0x22 # segment src (Suc i) (j - 1) @ [0x22]"
  using segment_bracket [of src i "0x22" "j - 1" "0x22"] by (auto simp: string_at_def byte_at_def)

lemma not_ws_bytes: "c \<in> {0x5B, 0x7B, 0x22, 0x2C, 0x5D, 0x7D, 0x3A, 0x6E, 0x74, 0x66, 0x2D} \<or> isDigit c \<Longrightarrow> \<not> isJSONWhitespace c"
  by (auto simp: isJSONWhitespace_def isDigit_def)

lemma literal_head: "literal_at src i j t \<Longrightarrow> t \<noteq> [] \<Longrightarrow> i < j \<and> j \<le> length src \<and> src ! i = hd t"
  by (cases "i < j") (auto simp: literal_at_def segment_Cons)

lemma number_head: "literal_at src i j t \<Longrightarrow> number_text t \<Longrightarrow> i < j \<and> j \<le> length src \<and> (src ! i = 0x2D \<or> isDigit (src ! i))"
  using literal_head [of src i j t] number_text_hd [of t] by auto

definition value_region :: "bytes \<Rightarrow> nat \<Rightarrow> json \<Rightarrow> nat \<Rightarrow> IndexEntry list \<Rightarrow> bool" where
  "value_region src i v j es \<longleftrightarrow> i < j \<and> j \<le> length src \<and> es \<noteq> [] \<and> json_text v (segment src i j) \<and>
     \<not> isJSONWhitespace (src ! i) \<and> src ! i \<noteq> 0x5D"

definition elems_region :: "bytes \<Rightarrow> nat \<Rightarrow> json list \<Rightarrow> nat \<Rightarrow> IndexEntry list \<Rightarrow> bool" where
  "elems_region src i vs j es \<longleftrightarrow> vs \<noteq> [] \<and> i < j - 1 \<and> byte_at src (j - 1) 0x5D \<and> es \<noteq> [] \<and>
     elems_text vs (segment src i (j - 1)) \<and> \<not> isJSONWhitespace (src ! i) \<and> src ! i \<noteq> 0x5D"

definition members_region :: "bytes \<Rightarrow> nat \<Rightarrow> (rune list \<times> json) list \<Rightarrow> nat \<Rightarrow> IndexEntry list \<Rightarrow> bool" where
  "members_region src i ms j es \<longleftrightarrow> ms \<noteq> [] \<and> i < j - 1 \<and> byte_at src (j - 1) 0x7D \<and> es \<noteq> [] \<and>
     members_text ms (segment src i (j - 1)) \<and> src ! i = 0x22"

lemma scalar_region:
  "literal_at src i (i + 4) (ascii ''null'') \<Longrightarrow> value_region src i JNull (i + 4) [e]"
  "literal_at src i (i + 4) (ascii ''true'') \<Longrightarrow> value_region src i JTrue (i + 4) [e]"
  "literal_at src i (i + 5) (ascii ''false'') \<Longrightarrow> value_region src i JFalse (i + 5) [e]"
  "literal_at src i j t \<Longrightarrow> number_text t \<Longrightarrow> value_region src i (JNumber t) j [e]"
  "string_at src i j rs \<Longrightarrow> value_region src i (JString rs) j [e]"
proof -
  note texts = json_text_elems_text_members_text.intros
  show "literal_at src i (i + 4) (ascii ''null'') \<Longrightarrow> value_region src i JNull (i + 4) [e]"
    using literal_head [of src i "i + 4" "ascii ''null''"] texts(1)
    by (simp add: value_region_def literal_at_def isJSONWhitespace_def)
  show "literal_at src i (i + 4) (ascii ''true'') \<Longrightarrow> value_region src i JTrue (i + 4) [e]"
    using literal_head [of src i "i + 4" "ascii ''true''"] texts(2)
    by (simp add: value_region_def literal_at_def isJSONWhitespace_def)
  show "literal_at src i (i + 5) (ascii ''false'') \<Longrightarrow> value_region src i JFalse (i + 5) [e]"
    using literal_head [of src i "i + 5" "ascii ''false''"] texts(3)
    by (simp add: value_region_def literal_at_def isJSONWhitespace_def)
  show "literal_at src i j t \<Longrightarrow> number_text t \<Longrightarrow> value_region src i (JNumber t) j [e]"
    using number_head [of src i j t] texts(4) [of t] not_ws_bytes [of "src ! i"]
    by (auto simp: value_region_def literal_at_def isDigit_def)
  show "string_at src i j rs \<Longrightarrow> value_region src i (JString rs) j [e]"
    using string_at_segment [of src i j rs] texts(5) [of "segment src (Suc i) (j - 1)" rs]
    by (auto simp: value_region_def string_at_def isJSONWhitespace_def)
qed

lemma ws_gap: "gap src i j \<Longrightarrow> ws (segment src i j)"
  by (simp add: gap_def)

lemma array_region:
  assumes "byte_at src i 0x5B" "gap src (i + 1) k"
  shows "byte_at src k 0x5D \<Longrightarrow> value_region src i (JArray []) (k + 1) [e]"
    and "elems_region src k vs j es \<Longrightarrow> value_region src i (JArray vs) j (e # es)"
proof -
  note texts = json_text_elems_text_members_text.intros
  have ik: "i < k" "src ! i = 0x5B" using gap_le [OF assms(2)] assms(1) by (auto simp: byte_at_def)
  show "byte_at src k 0x5D \<Longrightarrow> value_region src i (JArray []) (k + 1) [e]"
    using texts(6) [OF ws_gap [OF assms(2)]] segment_bracket [OF assms(1) ik(1)] ik
    by (auto simp: value_region_def byte_at_def isJSONWhitespace_def)
  assume r: "elems_region src k vs j es"
  then have k: "k < j - 1" "byte_at src (j - 1) 0x5D" by (auto simp: elems_region_def)
  have "elems_text vs (segment src (Suc i) k @ segment src k (j - 1))"
    using r elems_text_ws [of vs "segment src k (j - 1)" "segment src (Suc i) k"] ws_gap [OF assms(2)] by (simp add: elems_region_def)
  then have "elems_text vs (segment src (Suc i) (j - 1))" using ik(1) k(1) by (simp add: segment_append)
  from texts(7) [OF this] show "value_region src i (JArray vs) j (e # es)"
    using segment_bracket [OF assms(1) _ k(2)] ik k
    by (auto simp: value_region_def byte_at_def isJSONWhitespace_def)
qed

lemma object_region:
  assumes "byte_at src i 0x7B" "gap src (i + 1) k"
  shows "byte_at src k 0x7D \<Longrightarrow> value_region src i (JObject []) (k + 1) [e]"
    and "members_region src k ms j es \<Longrightarrow> value_region src i (JObject ms) j (e # es)"
proof -
  note texts = json_text_elems_text_members_text.intros
  have ik: "i < k" "src ! i = 0x7B" using gap_le [OF assms(2)] assms(1) by (auto simp: byte_at_def)
  show "byte_at src k 0x7D \<Longrightarrow> value_region src i (JObject []) (k + 1) [e]"
    using texts(8) [OF ws_gap [OF assms(2)]] segment_bracket [OF assms(1) ik(1)] ik
    by (auto simp: value_region_def byte_at_def isJSONWhitespace_def)
  assume r: "members_region src k ms j es"
  then have k: "k < j - 1" "byte_at src (j - 1) 0x7D" by (auto simp: members_region_def)
  have "members_text ms (segment src (Suc i) k @ segment src k (j - 1))"
    using r members_text_ws [of ms "segment src k (j - 1)" "segment src (Suc i) k"] ws_gap [OF assms(2)] by (simp add: members_region_def)
  then have "members_text ms (segment src (Suc i) (j - 1))" using ik(1) k(1) by (simp add: segment_append)
  from texts(9) [OF this] show "value_region src i (JObject ms) j (e # es)"
    using segment_bracket [OF assms(1) _ k(2)] ik k
    by (auto simp: value_region_def byte_at_def isJSONWhitespace_def)
qed

lemma elems_region_step:
  assumes v: "value_region src i v k es" and g: "gap src k m"
  shows "byte_at src m 0x5D \<Longrightarrow> elems_region src i [v] (m + 1) es"
    and "byte_at src m 0x2C \<Longrightarrow> gap src (m + 1) p \<Longrightarrow> elems_region src p vs j fs \<Longrightarrow> elems_region src i (v # vs) j (es @ fs)"
proof -
  note texts = json_text_elems_text_members_text.intros
  have le: "i < k" "k \<le> m" "m \<le> length src" "json_text v (segment src i k)"
    using v gap_le [OF g] by (auto simp: value_region_def)
  have m: "segment src i m = segment src i k @ segment src k m" using le by (simp add: segment_append)
  show "byte_at src m 0x5D \<Longrightarrow> elems_region src i [v] (m + 1) es"
    using texts(10) [OF ws_Nil le(4) ws_gap [OF g]] le v m by (simp add: elems_region_def value_region_def)
  assume c: "byte_at src m 0x2C" and q: "gap src (m + 1) p" and e: "elems_region src p vs j fs"
  have p: "Suc m \<le> p" "p < j - 1" "byte_at src (j - 1) 0x5D" "elems_text vs (segment src p (j - 1))"
    using gap_le [OF q] e by (auto simp: elems_region_def)
  have "elems_text vs (segment src (Suc m) (j - 1))"
    using elems_text_ws [OF p(4) ws_gap [OF q]] p by (simp add: segment_append)
  from texts(11) [OF ws_Nil le(4) ws_gap [OF g] this]
  have "elems_text (v # vs) (segment src i m @ 0x2C # segment src (Suc m) (j - 1))" by (simp add: m)
  moreover have "segment src i (j - 1) = segment src i m @ 0x2C # segment src (Suc m) (j - 1)"
    using segment_append [of i m "j - 1" src] segment_byte [OF c, of "j - 1"] le p by (simp add: byte_at_def)
  ultimately show "elems_region src i (v # vs) j (es @ fs)" using e v le p by (simp add: elems_region_def value_region_def)
qed

lemma members_region_step:
  assumes s: "string_at src i q rs" and a: "gap src q a" "byte_at src a 0x3A" "gap src (a + 1) b"
    and v: "value_region src b v k es" and g: "gap src k m"
  shows "byte_at src m 0x7D \<Longrightarrow> members_region src i [(rs, v)] (m + 1) (e # es)"
    and "byte_at src m 0x2C \<Longrightarrow> gap src (m + 1) p \<Longrightarrow> members_region src p ms j fs \<Longrightarrow>
      members_region src i ((rs, v) # ms) j (e # es @ fs)"
proof -
  note texts = json_text_elems_text_members_text.intros
  let ?q = "0x22 # segment src (Suc i) (q - 1) @ [0x22]"
  have le: "i < q" "q \<le> a" "Suc a \<le> b" "b < k" "k \<le> m" "m \<le> length src" "json_text v (segment src b k)"
    and st: "string_text (segment src (Suc i) (q - 1)) rs" "src ! i = 0x22"
    using s v gap_le [OF a(1)] gap_le [OF a(3)] gap_le [OF g] by (auto simp: value_region_def string_at_def)
  have m: "segment src i m = ?q @ segment src q a @ 0x3A # segment src (Suc a) b @ segment src b k @ segment src k m"
    using le segment_byte [OF a(2), of m] string_at_segment [OF s] segment_append [of i q m src] segment_append [of q a m src]
      segment_append [of "Suc a" b m src] segment_append [of b k m src] by simp
  show "byte_at src m 0x7D \<Longrightarrow> members_region src i [(rs, v)] (m + 1) (e # es)"
    using texts(12) [OF ws_Nil st(1) ws_gap [OF a(1)] ws_gap [OF a(3)] le(7) ws_gap [OF g]] le m st(2)
    by (simp add: members_region_def)
  assume c: "byte_at src m 0x2C" and h: "gap src (m + 1) p" and ms: "members_region src p ms j fs"
  have p: "Suc m \<le> p" "p < j - 1" "byte_at src (j - 1) 0x7D" "members_text ms (segment src p (j - 1))"
    using gap_le [OF h] ms by (auto simp: members_region_def)
  have "members_text ms (segment src (Suc m) (j - 1))"
    using members_text_ws [OF p(4) ws_gap [OF h]] p by (simp add: segment_append)
  from texts(13) [OF ws_Nil st(1) ws_gap [OF a(1)] ws_gap [OF a(3)] le(7) ws_gap [OF g] this]
  have "members_text ((rs, v) # ms) (segment src i m @ 0x2C # segment src (Suc m) (j - 1))" by (simp add: m)
  moreover have "segment src i (j - 1) = segment src i m @ 0x2C # segment src (Suc m) (j - 1)"
    using segment_append [of i m "j - 1" src] segment_byte [OF c, of "j - 1"] le p by (simp add: byte_at_def)
  ultimately show "members_region src i ((rs, v) # ms) j (e # es @ fs)" using ms le p st(2) by (simp add: members_region_def)
qed

lemma tape_regions:
  shows value_tape_region: "value_tape src i v j es \<Longrightarrow> value_region src i v j es"
    and elems_tape_region: "elems_tape src i vs j es \<Longrightarrow> elems_region src i vs j es"
    and members_tape_region: "members_tape src i ms j es \<Longrightarrow> members_region src i ms j es"
proof (induction rule: value_tape_elems_tape_members_tape.inducts)
qed (blast intro: scalar_region array_region object_region elems_region_step members_region_step)+

end
