(* ===== verification/TapeWalk.thy ===== *)
theory TapeWalk
  imports TapeSpec
begin

text \<open>
  The iterative builder against the specification: a run that succeeds from label \<^verbatim>\<open>value\<close> has read a value and written its
  tape when it reaches \<^verbatim>\<open>scopeEnd\<close>, and the other way round.
\<close>

section \<open>Strings\<close>

lemma string_at_iff:
  assumes "i < length src" "src ! i = 0x22"
  shows "(\<exists>rs. string_at src i k rs) \<longleftrightarrow> parseStringFrom src (Suc i) = Inr k"
proof
  assume "parseStringFrom src (Suc i) = Inr k"
  from parseStringFrom_sound [OF this] show "\<exists>rs. string_at src i k rs" using assms by (auto simp: string_at_def)
next
  assume "\<exists>rs. string_at src i k rs"
  then obtain rs where k: "Suc i < k" "k \<le> length src" "src ! (k - 1) = 0x22" "string_text (segment src (Suc i) (k - 1)) rs"
    by (auto simp: string_at_def)
  have "drop (k - 1) src = 0x22 # drop k src" using k Cons_nth_drop_Suc [of "k - 1" src] by simp
  then have "JsonText.at src (Suc i) (segment src (Suc i) (k - 1) @ 0x22 # drop k src)"
    using region_at [of "Suc i" "k - 1" src] k by simp
  from parseStringFrom_complete [OF k(4) this] show "parseStringFrom src (Suc i) = Inr k" using k by simp
qed

definition string_result ::
  "bytes \<Rightarrow> nat \<Rightarrow> nat \<Rightarrow> u8 \<Rightarrow> IndexEntry list \<Rightarrow> tapeParseStatus \<times> nat \<times> IndexEntry list" where
  "string_result src capacity i flags es =
     (case parseStringFrom src (Suc i) of
        Inl _ \<Rightarrow> (tapeParseInvalid, i, es)
      | Inr k \<Rightarrow> emitScalar capacity i k KString (flags OR escaped_flag src i k) es)"

lemma verdict_result:
  assumes "string_verdict src (Suc i) False (k, e, ok)"
  shows "(if \<not> ok then (tapeParseInvalid, i, es)
      else emitScalar capacity i k KString (if e then flags OR tapeFlagEscaped else flags) es) =
    string_result src capacity i flags es"
  using assms
  by (auto simp: string_verdict_def string_result_def escaped_flag_def split: sum.splits)

lemma stringFast_eq:
  assumes "i < length src"
  shows "stringFast src capacity i flags es = string_result src capacity i flags es"
proof -
  let ?m = "stringSpecialMask (load64 src (Suc i))"
  let ?j = "Suc i + trailing_zeros64 ?m div 8"
  define k where "k = (if i + 9 \<le> length src then if ?m \<noteq> 0 then ?j else i + 9 else Suc i)"
  have sk: "skips src (Suc i) k False False" "k \<le> length src"
    using word_skips [of "Suc i" src False] assms by (auto simp: k_def skips_def add.commute)
  show ?thesis
  proof (cases "i + 9 \<le> length src \<and> ?m \<noteq> 0 \<and> src ! ?j = 0x22")
    case True
    then have j: "k = ?j" "?j < length src" using word_skips(2) [of "Suc i" src False] by (auto simp: k_def)
    have "string_verdict src (Suc i) False (?j + 1, False, True)"
      using skips_verdict [OF sk(1)] quote_verdict [of ?j src False] j True by (simp add: fastByteAt_def)
    from verdict_result [OF this] show ?thesis using True by (simp add: stringFast_def Let_def)
  next
    case False
    have "string_verdict src (Suc i) False (scanJSONStringFastFrom src k)"
      using skips_verdict [OF sk(1)] scanJSONStringFastFrom_agrees [OF sk(2)] by simp
    then show ?thesis using False verdict_result
      by (cases "scanJSONStringFastFrom src k") (auto simp: stringFast_def Let_def k_def)
  qed
qed

section \<open>Scalars\<close>

text \<open>A scalar at \<open>i\<close>: its value, end and entry.\<close>

definition scalar_at :: "bytes \<Rightarrow> nat \<Rightarrow> json \<Rightarrow> nat \<Rightarrow> IndexEntry \<Rightarrow> bool" where
  "scalar_at src i v j e \<longleftrightarrow> value_tape src i v j [e] \<and> jdepth v = 0 \<and> src ! i \<noteq> 0x5B \<and> src ! i \<noteq> 0x7B"

definition value_result :: "nat \<Rightarrow> walkState \<Rightarrow> nat \<Rightarrow> IndexEntry \<Rightarrow> walkResult + walkState" where
  "value_result capacity s j e =
     (if length (w_entries s) = capacity then Inl (tapeParseFull, w_i s, w_entries s)
      else Inr (s\<lparr>w_label := LScopeEnd, w_i := j, w_entries := w_entries s @ [e]\<rparr>))"

lemma w_scalar_emit:
  "w_scalar (emitScalar capacity (w_i s) j k f (w_entries s)) s = value_result capacity s j (scalarEntry (w_i s) j k f)"
  by (simp add: w_scalar_def emitScalar_def pushEntry_def value_result_def)

lemma literal_at_iff:
  assumes "i < length src" "length t = n"
  shows "literal_at src i (i + n) t \<longleftrightarrow> matchStringAt src i t"
  using assms by (auto simp: literal_at_def matchStringAt_iff segment_def get_bytes_def)

lemma tagged_scan:
  assumes "i < length src"
  shows "(if swar then scanNumberFastTaggedSWAR src i else scanNumberFastTagged src i) = (j, g, True) \<longleftrightarrow>
    scanNumber src i = (j, None) \<and> g = plain_integer (segment src i j)"
proof -
  have "(if swar then scanNumberFastTaggedSWAR src i else scanNumberFastTagged src i) = scanNumberFastTagged src i"
    using scanNumber_variants_agree [OF assms] by simp
  then show ?thesis
    using scanNumberFastTagged_agrees [OF assms]
    by (cases "scanNumberFastTagged src i") (auto simp: number_verdict_def split: prod.splits option.splits)
qed

lemma number_value:
  assumes "i < length src" "scanNumber src i = (j, None)"
  shows "scalar_at src i (JNumber (segment src i j)) j (scalarEntry i j KNumber (numberFlags (plain_integer (segment src i j))))"
proof -
  have n: "i < j" "j \<le> length src" "number_text (segment src i j)" using scanNumber_sound [OF assms(2)] assms(1) by auto
  then have l: "literal_at src i j (segment src i j)" by (simp add: literal_at_def)
  have "src ! i \<noteq> 0x5B \<and> src ! i \<noteq> 0x7B" using number_head [OF l n(3)] by (auto simp: isDigit_def)
  then show ?thesis using t_number [OF l n(3)] by (simp add: scalar_at_def)
qed

lemma literal_scalar:
  assumes "i < length src" "src ! i \<noteq> 0x5B" "src ! i \<noteq> 0x7B"
  shows "matchStringAt src i (ascii ''null'') \<Longrightarrow> scalar_at src i JNull (i + 4) (scalarEntry i (i + 4) KNull 0)"
    and "matchStringAt src i (ascii ''true'') \<Longrightarrow> scalar_at src i JTrue (i + 4) (scalarEntry i (i + 4) KBool 0)"
    and "matchStringAt src i (ascii ''false'') \<Longrightarrow> scalar_at src i JFalse (i + 5) (scalarEntry i (i + 5) KBool 0)"
  using assms literal_at_iff [OF assms(1), of "ascii ''null''" 4] literal_at_iff [OF assms(1), of "ascii ''true''" 4]
    literal_at_iff [OF assms(1), of "ascii ''false''" 5]
  by (simp_all add: scalar_at_def t_null t_true t_false)

lemma walkValue_number:
  assumes "w_i s < length src" "src ! w_i s \<notin> {0x5B, 0x7B, 0x22, 0x74, 0x66, 0x6E}"
    and n: "(if swar then scanNumberFastTaggedSWAR src (w_i s) else scanNumberFastTagged src (w_i s)) = (j, g, ok)"
  shows "walkValue swar src capacity d s =
    (if (src ! w_i s = 0x2D \<or> isDigit (src ! w_i s)) \<and> ok
     then value_result capacity s j (scalarEntry (w_i s) j KNumber (numberFlags g)) else w_stop tapeParseInvalid s)"
proof -
  have b: "fastByteAt src (w_i s) = src ! w_i s" using assms(1) by (simp add: fastByteAt_def)
  have "walkValue swar src capacity d s = (if src ! w_i s \<noteq> 0x2D \<and> \<not> isDigit (src ! w_i s) then w_stop tapeParseInvalid s
      else if \<not> ok then w_stop tapeParseInvalid s
      else w_scalar (emitScalar capacity (w_i s) j KNumber (numberFlags g) (w_entries s)) s)"
    using assms(2) unfolding walkValue_def Let_def n b by simp
  then show ?thesis by (simp add: w_scalar_emit)
qed

lemma scalar_sound:
  assumes st: "walkValue swar src capacity d s = Inr s'" and i: "w_i s < length src"
    and c: "src ! w_i s \<noteq> 0x5B" "src ! w_i s \<noteq> 0x7B"
  shows "\<exists>v j e. scalar_at src (w_i s) v j e \<and> value_result capacity s j e = Inr s'"
proof -
  let ?i = "w_i s"
  have b: "fastByteAt src ?i = src ! ?i" using i by (simp add: fastByteAt_def)
  note lit = literal_scalar [OF i c] and probe = literal_probes [OF i]
  consider (str) "src ! ?i = 0x22" | (tr) "src ! ?i = 0x74" | (fa) "src ! ?i = 0x66" | (nu) "src ! ?i = 0x6E"
    | (num) "src ! ?i \<notin> {0x22, 0x74, 0x66, 0x6E}" by blast
  then show ?thesis
  proof cases
    case str
    then have w: "w_scalar (string_result src capacity ?i 0 (w_entries s)) s = Inr s'"
      using st b by (simp add: walkValue_def Let_def stringFast_eq [OF i])
    then obtain k where k: "parseStringFrom src (Suc ?i) = Inr k"
      by (cases "parseStringFrom src (Suc ?i)") (auto simp: string_result_def w_scalar_def)
    then have "value_result capacity s k (scalarEntry ?i k KString (escaped_flag src ?i k)) = Inr s'"
      using w by (simp add: string_result_def w_scalar_emit)
    note k = k this
    then obtain rs where "string_at src ?i k rs" using string_at_iff [OF i str] by blast
    then have "scalar_at src ?i (JString rs) k (scalarEntry ?i k KString (escaped_flag src ?i k))"
      using t_string [of src ?i k rs] str by (simp add: scalar_at_def)
    then show ?thesis using k(2) by blast
  next
    case tr
    then show ?thesis using st b lit(2) probe(1) by (auto simp: walkValue_def Let_def w_stop_def w_scalar_emit split: if_splits)
  next
    case fa
    then show ?thesis using st b lit(3) probe(3) by (auto simp: walkValue_def Let_def w_stop_def w_scalar_emit split: if_splits)
  next
    case nu
    then show ?thesis using st b lit(1) probe(2) by (auto simp: walkValue_def Let_def w_stop_def w_scalar_emit split: if_splits)
  next
    case num
    obtain j g ok where n: "(if swar then scanNumberFastTaggedSWAR src ?i else scanNumberFastTagged src ?i) = (j, g, ok)"
      by (cases "if swar then scanNumberFastTaggedSWAR src ?i else scanNumberFastTagged src ?i")
    have "src ! ?i \<notin> {0x5B, 0x7B, 0x22, 0x74, 0x66, 0x6E}" using num c by simp
    from walkValue_number [OF i this n, of capacity d]
    have "ok" "value_result capacity s j (scalarEntry ?i j KNumber (numberFlags g)) = Inr s'"
      using st by (auto simp: w_stop_def split: if_splits)
    with n have "(if swar then scanNumberFastTaggedSWAR src ?i else scanNumberFastTagged src ?i) = (j, g, True)"
      "value_result capacity s j (scalarEntry ?i j KNumber (numberFlags g)) = Inr s'" by simp_all
    then show ?thesis using tagged_scan [OF i, of swar j g] number_value [OF i, of j] by metis
  qed
qed

lemma scalar_step_complete:
  assumes "scalar_at src (w_i s) v j e" "number_end (drop j src)"
  shows "walkValue swar src capacity d s = value_result capacity s j e"
proof -
  let ?i = "w_i s"
  have t: "value_tape src ?i v j [e]" and c: "src ! ?i \<noteq> 0x5B" "src ! ?i \<noteq> 0x7B" using assms by (auto simp: scalar_at_def)
  have i: "?i < length src" using value_tape_region [OF t] by (auto simp: value_region_def)
  have b: "fastByteAt src ?i = src ! ?i" using i by (simp add: fastByteAt_def)
  note probe = literal_probes [OF i]
  show ?thesis
    using t
  proof (cases rule: value_tape.cases)
    case t_null
    then show ?thesis using probe(2) literal_at_iff [OF i, of "ascii ''null''" 4] literal_head [OF t_null(4)] b
      by (auto simp: walkValue_def Let_def w_scalar_emit)
  next
    case t_true
    then show ?thesis using probe(1) literal_at_iff [OF i, of "ascii ''true''" 4] literal_head [OF t_true(4)] b
      by (auto simp: walkValue_def Let_def w_scalar_emit)
  next
    case t_false
    then show ?thesis using probe(3) literal_at_iff [OF i, of "ascii ''false''" 5] literal_head [OF t_false(4)] b
      by (auto simp: walkValue_def Let_def w_scalar_emit)
  next
    case (t_number t)
    then have "JsonText.at src ?i (t @ drop j src)" using region_at [of ?i j src] by (simp add: literal_at_def)
    from scanNumber_complete [OF this t_number(4) assms(2)] have "scanNumber src ?i = (j, None)"
      using t_number(3) by (auto simp: literal_at_def)
    then have n: "(if swar then scanNumberFastTaggedSWAR src ?i else scanNumberFastTagged src ?i) = (j, plain_integer t, True)"
      using tagged_scan [OF i, of swar j] t_number(3) by (simp add: literal_at_def)
    have h: "src ! ?i = 0x2D \<or> isDigit (src ! ?i)" using number_head [OF t_number(3,4)] by simp
    then have "src ! ?i \<notin> {0x5B, 0x7B, 0x22, 0x74, 0x66, 0x6E}" by (auto simp: isDigit_def)
    from walkValue_number [OF i this n, of capacity d] show ?thesis using h t_number(2) by simp
  next
    case (t_string rs)
    then have "src ! ?i = 0x22" by (simp add: string_at_def)
    then show ?thesis using t_string string_at_iff [OF i, of j] b
      by (auto simp: walkValue_def Let_def stringFast_eq [OF i] string_result_def w_scalar_emit)
  qed (use c in \<open>auto simp: byte_at_def\<close>)
qed

section \<open>Soundness\<close>

text \<open>The state of the machine at a label.\<close>

abbreviation at_label :: "label \<Rightarrow> nat \<Rightarrow> IndexEntry list \<Rightarrow> (nat \<times> nat \<times> bool) list \<Rightarrow> walkState" where
  "at_label l i es st \<equiv> \<lparr>w_label = l, w_i = i, w_entries = es, w_scopes = st\<rparr>"

definition accepts :: "bool \<Rightarrow> bytes \<Rightarrow> nat \<Rightarrow> nat \<Rightarrow> walkState \<Rightarrow> nat \<Rightarrow> IndexEntry list \<Rightarrow> bool" where
  "accepts swar src capacity d s f fin \<longleftrightarrow> walk swar src capacity d s = (tapeParseOK, f, fin)"

lemma accepts_step:
  assumes "accepts swar src capacity d s f fin"
  shows "walkStep swar src capacity d s = Inl (tapeParseOK, f, fin) \<or>
    (\<exists>s'. walkStep swar src capacity d s = Inr s' \<and> accepts swar src capacity d s' f fin)"
  using assms by (auto simp: accepts_def walk.simps [of _ _ _ _ s] split: sum.splits)

lemma walk_step: "walkStep swar src capacity d s = Inr s' \<Longrightarrow> walk swar src capacity d s = walk swar src capacity d s'"
  by (subst walk.simps) simp

text \<open>Patching the header of a closed container, whose entry is behind \<open>es\<close>.\<close>

lemma closeEntry_last:
  "closeEntry (length es) j (es @ [openEntry i k]) = es @ [containerEntry i j k 0 1]"
  by (simp add: closeEntry_def openEntry_def containerEntry_def)

lemma patch_header:
  "(es @ openEntry i k # cs)[length es := (setCount (of_nat n) (openEntry i k\<lparr>e_end := of_nat j\<rparr>))\<lparr>e_next := of_nat (length (es @ openEntry i k # cs)) - of_nat (length es)\<rparr>] =
   es @ containerEntry i j k n (1 + length cs) # cs"
  using setCount_pack [of "of_nat n" i k] by (simp add: list_update_append containerEntry_def setCount_def openEntry_def)

definition closeHeader :: "nat \<Rightarrow> nat \<Rightarrow> nat \<Rightarrow> IndexEntry list \<Rightarrow> IndexEntry list" where
  "closeHeader entry n j es =
     es[entry := (setCount (of_nat n) ((es ! entry)\<lparr>e_end := of_nat j\<rparr>))\<lparr>e_next := of_nat (length es) - of_nat entry\<rparr>]"

lemma closeHeader_eq:
  "closeHeader (length es) n j (es @ openEntry i k # cs) = es @ containerEntry i j k n (1 + length cs) # cs"
  using patch_header [of es i k cs n j] by (simp add: closeHeader_def nth_append)

text \<open>One step at label \<^verbatim>\<open>scopeEnd\<close> with an open scope.\<close>

lemma scopeEnd_accepts:
  assumes acc: "accepts sw src cap d (at_label LScopeEnd k es ((e, n, a) # st)) f fin" and k: "k \<le> length src"
  obtains (comma) m p where "gap src k m" "byte_at src m 0x2C" "gap src (m + 1) p" "k < p" "a \<Longrightarrow> p < length src"
      "accepts sw src cap d (at_label (if a then LValue else LKey (fastByteAt src p)) p es ((e, n + 1, a) # st)) f fin"
  | (close) m where "gap src k m" "byte_at src m (if a then 0x5D else 0x7D)" "Suc n \<le> infoMaxCount"
      "accepts sw src cap d (at_label LScopeEnd (m + 1) (closeHeader e (Suc n) (m + 1) es) st) f fin"
proof -
  let ?m = "skipSpace src k" and ?s = "at_label LScopeEnd k es ((e, n, a) # st)"
  have nx: "nextSignificantFast src k = (?m, fastByteAt src ?m)" using k by (rule nextSignificantFast_eq)
  have g: "gap src k ?m" using k by (rule gap_skip)
  have b: "byte_at src ?m c" if "fastByteAt src ?m = c" "c \<noteq> 0" for c
    using that by (auto simp: byte_at_def fastByteAt_def split: if_splits)
  from accepts_step [OF acc] obtain s' where s': "walkScopeEnd src ?s = Inr s'" "accepts sw src cap d s' f fin"
    by (auto simp: walkStep_def walkScopeEnd_def closeScope_def w_stop_def nx Let_def split: if_splits prod.splits)
  show thesis
  proof (cases "fastByteAt src ?m = 0x2C")
    case True
    note bm = b [OF True, simplified]
    let ?p = "skipSpace src (?m + 1)"
    have le: "?m + 1 \<le> length src" using bm by (simp add: byte_at_def)
    have nx2: "nextSignificantFast src (Suc ?m) = (?p, fastByteAt src ?p)" "skipSpaceFast src (Suc ?m) = ?p"
      using le by (simp_all add: nextSignificantFast_eq skipSpaceFast_eq)
    have g2: "gap src (?m + 1) ?p" using le by (rule gap_skip)
    have "k < ?p" using gap_le [OF g] gap_le [OF g2] by simp
    moreover have "a \<Longrightarrow> ?p < length src"
      using s' True nx nx2 by (auto simp: walkScopeEnd_def w_stop_def Let_def split: if_splits)
    moreover have "s' = at_label (if a then LValue else LKey (fastByteAt src ?p)) ?p es ((e, n + 1, a) # st)"
      using s' True nx nx2 by (auto simp: walkScopeEnd_def w_stop_def Let_def split: if_splits)
    ultimately show thesis using comma [OF g bm g2] s'(2) by simp
  next
    case False
    then have c: "fastByteAt src ?m = (if a then 0x5D else 0x7D)" "Suc n \<le> infoMaxCount"
      "s' = at_label LScopeEnd (?m + 1) (closeHeader e (Suc n) (?m + 1) es) st"
      using s' nx by (auto simp: walkScopeEnd_def closeScope_def w_stop_def closeHeader_def Let_def split: if_splits)
    have "byte_at src ?m (if a then 0x5D else 0x7D)" using c(1) by (intro b) auto
    then show thesis using close [OF g _ c(2)] s'(2) c(3) by simp
  qed
qed

definition soundV :: "bool \<Rightarrow> bytes \<Rightarrow> nat \<Rightarrow> nat \<Rightarrow> nat \<Rightarrow> bool" where
  "soundV sw src cap d i \<longleftrightarrow> (\<forall>es st f fin. accepts sw src cap d (at_label LValue i es st) f fin \<longrightarrow>
     length st \<le> d \<longrightarrow> length es \<le> cap \<longrightarrow> i < length src \<longrightarrow>
     (\<exists>v j ts. value_tape src i v j ts \<and> length st + jdepth v \<le> d \<and> length (es @ ts) \<le> cap \<and>
        accepts sw src cap d (at_label LScopeEnd j (es @ ts) st) f fin))"

definition soundE :: "bool \<Rightarrow> bytes \<Rightarrow> nat \<Rightarrow> nat \<Rightarrow> nat \<Rightarrow> bool" where
  "soundE sw src cap d i \<longleftrightarrow> (\<forall>es h cs n st f fin.
     accepts sw src cap d (at_label LValue i (es @ openEntry h KArray # cs) ((length es, n, True) # st)) f fin \<longrightarrow>
     Suc (length st) \<le> d \<longrightarrow> length (es @ openEntry h KArray # cs) \<le> cap \<longrightarrow> i < length src \<longrightarrow>
     (\<exists>vs j ts. elems_tape src i vs j ts \<and> (\<forall>v \<in> set vs. Suc (length st) + jdepth v \<le> d) \<and>
        n + length vs \<le> infoMaxCount \<and> length (es @ openEntry h KArray # cs @ ts) \<le> cap \<and>
        accepts sw src cap d (at_label LScopeEnd j
          (es @ containerEntry h j KArray (n + length vs) (1 + length (cs @ ts)) # cs @ ts) st) f fin))"

definition soundM :: "bool \<Rightarrow> bytes \<Rightarrow> nat \<Rightarrow> nat \<Rightarrow> nat \<Rightarrow> bool" where
  "soundM sw src cap d i \<longleftrightarrow> (\<forall>es h cs n st f fin.
     accepts sw src cap d (at_label (LKey (fastByteAt src i)) i (es @ openEntry h KObject # cs) ((length es, n, False) # st)) f fin \<longrightarrow>
     Suc (length st) \<le> d \<longrightarrow> length (es @ openEntry h KObject # cs) \<le> cap \<longrightarrow>
     (\<exists>ms j ts. members_tape src i ms j ts \<and> (\<forall>m \<in> set ms. Suc (length st) + jdepth (snd m) \<le> d) \<and>
        n + length ms \<le> infoMaxCount \<and> length (es @ openEntry h KObject # cs @ ts) \<le> cap \<and>
        accepts sw src cap d (at_label LScopeEnd j
          (es @ containerEntry h j KObject (n + length ms) (1 + length (cs @ ts)) # cs @ ts) st) f fin))"

lemma value_tape_bounds: "value_tape src i v j ts \<Longrightarrow> i < j \<and> j \<le> length src"
  using value_tape_region [of src i v j ts] by (simp add: value_region_def)

lemma soundE_step:
  assumes V: "soundV sw src cap d i" and E: "\<And>p. i < p \<Longrightarrow> soundE sw src cap d p"
  shows "soundE sw src cap d i"
  unfolding soundE_def
proof (intro allI impI)
  fix es h cs n st f fin
  let ?hdr = "openEntry h KArray"
  assume acc: "accepts sw src cap d (at_label LValue i (es @ ?hdr # cs) ((length es, n, True) # st)) f fin"
    and d: "Suc (length st) \<le> d" and cap: "length (es @ ?hdr # cs) \<le> cap" and i: "i < length src"
  obtain v k ts where v: "value_tape src i v k ts" "Suc (length st) + jdepth v \<le> d" "length (es @ ?hdr # cs @ ts) \<le> cap"
    and acc2: "accepts sw src cap d (at_label LScopeEnd k (es @ ?hdr # cs @ ts) ((length es, n, True) # st)) f fin"
    using V [unfolded soundV_def, rule_format, OF acc _ cap i] d by auto
  have k: "i < k" "k \<le> length src" using value_tape_bounds [OF v(1)] by auto
  from acc2 k(2) show "\<exists>vs j ts. elems_tape src i vs j ts \<and> (\<forall>v \<in> set vs. Suc (length st) + jdepth v \<le> d) \<and>
      n + length vs \<le> infoMaxCount \<and> length (es @ ?hdr # cs @ ts) \<le> cap \<and>
      accepts sw src cap d (at_label LScopeEnd j
        (es @ containerEntry h j KArray (n + length vs) (1 + length (cs @ ts)) # cs @ ts) st) f fin"
  proof (cases rule: scopeEnd_accepts)
    case (close m)
    then have "elems_tape src i [v] (m + 1) ts" using t_elems_one [OF v(1)] by simp
    then show ?thesis using close(3,4) v(2,3)
      by (intro exI [of _ "[v]"] exI [of _ "m + 1"] exI [of _ ts]) (simp add: closeHeader_eq)
  next
    case (comma m p)
    have ip: "i < p" using comma(4) k(1) by simp
    obtain vs j us where r: "elems_tape src p vs j us" "\<forall>v \<in> set vs. Suc (length st) + jdepth v \<le> d"
      "n + 1 + length vs \<le> infoMaxCount" "length (es @ ?hdr # (cs @ ts) @ us) \<le> cap"
      "accepts sw src cap d (at_label LScopeEnd j
        (es @ containerEntry h j KArray (n + 1 + length vs) (1 + length ((cs @ ts) @ us)) # (cs @ ts) @ us) st) f fin"
      using E [OF ip, unfolded soundE_def, rule_format, of es h "cs @ ts" "n + 1" st f fin] comma(5,6) d v(3) by auto
    have "elems_tape src i (v # vs) j (ts @ us)" using t_elems_cons [OF v(1) comma(1,2,3) r(1)] .
    then show ?thesis using r v(2)
      by (intro exI [of _ "v # vs"] exI [of _ j] exI [of _ "ts @ us"]) simp
  qed
qed

text \<open>One step at label \<^verbatim>\<open>objectKey\<close>.\<close>

lemma key_accepts:
  assumes acc: "accepts sw src cap d (at_label (LKey (fastByteAt src i)) i es st) f fin" and cap: "length es \<le> cap"
  obtains q rs a b where "string_at src i q rs" "gap src q a" "byte_at src a 0x3A" "gap src (a + 1) b" "i < b" "b < length src"
    "length es < cap"
    "accepts sw src cap d (at_label LValue b (es @ [scalarEntry i q KString (tapeFlagKey OR escaped_flag src i q)]) st) f fin"
proof -
  let ?s = "at_label (LKey (fastByteAt src i)) i es st"
  from accepts_step [OF acc] obtain s' where s': "walkKey src cap (fastByteAt src i) ?s = Inr s'" "accepts sw src cap d s' f fin"
    by (auto simp: walkStep_def walkKey_def w_stop_def Let_def split: if_splits prod.splits)
  have q: "fastByteAt src i = 0x22" using s'(1) by (auto simp: walkKey_def w_stop_def split: if_splits)
  then have i: "i < length src" "src ! i = 0x22" by (auto simp: fastByteAt_def split: if_splits)
  obtain k where k: "parseStringFrom src (Suc i) = Inr k"
    using s'(1) q by (cases "parseStringFrom src (Suc i)") (auto simp: walkKey_def stringFast_eq [OF i(1)] string_result_def)
  let ?e = "scalarEntry i k KString (tapeFlagKey OR escaped_flag src i k)"
  have room: "length es \<noteq> cap"
    using s'(1) q k by (auto simp: walkKey_def stringFast_eq [OF i(1)] string_result_def emitScalar_def pushEntry_def)
  have sf: "stringFast src cap i tapeFlagKey es = (tapeParseOK, k, es @ [?e])"
    using k room by (simp add: stringFast_eq [OF i(1)] string_result_def emitScalar_def pushEntry_def)
  obtain rs where rs: "string_at src i k rs" using k string_at_iff [OF i] by blast
  then have kl: "i < k" "k \<le> length src" by (auto simp: string_at_def)
  let ?a = "skipSpace src k" and ?b = "skipSpace src (Suc (skipSpace src k))"
  have nx: "nextSignificantFast src k = (?a, fastByteAt src ?a)" using kl(2) by (rule nextSignificantFast_eq)
  have colon: "fastByteAt src ?a = 0x3A" using s'(1) q sf nx by (auto simp: walkKey_def w_stop_def Let_def split: if_splits)
  then have a: "byte_at src ?a 0x3A" by (auto simp: byte_at_def fastByteAt_def split: if_splits)
  then have le: "Suc ?a \<le> length src" by (simp add: byte_at_def)
  have b: "?b < length src" "s' = at_label LValue ?b (es @ [?e]) st"
    using s'(1) q sf nx colon le by (auto simp: walkKey_def w_stop_def Let_def skipSpaceFast_eq split: if_splits)
  show thesis
  proof (rule that)
    show "string_at src i k rs" by fact
    show "gap src k ?a" "gap src (?a + 1) ?b" using kl(2) le by (simp_all add: gap_skip)
    then show "i < ?b" using kl(1) gap_le [of src k ?a] gap_le [of src "?a + 1" ?b] by simp
    show "length es < cap" using room cap by simp
  qed (use a b s'(2) in auto)
qed

lemma soundM_step:
  assumes V: "\<And>p. i < p \<Longrightarrow> soundV sw src cap d p" and M: "\<And>p. i < p \<Longrightarrow> soundM sw src cap d p"
  shows "soundM sw src cap d i"
  unfolding soundM_def
proof (intro allI impI)
  fix es h cs n st f fin
  let ?hdr = "openEntry h KObject"
  assume acc: "accepts sw src cap d (at_label (LKey (fastByteAt src i)) i (es @ ?hdr # cs) ((length es, n, False) # st)) f fin"
    and d: "Suc (length st) \<le> d" and cap: "length (es @ ?hdr # cs) \<le> cap"
  from acc cap show "\<exists>ms j ts. members_tape src i ms j ts \<and> (\<forall>m \<in> set ms. Suc (length st) + jdepth (snd m) \<le> d) \<and>
      n + length ms \<le> infoMaxCount \<and> length (es @ ?hdr # cs @ ts) \<le> cap \<and>
      accepts sw src cap d (at_label LScopeEnd j
        (es @ containerEntry h j KObject (n + length ms) (1 + length (cs @ ts)) # cs @ ts) st) f fin"
  proof (cases rule: key_accepts)
    case (1 q rs a b)
    let ?e = "scalarEntry i q KString (tapeFlagKey OR escaped_flag src i q)"
    obtain v k ts where v: "value_tape src b v k ts" "Suc (length st) + jdepth v \<le> d" "length (es @ ?hdr # cs @ ?e # ts) \<le> cap"
      and acc2: "accepts sw src cap d (at_label LScopeEnd k (es @ ?hdr # cs @ ?e # ts) ((length es, n, False) # st)) f fin"
      using V [OF 1(5), unfolded soundV_def, rule_format, OF 1(8)] 1(6,7) d by auto
    have k: "b < k" "k \<le> length src" using value_tape_bounds [OF v(1)] by auto
    from acc2 k(2) show ?thesis
    proof (cases rule: scopeEnd_accepts)
      case (close m)
      then have "members_tape src i [(rs, v)] (m + 1) (?e # ts)" using t_members_one [OF 1(1-4) v(1)] by simp
      then show ?thesis using close(3,4) v(2,3)
        by (intro exI [of _ "[(rs, v)]"] exI [of _ "m + 1"] exI [of _ "?e # ts"]) (simp add: closeHeader_eq)
    next
      case (comma m p)
      have ip: "i < p" using comma(4) k(1) 1(5) by simp
      obtain ms j us where r: "members_tape src p ms j us" "\<forall>m \<in> set ms. Suc (length st) + jdepth (snd m) \<le> d"
        "n + 1 + length ms \<le> infoMaxCount" "length (es @ ?hdr # (cs @ ?e # ts) @ us) \<le> cap"
        "accepts sw src cap d (at_label LScopeEnd j
          (es @ containerEntry h j KObject (n + 1 + length ms) (1 + length ((cs @ ?e # ts) @ us)) # (cs @ ?e # ts) @ us) st) f fin"
        using M [OF ip, unfolded soundM_def, rule_format, of es h "cs @ ?e # ts" "n + 1" st f fin] comma(6) d v(3) by auto
      have "members_tape src i ((rs, v) # ms) j (?e # ts @ us)" using t_members_cons [OF 1(1-4) v(1) comma(1,2,3) r(1)] .
      then show ?thesis using r v(2)
        by (intro exI [of _ "(rs, v) # ms"] exI [of _ j] exI [of _ "?e # ts @ us"]) simp
    qed
  qed
qed

lemma walkArray_Inr:
  assumes "walkArray src cap d (at_label LValue i es st) = Inr s'" "i < length src" "length es \<le> cap"
  obtains k where "gap src (i + 1) k" "length st < d" "length es < cap" "byte_at src k 0x5D"
      "s' = at_label LScopeEnd (k + 1) (es @ [containerEntry i (k + 1) KArray 0 1]) st"
  | k where "gap src (i + 1) k" "length st < d" "length es < cap" "i < k" "k < length src"
      "s' = at_label LValue k (es @ [openEntry i KArray]) ((length es, 0, True) # st)"
proof -
  let ?k = "skipSpace src (Suc i)"
  have nx: "nextSignificantFast src (Suc i) = (?k, fastByteAt src ?k)" using assms(2) by (simp add: nextSignificantFast_eq)
  have g: "gap src (i + 1) ?k" using assms(2) by (simp add: gap_skip)
  have r: "length st < d" "length es < cap" "?k < length src"
    using assms(1,3) nx by (auto simp: walkArray_def w_stop_def pushEntry_def Let_def split: if_splits)
  show thesis
  proof (cases "src ! ?k = 0x5D")
    case True
    then have "s' = at_label LScopeEnd (?k + 1) (es @ [containerEntry i (?k + 1) KArray 0 1]) st"
      using assms(1) nx r closeEntry_last [of es "Suc ?k" i KArray]
      by (auto simp: walkArray_def w_stop_def pushEntry_def Let_def fastByteAt_def)
    then show thesis using that(1) [OF g r(1,2)] True r(3) by (simp add: byte_at_def)
  next
    case False
    then have "s' = at_label LValue ?k (es @ [openEntry i KArray]) ((length es, 0, True) # st)"
      using assms(1) nx r by (auto simp: walkArray_def w_stop_def pushEntry_def Let_def fastByteAt_def)
    then show thesis using that(2) [OF g r(1,2)] gap_le [OF g] r(3) by simp
  qed
qed

lemma walkObject_Inr:
  assumes "walkObject src cap d (at_label LValue i es st) = Inr s'" "i < length src" "length es \<le> cap"
  obtains k where "gap src (i + 1) k" "length st < d" "length es < cap" "byte_at src k 0x7D"
      "s' = at_label LScopeEnd (k + 1) (es @ [containerEntry i (k + 1) KObject 0 1]) st"
  | k where "gap src (i + 1) k" "length st < d" "length es < cap" "i < k"
      "s' = at_label (LKey (fastByteAt src k)) k (es @ [openEntry i KObject]) ((length es, 0, False) # st)"
proof -
  let ?k = "skipSpace src (Suc i)"
  have nx: "nextSignificantFast src (Suc i) = (?k, fastByteAt src ?k)" using assms(2) by (simp add: nextSignificantFast_eq)
  have g: "gap src (i + 1) ?k" using assms(2) by (simp add: gap_skip)
  have r: "length st < d" "length es < cap"
    using assms(1,3) nx by (auto simp: walkObject_def w_stop_def pushEntry_def Let_def split: if_splits)
  show thesis
  proof (cases "fastByteAt src ?k = 0x7D")
    case True
    then have "s' = at_label LScopeEnd (?k + 1) (es @ [containerEntry i (?k + 1) KObject 0 1]) st"
      using assms(1) nx r closeEntry_last [of es "Suc ?k" i KObject]
      by (auto simp: walkObject_def w_stop_def pushEntry_def Let_def)
    moreover have "byte_at src ?k 0x7D" using True by (auto simp: byte_at_def fastByteAt_def split: if_splits)
    ultimately show thesis using that(1) [OF g r] by simp
  next
    case False
    then have "s' = at_label (LKey (fastByteAt src ?k)) ?k (es @ [openEntry i KObject]) ((length es, 0, False) # st)"
      using assms(1) nx r by (auto simp: walkObject_def w_stop_def pushEntry_def Let_def)
    then show thesis using that(2) [OF g r] gap_le [OF g] by simp
  qed
qed

lemma w_scalar_not_ok: "w_scalar r s \<noteq> Inl (tapeParseOK, f, fin)"
  by (cases r) (auto simp: w_scalar_def)

lemma walkValue_not_ok: "walkValue sw src cap d s \<noteq> Inl (tapeParseOK, f, fin)"
  by (auto simp: walkValue_def walkArray_def walkObject_def w_stop_def w_scalar_not_ok Let_def
      split: if_splits prod.splits option.splits)

lemma soundV_step:
  assumes E: "\<And>p. i < p \<Longrightarrow> soundE sw src cap d p" and M: "\<And>p. i < p \<Longrightarrow> soundM sw src cap d p"
  shows "soundV sw src cap d i"
  unfolding soundV_def
proof (intro allI impI)
  fix es st f fin
  let ?s = "at_label LValue i es st"
  let ?goal = "\<exists>v j ts. value_tape src i v j ts \<and> length st + jdepth v \<le> d \<and> length (es @ ts) \<le> cap \<and>
      accepts sw src cap d (at_label LScopeEnd j (es @ ts) st) f fin"
  assume acc: "accepts sw src cap d ?s f fin" and d: "length st \<le> d" and cap: "length es \<le> cap" and i: "i < length src"
  from accepts_step [OF acc] obtain s' where s': "walkValue sw src cap d ?s = Inr s'" "accepts sw src cap d s' f fin"
    by (auto simp: walkStep_def walkValue_not_ok)
  have b: "fastByteAt src i = src ! i" using i by (simp add: fastByteAt_def)
  have goalI: ?goal if "value_tape src i v j ts" "length st + jdepth v \<le> d" "length (es @ ts) \<le> cap"
    "accepts sw src cap d (at_label LScopeEnd j (es @ ts) st) f fin" for v j ts
    using that by blast
  consider (arr) "src ! i = 0x5B" | (obj) "src ! i = 0x7B" | (other) "src ! i \<noteq> 0x5B" "src ! i \<noteq> 0x7B" by blast
  then show ?goal
  proof cases
    case arr
    then have bi: "byte_at src i 0x5B" using i by (simp add: byte_at_def)
    have "walkArray src cap d ?s = Inr s'" using s'(1) arr b by (simp add: walkValue_def)
    from this i cap show ?goal
    proof (cases rule: walkArray_Inr)
      case (1 k)
      then show ?goal using goalI [OF t_array_empty [OF bi 1(1,4)]] s'(2) jdepth_JArray [of "length st" "[]" d] by simp
    next
      case (2 k)
      obtain vs j ts where r: "elems_tape src k vs j ts" "\<forall>v \<in> set vs. Suc (length st) + jdepth v \<le> d"
        "length vs \<le> infoMaxCount" "length (es @ openEntry i KArray # ts) \<le> cap"
        "accepts sw src cap d (at_label LScopeEnd j (es @ containerEntry i j KArray (length vs) (1 + length ts) # ts) st) f fin"
        using E [OF 2(4), unfolded soundE_def, rule_format, of es i "[]" 0 st f fin] 2 s'(2) by auto
      show ?goal using goalI [OF t_array [OF bi 2(1) r(1,3)]] r(2,4,5) jdepth_JArray [of "length st" vs d] 2(2) by simp
    qed
  next
    case obj
    then have bi: "byte_at src i 0x7B" using i by (simp add: byte_at_def)
    have "walkObject src cap d ?s = Inr s'" using s'(1) obj b by (simp add: walkValue_def)
    from this i cap show ?goal
    proof (cases rule: walkObject_Inr)
      case (1 k)
      then show ?goal using goalI [OF t_object_empty [OF bi 1(1,4)]] s'(2) jdepth_JObject [of "length st" "[]" d] by simp
    next
      case (2 k)
      obtain ms j ts where r: "members_tape src k ms j ts" "\<forall>m \<in> set ms. Suc (length st) + jdepth (snd m) \<le> d"
        "length ms \<le> infoMaxCount" "length (es @ openEntry i KObject # ts) \<le> cap"
        "accepts sw src cap d (at_label LScopeEnd j (es @ containerEntry i j KObject (length ms) (1 + length ts) # ts) st) f fin"
        using M [OF 2(4), unfolded soundM_def, rule_format, of es i "[]" 0 st f fin] 2 s'(2) by auto
      show ?goal using goalI [OF t_object [OF bi 2(1) r(1,3)]] r(2,4,5) jdepth_JObject [of "length st" ms d] 2(2) by simp
    qed
  next
    case other
    obtain v j e where v: "scalar_at src i v j e" "value_result cap ?s j e = Inr s'"
      using scalar_sound [of sw src cap d ?s s'] s'(1) i other by auto
    then show ?goal using goalI [of v j "[e]"] s'(2) d cap by (auto simp: scalar_at_def value_result_def split: if_splits)
  qed
qed

lemma walk_sound: "soundV sw src cap d i \<and> soundE sw src cap d i \<and> soundM sw src cap d i"
proof (induction "length src - i" arbitrary: i rule: less_induct)
  case less
  show ?case
  proof (cases "i < length src")
    case True
    have ih: "soundV sw src cap d p \<and> soundE sw src cap d p \<and> soundM sw src cap d p" if "i < p" for p
      using less [of p] that True by simp
    have "soundV sw src cap d i" using ih by (intro soundV_step) auto
    then show ?thesis using ih soundE_step [of sw src cap d i] soundM_step [of i sw src cap d] by blast
  next
    case False
    then have "\<not> accepts sw src cap d (at_label (LKey (fastByteAt src i)) i es st) f fin" if "length es \<le> cap" for es st f fin
      using key_accepts [of sw src cap d i es st f fin] that by (metis less_trans)
    then have "soundM sw src cap d i" unfolding soundM_def by blast
    then show ?thesis using False by (simp add: soundV_def soundE_def)
  qed
qed

section \<open>Completeness\<close>

text \<open>The outcome of reading a tape from label \<^verbatim>\<open>value\<close>: within the depth limit the machine reaches \<^verbatim>\<open>scopeEnd\<close> with the tape
  written, beyond it the document is left to the diagnostic builder.\<close>

definition reads :: "bool \<Rightarrow> bytes \<Rightarrow> nat \<Rightarrow> nat \<Rightarrow> bool \<Rightarrow> walkState \<Rightarrow> walkState \<Rightarrow> bool" where
  "reads sw src cap d deep s s' \<longleftrightarrow>
     (if deep then fst (walk sw src cap d s) = tapeParseInvalid else walk sw src cap d s = walk sw src cap d s')"

lemma reads_step:
  "walkStep sw src cap d s = Inr s1 \<Longrightarrow> reads sw src cap d deep s1 s' \<Longrightarrow> reads sw src cap d deep s s'"
  using walk_step [of sw src cap d s s1] by (simp add: reads_def)

lemma reads_trans:
  "reads sw src cap d a s s1 \<Longrightarrow> (\<not> a \<Longrightarrow> reads sw src cap d b s1 s2) \<Longrightarrow> reads sw src cap d (a \<or> b) s s2"
  by (auto simp: reads_def split: if_splits)

lemma reads_refl: "reads sw src cap d False s s"
  by (simp add: reads_def)

lemma reads_invalid: "walkStep sw src cap d s = Inl (tapeParseInvalid, f, es) \<Longrightarrow> reads sw src cap d True s s'"
  by (simp add: reads_def walk.simps [of _ _ _ _ s])

definition reads_value :: "bool \<Rightarrow> bytes \<Rightarrow> nat \<Rightarrow> nat \<Rightarrow> nat \<Rightarrow> json \<Rightarrow> nat \<Rightarrow> IndexEntry list \<Rightarrow> bool" where
  "reads_value sw src cap d i v j ts \<longleftrightarrow> (\<forall>es st. length (es @ ts) \<le> cap \<longrightarrow> length st \<le> d \<longrightarrow> number_end (drop j src) \<longrightarrow>
     reads sw src cap d (d < length st + jdepth v) (at_label LValue i es st) (at_label LScopeEnd j (es @ ts) st))"

definition deep_elems :: "nat \<Rightarrow> nat \<Rightarrow> json list \<Rightarrow> bool" where
  "deep_elems d n vs \<longleftrightarrow> (\<exists>v \<in> set vs. d < n + jdepth v)"

definition reads_elems :: "bool \<Rightarrow> bytes \<Rightarrow> nat \<Rightarrow> nat \<Rightarrow> nat \<Rightarrow> json list \<Rightarrow> nat \<Rightarrow> IndexEntry list \<Rightarrow> bool" where
  "reads_elems sw src cap d i vs j ts \<longleftrightarrow> (\<forall>es h cs n st.
     length (es @ openEntry h KArray # cs @ ts) \<le> cap \<longrightarrow> length st < d \<longrightarrow> n + length vs \<le> infoMaxCount \<longrightarrow>
     reads sw src cap d (deep_elems d (Suc (length st)) vs)
       (at_label LValue i (es @ openEntry h KArray # cs) ((length es, n, True) # st))
       (at_label LScopeEnd j (es @ containerEntry h j KArray (n + length vs) (1 + length (cs @ ts)) # cs @ ts) st))"

definition reads_members :: "bool \<Rightarrow> bytes \<Rightarrow> nat \<Rightarrow> nat \<Rightarrow> nat \<Rightarrow> (rune list \<times> json) list \<Rightarrow> nat \<Rightarrow> IndexEntry list \<Rightarrow> bool" where
  "reads_members sw src cap d i ms j ts \<longleftrightarrow> (\<forall>es h cs n st.
     length (es @ openEntry h KObject # cs @ ts) \<le> cap \<longrightarrow> length st < d \<longrightarrow> n + length ms \<le> infoMaxCount \<longrightarrow>
     reads sw src cap d (deep_elems d (Suc (length st)) (map snd ms))
       (at_label (LKey 0x22) i (es @ openEntry h KObject # cs) ((length es, n, False) # st))
       (at_label LScopeEnd j (es @ containerEntry h j KObject (n + length ms) (1 + length (cs @ ts)) # cs @ ts) st))"

text \<open>The steps at \<^verbatim>\<open>scopeEnd\<close> and \<^verbatim>\<open>objectKey\<close>, forward.\<close>

lemma scopeEnd_close:
  assumes "gap src k m" "byte_at src m (if a then 0x5D else 0x7D)" "Suc n \<le> infoMaxCount"
  shows "walkStep sw src cap d (at_label LScopeEnd k es ((e, n, a) # st)) =
    Inr (at_label LScopeEnd (m + 1) (closeHeader e (Suc n) (m + 1) es) st)"
proof -
  have "nextSignificantFast src k = (m, if a then 0x5D else 0x7D)"
    using skip_gap_byte [OF assms(1,2)] by (simp add: isJSONWhitespace_def split: if_splits)
  then show ?thesis using assms(3) by (simp add: walkStep_def walkScopeEnd_def closeScope_def closeHeader_def Let_def)
qed

lemma scopeEnd_comma:
  assumes "gap src k m" "byte_at src m 0x2C" "gap src (m + 1) p" "byte_at src p c" "\<not> isJSONWhitespace c"
  shows "walkStep sw src cap d (at_label LScopeEnd k es ((e, n, a) # st)) =
    Inr (at_label (if a then LValue else LKey c) p es ((e, n + 1, a) # st))"
  using skip_gap_byte [OF assms(1,2)] skip_gap_byte [OF assms(3,4,5)] assms(4)
  by (simp add: walkStep_def walkScopeEnd_def Let_def isJSONWhitespace_def byte_at_def)

lemma key_step:
  assumes s: "string_at src i q rs" and a: "gap src q a" "byte_at src a 0x3A" "gap src (a + 1) b" "byte_at src b c" "\<not> isJSONWhitespace c"
    and cap: "length es < cap"
  shows "walkStep sw src cap d (at_label (LKey 0x22) i es st) =
    Inr (at_label LValue b (es @ [scalarEntry i q KString (tapeFlagKey OR escaped_flag src i q)]) st)"
proof -
  have i: "i < length src" "src ! i = 0x22" using s by (auto simp: string_at_def)
  have "parseStringFrom src (Suc i) = Inr q" using string_at_iff [OF i, of q] s by blast
  then have "stringFast src cap i tapeFlagKey es = (tapeParseOK, q, es @ [scalarEntry i q KString (tapeFlagKey OR escaped_flag src i q)])"
    using cap by (simp add: stringFast_eq [OF i(1)] string_result_def emitScalar_def pushEntry_def)
  then show ?thesis
    using skip_gap_byte [OF a(1,2)] skip_gap_byte [OF a(3,4,5)] a(4)
    by (simp add: walkStep_def walkKey_def Let_def isJSONWhitespace_def byte_at_def)
qed

lemma array_step:
  assumes "byte_at src i 0x5B" "gap src (i + 1) k" "byte_at src k c" "\<not> isJSONWhitespace c" "length es < cap"
  shows "walkStep sw src cap d (at_label LValue i es st) =
    (if length st \<ge> d then Inl (tapeParseInvalid, i, es)
     else if c = 0x5D then Inr (at_label LScopeEnd (k + 1) (es @ [containerEntry i (k + 1) KArray 0 1]) st)
     else Inr (at_label LValue k (es @ [openEntry i KArray]) ((length es, 0, True) # st)))"
  using assms skip_gap_byte [OF assms(2,3,4)] closeEntry_last [of es "Suc k" i KArray]
  by (auto simp: walkStep_def walkValue_def walkArray_def w_stop_def pushEntry_def Let_def byte_at_def fastByteAt_def)

lemma object_step:
  assumes "byte_at src i 0x7B" "gap src (i + 1) k" "byte_at src k c" "\<not> isJSONWhitespace c" "length es < cap"
  shows "walkStep sw src cap d (at_label LValue i es st) =
    (if length st \<ge> d then Inl (tapeParseInvalid, i, es)
     else if c = 0x7D then Inr (at_label LScopeEnd (k + 1) (es @ [containerEntry i (k + 1) KObject 0 1]) st)
     else Inr (at_label (LKey c) k (es @ [openEntry i KObject]) ((length es, 0, False) # st)))"
  using assms skip_gap_byte [OF assms(2,3,4)] closeEntry_last [of es "Suc k" i KObject]
  by (auto simp: walkStep_def walkValue_def walkObject_def w_stop_def pushEntry_def Let_def byte_at_def fastByteAt_def)

lemma drop_gap: "gap src k m \<Longrightarrow> drop k src = segment src k m @ drop m src"
  using region_at [of k m src] by (simp add: gap_def JsonText.at_def)

lemma gap_number_end:
  assumes "gap src k m" "m = length src \<or> byte_at src m c \<and> c \<in> {0x2C, 0x5D, 0x7D}"
  shows "number_end (drop k src)"
proof -
  have "number_end (drop m src)"
    using assms(2) by (auto simp: byte_at_def number_end_def hd_drop_conv_nth isDigit_def)
  then show ?thesis using number_end_ws [OF ws_gap [OF assms(1)]] drop_gap [OF assms(1)] by simp
qed

lemma sep_number_end: "gap src k m \<Longrightarrow> byte_at src m c \<Longrightarrow> c \<in> {0x2C, 0x5D, 0x7D} \<Longrightarrow> number_end (drop k src)"
  by (rule gap_number_end [where c = c]) auto

lemma reads_scalar:
  assumes "scalar_at src i v j e"
  shows "reads_value sw src cap d i v j [e]"
  unfolding reads_value_def
proof (intro allI impI)
  fix es and st :: "(nat \<times> nat \<times> bool) list"
  assume a: "length (es @ [e]) \<le> cap" "length st \<le> d" "number_end (drop j src)"
  have "walkValue sw src cap d (at_label LValue i es st) = value_result cap (at_label LValue i es st) j e"
    using assms a(3) by (intro scalar_step_complete) auto
  then have "walkStep sw src cap d (at_label LValue i es st) = Inr (at_label LScopeEnd j (es @ [e]) st)"
    using a(1) by (simp add: walkStep_def value_result_def)
  from reads_step [OF this reads_refl] show "reads sw src cap d (d < length st + jdepth v) (at_label LValue i es st) (at_label LScopeEnd j (es @ [e]) st)"
    using assms a(2) by (simp add: scalar_at_def)
qed

lemma reads_elems_one:
  assumes v: "reads_value sw src cap d i v k ts" and g: "gap src k m" "byte_at src m 0x5D"
  shows "reads_elems sw src cap d i [v] (m + 1) ts"
  unfolding reads_elems_def
proof (intro allI impI)
  fix es h cs n and st :: "(nat \<times> nat \<times> bool) list"
  let ?hdr = "openEntry h KArray"
  assume a: "length (es @ ?hdr # cs @ ts) \<le> cap" "length st < d" "n + length [v] \<le> infoMaxCount"
  have "reads sw src cap d (d < Suc (length st) + jdepth v) (at_label LValue i (es @ ?hdr # cs) ((length es, n, True) # st))
      (at_label LScopeEnd k ((es @ ?hdr # cs) @ ts) ((length es, n, True) # st))"
    using v [unfolded reads_value_def, rule_format, of "es @ ?hdr # cs" "(length es, n, True) # st"] a sep_number_end [OF g(1,2)] by simp
  from reads_trans [OF this reads_step [OF scopeEnd_close [OF g(1)] reads_refl]]
  show "reads sw src cap d (deep_elems d (Suc (length st)) [v]) (at_label LValue i (es @ ?hdr # cs) ((length es, n, True) # st))
      (at_label LScopeEnd (m + 1) (es @ containerEntry h (m + 1) KArray (n + length [v]) (1 + length (cs @ ts)) # cs @ ts) st)"
    using g(2) a(3) by (simp add: closeHeader_eq deep_elems_def)
qed

lemma reads_elems_cons:
  assumes v: "reads_value sw src cap d i v k ts" and g: "gap src k m" "byte_at src m 0x2C" "gap src (m + 1) p"
    and r: "reads_elems sw src cap d p vs j us" and p: "elems_region src p vs j us"
  shows "reads_elems sw src cap d i (v # vs) j (ts @ us)"
  unfolding reads_elems_def
proof (intro allI impI)
  fix es h cs n and st :: "(nat \<times> nat \<times> bool) list"
  let ?hdr = "openEntry h KArray"
  assume a: "length (es @ ?hdr # cs @ ts @ us) \<le> cap" "length st < d" "n + length (v # vs) \<le> infoMaxCount"
  have b: "byte_at src p (src ! p)" "\<not> isJSONWhitespace (src ! p)" using p by (auto simp: elems_region_def byte_at_def)
  have 1: "reads sw src cap d (d < Suc (length st) + jdepth v) (at_label LValue i (es @ ?hdr # cs) ((length es, n, True) # st))
      (at_label LScopeEnd k ((es @ ?hdr # cs) @ ts) ((length es, n, True) # st))"
    using v [unfolded reads_value_def, rule_format, of "es @ ?hdr # cs" "(length es, n, True) # st"] a sep_number_end [OF g(1,2)] by simp
  have 2: "walkStep sw src cap d (at_label LScopeEnd k ((es @ ?hdr # cs) @ ts) ((length es, n, True) # st)) =
      Inr (at_label LValue p (es @ ?hdr # cs @ ts) ((length es, n + 1, True) # st))"
    using scopeEnd_comma [OF g b, of sw cap d "(es @ ?hdr # cs) @ ts" "length es" n True st] by simp
  have 3: "reads sw src cap d (deep_elems d (Suc (length st)) vs)
      (at_label LValue p (es @ ?hdr # cs @ ts) ((length es, n + 1, True) # st))
      (at_label LScopeEnd j (es @ containerEntry h j KArray (n + length (v # vs)) (1 + length (cs @ ts @ us)) # cs @ ts @ us) st)"
    using r [unfolded reads_elems_def, rule_format, of es h "cs @ ts" st "n + 1"] a by simp
  show "reads sw src cap d (deep_elems d (Suc (length st)) (v # vs)) (at_label LValue i (es @ ?hdr # cs) ((length es, n, True) # st))
      (at_label LScopeEnd j (es @ containerEntry h j KArray (n + length (v # vs)) (1 + length (cs @ ts @ us)) # cs @ ts @ us) st)"
    using reads_trans [OF 1 reads_step [OF 2 3]] by (simp add: deep_elems_def)
qed

text \<open>A member up to its value, for both ends of the member loop.\<close>

lemma reads_member:
  assumes s: "string_at src i q rs" and a: "gap src q a" "byte_at src a 0x3A" "gap src (a + 1) b"
    and v: "reads_value sw src cap d b v k ts" "value_region src b v k ts" and ne: "number_end (drop k src)"
    and cap: "length (es @ scalarEntry i q KString (tapeFlagKey OR escaped_flag src i q) # ts) \<le> cap" and d: "length st \<le> d"
  shows "reads sw src cap d (d < length st + jdepth v) (at_label (LKey 0x22) i es st)
    (at_label LScopeEnd k (es @ scalarEntry i q KString (tapeFlagKey OR escaped_flag src i q) # ts) st)"
proof -
  let ?e = "scalarEntry i q KString (tapeFlagKey OR escaped_flag src i q)"
  have "byte_at src b (src ! b)" "\<not> isJSONWhitespace (src ! b)" using v(2) by (auto simp: value_region_def byte_at_def)
  from key_step [OF s a this, of es cap sw d st]
  have "walkStep sw src cap d (at_label (LKey 0x22) i es st) = Inr (at_label LValue b (es @ [?e]) st)" using cap by simp
  moreover have "reads sw src cap d (d < length st + jdepth v) (at_label LValue b (es @ [?e]) st) (at_label LScopeEnd k ((es @ [?e]) @ ts) st)"
    using v(1) [unfolded reads_value_def, rule_format, of "es @ [?e]" st] cap d ne by simp
  ultimately show ?thesis using reads_step by simp
qed

lemma reads_members_one:
  assumes s: "string_at src i q rs" "gap src q a" "byte_at src a 0x3A" "gap src (a + 1) b"
    and v: "reads_value sw src cap d b v k ts" "value_region src b v k ts" and g: "gap src k m" "byte_at src m 0x7D"
  shows "reads_members sw src cap d i [(rs, v)] (m + 1) (scalarEntry i q KString (tapeFlagKey OR escaped_flag src i q) # ts)"
  unfolding reads_members_def
proof (intro allI impI)
  fix es h cs n and st :: "(nat \<times> nat \<times> bool) list"
  let ?hdr = "openEntry h KObject" and ?e = "scalarEntry i q KString (tapeFlagKey OR escaped_flag src i q)"
  assume a: "length (es @ ?hdr # cs @ ?e # ts) \<le> cap" "length st < d" "n + length [(rs, v)] \<le> infoMaxCount"
  have "reads sw src cap d (d < Suc (length st) + jdepth v) (at_label (LKey 0x22) i (es @ ?hdr # cs) ((length es, n, False) # st))
      (at_label LScopeEnd k ((es @ ?hdr # cs) @ ?e # ts) ((length es, n, False) # st))"
    using reads_member [OF s v sep_number_end [OF g(1,2)], of "es @ ?hdr # cs" "(length es, n, False) # st"] a by simp
  from reads_trans [OF this reads_step [OF scopeEnd_close [OF g(1)] reads_refl]]
  show "reads sw src cap d (deep_elems d (Suc (length st)) (map snd [(rs, v)]))
      (at_label (LKey 0x22) i (es @ ?hdr # cs) ((length es, n, False) # st))
      (at_label LScopeEnd (m + 1) (es @ containerEntry h (m + 1) KObject (n + length [(rs, v)]) (1 + length (cs @ ?e # ts)) # cs @ ?e # ts) st)"
    using g(2) a(3) by (simp add: closeHeader_eq deep_elems_def)
qed

lemma reads_members_cons:
  assumes s: "string_at src i q rs" "gap src q a" "byte_at src a 0x3A" "gap src (a + 1) b"
    and v: "reads_value sw src cap d b v k ts" "value_region src b v k ts"
    and g: "gap src k m" "byte_at src m 0x2C" "gap src (m + 1) p"
    and r: "reads_members sw src cap d p ms j us" and p: "members_region src p ms j us"
  shows "reads_members sw src cap d i ((rs, v) # ms) j (scalarEntry i q KString (tapeFlagKey OR escaped_flag src i q) # ts @ us)"
  unfolding reads_members_def
proof (intro allI impI)
  fix es h cs n and st :: "(nat \<times> nat \<times> bool) list"
  let ?hdr = "openEntry h KObject" and ?e = "scalarEntry i q KString (tapeFlagKey OR escaped_flag src i q)"
  assume a: "length (es @ ?hdr # cs @ ?e # ts @ us) \<le> cap" "length st < d" "n + length ((rs, v) # ms) \<le> infoMaxCount"
  have b: "byte_at src p 0x22" "\<not> isJSONWhitespace (0x22 :: byte)" using p by (auto simp: members_region_def byte_at_def isJSONWhitespace_def)
  have 1: "reads sw src cap d (d < Suc (length st) + jdepth v) (at_label (LKey 0x22) i (es @ ?hdr # cs) ((length es, n, False) # st))
      (at_label LScopeEnd k ((es @ ?hdr # cs) @ ?e # ts) ((length es, n, False) # st))"
    using reads_member [OF s v sep_number_end [OF g(1,2)], of "es @ ?hdr # cs" "(length es, n, False) # st"] a by simp
  have 2: "walkStep sw src cap d (at_label LScopeEnd k ((es @ ?hdr # cs) @ ?e # ts) ((length es, n, False) # st)) =
      Inr (at_label (LKey 0x22) p (es @ ?hdr # cs @ ?e # ts) ((length es, n + 1, False) # st))"
    using scopeEnd_comma [OF g b, of sw cap d "(es @ ?hdr # cs) @ ?e # ts" "length es" n False st] by simp
  have 3: "reads sw src cap d (deep_elems d (Suc (length st)) (map snd ms))
      (at_label (LKey 0x22) p (es @ ?hdr # cs @ ?e # ts) ((length es, n + 1, False) # st))
      (at_label LScopeEnd j (es @ containerEntry h j KObject (n + length ((rs, v) # ms)) (1 + length (cs @ ?e # ts @ us)) # cs @ ?e # ts @ us) st)"
    using r [unfolded reads_members_def, rule_format, of es h "cs @ ?e # ts" st "n + 1"] a by simp
  show "reads sw src cap d (deep_elems d (Suc (length st)) (map snd ((rs, v) # ms)))
      (at_label (LKey 0x22) i (es @ ?hdr # cs) ((length es, n, False) # st))
      (at_label LScopeEnd j (es @ containerEntry h j KObject (n + length ((rs, v) # ms)) (1 + length (cs @ ?e # ts @ us)) # cs @ ?e # ts @ us) st)"
    using reads_trans [OF 1 reads_step [OF 2 3]] by (simp add: deep_elems_def)
qed

lemma reads_empty_array:
  assumes "byte_at src i 0x5B" "gap src (i + 1) k" "byte_at src k 0x5D"
  shows "reads_value sw src cap d i (JArray []) (k + 1) [containerEntry i (k + 1) KArray 0 1]"
  unfolding reads_value_def
proof (intro allI impI)
  fix es and st :: "(nat \<times> nat \<times> bool) list"
  assume a: "length (es @ [containerEntry i (k + 1) KArray 0 1]) \<le> cap"
  have "walkStep sw src cap d (at_label LValue i es st) =
      (if length st \<ge> d then Inl (tapeParseInvalid, i, es)
       else Inr (at_label LScopeEnd (k + 1) (es @ [containerEntry i (k + 1) KArray 0 1]) st))"
    using array_step [OF assms, of es cap sw d st] a by (simp add: isJSONWhitespace_def)
  then show "reads sw src cap d (d < length st + jdepth (JArray [])) (at_label LValue i es st)
      (at_label LScopeEnd (k + 1) (es @ [containerEntry i (k + 1) KArray 0 1]) st)"
    using reads_invalid [of sw src cap d "at_label LValue i es st"] reads_step [OF _ reads_refl, of sw src cap d "at_label LValue i es st"]
    by (cases "length st < d") simp_all
qed

lemma reads_empty_object:
  assumes "byte_at src i 0x7B" "gap src (i + 1) k" "byte_at src k 0x7D"
  shows "reads_value sw src cap d i (JObject []) (k + 1) [containerEntry i (k + 1) KObject 0 1]"
  unfolding reads_value_def
proof (intro allI impI)
  fix es and st :: "(nat \<times> nat \<times> bool) list"
  assume a: "length (es @ [containerEntry i (k + 1) KObject 0 1]) \<le> cap"
  have "walkStep sw src cap d (at_label LValue i es st) =
      (if length st \<ge> d then Inl (tapeParseInvalid, i, es)
       else Inr (at_label LScopeEnd (k + 1) (es @ [containerEntry i (k + 1) KObject 0 1]) st))"
    using object_step [OF assms, of es cap sw d st] a by (simp add: isJSONWhitespace_def)
  then show "reads sw src cap d (d < length st + jdepth (JObject [])) (at_label LValue i es st)
      (at_label LScopeEnd (k + 1) (es @ [containerEntry i (k + 1) KObject 0 1]) st)"
    using reads_invalid [of sw src cap d "at_label LValue i es st"] reads_step [OF _ reads_refl, of sw src cap d "at_label LValue i es st"]
    by (cases "length st < d") simp_all
qed

lemma reads_array:
  assumes h: "byte_at src i 0x5B" "gap src (i + 1) k" and r: "elems_region src k vs j ts" "reads_elems sw src cap d k vs j ts"
    and n: "length vs \<le> infoMaxCount"
  shows "reads_value sw src cap d i (JArray vs) j (containerEntry i j KArray (length vs) (1 + length ts) # ts)"
  unfolding reads_value_def
proof (intro allI impI)
  fix es and st :: "(nat \<times> nat \<times> bool) list"
  assume a: "length (es @ containerEntry i j KArray (length vs) (1 + length ts) # ts) \<le> cap" "length st \<le> d"
  have b: "byte_at src k (src ! k)" "\<not> isJSONWhitespace (src ! k)" "src ! k \<noteq> 0x5D" using r(1) by (auto simp: elems_region_def byte_at_def)
  have deep: "d < length st + jdepth (JArray vs) \<longleftrightarrow> d \<le> length st \<or> deep_elems d (Suc (length st)) vs"
    unfolding deep_elems_def not_le [symmetric] jdepth_JArray by auto
  have st: "walkStep sw src cap d (at_label LValue i es st) = (if length st \<ge> d then Inl (tapeParseInvalid, i, es)
      else Inr (at_label LValue k (es @ [openEntry i KArray]) ((length es, 0, True) # st)))"
    using array_step [OF h b(1,2), of es cap sw d st] b(3) a(1) by simp
  show "reads sw src cap d (d < length st + jdepth (JArray vs)) (at_label LValue i es st)
      (at_label LScopeEnd j (es @ containerEntry i j KArray (length vs) (1 + length ts) # ts) st)"
  proof (cases "length st < d")
    case True
    have "reads sw src cap d (deep_elems d (Suc (length st)) vs) (at_label LValue k (es @ [openEntry i KArray]) ((length es, 0, True) # st))
        (at_label LScopeEnd j (es @ containerEntry i j KArray (length vs) (1 + length ts) # ts) st)"
      using r(2) [unfolded reads_elems_def, rule_format, of es i "[]" st 0] a n True by simp
    with True show ?thesis unfolding deep using reads_step [of sw src cap d "at_label LValue i es st"] st by simp
  next
    case False
    then show ?thesis unfolding deep using st reads_invalid [of sw src cap d "at_label LValue i es st"] by simp
  qed
qed

lemma reads_object:
  assumes h: "byte_at src i 0x7B" "gap src (i + 1) k" and r: "members_region src k ms j ts" "reads_members sw src cap d k ms j ts"
    and n: "length ms \<le> infoMaxCount"
  shows "reads_value sw src cap d i (JObject ms) j (containerEntry i j KObject (length ms) (1 + length ts) # ts)"
  unfolding reads_value_def
proof (intro allI impI)
  fix es and st :: "(nat \<times> nat \<times> bool) list"
  assume a: "length (es @ containerEntry i j KObject (length ms) (1 + length ts) # ts) \<le> cap" "length st \<le> d"
  have b: "byte_at src k 0x22" using r(1) by (auto simp: members_region_def byte_at_def)
  have deep: "d < length st + jdepth (JObject ms) \<longleftrightarrow> d \<le> length st \<or> deep_elems d (Suc (length st)) (map snd ms)"
    unfolding deep_elems_def not_le [symmetric] jdepth_JObject by auto
  have st: "walkStep sw src cap d (at_label LValue i es st) = (if length st \<ge> d then Inl (tapeParseInvalid, i, es)
      else Inr (at_label (LKey 0x22) k (es @ [openEntry i KObject]) ((length es, 0, False) # st)))"
    using object_step [OF h b, of es cap sw d st] a(1) by (simp add: isJSONWhitespace_def)
  show "reads sw src cap d (d < length st + jdepth (JObject ms)) (at_label LValue i es st)
      (at_label LScopeEnd j (es @ containerEntry i j KObject (length ms) (1 + length ts) # ts) st)"
  proof (cases "length st < d")
    case True
    have "reads sw src cap d (deep_elems d (Suc (length st)) (map snd ms)) (at_label (LKey 0x22) k (es @ [openEntry i KObject]) ((length es, 0, False) # st))
        (at_label LScopeEnd j (es @ containerEntry i j KObject (length ms) (1 + length ts) # ts) st)"
      using r(2) [unfolded reads_members_def, rule_format, of es i "[]" st 0] a n True by simp
    with True show ?thesis unfolding deep using reads_step [of sw src cap d "at_label LValue i es st"] st by simp
  next
    case False
    then show ?thesis unfolding deep using st reads_invalid [of sw src cap d "at_label LValue i es st"] by simp
  qed
qed

lemma tape_reads:
  shows "value_tape src i v j ts \<Longrightarrow> reads_value sw src cap d i v j ts"
    and "elems_tape src i vs j ts \<Longrightarrow> reads_elems sw src cap d i vs j ts"
    and "members_tape src i ms j ts \<Longrightarrow> reads_members sw src cap d i ms j ts"
proof (induction rule: value_tape_elems_tape_members_tape.inducts)
  case (t_null i)
  then show ?case using literal_head [OF t_null] by (intro reads_scalar) (simp add: scalar_at_def value_tape_elems_tape_members_tape.t_null)
next
  case (t_true i)
  then show ?case using literal_head [OF t_true] by (intro reads_scalar) (simp add: scalar_at_def value_tape_elems_tape_members_tape.t_true)
next
  case (t_false i)
  then show ?case using literal_head [OF t_false] by (intro reads_scalar) (simp add: scalar_at_def value_tape_elems_tape_members_tape.t_false)
next
  case (t_number i j t)
  then show ?case using number_head [OF t_number] value_tape_elems_tape_members_tape.t_number [OF t_number]
    by (intro reads_scalar) (auto simp: scalar_at_def isDigit_def)
next
  case (t_string i j rs)
  then show ?case using value_tape_elems_tape_members_tape.t_string [OF t_string]
    by (intro reads_scalar) (auto simp: scalar_at_def string_at_def)
qed (simp_all only: reads_empty_array reads_empty_object reads_array reads_object reads_elems_one reads_elems_cons reads_members_one reads_members_cons tape_regions)

section \<open>Whole documents\<close>

lemma walkStep_variants: "walkStep True src cap d s = walkStep False src cap d s"
proof (cases "w_i s < length src")
  case True
  then show ?thesis using scanNumber_variants_agree [OF True] by (simp add: walkStep_def walkValue_def Let_def split: label.splits)
next
  case False
  then have "fastByteAt src (w_i s) = 0" by (simp add: fastByteAt_def)
  then show ?thesis by (simp add: walkStep_def walkValue_def isDigit_def split: label.splits)
qed

lemma walk_variants: "walk True src cap d s = walk False src cap d s"
proof (induction "length src - w_i s" arbitrary: s rule: less_induct)
  case less
  show ?case
  proof (cases "walkStep False src cap d s")
    case (Inr s')
    then have "walk True src cap d s' = walk False src cap d s'" using walkStep_progress [OF Inr] by (intro less) auto
    then show ?thesis using Inr by (simp add: walk.simps [of _ _ _ _ s] walkStep_variants)
  qed (simp add: walk.simps [of _ _ _ _ s] walkStep_variants)
qed

lemma parseFastSWAR_eq: "parseFastSWAR src cap m = parseFast src cap m"
proof -
  have "walkFastSWAR = walkFast"
    by (intro ext) (simp add: walkFastSWAR_def walkFast_def walkFrom_def walk_variants)
  then show ?thesis unfolding parseFastSWAR_def parseFast_def by (simp only:)
qed

definition walkDepth :: "nat \<Rightarrow> nat" where
  "walkDepth m = (if m > fastWalkMaxDepth then fastWalkMaxDepth else m)"

lemma walk_end: "walk sw src cap d (at_label LScopeEnd j es []) = (tapeParseOK, j, es)"
  by (subst walk.simps) (simp add: walkStep_def walkScopeEnd_def w_stop_def)

lemma walkFast_sound:
  assumes "walkFast src cap m i = (tapeParseOK, j, es)" "i < length src"
  shows "\<exists>v. value_tape src i v j es \<and> jdepth v \<le> walkDepth m \<and> length es \<le> cap"
proof -
  have "accepts False src cap (walkDepth m) (at_label LValue i [] []) j es"
    using assms(1) by (simp add: walkFast_def walkFrom_def walkDepth_def accepts_def)
  from walk_sound [THEN conjunct1, unfolded soundV_def, rule_format, OF this] obtain v k ts
    where v: "value_tape src i v k ts" "jdepth v \<le> walkDepth m" "length ts \<le> cap"
      "accepts False src cap (walkDepth m) (at_label LScopeEnd k ts []) j es"
    using assms(2) by auto
  then have "k = j \<and> ts = es" by (simp add: accepts_def walk_end)
  then show ?thesis using v by auto
qed

lemma walkFast_complete:
  assumes "value_tape src i v j es" "length es \<le> cap" "number_end (drop j src)"
  shows "if jdepth v \<le> walkDepth m then walkFast src cap m i = (tapeParseOK, j, es)
    else fst (walkFast src cap m i) = tapeParseInvalid"
  using tape_reads(1) [OF assms(1), of False cap "walkDepth m", unfolded reads_value_def, rule_format, of "[]" "[]"] assms(2,3)
  by (auto simp: reads_def walk_end walkFast_def walkFrom_def walkDepth_def)

lemma document_tape_start:
  assumes "document_tape src v es"
  shows "\<exists>j. skipSpace src 0 < length src \<and> value_tape src (skipSpace src 0) v j es \<and> gap src j (length src) \<and>
    number_end (drop j src) \<and> skipSpace src j = length src \<and> j \<le> length src"
proof -
  obtain i j where d: "gap src 0 i" "value_tape src i v j es" "gap src j (length src)"
    using assms by (auto simp: document_tape_def)
  have r: "i < length src" "\<not> isJSONWhitespace (src ! i)" using value_tape_region [OF d(2)] by (auto simp: value_region_def)
  then have "skipSpace src 0 = i" using skip_gap [OF d(1)] by simp
  then show ?thesis using d r gap_number_end [OF d(3), of 0] skip_gap [OF d(3)] gap_le [OF d(3)] by auto
qed

lemma parseFast_sound:
  assumes "parseFast src cap m = (tapeParseOK, es)"
  shows "\<exists>v. document_tape src v es \<and> jdepth v \<le> walkDepth m \<and> length es \<le> cap"
proof -
  let ?i = "skipSpace src 0"
  have sp: "skipSpaceFast src 0 = ?i" by (simp add: skipSpaceFast_eq)
  obtain j where w: "?i < length src" "walkFast src cap m ?i = (tapeParseOK, j, es)" "skipSpaceFast src j = length src"
    using assms by (auto simp: parseFast_def Let_def sp split: if_splits prod.splits)
  obtain v where v: "value_tape src ?i v j es" "jdepth v \<le> walkDepth m" "length es \<le> cap"
    using walkFast_sound [OF w(2,1)] by blast
  have "j \<le> length src" using value_tape_bounds [OF v(1)] by simp
  then have "gap src j (length src)" using w(3) gap_skip [of j src] by (simp add: skipSpaceFast_eq)
  then show ?thesis using v gap_skip [of 0 src] by (auto simp: document_tape_def)
qed

lemma parseFast_complete:
  assumes "document_tape src v es" "length es \<le> cap"
  shows "if jdepth v \<le> walkDepth m then parseFast src cap m = (tapeParseOK, es)
    else fst (parseFast src cap m) = tapeParseInvalid"
proof -
  let ?i = "skipSpace src 0"
  have sp: "skipSpaceFast src 0 = ?i" by (simp add: skipSpaceFast_eq)
  obtain j where j: "?i < length src" "value_tape src ?i v j es" "number_end (drop j src)" "skipSpace src j = length src" "j \<le> length src"
    using document_tape_start [OF assms(1)] by blast
  then show ?thesis
    using walkFast_complete [OF j(2) assms(2) j(3), of m]
    by (auto simp: parseFast_def Let_def sp skipSpaceFast_eq split: if_splits prod.splits)
qed

end
