(* ===== verification/TapeDiagnose.thy ===== *)
theory TapeDiagnose
  imports TapeWalk
begin

text \<open>
  The diagnostic builder against the specification. Its scope stack is threaded through the next words of the open
  headers; reading a value leaves the entries below it and the stack as they were.
\<close>

section \<open>Strings\<close>

lemma parseStringRaw_eq:
  "i \<le> length src \<Longrightarrow> parseStringRawFrom src i fl =
     (case parseStringFrom src i of Inl e \<Rightarrow> Inl e | Inr k \<Rightarrow> Inr (k, fl \<or> 0x5C \<in> set (segment src i (k - 1))))"
proof (induction src i fl rule: parseStringRawFrom.induct)
  case (1 src i fl)
  define j where "j = scanStringSpecialScalar src i"
  have sk: "skips src i j fl fl" using stop_skips [OF 1(3)] by (simp add: j_def)
  have jl: "i \<le> j" "j \<le> length src" using sk by (auto simp: skips_def)
  have goal: ?case if "skips src i k fl g" "k \<le> length src" "parseStringRawFrom src i fl = parseStringRawFrom src k g"
    "parseStringRawFrom src k g = (case parseStringFrom src k of Inl e \<Rightarrow> Inl e
      | Inr m \<Rightarrow> Inr (m, g \<or> 0x5C \<in> set (segment src k (m - 1))))" for k g
  proof (cases "parseStringFrom src k")
    case (Inr m)
    then have "k \<le> m - 1" using parseStringFrom_sound [OF Inr that(2)] by auto
    then show ?thesis using that Inr segment_mem_append [of i k "m - 1" "0x5C" src] by (auto simp: skips_def)
  qed (use that in \<open>simp add: skips_def\<close>)
  show ?case
  proof (cases "j < length src")
    case False
    then show ?thesis by (simp add: parseStringRawFrom.simps [of src i] parseStringFrom.simps [of src i] flip: j_def)
  next
    case True
    have sp: "is_special_byte (src ! j)" using scanStringSpecialScalar_ge(2) [of src i] True by (simp add: j_def)
    consider (quote) "src ! j = 0x22" | (esc) "src ! j = 0x5C" | (ctl) "src ! j \<noteq> 0x22" "src ! j \<noteq> 0x5C" "src ! j < 0x20"
      | (run) "src ! j \<noteq> 0x22" "src ! j \<noteq> 0x5C" "\<not> src ! j < 0x20" by blast
    then show ?thesis
    proof cases
      case quote
      then have "parseStringRawFrom src i fl = Inr (Suc j, fl)" "parseStringFrom src i = Inr (Suc j)"
        using True by (simp_all add: parseStringRawFrom.simps [of src i] parseStringFrom.simps [of src i] flip: j_def)
      moreover have "fl \<longleftrightarrow> fl \<or> 0x5C \<in> set (segment src i j)" using sk by (simp add: skips_def)
      ultimately show ?thesis by simp
    next
      case ctl
      then show ?thesis using True by (simp add: parseStringRawFrom.simps [of src i] parseStringFrom.simps [of src i] flip: j_def)
    next
      case esc
      show ?thesis
      proof (cases "Suc j < length src \<and> (\<exists>k. validateEscape src (Suc j) = Inr k)")
        case False
        then show ?thesis using True esc
          by (auto simp: parseStringRawFrom.simps [of src i] parseStringFrom.simps [of src i] simp flip: j_def split: sum.splits)
      next
        case e: True
        then obtain k where k: "validateEscape src (Suc j) = Inr k" by blast
        have s: "skips src i k fl True" using skips_trans [OF sk escape_skips [OF _ esc k]] e by simp
        then have kl: "k \<le> length src" by (simp add: skips_def)
        show ?thesis
        proof (rule goal [OF s kl])
          show "parseStringRawFrom src i fl = parseStringRawFrom src k True"
            using True esc e k by (simp add: parseStringRawFrom.simps [of src i] flip: j_def)
          show "parseStringRawFrom src k True = (case parseStringFrom src k of Inl e \<Rightarrow> Inl e
              | Inr m \<Rightarrow> Inr (m, True \<or> 0x5C \<in> set (segment src k (m - 1))))"
            by (rule 1(1) [OF j_def _ refl]) (use True esc e k kl in auto)
        qed
      qed
    next
      case run
      then have hi: "0x80 \<le> src ! j" using sp by (auto simp: is_special_byte_def)
      obtain k bad where r: "scanStringUnicodeRun src j = (k, bad)" by (cases "scanStringUnicodeRun src j")
      show ?thesis
      proof (cases bad)
        case (Some p)
        then show ?thesis using True run r
          by (simp add: parseStringRawFrom.simps [of src i] parseStringFrom.simps [of src i] flip: j_def)
      next
        case None
        have s: "skips src i k fl fl" using skips_trans [OF sk run_skips [of src j k fl]] r None True hi by simp
        then have kl: "k \<le> length src" by (simp add: skips_def)
        show ?thesis
        proof (rule goal [OF s kl])
          show "parseStringRawFrom src i fl = parseStringRawFrom src k fl"
            using True run r None by (simp add: parseStringRawFrom.simps [of src i] flip: j_def)
          show "parseStringRawFrom src k fl = (case parseStringFrom src k of Inl e \<Rightarrow> Inl e
              | Inr m \<Rightarrow> Inr (m, fl \<or> 0x5C \<in> set (segment src k (m - 1))))"
            by (rule 1(2) [OF j_def _ refl]) (use True run r None kl in auto)
        qed
      qed
    qed
  qed
qed

lemma shortString_skips:
  "shortStringLoop src limit i = (k, True) \<Longrightarrow> limit \<le> length src \<Longrightarrow> string_verdict src i False (k, False, True)"
proof (induction src limit i rule: shortStringLoop.induct)
  case (1 src limit i)
  have i: "i < limit" using 1(2) by (subst (asm) shortStringLoop.simps) (simp split: if_splits)
  then have b: "fastByteAt src i = src ! i" using 1(3) by (simp add: fastByteAt_def)
  show ?case
  proof (cases "src ! i = 0x22")
    case True
    then have "k = i + 1" using 1(2) i b by (subst (asm) shortStringLoop.simps) simp
    then show ?thesis using quote_verdict [of i src False] i 1(3) True b by simp
  next
    case False
    then have c: "\<not> (src ! i = 0x5C \<or> src ! i < 0x20 \<or> src ! i \<ge> 0x80)" "shortStringLoop src limit (i + 1) = (k, True)"
      using 1(2) i b by (simp_all add: shortStringLoop.simps [of src limit i] Let_def split: if_splits)
    have "skips src i (i + 1) False False"
    proof (rule clean_skips)
      show "\<not> is_special_byte (src ! m)" if "i \<le> m" "m < i + 1" for m
        using that c(1) False by (cases "m = i") (auto simp: is_special_byte_def)
    qed (use i 1(3) in auto)
    then show ?thesis using skips_verdict 1(1) [OF i refl] False c b 1(3) by simp
  qed
qed

lemma tapeString_eq:
  assumes "b_i b < length src"
  shows "tapeString src b = (case parseStringFrom src (Suc (b_i b)) of
      Inl e \<Rightarrow> Inl (Syntax e)
    | Inr k \<Rightarrow> Inr (k, 0x5C \<in> set (segment src (Suc (b_i b)) (k - 1)), b\<lparr>b_i := k\<rparr>))"
proof -
  let ?i = "b_i b"
  obtain k e ok where r: "scanJSONStringFast src ?i (length src \<le> 64) = (k, e, ok)"
    by (cases "scanJSONStringFast src ?i (length src \<le> 64)")
  have long: "string_verdict src (Suc ?i) False (scanJSONStringFastLong src ?i)"
    using scanJSONStringFastFrom_agrees [of "Suc ?i" src] assms by (simp add: scanJSONStringFastLong_def)
  have "string_verdict src (Suc ?i) False (k, e, ok)"
  proof (cases "length src \<le> 64 \<and> snd (scanShortJSONString src ?i)")
    case True
    then obtain m where "scanShortJSONString src ?i = (m, True)" by (cases "scanShortJSONString src ?i") auto
    then show ?thesis using True r shortString_skips [of src _ "Suc ?i" m]
      by (auto simp: scanJSONStringFast_def scanShortJSONString_def Let_def split: if_splits)
  next
    case False
    then show ?thesis using long r by (cases "scanShortJSONString src ?i") (auto simp: scanJSONStringFast_def split: if_splits)
  qed
  then show ?thesis using r parseStringRaw_eq [of "Suc ?i" src False] assms
    by (auto simp: tapeString_def string_verdict_def split: sum.splits)
qed

section \<open>Values\<close>

abbreviation builder :: "IndexEntry list \<Rightarrow> u32 \<Rightarrow> nat \<Rightarrow> nat \<Rightarrow> tapeBuilder" where
  "builder es p i sp \<equiv> \<lparr>b_entries = es, b_parent = p, b_i = i, b_sp = sp\<rparr>"

lemma b_skipSpace_builder [simp]:
  "i \<le> length src \<Longrightarrow> b_skipSpace src (builder es p i sp) = builder es p (skipSpace src i) sp"
  by (simp add: b_skipSpace_def skipSpaceFast_eq)

definition is_container :: "u8 \<Rightarrow> bool" where
  "is_container k \<longleftrightarrow> k = KArray \<or> k = KObject"

definition scalar_kind :: "byte \<Rightarrow> u8" where
  "scalar_kind c = (if c = 0x6E then KNull else if c = 0x74 \<or> c = 0x66 then KBool else if c = 0x22 then KString else KNumber)"

lemma scalar_kind_not: "scalar_kind c \<noteq> KArray" "scalar_kind c \<noteq> KObject"
  by (simp_all add: scalar_kind_def)

text \<open>What \<^verbatim>\<open>value\<close> returns for a scalar at the significant position \<open>i\<close>.\<close>

definition scalar_added :: "nat \<Rightarrow> IndexEntry list \<Rightarrow> u32 \<Rightarrow> nat \<Rightarrow> byte \<Rightarrow> nat \<Rightarrow> IndexEntry \<Rightarrow> buildError + (u8 \<times> nat \<times> tapeBuilder)" where
  "scalar_added cap es p sp c j e =
     (if length es = cap then Inl ErrIndexFull else Inr (scalar_kind c, length es, builder (es @ [e]) p j sp))"

lemma tapeScalarAt_eq:
  "tapeScalarAt cap k i j f (builder es p j sp) =
     (if length es = cap then Inl ErrIndexFull else Inr (k, length es, builder (es @ [scalarEntry i j k f]) p j sp))"
  by (simp add: tapeScalarAt_def addEntry_def)

lemma tapeLiteral_eq:
  "tapeLiteral src cap t k (builder es p i sp) =
     (if \<not> matchStringAt src i t then Inl (b_err src (int i) InvalidLiteral)
      else if length es = cap then Inl ErrIndexFull
      else Inr (k, length es, builder (es @ [scalarEntry i (i + length t) k 0]) p (i + length t) sp))"
  by (simp add: tapeLiteral_def tapeScalarAt_eq)

lemma literal_added:
  "matchStringAt src i t \<Longrightarrow> length t = m \<Longrightarrow> scalar_kind c = k \<Longrightarrow>
   tapeLiteral src cap t k (builder es p i sp) = scalar_added cap es p sp c (i + m) (scalarEntry i (i + m) k 0)"
  by (simp add: tapeLiteral_eq scalar_added_def)

lemma tapeScalar_added:
  "scalar_kind c = k \<Longrightarrow> tapeScalarAt cap k i j f (builder es p j sp) = scalar_added cap es p sp c j (scalarEntry i j k f)"
  by (simp add: tapeScalarAt_eq scalar_added_def)

lemma tapeOpen_eq:
  "tapeOpen cap k (builder es p i sp) =
     (if length es = cap then Inl ErrIndexFull else Inr (k, length es, builder (es @ [openEntry i k]) p (Suc i) sp))"
  by (simp add: tapeOpen_def addEntry_def)

lemma tapeValue_unfold:
  assumes "i \<le> length src" "skipSpace src i < length src"
  defines "k \<equiv> skipSpace src i"
  shows "tapeValue src cap (builder es p i sp) =
    (if src ! k = 0x6E then tapeLiteral src cap (ascii ''null'') KNull (builder es p k sp)
     else if src ! k = 0x74 then tapeLiteral src cap (ascii ''true'') KBool (builder es p k sp)
     else if src ! k = 0x66 then tapeLiteral src cap (ascii ''false'') KBool (builder es p k sp)
     else if src ! k = 0x22 then
       (case parseStringFrom src (Suc k) of
          Inl e \<Rightarrow> Inl (Syntax e)
        | Inr j \<Rightarrow> tapeScalarAt cap KString k j (escaped_flag src k j) (builder es p j sp))
     else if src ! k = 0x5B then tapeOpen cap KArray (builder es p k sp)
     else if src ! k = 0x7B then tapeOpen cap KObject (builder es p k sp)
     else if src ! k \<noteq> 0x2D \<and> \<not> isDigit (src ! k) then Inl (b_err src (int k) UnexpectedValueByte)
     else case scanNumberFastTagged src k of (j, integer, ok) \<Rightarrow>
       if \<not> ok then Inl (b_err src (int k) (case snd (scanNumber src k) of None \<Rightarrow> InvalidNumber | Some m \<Rightarrow> m))
       else tapeScalarAt cap KNumber k j (numberFlags integer) (builder es p j sp))"
proof -
  have k: "k < length src" "fastByteAt src k = src ! k" using assms by (simp_all add: fastByteAt_def)
  have str: "(case tapeString src (builder es p k sp) of Inl e \<Rightarrow> Inl e
      | Inr (j, escaped, b) \<Rightarrow> tapeScalarAt cap KString k j (if escaped then tapeFlagEscaped else 0) b) =
    (case parseStringFrom src (Suc k) of Inl e \<Rightarrow> Inl (Syntax e)
      | Inr j \<Rightarrow> tapeScalarAt cap KString k j (escaped_flag src k j) (builder es p j sp))"
    using tapeString_eq [of "builder es p k sp" src] k by (simp add: escaped_flag_def split: sum.splits)
  have u: "(builder es p k sp)\<lparr>b_i := j\<rparr> = builder es p j sp" for j by simp
  show ?thesis
    using assms k unfolding tapeValue_def b_skipSpace_builder [OF assms(1)] k_def [symmetric] Let_def
    by (simp only: str u k tapeBuilder.simps not_le [symmetric] if_False)
qed

lemma tapeValue_scalar:
  assumes s: "scalar_at src k v j e" and ne: "number_end (drop j src)" and g: "gap src i k"
  shows "tapeValue src cap (builder es p i sp) = scalar_added cap es p sp (src ! k) j e"
proof -
  have t: "value_tape src k v j [e]" and c: "src ! k \<noteq> 0x5B" "src ! k \<noteq> 0x7B" using s by (auto simp: scalar_at_def)
  have k: "k < length src" "\<not> isJSONWhitespace (src ! k)" using value_tape_region [OF t] by (auto simp: value_region_def)
  have sk: "skipSpace src i = k" "i \<le> length src" using skip_gap [OF g] k gap_le [OF g] by auto
  note u = tapeValue_unfold [OF sk(2), unfolded sk(1), OF k(1), of cap es p sp]
  show ?thesis
    using t
  proof (cases rule: value_tape.cases)
    case t_null
    then show ?thesis using u literal_at_iff [OF k(1), of "ascii ''null''" 4] literal_head [OF t_null(4)]
      by (simp add: literal_added [where m = 4 and c = "0x6E"] scalar_kind_def)
  next
    case t_true
    then show ?thesis using u literal_at_iff [OF k(1), of "ascii ''true''" 4] literal_head [OF t_true(4)]
      by (simp add: literal_added [where m = 4 and c = "0x74"] scalar_kind_def)
  next
    case t_false
    then show ?thesis using u literal_at_iff [OF k(1), of "ascii ''false''" 5] literal_head [OF t_false(4)]
      by (simp add: literal_added [where m = 5 and c = "0x66"] scalar_kind_def)
  next
    case (t_number t)
    then have "JsonText.at src k (t @ drop j src)" using region_at [of k j src] by (simp add: literal_at_def)
    from scanNumber_complete [OF this t_number(4) ne] have "scanNumber src k = (j, None)"
      using t_number(3) by (auto simp: literal_at_def)
    then have n: "scanNumberFastTagged src k = (j, plain_integer t, True)"
      using tagged_scan [OF k(1), of False j] t_number(3) by (simp add: literal_at_def)
    have h: "src ! k = 0x2D \<or> isDigit (src ! k)" using number_head [OF t_number(3,4)] by simp
    then have "src ! k \<notin> {0x5B, 0x7B, 0x22, 0x74, 0x66, 0x6E}" by (auto simp: isDigit_def)
    then show ?thesis using u n h t_number(2) tapeScalar_added [of "src ! k" KNumber] by (auto simp: scalar_kind_def)
  next
    case (t_string rs)
    then have "src ! k = 0x22" by (simp add: string_at_def)
    then show ?thesis using u t_string string_at_iff [OF k(1), of j] tapeScalar_added [of "src ! k" KString] by (auto simp: scalar_kind_def)
  qed (use c in \<open>auto simp: byte_at_def\<close>)
qed

lemma tapeValue_scalar_sound:
  assumes r: "tapeValue src cap (builder es p i sp) = Inr (kd, n, b)" and i: "i \<le> length src"
    and c: "skipSpace src i < length src" "src ! skipSpace src i \<noteq> 0x5B" "src ! skipSpace src i \<noteq> 0x7B"
  shows "\<exists>v j e. scalar_at src (skipSpace src i) v j e \<and> length es \<noteq> cap \<and> kd = scalar_kind (src ! skipSpace src i) \<and>
    b = builder (es @ [e]) p j sp"
proof -
  let ?k = "skipSpace src i"
  note u = tapeValue_unfold [OF i c(1), of cap es p sp] and lit = literal_scalar [OF c]
  have goalI: ?thesis if "scalar_at src ?k v j e" "tapeValue src cap (builder es p i sp) = scalar_added cap es p sp (src ! ?k) j e" for v j e
    using that r by (auto simp: scalar_added_def split: if_splits)
  consider (nu) "src ! ?k = 0x6E" | (tr) "src ! ?k = 0x74" | (fa) "src ! ?k = 0x66" | (str) "src ! ?k = 0x22"
    | (num) "src ! ?k \<notin> {0x22, 0x74, 0x66, 0x6E}" by blast
  then show ?thesis
  proof cases
    case nu
    then have m: "matchStringAt src ?k (ascii ''null'')" using u r by (simp add: tapeLiteral_eq split: if_splits)
    from goalI [OF lit(1) [OF m]] show ?thesis using u nu literal_added [OF m, of 4 "0x6E"] by (simp add: scalar_kind_def)
  next
    case tr
    then have m: "matchStringAt src ?k (ascii ''true'')" using u r by (simp add: tapeLiteral_eq split: if_splits)
    from goalI [OF lit(2) [OF m]] show ?thesis using u tr literal_added [OF m, of 4 "0x74"] by (simp add: scalar_kind_def)
  next
    case fa
    then have m: "matchStringAt src ?k (ascii ''false'')" using u r by (simp add: tapeLiteral_eq split: if_splits)
    from goalI [OF lit(3) [OF m]] show ?thesis using u fa literal_added [OF m, of 5 "0x66"] by (simp add: scalar_kind_def)
  next
    case str
    then obtain j where j: "parseStringFrom src (Suc ?k) = Inr j" using u r by (auto split: sum.splits)
    then obtain rs where "string_at src ?k j rs" using string_at_iff [OF c(1) str] by blast
    then have "scalar_at src ?k (JString rs) j (scalarEntry ?k j KString (escaped_flag src ?k j))"
      using t_string str by (simp add: scalar_at_def)
    from goalI [OF this] show ?thesis using u str j tapeScalar_added [of "0x22" KString] by (simp add: scalar_kind_def)
  next
    case num
    then have d: "src ! ?k = 0x2D \<or> isDigit (src ! ?k)" using u r c by (auto split: if_splits)
    obtain j g ok where f: "scanNumberFastTagged src ?k = (j, g, ok)" by (cases "scanNumberFastTagged src ?k")
    have e: "tapeValue src cap (builder es p i sp) = (if \<not> ok then Inl (b_err src (int ?k) (case snd (scanNumber src ?k) of None \<Rightarrow> InvalidNumber | Some m \<Rightarrow> m))
        else tapeScalarAt cap KNumber ?k j (numberFlags g) (builder es p j sp))"
      using u num c d f by auto
    then have ok: ok using r by (auto split: if_splits)
    then have n: "scanNumber src ?k = (j, None)" "g = plain_integer (segment src ?k j)"
      using tagged_scan [OF c(1), of False j g] f by auto
    from goalI [OF number_value [OF c(1) n(1)]] show ?thesis
      using e ok num n(2) tapeScalar_added [of "src ! ?k" KNumber] by (simp add: scalar_kind_def)
  qed
qed

section \<open>Open headers\<close>

text \<open>The header of an open container: its next word is the enclosing entry, its count the members completed so far.\<close>

definition openHeader :: "nat \<Rightarrow> u8 \<Rightarrow> u32 \<Rightarrow> nat \<Rightarrow> IndexEntry" where
  "openHeader h k p n = \<lparr>e_start = of_nat h, e_end = 0, e_next = p, e_info = packInfo (of_nat n) k 0\<rparr>"

lemma unat_count: "n \<le> infoMaxCount \<Longrightarrow> unat (of_nat n :: u32) = n"
  by (simp add: infoMaxCount_def unat_of_nat)

lemma openHeader_parts:
  assumes "n \<le> infoMaxCount" "k < 8"
  shows "Kind (openHeader h k p n) = k" "unat (Count (openHeader h k p n)) = n"
proof -
  have "(of_nat n :: u32) < 2 ^ 26"
    using assms(1) unat_count [OF assms(1)] by (simp add: word_less_nat_alt infoMaxCount_def)
  note pp = packInfo_parts [of "openHeader h k p n" "of_nat n" k 0, OF _ this assms(2)]
  show "Kind (openHeader h k p n) = k" using pp(1) by (simp add: openHeader_def)
  show "unat (Count (openHeader h k p n)) = n" using pp(2) unat_count [OF assms(1)] by (simp add: openHeader_def)
qed

lemma packInfo_add:
  assumes "n < 2 ^ 26"
  shows "packInfo (of_nat n) k 0 = of_nat n + push_bit 26 (ucast k)"
proof -
  have n: "\<not> bit (of_nat n :: u32) m" if "26 \<le> m" for m
    using small_bits [of "of_nat n :: u32" 26 m] that assms by (simp add: unat_of_nat)
  have m: "(of_nat n :: u32) AND infoCountMask = of_nat n"
    by (rule bit_word_eqI) (use n in \<open>auto simp: bit_simps bit_infoCountMask simp flip: not_le\<close>)
  have "packInfo (of_nat n) k 0 = of_nat n OR push_bit 26 (ucast k)" by (simp add: packInfo_def m)
  also have "\<dots> = of_nat n + push_bit 26 (ucast k)"
    by (rule disjunctive_add_eq_or [symmetric], rule bit_word_eqI) (use n in \<open>auto simp: bit_simps\<close>)
  finally show ?thesis .
qed

lemma bump_openHeader: "n < infoMaxCount \<Longrightarrow> bumpCount (openHeader h k p n) = openHeader h k p (Suc n)"
  using packInfo_add [of n k] packInfo_add [of "Suc n" k]
  by (simp add: bumpCount_def openHeader_def infoMaxCount_def)

lemma push_openEntry:
  "pushContainer (length es) (builder (es @ [openEntry h k]) p i sp) =
     builder (es @ [openHeader h k p 0]) (of_nat (length es)) i (Suc sp)"
  by (simp add: pushContainer_def openEntry_def openHeader_def)

lemma finish_openHeader:
  assumes "length es < 2 ^ 32"
  shows "finishContainer (builder (es @ openHeader h k p n # cs) (of_nat (length es)) j (Suc sp)) =
    builder (es @ containerEntry h j k n (1 + length cs) # cs) p j sp"
proof -
  have u: "unat (of_nat (length es) :: u32) = length es" using assms by (simp add: unat_of_nat)
  show ?thesis by (simp add: finishContainer_def u Let_def openHeader_def containerEntry_def nth_append list_update_append)
qed

text \<open>The builder inside a container whose header is behind \<open>es\<close>, and the turn after a completed value there.\<close>

abbreviation inside ::
  "IndexEntry list \<Rightarrow> nat \<Rightarrow> u8 \<Rightarrow> u32 \<Rightarrow> nat \<Rightarrow> IndexEntry list \<Rightarrow> nat \<Rightarrow> nat \<Rightarrow> tapeBuilder" where
  "inside es h k p sp cs n i \<equiv> builder (es @ openHeader h k p n # cs) (of_nat (length es)) i (Suc sp)"

lemma tapeComplete_frame:
  assumes "length es < 2 ^ 32" "n \<le> infoMaxCount" "k = KArray \<or> k = KObject" "i \<le> length src"
  defines "m \<equiv> skipSpace src i" and "arr \<equiv> k = KArray"
  shows "tapeComplete src cap (inside es h k p sp cs n i) =
    (if n = infoMaxCount then Inl (Inl ErrIndexTooLarge)
     else if m \<ge> length src then Inl (Inl (b_err src (int m) (if arr then UnterminatedArray else UnterminatedObject)))
     else if src ! m = 0x2C then
       (if arr then Inr (False, inside es h k p sp cs (Suc n) (Suc m))
        else case tapeObjectKey src cap (inside es h k p sp cs (Suc n) (Suc m)) of Inl e \<Rightarrow> Inl (Inl e) | Inr b \<Rightarrow> Inr (False, b))
     else if src ! m = (if arr then 0x5D else 0x7D)
     then Inr (True, builder (es @ containerEntry h (Suc m) k (Suc n) (1 + length cs) # cs) p (Suc m) sp)
     else Inl (Inl (b_err src (int m) (if arr then ExpectedCommaOrBracket else ExpectedCommaOrBrace))))"
proof -
  have u: "unat (of_nat (length es) :: u32) = length es" using assms(1) by (simp add: unat_of_nat)
  have k8: "k < 8" using assms(3) by auto
  note pt = openHeader_parts [OF assms(2) k8, of h p]
  show ?thesis
  proof (cases "n = infoMaxCount")
    case True
    then show ?thesis using pt by (simp add: tapeComplete_def u Let_def)
  next
    case False
    then have bump: "bumpCount (openHeader h k p n) = openHeader h k p (Suc n)" using assms(2) by (intro bump_openHeader) simp
    note fin = finish_openHeader [OF assms(1), of h k p "Suc n" cs "Suc m" sp]
    show ?thesis
      using False assms(4) fin by (simp add: tapeComplete_def u Let_def pt bump arr_def m_def)
  qed
qed

section \<open>Keys\<close>

abbreviation keyEntry :: "bytes \<Rightarrow> nat \<Rightarrow> nat \<Rightarrow> IndexEntry" where
  "keyEntry src i q \<equiv> scalarEntry i q KString (tapeFlagKey OR escaped_flag src i q)"

lemma tapeObjectKey_unfold:
  assumes "i \<le> length src"
  defines "k \<equiv> skipSpace src i"
  shows "tapeObjectKey src cap (builder es p i sp) =
    (if \<not> byte_at src k 0x22 then Inl (b_err src (int k) ExpectedKey)
     else case parseStringFrom src (Suc k) of
       Inl e \<Rightarrow> Inl (Syntax e)
     | Inr q \<Rightarrow>
         if length es = cap then Inl ErrIndexFull
         else if \<not> byte_at src (skipSpace src q) 0x3A then Inl (b_err src (int (skipSpace src q)) ExpectedColon)
         else Inr (builder (es @ [keyEntry src k q]) p (Suc (skipSpace src q)) sp))"
proof (cases "byte_at src k 0x22")
  case True
  then have k: "k < length src" by (simp add: byte_at_def)
  show ?thesis
  proof (cases "parseStringFrom src (Suc k)")
    case (Inl e)
    then show ?thesis using True assms tapeString_eq [of "builder es p k sp" src] k
      by (simp add: tapeObjectKey_def b_at_def byte_at_def)
  next
    case (Inr q)
    have q: "q \<le> length src" using parseStringFrom_sound [OF Inr] k by simp
    have f: "(if 0x5C \<in> set (segment src (Suc k) (q - Suc 0)) then tapeFlagKey OR tapeFlagEscaped else tapeFlagKey) = tapeFlagKey OR escaped_flag src k q"
      by (simp add: escaped_flag_def)
    show ?thesis using Inr True assms tapeString_eq [of "builder es p k sp" src] k q f
      by (auto simp: tapeObjectKey_def b_at_def byte_at_def addEntry_def Let_def)
  qed
qed (use assms in \<open>auto simp: tapeObjectKey_def b_at_def byte_at_def\<close>)

lemma tapeObjectKey_sound:
  assumes "tapeObjectKey src cap (builder es p i sp) = Inr b" "i \<le> length src"
  obtains k q rs a where "gap src i k" "string_at src k q rs" "gap src q a" "byte_at src a 0x3A" "length es \<noteq> cap"
    "b = builder (es @ [keyEntry src k q]) p (a + 1) sp" "i < a"
proof -
  let ?k = "skipSpace src i"
  note u = tapeObjectKey_unfold [OF assms(2), of cap es p sp]
  have k: "?k < length src" "src ! ?k = 0x22" using u assms(1) by (auto simp: byte_at_def split: if_splits)
  obtain q where q: "parseStringFrom src (Suc ?k) = Inr q" using u assms(1) by (auto split: if_splits sum.splits)
  obtain rs where rs: "string_at src ?k q rs" using q string_at_iff [OF k] by blast
  then have ql: "?k < q" "q \<le> length src" by (auto simp: string_at_def)
  have g: "gap src i ?k" "gap src q (skipSpace src q)" using assms(2) ql by (simp_all add: gap_skip)
  show thesis
    by (rule that [OF g(1) rs g(2)]) (use u assms(1) q ql gap_le [OF g(1)] gap_le [OF g(2)] in \<open>auto split: if_splits\<close>)
qed

lemma tapeObjectKey_complete:
  assumes "gap src i k" "string_at src k q rs" "gap src q a" "byte_at src a 0x3A" "length es < cap"
  shows "tapeObjectKey src cap (builder es p i sp) = Inr (builder (es @ [keyEntry src k q]) p (a + 1) sp)"
proof -
  have k: "byte_at src k 0x22" using assms(2) by (simp add: string_at_def byte_at_def)
  then have sk: "skipSpace src i = k" "skipSpace src q = a"
    using skip_gap_byte [OF assms(1) k] skip_gap_byte [OF assms(3,4)] by (simp_all add: isJSONWhitespace_def)
  have "parseStringFrom src (Suc k) = Inr q" using string_at_iff [of k src q] assms(2) k by (auto simp: byte_at_def)
  then show ?thesis using tapeObjectKey_unfold [of i src cap es p sp] gap_le [OF assms(1)] sk k assms(4,5) by simp
qed

section \<open>Soundness\<close>

definition keyLoop :: "bytes \<Rightarrow> nat \<Rightarrow> nat \<Rightarrow> tapeBuilder \<Rightarrow> buildError + tapeBuilder" where
  "keyLoop src cap D b = (case tapeObjectKey src cap b of Inl e \<Rightarrow> Inl e | Inr b \<Rightarrow> tapeLoop src cap D (False, b))"

lemma tapeLoop_open:
  "tapeLoop src cap D (False, b) = (case tapeOpenValue src cap D b of Inl r \<Rightarrow> r | Inr st \<Rightarrow> tapeLoop src cap D st)"
  by (subst tapeLoop.simps) (simp add: tapeStep_def)

lemma tapeLoop_complete:
  "tapeLoop src cap D (True, b) = (case tapeComplete src cap b of Inl r \<Rightarrow> r | Inr st \<Rightarrow> tapeLoop src cap D st)"
  by (subst tapeLoop.simps) (simp add: tapeStep_def)

text \<open>The loop after a completed value, by the next significant byte.\<close>

lemma complete_accepts:
  assumes acc: "tapeLoop src cap D (True, inside es h k p sp cs n i) = Inr fin"
    and a: "length es < 2 ^ 32" "n \<le> infoMaxCount" "k = KArray \<or> k = KObject" "i \<le> length src"
  obtains (comma) m where "gap src i m" "byte_at src m 0x2C" "Suc n \<le> infoMaxCount"
      "(if k = KArray then tapeLoop src cap D (False, inside es h k p sp cs (Suc n) (m + 1))
        else keyLoop src cap D (inside es h k p sp cs (Suc n) (m + 1))) = Inr fin"
  | (close) m where "gap src i m" "byte_at src m (if k = KArray then 0x5D else 0x7D)" "Suc n \<le> infoMaxCount"
      "tapeLoop src cap D (True, builder (es @ containerEntry h (m + 1) k (n + 1) (1 + length cs) # cs) p (m + 1) sp) = Inr fin"
proof -
  let ?m = "skipSpace src i"
  have g: "gap src i ?m" using a(4) by (rule gap_skip)
  note u = tapeComplete_frame [OF a, of cap h p cs sp]
  have n: "n \<noteq> infoMaxCount" "?m < length src" using acc u by (auto simp: tapeLoop_complete split: if_splits)
  show thesis
  proof (cases "src ! ?m = 0x2C")
    case True
    then have "(if k = KArray then tapeLoop src cap D (False, inside es h k p sp cs (Suc n) (?m + 1))
        else keyLoop src cap D (inside es h k p sp cs (Suc n) (?m + 1))) = Inr fin"
      using acc u n by (cases "k = KArray") (auto simp: tapeLoop_complete keyLoop_def split: sum.splits)
    then show thesis using comma [OF g] True n a(2) by (simp add: byte_at_def)
  next
    case False
    then have "src ! ?m = (if k = KArray then 0x5D else 0x7D)"
      using acc u n by (cases "src ! ?m = (if k = KArray then 0x5D else 0x7D)") (simp_all add: tapeLoop_complete)
    then show thesis using close [OF g] False n a(2) acc u by (simp add: byte_at_def tapeLoop_complete split: if_splits)
  qed
qed

definition diagV :: "bytes \<Rightarrow> nat \<Rightarrow> nat \<Rightarrow> nat \<Rightarrow> bool" where
  "diagV src cap D i \<longleftrightarrow> (\<forall>es p sp fin. tapeLoop src cap D (False, builder es p i sp) = Inr fin \<longrightarrow>
     sp \<le> D \<longrightarrow> length es \<le> cap \<longrightarrow> i \<le> length src \<longrightarrow>
     (\<exists>k v j ts. gap src i k \<and> value_tape src k v j ts \<and> sp + jdepth v \<le> D \<and> length (es @ ts) \<le> cap \<and>
        tapeLoop src cap D (True, builder (es @ ts) p j sp) = Inr fin))"

definition diagE :: "bytes \<Rightarrow> nat \<Rightarrow> nat \<Rightarrow> nat \<Rightarrow> bool" where
  "diagE src cap D i \<longleftrightarrow> (\<forall>es h p sp cs n fin. tapeLoop src cap D (False, inside es h KArray p sp cs n i) = Inr fin \<longrightarrow>
     sp < D \<longrightarrow> length (es @ openHeader h KArray p n # cs) \<le> cap \<longrightarrow> i \<le> length src \<longrightarrow> n \<le> infoMaxCount \<longrightarrow>
     (\<exists>k vs j ts. gap src i k \<and> elems_tape src k vs j ts \<and> (\<forall>v \<in> set vs. Suc sp + jdepth v \<le> D) \<and>
        n + length vs \<le> infoMaxCount \<and> length (es @ openHeader h KArray p n # cs @ ts) \<le> cap \<and>
        tapeLoop src cap D (True, builder (es @ containerEntry h j KArray (n + length vs) (1 + length (cs @ ts)) # cs @ ts) p j sp) = Inr fin))"

definition diagM :: "bytes \<Rightarrow> nat \<Rightarrow> nat \<Rightarrow> nat \<Rightarrow> bool" where
  "diagM src cap D i \<longleftrightarrow> (\<forall>es h p sp cs n fin. keyLoop src cap D (inside es h KObject p sp cs n i) = Inr fin \<longrightarrow>
     sp < D \<longrightarrow> length (es @ openHeader h KObject p n # cs) \<le> cap \<longrightarrow> i \<le> length src \<longrightarrow> n \<le> infoMaxCount \<longrightarrow>
     (\<exists>k ms j ts. gap src i k \<and> members_tape src k ms j ts \<and> (\<forall>m \<in> set ms. Suc sp + jdepth (snd m) \<le> D) \<and>
        n + length ms \<le> infoMaxCount \<and> length (es @ openHeader h KObject p n # cs @ ts) \<le> cap \<and>
        tapeLoop src cap D (True, builder (es @ containerEntry h j KObject (n + length ms) (1 + length (cs @ ts)) # cs @ ts) p j sp) = Inr fin))"

lemma diagE_step:
  assumes V: "diagV src cap D i" and E: "\<And>m. i < m \<Longrightarrow> diagE src cap D m" and c: "cap < 2 ^ 32"
  shows "diagE src cap D i"
  unfolding diagE_def
proof (intro allI impI)
  fix es h p sp cs n fin
  let ?hdr = "openHeader h KArray p n"
  assume acc: "tapeLoop src cap D (False, inside es h KArray p sp cs n i) = Inr fin"
    and d: "sp < D" and cap: "length (es @ ?hdr # cs) \<le> cap" and i: "i \<le> length src" and n: "n \<le> infoMaxCount"
  let ?goal = "\<exists>k vs j ts. gap src i k \<and> elems_tape src k vs j ts \<and> (\<forall>v \<in> set vs. Suc sp + jdepth v \<le> D) \<and>
      n + length vs \<le> infoMaxCount \<and> length (es @ ?hdr # cs @ ts) \<le> cap \<and>
      tapeLoop src cap D (True, builder (es @ containerEntry h j KArray (n + length vs) (1 + length (cs @ ts)) # cs @ ts) p j sp) = Inr fin"
  obtain a v k ts where v: "gap src i a" "value_tape src a v k ts" "Suc sp + jdepth v \<le> D" "length (es @ ?hdr # cs @ ts) \<le> cap"
    and acc2: "tapeLoop src cap D (True, inside es h KArray p sp (cs @ ts) n k) = Inr fin"
    using V [unfolded diagV_def, rule_format, OF acc _ cap i] d by auto
  have k: "a < k" "k \<le> length src" using value_tape_bounds [OF v(2)] by auto
  have el: "length es < 2 ^ 32" using cap c by simp
  have ka: "KArray = KArray \<or> KArray = KObject" by simp
  from acc2 el n ka k(2) show ?goal
  proof (cases rule: complete_accepts)
    case (close m)
    then have "elems_tape src a [v] (m + 1) ts" using t_elems_one [OF v(2)] by simp
    then show ?goal using close(3,4) v(1,3,4)
      by (intro exI [of _ a] exI [of _ "[v]"] exI [of _ "m + 1"] exI [of _ ts]) simp
  next
    case (comma m)
    have im: "i < m + 1" "m + 1 \<le> length src" using gap_le [OF comma(1)] gap_le [OF v(1)] k(1) comma(2) by (auto simp: byte_at_def)
    obtain q vs j us where r: "gap src (m + 1) q" "elems_tape src q vs j us" "\<forall>v \<in> set vs. Suc sp + jdepth v \<le> D"
      "n + 1 + length vs \<le> infoMaxCount" "length (es @ ?hdr # (cs @ ts) @ us) \<le> cap"
      "tapeLoop src cap D (True, builder (es @ containerEntry h j KArray (n + 1 + length vs) (1 + length ((cs @ ts) @ us)) # (cs @ ts) @ us) p j sp) = Inr fin"
      using E [OF im(1), unfolded diagE_def, rule_format, of es h p "Suc n" "cs @ ts" sp fin] comma(3,4) d v(4) im(2) by auto
    have "elems_tape src a (v # vs) j (ts @ us)" using t_elems_cons [OF v(2) comma(1,2) r(1,2)] .
    then show ?goal using r v(1,3)
      by (intro exI [of _ a] exI [of _ "v # vs"] exI [of _ j] exI [of _ "ts @ us"]) simp
  qed
qed

lemma diagM_step:
  assumes V: "\<And>m. i < m \<Longrightarrow> diagV src cap D m" and M: "\<And>m. i < m \<Longrightarrow> diagM src cap D m" and c: "cap < 2 ^ 32"
  shows "diagM src cap D i"
  unfolding diagM_def
proof (intro allI impI)
  fix es h p sp cs n fin
  let ?hdr = "openHeader h KObject p n"
  assume acc: "keyLoop src cap D (inside es h KObject p sp cs n i) = Inr fin"
    and d: "sp < D" and cap: "length (es @ ?hdr # cs) \<le> cap" and i: "i \<le> length src" and n: "n \<le> infoMaxCount"
  let ?goal = "\<exists>k ms j ts. gap src i k \<and> members_tape src k ms j ts \<and> (\<forall>m \<in> set ms. Suc sp + jdepth (snd m) \<le> D) \<and>
      n + length ms \<le> infoMaxCount \<and> length (es @ ?hdr # cs @ ts) \<le> cap \<and>
      tapeLoop src cap D (True, builder (es @ containerEntry h j KObject (n + length ms) (1 + length (cs @ ts)) # cs @ ts) p j sp) = Inr fin"
  obtain b where kb: "tapeObjectKey src cap (inside es h KObject p sp cs n i) = Inr b" and acc1: "tapeLoop src cap D (False, b) = Inr fin"
    using acc by (auto simp: keyLoop_def split: sum.splits)
  from kb i obtain x q rs a where key: "gap src i x" "string_at src x q rs" "gap src q a" "byte_at src a 0x3A"
    and room: "length (es @ ?hdr # cs) \<noteq> cap" and b: "b = builder ((es @ ?hdr # cs) @ [keyEntry src x q]) (of_nat (length es)) (a + 1) (Suc sp)"
    and ia: "i < a"
    by (rule tapeObjectKey_sound)
  let ?e = "keyEntry src x q"
  have al: "a + 1 \<le> length src" using key(4) by (simp add: byte_at_def)
  obtain y v k ts where v: "gap src (a + 1) y" "value_tape src y v k ts" "Suc sp + jdepth v \<le> D" "length (es @ ?hdr # cs @ ?e # ts) \<le> cap"
    and acc2: "tapeLoop src cap D (True, inside es h KObject p sp (cs @ ?e # ts) n k) = Inr fin"
    using V [of "a + 1", unfolded diagV_def, rule_format, OF _ acc1 [unfolded b]] ia d al room cap by auto
  have k: "y < k" "k \<le> length src" using value_tape_bounds [OF v(2)] by auto
  have el: "length es < 2 ^ 32" using cap c by simp
  have ko: "KObject = KArray \<or> KObject = KObject" by simp
  from acc2 el n ko k(2) show ?goal
  proof (cases rule: complete_accepts)
    case (close m)
    then have "members_tape src x [(rs, v)] (m + 1) (?e # ts)" using t_members_one [OF key(2-4) v(1,2)] by simp
    then show ?goal using close(3,4) v(3,4) key(1)
      by (intro exI [of _ x] exI [of _ "[(rs, v)]"] exI [of _ "m + 1"] exI [of _ "?e # ts"]) simp
  next
    case (comma m)
    have im: "i < m + 1" "m + 1 \<le> length src"
      using gap_le [OF comma(1)] gap_le [OF v(1)] k(1) ia comma(2) by (auto simp: byte_at_def)
    obtain z ms j us where r: "gap src (m + 1) z" "members_tape src z ms j us" "\<forall>m \<in> set ms. Suc sp + jdepth (snd m) \<le> D"
      "n + 1 + length ms \<le> infoMaxCount" "length (es @ ?hdr # (cs @ ?e # ts) @ us) \<le> cap"
      "tapeLoop src cap D (True, builder (es @ containerEntry h j KObject (n + 1 + length ms) (1 + length ((cs @ ?e # ts) @ us)) # (cs @ ?e # ts) @ us) p j sp) = Inr fin"
      using M [OF im(1), unfolded diagM_def, rule_format, of es h p "Suc n" "cs @ ?e # ts" sp fin] comma(3,4) d v(4) im(2) by auto
    have "members_tape src x ((rs, v) # ms) j (?e # ts @ us)" using t_members_cons [OF key(2-4) v(1,2) comma(1,2) r(1,2)] .
    then show ?goal using r v(3) key(1)
      by (intro exI [of _ x] exI [of _ "(rs, v) # ms"] exI [of _ j] exI [of _ "?e # ts @ us"]) simp
  qed
qed

text \<open>The turn that opens a container.\<close>

lemma open_container:
  assumes g: "gap src i k" and b: "byte_at src k (if arr then 0x5B else 0x7B)" and el: "length es < 2 ^ 32"
  defines "kd \<equiv> if arr then KArray else KObject" and "m \<equiv> skipSpace src (Suc k)"
  shows "tapeLoop src cap D (False, builder es p i sp) =
    (if length es = cap then Inl ErrIndexFull
     else if sp \<ge> D then Inl (b_err src (int k) MaxDepthExceeded)
     else if byte_at src m (if arr then 0x5D else 0x7D)
     then tapeLoop src cap D (True, builder (es @ [containerEntry k (m + 1) kd 0 1]) p (m + 1) sp)
     else if arr then tapeLoop src cap D (False, inside es k kd p sp [] 0 m)
     else keyLoop src cap D (inside es k kd p sp [] 0 m))"
proof -
  have k: "k < length src" "\<not> isJSONWhitespace (src ! k)" using b by (auto simp: byte_at_def isJSONWhitespace_def)
  have sk: "skipSpace src i = k" "i \<le> length src" using skip_gap [OF g] k gap_le [OF g] by auto
  have v: "tapeValue src cap (builder es p i sp) =
      (if length es = cap then Inl ErrIndexFull else Inr (kd, length es, builder (es @ [openEntry k kd]) p (Suc k) sp))"
    using tapeValue_unfold [OF sk(2), unfolded sk(1), OF k(1), of cap es p sp] b
    by (simp add: kd_def tapeOpen_eq byte_at_def split: if_splits)
  have p: "b_skipSpace src (pushContainer (length es) (builder (es @ [openEntry k kd]) p (Suc k) sp)) = inside es k kd p sp [] 0 m"
    using k(1) by (simp add: push_openEntry m_def)
  have f: "finishContainer (inside es k kd p sp [] 0 (Suc m)) = builder (es @ [containerEntry k (Suc m) kd 0 1]) p (Suc m) sp"
    using finish_openHeader [OF el, of k kd p 0 "[]" "Suc m" sp] by simp
  have kk: "kd = KArray \<or> kd = KObject" "kd = KObject \<longleftrightarrow> \<not> arr" by (auto simp: kd_def)
  have o: "tapeOpenValue src cap D (builder es p i sp) =
    (if length es = cap then Inl (Inl ErrIndexFull)
     else if sp \<ge> D then Inl (Inl (b_err src (int k) MaxDepthExceeded))
     else if byte_at src m (if arr then 0x5D else 0x7D) then Inr (True, finishContainer (inside es k kd p sp [] 0 (Suc m)))
     else if arr then Inr (False, inside es k kd p sp [] 0 m)
     else case tapeObjectKey src cap (inside es k kd p sp [] 0 m) of Inl e \<Rightarrow> Inl (Inl e) | Inr b \<Rightarrow> Inr (False, b))"
  proof (cases "length es = cap \<or> sp \<ge> D")
    case True
    then show ?thesis using v kk(1) by (auto simp: tapeOpenValue_def)
  next
    case False
    then have "tapeOpenValue src cap D (builder es p i sp) =
      (let b = inside es k kd p sp [] 0 m in
        if b_at src b (if kd = KObject then 0x7D else 0x5D) then Inr (True, finishContainer (b\<lparr>b_i := b_i b + 1\<rparr>))
        else if kd = KObject then (case tapeObjectKey src cap b of Inl e \<Rightarrow> Inl (Inl e) | Inr b \<Rightarrow> Inr (False, b))
        else Inr (False, b))"
      using kk(1) by (elim disjE) (insert v p, simp_all add: tapeOpenValue_def Let_def)
    then show ?thesis using False kk(2) by (cases arr) (simp_all add: b_at_def byte_at_def Let_def)
  qed
  show ?thesis
    using tapeLoop_open [of src cap D "builder es p i sp", unfolded o]
    by (cases "length es = cap"; cases "sp \<ge> D"; cases "byte_at src m (if arr then 0x5D else 0x7D)"; cases arr)
       (auto simp: keyLoop_def f split: sum.split)
qed

lemmas open_array = open_container [where arr = True, unfolded if_True]

lemmas open_object = open_container [where arr = False, unfolded if_False]

lemma diagV_step:
  assumes E: "\<And>m. i < m \<Longrightarrow> diagE src cap D m" and M: "\<And>m. i < m \<Longrightarrow> diagM src cap D m" and c: "cap < 2 ^ 32"
  shows "diagV src cap D i"
  unfolding diagV_def
proof (intro allI impI)
  fix es p sp fin
  let ?k = "skipSpace src i" and ?b = "builder es p i sp"
  let ?m = "skipSpace src (Suc (skipSpace src i))"
  let ?goal = "\<exists>k v j ts. gap src i k \<and> value_tape src k v j ts \<and> sp + jdepth v \<le> D \<and> length (es @ ts) \<le> cap \<and>
      tapeLoop src cap D (True, builder (es @ ts) p j sp) = Inr fin"
  assume acc: "tapeLoop src cap D (False, ?b) = Inr fin" and d: "sp \<le> D" and cap: "length es \<le> cap" and i: "i \<le> length src"
  have g: "gap src i ?k" using i by (rule gap_skip)
  have el: "length es < 2 ^ 32" using cap c by simp
  obtain kd n b where v: "tapeValue src cap ?b = Inr (kd, n, b)"
    using acc by (auto simp: tapeLoop_open tapeOpenValue_def split: sum.splits)
  have kl: "?k < length src"
  proof (rule ccontr)
    assume "\<not> ?k < length src"
    then show False using v i by (simp add: tapeValue_def)
  qed
  then have le: "Suc ?k \<le> length src" by simp
  have im: "i < ?m" "?m \<le> length src" and gm: "gap src (?k + 1) ?m"
    using gap_le [OF g] gap_le [OF gap_skip [OF le]] gap_skip [OF le] by auto
  have goalI: ?goal if "value_tape src ?k v j ts" "sp + jdepth v \<le> D" "length (es @ ts) \<le> cap"
    "tapeLoop src cap D (True, builder (es @ ts) p j sp) = Inr fin" for v j ts
    using that g by blast
  consider (arr) "byte_at src ?k 0x5B" | (obj) "byte_at src ?k 0x7B" | (other) "src ! ?k \<noteq> 0x5B" "src ! ?k \<noteq> 0x7B"
    using kl by (auto simp: byte_at_def)
  then show ?goal
  proof cases
    case arr
    note u = open_array [OF g arr el, of cap D p sp, unfolded acc]
    have lt: "length es < cap" "sp < D" using u cap by (auto split: if_splits)
    show ?goal
    proof (cases "byte_at src ?m 0x5D")
      case True
      then show ?goal using goalI [OF t_array_empty [OF arr gm True]] u lt by (simp split: if_splits)
    next
      case False
      then have "tapeLoop src cap D (False, inside es ?k KArray p sp [] 0 ?m) = Inr fin" using u lt by (simp split: if_splits)
      from E [OF im(1), unfolded diagE_def, rule_format, OF this] obtain q vs j ts where
        r: "gap src ?m q" "elems_tape src q vs j ts" "\<forall>v \<in> set vs. Suc sp + jdepth v \<le> D" "length vs \<le> infoMaxCount"
          "Suc (length es + length ts) \<le> cap"
          "tapeLoop src cap D (True, builder (es @ containerEntry ?k j KArray (length vs) (1 + length ts) # ts) p j sp) = Inr fin"
        using lt im(2) by auto
      have "gap src (?k + 1) q" using gap_trans [OF gm r(1)] .
      from goalI [OF t_array [OF arr this r(2,4)]] show ?goal using r lt jdepth_JArray [of sp vs D] by simp
    qed
  next
    case obj
    note u = open_object [OF g obj el, of cap D p sp, unfolded acc]
    have lt: "length es < cap" "sp < D" using u cap by (auto split: if_splits)
    show ?goal
    proof (cases "byte_at src ?m 0x7D")
      case True
      then show ?goal using goalI [OF t_object_empty [OF obj gm True]] u lt by (simp split: if_splits)
    next
      case False
      then have "keyLoop src cap D (inside es ?k KObject p sp [] 0 ?m) = Inr fin" using u lt by (simp split: if_splits)
      from M [OF im(1), unfolded diagM_def, rule_format, OF this] obtain q ms j ts where
        r: "gap src ?m q" "members_tape src q ms j ts" "\<forall>m \<in> set ms. Suc sp + jdepth (snd m) \<le> D" "length ms \<le> infoMaxCount"
          "Suc (length es + length ts) \<le> cap"
          "tapeLoop src cap D (True, builder (es @ containerEntry ?k j KObject (length ms) (1 + length ts) # ts) p j sp) = Inr fin"
        using lt im(2) by auto
      have "gap src (?k + 1) q" using gap_trans [OF gm r(1)] .
      from goalI [OF t_object [OF obj this r(2,4)]] show ?goal using r lt jdepth_JObject [of sp ms D] by simp
    qed
  next
    case other
    from tapeValue_scalar_sound [OF v i kl other] obtain w j e where
      w: "scalar_at src ?k w j e" "length es \<noteq> cap" "kd = scalar_kind (src ! ?k)" "b = builder (es @ [e]) p j sp" by blast
    then show ?goal using goalI [of w j "[e]"] acc v d cap scalar_kind_not [of "src ! ?k"]
      by (auto simp: scalar_at_def tapeLoop_open tapeOpenValue_def)
  qed
qed

lemma diag_sound: "cap < 2 ^ 32 \<Longrightarrow> diagV src cap D i \<and> diagE src cap D i \<and> diagM src cap D i"
proof (induction "length src + 1 - i" arbitrary: i rule: less_induct)
  case less
  show ?case
  proof (cases "i \<le> length src")
    case True
    have ih: "diagV src cap D m \<and> diagE src cap D m \<and> diagM src cap D m" if "i < m" for m
      using less(1) [of m] less(2) that True by simp
    have "diagV src cap D i" using ih less(2) by (intro diagV_step) auto
    then show ?thesis using ih less(2) diagE_step [of src cap D i] diagM_step [of i src cap D] by blast
  qed (simp add: diagV_def diagE_def diagM_def)
qed

end
