(* ===== verification/TapeBuild.thy ===== *)
theory TapeBuild
  imports TapeDiagnose
begin

text \<open>
  The diagnostic builder forward: it reads every tape that fits, so that with the soundness of
  \<^verbatim>\<open>TapeDiagnose\<close> it accepts exactly the documents whose tape fits, and the router above both builders
  reports exactly those tapes.
\<close>

section \<open>The turn after a completed value, forward\<close>

lemma complete_close:
  assumes "gap src i m" "byte_at src m (if k = KArray then 0x5D else 0x7D)" "n < infoMaxCount"
    "k = KArray \<or> k = KObject" "length es < 2 ^ 32"
  shows "tapeLoop src cap D (True, inside es h k p sp cs n i) =
    tapeLoop src cap D (True, builder (es @ containerEntry h (m + 1) k (Suc n) (1 + length cs) # cs) p (m + 1) sp)"
proof -
  have i: "i \<le> length src" "m < length src" "skipSpace src i = m"
    using gap_le [OF assms(1)] skip_gap_byte [OF assms(1,2)] assms(2) by (auto simp: byte_at_def isJSONWhitespace_def split: if_splits)
  show ?thesis
    using tapeComplete_frame [OF assms(5) _ assms(4) i(1), of n cap h p cs sp] i assms(2,3)
    by (subst tapeLoop_complete) (auto simp: byte_at_def split: if_splits)
qed

lemma complete_comma:
  assumes "gap src i m" "byte_at src m 0x2C" "n < infoMaxCount" "k = KArray \<or> k = KObject" "length es < 2 ^ 32"
  shows "tapeLoop src cap D (True, inside es h k p sp cs n i) =
    (if k = KArray then tapeLoop src cap D (False, inside es h k p sp cs (Suc n) (m + 1))
     else keyLoop src cap D (inside es h k p sp cs (Suc n) (m + 1)))"
proof -
  have i: "i \<le> length src" "m < length src" "src ! m = 0x2C" "skipSpace src i = m"
    using gap_le [OF assms(1)] skip_gap_byte [OF assms(1,2)] assms(2) by (auto simp: byte_at_def isJSONWhitespace_def)
  show ?thesis
    using tapeComplete_frame [OF assms(5) _ assms(4) i(1), of n cap h p cs sp] i assms(3)
    by (subst tapeLoop_complete) (auto simp: keyLoop_def split: sum.splits)
qed

section \<open>Reading a tape\<close>

definition diag_value :: "bytes \<Rightarrow> nat \<Rightarrow> nat \<Rightarrow> nat \<Rightarrow> json \<Rightarrow> nat \<Rightarrow> IndexEntry list \<Rightarrow> bool" where
  "diag_value src cap D a v j ts \<longleftrightarrow> (\<forall>es p sp i. gap src i a \<longrightarrow> length (es @ ts) \<le> cap \<longrightarrow> sp + jdepth v \<le> D \<longrightarrow>
     number_end (drop j src) \<longrightarrow>
     tapeLoop src cap D (False, builder es p i sp) = tapeLoop src cap D (True, builder (es @ ts) p j sp))"

definition diag_elems :: "bytes \<Rightarrow> nat \<Rightarrow> nat \<Rightarrow> nat \<Rightarrow> json list \<Rightarrow> nat \<Rightarrow> IndexEntry list \<Rightarrow> bool" where
  "diag_elems src cap D a vs j ts \<longleftrightarrow> (\<forall>es h p sp cs n i. gap src i a \<longrightarrow> length (es @ openHeader h KArray p n # cs @ ts) \<le> cap \<longrightarrow>
     (\<forall>v \<in> set vs. Suc sp + jdepth v \<le> D) \<longrightarrow> n + length vs \<le> infoMaxCount \<longrightarrow>
     tapeLoop src cap D (False, inside es h KArray p sp cs n i) =
     tapeLoop src cap D (True, builder (es @ containerEntry h j KArray (n + length vs) (1 + length (cs @ ts)) # cs @ ts) p j sp))"

definition diag_members :: "bytes \<Rightarrow> nat \<Rightarrow> nat \<Rightarrow> nat \<Rightarrow> (rune list \<times> json) list \<Rightarrow> nat \<Rightarrow> IndexEntry list \<Rightarrow> bool" where
  "diag_members src cap D a ms j ts \<longleftrightarrow> (\<forall>es h p sp cs n i. gap src i a \<longrightarrow> length (es @ openHeader h KObject p n # cs @ ts) \<le> cap \<longrightarrow>
     (\<forall>m \<in> set ms. Suc sp + jdepth (snd m) \<le> D) \<longrightarrow> n + length ms \<le> infoMaxCount \<longrightarrow>
     keyLoop src cap D (inside es h KObject p sp cs n i) =
     tapeLoop src cap D (True, builder (es @ containerEntry h j KObject (n + length ms) (1 + length (cs @ ts)) # cs @ ts) p j sp))"

lemma diag_scalar:
  assumes "scalar_at src a v j e"
  shows "diag_value src cap D a v j [e]"
  unfolding diag_value_def
proof (intro allI impI)
  fix es p sp i
  assume a: "gap src i a" "length (es @ [e]) \<le> cap" "number_end (drop j src)"
  have "tapeValue src cap (builder es p i sp) = Inr (scalar_kind (src ! a), length es, builder (es @ [e]) p j sp)"
    using tapeValue_scalar [OF assms a(3,1), of cap es p sp] a(2) by (simp add: scalar_added_def)
  then show "tapeLoop src cap D (False, builder es p i sp) = tapeLoop src cap D (True, builder (es @ [e]) p j sp)"
    using scalar_kind_not [of "src ! a"] by (subst tapeLoop_open) (simp add: tapeOpenValue_def)
qed

lemma diag_elems_one:
  assumes "diag_value src cap D a v k ts" "gap src k m" "byte_at src m 0x5D" "cap < 2 ^ 32"
  shows "diag_elems src cap D a [v] (m + 1) ts"
  unfolding diag_elems_def
proof (intro allI impI)
  fix es h p sp cs n i
  let ?hdr = "openHeader h KArray p n"
  assume a: "gap src i a" "length (es @ ?hdr # cs @ ts) \<le> cap" "\<forall>v \<in> set [v]. Suc sp + jdepth v \<le> D" "n + length [v] \<le> infoMaxCount"
  have "tapeLoop src cap D (False, inside es h KArray p sp cs n i) = tapeLoop src cap D (True, inside es h KArray p sp (cs @ ts) n k)"
    using assms(1) [unfolded diag_value_def, rule_format, OF a(1), of "es @ ?hdr # cs"] a sep_number_end [OF assms(2,3)] by simp
  then show "tapeLoop src cap D (False, inside es h KArray p sp cs n i) =
      tapeLoop src cap D (True, builder (es @ containerEntry h (m + 1) KArray (n + length [v]) (1 + length (cs @ ts)) # cs @ ts) p (m + 1) sp)"
    using complete_close [OF assms(2), of KArray n es cap D h p "cs @ ts" sp] assms(3,4) a(2,4) by simp
qed

lemma diag_elems_cons:
  assumes "diag_value src cap D a v k ts" "gap src k m" "byte_at src m 0x2C" "gap src (m + 1) q" "diag_elems src cap D q vs j us"
    "cap < 2 ^ 32"
  shows "diag_elems src cap D a (v # vs) j (ts @ us)"
  unfolding diag_elems_def
proof (intro allI impI)
  fix es h p sp cs n i
  let ?hdr = "openHeader h KArray p n"
  assume a: "gap src i a" "length (es @ ?hdr # cs @ ts @ us) \<le> cap" "\<forall>v \<in> set (v # vs). Suc sp + jdepth v \<le> D"
    "n + length (v # vs) \<le> infoMaxCount"
  have "tapeLoop src cap D (False, inside es h KArray p sp cs n i) = tapeLoop src cap D (True, inside es h KArray p sp (cs @ ts) n k)"
    using assms(1) [unfolded diag_value_def, rule_format, OF a(1), of "es @ ?hdr # cs"] a sep_number_end [OF assms(2,3)] by simp
  also have "\<dots> = tapeLoop src cap D (False, inside es h KArray p sp (cs @ ts) (Suc n) (m + 1))"
    using complete_comma [OF assms(2,3), of n KArray es cap D h p "cs @ ts" sp] assms(6) a(2,4) by simp
  finally show "tapeLoop src cap D (False, inside es h KArray p sp cs n i) =
      tapeLoop src cap D (True, builder (es @ containerEntry h j KArray (n + length (v # vs)) (1 + length (cs @ ts @ us)) # cs @ ts @ us) p j sp)"
    using assms(5) [unfolded diag_elems_def, rule_format, OF assms(4), of es h p "Suc n" "cs @ ts" sp] a by simp
qed

text \<open>A key, its colon and its value.\<close>

lemma diag_member:
  assumes s: "string_at src a q rs" "gap src q x" "byte_at src x 0x3A" "gap src (x + 1) b" and v: "diag_value src cap D b v k ts"
    and a: "gap src i a" "length (es @ keyEntry src a q # ts) \<le> cap" "sp + jdepth v \<le> D" "number_end (drop k src)"
  shows "keyLoop src cap D (builder es p i sp) = tapeLoop src cap D (True, builder (es @ keyEntry src a q # ts) p k sp)"
  using tapeObjectKey_complete [OF a(1) s(1-3), of es cap p sp] a(2)
    v [unfolded diag_value_def, rule_format, OF s(4), of "es @ [keyEntry src a q]" sp p] a(3,4)
  by (simp add: keyLoop_def)

lemma diag_members_one:
  assumes s: "string_at src a q rs" "gap src q x" "byte_at src x 0x3A" "gap src (x + 1) b" and v: "diag_value src cap D b v k ts"
    and g: "gap src k m" "byte_at src m 0x7D" and c: "cap < 2 ^ 32"
  shows "diag_members src cap D a [(rs, v)] (m + 1) (keyEntry src a q # ts)"
  unfolding diag_members_def
proof (intro allI impI)
  fix es h p sp cs n i
  let ?hdr = "openHeader h KObject p n" and ?e = "keyEntry src a q"
  assume a: "gap src i a" "length (es @ ?hdr # cs @ ?e # ts) \<le> cap" "\<forall>m \<in> set [(rs, v)]. Suc sp + jdepth (snd m) \<le> D"
    "n + length [(rs, v)] \<le> infoMaxCount"
  have "keyLoop src cap D (inside es h KObject p sp cs n i) = tapeLoop src cap D (True, inside es h KObject p sp (cs @ ?e # ts) n k)"
    using diag_member [OF s v a(1), of "es @ ?hdr # cs" "Suc sp" "of_nat (length es)"] a sep_number_end [OF g] by simp
  then show "keyLoop src cap D (inside es h KObject p sp cs n i) =
      tapeLoop src cap D (True, builder (es @ containerEntry h (m + 1) KObject (n + length [(rs, v)]) (1 + length (cs @ ?e # ts)) # cs @ ?e # ts) p (m + 1) sp)"
    using complete_close [OF g(1), of KObject n es cap D h p "cs @ ?e # ts" sp] g(2) c a(2,4) by simp
qed

lemma diag_members_cons:
  assumes s: "string_at src a q rs" "gap src q x" "byte_at src x 0x3A" "gap src (x + 1) b" and v: "diag_value src cap D b v k ts"
    and g: "gap src k m" "byte_at src m 0x2C" "gap src (m + 1) y" and r: "diag_members src cap D y ms j us" and c: "cap < 2 ^ 32"
  shows "diag_members src cap D a ((rs, v) # ms) j (keyEntry src a q # ts @ us)"
  unfolding diag_members_def
proof (intro allI impI)
  fix es h p sp cs n i
  let ?hdr = "openHeader h KObject p n" and ?e = "keyEntry src a q"
  assume a: "gap src i a" "length (es @ ?hdr # cs @ ?e # ts @ us) \<le> cap" "\<forall>m \<in> set ((rs, v) # ms). Suc sp + jdepth (snd m) \<le> D"
    "n + length ((rs, v) # ms) \<le> infoMaxCount"
  have "keyLoop src cap D (inside es h KObject p sp cs n i) = tapeLoop src cap D (True, inside es h KObject p sp (cs @ ?e # ts) n k)"
    using diag_member [OF s v a(1), of "es @ ?hdr # cs" "Suc sp" "of_nat (length es)"] a sep_number_end [OF g(1,2)] by simp
  also have "\<dots> = keyLoop src cap D (inside es h KObject p sp (cs @ ?e # ts) (Suc n) (m + 1))"
    using complete_comma [OF g(1,2), of n KObject es cap D h p "cs @ ?e # ts" sp] c a(2,4) by simp
  finally show "keyLoop src cap D (inside es h KObject p sp cs n i) =
      tapeLoop src cap D (True, builder (es @ containerEntry h j KObject (n + length ((rs, v) # ms)) (1 + length (cs @ ?e # ts @ us)) # cs @ ?e # ts @ us) p j sp)"
    using r [unfolded diag_members_def, rule_format, OF g(3), of es h p "Suc n" "cs @ ?e # ts" sp] a by simp
qed

lemma diag_empty:
  assumes b: "byte_at src a (if arr then 0x5B else 0x7B)" "gap src (a + 1) k" "byte_at src k (if arr then 0x5D else 0x7D)"
    and c: "cap < 2 ^ 32" and v: "jdepth v = 1"
  shows "diag_value src cap D a v (k + 1) [containerEntry a (k + 1) (if arr then KArray else KObject) 0 1]"
  unfolding diag_value_def
proof (intro allI impI)
  fix es p sp i
  let ?e = "containerEntry a (k + 1) (if arr then KArray else KObject) 0 1"
  assume h: "gap src i a" "length (es @ [?e]) \<le> cap" "sp + jdepth v \<le> D"
  have s: "skipSpace src (Suc a) = k" using skip_gap_byte [OF b(2,3)] by (simp add: isJSONWhitespace_def split: if_splits)
  have "length es < 2 ^ 32" using h(2) c by simp
  from open_container [OF h(1) b(1) this, of cap D p sp]
  show "tapeLoop src cap D (False, builder es p i sp) = tapeLoop src cap D (True, builder (es @ [?e]) p (k + 1) sp)"
    using h s b(3) v by simp
qed

lemma diag_array:
  assumes b: "byte_at src a 0x5B" "gap src (a + 1) k" "length vs \<le> infoMaxCount" and r: "elems_region src k vs j ts"
    and e: "diag_elems src cap D k vs j ts" and c: "cap < 2 ^ 32"
  shows "diag_value src cap D a (JArray vs) j (containerEntry a j KArray (length vs) (1 + length ts) # ts)"
  unfolding diag_value_def
proof (intro allI impI)
  fix es p sp i
  let ?e = "containerEntry a j KArray (length vs) (1 + length ts)"
  assume h: "gap src i a" "length (es @ ?e # ts) \<le> cap" "sp + jdepth (JArray vs) \<le> D"
  have d: "Suc sp \<le> D" "\<forall>v \<in> set vs. Suc sp + jdepth v \<le> D" using h(3) unfolding jdepth_JArray by auto
  have k: "\<not> isJSONWhitespace (src ! k)" "\<not> byte_at src k 0x5D" using r by (auto simp: elems_region_def byte_at_def)
  have s: "skipSpace src (Suc a) = k" and g: "gap src k k" using skip_gap [OF b(2)] k gap_le [OF b(2)] by (auto simp: gap_def)
  have el: "length es < 2 ^ 32" using h(2) c by simp
  have "tapeLoop src cap D (False, builder es p i sp) = tapeLoop src cap D (False, inside es a KArray p sp [] 0 k)"
    using open_array [OF h(1) b(1) el, of cap D p sp] h(2) d(1) k(2) s by simp
  then show "tapeLoop src cap D (False, builder es p i sp) = tapeLoop src cap D (True, builder (es @ ?e # ts) p j sp)"
    using e [unfolded diag_elems_def, rule_format, OF g, of es a p 0 "[]" sp] h(2) d b(3) by simp
qed

lemma diag_object:
  assumes b: "byte_at src a 0x7B" "gap src (a + 1) k" "length ms \<le> infoMaxCount" and r: "members_region src k ms j ts"
    and e: "diag_members src cap D k ms j ts" and c: "cap < 2 ^ 32"
  shows "diag_value src cap D a (JObject ms) j (containerEntry a j KObject (length ms) (1 + length ts) # ts)"
  unfolding diag_value_def
proof (intro allI impI)
  fix es p sp i
  let ?e = "containerEntry a j KObject (length ms) (1 + length ts)"
  assume h: "gap src i a" "length (es @ ?e # ts) \<le> cap" "sp + jdepth (JObject ms) \<le> D"
  have d: "Suc sp \<le> D" "\<forall>m \<in> set ms. Suc sp + jdepth (snd m) \<le> D" using h(3) unfolding jdepth_JObject by auto
  have k: "\<not> isJSONWhitespace (src ! k)" "\<not> byte_at src k 0x7D" using r by (auto simp: members_region_def byte_at_def isJSONWhitespace_def)
  have s: "skipSpace src (Suc a) = k" and g: "gap src k k" using skip_gap [OF b(2)] k gap_le [OF b(2)] by (auto simp: gap_def)
  have el: "length es < 2 ^ 32" using h(2) c by simp
  have "tapeLoop src cap D (False, builder es p i sp) = keyLoop src cap D (inside es a KObject p sp [] 0 k)"
    using open_object [OF h(1) b(1) el, of cap D p sp] h(2) d(1) k(2) s by simp
  then show "tapeLoop src cap D (False, builder es p i sp) = tapeLoop src cap D (True, builder (es @ ?e # ts) p j sp)"
    using e [unfolded diag_members_def, rule_format, OF g, of es a p 0 "[]" sp] h(2) d b(3) by simp
qed

lemmas diag_steps = diag_array diag_object diag_elems_one diag_elems_cons diag_members_one diag_members_cons

lemma tape_diag:
  assumes c: "cap < 2 ^ 32"
  shows "value_tape src i v j ts \<Longrightarrow> diag_value src cap D i v j ts"
    and "elems_tape src i vs j ts \<Longrightarrow> diag_elems src cap D i vs j ts"
    and "members_tape src i ms j ts \<Longrightarrow> diag_members src cap D i ms j ts"
proof (induction rule: value_tape_elems_tape_members_tape.inducts)
  case (t_null i)
  then show ?case using literal_head [OF t_null] by (intro diag_scalar) (simp add: scalar_at_def value_tape_elems_tape_members_tape.t_null)
next
  case (t_true i)
  then show ?case using literal_head [OF t_true] by (intro diag_scalar) (simp add: scalar_at_def value_tape_elems_tape_members_tape.t_true)
next
  case (t_false i)
  then show ?case using literal_head [OF t_false] by (intro diag_scalar) (simp add: scalar_at_def value_tape_elems_tape_members_tape.t_false)
next
  case (t_number i j t)
  then show ?case using number_head [OF t_number] value_tape_elems_tape_members_tape.t_number [OF t_number]
    by (intro diag_scalar) (auto simp: scalar_at_def isDigit_def)
next
  case (t_string i j rs)
  then show ?case using value_tape_elems_tape_members_tape.t_string [OF t_string]
    by (intro diag_scalar) (auto simp: scalar_at_def string_at_def)
next
  case (t_array_empty i k)
  then show ?case using diag_empty [of src i True k cap "JArray []" D] c by simp
next
  case (t_object_empty i k)
  then show ?case using diag_empty [of src i False k cap "JObject []" D] c by simp
qed (use c in \<open>simp_all only: diag_steps tape_regions\<close>)

section \<open>Whole documents\<close>

lemma tapeLoop_end:
  "j \<le> length src \<Longrightarrow> tapeLoop src cap D (True, builder es p j 0) =
     (if skipSpace src j = length src then Inr (builder es p (length src) 0)
      else Inl (b_err src (int (skipSpace src j)) TrailingData))"
  by (subst tapeLoop_complete) (simp add: tapeComplete_def)

lemma tapeParse_start:
  "tapeParse src cap D = tapeLoop src cap D (False, builder [] noTapeParent (skipSpace src 0) 0)"
  by (simp add: tapeParse_def)

lemma tapeParse_sound:
  assumes "tapeParse src cap D = Inr b" "cap < 2 ^ 32"
  shows "\<exists>v. document_tape src v (b_entries b) \<and> jdepth v \<le> D \<and> length (b_entries b) \<le> cap"
proof -
  let ?i = "skipSpace src 0"
  have i: "gap src 0 ?i" by (simp add: gap_skip)
  have "diagV src cap D ?i" using diag_sound [OF assms(2)] by blast
  from this [unfolded diagV_def, rule_format, OF assms(1) [unfolded tapeParse_start]] obtain k v j ts where
    v: "gap src ?i k" "value_tape src k v j ts" "jdepth v \<le> D" "length ts \<le> cap"
      "tapeLoop src cap D (True, builder ts noTapeParent j 0) = Inr b"
    using gap_le [OF i] by auto
  have j: "j \<le> length src" using value_tape_bounds [OF v(2)] by simp
  then have "skipSpace src j = length src" "b_entries b = ts" using v(5) by (auto simp: tapeLoop_end split: if_splits)
  then have "document_tape src v (b_entries b)" using v(2) gap_trans [OF i v(1)] gap_skip [OF j] by (auto simp: document_tape_def)
  then show ?thesis using v \<open>b_entries b = ts\<close> by auto
qed

lemma tapeParse_complete:
  assumes "document_tape src v es" "length es \<le> cap" "jdepth v \<le> D" "cap < 2 ^ 32"
  shows "tapeParse src cap D = Inr (builder es noTapeParent (length src) 0)"
proof -
  let ?i = "skipSpace src 0"
  obtain j where j: "?i < length src" "value_tape src ?i v j es" "number_end (drop j src)" "skipSpace src j = length src" "j \<le> length src"
    using document_tape_start [OF assms(1)] by blast
  have "gap src ?i ?i" using j(1) by (simp add: gap_def)
  then show ?thesis
    using tape_diag(1) [OF assms(4) j(2), unfolded diag_value_def, rule_format, of ?i "[]" 0 D] assms(2,3) j(3-5)
    by (simp add: tapeParse_start tapeLoop_end)
qed

end
