(* ===== verification/TapeRoom.thy ===== *)
theory TapeRoom
  imports TapeBuild
begin

text \<open>
  The room a tape needs. Every document whose container counts fit the count field has a tape, and every tape of a
  document has one entry per value and two per member, the number that \<^verbatim>\<open>RequiredIndexEntries\<close> reports.
\<close>

section \<open>Every document has a tape\<close>

text \<open>The text \<open>t\<close> stands at position \<open>i\<close>.\<close>

definition stands :: "bytes \<Rightarrow> nat \<Rightarrow> bytes \<Rightarrow> bool" where
  "stands src i t \<longleftrightarrow> i + length t \<le> length src \<and> segment src i (i + length t) = t"

lemma stands_append: "stands src i (a @ b) \<longleftrightarrow> stands src i a \<and> stands src (i + length a) b"
proof (cases "i + length a + length b \<le> length src")
  case True
  then have "segment src i (i + length (a @ b)) = segment src i (i + length a) @ segment src (i + length a) (i + length a + length b)"
    by (simp add: segment_append add.assoc)
  moreover have "length (segment src i (i + length a)) = length a" using True by (simp add: segment_def)
  ultimately show ?thesis using True by (simp add: stands_def add.assoc append_eq_append_conv)
qed (auto simp: stands_def)

lemma stands_Cons: "stands src i (c # b) \<longleftrightarrow> byte_at src i c \<and> stands src (Suc i) b"
proof -
  have "stands src i [c] \<longleftrightarrow> byte_at src i c"
    by (auto simp: stands_def byte_at_def segment_def take_Suc_conv_app_nth)
  then show ?thesis using stands_append [of src i "[c]" b] by simp
qed

lemma stands_Nil: "stands src i [] \<longleftrightarrow> i \<le> length src"
  by (simp add: stands_def)

lemmas stands_simps = stands_append stands_Cons stands_Nil

lemma stands_literal: "stands src i t \<Longrightarrow> length t = n \<Longrightarrow> literal_at src i (i + n) t"
  by (auto simp add: stands_def literal_at_def)

lemma stands_gap: "stands src i a \<Longrightarrow> ws a \<Longrightarrow> gap src i (i + length a)"
  by (simp add: stands_def gap_def)

lemma stands_string:
  assumes "stands src i (0x22 # k @ [0x22])" "string_text k rs"
  shows "string_at src i (i + 2 + length k) rs"
proof -
  have "byte_at src i 0x22" "stands src (Suc i) k" "byte_at src (Suc i + length k) 0x22" using assms(1) by (simp_all add: stands_simps)
  then show ?thesis using assms(2) by (simp add: stands_def byte_at_def string_at_def)
qed

definition tapeSize :: "json \<Rightarrow> nat" where
  "tapeSize v = 1 + jvalues v + 2 * jmembers v"

definition countsFit :: "json \<Rightarrow> bool" where
  "countsFit v \<longleftrightarrow> (\<forall>c \<in> set (jcounts v). c \<le> infoMaxCount)"

lemma countsFit_simps:
  "countsFit (JArray vs) \<longleftrightarrow> length vs \<le> infoMaxCount \<and> (\<forall>v \<in> set vs. countsFit v)"
  "countsFit (JObject ms) \<longleftrightarrow> length ms \<le> infoMaxCount \<and> (\<forall>m \<in> set ms. countsFit (snd m))"
  by (auto simp: countsFit_def)

lemma tapeSize_simps:
  "tapeSize (JArray vs) = 1 + sum_list (map tapeSize vs)"
  "tapeSize (JObject ms) = 1 + sum_list (map (\<lambda>m. 1 + tapeSize (snd m)) ms)"
proof -
  show "tapeSize (JArray vs) = 1 + sum_list (map tapeSize vs)" by (induction vs) (auto simp: tapeSize_def)
  show "tapeSize (JObject ms) = 1 + sum_list (map (\<lambda>m. 1 + tapeSize (snd m)) ms)" by (induction ms) (auto simp: tapeSize_def)
qed

lemma tape_length:
  shows "value_tape src i v j ts \<Longrightarrow> length ts = tapeSize v"
    and "elems_tape src i vs j ts \<Longrightarrow> length ts = sum_list (map tapeSize vs)"
    and "members_tape src i ms j ts \<Longrightarrow> length ts = sum_list (map (\<lambda>m. 1 + tapeSize (snd m)) ms)"
  by (induction rule: value_tape_elems_tape_members_tape.inducts) (simp_all add: tapeSize_simps, simp_all add: tapeSize_def)

lemma literal_lengths: "length (ascii ''null'') = 4" "length (ascii ''true'') = 4" "length (ascii ''false'') = 5"
  by simp_all

lemma text_tape:
  shows "json_text v t \<Longrightarrow> countsFit v \<Longrightarrow> stands src i t \<Longrightarrow> \<exists>ts. value_tape src i v (i + length t) ts"
    and "elems_text vs t \<Longrightarrow> \<forall>v \<in> set vs. countsFit v \<Longrightarrow> stands src i t \<Longrightarrow> byte_at src (i + length t) 0x5D \<Longrightarrow>
      \<exists>k ts. gap src i k \<and> elems_tape src k vs (i + length t + 1) ts"
    and "members_text ms t \<Longrightarrow> \<forall>m \<in> set ms. countsFit (snd m) \<Longrightarrow> stands src i t \<Longrightarrow> byte_at src (i + length t) 0x7D \<Longrightarrow>
      \<exists>k ts. gap src i k \<and> members_tape src k ms (i + length t + 1) ts"
proof (induction arbitrary: i and i and i rule: json_text_elems_text_members_text.inducts)
  case null
  show ?case using t_null [OF stands_literal [OF null(2) literal_lengths(1)]] unfolding literal_lengths by blast
next
  case true
  show ?case using t_true [OF stands_literal [OF true(2) literal_lengths(2)]] unfolding literal_lengths by blast
next
  case false
  show ?case using t_false [OF stands_literal [OF false(2) literal_lengths(3)]] unfolding literal_lengths by blast
next
  case (number t)
  then show ?case using t_number [OF stands_literal [OF number(3) refl] number(1)] by blast
next
  case (str t rs)
  then show ?case using t_string [OF stands_string [OF str(3,1)]] by auto
next
  case (array_empty w)
  then show ?case using t_array_empty [of src i "i + 1 + length w"] stands_gap [of src "i + 1" w] by (auto simp: stands_simps)
next
  case (object_empty w)
  then show ?case using t_object_empty [of src i "i + 1 + length w"] stands_gap [of src "i + 1" w] by (auto simp: stands_simps)
next
  case (array vs t)
  obtain k ts where "gap src (i + 1) k" "elems_tape src k vs (i + 1 + length t + 1) ts"
    using array.IH [of "i + 1"] array(3,4) by (auto simp: stands_simps countsFit_simps)
  then show ?case using array t_array [of src i k vs] by (auto simp: stands_simps countsFit_simps)
next
  case (object ms t)
  obtain k ts where "gap src (i + 1) k" "members_tape src k ms (i + 1 + length t + 1) ts"
    using object.IH [of "i + 1"] object(3,4) by (auto simp: stands_simps countsFit_simps)
  then show ?case using object t_object [of src i k ms] by (auto simp: stands_simps countsFit_simps)
next
  case (elems_one a v t b)
  let ?i = "i + length a"
  obtain ts where "value_tape src ?i v (?i + length t) ts" using elems_one.IH [of ?i] elems_one(5,6) by (auto simp: stands_simps)
  then have "elems_tape src ?i [v] (?i + length t + length b + 1) ts"
    by (rule t_elems_one) (use elems_one stands_gap [of src "?i + length t" b] in \<open>auto simp: stands_simps add.assoc\<close>)
  then show ?case using elems_one stands_gap [of src i a] by (auto simp: stands_simps add.assoc)
next
  case (elems_cons a v t b vs u)
  let ?i = "i + length a"
  let ?m = "?i + length t + length b"
  obtain ts where v: "value_tape src ?i v (?i + length t) ts" using elems_cons.IH(1) [of ?i] elems_cons(7,8) by (auto simp: stands_simps)
  have "\<exists>k ts. gap src (?m + 1) k \<and> elems_tape src k vs (?m + 1 + length u + 1) ts"
    by (rule elems_cons.IH(2)) (use elems_cons in \<open>auto simp: stands_simps add.assoc\<close>)
  then obtain k us where r: "gap src (?m + 1) k" "elems_tape src k vs (?m + 1 + length u + 1) us" by blast
  have "elems_tape src ?i (v # vs) (?m + 1 + length u + 1) (ts @ us)"
    by (rule t_elems_cons [OF v _ _ r]) (use elems_cons stands_gap [of src "?i + length t" b] in \<open>auto simp: stands_simps add.assoc\<close>)
  then show ?case using elems_cons stands_gap [of src i a] by (auto simp: stands_simps add.assoc)
next
  case (members_one a k rs b c v t d)
  let ?i = "i + length a"
  let ?q = "?i + 2 + length k"
  let ?x = "?q + length b"
  let ?y = "?x + 1 + length c"
  have st: "stands src i a" "stands src ?i (0x22 # k @ [0x22])" "stands src ?q b" "byte_at src ?x 0x3A" "stands src (?x + 1) c" "stands src ?y t"
    "stands src (?y + length t) d" "byte_at src (?y + length t + length d) 0x7D"
    using members_one(9,10) by (auto simp: stands_simps add.assoc) (simp add: byte_at_def)
  obtain ts where v: "value_tape src ?y v (?y + length t) ts" using members_one.IH [OF _ st(6)] members_one(8) by auto
  have "members_tape src ?i [(rs, v)] (?y + length t + length d + 1) (keyEntry src ?i ?q # ts)"
    using t_members_one [OF stands_string [OF st(2) members_one(2)] stands_gap [OF st(3)] st(4) stands_gap [OF st(5)] v stands_gap [OF st(7)] st(8)]
      members_one by simp
  then show ?case using members_one stands_gap [OF st(1)] by (auto simp: add.assoc)
next
  case (members_cons a k rs b c v t d ms u)
  let ?i = "i + length a"
  let ?q = "?i + 2 + length k"
  let ?x = "?q + length b"
  let ?y = "?x + 1 + length c"
  let ?m = "?y + length t + length d"
  have st: "stands src i a" "stands src ?i (0x22 # k @ [0x22])" "stands src ?q b" "byte_at src ?x 0x3A" "stands src (?x + 1) c" "stands src ?y t"
    "stands src (?y + length t) d" "byte_at src ?m 0x2C" "stands src (?m + 1) u" "byte_at src (?m + 1 + length u) 0x7D"
    using members_cons(11,12) by (auto simp: stands_simps add.assoc) (simp add: byte_at_def)
  obtain ts where v: "value_tape src ?y v (?y + length t) ts" using members_cons.IH(1) [OF _ st(6)] members_cons(10) by auto
  obtain w us where r: "gap src (?m + 1) w" "members_tape src w ms (?m + 1 + length u + 1) us"
    using members_cons.IH(2) [OF _ st(9,10)] members_cons(10) by auto
  have "members_tape src ?i ((rs, v) # ms) (?m + 1 + length u + 1) (keyEntry src ?i ?q # ts @ us)"
    using t_members_cons [OF stands_string [OF st(2) members_cons(2)] stands_gap [OF st(3)] st(4) stands_gap [OF st(5)] v stands_gap [OF st(7)] st(8) r]
      members_cons by simp
  then show ?case using members_cons stands_gap [OF st(1)] by (auto simp: add.assoc)
qed

lemma document_text_tape:
  assumes "document_text v src" "countsFit v"
  shows "\<exists>es. document_tape src v es"
proof -
  obtain a t b where s: "src = a @ t @ b" "ws a" "json_text v t" "ws b" using assms(1) by (auto simp: document_text_def)
  have "stands src 0 (a @ t @ b)" using s(1) by (simp add: stands_def segment_def)
  then have st: "stands src 0 a" "stands src (length a) t" "stands src (length a + length t) b" by (simp_all add: stands_append)
  obtain ts where "value_tape src (length a) v (length a + length t) ts" using text_tape(1) [OF s(3) assms(2) st(2)] by blast
  then show ?thesis using stands_gap [OF st(1) s(2)] stands_gap [OF st(3) s(4)] s(1)
    unfolding document_tape_def by (metis add.assoc add_0 length_append)
qed

lemma document_tape_text:
  assumes "document_tape src v es"
  shows "document_text v src \<and> length es = tapeSize v"
proof -
  obtain i j where d: "gap src 0 i" "value_tape src i v j es" "gap src j (length src)" using assms by (auto simp: document_tape_def)
  have r: "i < j" "j \<le> length src" "json_text v (segment src i j)" using value_tape_region [OF d(2)] by (auto simp: value_region_def)
  have "src = segment src 0 i @ segment src i j @ segment src j (length src)"
    using r by (simp add: segment_append) (simp add: segment_def)
  then show ?thesis using ws_gap [OF d(1)] ws_gap [OF d(3)] r(3) tape_length(1) [OF d(2)] unfolding document_text_def by blast
qed

end
