(* ===== verification/EncodeString.thy ===== *)
theory EncodeString
  imports Validator
begin

text \<open>
  The string encoder of \<^verbatim>\<open>encoder_string.go\<close>, the plain encoder of \<^verbatim>\<open>encode.go\<close> and the decoder of
  \<^verbatim>\<open>strings_decode.go\<close>, with the line-separator probe of \<^verbatim>\<open>internal/scanner\<close>. A destination slice is
  its bytes and, where the code writes behind its length, the bytes \<open>spare\<close> of its remaining capacity.
\<close>

section \<open>Word loads and the line-separator probe\<close>

definition load32 :: "bytes \<Rightarrow> nat \<Rightarrow> u32" where
  "load32 s i = le_word (get_bytes i 4 s)"

definition load16 :: "bytes \<Rightarrow> nat \<Rightarrow> u16" where
  "load16 s i = le_word (get_bytes i 2 s)"

text \<open>\<^verbatim>\<open>bytes.IndexByte\<close>, \<open>None\<close> for -1.\<close>

fun indexByte :: "bytes \<Rightarrow> byte \<Rightarrow> nat option" where
  "indexByte [] b = None"
| "indexByte (c # cs) b = (if c = b then Some 0 else map_option Suc (indexByte cs b))"

definition separatorAt :: "bytes \<Rightarrow> nat \<Rightarrow> bool" where
  "separatorAt s i \<longleftrightarrow> s ! (i + 1) = 0x80 \<and> (s ! (i + 2) = 0xA8 \<or> s ! (i + 2) = 0xA9)"

text \<open>The inner loop of \<^verbatim>\<open>hasJSONLineSeparatorScalar\<close> over the marked lanes of one word.\<close>

function probeCandidates :: "bytes \<Rightarrow> u64 \<Rightarrow> bool" where
  "probeCandidates window candidates =
     (if candidates \<noteq> 0 then
        (let offset = trailing_zeros64 candidates div 8 in
         if offset \<ge> 8 then False
         else if separatorAt window offset then True
         else probeCandidates window (candidates AND (candidates - 1)))
      else False)"
  by pat_completeness auto
termination
proof (relation "measure (\<lambda>(window, candidates). unat candidates)")
  fix window :: bytes and c :: u64 and offset
  assume "c \<noteq> 0"
  have "c AND (c - 1) \<le> c - 1" by (metis and.commute word_and_le1)
  also have "c - 1 < c" using \<open>c \<noteq> 0\<close> by (simp add: measure_unat word_less_nat_alt)
  finally show "((window, c AND (c - 1)), (window, c)) \<in> measure (\<lambda>(window, candidates). unat candidates)"
    by (simp add: word_less_nat_alt)
qed simp

declare probeCandidates.simps [simp del]

function probeBytes :: "bytes \<Rightarrow> nat \<Rightarrow> bool" where
  "probeBytes src i =
     (if i + 2 < length src then
        (if src ! i = 0xE2 \<and> separatorAt src i then True else probeBytes src (i + 1))
      else False)"
  by pat_completeness auto
termination
  by (relation "measure (\<lambda>(src, i). length src - i)") auto

declare probeBytes.simps [simp del]

function probeWords :: "bytes \<Rightarrow> nat \<Rightarrow> bool" where
  "probeWords src i =
     (if i + 10 \<le> length src then
        (if probeCandidates (get_bytes i 10 src) (byteEqMask (load64 (get_bytes i 10 src) 0) 0xE2) then True
         else probeWords src (i + 8))
      else probeBytes src i)"
  by pat_completeness auto
termination
  by (relation "measure (\<lambda>(src, i). length src - i)") auto

declare probeWords.simps [simp del]

definition hasJSONLineSeparatorScalar :: "bytes \<Rightarrow> nat \<Rightarrow> bool" where
  "hasJSONLineSeparatorScalar src start =
     (let src = drop start src in
      case indexByte src 0xE2 of
        None \<Rightarrow> False
      | Some i \<Rightarrow>
          if i + 2 < length src \<and> separatorAt src i then True
          else probeWords src (i + 1))"

definition validUTF8NoLineSeparator :: "bytes \<Rightarrow> bool" where
  "validUTF8NoLineSeparator src \<longleftrightarrow> utf8_valid src \<and> \<not> hasJSONLineSeparatorScalar src 0"

section \<open>The encoder (encoder_string.go)\<close>

definition encodeHexDigits :: bytes where
  "encodeHexDigits = ascii ''0123456789abcdef''"

text \<open>\<^verbatim>\<open>storeUint64LE\<close> and the quotes into the capacity of the destination.\<close>

definition quotedStore :: "bytes \<Rightarrow> bytes \<Rightarrow> nat \<Rightarrow> (nat \<times> u64) list \<Rightarrow> bytes" where
  "quotedStore dst spare n stores =
     (let start = length dst;
          buf = (dst @ spare)[start := 0x22];
          buf = fold (\<lambda>(off, w) buf. put_bytes (start + 1 + off) (le_bytes 8 w) buf) stores buf;
          buf = buf[start + 1 + n := 0x22]
      in take (start + n + 2) buf)"

definition specialMask :: "bool \<Rightarrow> u64 \<Rightarrow> u64" where
  "specialMask escapeHTML w = (if escapeHTML then htmlStringSpecialMask w else stringSpecialMask w)"

text \<open>\<^verbatim>\<open>appendShortCleanJSONString\<close>: \<open>None\<close> is \<^verbatim>\<open>ok\<close> false. The caller passes 1 to 16 bytes.\<close>

definition shortWord :: "bytes \<Rightarrow> u64" where
  "shortWord s =
     (let n = length s in
      if n \<ge> 4 then ucast (load32 s 0) OR push_bit ((n - 4) * 8) (ucast (load32 s (n - 4)))
      else if n \<ge> 2 then ucast (load16 s 0) OR push_bit ((n - 2) * 8) (ucast (load16 s (n - 2)))
      else ucast (s ! 0))"

definition appendShortCleanJSONString :: "bytes \<Rightarrow> bytes \<Rightarrow> bytes \<Rightarrow> bool \<Rightarrow> bytes option" where
  "appendShortCleanJSONString dst spare s escapeHTML =
     (let n = length s in
      if length spare < n + 10 then None
      else if n \<ge> 8 then
        (let w0 = load64 s 0; w1 = load64 s (n - 8) in
         if specialMask escapeHTML w0 OR specialMask escapeHTML w1 \<noteq> 0 then None
         else Some (quotedStore dst spare n [(0, w0), (n - 8, w1)]))
      else
        (let w = shortWord s in
         if specialMask escapeHTML w AND (push_bit (8 * n) 1 - 1) \<noteq> 0 then None
         else Some (quotedStore dst spare n [(0, w)])))"

definition escapeByte :: "byte \<Rightarrow> bytes" where
  "escapeByte c =
     (if c = 0x22 then [0x5C, 0x22]
      else if c = 0x5C then [0x5C, 0x5C]
      else if c = 0x08 then [0x5C, 0x62]
      else if c = 0x0C then [0x5C, 0x66]
      else if c = 0x0A then [0x5C, 0x6E]
      else if c = 0x0D then [0x5C, 0x72]
      else if c = 0x09 then [0x5C, 0x74]
      else [0x5C, 0x75, 0x30, 0x30, encodeHexDigits ! unat (drop_bit 4 c), encodeHexDigits ! unat (c AND 0xF)])"

definition encodeScan :: "bool \<Rightarrow> bool \<Rightarrow> bytes \<Rightarrow> nat \<Rightarrow> nat" where
  "encodeScan unicodeClean escapeHTML src i =
     (if unicodeClean \<and> escapeHTML then scanEncodedHTMLSyntaxScalar src i
      else if unicodeClean then scanStringSyntaxScalar src i
      else if escapeHTML then scanEncodedHTMLSpecialScalar src i
      else scanStringSpecialScalar src i)"

lemma scan_beyond:
  assumes "length src < i"
  shows "scanEncodedHTMLSyntaxScalar src i = length src" "scanStringSyntaxScalar src i = length src"
    "scanEncodedHTMLSpecialScalar src i = length src" "scanStringSpecialScalar src i = length src"
  using assms
  by (simp_all add: scanEncodedHTMLSyntaxScalar_def scanStringSyntaxScalar_def scanEncodedHTMLSpecialScalar_def
      scanStringSpecialScalar_def scanStringSpecialScalarUntil_def scanWords16.simps scanWords8.simps scanBytes.simps)

lemma encodeScan_ge: "encodeScan clean html src i < length src \<Longrightarrow> i \<le> encodeScan clean html src i"
proof (cases "i \<le> length src")
  case True
  then show ?thesis
    by (simp add: encodeScan_def scanStringSpecialScalar_eq scanStringSyntaxScalar_eq scanEncodedHTMLSpecialScalar_eq
        scanEncodedHTMLSyntaxScalar_eq first_stop_ge)
next
  case False
  then show "encodeScan clean html src i < length src \<Longrightarrow> ?thesis"
    by (simp add: encodeScan_def scan_beyond split: if_splits)
qed

text \<open>The main loop of \<^verbatim>\<open>appendEncodedJSONString\<close> with its two cursors; \<open>escInv\<close> is the build constant
  \<^verbatim>\<open>escapeInvalidUTF8\<close>.\<close>

function encodeLoop :: "bool \<Rightarrow> bool \<Rightarrow> bool \<Rightarrow> bytes \<Rightarrow> nat \<Rightarrow> nat \<Rightarrow> bytes \<Rightarrow> bytes" where
  "encodeLoop escInv clean html s start i dst =
     (let j = encodeScan clean html s i in
      if i < length s \<and> j < length s then
        (let c = s ! j in
         if c < 0x80 then encodeLoop escInv clean html s (j + 1) (j + 1) (dst @ segment s start j @ escapeByte c)
         else case decodeRune (drop j s) of
           (r, n) \<Rightarrow>
             if r = RuneError \<and> n = 1 then
               encodeLoop escInv clean html s (j + 1) (j + 1)
                 (dst @ segment s start j @ (if escInv then 0x5C # ascii ''ufffd'' else encodeRune RuneError))
             else if r = 0x2028 \<or> r = 0x2029 then
               encodeLoop escInv clean html s (j + n) (j + n)
                 (dst @ segment s start j @ (0x5C # ascii ''u202'') @ [encodeHexDigits ! (r mod 16)])
             else encodeLoop escInv clean html s start (j + n) dst)
      else dst @ drop start s @ [0x22])"
  by pat_completeness auto
termination
proof (relation "measure (\<lambda>(escInv, clean, html, s, start, i, dst). length s - i)")
  fix escInv clean html and s dst :: bytes and start i j r n :: nat and c :: byte
  assume a: "j = encodeScan clean html s i" "i < length s \<and> j < length s" "(r, n) = decodeRune (drop j s)"
  then have "i \<le> j" using encodeScan_ge [of clean html s i] by simp
  moreover have "0 < n" using decodeRune_width [of "drop j s"] a(2) arg_cong [OF a(3), of snd] by simp
  ultimately show
    "((escInv, clean, html, s, j + n, j + n, dst @ segment s start j @ (0x5C # ascii ''u202'') @ [encodeHexDigits ! (r mod 16)]),
       escInv, clean, html, s, start, i, dst) \<in> measure (\<lambda>(escInv, clean, html, s, start, i, dst). length s - i)"
    "((escInv, clean, html, s, start, j + n, dst), escInv, clean, html, s, start, i, dst)
       \<in> measure (\<lambda>(escInv, clean, html, s, start, i, dst). length s - i)"
    using a(2) by auto
qed (use encodeScan_ge in \<open>fastforce+\<close>)

declare encodeLoop.simps [simp del]

text \<open>\<^verbatim>\<open>slices.Grow\<close>: at least \<open>n\<close> bytes of capacity, the new ones zero.\<close>

definition growSpare :: "bytes \<Rightarrow> nat \<Rightarrow> bytes" where
  "growSpare spare n = spare @ replicate (n - length spare) 0"

definition encodeFrom :: "bool \<Rightarrow> bool \<Rightarrow> bytes \<Rightarrow> nat \<Rightarrow> nat \<Rightarrow> bytes \<Rightarrow> bytes" where
  "encodeFrom escInv html s start first dst =
     (let clean = s ! first \<ge> 0x80 \<and> validUTF8NoLineSeparator (drop first s)
      in encodeLoop escInv clean html s start first dst)"

definition appendEncodedJSONString :: "bool \<Rightarrow> bool \<Rightarrow> bytes \<Rightarrow> bytes \<Rightarrow> bytes \<Rightarrow> bool \<Rightarrow> bytes" where
  "appendEncodedJSONString escInv overlap dst spare s html =
     (if length s = 0 then dst @ [0x22, 0x22]
      else case (if length s < 16 then appendShortCleanJSONString dst spare s html else None) of
        Some out \<Rightarrow> out
      | None \<Rightarrow>
          let spare = (if length s \<ge> 16 then growSpare spare (length s + 2) else spare);
              dst = dst @ [0x22];
              window = take (length s) (drop 1 spare);
              copied = (if length s \<ge> 16
                then (if html then CopyHTMLStringPrefix overlap window s else CopyStringPrefix overlap window s)
                else None)
          in case copied of
               Some (window, first) \<Rightarrow>
                 if first = length s then dst @ window @ [0x22]
                 else encodeFrom escInv html s first first (dst @ take first window)
             | None \<Rightarrow>
                 let first = (if html then scanEncodedHTMLSpecialScalar s 0 else scanStringSpecialScalar s 0)
                 in if first = length s then dst @ s @ [0x22]
                    else encodeFrom escInv html s 0 first dst)"

section \<open>The plain encoder (encode.go) and the decoder (strings_decode.go)\<close>

function jsonStringLoop :: "bytes \<Rightarrow> nat \<Rightarrow> nat \<Rightarrow> bytes \<Rightarrow> bytes" where
  "jsonStringLoop s start i dst =
     (if i < length s then
        (let c = s ! i in
         if c \<ge> 0x80 then
           (let n = snd (decodeRune (drop i s)) in
            if n \<noteq> 1 then jsonStringLoop s start (i + n) dst
            else jsonStringLoop s (i + 1) (i + 1) (dst @ segment s start i @ (0x5C # ascii ''ufffd'')))
         else if c \<ge> 0x20 \<and> c \<noteq> 0x22 \<and> c \<noteq> 0x5C then jsonStringLoop s start (i + 1) dst
         else jsonStringLoop s (i + 1) (i + 1) (dst @ segment s start i @ escapeByte c))
      else dst @ drop start s @ [0x22])"
  by pat_completeness auto
termination
proof (relation "measure (\<lambda>(s, start, i, dst). length s - i)")
  fix s dst :: bytes and start i n :: nat and c :: byte
  assume "i < length s" "n = snd (decodeRune (drop i s))"
  then show "((s, start, i + n, dst), s, start, i, dst) \<in> measure (\<lambda>(s, start, i, dst). length s - i)"
    using decodeRune_width [of "drop i s"] by (simp add: diff_less_mono2)
qed auto

declare jsonStringLoop.simps [simp del]

definition appendJSONStringBytes :: "bytes \<Rightarrow> bytes \<Rightarrow> bytes" where
  "appendJSONStringBytes dst s = jsonStringLoop s 0 0 (dst @ [0x22])"

definition decodedSimpleEscape :: "byte \<Rightarrow> byte" where
  "decodedSimpleEscape c =
     (if c = 0x62 then 0x08 else if c = 0x66 then 0x0C else if c = 0x6E then 0x0A
      else if c = 0x72 then 0x0D else if c = 0x74 then 0x09 else c)"

text \<open>The loop of \<^verbatim>\<open>appendDecodedJSONString\<close>; the input is the inside of a validated string literal, so
  the reads after a backslash are in range.\<close>

function decodeLoop :: "bytes \<Rightarrow> nat \<Rightarrow> bytes \<Rightarrow> bytes" where
  "decodeLoop raw i dst =
     (if i < length raw then
        (if raw ! i \<noteq> 0x5C then
           (case indexByte (drop i raw) 0x5C of
              None \<Rightarrow> dst @ drop i raw
            | Some j \<Rightarrow> decodeLoop raw (i + j) (dst @ segment raw i (i + j)))
         else let i = i + 1 in
           if raw ! i \<noteq> 0x75 then decodeLoop raw (i + 1) (dst @ [decodedSimpleEscape (raw ! i)])
           else let u = fst (hex4 raw (i + 1)); i = i + 5; r = unat u in
             if 0xD800 \<le> r \<and> r \<le> 0xDBFF
             then decodeLoop raw (i + 6) (dst @ encodeRune (utf16_decode r (unat (fst (hex4 raw (i + 2))))))
             else decodeLoop raw i (dst @ encodeRune r))
      else dst)"
  by pat_completeness auto
termination
proof (relation "measure (\<lambda>(raw, i, dst). length raw - i)")
  fix raw dst :: bytes and i j :: nat
  assume "i < length raw" "raw ! i \<noteq> 0x5C" "indexByte (drop i raw) 0x5C = Some j"
  then have "0 < j" by (cases "drop i raw") (auto simp: nth_via_drop split: if_splits)
  then show "((raw, i + j, dst @ segment raw i (i + j)), raw, i, dst) \<in> measure (\<lambda>(raw, i, dst). length raw - i)"
    using \<open>i < length raw\<close> by simp
qed auto

declare decodeLoop.simps [simp del]

definition appendDecodedJSONString :: "bytes \<Rightarrow> bytes \<Rightarrow> bytes" where
  "appendDecodedJSONString dst raw = decodeLoop raw 0 dst"

end
