(* ===== verification/DecodeStringCorrect.thy ===== *)
theory DecodeStringCorrect
  imports EncodeString ValidatorStrings
begin

text \<open>
  The string decoder writes the UTF-8 form of the code points a literal denotes, and the
  line-separator probe misses no separator.
\<close>

section \<open>Decoding\<close>

definition utf8 :: "rune list \<Rightarrow> bytes" where
  "utf8 rs = concat (map encodeRune rs)"

lemma utf8_simps [simp]: "utf8 [] = []" "utf8 (r # rs) = encodeRune r @ utf8 rs"
  by (simp_all add: utf8_def)

lemma decodeLoop_end: "length raw \<le> i \<Longrightarrow> decodeLoop raw i dst = dst"
  by (subst decodeLoop.simps) simp

lemma decodeLoop_plain:
  assumes "i < length raw" "raw ! i \<noteq> 0x5C"
  shows "decodeLoop raw i dst = decodeLoop raw (Suc i) (dst @ [raw ! i])"
proof -
  have d: "drop i raw = raw ! i # drop (Suc i) raw" using assms(1) by (simp add: Cons_nth_drop_Suc)
  have eq: "decodeLoop raw i dst = (case indexByte (drop (Suc i) raw) 0x5C of
      None \<Rightarrow> dst @ drop i raw
    | Some j \<Rightarrow> decodeLoop raw (Suc i + j) (dst @ segment raw i (Suc i + j)))"
    using assms by (subst decodeLoop.simps) (simp add: d split: option.split)
  show ?thesis
  proof (cases "indexByte (drop (Suc i) raw) 0x5C")
    case None
    then have "decodeLoop raw (Suc i) (dst @ [raw ! i]) = (dst @ [raw ! i]) @ drop (Suc i) raw"
      using Cons_nth_drop_Suc [of "Suc i" raw, symmetric]
      by (subst decodeLoop.simps) (auto split: if_splits)
    then show ?thesis using eq None d by simp
  next
    case (Some j)
    have i: "Suc i < length raw" using Some by (cases "Suc i < length raw") auto
    have d': "drop (Suc i) raw = raw ! Suc i # drop (Suc (Suc i)) raw" using i by (simp add: Cons_nth_drop_Suc)
    have seg: "segment raw i (Suc i + j) = raw ! i # segment raw (Suc i) (Suc i + j)"
      by (simp add: segment_def d)
    show ?thesis
    proof (cases "raw ! Suc i = 0x5C")
      case True
      then show ?thesis using eq Some d' seg by simp
    next
      case False
      then show ?thesis using eq Some i seg by (subst (2) decodeLoop.simps) simp
    qed
  qed
qed

lemma decodeLoop_run:
  "\<forall>b \<in> set s. b \<noteq> 0x5C \<Longrightarrow> at raw i (s @ t) \<Longrightarrow> decodeLoop raw i dst = decodeLoop raw (i + length s) (dst @ s)"
proof (induction s arbitrary: i dst)
  case (Cons b s)
  have "i < length raw" "raw ! i = b" "at raw (Suc i) (s @ t)" using at_Cons [of raw i b "s @ t"] Cons.prems(2) by simp_all
  then show ?case using decodeLoop_plain [of i raw dst] Cons by simp
qed simp

lemma decodeLoop_unicode:
  assumes "at raw i (0x5C # 0x75 # h @ t)" "hex_quad h" "\<not> (0xD800 \<le> hexnum h \<and> hexnum h \<le> 0xDBFF)"
  shows "decodeLoop raw i dst = decodeLoop raw (i + 6) (dst @ encodeRune (hexnum h))"
proof -
  note a0 = at_Cons [OF assms(1)] and a1 = at_Cons [OF conjunct2 [OF conjunct2 [OF at_Cons [OF assms(1)]]]]
  obtain u where u: "hex4 raw (Suc (Suc i)) = (u, True)" "unat u = hexnum h"
    using hex4_complete [OF conjunct2 [OF conjunct2 [OF a1]] assms(2)] by blast
  show ?thesis using a0 a1 u assms(3)
    by (subst decodeLoop.simps) (auto simp: Let_def add.commute [of _ i])
qed

lemma decodeLoop_surrogates:
  assumes "at raw i (0x5C # 0x75 # h @ 0x5C # 0x75 # l @ t)" "hex_quad h" "hex_quad l" "0xD800 \<le> hexnum h" "hexnum h \<le> 0xDBFF"
  shows "decodeLoop raw i dst = decodeLoop raw (i + 12) (dst @ encodeRune (utf16_decode (hexnum h) (hexnum l)))"
proof -
  note a0 = at_Cons [OF assms(1)] and a1 = at_Cons [OF conjunct2 [OF conjunct2 [OF at_Cons [OF assms(1)]]]]
  have h: "at raw (Suc (Suc i)) (h @ 0x5C # 0x75 # l @ t)" using a1 by blast
  have "at raw (Suc (Suc i) + 4) (0x5C # 0x75 # l @ t)" using at_append [OF h] assms(2) by (simp add: hex_quad_def)
  then have l: "at raw (i + 8) (l @ t)" using at_append [of raw "Suc (Suc i) + 4" "[0x5C, 0x75]" "l @ t"] by (simp add: add.commute)
  obtain u where u: "hex4 raw (Suc (Suc i)) = (u, True)" "unat u = hexnum h" using hex4_complete [OF h assms(2)] by blast
  obtain v where v: "hex4 raw (i + 8) = (v, True)" "unat v = hexnum l" using hex4_complete [OF l assms(3)] by blast
  show ?thesis using a0 a1 u v assms(4,5)
    by (subst decodeLoop.simps) (simp add: Let_def add.commute [of _ i])
qed

lemma simple_escape_decoded:
  "simple_escape c = Some d \<Longrightarrow> decodedSimpleEscape c = d \<and> c \<noteq> 0x75 \<and> encodeRune (unat d) = [d]"
  by (auto simp: simple_escape_def decodedSimpleEscape_def encodeRune_def encodeScalar_def is_scalar_def is_surrogate_def split: if_splits)

lemma decodeLoop_correct:
  "string_text t rs \<Longrightarrow> at raw i t \<Longrightarrow> decodeLoop raw i dst = dst @ utf8 rs"
proof (induction arbitrary: i dst rule: string_text.induct)
  case empty
  then show ?case by (simp add: at_Nil decodeLoop_end)
next
  case (plain r t rs)
  have "\<forall>b \<in> set (encodeRune r). b \<noteq> 0x5C" using encodeRune_no_syntax [OF plain(1-4)] by (auto simp: is_syntax_byte_def)
  then show ?case using decodeLoop_run [OF _ plain.prems] plain.IH [OF at_append [OF plain.prems]] by simp
next
  case (escape c d t rs)
  have a: "i < length raw \<and> raw ! i = 0x5C \<and> at raw (Suc i) (c # t)" using at_Cons [OF escape.prems] .
  have b: "raw ! Suc i = c \<and> at raw (Suc (Suc i)) t" using at_Cons [OF conjunct2 [OF conjunct2 [OF a]]] by blast
  show ?case using a b simple_escape_decoded [OF escape(1)] escape.IH [of "Suc (Suc i)"]
    by (subst decodeLoop.simps) simp
next
  case (unicode h t rs)
  have "at raw (i + 6) t" using at_append [of raw i "0x5C # 0x75 # h" t] unicode.prems unicode(1)
    by (simp add: hex_quad_def add.commute)
  moreover have "\<not> (0xD800 \<le> hexnum h \<and> hexnum h \<le> 0xDBFF)" using unicode(2) by (auto simp: is_surrogate_def)
  ultimately show ?case using decodeLoop_unicode [OF unicode.prems unicode(1)] unicode.IH by simp
next
  case (surrogates h l t rs)
  have "at raw (i + 12) t" using at_append [of raw i "0x5C # 0x75 # h @ 0x5C # 0x75 # l" t] surrogates.prems surrogates(1,2)
    by (simp add: hex_quad_def add.commute)
  then show ?case using decodeLoop_surrogates [OF surrogates.prems surrogates(1-4)] surrogates.IH by simp
qed

section \<open>The line-separator probe\<close>

definition no_separator :: "bytes \<Rightarrow> bool" where
  "no_separator s \<longleftrightarrow> (\<forall>k. k + 2 < length s \<longrightarrow> s ! k = 0xE2 \<longrightarrow> \<not> separatorAt s k)"

lemma no_separator_drop: "no_separator s \<Longrightarrow> no_separator (drop n s)"
  by (auto simp: no_separator_def separatorAt_def add.assoc)

lemma uint_lane_diff: "uint (lane k (x - c)) = (uint x - uint c) div 256 ^ k mod 256" if "k < 8"
proof -
  let ?b = "256 ^ k :: int" and ?m = "256 ^ (8 - k) :: int"
  have bm: "?b * ?m = 2 ^ 64" using that by (simp add: power_add [symmetric])
  have "256 dvd ?m" using that by (simp add: dvd_power)
  have "uint (x - c) = (uint x - uint c) mod (?b * ?m)" by (simp add: bm uint_word_ariths)
  also have "\<dots> = ?b * ((uint x - uint c) div ?b mod ?m) + (uint x - uint c) mod ?b" by (rule zmod_zmult2_eq) simp
  finally have "uint (x - c) div ?b = (uint x - uint c) div ?b mod ?m" by simp
  then show ?thesis using mod_mod_cancel [OF \<open>256 dvd ?m\<close>] by (simp add: uint_lane)
qed

text \<open>A zero lane stays marked whether or not the lanes below it borrow.\<close>

lemma zero_lane_marked:
  assumes "k < 8" "lane k y = 0" "lane k C = 1"
  shows "0x80 \<le> lane k (y - C)"
proof -
  let ?b = "256 ^ k :: int"
  define r where "r = (if uint y mod ?b < uint C mod ?b then 1 else 0 :: int)"
  have "0 < ?b" by simp
  note y = pos_mod_bound [OF this, of "uint y"] pos_mod_sign [OF this, of "uint y"]
    and C = pos_mod_bound [OF this, of "uint C"] pos_mod_sign [OF this, of "uint C"]
  have div: "(uint y - uint C) div ?b = uint y div ?b - uint C div ?b - r"
  proof (rule int_div_pos_eq)
    show "uint y - uint C = ?b * (uint y div ?b - uint C div ?b - r) + (uint y mod ?b - uint C mod ?b + ?b * r)"
      using mult_div_mod_eq [of ?b "uint y"] mult_div_mod_eq [of ?b "uint C"] by (simp add: algebra_simps)
    show "0 \<le> uint y mod ?b - uint C mod ?b + ?b * r" "uint y mod ?b - uint C mod ?b + ?b * r < ?b"
      using y C unfolding r_def
      by (simp_all only: mult_1_right mult_zero_right add_0_right split: if_split) linarith+
  qed
  have "uint y div ?b mod 256 = 0" "uint C div ?b mod 256 = 1"
    using assms(2,3) uint_lane [of k y] uint_lane [of k C] by simp_all
  then have "(uint y div ?b - uint C div ?b) mod 256 = (- 1) mod 256"
    using mod_diff_eq [of "uint y div ?b" 256 "uint C div ?b"] by simp
  then have "(uint y div ?b - uint C div ?b - r) mod 256 = (- 1 - r) mod 256"
    using mod_diff_left_eq [of "uint y div ?b - uint C div ?b" 256 r] mod_diff_left_eq [of "- 1" 256 r] by simp
  then have "uint (lane k (y - C)) = (- 1 - r) mod 256" using assms(1) div by (simp add: uint_lane_diff)
  then show ?thesis by (auto simp: word_le_def r_def split: if_splits)
qed

lemma bit_byteEqMask:
  assumes "k < 8" "lane k x = c"
  shows "bit (byteEqMask x c) (8 * k + 7)"
proof -
  let ?y = "x XOR (ucast c * 0x0101010101010101)"
  have y: "lane k ?y = 0" using assms by (simp add: broadcast_mult xor_eq_zero_iff)
  have "0x80 \<le> lane k (?y - 0x0101010101010101)" using zero_lane_marked [OF assms(1) y lane_ones [OF assms(1)]] .
  then have "bit (lane k (?y - 0x0101010101010101)) 7" by (simp add: bit7_iff)
  moreover have "\<not> bit (lane k ?y) 7" using y by (simp del: lane_xor)
  ultimately show ?thesis
    using assms(1)
    by (simp add: byteEqMask_def Let_def bit_and_iff bit_not_iff bit_highBits bit_lane del: lane_xor)
qed

lemma byteEqMask_top: "bit (byteEqMask x c) n \<Longrightarrow> n mod 8 = 7"
  using first_lane_byteEq [of c x] by (simp add: first_lane_def)

text \<open>The loop over the marked lanes tests each of them.\<close>

lemma trailing_zeros64_bit:
  assumes "c \<noteq> 0"
  shows "bit c (trailing_zeros64 c)" "j < trailing_zeros64 c \<Longrightarrow> \<not> bit c j"
proof -
  from assms obtain n where "bit c n" by (auto simp: bit_eq_iff)
  then obtain i where i: "bit c i" "\<And>j. j < i \<Longrightarrow> \<not> bit c j" using exists_least_iff [of "bit c"] by blast
  from trailing_zeros64_eqI [OF this] i show "bit c (trailing_zeros64 c)" "j < trailing_zeros64 c \<Longrightarrow> \<not> bit c j" by auto
qed

lemma clear_lowest_bit:
  assumes "c \<noteq> (0 :: u64)" "bit c n" "n \<noteq> trailing_zeros64 c"
  shows "bit (c AND (c - 1)) n"
proof -
  let ?t = "trailing_zeros64 c"
  note t = trailing_zeros64_bit [OF assms(1)]
  have t64: "?t < 64" using bit_imp_le_length [OF t(1)] by simp
  define d where "d = c AND NOT (mask (Suc ?t))"
  have bd: "bit d m \<longleftrightarrow> bit c m \<and> ?t < m" for m
    using bit_imp_le_length [of c m] by (auto simp: d_def bit_and_iff bit_not_iff bit_mask_iff)
  have "d AND 2 ^ ?t = 0" "d AND mask ?t = 0"
    by (rule bit_word_eqI; auto simp: bit_and_iff bd bit_exp_iff bit_mask_iff)+
  then have add: "d + 2 ^ ?t = d OR 2 ^ ?t" "d + mask ?t = d OR mask ?t"
    by (simp_all add: disjunctive_add_eq_or)
  have "c = d OR 2 ^ ?t"
  proof (rule bit_word_eqI)
    fix m assume "m < LENGTH(64)"
    then show "bit c m = bit (d OR 2 ^ ?t) m" using t(1) t64 t(2) [of m]
      by (cases m ?t rule: linorder_cases) (auto simp: bit_or_iff bd bit_exp_iff)
  qed
  then have "c = d + 2 ^ ?t" using add(1) by simp
  then have "c - 1 = d + mask ?t" by (simp add: mask_eq_exp_minus_1)
  then have "bit (c - 1) n \<longleftrightarrow> bit d n \<or> bit (mask ?t :: u64) n" using add(2) by (simp add: bit_or_iff)
  moreover have "?t < n" using t(2) [of n] assms(2,3) by (metis nat_neq_iff)
  ultimately show ?thesis using assms(2) bd by (simp add: bit_and_iff)
qed

lemma probeCandidates_complete:
  "\<not> probeCandidates window c \<Longrightarrow> \<forall>n. bit c n \<longrightarrow> n mod 8 = 7 \<Longrightarrow> bit c (8 * k + 7) \<Longrightarrow> \<not> separatorAt window k"
proof (induction window c rule: probeCandidates.induct)
  case (1 window c)
  have c: "c \<noteq> 0" using 1(4) by auto
  let ?t = "trailing_zeros64 c"
  note t = trailing_zeros64_bit(1) [OF c]
  have off: "\<not> ?t div 8 \<ge> 8" using bit_imp_le_length [OF t] by auto
  have p: "\<not> separatorAt window (?t div 8)" "\<not> probeCandidates window (c AND (c - 1))"
    using 1(2) c off by (subst (asm) probeCandidates.simps; simp add: Let_def split: if_splits)+
  show ?case
  proof (cases "8 * k + 7 = ?t")
    case True
    then have "?t div 8 = k" by auto
    then show ?thesis using p(1) by simp
  next
    case False
    then show ?thesis
      using 1(1) [OF c refl off p(1) p(2)] 1(3) clear_lowest_bit [OF c 1(4)] by (simp add: bit_and_iff)
  qed
qed

lemma probeBytes_complete:
  "\<not> probeBytes s i \<Longrightarrow> i \<le> k \<Longrightarrow> k + 2 < length s \<Longrightarrow> s ! k = 0xE2 \<Longrightarrow> \<not> separatorAt s k"
proof (induction s i rule: probeBytes.induct)
  case (1 s i)
  have p: "\<not> (s ! i = 0xE2 \<and> separatorAt s i)" "\<not> probeBytes s (i + 1)"
    using 1(2,3,4) by (subst (asm) probeBytes.simps; simp split: if_splits)+
  show ?case using 1(1) [OF _ p] 1(3-5) p(1) by (cases "i = k") auto
qed

lemma probeWords_complete:
  "\<not> probeWords s i \<Longrightarrow> i \<le> k \<Longrightarrow> k + 2 < length s \<Longrightarrow> s ! k = 0xE2 \<Longrightarrow> \<not> separatorAt s k"
proof (induction s i rule: probeWords.induct)
  case (1 s i)
  let ?w = "get_bytes i 10 s" and ?m = "byteEqMask (load64 (get_bytes i 10 s) 0) 0xE2"
  show ?case
  proof (cases "i + 10 \<le> length s")
    case False
    then have "\<not> probeBytes s i" using 1(2) by (subst (asm) probeWords.simps) simp
    then show ?thesis using 1(3-5) probeBytes_complete by blast
  next
    case True
    have p: "\<not> probeCandidates ?w ?m" "\<not> probeWords s (i + 8)"
      using 1(2) True by (subst (asm) probeWords.simps; simp split: if_splits)+
    show ?thesis
    proof (cases "k < i + 8")
      case low: True
      have nth: "?w ! j = s ! (i + j)" if "j < 10" for j using True that by (simp add: get_bytes_def)
      have "lane (k - i) (load64 ?w 0) = s ! k"
        using low 1(3) True nth [of "k - i"] by (subst lane_load64) auto
      then have "bit ?m (8 * (k - i) + 7)" using 1(5) low 1(3) by (intro bit_byteEqMask) auto
      then have "\<not> separatorAt ?w (k - i)" using probeCandidates_complete [OF p(1)] byteEqMask_top by blast
      then show ?thesis using nth [of "k - i + 1"] nth [of "k - i + 2"] low 1(3) by (auto simp: separatorAt_def add.assoc [symmetric])
    next
      case False
      then show ?thesis using 1(1) [OF True p] 1(4,5) by simp
    qed
  qed
qed

lemma indexByte_before: "indexByte s b = Some i \<Longrightarrow> k < i \<Longrightarrow> s ! k \<noteq> b"
  by (induction s arbitrary: i k) (auto simp: nth_Cons split: if_splits nat.splits)

lemma indexByte_None: "indexByte s b = None \<Longrightarrow> b \<notin> set s"
  by (induction s) (auto split: if_splits)

lemma hasJSONLineSeparator_complete: "\<not> hasJSONLineSeparatorScalar s 0 \<Longrightarrow> no_separator s"
proof -
  assume a: "\<not> hasJSONLineSeparatorScalar s 0"
  show ?thesis unfolding no_separator_def
  proof (intro allI impI)
    fix k assume k: "k + 2 < length s" "s ! k = 0xE2"
    then obtain i where i: "indexByte s 0xE2 = Some i"
      using indexByte_None [of s "0xE2"] nth_mem [of k s] by (cases "indexByte s 0xE2") auto
    have "i \<le> k" using indexByte_before [OF i, of k] k(2) by (meson not_le)
    then show "\<not> separatorAt s k"
      using a i k probeWords_complete [of s "i + 1" k]
      by (cases "i = k") (auto simp: hasJSONLineSeparatorScalar_def split: if_splits)
  qed
qed

end
