(* ===== verification/EncodeStringCorrect.thy ===== *)
theory EncodeStringCorrect
  imports DecodeStringCorrect
begin

text \<open>
  The encoders against a rune-by-rune reference: every path of \<^verbatim>\<open>appendEncodedJSONString\<close> (the
  word-sized fast path, the fused prefix copy, the certified UTF-8 tail and the general loop) appends
  the same bytes, those bytes are a JSON string literal of the code points of the input, and decoding
  gives the input back when it is valid UTF-8.
\<close>

section \<open>The reference encoder\<close>

definition escaped_byte :: "bool \<Rightarrow> byte \<Rightarrow> bool" where
  "escaped_byte html c \<longleftrightarrow> (if html then is_html_syntax_byte c else is_syntax_byte c)"

definition encoded_rune :: "bool \<Rightarrow> bool \<Rightarrow> rune \<Rightarrow> bytes" where
  "encoded_rune html sep r =
     (if r < 0x80 \<and> escaped_byte html (of_nat r) then escapeByte (of_nat r)
      else if sep \<and> (r = 0x2028 \<or> r = 0x2029) then (0x5C # ascii ''u202'') @ [encodeHexDigits ! (r mod 16)]
      else encodeRune r)"

definition replacement :: "bool \<Rightarrow> bytes" where
  "replacement escInv = (if escInv then 0x5C # ascii ''ufffd'' else encodeRune RuneError)"

text \<open>The code points of a byte string, an invalid byte standing for U+FFFD, paired with whether it was
  invalid.\<close>

function scalars :: "bytes \<Rightarrow> (rune \<times> bool) list" where
  "scalars s =
     (if s = [] then []
      else case decodeRune s of
        (r, n) \<Rightarrow> (r, r = RuneError \<and> n = 1) # scalars (drop n s))"
  by pat_completeness auto
termination
proof (relation "measure length")
  fix s :: bytes and r n
  assume "s \<noteq> []" "(r, n) = decodeRune s"
  then show "(drop n s, s) \<in> measure length" using decodeRune_width [of s] by (auto dest: arg_cong [where f = snd])
qed simp

declare scalars.simps [simp del]

definition encoded :: "bool \<Rightarrow> bool \<Rightarrow> bool \<Rightarrow> bytes \<Rightarrow> bytes" where
  "encoded escInv html sep s =
     concat (map (\<lambda>(r, bad). if bad then replacement escInv else encoded_rune html sep r) (scalars s))"

lemma encoded_Nil [simp]: "encoded escInv html sep [] = []"
  by (simp add: encoded_def scalars.simps)

lemma encoded_step:
  assumes "s \<noteq> []" "decodeRune s = (r, n)"
  shows "encoded escInv html sep s =
    (if r = RuneError \<and> n = 1 then replacement escInv else encoded_rune html sep r) @ encoded escInv html sep (drop n s)"
  using assms by (simp add: encoded_def scalars.simps [of s])

lemma decodeRune_ascii: "c < 0x80 \<Longrightarrow> decodeRune (c # t) = (unat c, 1)"
  by (simp add: decodeRune.simps)

lemma encoded_ascii:
  assumes "c < 0x80"
  shows "encoded escInv html sep (c # t) =
    (if escaped_byte html c then escapeByte c else [c]) @ encoded escInv html sep t"
proof -
  have "unat c < 0x80" using assms by (simp add: word_less_nat_alt)
  then show ?thesis using encoded_step [OF _ decodeRune_ascii [OF assms]] encodeRune_ascii [OF assms]
    by (simp add: encoded_rune_def RuneError_def)
qed

lemma encoded_plain:
  "\<forall>b \<in> set w. \<not> escaped_byte html b \<and> b < 0x80 \<Longrightarrow> encoded escInv html sep (w @ t) = w @ encoded escInv html sep t"
  by (induction w) (simp_all add: encoded_ascii)

lemma encodeRune_high:
  assumes "is_scalar r" "0x80 \<le> r"
  shows "\<forall>b \<in> set (encodeRune r). 0x80 \<le> b"
proof -
  have big: "0x80 \<le> (of_nat n :: byte)" if "0x80 \<le> n" "n < 256" for n
    using that by (simp add: word_le_nat_alt)
  have m: "x mod 64 < 64" for x :: nat by simp
  consider "r < 0x800" | "0x800 \<le> r" "r < 0x10000" | "0x10000 \<le> r" by linarith
  then show ?thesis
  proof cases
    case 1
    then have "r div 64 < 32" by linarith
    with 1 show ?thesis
      using assms m [of r] big by (auto simp: encodeRune_def encodeScalar_def simp del: of_nat_add)
  next
    case 2
    then have "r div 4096 < 16" by linarith
    with 2 show ?thesis
      using assms m [of r] m [of "r div 64"] big by (auto simp: encodeRune_def encodeScalar_def simp del: of_nat_add)
  next
    case 3
    moreover have "r div 262144 < 5" using assms(1) by (simp add: is_scalar_def) linarith
    ultimately show ?thesis
      using assms m [of r] m [of "r div 64"] m [of "r div 4096"] big
      by (auto simp: encodeRune_def encodeScalar_def simp del: of_nat_add)
  qed
qed

lemma high_not_escaped: "0x80 \<le> b \<Longrightarrow> \<not> escaped_byte html b"
  by (auto simp: escaped_byte_def is_html_syntax_byte_def is_syntax_byte_def word_le_nat_alt word_less_nat_alt)

lemma not_separator:
  assumes "no_separator s" "s = encodeRune r @ t"
  shows "r \<noteq> 0x2028 \<and> r \<noteq> 0x2029"
proof -
  have "encodeRune 0x2028 = [0xE2, 0x80, 0xA8]" "encodeRune 0x2029 = [0xE2, 0x80, 0xA9]"
    by (simp_all add: encodeRune_def encodeScalar_def is_scalar_def is_surrogate_def)
  then show ?thesis using assms unfolding no_separator_def separatorAt_def
    by (auto dest!: spec [of _ 0])
qed

text \<open>A certified tail: valid UTF-8 without line separators is copied up to the next byte to escape.\<close>

lemma encoded_clean:
  "utf8_valid s \<Longrightarrow> no_separator s \<Longrightarrow>
   encoded escInv html sep s = takeWhile (\<lambda>b. \<not> escaped_byte html b) s @
     encoded escInv html sep (dropWhile (\<lambda>b. \<not> escaped_byte html b) s) \<and>
   utf8_valid (dropWhile (\<lambda>b. \<not> escaped_byte html b) s)"
proof (induction s rule: utf8_valid.induct)
  case (1 s)
  show ?case
  proof (cases "s = [] \<or> escaped_byte html (hd s)")
    case True
    then show ?thesis using 1(2) by (cases s) auto
  next
    case False
    then have ne: "s \<noteq> []" by simp
    obtain r n where d: "decodeRune s = (r, n)" by (cases "decodeRune s")
    have ok: "\<not> (r = RuneError \<and> n = 1)" and v: "utf8_valid (drop n s)"
      using 1(2) ne d by (subst (asm) utf8_valid.simps; simp split: if_splits)+
    note acc = decodeRune_accepts [OF d ne ok]
    have plain: "\<forall>b \<in> set (encodeRune r). \<not> escaped_byte html b"
    proof (cases "r < 0x80")
      case True
      then have e: "encodeRune r = [of_nat r]"
        by (simp add: encodeRune_def encodeScalar_def is_scalar_def is_surrogate_def)
      then have "s = [of_nat r] @ drop n s" using acc by metis
      then have "hd s = of_nat r" by (metis append_Cons list.sel(1))
      then show ?thesis using False e by simp
    next
      case False
      then show ?thesis using encodeRune_high [of r] acc high_not_escaped by auto
    qed
    have "\<not> (r < 0x80 \<and> escaped_byte html (of_nat r))"
      using plain acc by (auto simp: encodeRune_def encodeScalar_def)
    then have "encoded_rune html sep r = encodeRune r"
      using not_separator [OF 1(3)] acc by (auto simp: encoded_rune_def)
    moreover have "takeWhile (\<lambda>b. \<not> escaped_byte html b) s = encodeRune r @ takeWhile (\<lambda>b. \<not> escaped_byte html b) (drop n s)"
      "dropWhile (\<lambda>b. \<not> escaped_byte html b) s = dropWhile (\<lambda>b. \<not> escaped_byte html b) (drop n s)"
      using plain acc by (metis takeWhile_append2, metis dropWhile_append2)
    ultimately show ?thesis
      using 1(1) [OF ne _ d [symmetric] ok v no_separator_drop [OF 1(3)]] encoded_step [OF ne d, of escInv html sep] ok by auto
  qed
qed

section \<open>The loops\<close>

lemma segment_drop: "i \<le> j \<Longrightarrow> segment s i j @ drop j s = drop i s"
proof -
  assume "i \<le> j"
  then obtain k where "j = i + k" using le_Suc_ex by blast
  then show ?thesis by (simp add: segment_def) (metis add.commute append_take_drop_id drop_drop)
qed

lemma first_stop_split:
  assumes "i \<le> length s"
  shows "segment s i (first_stop P s i (length s)) = takeWhile (\<lambda>b. \<not> P b) (drop i s)"
    "drop (first_stop P s i (length s)) s = dropWhile (\<lambda>b. \<not> P b) (drop i s)"
proof -
  let ?t = "takeWhile (\<lambda>b. \<not> P b) (drop i s)"
  have f: "first_stop P s i (length s) = i + length ?t" by (simp add: first_stop_def)
  have t: "take (length ?t) (drop i s) = ?t" by (metis takeWhile_eq_take)
  then show "segment s i (first_stop P s i (length s)) = ?t" by (simp add: f segment_def)
  show "drop (first_stop P s i (length s)) s = dropWhile (\<lambda>b. \<not> P b) (drop i s)"
    by (simp add: f dropWhile_eq_drop add.commute)
qed

text \<open>The byte class an encoder stops at.\<close>

definition stop_byte :: "bool \<Rightarrow> bool \<Rightarrow> byte \<Rightarrow> bool" where
  "stop_byte clean html b \<longleftrightarrow> escaped_byte html b \<or> \<not> clean \<and> 0x80 \<le> b"

lemma encodeScan_eq:
  "i \<le> length s \<Longrightarrow> encodeScan clean html s i = first_stop (stop_byte clean html) s i (length s)"
proof -
  have "stop_byte True True = is_html_syntax_byte" "stop_byte True False = is_syntax_byte"
    "stop_byte False True = is_html_special_byte" "stop_byte False False = is_special_byte"
    by (auto simp: stop_byte_def escaped_byte_def is_html_syntax_byte_def is_syntax_byte_def
        is_html_special_byte_def is_special_byte_def intro!: ext)
  then show "i \<le> length s \<Longrightarrow> ?thesis"
    by (cases clean; cases html; simp add: encodeScan_def scanStringSpecialScalar_eq scanStringSyntaxScalar_eq
        scanEncodedHTMLSpecialScalar_eq scanEncodedHTMLSyntaxScalar_eq)
qed

lemma encoded_scan:
  assumes "i \<le> length s" "clean \<longrightarrow> utf8_valid (drop i s) \<and> no_separator (drop i s)"
    and j_def: "j = encodeScan clean html s i"
  shows "encoded escInv html sep (drop i s) = segment s i j @ encoded escInv html sep (drop j s)"
    "clean \<Longrightarrow> utf8_valid (drop j s)" "i \<le> j" "j \<le> length s" "j < length s \<Longrightarrow> stop_byte clean html (s ! j)"
proof -
  have j: "j = first_stop (stop_byte clean html) s i (length s)" using assms(1) by (simp add: j_def encodeScan_eq)
  note sp = first_stop_split [OF assms(1), of "stop_byte clean html", folded j]
  show "i \<le> j" "j \<le> length s" using assms(1) by (simp_all add: j first_stop_ge first_stop_le)
  show "j < length s \<Longrightarrow> stop_byte clean html (s ! j)" using first_stop_hit [of "stop_byte clean html" s i "length s"] by (simp add: j)
  show "encoded escInv html sep (drop i s) = segment s i j @ encoded escInv html sep (drop j s)"
  proof (cases clean)
    case True
    then show ?thesis using encoded_clean [of "drop i s" escInv html sep] assms(2) sp by (simp add: stop_byte_def)
  next
    case False
    have "\<forall>b \<in> set (segment s i j). \<not> escaped_byte html b \<and> b < 0x80"
      unfolding sp(1) using set_takeWhileD False by (fastforce simp: stop_byte_def)
    from encoded_plain [OF this, of escInv sep "drop j s"] show ?thesis by (simp add: segment_drop \<open>i \<le> j\<close>)
  qed
  show "clean \<Longrightarrow> utf8_valid (drop j s)"
    using encoded_clean [of "drop i s" escInv html sep] assms(2) sp(2) by (simp add: stop_byte_def)
qed

lemma utf8_valid_ascii: "c < 0x80 \<Longrightarrow> utf8_valid (c # t) \<longleftrightarrow> utf8_valid t"
proof -
  assume "c < 0x80"
  then have "decodeRune (c # t) = (unat c, 1)" "unat c < 0x80" by (auto simp: decodeRune_ascii word_less_nat_alt)
  then show ?thesis by (subst utf8_valid.simps) (simp add: RuneError_def)
qed

lemma encodeLoop_correct:
  "start \<le> i \<Longrightarrow> i \<le> length s \<Longrightarrow> (clean \<longrightarrow> utf8_valid (drop i s) \<and> no_separator (drop i s)) \<Longrightarrow>
   encodeLoop escInv clean html s start i dst = dst @ segment s start i @ encoded escInv html True (drop i s) @ [0x22]"
proof (induction escInv clean html s start i dst rule: encodeLoop.induct)
  case (1 escInv clean html s start i dst)
  define j where "j = encodeScan clean html s i"
  note sc = encoded_scan(1) [where escInv = escInv and sep = True, OF 1(6) 1(7) j_def]
    encoded_scan(2-5) [OF 1(6) 1(7) j_def]
  note split = segment_append [OF 1(5) sc(3), of s]
  show ?case
  proof (cases "j < length s")
    case False
    then have "j = length s" using sc(4) by simp
    then have "encoded escInv html True (drop i s) = drop i s" using sc(1) by (simp add: segment_def)
    moreover have "encodeLoop escInv clean html s start i dst = dst @ drop start s @ [0x22]"
      using False by (subst encodeLoop.simps) (simp add: j_def)
    ultimately show ?thesis using segment_drop [OF 1(5), of s] by (simp flip: append_assoc)
  next
    case True
    then have i: "i < length s" using sc(3) by simp
    have dj: "drop j s = s ! j # drop (Suc j) s" using True by (simp add: Cons_nth_drop_Suc)
    note stop = sc(5) [OF True]
    show ?thesis
    proof (cases "s ! j < 0x80")
      case low: True
      then have esc: "escaped_byte html (s ! j)" using stop by (auto simp: stop_byte_def)
      have eq: "encodeLoop escInv clean html s start i dst =
          encodeLoop escInv clean html s (j + 1) (j + 1) (dst @ segment s start j @ escapeByte (s ! j))"
        using True i low by (subst encodeLoop.simps) (simp add: j_def Let_def)
      have "clean \<longrightarrow> utf8_valid (drop (j + 1) s) \<and> no_separator (drop (j + 1) s)"
        using sc(2) dj utf8_valid_ascii [OF low] 1(7) no_separator_drop [of "drop i s" "j + 1 - i"] sc(3) by auto
      then have "encodeLoop escInv clean html s start i dst =
          (dst @ segment s start j @ escapeByte (s ! j)) @ segment s (j + 1) (j + 1) @ encoded escInv html True (drop (j + 1) s) @ [0x22]"
        unfolding eq using True i low by (intro 1(1)) (simp_all add: j_def)
      then show ?thesis using sc(1) dj encoded_ascii [OF low] esc split by (simp flip: append_assoc)
    next
      case high: False
      then have nc: "\<not> clean" using stop high_not_escaped by (auto simp: stop_byte_def)
      obtain r n where d: "decodeRune (drop j s) = (r, n)" by (cases "decodeRune (drop j s)")
      have w: "0 < n" "n \<le> length s - j" using decodeRune_width [of "drop j s"] True d by auto
      have ne: "drop j s \<noteq> []" using True by simp
      note step = encoded_step [OF ne d, of escInv html True]
      have drop: "drop n (drop j s) = drop (j + n) s" by (simp add: add.commute)
      have loop: "encodeLoop escInv clean html s start i dst =
          (if r = RuneError \<and> n = 1 then
             encodeLoop escInv clean html s (j + 1) (j + 1) (dst @ segment s start j @ replacement escInv)
           else if r = 0x2028 \<or> r = 0x2029 then
             encodeLoop escInv clean html s (j + n) (j + n)
               (dst @ segment s start j @ (0x5C # ascii ''u202'') @ [encodeHexDigits ! (r mod 16)])
           else encodeLoop escInv clean html s start (j + n) dst)"
        using True i high d by (subst encodeLoop.simps) (simp add: j_def [symmetric] Let_def replacement_def)
      consider "r = RuneError \<and> n = 1" | "\<not> (r = RuneError \<and> n = 1)" "r = 0x2028 \<or> r = 0x2029"
        | "\<not> (r = RuneError \<and> n = 1)" "\<not> (r = 0x2028 \<or> r = 0x2029)" by blast
      then show ?thesis
      proof cases
        case 1
        have "encodeLoop escInv clean html s start i dst =
            (dst @ segment s start j @ replacement escInv) @ segment s (j + 1) (j + 1) @ encoded escInv html True (drop (j + 1) s) @ [0x22]"
          unfolding loop if_P [OF 1] replacement_def
          by (rule "1.IH"(2) [OF j_def _ refl high d [symmetric] 1]) (use True i nc in auto)
        then show ?thesis using sc(1) step [unfolded if_P [OF 1]] 1 drop split by (simp flip: append_assoc)
      next
        case 2
        let ?e = "(0x5C # ascii ''u202'') @ [encodeHexDigits ! (r mod 16)]"
        have "encodeLoop escInv clean html s start i dst =
            (dst @ segment s start j @ ?e) @ segment s (j + n) (j + n) @ encoded escInv html True (drop (j + n) s) @ [0x22]"
          unfolding loop if_not_P [OF 2(1)] if_P [OF 2(2)]
          by (rule "1.IH"(3) [OF j_def _ refl high d [symmetric] 2]) (use True i nc w in auto)
        moreover have "encoded_rune html True r = ?e" using 2 by (auto simp: encoded_rune_def)
        ultimately show ?thesis using sc(1) step [unfolded if_not_P [OF 2(1)]] drop split by (simp flip: append_assoc)
      next
        case 3
        have "encodeLoop escInv clean html s start i dst =
            dst @ segment s start (j + n) @ encoded escInv html True (drop (j + n) s) @ [0x22]"
          unfolding loop if_not_P [OF 3(1)] if_not_P [OF 3(2)]
          by (rule "1.IH"(4) [OF j_def _ refl high d [symmetric] 3]) (use True i nc w 1(5) sc(3) in auto)
        moreover have "segment s start (j + n) = segment s start i @ segment s i j @ encodeRune r"
        proof -
          have "segment s j (j + n) = encodeRune r" using decodeRune_accepts [OF d ne 3(1)] by (simp add: segment_def)
          then show ?thesis using 1(5) sc(3) by (metis le_add1 order_trans segment_append)
        qed
        moreover have "encoded_rune html True r = encodeRune r"
        proof -
          note acc = decodeRune_accepts [OF d ne 3(1)]
          have "hd (encodeRune r) = s ! j" using acc dj by (metis encodeRune_not_Nil hd_append2 list.sel(1))
          then have "0x80 \<le> r" using encodeRune_hd(2) [of r] acc high by (simp add: not_less)
          then show ?thesis using 3 by (auto simp: encoded_rune_def)
        qed
        ultimately show ?thesis using sc(1) step [unfolded if_not_P [OF 3(1)]] drop by simp
      qed
    qed
  qed
qed

lemma jsonStringLoop_correct:
  "start \<le> i \<Longrightarrow> i \<le> length s \<Longrightarrow>
   jsonStringLoop s start i dst = dst @ segment s start i @ encoded True False False (drop i s) @ [0x22]"
proof (induction s start i dst rule: jsonStringLoop.induct)
  case (1 s start i dst)
  show ?case
  proof (cases "i < length s")
    case False
    then show ?thesis using 1(5,6) by (subst jsonStringLoop.simps) (simp add: segment_drop [symmetric])
  next
    case i: True
    have di: "drop i s = s ! i # drop (Suc i) s" using i by (simp add: Cons_nth_drop_Suc)
    have snoc: "segment s start (Suc i) = segment s start i @ [s ! i]" using segment_snoc [OF 1(5) i] .
    show ?thesis
    proof (cases "0x80 \<le> s ! i")
      case high: True
      obtain r n where d: "decodeRune (drop i s) = (r, n)" by (cases "decodeRune (drop i s)")
      have ne: "drop i s \<noteq> []" and w: "0 < n" "n \<le> length s - i" using i decodeRune_width [of "drop i s"] d by auto
      note step = encoded_step [OF ne d, of True False False]
      show ?thesis
      proof (cases "n = 1")
        case True
        have bad: "r = RuneError"
        proof (rule ccontr)
          assume "r \<noteq> RuneError"
          then have acc: "is_scalar r \<and> n = length (encodeRune r) \<and> drop i s = encodeRune r @ drop n (drop i s)"
            using decodeRune_accepts [OF d ne] by blast
          then have "hd (encodeRune r) = s ! i" using di by (metis encodeRune_not_Nil hd_append2 list.sel(1))
          then have "0x80 \<le> r" using encodeRune_hd(2) [of r] acc high by simp
          then have "length (encodeRune r) \<noteq> 1" using acc by (simp add: encodeRune_def encodeScalar_def)
          then show False using acc True by simp
        qed
        have "jsonStringLoop s start i dst = jsonStringLoop s (i + 1) (i + 1) (dst @ segment s start i @ (0x5C # ascii ''ufffd''))"
          using i high d True by (subst jsonStringLoop.simps) (simp add: Let_def)
        also have "\<dots> = (dst @ segment s start i @ (0x5C # ascii ''ufffd'')) @ segment s (i + 1) (i + 1) @ encoded True False False (drop (i + 1) s) @ [0x22]"
          using i high d True by (intro "1.IH"(2)) auto
        finally show ?thesis using step True bad by (simp add: replacement_def)
      next
        case False
        then have ok: "\<not> (r = RuneError \<and> n = 1)" by simp
        note acc = decodeRune_accepts [OF d ne ok]
        have "hd (encodeRune r) = s ! i" using acc di by (metis encodeRune_not_Nil hd_append2 list.sel(1))
        then have "0x80 \<le> r" using encodeRune_hd(2) [of r] acc high by simp
        then have er: "encoded_rune False False r = encodeRune r" by (auto simp: encoded_rune_def)
        have "segment s i (i + n) = encodeRune r" using acc by (simp add: segment_def) 
        then have seg: "segment s start (i + n) = segment s start i @ encodeRune r"
          using 1(5) by (metis le_add1 segment_append)
        have "jsonStringLoop s start i dst = jsonStringLoop s start (i + n) dst"
          using i high d False by (subst jsonStringLoop.simps) (simp add: Let_def)
        also have "\<dots> = dst @ segment s start (i + n) @ encoded True False False (drop (i + n) s) @ [0x22]"
          using i high d False w 1(5) by (intro "1.IH"(1)) auto
        finally show ?thesis using step [unfolded if_not_P [OF ok]] er seg by (simp add: add.commute)
      qed
    next
      case low: False
      then have c: "s ! i < 0x80" by (simp add: not_le)
      have esc: "escaped_byte False (s ! i) \<longleftrightarrow> \<not> (s ! i \<ge> 0x20 \<and> s ! i \<noteq> 0x22 \<and> s ! i \<noteq> 0x5C)"
        by (auto simp: escaped_byte_def is_syntax_byte_def not_le)
      show ?thesis
      proof (cases "escaped_byte False (s ! i)")
        case True
        have "jsonStringLoop s start i dst = jsonStringLoop s (i + 1) (i + 1) (dst @ segment s start i @ escapeByte (s ! i))"
          using i low True esc by (subst jsonStringLoop.simps) (auto simp: Let_def)
        also have "\<dots> = (dst @ segment s start i @ escapeByte (s ! i)) @ segment s (i + 1) (i + 1) @ encoded True False False (drop (i + 1) s) @ [0x22]"
          using i low True esc by (intro "1.IH"(4)) auto
        finally show ?thesis using di encoded_ascii [OF c] True by simp
      next
        case False
        have "jsonStringLoop s start i dst = jsonStringLoop s start (i + 1) dst"
          using i low False esc by (subst jsonStringLoop.simps) (auto simp: Let_def)
        also have "\<dots> = dst @ segment s start (i + 1) @ encoded True False False (drop (i + 1) s) @ [0x22]"
          using i low False esc 1(5) by (intro "1.IH"(3)) auto
        finally show ?thesis using di encoded_ascii [OF c] False snoc by simp
      qed
    qed
  qed
qed

section \<open>The word-sized fast path\<close>

text \<open>Two loads of \<open>w\<close> bytes, one at each end, cover a string of \<open>w\<close> to \<open>2 w\<close> bytes.\<close>

lemma bit_shifted_load:
  fixes s :: bytes
  assumes "w \<le> length s" "LENGTH('a::len) = 8 * w" "m < 64"
  shows "bit (push_bit ((length s - w) * 8) (ucast (le_word (get_bytes (length s - w) w s) :: 'a word)) :: u64) m \<longleftrightarrow>
    8 * (length s - w) \<le> m \<and> m < 8 * length s \<and> bit (s ! (m div 8)) (m mod 8)"
proof (cases "8 * (length s - w) \<le> m")
  case True
  then obtain j where j: "m = 8 * (length s - w) + j" using le_Suc_ex by blast
  then have e: "length s - w + j div 8 = m div 8" "j mod 8 = m mod 8" by simp_all
  have l: "length (get_bytes (length s - w) w s) = w" using assms(1) by simp
  have "j < 8 * w \<Longrightarrow> get_bytes (length s - w) w s ! (j div 8) = s ! (m div 8)"
    using assms(1) e(1) by (simp add: get_bytes_def)
  moreover have "8 * length s = 8 * (length s - w) + 8 * w" using assms(1) by simp
  ultimately show ?thesis using assms(2,3) j e(2) l
    by (auto simp: bit_push_bit_iff bit_ucast_iff bit_le_word mult.commute)
next
  case False
  then show ?thesis by (simp add: bit_push_bit_iff mult.commute)
qed

lemma bit_low_load:
  "w \<le> length s \<Longrightarrow> LENGTH('a) = 8 * w \<Longrightarrow> m < 64 \<Longrightarrow>
   bit (ucast (le_word (get_bytes 0 w s) :: 'a::len word) :: u64) m \<longleftrightarrow> m < 8 * w \<and> bit (s ! (m div 8)) (m mod 8)"
  by (auto simp: bit_ucast_iff bit_le_word get_bytes_def)

lemma shortWord_eq:
  assumes "1 \<le> length s" "length s < 8"
  shows "shortWord s = le_word s"
proof (rule bit_word_eqI)
  fix m assume m: "m < LENGTH(64)"
  let ?n = "length s"
  have le: "bit (le_word s :: u64) m \<longleftrightarrow> m < 8 * ?n \<and> bit (s ! (m div 8)) (m mod 8)"
    using m by (simp add: bit_le_word)
  consider "4 \<le> ?n" | "2 \<le> ?n" "?n < 4" | "?n = 1" using assms by linarith
  then show "bit (shortWord s) m = bit (le_word s :: u64) m"
  proof cases
    case 1
    then show ?thesis
      using bit_low_load [of 4 s m, where 'a = 32] bit_shifted_load [of 4 s m, where 'a = 32] m assms(2) unfolding le
      by (auto simp: shortWord_def Let_def bit_or_iff load32_def)
  next
    case 2
    then show ?thesis
      using bit_low_load [of 2 s m, where 'a = 16] bit_shifted_load [of 2 s m, where 'a = 16] m unfolding le
      by (auto simp: shortWord_def Let_def bit_or_iff load16_def)
  next
    case 3
    then obtain c where "s = [c]" by (cases s) auto
    then show ?thesis by (simp add: shortWord_def)
  qed
qed

lemma stop_class:
  "stop_byte True True = is_html_syntax_byte" "stop_byte True False = is_syntax_byte"
  "stop_byte False True = is_html_special_byte" "stop_byte False False = is_special_byte"
  by (auto simp: stop_byte_def escaped_byte_def is_html_syntax_byte_def is_syntax_byte_def
      is_html_special_byte_def is_special_byte_def intro!: ext)

lemma first_lane_specialMask: "first_lane (stop_byte False html) x (specialMask html x)"
  by (cases html) (simp_all add: specialMask_def stop_class first_lane_special first_lane_html_special)

lemma lane_le_word:
  assumes "length s \<le> 8" "k < length s"
  shows "lane k (le_word s) = s ! k"
  using assms by (intro bit_word_eqI) (auto simp: bit_lane bit_le_word)

lemma short_clean:
  assumes "length s < 8" "specialMask html (le_word s) AND (push_bit (8 * length s) 1 - 1) = 0" "k < length s"
  shows "\<not> stop_byte False html (s ! k)"
  using assms(3)
proof (induction k rule: less_induct)
  case (less k)
  let ?m = "specialMask html (le_word s)"
  have k8: "k < 8" using less.prems assms(1) by simp
  have low: "(push_bit (8 * length s) 1 - 1 :: u64) = mask (8 * length s)"
    by (simp add: mask_eq_exp_minus_1 push_bit_eq_mult)
  have "\<not> bit ?m (8 * k + 7)"
    using arg_cong [OF assms(2), of "\<lambda>w. bit w (8 * k + 7)"] less.prems assms(1)
    unfolding low by (auto simp: bit_and_iff bit_mask_iff)
  moreover have "\<forall>j < k. \<not> stop_byte False html (lane j (le_word s))"
    using less lane_le_word [of s] assms(1) by auto
  ultimately show ?case
    using first_lane_specialMask [of html "le_word s"] k8 less.prems lane_le_word [of s k] assms(1)
    by (auto simp: first_lane_def)
qed

lemma long_clean:
  assumes "8 \<le> length s" "length s \<le> 16" "specialMask html (load64 s 0) OR specialMask html (load64 s (length s - 8)) = 0" "k < length s"
  shows "\<not> stop_byte False html (s ! k)"
proof -
  have z: "specialMask html (load64 s 0) = 0" "specialMask html (load64 s (length s - 8)) = 0"
    using assms(3) by (auto simp: bit_eq_iff bit_or_iff)
  show ?thesis
  proof (cases "k < 8")
    case True
    then show ?thesis using first_lane_zero [OF first_lane_specialMask [of html "load64 s 0", unfolded z(1)], of k]
        lane_load64 [of k 0 s] assms(1) by simp
  next
    case False
    let ?j = "k - (length s - 8)"
    have "?j < 8" "length s - 8 + ?j = k" using False assms by auto
    then show ?thesis
      using first_lane_zero [OF first_lane_specialMask [of html "load64 s (length s - 8)", unfolded z(2)], of ?j]
        lane_load64 [of ?j "length s - 8" s] assms(1) by simp
  qed
qed

lemma put_behind:
  "off + length bs \<le> length x \<Longrightarrow> put_bytes (length dst + 1 + off) bs (dst @ q # x) = dst @ q # put_bytes off bs x"
  by (simp add: put_bytes_fit)

lemma quotedStore_eq:
  assumes "length s + 10 \<le> length spare" "\<forall>(off, w) \<in> set stores. off + 8 \<le> length spare - 1"
    "take (length s) (fold (\<lambda>(off, w) buf. put_bytes off (le_bytes 8 w) buf) stores (tl spare)) = s"
  shows "quotedStore dst spare (length s) stores = dst @ 0x22 # s @ [0x22]"
proof -
  obtain c x where sp: "spare = c # x" using assms(1) by (cases spare) auto
  have f: "\<forall>(off, w) \<in> set stores. off + 8 \<le> length x \<Longrightarrow>
      fold (\<lambda>(off, w) buf. put_bytes (length dst + 1 + off) (le_bytes 8 w) buf) stores (dst @ 0x22 # x) =
      dst @ 0x22 # fold (\<lambda>(off, w) buf. put_bytes off (le_bytes 8 w) buf) stores x" for x
  proof (induction stores arbitrary: x)
    case (Cons p stores)
    obtain off w where p: "p = (off, w)" by (cases p)
    show ?case using Cons put_behind [of off "le_bytes 8 w" x dst "0x22"] by (simp add: p)
  qed simp
  define y where "y = fold (\<lambda>(off, w) buf. put_bytes off (le_bytes 8 w) buf) stores x"
  have "length (fold (\<lambda>(off, w) buf. put_bytes off (le_bytes 8 w) buf) stores z) = length z" for z
    by (induction stores arbitrary: z) auto
  then have ly: "length y = length x" by (simp add: y_def)
  have "quotedStore dst spare (length s) stores = take (length dst + length s + 2) ((dst @ 0x22 # y)[length dst + 1 + length s := 0x22])"
    using f [of x] assms(2) sp by (simp add: quotedStore_def y_def Let_def)
  also have "\<dots> = dst @ 0x22 # take (length s + 1) (y[length s := 0x22])"
    by (simp add: list_update_append)
  also have "take (length s + 1) (y[length s := 0x22]) = take (length s) y @ [0x22]"
    using assms(1) sp ly by (simp add: take_Suc_conv_app_nth)
  finally show ?thesis using assms(3) sp by (simp add: y_def)
qed

lemma encoded_all_plain:
  assumes "\<forall>k < length s. \<not> stop_byte False html (s ! k)"
  shows "encoded escInv html sep s = s"
proof -
  have "\<forall>b \<in> set s. \<not> escaped_byte html b \<and> b < 0x80" using assms by (auto simp: stop_byte_def in_set_conv_nth not_le)
  from encoded_plain [OF this, of escInv sep "[]"] show ?thesis by simp
qed

lemma le_bytes_load64: "i + 8 \<le> length s \<Longrightarrow> le_bytes 8 (load64 s i) = get_bytes i 8 s"
  using le_bytes_le_word [of "get_bytes i 8 s", where 'a = 64] by (simp add: load64_def)

lemma le_bytes_short:
  assumes "length s \<le> 8"
  shows "take (length s) (le_bytes 8 (le_word s :: u64)) = s"
proof (rule nth_equalityI)
  fix k assume "k < length (take (length s) (le_bytes 8 (le_word s :: u64)))"
  then show "take (length s) (le_bytes 8 (le_word s :: u64)) ! k = s ! k"
    using assms lane_le_word [of s k] by (simp add: nth_le_bytes lane_def)
qed (use assms in simp)

lemma appendShort_correct:
  assumes "appendShortCleanJSONString dst spare s html = Some out" "1 \<le> length s" "length s \<le> 16"
  shows "out = dst @ 0x22 # encoded escInv html True s @ [0x22]"
proof (cases "8 \<le> length s")
  case True
  have sp: "length s + 10 \<le> length spare"
    and m: "specialMask html (load64 s 0) OR specialMask html (load64 s (length s - 8)) = 0"
    and o: "out = quotedStore dst spare (length s) [(0, load64 s 0), (length s - 8, load64 s (length s - 8))]"
    using assms(1) True by (auto simp: appendShortCleanJSONString_def Let_def split: if_splits)
  have "\<forall>k < length s. \<not> stop_byte False html (s ! k)" using long_clean [OF True assms(3) m] by blast
  moreover have "out = dst @ 0x22 # s @ [0x22]"
    unfolding o using sp True
  proof (intro quotedStore_eq nth_equalityI)
    fix k assume "k < length (take (length s) (fold (\<lambda>(off, w) buf. put_bytes off (le_bytes 8 w) buf)
        [(0, load64 s 0), (length s - 8, load64 s (length s - 8))] (tl spare)))"
    then have k: "k < length s" "k < length spare - 1" using sp by auto
    then show "take (length s) (fold (\<lambda>(off, w) buf. put_bytes off (le_bytes 8 w) buf)
        [(0, load64 s 0), (length s - 8, load64 s (length s - 8))] (tl spare)) ! k = s ! k"
      using True assms(3) by (auto simp: le_bytes_load64 get_bytes_def not_less)
  qed (use sp True in auto)
  ultimately show ?thesis using encoded_all_plain by simp
next
  case False
  have sp: "length s + 10 \<le> length spare"
    and m: "specialMask html (le_word s) AND (push_bit (8 * length s) 1 - 1) = 0"
    and o: "out = quotedStore dst spare (length s) [(0, le_word s)]"
    using assms False shortWord_eq [of s] by (auto simp: appendShortCleanJSONString_def Let_def split: if_splits)
  have "\<forall>k < length s. \<not> stop_byte False html (s ! k)" using short_clean [OF _ m] False by simp
  moreover have "out = dst @ 0x22 # s @ [0x22]"
    unfolding o using sp False le_bytes_short [of s]
    by (intro quotedStore_eq) (auto simp: put_bytes_fit)
  ultimately show ?thesis using encoded_all_plain by simp
qed

section \<open>The whole encoder\<close>

lemma encodeFrom_correct:
  assumes "start \<le> first" "first \<le> length s"
  shows "encodeFrom escInv html s start first dst = dst @ segment s start first @ encoded escInv html True (drop first s) @ [0x22]"
  using assms hasJSONLineSeparator_complete
  by (auto simp: encodeFrom_def Let_def validUTF8NoLineSeparator_def intro!: encodeLoop_correct)

lemma copyPrefix_eq:
  "(if html then CopyHTMLStringPrefix overlap w s else CopyStringPrefix overlap w s) =
    (if length w < length s \<or> overlap then None
     else let e = encodeScan False html s 0 in Some (put_bytes 0 (take e s) w, e))"
  by (simp add: CopyHTMLStringPrefix_def CopyStringPrefix_def encodeScan_def Let_def)

lemma appendEncodedJSONString_eq:
  "appendEncodedJSONString escInv overlap dst spare s html = dst @ 0x22 # encoded escInv html True s @ [0x22]"
proof (cases "s = []")
  case True
  then show ?thesis by (simp add: appendEncodedJSONString_def)
next
  case False
  then have n: "1 \<le> length s" by (cases s) auto
  let ?short = "if length s < 16 then appendShortCleanJSONString dst spare s html else None"
  define first where "first = encodeScan False html s 0"
  note sc = encoded_scan(1) [where escInv = escInv and sep = True and i = 0, OF _ _ first_def, simplified]
    encoded_scan(4) [where i = 0, OF _ _ first_def, simplified]
  show ?thesis
  proof (cases ?short)
    case (Some out)
    then have "appendShortCleanJSONString dst spare s html = Some out" "length s \<le> 16" by (auto split: if_splits)
    then show ?thesis using appendShort_correct n Some False by (simp add: appendEncodedJSONString_def)
  next
    case None
    define sp where "sp = (if length s \<ge> 16 then growSpare spare (length s + 2) else spare)"
    define w where "w = take (length s) (drop 1 sp)"
    have all: "first = length s \<Longrightarrow> encoded escInv html True s = s" using sc(1) by (simp add: segment_def)
    have scan: "first = (if html then scanEncodedHTMLSpecialScalar s 0 else scanStringSpecialScalar s 0)"
      by (simp add: first_def encodeScan_def)
    have body: "appendEncodedJSONString escInv overlap dst spare s html =
       (case (if length s \<ge> 16 then (if length w < length s \<or> overlap then None
            else let e = first in Some (put_bytes 0 (take e s) w, e)) else None) of
          Some (window, e) \<Rightarrow>
            if e = length s then (dst @ [0x22]) @ window @ [0x22]
            else encodeFrom escInv html s e e ((dst @ [0x22]) @ take e window)
        | None \<Rightarrow> if first = length s then (dst @ [0x22]) @ s @ [0x22] else encodeFrom escInv html s 0 first (dst @ [0x22]))"
      unfolding appendEncodedJSONString_def None copyPrefix_eq first_def [symmetric] scan [symmetric]
        sp_def [symmetric] w_def [symmetric] Let_def using False by simp
    show ?thesis
    proof (cases "16 \<le> length s \<and> \<not> length w < length s \<and> \<not> overlap")
      case True
      have "length w = length s" using True by (auto simp: w_def)
      then have "take first (put_bytes 0 (take first s) w) = take first s"
        "first = length s \<Longrightarrow> put_bytes 0 (take first s) w = s"
        using sc(2) by (simp_all add: put_bytes_fit)
      then show ?thesis using body True all encodeFrom_correct [of first first s escInv html] sc
        by (simp add: segment_def)
    next
      case False
      then have "appendEncodedJSONString escInv overlap dst spare s html =
          (if first = length s then (dst @ [0x22]) @ s @ [0x22] else encodeFrom escInv html s 0 first (dst @ [0x22]))"
        unfolding body by auto
      then show ?thesis using all encodeFrom_correct [of 0 first s escInv html] sc by simp
    qed
  qed
qed

section \<open>The encoded bytes as a JSON string\<close>

lemma hex_digit:
  assumes "k < 16"
  shows "isHex (encodeHexDigits ! k)" "hexval (encodeHexDigits ! k) = k"
proof -
  have "k \<in> {0, 1, 2, 3, 4, 5, 6, 7, 8, 9, 10, 11, 12, 13, 14, 15}" using assms by (simp, presburger)
  then show "isHex (encodeHexDigits ! k)" "hexval (encodeHexDigits ! k) = k"
    by (auto simp: encodeHexDigits_def isHex_def hexval_def)
qed

lemma nibbles:
  fixes c :: byte
  shows "unat (drop_bit 4 c) = unat c div 16" "unat (c AND 0xF) = unat c mod 16"
proof -
  show "unat (drop_bit 4 c) = unat c div 16" by (simp add: drop_bit_eq_div unat_div)
  have "c AND 0xF = take_bit 4 c" by (simp add: take_bit_eq_mask mask_eq_exp_minus_1)
  then show "unat (c AND 0xF) = unat c mod 16" by (simp add: take_bit_eq_mod unat_mod)
qed

lemma isHex_zero: "isHex 0x30" "hexval 0x30 = 0"
  by (simp_all add: isHex_def hexval_def)

lemma escapeByte_text:
  assumes "c < 0x80" "string_text t rs"
  shows "string_text (escapeByte c @ t) (unat c # rs)"
proof -
  let ?h = "[0x30, 0x30, encodeHexDigits ! unat (drop_bit 4 c), encodeHexDigits ! unat (c AND 0xF)]"
  have c: "unat c < 0x80" using assms(1) by (simp add: word_less_nat_alt)
  have h: "hex_quad ?h" "hexnum ?h = unat c"
    using c hex_digit(1) [of "unat c div 16"] hex_digit(1) [of "unat c mod 16"]
      hex_digit(2) [of "unat c div 16"] hex_digit(2) [of "unat c mod 16"] isHex_zero
    by (simp_all add: hex_quad_def nibbles)
  have u: "string_text (0x5C # 0x75 # ?h @ t) (unat c # rs)"
    using string_text.unicode [OF h(1) _ assms(2)] c h(2) by (simp add: is_surrogate_def)
  have e: "simple_escape d = Some c \<Longrightarrow> string_text (0x5C # d # t) (unat c # rs)" for d
    by (rule string_text.escape [OF _ assms(2)])
  show ?thesis using u e [of "0x22"] e [of "0x5C"] e [of "0x62"] e [of "0x66"] e [of "0x6E"] e [of "0x72"] e [of "0x74"]
    by (simp add: escapeByte_def simple_escape_def)
qed

lemma separator_text:
  assumes "r = 0x2028 \<or> r = 0x2029" "string_text t rs"
  shows "string_text ((0x5C # ascii ''u202'') @ [encodeHexDigits ! (r mod 16)] @ t) (r # rs)"
proof -
  let ?h = "[0x32, 0x30, 0x32, encodeHexDigits ! (r mod 16)]"
  have "hex_quad ?h" "hexnum ?h = r" using assms(1) by (auto simp: hex_quad_def isHex_def hexval_def encodeHexDigits_def)
  then show ?thesis using string_text.unicode [OF _ _ assms(2), of ?h] assms(1) by (auto simp: is_surrogate_def)
qed

lemma encoded_rune_text:
  assumes "is_scalar r" "string_text t rs"
  shows "string_text (encoded_rune html sep r @ t) (r # rs)"
proof (cases "r < 0x80 \<and> escaped_byte html (of_nat r)")
  case True
  then have "(of_nat r :: byte) < 0x80" "unat (of_nat r :: byte) = r" by (simp_all add: word_less_nat_alt)
  then show ?thesis using escapeByte_text [OF _ assms(2), of "of_nat r"] True by (simp add: encoded_rune_def)
next
  case False
  show ?thesis
  proof (cases "sep \<and> (r = 0x2028 \<or> r = 0x2029)")
    case True
    then have "encoded_rune html sep r = (0x5C # ascii ''u202'') @ [encodeHexDigits ! (r mod 16)]"
      using False by (simp only: encoded_rune_def if_False simp_thms if_True)
    then show ?thesis using separator_text [OF conjunct2 [OF True] assms(2)] by simp
  next
    case plain: False
    have er: "encoded_rune html sep r = encodeRune r" using False plain by (simp only: encoded_rune_def if_False)
    have "0x20 \<le> r \<and> r \<noteq> 0x22 \<and> r \<noteq> 0x5C"
    proof (cases "r < 0x80")
      case True
      then have "\<not> escaped_byte html (of_nat r)" using False by simp
      then show ?thesis using True
        by (auto simp: escaped_byte_def is_html_syntax_byte_def is_syntax_byte_def word_less_nat_alt split: if_splits)
    qed simp
    then show ?thesis using string_text.plain [OF assms(1) _ _ _ assms(2)] er by simp
  qed
qed

lemma replacement_text: "string_text t rs \<Longrightarrow> string_text (replacement escInv @ t) (RuneError # rs)"
proof -
  assume t: "string_text t rs"
  let ?h = "ascii ''fffd''"
  have "hex_quad ?h" "hexnum ?h = RuneError" by (simp_all add: hex_quad_def isHex_def hexval_def RuneError_def)
  then have "string_text (0x5C # 0x75 # ?h @ t) (RuneError # rs)"
    using string_text.unicode [OF _ _ t, of ?h] by (simp add: is_surrogate_def RuneError_def)
  moreover have "string_text (encodeRune RuneError @ t) (RuneError # rs)"
    using string_text.plain [OF _ _ _ _ t, of RuneError] by (simp add: RuneError_def is_scalar_def is_surrogate_def)
  ultimately show ?thesis by (simp add: replacement_def)
qed

lemma encoded_text: "string_text (encoded escInv html sep s) (map fst (scalars s))"
proof (induction s rule: scalars.induct)
  case (1 s)
  show ?case
  proof (cases "s = []")
    case True
    then show ?thesis by (simp add: scalars.simps string_text.empty)
  next
    case False
    obtain r n where d: "decodeRune s = (r, n)" by (cases "decodeRune s")
    have ih: "string_text (encoded escInv html sep (drop n s)) (map fst (scalars (drop n s)))"
      using 1 [OF False d [symmetric]] .
    have eq: "map fst (scalars s) = r # map fst (scalars (drop n s))"
      using False d by (simp add: scalars.simps [of s])
    show ?thesis
    proof (cases "r = RuneError \<and> n = 1")
      case True
      then show ?thesis unfolding eq encoded_step [OF False d] using replacement_text [OF ih] by simp
    next
      case bad: False
      then have "is_scalar r" using decodeRune_accepts [OF d False bad] by blast
      then show ?thesis unfolding eq encoded_step [OF False d] if_not_P [OF bad] using encoded_rune_text ih by blast
    qed
  qed
qed

lemma utf8_scalars: "utf8_valid s \<Longrightarrow> utf8 (map fst (scalars s)) = s"
proof (induction s rule: utf8_valid.induct)
  case (1 s)
  show ?case
  proof (cases "s = []")
    case True
    then show ?thesis by (simp add: scalars.simps)
  next
    case False
    obtain r n where d: "decodeRune s = (r, n)" by (cases "decodeRune s")
    have ok: "\<not> (r = RuneError \<and> n = 1)" and v: "utf8_valid (drop n s)"
      using 1(2) False d by (subst (asm) utf8_valid.simps; simp split: if_splits)+
    have "utf8 (map fst (scalars s)) = encodeRune r @ utf8 (map fst (scalars (drop n s)))"
      using False d by (simp add: scalars.simps [of s])
    then show ?thesis using 1(1) [OF False _ d [symmetric] ok v] decodeRune_accepts [OF d False ok] d by metis
  qed
qed

section \<open>Properties\<close>


text \<open>C24. Encoding and decoding are inverse: decoding the inside of the literal that either encoder writes for a valid UTF-8 string appends that string.\<close>

theorem encode_decode_roundtrip:
  assumes "utf8_valid s" "appendEncodedJSONString escInv overlap dst spare s html = dst @ 0x22 # k @ [0x22]"
    "appendJSONStringBytes dst s = dst @ 0x22 # k' @ [0x22]"
  shows "appendDecodedJSONString out k = out @ s \<and> appendDecodedJSONString out k' = out @ s"
proof -
  have "k = encoded escInv html True s" using assms(2) by (simp add: appendEncodedJSONString_eq)
  moreover have "k' = encoded True False False s"
    using assms(3) jsonStringLoop_correct [of 0 0 s "dst @ [0x22]"] by (simp add: appendJSONStringBytes_def)
  moreover have "appendDecodedJSONString out (encoded e h p s) = out @ s" for e h p
    using decodeLoop_correct [OF encoded_text, of "encoded e h p s" 0] utf8_scalars [OF assms(1)]
    by (simp add: appendDecodedJSONString_def at_def)
  ultimately show ?thesis by simp
qed

theorem encode_decode_roundtrip_witness:
  "appendDecodedJSONString [0x41] (0x5C # ascii ''u003c'') = [0x41] @ ascii ''<'' \<and>
   appendDecodedJSONString [0x41] (ascii ''<'') = [0x41] @ ascii ''<''"
proof (rule encode_decode_roundtrip [where s = "ascii ''<''" and dst = "[]" and spare = "[]" and escInv = True and overlap = False and html = True])
  show "utf8_valid (ascii ''<'')" by (simp add: utf8_valid_ascii utf8_valid.simps [of "[]"])
  have "encoded True True True (ascii ''<'') = 0x5C # ascii ''u003c''" "encoded True False False (ascii ''<'') = ascii ''<''"
    by (simp_all add: encoded_ascii escaped_byte_def is_html_syntax_byte_def is_syntax_byte_def escapeByte_def
        encodeHexDigits_def nibbles)
  then show "appendEncodedJSONString True False [] [] (ascii ''<'') True = [] @ 0x22 # (0x5C # ascii ''u003c'') @ [0x22]"
    "appendJSONStringBytes [] (ascii ''<'') = [] @ 0x22 # ascii ''<'' @ [0x22]"
    using jsonStringLoop_correct [of 0 0 "ascii ''<''" "[0x22]"]
    by (simp_all add: appendEncodedJSONString_eq appendJSONStringBytes_def)
qed

text \<open>\<^verbatim>\<open>appendDecodedJSONString\<close> decodes every valid literal: on the inside of a JSON string it appends the UTF-8 form of exactly the code points the grammar gives it, simple escapes, \<^verbatim>\<open>\u\<close> escapes and surrogate pairs included.\<close>

theorem appendDecodedJSONString_correct:
  assumes "string_text raw rs"
  shows "appendDecodedJSONString dst raw = dst @ utf8 rs"
  using decodeLoop_correct [OF assms, of raw 0] by (simp add: appendDecodedJSONString_def at_def)

theorem appendDecodedJSONString_correct_witness:
  "appendDecodedJSONString [] (0x5C # 0x75 # ascii ''d83d'' @ 0x5C # 0x75 # ascii ''de00'') = [0xF0, 0x9F, 0x98, 0x80]"
proof -
  have "string_text (0x5C # 0x75 # ascii ''d83d'' @ 0x5C # 0x75 # ascii ''de00'' @ [])
      [utf16_decode (hexnum (ascii ''d83d'')) (hexnum (ascii ''de00''))]"
    by (rule string_text.surrogates) (simp_all add: hex_quad_def isHex_def hexval_def string_text.empty)
  from appendDecodedJSONString_correct [OF this, of "[]"] show ?thesis
    by (simp add: hexval_def utf16_decode_def encodeRune_def encodeScalar_def is_scalar_def is_surrogate_def)
qed

end
