(* ===== verification/TapeProps.thy ===== *)
theory TapeProps
  imports TapeRoom EncodeStringCorrect
begin

text \<open>
  What the index builders promise as a whole: the router above them, the capacity that \<^verbatim>\<open>RequiredIndexEntries\<close> reports and
  the key hashes that enrichment stores.
\<close>

section \<open>Key hashes\<close>

text \<open>The four cases of \<^verbatim>\<open>hashKeyContent\<close> up to eight bytes mix the zero-padded little-endian word of the content.\<close>

lemma hashKeyContent_short:
  assumes "length s \<le> 8"
  shows "hashKeyContent s = keyHashFinish (keyHashMix (keyHashInit (length s)) (le_word s))"
proof -
  consider "length s = 8" | "4 \<le> length s" "length s < 8" | "s = []" | a where "s = [a]" | a b where "s = [a, b]" | a b c where "s = [a, b, c]"
    using assms by (cases s; cases "tl s"; cases "tl (tl s)"; cases "tl (tl (tl s))") fastforce+
  then show ?thesis
  proof cases
    case 1
    then have "load64 s 0 = le_word s" by (simp add: load64_def get_bytes_def)
    then show ?thesis using 1 by (simp add: hashKeyContent_def keyHashChunks.simps)
  next
    case 2
    have "ucast (loadUint32LE s 0) OR push_bit (8 * (length s - 4)) (ucast (loadUint32LE s (length s - 4))) = (le_word s :: u64)"
    proof (rule bit_word_eqI)
      fix m assume m: "m < LENGTH(64)"
      have "bit (le_word s :: u64) m \<longleftrightarrow> m < 8 * length s \<and> bit (s ! (m div 8)) (m mod 8)" using m by (simp add: bit_le_word)
      then show "bit (ucast (loadUint32LE s 0) OR push_bit (8 * (length s - 4)) (ucast (loadUint32LE s (length s - 4))) :: u64) m =
          bit (le_word s :: u64) m"
        using bit_low_load [of 4 s m, where 'a = 32] bit_shifted_load [of 4 s m, where 'a = 32] m 2
        by (auto simp: bit_or_iff loadUint32LE_def mult.commute)
    qed
    then show ?thesis using 2 by (simp add: hashKeyContent_def Let_def)
  qed (simp_all add: hashKeyContent_def Let_def push_bit_or or.assoc)
qed

lemma hashKeyContentWord_eq:
  assumes "n \<le> 8" "i + 8 \<le> length src"
  shows "hashKeyContentWord (load64 src i) n = hashKeyContent (segment src i (i + n))"
proof -
  let ?s = "segment src i (i + n)"
  have l: "length ?s = n" using assms by (simp add: segment_def)
  have "load64 src i AND drop_bit (8 * (8 - n)) (NOT 0) = le_word ?s"
  proof (rule bit_word_eqI)
    fix m assume m: "m < LENGTH(64)"
    have "m < 8 * n \<Longrightarrow> ?s ! (m div 8) = src ! (i + m div 8)" using assms by (simp add: segment_def)
    then show "bit (load64 src i AND drop_bit (8 * (8 - n)) (NOT 0)) m = bit (le_word ?s :: u64) m"
      using m assms l by (auto simp: bit_and_iff bit_drop_bit_eq bit_not_iff load64_def bit_le_word get_bytes_nth bit_mask_iff)
  qed
  then show ?thesis using hashKeyContent_short [of ?s] l assms(1) by (simp add: hashKeyContentWord_def)
qed

lemma enrich_key:
  assumes "string_at src i j rs" "length src < 2 ^ 32"
  shows "e_next (enrichEntry src (keyEntry src i j)) = hashKeyString (segment src (i + 1) (j - 1))"
proof -
  let ?e = "keyEntry src i j"
  have ij: "i + 1 < j" "j \<le> length src" using assms(1) by (auto simp: string_at_def)
  have f: "tapeFlagKey OR escaped_flag src i j < 8" "(tapeFlagKey OR escaped_flag src i j) AND tapeFlagKey \<noteq> 0"
    by (simp_all add: escaped_flag_def tapeFlagKey_def tapeFlagEscaped_def)
  have fl: "entryFlags ?e AND tapeFlagKey \<noteq> 0"
    using packInfo_parts(3) [of ?e 0 KString "tapeFlagKey OR escaped_flag src i j"] f by (simp add: scalarEntry_def)
  have u: "unat (of_nat i :: u32) = i" "unat (of_nat j :: u32) = j" using ij assms(2) by (simp_all add: unat_of_nat)
  then have d: "unat (of_nat j - of_nat i :: u32) = j - i" using ij by (simp add: unat_sub word_le_nat_alt)
  have e: "i + 1 + (j - i - 2) = j - 1" using ij by simp
  show ?thesis
    using fl u d hashKeyContentWord_eq [of "j - i - 2" "i + 1" src, unfolded e]
    by (simp add: enrichEntry_def scalarEntry_def hashKeyString_def Let_def)
qed

section \<open>Capacity\<close>

lemma required_entries:
  assumes "document_text v src" "jdepth v \<le> defaultMaxDepth"
  shows "RequiredIndexEntries src = Some (Inr (tapeSize v))"
proof -
  have "effectiveDepth (int defaultMaxDepth) = defaultMaxDepth" by (simp add: effectiveDepth_def defaultMaxDepth_def)
  then show ?thesis
    using countLayout_counts [OF assms(1), of "int defaultMaxDepth"] assms(2) by (auto simp: RequiredIndexEntries_def tapeSize_def)
qed

section \<open>The router\<close>

lemma portable_iff:
  assumes "cap < 2 ^ 32"
  shows "buildIndexPortable swar src cap m = Inr es \<longleftrightarrow> (\<exists>v. document_tape src v es \<and> jdepth v \<le> m \<and> length es \<le> cap)"
proof -
  obtain st ts where r: "parseFast src cap m = (st, ts)" by (cases "parseFast src cap m")
  have b: "buildIndexPortable swar src cap m =
    (case st of tapeParseOK \<Rightarrow> Inr ts | tapeParseFull \<Rightarrow> Inl ErrIndexFull
     | tapeParseInvalid \<Rightarrow> map_sum id b_entries (tapeParse src cap m))"
    using r by (auto simp: buildIndexPortable_def parseFastSWAR_eq split: tapeParseStatus.split sum.split)
  have w: "walkDepth m \<le> m" by (simp add: walkDepth_def)
  show ?thesis
  proof
    assume "buildIndexPortable swar src cap m = Inr es"
    then consider "st = tapeParseOK" "ts = es" | y where "tapeParse src cap m = Inr y" "b_entries y = es"
      unfolding b by (cases st; cases "tapeParse src cap m") auto
    then show "\<exists>v. document_tape src v es \<and> jdepth v \<le> m \<and> length es \<le> cap"
      using assms r w parseFast_sound [of src cap m es] tapeParse_sound [of src cap m] by cases (auto intro: order_trans)
  next
    assume "\<exists>v. document_tape src v es \<and> jdepth v \<le> m \<and> length es \<le> cap"
    then obtain v where v: "document_tape src v es" "jdepth v \<le> m" "length es \<le> cap" by blast
    show "buildIndexPortable swar src cap m = Inr es"
      unfolding b using parseFast_complete [OF v(1,3), of m] tapeParse_complete [OF v(1,3,2)] r assms by (auto split: if_splits)
  qed
qed

lemma built_iff:
  assumes "\<not> bitmapSees src (effectiveDepth depth) \<or> positions src cap = None" "length src < 2 ^ 32" "cap < 2 ^ 32"
  shows "buildIndexOptions positions mode src cap depth False = Inr es \<longleftrightarrow>
    (\<exists>v. document_tape src v es \<and> jdepth v \<le> effectiveDepth depth \<and> length es \<le> cap)"
proof -
  have e: "(case r of Inl e \<Rightarrow> Inl e | Inr es \<Rightarrow> Inr es) = r" for r :: "buildError + IndexEntry list" by (cases r) simp_all
  have "\<exists>sw. buildIndexOptions positions mode src cap depth False = buildIndexPortable sw src cap (effectiveDepth depth)"
    using assms by (auto simp: buildIndexOptions_def Let_def e)
  then show ?thesis using portable_iff [OF assms(3)] by metis
qed

section \<open>Properties\<close>

text \<open>C2. On every document that the bitmap engine does not see or declines, \<^verbatim>\<open>buildIndexOptions\<close> succeeds exactly when the source is one document within the depth limit whose tape fits the capacity, and the entries are that tape: neither the fast walk with its own depth bound, nor the choice of the number scanner, nor the diagnostic builder behind them changes the answer.\<close>

theorem buildIndexOptions_correct:
  assumes "\<not> bitmapSees src (effectiveDepth depth) \<or> positions src cap = None" "length src < 2 ^ 32" "cap < 2 ^ 32"
  shows "buildIndexOptions positions mode src cap depth False = Inr es \<longleftrightarrow>
    (\<exists>v. document_tape src v es \<and> jdepth v \<le> effectiveDepth depth \<and> length es \<le> cap)"
  using assms by (rule built_iff)

theorem buildIndexOptions_correct_witness:
  "buildIndexOptions (\<lambda>_ _. None) (\<lambda>_. False) (ascii ''[]'') 1 0 False = Inr [containerEntry 0 2 KArray 0 1]"
proof -
  let ?src = "ascii ''[]''"
  have "value_tape ?src 0 (JArray []) (1 + 1) [containerEntry 0 (1 + 1) KArray 0 1]"
    by (rule t_array_empty) (simp_all add: byte_at_def gap_def)
  then have "document_tape ?src (JArray []) [containerEntry 0 2 KArray 0 1]"
    unfolding document_tape_def by (intro exI [of _ 0] exI [of _ 2]) (simp add: gap_def numeral_2_eq_2)
  then show ?thesis
    using buildIndexOptions_correct [of ?src 0 "\<lambda>_ _. None" 1 "\<lambda>_. False" "[containerEntry 0 2 KArray 0 1]"]
    by (auto simp: effectiveDepth_def defaultMaxDepth_def intro!: exI [of _ "JArray []"])
qed



text \<open>Enrichment stores for every key of a document the hash of the bytes between its quotes, as \<^verbatim>\<open>hashKeyString\<close> computes it for a query, whether the key was hashed from one register load or from its slice.\<close>

theorem stored_key_hash:
  assumes "string_at src i j rs" "length src < 2 ^ 32"
  shows "e_next (enrichEntry src (scalarEntry i j KString (tapeFlagKey OR escaped_flag src i j))) = hashKeyString (segment src (i + 1) (j - 1))"
  using assms by (rule enrich_key)

theorem stored_key_hash_witness:
  "e_next (enrichEntry (ascii ''{'' @ [0x22, 0x61, 0x22] @ ascii '':1}'') (scalarEntry 1 4 KString
     (tapeFlagKey OR escaped_flag (ascii ''{'' @ [0x22, 0x61, 0x22] @ ascii '':1}'') 1 4))) = hashKeyString (ascii ''a'')"
proof -
  let ?src = "ascii ''{'' @ [0x22, 0x61, 0x22] @ ascii '':1}''"
  have "string_text (encodeRune 0x61 @ []) [0x61]" by (intro plain empty) (simp_all add: is_scalar_def is_surrogate_def)
  then have "string_at ?src 1 4 [0x61]" by (simp add: string_at_def segment_def encodeRune_def encodeScalar_def is_scalar_def is_surrogate_def)
  from stored_key_hash [OF this] show ?thesis by (simp add: segment_def)
qed

end
