(* ===== verification/Transforms.thy ===== *)
theory Transforms
  imports Validator
begin

text \<open>
  The transforms of \<^verbatim>\<open>compact.go\<close> and \<^verbatim>\<open>indent.go\<close>: validating recursive descents that write every
  accepted token to a destination buffer. The structs are records; a failing step is \<open>Inl e\<close> and drops
  the parser, as its only observer truncates the buffer to its old length on error. The descents take
  fuel as the validator does (\<open>None\<close> is out of fuel).
\<close>

section \<open>Token copies shared by both transforms (compact.go)\<close>

text \<open>The loop of \<^verbatim>\<open>appendJSONStringToken\<close> after the opening quote: the cursor it returns and the error,
  if any.\<close>

function stringTokenLoop :: "bytes \<Rightarrow> nat \<Rightarrow> nat \<times> SyntaxError option" where
  "stringTokenLoop src i =
     (let j = scanStringSpecialScalar src i in
      if j \<ge> length src
      then (length src, Some (syntaxError src (int (length src)) UnterminatedString))
      else let ch = src ! j in
      if ch = 0x22 then (j + 1, None)
      else if ch = 0x5C then
        (if j + 1 \<ge> length src then (j + 1, Some (syntaxError src (int (j + 1)) UnterminatedEscape))
         else case validateEscape src (j + 1) of
           Inl e \<Rightarrow> (j + 1, Some e)
         | Inr i' \<Rightarrow> stringTokenLoop src i')
      else if ch < 0x20 then (j, Some (syntaxError src (int j) ControlByte))
      else case scanStringUnicodeRun src j of
        (_, Some bad) \<Rightarrow> (bad, Some (syntaxError src (int bad) InvalidUTF8))
      | (next, None) \<Rightarrow> stringTokenLoop src next)"
  by pat_completeness auto
termination
proof (relation "measure (\<lambda>(src, i). length src - i)")
  fix src :: bytes and i j i' :: nat and ch
  assume a: "j = scanStringSpecialScalar src i" "\<not> j \<ge> length src"
    "validateEscape src (j + 1) = Inr i'"
  then have "i \<le> j" "j + 1 < i'"
    using scanStringSpecialScalar_ge(1) [of src i] validateEscape_progress by auto
  then show "((src, i'), (src, i)) \<in> measure (\<lambda>(src, i). length src - i)" using a(2) by simp
next
  fix src :: bytes and i j n n' :: nat and ch z b
  assume a: "j = scanStringSpecialScalar src i" "\<not> j \<ge> length src"
    "ch = src ! j" "ch \<noteq> 0x22" "ch \<noteq> 0x5C" "\<not> ch < 0x20"
    "(n, b) = scanStringUnicodeRun src j" "b = None"
  then have "i \<le> j" "0x80 \<le> src ! j"
    using scanStringSpecialScalar_ge [of src i] by (auto simp: is_special_byte_def)
  then have "j < n" using a(2,7,8) scanStringUnicodeRun_progress [of src j n] by simp
  then show "((src, n), (src, i)) \<in> measure (\<lambda>(src, i). length src - i)"
    using a(2) \<open>i \<le> j\<close> by simp
qed simp

declare stringTokenLoop.simps [simp del]

definition appendJSONStringToken :: "bytes \<Rightarrow> bytes \<Rightarrow> nat \<Rightarrow> bytes \<times> nat \<times> SyntaxError option" where
  "appendJSONStringToken dst src i =
     (case stringTokenLoop src (i + 1) of
        (j, Some e) \<Rightarrow> (dst, j, Some e)
      | (j, None) \<Rightarrow> (dst @ segment src i j, j, None))"

definition appendJSONNumberToken ::
  "bytes \<Rightarrow> bytes \<Rightarrow> nat \<Rightarrow> nat \<Rightarrow> bytes \<times> nat \<times> SyntaxError option" where
  "appendJSONNumberToken dst src i maxDepth =
     (case parseNumber \<lparr>v_src = src, v_i = i, v_maxDepth = maxDepth, v_layout = None\<rparr> of
        Inl e \<Rightarrow> (dst, i, Some e)
      | Inr v \<Rightarrow> (dst @ segment src i (v_i v), v_i v, None))"

section \<open>Compaction\<close>

record compactParser =
  cp_src :: bytes
  cp_dst :: bytes
  cp_i :: nat
  cp_maxDepth :: nat

definition cp_skipSpace :: "compactParser \<Rightarrow> compactParser" where
  "cp_skipSpace c = c\<lparr>cp_i := skipSpace (cp_src c) (cp_i c)\<rparr>"

definition cp_err :: "compactParser \<Rightarrow> syntax_msg \<Rightarrow> SyntaxError" where
  "cp_err c msg = syntaxError (cp_src c) (int (cp_i c)) msg"

definition cp_at :: "compactParser \<Rightarrow> byte \<Rightarrow> bool" where
  "cp_at c b \<longleftrightarrow> cp_i c < length (cp_src c) \<and> cp_src c ! cp_i c = b"

text \<open>\<^verbatim>\<open>c.i++; c.dst = append(c.dst, b)\<close>.\<close>

definition cp_emit :: "byte \<Rightarrow> compactParser \<Rightarrow> compactParser" where
  "cp_emit b c = c\<lparr>cp_i := cp_i c + 1, cp_dst := cp_dst c @ [b]\<rparr>"

definition compactLiteral :: "bytes \<Rightarrow> compactParser \<Rightarrow> SyntaxError + compactParser" where
  "compactLiteral lit c =
     (if \<not> matchStringAt (cp_src c) (cp_i c) lit then Inl (cp_err c InvalidLiteral)
      else Inr (c\<lparr>cp_i := cp_i c + length lit, cp_dst := cp_dst c @ lit\<rparr>))"

definition compactNumber :: "compactParser \<Rightarrow> SyntaxError + compactParser" where
  "compactNumber c =
     (case appendJSONNumberToken (cp_dst c) (cp_src c) (cp_i c) (cp_maxDepth c) of
        (_, _, Some e) \<Rightarrow> Inl e
      | (dst, i, None) \<Rightarrow> Inr (c\<lparr>cp_dst := dst, cp_i := i\<rparr>))"

definition compactString :: "compactParser \<Rightarrow> SyntaxError + compactParser" where
  "compactString c =
     (case appendJSONStringToken (cp_dst c) (cp_src c) (cp_i c) of
        (_, _, Some e) \<Rightarrow> Inl e
      | (dst, i, None) \<Rightarrow> Inr (c\<lparr>cp_dst := dst, cp_i := i\<rparr>))"

text \<open>The loops of \<^verbatim>\<open>array\<close> and \<^verbatim>\<open>object\<close> take the value transform as an argument; \<open>compactValue\<close>
  closes the knot on its fuel.\<close>

fun compactElems ::
  "(nat \<Rightarrow> compactParser \<Rightarrow> (SyntaxError + compactParser) option) \<Rightarrow> nat \<Rightarrow> nat \<Rightarrow> compactParser
     \<Rightarrow> (SyntaxError + compactParser) option" where
  "compactElems cv 0 depth c = None"
| "compactElems cv (Suc n) depth c =
     (case cv depth (cp_skipSpace c) of
        None \<Rightarrow> None
      | Some (Inl e) \<Rightarrow> Some (Inl e)
      | Some (Inr c) \<Rightarrow>
          let c = cp_skipSpace c in
          if cp_i c \<ge> length (cp_src c) then Some (Inl (cp_err c UnterminatedArray))
          else if cp_src c ! cp_i c = 0x2C then compactElems cv n depth (cp_emit 0x2C c)
          else if cp_src c ! cp_i c = 0x5D then Some (Inr (cp_emit 0x5D c))
          else Some (Inl (cp_err c ExpectedCommaOrBracket)))"

definition compactArray ::
  "(nat \<Rightarrow> compactParser \<Rightarrow> (SyntaxError + compactParser) option) \<Rightarrow> nat \<Rightarrow> compactParser
     \<Rightarrow> (SyntaxError + compactParser) option" where
  "compactArray cv depth c =
     (if depth > cp_maxDepth c then Some (Inl (cp_err c MaxDepthExceeded))
      else let c = cp_skipSpace (cp_emit 0x5B c) in
        if cp_at c 0x5D then Some (Inr (cp_emit 0x5D c))
        else compactElems cv (length (cp_src c) + 1) depth c)"

fun compactMembers ::
  "(nat \<Rightarrow> compactParser \<Rightarrow> (SyntaxError + compactParser) option) \<Rightarrow> nat \<Rightarrow> nat \<Rightarrow> compactParser
     \<Rightarrow> (SyntaxError + compactParser) option" where
  "compactMembers cv 0 depth c = None"
| "compactMembers cv (Suc n) depth c =
     (let c = cp_skipSpace c in
      if \<not> cp_at c 0x22 then Some (Inl (cp_err c ExpectedKey))
      else case compactString c of
        Inl e \<Rightarrow> Some (Inl e)
      | Inr c \<Rightarrow>
          let c = cp_skipSpace c in
          if \<not> cp_at c 0x3A then Some (Inl (cp_err c ExpectedColon))
          else case cv depth (cp_skipSpace (cp_emit 0x3A c)) of
            None \<Rightarrow> None
          | Some (Inl e) \<Rightarrow> Some (Inl e)
          | Some (Inr c) \<Rightarrow>
              let c = cp_skipSpace c in
              if cp_i c \<ge> length (cp_src c) then Some (Inl (cp_err c UnterminatedObject))
              else if cp_src c ! cp_i c = 0x2C then compactMembers cv n depth (cp_emit 0x2C c)
              else if cp_src c ! cp_i c = 0x7D then Some (Inr (cp_emit 0x7D c))
              else Some (Inl (cp_err c ExpectedCommaOrBrace)))"

definition compactObject ::
  "(nat \<Rightarrow> compactParser \<Rightarrow> (SyntaxError + compactParser) option) \<Rightarrow> nat \<Rightarrow> compactParser
     \<Rightarrow> (SyntaxError + compactParser) option" where
  "compactObject cv depth c =
     (if depth > cp_maxDepth c then Some (Inl (cp_err c MaxDepthExceeded))
      else let c = cp_skipSpace (cp_emit 0x7B c) in
        if cp_at c 0x7D then Some (Inr (cp_emit 0x7D c))
        else compactMembers cv (length (cp_src c) + 1) depth c)"

fun compactValue :: "nat \<Rightarrow> nat \<Rightarrow> compactParser \<Rightarrow> (SyntaxError + compactParser) option" where
  "compactValue 0 depth c = None"
| "compactValue (Suc n) depth c =
     (if depth > cp_maxDepth c then Some (Inl (cp_err c MaxDepthExceeded))
      else if cp_i c \<ge> length (cp_src c) then Some (Inl (cp_err c ExpectedValue))
      else let b = cp_src c ! cp_i c in
        if b = 0x6E then Some (compactLiteral (ascii ''null'') c)
        else if b = 0x74 then Some (compactLiteral (ascii ''true'') c)
        else if b = 0x66 then Some (compactLiteral (ascii ''false'') c)
        else if b = 0x22 then Some (compactString c)
        else if b = 0x5B then compactArray (compactValue n) (depth + 1) c
        else if b = 0x7B then compactObject (compactValue n) (depth + 1) c
        else if b = 0x2D \<or> isDigit b then Some (compactNumber c)
        else Some (Inl (cp_err c UnexpectedValueByte)))"

declare compactValue.simps [simp del] compactElems.simps [simp del] compactMembers.simps [simp del]

text \<open>\<^verbatim>\<open>appendCompact\<close> with its shortcut for the three literals: the returned slice and error. Outer
  \<open>None\<close> is out of fuel.\<close>

definition appendCompact :: "bytes \<Rightarrow> bytes \<Rightarrow> int \<Rightarrow> (bytes \<times> SyntaxError option) option" where
  "appendCompact dst src maxDepth =
     (if length src = 4 \<and>
         (src ! 0 = 0x6E \<and> src ! 1 = 0x75 \<and> src ! 2 = 0x6C \<and> src ! 3 = 0x6C \<or>
          src ! 0 = 0x74 \<and> src ! 1 = 0x72 \<and> src ! 2 = 0x75 \<and> src ! 3 = 0x65)
      then Some (dst @ src, None)
      else if length src = 5 \<and> src ! 0 = 0x66 \<and> src ! 1 = 0x61 \<and> src ! 2 = 0x6C \<and>
         src ! 3 = 0x73 \<and> src ! 4 = 0x65
      then Some (dst @ src, None)
      else
        case compactValue (parseFuel src) 0
               (cp_skipSpace \<lparr>cp_src = src, cp_dst = dst, cp_i = 0, cp_maxDepth = effectiveDepth maxDepth\<rparr>) of
          None \<Rightarrow> None
        | Some (Inl e) \<Rightarrow> Some (dst, Some e)
        | Some (Inr c) \<Rightarrow>
            let c = cp_skipSpace c in
            if cp_i c \<noteq> length src then Some (dst, Some (cp_err c TrailingData))
            else Some (cp_dst c, None))"

definition AppendCompact :: "bytes \<Rightarrow> bytes \<Rightarrow> (bytes \<times> SyntaxError option) option" where
  "AppendCompact dst src = appendCompact dst src (int defaultMaxDepth)"

text \<open>\<^verbatim>\<open>Compact\<close> passes a nil destination (on error the result is nil, the empty slice here).\<close>

definition Compact :: "bytes \<Rightarrow> (bytes \<times> SyntaxError option) option" where
  "Compact src = AppendCompact [] src"

section \<open>Indentation (indent.go)\<close>

record indentParser =
  ip_src :: bytes
  ip_dst :: bytes
  ip_i :: nat
  ip_maxDepth :: nat
  ip_prefix :: bytes
  ip_indent :: bytes

definition ip_skipSpace :: "indentParser \<Rightarrow> indentParser" where
  "ip_skipSpace p = p\<lparr>ip_i := skipSpace (ip_src p) (ip_i p)\<rparr>"

definition ip_err :: "indentParser \<Rightarrow> syntax_msg \<Rightarrow> SyntaxError" where
  "ip_err p msg = syntaxError (ip_src p) (int (ip_i p)) msg"

definition ip_at :: "indentParser \<Rightarrow> byte \<Rightarrow> bool" where
  "ip_at p b \<longleftrightarrow> ip_i p < length (ip_src p) \<and> ip_src p ! ip_i p = b"

definition ip_advance :: "indentParser \<Rightarrow> indentParser" where
  "ip_advance p = p\<lparr>ip_i := ip_i p + 1\<rparr>"

definition ip_append :: "bytes \<Rightarrow> indentParser \<Rightarrow> indentParser" where
  "ip_append t p = p\<lparr>ip_dst := ip_dst p @ t\<rparr>"

fun appendCopies :: "nat \<Rightarrow> bytes \<Rightarrow> bytes \<Rightarrow> bytes" where
  "appendCopies 0 t dst = dst"
| "appendCopies (Suc k) t dst = appendCopies k t (dst @ t)"

definition newline :: "nat \<Rightarrow> indentParser \<Rightarrow> indentParser" where
  "newline depth p =
     (let p = ip_append [0x0A] p; p = ip_append (ip_prefix p) p
      in p\<lparr>ip_dst := appendCopies depth (ip_indent p) (ip_dst p)\<rparr>)"

definition indentLiteral :: "bytes \<Rightarrow> indentParser \<Rightarrow> SyntaxError + indentParser" where
  "indentLiteral lit p =
     (if \<not> matchStringAt (ip_src p) (ip_i p) lit then Inl (ip_err p InvalidLiteral)
      else Inr (p\<lparr>ip_i := ip_i p + length lit, ip_dst := ip_dst p @ lit\<rparr>))"

definition indentNumber :: "indentParser \<Rightarrow> SyntaxError + indentParser" where
  "indentNumber p =
     (case appendJSONNumberToken (ip_dst p) (ip_src p) (ip_i p) (ip_maxDepth p) of
        (_, _, Some e) \<Rightarrow> Inl e
      | (dst, i, None) \<Rightarrow> Inr (p\<lparr>ip_dst := dst, ip_i := i\<rparr>))"

definition indentString :: "indentParser \<Rightarrow> SyntaxError + indentParser" where
  "indentString p =
     (case appendJSONStringToken (ip_dst p) (ip_src p) (ip_i p) of
        (_, _, Some e) \<Rightarrow> Inl e
      | (dst, i, None) \<Rightarrow> Inr (p\<lparr>ip_dst := dst, ip_i := i\<rparr>))"

fun indentElems ::
  "(nat \<Rightarrow> indentParser \<Rightarrow> (SyntaxError + indentParser) option) \<Rightarrow> nat \<Rightarrow> nat \<Rightarrow> indentParser
     \<Rightarrow> (SyntaxError + indentParser) option" where
  "indentElems iv 0 depth p = None"
| "indentElems iv (Suc n) depth p =
     (case iv (depth + 1) (ip_skipSpace (newline (depth + 1) p)) of
        None \<Rightarrow> None
      | Some (Inl e) \<Rightarrow> Some (Inl e)
      | Some (Inr p) \<Rightarrow>
          let p = ip_skipSpace p in
          if ip_i p \<ge> length (ip_src p) then Some (Inl (ip_err p UnterminatedArray))
          else if ip_src p ! ip_i p = 0x2C then indentElems iv n depth (ip_append [0x2C] (ip_advance p))
          else if ip_src p ! ip_i p = 0x5D
          then Some (Inr (ip_append [0x5D] (newline depth (ip_advance p))))
          else Some (Inl (ip_err p ExpectedCommaOrBracket)))"

definition indentArray ::
  "(nat \<Rightarrow> indentParser \<Rightarrow> (SyntaxError + indentParser) option) \<Rightarrow> nat \<Rightarrow> indentParser
     \<Rightarrow> (SyntaxError + indentParser) option" where
  "indentArray iv depth p =
     (let p = ip_skipSpace (ip_append [0x5B] (ip_advance p)) in
      if ip_at p 0x5D then Some (Inr (ip_append [0x5D] (ip_advance p)))
      else indentElems iv (length (ip_src p) + 1) depth p)"

fun indentMembers ::
  "(nat \<Rightarrow> indentParser \<Rightarrow> (SyntaxError + indentParser) option) \<Rightarrow> nat \<Rightarrow> nat \<Rightarrow> indentParser
     \<Rightarrow> (SyntaxError + indentParser) option" where
  "indentMembers iv 0 depth p = None"
| "indentMembers iv (Suc n) depth p =
     (let p = ip_skipSpace (newline (depth + 1) p) in
      if \<not> ip_at p 0x22 then Some (Inl (ip_err p ExpectedKey))
      else case indentString p of
        Inl e \<Rightarrow> Some (Inl e)
      | Inr p \<Rightarrow>
          let p = ip_skipSpace p in
          if \<not> ip_at p 0x3A then Some (Inl (ip_err p ExpectedColon))
          else case iv (depth + 1) (ip_skipSpace (ip_append [0x3A, 0x20] (ip_advance p))) of
            None \<Rightarrow> None
          | Some (Inl e) \<Rightarrow> Some (Inl e)
          | Some (Inr p) \<Rightarrow>
              let p = ip_skipSpace p in
              if ip_i p \<ge> length (ip_src p) then Some (Inl (ip_err p UnterminatedObject))
              else if ip_src p ! ip_i p = 0x2C
              then indentMembers iv n depth (ip_append [0x2C] (ip_advance p))
              else if ip_src p ! ip_i p = 0x7D
              then Some (Inr (ip_append [0x7D] (newline depth (ip_advance p))))
              else Some (Inl (ip_err p ExpectedCommaOrBrace)))"

definition indentObject ::
  "(nat \<Rightarrow> indentParser \<Rightarrow> (SyntaxError + indentParser) option) \<Rightarrow> nat \<Rightarrow> indentParser
     \<Rightarrow> (SyntaxError + indentParser) option" where
  "indentObject iv depth p =
     (let p = ip_skipSpace (ip_append [0x7B] (ip_advance p)) in
      if ip_at p 0x7D then Some (Inr (ip_append [0x7D] (ip_advance p)))
      else indentMembers iv (length (ip_src p) + 1) depth p)"

fun indentValue :: "nat \<Rightarrow> nat \<Rightarrow> indentParser \<Rightarrow> (SyntaxError + indentParser) option" where
  "indentValue 0 depth p = None"
| "indentValue (Suc n) depth p =
     (if depth > ip_maxDepth p then Some (Inl (ip_err p MaxDepthExceeded))
      else if ip_i p \<ge> length (ip_src p) then Some (Inl (ip_err p ExpectedValue))
      else let b = ip_src p ! ip_i p in
        if b = 0x6E then Some (indentLiteral (ascii ''null'') p)
        else if b = 0x74 then Some (indentLiteral (ascii ''true'') p)
        else if b = 0x66 then Some (indentLiteral (ascii ''false'') p)
        else if b = 0x22 then Some (indentString p)
        else if b = 0x5B then indentArray (indentValue n) depth p
        else if b = 0x7B then indentObject (indentValue n) depth p
        else if b = 0x2D \<or> isDigit b then Some (indentNumber p)
        else Some (Inl (ip_err p UnexpectedValueByte)))"

declare indentValue.simps [simp del] indentElems.simps [simp del] indentMembers.simps [simp del]

definition appendIndentBytes ::
  "bytes \<Rightarrow> bytes \<Rightarrow> bytes \<Rightarrow> bytes \<Rightarrow> int \<Rightarrow> (bytes \<times> SyntaxError option) option" where
  "appendIndentBytes dst src prefix indent maxDepth =
     (case indentValue (parseFuel src) 0
             (ip_skipSpace \<lparr>ip_src = src, ip_dst = dst, ip_i = 0, ip_maxDepth = effectiveDepth maxDepth,
                            ip_prefix = prefix, ip_indent = indent\<rparr>) of
        None \<Rightarrow> None
      | Some (Inl e) \<Rightarrow> Some (dst, Some e)
      | Some (Inr p) \<Rightarrow>
          let p = ip_skipSpace p in
          if ip_i p \<noteq> length src then Some (dst, Some (ip_err p TrailingData))
          else Some (ip_dst p, None))"

definition AppendIndent :: "bytes \<Rightarrow> bytes \<Rightarrow> bytes \<Rightarrow> bytes \<Rightarrow> (bytes \<times> SyntaxError option) option" where
  "AppendIndent dst src prefix indent = appendIndentBytes dst src prefix indent (int defaultMaxDepth)"

definition Indent :: "bytes \<Rightarrow> bytes \<Rightarrow> bytes \<Rightarrow> (bytes \<times> SyntaxError option) option" where
  "Indent src prefix indent = AppendIndent [] src prefix indent"

end
