(* ===== verification/JsonLex.thy ===== *)
theory JsonLex
  imports ValidatorParse
begin

text \<open>
  The specification of the two text transforms as one-pass lexical functions that know nothing of the
  grammar: \<open>strip\<close> deletes the white space outside string literals and \<open>reflow\<close> lays a stripped text
  out over lines. Both preserve the document a text denotes; the transforms of \<^verbatim>\<open>compact.go\<close> and
  \<^verbatim>\<open>indent.go\<close> are proved equal to them on every accepted input.
\<close>

section \<open>Deleting insignificant white space\<close>

datatype lexmode = Outside | Inside | Escaped

fun lex_step :: "lexmode \<Rightarrow> byte \<Rightarrow> lexmode" where
  "lex_step Outside c = (if c = 0x22 then Inside else Outside)"
| "lex_step Inside c = (if c = 0x22 then Outside else if c = 0x5C then Escaped else Inside)"
| "lex_step Escaped c = Inside"

fun strip_mode :: "lexmode \<Rightarrow> bytes \<Rightarrow> bytes" where
  "strip_mode m [] = []"
| "strip_mode m (c # cs) =
     (if m = Outside \<and> isJSONWhitespace c then strip_mode m cs
      else c # strip_mode (lex_step m c) cs)"

abbreviation strip :: "bytes \<Rightarrow> bytes" where
  "strip \<equiv> strip_mode Outside"

text \<open>\<open>lexed s t\<close>: \<open>s\<close> begins and ends outside a string literal and strips to \<open>t\<close>.\<close>

definition lexed :: "bytes \<Rightarrow> bytes \<Rightarrow> bool" where
  "lexed s t \<longleftrightarrow> (\<forall>rest. strip (s @ rest) = t @ strip rest)"

lemma lexedD: "lexed s t \<Longrightarrow> strip s = t"
  unfolding lexed_def by (drule spec [of _ "[]"]) simp

lemma lexed_append: "lexed a b \<Longrightarrow> lexed c d \<Longrightarrow> lexed (a @ c) (b @ d)"
  by (simp add: lexed_def)

lemma lexed_Nil [simp]: "lexed [] []"
  by (simp add: lexed_def)

lemma lexed_ws: "ws w \<Longrightarrow> lexed w []"
  by (induction w) (simp_all add: lexed_def)

lemma lexed_Cons:
  "\<not> isJSONWhitespace c \<Longrightarrow> c \<noteq> 0x22 \<Longrightarrow> lexed s t \<Longrightarrow> lexed (c # s) (c # t)"
  by (simp add: lexed_def)

lemma strip_strip: "strip_mode m (strip_mode m s) = strip_mode m s"
  by (induction m s rule: strip_mode.induct) auto

definition is_structural :: "byte \<Rightarrow> bool" where
  "is_structural c \<longleftrightarrow> c = 0x5B \<or> c = 0x5D \<or> c = 0x7B \<or> c = 0x7D \<or> c = 0x2C \<or> c = 0x3A"

text \<open>Token bytes: neither white space nor a quote nor structural.\<close>

definition is_token_byte :: "byte \<Rightarrow> bool" where
  "is_token_byte c \<longleftrightarrow> \<not> isJSONWhitespace c \<and> c \<noteq> 0x22 \<and> \<not> is_structural c"

lemma lexed_token: "\<forall>c \<in> set t. is_token_byte c \<Longrightarrow> lexed t t"
  by (induction t) (auto simp: is_token_byte_def intro: lexed_Cons)

lemma structural_lexed: "is_structural c \<Longrightarrow> lexed [c] [c]"
  by (rule lexed_Cons) (auto simp: is_structural_def isJSONWhitespace_def)

lemma digit_token: "isDigit c \<Longrightarrow> is_token_byte c"
  by (auto simp: isDigit_def is_token_byte_def is_structural_def isJSONWhitespace_def)

lemma number_text_token:
  assumes "number_text t"
  shows "\<forall>c \<in> set t. is_token_byte c"
proof -
  have other: "c = 0x2D \<or> c = 0x2B \<or> c = 0x2E \<or> c = 0x65 \<or> c = 0x45 \<Longrightarrow> is_token_byte c" for c
    by (auto simp: is_token_byte_def is_structural_def isJSONWhitespace_def)
  have ds: "digits u \<Longrightarrow> \<forall>c \<in> set u. is_token_byte c" for u
    by (simp add: digits_def digit_token)
  have "int_text n \<Longrightarrow> \<forall>c \<in> set n. is_token_byte c" for n
    using ds isOneNine_isDigit by (auto simp: int_text_def digit_token isDigit_def)
  moreover have "frac_text n \<Longrightarrow> \<forall>c \<in> set n. is_token_byte c" for n
    using ds other by (auto simp: frac_text_def)
  moreover have "exp_text n \<Longrightarrow> \<forall>c \<in> set n. is_token_byte c" for n
    using ds other by (auto simp: exp_text_def)
  ultimately show ?thesis using assms other unfolding number_text_def by fastforce
qed

lemma literal_token:
  "\<forall>c \<in> set (ascii ''null''). is_token_byte c" "\<forall>c \<in> set (ascii ''true''). is_token_byte c"
  "\<forall>c \<in> set (ascii ''false''). is_token_byte c"
  by (simp_all add: is_token_byte_def is_structural_def isJSONWhitespace_def)


lemma strip_inside:
  "\<forall>c \<in> set k. c \<noteq> 0x22 \<and> c \<noteq> 0x5C \<Longrightarrow> strip_mode Inside (k @ rest) = k @ strip_mode Inside rest"
  by (induction k) simp_all

lemma hex_quad_inside: "hex_quad h \<Longrightarrow> \<forall>c \<in> set h. c \<noteq> 0x22 \<and> c \<noteq> 0x5C"
  by (auto simp: hex_quad_def isHex_def)

lemma encodeRune_inside:
  assumes "is_scalar r" "0x20 \<le> r" "r \<noteq> 0x22" "r \<noteq> 0x5C"
  shows "\<forall>c \<in> set (encodeRune r). c \<noteq> 0x22 \<and> c \<noteq> 0x5C"
  using encodeRune_no_syntax [OF assms] by (auto simp: is_syntax_byte_def)

lemma string_text_inside:
  "string_text k rs \<Longrightarrow> strip_mode Inside (k @ rest) = k @ strip_mode Inside rest"
proof (induction rule: string_text.induct)
  case (escape c d t rs)
  then show ?case by (auto simp: simple_escape_def split: if_splits)
qed (simp_all add: strip_inside [OF hex_quad_inside] strip_inside [OF encodeRune_inside])

lemma string_lexed: "string_text k rs \<Longrightarrow> lexed (0x22 # k @ [0x22]) (0x22 # k @ [0x22])"
  by (simp add: lexed_def string_text_inside isJSONWhitespace_def)

end
