(* ===== verification/JsonLayout.thy ===== *)
theory JsonLayout
  imports JsonLex
begin

text \<open>
  The line layout of a stripped text as a lexical function, and the proof that stripping and laying
  out preserve the document: what a JSON text denotes is denoted by its stripped form and, when prefix
  and indent are white space, by the laid-out form, which strips back to the same bytes.
\<close>

section \<open>Laying out over lines\<close>

definition line_break :: "bytes \<Rightarrow> bytes \<Rightarrow> nat \<Rightarrow> bytes" where
  "line_break prefix indent depth = 0x0A # prefix @ concat (replicate depth indent)"

definition opens :: "byte \<Rightarrow> bool" where
  "opens c \<longleftrightarrow> c = 0x5B \<or> c = 0x7B"

definition closes :: "byte \<Rightarrow> bool" where
  "closes c \<longleftrightarrow> c = 0x5D \<or> c = 0x7D"

text \<open>An opening bracket breaks the line unless its container is empty, a comma breaks it, a colon is
  followed by one space, and a closing bracket that does not follow its opener is on its own line.\<close>

fun reflow :: "bytes \<Rightarrow> bytes \<Rightarrow> lexmode \<Rightarrow> nat \<Rightarrow> bytes \<Rightarrow> bytes" where
  "reflow p q m d [] = []"
| "reflow p q m d [c] =
     (if m = Outside \<and> closes c then line_break p q (d - 1) @ [c] else [c])"
| "reflow p q m d (c # x # cs) =
     (if m \<noteq> Outside then c # reflow p q (lex_step m c) d (x # cs)
      else if opens c then
        (if closes x then c # x # reflow p q Outside d cs
         else c # line_break p q (d + 1) @ reflow p q Outside (d + 1) (x # cs))
      else if closes c then line_break p q (d - 1) @ c # reflow p q Outside (d - 1) (x # cs)
      else if c = 0x2C then c # line_break p q d @ reflow p q Outside d (x # cs)
      else if c = 0x3A then c # 0x20 # reflow p q Outside d (x # cs)
      else c # reflow p q (lex_step m c) d (x # cs))"

lemma ws_line_break: "ws p \<Longrightarrow> ws q \<Longrightarrow> ws (line_break p q d)"
proof -
  assume "ws p" "ws q"
  moreover from this have "ws (concat (replicate d q))" by (induction d) simp_all
  ultimately show ?thesis by (simp add: line_break_def isJSONWhitespace_def)
qed

lemma strip_ws: "ws w \<Longrightarrow> strip (w @ t) = strip t"
  using lexed_ws by (simp add: lexed_def)

lemma bracket_simps:
  "opens c \<Longrightarrow> \<not> closes c \<and> \<not> isJSONWhitespace c \<and> c \<noteq> 0x22 \<and> c \<noteq> 0x2C \<and> c \<noteq> 0x3A"
  "closes c \<Longrightarrow> \<not> opens c \<and> \<not> isJSONWhitespace c \<and> c \<noteq> 0x22 \<and> c \<noteq> 0x2C \<and> c \<noteq> 0x3A"
  by (auto simp: opens_def closes_def isJSONWhitespace_def)

text \<open>Whatever it is given, the layout only adds white space outside string literals.\<close>

lemma strip_reflow:
  "ws p \<Longrightarrow> ws q \<Longrightarrow> strip_mode m (reflow p q m d t) = strip_mode m t"
proof (induction p q m d t rule: reflow.induct)
  case (2 p q m d c)
  note br = strip_ws [OF ws_line_break [OF 2]]
  show ?case using bracket_simps(2) [of c] by (cases m) (simp_all add: br)
next
  case (3 p q m d c x cs)
  note br = strip_ws [OF ws_line_break [OF 3(8,9)]]
  show ?case
  proof (cases "m = Outside")
    case False
    then show ?thesis using 3(1,8,9) by simp
  next
    case True
    consider "opens c" "closes x" | "opens c" "\<not> closes x" | "closes c" | "c = 0x2C" | "c = 0x3A"
      | "\<not> opens c" "\<not> closes c" "c \<noteq> 0x2C" "c \<noteq> 0x3A" by blast
    then show ?thesis
    proof cases
      case 1
      then show ?thesis using True 3(2) [OF _ _ _ 3(8,9)] bracket_simps [of c] bracket_simps [of x] by simp
    next
      case 2
      then show ?thesis using True 3(3) [OF _ _ _ 3(8,9)] bracket_simps [of c] by (simp add: br)
    next
      case 3
      then show ?thesis using True "3.IH"(4) [OF _ _ _ "3.prems"] bracket_simps [of c] by (simp add: br)
    next
      case 4
      then show ?thesis using True "3.IH"(5) [OF _ _ _ _ "3.prems"]
        by (simp add: br opens_def closes_def isJSONWhitespace_def)
    next
      case 5
      then show ?thesis using True "3.IH"(6) [OF _ _ _ _ _ "3.prems"]
        by (simp add: opens_def closes_def isJSONWhitespace_def)
    next
      case 6
      then show ?thesis using True "3.IH"(7) [OF _ _ _ _ _ "3.prems"]
        by (cases "c = 0x22") (simp_all add: isJSONWhitespace_def)
    qed
  qed
qed simp

section \<open>The document is preserved\<close>

text \<open>\<open>laid p q d u w\<close>: the stripped text \<open>u\<close>, at nesting \<open>d\<close> and outside strings, is laid out as \<open>w\<close>
  and leaves the layout in the same state.\<close>

definition laid :: "bytes \<Rightarrow> bytes \<Rightarrow> nat \<Rightarrow> bytes \<Rightarrow> bytes \<Rightarrow> bool" where
  "laid p q d u w \<longleftrightarrow> (\<forall>rest. reflow p q Outside d (u @ rest) = w @ reflow p q Outside d rest)"

lemma laidD: "laid p q d u w \<Longrightarrow> reflow p q Outside d u = w"
  unfolding laid_def by (drule spec [of _ "[]"]) simp

lemma laid_append: "laid p q d u w \<Longrightarrow> laid p q d u' w' \<Longrightarrow> laid p q d (u @ u') (w @ w')"
  by (simp add: laid_def)

lemma laid_Nil [simp]: "laid p q d [] []"
  by (simp add: laid_def)

lemma reflow_other:
  assumes "\<not> opens c" "\<not> closes c" "c \<noteq> 0x2C" "c \<noteq> 0x3A"
  shows "reflow p q Outside d (c # rest) = c # reflow p q (lex_step Outside c) d rest"
  using assms by (cases rest) simp_all

lemma reflow_inside: "m \<noteq> Outside \<Longrightarrow> reflow p q m d (c # rest) = c # reflow p q (lex_step m c) d rest"
  by (cases rest) simp_all

lemma token_plain: "is_token_byte c \<Longrightarrow> \<not> opens c \<and> \<not> closes c \<and> c \<noteq> 0x2C \<and> c \<noteq> 0x3A \<and> c \<noteq> 0x22"
  by (auto simp: is_token_byte_def is_structural_def opens_def closes_def)

lemma laid_token: "\<forall>c \<in> set t. is_token_byte c \<Longrightarrow> laid p q d t t"
  unfolding laid_def
proof (induction t)
  case (Cons c t)
  then show ?case using token_plain [of c] by (simp add: reflow_other)
qed simp

lemma reflow_inside_run:
  "\<forall>c \<in> set k. c \<noteq> 0x22 \<and> c \<noteq> 0x5C \<Longrightarrow> reflow p q Inside d (k @ rest) = k @ reflow p q Inside d rest"
  by (induction k) (simp_all add: reflow_inside)

lemma string_text_reflow:
  "string_text k rs \<Longrightarrow> reflow p q Inside d (k @ rest) = k @ reflow p q Inside d rest"
proof (induction rule: string_text.induct)
  case (escape c b t rs)
  then show ?case by (auto simp: simple_escape_def reflow_inside split: if_splits)
qed (simp_all add: reflow_inside reflow_inside_run [OF hex_quad_inside] reflow_inside_run [OF encodeRune_inside])

lemma string_laid: "string_text k rs \<Longrightarrow> laid p q d (0x22 # k @ [0x22]) (0x22 # k @ [0x22])"
  by (simp add: laid_def reflow_other opens_def closes_def string_text_reflow reflow_inside)

lemma laid_comma: "rest \<noteq> [] \<Longrightarrow>
    reflow p q Outside d (0x2C # rest) = 0x2C # line_break p q d @ reflow p q Outside d rest"
  by (cases rest) (simp_all add: opens_def closes_def)

lemma laid_colon: "rest \<noteq> [] \<Longrightarrow>
    reflow p q Outside d (0x3A # rest) = 0x3A # 0x20 # reflow p q Outside d rest"
  by (cases rest) (simp_all add: opens_def closes_def)

lemma laid_container:
  assumes "laid p q (Suc d) u w" "u \<noteq> []" "\<not> closes (hd u)" "opens l" "closes r"
  shows "laid p q d (l # u @ [r]) (l # line_break p q (Suc d) @ w @ line_break p q d @ [r])"
proof -
  obtain x u' where u: "u = x # u'" using assms(2) by (cases u) auto
  have r: "reflow p q Outside (Suc d) (r # rest) = line_break p q d @ r # reflow p q Outside d rest" for rest
    using assms(5) bracket_simps(2) [of r] by (cases rest) simp_all
  have "reflow p q Outside d (l # u @ r # rest) = l # line_break p q (Suc d) @ reflow p q Outside (Suc d) (u @ r # rest)" for rest
    using assms(3,4) u by simp
  then show ?thesis using assms(1) by (simp add: laid_def r)
qed

lemma laid_empty: "opens l \<Longrightarrow> closes r \<Longrightarrow> laid p q d [l, r] [l, r]"
  by (simp add: laid_def)

text \<open>The induction over the grammar carries the stripped text and its layout at every depth.\<close>

definition kept :: "bytes \<Rightarrow> bytes \<Rightarrow> (bytes \<Rightarrow> bool) \<Rightarrow> bytes \<Rightarrow> bool" where
  "kept p q G t \<longleftrightarrow> (\<exists>u. lexed t u \<and> u \<noteq> [] \<and> \<not> closes (hd u) \<and> G u \<and>
     (\<forall>d. \<exists>w. laid p q d u w \<and> (\<forall>a b. ws a \<and> ws b \<longrightarrow> G (a @ w @ b))))"

definition kept_value :: "bytes \<Rightarrow> bytes \<Rightarrow> json \<Rightarrow> bytes \<Rightarrow> bool" where
  "kept_value p q j t \<longleftrightarrow> (\<exists>u. lexed t u \<and> u \<noteq> [] \<and> \<not> closes (hd u) \<and> json_text j u \<and>
     (\<forall>d. \<exists>w. laid p q d u w \<and> json_text j w))"

lemma keptE:
  assumes "kept p q G t"
  obtains u where "lexed t u" "u \<noteq> []" "\<not> closes (hd u)" "G u"
    "\<forall>d. \<exists>w. laid p q d u w \<and> (\<forall>a b. ws a \<and> ws b \<longrightarrow> G (a @ w @ b))"
  using assms unfolding kept_def by blast

lemma kept_valueE:
  assumes "kept_value p q j t"
  obtains u where "lexed t u" "u \<noteq> []" "\<not> closes (hd u)" "json_text j u"
    "\<forall>d. \<exists>w. laid p q d u w \<and> json_text j w"
  using assms unfolding kept_value_def by blast

lemma kept_token:
  assumes "lexed t t" "\<And>d. laid p q d t t" "json_text j t" "t \<noteq> []" "\<not> closes (hd t)"
  shows "kept_value p q j t"
  unfolding kept_value_def using assms by blast

lemma kept_empty:
  assumes "ws w" "opens l" "closes r" "json_text j [l, r]"
  shows "kept_value p q j (l # w @ [r])"
proof -
  have "lexed [l] [l]" "lexed [r] [r]" using assms(2,3) bracket_simps lexed_Cons by auto
  from lexed_append [OF this(1) lexed_append [OF lexed_ws [OF assms(1)] this(2)]]
  have "lexed (l # w @ [r]) [l, r]" by simp
  then show ?thesis unfolding kept_value_def
    using laid_empty [OF assms(2,3)] bracket_simps(1) [OF assms(2)] assms(4)
    by (intro exI [of _ "[l, r]"]) auto
qed

lemma kept_container:
  assumes k: "kept p q G t" and p: "ws p" "ws q" and b: "opens l" "closes r"
    and G: "\<And>t. G t \<Longrightarrow> json_text j (l # t @ [r])"
  shows "kept_value p q j (l # t @ [r])"
proof -
  obtain u where u: "lexed t u" "u \<noteq> []" "\<not> closes (hd u)" "G u"
    "\<forall>d. \<exists>w. laid p q d u w \<and> (\<forall>a b. ws a \<and> ws b \<longrightarrow> G (a @ w @ b))" using keptE [OF k] by blast
  have "lexed [l] [l]" "lexed [r] [r]" using b bracket_simps lexed_Cons by auto
  from lexed_append [OF this(1) lexed_append [OF u(1) this(2)]]
  have lex: "lexed (l # t @ [r]) (l # u @ [r])" by simp
  have "\<exists>w. laid p q d (l # u @ [r]) w \<and> json_text j w" for d
  proof -
    obtain w where w: "laid p q (Suc d) u w" "\<And>a b. ws a \<and> ws b \<Longrightarrow> G (a @ w @ b)" using u(5) by blast
    have "json_text j (l # (line_break p q (Suc d) @ w @ line_break p q d) @ [r])"
      using w(2) ws_line_break [OF p] by (intro G) simp
    then show ?thesis using laid_container [OF w(1) u(2,3) b] by auto
  qed
  then show ?thesis unfolding kept_value_def using lex G [OF u(4)] bracket_simps(1) [OF b(1)]
    by (intro exI [of _ "l # u @ [r]"]) auto
qed

lemma laid_comma_cons:
  assumes "laid p q d u w" "laid p q d u' w'" "u' \<noteq> []"
  shows "laid p q d (u @ 0x2C # u') (w @ 0x2C # line_break p q d @ w')"
  using assms by (simp add: laid_def laid_comma)

lemma kept_elems_one:
  assumes k: "kept_value p q v t" and "ws a" "ws b"
  shows "kept p q (elems_text [v]) (a @ t @ b)"
proof -
  obtain u where u: "lexed t u" "u \<noteq> []" "\<not> closes (hd u)" "json_text v u"
    "\<forall>d. \<exists>w. laid p q d u w \<and> json_text v w" using kept_valueE [OF k] by blast
  have "lexed (a @ t @ b) u" using lexed_append [OF lexed_ws lexed_append [OF u(1) lexed_ws]] assms by simp
  then show ?thesis unfolding kept_def using u elems_one elems_one [of "[]" v u "[]"] by (metis append.left_neutral append.right_neutral ws_Nil)
qed

lemma kept_elems_cons:
  assumes k: "kept_value p q v t" and ks: "kept p q (elems_text vs) t'" and ab: "ws a" "ws b" and p: "ws p" "ws q"
  shows "kept p q (elems_text (v # vs)) (a @ t @ b @ 0x2C # t')"
proof -
  obtain u where u: "lexed t u" "u \<noteq> []" "\<not> closes (hd u)" "json_text v u"
    "\<forall>d. \<exists>w. laid p q d u w \<and> json_text v w" using kept_valueE [OF k] by blast
  obtain u' where u': "lexed t' u'" "u' \<noteq> []" "\<not> closes (hd u')" "elems_text vs u'"
    "\<forall>d. \<exists>w. laid p q d u' w \<and> (\<forall>a b. ws a \<and> ws b \<longrightarrow> elems_text vs (a @ w @ b))" using keptE [OF ks] by blast
  have "lexed (a @ t @ b @ 0x2C # t') (u @ 0x2C # u')"
    using lexed_append [OF lexed_ws [OF ab(1)] lexed_append [OF u(1) lexed_append [OF lexed_ws [OF ab(2)]
      lexed_Cons [OF _ _ u'(1), of "0x2C"]]]] by (simp add: isJSONWhitespace_def)
  moreover have "\<exists>w. laid p q d (u @ 0x2C # u') w \<and> (\<forall>a b. ws a \<and> ws b \<longrightarrow> elems_text (v # vs) (a @ w @ b))" for d
  proof -
    obtain w where w: "laid p q d u w" "json_text v w" using u(5) by blast
    obtain w' where w': "laid p q d u' w'" "\<And>a b. ws a \<and> ws b \<Longrightarrow> elems_text vs (a @ w' @ b)" using u'(5) by blast
    show ?thesis
      using laid_comma_cons [OF w(1) w'(1) u'(2)] elems_cons [OF _ w(2) ws_Nil w'(2)] ws_line_break [OF p]
      by (intro exI [of _ "w @ 0x2C # line_break p q d @ w'"]) simp
  qed
  ultimately show ?thesis unfolding kept_def
    using elems_cons [OF ws_Nil u(4) ws_Nil u'(4)] u(2,3) by (intro exI [of _ "u @ 0x2C # u'"]) simp
qed

lemma laid_member:
  assumes "string_text k rs" "laid p q d u w" "u \<noteq> []"
  shows "laid p q d ((0x22 # k @ [0x22]) @ 0x3A # u) ((0x22 # k @ [0x22]) @ 0x3A # 0x20 # w)"
proof -
  have "laid p q d (0x3A # u) (0x3A # 0x20 # w)" using assms(2,3) by (simp add: laid_def laid_colon)
  then show ?thesis by (rule laid_append [OF string_laid [OF assms(1)]])
qed

lemma lexed_member:
  assumes "ws a" "string_text k rs" "ws b" "ws c" "lexed t u" "ws d"
  shows "lexed (a @ (0x22 # k @ [0x22]) @ b @ (0x3A # c @ t @ d)) ((0x22 # k @ [0x22]) @ 0x3A # u)"
proof -
  have "lexed (0x3A # c @ t @ d) (0x3A # u)"
    using lexed_append [OF lexed_ws [OF assms(4)] lexed_append [OF assms(5) lexed_ws [OF assms(6)]]]
    by (intro lexed_Cons) (auto simp: isJSONWhitespace_def)
  from lexed_append [OF lexed_ws [OF assms(1)] lexed_append [OF string_lexed [OF assms(2)]
    lexed_append [OF lexed_ws [OF assms(3)] this]]] show ?thesis by simp
qed

lemma kept_members_one:
  assumes s: "ws a" "string_text k rs" "ws b" "ws c" and kv: "kept_value p q v t" and d: "ws d"
  shows "kept p q (members_text [(rs, v)]) (a @ (0x22 # k @ [0x22]) @ b @ (0x3A # c @ t @ d))"
proof -
  obtain u where u: "lexed t u" "u \<noteq> []" "\<not> closes (hd u)" "json_text v u"
    "\<forall>d. \<exists>w. laid p q d u w \<and> json_text v w" using kept_valueE [OF kv] by blast
  have "\<exists>w. laid p q n ((0x22 # k @ [0x22]) @ 0x3A # u) w \<and>
      (\<forall>a b. ws a \<and> ws b \<longrightarrow> members_text [(rs, v)] (a @ w @ b))" for n
  proof -
    obtain w where w: "laid p q n u w" "json_text v w" using u(5) by blast
    show ?thesis
      using laid_member [OF s(2) w(1) u(2)] members_one [OF _ s(2) ws_Nil, of _ "[0x20]" v w] w(2)
      by (intro exI [of _ "(0x22 # k @ [0x22]) @ 0x3A # 0x20 # w"]) (simp add: isJSONWhitespace_def)
  qed
  then show ?thesis unfolding kept_def
    using lexed_member [OF s u(1) d] members_one [OF ws_Nil s(2) ws_Nil ws_Nil u(4) ws_Nil]
    by (intro exI [of _ "(0x22 # k @ [0x22]) @ 0x3A # u"]) (simp add: closes_def)
qed

lemma kept_members_cons:
  assumes s: "ws a" "string_text k rs" "ws b" "ws c" and kv: "kept_value p q v t" and d: "ws d"
    and ks: "kept p q (members_text ms) t'" and p: "ws p" "ws q"
  shows "kept p q (members_text ((rs, v) # ms)) (a @ (0x22 # k @ [0x22]) @ b @ (0x3A # c @ t @ d @ 0x2C # t'))"
proof -
  let ?k = "0x22 # k @ [0x22]"
  obtain u where u: "lexed t u" "u \<noteq> []" "\<not> closes (hd u)" "json_text v u"
    "\<forall>d. \<exists>w. laid p q d u w \<and> json_text v w" using kept_valueE [OF kv] by blast
  obtain u' where u': "lexed t' u'" "u' \<noteq> []" "\<not> closes (hd u')" "members_text ms u'"
    "\<forall>d. \<exists>w. laid p q d u' w \<and> (\<forall>a b. ws a \<and> ws b \<longrightarrow> members_text ms (a @ w @ b))"
    using keptE [OF ks] by blast
  have lex: "lexed (a @ ?k @ b @ (0x3A # c @ t @ d @ 0x2C # t')) ((?k @ 0x3A # u) @ 0x2C # u')"
    using lexed_append [OF lexed_member [OF s u(1) d] lexed_Cons [OF _ _ u'(1), of "0x2C"]]
    by (simp add: isJSONWhitespace_def)
  have "\<exists>w. laid p q n ((?k @ 0x3A # u) @ 0x2C # u') w \<and>
      (\<forall>a b. ws a \<and> ws b \<longrightarrow> members_text ((rs, v) # ms) (a @ w @ b))" for n
  proof -
    obtain w where w: "laid p q n u w" "json_text v w" using u(5) by blast
    obtain w' where w': "laid p q n u' w'" "\<forall>a b. ws a \<and> ws b \<longrightarrow> members_text ms (a @ w' @ b)"
      using u'(5) by blast
    have tail: "ws y \<Longrightarrow> members_text ms (line_break p q n @ w' @ y)" for y
      using w'(2) ws_line_break [OF p] by blast
    have "members_text ((rs, v) # ms) (x @ ((?k @ 0x3A # 0x20 # w) @ 0x2C # line_break p q n @ w') @ y)"
      if "ws x" "ws y" for x y
      using members_cons [OF that(1) s(2) ws_Nil _ w(2) ws_Nil tail [OF that(2)], of "[0x20]"]
      by (simp add: isJSONWhitespace_def)
    then show ?thesis using laid_comma_cons [OF laid_member [OF s(2) w(1) u(2)] w'(1) u'(2)] by blast
  qed
  moreover have "members_text ((rs, v) # ms) ((?k @ 0x3A # u) @ 0x2C # u')"
    using members_cons [OF ws_Nil s(2) ws_Nil ws_Nil u(4) ws_Nil u'(4)] by simp
  ultimately show ?thesis unfolding kept_def using lex
    by (intro exI [of _ "(?k @ 0x3A # u) @ 0x2C # u'"]) (simp add: closes_def)
qed

lemma text_kept:
  assumes "ws p" "ws q"
  shows "json_text j t \<Longrightarrow> kept_value p q j t"
    and "elems_text vs t' \<Longrightarrow> kept p q (elems_text vs) t'"
    and "members_text ms t'' \<Longrightarrow> kept p q (members_text ms) t''"
proof (induction rule: json_text_elems_text_members_text.inducts)
  case null
  then show ?case by (intro kept_token lexed_token laid_token literal_token json_text_elems_text_members_text.null) (simp_all add: closes_def)
next
  case true
  then show ?case by (intro kept_token lexed_token laid_token literal_token json_text_elems_text_members_text.true) (simp_all add: closes_def)
next
  case false
  then show ?case by (intro kept_token lexed_token laid_token literal_token json_text_elems_text_members_text.false) (simp_all add: closes_def)
next
  case (number t)
  note tok = number_text_token [OF number]
  have "t \<noteq> []" using number by (auto simp: number_text_def int_text_def)
  then have "\<not> closes (hd t)" using tok token_plain by (metis hd_in_set)
  then show ?case using \<open>t \<noteq> []\<close> tok number
    by (intro kept_token lexed_token laid_token json_text_elems_text_members_text.number) simp_all
next
  case (str t rs)
  then show ?case
    by (intro kept_token string_lexed string_laid json_text_elems_text_members_text.str) (simp_all add: closes_def)
next
  case (array_empty w)
  then show ?case using json_text_elems_text_members_text.array_empty [of "[]"]
    by (intro kept_empty) (simp_all add: opens_def closes_def)
next
  case (object_empty w)
  then show ?case using json_text_elems_text_members_text.object_empty [of "[]"]
    by (intro kept_empty) (simp_all add: opens_def closes_def)
next
  case (array vs t)
  show ?case
    by (rule kept_container [OF array(2) assms _ _ json_text_elems_text_members_text.array])
      (simp_all add: opens_def closes_def)
next
  case (object ms t)
  show ?case
    by (rule kept_container [OF object(2) assms _ _ json_text_elems_text_members_text.object])
      (simp_all add: opens_def closes_def)
qed (use assms in \<open>simp_all add: kept_elems_one kept_elems_cons kept_members_one kept_members_cons del: append_Cons append_assoc\<close>)

lemma document_strip:
  assumes "document_text j src"
  shows "json_text j (strip src)"
proof -
  obtain a t b where s: "src = a @ t @ b" "ws a" "json_text j t" "ws b"
    using assms by (auto simp: document_text_def)
  obtain u where "lexed t u" "json_text j u"
    using text_kept(1) [OF ws_Nil ws_Nil s(3)] by (auto elim!: kept_valueE)
  then have "lexed src u" using lexed_append [OF lexed_ws [OF s(2)] lexed_append [OF _ lexed_ws [OF s(4)]]] s(1)
    by fastforce
  then show ?thesis using \<open>json_text j u\<close> lexedD by blast
qed

lemma document_reflow:
  assumes "document_text j src" "ws p" "ws q"
  shows "json_text j (reflow p q Outside 0 (strip src))"
proof -
  obtain a t b where s: "src = a @ t @ b" "ws a" "json_text j t" "ws b"
    using assms by (auto simp: document_text_def)
  obtain u where u: "lexed t u" "\<forall>d. \<exists>w. laid p q d u w \<and> json_text j w"
    using text_kept(1) [OF assms(2,3) s(3)] by (auto elim!: kept_valueE)
  then have "strip src = u" using lexed_append [OF lexed_ws [OF s(2)] lexed_append [OF u(1) lexed_ws [OF s(4)]]] s(1)
    by (intro lexedD) simp
  then show ?thesis using u(2) laidD by metis
qed

end
