(* ===== verification/CompactCorrect.thy ===== *)
theory CompactCorrect
  imports Transforms JsonLayout ValidatorComplete
begin

text \<open>
  Compaction against the validator and the lexical reference: the compacting descent takes the
  validator's steps one by one (same verdict, same offset), and what it appends is the input with the
  white space outside strings deleted.
\<close>

section \<open>Tokens\<close>

definition outcome :: "'a \<times> SyntaxError option \<Rightarrow> SyntaxError + 'a" where
  "outcome r = (case r of (x, None) \<Rightarrow> Inr x | (_, Some e) \<Rightarrow> Inl e)"

lemma outcome_simps [simp]: "outcome (x, None) = Inr x" "outcome (x, Some e) = Inl e"
  by (simp_all add: outcome_def)

lemma stringTokenLoop_outcome: "outcome (stringTokenLoop src i) = parseStringFrom src i"
proof (induction src i rule: parseStringFrom.induct)
  case (1 src i)
  let ?j = "scanStringSpecialScalar src i"
  have esc: "validateEscape src (Suc ?j) = Inr x \<Longrightarrow> ?j < length src \<Longrightarrow> src ! ?j = 0x5C \<Longrightarrow>
      \<not> length src \<le> Suc ?j \<Longrightarrow> outcome (stringTokenLoop src x) = parseStringFrom src x" for x
    using 1(1) by simp
  have run: "scanStringUnicodeRun src ?j = (x, None) \<Longrightarrow> ?j < length src \<Longrightarrow> src ! ?j \<noteq> 0x22 \<Longrightarrow>
      src ! ?j \<noteq> 0x5C \<Longrightarrow> \<not> src ! ?j < 0x20 \<Longrightarrow> outcome (stringTokenLoop src x) = parseStringFrom src x" for x
    using 1(2) [OF refl _ refl] by simp
  show ?case
    by (subst stringTokenLoop.simps, subst parseStringFrom.simps)
      (simp add: Let_def esc run split: sum.split prod.split option.split)
qed

lemma appendJSONStringToken_cases:
  "appendJSONStringToken dst src i =
     (case parseStringFrom src (Suc i) of
        Inl e \<Rightarrow> (dst, fst (stringTokenLoop src (Suc i)), Some e)
      | Inr j \<Rightarrow> (dst @ segment src i j, j, None))"
  using stringTokenLoop_outcome [of src "Suc i"]
  by (cases "stringTokenLoop src (Suc i)"; cases "snd (stringTokenLoop src (Suc i))")
    (simp_all add: appendJSONStringToken_def flip: stringTokenLoop_outcome)

section \<open>The descent follows the validator\<close>

text \<open>The validator names the unexpected byte, the transforms do not: messages are compared up to that
  byte.\<close>

fun coarse_msg :: "syntax_msg \<Rightarrow> syntax_msg" where
  "coarse_msg (UnexpectedByte b) = UnexpectedValueByte"
| "coarse_msg m = m"

definition coarse :: "SyntaxError \<Rightarrow> SyntaxError" where
  "coarse e = e\<lparr>Message := coarse_msg (Message e)\<rparr>"

lemma coarse_syntaxError [simp]: "coarse (syntaxError src off m) = syntaxError src off (coarse_msg m)"
  by (simp add: coarse_def syntaxError_def Let_def split: prod.split)

definition cp_view :: "compactParser \<Rightarrow> validator" where
  "cp_view c = \<lparr>v_src = cp_src c, v_i = cp_i c, v_maxDepth = cp_maxDepth c, v_layout = None\<rparr>"

definition cp_result :: "(SyntaxError + compactParser) option \<Rightarrow> (SyntaxError + validator) option" where
  "cp_result r = map_option (map_sum coarse cp_view) r"

definition coarse_result :: "(SyntaxError + validator) option \<Rightarrow> (SyntaxError + validator) option" where
  "coarse_result r = map_option (map_sum coarse id) r"


lemma cp_sel [simp]:
  "cp_src (cp_skipSpace c) = cp_src c" "cp_maxDepth (cp_skipSpace c) = cp_maxDepth c"
  "cp_i (cp_skipSpace c) = skipSpace (cp_src c) (cp_i c)" "cp_dst (cp_skipSpace c) = cp_dst c"
  "cp_src (cp_emit b c) = cp_src c" "cp_maxDepth (cp_emit b c) = cp_maxDepth c"
  "cp_i (cp_emit b c) = Suc (cp_i c)" "cp_dst (cp_emit b c) = cp_dst c @ [b]"
  by (simp_all add: cp_skipSpace_def cp_emit_def)

lemma cp_view_simps [simp]:
  "v_src (cp_view c) = cp_src c" "v_i (cp_view c) = cp_i c" "v_maxDepth (cp_view c) = cp_maxDepth c"
  "cp_view (cp_skipSpace c) = v_skipSpace (cp_view c)" "cp_view (cp_emit b c) = v_advance (cp_view c)"
  "countValue (cp_view c) = cp_view c" "countMember (cp_view c) = cp_view c"
  "openContainer (cp_view c) = (None, v_advance (cp_view c))" "closeContainer None n v = v_advance v"
  by (simp_all add: cp_view_def v_skipSpace_def cp_skipSpace_def v_advance_def cp_emit_def countValue_def
      countMember_def closeContainer_def openContainer_def)

lemma cp_err_eq: "cp_err c m = v_err (cp_view c) (int (cp_i c)) m"
  and cp_at_eq: "cp_at c x = v_at (cp_view c) x"
  by (simp_all add: v_err_def cp_err_def v_at_def cp_at_def)

lemma coarse_v_err [simp]: "coarse (v_err v off m) = v_err v off (coarse_msg m)"
  by (simp add: v_err_def)

lemma result_simps [simp]:
  "cp_result None = None" "cp_result (Some (Inl e)) = Some (Inl (coarse e))"
  "cp_result (Some (Inr c)) = Some (Inr (cp_view c))"
  "coarse_result None = None" "coarse_result (Some (Inl e)) = Some (Inl (coarse e))"
  "coarse_result (Some (Inr v)) = Some (Inr v)"
  by (simp_all add: cp_result_def coarse_result_def)

lemma result_cases:
  assumes "cp_result x = coarse_result y"
  obtains "x = None" "y = None"
  | e e' where "x = Some (Inl e)" "y = Some (Inl e')" "coarse e = coarse e'"
  | c where "x = Some (Inr c)" "y = Some (Inr (cp_view c))"
  using assms
  by (cases x; cases y; cases "the x"; cases "the y"; simp add: cp_result_def coarse_result_def)

lemma compact_leaf:
  "map_sum coarse cp_view (compactLiteral lit c) = map_sum coarse id (parseLiteral lit (cp_view c))"
  "map_sum coarse cp_view (compactNumber c) = map_sum coarse id (parseNumber (cp_view c))"
  "map_sum coarse cp_view (compactString c) = map_sum coarse id (parseString (cp_view c))"
  by (simp_all add: compactLiteral_def parseLiteral_def cp_err_eq compactNumber_def appendJSONNumberToken_def
      parseNumber_def compactString_def appendJSONStringToken_cases parseString_def cp_view_def
      split: prod.split option.split sum.split)

lemma compactString_view:
  "compactString c = Inr c' \<Longrightarrow> parseString (cp_view c) = Inr (cp_view c')"
  "compactString c = Inl e \<Longrightarrow> \<exists>e'. parseString (cp_view c) = Inl e' \<and> coarse e = coarse e'"
  using compact_leaf(3) [of c] by (cases "parseString (cp_view c)"; simp)+

lemma compactElems_view:
  assumes cv: "\<And>d c. cp_result (cv d c) = coarse_result (pv d (cp_view c))"
  shows "cp_result (compactElems cv m d c) = coarse_result (parseElems pv m d None k (cp_view c))"
proof (induction m arbitrary: c k)
  case (Suc m)
  note step = compactElems.simps parseElems.simps Let_def Suc.IH [of _ "Suc k"] cp_err_eq
  have "cp_result (cv d (cp_skipSpace c)) = coarse_result (pv d (v_skipSpace (cp_view c)))"
    using cv [of d "cp_skipSpace c"] by simp
  then show ?case by (cases rule: result_cases) (simp_all add: step)
qed (simp add: compactElems.simps parseElems.simps)

lemma compactMembers_view:
  assumes cv: "\<And>d c. cp_result (cv d c) = coarse_result (pv d (cp_view c))"
  shows "cp_result (compactMembers cv m d c) = coarse_result (parseMembers pv m d None k (cp_view c))"
proof (induction m arbitrary: c k)
  case (Suc m)
  note step = compactMembers.simps parseMembers.simps Let_def Suc.IH [of _ "Suc k"] cp_err_eq cp_at_eq
  show ?case
  proof (cases "compactString (cp_skipSpace c)")
    case (Inl e)
    then show ?thesis using compactString_view(2) [OF Inl] by (auto simp: step)
  next
    case (Inr y)
    let ?y = "cp_skipSpace (cp_emit 0x3A (cp_skipSpace y))"
    have "cp_result (cv d ?y) = coarse_result (pv d (v_skipSpace (v_advance (v_skipSpace (cp_view y)))))"
      using cv [of d ?y] by simp
    then show ?thesis
      using Inr compactString_view(1) [OF Inr] by (cases rule: result_cases) (simp_all add: step)
  qed
qed (simp add: compactMembers.simps parseMembers.simps)

lemma compact_containers_view:
  assumes cv: "\<And>d c. cp_result (cv d c) = coarse_result (pv d (cp_view c))"
  shows "cp_result (compactArray cv d c) = coarse_result (parseArray pv d (cp_view c))"
    and "cp_result (compactObject cv d c) = coarse_result (parseObject pv d (cp_view c))"
  using compactElems_view [of cv pv, OF cv, of _ d "cp_skipSpace (cp_emit 0x5B c)" 0]
    compactMembers_view [of cv pv, OF cv, of _ d "cp_skipSpace (cp_emit 0x7B c)" 0]
  by (simp_all add: compactArray_def parseArray_def compactObject_def parseObject_def Let_def cp_err_eq cp_at_eq)

lemma compactValue_view: "cp_result (compactValue n d c) = coarse_result (parseValue n d (cp_view c))"
proof (induction n arbitrary: d c)
  case (Suc n)
  show ?case
    by (simp add: compactValue.simps parseValue.simps Let_def compact_containers_view [of "compactValue n" "parseValue n", OF Suc.IH] cp_err_eq)
      (simp add: cp_result_def coarse_result_def cp_err_eq compact_leaf)
qed (simp add: compactValue.simps parseValue.simps)

section \<open>What compaction appends\<close>

text \<open>\<open>emits c c'\<close>: between two states of one run the consumed bytes lie outside strings at both ends
  and the bytes appended are those bytes stripped.\<close>

definition emits :: "compactParser \<Rightarrow> compactParser \<Rightarrow> bool" where
  "emits c c' \<longleftrightarrow> cp_src c' = cp_src c \<and> cp_i c \<le> cp_i c' \<and> cp_i c' \<le> length (cp_src c) \<and>
     (\<exists>t. cp_dst c' = cp_dst c @ t \<and> lexed (segment (cp_src c) (cp_i c) (cp_i c')) t)"

lemma emitsI:
  assumes "cp_src c' = cp_src c" "cp_i c \<le> cp_i c'" "cp_i c' \<le> length (cp_src c)" "cp_dst c' = cp_dst c @ t"
    "lexed (segment (cp_src c) (cp_i c) (cp_i c')) t"
  shows "emits c c'"
  using assms by (auto simp: emits_def)

lemma emits_bound: "emits c c' \<Longrightarrow> cp_i c' \<le> length (cp_src c') \<and> cp_src c' = cp_src c"
  by (simp add: emits_def)

lemma emits_trans [trans]:
  assumes "emits a b" "emits b c"
  shows "emits a c"
proof -
  obtain t where t: "cp_dst b = cp_dst a @ t" "lexed (segment (cp_src a) (cp_i a) (cp_i b)) t"
    using assms(1) by (auto simp: emits_def)
  obtain u where u: "cp_dst c = cp_dst b @ u" "lexed (segment (cp_src a) (cp_i b) (cp_i c)) u"
    using assms by (auto simp: emits_def)
  show ?thesis
    using assms lexed_append [OF t(2) u(2)] t(1) u(1) by (intro emitsI [of _ _ "t @ u"]) (auto simp: emits_def segment_append)
qed

lemma emits_then: "emits a b \<Longrightarrow> (cp_i b \<le> length (cp_src b) \<Longrightarrow> emits b c) \<Longrightarrow> emits a c"
  using emits_trans emits_bound by blast

lemma emits_skipSpace: "cp_i c \<le> length (cp_src c) \<Longrightarrow> emits c (cp_skipSpace c)"
  using skipSpace_sound [of "cp_i c" "cp_src c"] by (intro emitsI [of _ _ "[]"]) (auto intro: lexed_ws)

lemma emits_emit:
  assumes "cp_i c < length (cp_src c)" "cp_src c ! cp_i c = b" "is_structural b"
  shows "emits c (cp_emit b c)"
  using assms structural_lexed [OF assms(3)] by (intro emitsI [of _ _ "[b]"]) (auto simp: segment_one)

lemma emits_string:
  assumes "compactString c = Inr c'" "cp_at c 0x22"
  shows "emits c c'"
proof -
  have v: "parseString (cp_view c) = Inr (cp_view c')" by (rule compactString_view(1) [OF assms(1)])
  have i: "cp_i c < length (cp_src c)" "cp_src c ! cp_i c = 0x22" using assms(2) by (simp_all add: cp_at_def)
  note s = parseString_sound [OF v, simplified, OF i]
  obtain k rs where "string_text k rs" "segment (cp_src c) (cp_i c) (cp_i c') = 0x22 # k @ [0x22]" using s(5) by blast
  moreover have "cp_dst c' = cp_dst c @ segment (cp_src c) (cp_i c) (cp_i c')"
    using assms(1) by (auto simp: compactString_def appendJSONStringToken_cases split: sum.splits)
  ultimately show ?thesis using s string_lexed by (intro emitsI) auto
qed

lemma emits_number:
  assumes "compactNumber c = Inr c'" "cp_i c \<le> length (cp_src c)"
  shows "emits c c'"
proof -
  obtain e where e: "scanNumber (cp_src c) (cp_i c) = (e, None)"
    "c' = c\<lparr>cp_dst := cp_dst c @ segment (cp_src c) (cp_i c) e, cp_i := e\<rparr>"
    using assms(1) by (auto simp: compactNumber_def appendJSONNumberToken_def parseNumber_def split: prod.splits option.splits)
  show ?thesis using scanNumber_sound [OF e(1) assms(2)] e(2)
    by (intro emitsI [of _ _ "segment (cp_src c) (cp_i c) e"]) (auto intro: lexed_token dest: number_text_token)
qed

lemma emits_literal:
  assumes "compactLiteral lit c = Inr c'" "cp_i c \<le> length (cp_src c)" "\<forall>b \<in> set lit. is_token_byte b"
  shows "emits c c'"
proof -
  have m: "matchStringAt (cp_src c) (cp_i c) lit" and c': "c' = c\<lparr>cp_i := cp_i c + length lit, cp_dst := cp_dst c @ lit\<rparr>"
    using assms(1) by (auto simp: compactLiteral_def split: if_splits)
  have "segment (cp_src c) (cp_i c) (cp_i c + length lit) = lit"
    using m assms(2) by (simp add: matchStringAt_iff segment_def get_bytes_def)
  then show ?thesis using m assms(2) c' lexed_token [OF assms(3)]
    by (intro emitsI [of _ _ lit]) (auto simp: matchStringAt_iff)
qed

definition cv_emits :: "(nat \<Rightarrow> compactParser \<Rightarrow> (SyntaxError + compactParser) option) \<Rightarrow> bool" where
  "cv_emits cv \<longleftrightarrow> (\<forall>d c c'. cv d c = Some (Inr c') \<longrightarrow> cp_i c \<le> length (cp_src c) \<longrightarrow> emits c c')"

lemma cv_emitsD: "cv_emits cv \<Longrightarrow> cv d c = Some (Inr c') \<Longrightarrow> cp_i c \<le> length (cp_src c) \<Longrightarrow> emits c c'"
  by (auto simp: cv_emits_def)

text \<open>From an element's end to the separator or bracket after it.\<close>

lemma emits_next:
  assumes "emits a c" "cp_i (cp_skipSpace c) < length (cp_src c)" "cp_src c ! cp_i (cp_skipSpace c) = b" "is_structural b"
  shows "emits a (cp_emit b (cp_skipSpace c))"
proof -
  have "emits a (cp_skipSpace c)" using emits_then [OF assms(1) emits_skipSpace] .
  then show ?thesis by (rule emits_trans) (use assms in \<open>auto intro: emits_emit\<close>)
qed

lemma structural_bytes [simp]:
  "is_structural 0x2C" "is_structural 0x5B" "is_structural 0x5D" "is_structural 0x7B" "is_structural 0x7D" "is_structural 0x3A"
  by (simp_all add: is_structural_def)

lemma compactElems_emits:
  assumes cv: "cv_emits cv"
  shows "compactElems cv m d c = Some (Inr c') \<Longrightarrow> cp_i c \<le> length (cp_src c) \<Longrightarrow> emits c c'"
proof (induction m arbitrary: c)
  case (Suc m)
  obtain y where y: "cv d (cp_skipSpace c) = Some (Inr y)"
    using Suc.prems(1) by (auto simp: compactElems.simps split: option.splits sum.splits)
  note sp = emits_skipSpace [OF Suc.prems(2)]
  have cy: "emits c y" using emits_then [OF sp cv_emitsD [OF cv y]] .
  let ?y = "cp_skipSpace y"
  have "cp_i ?y < length (cp_src y)" and
    "cp_src y ! cp_i ?y = 0x2C \<and> compactElems cv m d (cp_emit 0x2C ?y) = Some (Inr c') \<or>
     cp_src y ! cp_i ?y = 0x5D \<and> c' = cp_emit 0x5D ?y"
    using Suc.prems(1) y by (auto simp: compactElems.simps Let_def split: if_splits)
  then show ?case
    using emits_next [OF cy] Suc.IH [of "cp_emit 0x2C ?y"] emits_trans [of c "cp_emit 0x2C ?y" c'] by auto
qed (simp add: compactElems.simps)

lemma compactMembers_emits:
  assumes cv: "cv_emits cv"
  shows "compactMembers cv m d c = Some (Inr c') \<Longrightarrow> cp_i c \<le> length (cp_src c) \<Longrightarrow> emits c c'"
proof (induction m arbitrary: c)
  case (Suc m)
  have q: "cp_at (cp_skipSpace c) 0x22"
    using Suc.prems(1) by (auto simp: compactMembers.simps Let_def split: if_splits)
  obtain k where k: "compactString (cp_skipSpace c) = Inr k" "cp_at (cp_skipSpace k) 0x3A"
    using Suc.prems(1) by (auto simp: compactMembers.simps Let_def split: if_splits sum.splits)
  let ?k = "cp_emit 0x3A (cp_skipSpace k)"
  obtain y where y: "cv d (cp_skipSpace ?k) = Some (Inr y)"
    using Suc.prems(1) k q by (auto simp: compactMembers.simps Let_def split: option.splits sum.splits)
  have ck: "emits c k" using emits_trans [OF emits_skipSpace [OF Suc.prems(2)] emits_string [OF k(1) q]] .
  have "emits c ?k" using k(2) emits_next [OF ck] by (simp add: cp_at_def)
  then have ck': "emits c (cp_skipSpace ?k)" using emits_then [OF _ emits_skipSpace] by blast
  have cy: "emits c y" using emits_then [OF ck' cv_emitsD [OF cv y]] .
  let ?y = "cp_skipSpace y"
  have "cp_i ?y < length (cp_src y)" and
    "cp_src y ! cp_i ?y = 0x2C \<and> compactMembers cv m d (cp_emit 0x2C ?y) = Some (Inr c') \<or>
     cp_src y ! cp_i ?y = 0x7D \<and> c' = cp_emit 0x7D ?y"
    using Suc.prems(1) y k q by (auto simp: compactMembers.simps Let_def split: if_splits)
  then show ?case
    using emits_next [OF cy] Suc.IH [of "cp_emit 0x2C ?y"] emits_trans [of c "cp_emit 0x2C ?y" c'] by auto
qed (simp add: compactMembers.simps)

lemma compactArray_emits:
  assumes cv: "cv_emits cv" and r: "compactArray cv d c = Some (Inr c')" and b: "cp_at c 0x5B"
  shows "emits c c'"
proof -
  let ?c = "cp_skipSpace (cp_emit 0x5B c)"
  have "emits c (cp_emit 0x5B c)" using b by (intro emits_emit) (simp_all add: cp_at_def)
  then have c: "emits c ?c" using emits_then [OF _ emits_skipSpace] by blast
  have "cp_at ?c 0x5D \<and> c' = cp_emit 0x5D ?c \<or> compactElems cv (length (cp_src ?c) + 1) d ?c = Some (Inr c')"
    using r by (auto simp: compactArray_def Let_def split: if_splits)
  then show ?thesis using emits_then [OF c compactElems_emits [OF cv]] emits_trans [OF c emits_emit]
    by (auto simp: cp_at_def)
qed

lemma compactObject_emits:
  assumes cv: "cv_emits cv" and r: "compactObject cv d c = Some (Inr c')" and b: "cp_at c 0x7B"
  shows "emits c c'"
proof -
  let ?c = "cp_skipSpace (cp_emit 0x7B c)"
  have "emits c (cp_emit 0x7B c)" using b by (intro emits_emit) (simp_all add: cp_at_def)
  then have c: "emits c ?c" using emits_then [OF _ emits_skipSpace] by blast
  have "cp_at ?c 0x7D \<and> c' = cp_emit 0x7D ?c \<or> compactMembers cv (length (cp_src ?c) + 1) d ?c = Some (Inr c')"
    using r by (auto simp: compactObject_def Let_def split: if_splits)
  then show ?thesis using emits_then [OF c compactMembers_emits [OF cv]] emits_trans [OF c emits_emit]
    by (auto simp: cp_at_def)
qed

lemma compactValue_emits: "cv_emits (compactValue n)"
proof (induction n)
  case (Suc n)
  show ?case unfolding cv_emits_def
  proof (intro allI impI)
    fix d c c'
    assume p: "compactValue (Suc n) d c = Some (Inr c')" and i: "cp_i c \<le> length (cp_src c)"
    have g: "d \<le> cp_maxDepth c" "cp_i c < length (cp_src c)"
      using p by (auto simp: compactValue.simps split: if_splits)
    define b where "b = cp_src c ! cp_i c"
    have at: "b = x \<Longrightarrow> cp_at c x" for x using g(2) by (simp add: cp_at_def b_def)
    have "(if b = 0x6E then Some (compactLiteral (ascii ''null'') c)
        else if b = 0x74 then Some (compactLiteral (ascii ''true'') c)
        else if b = 0x66 then Some (compactLiteral (ascii ''false'') c)
        else if b = 0x22 then Some (compactString c)
        else if b = 0x5B then compactArray (compactValue n) (d + 1) c
        else if b = 0x7B then compactObject (compactValue n) (d + 1) c
        else if b = 0x2D \<or> isDigit b then Some (compactNumber c)
        else Some (Inl (cp_err c UnexpectedValueByte))) = Some (Inr c')"
      using p unfolding b_def
      by (simp only: compactValue.simps Let_def leD [OF g(1)] not_le [THEN iffD2, OF g(2)] if_False)
    then consider "compactLiteral (ascii ''null'') c = Inr c'" | "compactLiteral (ascii ''true'') c = Inr c'"
      | "compactLiteral (ascii ''false'') c = Inr c'" | "b = 0x22" "compactString c = Inr c'"
      | "b = 0x5B" "compactArray (compactValue n) (d + 1) c = Some (Inr c')"
      | "b = 0x7B" "compactObject (compactValue n) (d + 1) c = Some (Inr c')"
      | "compactNumber c = Inr c'"
      by (auto split: if_splits)
    then show "emits c c'"
    proof cases
      case 4
      then show ?thesis using emits_string [OF _ at] by blast
    next
      case 5
      then show ?thesis using compactArray_emits [OF Suc.IH _ at] by blast
    next
      case 6
      then show ?thesis using compactObject_emits [OF Suc.IH _ at] by blast
    next
      case 1 then show ?thesis using emits_literal [OF _ i literal_token(1)] by blast
    next
      case 2 then show ?thesis using emits_literal [OF _ i literal_token(2)] by blast
    next
      case 3 then show ?thesis using emits_literal [OF _ i literal_token(3)] by blast
    next
      case 7 then show ?thesis using emits_number [OF _ i] by blast
    qed
  qed
qed (simp add: cv_emits_def compactValue.simps)

section \<open>The whole transform\<close>

lemma literal_bytes:
  "length src = 4 \<and> (src ! 0 = 0x6E \<and> src ! 1 = 0x75 \<and> src ! 2 = 0x6C \<and> src ! 3 = 0x6C \<or>
      src ! 0 = 0x74 \<and> src ! 1 = 0x72 \<and> src ! 2 = 0x75 \<and> src ! 3 = 0x65) \<longleftrightarrow>
    src = ascii ''null'' \<or> src = ascii ''true''"
  "length src = 5 \<and> src ! 0 = 0x66 \<and> src ! 1 = 0x61 \<and> src ! 2 = 0x6C \<and> src ! 3 = 0x73 \<and> src ! 4 = 0x65 \<longleftrightarrow>
    src = ascii ''false''"
  by (auto simp: list_eq_iff_nth_eq less_Suc_eq numeral_eq_Suc)

lemma literal_accepted:
  assumes "src = ascii ''null'' \<or> src = ascii ''true'' \<or> src = ascii ''false''"
  shows "validateOptions src maxDepth = Some None" "strip src = src"
proof -
  obtain j where "json_text j src" "jdepth j = 0"
    using assms null true false by (metis jdepth.simps(3-5))
  then have "document_text j src \<and> jdepth j \<le> effectiveDepth maxDepth"
    unfolding document_text_def by (metis append.left_neutral append.right_neutral ws_Nil zero_le)
  then show "validateOptions src maxDepth = Some None" using validateOptions_iff by blast
  show "strip src = src" using assms lexedD [OF lexed_token] literal_token by metis
qed

lemma validateOptions_run:
  "validateOptions src d = map_option (\<lambda>r. case r of Inl e \<Rightarrow> Some e | Inr _ \<Rightarrow> None)
     (runValidator (cp_view \<lparr>cp_src = src, cp_dst = dst, cp_i = 0, cp_maxDepth = effectiveDepth d\<rparr>))"
  by (simp add: validateOptions_def cp_view_def)

text \<open>Results of the transforms and the validator agree in the position and the message of the error, up
  to the byte the validator's message names.\<close>

definition coarse_return :: "(bytes \<times> SyntaxError option) option \<Rightarrow> (bytes \<times> SyntaxError option) option" where
  "coarse_return r = map_option (map_prod id (map_option coarse)) r"

lemma appendCompact_eq:
  "coarse_return (appendCompact dst src maxDepth) =
     (case validateOptions src maxDepth of
        None \<Rightarrow> None
      | Some None \<Rightarrow> Some (dst @ strip src, None)
      | Some (Some e) \<Rightarrow> Some (dst, Some (coarse e)))"
proof (cases "src = ascii ''null'' \<or> src = ascii ''true'' \<or> src = ascii ''false''")
  case True
  then show ?thesis using literal_accepted(1) [OF True, of maxDepth] literal_accepted(2) [OF True] by (auto simp: appendCompact_def coarse_return_def)
next
  case False
  let ?c = "\<lparr>cp_src = src, cp_dst = dst, cp_i = 0, cp_maxDepth = effectiveDepth maxDepth\<rparr>"
  have body: "appendCompact dst src maxDepth =
     (case compactValue (parseFuel src) 0 (cp_skipSpace ?c) of
          None \<Rightarrow> None
        | Some (Inl e) \<Rightarrow> Some (dst, Some e)
        | Some (Inr c) \<Rightarrow>
            let c = cp_skipSpace c in
            if cp_i c \<noteq> length src then Some (dst, Some (cp_err c TrailingData))
            else Some (cp_dst c, None))"
    using False unfolding appendCompact_def literal_bytes by (simp only: de_Morgan_disj if_False simp_thms)
  have "cp_result (compactValue (parseFuel src) 0 (cp_skipSpace ?c)) =
      coarse_result (parseValue (parseFuel src) 0 (v_skipSpace (cp_view ?c)))"
    using compactValue_view [of "parseFuel src" 0 "cp_skipSpace ?c"] by simp
  then show ?thesis
  proof (cases rule: result_cases)
    case (3 c)
    have sp: "emits ?c (cp_skipSpace ?c)" by (rule emits_skipSpace) simp
    have "emits ?c c" by (rule emits_then [OF sp cv_emitsD [OF compactValue_emits 3(1)]])
    then have e: "emits ?c (cp_skipSpace c)" by (rule emits_then [OF _ emits_skipSpace])
    then obtain t where t: "cp_dst c = dst @ t" "lexed (segment src 0 (cp_i (cp_skipSpace c))) t" by (auto simp: emits_def)
    have s: "cp_src c = src" using emits_bound [OF e] by simp
    have "cp_i (cp_skipSpace c) = length src \<Longrightarrow> cp_dst c = dst @ strip src"
      using t lexedD [OF t(2)] by (simp add: segment_def)
    then show ?thesis using 3 s
      by (simp add: body validateOptions_run [of _ _ dst] runValidator_def coarse_return_def Let_def cp_err_eq)
  qed (simp_all add: body validateOptions_run [of _ _ dst] runValidator_def coarse_return_def)
qed

lemma coarse_return_ok: "coarse_return r = Some (out, None) \<longleftrightarrow> r = Some (out, None)"
  by (auto simp: coarse_return_def)

lemma appendCompact_ok:
  "document_text j src \<Longrightarrow> jdepth j \<le> effectiveDepth d \<Longrightarrow>
   appendCompact dst src d = Some (dst @ strip src, None)"
  using appendCompact_eq [of dst src d] validateOptions_iff [of src d] by (auto simp: coarse_return_ok)

lemma json_document: "json_text j t \<Longrightarrow> document_text j t"
  unfolding document_text_def by (metis append.left_neutral append.right_neutral ws_Nil)

text \<open>C30. \<^verbatim>\<open>appendCompact\<close> is the validator and the deletion of insignificant white space in one pass: on every input and every depth limit it fails exactly when the validator fails, with the validator's offset, line, column and message (up to the byte that message names) and the destination unchanged, and otherwise appends the source without the white space outside its strings.\<close>

theorem appendCompact_minifies:
  "coarse_return (appendCompact dst src maxDepth) =
     (case validateOptions src maxDepth of
        None \<Rightarrow> None
      | Some None \<Rightarrow> Some (dst @ strip src, None)
      | Some (Some e) \<Rightarrow> Some (dst, Some (coarse e)))"
  by (rule appendCompact_eq)

text \<open>Compaction keeps the document and is idempotent: a text of the document \<open>j\<close> within the depth limit compacts to a text of the same document, with the same keys, strings and number spellings, and compacting that text again returns it unchanged.\<close>

theorem compact_keeps_document:
  assumes "document_text j src" "jdepth j \<le> effectiveDepth d"
  shows "\<exists>out. appendCompact dst src d = Some (dst @ out, None) \<and> json_text j out \<and>
    appendCompact dst' out d = Some (dst' @ out, None)"
proof -
  note out = document_strip [OF assms(1)]
  show ?thesis
    using appendCompact_ok [OF assms, of dst] appendCompact_ok [OF json_document [OF out] assms(2), of dst'] out
    by (intro exI [of _ "strip src"]) (simp add: strip_strip)
qed

theorem compact_keeps_document_witness:
  "\<exists>out. appendCompact [0x31] (ascii ''[ true , 12]'') 4 = Some ([0x31] @ out, None) \<and>
    json_text (JArray [JTrue, JNumber (ascii ''12'')]) out \<and> appendCompact [] out 4 = Some ([] @ out, None)"
proof (rule compact_keeps_document)
  have "number_text (ascii ''12'')"
    unfolding number_text_def
    by (rule exI [of _ "[]"], rule exI [of _ "ascii ''12''"], rule exI [of _ "[]"], rule exI [of _ "[]"])
      (auto simp: int_text_def frac_text_def exp_text_def isOneNine_def isDigit_def)
  then have "elems_text [JTrue, JNumber (ascii ''12'')] (ascii '' true , 12'')"
    using elems_cons [OF _ true _ elems_one [OF _ number ws_Nil, of "[0x20]"], of "[0x20]" "[0x20]"]
    by (simp add: isJSONWhitespace_def)
  from array [OF this] show "document_text (JArray [JTrue, JNumber (ascii ''12'')]) (ascii ''[ true , 12]'')"
    by (intro json_document) simp
  show "jdepth (JArray [JTrue, JNumber (ascii ''12'')]) \<le> effectiveDepth 4"
    by (simp add: effectiveDepth_def)
qed

end
