(* ===== verification/IndentCorrect.thy ===== *)
theory IndentCorrect
  imports CompactCorrect
begin

text \<open>
  Indentation against the validator and the lexical layout. Its descent checks the depth once per value
  and not per container, so it is compared with the validator at two limits: what the validator accepts
  at the limit, indentation accepts, and what indentation accepts, the validator accepts at the limit
  plus one (only an empty container at the last level makes the difference).
\<close>

section \<open>Agreement with the validator\<close>

definition ip_view :: "nat \<Rightarrow> indentParser \<Rightarrow> validator" where
  "ip_view M p = \<lparr>v_src = ip_src p, v_i = ip_i p, v_maxDepth = M, v_layout = None\<rparr>"

lemma appendCopies_eq: "appendCopies k t dst = dst @ concat (replicate k t)"
  by (induction k arbitrary: dst) simp_all

lemma newline_eq: "newline depth p = ip_append (line_break (ip_prefix p) (ip_indent p) depth) p"
  by (simp add: newline_def ip_append_def line_break_def Let_def appendCopies_eq)

lemma ip_sel [simp]:
  "ip_src (ip_skipSpace p) = ip_src p" "ip_dst (ip_skipSpace p) = ip_dst p"
  "ip_i (ip_skipSpace p) = skipSpace (ip_src p) (ip_i p)" "ip_maxDepth (ip_skipSpace p) = ip_maxDepth p"
  "ip_prefix (ip_skipSpace p) = ip_prefix p" "ip_indent (ip_skipSpace p) = ip_indent p"
  "ip_src (ip_advance p) = ip_src p" "ip_dst (ip_advance p) = ip_dst p"
  "ip_i (ip_advance p) = Suc (ip_i p)" "ip_maxDepth (ip_advance p) = ip_maxDepth p"
  "ip_prefix (ip_advance p) = ip_prefix p" "ip_indent (ip_advance p) = ip_indent p"
  "ip_src (ip_append t p) = ip_src p" "ip_dst (ip_append t p) = ip_dst p @ t"
  "ip_i (ip_append t p) = ip_i p" "ip_maxDepth (ip_append t p) = ip_maxDepth p"
  "ip_prefix (ip_append t p) = ip_prefix p" "ip_indent (ip_append t p) = ip_indent p"
  by (simp_all add: ip_skipSpace_def ip_advance_def ip_append_def)

lemma ip_view_simps [simp]:
  "v_src (ip_view M p) = ip_src p" "v_i (ip_view M p) = ip_i p" "v_maxDepth (ip_view M p) = M"
  "ip_view M (ip_skipSpace p) = v_skipSpace (ip_view M p)" "ip_view M (ip_append t p) = ip_view M p"
  "ip_view M (ip_advance p) = v_advance (ip_view M p)" "ip_view M (newline depth p) = ip_view M p"
  "countValue (ip_view M p) = ip_view M p" "countMember (ip_view M p) = ip_view M p"
  "openContainer (ip_view M p) = (None, v_advance (ip_view M p))"
  by (simp_all add: ip_view_def v_skipSpace_def ip_skipSpace_def v_advance_def ip_advance_def newline_eq
      ip_append_def countValue_def countMember_def openContainer_def)

lemma ip_at_eq: "ip_at p x = v_at (ip_view M p) x"
  by (simp add: v_at_def ip_at_def)

definition failed :: "(SyntaxError + 'a) option \<Rightarrow> bool" where
  "failed r \<longleftrightarrow> (\<exists>e. r = Some (Inl e))"

lemma failed_simps [simp]: "failed (Some (Inl e))" "\<not> failed None" "\<not> failed (Some (Inr x))"
  by (simp_all add: failed_def)

text \<open>\<open>agree m M r s\<close> for the limit \<open>m\<close> of the transform and the limit \<open>M\<close> of the validator, one of \<open>m\<close>
  and \<open>m + 1\<close>: the results match unless the side that is allowed to be stricter fails.\<close>

definition agree :: "nat \<Rightarrow> nat \<Rightarrow> (SyntaxError + indentParser) option \<Rightarrow> (SyntaxError + validator) option \<Rightarrow> bool" where
  "agree m M r s \<longleftrightarrow>
     (case r of
        None \<Rightarrow> s = None \<or> failed s \<and> M = m
      | Some (Inl e) \<Rightarrow> failed s \<or> M = Suc m
      | Some (Inr p) \<Rightarrow> ip_maxDepth p = m \<and> s = Some (Inr (ip_view M p)) \<or> failed s \<and> M = m)"

lemma agree_simps [simp]:
  "agree m M (Some (Inr p)) (Some (Inr v)) \<longleftrightarrow> ip_maxDepth p = m \<and> v = ip_view M p"
  "agree m M (Some (Inl e)) (Some (Inl e'))" "agree m M None None"
  by (simp_all add: agree_def)

lemma agree_strict: "failed s \<Longrightarrow> agree m m r s"
  by (auto simp: agree_def split: option.split sum.split)

lemma agree_lenient: "failed r \<Longrightarrow> agree m (Suc m) r s"
  by (auto simp: agree_def failed_def)

lemma agree_cases:
  assumes "agree m M r s"
  obtains "r = None" "s = None"
  | p where "r = Some (Inr p)" "s = Some (Inr (ip_view M p))" "ip_maxDepth p = m"
  | e e' where "r = Some (Inl e)" "s = Some (Inl e')"
  | e where "r = Some (Inl e)" "M = Suc m"
  | e where "s = Some (Inl e)" "M = m"
  using assms by (auto simp: agree_def failed_def split: option.splits sum.splits)

lemma indent_leaf:
  "agree (ip_maxDepth p) M (Some (indentLiteral lit p)) (Some (parseLiteral lit (ip_view M p)))"
  "agree (ip_maxDepth p) M (Some (indentNumber p)) (Some (parseNumber (ip_view M p)))"
  "agree (ip_maxDepth p) M (Some (indentString p)) (Some (parseString (ip_view M p)))"
  by (auto simp: agree_def failed_def indentLiteral_def parseLiteral_def indentNumber_def appendJSONNumberToken_def
      parseNumber_def indentString_def appendJSONStringToken_cases parseString_def ip_view_def
      split: prod.split option.split sum.split)

lemma indentElems_agree:
  assumes iv: "\<And>d p. ip_maxDepth p = m \<Longrightarrow> agree m M (iv d p) (pv d (ip_view M p))" and M: "M = m \<or> M = Suc m"
  shows "ip_maxDepth p = m \<Longrightarrow> agree m M (indentElems iv n d p) (parseElems pv n (Suc d) None k (ip_view M p))"
proof (induction n arbitrary: p k)
  case (Suc n)
  let ?p = "ip_skipSpace (newline (d + 1) p)"
  note step = indentElems.simps parseElems.simps Let_def newline_eq
  have "agree m M (iv (d + 1) ?p) (pv (Suc d) (v_skipSpace (ip_view M p)))"
    using iv [of ?p "d + 1"] Suc.prems by (simp add: newline_eq)
  then show ?case
  proof (cases rule: agree_cases)
    case (2 y)
    then show ?thesis
      using Suc.IH [of "ip_append [0x2C] (ip_advance (ip_skipSpace y))" "Suc k"] by (simp add: step)
  qed (simp_all add: step agree_strict agree_lenient)
qed (simp add: indentElems.simps parseElems.simps)

lemma indentMembers_agree:
  assumes iv: "\<And>d p. ip_maxDepth p = m \<Longrightarrow> agree m M (iv d p) (pv d (ip_view M p))" and M: "M = m \<or> M = Suc m"
  shows "ip_maxDepth p = m \<Longrightarrow> agree m M (indentMembers iv n d p) (parseMembers pv n (Suc d) None k (ip_view M p))"
proof (induction n arbitrary: p k)
  case (Suc n)
  let ?p = "ip_skipSpace (newline (d + 1) p)"
  note step = indentMembers.simps parseMembers.simps Let_def newline_eq ip_at_eq [of _ _ M]
  have "agree m M (Some (indentString ?p)) (Some (parseString (v_skipSpace (ip_view M p))))"
    using indent_leaf(3) [of ?p M] Suc.prems by (simp add: newline_eq)
  then show ?case
  proof (cases rule: agree_cases)
    case (2 y)
    let ?y = "ip_skipSpace (ip_append [0x3A, 0x20] (ip_advance (ip_skipSpace y)))"
    have "agree m M (iv (d + 1) ?y) (pv (Suc d) (v_skipSpace (v_advance (v_skipSpace (ip_view M y)))))"
      using iv [of ?y "d + 1"] 2(3) by simp
    then show ?thesis
    proof (cases rule: agree_cases)
      case z: (2 z)
      then show ?thesis using 2
          Suc.IH [of "ip_append [0x2C] (ip_advance (ip_skipSpace z))" "Suc k"] by (simp add: step)
    qed (use 2 in \<open>simp_all add: step agree_strict agree_lenient\<close>)
  qed (simp_all add: step agree_strict agree_lenient)
qed (simp add: indentMembers.simps parseMembers.simps)

lemma indent_containers_agree:
  assumes iv: "\<And>d p. ip_maxDepth p = m \<Longrightarrow> agree m M (iv d p) (pv d (ip_view M p))" and M: "M = m \<or> M = Suc m"
    and p: "ip_maxDepth p = m" "d \<le> m"
  shows "agree m M (indentArray iv d p) (parseArray pv (Suc d) (ip_view M p))"
    and "agree m M (indentObject iv d p) (parseObject pv (Suc d) (ip_view M p))"
proof -
  let ?a = "ip_skipSpace (ip_append [0x5B] (ip_advance p))" and ?o = "ip_skipSpace (ip_append [0x7B] (ip_advance p))"
  have "M < Suc d \<Longrightarrow> M = m" using M p(2) by auto
  then show "agree m M (indentArray iv d p) (parseArray pv (Suc d) (ip_view M p))"
    "agree m M (indentObject iv d p) (parseObject pv (Suc d) (ip_view M p))"
    using indentElems_agree [of m M iv pv ?a "length (ip_src p) + 1" d 0, OF iv M]
      indentMembers_agree [of m M iv pv ?o "length (ip_src p) + 1" d 0, OF iv M] p(1)
    by (auto simp: indentArray_def parseArray_def indentObject_def parseObject_def Let_def agree_strict ip_at_eq [of _ _ M])
qed

lemma indentValue_agree:
  assumes M: "M = m \<or> M = Suc m"
  shows "ip_maxDepth p = m \<Longrightarrow> agree m M (indentValue n d p) (parseValue n d (ip_view M p))"
proof (induction n arbitrary: d p)
  case (Suc n)
  show ?case
  proof (cases "d \<le> m")
    case True
    then have "\<not> M < d" using M by auto
    then show ?thesis using True Suc.prems indent_leaf [of p M]
        indent_containers_agree [of m M "indentValue n" "parseValue n" p d, OF Suc.IH M Suc.prems True]
      by (simp add: indentValue.simps parseValue.simps Let_def)
  next
    case False
    then show ?thesis using M Suc.prems
      by (auto simp: indentValue.simps parseValue.simps intro: agree_lenient)
  qed
qed (simp add: indentValue.simps parseValue.simps)

section \<open>What indentation appends\<close>

definition ip_frame :: "indentParser \<Rightarrow> indentParser \<Rightarrow> bool" where
  "ip_frame p p' \<longleftrightarrow> ip_src p' = ip_src p \<and> ip_prefix p' = ip_prefix p \<and> ip_indent p' = ip_indent p \<and>
     ip_i p \<le> ip_i p' \<and> ip_i p' \<le> length (ip_src p)"

text \<open>The consumed bytes strip to \<open>u\<close>, the bytes appended are \<open>w\<close>.\<close>

definition moves :: "indentParser \<Rightarrow> bytes \<Rightarrow> bytes \<Rightarrow> indentParser \<Rightarrow> bool" where
  "moves p u w p' \<longleftrightarrow> ip_frame p p' \<and> ip_dst p' = ip_dst p @ w \<and>
     lexed (segment (ip_src p) (ip_i p) (ip_i p')) u"

lemma moves_trans:
  assumes "moves a u w b" "moves b u' w' c"
  shows "moves a (u @ u') (w @ w') c"
  using assms lexed_append [of "segment (ip_src a) (ip_i a) (ip_i b)" u "segment (ip_src a) (ip_i b) (ip_i c)" u']
  by (auto simp: moves_def ip_frame_def segment_append)

lemma moves_bound: "moves a u w b \<Longrightarrow> ip_i b \<le> length (ip_src b)"
  by (simp add: moves_def ip_frame_def)

lemma moves_sel: "moves a u w b \<Longrightarrow> ip_src b = ip_src a \<and> ip_prefix b = ip_prefix a \<and> ip_indent b = ip_indent a"
  by (simp add: moves_def ip_frame_def)

lemma moves_skipSpace: "ip_i p \<le> length (ip_src p) \<Longrightarrow> moves p [] [] (ip_skipSpace p)"
  using skipSpace_sound [of "ip_i p" "ip_src p"] by (auto simp: moves_def ip_frame_def intro: lexed_ws)

lemma moves_append: "ip_i p \<le> length (ip_src p) \<Longrightarrow> moves p [] t (ip_append t p)"
  by (simp add: moves_def ip_frame_def)

lemma moves_structural:
  assumes "ip_i p < length (ip_src p)" "ip_src p ! ip_i p = b" "is_structural b"
  shows "moves p [b] [] (ip_advance p)"
  using assms structural_lexed [OF assms(3)] by (simp add: moves_def ip_frame_def segment_one)

lemma moves_next:
  assumes "moves a u w c" "ip_i (ip_skipSpace c) < length (ip_src c)" "ip_src c ! ip_i (ip_skipSpace c) = b" "is_structural b"
  shows "moves a (u @ [b]) w (ip_advance (ip_skipSpace c))"
  using moves_trans [OF moves_trans [OF assms(1) moves_skipSpace [OF moves_bound [OF assms(1)]]] moves_structural [of "ip_skipSpace c" b]] assms
  by simp

lemma moves_then: "moves a u w b \<Longrightarrow> (ip_i b \<le> length (ip_src b) \<Longrightarrow> moves b u' w' c) \<Longrightarrow> moves a (u @ u') (w @ w') c"
  using moves_trans moves_bound by blast

lemma moves_string:
  assumes "indentString p = Inr p'" "ip_at p 0x22"
  shows "\<exists>k rs. string_text k rs \<and> moves p (0x22 # k @ [0x22]) (0x22 # k @ [0x22]) p'"
proof -
  have p': "p' = p\<lparr>ip_dst := ip_dst p @ segment (ip_src p) (ip_i p) (ip_i p'), ip_i := ip_i p'\<rparr>"
    using assms(1) by (auto simp: indentString_def appendJSONStringToken_cases split: sum.splits)
  have v: "parseString (ip_view m p) = Inr (ip_view m p')" for m
    using assms(1) by (auto simp: indentString_def appendJSONStringToken_cases parseString_def ip_view_def split: sum.splits)
  have i: "ip_i p < length (ip_src p)" "ip_src p ! ip_i p = 0x22" using assms(2) by (simp_all add: ip_at_def)
  note s = parseString_sound(1,3-5) [OF v [of 0], simplified, OF i]
  obtain k rs where k: "string_text k rs" "segment (ip_src p) (ip_i p) (ip_i p') = 0x22 # k @ [0x22]" using s(4) by blast
  have "ip_dst p' = ip_dst p @ 0x22 # k @ [0x22]" "ip_src p' = ip_src p" "ip_prefix p' = ip_prefix p" "ip_indent p' = ip_indent p"
    by (subst p', simp add: k(2))+
  then show ?thesis using s k string_lexed [OF k(1)] by (intro exI [of _ k] exI [of _ rs]) (simp add: moves_def ip_frame_def)
qed

text \<open>What a value at nesting \<open>d\<close> contributes, and what the rest of a container whose elements are at
  nesting \<open>d + 1\<close> contributes, from before the line break of its next element.\<close>

definition value_out :: "nat \<Rightarrow> indentParser \<Rightarrow> indentParser \<Rightarrow> bool" where
  "value_out d p p' \<longleftrightarrow> (\<exists>u w. moves p u w p' \<and> laid (ip_prefix p) (ip_indent p) d u w \<and> u \<noteq> [] \<and> \<not> closes (hd u))"

definition rest_out :: "nat \<Rightarrow> indentParser \<Rightarrow> indentParser \<Rightarrow> bool" where
  "rest_out d p p' \<longleftrightarrow> (\<exists>u w. moves p u w p' \<and> u \<noteq> [] \<and> \<not> closes (hd u) \<and>
     (\<forall>rest. line_break (ip_prefix p) (ip_indent p) (Suc d) @ reflow (ip_prefix p) (ip_indent p) Outside (Suc d) (u @ rest) =
        w @ reflow (ip_prefix p) (ip_indent p) Outside d rest))"

lemma value_out_string:
  assumes "indentString p = Inr p'" "ip_at p 0x22"
  shows "value_out d p p'"
proof -
  obtain k rs where k: "string_text k rs" "moves p (0x22 # k @ [0x22]) (0x22 # k @ [0x22]) p'" using moves_string [OF assms] by blast
  show ?thesis unfolding value_out_def using k string_laid [OF k(1)]
    by (intro exI [of _ "0x22 # k @ [0x22]"]) (auto simp: closes_def)
qed

lemma value_out_token:
  assumes "p' = p\<lparr>ip_dst := ip_dst p @ t, ip_i := e\<rparr>" "segment (ip_src p) (ip_i p) e = t" "\<forall>c \<in> set t. is_token_byte c"
    "ip_i p < e" "e \<le> length (ip_src p)"
  shows "value_out d p p'"
proof -
  have t: "t \<noteq> []" using assms(2,4,5) length_segment [OF assms(5), of "ip_i p"] by auto
  then have "\<not> closes (hd t)" using token_plain assms(3) by (metis hd_in_set)
  then show ?thesis unfolding value_out_def
    using assms t lexed_token [OF assms(3)] laid_token [OF assms(3)] by (intro exI [of _ t]) (simp add: moves_def ip_frame_def)
qed

lemma value_out_number:
  assumes "indentNumber p = Inr p'" "ip_i p \<le> length (ip_src p)"
  shows "value_out d p p'"
proof -
  obtain e where e: "scanNumber (ip_src p) (ip_i p) = (e, None)"
    "p' = p\<lparr>ip_dst := ip_dst p @ segment (ip_src p) (ip_i p) e, ip_i := e\<rparr>"
    using assms(1) by (auto simp: indentNumber_def appendJSONNumberToken_def parseNumber_def split: prod.splits option.splits)
  show ?thesis using scanNumber_sound [OF e(1) assms(2)] value_out_token [OF e(2) refl] number_text_token by blast
qed

lemma value_out_literal:
  assumes "indentLiteral lit p = Inr p'" "ip_i p \<le> length (ip_src p)" "\<forall>b \<in> set lit. is_token_byte b" "lit \<noteq> []"
  shows "value_out d p p'"
proof -
  have m: "matchStringAt (ip_src p) (ip_i p) lit" and p': "p' = p\<lparr>ip_dst := ip_dst p @ lit, ip_i := ip_i p + length lit\<rparr>"
    using assms(1) by (auto simp: indentLiteral_def split: if_splits)
  have "segment (ip_src p) (ip_i p) (ip_i p + length lit) = lit"
    using m assms(2) by (simp add: matchStringAt_iff segment_def get_bytes_def)
  then show ?thesis using m assms(2,4) by (intro value_out_token [OF p' _ assms(3)]) (auto simp: matchStringAt_iff)
qed

definition iv_out :: "(nat \<Rightarrow> indentParser \<Rightarrow> (SyntaxError + indentParser) option) \<Rightarrow> bool" where
  "iv_out iv \<longleftrightarrow> (\<forall>d p p'. iv d p = Some (Inr p') \<longrightarrow> ip_i p \<le> length (ip_src p) \<longrightarrow> value_out d p p')"

lemma iv_outD: "iv_out iv \<Longrightarrow> iv d p = Some (Inr p') \<Longrightarrow> ip_i p \<le> length (ip_src p) \<Longrightarrow> value_out d p p'"
  by (auto simp: iv_out_def)

text \<open>One element at nesting \<open>d + 1\<close>, preceded by its line break, up to the next significant byte: the
  closing bracket ends the container, a comma continues it.\<close>

lemma rest_out_close:
  assumes m: "moves p u (line_break (ip_prefix p) (ip_indent p) (Suc d) @ w) y" and l: "laid (ip_prefix p) (ip_indent p) (Suc d) u w"
    and u: "u \<noteq> []" "\<not> closes (hd u)" and r: "closes r" "is_structural r"
    and y: "ip_i (ip_skipSpace y) < length (ip_src y)" "ip_src y ! ip_i (ip_skipSpace y) = r"
  shows "rest_out d p (ip_append [r] (newline d (ip_advance (ip_skipSpace y))))"
proof -
  let ?P = "ip_prefix p" and ?Q = "ip_indent p"
  let ?b = "line_break ?P ?Q d @ [r]"
  have eq: "ip_append [r] (newline d (ip_advance (ip_skipSpace y))) = ip_append ?b (ip_advance (ip_skipSpace y))"
    using moves_sel [OF m] by (simp add: newline_eq ip_append_def)
  note m1 = moves_next [OF m y r(2)]
  have m2: "moves p (u @ [r]) ((line_break ?P ?Q (Suc d) @ w) @ ?b) (ip_append ?b (ip_advance (ip_skipSpace y)))"
    using moves_then [OF m1 moves_append [of _ ?b]] by simp
  have r': "reflow ?P ?Q Outside (Suc d) (r # rest) = ?b @ reflow ?P ?Q Outside d rest" for rest
    using r bracket_simps(2) [OF r(1)] by (cases rest) simp_all
  show ?thesis unfolding rest_out_def eq
    by (rule exI [of _ "u @ [r]"], rule exI [of _ "(line_break ?P ?Q (Suc d) @ w) @ ?b"])
      (use m2 u l in \<open>simp add: laid_def r'\<close>)
qed

lemma rest_out_comma:
  assumes m: "moves p u (line_break (ip_prefix p) (ip_indent p) (Suc d) @ w) y" and l: "laid (ip_prefix p) (ip_indent p) (Suc d) u w"
    and u: "u \<noteq> []" "\<not> closes (hd u)"
    and y: "ip_i (ip_skipSpace y) < length (ip_src y)" "ip_src y ! ip_i (ip_skipSpace y) = 0x2C"
    and rest: "rest_out d (ip_append [0x2C] (ip_advance (ip_skipSpace y))) p'"
  shows "rest_out d p p'"
proof -
  let ?P = "ip_prefix p" and ?Q = "ip_indent p"
  let ?y = "ip_append [0x2C] (ip_advance (ip_skipSpace y))"
  have sel: "ip_prefix ?y = ?P" "ip_indent ?y = ?Q" using moves_sel [OF m] by simp_all
  obtain u' w' where r: "moves ?y u' w' p'" "u' \<noteq> []"
    "\<forall>rest. line_break ?P ?Q (Suc d) @ reflow ?P ?Q Outside (Suc d) (u' @ rest) = w' @ reflow ?P ?Q Outside d rest"
    using rest unfolding rest_out_def sel by blast
  have "moves p (u @ [0x2C]) ((line_break ?P ?Q (Suc d) @ w) @ [0x2C]) ?y"
    using moves_then [OF moves_next [OF m y] moves_append [of _ "[0x2C]"]] by simp
  from moves_trans [OF this r(1)]
  have mv: "moves p ((u @ [0x2C]) @ u') (((line_break ?P ?Q (Suc d) @ w) @ [0x2C]) @ w') p'" .
  have "line_break ?P ?Q (Suc d) @ reflow ?P ?Q Outside (Suc d) (((u @ [0x2C]) @ u') @ rest) =
      (((line_break ?P ?Q (Suc d) @ w) @ [0x2C]) @ w') @ reflow ?P ?Q Outside d rest" for rest
    using l r(2,3) by (simp add: laid_def laid_comma)
  then show ?thesis unfolding rest_out_def using mv u
    by (intro exI [of _ "(u @ [0x2C]) @ u'"] exI [of _ "((line_break ?P ?Q (Suc d) @ w) @ [0x2C]) @ w'"]) simp
qed

lemma moves_newline:
  assumes "ip_i p \<le> length (ip_src p)"
  shows "moves p [] (line_break (ip_prefix p) (ip_indent p) d) (ip_skipSpace (newline d p))"
  using moves_then [OF moves_append [OF assms] moves_skipSpace] by (simp add: newline_eq)

lemma indentElems_out:
  assumes iv: "iv_out iv"
  shows "indentElems iv n d p = Some (Inr p') \<Longrightarrow> ip_i p \<le> length (ip_src p) \<Longrightarrow> rest_out d p p'"
proof (induction n arbitrary: p)
  case (Suc n)
  let ?p = "ip_skipSpace (newline (d + 1) p)" and ?lb = "line_break (ip_prefix p) (ip_indent p) (Suc d)"
  obtain y where y: "iv (d + 1) ?p = Some (Inr y)"
    using Suc.prems(1) by (auto simp: indentElems.simps split: option.splits sum.splits)
  note mp = moves_newline [OF Suc.prems(2), of "Suc d"]
  obtain u w where u: "moves ?p u w y" "laid (ip_prefix p) (ip_indent p) (Suc d) u w" "u \<noteq> []" "\<not> closes (hd u)"
    using iv_outD [OF iv y] moves_bound [OF mp] moves_sel [OF mp] by (auto simp: value_out_def)
  have m: "moves p u (?lb @ w) y" using moves_trans [OF mp u(1) [unfolded Suc_eq_plus1 [symmetric]]] by simp
  let ?y = "ip_skipSpace y"
  have i: "ip_i ?y < length (ip_src y)" and
    "ip_src y ! ip_i ?y = 0x2C \<and> indentElems iv n d (ip_append [0x2C] (ip_advance ?y)) = Some (Inr p') \<or>
     ip_src y ! ip_i ?y = 0x5D \<and> p' = ip_append [0x5D] (newline d (ip_advance ?y))"
    using Suc.prems(1) y by (auto simp: indentElems.simps Let_def split: if_splits)
  then show ?case
    using rest_out_close [OF m u(2-4) _ _ i, of "0x5D"] rest_out_comma [OF m u(2-4) i] Suc.IH [of "ip_append [0x2C] (ip_advance ?y)"]
    by (auto simp: closes_def)
qed (simp add: indentElems.simps)

lemma indentMembers_out:
  assumes iv: "iv_out iv"
  shows "indentMembers iv n d p = Some (Inr p') \<Longrightarrow> ip_i p \<le> length (ip_src p) \<Longrightarrow> rest_out d p p'"
proof (induction n arbitrary: p)
  case (Suc n)
  let ?p = "ip_skipSpace (newline (d + 1) p)" and ?P = "ip_prefix p" and ?Q = "ip_indent p"
  let ?lb = "line_break ?P ?Q (Suc d)"
  have q: "ip_at ?p 0x22"
    using Suc.prems(1) by (auto simp: indentMembers.simps Let_def split: if_splits)
  obtain k where k: "indentString ?p = Inr k" "ip_at (ip_skipSpace k) 0x3A"
    using Suc.prems(1) by (auto simp: indentMembers.simps Let_def split: if_splits sum.splits)
  let ?k = "ip_append [0x3A, 0x20] (ip_advance (ip_skipSpace k))"
  obtain y where y: "iv (d + 1) (ip_skipSpace ?k) = Some (Inr y)"
    using Suc.prems(1) k q by (auto simp: indentMembers.simps Let_def split: option.splits sum.splits)
  note mp = moves_newline [OF Suc.prems(2), of "Suc d"]
  obtain t rs where t: "string_text t rs" "moves ?p (0x22 # t @ [0x22]) (0x22 # t @ [0x22]) k"
    using moves_string [OF k(1) q] by blast
  let ?t = "0x22 # t @ [0x22]"
  have mk: "moves p ?t (?lb @ ?t) k" using moves_trans [OF mp t(2) [unfolded Suc_eq_plus1 [symmetric]]] by simp
  have "moves p (?t @ [0x3A]) ((?lb @ ?t) @ [0x3A, 0x20]) ?k"
    using moves_then [OF moves_next [OF mk, of "0x3A"] moves_append [of _ "[0x3A, 0x20]"]] k(2) by (simp add: ip_at_def)
  from moves_then [OF this moves_skipSpace]
  have mk': "moves p (?t @ [0x3A]) ((?lb @ ?t) @ [0x3A, 0x20]) (ip_skipSpace ?k)" by simp
  obtain u w where u: "moves (ip_skipSpace ?k) u w y" "laid ?P ?Q (Suc d) u w" "u \<noteq> []"
    using iv_outD [OF iv y] moves_bound [OF mk'] moves_sel [OF mk'] by (auto simp: value_out_def)
  have m: "moves p (?t @ 0x3A # u) (?lb @ (?t @ 0x3A # 0x20 # w)) y" using moves_trans [OF mk' u(1)] by simp
  have l: "laid ?P ?Q (Suc d) (?t @ 0x3A # u) (?t @ 0x3A # 0x20 # w)" by (rule laid_member [OF t(1) u(2,3)])
  let ?y = "ip_skipSpace y"
  have i: "ip_i ?y < length (ip_src y)" and
    "ip_src y ! ip_i ?y = 0x2C \<and> indentMembers iv n d (ip_append [0x2C] (ip_advance ?y)) = Some (Inr p') \<or>
     ip_src y ! ip_i ?y = 0x7D \<and> p' = ip_append [0x7D] (newline d (ip_advance ?y))"
    using Suc.prems(1) y k q by (auto simp: indentMembers.simps Let_def split: if_splits)
  then show ?case
    using rest_out_close [OF m l _ _ _ _ i, of "0x7D"] rest_out_comma [OF m l _ _ i] Suc.IH [of "ip_append [0x2C] (ip_advance ?y)"]
    by (auto simp: closes_def)
qed (simp add: indentMembers.simps)

lemma container_out:
  assumes p: "ip_at p l" "opens l" "closes r" "is_structural l" "is_structural r"
    and c: "ip_at (ip_skipSpace (ip_append [l] (ip_advance p))) r \<and>
        p' = ip_append [r] (ip_advance (ip_skipSpace (ip_append [l] (ip_advance p)))) \<or>
      rest_out d (ip_skipSpace (ip_append [l] (ip_advance p))) p'"
  shows "value_out d p p'"
proof -
  let ?a = "ip_skipSpace (ip_append [l] (ip_advance p))" and ?P = "ip_prefix p" and ?Q = "ip_indent p"
  have "moves p [l] [] (ip_advance p)" using p by (intro moves_structural) (simp_all add: ip_at_def)
  from moves_then [OF moves_then [OF this moves_append] moves_skipSpace, of "[l]"]
  have m: "moves p [l] [l] ?a" by simp
  note l = bracket_simps(1) [OF p(2)]
  from c show ?thesis
  proof
    assume e: "ip_at ?a r \<and> p' = ip_append [r] (ip_advance ?a)"
    then have "moves ?a [r] [] (ip_advance ?a)" using p(5) by (intro moves_structural) (simp_all add: ip_at_def)
    from moves_then [OF moves_trans [OF m this] moves_append, of "[r]"]
    have "moves p [l, r] [l, r] p'" using e by simp
    then show ?thesis unfolding value_out_def using laid_empty [OF p(2,3)] l by (intro exI [of _ "[l, r]"]) simp
  next
    assume "rest_out d ?a p'"
    then obtain u w where u: "moves ?a u w p'" "u \<noteq> []" "\<not> closes (hd u)"
      "\<forall>rest. line_break ?P ?Q (Suc d) @ reflow ?P ?Q Outside (Suc d) (u @ rest) = w @ reflow ?P ?Q Outside d rest"
      by (auto simp: rest_out_def)
    obtain x u' where x: "u = x # u'" using u(2) by (cases u) auto
    have "reflow ?P ?Q Outside d ((l # u) @ rest) = (l # w) @ reflow ?P ?Q Outside d rest" for rest
      using u(3,4) x p(2) by simp
    then show ?thesis unfolding value_out_def using moves_trans [OF m u(1)] l
      by (intro exI [of _ "l # u"] exI [of _ "l # w"]) (simp add: laid_def)
  qed
qed

lemma indentArray_out:
  assumes iv: "iv_out iv" and r: "indentArray iv d p = Some (Inr p')" and b: "ip_at p 0x5B"
  shows "value_out d p p'"
proof -
  let ?a = "ip_skipSpace (ip_append [0x5B] (ip_advance p))"
  have "ip_i ?a \<le> length (ip_src ?a)" using b skipSpace_sound(2) [of "Suc (ip_i p)" "ip_src p"] by (simp add: ip_at_def)
  then have "ip_at ?a 0x5D \<and> p' = ip_append [0x5D] (ip_advance ?a) \<or> rest_out d ?a p'"
    using r indentElems_out [OF iv] by (auto simp: indentArray_def Let_def split: if_splits)
  then show ?thesis by (intro container_out [OF b]) (simp_all add: opens_def closes_def)
qed

lemma indentObject_out:
  assumes iv: "iv_out iv" and r: "indentObject iv d p = Some (Inr p')" and b: "ip_at p 0x7B"
  shows "value_out d p p'"
proof -
  let ?a = "ip_skipSpace (ip_append [0x7B] (ip_advance p))"
  have "ip_i ?a \<le> length (ip_src ?a)" using b skipSpace_sound(2) [of "Suc (ip_i p)" "ip_src p"] by (simp add: ip_at_def)
  then have "ip_at ?a 0x7D \<and> p' = ip_append [0x7D] (ip_advance ?a) \<or> rest_out d ?a p'"
    using r indentMembers_out [OF iv] by (auto simp: indentObject_def Let_def split: if_splits)
  then show ?thesis by (intro container_out [OF b]) (simp_all add: opens_def closes_def)
qed

lemma indentValue_out: "iv_out (indentValue n)"
proof (induction n)
  case (Suc n)
  show ?case unfolding iv_out_def
  proof (intro allI impI)
    fix d p p'
    assume a: "indentValue (Suc n) d p = Some (Inr p')" and i: "ip_i p \<le> length (ip_src p)"
    have g: "d \<le> ip_maxDepth p" "ip_i p < length (ip_src p)"
      using a by (auto simp: indentValue.simps split: if_splits)
    define b where "b = ip_src p ! ip_i p"
    have at: "b = x \<Longrightarrow> ip_at p x" for x using g(2) by (simp add: ip_at_def b_def)
    have "(if b = 0x6E then Some (indentLiteral (ascii ''null'') p)
        else if b = 0x74 then Some (indentLiteral (ascii ''true'') p)
        else if b = 0x66 then Some (indentLiteral (ascii ''false'') p)
        else if b = 0x22 then Some (indentString p)
        else if b = 0x5B then indentArray (indentValue n) d p
        else if b = 0x7B then indentObject (indentValue n) d p
        else if b = 0x2D \<or> isDigit b then Some (indentNumber p)
        else Some (Inl (ip_err p UnexpectedValueByte))) = Some (Inr p')"
      using a unfolding b_def
      by (simp only: indentValue.simps Let_def leD [OF g(1)] not_le [THEN iffD2, OF g(2)] if_False)
    then consider "indentLiteral (ascii ''null'') p = Inr p'" | "indentLiteral (ascii ''true'') p = Inr p'"
      | "indentLiteral (ascii ''false'') p = Inr p'" | "b = 0x22" "indentString p = Inr p'"
      | "b = 0x5B" "indentArray (indentValue n) d p = Some (Inr p')"
      | "b = 0x7B" "indentObject (indentValue n) d p = Some (Inr p')"
      | "indentNumber p = Inr p'"
      by (auto split: if_splits)
    then show "value_out d p p'"
    proof cases
      case 1 then show ?thesis using value_out_literal [OF _ i literal_token(1)] by simp
    next
      case 2 then show ?thesis using value_out_literal [OF _ i literal_token(2)] by simp
    next
      case 3 then show ?thesis using value_out_literal [OF _ i literal_token(3)] by simp
    next
      case 4 then show ?thesis using value_out_string [OF _ at] by blast
    next
      case 5 then show ?thesis using indentArray_out [OF Suc.IH _ at] by blast
    next
      case 6 then show ?thesis using indentObject_out [OF Suc.IH _ at] by blast
    next
      case 7 then show ?thesis using value_out_number [OF _ i] by blast
    qed
  qed
qed (simp add: iv_out_def indentValue.simps)

section \<open>The whole transform\<close>

abbreviation indent_start :: "bytes \<Rightarrow> bytes \<Rightarrow> bytes \<Rightarrow> bytes \<Rightarrow> int \<Rightarrow> indentParser" where
  "indent_start dst src p q d \<equiv> \<lparr>ip_src = src, ip_dst = dst, ip_i = 0, ip_maxDepth = effectiveDepth d,
     ip_prefix = p, ip_indent = q\<rparr>"

lemma indent_run_out:
  assumes v: "indentValue n 0 (ip_skipSpace (indent_start dst src p q d)) = Some (Inr y)"
  shows "ip_src y = src" "ip_i (ip_skipSpace y) = length src \<Longrightarrow> ip_dst y = dst @ reflow p q Outside 0 (strip src)"
proof -
  let ?s = "indent_start dst src p q d"
  have sp: "moves ?s [] [] (ip_skipSpace ?s)" by (rule moves_skipSpace) simp
  obtain u w where u: "moves (ip_skipSpace ?s) u w y" "laid p q 0 u w"
    using iv_outD [OF indentValue_out v moves_bound [OF sp]] by (auto simp: value_out_def)
  have m: "moves ?s u w (ip_skipSpace y)" using moves_then [OF moves_trans [OF sp u(1)] moves_skipSpace] by simp
  then show "ip_src y = src" using moves_sel [OF m] by simp
  assume "ip_i (ip_skipSpace y) = length src"
  then have "lexed src u" "ip_dst y = dst @ w" using m by (simp_all add: moves_def segment_def)
  then show "ip_dst y = dst @ reflow p q Outside 0 (strip src)" using laidD [OF u(2)] lexedD by simp
qed

lemma verdict_None: "(case r of Inl e \<Rightarrow> Some e | Inr _ \<Rightarrow> None) = None \<longleftrightarrow> (\<exists>v. r = Inr v)"
  by (cases r) simp_all

lemma validateOptions_view:
  "validateOptions src d = map_option (\<lambda>r. case r of Inl e \<Rightarrow> Some e | Inr _ \<Rightarrow> None)
     (runValidator (ip_view (effectiveDepth d) (indent_start dst src p q d)))"
  by (simp add: validateOptions_def ip_view_def)

lemma appendIndentBytes_strict:
  assumes "validateOptions src d = Some None"
  shows "appendIndentBytes dst src p q d = Some (dst @ reflow p q Outside 0 (strip src), None)"
proof -
  let ?s = "indent_start dst src p q d" and ?m = "effectiveDepth d"
  obtain v' where "runValidator (ip_view ?m ?s) = Some (Inr v')"
    using assms by (auto simp: validateOptions_view [of src d dst p q] verdict_None)
  then obtain v where v: "parseValue (parseFuel src) 0 (v_skipSpace (ip_view ?m ?s)) = Some (Inr v)"
    "skipSpace (v_src v) (v_i v) = length (v_src v)"
    by (auto simp: runValidator_def Let_def split: option.splits sum.splits if_splits)
  have "agree ?m ?m (indentValue (parseFuel src) 0 (ip_skipSpace ?s)) (Some (Inr v))"
    using indentValue_agree [of ?m ?m "ip_skipSpace ?s" "parseFuel src" 0] v(1) by simp
  then obtain y where y: "indentValue (parseFuel src) 0 (ip_skipSpace ?s) = Some (Inr y)" "v = ip_view ?m y"
    by (cases rule: agree_cases) auto
  show ?thesis using v(2) y indent_run_out [OF y(1)] by (simp add: appendIndentBytes_def Let_def)
qed

lemma appendIndentBytes_lenient:
  assumes d: "0 < d"
  shows "\<exists>out err. appendIndentBytes dst src p q d = Some (out, err) \<and>
    (case err of
       None \<Rightarrow> out = dst @ reflow p q Outside 0 (strip src) \<and> validateOptions src (d + 1) = Some None
     | Some e \<Rightarrow> out = dst)"
proof -
  let ?s = "indent_start dst src p q d" and ?m = "effectiveDepth d"
  have m: "effectiveDepth (d + 1) = Suc ?m" using d by (simp add: effectiveDepth_def nat_add_distrib)
  let ?v = "v_skipSpace (ip_view (Suc ?m) ?s)"
  have a: "agree ?m (Suc ?m) (indentValue (parseFuel src) 0 (ip_skipSpace ?s)) (parseValue (parseFuel src) 0 ?v)"
    using indentValue_agree [of "Suc ?m" ?m "ip_skipSpace ?s" "parseFuel src" 0] by simp
  have run: "validateOptions src (d + 1) = map_option (\<lambda>r. case r of Inl e \<Rightarrow> Some e | Inr _ \<Rightarrow> None)
     (runValidator (ip_view (Suc ?m) ?s))"
    by (simp add: validateOptions_def ip_view_def m)
  have total: "runValidator (ip_view (Suc ?m) ?s) \<noteq> None"
    using runValidator_total [of "ip_view (Suc ?m) ?s"] by auto
  from a show ?thesis
  proof (cases rule: agree_cases)
    case 1
    then show ?thesis using total by (simp add: runValidator_def)
  next
    case (2 y)
    show ?thesis using 2(1,2) indent_run_out [OF 2(1)]
      by (simp add: appendIndentBytes_def run runValidator_def Let_def)
  qed (simp_all add: appendIndentBytes_def)
qed

section \<open>Properties\<close>

text \<open>C32. \<^verbatim>\<open>appendIndentBytes\<close> with a positive depth limit always answers: it leaves the destination as it was and returns an error, or appends the line layout of the source stripped of its white space, and then the source is valid JSON (within the limit plus one, as an empty container at the last level is not counted). Everything the validator accepts within the limit is accepted.\<close>

theorem appendIndentBytes_layout:
  assumes "0 < d"
  shows "\<exists>out err. appendIndentBytes dst src p q d = Some (out, err) \<and>
    (case err of
       None \<Rightarrow> out = dst @ reflow p q Outside 0 (strip src) \<and> validateOptions src (d + 1) = Some None
     | Some e \<Rightarrow> out = dst \<and> validateOptions src d \<noteq> Some None)"
proof -
  obtain out err where "appendIndentBytes dst src p q d = Some (out, err)"
    "case err of
       None \<Rightarrow> out = dst @ reflow p q Outside 0 (strip src) \<and> validateOptions src (d + 1) = Some None
     | Some e \<Rightarrow> out = dst"
    using appendIndentBytes_lenient [OF assms] by blast
  then show ?thesis using appendIndentBytes_strict [of src d dst p q] by (auto split: option.splits)
qed

theorem appendIndentBytes_layout_witness:
  "\<exists>out err. appendIndentBytes [] [0x31] [] [0x20] 3 = Some (out, err) \<and>
    (case err of
       None \<Rightarrow> out = [] @ reflow [] [0x20] Outside 0 (strip [0x31]) \<and> validateOptions [0x31] (3 + 1) = Some None
     | Some e \<Rightarrow> out = [] \<and> validateOptions [0x31] 3 \<noteq> Some None)"
  by (rule appendIndentBytes_layout) simp

text \<open>C31. Indentation and compaction are inverse up to layout: with a prefix and an indent of white space, indenting a text of the document \<open>j\<close> gives a text of the same document, and compacting the indented text gives what compacting the original gives.\<close>

theorem compact_of_indent:
  assumes "document_text j src" "jdepth j \<le> effectiveDepth d" "ws p" "ws q"
  shows "\<exists>out. appendIndentBytes [] src p q d = Some (out, None) \<and> json_text j out \<and>
    appendCompact dst out d = appendCompact dst src d"
proof -
  have "validateOptions src d = Some None" using assms(1,2) validateOptions_iff by blast
  then have i: "appendIndentBytes [] src p q d = Some (reflow p q Outside 0 (strip src), None)"
    using appendIndentBytes_strict by simp
  note j = document_reflow [OF assms(1,3,4)]
  have "strip (reflow p q Outside 0 (strip src)) = strip src"
    using strip_reflow [OF assms(3,4)] strip_strip by simp
  then show ?thesis
    using i j appendCompact_ok [OF json_document [OF j] assms(2), of dst] appendCompact_ok [OF assms(1,2), of dst] by simp
qed

theorem compact_of_indent_witness:
  "\<exists>out. appendIndentBytes [] (ascii ''[true]'') [] [0x09] 1 = Some (out, None) \<and> json_text (JArray [JTrue]) out \<and>
    appendCompact [0x3A] out 1 = appendCompact [0x3A] (ascii ''[true]'') 1"
proof (rule compact_of_indent)
  have "elems_text [JTrue] (ascii ''true'')" using elems_one [OF ws_Nil true ws_Nil] by simp
  from array [OF this] show "document_text (JArray [JTrue]) (ascii ''[true]'')" by (intro json_document) simp
qed (simp_all add: effectiveDepth_def isJSONWhitespace_def)

text \<open>The depth limit is one level looser for an empty container: a nested empty array passes
  indentation at a limit of one and fails validation and compaction.\<close>

lemma indent_depth_looser:
  "appendIndentBytes [] (ascii ''[[]]'') [] [] 1 = Some (ascii ''['' @ [0x0A] @ ascii ''[]'' @ [0x0A] @ ascii '']'', None)"
  "map_option fst (appendCompact [] (ascii ''[[]]'') 1) = Some []"
  by code_simp+

end
