(* ===== verification/NodeApi.thy ===== *)
theory NodeApi
  imports Tape EncodeString NumberEqual
begin

text \<open>
  Reading a finished index: \<^verbatim>\<open>node.go\<close>, \<^verbatim>\<open>index_iter.go\<close>, \<^verbatim>\<open>index_tapescan.go\<close>, \<^verbatim>\<open>field_cursor.go\<close> and \<^verbatim>\<open>key.go\<close>. A node is the source, the
  tape and the position of its entry on it; the position is \<open>None\<close> for the zero node. Stepping on the tape is adding to the
  position. A pair of a result and its ok flag is an option; the zero value beside a false flag carries nothing. A raw value is
  its bytes.
\<close>

section \<open>Nodes\<close>

record Node =
  n_src :: bytes
  n_tape :: "IndexEntry list"
  n_entry :: "nat option"

definition zeroNode :: Node where
  "zeroNode = \<lparr>n_src = [], n_tape = [], n_entry = None\<rparr>"

definition nodeFromStorage :: "bytes \<Rightarrow> IndexEntry list \<Rightarrow> Node" where
  "nodeFromStorage src entries =
     (if src = [] \<or> entries = [] then zeroNode else \<lparr>n_src = src, n_tape = entries, n_entry = Some 0\<rparr>)"

definition node_valid :: "Node \<Rightarrow> bool" where
  "node_valid v \<longleftrightarrow> n_entry v \<noteq> None"

text \<open>The node of the same document at another entry, and the entry of a valid node.\<close>

definition nodeAt :: "Node \<Rightarrow> nat \<Rightarrow> Node" where
  "nodeAt v p = v\<lparr>n_entry := Some p\<rparr>"

definition nodeEntry :: "Node \<Rightarrow> IndexEntry" where
  "nodeEntry v = n_tape v ! the (n_entry v)"

definition node_Kind :: "Node \<Rightarrow> u8" where
  "node_Kind v = (if \<not> node_valid v then KInvalid else Kind (nodeEntry v))"

definition SliceRange :: "bytes \<Rightarrow> u32 \<Rightarrow> u32 \<Rightarrow> bytes" where
  "SliceRange src start end = segment src (unat start) (unat start + unat (end - start))"

definition Raw :: "Node \<Rightarrow> bytes" where
  "Raw v = (if \<not> node_valid v then [] else SliceRange (n_src v) (e_start (nodeEntry v)) (e_end (nodeEntry v)))"

section \<open>Scalars\<close>

definition IsNull :: "Node \<Rightarrow> bool" where
  "IsNull v \<longleftrightarrow> node_Kind v = KNull"

definition node_Bool :: "Node \<Rightarrow> bool option" where
  "node_Bool v =
     (if node_Kind v \<noteq> KBool then None else Some (n_src v ! unat (e_start (nodeEntry v)) = 0x74))"

definition NumberBytes :: "Node \<Rightarrow> bytes option" where
  "NumberBytes v =
     (if node_Kind v \<noteq> KNumber then None
      else Some (SliceRange (n_src v) (e_start (nodeEntry v)) (e_end (nodeEntry v))))"

definition NumberText :: "Node \<Rightarrow> bytes option" where
  "NumberText v = NumberBytes v"

definition IsInteger :: "Node \<Rightarrow> bool" where
  "IsInteger v \<longleftrightarrow> node_valid v \<and> entryFlags (nodeEntry v) AND tapeFlagInt \<noteq> 0"

text \<open>The loop over twenty digits; the guard refuses the digit that would overflow.\<close>

fun tapeUint64Loop :: "bytes \<Rightarrow> u64 \<Rightarrow> u64 option" where
  "tapeUint64Loop [] value = Some value"
| "tapeUint64Loop (c # cs) value =
     (let digit = ucast (c - 0x30) in
      if value > (NOT 0 - digit) div 10 then None else tapeUint64Loop cs (value * 10 + digit))"

definition tapeUint64 :: "bytes \<Rightarrow> nat \<Rightarrow> nat \<Rightarrow> u64 option" where
  "tapeUint64 src start end =
     (case parseTapeDigitsUint64 src start end of
        Some value \<Rightarrow> Some value
      | None \<Rightarrow> if end - start \<noteq> 20 then None else tapeUint64Loop (segment src start end) 0)"

definition tapeInt64 :: "bytes \<Rightarrow> nat \<Rightarrow> nat \<Rightarrow> u64 option" where
  "tapeInt64 src start end =
     (let negative = (fastByteAt src start = 0x2D); i = (if negative then start + 1 else start) in
      case parseTapeDigitsUint64 src i end of
        None \<Rightarrow> None
      | Some value \<Rightarrow>
          if negative then (if value > 0x8000000000000000 then None else Some (- value))
          else if value > 0x7FFFFFFFFFFFFFFF then None else Some value)"

definition Int64 :: "Node \<Rightarrow> u64 option" where
  "Int64 v =
     (if node_Kind v \<noteq> KNumber then None
      else let e = nodeEntry v in
        if entryFlags e AND tapeFlagInt \<noteq> 0 then tapeInt64 (n_src v) (unat (e_start e)) (unat (e_end e)) else None)"

definition Uint64 :: "Node \<Rightarrow> u64 option" where
  "Uint64 v =
     (if node_Kind v \<noteq> KNumber then None
      else let e = nodeEntry v in
        if entryFlags e AND tapeFlagInt = 0 \<or> n_src v ! unat (e_start e) = 0x2D then None
        else tapeUint64 (n_src v) (unat (e_start e)) (unat (e_end e)))"

definition StringBytes :: "Node \<Rightarrow> bytes option" where
  "StringBytes v =
     (if node_Kind v \<noteq> KString then None
      else let e = nodeEntry v in
        if entryFlags e AND tapeFlagEscaped \<noteq> 0 then None
        else Some (SliceRange (n_src v) (e_start e + 1) (e_end e - 1)))"

definition AppendText :: "Node \<Rightarrow> bytes \<Rightarrow> bytes \<times> bool" where
  "AppendText v dst =
     (if node_Kind v \<noteq> KString then (dst, False)
      else let e = nodeEntry v; raw = SliceRange (n_src v) (e_start e + 1) (e_end e - 1) in
        if entryFlags e AND tapeFlagEscaped = 0 then (dst @ raw, True)
        else (appendDecodedJSONString dst raw, True))"

section \<open>Arrays\<close>

definition ArrayLen :: "Node \<Rightarrow> nat option" where
  "ArrayLen v = (if node_Kind v \<noteq> KArray then None else Some (unat (Count (nodeEntry v))))"

definition ObjectLen :: "Node \<Rightarrow> nat option" where
  "ObjectLen v = (if node_Kind v \<noteq> KObject then None else Some (unat (Count (nodeEntry v))))"

text \<open>One step over the span of the entry at \<open>p\<close>, and \<open>n\<close> of them.\<close>

definition nextSibling :: "IndexEntry list \<Rightarrow> nat \<Rightarrow> nat" where
  "nextSibling tape p = p + unat (e_next (tape ! p))"

primrec chase :: "IndexEntry list \<Rightarrow> nat \<Rightarrow> nat \<Rightarrow> nat" where
  "chase tape 0 p = p"
| "chase tape (Suc n) p = chase tape n (nextSibling tape p)"

definition node_Index :: "Node \<Rightarrow> int \<Rightarrow> Node option" where
  "node_Index v index =
     (case ArrayLen v of
        None \<Rightarrow> None
      | Some count \<Rightarrow>
          if index < 0 \<or> index \<ge> int count then None
          else let p = the (n_entry v) in
            if e_next (nodeEntry v) = of_nat count + 1 then Some (nodeAt v (p + (nat index + 1)))
            else Some (nodeAt v (chase (n_tape v) (nat index) (p + 1))))"

record ArrayIter =
  it_node :: Node
  it_entry :: "nat option"
  it_remaining :: u32

definition node_ArrayIter :: "Node \<Rightarrow> ArrayIter option" where
  "node_ArrayIter v =
     (case ArrayLen v of
        None \<Rightarrow> None
      | Some count \<Rightarrow>
          Some \<lparr>it_node = v, it_entry = (if count \<noteq> 0 then Some (the (n_entry v) + 1) else None), it_remaining = of_nat count\<rparr>)"

definition array_Next :: "ArrayIter \<Rightarrow> Node option \<times> ArrayIter" where
  "array_Next it =
     (if it_remaining it = 0 then (None, it)
      else let entry = the (it_entry it); remaining = it_remaining it - 1 in
        (Some (nodeAt (it_node it) entry),
         it\<lparr>it_remaining := remaining,
            it_entry := (if remaining \<noteq> 0 then Some (nextSibling (n_tape (it_node it)) entry) else None)\<rparr>))"

definition array_NextKind :: "ArrayIter \<Rightarrow> u8 option \<times> ArrayIter" where
  "array_NextKind it = (case array_Next it of (v, it) \<Rightarrow> (map_option (\<lambda>v. Kind (nodeEntry v)) v, it))"

definition array_NextRaw :: "ArrayIter \<Rightarrow> bytes option \<times> ArrayIter" where
  "array_NextRaw it =
     (case array_Next it of (v, it) \<Rightarrow>
        (map_option (\<lambda>v. SliceRange (n_src v) (e_start (nodeEntry v)) (e_end (nodeEntry v))) v, it))"

section \<open>Objects\<close>

text \<open>\<^verbatim>\<open>tapeKeyEqual\<close> on the inside of an escaped key; the key is validated, so the reads after a backslash are in range.\<close>

function tapeKeyLoop :: "bytes \<Rightarrow> bytes \<Rightarrow> nat \<Rightarrow> nat \<Rightarrow> bool" where
  "tapeKeyLoop raw key i ki =
     (if i < length raw then
        (if raw ! i \<noteq> 0x5C then
           (if ki \<ge> length key \<or> raw ! i \<noteq> key ! ki then False else tapeKeyLoop raw key (i + 1) (ki + 1))
         else let i = i + 1 in
           if raw ! i \<noteq> 0x75 then
             (if ki \<ge> length key \<or> key ! ki \<noteq> decodedSimpleEscape (raw ! i) then False
              else tapeKeyLoop raw key (i + 1) (ki + 1))
           else let r = unat (fst (hex4 raw (i + 1))); i = i + 5;
                    surrogate = (0xD800 \<le> r \<and> r \<le> 0xDBFF);
                    encoded = encodeRune (if surrogate then utf16_decode r (unat (fst (hex4 raw (i + 2)))) else r);
                    n = length encoded in
             if ki + n > length key \<or> encoded \<noteq> segment key ki (ki + n) then False
             else tapeKeyLoop raw key (if surrogate then i + 6 else i) (ki + n))
      else ki = length key)"
  by pat_completeness auto
termination
  by (relation "measure (\<lambda>(raw, key, i, ki). length raw - i)") (auto simp: Let_def)

declare tapeKeyLoop.simps [simp del]

definition tapeKeyEqual :: "bytes \<Rightarrow> u8 \<Rightarrow> bytes \<Rightarrow> bool" where
  "tapeKeyEqual raw flags key =
     (let content = segment raw 1 (length raw - 1) in
      if flags AND tapeFlagEscaped = 0 then content = key else tapeKeyLoop content key 0 0)"

text \<open>Whether the key entry at \<open>q\<close> passes a gate and spells the key.\<close>

definition keyMatches :: "bytes \<Rightarrow> IndexEntry list \<Rightarrow> nat \<Rightarrow> bytes \<Rightarrow> (IndexEntry \<Rightarrow> bool) \<Rightarrow> bool" where
  "keyMatches src tape q key gate \<longleftrightarrow>
     (let e = tape ! q; flags = entryFlags e in
      (flags AND tapeFlagEscaped \<noteq> 0 \<or> gate e) \<and> tapeKeyEqual (SliceRange src (e_start e) (e_end e)) flags key)"

definition lengthGate :: "bytes \<Rightarrow> IndexEntry \<Rightarrow> bool" where
  "lengthGate key e \<longleftrightarrow> e_end e - e_start e = of_nat (length key) + 2"

definition hashGate :: "u32 \<Rightarrow> IndexEntry \<Rightarrow> bool" where
  "hashGate queryHash e \<longleftrightarrow> e_next e = queryHash"

text \<open>The scan over the fixed stride of a flat object and the one that chases spans; both keep the value of the last match.\<close>

definition flatScan :: "bytes \<Rightarrow> IndexEntry list \<Rightarrow> nat \<Rightarrow> bytes \<Rightarrow> (IndexEntry \<Rightarrow> bool) \<Rightarrow> nat \<Rightarrow> nat option" where
  "flatScan src tape p key gate count =
     foldl (\<lambda>found member. let q = p + (2 * member + 1) in if keyMatches src tape q key gate then Some (q + 1) else found)
       None [0..<count]"

fun spanScan :: "bytes \<Rightarrow> IndexEntry list \<Rightarrow> bytes \<Rightarrow> (IndexEntry \<Rightarrow> bool) \<Rightarrow> nat \<Rightarrow> nat \<Rightarrow> nat option \<Rightarrow> nat option" where
  "spanScan src tape key gate 0 q found = found"
| "spanScan src tape key gate (Suc n) q found =
     (let found = (if keyMatches src tape q key gate then Some (q + 1) else found) in
      if n = 0 then found else spanScan src tape key gate n (nextSibling tape (q + 1)) found)"

definition getPlain :: "Node \<Rightarrow> bytes \<Rightarrow> nat \<Rightarrow> Node option" where
  "getPlain v key count =
     (let p = the (n_entry v) in
      map_option (nodeAt v)
        (if e_next (nodeEntry v) = 2 * of_nat count + 1
         then flatScan (n_src v) (n_tape v) p key (lengthGate key) count
         else spanScan (n_src v) (n_tape v) key (lengthGate key) count (p + 1) None))"

text \<open>\<^verbatim>\<open>tapeVerifyFlatRange\<close> from the member before \<open>m\<close> down to \<open>lo\<close>.\<close>

function tapeVerifyFlatRange :: "bytes \<Rightarrow> IndexEntry list \<Rightarrow> nat \<Rightarrow> nat \<Rightarrow> nat \<Rightarrow> bytes \<Rightarrow> u32 \<Rightarrow> nat option" where
  "tapeVerifyFlatRange src tape p m lo key queryHash =
     (if m > lo then
        (let q = p + (2 * (m - 1) + 1) in
         if keyMatches src tape q key (hashGate queryHash) then Some (q + 1)
         else tapeVerifyFlatRange src tape p (m - 1) lo key queryHash)
      else None)"
  by pat_completeness auto
termination
  by (relation "measure (\<lambda>(_, _, _, m, _). m)") auto

declare tapeVerifyFlatRange.simps [simp del]

function tapeScanFlatHash :: "bytes \<Rightarrow> IndexEntry list \<Rightarrow> nat \<Rightarrow> nat \<Rightarrow> bytes \<Rightarrow> u32 \<Rightarrow> nat option" where
  "tapeScanFlatHash src tape p m key queryHash =
     (if m \<ge> 4 then
        (let k3 = tape ! (p + (2 * m - 1)); k2 = tape ! (p + (2 * m - 3));
             k1 = tape ! (p + (2 * m - 5)); k0 = tape ! (p + (2 * m - 7));
             candidate = (e_next k3 = queryHash \<or> e_next k2 = queryHash \<or> e_next k1 = queryHash \<or> e_next k0 = queryHash \<or>
               (e_info k3 OR e_info k2 OR e_info k1 OR e_info k0) AND push_bit 29 (ucast tapeFlagEscaped) \<noteq> 0)
         in case (if candidate then tapeVerifyFlatRange src tape p m (m - 4) key queryHash else None) of
              Some q \<Rightarrow> Some q
            | None \<Rightarrow> tapeScanFlatHash src tape p (m - 4) key queryHash)
      else if m > 0 then tapeVerifyFlatRange src tape p m 0 key queryHash
      else None)"
  by pat_completeness auto
termination
  by (relation "measure (\<lambda>(_, _, _, m, _). m)") auto

declare tapeScanFlatHash.simps [simp del]

definition getHashedQuery :: "Node \<Rightarrow> bytes \<Rightarrow> u32 \<Rightarrow> nat \<Rightarrow> Node option" where
  "getHashedQuery v key queryHash count =
     (let p = the (n_entry v) in
      map_option (nodeAt v)
        (if e_next (nodeEntry v) = 2 * of_nat count + 1
         then tapeScanFlatHash (n_src v) (n_tape v) p count key queryHash
         else spanScan (n_src v) (n_tape v) key (hashGate queryHash) count (p + 1) None))"

definition node_Get :: "Node \<Rightarrow> bytes \<Rightarrow> Node option" where
  "node_Get v key =
     (case ObjectLen v of
        None \<Rightarrow> None
      | Some count \<Rightarrow>
          if count = 0 then None
          else if keysHashed (nodeEntry v) then getHashedQuery v key (hashKeyString key) count
          else getPlain v key count)"

record CompiledKey =
  ck_key :: bytes
  ck_hash :: u32

definition CompileKey :: "bytes \<Rightarrow> CompiledKey" where
  "CompileKey key = \<lparr>ck_key = key, ck_hash = hashKeyString key\<rparr>"

definition GetCompiled :: "Node \<Rightarrow> CompiledKey \<Rightarrow> Node option" where
  "GetCompiled v k =
     (case ObjectLen v of
        None \<Rightarrow> None
      | Some count \<Rightarrow>
          if count = 0 then None
          else if keysHashed (nodeEntry v) then getHashedQuery v (ck_key k) (ck_hash k) count
          else getPlain v (ck_key k) count)"

record ObjectIter =
  oi_node :: Node
  oi_entry :: "nat option"
  oi_remaining :: u32

definition node_ObjectIter :: "Node \<Rightarrow> ObjectIter option" where
  "node_ObjectIter v =
     (case ObjectLen v of
        None \<Rightarrow> None
      | Some count \<Rightarrow>
          Some \<lparr>oi_node = v, oi_entry = (if count \<noteq> 0 then Some (the (n_entry v) + 1) else None), oi_remaining = of_nat count\<rparr>)"

definition object_Next :: "ObjectIter \<Rightarrow> (Node \<times> Node) option \<times> ObjectIter" where
  "object_Next it =
     (if oi_remaining it = 0 then (None, it)
      else let keyEntry = the (oi_entry it); valueEntry = keyEntry + 1; remaining = oi_remaining it - 1 in
        (Some (nodeAt (oi_node it) keyEntry, nodeAt (oi_node it) valueEntry),
         it\<lparr>oi_remaining := remaining,
            oi_entry := (if remaining \<noteq> 0 then Some (nextSibling (n_tape (oi_node it)) valueEntry) else None)\<rparr>))"

definition object_NextRaw :: "ObjectIter \<Rightarrow> (bytes \<times> bytes) option \<times> ObjectIter" where
  "object_NextRaw it =
     (let slice = (\<lambda>v. SliceRange (n_src v) (e_start (nodeEntry v)) (e_end (nodeEntry v))) in
      case object_Next it of (m, it) \<Rightarrow> (map_option (\<lambda>(k, v). (slice k, slice v)) m, it))"

section \<open>Columns\<close>

definition columnValue :: "Node \<Rightarrow> bytes \<Rightarrow> u32 \<Rightarrow> bytes" where
  "columnValue v key queryHash =
     (let entry = nodeEntry v; memberCount = unat (Count entry); p = the (n_entry v);
          raw = (\<lambda>r. case r of None \<Rightarrow> [] | Some value \<Rightarrow> Raw value) in
      if Kind entry \<noteq> KObject then []
      else if memberCount = 0 then []
      else if keysHashed entry then
        (if e_next entry = 2 * of_nat memberCount + 1
         then raw (map_option (nodeAt v) (tapeScanFlatHash (n_src v) (n_tape v) p memberCount key queryHash))
         else raw (getHashedQuery v key queryHash memberCount))
      else raw (node_Get v key))"

fun columnLoop :: "Node \<Rightarrow> bytes \<Rightarrow> u32 \<Rightarrow> nat \<Rightarrow> nat \<Rightarrow> bytes list \<Rightarrow> bytes list" where
  "columnLoop v key queryHash 0 elem dst = dst"
| "columnLoop v key queryHash (Suc n) elem dst =
     (let dst = dst @ [columnValue (nodeAt v elem) key queryHash] in
      if n = 0 then dst else columnLoop v key queryHash n (nextSibling (n_tape v) elem) dst)"

definition AppendColumn :: "Node \<Rightarrow> bytes list \<Rightarrow> bytes \<Rightarrow> bytes list \<times> bool" where
  "AppendColumn v dst key =
     (case ArrayLen v of
        None \<Rightarrow> (dst, False)
      | Some count \<Rightarrow>
          if count = 0 then (dst, True)
          else (columnLoop v key (hashKeyString key) count (the (n_entry v) + 1) dst, True))"

section \<open>Field cursors\<close>

record FieldCursor =
  fc_node :: Node
  fc_first :: "nat option"
  fc_pos :: nat
  fc_step :: u32
  fc_count :: u32
  fc_index :: u32
  fc_hashed :: bool

definition Fields :: "Node \<Rightarrow> FieldCursor" where
  "Fields v =
     (case ObjectLen v of
        Some count \<Rightarrow>
          if count = 0 then \<lparr>fc_node = zeroNode, fc_first = None, fc_pos = 0, fc_step = 0, fc_count = 0, fc_index = 0, fc_hashed = False\<rparr>
          else let first = the (n_entry v) + 1 in
            \<lparr>fc_node = v, fc_first = Some first, fc_pos = first,
             fc_step = (if e_next (nodeEntry v) = 2 * of_nat count + 1 then 2 else 0),
             fc_count = of_nat count, fc_index = 0, fc_hashed = keysHashed (nodeEntry v)\<rparr>
      | None \<Rightarrow> \<lparr>fc_node = zeroNode, fc_first = None, fc_pos = 0, fc_step = 0, fc_count = 0, fc_index = 0, fc_hashed = False\<rparr>)"

definition nextKeyEntry :: "FieldCursor \<Rightarrow> nat \<Rightarrow> nat" where
  "nextKeyEntry c q =
     (if fc_step c \<noteq> 0 then q + unat (fc_step c) else nextSibling (n_tape (fc_node c)) (q + 1))"

text \<open>The scan: the value entry it finds and the cursor afterwards.\<close>

fun findLoop :: "FieldCursor \<Rightarrow> bytes \<Rightarrow> u32 \<Rightarrow> nat \<Rightarrow> nat \<Rightarrow> u32 \<Rightarrow> nat option \<times> FieldCursor" where
  "findLoop c key queryHash 0 q index = (None, c\<lparr>fc_pos := the (fc_first c), fc_index := 0\<rparr>)"
| "findLoop c key queryHash (Suc n) q index =
     (let gate = (if fc_hashed c then hashGate queryHash else lengthGate key); next = index + 1 in
      if keyMatches (n_src (fc_node c)) (n_tape (fc_node c)) q key gate
      then (Some (q + 1),
            if next = fc_count c then c\<lparr>fc_pos := the (fc_first c), fc_index := 0\<rparr>
            else c\<lparr>fc_pos := nextKeyEntry c q, fc_index := next\<rparr>)
      else if next = fc_count c then findLoop c key queryHash n (the (fc_first c)) 0
      else findLoop c key queryHash n (nextKeyEntry c q) next)"

definition findEntryQuery :: "FieldCursor \<Rightarrow> bytes \<Rightarrow> u32 \<Rightarrow> nat option \<times> FieldCursor" where
  "findEntryQuery c key queryHash =
     (case fc_first c of
        None \<Rightarrow> (None, c)
      | Some first \<Rightarrow> findLoop c key queryHash (unat (fc_count c)) (fc_pos c) (fc_index c))"

definition Find :: "FieldCursor \<Rightarrow> bytes \<Rightarrow> Node option \<times> FieldCursor" where
  "Find c key =
     (case findEntryQuery c key (if fc_hashed c then hashKeyString key else 0) of (r, c') \<Rightarrow>
        (map_option (nodeAt (fc_node c)) r, c'))"

definition FindCompiled :: "FieldCursor \<Rightarrow> CompiledKey \<Rightarrow> Node option \<times> FieldCursor" where
  "FindCompiled c k =
     (case findEntryQuery c (ck_key k) (ck_hash k) of (r, c') \<Rightarrow> (map_option (nodeAt (fc_node c)) r, c'))"

end
