(* ===== verification/JsonPointer.thy ===== *)
theory JsonPointer
  imports NodeApi
begin

text \<open>
  RFC 6901 pointers: \<^verbatim>\<open>pointer.go\<close> and the pointer walks of \<^verbatim>\<open>node.go\<close>. An answer without error is \<open>Inr\<close> of an option, \<open>None\<close> for a
  false flag.
\<close>

section \<open>Tokens\<close>

datatype pointerMsg = MustStartWithSlash | DanglingTilde | UnknownTilde
  | EmptyIndex | LeadingZeroIndex | IndexNotNumeric | IndexOverflows

record PointerError =
  pe_Pointer :: bytes
  pe_Message :: pointerMsg

text \<open>\<^verbatim>\<open>unescapePointerTokenSlow\<close> from its loop on: the rest of \<open>s\<close> and what is written.\<close>

fun unescapeLoop :: "bytes \<Rightarrow> bytes \<Rightarrow> bytes \<Rightarrow> PointerError + bytes" where
  "unescapeLoop s [] out = Inr out"
| "unescapeLoop s (c # cs) out =
     (if c \<noteq> 0x7E then unescapeLoop s cs (out @ [c])
      else case cs of
        [] \<Rightarrow> Inl \<lparr>pe_Pointer = s, pe_Message = DanglingTilde\<rparr>
      | d # ds \<Rightarrow>
          if d = 0x30 then unescapeLoop s ds (out @ [0x7E])
          else if d = 0x31 then unescapeLoop s ds (out @ [0x2F])
          else Inl \<lparr>pe_Pointer = s, pe_Message = UnknownTilde\<rparr>)"

definition unescapePointerTokenSlow :: "bytes \<Rightarrow> nat \<Rightarrow> PointerError + bytes" where
  "unescapePointerTokenSlow s first = unescapeLoop s (drop first s) (take first s)"

definition unescapePointerToken :: "bytes \<Rightarrow> PointerError + bytes" where
  "unescapePointerToken s = (case indexByte s 0x7E of None \<Rightarrow> Inr s | Some i \<Rightarrow> unescapePointerTokenSlow s i)"

datatype pointerIndexKind = pointerIndexInvalid | pointerIndexNumber | pointerIndexDash

text \<open>\<^verbatim>\<open>strconv.Atoi\<close> on a string of digits: the value when it fits a 64-bit \<^verbatim>\<open>int\<close>.\<close>

definition digitsValue :: "bytes \<Rightarrow> nat" where
  "digitsValue s = foldl (\<lambda>n c. 10 * n + (unat c - 48)) 0 s"

definition atoi :: "bytes \<Rightarrow> nat option" where
  "atoi s = (if digitsValue s < 2 ^ 63 then Some (digitsValue s) else None)"

definition classifyPointerIndex :: "bytes \<Rightarrow> nat \<times> pointerIndexKind \<times> pointerMsg option" where
  "classifyPointerIndex s =
     (if s = [0x2D] then (0, pointerIndexDash, None)
      else if s = [] then (0, pointerIndexInvalid, Some EmptyIndex)
      else if length s > 1 \<and> s ! 0 = 0x30 then (0, pointerIndexInvalid, Some LeadingZeroIndex)
      else if \<exists>c \<in> set s. c < 0x30 \<or> c > 0x39 then (0, pointerIndexInvalid, Some IndexNotNumeric)
      else case atoi s of
        None \<Rightarrow> (0, pointerIndexInvalid, Some IndexOverflows)
      | Some idx \<Rightarrow> (idx, pointerIndexNumber, None))"

definition parsePointerIndex :: "bytes \<Rightarrow> PointerError + nat option" where
  "parsePointerIndex s =
     (case classifyPointerIndex s of (idx, kind, msg) \<Rightarrow>
        (case kind of
           pointerIndexNumber \<Rightarrow> Inr (Some idx)
         | pointerIndexDash \<Rightarrow> Inr None
         | pointerIndexInvalid \<Rightarrow> Inl \<lparr>pe_Pointer = s, pe_Message = the msg\<rparr>))"

record compiledPointerToken =
  t_text :: bytes
  t_hash :: u32
  t_index :: nat
  t_indexKind :: pointerIndexKind
  t_indexMessage :: "pointerMsg option"

definition arrayIndex :: "compiledPointerToken \<Rightarrow> PointerError + nat option" where
  "arrayIndex t =
     (case t_indexKind t of
        pointerIndexNumber \<Rightarrow> Inr (Some (t_index t))
      | pointerIndexDash \<Rightarrow> Inr None
      | pointerIndexInvalid \<Rightarrow>
          Inl \<lparr>pe_Pointer = t_text t, pe_Message = (case t_indexMessage t of None \<Rightarrow> IndexNotNumeric | Some msg \<Rightarrow> msg)\<rparr>)"

section \<open>Compilation\<close>

record CompiledPointer =
  cp_pointer :: bytes
  cp_tokens :: "compiledPointerToken list"

text \<open>The end of the token that contains position \<open>end\<close>.\<close>

function tokenEnd :: "bytes \<Rightarrow> nat \<Rightarrow> PointerError + nat" where
  "tokenEnd pointer end =
     (if end < length pointer \<and> pointer ! end \<noteq> 0x2F then
        (if pointer ! end = 0x7E then
           (if end + 1 \<ge> length pointer then Inl \<lparr>pe_Pointer = pointer, pe_Message = DanglingTilde\<rparr>
            else if pointer ! (end + 1) \<noteq> 0x30 \<and> pointer ! (end + 1) \<noteq> 0x31
            then Inl \<lparr>pe_Pointer = pointer, pe_Message = UnknownTilde\<rparr>
            else tokenEnd pointer (end + 2))
         else tokenEnd pointer (end + 1))
      else Inr end)"
  by pat_completeness auto
termination
  by (relation "measure (\<lambda>(pointer, end). length pointer - end)") auto

declare tokenEnd.simps [simp del]

lemma tokenEnd_ge: "tokenEnd pointer i = Inr j \<Longrightarrow> i \<le> j"
proof (induction pointer i rule: tokenEnd.induct)
  case (1 pointer i)
  then show ?case by (subst (asm) (3) tokenEnd.simps) (fastforce split: if_splits)
qed

definition compileToken :: "bytes \<Rightarrow> compiledPointerToken" where
  "compileToken token =
     (case classifyPointerIndex token of (index, kind, msg) \<Rightarrow>
        \<lparr>t_text = token, t_hash = hashKeyString token, t_index = index, t_indexKind = kind, t_indexMessage = msg\<rparr>)"

text \<open>The loop over the tokens; a token never ends behind the pointer, so the last one ends where the pointer does.\<close>

function compileLoop :: "bytes \<Rightarrow> nat \<Rightarrow> compiledPointerToken list \<Rightarrow> PointerError + CompiledPointer" where
  "compileLoop pointer start tokens =
     (case tokenEnd pointer start of
        Inl e \<Rightarrow> Inl e
      | Inr end \<Rightarrow>
          (case unescapePointerToken (segment pointer start end) of
             Inl e \<Rightarrow> Inl e
           | Inr token \<Rightarrow>
               (let tokens = tokens @ [compileToken token] in
                if end \<ge> length pointer then Inr \<lparr>cp_pointer = pointer, cp_tokens = tokens\<rparr>
                else compileLoop pointer (end + 1) tokens)))"
  by pat_completeness auto
termination
  by (relation "measure (\<lambda>(pointer, start, _). length pointer - start)") (auto dest: tokenEnd_ge)

declare compileLoop.simps [simp del]

definition CompilePointer :: "bytes \<Rightarrow> PointerError + CompiledPointer" where
  "CompilePointer pointer =
     (if pointer = [] then Inr \<lparr>cp_pointer = [], cp_tokens = []\<rparr>
      else if pointer ! 0 \<noteq> 0x2F then Inl \<lparr>pe_Pointer = pointer, pe_Message = MustStartWithSlash\<rparr>
      else compileLoop pointer 1 [])"

section \<open>Walking\<close>

definition node_found :: "Node \<Rightarrow> Node option" where
  "node_found v = (if node_valid v then Some v else None)"

fun pointerTokens :: "Node \<Rightarrow> compiledPointerToken list \<Rightarrow> PointerError + Node option" where
  "pointerTokens cur [] = Inr (node_found cur)"
| "pointerTokens cur (token # tokens) =
     (if node_Kind cur = KObject then
        (let count = unat (Count (nodeEntry cur)) in
         if count = 0 then Inr None
         else case (if keysHashed (nodeEntry cur) then getHashedQuery cur (t_text token) (t_hash token) count
                    else getPlain cur (t_text token) count) of
           None \<Rightarrow> Inr None
         | Some cur \<Rightarrow> pointerTokens cur tokens)
      else if node_Kind cur = KArray then
        (case arrayIndex token of
           Inl e \<Rightarrow> Inl e
         | Inr None \<Rightarrow> Inr None
         | Inr (Some index) \<Rightarrow>
             (case node_Index cur (int index) of
                None \<Rightarrow> Inr None
              | Some cur \<Rightarrow> pointerTokens cur tokens))
      else Inr None)"

definition PointerCompiled :: "Node \<Rightarrow> CompiledPointer \<Rightarrow> PointerError + Node option" where
  "PointerCompiled v pointer = pointerTokens v (cp_tokens pointer)"

text \<open>The next slash from \<open>j\<close> on, or the end.\<close>

function tokenStop :: "bytes \<Rightarrow> nat \<Rightarrow> nat" where
  "tokenStop pointer j = (if j < length pointer \<and> pointer ! j \<noteq> 0x2F then tokenStop pointer (j + 1) else j)"
  by pat_completeness auto
termination
  by (relation "measure (\<lambda>(pointer, j). length pointer - j)") auto

declare tokenStop.simps [simp del]

lemma tokenStop_ge: "j \<le> tokenStop pointer j"
proof (induction pointer j rule: tokenStop.induct)
  case (1 pointer j)
  then show ?case by (subst tokenStop.simps) auto
qed

function pointerLoop :: "bytes \<Rightarrow> nat \<Rightarrow> Node \<Rightarrow> PointerError + Node option" where
  "pointerLoop pointer i cur =
     (if i \<le> length pointer then
        (let j = tokenStop pointer i in
         case unescapePointerToken (segment pointer i j) of
           Inl e \<Rightarrow> Inl e
         | Inr token \<Rightarrow>
             if node_Kind cur = KObject then
               (case node_Get cur token of None \<Rightarrow> Inr None | Some cur \<Rightarrow> pointerLoop pointer (j + 1) cur)
             else if node_Kind cur = KArray then
               (case parsePointerIndex token of
                  Inl e \<Rightarrow> Inl e
                | Inr None \<Rightarrow> Inr None
                | Inr (Some index) \<Rightarrow>
                    (case node_Index cur (int index) of None \<Rightarrow> Inr None | Some cur \<Rightarrow> pointerLoop pointer (j + 1) cur))
             else Inr None)
      else Inr (node_found cur))"
  by pat_completeness auto
termination
proof (relation "measure (\<lambda>(pointer, i, cur). length pointer + 1 - i)", goal_cases)
  case (2 pointer i cur j)
  then show ?case using tokenStop_ge [of i pointer] by simp
next
  case (3 pointer i cur j)
  then show ?case using tokenStop_ge [of i pointer] by simp
qed simp

declare pointerLoop.simps [simp del]

definition node_Pointer :: "Node \<Rightarrow> bytes \<Rightarrow> PointerError + Node option" where
  "node_Pointer v pointer =
     (if pointer = [] then Inr (node_found v)
      else if pointer ! 0 \<noteq> 0x2F then Inl \<lparr>pe_Pointer = pointer, pe_Message = MustStartWithSlash\<rparr>
      else pointerLoop pointer 1 v)"

end
