(* ===== verification/NodeTree.thy ===== *)
theory NodeTree
  imports NodeApi TapeProps
begin

text \<open>
  Nodes as values: the entries behind a node are the tape of the value it stands for, plain or enriched with key hashes.
  The tape of a container falls into the tapes of its children, and every step over a span reaches the next of them.
\<close>

section \<open>Spans of a tape\<close>

definition located :: "'a list \<Rightarrow> nat \<Rightarrow> 'a list \<Rightarrow> bool" where
  "located tape p ts \<longleftrightarrow> p + length ts \<le> length tape \<and> take (length ts) (drop p tape) = ts"

lemma located_append: "located tape p (a @ b) \<longleftrightarrow> located tape p a \<and> located tape (p + length a) b"
proof (cases "p + length a + length b \<le> length tape")
  case True
  have "take (length (a @ b)) (drop p tape) = take (length a) (drop p tape) @ take (length b) (drop (p + length a) tape)"
    by (simp add: take_add add.commute)
  then show ?thesis using True by (auto simp: located_def add.assoc)
qed (auto simp: located_def)

lemma located_Cons: "located tape p (e # ts) \<longleftrightarrow> p < length tape \<and> tape ! p = e \<and> located tape (Suc p) ts"
  by (cases "p < length tape") (auto simp: located_def Cons_nth_drop_Suc [symmetric])

lemma located_Nil: "located tape p [] \<longleftrightarrow> p \<le> length tape"
  by (simp add: located_def)

lemma located_all: "located tape 0 tape"
  by (simp add: located_def)

section \<open>The children of a container\<close>

definition tape_of :: "bytes \<Rightarrow> json \<Rightarrow> IndexEntry list \<Rightarrow> bool" where
  "tape_of src v ts \<longleftrightarrow> (\<exists>i j. value_tape src i v j ts)"

definition member_of :: "bytes \<Rightarrow> rune list \<times> json \<Rightarrow> IndexEntry list \<Rightarrow> bool" where
  "member_of src m t \<longleftrightarrow> (\<exists>a q ts. string_at src a q (fst m) \<and> tape_of src (snd m) ts \<and> t = keyEntry src a q # ts)"

lemma elems_tape_split:
  "elems_tape src k vs j ts \<Longrightarrow> \<exists>tss. ts = concat tss \<and> list_all2 (tape_of src) vs tss"
proof (induction vs arbitrary: k ts)
  case Nil
  then show ?case by (auto elim: elems_tape.cases)
next
  case (Cons v vs)
  from Cons.prems consider (one) k' where "value_tape src k v k' ts" "vs = []"
    | (cons) k' es p fs where "value_tape src k v k' es" "elems_tape src p vs j fs" "ts = es @ fs"
    by (cases rule: elems_tape.cases) auto
  then show ?case
  proof cases
    case one
    then show ?thesis by (intro exI [of _ "[ts]"]) (auto simp: tape_of_def)
  next
    case cons
    then obtain tss where "fs = concat tss" "list_all2 (tape_of src) vs tss" using Cons.IH by blast
    moreover have "tape_of src v es" using cons(1) by (auto simp: tape_of_def)
    ultimately show ?thesis using cons(3) by (intro exI [of _ "es # tss"]) simp
  qed
qed

lemma members_tape_split:
  "members_tape src k ms j ts \<Longrightarrow> \<exists>tss. ts = concat tss \<and> list_all2 (member_of src) ms tss"
proof (induction ms arbitrary: k ts)
  case Nil
  then show ?case by (auto elim: members_tape.cases)
next
  case (Cons m ms)
  from Cons.prems consider (one) q b k' es where "string_at src k q (fst m)" "value_tape src b (snd m) k' es" "ms = []" "ts = keyEntry src k q # es"
    | (cons) q b k' es p fs where "string_at src k q (fst m)" "value_tape src b (snd m) k' es" "members_tape src p ms j fs"
        "ts = keyEntry src k q # es @ fs"
    by (cases rule: members_tape.cases) auto
  then show ?case
  proof cases
    case one
    then show ?thesis by (intro exI [of _ "[ts]"]) (auto simp: member_of_def tape_of_def)
  next
    case (cons q b k' es p fs)
    then obtain tss where "fs = concat tss" "list_all2 (member_of src) ms tss" using Cons.IH by blast
    moreover have "member_of src m (keyEntry src k q # es)" using cons(1,2) by (auto simp: member_of_def tape_of_def)
    ultimately show ?thesis using cons(4) by (intro exI [of _ "(keyEntry src k q # es) # tss"]) simp
  qed
qed

section \<open>The head of a value\<close>

fun jkind :: "json \<Rightarrow> u8" where
  "jkind JNull = KNull"
| "jkind JTrue = KBool"
| "jkind JFalse = KBool"
| "jkind (JNumber t) = KNumber"
| "jkind (JString rs) = KString"
| "jkind (JArray vs) = KArray"
| "jkind (JObject ms) = KObject"

fun jcount :: "json \<Rightarrow> nat" where
  "jcount (JArray vs) = length vs"
| "jcount (JObject ms) = length ms"
| "jcount _ = 0"

fun jflags :: "bytes \<Rightarrow> nat \<Rightarrow> nat \<Rightarrow> json \<Rightarrow> u8" where
  "jflags src i j (JNumber t) = numberFlags (plain_integer t)"
| "jflags src i j (JString rs) = escaped_flag src i j"
| "jflags src i j _ = 0"

definition headEntry :: "bytes \<Rightarrow> nat \<Rightarrow> json \<Rightarrow> nat \<Rightarrow> IndexEntry" where
  "headEntry src i v j =
     \<lparr>e_start = of_nat i, e_end = of_nat j, e_next = of_nat (tapeSize v),
      e_info = packInfo (of_nat (jcount v)) (jkind v) (jflags src i j v)\<rparr>"

lemma value_tape_head:
  assumes "value_tape src i v j ts"
  shows "\<exists>cs. ts = headEntry src i v j # cs \<and> jcount v \<le> infoMaxCount \<and>
    (case v of JArray vs \<Rightarrow> \<exists>tss. cs = concat tss \<and> list_all2 (tape_of src) vs tss
     | JObject ms \<Rightarrow> \<exists>tss. cs = concat tss \<and> list_all2 (member_of src) ms tss | _ \<Rightarrow> cs = [])"
  using assms
proof (cases rule: value_tape.cases)
  case (t_array k vs es)
  then show ?thesis using elems_tape_split [OF t_array(5)] tape_length(2) [OF t_array(5)]
    by (auto simp: headEntry_def containerEntry_def tapeSize_simps)
next
  case (t_object k ms es)
  then show ?thesis using members_tape_split [OF t_object(5)] tape_length(3) [OF t_object(5)]
    by (auto simp: headEntry_def containerEntry_def tapeSize_simps)
qed (auto simp: headEntry_def scalarEntry_def containerEntry_def tapeSize_def intro!: exI [of _ "[]"])

lemma head_parts:
  assumes "jcount v \<le> infoMaxCount"
  shows "Kind (headEntry src i v j) = jkind v" "unat (Count (headEntry src i v j)) = jcount v"
    "entryFlags (headEntry src i v j) = jflags src i j v"
proof -
  have f: "jflags src i j v < 8" by (cases v) (auto simp: numberFlags_def escaped_flag_def tapeFlagInt_def tapeFlagEscaped_def)
  have k: "jkind v < 8" by (cases v) auto
  have n: "(of_nat (jcount v) :: u32) < 2 ^ 26"
    using assms unat_count [OF assms] by (simp add: word_less_nat_alt infoMaxCount_def)
  note pp = packInfo_parts [of "headEntry src i v j" "of_nat (jcount v)" "jkind v" "jflags src i j v", OF _ n k f]
  show "Kind (headEntry src i v j) = jkind v" "entryFlags (headEntry src i v j) = jflags src i j v"
    "unat (Count (headEntry src i v j)) = jcount v"
    using pp unat_count [OF assms] by (simp_all add: headEntry_def)
qed

section \<open>Enrichment\<close>

definition stored :: "bool \<Rightarrow> bytes \<Rightarrow> IndexEntry \<Rightarrow> IndexEntry" where
  "stored h src e = (if h then enrichEntry src e else e)"

lemma stored_span: "e_start (stored h src e) = e_start e" "e_end (stored h src e) = e_end e"
  by (simp_all add: stored_def enrichEntry_def Let_def)

lemma or_escaped_parts:
  assumes "e_info f = e_info e OR push_bit 29 (ucast tapeFlagEscaped)"
  shows "Kind f = Kind e" "Count f = Count e" "entryFlags f = entryFlags e OR tapeFlagEscaped"
proof -
  define m :: u32 where "m = push_bit 29 (ucast tapeFlagEscaped)"
  have b: "bit m n \<longleftrightarrow> n = 29" for n
    unfolding m_def bit_push_bit_iff by (auto simp: bit_ucast_iff tapeFlagEscaped_def bit_1_iff)
  have t: "bit tapeFlagEscaped n \<longleftrightarrow> n = 0" for n by (auto simp: tapeFlagEscaped_def bit_1_iff)
  have i: "e_info f = e_info e OR m" using assms by (simp add: m_def)
  show "Kind f = Kind e" unfolding Kind_def i by (rule bit_word_eqI) (auto simp: bit_simps bit_infoKindMask b)
  show "Count f = Count e" unfolding Count_def i by (rule bit_word_eqI) (auto simp: bit_simps bit_infoCountMask b)
  show "entryFlags f = entryFlags e OR tapeFlagEscaped"
    unfolding entryFlags_def i by (rule bit_word_eqI) (auto simp: bit_simps b t)
qed

lemma stored_head:
  assumes "jcount v \<le> infoMaxCount"
  shows "Kind (stored h src (headEntry src i v j)) = jkind v" "unat (Count (stored h src (headEntry src i v j))) = jcount v"
    "e_next (stored h src (headEntry src i v j)) = of_nat (tapeSize v)"
    "entryFlags (stored h src (headEntry src i v j)) =
       (if h \<and> jkind v = KObject then jflags src i j v OR tapeFlagEscaped else jflags src i j v)"
proof -
  let ?e = "headEntry src i v j"
  note hp = head_parts [OF assms, of src i j]
  have nk: "entryFlags ?e AND tapeFlagKey = 0"
    unfolding hp by (cases v) (auto simp: numberFlags_def escaped_flag_def tapeFlagInt_def tapeFlagEscaped_def tapeFlagKey_def)
  have s: "stored h src ?e = (if h \<and> jkind v = KObject then ?e\<lparr>e_info := e_info ?e OR push_bit 29 (ucast tapeFlagEscaped)\<rparr> else ?e)"
    using nk hp(1) by (auto simp: stored_def enrichEntry_def)
  note oe = or_escaped_parts [of "?e\<lparr>e_info := e_info ?e OR push_bit 29 (ucast tapeFlagEscaped)\<rparr>" ?e]
  show "Kind (stored h src ?e) = jkind v" "unat (Count (stored h src ?e)) = jcount v"
    "entryFlags (stored h src ?e) = (if h \<and> jkind v = KObject then jflags src i j v OR tapeFlagEscaped else jflags src i j v)"
    unfolding s using hp oe by auto
  show "e_next (stored h src ?e) = of_nat (tapeSize v)" unfolding s by (simp add: headEntry_def)
qed

lemma stored_key:
  assumes "string_at src a q rs" "length src < 2 ^ 32"
  shows "entryFlags (stored h src (keyEntry src a q)) = tapeFlagKey OR escaped_flag src a q"
    "h \<Longrightarrow> e_next (stored h src (keyEntry src a q)) = hashKeyString (segment src (a + 1) (q - 1))"
proof -
  have f: "tapeFlagKey OR escaped_flag src a q < 8" by (simp add: escaped_flag_def tapeFlagKey_def tapeFlagEscaped_def)
  have p: "entryFlags (keyEntry src a q) = tapeFlagKey OR escaped_flag src a q"
    using packInfo_parts(3) [of "keyEntry src a q" 0 KString "tapeFlagKey OR escaped_flag src a q"] f by (simp add: scalarEntry_def)
  have k: "(tapeFlagKey OR escaped_flag src a q) AND tapeFlagKey \<noteq> 0" by (simp add: escaped_flag_def tapeFlagKey_def tapeFlagEscaped_def)
  have "e_info (stored h src (keyEntry src a q)) = e_info (keyEntry src a q)"
    using p k by (simp add: stored_def enrichEntry_def Let_def)
  then show "entryFlags (stored h src (keyEntry src a q)) = tapeFlagKey OR escaped_flag src a q"
    using p by (simp add: entryFlags_def)
  show "h \<Longrightarrow> e_next (stored h src (keyEntry src a q)) = hashKeyString (segment src (a + 1) (q - 1))"
    using enrich_key [OF assms] by (simp add: stored_def)
qed

section \<open>What a node stands for\<close>

definition represents :: "bool \<Rightarrow> bytes \<Rightarrow> IndexEntry list \<Rightarrow> nat \<Rightarrow> json \<Rightarrow> bool" where
  "represents h src tape p v \<longleftrightarrow> (\<exists>ts. tape_of src v ts \<and> located tape p (map (stored h src) ts))"

definition stands_for :: "bool \<Rightarrow> Node \<Rightarrow> json \<Rightarrow> bool" where
  "stands_for h nd v \<longleftrightarrow> (\<exists>p. n_entry nd = Some p \<and> represents h (n_src nd) (n_tape nd) p v) \<and>
     length (n_src nd) < 2 ^ 32 \<and> length (n_tape nd) < 2 ^ 32"

lemma represents_head:
  assumes "represents h src tape p v" "length tape < 2 ^ 32"
  shows "\<exists>i j ts. value_tape src i v j ts \<and> p < length tape \<and> tape ! p = stored h src (headEntry src i v j) \<and>
    Kind (tape ! p) = jkind v \<and> unat (Count (tape ! p)) = jcount v \<and> unat (e_next (tape ! p)) = tapeSize v \<and>
    located tape p (map (stored h src) ts) \<and> length ts = tapeSize v"
proof -
  obtain i j ts where t: "value_tape src i v j ts" "located tape p (map (stored h src) ts)"
    using assms(1) by (auto simp: represents_def tape_of_def)
  obtain cs where cs: "ts = headEntry src i v j # cs" "jcount v \<le> infoMaxCount" using value_tape_head [OF t(1)] by blast
  have n: "length ts = tapeSize v" using tape_length(1) [OF t(1)] .
  have "tapeSize v < 2 ^ 32" using t(2) n assms(2) by (simp add: located_def)
  then have "unat (of_nat (tapeSize v) :: u32) = tapeSize v" by (simp add: unat_of_nat)
  then show ?thesis using t cs n stored_head [OF cs(2), of h src i j]
    by (intro exI [of _ i] exI [of _ j] exI [of _ ts]) (auto simp: located_Cons)
qed

lemma nextSibling_eq:
  "represents h src tape p v \<Longrightarrow> length tape < 2 ^ 32 \<Longrightarrow> nextSibling tape p = p + tapeSize v"
  using represents_head [of h src tape p v] by (auto simp: nextSibling_def)

lemma node_entry:
  assumes "stands_for h nd v"
  shows "node_valid nd" "node_Kind nd = jkind v" "unat (Count (nodeEntry nd)) = jcount v" "unat (e_next (nodeEntry nd)) = tapeSize v"
  using assms represents_head [of h "n_src nd" "n_tape nd" _ v]
  by (fastforce simp: stands_for_def node_valid_def node_Kind_def nodeEntry_def)+

lemma stands_forI:
  "stands_for h nd w \<Longrightarrow> represents h (n_src nd) (n_tape nd) p v \<Longrightarrow> stands_for h (nodeAt nd p) v"
  by (simp add: stands_for_def nodeAt_def)

section \<open>Arrays\<close>

lemma represents_elems:
  assumes "list_all2 (tape_of src) vs tss" "located tape p (map (stored h src) (concat tss))" "k < length vs" "length tape < 2 ^ 32"
  shows "represents h src tape (chase tape k p) (vs ! k)"
  using assms
proof (induction vs tss arbitrary: p k rule: list_all2_induct)
  case (Cons v vs t tss)
  have l: "located tape p (map (stored h src) t)" "located tape (p + length t) (map (stored h src) (concat tss))"
    using Cons.prems(1) by (auto simp: located_append)
  have r: "represents h src tape p v" using l(1) Cons.hyps(1) by (auto simp: represents_def)
  have "length t = tapeSize v" using Cons.hyps(1) tape_length(1) by (auto simp: tape_of_def)
  then have n: "nextSibling tape p = p + length t" using nextSibling_eq [OF r Cons.prems(3)] by simp
  show ?case
  proof (cases k)
    case 0
    then show ?thesis using r by simp
  next
    case (Suc k')
    then show ?thesis using Cons.IH [OF l(2)] Cons.prems(2,3) n by simp
  qed
qed simp

lemma tapeSize_pos: "0 < tapeSize v"
  by (simp add: tapeSize_def)

lemma flat_elems:
  "list_all2 (tape_of src) vs tss \<Longrightarrow> length (concat tss) = length vs \<Longrightarrow> \<forall>v \<in> set vs. tapeSize v = 1"
proof (induction vs tss rule: list_all2_induct)
  case (Cons v vs t tss)
  have t: "length t = tapeSize v" using Cons.hyps(1) tape_length(1) by (auto simp: tape_of_def)
  have "length vs \<le> length (concat tss)" using Cons.hyps(2)
  proof (induction vs tss rule: list_all2_induct)
    case (Cons w ws u uss)
    then show ?case using tapeSize_pos [of w] tape_length(1) by (auto simp: tape_of_def)
  qed simp
  then show ?case using Cons t tapeSize_pos [of v] by simp
qed simp

lemma chase_snoc: "chase tape (Suc n) p = nextSibling tape (chase tape n p)"
  by (induction n arbitrary: p) simp_all

lemma chase_flat:
  assumes "\<And>i. i < length vs \<Longrightarrow> represents h src tape (chase tape i p) (vs ! i)" "\<forall>v \<in> set vs. tapeSize v = 1"
    "length tape < 2 ^ 32"
  shows "k \<le> length vs \<Longrightarrow> chase tape k p = p + k"
proof (induction k)
  case (Suc k)
  then show ?case using nextSibling_eq [OF assms(1) assms(3), of k] assms(2) by (simp only: chase_snoc) simp
qed simp

lemma flat_count:
  assumes "x = of_nat n + 1" "n \<le> infoMaxCount"
  shows "unat (x :: u32) = n + 1"
proof -
  have "x = of_nat (n + 1)" using assms(1) by simp
  then show ?thesis using assms(2) by (simp only: unat_of_nat infoMaxCount_def) simp
qed

lemma node_Index_represents:
  assumes "stands_for h nd (JArray vs)" "k < length vs"
  shows "\<exists>nd'. node_Index nd (int k) = Some nd' \<and> stands_for h nd' (vs ! k)"
proof -
  let ?T = "n_tape nd" and ?s = "n_src nd"
  obtain p where p: "n_entry nd = Some p" "represents h ?s ?T p (JArray vs)" and l: "length ?T < 2 ^ 32"
    using assms(1) by (auto simp: stands_for_def)
  note ne = node_entry [OF assms(1)]
  obtain i j ts where t: "value_tape ?s i (JArray vs) j ts" "located ?T p (map (stored h ?s) ts)"
    using represents_head [OF p(2) l] by blast
  obtain tss where tss: "ts = headEntry ?s i (JArray vs) j # concat tss" "list_all2 (tape_of ?s) vs tss" and cnt: "length vs \<le> infoMaxCount"
    using value_tape_head [OF t(1)] by auto
  have loc: "located ?T (p + 1) (map (stored h ?s) (concat tss))" using t(2) tss(1) by (simp add: located_Cons)
  note re = represents_elems [OF tss(2) loc _ l]
  have len: "ArrayLen nd = Some (length vs)" using ne by (simp add: ArrayLen_def)
  have flat: "chase ?T k (p + 1) = p + 1 + k" if "e_next (nodeEntry nd) = of_nat (length vs) + 1"
  proof -
    have "tapeSize (JArray vs) = length vs + 1" using flat_count [OF that] ne(4) cnt by simp
    then have "length (concat tss) = length vs" using tape_length(1) [OF t(1)] tss(1) by simp
    from chase_flat [OF re flat_elems [OF tss(2) this] l] show ?thesis using assms(2) by simp
  qed
  have "node_Index nd (int k) = Some (nodeAt nd (chase ?T k (p + 1)))"
    using len assms(2) p(1) flat by (auto simp: node_Index_def Let_def)
  then show ?thesis using stands_forI [OF assms(1) re [OF assms(2)]] by blast
qed

end
