(* ===== verification/NodeGet.thy ===== *)
theory NodeGet
  imports NodeTree
begin

text \<open>
  Member lookup: the key comparison decodes, the gates only skip members that cannot match, and every scan of the lookup
  ladder returns the value of the last member with the key.
\<close>

section \<open>Comparing keys\<close>

lemma drop_split: "ki \<le> length key \<Longrightarrow>
  drop ki key = a @ b \<longleftrightarrow> ki + length a \<le> length key \<and> segment key ki (ki + length a) = a \<and> drop (ki + length a) key = b"
proof -
  assume k: "ki \<le> length key"
  show ?thesis
  proof
    assume d: "drop ki key = a @ b"
    then have "length key - ki = length a + length b" by (metis length_append length_drop)
    moreover have "drop (ki + length a) key = drop (length a) (drop ki key)" by (simp add: add.commute)
    ultimately show "ki + length a \<le> length key \<and> segment key ki (ki + length a) = a \<and> drop (ki + length a) key = b"
      using d k by (simp add: segment_def)
  next
    assume "ki + length a \<le> length key \<and> segment key ki (ki + length a) = a \<and> drop (ki + length a) key = b"
    then show "drop ki key = a @ b" by (metis add.commute add_diff_cancel_left' append_take_drop_id drop_drop segment_def)
  qed
qed

lemma drop_one: "ki \<le> length key \<Longrightarrow> drop ki key = c # b \<longleftrightarrow> ki < length key \<and> key ! ki = c \<and> drop (Suc ki) key = b"
  by (cases "ki < length key") (auto simp: Cons_nth_drop_Suc [symmetric])

lemma keyLoop_run:
  "\<forall>b \<in> set s. b \<noteq> 0x5C \<Longrightarrow> JsonText.at raw i (s @ t) \<Longrightarrow> ki \<le> length key \<Longrightarrow>
   (\<And>j kj. j = i + length s \<Longrightarrow> kj \<le> length key \<Longrightarrow> tapeKeyLoop raw key j kj \<longleftrightarrow> drop kj key = u) \<Longrightarrow>
   tapeKeyLoop raw key i ki \<longleftrightarrow> drop ki key = s @ u"
proof (induction s arbitrary: i ki)
  case (Cons b s)
  have a: "i < length raw" "raw ! i = b" "JsonText.at raw (Suc i) (s @ t)" using at_Cons [of raw i b "s @ t"] Cons.prems(2) by simp_all
  have "tapeKeyLoop raw key (Suc i) (Suc ki) \<longleftrightarrow> drop (Suc ki) key = s @ u" if "ki < length key"
    by (rule Cons.IH) (use Cons.prems a(3) that in auto)
  then show ?case using a Cons.prems(1) drop_one [OF Cons.prems(3), of b "s @ u"]
    by (subst tapeKeyLoop.simps) auto
qed simp

lemma keyLoop_encoded:
  assumes "ki \<le> length key" "\<And>kj. kj \<le> length key \<Longrightarrow> tapeKeyLoop raw key j kj \<longleftrightarrow> drop kj key = u"
  shows "(if ki + length e > length key \<or> e \<noteq> segment key ki (ki + length e) then False else tapeKeyLoop raw key j (ki + length e)) \<longleftrightarrow>
    drop ki key = e @ u"
  using assms drop_split [OF assms(1), of e u] by auto

lemma tapeKeyLoop_correct:
  "string_text t rs \<Longrightarrow> JsonText.at raw i t \<Longrightarrow> ki \<le> length key \<Longrightarrow> tapeKeyLoop raw key i ki \<longleftrightarrow> drop ki key = utf8 rs"
proof (induction arbitrary: i ki rule: string_text.induct)
  case empty
  then show ?case by (subst tapeKeyLoop.simps) (auto simp: at_Nil)
next
  case (plain r t rs)
  have "\<forall>b \<in> set (encodeRune r). b \<noteq> 0x5C" using encodeRune_no_syntax [OF plain(1-4)] by (auto simp: is_syntax_byte_def)
  from keyLoop_run [OF this plain.prems] show ?case using plain.IH [OF at_append [OF plain.prems(1)]] by simp
next
  case (escape c d t rs)
  have a: "i < length raw \<and> raw ! i = 0x5C \<and> JsonText.at raw (Suc i) (c # t)" using at_Cons [OF escape.prems(1)] .
  have b: "raw ! Suc i = c \<and> JsonText.at raw (Suc (Suc i)) t" using at_Cons [OF conjunct2 [OF conjunct2 [OF a]]] by blast
  show ?case using a b simple_escape_decoded [OF escape(1)] escape.IH [of "Suc (Suc i)" "Suc ki"] drop_one [OF escape.prems(2), of d "utf8 rs"]
    by (subst tapeKeyLoop.simps) auto
next
  case (unicode h t rs)
  note a0 = at_Cons [OF unicode.prems(1)] and a1 = at_Cons [OF conjunct2 [OF conjunct2 [OF at_Cons [OF unicode.prems(1)]]]]
  obtain u where u: "hex4 raw (Suc (Suc i)) = (u, True)" "unat u = hexnum h"
    using hex4_complete [OF conjunct2 [OF conjunct2 [OF a1]] unicode(1)] by blast
  have n: "\<not> (0xD800 \<le> hexnum h \<and> hexnum h \<le> 0xDBFF)" using unicode(2) by (auto simp: is_surrogate_def)
  have r: "JsonText.at raw (i + 6) t" using at_append [of raw i "0x5C # 0x75 # h" t] unicode.prems(1) unicode(1)
    by (simp add: hex_quad_def add.commute)
  have "tapeKeyLoop raw key i ki \<longleftrightarrow> (if ki + length (encodeRune (hexnum h)) > length key \<or>
      encodeRune (hexnum h) \<noteq> segment key ki (ki + length (encodeRune (hexnum h))) then False
      else tapeKeyLoop raw key (i + 6) (ki + length (encodeRune (hexnum h))))"
    using a0 a1 u n by (subst tapeKeyLoop.simps) (auto simp: Let_def add.commute [of _ i])
  also have "\<dots> \<longleftrightarrow> drop ki key = encodeRune (hexnum h) @ utf8 rs" by (rule keyLoop_encoded [OF unicode.prems(2) unicode.IH [OF r]])
  finally show ?case by simp
next
  case (surrogates h l t rs)
  note a0 = at_Cons [OF surrogates.prems(1)] and a1 = at_Cons [OF conjunct2 [OF conjunct2 [OF at_Cons [OF surrogates.prems(1)]]]]
  have h: "JsonText.at raw (Suc (Suc i)) (h @ 0x5C # 0x75 # l @ t)" using a1 by blast
  have "JsonText.at raw (Suc (Suc i) + 4) (0x5C # 0x75 # l @ t)" using at_append [OF h] surrogates(1) by (simp add: hex_quad_def)
  then have l: "JsonText.at raw (i + 8) (l @ t)" using at_append [of raw "Suc (Suc i) + 4" "[0x5C, 0x75]" "l @ t"] by (simp add: add.commute)
  obtain u where u: "hex4 raw (Suc (Suc i)) = (u, True)" "unat u = hexnum h" using hex4_complete [OF h surrogates(1)] by blast
  obtain v where v: "hex4 raw (i + 8) = (v, True)" "unat v = hexnum l" using hex4_complete [OF l surrogates(2)] by blast
  have r: "JsonText.at raw (i + 12) t" using at_append [of raw i "0x5C # 0x75 # h @ 0x5C # 0x75 # l" t] surrogates.prems(1) surrogates(1,2)
    by (simp add: hex_quad_def add.commute)
  let ?e = "encodeRune (utf16_decode (hexnum h) (hexnum l))"
  have "tapeKeyLoop raw key i ki \<longleftrightarrow> (if ki + length ?e > length key \<or> ?e \<noteq> segment key ki (ki + length ?e) then False
      else tapeKeyLoop raw key (i + 12) (ki + length ?e))"
    using a0 a1 u v surrogates(3,4) by (subst tapeKeyLoop.simps) (simp add: Let_def add.commute [of _ i])
  also have "\<dots> \<longleftrightarrow> drop ki key = ?e @ utf8 rs" by (rule keyLoop_encoded [OF surrogates.prems(2) surrogates.IH [OF r]])
  finally show ?case by simp
qed

text \<open>A literal without a backslash spells its own text.\<close>

lemma clean_text: "string_text t rs \<Longrightarrow> 0x5C \<notin> set t \<Longrightarrow> t = utf8 rs"
  by (induction rule: string_text.induct) auto

lemma tapeKeyEqual_correct:
  assumes "string_at src a q rs" "flags AND tapeFlagEscaped = 0 \<longleftrightarrow> 0x5C \<notin> set (segment src (a + 1) (q - 1))"
  shows "tapeKeyEqual (segment src a q) flags key \<longleftrightarrow> utf8 rs = key"
proof -
  have aq: "a + 1 < q" "q \<le> length src" and t: "string_text (segment src (a + 1) (q - 1)) rs" using assms(1) by (auto simp: string_at_def)
  have c: "segment (segment src a q) 1 (length (segment src a q) - 1) = segment src (a + 1) (q - 1)"
    using aq by (auto simp: segment_def drop_take)
  show ?thesis
  proof (cases "flags AND tapeFlagEscaped = 0")
    case True
    then show ?thesis using clean_text [OF t] assms(2) c by (simp add: tapeKeyEqual_def)
  next
    case False
    then show ?thesis using tapeKeyLoop_correct [OF t, of "segment src (a + 1) (q - 1)" 0 0 key] c
      by (auto simp: tapeKeyEqual_def JsonText.at_def)
  qed
qed

section \<open>Gates\<close>

lemma SliceRange_span:
  assumes "a \<le> q" "q < 2 ^ 32"
  shows "SliceRange src (of_nat a) (of_nat q) = segment src a q"
proof -
  have u: "unat (of_nat a :: u32) = a" "unat (of_nat q :: u32) = q" using assms by (simp_all add: unat_of_nat)
  then have "unat (of_nat q - of_nat a :: u32) = q - a" using assms(1) by (simp add: unat_sub word_le_nat_alt)
  then show ?thesis using u assms(1) by (simp add: SliceRange_def)
qed

text \<open>The gates a lookup may use: the length of the query always, its hash on an enriched object.\<close>

definition admits :: "bool \<Rightarrow> bytes \<Rightarrow> (IndexEntry \<Rightarrow> bool) \<Rightarrow> bool" where
  "admits h key gate \<longleftrightarrow> gate = lengthGate key \<or> h \<and> gate = hashGate (hashKeyString key)"

lemma keyMatches_correct:
  assumes s: "string_at src a q rs" and l: "length src < 2 ^ 32" and e: "tape ! k = stored h src (keyEntry src a q)" and g: "admits h key gate"
  shows "keyMatches src tape k key gate \<longleftrightarrow> utf8 rs = key"
proof -
  have aq: "a + 1 < q" "q \<le> length src" and t: "string_text (segment src (a + 1) (q - 1)) rs" using s by (auto simp: string_at_def)
  note sk = stored_key [OF s l]
  have f: "entryFlags (tape ! k) AND tapeFlagEscaped = 0 \<longleftrightarrow> 0x5C \<notin> set (segment src (a + 1) (q - 1))"
    unfolding e sk(1) by (auto simp: escaped_flag_def tapeFlagKey_def tapeFlagEscaped_def)
  have sl: "SliceRange src (e_start (tape ! k)) (e_end (tape ! k)) = segment src a q"
    using SliceRange_span [of a q src] aq l by (simp add: e stored_span scalarEntry_def)
  have gate: "gate (tape ! k)" if "0x5C \<notin> set (segment src (a + 1) (q - 1))" "utf8 rs = key"
  proof -
    have c: "segment src (a + 1) (q - 1) = key" using clean_text [OF t that(1)] that(2) by simp
    have "(of_nat q :: u32) - of_nat a = of_nat (q - a)" using aq by simp
    moreover have "q - a = length key + 2" using c aq by (auto simp: segment_def)
    ultimately have "lengthGate key (tape ! k)" by (simp add: lengthGate_def e stored_span scalarEntry_def)
    moreover have "h \<Longrightarrow> hashGate (hashKeyString key) (tape ! k)" using sk(2) unfolding hashGate_def e c by simp
    ultimately show ?thesis using g unfolding admits_def by blast
  qed
  show ?thesis
    using tapeKeyEqual_correct [OF s f, of key] gate f by (auto simp: keyMatches_def Let_def sl)
qed

section \<open>Scans\<close>

text \<open>The value of the last member whose key has the given text.\<close>

definition jmember :: "(rune list \<times> json) list \<Rightarrow> bytes \<Rightarrow> json option" where
  "jmember ms key = map_of (rev (map (\<lambda>m. (utf8 (fst m), snd m)) ms)) key"

lemma jmember_simps:
  "jmember [] key = None"
  "jmember (m # ms) key = (case jmember ms key of Some v \<Rightarrow> Some v | None \<Rightarrow> if utf8 (fst m) = key then Some (snd m) else None)"
  by (simp_all add: jmember_def map_add_def split: option.split)

definition finds :: "bool \<Rightarrow> bytes \<Rightarrow> IndexEntry list \<Rightarrow> nat option \<Rightarrow> json option \<Rightarrow> nat option \<Rightarrow> bool" where
  "finds h src tape found r p \<longleftrightarrow> (case r of None \<Rightarrow> p = found | Some v \<Rightarrow> \<exists>q. p = Some q \<and> represents h src tape q v)"

lemma member_head:
  assumes "member_of src m t" "located tape q (map (stored h src) t)"
  obtains a b where "string_at src a b (fst m)" "tape ! q = stored h src (keyEntry src a b)" "represents h src tape (Suc q) (snd m)"
    "length t = Suc (tapeSize (snd m))"
  using assms tape_length(1) by (fastforce simp: member_of_def located_Cons represents_def tape_of_def)

lemma spanScan_finds:
  assumes "list_all2 (member_of src) ms tss" "located tape q (map (stored h src) (concat tss))" "length src < 2 ^ 32" "length tape < 2 ^ 32"
    "admits h key gate"
  shows "finds h src tape found (jmember ms key) (spanScan src tape key gate (length ms) q found)"
  using assms(1,2)
proof (induction ms tss arbitrary: q found rule: list_all2_induct)
  case Nil
  then show ?case by (simp add: finds_def jmember_simps)
next
  case (Cons m ms t tss)
  have l: "located tape q (map (stored h src) t)" "located tape (q + length t) (map (stored h src) (concat tss))"
    using Cons.prems by (auto simp: located_append)
  obtain a b where e: "string_at src a b (fst m)" "tape ! q = stored h src (keyEntry src a b)" "represents h src tape (Suc q) (snd m)"
    "length t = Suc (tapeSize (snd m))"
    using member_head [OF Cons.hyps(1) l(1)] .
  have k: "keyMatches src tape q key gate \<longleftrightarrow> utf8 (fst m) = key" using keyMatches_correct [OF e(1) assms(3) e(2) assms(5)] .
  have n: "nextSibling tape (Suc q) = q + length t" using nextSibling_eq [OF e(3) assms(4)] e(4) by simp
  let ?f = "if keyMatches src tape q key gate then Some (q + 1) else found"
  have s: "spanScan src tape key gate (length (m # ms)) q found = spanScan src tape key gate (length ms) (q + length t) ?f"
    using n by (cases ms) (auto simp: Let_def)
  show ?case unfolding s using Cons.IH [OF l(2), of ?f] e(3) k
    by (auto simp: finds_def jmember_simps split: option.splits)
qed

text \<open>One step of the scan over a flat object.\<close>

definition flatStep :: "bytes \<Rightarrow> IndexEntry list \<Rightarrow> nat \<Rightarrow> bytes \<Rightarrow> (IndexEntry \<Rightarrow> bool) \<Rightarrow> nat option \<Rightarrow> nat \<Rightarrow> nat option" where
  "flatStep src tape p key gate found member =
     (if keyMatches src tape (p + (2 * member + 1)) key gate then Some (p + (2 * member + 2)) else found)"

lemma flatScan_eq: "flatScan src tape p key gate count = foldl (flatStep src tape p key gate) None [0..<count]"
  unfolding flatScan_def Let_def
  by (rule arg_cong [where f = "\<lambda>f. foldl f None [0..<count]"]) (simp add: flatStep_def fun_eq_iff)

lemma flatStep_found:
  "foldl (flatStep src tape p key gate) found xs =
     (case foldl (flatStep src tape p key gate) None xs of None \<Rightarrow> found | Some q \<Rightarrow> Some q)"
  by (induction xs rule: rev_induct) (auto simp: flatStep_def)

lemma flat_span:
  assumes "\<And>k. k < count \<Longrightarrow> nextSibling tape (p + (2 * k + 2)) = p + (2 * k + 3)"
  shows "a \<le> count \<Longrightarrow> foldl (flatStep src tape p key gate) found [a..<count] = spanScan src tape key gate (count - a) (p + (2 * a + 1)) found"
proof (induction "count - a" arbitrary: a found)
  case (Suc n)
  then have a: "a < count" "[a..<count] = a # [Suc a..<count]" "count - a = Suc (count - Suc a)" by (simp_all add: upt_conv_Cons)
  have IH: "foldl (flatStep src tape p key gate) f [Suc a..<count] = spanScan src tape key gate (count - Suc a) (p + (2 * Suc a + 1)) f" for f
    by (rule Suc.hyps(1)) (use Suc.hyps(2) a in auto)
  have n: "nextSibling tape (Suc (p + (2 * a + 1))) = p + (2 * Suc a + 1)" using assms [OF a(1)] by simp
  show ?case
    unfolding a(2,3) foldl.simps IH using n
    by (cases "count - Suc a = 0") (auto simp: flatStep_def Let_def)
qed simp

lemma verify_eq:
  "lo \<le> m \<Longrightarrow> tapeVerifyFlatRange src tape p m lo key qh = foldl (flatStep src tape p key (hashGate qh)) None [lo..<m]"
proof (induction "m - lo" arbitrary: m)
  case 0
  then show ?case by (simp add: tapeVerifyFlatRange.simps)
next
  case (Suc n)
  then obtain m' where m: "m = Suc m'" "lo \<le> m'" by (cases m) auto
  then have IH: "tapeVerifyFlatRange src tape p m' lo key qh = foldl (flatStep src tape p key (hashGate qh)) None [lo..<m']"
    using Suc by auto
  show ?case unfolding m(1) using m(2) IH by (simp add: tapeVerifyFlatRange.simps [of _ _ _ "Suc m'"] flatStep_def Let_def)
qed

lemma mask_bit: "(\<And>n. bit m n \<longleftrightarrow> n = k) \<Longrightarrow> (x :: 'a::len word) AND m \<noteq> 0 \<longleftrightarrow> bit x k"
  by (metis (no_types, lifting) bit_0_eq bit_and_iff bit_word_eqI bot_apply bot_bool_def)

lemma escaped_bit: "e_info e AND push_bit 29 (ucast tapeFlagEscaped) \<noteq> 0 \<longleftrightarrow> entryFlags e AND tapeFlagEscaped \<noteq> 0"
proof -
  have "bit (push_bit 29 (ucast tapeFlagEscaped) :: u32) n \<longleftrightarrow> n = 29" for n
    unfolding bit_push_bit_iff by (auto simp: bit_ucast_iff tapeFlagEscaped_def bit_1_iff)
  from mask_bit [OF this] have "e_info e AND push_bit 29 (ucast tapeFlagEscaped) \<noteq> 0 \<longleftrightarrow> bit (e_info e) 29" .
  moreover have "bit tapeFlagEscaped n \<longleftrightarrow> n = 0" for n by (auto simp: tapeFlagEscaped_def bit_1_iff)
  from mask_bit [OF this] have "entryFlags e AND tapeFlagEscaped \<noteq> 0 \<longleftrightarrow> bit (e_info e) 29"
    by (simp add: entryFlags_def bit_ucast_iff bit_drop_bit_eq)
  ultimately show ?thesis by simp
qed

lemma no_candidate:
  assumes "e_next (tape ! q) \<noteq> qh" "e_info (tape ! q) AND push_bit 29 (ucast tapeFlagEscaped) = 0"
  shows "\<not> keyMatches src tape q key (hashGate qh)"
  using assms escaped_bit [of "tape ! q"] by (auto simp: keyMatches_def hashGate_def Let_def)

lemma or4_and: "(a OR b OR c OR d) AND m = 0 \<longleftrightarrow> a AND m = 0 \<and> b AND m = 0 \<and> c AND m = 0 \<and> d AND (m :: 'a::len word) = 0"
  by (simp add: and.commute [of _ m] bit.conj_disj_distrib or_eq_0_iff)

lemma tapeScanFlatHash_eq: "tapeScanFlatHash src tape p m key qh = flatScan src tape p key (hashGate qh) m"
  unfolding flatScan_eq
proof (induction m rule: less_induct)
  case (less m)
  let ?F = "flatStep src tape p key (hashGate qh)"
  show ?case
  proof (cases "4 \<le> m")
    case True
    then have "[0..<m] = [0..<m - 4] @ [m - 4..<m]" by (metis diff_le_self upt_add_eq_append le_add_diff_inverse zero_le)
    then have f: "foldl ?F None [0..<m] = (case foldl ?F None [m - 4..<m] of None \<Rightarrow> foldl ?F None [0..<m - 4] | Some q \<Rightarrow> Some q)"
      using flatStep_found [of src tape p key "hashGate qh" "foldl ?F None [0..<m - 4]" "[m - 4..<m]"] by simp
    have IH: "tapeScanFlatHash src tape p (m - 4) key qh = foldl ?F None [0..<m - 4]" using less [of "m - 4"] True by simp
    define cand where "cand = (e_next (tape ! (p + (2 * m - 1))) = qh \<or> e_next (tape ! (p + (2 * m - 3))) = qh \<or>
      e_next (tape ! (p + (2 * m - 5))) = qh \<or> e_next (tape ! (p + (2 * m - 7))) = qh \<or>
      (e_info (tape ! (p + (2 * m - 1))) OR e_info (tape ! (p + (2 * m - 3))) OR e_info (tape ! (p + (2 * m - 5))) OR
       e_info (tape ! (p + (2 * m - 7)))) AND push_bit 29 (ucast tapeFlagEscaped) \<noteq> 0)"
    have none: "foldl ?F None [m - 4..<m] = None" if "\<not> cand"
    proof -
      note c = that [unfolded cand_def or4_and de_Morgan_disj not_not]
      obtain n where n: "m = n + 4" using True by (metis le_iff_add add.commute)
      have "[m - 4..<m] = [n, n + 1, n + 2, n + 3]" unfolding n by (simp add: upt_rec)
      moreover have "p + (2 * (n + 3) + 1) = p + (2 * m - 1)" "p + (2 * (n + 2) + 1) = p + (2 * m - 3)"
        "p + (2 * (n + 1) + 1) = p + (2 * m - 5)" "p + (2 * n + 1) = p + (2 * m - 7)" using n by simp_all
      moreover have "\<not> keyMatches src tape (p + (2 * m - 1)) key (hashGate qh)" by (rule no_candidate) (use c in blast)+
      moreover have "\<not> keyMatches src tape (p + (2 * m - 3)) key (hashGate qh)" by (rule no_candidate) (use c in blast)+
      moreover have "\<not> keyMatches src tape (p + (2 * m - 5)) key (hashGate qh)" by (rule no_candidate) (use c in blast)+
      moreover have "\<not> keyMatches src tape (p + (2 * m - 7)) key (hashGate qh)" by (rule no_candidate) (use c in blast)+
      ultimately show ?thesis by (simp only: foldl.simps flatStep_def if_False)
    qed
    have "tapeScanFlatHash src tape p m key qh = (case (if cand then tapeVerifyFlatRange src tape p m (m - 4) key qh else None) of
        Some q \<Rightarrow> Some q | None \<Rightarrow> tapeScanFlatHash src tape p (m - 4) key qh)"
      using True unfolding cand_def by (subst tapeScanFlatHash.simps) (simp only: if_True Let_def)
    then show ?thesis unfolding f IH using none verify_eq [of "m - 4" m src tape p key qh] by (cases cand) (auto split: option.splits)
  next
    case False
    then show ?thesis using verify_eq [of 0 m src tape p key qh] by (subst tapeScanFlatHash.simps) simp
  qed
qed

section \<open>Lookup\<close>

lemma member_positions:
  assumes "list_all2 (member_of src) ms tss" "located tape q (map (stored h src) (concat tss))" "\<forall>m \<in> set ms. tapeSize (snd m) = 1"
    "length tape < 2 ^ 32"
  shows "k < length ms \<Longrightarrow> nextSibling tape (q + (2 * k + 1)) = q + (2 * k + 2)"
  using assms(1-3)
proof (induction ms tss arbitrary: q k rule: list_all2_induct)
  case (Cons m ms t tss)
  have l: "located tape q (map (stored h src) t)" "located tape (q + length t) (map (stored h src) (concat tss))"
    using Cons.prems by (auto simp: located_append)
  obtain a b where e: "represents h src tape (Suc q) (snd m)" "length t = Suc (tapeSize (snd m))"
    using member_head [OF Cons.hyps(1) l(1)] by metis
  have t: "length t = 2" using e(2) Cons.prems by simp
  show ?case
  proof (cases k)
    case 0
    then show ?thesis using nextSibling_eq [OF e(1) assms(4)] Cons.prems by simp
  next
    case (Suc k')
    then show ?thesis using Cons.IH [of k' "q + length t"] l(2) Cons.prems t by simp
  qed
qed simp

lemma flat_members:
  "list_all2 (member_of src) ms tss \<Longrightarrow> sum_list (map (\<lambda>m. 1 + tapeSize (snd m)) ms) = 2 * length ms \<Longrightarrow> \<forall>m \<in> set ms. tapeSize (snd m) = 1"
proof (induction ms tss rule: list_all2_induct)
  case (Cons m ms t tss)
  have "2 * length ms \<le> sum_list (map (\<lambda>m. 1 + tapeSize (snd m)) ms)"
  proof (induction ms)
    case (Cons x xs)
    then show ?case using tapeSize_pos [of "snd x"] by simp
  qed simp
  then show ?case using Cons tapeSize_pos [of "snd m"] by simp
qed simp

lemma flat_object_count:
  assumes "x = 2 * of_nat n + 1" "n \<le> infoMaxCount"
  shows "unat (x :: u32) = 2 * n + 1"
proof -
  have "x = of_nat (2 * n + 1)" using assms(1) by simp
  then show ?thesis using assms(2) by (simp only: unat_of_nat infoMaxCount_def) simp
qed

text \<open>Every gated scan of an object, flat or not, finds the last member with the key.\<close>

lemma object_scan:
  assumes "stands_for h nd (JObject ms)" "n_entry nd = Some p" "admits h key gate"
  shows "finds h (n_src nd) (n_tape nd) None (jmember ms key)
    (if e_next (nodeEntry nd) = 2 * of_nat (length ms) + 1 then flatScan (n_src nd) (n_tape nd) p key gate (length ms)
     else spanScan (n_src nd) (n_tape nd) key gate (length ms) (p + 1) None)"
proof -
  let ?T = "n_tape nd" and ?s = "n_src nd"
  have p: "represents h ?s ?T p (JObject ms)" and l: "length ?T < 2 ^ 32" "length ?s < 2 ^ 32"
    using assms(1,2) by (auto simp: stands_for_def)
  note ne = node_entry [OF assms(1)]
  obtain i j ts where t: "value_tape ?s i (JObject ms) j ts" "located ?T p (map (stored h ?s) ts)"
    using represents_head [OF p l(1)] by blast
  obtain tss where tss: "ts = headEntry ?s i (JObject ms) j # concat tss" "list_all2 (member_of ?s) ms tss" and cnt: "length ms \<le> infoMaxCount"
    using value_tape_head [OF t(1)] by auto
  have loc: "located ?T (p + 1) (map (stored h ?s) (concat tss))" using t(2) tss(1) by (simp add: located_Cons)
  note sp = spanScan_finds [OF tss(2) loc l(2,1) assms(3), of None]
  have "flatScan ?s ?T p key gate (length ms) = spanScan ?s ?T key gate (length ms) (p + 1) None"
    if "e_next (nodeEntry nd) = 2 * of_nat (length ms) + 1"
  proof -
    have "tapeSize (JObject ms) = 2 * length ms + 1" using flat_object_count [OF that cnt] ne(4) by simp
    then have one: "\<forall>m \<in> set ms. tapeSize (snd m) = 1" using flat_members [OF tss(2)] by (simp add: tapeSize_simps)
    have "nextSibling ?T (p + (2 * k + 2)) = p + (2 * k + 3)" if "k < length ms" for k
      using member_positions [OF tss(2) loc one l(1) that] by simp
    from flat_span [OF this, of "length ms" 0] show ?thesis by (simp add: flatScan_eq)
  qed
  then show ?thesis using sp by simp
qed

text \<open>What a lookup returns.\<close>

definition looks_up :: "bool \<Rightarrow> json option \<Rightarrow> Node option \<Rightarrow> bool" where
  "looks_up h r res \<longleftrightarrow> (case r of None \<Rightarrow> res = None | Some v \<Rightarrow> \<exists>nd. res = Some nd \<and> stands_for h nd v)"

lemma finds_looks_up:
  "stands_for h nd w \<Longrightarrow> finds h (n_src nd) (n_tape nd) None r p \<Longrightarrow> looks_up h r (map_option (nodeAt nd) p)"
  using stands_forI by (auto simp: finds_def looks_up_def split: option.splits)

lemma keysHashed_head:
  assumes "stands_for h nd (JObject ms)"
  shows "keysHashed (nodeEntry nd) = h"
proof -
  obtain p where p: "n_entry nd = Some p" "represents h (n_src nd) (n_tape nd) p (JObject ms)" "length (n_tape nd) < 2 ^ 32"
    using assms by (auto simp: stands_for_def)
  obtain i j ts where e: "value_tape (n_src nd) i (JObject ms) j ts" "n_tape nd ! p = stored h (n_src nd) (headEntry (n_src nd) i (JObject ms) j)"
    using represents_head [OF p(2,3)] by blast
  have "jcount (JObject ms) \<le> infoMaxCount" using value_tape_head [OF e(1)] by auto
  from stored_head(4) [OF this] show ?thesis using p(1) e(2) by (simp add: keysHashed_def nodeEntry_def tapeFlagEscaped_def)
qed

lemma hashed_lookup:
  assumes "stands_for h nd (JObject ms)" "h"
  shows "looks_up h (jmember ms key) (getHashedQuery nd key (hashKeyString key) (length ms))"
proof -
  obtain p where p: "n_entry nd = Some p" using assms(1) by (auto simp: stands_for_def)
  have "admits h key (hashGate (hashKeyString key))" using assms(2) by (simp add: admits_def)
  from finds_looks_up [OF assms(1) object_scan [OF assms(1) p this]] show ?thesis
    using p by (simp only: getHashedQuery_def Let_def tapeScanFlatHash_eq option.sel)
qed

lemma plain_lookup:
  assumes "stands_for h nd (JObject ms)"
  shows "looks_up h (jmember ms key) (getPlain nd key (length ms))"
proof -
  obtain p where p: "n_entry nd = Some p" using assms(1) by (auto simp: stands_for_def)
  have "admits h key (lengthGate key)" by (simp add: admits_def)
  from finds_looks_up [OF assms object_scan [OF assms p this]] show ?thesis using p by (simp only: getPlain_def Let_def option.sel)
qed

lemma node_Get_looks_up:
  assumes "stands_for h nd (JObject ms)"
  shows "looks_up h (jmember ms key) (node_Get nd key)"
proof -
  have o: "ObjectLen nd = Some (length ms)" using node_entry [OF assms] by (simp add: ObjectLen_def)
  show ?thesis
  proof (cases "ms = []")
    case True
    then show ?thesis using o by (simp add: node_Get_def looks_up_def jmember_simps)
  next
    case False
    then have "node_Get nd key = (if h then getHashedQuery nd key (hashKeyString key) (length ms) else getPlain nd key (length ms))"
      using o keysHashed_head [OF assms] by (simp add: node_Get_def)
    then show ?thesis using plain_lookup [OF assms, of key] hashed_lookup [OF assms, of key] by (cases h) simp_all
  qed
qed

end
