(* ===== verification/NodeRead.thy ===== *)
theory NodeRead
  imports NodeGet OrderedKeyCorrect IntegerKernels
begin

text \<open>
  Reading values through nodes: the raw text, literals, strings and integers of a node are those of the value it stands for, and
  the iterators walk the children in order.
\<close>

section \<open>The entry of a node\<close>

lemma node_span:
  assumes "stands_for h nd v"
  obtains i j ts where "value_tape (n_src nd) i v j ts" "unat (e_start (nodeEntry nd)) = i" "unat (e_end (nodeEntry nd)) = j"
    "i < j" "j \<le> length (n_src nd)" "Raw nd = segment (n_src nd) i j" "j < 2 ^ 32"
    "e_start (nodeEntry nd) = of_nat i" "e_end (nodeEntry nd) = of_nat j"
    "entryFlags (nodeEntry nd) = (if h \<and> jkind v = KObject then jflags (n_src nd) i j v OR tapeFlagEscaped else jflags (n_src nd) i j v)"
proof -
  let ?s = "n_src nd"
  obtain p where p: "n_entry nd = Some p" "represents h ?s (n_tape nd) p v" "length (n_tape nd) < 2 ^ 32" "length ?s < 2 ^ 32"
    using assms by (auto simp: stands_for_def)
  obtain i j ts where t: "value_tape ?s i v j ts" "nodeEntry nd = stored h ?s (headEntry ?s i v j)"
    using represents_head [OF p(2,3)] p(1) by (auto simp: nodeEntry_def)
  have c: "jcount v \<le> infoMaxCount" using value_tape_head [OF t(1)] by blast
  have ij: "i < j" "j \<le> length ?s" using value_tape_region [OF t(1)] by (auto simp: value_region_def)
  have e: "e_start (nodeEntry nd) = of_nat i" "e_end (nodeEntry nd) = of_nat j"
    unfolding t(2) stored_span by (simp_all add: headEntry_def)
  have u: "unat (e_start (nodeEntry nd)) = i" "unat (e_end (nodeEntry nd)) = j" using e ij p(4) by (simp_all add: unat_of_nat)
  have "Raw nd = segment ?s i j" using SliceRange_span [of i j ?s] ij p(1,4) by (simp add: Raw_def e node_valid_def)
  then show ?thesis using that t(1) u ij e stored_head(4) [OF c, of h ?s i j] t(2) p(4) by simp
qed

lemma value_tape_string: "value_tape src i (JString rs) j ts \<Longrightarrow> string_at src i j rs"
  by (auto elim: value_tape.cases)

lemma value_tape_number: "value_tape src i (JNumber t) j ts \<Longrightarrow> segment src i j = t \<and> number_text t"
  by (auto elim: value_tape.cases simp: literal_at_def)

section \<open>The root of an index\<close>

lemma root_stands_for:
  assumes "document_tape src v es" "length src < 2 ^ 32" "length es < 2 ^ 32"
  shows "stands_for h (nodeFromStorage src (if h then enrichKeyHashes src es else es)) v"
proof -
  obtain i j where t: "value_tape src i v j es" using assms(1) by (auto simp: document_tape_def)
  have m: "(if h then enrichKeyHashes src es else es) = map (stored h src) es"
    by (auto simp: stored_def [abs_def] enrichKeyHashes_def)
  have ne: "es \<noteq> []" "src \<noteq> []" using value_tape_region [OF t] by (auto simp: value_region_def)
  have "represents h src (map (stored h src) es) 0 v" using t located_all by (auto simp: represents_def tape_of_def)
  then show ?thesis unfolding m using ne assms(2,3) by (simp add: stands_for_def nodeFromStorage_def)
qed

section \<open>Scalars\<close>

lemma int_flag:
  "entryFlags (nodeEntry nd) AND tapeFlagInt \<noteq> 0 \<longleftrightarrow> (case v of JNumber t \<Rightarrow> plain_integer t | _ \<Rightarrow> False)" if "stands_for h nd v"
  by (rule node_span [OF that], cases v)
    (auto simp: numberFlags_def escaped_flag_def tapeFlagInt_def tapeFlagEscaped_def)

lemma literal_bool: "value_tape src i JTrue j ts \<Longrightarrow> src ! i = 0x74" "value_tape src i JFalse j ts \<Longrightarrow> src ! i = 0x66"
  by (auto elim!: value_tape.cases dest!: literal_head)

text \<open>Strings and keys: the text of an entry whose span is a literal.\<close>

lemma entry_text:
  assumes "string_at (n_src nd) i j rs" "j < 2 ^ 32" "node_Kind nd = KString" "e_start (nodeEntry nd) = of_nat i" "e_end (nodeEntry nd) = of_nat j"
    "entryFlags (nodeEntry nd) AND tapeFlagEscaped \<noteq> 0 \<longleftrightarrow> 0x5C \<in> set (segment (n_src nd) (i + 1) (j - 1))"
  shows "AppendText nd dst = (dst @ utf8 rs, True)"
    "StringBytes nd = (if 0x5C \<in> set (segment (n_src nd) i j) then None else Some (utf8 rs))"
proof -
  let ?s = "n_src nd"
  have t: "string_text (segment ?s (i + 1) (j - 1)) rs" and ij: "i + 1 < j" using assms(1) by (auto simp: string_at_def)
  have "e_end (nodeEntry nd) - 1 = of_nat (j - 1)" "e_start (nodeEntry nd) + 1 = of_nat (i + 1)" using ij assms(4,5) by simp_all
  then have raw: "SliceRange ?s (e_start (nodeEntry nd) + 1) (e_end (nodeEntry nd) - 1) = segment ?s (i + 1) (j - 1)"
    using SliceRange_span [of "i + 1" "j - 1" ?s] ij assms(2) by (simp only:)
  have "0x5C \<in> set (segment ?s i j) \<longleftrightarrow> 0x5C \<in> set (segment ?s (i + 1) (j - 1))" unfolding string_at_segment [OF assms(1)] by auto
  then show "StringBytes nd = (if 0x5C \<in> set (segment ?s i j) then None else Some (utf8 rs))"
    using assms(3,6) raw clean_text [OF t] by (auto simp: StringBytes_def Let_def)
  show "AppendText nd dst = (dst @ utf8 rs, True)"
    using assms(3,6) raw clean_text [OF t] decodeLoop_correct [OF t, of "segment ?s (i + 1) (j - 1)" 0 dst]
    by (auto simp: AppendText_def Let_def appendDecodedJSONString_def JsonText.at_def)
qed

lemma node_strings:
  assumes "stands_for h nd (JString rs)"
  shows "AppendText nd dst = (dst @ utf8 rs, True)"
    "StringBytes nd = (if 0x5C \<in> set (Raw nd) then None else Some (utf8 rs))"
proof -
  let ?s = "n_src nd"
  obtain i j ts where n: "value_tape ?s i (JString rs) j ts" "Raw nd = segment ?s i j" "j < 2 ^ 32"
    "e_start (nodeEntry nd) = of_nat i" "e_end (nodeEntry nd) = of_nat j" and f: "entryFlags (nodeEntry nd) = escaped_flag ?s i j"
    by (rule node_span [OF assms]) simp
  have k: "node_Kind nd = KString" using node_entry(2) [OF assms] by simp
  have "entryFlags (nodeEntry nd) AND tapeFlagEscaped \<noteq> 0 \<longleftrightarrow> 0x5C \<in> set (segment ?s (i + 1) (j - 1))"
    unfolding f by (simp add: escaped_flag_def tapeFlagEscaped_def)
  from entry_text [OF value_tape_string [OF n(1)] n(3) k n(4,5) this]
  show "AppendText nd dst = (dst @ utf8 rs, True)" "StringBytes nd = (if 0x5C \<in> set (Raw nd) then None else Some (utf8 rs))"
    unfolding n(2) .
qed

lemma key_text:
  assumes "string_at (n_src nd) a b rs" "length (n_src nd) < 2 ^ 32" "n_tape nd ! q = stored h (n_src nd) (keyEntry (n_src nd) a b)"
  shows "AppendText (nodeAt nd q) dst = (dst @ utf8 rs, True)"
proof -
  let ?s = "n_src nd" and ?e = "keyEntry (n_src nd) a b"
  have b: "b < 2 ^ 32" using assms(1,2) by (simp add: string_at_def)
  have e: "nodeEntry (nodeAt nd q) = stored h ?s ?e" "n_src (nodeAt nd q) = ?s" using assms(3) by (simp_all add: nodeEntry_def nodeAt_def)
  have p: "Kind ?e = KString" "entryFlags ?e = tapeFlagKey OR escaped_flag ?s a b"
    using packInfo_parts [of ?e 0 KString "tapeFlagKey OR escaped_flag ?s a b"]
    by (simp_all add: scalarEntry_def escaped_flag_def tapeFlagKey_def tapeFlagEscaped_def)
  have "e_info (stored h ?s ?e) = e_info ?e"
    using p by (simp add: stored_def enrichEntry_def Let_def escaped_flag_def tapeFlagKey_def tapeFlagEscaped_def)
  then have k: "Kind (stored h ?s ?e) = KString" using p(1) by (simp add: Kind_def)
  have f: "entryFlags (stored h ?s ?e) AND tapeFlagEscaped \<noteq> 0 \<longleftrightarrow> 0x5C \<in> set (segment ?s (a + 1) (b - 1))"
    unfolding stored_key(1) [OF assms(1,2)] by (simp add: escaped_flag_def tapeFlagKey_def tapeFlagEscaped_def)
  show ?thesis
    by (rule entry_text(1) [of _ a b]) (use assms(1) b k f e in \<open>simp_all add: node_Kind_def node_valid_def nodeAt_def stored_span scalarEntry_def\<close>)
qed

section \<open>Integers\<close>

text \<open>The value of an integer spelling.\<close>

definition int_value :: "bytes \<Rightarrow> int" where
  "int_value t = (if hd t = 0x2D then - int (dec (tl t)) else int (dec t))"

lemma plain_parts:
  assumes "number_parts t sg n f x" "plain_integer t"
  shows "f = [] \<and> x = []"
proof -
  have p: "\<forall>c \<in> set f. c = 0x2D \<or> isDigit c" "\<forall>c \<in> set x. c = 0x2D \<or> isDigit c"
    using assms by (auto simp: number_parts_def plain_integer_def)
  have "f = [] \<or> 0x2E \<in> set f" "x = [] \<or> 0x65 \<in> set x \<or> 0x45 \<in> set x"
    using assms(1) unfolding number_parts_def frac_text_def exp_text_def by (fastforce, fastforce)
  moreover have "\<not> isDigit 0x2E" "\<not> isDigit 0x65" "\<not> isDigit 0x45" by (simp_all add: isDigit_def)
  ultimately show ?thesis using p by fastforce
qed

lemma number_val_plain:
  assumes "number_text t" "plain_integer t"
  shows "number_val t w \<longleftrightarrow> w = of_int (int_value t)"
    "digits (if hd t = 0x2D then tl t else t)" "int_text (if hd t = 0x2D then tl t else t)"
proof -
  obtain sg n f x where "number_parts t sg n f x" using assms(1) by (auto simp: number_text_def number_parts_def)
  with plain_parts [OF this assms(2)] have s: "number_parts t sg n [] []" by simp
  have t: "t = sg @ n" "sg = [] \<or> sg = [0x2D]" "int_text n" using s by (auto simp: number_parts_def)
  have n: "digits n" "n \<noteq> []" "hd n \<noteq> 0x2D" using t(3) int_text_digits int_text_hd by (auto simp: int_text_def isOneNine_def)
  then have b: "(if hd t = 0x2D then tl t else t) = n" "hd t = 0x2D \<longleftrightarrow> sg = [0x2D]" using t by auto
  show "digits (if hd t = 0x2D then tl t else t)" "int_text (if hd t = 0x2D then tl t else t)" using b n t by simp_all
  have u: "sg' = sg \<and> n' = n \<and> f' = [] \<and> x' = []" if "number_parts t sg' n' f' x'" for sg' n' f' x'
  proof -
    have e: "f' = []" "x' = []" using plain_parts [OF that assms(2)] by auto
    have m: "t = sg' @ n'" "sg' = [] \<or> sg' = [0x2D]" "hd n' \<noteq> 0x2D" "n' \<noteq> []"
      using that e int_text_digits int_text_hd by (auto simp: number_parts_def int_text_def isOneNine_def)
    then show ?thesis using e t n by auto
  qed
  have "number_val t w \<longleftrightarrow> w = (if sg = [] then 1 else - 1) * of_nat (dec (n @ tl [])) * 10 powi (exp_val [] - int (length (tl ([] :: bytes))))"
    unfolding number_val_def using s u by blast
  then have "number_val t w \<longleftrightarrow> w = (if sg = [] then 1 else - 1) * of_nat (dec n)" by (simp add: exp_val_def)
  also have "(if sg = [] then 1 else - 1) * of_nat (dec n) = (of_int (int_value t) :: rat)"
    using t b n by (auto simp: int_value_def)
  finally show "number_val t w \<longleftrightarrow> w = of_int (int_value t)" .
qed

lemma integer_text:
  assumes "int_text n" "sg = [] \<or> sg = [0x2D]"
  shows "number_text (sg @ n)" "plain_integer (sg @ n)"
proof -
  show "number_text (sg @ n)" unfolding number_text_def using assms
    by (intro exI [of _ sg] exI [of _ n] exI [of _ "[]"]) (simp add: frac_text_def exp_text_def)
  show "plain_integer (sg @ n)" using assms int_text_digits [OF assms(1)] by (auto simp: plain_integer_def digits_def)
qed

lemma int_text_lower: "int_text n \<Longrightarrow> 1 < length n \<Longrightarrow> 10 ^ (length n - 1) \<le> dec n"
proof -
  assume "int_text n" "1 < length n"
  then obtain c ds where n: "n = c # ds" "isOneNine c" by (auto simp: int_text_def)
  have "49 \<le> unat c" using n(2) by (simp add: isOneNine_def word_le_nat_alt)
  then have "1 \<le> dval c" by (simp add: dval_def)
  then have "1 * 10 ^ length ds \<le> dval c * 10 ^ length ds" by (rule mult_le_mono1)
  also have "\<dots> \<le> dec n" by (simp add: n(1))
  finally show ?thesis by (simp add: n(1))
qed

lemma overflow_guard:
  assumes "unat (d :: u64) \<le> 9"
  shows "(value > (NOT 0 - d) div 10) \<longleftrightarrow> \<not> unat value * 10 + unat d < 2 ^ 64"
proof -
  have "unat (- 1 :: u64) = 2 ^ 64 - 1" by (simp add: unsigned_minus_1_eq_mask mask_eq_exp_minus_1)
  then have m: "unat (NOT 0 - d) = 2 ^ 64 - 1 - unat d" using unat_sub [of d "- 1"] by simp
  have "unat ((NOT 0 - d) div 10) = (2 ^ 64 - 1 - unat d) div 10" using m by (simp add: unat_div)
  then show ?thesis unfolding word_less_nat_alt using assms by (simp add: div_less_iff_less_mult) linarith
qed

lemma tapeUint64Loop_correct:
  "digits ds \<Longrightarrow> tapeUint64Loop ds value =
     (if unat value * 10 ^ length ds + dec ds < 2 ^ 64 then Some (of_nat (unat value * 10 ^ length ds + dec ds)) else None)"
proof (induction ds arbitrary: "value")
  case Nil
  have "unat value < 2 ^ LENGTH(64)" by (rule unsigned_less)
  then show ?case by simp
next
  case (Cons c cs)
  have c: "isDigit c" "digits cs" using Cons.prems by (auto simp: digits_def)
  let ?d = "ucast (c - 0x30) :: u64"
  have d: "unat ?d = dval c" "dval c \<le> 9" using c(1) by (auto simp: isDigit_def dval_def word_le_nat_alt unsigned_ucast_eq unat_sub take_bit_nat_eq_self)
  have g: "value > (NOT 0 - ?d) div 10 \<longleftrightarrow> \<not> unat value * 10 + dval c < 2 ^ 64" using overflow_guard [of ?d "value"] d by simp
  have split: "unat value * 10 ^ length (c # cs) + dec (c # cs) = (unat value * 10 + dval c) * 10 ^ length cs + dec cs"
    by (simp add: algebra_simps)
  show ?case
  proof (cases "unat value * 10 + dval c < 2 ^ 64")
    case True
    then have u: "unat (value * 10 + ?d) = unat value * 10 + dval c" using d by (simp add: unat_word_ariths)
    have "tapeUint64Loop (c # cs) value = tapeUint64Loop cs (value * 10 + ?d)"
      by (simp only: tapeUint64Loop.simps Let_def g True not_True_eq_False if_False)
    then show ?thesis by (simp only: Cons.IH [OF c(2)] u split)
  next
    case False
    have "unat value * 10 + dval c \<le> (unat value * 10 + dval c) * 10 ^ length cs + dec cs"
      by (rule trans_le_add1) (use mult_le_mono2 [of 1 "10 ^ length cs" "unat value * 10 + dval c"] in \<open>simp only: mult.right_neutral one_le_power one_le_numeral\<close>)
    then show ?thesis using False g unfolding split by simp
  qed
qed

lemma tapeUint64_correct:
  assumes "i < j" "j \<le> length src" "int_text (segment src i j)"
  shows "tapeUint64 src i j = (if dec (segment src i j) < 2 ^ 64 then Some (of_nat (dec (segment src i j))) else None)"
proof -
  let ?t = "segment src i j"
  have t: "digits ?t" "length ?t = j - i" using int_text_digits [OF assms(3)] assms(1,2) by auto
  note pt = parseTapeDigits_correct [OF assms(1,2) t(1)]
  have up: "dec ?t < 10 ^ (j - i)" using dec_less [OF t(1)] t(2) by simp
  consider "j - i \<le> 19" | "j - i = 20" | "20 < j - i" by linarith
  then show ?thesis
  proof cases
    case 1
    then have "(10::nat) ^ (j - i) \<le> 10 ^ 19" by (intro power_increasing) auto
    then show ?thesis using up pt 1 by (simp add: tapeUint64_def)
  next
    case 2
    then show ?thesis using tapeUint64Loop_correct [OF t(1), of 0] pt by (simp add: tapeUint64_def)
  next
    case 3
    then have "(10::nat) ^ 20 \<le> 10 ^ (j - i - 1)" by (intro power_increasing) auto
    then have "10 ^ 20 \<le> dec ?t" using int_text_lower [OF assms(3)] t(2) 3 by simp
    then show ?thesis using pt 3 by (simp add: tapeUint64_def)
  qed
qed

lemma sint_of_range: "- (2 ^ 63) \<le> z \<Longrightarrow> z < 2 ^ 63 \<Longrightarrow> sint (word_of_int z :: u64) = z"
  by (simp add: sint_sbintrunc' signed_take_bit_int_eq_self)

lemma tapeInt64_correct:
  assumes "i < j" "j \<le> length src" "number_text (segment src i j)" "plain_integer (segment src i j)"
  shows "tapeInt64 src i j = (let z = int_value (segment src i j) in if - (2 ^ 63) \<le> z \<and> z < 2 ^ 63 then Some (word_of_int z) else None)"
proof -
  let ?t = "segment src i j"
  note np = number_val_plain(2,3) [OF assms(3,4)]
  have hd: "hd ?t = src ! i" "fastByteAt src i = src ! i" using assms(1,2) by (simp_all add: segment_Cons fastByteAt_def)
  let ?i = "if src ! i = 0x2D then i + 1 else i"
  have body: "(if hd ?t = 0x2D then tl ?t else ?t) = segment src ?i j" using assms(1,2) hd by (simp add: segment_Cons)
  have d: "digits (segment src ?i j)" "int_text (segment src ?i j)" using np body by simp_all
  have ij: "?i < j" using int_text_digits [OF d(2)] by (cases "?i < j") (auto simp: segment_def)
  note pt = parseTapeDigits_correct [OF ij assms(2) d(1)]
  let ?v = "dec (segment src ?i j)"
  have v: "int_value ?t = (if src ! i = 0x2D then - int ?v else int ?v)" using body hd by (auto simp: int_value_def)
  have up: "?v < 10 ^ 19" if "j - ?i \<le> 19"
  proof -
    have "(10::nat) ^ (j - ?i) \<le> 10 ^ 19" using that by (intro power_increasing) auto
    then show ?thesis using dec_less [OF d(1)] ij assms(2) by simp
  qed
  have low: "10 ^ 19 \<le> ?v" if "\<not> j - ?i \<le> 19"
  proof -
    have "(10::nat) ^ 19 \<le> 10 ^ (j - ?i - 1)" using that by (intro power_increasing) auto
    then show ?thesis using int_text_lower [OF d(2)] that assms(2) by simp
  qed
  show ?thesis
  proof (cases "j - ?i \<le> 19")
    case True
    then have "unat (of_nat ?v :: u64) = ?v" using up by (simp add: unat_of_nat)
    then show ?thesis using pt True hd v by (auto simp: tapeInt64_def Let_def word_less_nat_alt)
  next
    case False
    then show ?thesis using pt low v hd by (auto simp: tapeInt64_def Let_def)
  qed
qed

lemma integer_node:
  assumes "stands_for h nd (JNumber t)" "plain_integer t"
  shows "Int64 nd = (let z = int_value t in if - (2 ^ 63) \<le> z \<and> z < 2 ^ 63 then Some (word_of_int z) else None)"
    "Uint64 nd = (if hd t \<noteq> 0x2D \<and> dec t < 2 ^ 64 then Some (of_nat (dec t)) else None)"
proof -
  let ?s = "n_src nd"
  obtain i j ts where n: "value_tape ?s i (JNumber t) j ts" "i < j" "j \<le> length ?s"
    "unat (e_start (nodeEntry nd)) = i" "unat (e_end (nodeEntry nd)) = j"
    by (rule node_span [OF assms(1)]) simp
  have t: "segment ?s i j = t" "number_text t" using value_tape_number [OF n(1)] by auto
  have k: "node_Kind nd = KNumber" and f: "entryFlags (nodeEntry nd) AND tapeFlagInt \<noteq> 0"
    using node_entry(2) [OF assms(1)] int_flag [OF assms(1)] assms(2) by simp_all
  have hd: "hd t = ?s ! i" using t(1) n(2,3) by (auto simp: segment_Cons)
  show "Int64 nd = (let z = int_value t in if - (2 ^ 63) \<le> z \<and> z < 2 ^ 63 then Some (word_of_int z) else None)"
    using tapeInt64_correct [OF n(2,3)] t assms(2) k f n(4,5) by (simp add: Int64_def Let_def)
  have "int_text t" if "hd t \<noteq> 0x2D" using number_val_plain(3) [OF t(2) assms(2)] that by simp
  then show "Uint64 nd = (if hd t \<noteq> 0x2D \<and> dec t < 2 ^ 64 then Some (of_nat (dec t)) else None)"
    using tapeUint64_correct [OF n(2,3)] t k f n(4,5) hd by (auto simp: Uint64_def Let_def)
qed

lemma no_integer:
  assumes "stands_for h nd v" "\<nexists>t. v = JNumber t \<and> plain_integer t"
  shows "Int64 nd = None" "Uint64 nd = None"
  using assms(2) int_flag [OF assms(1)] by (auto simp: Int64_def Uint64_def Let_def split: json.splits)

section \<open>Iterators\<close>

text \<open>Calling an iterator until it is exhausted, \<open>n\<close> times at most.\<close>

fun drain :: "('s \<Rightarrow> 'a option \<times> 's) \<Rightarrow> nat \<Rightarrow> 's \<Rightarrow> 'a list" where
  "drain next 0 it = []"
| "drain next (Suc n) it = (case next it of (None, _) \<Rightarrow> [] | (Some a, it') \<Rightarrow> a # drain next n it')"

text \<open>What an iterator promises: it yields what is left, one after the other, and then nothing.\<close>

locale iterator =
  fixes next_of :: "'s \<Rightarrow> 'a option \<times> 's" and left :: "'s \<Rightarrow> 'b list \<Rightarrow> bool" and agrees :: "'a \<Rightarrow> 'b \<Rightarrow> bool"
  assumes next_end: "left it [] \<Longrightarrow> next_of it = (None, it)"
    and next_step: "left it (x # xs) \<Longrightarrow> \<exists>a it'. next_of it = (Some a, it') \<and> agrees a x \<and> left it' xs"
begin

lemma drain_left: "left it xs \<Longrightarrow> length xs \<le> n \<Longrightarrow> list_all2 agrees (drain next_of n it) xs"
proof (induction xs arbitrary: it n)
  case Nil
  then show ?case using next_end by (cases n) auto
next
  case (Cons x xs)
  obtain a it' where "next_of it = (Some a, it')" "agrees a x" "left it' xs" using next_step [OF Cons.prems(1)] by blast
  moreover obtain m where "n = Suc m" using Cons.prems(2) by (cases n) auto
  ultimately show ?case using Cons by simp
qed

end

definition array_left :: "bool \<Rightarrow> ArrayIter \<Rightarrow> json list \<Rightarrow> bool" where
  "array_left h it vs \<longleftrightarrow> (\<exists>w. stands_for h (it_node it) w) \<and> unat (it_remaining it) = length vs \<and>
     (vs \<noteq> [] \<longrightarrow> (\<exists>p tss. it_entry it = Some p \<and> list_all2 (tape_of (n_src (it_node it))) vs tss \<and>
        located (n_tape (it_node it)) p (map (stored h (n_src (it_node it))) (concat tss))))"

lemma remaining_pred: "unat r = Suc n \<Longrightarrow> unat (r - 1) = n \<and> r \<noteq> 0 \<and> (r - 1 = 0 \<longleftrightarrow> n = 0)" for r :: u32
proof -
  assume r: "unat r = Suc n"
  then have z: "r \<noteq> 0" by auto
  then have "unat (r - 1) = unat r - 1" by (simp add: unat_minus_one)
  then show ?thesis using r z by (auto simp: unat_eq_zero)
qed

lemma array_next_step:
  assumes "array_left h it (v # vs)"
  shows "\<exists>a it'. array_Next it = (Some a, it') \<and> stands_for h a v \<and> array_left h it' vs"
proof -
  let ?nd = "it_node it"
  obtain w p ts tss where w: "stands_for h ?nd w" and r: "unat (it_remaining it) = Suc (length vs)" and e: "it_entry it = Some p"
    and t: "tape_of (n_src ?nd) v ts" "list_all2 (tape_of (n_src ?nd)) vs tss"
    and l: "located (n_tape ?nd) p (map (stored h (n_src ?nd)) (ts @ concat tss))"
    using assms by (auto simp: array_left_def list_all2_Cons1)
  have l': "located (n_tape ?nd) p (map (stored h (n_src ?nd)) ts)"
    "located (n_tape ?nd) (p + length ts) (map (stored h (n_src ?nd)) (concat tss))" using l by (simp_all add: located_append)
  have rep: "represents h (n_src ?nd) (n_tape ?nd) p v" using t(1) l'(1) by (auto simp: represents_def)
  have n: "nextSibling (n_tape ?nd) p = p + length ts"
    using nextSibling_eq [OF rep] w t(1) tape_length(1) by (auto simp: stands_for_def tape_of_def)
  note rp = remaining_pred [OF r]
  show ?thesis using rp w t(2) l'(2) n e stands_forI [OF w rep]
    by (auto simp: array_Next_def Let_def array_left_def)
qed

interpretation arrays: iterator array_Next "array_left h" "stands_for h" for h
proof unfold_locales
  show "array_left h it [] \<Longrightarrow> array_Next it = (None, it)" for it by (simp add: array_left_def array_Next_def unat_eq_zero)
qed (rule array_next_step)

text \<open>A key node and the value node beside it.\<close>

definition member_agrees :: "bool \<Rightarrow> Node \<times> Node \<Rightarrow> rune list \<times> json \<Rightarrow> bool" where
  "member_agrees h m x \<longleftrightarrow> (\<forall>dst. AppendText (fst m) dst = (dst @ utf8 (fst x), True)) \<and> stands_for h (snd m) (snd x)"

definition object_left :: "bool \<Rightarrow> ObjectIter \<Rightarrow> (rune list \<times> json) list \<Rightarrow> bool" where
  "object_left h it ms \<longleftrightarrow> (\<exists>w. stands_for h (oi_node it) w) \<and> unat (oi_remaining it) = length ms \<and>
     (ms \<noteq> [] \<longrightarrow> (\<exists>q tss. oi_entry it = Some q \<and> list_all2 (member_of (n_src (oi_node it))) ms tss \<and>
        located (n_tape (oi_node it)) q (map (stored h (n_src (oi_node it))) (concat tss))))"

lemma object_next_step:
  assumes "object_left h it (m # ms)"
  shows "\<exists>a it'. object_Next it = (Some a, it') \<and> member_agrees h a m \<and> object_left h it' ms"
proof -
  let ?nd = "oi_node it"
  obtain w q t tss where w: "stands_for h ?nd w" and r: "unat (oi_remaining it) = Suc (length ms)" and e: "oi_entry it = Some q"
    and t: "member_of (n_src ?nd) m t" "list_all2 (member_of (n_src ?nd)) ms tss"
    and l: "located (n_tape ?nd) q (map (stored h (n_src ?nd)) (t @ concat tss))"
    using assms by (auto simp: object_left_def list_all2_Cons1)
  have l': "located (n_tape ?nd) q (map (stored h (n_src ?nd)) t)"
    "located (n_tape ?nd) (q + length t) (map (stored h (n_src ?nd)) (concat tss))" using l by (simp_all add: located_append)
  obtain a b where s: "string_at (n_src ?nd) a b (fst m)" "n_tape ?nd ! q = stored h (n_src ?nd) (keyEntry (n_src ?nd) a b)"
    and rep: "represents h (n_src ?nd) (n_tape ?nd) (Suc q) (snd m)" and lt: "length t = Suc (tapeSize (snd m))"
    using member_head [OF t(1) l'(1)] .
  have len: "length (n_src ?nd) < 2 ^ 32" "length (n_tape ?nd) < 2 ^ 32" using w by (auto simp: stands_for_def)
  have n: "nextSibling (n_tape ?nd) (Suc q) = q + length t" using nextSibling_eq [OF rep len(2)] lt by simp
  have ag: "member_agrees h (nodeAt ?nd q, nodeAt ?nd (Suc q)) m"
    using key_text [OF s(1) len(1) s(2)] stands_forI [OF w rep] by (simp add: member_agrees_def)
  show ?thesis using remaining_pred [OF r] w t(2) l'(2) n e ag by (auto simp: object_Next_def Let_def object_left_def)
qed

interpretation objects: iterator object_Next "object_left h" "member_agrees h" for h
proof unfold_locales
  show "object_left h it [] \<Longrightarrow> object_Next it = (None, it)" for it by (simp add: object_left_def object_Next_def unat_eq_zero)
qed (rule object_next_step)

section \<open>The children of a node\<close>

lemma array_children:
  assumes "stands_for h nd (JArray vs)"
  obtains p tss where "n_entry nd = Some p" "list_all2 (tape_of (n_src nd)) vs tss"
    "located (n_tape nd) (p + 1) (map (stored h (n_src nd)) (concat tss))" "ArrayLen nd = Some (length vs)" "length vs \<le> infoMaxCount"
proof -
  obtain p where p: "n_entry nd = Some p" "represents h (n_src nd) (n_tape nd) p (JArray vs)" "length (n_tape nd) < 2 ^ 32"
    using assms by (auto simp: stands_for_def)
  obtain i j ts where t: "value_tape (n_src nd) i (JArray vs) j ts" "located (n_tape nd) p (map (stored h (n_src nd)) ts)"
    using represents_head [OF p(2,3)] by blast
  show ?thesis using value_tape_head [OF t(1)] that p(1) t(2) node_entry [OF assms] by (auto simp: located_Cons ArrayLen_def)
qed

lemma object_children:
  assumes "stands_for h nd (JObject ms)"
  obtains p tss where "n_entry nd = Some p" "list_all2 (member_of (n_src nd)) ms tss"
    "located (n_tape nd) (p + 1) (map (stored h (n_src nd)) (concat tss))" "ObjectLen nd = Some (length ms)" "length ms \<le> infoMaxCount"
proof -
  obtain p where p: "n_entry nd = Some p" "represents h (n_src nd) (n_tape nd) p (JObject ms)" "length (n_tape nd) < 2 ^ 32"
    using assms by (auto simp: stands_for_def)
  obtain i j ts where t: "value_tape (n_src nd) i (JObject ms) j ts" "located (n_tape nd) p (map (stored h (n_src nd)) ts)"
    using represents_head [OF p(2,3)] by blast
  show ?thesis using value_tape_head [OF t(1)] that p(1) t(2) node_entry [OF assms] by (auto simp: located_Cons ObjectLen_def)
qed

lemma array_start:
  assumes "stands_for h nd (JArray vs)"
  shows "\<exists>it. node_ArrayIter nd = Some it \<and> array_left h it vs"
  by (rule array_children [OF assms]) (use assms in \<open>auto simp: node_ArrayIter_def array_left_def unat_count\<close>)

lemma object_start:
  assumes "stands_for h nd (JObject ms)"
  shows "\<exists>it. node_ObjectIter nd = Some it \<and> object_left h it ms"
  by (rule object_children [OF assms]) (use assms in \<open>auto simp: node_ObjectIter_def object_left_def unat_count\<close>)

section \<open>Columns\<close>

text \<open>The cell of a row: the raw text of the member, nothing when the row is no object or lacks it.\<close>

fun cell :: "bytes \<Rightarrow> json \<Rightarrow> bytes \<Rightarrow> bool" where
  "cell key (JObject ms) c = (case jmember ms key of Some w \<Rightarrow> json_text w c | None \<Rightarrow> c = [])"
| "cell key _ c = (c = [])"

lemma Raw_text: "stands_for h nd v \<Longrightarrow> json_text v (Raw nd)"
  by (erule node_span) (use value_tape_region in \<open>auto simp: value_region_def\<close>)

lemma raw_lookup: "looks_up h r res \<Longrightarrow> (case r of Some w \<Rightarrow> json_text w (case res of None \<Rightarrow> [] | Some v \<Rightarrow> Raw v)
    | None \<Rightarrow> (case res of None \<Rightarrow> [] | Some v \<Rightarrow> Raw v) = [])"
  using Raw_text by (auto simp: looks_up_def split: option.splits)

lemma columnValue_cell:
  assumes "stands_for h nd v"
  shows "cell key v (columnValue nd key (hashKeyString key))"
proof (cases "\<exists>ms. v = JObject ms")
  case True
  then obtain ms where v: "v = JObject ms" by blast
  note st = assms [unfolded v]
  obtain p where p: "n_entry nd = Some p" using st by (auto simp: stands_for_def)
  have k: "Kind (nodeEntry nd) = KObject" "unat (Count (nodeEntry nd)) = length ms"
    using node_entry [OF st] by (simp_all add: node_Kind_def)
  have g: "map_option (nodeAt nd) (tapeScanFlatHash (n_src nd) (n_tape nd) p (length ms) key qh) = getHashedQuery nd key qh (length ms)"
    if "e_next (nodeEntry nd) = 2 * of_nat (length ms) + 1" for qh using that p by (simp add: getHashedQuery_def)
  have "columnValue nd key (hashKeyString key) = (case (if length ms = 0 then None else node_Get nd key) of None \<Rightarrow> [] | Some v \<Rightarrow> Raw v)"
    using k p g by (simp add: columnValue_def Let_def node_Get_def ObjectLen_def node_Kind_def node_entry(1) [OF st])
  moreover have "ms = [] \<Longrightarrow> jmember ms key = None" by (simp add: jmember_simps)
  ultimately show ?thesis using raw_lookup [OF node_Get_looks_up [OF st, of key]] v by (auto split: option.splits)
next
  case False
  then have "jkind v \<noteq> KObject" by (cases v) auto
  then have "columnValue nd key (hashKeyString key) = []"
    using node_entry(1,2) [OF assms] by (simp add: columnValue_def Let_def node_Kind_def)
  then show ?thesis using False by (cases v) auto
qed

lemma columnLoop_cells:
  assumes "stands_for h nd w" "list_all2 (tape_of (n_src nd)) vs tss" "located (n_tape nd) p (map (stored h (n_src nd)) (concat tss))"
  shows "\<exists>cs. columnLoop nd key (hashKeyString key) (length vs) p dst = dst @ cs \<and> list_all2 (cell key) vs cs"
  using assms(2,3)
proof (induction vs tss arbitrary: p dst rule: list_all2_induct)
  case (Cons v vs t tss)
  have l: "located (n_tape nd) p (map (stored h (n_src nd)) t)"
    "located (n_tape nd) (p + length t) (map (stored h (n_src nd)) (concat tss))" using Cons.prems by (auto simp: located_append)
  have rep: "represents h (n_src nd) (n_tape nd) p v" using Cons.hyps(1) l(1) by (auto simp: represents_def)
  have n: "nextSibling (n_tape nd) p = p + length t"
    using nextSibling_eq [OF rep] assms(1) Cons.hyps(1) tape_length(1) by (auto simp: stands_for_def tape_of_def)
  let ?c = "columnValue (nodeAt nd p) key (hashKeyString key)"
  have c: "cell key v ?c" using columnValue_cell [OF stands_forI [OF assms(1) rep]] .
  have "columnLoop nd key (hashKeyString key) (length (v # vs)) p dst = columnLoop nd key (hashKeyString key) (length vs) (p + length t) (dst @ [?c])"
    using n by (cases vs) (simp_all add: Let_def)
  then show ?case using Cons.IH [OF l(2), of "dst @ [?c]"] c by (metis append_Cons append_Nil append_assoc list_all2_Cons)
qed simp

section \<open>Properties\<close>

text \<open>C19. Every scalar read of a node is the read of the value it stands for: its raw text is a text of the value, its kind, its boolean, its number spelling and its null test are the value's, an escaped or plain string decodes to the UTF-8 form of its code points, and the reads of another kind refuse.\<close>

theorem node_reads:
  assumes "stands_for h nd v"
  shows "json_text v (Raw nd) \<and> node_Kind nd = jkind v \<and> (IsNull nd \<longleftrightarrow> v = JNull) \<and>
    node_Bool nd = (case v of JTrue \<Rightarrow> Some True | JFalse \<Rightarrow> Some False | _ \<Rightarrow> None) \<and>
    NumberBytes nd = (case v of JNumber t \<Rightarrow> Some t | _ \<Rightarrow> None) \<and>
    (IsInteger nd \<longleftrightarrow> (case v of JNumber t \<Rightarrow> plain_integer t | _ \<Rightarrow> False)) \<and>
    AppendText nd dst = (case v of JString rs \<Rightarrow> (dst @ utf8 rs, True) | _ \<Rightarrow> (dst, False)) \<and>
    StringBytes nd = (case v of JString rs \<Rightarrow> if 0x5C \<in> set (Raw nd) then None else Some (utf8 rs) | _ \<Rightarrow> None)"
proof -
  note ne = node_entry(1,2) [OF assms]
  obtain i j ts where n: "value_tape (n_src nd) i v j ts" "unat (e_start (nodeEntry nd)) = i" "Raw nd = segment (n_src nd) i j"
    by (rule node_span [OF assms]) simp
  have other: "jkind v \<noteq> KString \<Longrightarrow> AppendText nd dst = (dst, False) \<and> StringBytes nd = None"
    using ne(2) by (simp add: AppendText_def StringBytes_def)
  have "node_Bool nd = (case v of JTrue \<Rightarrow> Some True | JFalse \<Rightarrow> Some False | _ \<Rightarrow> None)"
    using ne(2) n(1,2) literal_bool by (cases v) (auto simp: node_Bool_def)
  moreover have "NumberBytes nd = (case v of JNumber t \<Rightarrow> Some t | _ \<Rightarrow> None)"
    using ne n value_tape_number by (cases v) (auto simp: NumberBytes_def Raw_def)
  moreover have "AppendText nd dst = (case v of JString rs \<Rightarrow> (dst @ utf8 rs, True) | _ \<Rightarrow> (dst, False))"
    using assms other node_strings(1) by (cases v) auto
  moreover have "StringBytes nd = (case v of JString rs \<Rightarrow> if 0x5C \<in> set (Raw nd) then None else Some (utf8 rs) | _ \<Rightarrow> None)"
    using assms other node_strings(2) by (cases v) auto
  moreover have "IsNull nd \<longleftrightarrow> v = JNull" using ne(2) by (cases v) (auto simp: IsNull_def)
  ultimately show ?thesis using Raw_text [OF assms] ne int_flag [OF assms] by (auto simp: IsInteger_def)
qed

theorem node_reads_witness:
  "AppendText (nodeFromStorage [0x22, 0x5C, 0x6E, 0x22] [scalarEntry 0 4 KString tapeFlagEscaped]) [1] = ([1, 10], True)"
proof -
  let ?s = "[0x22, 0x5C, 0x6E, 0x22] :: bytes"
  have "string_text (0x5C # 0x6E # []) (unat (0x0A :: byte) # [])"
    by (rule string_text.escape) (simp_all add: simple_escape_def string_text.empty)
  then have "string_at ?s 0 4 [10]" by (simp add: string_at_def segment_def)
  from t_string [OF this] have "document_tape ?s (JString [10]) [scalarEntry 0 4 KString tapeFlagEscaped]"
    unfolding document_tape_def by (intro exI [of _ 0] exI [of _ 4]) (simp add: gap_def escaped_flag_def segment_def)
  from root_stands_for [OF this, of False] have "stands_for False (nodeFromStorage ?s [scalarEntry 0 4 KString tapeFlagEscaped]) (JString [10])" by simp
  from node_reads [OF this, of "[1]"] show ?thesis by (simp add: utf8_def encodeRune_def encodeScalar_def is_scalar_def is_surrogate_def)
qed

text \<open>C20. Integer reads are exact: \<^verbatim>\<open>Int64\<close> answers with a 64-bit integer precisely when the node is a number in integer spelling that denotes it, and \<^verbatim>\<open>Uint64\<close> likewise for the unsigned integers without a minus sign; fractions, exponents and every value out of range are refused, the twenty-digit values at the edge included.\<close>

theorem node_integers:
  assumes "stands_for h nd v"
  shows "(Int64 nd = Some w \<longleftrightarrow> (\<exists>t. v = JNumber t \<and> plain_integer t \<and> number_val t (of_int (sint w)))) \<and>
    (Uint64 nd = Some w \<longleftrightarrow> (\<exists>t. v = JNumber t \<and> plain_integer t \<and> hd t \<noteq> 0x2D \<and> number_val t (of_int (uint w))))"
proof (cases "\<exists>t. v = JNumber t \<and> plain_integer t")
  case True
  then obtain t where t: "v = JNumber t" "plain_integer t" by blast
  note st = assms [unfolded t(1)]
  have nt: "number_text t" by (rule node_span [OF st]) (use value_tape_number in blast)
  note nv = number_val_plain(1) [OF nt t(2)]
  have r: "- (2 ^ 63) \<le> sint w" "sint w < 2 ^ 63" using sint_greater_eq [of w] sint_less [of w] by simp_all
  have "word_of_int (sint w) = w" by simp
  then have i: "Int64 nd = Some w \<longleftrightarrow> sint w = int_value t"
    unfolding integer_node(1) [OF st t(2)] Let_def using r sint_of_range [of "int_value t"] by (metis option.distinct(1) option.inject)
  have "unat w < 2 ^ LENGTH(64)" by (rule unsigned_less)
  then have u: "Uint64 nd = Some w \<longleftrightarrow> hd t \<noteq> 0x2D \<and> unat w = dec t"
    unfolding integer_node(2) [OF st t(2)] by (auto simp: unat_of_nat word_unat_eq_iff)
  have "int (unat w) = uint w" by simp
  then have "hd t \<noteq> 0x2D \<Longrightarrow> uint w = int_value t \<longleftrightarrow> unat w = dec t" unfolding int_value_def by (metis of_nat_eq_iff)
  moreover have "number_val t (of_int z) \<longleftrightarrow> z = int_value t" for z unfolding nv of_int_eq_iff by (rule refl)
  ultimately show ?thesis unfolding i u t(1) json.inject using t(2) by metis
next
  case False
  then show ?thesis using no_integer [OF assms] by auto
qed

theorem node_integers_witness:
  "Int64 (nodeFromStorage (ascii ''-7'') [scalarEntry 0 2 KNumber tapeFlagInt]) = Some (- 7) \<and>
   Uint64 (nodeFromStorage (ascii ''-7'') [scalarEntry 0 2 KNumber tapeFlagInt]) \<noteq> Some 7"
proof -
  let ?t = "ascii ''-7''"
  have p: "number_text ?t" "plain_integer ?t"
    using integer_text [of "[0x37]" "[0x2D]"] by (simp_all add: int_text_def isOneNine_def digits_def)
  have "document_tape ?t (JNumber ?t) [scalarEntry 0 2 KNumber (numberFlags (plain_integer ?t))]"
    unfolding document_tape_def using t_number [of ?t 0 2 ?t] p by (intro exI [of _ 0] exI [of _ 2]) (simp add: gap_def literal_at_def segment_def)
  then have "document_tape ?t (JNumber ?t) [scalarEntry 0 2 KNumber tapeFlagInt]" using p(2) by (simp add: numberFlags_def)
  from root_stands_for [OF this, of False] have "stands_for False (nodeFromStorage ?t [scalarEntry 0 2 KNumber tapeFlagInt]) (JNumber ?t)" by simp
  note reads = node_integers [OF this]
  have "number_val ?t (of_int (sint (- 7 :: u64)))" unfolding number_val_plain(1) [OF p] by (simp add: int_value_def dval_def)
  with reads [of "- 7"] reads [of 7] p(2) show ?thesis by simp
qed

text \<open>C21. Iteration is complete and in order: from a fresh iterator, repeated \<^verbatim>\<open>Next\<close> yields nodes for exactly the elements of an array, and key and value nodes for exactly the members of an object, in document order with duplicates kept, and then reports the end.\<close>

theorem node_iterators:
  "(stands_for h nd (JArray vs) \<and> length vs \<le> n \<longrightarrow>
     (\<exists>it. node_ArrayIter nd = Some it \<and> list_all2 (stands_for h) (drain array_Next n it) vs)) \<and>
   (stands_for h nd (JObject ms) \<and> length ms \<le> n \<longrightarrow>
     (\<exists>it. node_ObjectIter nd = Some it \<and> list_all2 (member_agrees h) (drain object_Next n it) ms))"
  using array_start [of h nd vs] object_start [of h nd ms] arrays.drain_left [of h _ vs n] objects.drain_left [of h _ ms n] by blast

text \<open>The index of a document with one element.\<close>

lemma one_element:
  "stands_for False (nodeFromStorage (ascii ''[7]'') [containerEntry 0 3 KArray 1 2, scalarEntry 1 2 KNumber tapeFlagInt]) (JArray [JNumber (ascii ''7'')])"
proof -
  let ?s = "ascii ''[7]''" and ?t = "ascii ''7''"
  have p: "number_text ?t" "plain_integer ?t"
    using integer_text [of "[0x37]" "[]"] by (simp_all add: int_text_def isOneNine_def digits_def)
  have "value_tape ?s 1 (JNumber ?t) 2 [scalarEntry 1 2 KNumber (numberFlags (plain_integer ?t))]"
    by (rule t_number) (use p in \<open>simp_all add: literal_at_def segment_def\<close>)
  then have "elems_tape ?s 1 [JNumber ?t] (2 + 1) [scalarEntry 1 2 KNumber tapeFlagInt]"
    using p(2) by (intro t_elems_one [of _ _ _ 2]) (simp_all add: gap_def byte_at_def numberFlags_def)
  then have "value_tape ?s 0 (JArray [JNumber ?t]) (2 + 1) (containerEntry 0 (2 + 1) KArray (length [JNumber ?t])
      (1 + length [scalarEntry 1 2 KNumber tapeFlagInt]) # [scalarEntry 1 2 KNumber tapeFlagInt])"
    by (intro t_array [of _ _ 1]) (simp_all add: gap_def byte_at_def infoMaxCount_def)
  then have "document_tape ?s (JArray [JNumber ?t]) [containerEntry 0 3 KArray 1 2, scalarEntry 1 2 KNumber tapeFlagInt]"
    unfolding document_tape_def by (intro exI [of _ 0] exI [of _ "2 + 1"]) (simp add: gap_def numeral_eq_Suc)
  from root_stands_for [OF this, of False] show ?thesis by simp
qed

theorem node_iterators_witness:
  "\<exists>it. node_ArrayIter (nodeFromStorage (ascii ''[7]'') [containerEntry 0 3 KArray 1 2, scalarEntry 1 2 KNumber tapeFlagInt]) = Some it \<and>
     list_all2 (stands_for False) (drain array_Next 5 it) [JNumber (ascii ''7'')]"
  using node_iterators [of False "nodeFromStorage (ascii ''[7]'') [containerEntry 0 3 KArray 1 2, scalarEntry 1 2 KNumber tapeFlagInt]"
      "[JNumber (ascii ''7'')]" 5] one_element by simp

text \<open>\<^verbatim>\<open>AppendColumn\<close> appends one cell for every row of an array, in order: the raw text of the last member with the key, or nothing when the row is not an object or has no such member.\<close>

theorem AppendColumn_cells:
  assumes "stands_for h nd (JArray vs)"
  shows "\<exists>cs. AppendColumn nd dst key = (dst @ cs, True) \<and> list_all2 (cell key) vs cs"
proof -
  obtain p tss where c: "n_entry nd = Some p" "list_all2 (tape_of (n_src nd)) vs tss"
    "located (n_tape nd) (p + 1) (map (stored h (n_src nd)) (concat tss))" "ArrayLen nd = Some (length vs)"
    using array_children [OF assms] by metis
  show ?thesis using columnLoop_cells [OF assms c(2,3), of key dst] c by (cases vs) (auto simp: AppendColumn_def)
qed

theorem AppendColumn_cells_witness:
  "AppendColumn (nodeFromStorage (ascii ''[7]'') [containerEntry 0 3 KArray 1 2, scalarEntry 1 2 KNumber tapeFlagInt]) [[1]] (ascii ''a'') = ([[1], []], True)"
  using AppendColumn_cells [OF one_element, of "[[1]]" "ascii ''a''"] by (auto simp: list_all2_Cons1)

end
