(* ===== verification/JsonPointerCorrect.thy ===== *)
theory JsonPointerCorrect
  imports JsonPointer NodeRead
begin

text \<open>
  Pointers resolve as RFC 6901 says, compiled or not, and compiling the spelling of any list of tokens gives these tokens.
\<close>

section \<open>Compiled and plain walks\<close>

lemma tokenEnd_stop: "tokenEnd pointer i = Inr j \<Longrightarrow> tokenStop pointer i = j"
proof (induction pointer i rule: tokenEnd.induct)
  case (1 pointer i)
  show ?case
  proof (cases "i < length pointer \<and> pointer ! i \<noteq> 0x2F")
    case False
    then show ?thesis using 1(3) by (auto simp: tokenEnd.simps [of pointer i] tokenStop.simps [of pointer i])
  next
    case T: True
    show ?thesis
    proof (cases "pointer ! i = 0x7E")
      case True
      then have n: "\<not> length pointer \<le> i + 1" "pointer ! (i + 1) = 0x30 \<or> pointer ! (i + 1) = 0x31" "tokenEnd pointer (i + 2) = Inr j"
        using 1(3) T by (auto simp: tokenEnd.simps [of pointer i] split: if_splits)
      then have "tokenStop pointer (i + 2) = j" using 1(1) T True by auto
      then show ?thesis using T n(1,2) by (auto simp: tokenStop.simps [of pointer i] tokenStop.simps [of pointer "Suc i"])
    next
      case False
      then have "tokenEnd pointer (i + 1) = Inr j" using 1(3) T by (simp add: tokenEnd.simps [of pointer i])
      then show ?thesis using 1(2) T False by (simp add: tokenStop.simps [of pointer i])
    qed
  qed
qed

lemma tokenEnd_le: "tokenEnd pointer i = Inr j \<Longrightarrow> i \<le> length pointer \<Longrightarrow> j \<le> length pointer"
proof (induction pointer i rule: tokenEnd.induct)
  case (1 pointer i)
  then show ?case by (subst (asm) (3) tokenEnd.simps) (fastforce split: if_splits)
qed

lemma compileToken_simps: "t_text (compileToken t) = t" "t_hash (compileToken t) = hashKeyString t"
  by (simp_all add: compileToken_def split: prod.split)

lemma arrayIndex_compiled: "arrayIndex (compileToken t) = parsePointerIndex t"
  by (auto simp: arrayIndex_def compileToken_def parsePointerIndex_def classifyPointerIndex_def split: option.splits)

lemma compiled_get:
  assumes "node_Kind cur = KObject"
  shows "(let count = unat (Count (nodeEntry cur)) in if count = 0 then None
      else if keysHashed (nodeEntry cur) then getHashedQuery cur token (hashKeyString token) count else getPlain cur token count) = node_Get cur token"
  using assms by (simp add: node_Get_def ObjectLen_def Let_def)

lemma pointerTokens_compiled:
  "pointerTokens cur (compileToken token # tokens) =
     (if node_Kind cur = KObject then (case node_Get cur token of None \<Rightarrow> Inr None | Some cur \<Rightarrow> pointerTokens cur tokens)
      else if node_Kind cur = KArray then
        (case parsePointerIndex token of Inl e \<Rightarrow> Inl e | Inr None \<Rightarrow> Inr None
         | Inr (Some index) \<Rightarrow> (case node_Index cur (int index) of None \<Rightarrow> Inr None | Some cur \<Rightarrow> pointerTokens cur tokens))
      else Inr None)"
  by (simp add: compileToken_simps arrayIndex_compiled compiled_get [symmetric] Let_def)

lemma pointerLoop_step:
  assumes "start \<le> length pointer" "tokenStop pointer start = j" "unescapePointerToken (segment pointer start j) = Inr token"
    "pointerLoop pointer (j + 1) = (\<lambda>cur. pointerTokens cur tokens)"
  shows "pointerLoop pointer start cur = pointerTokens cur (compileToken token # tokens)"
  by (subst pointerLoop.simps) (simp only: assms pointerTokens_compiled Let_def if_True sum.case)

lemma compileLoop_walk:
  "compileLoop pointer start tokens = Inr cp \<Longrightarrow> start \<le> length pointer \<Longrightarrow>
   cp_pointer cp = pointer \<and>
   (\<exists>ts. cp_tokens cp = tokens @ map compileToken ts \<and> (\<forall>cur. pointerLoop pointer start cur = pointerTokens cur (map compileToken ts)))"
proof (induction pointer start tokens rule: compileLoop.induct)
  case (1 pointer start tokens)
  obtain j token where t: "tokenEnd pointer start = Inr j" "unescapePointerToken (segment pointer start j) = Inr token"
    using 1(2) by (subst (asm) compileLoop.simps) (auto split: sum.splits)
  have j: "tokenStop pointer start = j" "j \<le> length pointer" using tokenEnd_stop [OF t(1)] tokenEnd_le [OF t(1) 1(3)] by simp_all
  show ?case
  proof (cases "length pointer \<le> j")
    case True
    then have cp: "cp = \<lparr>cp_pointer = pointer, cp_tokens = tokens @ [compileToken token]\<rparr>"
      using 1(2) t by (subst (asm) compileLoop.simps) simp
    have "pointerLoop pointer (j + 1) = (\<lambda>cur. pointerTokens cur [])" using True by (intro ext, subst pointerLoop.simps) simp
    from pointerLoop_step [OF 1(3) j(1) t(2) this] show ?thesis using cp by (intro conjI exI [of _ "[token]"]) simp_all
  next
    case False
    then have "compileLoop pointer (j + 1) (tokens @ [compileToken token]) = Inr cp"
      using 1(2) t by (subst (asm) compileLoop.simps) simp
    then obtain ts where ts: "cp_pointer cp = pointer" "cp_tokens cp = (tokens @ [compileToken token]) @ map compileToken ts"
      "\<forall>cur. pointerLoop pointer (j + 1) cur = pointerTokens cur (map compileToken ts)"
      using 1(1) [OF t refl False] False by auto
    have "pointerLoop pointer (j + 1) = (\<lambda>cur. pointerTokens cur (map compileToken ts))" using ts(3) by blast
    from pointerLoop_step [OF 1(3) j(1) t(2) this] show ?thesis using ts by (intro conjI exI [of _ "token # ts"]) simp_all
  qed
qed

lemma CompilePointer_walk:
  assumes "CompilePointer pointer = Inr cp"
  shows "cp_pointer cp = pointer \<and>
    (\<exists>ts. cp_tokens cp = map compileToken ts \<and> (\<forall>v. node_Pointer v pointer = pointerTokens v (map compileToken ts)))"
proof (cases "pointer = []")
  case True
  then show ?thesis using assms by (auto simp: CompilePointer_def node_Pointer_def)
next
  case False
  then have s: "pointer ! 0 = 0x2F" "compileLoop pointer 1 [] = Inr cp" using assms by (auto simp: CompilePointer_def split: if_splits)
  have "1 \<le> length pointer" using False by (cases pointer) auto
  from compileLoop_walk [OF s(2) this] show ?thesis using False s(1) by (simp add: node_Pointer_def)
qed

section \<open>Resolution\<close>

text \<open>RFC 6901 on values: a token selects a member of an object, the last of its name, or an element of an array.\<close>

fun resolve :: "bytes list \<Rightarrow> json \<Rightarrow> PointerError + json option" where
  "resolve [] v = Inr (Some v)"
| "resolve (t # ts) (JObject ms) = (case jmember ms t of None \<Rightarrow> Inr None | Some v \<Rightarrow> resolve ts v)"
| "resolve (t # ts) (JArray vs) =
     (case parsePointerIndex t of
        Inl e \<Rightarrow> Inl e
      | Inr None \<Rightarrow> Inr None
      | Inr (Some k) \<Rightarrow> if k < length vs then resolve ts (vs ! k) else Inr None)"
| "resolve (t # ts) v = Inr None"

definition resolves :: "bool \<Rightarrow> PointerError + json option \<Rightarrow> PointerError + Node option \<Rightarrow> bool" where
  "resolves h r res \<longleftrightarrow> (case r of Inl e \<Rightarrow> res = Inl e | Inr v \<Rightarrow> \<exists>nd. res = Inr nd \<and> looks_up h v nd)"

lemma node_Index_outside:
  assumes "stands_for h nd (JArray vs)" "\<not> k < length vs"
  shows "node_Index nd (int k) = None"
  using node_entry [OF assms(1)] assms(2) by (simp add: node_Index_def ArrayLen_def)

lemma pointerTokens_resolves:
  "stands_for h nd v \<Longrightarrow> resolves h (resolve ts v) (pointerTokens nd (map compileToken ts))"
proof (induction ts arbitrary: nd v)
  case Nil
  then show ?case using node_entry(1) [OF Nil] by (simp add: resolves_def looks_up_def node_found_def)
next
  case (Cons t ts)
  note k = node_entry(2) [OF Cons.prems]
  show ?case
  proof (cases v)
    case (JObject ms)
    have g: "looks_up h (jmember ms t) (node_Get nd t)" using node_Get_looks_up Cons.prems JObject by simp
    have kk: "node_Kind nd = KObject" using k JObject by simp
    show ?thesis
    proof (cases "jmember ms t")
      case None
      then show ?thesis using g kk JObject by (simp add: pointerTokens_compiled looks_up_def resolves_def del: pointerTokens.simps)
    next
      case (Some w)
      then obtain nd' where "node_Get nd t = Some nd'" "stands_for h nd' w" using g by (auto simp: looks_up_def)
      then show ?thesis using Cons.IH kk JObject Some by (simp add: pointerTokens_compiled del: pointerTokens.simps)
    qed
  next
    case (JArray vs)
    then have kk: "node_Kind nd = KArray" using k by simp
    show ?thesis
    proof (cases "\<exists>i. parsePointerIndex t = Inr (Some i) \<and> i < length vs")
      case True
      then obtain i where i: "parsePointerIndex t = Inr (Some i)" "i < length vs" by blast
      obtain nd' where "node_Index nd (int i) = Some nd'" "stands_for h nd' (vs ! i)"
        using node_Index_represents [of h nd vs i] Cons.prems JArray i(2) by auto
      then show ?thesis using Cons.IH kk JArray i by (simp add: pointerTokens_compiled del: pointerTokens.simps)
    next
      case False
      then show ?thesis using kk JArray node_Index_outside [of h nd vs] Cons.prems
        by (auto simp: pointerTokens_compiled resolves_def looks_up_def simp del: pointerTokens.simps split: sum.splits option.splits)
    qed
  qed (use k in \<open>simp_all add: pointerTokens_compiled resolves_def looks_up_def del: pointerTokens.simps\<close>)
qed

section \<open>Spelling tokens\<close>

definition escapePointerByte :: "byte \<Rightarrow> bytes" where
  "escapePointerByte c = (if c = 0x7E then [0x7E, 0x30] else if c = 0x2F then [0x7E, 0x31] else [c])"

definition escapeToken :: "bytes \<Rightarrow> bytes" where
  "escapeToken t = concat (map escapePointerByte t)"

definition pointerText :: "bytes list \<Rightarrow> bytes" where
  "pointerText ts = concat (map (\<lambda>t. 0x2F # escapeToken t) ts)"

lemma escapeToken_simps: "escapeToken [] = []" "escapeToken (c # t) = escapePointerByte c @ escapeToken t"
  by (simp_all add: escapeToken_def)

lemma unescapeLoop_escape: "unescapeLoop s (escapeToken t) out = Inr (out @ t)"
  by (induction t arbitrary: out) (auto simp: escapeToken_simps escapePointerByte_def)

lemma unescapeLoop_prefix: "0x7E \<notin> set a \<Longrightarrow> unescapeLoop s (a @ b) out = unescapeLoop s b (out @ a)"
  by (induction a arbitrary: out) auto

lemma indexByte_take: "indexByte s b = Some i \<Longrightarrow> b \<notin> set (take i s)"
  by (auto simp: in_set_conv_nth dest: indexByte_before)

lemma escapeToken_clean: "0x7E \<notin> set (escapeToken t) \<Longrightarrow> escapeToken t = t"
  by (induction t) (auto simp: escapeToken_simps escapePointerByte_def split: if_splits)

lemma unescape_escape: "unescapePointerToken (escapeToken t) = Inr t"
proof (cases "indexByte (escapeToken t) 0x7E")
  case None
  then show ?thesis using indexByte_None [OF None] escapeToken_clean by (simp add: unescapePointerToken_def)
next
  case (Some i)
  have "unescapeLoop (escapeToken t) (take i (escapeToken t) @ drop i (escapeToken t)) [] = Inr t" using unescapeLoop_escape by simp
  then show ?thesis using unescapeLoop_prefix [OF indexByte_take [OF Some]] Some
    by (simp add: unescapePointerToken_def unescapePointerTokenSlow_def del: append_take_drop_id)
qed

lemma tokenEnd_escape:
  "r = [] \<or> hd r = 0x2F \<Longrightarrow> tokenEnd (a @ escapeToken t @ r) (length a) = Inr (length a + length (escapeToken t))"
proof (induction t arbitrary: a)
  case Nil
  then show ?case by (cases r) (auto simp: escapeToken_simps tokenEnd.simps [of _ "length a"])
next
  case (Cons c t)
  show ?case
  proof (cases "c = 0x7E \<or> c = 0x2F")
    case True
    then obtain d where d: "escapePointerByte c = [0x7E, d]" "d = 0x30 \<or> d = 0x31" by (auto simp: escapePointerByte_def)
    have "tokenEnd ((a @ [0x7E, d]) @ escapeToken t @ r) (length (a @ [0x7E, d])) = Inr (length (a @ [0x7E, d]) + length (escapeToken t))"
      using Cons by blast
    then show ?thesis using d by (subst tokenEnd.simps) (auto simp: escapeToken_simps nth_append)
  next
    case False
    then have d: "escapePointerByte c = [c]" by (simp add: escapePointerByte_def)
    have "tokenEnd ((a @ [c]) @ escapeToken t @ r) (length (a @ [c])) = Inr (length (a @ [c]) + length (escapeToken t))"
      using Cons by blast
    then show ?thesis using d False by (subst tokenEnd.simps) (auto simp: escapeToken_simps nth_append)
  qed
qed

lemma compileLoop_text:
  "compileLoop (a @ escapeToken t @ pointerText ts) (length a) tokens =
     Inr \<lparr>cp_pointer = a @ escapeToken t @ pointerText ts, cp_tokens = tokens @ map compileToken (t # ts)\<rparr>"
proof (induction ts arbitrary: a t tokens)
  case Nil
  have s: "segment (a @ escapeToken t) (length a) (length a + length (escapeToken t)) = escapeToken t" by (simp add: segment_def)
  show ?case using tokenEnd_escape [of "[]" a t] s by (subst compileLoop.simps) (simp add: pointerText_def unescape_escape)
next
  case (Cons u us)
  let ?p = "a @ escapeToken t @ pointerText (u # us)" and ?b = "a @ escapeToken t @ [0x2F]"
  have p: "?p = ?b @ escapeToken u @ pointerText us" by (simp add: pointerText_def)
  have e: "tokenEnd ?p (length a) = Inr (length a + length (escapeToken t))" by (rule tokenEnd_escape) (simp add: pointerText_def)
  have s: "segment ?p (length a) (length a + length (escapeToken t)) = escapeToken t" by (simp add: segment_def)
  have l: "length a + length (escapeToken t) + 1 = length ?b" "\<not> length ?p \<le> length a + length (escapeToken t)" by (simp_all add: pointerText_def)
  have "compileLoop ?p (length a) tokens = compileLoop ?p (length ?b) (tokens @ [compileToken t])"
    by (subst compileLoop.simps) (simp only: e s l(2) unescape_escape sum.case Let_def if_False l(1))
  then show ?case using Cons.IH [of ?b u "tokens @ [compileToken t]"] unfolding p by simp
qed

section \<open>The root of an index\<close>

lemma built_root:
  assumes "buildIndexOptions positions mode src cap depth h = Inr es"
    "\<not> bitmapSees src (effectiveDepth depth) \<or> positions src cap = None" "length src < 2 ^ 32" "cap < 2 ^ 32"
  shows "\<exists>v. document_text v src \<and> jdepth v \<le> effectiveDepth depth \<and> stands_for h (nodeFromStorage src es) v"
proof -
  obtain fs where f: "buildIndexOptions positions mode src cap depth False = Inr fs" "es = (if h then enrichKeyHashes src fs else fs)"
    using assms(1) by (auto simp: buildIndexOptions_def Let_def split: if_splits sum.splits option.splits)
  obtain v where v: "document_tape src v fs" "jdepth v \<le> effectiveDepth depth" "length fs \<le> cap"
    using built_iff [of src depth positions cap mode fs] assms(2-4) f(1) by blast
  have "length fs < 2 ^ 32" using v(3) assms(4) by simp
  from root_stands_for [OF v(1) assms(3) this, of h] have "stands_for h (nodeFromStorage src es) v" unfolding f(2) .
  then show ?thesis using document_tape_text [OF v(1)] v(2) by blast
qed

section \<open>Properties\<close>



text \<open>C6. \<^verbatim>\<open>Node.Get\<close> and \<^verbatim>\<open>Node.GetCompiled\<close> return a node for the value of the last member whose key decodes to the query, and nothing when there is none, on plain and on hash-enriched objects, flat or nested: the length gate, the hash gate and the four-wide backward scan never lose a member, and escaped keys match their decoded spelling.\<close>

theorem Get_last_member:
  assumes "stands_for h nd (JObject ms)"
  shows "looks_up h (jmember ms key) (node_Get nd key) \<and> GetCompiled nd (CompileKey key) = node_Get nd key"
proof (intro conjI)
  show "looks_up h (jmember ms key) (node_Get nd key)" by (rule node_Get_looks_up [OF assms])
  show "GetCompiled nd (CompileKey key) = node_Get nd key"
    by (simp add: GetCompiled_def CompileKey_def node_Get_def split: option.split)
qed

theorem Get_last_member_witness:
  "looks_up True (jmember [] (ascii ''a'')) (node_Get (nodeFromStorage (ascii ''{}'') (enrichKeyHashes (ascii ''{}'') [containerEntry 0 2 KObject 0 1])) (ascii ''a'')) \<and>
   GetCompiled (nodeFromStorage (ascii ''{}'') (enrichKeyHashes (ascii ''{}'') [containerEntry 0 2 KObject 0 1])) (CompileKey (ascii ''a'')) =
     node_Get (nodeFromStorage (ascii ''{}'') (enrichKeyHashes (ascii ''{}'') [containerEntry 0 2 KObject 0 1])) (ascii ''a'')"
proof -
  let ?src = "ascii ''{}''" and ?es = "[containerEntry 0 2 KObject 0 1]"
  have "value_tape ?src 0 (JObject []) (1 + 1) [containerEntry 0 (1 + 1) KObject 0 1]"
    by (rule t_object_empty) (simp_all add: byte_at_def gap_def)
  then have "document_tape ?src (JObject []) ?es"
    unfolding document_tape_def by (intro exI [of _ 0] exI [of _ 2]) (simp add: gap_def numeral_2_eq_2)
  from root_stands_for [OF this, of True] have "stands_for True (nodeFromStorage ?src (enrichKeyHashes ?src ?es)) (JObject [])" by simp
  from Get_last_member [OF this, of "ascii ''a''"] show ?thesis .
qed

text \<open>\<^verbatim>\<open>CompilePointer\<close> reads back every list of tokens: the pointer that spells them, with tilde and slash escaped, compiles to exactly these tokens.\<close>

theorem pointer_roundtrip:
  "CompilePointer (pointerText ts) = Inr \<lparr>cp_pointer = pointerText ts, cp_tokens = map compileToken ts\<rparr>"
proof (cases ts)
  case Nil
  then show ?thesis by (simp add: CompilePointer_def pointerText_def)
next
  case (Cons t us)
  then have p: "pointerText ts = [0x2F] @ escapeToken t @ pointerText us" by (simp add: pointerText_def)
  show ?thesis using compileLoop_text [of "[0x2F]" t us "[]"] Cons unfolding p by (simp add: CompilePointer_def)
qed

end
