(* ===== verification/FieldCursorCorrect.thy ===== *)
theory FieldCursorCorrect
  imports NodeRead
begin

text \<open>
  Field cursors: a cursor is the ordinal of the member it stands before, and a lookup finds the first member with the key from there
  on, wrapping once. The specification is over the member list of the object, with no tape.
\<close>

section \<open>The specification\<close>

text \<open>The ordinal of the first member with the key at or after \<open>k\<close>, cyclically.\<close>

definition cursor_hit :: "(rune list \<times> json) list \<Rightarrow> nat \<Rightarrow> bytes \<Rightarrow> nat option" where
  "cursor_hit ms k key =
     find (\<lambda>m. utf8 (fst (ms ! m)) = key) (map (\<lambda>d. (k + d) mod length ms) [0..<length ms])"

text \<open>What a sequence of lookups answers: a hit moves behind the member, a miss to the start.\<close>

fun cursor_spec :: "(rune list \<times> json) list \<Rightarrow> nat \<Rightarrow> bytes list \<Rightarrow> json option list" where
  "cursor_spec ms k [] = []"
| "cursor_spec ms k (key # keys) =
     (case cursor_hit ms k key of
        None \<Rightarrow> None # cursor_spec ms 0 keys
      | Some m \<Rightarrow> Some (snd (ms ! m)) # cursor_spec ms (Suc m mod length ms) keys)"

fun findAll :: "FieldCursor \<Rightarrow> bytes list \<Rightarrow> Node option list" where
  "findAll c [] = []"
| "findAll c (key # keys) = (case Find c key of (r, c') \<Rightarrow> r # findAll c' keys)"

section \<open>Key positions\<close>

primrec keyAt :: "IndexEntry list \<Rightarrow> nat \<Rightarrow> nat \<Rightarrow> nat" where
  "keyAt tape q 0 = q"
| "keyAt tape q (Suc k) = nextSibling tape (Suc (keyAt tape q k))"

lemma keyAt_step: "keyAt tape (nextSibling tape (Suc q)) k = keyAt tape q (Suc k)"
  by (induction k) simp_all

lemma keyAt_member:
  assumes "list_all2 (member_of src) ms tss" "located tape q (map (stored h src) (concat tss))" "length tape < 2 ^ 32" "k < length ms"
  shows "\<exists>a b. string_at src a b (fst (ms ! k)) \<and> tape ! keyAt tape q k = stored h src (keyEntry src a b) \<and>
    represents h src tape (Suc (keyAt tape q k)) (snd (ms ! k))"
  using assms(1,2,4)
proof (induction ms tss arbitrary: q k rule: list_all2_induct)
  case (Cons m ms t tss)
  have l: "located tape q (map (stored h src) t)" "located tape (q + length t) (map (stored h src) (concat tss))"
    using Cons.prems(1) by (auto simp: located_append)
  obtain a b where e: "string_at src a b (fst m)" "tape ! q = stored h src (keyEntry src a b)"
    "represents h src tape (Suc q) (snd m)" "length t = Suc (tapeSize (snd m))"
    using member_head [OF Cons.hyps(1) l(1)] .
  have n: "nextSibling tape (Suc q) = q + length t" using nextSibling_eq [OF e(3) assms(3)] e(4) by simp
  show ?case
  proof (cases k)
    case 0
    then show ?thesis using e by auto
  next
    case (Suc k')
    then show ?thesis using Cons.IH [OF l(2), of k'] Cons.prems(2) keyAt_step [of tape q k'] n by simp
  qed
qed simp

section \<open>Cursors\<close>

definition cursor_of :: "Node \<Rightarrow> nat \<Rightarrow> FieldCursor" where
  "cursor_of nd k = (Fields nd)\<lparr>fc_pos := keyAt (n_tape nd) (the (n_entry nd) + 1) k, fc_index := of_nat k\<rparr>"

lemma of_nat_eq: "a \<le> infoMaxCount \<Longrightarrow> b \<le> infoMaxCount \<Longrightarrow> (of_nat a :: u32) = of_nat b \<longleftrightarrow> a = b"
  by (metis unat_count)

lemma cyclic_upt:
  assumes "k < L"
  shows "map (\<lambda>d. (k + d) mod L) [0..<Suc n] = k # map (\<lambda>d. (Suc k mod L + d) mod L) [0..<n]"
proof -
  have "map (\<lambda>d. (k + d) mod L) (map Suc [0..<n]) = map (\<lambda>d. (Suc k mod L + d) mod L) [0..<n]" by (simp add: mod_add_left_eq)
  then show ?thesis using assms by (simp only: upt_conv_Cons map_Suc_upt [symmetric] list.map) simp
qed

lemma cursor_parts:
  assumes "stands_for h nd (JObject ms)" "ms \<noteq> []" "n_entry nd = Some p"
  shows "fc_node (cursor_of nd k) = nd" "fc_first (cursor_of nd k) = Some (p + 1)" "unat (fc_count (cursor_of nd k)) = length ms"
    "fc_count (cursor_of nd k) = of_nat (length ms)" "fc_hashed (cursor_of nd k) = h" "Fields nd = cursor_of nd 0"
    "(cursor_of nd k)\<lparr>fc_pos := keyAt (n_tape nd) (p + 1) m, fc_index := of_nat m\<rparr> = cursor_of nd m"
    "(cursor_of nd k)\<lparr>fc_pos := p + 1, fc_index := 0\<rparr> = cursor_of nd 0"
    "fc_pos (cursor_of nd k) = keyAt (n_tape nd) (p + 1) k" "fc_index (cursor_of nd k) = of_nat k"
  by (rule object_children [OF assms(1)], use assms(2,3) keysHashed_head [OF assms(1)] in \<open>simp add: cursor_of_def Fields_def Let_def unat_count\<close>)+

lemma nextKeyEntry_eq:
  assumes "stands_for h nd (JObject ms)" "n_entry nd = Some p" "j < length ms"
  shows "nextKeyEntry (cursor_of nd k) (keyAt (n_tape nd) (p + 1) j) = keyAt (n_tape nd) (p + 1) (Suc j)"
proof -
  let ?T = "n_tape nd" and ?s = "n_src nd"
  obtain tss where c: "list_all2 (member_of ?s) ms tss" "located ?T (p + 1) (map (stored h ?s) (concat tss))"
    "ObjectLen nd = Some (length ms)" "length ms \<le> infoMaxCount"
    using object_children [OF assms(1)] assms(2) by (metis option.inject)
  have ne: "ms \<noteq> []" using assms(3) by auto
  have l: "length ?T < 2 ^ 32" using assms(1) by (simp add: stands_for_def)
  have rep: "represents h ?s ?T (Suc (keyAt ?T (p + 1) j)) (snd (ms ! j))" using keyAt_member [OF c(1,2) l assms(3)] by blast
  have step: "fc_step (cursor_of nd k) = (if e_next (nodeEntry nd) = 2 * of_nat (length ms) + 1 then 2 else 0)"
    using c(3) ne by (simp add: cursor_of_def Fields_def Let_def)
  have one: "tapeSize (snd (ms ! j)) = 1" if "e_next (nodeEntry nd) = 2 * of_nat (length ms) + 1"
  proof -
    have "tapeSize (JObject ms) = 2 * length ms + 1" using flat_object_count [OF that c(4)] node_entry(4) [OF assms(1)] by simp
    then show ?thesis using flat_members [OF c(1)] assms(3) by (simp add: tapeSize_simps)
  qed
  show ?thesis using nextSibling_eq [OF rep l] one step cursor_parts(1) [OF assms(1) ne assms(2)]
    by (auto simp: nextKeyEntry_def)
qed

lemma findLoop_spec:
  assumes st: "stands_for h nd (JObject ms)" "n_entry nd = Some p" and k: "j < length ms"
  shows "findLoop (cursor_of nd k) key (if h then hashKeyString key else 0) n (keyAt (n_tape nd) (p + 1) j) (of_nat j) =
    (case find (\<lambda>m. utf8 (fst (ms ! m)) = key) (map (\<lambda>d. (j + d) mod length ms) [0..<n]) of
       None \<Rightarrow> (None, cursor_of nd 0)
     | Some m \<Rightarrow> (Some (Suc (keyAt (n_tape nd) (p + 1) m)), cursor_of nd (Suc m mod length ms)))"
  using k
proof (induction n arbitrary: j)
  case 0
  have "ms \<noteq> []" using 0 by auto
  then show ?case using cursor_parts [OF st(1) _ st(2)] by simp
next
  case (Suc n)
  let ?T = "n_tape nd" and ?s = "n_src nd" and ?c = "cursor_of nd k" and ?L = "length ms"
  let ?qh = "if h then hashKeyString key else 0"
  have ne: "ms \<noteq> []" using Suc.prems by auto
  note cp = cursor_parts [OF st(1) ne st(2)]
  obtain tss where c: "list_all2 (member_of ?s) ms tss" "located ?T (p + 1) (map (stored h ?s) (concat tss))" "?L \<le> infoMaxCount"
    using object_children [OF st(1)] st(2) by (metis option.inject)
  have l: "length ?T < 2 ^ 32" "length ?s < 2 ^ 32" using st(1) by (auto simp: stands_for_def)
  obtain a b where e: "string_at ?s a b (fst (ms ! j))" "?T ! keyAt ?T (p + 1) j = stored h ?s (keyEntry ?s a b)"
    using keyAt_member [OF c(1,2) l(1) Suc.prems] by blast
  have "admits h key (if h then hashGate ?qh else lengthGate key)" by (simp add: admits_def)
  from keyMatches_correct [OF e(1) l(2) e(2) this]
  have km: "keyMatches ?s ?T (keyAt ?T (p + 1) j) key (if h then hashGate ?qh else lengthGate key) \<longleftrightarrow> utf8 (fst (ms ! j)) = key" .
  have nx: "of_nat j + 1 = (of_nat ?L :: u32) \<longleftrightarrow> Suc j = ?L"
    using of_nat_eq [of "Suc j" ?L] Suc.prems c(3) by (simp add: add.commute)
  have md: "Suc j mod ?L = (if Suc j = ?L then 0 else Suc j)" using Suc.prems by auto
  have of1: "of_nat j + 1 = (of_nat (Suc j) :: u32)" by simp
  note nk = nextKeyEntry_eq [OF st Suc.prems, of k]
  note cy = cyclic_upt [OF Suc.prems, of n]
  show ?case
  proof (cases "utf8 (fst (ms ! j)) = key")
    case True
    then show ?thesis unfolding cy using km nx md cp nk
      by (simp only: findLoop.simps Let_def of1 if_True option.sel) (simp add: cp)
  next
    case False
    have "findLoop ?c key ?qh (Suc n) (keyAt ?T (p + 1) j) (of_nat j) =
      findLoop ?c key ?qh n (keyAt ?T (p + 1) (Suc j mod ?L)) (of_nat (Suc j mod ?L))"
      using False km nx md cp nk by (simp only: findLoop.simps Let_def of1 if_False option.sel) (simp add: cp)
    then show ?thesis unfolding cy using False Suc.IH [of "Suc j mod ?L"] ne by simp
  qed
qed

lemma Find_step:
  assumes "stands_for h nd (JObject ms)" "k < length ms"
  shows "case cursor_hit ms k key of
       None \<Rightarrow> Find (cursor_of nd k) key = (None, cursor_of nd 0)
     | Some m \<Rightarrow> m < length ms \<and> (\<exists>nd'. Find (cursor_of nd k) key = (Some nd', cursor_of nd (Suc m mod length ms)) \<and> stands_for h nd' (snd (ms ! m)))"
proof -
  obtain p where p: "n_entry nd = Some p" using assms(1) by (auto simp: stands_for_def)
  have ne: "ms \<noteq> []" using assms(2) by auto
  note cp = cursor_parts [OF assms(1) ne p]
  obtain tss where c: "list_all2 (member_of (n_src nd)) ms tss" "located (n_tape nd) (p + 1) (map (stored h (n_src nd)) (concat tss))"
    using object_children [OF assms(1)] p by (metis option.inject)
  have l: "length (n_tape nd) < 2 ^ 32" using assms(1) by (simp add: stands_for_def)
  have f: "Find (cursor_of nd k) key = (case cursor_hit ms k key of None \<Rightarrow> (None, cursor_of nd 0)
      | Some m \<Rightarrow> (Some (nodeAt nd (Suc (keyAt (n_tape nd) (p + 1) m))), cursor_of nd (Suc m mod length ms)))"
    unfolding Find_def findEntryQuery_def cp(1,2,3,5,9,10) option.case cursor_hit_def findLoop_spec [OF assms(1) p assms(2)]
    by (simp split: option.split)
  have m: "m < length ms" if "cursor_hit ms k key = Some m" for m
    using that ne mod_less_divisor [of "length ms"] by (auto simp: cursor_hit_def find_Some_iff)
  show ?thesis using f m keyAt_member [OF c l] stands_forI [OF assms(1)] by (auto split: option.split)
qed

lemma findLoop_unhashed: "\<not> fc_hashed c \<Longrightarrow> findLoop c key qh n q i = findLoop c key qh' n q i"
  by (induction n arbitrary: q i) (simp_all add: Let_def)

lemma FindCompiled_eq: "FindCompiled c (CompileKey key) = Find c key"
  using findLoop_unhashed [of c key "hashKeyString key" _ _ _ 0]
  by (simp add: FindCompiled_def Find_def CompileKey_def findEntryQuery_def split: option.split)

lemma looks_up_simps: "looks_up h None r \<longleftrightarrow> r = None" "looks_up h (Some v) (Some nd) \<longleftrightarrow> stands_for h nd v"
  by (simp_all add: looks_up_def)

lemma findAll_spec:
  "stands_for h nd (JObject ms) \<Longrightarrow> k < length ms \<Longrightarrow> list_all2 (looks_up h) (cursor_spec ms k keys) (findAll (cursor_of nd k) keys)"
proof (induction keys arbitrary: k)
  case (Cons key keys)
  have "0 < length ms" using Cons.prems(2) by linarith
  then show ?case using Find_step [OF Cons.prems, of key] Cons.IH [OF Cons.prems(1)]
    by (auto simp: looks_up_simps split: option.splits)
qed simp

section \<open>Properties\<close>

text \<open>C7. Field cursors keep their contract on plain and enriched objects, flat or nested: from a fresh cursor, every sequence of \<^verbatim>\<open>Find\<close> calls answers with the first member, at or after the position and wrapping once, whose key decodes to the query; a hit moves behind the member, a miss returns to the start; and \<^verbatim>\<open>FindCompiled\<close> is \<^verbatim>\<open>Find\<close>.\<close>

theorem field_cursor_contract:
  assumes "stands_for h nd (JObject ms)"
  shows "list_all2 (looks_up h) (cursor_spec ms 0 keys) (findAll (Fields nd) keys) \<and> FindCompiled c (CompileKey key) = Find c key"
proof (cases "ms = []")
  case True
  have o: "ObjectLen nd = Some 0" using object_children [OF assms] True by (metis list.size(3))
  have "list_all2 (looks_up h) (cursor_spec [] j keys) (findAll (Fields nd) keys)" for j
    by (induction keys arbitrary: j) (simp_all add: o cursor_hit_def Fields_def Find_def findEntryQuery_def looks_up_def)
  then show ?thesis using True FindCompiled_eq by simp
next
  case False
  obtain p where p: "n_entry nd = Some p" using assms by (auto simp: stands_for_def)
  show ?thesis using findAll_spec [OF assms, of 0] False cursor_parts(6) [OF assms False p] FindCompiled_eq by simp
qed

theorem field_cursor_contract_witness:
  "list_all2 (looks_up True) [None, None] (findAll (Fields (nodeFromStorage (ascii ''{}'') (enrichKeyHashes (ascii ''{}'') [containerEntry 0 2 KObject 0 1])))
     [ascii ''a'', ascii ''b''])"
proof -
  let ?src = "ascii ''{}''" and ?es = "[containerEntry 0 2 KObject 0 1]"
  have "value_tape ?src 0 (JObject []) (1 + 1) [containerEntry 0 (1 + 1) KObject 0 1]"
    by (rule t_object_empty) (simp_all add: byte_at_def gap_def)
  then have "document_tape ?src (JObject []) ?es"
    unfolding document_tape_def by (intro exI [of _ 0] exI [of _ 2]) (simp add: gap_def numeral_2_eq_2)
  from root_stands_for [OF this, of True] have "stands_for True (nodeFromStorage ?src (enrichKeyHashes ?src ?es)) (JObject [])" by simp
  from field_cursor_contract [OF this, of "[ascii ''a'', ascii ''b'']"] show ?thesis by (simp add: cursor_hit_def)
qed

end
