(* ===== verification/NumberEqualCorrect.thy ===== *)
theory NumberEqualCorrect
  imports NumberEqualWeights
begin

text \<open>
  \<^verbatim>\<open>jsonNumberEqual\<close> decides equality of the rational numbers two spellings denote.
\<close>

section \<open>The geometry of a spelling\<close>

lemma number_scan:
  assumes p: "number_parts t sg n f x"
  shows "t ! 0 = 0x2D \<longleftrightarrow> sg \<noteq> []" "scanDigits t (length sg) = length sg + length n"
    "length sg + length n < length t \<and> t ! (length sg + length n) = 0x2E \<longleftrightarrow> f \<noteq> []"
    "f \<noteq> [] \<Longrightarrow> scanDigits t (length sg + length n + 1) = length sg + length n + length f"
proof -
  have t: "t = sg @ n @ f @ x" and sg: "sg = [] \<or> sg = [0x2D]" and x: "exp_text x"
    and n: "digits n" "n \<noteq> []" and hn: "hd n \<noteq> 0x2D"
    using p int_text_digits int_text_hd by (auto simp: number_parts_def)
  have f: "f = [] \<or> (\<exists>fd. f = 0x2E # fd \<and> fd \<noteq> [] \<and> digits fd)" using p by (auto simp: number_parts_def frac_text_def)
  have xh: "x = [] \<or> \<not> isDigit (hd x) \<and> hd x \<noteq> 0x2E" using x by (auto simp: exp_text_def isDigit_def)
  have fh: "f @ x = [] \<or> \<not> isDigit (hd (f @ x))" using f xh by (auto simp: isDigit_def)
  show "t ! 0 = 0x2D \<longleftrightarrow> sg \<noteq> []" using t sg n(2) hn by (cases n) auto
  have at0: "JsonText.at t (length sg) (n @ f @ x)" using t by (simp add: JsonText.at_def)
  show "scanDigits t (length sg) = length sg + length n" by (rule scanDigits_at [OF at0 n(1) fh])
  have at1: "JsonText.at t (length sg + length n) (f @ x)" using at_append [OF at0] .
  show dot: "length sg + length n < length t \<and> t ! (length sg + length n) = 0x2E \<longleftrightarrow> f \<noteq> []"
  proof (cases f)
    case Nil
    then show ?thesis using at1 xh by (cases x) (auto simp: at_Nil dest: at_Cons)
  next
    case (Cons c cs)
    then show ?thesis using at1 f by (auto dest: at_Cons)
  qed
  assume "f \<noteq> []"
  then obtain fd where fd: "f = 0x2E # fd" "digits fd" using f by auto
  have "JsonText.at t (Suc (length sg + length n)) (fd @ x)"
    using at1 fd at_Cons [of t "length sg + length n" "0x2E" "fd @ x"] by simp
  then have "scanDigits t (Suc (length sg + length n)) = Suc (length sg + length n) + length fd"
    using scanDigits_at fd(2) xh by blast
  then show "scanDigits t (length sg + length n + 1) = length sg + length n + length f" using fd by simp
qed

text \<open>The offset of the \<open>k\<close>-th digit of a spelling.\<close>

definition digit_pos :: "bytes \<Rightarrow> bytes \<Rightarrow> bytes \<Rightarrow> nat \<Rightarrow> nat" where
  "digit_pos sg n f k = length sg + k + (if length n \<le> k \<and> f \<noteq> [] then 1 else 0)"

lemma digit_pos_nth:
  assumes "number_parts t sg n f x" "k < length (n @ tl f)"
  shows "t ! digit_pos sg n f k = (n @ tl f) ! k"
proof -
  have t: "t = sg @ n @ f @ x" using assms(1) by (simp add: number_parts_def)
  show ?thesis
  proof (cases "k < length n")
    case True
    then show ?thesis by (simp add: t digit_pos_def nth_append)
  next
    case False
    then obtain c fd where f: "f = c # fd" using assms(2) by (cases f) auto
    then have "k - length n < length fd" using False assms(2) by simp
    then show ?thesis using False f by (simp add: t digit_pos_def nth_append Suc_diff_le)
  qed
qed

lemma firstNonzero_zeros:
  "(\<forall>k. j \<le> k \<and> k < hi \<longrightarrow> src ! k = 0x30) \<Longrightarrow> firstNonzero src j hi = - 1"
proof (induction src j hi rule: firstNonzero.induct)
  case (1 src j hi)
  then show ?case by (subst firstNonzero.simps) auto
qed

lemma firstNonzero_hit:
  "j \<le> p \<Longrightarrow> p < hi \<Longrightarrow> src ! p \<noteq> 0x30 \<Longrightarrow> (\<forall>k. j \<le> k \<and> k < p \<longrightarrow> src ! k = 0x30) \<Longrightarrow> firstNonzero src j hi = int p"
proof (induction src j hi rule: firstNonzero.induct)
  case (1 src j hi)
  then show ?case by (subst firstNonzero.simps) (cases "j = p"; auto)
qed

lemma lastNonzero_zeros: "(\<forall>k. lo \<le> k \<and> k < hi \<longrightarrow> src ! k = 0x30) \<Longrightarrow> lastNonzero src lo hi = - 1"
  by (induction hi) auto

lemma lastNonzero_hit:
  "lo \<le> p \<Longrightarrow> p < hi \<Longrightarrow> src ! p \<noteq> 0x30 \<Longrightarrow> (\<forall>k. p < k \<and> k < hi \<longrightarrow> src ! k = 0x30) \<Longrightarrow> lastNonzero src lo hi = int p"
proof (induction hi)
  case (Suc hi)
  then show ?case by (cases "hi = p") auto
qed simp

lemma skipZeros_drop: "i \<le> length src \<Longrightarrow> drop (skipZeros src i) src = dropWhile (\<lambda>c. c = 0x30) (drop i src)"
proof (induction src i rule: skipZeros.induct)
  case (1 src i)
  show ?case
  proof (cases "i < length src \<and> src ! i = 0x30")
    case True
    then have "drop i src = 0x30 # drop (Suc i) src" by (metis Cons_nth_drop_Suc)
    then show ?thesis using 1 True by (subst skipZeros.simps) simp
  next
    case False
    then have "skipZeros src i = i" by (subst skipZeros.simps) auto
    then show ?thesis using False 1(2) by (cases "drop i src") (auto simp: nth_via_drop drop_eq_Nil2 not_less)
  qed
qed

lemma dec_dropZeros: "dec (dropWhile (\<lambda>c. c = 0x30) ds) = dec ds"
  by (induction ds) (simp_all add: dval_def)


section \<open>Decomposition of a spelling\<close>

lemma strip_nth:
  assumes "D = zs @ core @ zs'" "zeros zs" "zeros zs'" "core_ok core"
  shows "k < length zs \<Longrightarrow> D ! k = 0x30" "D ! length zs \<noteq> 0x30"
    "D ! (length zs + length core - 1) \<noteq> 0x30"
    "length zs + length core - 1 < k \<Longrightarrow> k < length D \<Longrightarrow> D ! k = 0x30"
    "length zs + length core - 1 < length D" "0 < length core"
    "i < length core \<Longrightarrow> D ! (length zs + i) = core ! i"
proof -
  have c: "core \<noteq> []" "hd core \<noteq> 0x30" "last core \<noteq> 0x30" using assms(4) by (auto simp: core_ok_def)
  show "0 < length core" using c(1) by simp
  show "length zs + length core - 1 < length D" using c(1) by (cases core) (auto simp: assms(1))
  show "D ! (length zs + i) = core ! i" if "i < length core" for i using that by (simp add: assms(1) nth_append)
  show "D ! k = 0x30" if "k < length zs" using that assms(2) by (auto simp: assms(1) nth_append zeros_def)
  show "D ! length zs \<noteq> 0x30" using c by (simp add: assms(1) nth_append hd_conv_nth)
  show "D ! (length zs + length core - 1) \<noteq> 0x30" using c by (cases core rule: rev_cases) (auto simp: assms(1) nth_append)
  assume k: "length zs + length core - 1 < k" "k < length D"
  then have "k - length zs - length core < length zs'" "\<not> k < length zs" "\<not> k - length zs < length core"
    using c(1) by (auto simp: assms(1))
  then show "D ! k = 0x30" using assms(3) by (auto simp: assms(1) nth_append zeros_def)
qed

lemma decExponent_eq:
  assumes p: "number_parts t sg n f x"
  shows "decExponent t (length sg + length n + length f) =
    (let ds = dropWhile (\<lambda>c. c = 0x30) (exp_digits x) in
     (exp_negative x, ds, length ds \<le> 18, if length ds \<le> 18 then exp_val x else 0))"
proof (cases "x = []")
  case True
  then show ?thesis using p by (simp add: decExponent_def number_parts_def exp_digits_def exp_negative_def exp_val_def)
next
  case False
  let ?i = "length sg + length n + length f"
  obtain e g ds where x: "x = e # g @ ds" "g = [] \<or> g = [0x2B] \<or> g = [0x2D]" "ds \<noteq> []" "digits ds"
    using p False by (auto simp: number_parts_def exp_text_def)
  have hds: "hd ds \<noteq> 0x2B" "hd ds \<noteq> 0x2D" using x(3,4) by (cases ds; auto simp: isDigit_def)+
  have a0: "JsonText.at t ?i x" using p by (simp add: number_parts_def JsonText.at_def)
  have a1: "?i < length t" "JsonText.at t (Suc ?i) (g @ ds)" using at_Cons a0 x(1) by blast+
  have a2: "JsonText.at t (Suc ?i + length g) ds" using at_append [OF a1(2)] .
  have at1: "t ! Suc ?i = (if g = [] then hd ds else hd g)"
    using a1(2) x(2,3) at_Cons by (cases g; cases ds) fastforce+
  have sk: "drop (skipZeros t (Suc ?i + length g)) t = dropWhile (\<lambda>c. c = 0x30) ds"
    using skipZeros_drop a2 by (simp add: JsonText.at_def)
  have ed: "exp_digits x = ds" "exp_negative x = (g = [0x2D])"
    using x hds by (cases ds; auto simp: exp_digits_def exp_negative_def)+
  have dv: "decimalValue (dropWhile (\<lambda>c. c = 0x30) ds) = int (dec ds)"
    using decimalValue_dec [of "dropWhile (\<lambda>c. c = 0x30) ds"] x(4)
    by (simp add: dec_dropZeros) (auto simp: digits_def dest: set_dropWhileD)
  show ?thesis
    using a1(1) at1 sk x(2) hds dv
    by (auto simp: decExponent_def Let_def ed exp_val_digits simp del: length_drop)
qed

text \<open>The bytes of the fraction are the digits after the integer part.\<close>

lemma frac_nth:
  assumes p: "number_parts t sg n f x" and f: "f \<noteq> []"
    and j: "length sg + length n + 1 \<le> j" "j < length sg + length n + length f"
  shows "t ! j = (n @ tl f) ! (j - length sg - 1)"
proof -
  have k: "digit_pos sg n f (j - length sg - 1) = j" "j - length sg - 1 < length (n @ tl f)"
    using f j by (cases f; simp add: digit_pos_def)+
  show ?thesis using digit_pos_nth [OF p k(2)] k(1) by simp
qed

lemma int_nth:
  assumes p: "number_parts t sg n f x" and j: "length sg \<le> j" "j < length sg + length n"
  shows "t ! j = (n @ tl f) ! (j - length sg)"
proof -
  have k: "digit_pos sg n f (j - length sg) = j" "j - length sg < length (n @ tl f)" using j by (auto simp: digit_pos_def)
  show ?thesis using digit_pos_nth [OF p k(2)] k(1) by simp
qed

text \<open>The fields of a decomposition: those that do not depend on the digits first.\<close>

definition decomposed :: "decNumber \<Rightarrow> bytes \<Rightarrow> bytes \<Rightarrow> bytes \<Rightarrow> bytes \<Rightarrow> bytes \<Rightarrow> bytes \<Rightarrow> bool" where
  "decomposed d sg n f x zs core \<longleftrightarrow>
     \<not> dn_zero d \<and> dn_neg d = (sg \<noteq> []) \<and>
     dn_dot d = (if f \<noteq> [] then int (length sg + length n) else - 1) \<and>
     dn_expNeg d = exp_negative x \<and> dn_expDigits d = dropWhile (\<lambda>c. c = 0x30) (exp_digits x) \<and>
     dn_adj d = int (length n) - int (length zs) - 1 \<and>
     (dn_expFits d \<longrightarrow> dn_weight d = exp_val x + dn_adj d) \<and>
     dn_sigFirst d = int (digit_pos sg n f (length zs)) \<and>
     dn_sigLast d = int (digit_pos sg n f (length zs + length core - 1))"

lemma parse_first:
  assumes p: "number_parts t sg n f x" and D: "n @ tl f = zs @ core @ zs'" "zeros zs" "zeros zs'" "core_ok core"
  shows "t ! length sg \<noteq> 0x30 \<Longrightarrow> zs = []"
    "t ! length sg = 0x30 \<Longrightarrow> f \<noteq> [] \<and> length n = 1 \<and> 0 < length zs \<and>
       firstNonzero t (length sg + length n + 1) (length sg + length n + length f) = int (length sg + length zs + 1)"
proof -
  note D = strip_nth [OF D]
  have n: "n \<noteq> []" "n = [0x30] \<or> hd n \<noteq> 0x30" using p by (auto simp: number_parts_def int_text_def isOneNine_def)
  have h: "t ! length sg = hd n" using int_nth [OF p, of "length sg"] n(1) by (simp add: nth_append hd_conv_nth)
  have h0: "(n @ tl f) ! 0 = hd n" using n(1) by (simp add: nth_append hd_conv_nth)
  show "zs = []" if "t ! length sg \<noteq> 0x30" using that D(1) [of 0] h h0 by (cases zs) auto
  assume z: "t ! length sg = 0x30"
  then have n0: "n = [0x30]" using h n by auto
  then have zs: "0 < length zs" using D(2) by (cases zs) auto
  have "1 < length (n @ tl f)" using zs D(5,6) by linarith
  then have "f \<noteq> []" using n0 by (cases f) auto
  moreover have "length zs < length (n @ tl f)" using D(5,6) by linarith
  then have "length zs < length f" using n0 calculation by (cases f) auto
  moreover have "t ! (length sg + length zs + 1) \<noteq> 0x30"
    using frac_nth [OF p calculation(1), of "length sg + length zs + 1"] D(2) zs n0 calculation(2) by simp
  moreover have "\<forall>k. length sg + length n + 1 \<le> k \<and> k < length sg + length zs + 1 \<longrightarrow> t ! k = 0x30"
  proof (intro allI impI)
    fix k
    assume k: "length sg + length n + 1 \<le> k \<and> k < length sg + length zs + 1"
    have "t ! k = (n @ tl f) ! (k - length sg - 1)" using frac_nth [OF p \<open>f \<noteq> []\<close>] k \<open>length zs < length f\<close> n0 by simp
    also have "\<dots> = 0x30" using k n0 by (intro D(1)) auto
    finally show "t ! k = 0x30" .
  qed
  ultimately show "f \<noteq> [] \<and> length n = 1 \<and> 0 < length zs \<and>
       firstNonzero t (length sg + length n + 1) (length sg + length n + length f) = int (length sg + length zs + 1)"
    using n0 zs firstNonzero_hit [of "length sg + length n + 1" "length sg + length zs + 1" "length sg + length n + length f" t]
    by (simp add: Suc_le_eq)
qed

lemma parse_last:
  assumes p: "number_parts t sg n f x" and D: "n @ tl f = zs @ core @ zs'" "zeros zs" "zeros zs'" "core_ok core"
  shows "(let r = (if f \<noteq> [] then lastNonzero t (length sg + length n + 1) (length sg + length n + length f) else - 1) in
     if r < 0 then lastNonzero t 0 (length sg + length n) else r) = int (digit_pos sg n f (length zs + length core - 1))"
proof -
  note S = strip_nth [OF D]
  let ?l = "length zs + length core - 1"
  show ?thesis
  proof (cases "length n \<le> ?l")
    case True
    then have f: "f \<noteq> []" using S(5) by (cases f) auto
    then have l: "?l < length n + length f - 1" using S(5) by (cases f) auto
    then have "t ! (length sg + ?l + 1) \<noteq> 0x30"
      using frac_nth [OF p f, of "length sg + ?l + 1"] S(3) True by simp
    moreover have "\<forall>k. length sg + ?l + 1 < k \<and> k < length sg + length n + length f \<longrightarrow> t ! k = 0x30"
      using frac_nth [OF p f] S(4) True f by (cases f) auto
    ultimately have "lastNonzero t (length sg + length n + 1) (length sg + length n + length f) = int (length sg + ?l + 1)"
      using l True by (intro lastNonzero_hit) auto
    then show ?thesis using f True by (simp add: digit_pos_def Let_def)
  next
    case False
    have z: "f \<noteq> [] \<Longrightarrow> lastNonzero t (length sg + length n + 1) (length sg + length n + length f) = - 1"
      using frac_nth [OF p] S(4) False by (intro lastNonzero_zeros) (cases f; auto)
    have "t ! (length sg + ?l) \<noteq> 0x30" using int_nth [OF p, of "length sg + ?l"] S(3) False by simp
    moreover have "\<forall>k. length sg + ?l < k \<and> k < length sg + length n \<longrightarrow> t ! k = 0x30"
      using int_nth [OF p] S(4) False by auto
    ultimately have "lastNonzero t 0 (length sg + length n) = int (length sg + ?l)"
      using False by (intro lastNonzero_hit) auto
    then show ?thesis using z False by (auto simp: digit_pos_def Let_def)
  qed
qed

lemma parseDecNumber_eq:
  assumes p: "number_parts t sg n f x"
  shows "parseDecNumber t =
    (let fs = (if f \<noteq> [] then length sg + length n + 1 else 0);
         fe = (if f \<noteq> [] then length sg + length n + length f else 0);
         ds = dropWhile (\<lambda>c. c = 0x30) (exp_digits x);
         first = (if t ! length sg \<noteq> 0x30 then int (length sg) else firstNonzero t fs fe);
         d = zeroDec\<lparr>dn_neg := sg \<noteq> [], dn_dot := (if f \<noteq> [] then int (length sg + length n) else - 1),
               dn_expFits := length ds \<le> 18, dn_expNeg := exp_negative x, dn_expDigits := ds, dn_sigFirst := first\<rparr>
     in if first < 0 then d\<lparr>dn_zero := True\<rparr>
        else
          let adj = (if t ! length sg \<noteq> 0x30 then int (length n) - 1 else - (first - int fs) - 1);
              d = d\<lparr>dn_adj := adj\<rparr>;
              d = (if length ds \<le> 18 then d\<lparr>dn_weight := exp_val x + adj\<rparr> else d);
              r = lastNonzero t fs fe
          in d\<lparr>dn_sigLast := if r < 0 then lastNonzero t 0 (length sg + length n) else r\<rparr>)"
proof -
  note sc = number_scan [OF p]
  have i: "(if t ! 0 = 0x2D then 1 else 0) = length sg" using sc(1) p by (auto simp: number_parts_def)
  note ex = decExponent_eq [OF p, unfolded Let_def]
  show ?thesis
  proof (cases "f = []")
    case True
    then show ?thesis
      using ex unfolding parseDecNumber_def Let_def i sc(2,3) by (simp add: sc(1) split del: if_split cong: if_cong)
  next
    case False
    then show ?thesis
      using ex sc(4) unfolding parseDecNumber_def Let_def i sc(2,3) by (simp add: sc(1) split del: if_split cong: if_cong)
  qed
qed

lemma parseDecNumber_zero:
  assumes p: "number_parts t sg n f x" and z: "zeros (n @ tl f)"
  shows "dn_zero (parseDecNumber t)"
proof -
  have z: "k < length (n @ tl f) \<Longrightarrow> (n @ tl f) ! k = 0x30" for k using z nth_mem [of k "n @ tl f"] by (auto simp: zeros_def)
  have n: "n \<noteq> []" using p by (auto simp: number_parts_def int_text_def)
  have h: "t ! length sg = 0x30" using int_nth [OF p, of "length sg"] n z [of 0] by auto
  have "firstNonzero t (length sg + length n + 1) (length sg + length n + length f) = - 1" if "f \<noteq> []"
    using frac_nth [OF p that] z that
    by (intro firstNonzero_zeros allI impI) (cases f; simp)
  moreover have "firstNonzero t 0 0 = - 1" by (simp add: firstNonzero.simps)
  ultimately show ?thesis using h unfolding parseDecNumber_eq [OF p] Let_def by auto
qed

lemma parseDecNumber_nonzero:
  assumes p: "number_parts t sg n f x" and D: "n @ tl f = zs @ core @ zs'" "zeros zs" "zeros zs'" "core_ok core"
  shows "decomposed (parseDecNumber t) sg n f x zs core"
proof -
  note fi = parse_first [OF p D] and la = parse_last [OF p D, unfolded Let_def]
  let ?fs = "if f \<noteq> [] then length sg + length n + 1 else 0" and ?fe = "if f \<noteq> [] then length sg + length n + length f else 0"
  have lf: "lastNonzero t ?fs ?fe =
    (if f \<noteq> [] then lastNonzero t (length sg + length n + 1) (length sg + length n + length f) else - 1)" by simp
  have n: "n \<noteq> []" using p by (auto simp: number_parts_def int_text_def)
  have d: "dn_sigFirst (parseDecNumber t) = int (digit_pos sg n f (length zs)) \<and> dn_adj (parseDecNumber t) = int (length n) - int (length zs) - 1
     \<and> \<not> dn_zero (parseDecNumber t)"
    using fi n unfolding parseDecNumber_eq [OF p] Let_def by (cases "t ! length sg = 0x30") (auto simp: digit_pos_def zeroDec_def Suc_le_eq)
  have "\<not> (if t ! length sg \<noteq> 0x30 then int (length sg) else firstNonzero t ?fs ?fe) < 0" using fi by auto
  then show ?thesis using d la unfolding decomposed_def parseDecNumber_eq [OF p] Let_def lf by (auto simp: zeroDec_def)
qed

section \<open>The walk over the significant digits\<close>

lemma digit_pos_less: "digit_pos sg n f k < digit_pos sg n f m \<longleftrightarrow> k < m"
  by (auto simp: digit_pos_def)

text \<open>A side of the walk: where its cursor stands at the \<open>k\<close>-th significant digit, and what it reads there.\<close>

definition side :: "bytes \<Rightarrow> decNumber \<Rightarrow> bytes \<Rightarrow> (nat \<Rightarrow> nat) \<Rightarrow> bool" where
  "side t d core pos \<longleftrightarrow>
     (\<forall>k. int (pos k) \<le> dn_sigLast d \<longleftrightarrow> k < length core) \<and> (\<forall>k < length core. t ! pos k = core ! k) \<and>
     (\<forall>k. int (pos k) \<noteq> dn_dot d) \<and>
     (\<forall>k. (if int (pos k + 1) = dn_dot d then pos k + 1 + 1 else pos k + 1) = pos (Suc k))"

lemma decomposed_side:
  assumes p: "number_parts t sg n f x" and D: "n @ tl f = zs @ core @ zs'" "zeros zs" "zeros zs'" "core_ok core"
    and d: "decomposed d sg n f x zs core"
  shows "side t d core (\<lambda>k. digit_pos sg n f (length zs + k))"
proof -
  note S = strip_nth [OF D]
  have c: "0 < length core" by (rule S(6))
  have "int (digit_pos sg n f (length zs + k)) \<le> dn_sigLast d \<longleftrightarrow> k < length core" for k
  proof -
    have "int (digit_pos sg n f (length zs + k)) \<le> dn_sigLast d \<longleftrightarrow>
      \<not> digit_pos sg n f (length zs + length core - 1) < digit_pos sg n f (length zs + k)"
      using d by (simp add: decomposed_def not_less)
    also have "\<dots> \<longleftrightarrow> k < length core" using c unfolding digit_pos_less by linarith
    finally show ?thesis .
  qed
  moreover have "t ! digit_pos sg n f (length zs + k) = core ! k" if "k < length core" for k
    using digit_pos_nth [OF p] S(5) S(7) [OF that] that c by simp
  ultimately show ?thesis
    using d unfolding side_def decomposed_def digit_pos_def by auto
qed

lemma digitsAgree_walk:
  assumes A: "side a da cA pA" and B: "side b db cB pB"
    and "(if int i = dn_dot da then i + 1 else i) = pA k" "(if int j = dn_dot db then j + 1 else j) = pB k"
    and "k \<le> length cA" "k \<le> length cB"
  shows "digitsAgree a b da db i j \<longleftrightarrow> drop k cA = drop k cB"
  using assms(3-)
proof (induction "length cA - k" arbitrary: i j k)
  case 0
  then have k: "k = length cA" by simp
  then have "\<not> int (pA k) \<le> dn_sigLast da" "int (pB k) \<le> dn_sigLast db \<longleftrightarrow> k < length cB" using A B by (auto simp: side_def)
  then show ?case using 0 k by (subst digitsAgree.simps) (auto simp: Let_def)
next
  case (Suc m)
  then have k: "k < length cA" by simp
  have m: "int (pA k) \<le> dn_sigLast da" "int (pB k) \<le> dn_sigLast db \<longleftrightarrow> k < length cB" "a ! pA k = cA ! k"
    using A B k by (auto simp: side_def)
  have dA: "drop k cA = cA ! k # drop (Suc k) cA" using Cons_nth_drop_Suc [OF k] by simp
  show ?case
  proof (cases "k < length cB")
    case True
    have dB: "drop k cB = cB ! k # drop (Suc k) cB" using Cons_nth_drop_Suc [OF True] by simp
    have b: "b ! pB k = cB ! k" using B True by (auto simp: side_def)
    have "digitsAgree a b da db (pA k + 1) (pB k + 1) \<longleftrightarrow> drop (Suc k) cA = drop (Suc k) cB"
      using Suc.hyps(2) k True A B by (intro Suc.hyps(1)) (auto simp: side_def)
    then show ?thesis using m b True unfolding dA dB digitsAgree.simps [of a b da db i j] Suc.prems(1,2) by simp
  next
    case False
    then show ?thesis using m dA Suc.prems(4) unfolding digitsAgree.simps [of a b da db i j] Suc.prems(1,2) by simp
  qed
qed

section \<open>Equality\<close>

lemma decomposed_exp:
  assumes p: "number_parts t sg n f x" and d: "decomposed d sg n f x zs core" and l: "length t < 2 ^ 32"
    and z: "length zs + length core \<le> length (n @ tl f)" "0 < length core"
  shows "exp_ok d" "spelled d = exp_val x" "dn_expFits d \<Longrightarrow> dn_weight d = spelled d + dn_adj d"
proof -
  have t: "length n + length f \<le> length t" "f \<noteq> [] \<or> length (tl f) = 0" using p by (auto simp: number_parts_def)
  have "length n + length (tl f) < 2 ^ 32" using t l by (cases f) auto
  moreover have "dn_adj d = int (length n) - int (length zs) - 1" using d by (simp add: decomposed_def)
  moreover have "length zs + length core \<le> length n + length (tl f)" using z(1) by simp
  ultimately have a: "\<bar>dn_adj d\<bar> < 2 ^ 32" using z(2) by (simp del: length_tl length_greater_0_conv)
  have x: "digits (exp_digits x)" using p exp_digits_ok by (simp add: number_parts_def)
  have e: "dn_expDigits d = dropWhile (\<lambda>c. c = 0x30) (exp_digits x)" "dn_expNeg d = exp_negative x"
    using d by (simp_all add: decomposed_def)
  show s: "spelled d = exp_val x" by (simp add: spelled_def e exp_val_digits dec_dropZeros)
  show "exp_ok d" using a x unfolding exp_ok_def e
    using hd_dropWhile [of "\<lambda>c. c = 0x30" "exp_digits x"] by (auto simp: digits_def simp del: dropWhile_eq_Nil_conv dest: set_dropWhileD)
  show "dn_expFits d \<Longrightarrow> dn_weight d = spelled d + dn_adj d" using d s by (simp add: decomposed_def)
qed

text \<open>A decomposition determines the number: zero, or a sign, a weight and significant digits.\<close>

lemma parseDecNumber_value:
  assumes nv: "number_val t v" and l: "length t < 2 ^ 32"
  shows "if dn_zero (parseDecNumber t) then v = 0
    else \<exists>core pos. core_ok core \<and> side t (parseDecNumber t) core pos \<and> dn_sigFirst (parseDecNumber t) = int (pos 0) \<and>
      exp_ok (parseDecNumber t) \<and>
      (dn_expFits (parseDecNumber t) \<longrightarrow> dn_weight (parseDecNumber t) = spelled (parseDecNumber t) + dn_adj (parseDecNumber t)) \<and>
      v = (if dn_neg (parseDecNumber t) then - 1 else 1) *
          mag (spelled (parseDecNumber t) + dn_adj (parseDecNumber t) + 1) core"
proof -
  let ?d = "parseDecNumber t"
  obtain sg n f x where p: "number_parts t sg n f x"
    and v: "v = (if sg = [] then 1 else - 1) * of_nat (dec (n @ tl f)) * 10 powi (exp_val x - int (length (tl f)))"
    using nv by (auto simp: number_val_def)
  have "digits (n @ tl f)" using p int_text_digits by (auto simp: number_parts_def frac_text_def)
  then consider "zeros (n @ tl f)" | zs core zs' where "n @ tl f = zs @ core @ zs'" "zeros zs" "zeros zs'" "core_ok core"
    using strip_zeros by blast
  then show ?thesis
  proof cases
    case 1
    then show ?thesis using parseDecNumber_zero [OF p 1] v dec_zeros [of "n @ tl f"] by (simp add: zeros_def)
  next
    case 2
    note d = parseDecNumber_nonzero [OF p 2] and S = strip_nth [OF 2]
    have z: "length zs + length core \<le> length (n @ tl f)" using S(5,6) by linarith
    note e = decomposed_exp [OF p d l z S(6)]
    have w: "exp_val x + (int (length n) - int (length zs)) = spelled ?d + dn_adj ?d + 1"
      using d e(2) by (simp add: decomposed_def)
    have "v = (if dn_neg ?d then - 1 else 1) * mag (spelled ?d + dn_adj ?d + 1) core"
      unfolding v w [symmetric] number_mag [OF 2(1-3), of "exp_val x", symmetric] using d by (simp add: decomposed_def)
    moreover have "dn_sigFirst ?d = int (digit_pos sg n f (length zs + 0))" "\<not> dn_zero ?d" using d by (simp_all add: decomposed_def)
    ultimately have "core_ok core \<and> side t ?d core (\<lambda>k. digit_pos sg n f (length zs + k)) \<and>
        dn_sigFirst ?d = int (digit_pos sg n f (length zs + 0)) \<and> exp_ok ?d \<and>
        (dn_expFits ?d \<longrightarrow> dn_weight ?d = spelled ?d + dn_adj ?d) \<and>
        v = (if dn_neg ?d then - 1 else 1) * mag (spelled ?d + dn_adj ?d + 1) core"
      using 2(4) decomposed_side [OF p 2 d] e(1,3) by blast
    then show ?thesis unfolding if_not_P [OF \<open>\<not> dn_zero ?d\<close>]
      by (intro exI [of _ core] exI [of _ "\<lambda>k. digit_pos sg n f (length zs + k)"])
  qed
qed

lemma side_unique:
  assumes A: "side t d cA pA" and B: "side t d cB pB" and z: "pA 0 = pB 0"
  shows "cA = cB"
proof -
  have "pA k = pB k" for k by (induction k) (use A B z in \<open>auto simp: side_def simp del: One_nat_def, metis\<close>)
  then have "k < length cA \<longleftrightarrow> k < length cB" "k < length cA \<Longrightarrow> cA ! k = cB ! k" for k using A B by (simp_all add: side_def)
  then show ?thesis by (metis linorder_neqE_nat less_irrefl nth_equalityI)
qed

lemma signed_mag_nonzero: "core_ok c \<Longrightarrow> (if s then - 1 else 1) * mag a c \<noteq> 0"
  using mag_pos [of c a] by auto

lemma signed_mag_eq:
  assumes "core_ok c" "core_ok d"
  shows "(if s then - 1 else 1) * mag a c = (if r then - 1 else 1) * mag b d \<longleftrightarrow> s = r \<and> a = b \<and> c = d"
  using mag_pos [OF assms(1), of a] mag_pos [OF assms(2), of b] mag_eq [OF assms, of a b] by auto

text \<open>C22. Two JSON numbers of less than four gigabytes compare equal exactly when they denote the same
  rational number, whatever the size of their exponents.\<close>

theorem jsonNumberEqual_correct:
  assumes "number_val a v" "number_val b w" "length a < 2 ^ 32" "length b < 2 ^ 32"
  shows "jsonNumberEqual a b \<longleftrightarrow> v = w"
proof -
  let ?a = "parseDecNumber a" and ?b = "parseDecNumber b"
  note A = parseDecNumber_value [OF assms(1,3)] and B = parseDecNumber_value [OF assms(2,4)]
  show ?thesis
  proof (cases "dn_zero ?a \<or> dn_zero ?b")
    case True
    have nz: "v \<noteq> 0" if "\<not> dn_zero ?a" using A that signed_mag_nonzero by (metis (no_types, lifting))
    have "w \<noteq> 0" if "\<not> dn_zero ?b" using B that signed_mag_nonzero by (metis (no_types, lifting))
    moreover have "dn_zero ?a \<Longrightarrow> v = 0" "dn_zero ?b \<Longrightarrow> w = 0" using A B by simp_all
    ultimately have "(dn_zero ?a = dn_zero ?b) \<longleftrightarrow> v = w" using True nz by blast
    then show ?thesis using True by (auto simp: jsonNumberEqual_def Let_def)
  next
    case False
    then obtain cA pA where a: "core_ok cA" "side a ?a cA pA" "dn_sigFirst ?a = int (pA 0)" "exp_ok ?a"
        "dn_expFits ?a \<Longrightarrow> dn_weight ?a = spelled ?a + dn_adj ?a"
        "v = (if dn_neg ?a then - 1 else 1) * mag (spelled ?a + dn_adj ?a + 1) cA"
      using A by auto
    obtain cB pB where b: "core_ok cB" "side b ?b cB pB" "dn_sigFirst ?b = int (pB 0)" "exp_ok ?b"
        "dn_expFits ?b \<Longrightarrow> dn_weight ?b = spelled ?b + dn_adj ?b"
        "w = (if dn_neg ?b then - 1 else 1) * mag (spelled ?b + dn_adj ?b + 1) cB"
      using B False by auto
    have d: "digitsAgree a b ?a ?b (pA 0) (pB 0) \<longleftrightarrow> cA = cB"
      using digitsAgree_walk [OF a(2) b(2), of "pA 0" 0 "pB 0"] a(2) b(2) by (simp add: side_def)
    have "v = w \<longleftrightarrow> dn_neg ?a = dn_neg ?b \<and> decWeightEqual ?a ?b \<and> cA = cB"
      unfolding a(6) b(6) signed_mag_eq [OF a(1) b(1)]
      using decWeightEqual_correct [OF a(4) b(4) a(5) b(5)] by auto
    moreover have "cA = cB" "decWeightEqual ?a ?b" if "a = b"
      using that side_unique a(2,3) b(2,3) decWeightEqual_correct [OF a(4) b(4) a(5) b(5)] by auto
    ultimately show ?thesis using False d a(3) b(3) by (auto simp: jsonNumberEqual_def Let_def)
  qed
qed

lemma jsonNumberEqual_correct_witness:
  "jsonNumberEqual (ascii ''1.50'') (ascii ''15e-1'') \<and> \<not> jsonNumberEqual (ascii ''1.50'') (ascii ''-1.5'')"
proof -
  have v: "number_val (ascii ''1.50'') (3 / 2)"
    unfolding number_val_def number_parts_def
    by (rule exI [of _ "[]"], rule exI [of _ "ascii ''1''"], rule exI [of _ "ascii ''.50''"], rule exI [of _ "[]"])
      (simp add: int_text_def frac_text_def exp_text_def digits_def isDigit_def isOneNine_def exp_val_def dval_def power_int_minus)
  have "exp_text (0x65 # [0x2D] @ [0x31])" unfolding exp_text_def
    by (intro disjI2 exI [of _ "0x65"] exI [of _ "[0x2D]"] exI [of _ "[0x31]"]) (simp add: isDigit_def)
  then have w: "number_val (ascii ''15e-1'') (3 / 2)"
    unfolding number_val_def number_parts_def
    by (intro exI [of _ "[]"] exI [of _ "ascii ''15''"] exI [of _ "[]"] exI [of _ "ascii ''e-1''"])
      (simp add: int_text_def frac_text_def isDigit_def isOneNine_def exp_val_def dval_def power_int_minus)
  have u: "number_val (ascii ''-1.5'') (- 3 / 2)"
    unfolding number_val_def number_parts_def
    by (rule exI [of _ "ascii ''-''"], rule exI [of _ "ascii ''1''"], rule exI [of _ "ascii ''.5''"], rule exI [of _ "[]"])
      (simp add: int_text_def frac_text_def exp_text_def digits_def isDigit_def isOneNine_def exp_val_def dval_def power_int_minus)
  show ?thesis using jsonNumberEqual_correct [OF v w] jsonNumberEqual_correct [OF v u] by simp
qed

end
