(* ===== verification/TimeText.thy ===== *)
theory TimeText
  imports IntegerText "HOL-Library.Signed_Division"
begin

text \<open>
  Timestamps as JSON strings: the civil date of \<^verbatim>\<open>simd/time_date.go\<close> and the formatter with its prefix memo of
  \<^verbatim>\<open>simd/time.go\<close>. A \<^verbatim>\<open>time.Time\<close> is what the code asks it for: the Unix second, the zone offset in seconds and the
  nanosecond. 64- and 32-bit unsigned values are words; Go's \<^verbatim>\<open>int\<close> is \<open>int\<close> where no value comes near its bounds.
\<close>

section \<open>The civil date (time_date.go)\<close>

definition secondsPerDay :: int where "secondsPerDay = 86400"

definition absoluteYears :: int where "absoluteYears = 292277022400"

definition marchThruDecember :: int where "marchThruDecember = 306"

text \<open>The untyped constant 365.2425 is exact in Go.\<close>

definition absoluteToInternal :: int where
  "absoluteToInternal = - (absoluteYears * 3652425 div 10000 + marchThruDecember) * secondsPerDay"

definition unixToInternal :: int where
  "unixToInternal = (1969 * 365 + 1969 div 4 - 1969 div 100 + 1969 div 400) * secondsPerDay"

definition unixToAbsolute :: int where
  "unixToAbsolute = unixToInternal - absoluteToInternal"

text \<open>\<^verbatim>\<open>bits.Mul32\<close>: the high and the low half of the product.\<close>

definition mul32 :: "u32 \<Rightarrow> u32 \<Rightarrow> u32 \<times> u32" where
  "mul32 x y = (let p = (ucast x :: u64) * ucast y in (ucast (drop_bit 32 p), ucast p))"

definition absDaysToDate :: "u64 \<Rightarrow> int \<times> u32 \<times> u32" where
  "absDaysToDate days =
     (let d = 4 * days + 3;
          century = d div 146097;
          cd = (ucast (d mod 146097) :: u32) OR 3;
          (cyear, lo) = mul32 2939745 cd;
          ayday = lo div 2939745 div 4;
          md = 2141 * ayday + 197913;
          day = (md AND 0xFFFF) div 2141 + 1;
          janFeb = (if ayday \<ge> word_of_int marchThruDecember then 1 else 0 :: u32);
          year = sint (century * 100 - word_of_int absoluteYears) + int (unat cyear) + int (unat janFeb);
          month = drop_bit 16 md - janFeb * 12
      in (year, month, day))"

section \<open>The formatter (time.go)\<close>

record timeValue =
  tv_unix :: int
  tv_offset :: int
  tv_nanosecond :: nat

datatype time_error = errTimeYear | errTimeZone

record TimeCache =
  tc_absSec :: u64
  tc_days :: u64
  tc_state :: u8
  tc_prefix :: bytes

definition timePrefixBytes :: nat where "timePrefixBytes = 20"

definition maxTimeBytes :: nat where "maxTimeBytes = 37"

definition timeCachePrefix :: u8 where "timeCachePrefix = 1"

definition timeCacheDate :: u8 where "timeCacheDate = 2"

definition emptyTimeCache :: TimeCache where
  "emptyTimeCache = \<lparr>tc_absSec = 0, tc_days = 0, tc_state = 0, tc_prefix = replicate timePrefixBytes 0\<rparr>"

text \<open>\<^verbatim>\<open>storeDateTimePartsScalar\<close>: the twenty bytes it leaves in \<^verbatim>\<open>dst\<close>.\<close>

definition storeDateTimeParts :: "u32 \<Rightarrow> u32 \<Rightarrow> u32 \<Rightarrow> u32 \<Rightarrow> u32 \<Rightarrow> u32 \<Rightarrow> bytes" where
  "storeDateTimeParts year month day hour minute second =
     (let ds = Store8Digits (ucast year * 10000 + ucast month * 100 + ucast day) @
               Store8Digits (ucast hour * 1000000 + ucast minute * 10000 + ucast second * 100);
          dst = 0x22 # ascii ''0000-00-00T00:00:00'';
          dst = dst[1 := ds ! 0, 2 := ds ! 1, 3 := ds ! 2, 4 := ds ! 3];
          dst = dst[6 := ds ! 4, 7 := ds ! 5];
          dst = dst[9 := ds ! 6, 10 := ds ! 7];
          dst = dst[12 := ds ! 8, 13 := ds ! 9];
          dst = dst[15 := ds ! 10, 16 := ds ! 11]
      in dst[18 := ds ! 12, 19 := ds ! 13])"

text \<open>The loop that drops the trailing zeros of a nonzero nanosecond.\<close>

fun stripFraction :: "nat \<Rightarrow> nat \<Rightarrow> nat \<times> nat" where
  "stripFraction n k = (if n \<noteq> 0 \<and> n mod 10 = 0 then stripFraction (n div 10) (k - 1) else (n, k))"

declare stripFraction.simps [simp del]

definition storeFraction :: "bytes \<Rightarrow> nat \<Rightarrow> bytes \<times> nat" where
  "storeFraction out nanosecond =
     (let i = timePrefixBytes in
      if nanosecond \<noteq> 0 then
        (let (n, k) = stripFraction nanosecond 9;
             out = out[i := 0x2E];
             i = i + 1;
             out = (if k = 9
               then put_bytes (i + 1) (Store8Digits (of_nat (n mod 100000000))) (out[i := of_nat (n div 100000000) + 0x30])
               else put_bytes i (drop (8 - k) (Store8Digits (of_nat n))) out)
         in (out, i + k))
      else (out, i))"

definition storeZone :: "bytes \<Rightarrow> nat \<Rightarrow> int \<Rightarrow> int \<Rightarrow> bytes \<times> nat" where
  "storeZone out i offset zoneMinutes =
     (if offset = 0 then (out[i := 0x5A], i + 1)
      else
        let (out, zone) = (if zoneMinutes < 0 then (out[i := 0x2D], - zoneMinutes) else (out[i := 0x2B], zoneMinutes));
            zone = nat zone;
            out = out[i + 1 := of_nat (zone div 600) + 0x30];
            out = out[i + 2 := of_nat (zone div 60 mod 10) + 0x30];
            out = out[i + 3 := 0x3A];
            out = out[i + 4 := of_nat (zone div 10 mod 6) + 0x30];
            out = out[i + 5 := of_nat (zone mod 10) + 0x30]
        in (out, i + 6))"

definition appendTimeTail :: "bytes \<Rightarrow> nat \<Rightarrow> int \<Rightarrow> int \<Rightarrow> bytes \<times> nat" where
  "appendTimeTail out nanosecond offset zoneMinutes =
     (let (out, i) = storeFraction out nanosecond;
          (out, i) = storeZone out i offset zoneMinutes
      in (out[i := 0x22], i + 1))"

text \<open>\<^verbatim>\<open>dst[start:]\<close> after the length is set to \<^verbatim>\<open>start+maxTimeBytes\<close>, grown when the capacity is too small: the
  prefix is written over the bytes of the capacity, then the tail, and the slice is cut behind it.\<close>

definition finishTime :: "bytes \<Rightarrow> bytes \<Rightarrow> bytes \<Rightarrow> timeValue \<Rightarrow> int \<Rightarrow> bytes" where
  "finishTime dst spare prefix v zoneMinutes =
     (let out = take maxTimeBytes (spare @ replicate (maxTimeBytes - length spare) 0);
          (out, n) = appendTimeTail (put_bytes 0 prefix out) (tv_nanosecond v) (tv_offset v) zoneMinutes
      in dst @ take n out)"

definition zoneMinutes :: "timeValue \<Rightarrow> int" where
  "zoneMinutes v = tv_offset v sdiv 60"

definition badZone :: "int \<Rightarrow> bool" where
  "badZone m \<longleftrightarrow> m \<le> - 1440 \<or> m \<ge> 1440"

definition absSecond :: "timeValue \<Rightarrow> u64" where
  "absSecond v = word_of_int (tv_unix v + tv_offset v + unixToAbsolute)"

text \<open>The path with the date computed, whose prefix fills the cache.\<close>

definition appendTimeDate :: "bytes \<Rightarrow> bytes \<Rightarrow> timeValue \<Rightarrow> TimeCache option \<Rightarrow>
    (time_error + bytes) \<times> TimeCache option" where
  "appendTimeDate dst spare v cache =
     (let abs = absSecond v;
          days = abs div 86400;
          clock = (ucast (abs mod 86400) :: u32);
          hour = clock div 3600; minute = clock div 60 mod 60; second = clock mod 60;
          (year, month, day) = absDaysToDate days
      in if year < 0 \<or> year \<ge> 10000 then (Inl errTimeYear, cache)
         else if badZone (zoneMinutes v) then (Inl errTimeZone, cache)
         else
           let prefix = storeDateTimeParts (word_of_int year) month day hour minute second;
               cache = map_option (\<lambda>c. c\<lparr>tc_absSec := abs, tc_days := days, tc_prefix := prefix,
                                          tc_state := timeCachePrefix OR timeCacheDate\<rparr>) cache
           in (Inr (finishTime dst spare prefix v (zoneMinutes v)), cache))"

text \<open>The path of a cached date: only the clock digits are stored.\<close>

definition clockPrefix :: "bytes \<Rightarrow> u32 \<Rightarrow> bytes" where
  "clockPrefix prefix clock =
     (let hour = clock div 3600; minute = clock div 60 mod 60; second = clock mod 60
      in prefix[12 := ucast (0x30 + hour div 10), 13 := ucast (0x30 + hour mod 10),
                15 := ucast (0x30 + minute div 10), 16 := ucast (0x30 + minute mod 10),
                18 := ucast (0x30 + second div 10), 19 := ucast (0x30 + second mod 10)])"

definition AppendTimeCached :: "bytes \<Rightarrow> bytes \<Rightarrow> timeValue \<Rightarrow> TimeCache option \<Rightarrow>
    (time_error + bytes) \<times> TimeCache option" where
  "AppendTimeCached dst spare v cache =
     (let abs = absSecond v; days = abs div 86400; clock = (ucast (abs mod 86400) :: u32) in
      case cache of
        None \<Rightarrow> appendTimeDate dst spare v None
      | Some c \<Rightarrow>
          if tc_state c AND timeCachePrefix \<noteq> 0 \<and> tc_absSec c = abs then
            (if badZone (zoneMinutes v) then (Inl errTimeZone, cache)
             else (Inr (finishTime dst spare (tc_prefix c) v (zoneMinutes v)), cache))
          else if tc_state c AND timeCacheDate \<noteq> 0 \<and> tc_days c = days then
            (if badZone (zoneMinutes v) then (Inl errTimeZone, cache)
             else
               let prefix = clockPrefix (tc_prefix c) clock
               in (Inr (finishTime dst spare prefix v (zoneMinutes v)),
                   Some (c\<lparr>tc_absSec := abs, tc_prefix := prefix, tc_state := timeCachePrefix OR timeCacheDate\<rparr>)))
          else appendTimeDate dst spare v cache)"

definition AppendTime :: "bytes \<Rightarrow> bytes \<Rightarrow> timeValue \<Rightarrow> time_error + bytes" where
  "AppendTime dst spare v = fst (AppendTimeCached dst spare v None)"

end
