(* ===== verification/IntegerTextCorrect.thy ===== *)
theory IntegerTextCorrect
  imports IntegerKernels
begin

text \<open>
  The integer formatter writes the decimal spelling of its argument, and the parser of digit runs reads it back.
\<close>

section \<open>Decimal spellings\<close>

lemma decimalText_fixed:
  "n \<noteq> 0 \<Longrightarrow> v < 10 ^ n \<Longrightarrow> n = 1 \<or> 10 ^ (n - 1) \<le> v \<Longrightarrow> decimalText v = fixed_digits n v"
proof (induction n arbitrary: v)
  case (Suc n)
  show ?case
  proof (cases "v < 10")
    case True
    then have "n = 0"
    proof -
      have "\<not> (10::nat) ^ n \<le> v" if "n \<noteq> 0" using True that self_le_power [of "10 :: nat" n] by simp
      then show ?thesis using Suc.prems(3) by auto
    qed
    then show ?thesis using True by (simp add: decimalText.simps)
  next
    case False
    then have n: "n \<noteq> 0" using Suc.prems(2) by (cases n) auto
    then obtain m where m: "n = Suc m" by (cases n) auto
    have "v div 10 < 10 ^ n" using Suc.prems(2) by (simp add: div_less_iff_less_mult mult.commute)
    moreover have "n = 1 \<or> 10 ^ (n - 1) \<le> v div 10"
      using Suc.prems(3) m by (simp add: less_eq_div_iff_mult_less_eq mult.commute)
    ultimately show ?thesis using Suc.IH [of "v div 10"] n False by (subst decimalText.simps) simp
  qed
qed simp

lemma dec_fixed: "digits (fixed_digits n v) \<and> dec (fixed_digits n v) = v mod 10 ^ n"
proof (induction n arbitrary: v)
  case (Suc n)
  have "isDigit (of_nat (48 + v mod 10)) \<and> dval (of_nat (48 + v mod 10)) = v mod 10"
  proof -
    have "unat (of_nat (48 + v mod 10) :: byte) = 48 + v mod 10" by (rule unat_of_nat_byte) simp
    then show ?thesis unfolding isDigit_def dval_def word_le_nat_alt by simp
  qed
  then show ?case using Suc [of "v div 10"] mod_mult2_eq [of v 10 "10 ^ n"] by (simp add: dec_append)
qed simp

lemma bitLength_bounds: "0 < n \<Longrightarrow> 2 ^ (bitLength n - 1) \<le> n \<and> n < 2 ^ bitLength n \<and> 0 < bitLength n"
proof (induction n rule: bitLength.induct)
  case (1 n)
  show ?case
  proof (cases "n = 1")
    case True
    then show ?thesis by (simp add: bitLength.simps)
  next
    case False
    then have h: "0 < n div 2" using 1(2) by (simp add: div_greater_zero_iff)
    have b: "bitLength n = Suc (bitLength (n div 2))" using 1(2) by (subst bitLength.simps) simp
    obtain m where m: "bitLength (n div 2) = Suc m" using 1 h by (cases "bitLength (n div 2)") auto
    have "2 ^ m \<le> n div 2" "n div 2 < 2 ^ Suc m" using 1 h m by auto
    then have "2 ^ Suc m \<le> n" "n < 2 ^ Suc (Suc m)" by auto
    then show ?thesis by (simp add: b m)
  qed
qed

lemma digit_guess:
  assumes "7 \<le> l" "l < 65"
  shows "l * 1233 div 4096 < 20 \<and> 0 < l * 1233 div 4096 \<and> (10::nat) ^ (l * 1233 div 4096 - 1) \<le> 2 ^ (l - 1) \<and>
    (2::nat) ^ l \<le> 10 ^ (l * 1233 div 4096 + 1)"
proof -
  have "\<forall>l \<in> set [7..<65]. l * 1233 div 4096 < 20 \<and> 0 < l * 1233 div 4096 \<and>
      (10::nat) ^ (l * 1233 div 4096 - 1) \<le> 2 ^ (l - 1) \<and> (2::nat) ^ l \<le> 10 ^ (l * 1233 div 4096 + 1)"
    unfolding upt_rec_numeral by (simp add: upt_rec)
  moreover have "l \<in> set [7..<65]" using assms by (simp only: set_upt atLeastLessThan_iff)
  ultimately show ?thesis by (rule bspec)
qed

lemma digitCount_correct:
  assumes "100 \<le> unat v"
  shows "0 < digitCount v \<and> 10 ^ (digitCount v - 1) \<le> unat v \<and> unat v < 10 ^ digitCount v"
proof -
  let ?l = "bitLength (unat v)"
  define t where "t = drop_bit 12 (?l * 1233)"
  have l: "2 ^ (?l - 1) \<le> unat v" "unat v < 2 ^ ?l" using bitLength_bounds [of "unat v"] assms by auto
  have "7 \<le> ?l" 
  proof (rule ccontr)
    assume "\<not> 7 \<le> ?l"
    then have "(2::nat) ^ ?l \<le> 2 ^ 6" by (intro power_increasing) auto
    then show False using l(2) assms by simp
  qed
  moreover have "?l < 65"
  proof (rule ccontr)
    assume "\<not> ?l < 65"
    then have "(2::nat) ^ 64 \<le> 2 ^ (?l - 1)" by (intro power_increasing) auto
    then show False using l(1) u64_bound [of v] by simp
  qed
  ultimately have t: "t < 20" "0 < t" "10 ^ (t - 1) \<le> (2::nat) ^ (?l - 1)" "(2::nat) ^ ?l \<le> 10 ^ (t + 1)"
    using digit_guess [of ?l] by (simp_all add: t_def drop_bit_eq_div)
  have "pow10Uint64 ! t = of_nat (10 ^ t)" using t(1) by (simp add: pow10Uint64_def)
  moreover have "unat (of_nat (10 ^ t) :: u64) = 10 ^ t"
  proof (rule unat_u64)
    have "(10::nat) ^ t \<le> 10 ^ 19" using t(1) by (intro power_increasing) auto
    then show "(10::nat) ^ t < 18446744073709551616" by simp
  qed
  ultimately have "v < pow10Uint64 ! t \<longleftrightarrow> unat v < 10 ^ t" by (simp add: word_less_nat_alt)
  then have "digitCount v = (if unat v < 10 ^ t then t else t + 1)" by (simp add: digitCount_def Let_def t_def)
  then show ?thesis using t l by auto
qed

lemma pow10_le: "10 ^ (n - 1) \<le> (v :: nat) \<Longrightarrow> v < 10 ^ m \<Longrightarrow> n \<le> m"
  using le_less_trans [of "10 ^ (n - 1)" v "10 ^ m"] by simp

lemma pow10_less: "10 ^ m \<le> (v :: nat) \<Longrightarrow> v < 10 ^ n \<Longrightarrow> m < n"
  using le_less_trans [of "10 ^ m" v "10 ^ n"] by simp

section \<open>Digit pairs\<close>

lemma fixed_digits_mod: "fixed_digits n (v mod 10 ^ n) = fixed_digits n v"
  using fixed_digits_split [of 0 n v] by simp

lemma digit_pairs: "p < 100 \<Longrightarrow> get_bytes (p * 2) 2 encodeDigitPairs = fixed_digits 2 p"
proof -
  have "\<forall>p \<in> set [0..<100]. get_bytes (p * 2) 2 encodeDigitPairs = [of_nat (48 + p div 10), of_nat (48 + p mod 10)]"
    by code_simp
  then show "p < 100 \<Longrightarrow> ?thesis" by (simp add: fixed_two)
qed

lemma length_digit_pairs: "length encodeDigitPairs = 200"
  by (simp add: encodeDigitPairs_def)

lemma pair_bytes:
  fixes v :: u64
  assumes "unat v < 100"
  shows "[encodeDigitPairs ! unat (v * 2), encodeDigitPairs ! unat (v * 2 + 1)] = fixed_digits 2 (unat v)"
proof -
  have "unat (v * 2) = unat v * 2" "unat (v * 2 + 1) = unat v * 2 + 1" using assms by (simp_all add: unat_word_ariths)
  moreover have "get_bytes (unat v * 2) 2 encodeDigitPairs = [encodeDigitPairs ! (unat v * 2), encodeDigitPairs ! (unat v * 2 + 1)]"
    using assms length_digit_pairs by (intro nth_equalityI) (auto simp: get_bytes_nth less_2_cases_iff nth_Cons')
  ultimately show ?thesis using digit_pairs [OF assms] by simp
qed

text \<open>The state of the store loop: the last \<open>w\<close> digits of \<open>V\<close> are written.\<close>

definition stored :: "nat \<Rightarrow> nat \<Rightarrow> nat \<Rightarrow> bytes \<times> nat \<times> u64 \<Rightarrow> bool" where
  "stored V n w st \<longleftrightarrow> (\<exists>a. length a + w = n \<and> st = (a @ fixed_digits w V, length a, of_nat (V div 10 ^ w)))"

lemma put_pair:
  assumes "2 \<le> length a" "p < 100" "p = V div 10 ^ w mod 100"
  shows "storeCompactDigitPair (a @ fixed_digits w V) (length a - 2) (of_nat p) = take (length a - 2) a @ fixed_digits (2 + w) V"
proof -
  have u: "unat (of_nat p :: u64) = p" using assms(2) by (intro unat_u64) simp
  have "fixed_digits (2 + w) V = fixed_digits 2 p @ fixed_digits w V"
    using fixed_digits_split [of 2 w V] fixed_digits_mod [of 2 "V div 10 ^ w"] fixed_digits_mod [of w V] assms(3) by simp
  then show ?thesis
    using assms(1) digit_pairs [OF assms(2)] unfolding storeCompactDigitPair_def u by (simp add: put_bytes_def)
qed

lemma storePair_stored:
  assumes "stored V n w st" "w + 2 \<le> n" "V < 2 ^ 64"
  shows "stored V n (2 + w) (storePair st)"
proof -
  obtain a where a: "length a + w = n" "st = (a @ fixed_digits w V, length a, of_nat (V div 10 ^ w))"
    using assms(1) by (auto simp: stored_def)
  let ?q = "V div 10 ^ w"
  have q: "?q < 18446744073709551616" using le_less_trans [OF div_le_dividend assms(3)] by simp
  have m: "of_nat ?q mod (100 :: u64) = of_nat (?q mod 100)" "of_nat ?q div (100 :: u64) = of_nat (?q div 100)"
    using q le_less_trans [OF div_le_dividend q, of 100] by (simp_all add: word_unat_eq_iff unat_div unat_mod unat_u64)
  have d: "?q div 100 = V div 10 ^ (2 + w)" by (simp add: div_mult2_eq power_add mult.commute)
  show ?thesis
    using put_pair [of a "?q mod 100" V w] a assms(2) unfolding stored_def storePair_def
    by (intro exI [of _ "take (length a - 2) a"]) (simp add: m d)
qed

lemma digit_byte: "q < 10 \<Longrightarrow> (ucast (0x30 + of_nat q :: u64) :: byte) = of_nat (48 + q)"
  by (simp add: word_unat_eq_iff unsigned_ucast_eq unsigned_take_bit_eq unat_word_ariths unat_of_nat take_bit_nat_eq_self)

lemma stored_finish:
  assumes st: "stored V n w st" and n: "w < n" "n \<le> w + 2" "10 ^ (n - 1) \<le> V" "V < 10 ^ n"
  shows "(case st of (buf, i, v) \<Rightarrow> if v \<ge> 10 then storeCompactDigitPair buf (i - 2) v else buf[i - 1 := ucast (0x30 + v)]) = fixed_digits n V"
proof -
  let ?q = "V div 10 ^ w"
  obtain a where a: "length a + w = n" "st = (a @ fixed_digits w V, length a, of_nat ?q)" using st by (auto simp: stored_def)
  consider "n = w + 1" | "n = w + 2" using n by linarith
  then show ?thesis
  proof cases
    case 1
    then have q: "?q < 10" using n(4) by (simp add: div_less_iff_less_mult)
    have u: "unat (of_nat ?q :: u64) = ?q" using q by (intro unat_u64) simp
    obtain x where x: "a = [x]" using a(1) 1 by (cases a) auto
    have "fixed_digits n V = of_nat (48 + ?q) # fixed_digits w V"
      using fixed_digits_split [of 1 w V] fixed_digits_mod [of w V] 1 q by simp
    then show ?thesis using q u x by (simp add: a(2) word_le_nat_alt digit_byte)
  next
    case 2
    then have q: "?q < 100" "10 \<le> ?q" using n(3,4) by (simp_all add: div_less_iff_less_mult less_eq_div_iff_mult_less_eq)
    have u: "unat (of_nat ?q :: u64) = ?q" using q by (intro unat_u64) simp
    have ge: "(10 :: u64) \<le> of_nat ?q" unfolding word_le_nat_alt u using q by simp
    have "length a = 2" using a(1) 2 by simp
    then have "storeCompactDigitPair (a @ fixed_digits w V) (length a - 2) (of_nat ?q) = fixed_digits n V"
      using put_pair [of a ?q V w] 2 q by (simp add: add.commute del: fixed_digits.simps)
    then show ?thesis using ge by (simp add: a(2) del: fixed_digits.simps)
  qed
qed

lemma storeDigits_correct:
  assumes v: "unat v = V" and V: "100 \<le> V" "V < 10 ^ 7" and n: "length buf = n" "10 ^ (n - 1) \<le> V" "V < 10 ^ n"
  shows "storeDigits buf v = fixed_digits n V"
proof -
  have s0: "stored V n 0 (buf, length buf, v)" using n(1) v by (auto simp: stored_def)
  have V64: "V < 2 ^ 64" using V(2) by simp
  note step = storePair_stored [OF _ _ V64]
  have "n \<le> 7" using pow10_le [OF n(2) V(2)] .
  moreover have "2 < n" using pow10_less [of 2 V n] V n by simp
  ultimately consider "n = 3 \<or> n = 4" | "n = 5 \<or> n = 6" | "n = 7" by linarith
  then show ?thesis
  proof cases
    case 1
    then have b: "V < 10000" using n(3) by auto
    have sp: "storePairs (buf, length buf, v) = storePair (buf, length buf, v)"
      using v V b by (simp add: storePairs_def word_le_nat_alt)
    have st: "stored V n 2 (storePair (buf, length buf, v))" using step [OF s0] 1 by auto
    show ?thesis unfolding storeDigits_def sp by (rule stored_finish [OF st]) (use 1 n in auto)
  next
    case 2
    then have b: "V < 1000000" "10000 \<le> V" using n by auto
    have sp: "storePairs (buf, length buf, v) = storePair (storePair (buf, length buf, v))"
      using v V b by (simp add: storePairs_def word_le_nat_alt)
    have st: "stored V n 4 (storePair (storePair (buf, length buf, v)))" using step [OF step [OF s0]] 2 by auto
    show ?thesis unfolding storeDigits_def sp by (rule stored_finish [OF st]) (use 2 n in auto)
  next
    case 3
    then have b: "1000000 \<le> V" using n by auto
    have sp: "storePairs (buf, length buf, v) = storePair (storePair (storePair (buf, length buf, v)))"
      using v V b by (simp add: storePairs_def word_le_nat_alt)
    have st: "stored V n 6 (storePair (storePair (storePair (buf, length buf, v))))"
      using step [OF step [OF step [OF s0]]] 3 by auto
    show ?thesis unfolding storeDigits_def sp by (rule stored_finish [OF st]) (use 3 n in auto)
  qed
qed

section \<open>The formatter\<close>

text \<open>Appending \<open>t\<close>: the bytes of the slice stay in place, whether or not its capacity is enough.\<close>

definition appends :: "slice \<Rightarrow> bytes \<Rightarrow> slice option \<Rightarrow> bool" where
  "appends s t r \<longleftrightarrow> r = Some (fst s @ t, drop (length t) (snd s))"

lemma put_extended: "length t = n \<Longrightarrow> n \<le> length (snd s) \<Longrightarrow>
   put_bytes (length (fst s)) t (fst s @ take n (snd s)) = fst s @ t"
  by (simp add: put_bytes_def)

lemma put_mid: "length b = length c \<Longrightarrow> put_bytes (length a) b (a @ c @ d) = a @ b @ d"
  by (simp add: put_bytes_def)

lemma put_two:
  assumes "length p = 2" "length q = 8" "10 \<le> length spare"
  shows "put_bytes (Suc (Suc (length dst))) q (put_bytes (length dst) p (dst @ take 10 spare)) = dst @ p @ q"
proof -
  have t: "take 10 spare = take 2 spare @ take 8 (drop 2 spare)" using take_add [of 2 8 spare] by simp
  have "put_bytes (length dst) p (dst @ take 10 spare) = dst @ p @ take 8 (drop 2 spare)"
    unfolding t using assms by (intro put_mid) simp
  moreover have "put_bytes (length (dst @ p)) q ((dst @ p) @ take 8 (drop 2 spare) @ []) = (dst @ p) @ q @ []"
    using assms by (intro put_mid) simp
  moreover have "length (dst @ p) = Suc (Suc (length dst))" using assms(1) by simp
  ultimately show ?thesis by (metis append.assoc append_Nil2)
qed

lemma text_of_count:
  assumes "100 \<le> unat v"
  shows "decimalText (unat v) = fixed_digits (digitCount v) (unat v)"
  using digitCount_correct [OF assms] by (intro decimalText_fixed) auto

lemma appendShortInt_correct:
  assumes "100 \<le> unat v" "unat v < 100000000"
  shows "appends s (decimalText (unat v)) (appendCompactUintShort s v)"
proof -
  note c = digitCount_correct [OF assms(1)] and t = text_of_count [OF assms(1)]
  show ?thesis
  proof (cases "length (snd s) < digitCount v")
    case True
    then show ?thesis by (simp add: appends_def appendCompactUintShort_def appendBytes_def Let_def)
  next
    case False
    show ?thesis
    proof (cases "digitCount v = 8")
      case True
      then show ?thesis using False assms(2) t Store8Digits_eq [of v]
        by (simp add: appends_def appendCompactUintShort_def extendSlice_def put_extended Let_def)
    next
      case nf: False
      have "unat v < 10 ^ 7"
      proof (rule ccontr)
        assume "\<not> unat v < 10 ^ 7"
        then have "7 < digitCount v" using c pow10_less [of 7 "unat v" "digitCount v"] by simp
        moreover have "digitCount v \<le> 8" using c assms(2) pow10_le [of "digitCount v" "unat v" 8] by simp
        ultimately show False using nf by linarith
      qed
      then show ?thesis using False nf c assms t storeDigits_correct [of v "unat v" "take (digitCount v) (snd s)" "digitCount v"]
        by (simp add: appends_def appendCompactUintShort_def extendSlice_def Let_def)
    qed
  qed
qed

lemma quotient:
  fixes v :: u64
  shows "unat (v div 100000000) = unat v div 10 ^ 8" "unat (v - v div 100000000 * 100000000) = unat v mod 10 ^ 8"
    "unat (v div 10000000000000000) = unat v div 10 ^ 16" "unat (v - v div 10000000000000000 * 10000000000000000) = unat v mod 10 ^ 16"
  by (simp_all add: minus_div_mult_eq_mod unat_div unat_mod)

lemma appendUint9_correct:
  assumes "100000000 \<le> unat v" "unat v < 1000000000"
  shows "appends s (decimalText (unat v)) (appendCompactUint9 s v)"
proof (cases "length (snd s) < 9")
  case True
  then show ?thesis by (simp add: appends_def appendCompactUint9_def appendBytes_def)
next
  case False
  have t: "decimalText (unat v) = fixed_digits 9 (unat v)" using assms by (intro decimalText_fixed) auto
  also have "\<dots> = fixed_digits 1 (unat v div 10 ^ 8) @ fixed_digits 8 (unat v mod 10 ^ 8)"
    using fixed_digits_split [of 1 8 "unat v"] by simp
  finally have t: "decimalText (unat v) = of_nat (48 + unat v div 10 ^ 8) # fixed_digits 8 (unat v mod 10 ^ 8)"
    using assms by (simp add: add.commute)
  have q: "(ucast (0x30 + v div 100000000 :: u64) :: byte) = of_nat (48 + unat v div 10 ^ 8)"
    using assms digit_byte [of "unat v div 10 ^ 8"] word_of_unat [of "v div 100000000"] unfolding quotient by simp
  have "Store8Digits (v - v div 100000000 * 100000000) = fixed_digits 8 (unat v mod 10 ^ 8)"
    using Store8Digits_eq [of "v - v div 100000000 * 100000000"] unfolding quotient by simp
  moreover obtain x xs where x: "take 9 (snd s) = x # xs" "length xs = 8"
    using False length_Suc_conv [of "take 9 (snd s)" 8] by auto
  ultimately show ?thesis using False q
    by (simp add: appends_def appendCompactUint9_def extendSlice_def Let_def t x put_bytes_def list_update_append)
qed

lemma appendUint10_correct:
  assumes "1000000000 \<le> unat v" "unat v < 10000000000"
  shows "appends s (decimalText (unat v)) (appendCompactUint10 s v)"
proof (cases "length (snd s) < 10")
  case True
  then show ?thesis by (simp add: appends_def appendCompactUint10_def appendBytes_def)
next
  case False
  have "decimalText (unat v) = fixed_digits 10 (unat v)" using assms by (intro decimalText_fixed) auto
  then have t: "decimalText (unat v) = fixed_digits 2 (unat v div 10 ^ 8) @ fixed_digits 8 (unat v mod 10 ^ 8)"
    using fixed_digits_split [of 2 8 "unat v"] by simp
  have "Store8Digits (v - v div 100000000 * 100000000) = fixed_digits 8 (unat v mod 10 ^ 8)"
    using Store8Digits_eq [of "v - v div 100000000 * 100000000"] unfolding quotient by simp
  moreover have "get_bytes (unat (v div 100000000) * 2) 2 encodeDigitPairs = fixed_digits 2 (unat v div 10 ^ 8)"
    using digit_pairs [of "unat v div 10 ^ 8"] assms unfolding quotient by simp
  ultimately show ?thesis using False
    by (simp add: appends_def appendCompactUint10_def extendSlice_def Let_def t storeCompactDigitPair_def put_two)
qed

lemma appendLarge_correct:
  assumes v: "10000000000 \<le> unat v" and rec: "\<And>w. w < v \<Longrightarrow> appends s (decimalText (unat w)) (f s w)"
  shows "appends s (decimalText (unat v)) (appendCompactUintLarge f s v)"
proof -
  let ?n = "digitCount v"
  have c: "0 < ?n" "10 ^ (?n - 1) \<le> unat v" "unat v < 10 ^ ?n" using digitCount_correct [of v] v by auto
  have t: "decimalText (unat v) = fixed_digits ?n (unat v)" using text_of_count [of v] v by simp
  consider "length (snd s) < ?n" | "\<not> length (snd s) < ?n" "unat v < 10 ^ 16" | "\<not> length (snd s) < ?n" "10 ^ 16 \<le> unat v" by linarith
  then show ?thesis
  proof cases
    case 1
    then show ?thesis by (simp add: appends_def appendCompactUintLarge_def appendBytes_def Let_def)
  next
    case 2
    have "?n \<le> 16" using pow10_le [OF c(2) 2(2)] .
    then have "drop (16 - ?n) (Store16Digits v) = fixed_digits ?n (unat v)"
      using Store16Digits_eq [OF 2(2)] fixed_digits_split [of "16 - ?n" ?n "unat v"] fixed_digits_mod [of ?n "unat v"] by simp
    then show ?thesis using 2 t by (simp add: appends_def appendCompactUintLarge_def appendBytes_def Let_def word_less_nat_alt)
  next
    case 3
    have n: "16 < ?n" using pow10_less [OF 3(2) c(3)] .
    let ?hi = "v div 10000000000000000" and ?lo = "v - v div 10000000000000000 * 10000000000000000"
    have lt: "?hi < v" using 3 by (simp add: word_less_nat_alt unat_div)
    have d: "decimalText (unat ?hi) = fixed_digits (?n - 16) (unat ?hi)"
    proof (rule decimalText_fixed)
      have e: "(10::nat) ^ ?n = 10 ^ (?n - 16) * 10 ^ 16" using n power_add [of "10 :: nat" "?n - 16" 16] by simp
      show "unat ?hi < 10 ^ (?n - 16)" using c(3) unfolding quotient e by (simp add: div_less_iff_less_mult)
      have e: "(10::nat) ^ (?n - 1) = 10 ^ (?n - 16 - 1) * 10 ^ 16" using n power_add [of "10 :: nat" "?n - 16 - 1" 16] by simp
      show "?n - 16 = 1 \<or> 10 ^ (?n - 16 - 1) \<le> unat ?hi"
        using c(2) unfolding quotient e by (simp add: less_eq_div_iff_mult_less_eq)
    qed (use n in auto)
    have f: "f s ?hi = Some (fst s @ fixed_digits (?n - 16) (unat ?hi), drop (?n - 16) (snd s))"
      using rec [OF lt] unfolding d by (simp add: appends_def)
    have lo: "Store16Digits ?lo = fixed_digits 16 (unat v mod 10 ^ 16)"
      using Store16Digits_eq [of ?lo] unfolding quotient by simp
    have "fixed_digits ?n (unat v) = fixed_digits (?n - 16) (unat ?hi) @ fixed_digits 16 (unat v mod 10 ^ 16)"
      using fixed_digits_split [of "?n - 16" 16 "unat v"] n unfolding quotient by simp
    then show ?thesis
      using 3 n t f lo by (simp add: appends_def appendCompactUintLarge_def Let_def word_less_nat_alt extendSlice_def put_bytes_def)
  qed
qed

lemma appendCompactUint_appends: "appends s (decimalText (unat v)) (appendCompactUint s v)"
proof (induction s v rule: appendCompactUint.induct)
  case (1 s v)
  consider "unat v < 10" | "10 \<le> unat v" "unat v < 100" | "10000000000 \<le> unat v"
    | "1000000000 \<le> unat v" "unat v < 10000000000" | "100000000 \<le> unat v" "unat v < 1000000000"
    | "100 \<le> unat v" "unat v < 100000000" by linarith
  then show ?case
  proof cases
    case 1
    then show ?thesis using digit_byte [of "unat v"]
      by (subst appendCompactUint.simps) (simp add: word_less_nat_alt decimalText.simps appends_def appendBytes_def)
  next
    case 2
    have "decimalText (unat v) = fixed_digits 2 (unat v)" using 2 by (intro decimalText_fixed) auto
    then show ?thesis using 2 pair_bytes [of v]
      by (subst appendCompactUint.simps) (simp add: word_less_nat_alt appends_def appendBytes_def)
  next
    case 3
    have "appends s (decimalText (unat v)) (appendCompactUintLarge appendCompactUint s v)"
      using 1 3 by (intro appendLarge_correct) (auto simp: word_less_nat_alt word_le_nat_alt)
    then show ?thesis using 3 by (subst appendCompactUint.simps) (simp add: word_less_nat_alt word_le_nat_alt)
  next
    case 4
    then show ?thesis using appendUint10_correct [OF 4] by (subst appendCompactUint.simps) (simp add: word_less_nat_alt word_le_nat_alt)
  next
    case 5
    then show ?thesis using appendUint9_correct [OF 5] by (subst appendCompactUint.simps) (simp add: word_less_nat_alt word_le_nat_alt)
  next
    case 6
    then show ?thesis using appendShortInt_correct [OF 6] by (subst appendCompactUint.simps) (simp add: word_less_nat_alt word_le_nat_alt)
  qed
qed

text \<open>The spelling of a signed integer.\<close>

definition int_spelling :: "int \<Rightarrow> bytes" where
  "int_spelling i = (if i < 0 then 0x2D # decimalText (nat (- i)) else decimalText (nat i))"

lemma signed_magnitude:
  fixes v :: u64
  shows "sint v < 0 \<Longrightarrow> nat (- sint v) = unat (- v)" "0 \<le> sint v \<Longrightarrow> nat (sint v) = unat v"
proof -
  have u: "uint v = sint v mod 2 ^ 64" by (simp add: uint_sint take_bit_eq_mod)
  have b: "- (2 ^ 63) \<le> sint v" "sint v < 2 ^ 63" using sint_greater_eq [of v] sint_less [of v] by simp_all
  show "nat (sint v) = unat v" if "0 \<le> sint v" using that u b unfolding unat_eq_nat_uint by simp
  assume neg: "sint v < 0"
  have "uint (- v) = (- uint v) mod 2 ^ 64" by (simp add: uint_word_ariths)
  also have "\<dots> = (- sint v) mod 2 ^ 64" unfolding u by (simp add: mod_minus_eq)
  also have "\<dots> = - sint v" using neg b by simp
  finally show "nat (- sint v) = unat (- v)" unfolding unat_eq_nat_uint by simp
qed

lemma appendCompactInt_appends: "appends s (int_spelling (sint v)) (appendCompactInt s v)"
proof (cases "sint v < 0")
  case True
  then show ?thesis
    using appendCompactUint_appends [of "appendBytes s [0x2D]" "- v"] signed_magnitude(1) [OF True]
    by (simp add: appends_def appendCompactInt_def appendBytes_def int_spelling_def)
next
  case False
  then show ?thesis using appendCompactUint_appends [of s v] signed_magnitude(2) [of v]
    by (simp add: appends_def appendCompactInt_def int_spelling_def)
qed

lemma appendCommaCompactUint_appends: "appends s (0x2C # decimalText (unat v)) (appendCommaCompactUint s v)"
proof -
  consider "unat v < 10" | "10 \<le> unat v" "unat v < 100" | "100 \<le> unat v" by linarith
  then show ?thesis
  proof cases
    case 1
    then show ?thesis using digit_byte [of "unat v"]
      by (simp add: appendCommaCompactUint_def word_less_nat_alt decimalText.simps appends_def appendBytes_def)
  next
    case 2
    have "decimalText (unat v) = fixed_digits 2 (unat v)" using 2 by (intro decimalText_fixed) auto
    then show ?thesis using 2 pair_bytes [of v]
      by (simp add: appendCommaCompactUint_def word_less_nat_alt appends_def appendBytes_def)
  next
    case 3
    let ?n = "digitCount v"
    note c = digitCount_correct [OF 3] and t = text_of_count [OF 3]
    show ?thesis
    proof (cases "10000000000000000 \<le> unat v \<or> length (snd s) < ?n + 1")
      case True
      then show ?thesis using 3 appendCompactUint_appends [of "appendBytes s [0x2C]" v]
        by (simp add: appendCommaCompactUint_def word_less_nat_alt word_le_nat_alt appends_def appendBytes_def Let_def)
    next
      case False
      then have n: "?n \<le> 16" using c pow10_le [of ?n "unat v" 16] by simp
      then have d: "drop (16 - ?n) (Store16Digits v) = fixed_digits ?n (unat v)"
        using Store16Digits_eq [of v] False fixed_digits_split [of "16 - ?n" ?n "unat v"] fixed_digits_mod [of ?n "unat v"] by simp
      obtain x xs where x: "take (?n + 1) (snd s) = x # xs" "length xs = ?n"
        using False length_Suc_conv [of "take (?n + 1) (snd s)" ?n] by auto
      have p: "put_bytes (length (fst s @ [0x2C])) (fixed_digits ?n (unat v)) ((fst s @ [0x2C]) @ xs @ []) =
          (fst s @ [0x2C]) @ fixed_digits ?n (unat v) @ []" using x(2) by (intro put_mid) simp
      show ?thesis using False 3 d t x p
        by (simp add: appendCommaCompactUint_def word_less_nat_alt word_le_nat_alt appends_def Let_def extendSlice_def list_update_append)
    qed
  qed
qed

lemma appendCommaCompactInt_appends: "appends s (0x2C # int_spelling (sint v)) (appendCommaCompactInt s v)"
proof (cases "sint v < 0")
  case True
  then show ?thesis
    using appendCompactUint_appends [of "appendBytes s [0x2C, 0x2D]" "- v"] signed_magnitude(1) [OF True]
    by (simp add: appends_def appendCommaCompactInt_def appendBytes_def int_spelling_def)
next
  case False
  then show ?thesis using appendCommaCompactUint_appends [of s v] signed_magnitude(2) [of v]
    by (simp add: appends_def appendCommaCompactInt_def int_spelling_def)
qed

section \<open>The spelling is a JSON number\<close>

lemma digit_char: "q < 10 \<Longrightarrow> isDigit (of_nat (48 + q)) \<and> dval (of_nat (48 + q)) = q \<and> (0 < q \<longrightarrow> isOneNine (of_nat (48 + q)))"
  unfolding isDigit_def isOneNine_def dval_def word_le_nat_alt by (simp only: unat_of_nat_byte) simp

lemma decimalText_form:
  "dec (decimalText v) = v \<and> (if v = 0 then decimalText v = [0x30] else \<exists>c ds. decimalText v = c # ds \<and> isOneNine c \<and> digits ds)"
proof (induction v rule: decimalText.induct)
  case (1 v)
  show ?case
  proof (cases "v < 10")
    case True
    then have e: "decimalText v = [of_nat (48 + v)]" by (simp add: decimalText.simps)
    then show ?thesis using digit_char [OF True] by (cases "v = 0") auto
  next
    case False
    then have e: "decimalText v = decimalText (v div 10) @ [of_nat (48 + v mod 10)]" by (subst decimalText.simps) simp
    obtain c ds where c: "decimalText (v div 10) = c # ds" "isOneNine c" "digits ds" "dec (decimalText (v div 10)) = v div 10"
      using 1 False by (auto split: if_splits)
    have d: "isDigit (of_nat (48 + v mod 10))" "dval (of_nat (48 + v mod 10)) = v mod 10" using digit_char [of "v mod 10"] by auto
    have "dec (decimalText v) = v div 10 * 10 + v mod 10" using c d by (simp only: e dec_append) (simp add: d)
    moreover have "\<exists>c ds. decimalText v = c # ds \<and> isOneNine c \<and> digits ds" using c d by (simp only: e) auto
    ultimately show ?thesis using False by simp
  qed
qed

lemma int_text_decimal: "int_text (decimalText v)"
  using decimalText_form [of v] by (auto simp: int_text_def split: if_splits)

lemma int_spelling_number: "number_val (int_spelling i) (of_int i)"
proof -
  have "number_val (sg @ decimalText v) ((if sg = [] then 1 else - 1) * of_nat v)" if "sg = [] \<or> sg = [0x2D]" for sg v
    unfolding number_val_def number_parts_def using that int_text_decimal [of v] decimalText_form [of v]
    by (intro exI [of _ sg] exI [of _ "decimalText v"] exI [of _ "[]"]) (simp add: frac_text_def exp_text_def exp_val_def)
  from this [of "[]" "nat i"] this [of "[0x2D]" "nat (- i)"] show ?thesis
    by (cases "i < 0") (simp_all add: int_spelling_def of_nat_nat)
qed

text \<open>C29. Whatever the contents and the capacity of the destination, \<^verbatim>\<open>appendCompactInt\<close> leaves its bytes in place and
  appends a JSON number that denotes exactly the 64-bit signed integer it was given, the smallest one included, and
  \<^verbatim>\<open>appendCommaCompactInt\<close> the same with a comma before it; no slice expression of the formatters leaves the
  capacity.\<close>

theorem appendCompactInt_correct:
  "\<exists>t spare'. appendCompactInt (dst, spare) v = Some (dst @ t, spare') \<and> number_val t (of_int (sint v)) \<and>
     appendCommaCompactInt (dst, spare) v = Some (dst @ 0x2C # t, drop 1 spare')"
  using appendCompactInt_appends [of "(dst, spare)" v] appendCommaCompactInt_appends [of "(dst, spare)" v]
    int_spelling_number [of "sint v"]
  by (auto simp: appends_def)

lemma scanDigits_stop: "scanDigits src i < length src \<Longrightarrow> \<not> isDigit (src ! scanDigits src i)"
proof (induction src i rule: scanDigits.induct)
  case (1 src i)
  then show ?case by (cases "i < length src \<and> isDigit (src ! i)") (simp_all add: scanDigits.simps [of src i])
qed

lemma decimalText_length: "v < 10 ^ n \<Longrightarrow> 0 < n \<Longrightarrow> length (decimalText v) \<le> n"
proof (cases "v = 0")
  case False
  assume v: "v < 10 ^ n"
  obtain c ds where c: "decimalText v = c # ds" "isOneNine c" using decimalText_form [of v] False by auto
  have "1 \<le> dval c" using c(2) by (auto simp: isOneNine_def dval_def word_le_nat_alt)
  then have "10 ^ length ds \<le> dec (decimalText v)" by (simp add: c(1) trans_le_add1)
  then show ?thesis using pow10_less [of "length ds" v n] decimalText_form [of v] v c(1) by simp
qed (use decimalText_form [of v] in auto)

text \<open>Reading a run of digits with the word kernels: \<^verbatim>\<open>scanDigitsFast\<close> finds the end of the run, and
  \<^verbatim>\<open>parseTapeDigitsUint64\<close> returns its decimal value without overflow when it has at most nineteen digits and refuses
  it otherwise, whatever surrounds the run.\<close>

theorem digit_run_value:
  assumes "i < length src" "isDigit (src ! i)"
  shows "i < scanDigitsFast src i \<and> scanDigitsFast src i \<le> length src \<and> digits (segment src i (scanDigitsFast src i)) \<and>
    (scanDigitsFast src i < length src \<longrightarrow> \<not> isDigit (src ! scanDigitsFast src i)) \<and>
    map_option unat (parseTapeDigitsUint64 src i (scanDigitsFast src i)) =
      (if scanDigitsFast src i - i \<le> 19 then Some (dec (segment src i (scanDigitsFast src i))) else None)"
proof -
  let ?j = "scanDigitsFast src i"
  have j: "?j = scanDigits src i" using assms(1) by (simp add: scanDigitsFast_eq)
  have d: "i < ?j" "?j \<le> length src" "digits (segment src i ?j)" "?j < length src \<longrightarrow> \<not> isDigit (src ! ?j)"
    using scanDigits_sound [of i src] scanDigits_nonempty [OF assms] assms(1) scanDigits_stop unfolding j by auto
  have "dec (segment src i ?j) < 18446744073709551616" if "?j - i \<le> 19"
  proof -
    have "dec (segment src i ?j) < 10 ^ (?j - i)" using dec_less [OF d(3)] d(2) by simp
    moreover have "(10::nat) ^ (?j - i) \<le> 10 ^ 19" using that by (intro power_increasing) auto
    ultimately show ?thesis by simp
  qed
  then show ?thesis using d parseTapeDigits_correct [OF d(1-3)] by (simp add: unat_u64)
qed

lemma digit_run_value_witness:
  "map_option unat (parseTapeDigitsUint64 (ascii ''[1234567890,7]'') 1 (scanDigitsFast (ascii ''[1234567890,7]'') 1)) =
     (if scanDigitsFast (ascii ''[1234567890,7]'') 1 - 1 \<le> 19
      then Some (dec (segment (ascii ''[1234567890,7]'') 1 (scanDigitsFast (ascii ''[1234567890,7]'') 1))) else None)"
proof -
  have "isDigit (ascii ''[1234567890,7]'' ! 1)" by (simp add: isDigit_def)
  then show ?thesis using digit_run_value [of 1 "ascii ''[1234567890,7]''"] by simp
qed

text \<open>C28. Printing and parsing are inverse: the digits that \<^verbatim>\<open>appendCompactUint\<close> writes for an integer below 10 to the
  19 are scanned and parsed back to that integer.\<close>

theorem integer_roundtrip:
  assumes "unat v < 10 ^ 19" "rest = [] \<or> \<not> isDigit (hd rest)"
  shows "\<exists>t spare'. appendCompactUint (dst, spare) v = Some (dst @ t, spare') \<and>
    scanDigitsFast (dst @ t @ rest) (length dst) = length dst + length t \<and>
    parseTapeDigitsUint64 (dst @ t @ rest) (length dst) (length dst + length t) = Some v"
proof -
  let ?t = "decimalText (unat v)" and ?src = "dst @ decimalText (unat v) @ rest"
  have t: "digits ?t" "?t \<noteq> []" "dec ?t = unat v"
    using decimalText_form [of "unat v"] int_text_digits [OF int_text_decimal, of "unat v"] by auto
  have sc: "scanDigitsFast ?src (length dst) = length dst + length ?t"
    using scanDigits_at [of ?src "length dst" ?t rest] t(1) assms(2) by (simp add: scanDigitsFast_eq JsonText.at_def)
  have sg: "segment ?src (length dst) (length dst + length ?t) = ?t" by (simp add: segment_def)
  have "length ?t \<le> 19" using decimalText_length [OF assms(1)] by simp
  then have "parseTapeDigitsUint64 ?src (length dst) (length dst + length ?t) = Some v"
    using parseTapeDigits_correct [of "length dst" "length dst + length ?t" ?src] t unfolding sg by simp
  then show ?thesis using sc appendCompactUint_appends [of "(dst, spare)" v] by (auto simp: appends_def)
qed

lemma integer_roundtrip_witness:
  "\<exists>t spare'. appendCompactUint (ascii ''['', replicate 32 0) 9007199254740993 = Some (ascii ''['' @ t, spare') \<and>
    scanDigitsFast (ascii ''['' @ t @ ascii '']'') (length (ascii ''['')) = length (ascii ''['') + length t \<and>
    parseTapeDigitsUint64 (ascii ''['' @ t @ ascii '']'') (length (ascii ''['')) (length (ascii ''['') + length t) = Some 9007199254740993"
proof (rule integer_roundtrip)
  show "unat (9007199254740993 :: u64) < 10 ^ 19" by simp
  show "ascii '']'' = [] \<or> \<not> isDigit (hd (ascii '']''))" by (simp add: isDigit_def)
qed

end
