(* ===== verification/CalendarCorrect.thy ===== *)
theory CalendarCorrect
  imports TimeText IntegerTextCorrect
begin

text \<open>
  \<^verbatim>\<open>absDaysToDate\<close> is the proleptic Gregorian calendar: the reference is the rule that takes a date to the next day.
\<close>

section \<open>The calendar\<close>

definition leap :: "int \<Rightarrow> bool" where
  "leap y \<longleftrightarrow> 4 dvd y \<and> (\<not> 100 dvd y \<or> 400 dvd y)"

definition month_length :: "int \<Rightarrow> nat \<Rightarrow> nat" where
  "month_length y m =
     (if m = 2 then (if leap y then 29 else 28) else if m \<in> {4, 6, 9, 11} then 30 else 31)"

type_synonym date = "int \<times> nat \<times> nat"

fun next_day :: "date \<Rightarrow> date" where
  "next_day (y, m, d) =
     (if d < month_length y m then (y, m, d + 1) else if m < 12 then (y, m + 1, 1) else (y + 1, 1, 1))"

section \<open>Years that begin in March\<close>

text \<open>The first day of the year that begins on the first of March of year \<open>y\<close>, counted from year 0.\<close>

definition march_first :: "nat \<Rightarrow> nat" where
  "march_first y = 365 * y + y div 4 - y div 100 + y div 400"

lemma march_first_century:
  assumes "q < 100"
  shows "march_first (100 * c + q) = 36524 * c + c div 4 + 365 * q + q div 4"
proof -
  have "(100 * c + q) div 4 = 25 * c + q div 4" by (simp add: div_mult_self3 [of 4 q "25 * c", simplified])
  moreover have "(100 * c + q) div 100 = c" using assms by simp
  moreover have "(100 * c + q) div 400 = c div 4" using assms div_mult2_eq [of "100 * c + q" 100 4] by simp
  ultimately show ?thesis by (simp add: march_first_def)
qed

text \<open>The two divisions of the algorithm have the same shape: \<open>4 x + 3\<close> by \<open>4 n + 1\<close>.\<close>

lemma regroup: "X = 4 * N + c + R \<Longrightarrow> R = 4 * m + r \<Longrightarrow> c = 4 * q + s \<Longrightarrow> X = 4 * (N + q + m) + (s + r :: nat)"
  by simp

lemma remainders: "4 * x + 3 = 4 * K + (u + v :: nat) \<Longrightarrow> u < 4 \<Longrightarrow> v < 4 \<Longrightarrow> u + v = 3"
  by presburger

lemma cycle_split:
  fixes x n :: nat
  defines "c \<equiv> (4 * x + 3) div (4 * n + 1)" and "m \<equiv> (4 * x + 3) mod (4 * n + 1) div 4"
  shows "x = n * c + c div 4 + m" "m \<le> n" "m = n \<Longrightarrow> c mod 4 = 3"
proof -
  define R where "R = (4 * x + 3) mod (4 * n + 1)"
  have e: "4 * x + 3 = (4 * n + 1) * c + R" unfolding c_def R_def by (rule mult_div_mod_eq [symmetric])
  have R: "R < 4 * n + 1" by (simp add: R_def)
  have r4: "R = 4 * m + R mod 4" by (simp add: m_def R_def)
  have c4: "c = 4 * (c div 4) + c mod 4" by simp
  define K where "K = n * c + c div 4 + m"
  have s: "4 * x + 3 = 4 * K + (c mod 4 + R mod 4)" 
  proof -
    have "4 * x + 3 = 4 * (n * c) + c + R" using e by simp
    from regroup [OF this r4 c4] show ?thesis by (simp only: K_def)
  qed
  then have k: "c mod 4 + R mod 4 = 3" by (rule remainders) simp_all
  show "x = n * c + c div 4 + m" using s k by (simp add: K_def)
  show "m \<le> n" using R r4 by linarith
  show "c mod 4 = 3" if "m = n" using R r4 k that by linarith
qed

lemma year_sum: "p + r + q' = p' + r' + q + k \<Longrightarrow> q' \<le> y \<Longrightarrow> q \<le> Suc y \<Longrightarrow>
   365 * Suc y + p - q + r = 365 * y + p' - q' + r' + 365 + (k :: nat)"
  by simp

lemma march_first_Suc: "march_first (Suc y) = march_first y + 365 + (if leap (int (Suc y)) then 1 else 0)"
proof -
  have d: "int k dvd int (Suc y) \<longleftrightarrow> Suc y mod k = 0" for k by (metis dvd_imp_mod_0 int_dvd_int_iff mod_0_imp_dvd)
  have l: "leap (int (Suc y)) \<longleftrightarrow> Suc y mod 4 = 0 \<and> (Suc y mod 100 \<noteq> 0 \<or> Suc y mod 400 = 0)"
    using d [of 4] d [of 100] d [of 400] by (simp add: leap_def)
  have i: "Suc y mod 400 = 0 \<Longrightarrow> Suc y mod 100 = 0" "Suc y mod 100 = 0 \<Longrightarrow> Suc y mod 4 = 0"
    using dvd_trans [of 100 400 "Suc y"] dvd_trans [of 4 100 "Suc y"] unfolding mod_eq_0_iff_dvd by simp_all
  have "Suc y div 4 + Suc y div 400 + y div 100 = y div 4 + y div 400 + Suc y div 100 + (if leap (int (Suc y)) then 1 else 0)"
    unfolding l using i by (simp add: div_Suc)
  moreover have "y div 100 \<le> y" "Suc y div 100 \<le> Suc y" by simp_all
  ultimately show ?thesis unfolding march_first_def by (intro year_sum) auto
qed

lemma march_first_mono: "y < z \<Longrightarrow> march_first (Suc y) \<le> march_first z"
proof (induction z)
  case (Suc z)
  then show ?case by (cases "y = z") (auto simp: march_first_Suc [of z])
qed simp

text \<open>A day count determines the year and the day of the year.\<close>

definition day_of :: "nat \<Rightarrow> nat \<Rightarrow> nat \<Rightarrow> bool" where
  "day_of D Y a \<longleftrightarrow> D = march_first Y + a \<and> D < march_first (Suc Y)"

lemma day_of_next:
  assumes "day_of D Y a" "day_of (Suc D) Y' a'"
  shows "if a + 1 < 365 + (if leap (int (Suc Y)) then 1 else 0) then Y' = Y \<and> a' = a + 1 else Y' = Suc Y \<and> a' = 0"
proof -
  let ?len = "365 + (if leap (int (Suc Y)) then 1 else 0 :: nat)"
  have D: "D = march_first Y + a" "a < ?len" "Suc D = march_first Y' + a'" "Suc D < march_first (Suc Y')"
    and S: "march_first (Suc Y) = march_first Y + ?len"
    using assms by (auto simp: day_of_def march_first_Suc [of Y])
  have "Y' \<ge> Y" using march_first_mono [of Y' Y] D by (cases "Y' < Y") auto
  moreover have "Y' \<le> Suc Y" using march_first_mono [of "Suc Y" Y'] march_first_Suc [of "Suc Y"] D S by (cases "Suc Y < Y'") auto
  ultimately consider "Y' = Y" | "Y' = Suc Y" by linarith
  then show ?thesis
  proof cases
    case 1
    then show ?thesis using D S by auto
  next
    case 2
    then show ?thesis using D S by auto
  qed
qed

section \<open>The algorithm\<close>

definition dates_year :: "nat \<Rightarrow> nat" where
  "dates_year D = (let c = (4 * D + 3) div 146097; m = (4 * D + 3) mod 146097 div 4 in 100 * c + (4 * m + 3) div 1461)"

definition dates_day :: "nat \<Rightarrow> nat" where
  "dates_day D = (4 * ((4 * D + 3) mod 146097 div 4) + 3) mod 1461 div 4"

lemma day_of_dates: "day_of D (dates_year D) (dates_day D)" "dates_day D \<le> 365"
proof -
  define c m where "c = (4 * D + 3) div 146097" and "m = (4 * D + 3) mod 146097 div 4"
  define q a where "q = (4 * m + 3) div 1461" and "a = (4 * m + 3) mod 1461 div 4"
  have C: "D = 36524 * c + c div 4 + m" "m \<le> 36524" "m = 36524 \<Longrightarrow> c mod 4 = 3"
    using cycle_split [of D 36524] by (simp_all add: c_def m_def)
  have Q: "m = 365 * q + q div 4 + a" "a \<le> 365" "a = 365 \<Longrightarrow> q mod 4 = 3"
    using cycle_split [of m 365] by (simp_all add: q_def a_def)
  have q: "q < 100" using C(2) by (simp add: q_def div_less_iff_less_mult)
  have ya: "dates_year D = 100 * c + q" "dates_day D = a" by (simp_all add: dates_year_def dates_day_def c_def m_def q_def a_def Let_def)
  have D: "D = march_first (100 * c + q) + a" using C(1) Q(1) march_first_century [OF q] by simp
  have "leap (int (Suc (100 * c + q)))" if "a = 365"
  proof -
    have q3: "q mod 4 = 3" using Q(3) that .
    show ?thesis
    proof (cases "q = 99")
      case True
      then have "m = 36524" using Q(1) that by simp
      then have "c mod 4 = 3" using C(3) by simp
      then obtain k where "c = 4 * k + 3" by (metis mult_div_mod_eq)
      then have "int (Suc (100 * c + q)) = 400 * int (k + 1)" using True by simp
      then have "400 dvd int (Suc (100 * c + q))" by simp
      then show ?thesis using dvd_trans [of 4 400 "int (Suc (100 * c + q))"] by (simp add: leap_def)
    next
      case False
      then have "Suc (100 * c + q) mod 100 = Suc q" using q mod_mult_self4 [of 100 c "Suc q"] by simp
      then have "\<not> 100 dvd Suc (100 * c + q)" by (simp add: dvd_eq_mod_eq_0)
      then have "\<not> 100 dvd int (Suc (100 * c + q))" by (metis int_dvd_int_iff of_nat_numeral)
      moreover obtain j where "q = 4 * j + 3" using q3 by (metis mult_div_mod_eq)
      then have "int (Suc (100 * c + q)) = 4 * int (25 * c + j + 1)" by simp
      then have "4 dvd int (Suc (100 * c + q))" by simp
      ultimately show ?thesis unfolding leap_def by blast
    qed
  qed
  then have "a < 365 + (if leap (int (Suc (100 * c + q))) then 1 else 0)" using Q(2) by (cases "a = 365") auto
  then show "day_of D (dates_year D) (dates_day D)" unfolding ya day_of_def march_first_Suc using D by simp
  show "dates_day D \<le> 365" using Q(2) by (simp add: ya)
qed

section \<open>The word arithmetic\<close>

lemma year_split:
  assumes "cd < 146100"
  shows "2939745 * cd div 4294967296 = cd div 1461" "2939745 * cd mod 4294967296 div 2939745 = (cd mod 1461 :: nat)"
proof -
  define q r where "q = cd div 1461" and "r = cd mod 1461"
  have cd: "cd = 1461 * q + r" "r < 1461" by (simp_all add: q_def r_def)
  have q: "q < 100" using assms by (simp add: q_def div_less_iff_less_mult)
  define t where "t = 149 * q + 2939745 * r"
  have p: "2939745 * cd = q * 4294967296 + t" by (simp add: cd(1) t_def)
  have b: "t < 4294967296" using q cd(2) unfolding t_def by linarith
  then have "2939745 * cd div 4294967296 = q" "2939745 * cd mod 4294967296 = t" unfolding p by simp_all
  moreover have "t div 2939745 = r" using q by (simp add: t_def)
  ultimately show "2939745 * cd div 4294967296 = cd div 1461" "2939745 * cd mod 4294967296 div 2939745 = cd mod 1461"
    by (simp_all add: q_def r_def)
qed

lemma or_three: "unat (x OR 3 :: u32) = 4 * (unat x div 4) + 3"
proof -
  have "n OR 3 = 4 * (n div 4) + 3" for n :: nat
    using or_rec [of n 3] or_rec [of "n div 2" 1] by (simp add: div_mult2_eq [of n 2 2, simplified])
  then show ?thesis by (simp add: unsigned_or_eq)
qed

definition civil :: "nat \<Rightarrow> date" where
  "civil D =
     (let a = dates_day D; md = 2141 * a + 197913; jan = (if a \<ge> 306 then 1 else 0)
      in (int (dates_year D) - 292277022400 + int jan, md div 65536 - 12 * jan, md mod 65536 div 2141 + 1))"

lemma sint_range: "- (2 ^ 63) \<le> k \<Longrightarrow> k < 2 ^ 63 \<Longrightarrow> sint (word_of_int k :: u64) = k"
  by transfer (simp add: signed_take_bit_int_eq_self)

lemma absDaysToDate_civil:
  assumes "4 * unat days + 3 < 2 ^ 64"
  shows "(case absDaysToDate days of (y, m, d) \<Rightarrow> (y, unat m, unat d)) = civil (unat days)"
proof -
  let ?D = "unat days"
  let ?c = "(4 * ?D + 3) div 146097" and ?m = "(4 * ?D + 3) mod 146097 div 4"
  define cd where "cd = (ucast ((4 * days + 3) mod 146097) :: u32) OR 3"
  define a where "a = snd (mul32 2939745 cd) div 2939745 div 4"
  have d: "unat (4 * days + 3) = 4 * ?D + 3" using assms by (simp add: unat_word_ariths)
  have r: "unat (ucast ((4 * days + 3) mod 146097) :: u32) = (4 * ?D + 3) mod 146097"
    using d by (simp add: unsigned_ucast_eq unat_mod take_bit_nat_eq_self)
  have cd: "unat cd = 4 * ?m + 3" unfolding cd_def or_three r ..
  have m: "?m \<le> 36524" by linarith
  then have cdb: "unat cd < 146100" unfolding cd by linarith
  have p: "unat (2939745 * ucast cd :: u64) = 2939745 * unat cd"
    using cdb by (simp add: unat_word_ariths)
  have q: "unat cd div 1461 < 100" using cdb by (simp add: div_less_iff_less_mult)
  have hi: "unat (fst (mul32 2939745 cd)) = unat cd div 1461"
    using year_split(1) [OF cdb] q
    by (simp add: mul32_def Let_def unsigned_ucast_eq drop_bit_eq_div unat_div p take_bit_nat_eq_self)
  have lo: "unat a = dates_day ?D"
    using year_split(2) [OF cdb] unfolding a_def dates_day_def
    by (simp add: mul32_def Let_def unsigned_ucast_eq take_bit_eq_mod p unat_div cd)
  have al: "unat a \<le> 365" unfolding lo by (rule day_of_dates)
  have md: "unat (2141 * a + 197913) = 2141 * unat a + 197913" using al by (simp add: unat_word_ariths)
  have dd: "unat ((2141 * a + 197913) AND 0xFFFF) = (2141 * unat a + 197913) mod 65536"
    using take_bit_eq_mask [of 16 "2141 * unat a + 197913"]
    by (simp add: unsigned_and_eq md take_bit_eq_mod mask_eq_exp_minus_1)
  have "(2141 * unat a + 197913) mod 65536 div 2141 \<le> 30" by linarith
  then have dy: "unat (((2141 * a + 197913) AND 0xFFFF) div 2141 + 1) = (2141 * unat a + 197913) mod 65536 div 2141 + 1"
    by (simp add: unat_word_ariths unat_div dd)
  have j: "306 \<le> a \<longleftrightarrow> 306 \<le> dates_day ?D" by (simp add: word_le_nat_alt lo)
  have sh: "unat (drop_bit 16 (2141 * a + 197913)) = (2141 * unat a + 197913) div 65536" by (simp add: drop_bit_eq_div unat_div md)
  have "12 \<le> (2141 * unat a + 197913) div 65536" if "306 \<le> a" using that by (simp add: word_le_nat_alt less_eq_div_iff_mult_less_eq)
  then have mo: "unat (drop_bit 16 (2141 * a + 197913) - (if 306 \<le> a then 1 else 0) * 12) =
      (2141 * unat a + 197913) div 65536 - 12 * (if 306 \<le> dates_day ?D then 1 else 0)"
    using j by (auto simp: unat_sub word_le_nat_alt sh)
  have yr: "sint ((4 * days + 3) div 146097 * 100 - 292277022400) = int (100 * ?c) - 292277022400"
  proof -
    have "?c < 200000000000000" using assms by (simp add: div_less_iff_less_mult)
    have "(4 * days + 3) div 146097 = (of_nat ?c :: u64)"
      using \<open>?c < _\<close> by (simp add: word_unat_eq_iff unat_div d unat_of_nat)
    then have "(4 * days + 3) div 146097 * 100 - 292277022400 = (word_of_int (int (100 * ?c) - 292277022400) :: u64)"
      by (simp add: mult.commute)
    then show ?thesis using sint_range [of "int (100 * ?c) - 292277022400"] \<open>?c < _\<close> by simp
  qed
  have yd: "dates_year ?D = 100 * ?c + unat cd div 1461" by (simp add: dates_year_def Let_def cd)
  have "absDaysToDate days =
      (sint ((4 * days + 3) div 146097 * 100 - 292277022400) + int (unat (fst (mul32 2939745 cd))) + int (unat (if 306 \<le> a then 1 else 0 :: u32)),
       drop_bit 16 (2141 * a + 197913) - (if 306 \<le> a then 1 else 0) * 12, ((2141 * a + 197913) AND 0xFFFF) div 2141 + 1)"
    unfolding absDaysToDate_def Let_def cd_def [symmetric] a_def marchThruDecember_def absoluteYears_def
    by (simp add: case_prod_beta)
  then show ?thesis
    by (simp only: prod.case yr hi mo dy civil_def Let_def lo yd) (simp add: j)
qed

section \<open>Consecutive days\<close>

definition month_day :: "int \<Rightarrow> int \<times> int" where
  "month_day a = (let md = 2141 * a + 197913 in (md div 65536, md mod 65536 div 2141 + 1))"

definition table_length :: "int \<Rightarrow> int" where
  "table_length m = (if m = 4 \<or> m = 6 \<or> m = 9 \<or> m = 11 then 30 else if m = 14 then 29 else 31)"

definition table_ok :: "int \<Rightarrow> int \<times> int \<Rightarrow> int \<times> int \<Rightarrow> bool" where
  "table_ok a x y \<longleftrightarrow>
     (snd x < table_length (fst x) \<longrightarrow> y = (fst x, snd x + 1)) \<and>
     (\<not> snd x < table_length (fst x) \<longrightarrow> y = (fst x + 1, 1) \<and> snd x = table_length (fst x)) \<and>
     3 \<le> fst x \<and> fst x \<le> 14 \<and> (fst x \<le> 12 \<longleftrightarrow> a < 306) \<and> (fst x = 14 \<longleftrightarrow> 337 \<le> a) \<and> (a < 364 \<longrightarrow> fst x = 14 \<longrightarrow> snd x < 28)"

text \<open>Month \<open>m\<close> begins at day \<open>s\<close> of the year.\<close>

lemma month_at:
  assumes "2141 * s + 197913 = 65536 * m + e" "0 \<le> e" "e < 2141" "0 \<le> k" "2141 * k + e < 65536"
  shows "month_day (s + k) = (m, k + 1)"
proof -
  have e: "2141 * (s + k) + 197913 = (2141 * k + e) + 65536 * m" using assms(1) by simp
  have "(2141 * k + e) div 2141 = k" using assms(2,3) by simp
  moreover have "((2141 * k + e) + 65536 * m) div 65536 = m" "((2141 * k + e) + 65536 * m) mod 65536 = 2141 * k + e"
    using assms(2,4,5) by (simp_all add: mod_pos_pos_trivial)
  ultimately show ?thesis unfolding month_day_def Let_def e by simp
qed

lemma months:
  shows "0 \<le> a \<Longrightarrow> a < 31 \<Longrightarrow> month_day a = (3, a + 1)"
    "31 \<le> a \<Longrightarrow> a < 61 \<Longrightarrow> month_day a = (4, a - 30)"
    "61 \<le> a \<Longrightarrow> a < 92 \<Longrightarrow> month_day a = (5, a - 60)"
    "92 \<le> a \<Longrightarrow> a < 122 \<Longrightarrow> month_day a = (6, a - 91)"
    "122 \<le> a \<Longrightarrow> a < 153 \<Longrightarrow> month_day a = (7, a - 121)"
    "153 \<le> a \<Longrightarrow> a < 184 \<Longrightarrow> month_day a = (8, a - 152)"
    "184 \<le> a \<Longrightarrow> a < 214 \<Longrightarrow> month_day a = (9, a - 183)"
    "214 \<le> a \<Longrightarrow> a < 245 \<Longrightarrow> month_day a = (10, a - 213)"
    "245 \<le> a \<Longrightarrow> a < 275 \<Longrightarrow> month_day a = (11, a - 244)"
    "275 \<le> a \<Longrightarrow> a < 306 \<Longrightarrow> month_day a = (12, a - 274)"
    "306 \<le> a \<Longrightarrow> a < 337 \<Longrightarrow> month_day a = (13, a - 305)"
    "337 \<le> a \<Longrightarrow> a < 366 \<Longrightarrow> month_day a = (14, a - 336)"
proof -
  show "0 \<le> a \<Longrightarrow> a < 31 \<Longrightarrow> month_day a = (3, a + 1)"
    using month_at [of 0 3 1305 "a - 0"] by simp
  show "31 \<le> a \<Longrightarrow> a < 61 \<Longrightarrow> month_day a = (4, a - 30)"
    using month_at [of 31 4 2140 "a - 31"] by simp
  show "61 \<le> a \<Longrightarrow> a < 92 \<Longrightarrow> month_day a = (5, a - 60)"
    using month_at [of 61 5 834 "a - 61"] by simp
  show "92 \<le> a \<Longrightarrow> a < 122 \<Longrightarrow> month_day a = (6, a - 91)"
    using month_at [of 92 6 1669 "a - 92"] by simp
  show "122 \<le> a \<Longrightarrow> a < 153 \<Longrightarrow> month_day a = (7, a - 121)"
    using month_at [of 122 7 363 "a - 122"] by simp
  show "153 \<le> a \<Longrightarrow> a < 184 \<Longrightarrow> month_day a = (8, a - 152)"
    using month_at [of 153 8 1198 "a - 153"] by simp
  show "184 \<le> a \<Longrightarrow> a < 214 \<Longrightarrow> month_day a = (9, a - 183)"
    using month_at [of 184 9 2033 "a - 184"] by simp
  show "214 \<le> a \<Longrightarrow> a < 245 \<Longrightarrow> month_day a = (10, a - 213)"
    using month_at [of 214 10 727 "a - 214"] by simp
  show "245 \<le> a \<Longrightarrow> a < 275 \<Longrightarrow> month_day a = (11, a - 244)"
    using month_at [of 245 11 1562 "a - 245"] by simp
  show "275 \<le> a \<Longrightarrow> a < 306 \<Longrightarrow> month_day a = (12, a - 274)"
    using month_at [of 275 12 256 "a - 275"] by simp
  show "306 \<le> a \<Longrightarrow> a < 337 \<Longrightarrow> month_day a = (13, a - 305)"
    using month_at [of 306 13 1091 "a - 306"] by simp
  show "337 \<le> a \<Longrightarrow> a < 366 \<Longrightarrow> month_day a = (14, a - 336)"
    using month_at [of 337 14 1926 "a - 337"] by simp
qed

lemma month_table:
  assumes "0 \<le> a" "a < 365"
  shows "table_ok a (month_day a) (month_day (a + 1))"
proof -
  have "(0 \<le> a \<and> a < 30) \<or> a = 30 \<or> (31 \<le> a \<and> a < 60) \<or> a = 60 \<or> (61 \<le> a \<and> a < 91) \<or> a = 91
      \<or> (92 \<le> a \<and> a < 121) \<or> a = 121 \<or> (122 \<le> a \<and> a < 152) \<or> a = 152 \<or> (153 \<le> a \<and> a < 183) \<or> a = 183
      \<or> (184 \<le> a \<and> a < 213) \<or> a = 213 \<or> (214 \<le> a \<and> a < 244) \<or> a = 244 \<or> (245 \<le> a \<and> a < 274) \<or> a = 274
      \<or> (275 \<le> a \<and> a < 305) \<or> a = 305 \<or> (306 \<le> a \<and> a < 336) \<or> a = 336 \<or> (337 \<le> a \<and> a < 364) \<or> a = 364"
    using assms by presburger
  then show ?thesis by (elim disjE conjE) (simp_all add: table_ok_def table_length_def months)
qed

lemma month_ends: "month_day 0 = (3, 1)" "month_day 305 = (12, 31)" "month_day 364 = (14, 28)" "month_day 365 = (14, 29)"
  by (simp_all add: month_day_def)

lemma leap_shift: "leap (y - 292277022400) = leap y"
proof -
  have "k dvd y - 292277022400 \<longleftrightarrow> k dvd y" if "k dvd 292277022400" for k using that by (metis diff_add_cancel dvd_add dvd_diff)
  then show ?thesis by (simp add: leap_def)
qed

lemma month_of:
  assumes "month_day (int a) = (m, d)"
  shows "m = int ((2141 * a + 197913) div 65536)" "d = int ((2141 * a + 197913) mod 65536 div 2141 + 1)"
  using assms by (auto simp: month_day_def Let_def of_nat_div of_nat_mod)

lemma month_step: "a < 365 \<Longrightarrow> table_ok (int a) (month_day (int a)) (month_day (int a + 1))"
  using month_table [of "int a"] by simp

definition month_date :: "int \<Rightarrow> nat \<Rightarrow> date" where
  "month_date y a = (case month_day (int a) of (m, d) \<Rightarrow> if 306 \<le> a then (y + 1, nat m - 12, nat d) else (y, nat m, nat d))"

lemma civil_month: "civil D = month_date (int (dates_year D) - 292277022400) (dates_day D)"
proof -
  obtain m d where md: "month_day (int (dates_day D)) = (m, d)" by fastforce
  show ?thesis using month_of [OF md] by (simp add: civil_def month_date_def md Let_def)
qed

lemma month_date_next:
  assumes a: "a + 1 < 365 + (if leap (y + 1) then 1 else 0)"
  shows "month_date y (a + 1) = next_day (month_date y a)"
proof -
  have l: "a < 365" using a by (auto split: if_splits)
  obtain m d where md: "month_day (int a) = (m, d)" by fastforce
  obtain m' d' where md': "month_day (int a + 1) = (m', d')" by fastforce
  have t: "d < table_length m \<Longrightarrow> m' = m \<and> d' = d + 1" "\<not> d < table_length m \<Longrightarrow> m' = m + 1 \<and> d' = 1 \<and> d = table_length m"
    "3 \<le> m" "m \<le> 14" "m \<le> 12 \<longleftrightarrow> a < 306" "m = 14 \<longleftrightarrow> 337 \<le> a" "a < 364 \<Longrightarrow> m = 14 \<Longrightarrow> d < 28"
    using month_step [OF l] by (auto simp: table_ok_def md md')
  have next_month: "m' \<le> 12 \<longleftrightarrow> a + 1 < 306"
  proof (cases "a + 1 < 365")
    case True
    then show ?thesis using month_step [OF True] md' by (auto simp: table_ok_def add.commute)
  next
    case False
    then have "a = 364" using l by simp
    then show ?thesis using md' by (simp add: month_ends)
  qed
  have feb: "m = 14 \<Longrightarrow> d < (if leap (y + 1) then 29 else 28)"
  proof (cases "a < 364")
    case True
    then show "m = 14 \<Longrightarrow> ?thesis" using t(7) by simp
  next
    case False
    then have "a = 364" "leap (y + 1)" using l a by (auto split: if_splits)
    then show ?thesis using md by (simp add: month_ends)
  qed
  have mm: "month_day (1 + int a) = (m', d')" using md' by (simp add: add.commute)
  have pos: "1 \<le> d" using month_of(2) [OF md] by simp
  consider "m \<le> 11" | "m = 12" | "m = 13" | "m = 14" using t(3,4) by linarith
  then show ?thesis
  proof cases
    case 1
    then have tl: "table_length m = int (month_length y (nat m))" using t(3) by (auto simp: table_length_def month_length_def)
    show ?thesis using 1 t(1,2,3,5) next_month tl pos by (cases "d < table_length m") (auto simp: month_date_def md mm nat_add_distrib)
  next
    case 2
    then have tl: "table_length m = 31" "month_length y (nat m) = 31" by (auto simp: table_length_def month_length_def)
    show ?thesis using 2 t(1,2,5) next_month tl pos by (cases "d < table_length m") (auto simp: month_date_def md mm nat_add_distrib)
  next
    case 3
    then have tl: "table_length m = 31" "month_length (y + 1) 1 = 31" by (auto simp: table_length_def month_length_def)
    show ?thesis using 3 t(1,2,5) next_month tl pos by (cases "d < table_length m") (auto simp: month_date_def md mm nat_add_distrib)
  next
    case 4
    then have tl: "table_length m = 29" "month_length (y + 1) 2 = (if leap (y + 1) then 29 else 28)" by (auto simp: table_length_def month_length_def)
    then have "d < table_length m" using feb 4 by (auto split: if_splits)
    then show ?thesis using 4 t(1,5) next_month tl pos feb by (auto simp: month_date_def md mm nat_add_distrib split: if_splits)
  qed
qed

lemma month_date_year:
  assumes "a + 1 = 365 + (if leap (y + 1) then 1 else 0)"
  shows "month_date (y + 1) 0 = next_day (month_date y a)"
  using assms by (auto simp: month_date_def month_ends month_length_def split: if_splits)

lemma civil_next: "civil (Suc D) = next_day (civil D)"
proof -
  let ?y = "int (dates_year D) - 292277022400"
  have l: "leap (?y + 1) = leap (int (Suc (dates_year D)))" using leap_shift [of "int (dates_year D) + 1"] by (simp add: algebra_simps)
  let ?len = "365 + (if leap (?y + 1) then 1 else 0 :: nat)"
  have n: "if dates_day D + 1 < ?len then dates_year (Suc D) = dates_year D \<and> dates_day (Suc D) = dates_day D + 1
      else dates_year (Suc D) = Suc (dates_year D) \<and> dates_day (Suc D) = 0"
    using day_of_next [OF day_of_dates(1) day_of_dates(1), of D] by (simp only: l)
  have last_day: "dates_day D + 1 \<le> ?len"
    using day_of_dates(1) [of D] unfolding day_of_def march_first_Suc l by linarith
  show ?thesis
  proof (cases "dates_day D + 1 < ?len")
    case True
    then show ?thesis using n month_date_next [OF True] by (simp add: civil_month)
  next
    case False
    then have "dates_day D + 1 = ?len" using last_day by simp
    from month_date_year [OF this] show ?thesis using n False by (simp add: civil_month algebra_simps)
  qed
qed

section \<open>Dates of the Unix era\<close>

definition unix_day :: u64 where
  "unix_day = word_of_int (unixToAbsolute div secondsPerDay)"

definition calendar_date :: "u64 \<Rightarrow> date" where
  "calendar_date days = (case absDaysToDate days of (y, m, d) \<Rightarrow> (y, unat m, unat d))"

lemma unix_day_val: "unix_day = 106751991073400"
  by (simp add: unix_day_def unixToAbsolute_def unixToInternal_def absoluteToInternal_def absoluteYears_def
      marchThruDecember_def secondsPerDay_def)

lemma unix_day_civil: "civil 106751991073400 = (1970, 1, 1)"
  by (simp add: civil_def dates_year_def dates_day_def)

lemma calendar_unix: "calendar_date unix_day = (1970, 1, 1)"
  using absDaysToDate_civil [of unix_day] by (simp add: calendar_date_def unix_day_val unix_day_civil)

text \<open>C25. \<^verbatim>\<open>absDaysToDate\<close> is the Gregorian calendar: the day of the Unix epoch is the first of January 1970, and the
  successor of every day below the wrap-around of the 64-bit arithmetic is its calendar successor, leap years, centuries
  and month lengths included.\<close>

theorem absDaysToDate_calendar:
  assumes "4 * (unat days + 1) + 3 < 2 ^ 64"
  shows "calendar_date unix_day = (1970, 1, 1) \<and> calendar_date (days + 1) = next_day (calendar_date days)"
proof -
  have "unat (days + 1) = Suc (unat days)" using assms by (simp add: unat_word_ariths)
  then show ?thesis
    using assms absDaysToDate_civil [of days] absDaysToDate_civil [of "days + 1"] calendar_unix
    by (simp add: calendar_date_def civil_next del: next_day.simps)
qed

lemma absDaysToDate_calendar_witness: "calendar_date (unix_day + 1) = (1970, 1, 2)"
  using absDaysToDate_calendar [of unix_day] by (simp add: unix_day_val month_length_def)

end
