(* ===== verification/TimeTextCorrect.thy ===== *)
theory TimeTextCorrect
  imports CalendarCorrect
begin

text \<open>
  \<^verbatim>\<open>AppendTime\<close> writes the RFC 3339 form of its argument, and the prefix memo of \<^verbatim>\<open>AppendTimeCached\<close> does not change it.
\<close>

section \<open>The date and clock prefix\<close>

definition prefix_text :: "nat \<Rightarrow> nat \<Rightarrow> nat \<Rightarrow> nat \<Rightarrow> nat \<Rightarrow> nat \<Rightarrow> bytes" where
  "prefix_text year month day hour minute second =
     0x22 # fixed_digits 4 year @ 0x2D # fixed_digits 2 month @ 0x2D # fixed_digits 2 day @
     0x54 # fixed_digits 2 hour @ 0x3A # fixed_digits 2 minute @ 0x3A # fixed_digits 2 second"

lemma list4: "length xs = 4 \<Longrightarrow> \<exists>a b c d. xs = [a, b, c, d]" and list2: "length ys = 2 \<Longrightarrow> \<exists>a b. ys = [a, b]"
  by (auto simp: numeral_eq_Suc length_Suc_conv)

lemma split_low: "r < n \<Longrightarrow> (q * n + r) div n = q \<and> (q * n + r) mod n = (r :: nat)"
  by simp

lemma date_digits:
  "unat y < 10000 \<Longrightarrow> unat m < 100 \<Longrightarrow> unat d < 100 \<Longrightarrow>
   Store8Digits (ucast (y :: u32) * 10000 + ucast (m :: u32) * 100 + ucast (d :: u32)) =
     fixed_digits 4 (unat y) @ fixed_digits 2 (unat m) @ fixed_digits 2 (unat d)"
proof -
  assume b: "unat y < 10000" "unat m < 100" "unat d < 100"
  let ?v = "unat y * 10000 + unat m * 100 + unat d"
  have v: "unat (ucast y * 10000 + ucast m * 100 + ucast d :: u64) = ?v" using b by (simp add: unat_word_ariths)
  have "fixed_digits 8 ?v = fixed_digits 4 (?v div 10000) @ fixed_digits 4 (?v mod 10000)" using fixed_digits_split [of 4 4 ?v] by simp
  moreover have "?v div 10000 = unat y" "?v mod 10000 = unat m * 100 + unat d"
    using split_low [of "unat m * 100 + unat d" 10000 "unat y"] b by (simp_all add: add.assoc)
  moreover have "fixed_digits 4 (unat m * 100 + unat d) = fixed_digits 2 (unat m) @ fixed_digits 2 (unat d)"
    using fixed_digits_split [of 2 2 "unat m * 100 + unat d"] b by simp
  ultimately show ?thesis using Store8Digits_eq [of "ucast y * 10000 + ucast m * 100 + ucast d"] b unfolding v by simp
qed

lemma clock_digits:
  "unat h < 100 \<Longrightarrow> unat m < 100 \<Longrightarrow> unat s < 100 \<Longrightarrow>
   Store8Digits (ucast (h :: u32) * 1000000 + ucast (m :: u32) * 10000 + ucast (s :: u32) * 100) =
     fixed_digits 2 (unat h) @ fixed_digits 2 (unat m) @ fixed_digits 2 (unat s) @ fixed_digits 2 0"
proof -
  assume b: "unat h < 100" "unat m < 100" "unat s < 100"
  let ?v = "unat h * 1000000 + unat m * 10000 + unat s * 100"
  have v: "unat (ucast h * 1000000 + ucast m * 10000 + ucast s * 100 :: u64) = ?v" using b by (simp add: unat_word_ariths)
  have "fixed_digits 8 ?v = fixed_digits 4 (?v div 10000) @ fixed_digits 4 (?v mod 10000)" using fixed_digits_split [of 4 4 ?v] by simp
  moreover have "?v div 10000 = unat h * 100 + unat m" "?v mod 10000 = unat s * 100"
    using split_low [of "unat s * 100" 10000 "unat h * 100 + unat m"] b by (simp_all add: algebra_simps)
  moreover have "fixed_digits 4 (unat h * 100 + unat m) = fixed_digits 2 (unat h) @ fixed_digits 2 (unat m)"
    "fixed_digits 4 (unat s * 100) = fixed_digits 2 (unat s) @ fixed_digits 2 0"
    using fixed_digits_split [of 2 2 "unat h * 100 + unat m"] fixed_digits_split [of 2 2 "unat s * 100"] b by simp_all
  ultimately show ?thesis
    using Store8Digits_eq [of "ucast h * 1000000 + ucast m * 10000 + ucast s * 100"] b unfolding v by simp
qed

lemma storeDateTimeParts_text:
  assumes "unat y < 10000" "unat mo < 100" "unat d < 100" "unat h < 100" "unat mi < 100" "unat s < 100"
  shows "storeDateTimeParts y mo d h mi s = prefix_text (unat y) (unat mo) (unat d) (unat h) (unat mi) (unat s)"
proof -
  obtain a b c e where y: "fixed_digits 4 (unat y) = [a, b, c, e]" using list4 [of "fixed_digits 4 (unat y)"] by auto
  have two: "\<exists>p q. fixed_digits 2 n = [p, q]" for n using list2 [of "fixed_digits 2 n"] by simp
  obtain f g i j k l m n p q r t where x: "fixed_digits 2 (unat mo) = [f, g]" "fixed_digits 2 (unat d) = [i, j]"
    "fixed_digits 2 (unat h) = [k, l]" "fixed_digits 2 (unat mi) = [m, n]" "fixed_digits 2 (unat s) = [p, q]" "fixed_digits 2 0 = [r, t]"
    using two by metis
  show ?thesis
    unfolding storeDateTimeParts_def Let_def date_digits [OF assms(1-3)] clock_digits [OF assms(4-6)] y x prefix_text_def
    by (simp add: list_update_code)
qed

section \<open>The fraction and the zone\<close>

lemma stripFraction_correct:
  assumes "0 < n" "n < 10 ^ k"
  shows "\<exists>m j. stripFraction n k = (m, j) \<and> j \<le> k \<and> 0 < j \<and> m < 10 ^ j \<and> m mod 10 \<noteq> 0 \<and> n = m * 10 ^ (k - j)"
  using assms
proof (induction n k rule: stripFraction.induct)
  case (1 n k)
  show ?case
  proof (cases "n mod 10 = 0")
    case True
    obtain i where k: "k = Suc i" using 1(2,3) by (cases k) auto
    have n: "n = n div 10 * 10" using True by (simp add: mod_eq_0_iff_dvd dvd_div_mult_self)
    then have "0 < n div 10" "n div 10 < 10 ^ (k - 1)" using 1(2,3) k by (auto simp: div_less_iff_less_mult mult.commute)
    with 1 True obtain m j where mj: "stripFraction (n div 10) (k - 1) = (m, j)" "j \<le> k - 1" "0 < j" "m < 10 ^ j" "m mod 10 \<noteq> 0"
        "n div 10 = m * 10 ^ (k - 1 - j)" by auto
    have "k - j = Suc (k - 1 - j)" using mj(2) k by simp
    then have "n = m * 10 ^ (k - j)" using n mj(6) by simp
    moreover have "stripFraction n k = (m, j)" using True 1(2) mj(1) by (subst stripFraction.simps) simp
    ultimately show ?thesis using mj(2-5) by (auto intro: le_trans)
  next
    case False
    then have "0 < k" using 1(2,3) by (cases k) auto
    then show ?thesis using False 1(2,3) by (subst stripFraction.simps) auto
  qed
qed

definition fraction_text :: "nat \<Rightarrow> bytes" where
  "fraction_text n = (if n = 0 then [] else case stripFraction n 9 of (m, j) \<Rightarrow> 0x2E # fixed_digits j m)"

definition zone_text :: "int \<Rightarrow> bytes" where
  "zone_text offset =
     (if offset = 0 then [0x5A]
      else
        let z = nat \<bar>offset sdiv 60\<bar>
        in (if offset sdiv 60 < 0 then 0x2D else 0x2B) # fixed_digits 2 (z div 60) @ 0x3A # fixed_digits 2 (z mod 60))"

lemma fraction_length: "n < 10 ^ 9 \<Longrightarrow> length (fraction_text n) \<le> 10"
  using stripFraction_correct [of n 9] by (cases "n = 0") (auto simp: fraction_text_def)

lemma storeFraction_text:
  assumes "length p = timePrefixBytes" "length r = 17" "n < 10 ^ 9"
  shows "storeFraction (p @ r) n = (p @ fraction_text n @ drop (length (fraction_text n)) r, timePrefixBytes + length (fraction_text n))"
proof (cases "n = 0")
  case True
  then show ?thesis by (simp add: storeFraction_def fraction_text_def)
next
  case False
  obtain m j where mj: "stripFraction n 9 = (m, j)" "j \<le> 9" "0 < j" "m < 10 ^ j" using stripFraction_correct [of n 9] False assms(3) by auto
  obtain x r' where r: "r = x # r'" "length r' = 16" using assms(2) by (cases r) auto
  have dot: "(p @ x # r')[timePrefixBytes := 0x2E] = p @ 0x2E # r'" using assms(1) by (simp add: list_update_append)
  show ?thesis
  proof (cases "j = 9")
    case True
    obtain y r'' where r': "r' = y # r''" "length r'' = 15" using r(2) by (cases r') auto
    have "fixed_digits 9 m = fixed_digits 1 (m div 10 ^ 8) @ fixed_digits 8 (m mod 10 ^ 8)" using fixed_digits_split [of 1 8 m] by simp
    also have "fixed_digits 1 (m div 10 ^ 8) = [of_nat (m div 10 ^ 8) + 0x30]" using mj(4) True by (simp add: add.commute)
    finally have t: "fixed_digits 9 m = [of_nat (m div 10 ^ 8) + 0x30] @ fixed_digits 8 (m mod 10 ^ 8)" .
    have "unat (of_nat (m mod 100000000) :: u64) = m mod 100000000"
      using mod_less_divisor [of 100000000 m] by (intro unat_u64) linarith
    then have st: "Store8Digits (of_nat (m mod 100000000)) = fixed_digits 8 (m mod 10 ^ 8)"
      using Store8Digits_eq [of "of_nat (m mod 100000000)"] by simp
    have "put_bytes (length (p @ [0x2E, of_nat (m div 100000000) + 0x30])) (fixed_digits 8 (m mod 10 ^ 8))
        ((p @ [0x2E, of_nat (m div 100000000) + 0x30]) @ take 8 r'' @ drop 8 r'') =
        (p @ [0x2E, of_nat (m div 100000000) + 0x30]) @ fixed_digits 8 (m mod 10 ^ 8) @ drop 8 r''"
      using r'(2) by (intro put_mid) simp
    then show ?thesis
      using False True assms(1) r r'(1) st t mj(1) by (simp add: storeFraction_def fraction_text_def dot list_update_append)
  next
    case nf: False
    have "m < 10 ^ 8" using mj nf power_increasing [of j 8 "10 :: nat"] by simp
    then have u: "unat (of_nat m :: u64) = m" by (intro unat_u64) simp
    have "drop (8 - j) (Store8Digits (of_nat m)) = fixed_digits j m"
      using Store8Digits_eq [of "of_nat m"] u \<open>m < 10 ^ 8\<close> fixed_digits_split [of "8 - j" j m] fixed_digits_mod [of j m] mj nf by simp
    moreover have "put_bytes (length (p @ [0x2E])) (fixed_digits j m) ((p @ [0x2E]) @ take j r' @ drop j r') = (p @ [0x2E]) @ fixed_digits j m @ drop j r'"
      using r(2) mj(2) by (intro put_mid) simp
    ultimately show ?thesis using False nf assms(1) r mj(1) by (simp add: storeFraction_def fraction_text_def dot)
  qed
qed

lemma digit_sum: "q < 10 \<Longrightarrow> (of_nat q + 0x30 :: byte) = of_nat (48 + q)"
  by (simp add: add.commute)

lemma storeZone_text:
  assumes "length r \<ge> 6" "\<not> badZone (offset sdiv 60)"
  shows "storeZone (q @ r) (length q) offset (offset sdiv 60) =
    (q @ zone_text offset @ drop (length (zone_text offset)) r, length q + length (zone_text offset))"
proof -
  obtain a b c d e f r' where r: "r = a # b # c # d # e # f # r'"
    using assms(1) by (auto simp: numeral_eq_Suc Suc_le_length_iff)
  define z where "z = nat \<bar>offset sdiv 60\<bar>"
  have z: "z < 1440" using assms(2) by (auto simp: z_def badZone_def)
  have h: "fixed_digits 2 (z div 60) = [of_nat (z div 600) + 0x30, of_nat (z div 60 mod 10) + 0x30]"
  proof -
    have "z div 60 < 100" "z div 60 div 10 = z div 600" using z by (auto simp: div_mult2_eq [of z 60 10, simplified])
    then show ?thesis using fixed_two [of "z div 60"] by (simp add: add.commute)
  qed
  have m: "fixed_digits 2 (z mod 60) = [of_nat (z div 10 mod 6) + 0x30, of_nat (z mod 10) + 0x30]"
  proof -
    have "z mod 60 div 10 = z div 10 mod 6" "z mod 60 mod 10 = z mod 10"
      using mod_mult2_eq [of z 10 6] by simp_all
    then show ?thesis using fixed_two [of "z mod 60"] by (simp add: add.commute less_trans [OF mod_less_divisor])
  qed
  have zt: "zone_text offset = (if offset = 0 then [0x5A]
      else (if offset sdiv 60 < 0 then 0x2D else 0x2B) # [of_nat (z div 600) + 0x30, of_nat (z div 60 mod 10) + 0x30] @ 0x3A #
        [of_nat (z div 10 mod 6) + 0x30, of_nat (z mod 10) + 0x30])"
    unfolding zone_text_def Let_def z_def [symmetric] h m ..
  have nz: "nat (- (offset sdiv 60)) = z" if "offset sdiv 60 < 0" using that by (simp add: z_def)
  have pz: "nat (offset sdiv 60) = z" if "\<not> offset sdiv 60 < 0" using that by (simp add: z_def)
  show ?thesis
    unfolding zt storeZone_def r Let_def
    by (cases "offset sdiv 60 < 0") (simp_all add: nz pz list_update_append)
qed

lemma zone_length: "length (zone_text offset) \<le> 6"
  by (simp add: zone_text_def Let_def)

lemma finishTime_text:
  assumes "length prefix = timePrefixBytes" "tv_nanosecond v < 10 ^ 9" "\<not> badZone (zoneMinutes v)"
  shows "finishTime dst spare prefix v (zoneMinutes v) =
    dst @ prefix @ fraction_text (tv_nanosecond v) @ zone_text (tv_offset v) @ [0x22]"
proof -
  let ?out = "take maxTimeBytes (spare @ replicate (maxTimeBytes - length spare) 0)"
  let ?f = "fraction_text (tv_nanosecond v)" and ?z = "zone_text (tv_offset v)"
  obtain p r where pr: "?out = p @ r" "length p = timePrefixBytes" "length r = 17"
  proof
    show "?out = take timePrefixBytes ?out @ drop timePrefixBytes ?out" by (rule append_take_drop_id [symmetric])
  qed (auto simp: timePrefixBytes_def maxTimeBytes_def)
  have put: "put_bytes 0 prefix ?out = prefix @ r" using pr assms(1) by (simp add: put_bytes_def)
  define r1 where "r1 = drop (length ?f) r"
  have f: "storeFraction (prefix @ r) (tv_nanosecond v) = ((prefix @ ?f) @ r1, length (prefix @ ?f))"
    using storeFraction_text [OF assms(1) pr(3) assms(2)] assms(1) by (simp add: r1_def)
  have l1: "7 \<le> length r1" using fraction_length [OF assms(2)] pr(3) by (simp add: r1_def)
  define r2 where "r2 = drop (length ?z) r1"
  have z: "storeZone ((prefix @ ?f) @ r1) (length (prefix @ ?f)) (tv_offset v) (zoneMinutes v) =
      ((prefix @ ?f @ ?z) @ r2, length (prefix @ ?f @ ?z))"
    using storeZone_text [of r1 "tv_offset v" "prefix @ ?f"] l1 assms(3) by (simp add: zoneMinutes_def r2_def)
  have "r2 \<noteq> []" using l1 zone_length [of "tv_offset v"] by (simp add: r2_def)
  then obtain c r3 where r3: "r2 = c # r3" by (cases r2) auto
  have "((prefix @ ?f @ ?z) @ r2)[length (prefix @ ?f @ ?z) := 0x22] = (prefix @ ?f @ ?z) @ 0x22 # r3"
    unfolding r3 by (simp add: list_update_append)
  then show ?thesis unfolding finishTime_def appendTimeTail_def Let_def put f z prod.case by simp
qed

section \<open>One second\<close>

definition second_prefix :: "u64 \<Rightarrow> bytes" where
  "second_prefix s =
     (let clock = (ucast (s mod 86400) :: u32) in
      case absDaysToDate (s div 86400) of
        (year, month, day) \<Rightarrow>
          storeDateTimeParts (word_of_int year) month day (clock div 3600) (clock div 60 mod 60) (clock mod 60))"

definition year_ok :: "u64 \<Rightarrow> bool" where
  "year_ok s \<longleftrightarrow> 0 \<le> fst (absDaysToDate (s div 86400)) \<and> fst (absDaysToDate (s div 86400)) < 10000"

lemma appendTimeDate_eq:
  "appendTimeDate dst spare v cache =
     (if \<not> year_ok (absSecond v) then (Inl errTimeYear, cache)
      else if badZone (zoneMinutes v) then (Inl errTimeZone, cache)
      else (Inr (finishTime dst spare (second_prefix (absSecond v)) v (zoneMinutes v)),
            map_option (\<lambda>c. c\<lparr>tc_absSec := absSecond v, tc_days := absSecond v div 86400, tc_prefix := second_prefix (absSecond v),
                                tc_state := timeCachePrefix OR timeCacheDate\<rparr>) cache))"
  by (auto simp: appendTimeDate_def second_prefix_def year_ok_def Let_def split: prod.split)

lemma calendar_range:
  assumes "absDaysToDate (s div 86400) = (y, m, d)"
  shows "unat m < 100" "unat d < 100"
proof -
  let ?D = "unat (s div 86400)"
  have "unat s div 86400 \<le> 18446744073709551616 div 86400" using u64_bound [of s] by (intro div_le_mono) simp
  then have "4 * ?D + 3 < 2 ^ 64" by (simp add: unat_div)
  from absDaysToDate_civil [OF this] have c: "(y, unat m, unat d) = civil ?D" by (simp add: assms)
  have b: "(2141 * dates_day ?D + 197913) div 65536 \<le> 14" using day_of_dates(2) [of ?D] by linarith
  have "(2141 * dates_day ?D + 197913) mod 65536 div 2141 \<le> 30" by linarith
  then show "unat m < 100" "unat d < 100" using c b by (auto simp: civil_def Let_def)
qed

lemma clock_parts:
  fixes s :: u64
  defines "clock \<equiv> (ucast (s mod 86400) :: u32)" and "c \<equiv> unat s mod 86400"
  shows "unat (clock div 3600) = c div 3600" "unat (clock div 60 mod 60) = c div 60 mod 60" "unat (clock mod 60) = c mod 60"
    "c div 3600 < 100" "c div 60 mod 60 < 100" "c mod 60 < 100"
proof -
  have "unat clock = c" by (simp add: clock_def c_def unsigned_ucast_eq unat_mod take_bit_nat_eq_self)
  then show "unat (clock div 3600) = c div 3600" "unat (clock div 60 mod 60) = c div 60 mod 60" "unat (clock mod 60) = c mod 60"
    by (simp_all add: unat_div unat_mod)
  have "c < 86400" by (simp add: c_def)
  then show "c div 3600 < 100" "c div 60 mod 60 < 100" "c mod 60 < 100" by (auto simp: less_trans [OF mod_less_divisor])
qed

lemma second_prefix_text:
  assumes "year_ok s" "absDaysToDate (s div 86400) = (y, m, d)"
  shows "second_prefix s = prefix_text (nat y) (unat m) (unat d) (unat s mod 86400 div 3600) (unat s mod 86400 div 60 mod 60) (unat s mod 86400 mod 60)"
proof -
  have y: "0 \<le> y" "y < 10000" using assms by (auto simp: year_ok_def)
  then have u: "unat (word_of_int y :: u32) = nat y" by (simp add: unsigned_of_int take_bit_int_eq_self)
  have ny: "nat y < 10000" using y by simp
  note r = calendar_range [OF assms(2)] and c = clock_parts [of s]
  have "storeDateTimeParts (word_of_int y) m d (ucast (s mod 86400) div 3600) (ucast (s mod 86400) div 60 mod 60) (ucast (s mod 86400) mod 60) =
    prefix_text (unat (word_of_int y :: u32)) (unat m) (unat d) (unat (ucast (s mod 86400) div 3600 :: u32))
      (unat (ucast (s mod 86400) div 60 mod 60 :: u32)) (unat (ucast (s mod 86400) mod 60 :: u32))"
    by (rule storeDateTimeParts_text) (simp_all only: u ny r c)
  then show ?thesis by (simp only: second_prefix_def Let_def assms(2) prod.case u c)
qed

lemma clock_digit: "unat x < 100 \<Longrightarrow>
  [ucast (0x30 + x div 10 :: u32), ucast (0x30 + x mod 10 :: u32)] = (fixed_digits 2 (unat x) :: bytes)"
proof -
  assume x: "unat x < 100"
  have "ucast (0x30 + w :: u32) = (of_nat (48 + unat w) :: byte)" if "unat w < 10" for w
    using that by (simp add: word_unat_eq_iff unsigned_ucast_eq unat_word_ariths unat_of_nat take_bit_nat_eq_self)
  from this [of "x div 10"] this [of "x mod 10"] x show ?thesis
    using fixed_two [OF x] by (simp add: unat_div unat_mod)
qed

lemma clockPrefix_text:
  assumes "unat (clock div 3600) < 100" "unat (clock div 60 mod 60) < 100" "unat (clock mod 60) < 100"
  shows "clockPrefix (prefix_text y m d h i s) clock =
    prefix_text y m d (unat (clock div 3600)) (unat (clock div 60 mod 60)) (unat (clock mod 60))"
proof -
  obtain a b c e where y: "fixed_digits 4 y = [a, b, c, e]" using list4 [of "fixed_digits 4 y"] by auto
  have two: "\<exists>p q. fixed_digits 2 n = [p, q]" for n using list2 [of "fixed_digits 2 n"] by simp
  obtain f g j k l n p q r t where x: "fixed_digits 2 m = [f, g]" "fixed_digits 2 d = [j, k]"
    "fixed_digits 2 h = [l, n]" "fixed_digits 2 i = [p, q]" "fixed_digits 2 s = [r, t]" using two by metis
  show ?thesis
    unfolding clockPrefix_def Let_def prefix_text_def y x clock_digit [OF assms(1), symmetric] clock_digit [OF assms(2), symmetric]
      clock_digit [OF assms(3), symmetric]
    by simp
qed

section \<open>The memo\<close>

text \<open>A memo is empty or holds the prefix of the second it names, and the day of that second.\<close>

definition cache_ok :: "TimeCache \<Rightarrow> bool" where
  "cache_ok c \<longleftrightarrow> tc_state c = 0 \<or>
     (tc_days c = tc_absSec c div 86400 \<and> year_ok (tc_absSec c) \<and> tc_prefix c = second_prefix (tc_absSec c))"

lemma cached_clock:
  assumes "year_ok s" "s div 86400 = s' div 86400"
  shows "year_ok s'" "clockPrefix (second_prefix s) (ucast (s' mod 86400)) = second_prefix s'"
proof -
  show y: "year_ok s'" using assms by (simp add: year_ok_def)
  obtain ye m d where d: "absDaysToDate (s div 86400) = (ye, m, d)" by (metis prod_cases3)
  note c = clock_parts [of s']
  show "clockPrefix (second_prefix s) (ucast (s' mod 86400)) = second_prefix s'"
    unfolding second_prefix_text [OF assms(1) d] second_prefix_text [OF y d [unfolded assms(2)]]
    by (rule clockPrefix_text [of "ucast (s' mod 86400)", unfolded c(1-3), OF c(4-6)])
qed

lemma AppendTimeCached_step:
  assumes "cache_ok c"
  shows "fst (AppendTimeCached dst spare v (Some c)) = AppendTime dst spare v \<and>
    (\<exists>c'. snd (AppendTimeCached dst spare v (Some c)) = Some c' \<and> cache_ok c')"
proof -
  let ?s = "absSecond v"
  have plain: "AppendTime dst spare v = fst (appendTimeDate dst spare v None)" by (simp add: AppendTime_def AppendTimeCached_def Let_def)
  have date: "fst (appendTimeDate dst spare v (Some c)) = AppendTime dst spare v \<and>
      (\<exists>c'. snd (appendTimeDate dst spare v (Some c)) = Some c' \<and> cache_ok c')"
    using assms by (auto simp: plain appendTimeDate_eq cache_ok_def)
  consider "tc_state c AND timeCachePrefix \<noteq> 0 \<and> tc_absSec c = ?s"
    | "\<not> (tc_state c AND timeCachePrefix \<noteq> 0 \<and> tc_absSec c = ?s)" "tc_state c AND timeCacheDate \<noteq> 0 \<and> tc_days c = ?s div 86400"
    | "\<not> (tc_state c AND timeCachePrefix \<noteq> 0 \<and> tc_absSec c = ?s)" "\<not> (tc_state c AND timeCacheDate \<noteq> 0 \<and> tc_days c = ?s div 86400)"
    by blast
  then show ?thesis
  proof cases
    case 1
    then have "year_ok ?s" "tc_prefix c = second_prefix ?s" using assms by (auto simp: cache_ok_def)
    then show ?thesis using 1 assms by (simp add: AppendTimeCached_def Let_def plain appendTimeDate_eq)
  next
    case 2
    then have k: "year_ok (tc_absSec c)" "tc_absSec c div 86400 = ?s div 86400" "tc_prefix c = second_prefix (tc_absSec c)"
      using assms by (auto simp: cache_ok_def)
    note n = cached_clock [OF k(1,2)]
    have e: "AppendTimeCached dst spare v (Some c) = (if badZone (zoneMinutes v) then (Inl errTimeZone, Some c)
        else (Inr (finishTime dst spare (second_prefix ?s) v (zoneMinutes v)),
          Some (c\<lparr>tc_absSec := ?s, tc_prefix := second_prefix ?s, tc_state := timeCachePrefix OR timeCacheDate\<rparr>)))"
      unfolding AppendTimeCached_def Let_def option.case if_not_P [OF 2(1)] if_P [OF 2(2)] k(3) n(2) ..
    have "cache_ok (c\<lparr>tc_absSec := ?s, tc_prefix := second_prefix ?s, tc_state := timeCachePrefix OR timeCacheDate\<rparr>)"
      using 2(2) n(1) by (simp add: cache_ok_def)
    then show ?thesis using n(1) assms unfolding e plain appendTimeDate_eq by auto
  next
    case 3
    have e: "AppendTimeCached dst spare v (Some c) = appendTimeDate dst spare v (Some c)"
      unfolding AppendTimeCached_def Let_def option.case if_not_P [OF 3(1)] if_not_P [OF 3(2)] ..
    show ?thesis unfolding e by (rule date)
  qed
qed

text \<open>A run of calls that share one memo, and the results of the calls without it.\<close>

fun appendAll :: "(bytes \<times> bytes \<times> timeValue) list \<Rightarrow> TimeCache option \<Rightarrow> (time_error + bytes) list" where
  "appendAll [] cache = []"
| "appendAll ((dst, spare, v) # cs) cache =
     (case AppendTimeCached dst spare v cache of (r, cache) \<Rightarrow> r # appendAll cs cache)"

lemma appendAll_cached: "cache_ok c \<Longrightarrow> appendAll cs (Some c) = map (\<lambda>(dst, spare, v). AppendTime dst spare v) cs"
proof (induction cs arbitrary: c)
  case (Cons x cs)
  obtain dst spare v where x: "x = (dst, spare, v)" by (metis prod_cases3)
  obtain r c' where e: "AppendTimeCached dst spare v (Some c) = (r, Some c')" "cache_ok c'" "r = AppendTime dst spare v"
    using AppendTimeCached_step [OF Cons.prems, of dst spare v] by (metis prod.collapse fst_conv)
  then show ?case using Cons.IH by (simp add: x)
qed simp

text \<open>C26. The prefix memo is invisible: whatever timestamps, zones and destinations a sequence of \<^verbatim>\<open>AppendTimeCached\<close> calls
  has, starting from the empty memo every call returns what \<^verbatim>\<open>AppendTime\<close> returns, errors included.\<close>

theorem time_cache_transparent:
  "appendAll cs (Some emptyTimeCache) = map (\<lambda>(dst, spare, v). AppendTime dst spare v) cs"
  by (rule appendAll_cached) (simp add: cache_ok_def emptyTimeCache_def)



end
