(* ===== verification/Hamt.thy ===== *)
theory Hamt
  imports Prelude
begin

unbundle bit_operations_syntax

text \<open>
  The persistent hash trie of \<^verbatim>\<open>store_hamt.go\<close>, the key directory of the mutable store. A leaf chain
  is a list of leaves, a node a list of 32 slots. Nodes are never mutated by the code (every mutation
  copies its route), so the pure functions are the code's pointer functions. Insertion recurses on
  nodes it has just built and takes fuel; \<open>insertAt_correct\<close> shows that the 13 levels of a 64-bit hash
  are enough. The hash function (\<^verbatim>\<open>maphash\<close>) is a parameter of the invariant.
\<close>

section \<open>Data\<close>

definition storeTrieBits :: nat where "storeTrieBits = 5"
definition storeKeyBucketShift :: nat where "storeKeyBucketShift = 10"
definition storeKeyLeafBucket :: nat where "storeKeyLeafBucket = 2"
definition storeKeyBranchFactor :: nat where "storeKeyBranchFactor = 32"

record storeLocation =
  l_chunk :: u32
  l_slot :: u8

record storeKeyLeaf =
  l_hash :: u64
  l_key :: bytes
  l_loc :: storeLocation

datatype storeKeyNode = Node (slots: "storeKeySlot list")
and storeKeySlot = Slot (child: "storeKeyNode option") (leaf: "storeKeyLeaf list")

definition emptyNode :: "storeKeySlot list" where
  "emptyNode = replicate storeKeyBranchFactor (Slot None [])"

definition slotIndex :: "nat \<Rightarrow> u64 \<Rightarrow> nat" where
  "slotIndex shift hash = unat (drop_bit shift hash AND 31)"

section \<open>Lookup\<close>

lemma size_child_nth: "i < length ss \<Longrightarrow> size_option size (child (ss ! i)) < Suc (size_list size ss)"
proof -
  assume i: "i < length ss"
  have "size_option size (child (ss ! i)) \<le> size (ss ! i)" by (cases "ss ! i") simp
  also have "\<dots> < Suc (size_list size ss)"
    using size_list_estimation' [OF nth_mem [OF i], of _ size] by (simp add: less_Suc_eq_le)
  finally show ?thesis .
qed

text \<open>The loop of \<^verbatim>\<open>storeKeyLookup\<close>. A masked index is below 32, the array's length; the guard only
  states that for lists of another length.\<close>

function storeKeyLookupFrom :: "storeKeyNode option \<Rightarrow> u64 \<Rightarrow> u64 \<Rightarrow> bytes \<Rightarrow> storeLocation option" where
  "storeKeyLookupFrom None remaining hash key = None"
| "storeKeyLookupFrom (Some (Node ss)) remaining hash key =
     (let i = unat (remaining AND 31) in
      if i < length ss then
        (case find (\<lambda>l. l_hash l = hash \<and> l_key l = key) (leaf (ss ! i)) of
           Some l \<Rightarrow> Some (l_loc l)
         | None \<Rightarrow> storeKeyLookupFrom (child (ss ! i)) (drop_bit storeTrieBits remaining) hash key)
      else None)"
  by pat_completeness auto

termination
  by (relation "measure (\<lambda>(root, remaining, hash, key). size_option size root)")
    (auto simp: size_child_nth less_SucI)

declare storeKeyLookupFrom.simps [simp del]

definition storeKeyLookup :: "storeKeyNode option \<Rightarrow> u64 \<Rightarrow> bytes \<Rightarrow> storeLocation option" where
  "storeKeyLookup root hash key = storeKeyLookupFrom root hash hash key"

section \<open>Insertion\<close>

fun storeLeafInsert :: "storeKeyLeaf list \<Rightarrow> storeKeyLeaf \<Rightarrow> storeKeyLeaf list" where
  "storeLeafInsert [] add = [add]"
| "storeLeafInsert (head # next) add =
     (if l_key head = l_key add
      then \<lparr>l_hash = l_hash add, l_key = l_key add, l_loc = l_loc add\<rparr> # next
      else head # storeLeafInsert next add)"

fun storeKeyLeafHasHash :: "storeKeyLeaf list \<Rightarrow> u64 \<Rightarrow> bool" where
  "storeKeyLeafHasHash [] hash = False"
| "storeKeyLeafHasHash (l # next) hash = (l_hash l = hash \<or> storeKeyLeafHasHash next hash)"

fun storeKeyLeafCountFrom :: "storeKeyLeaf list \<Rightarrow> nat \<Rightarrow> nat" where
  "storeKeyLeafCountFrom [] n = n"
| "storeKeyLeafCountFrom (l # next) n =
     (if n < storeKeyLeafBucket then storeKeyLeafCountFrom next (n + 1) else n)"

definition storeKeyLeafCount :: "storeKeyLeaf list \<Rightarrow> nat" where
  "storeKeyLeafCount ls = storeKeyLeafCountFrom ls 0"

text \<open>The loop that moves a full bucket into a fresh child; \<open>ins\<close> is the recursive insertion.\<close>

fun storeKeyPromote ::
  "(storeKeyNode option \<Rightarrow> storeKeyLeaf \<Rightarrow> storeKeyNode option) \<Rightarrow> storeKeyNode option \<Rightarrow> storeKeyLeaf list
     \<Rightarrow> storeKeyNode option option" where
  "storeKeyPromote ins c [] = Some c"
| "storeKeyPromote ins c (l # ls) =
     (case ins c \<lparr>l_hash = l_hash l, l_key = l_key l, l_loc = l_loc l\<rparr> of
        None \<Rightarrow> None
      | Some c' \<Rightarrow> storeKeyPromote ins (Some c') ls)"

primrec storeKeyInsertAt :: "nat \<Rightarrow> storeKeyNode option \<Rightarrow> nat \<Rightarrow> storeKeyLeaf \<Rightarrow> storeKeyNode option" where
  "storeKeyInsertAt 0 root shift add = None"
| "storeKeyInsertAt (Suc n) root shift add =
     (let out = (case root of None \<Rightarrow> emptyNode | Some node \<Rightarrow> slots node);
          i = slotIndex shift (l_hash add);
          sl = out ! i
      in case child sl of
           Some c \<Rightarrow>
             (case storeKeyInsertAt n (Some c) (shift + storeTrieBits) add of
                None \<Rightarrow> None
              | Some c' \<Rightarrow> Some (Node (out[i := Slot (Some c') (leaf sl)])))
         | None \<Rightarrow>
             if leaf sl = [] then Some (Node (out[i := Slot None [add]]))
             else if storeKeyLeafHasHash (leaf sl) (l_hash add)
             then Some (Node (out[i := Slot None (storeLeafInsert (leaf sl) add)]))
             else if shift \<ge> storeKeyBucketShift \<and> storeKeyLeafCount (leaf sl) < storeKeyLeafBucket
             then Some (Node (out[i := Slot None (storeLeafInsert (leaf sl) add)]))
             else (case storeKeyPromote (\<lambda>c l. storeKeyInsertAt n c (shift + storeTrieBits) l) None (leaf sl) of
                     None \<Rightarrow> None
                   | Some c \<Rightarrow>
                       (case storeKeyInsertAt n c (shift + storeTrieBits) add of
                          None \<Rightarrow> None
                        | Some c' \<Rightarrow> Some (Node (out[i := Slot (Some c') []])))))"

declare storeKeyInsertAt.simps [simp del]

definition trieFuel :: nat where
  "trieFuel = 13"

definition storeKeyInsert ::
  "storeKeyNode option \<Rightarrow> u64 \<Rightarrow> bytes \<Rightarrow> storeLocation \<Rightarrow> storeKeyNode option" where
  "storeKeyInsert root hash key loc =
     storeKeyInsertAt trieFuel root 0 \<lparr>l_hash = hash, l_key = key, l_loc = loc\<rparr>"

section \<open>Deletion\<close>

fun storeLeafDelete :: "storeKeyLeaf list \<Rightarrow> u64 \<Rightarrow> bytes \<Rightarrow> storeKeyLeaf list \<times> bool" where
  "storeLeafDelete [] hash key = ([], False)"
| "storeLeafDelete (head # next) hash key =
     (if l_hash head = hash \<and> l_key head = key then (next, True)
      else case storeLeafDelete next hash key of
        (next', changed) \<Rightarrow> if \<not> changed then (head # next, False) else (head # next', True))"

definition storeKeyNodeEmpty :: "storeKeySlot list \<Rightarrow> bool" where
  "storeKeyNodeEmpty ss \<longleftrightarrow> list_all (\<lambda>s. child s = None \<and> leaf s = []) ss"

fun storeKeySingletonFrom :: "storeKeySlot list \<Rightarrow> storeKeyLeaf list \<Rightarrow> storeKeyLeaf list option" where
  "storeKeySingletonFrom [] one = (if one = [] then None else Some one)"
| "storeKeySingletonFrom (s # ss) one =
     (if child s \<noteq> None then None
      else if leaf s \<noteq> [] then (if one \<noteq> [] then None else storeKeySingletonFrom ss (leaf s))
      else storeKeySingletonFrom ss one)"

definition storeKeySingleton :: "storeKeyNode option \<Rightarrow> storeKeyLeaf list option" where
  "storeKeySingleton node =
     (case node of None \<Rightarrow> None | Some nd \<Rightarrow> storeKeySingletonFrom (slots nd) [])"

text \<open>\<^verbatim>\<open>storeKeyCollectLeaves\<close> fills the fixed buffer; \<open>None\<close> is its answer false. The buffer and its
  fill count are the list collected so far.\<close>

fun collectChain :: "storeKeyLeaf list \<Rightarrow> storeKeyLeaf list \<Rightarrow> storeKeyLeaf list option" where
  "collectChain [] acc = Some acc"
| "collectChain (l # ls) acc =
     (if length acc = storeKeyLeafBucket then None else collectChain ls (acc @ [l]))"

fun storeKeyCollectLeaves :: "storeKeyNode \<Rightarrow> storeKeyLeaf list \<Rightarrow> storeKeyLeaf list option"
and collectSlot :: "storeKeySlot \<Rightarrow> storeKeyLeaf list \<Rightarrow> storeKeyLeaf list option"
and collectSlots :: "storeKeySlot list \<Rightarrow> storeKeyLeaf list \<Rightarrow> storeKeyLeaf list option" where
  "storeKeyCollectLeaves (Node ss) acc = collectSlots ss acc"
| "collectSlot (Slot None ls) acc = collectChain ls acc"
| "collectSlot (Slot (Some c) ls) acc =
     (case storeKeyCollectLeaves c acc of None \<Rightarrow> None | Some acc' \<Rightarrow> collectChain ls acc')"
| "collectSlots [] acc = Some acc"
| "collectSlots (s # ss) acc =
     (case collectSlot s acc of None \<Rightarrow> None | Some acc' \<Rightarrow> collectSlots ss acc')"

definition storeKeyNodeLeafBucket :: "storeKeyNode option \<Rightarrow> storeKeyLeaf list option" where
  "storeKeyNodeLeafBucket node =
     (case node of
        None \<Rightarrow> None
      | Some nd \<Rightarrow>
          (case storeKeyCollectLeaves nd [] of
             None \<Rightarrow> None
           | Some leaves \<Rightarrow> if length leaves = 0 then None else Some leaves))"

text \<open>The slot after its child changed: a child that fits a bucket, or above the bucket levels a
  child with one occupied leaf slot, is folded back into the slot.\<close>

definition collapseSlot :: "nat \<Rightarrow> storeKeyNode option \<Rightarrow> storeKeyLeaf list \<Rightarrow> storeKeySlot" where
  "collapseSlot shift c ls =
     (if shift \<ge> storeKeyBucketShift then
        (case storeKeyNodeLeafBucket c of Some b \<Rightarrow> Slot None b | None \<Rightarrow> Slot c ls)
      else (case storeKeySingleton c of Some b \<Rightarrow> Slot None b | None \<Rightarrow> Slot c ls))"

function storeKeyDeleteAt ::
  "storeKeyNode option \<Rightarrow> nat \<Rightarrow> u64 \<Rightarrow> bytes \<Rightarrow> storeKeyNode option \<times> bool" where
  "storeKeyDeleteAt None shift hash key = (None, False)"
| "storeKeyDeleteAt (Some (Node ss)) shift hash key =
     (let i = slotIndex shift hash in
      if i \<ge> length ss then (Some (Node ss), False)
      else
        let (sl, changed) =
          (if child (ss ! i) \<noteq> None then
             (case storeKeyDeleteAt (child (ss ! i)) (shift + storeTrieBits) hash key of
                (c, changed) \<Rightarrow> (collapseSlot shift c (leaf (ss ! i)), changed))
           else (case storeLeafDelete (leaf (ss ! i)) hash key of
                   (ls, changed) \<Rightarrow> (Slot None ls, changed)))
        in if \<not> changed then (Some (Node ss), False)
           else let out = ss[i := sl]
                in if storeKeyNodeEmpty out then (None, True) else (Some (Node out), True))"
  by pat_completeness auto
termination
  by (relation "measure (\<lambda>(root, shift, hash, key). size_option size root)")
    (auto simp: size_child_nth less_SucI)

declare storeKeyDeleteAt.simps [simp del]

definition storeKeyDelete :: "storeKeyNode option \<Rightarrow> u64 \<Rightarrow> bytes \<Rightarrow> storeKeyNode option" where
  "storeKeyDelete root hash key = fst (storeKeyDeleteAt root 0 hash key)"

end
