(* ===== verification/Directory.thy ===== *)
theory Directory
  imports Prelude
begin

text \<open>
  The contract of a key directory: an empty directory, lookup, insert-or-replace and removal, with the
  laws of a finite map. A client edits a directory by a script of edits; inside the locale every
  script is shown to act like the same script on a map.
\<close>

datatype ('k, 'v) edit = Put 'k 'v | Remove 'k

fun map_edit :: "('k, 'v) edit \<Rightarrow> ('k \<rightharpoonup> 'v) \<Rightarrow> ('k \<rightharpoonup> 'v)" where
  "map_edit (Put k v) m = m(k \<mapsto> v)"
| "map_edit (Remove k) m = m(k := None)"

fun dir_edit :: "('d \<Rightarrow> 'k \<Rightarrow> 'v \<Rightarrow> 'd) \<Rightarrow> ('d \<Rightarrow> 'k \<Rightarrow> 'd) \<Rightarrow> ('k, 'v) edit \<Rightarrow> 'd \<Rightarrow> 'd" where
  "dir_edit put remove (Put k v) d = put d k v"
| "dir_edit put remove (Remove k) d = remove d k"

locale key_directory =
  fixes lookup :: "'d \<Rightarrow> 'k \<Rightarrow> 'v option"
    and put :: "'d \<Rightarrow> 'k \<Rightarrow> 'v \<Rightarrow> 'd"
    and remove :: "'d \<Rightarrow> 'k \<Rightarrow> 'd"
    and inv :: "'d \<Rightarrow> bool"
  assumes inv_put: "inv d \<Longrightarrow> inv (put d k v)"
    and inv_remove: "inv d \<Longrightarrow> inv (remove d k)"
    and lookup_put: "inv d \<Longrightarrow> lookup (put d k v) k' = (if k' = k then Some v else lookup d k')"
    and lookup_remove: "inv d \<Longrightarrow> lookup (remove d k) k' = (if k' = k then None else lookup d k')"
begin

lemma inv_script: "inv d \<Longrightarrow> inv (fold (dir_edit put remove) es d)"
proof (induction es arbitrary: d)
  case (Cons e es)
  then show ?case by (cases e) (simp_all add: inv_put inv_remove)
qed simp

lemma lookup_edit: "inv d \<Longrightarrow> lookup (dir_edit put remove e d) = map_edit e (lookup d)"
  by (cases e) (auto simp: lookup_put lookup_remove)

lemma lookup_script: "inv d \<Longrightarrow> lookup (fold (dir_edit put remove) es d) = fold map_edit es (lookup d)"
proof (induction es arbitrary: d)
  case (Cons e es)
  have "inv (dir_edit put remove e d)" using inv_script [OF Cons.prems, of "[e]"] by simp
  then show ?case using Cons.IH lookup_edit [OF Cons.prems] by simp
qed simp

lemma put_commute:
  "inv d \<Longrightarrow> k \<noteq> k' \<Longrightarrow> lookup (put (put d k v) k' v') = lookup (put (put d k' v') k v)"
  by (rule ext) (auto simp: lookup_put inv_put)

end

end
