(* ===== verification/HamtCorrect.thy ===== *)
theory HamtCorrect
  imports Hamt Directory
begin

unbundle bit_operations_syntax

text \<open>
  Correctness of the hash trie: a routing invariant, and lookup, insertion and deletion as the
  operations of a finite map, on every input and for every hash function.
\<close>

section \<open>Chains\<close>

definition chain_lookup :: "storeKeyLeaf list \<Rightarrow> u64 \<Rightarrow> bytes \<Rightarrow> storeLocation option" where
  "chain_lookup ls hash key = map_option l_loc (find (\<lambda>l. l_hash l = hash \<and> l_key l = key) ls)"

definition chain_ok :: "(bytes \<Rightarrow> u64) \<Rightarrow> (u64 \<Rightarrow> bool) \<Rightarrow> storeKeyLeaf list \<Rightarrow> bool" where
  "chain_ok hf P ls \<longleftrightarrow> distinct (map l_key ls) \<and> (\<forall>l \<in> set ls. P (l_hash l) \<and> l_hash l = hf (l_key l))"

lemma chain_lookup_simps [simp]:
  "chain_lookup [] h k = None"
  "chain_lookup (l # ls) h k = (if l_hash l = h \<and> l_key l = k then Some (l_loc l) else chain_lookup ls h k)"
  by (simp_all add: chain_lookup_def)

lemma chain_lookup_append:
  "chain_lookup (xs @ ys) h k = (case chain_lookup xs h k of None \<Rightarrow> chain_lookup ys h k | Some v \<Rightarrow> Some v)"
  by (induction xs) auto

lemma chain_lookup_None: "chain_lookup ls h k = None \<longleftrightarrow> (\<forall>l \<in> set ls. \<not> (l_hash l = h \<and> l_key l = k))"
  by (induction ls) auto

lemma chain_ok_Nil [simp]: "chain_ok hf P []"
  by (simp add: chain_ok_def)

lemma chain_ok_Cons [simp]:
  "chain_ok hf P (l # ls) \<longleftrightarrow>
     l_key l \<notin> l_key ` set ls \<and> P (l_hash l) \<and> l_hash l = hf (l_key l) \<and> chain_ok hf P ls"
  by (auto simp: chain_ok_def)

lemma leafInsert_ok:
  "chain_ok hf P ls \<Longrightarrow> P (l_hash add) \<Longrightarrow> l_hash add = hf (l_key add) \<Longrightarrow>
   chain_ok hf P (storeLeafInsert ls add) \<and> l_key ` set (storeLeafInsert ls add) = insert (l_key add) (l_key ` set ls)"
  by (induction ls) auto

lemma leafInsert_lookup:
  "chain_ok hf P ls \<Longrightarrow> l_hash add = hf (l_key add) \<Longrightarrow>
   chain_lookup (storeLeafInsert ls add) (hf k) k =
     (if k = l_key add then Some (l_loc add) else chain_lookup ls (hf k) k)"
  by (induction ls) auto

lemma leafDelete_ok:
  "chain_ok hf P ls \<Longrightarrow> storeLeafDelete ls (hf k) k = (ls', changed) \<Longrightarrow>
   chain_ok hf P ls' \<and> set ls' \<subseteq> set ls \<and> (changed \<longleftrightarrow> chain_lookup ls (hf k) k \<noteq> None) \<and>
   (\<not> changed \<longrightarrow> ls' = ls) \<and>
   (\<forall>k'. chain_lookup ls' (hf k') k' = (if k' = k then None else chain_lookup ls (hf k') k'))"
proof (induction ls arbitrary: ls' changed)
  case (Cons l ls)
  show ?case
  proof (cases "l_hash l = hf k \<and> l_key l = k")
    case True
    then show ?thesis using Cons.prems by (auto simp: chain_lookup_None intro: rev_image_eqI)
  next
    case False
    obtain n c where r: "storeLeafDelete ls (hf k) k = (n, c)" by (cases "storeLeafDelete ls (hf k) k")
    have "chain_ok hf P ls" using Cons.prems(1) by simp
    note ih = Cons.IH [OF this r]
    have "ls' = (if c then l # n else l # ls)" "changed = c"
      using Cons.prems(2) False r by (auto split: if_splits)
    then show ?thesis using ih Cons.prems(1) False by auto
  qed
qed simp

lemma hasHash_iff: "storeKeyLeafHasHash ls h \<longleftrightarrow> h \<in> l_hash ` set ls"
  by (induction ls) auto

section \<open>Routing\<close>

lemma slotIndex_less: "slotIndex s h < 32"
proof -
  have "drop_bit s h AND 31 \<le> 31" by (rule word_and_le1)
  then have "unat (drop_bit s h AND 31) \<le> unat (31::u64)" by (simp only: word_le_nat_alt)
  then show ?thesis by (simp add: slotIndex_def)
qed

lemma slotIndex_take_bit: "slotIndex s h = unat (take_bit 5 (drop_bit s h))"
proof -
  have "(31::u64) = mask 5" by (simp add: mask_eq_exp_minus_1)
  then show ?thesis by (simp add: slotIndex_def take_bit_eq_mask)
qed

text \<open>\<open>sep s P\<close>: the hashes that satisfy \<open>P\<close> agree on their low \<open>s\<close> bits.\<close>

definition sep :: "nat \<Rightarrow> (u64 \<Rightarrow> bool) \<Rightarrow> bool" where
  "sep s P \<longleftrightarrow> (\<forall>h h'. P h \<longrightarrow> P h' \<longrightarrow> take_bit s h = take_bit s h')"

lemma sep_step: "sep s P \<Longrightarrow> sep (s + 5) (\<lambda>h. P h \<and> slotIndex s h = i)"
  unfolding sep_def
proof (intro allI impI)
  fix h h' :: u64
  assume a: "\<forall>h h'. P h \<longrightarrow> P h' \<longrightarrow> take_bit s h = take_bit s h'"
    and h: "P h \<and> slotIndex s h = i" "P h' \<and> slotIndex s h' = i"
  have low: "take_bit s h = take_bit s h'" using a h by blast
  have high: "take_bit 5 (drop_bit s h) = take_bit 5 (drop_bit s h')"
    using h by (simp add: slotIndex_take_bit word_unat_eq_iff)
  have "bit (take_bit (s + 5) h) n = bit (take_bit (s + 5) h') n" for n
  proof (cases "n < s")
    case True
    then show ?thesis using arg_cong [OF low, of "\<lambda>x. bit x n"] by (simp add: bit_take_bit_iff)
  next
    case False
    then show ?thesis
      using arg_cong [OF high, of "\<lambda>x. bit x (n - s)"] by (auto simp: bit_take_bit_iff bit_drop_bit_eq)
  qed
  then show "take_bit (s + 5) h = take_bit (s + 5) h'" by (simp add: bit_eq_iff)
qed

lemma sep_distinct: "sep s P \<Longrightarrow> P h \<Longrightarrow> P h' \<Longrightarrow> h \<noteq> h' \<Longrightarrow> s < 64"
proof (rule ccontr)
  assume a: "sep s P" "P h" "P h'" "h \<noteq> h'" "\<not> s < 64"
  then have "take_bit s h = h" "take_bit s h' = h'"
    by (auto simp: take_bit_word_eq_self)
  then show False using a unfolding sep_def by metis
qed

text \<open>The routing invariant: every leaf of slot \<open>i\<close> of a node at shift \<open>s\<close> has index \<open>i\<close> there, its
  hash is the hash of its key, a chain has no key twice, a slot has a chain or a child but not both,
  and nodes stop before the hash bits do.\<close>

inductive trie_wf :: "(bytes \<Rightarrow> u64) \<Rightarrow> nat \<Rightarrow> (u64 \<Rightarrow> bool) \<Rightarrow> storeKeyNode option \<Rightarrow> bool"
  for hf :: "bytes \<Rightarrow> u64" where
  wf_None: "trie_wf hf s P None"
| wf_Node: "s < 64 \<Longrightarrow> length ss = 32 \<Longrightarrow>
    (\<And>i. i < 32 \<Longrightarrow> chain_ok hf (\<lambda>h. P h \<and> slotIndex s h = i) (leaf (ss ! i))) \<Longrightarrow>
    (\<And>i. i < 32 \<Longrightarrow> child (ss ! i) = None \<or> leaf (ss ! i) = []) \<Longrightarrow>
    (\<And>i. i < 32 \<Longrightarrow> trie_wf hf (s + 5) (\<lambda>h. P h \<and> slotIndex s h = i) (child (ss ! i))) \<Longrightarrow>
    trie_wf hf s P (Some (Node ss))"

inductive_cases trie_wf_NodeE: "trie_wf hf s P (Some (Node ss))"

definition slot_ok :: "(bytes \<Rightarrow> u64) \<Rightarrow> nat \<Rightarrow> (u64 \<Rightarrow> bool) \<Rightarrow> storeKeySlot \<Rightarrow> bool" where
  "slot_ok hf s P sl \<longleftrightarrow> chain_ok hf P (leaf sl) \<and> (child sl = None \<or> leaf sl = []) \<and>
     trie_wf hf (s + 5) P (child sl)"

lemma trie_wf_Node_iff:
  "trie_wf hf s P (Some (Node ss)) \<longleftrightarrow> s < 64 \<and> length ss = 32 \<and>
     (\<forall>i < 32. slot_ok hf s (\<lambda>h. P h \<and> slotIndex s h = i) (ss ! i))"
  by (auto simp: slot_ok_def intro: wf_Node elim: trie_wf_NodeE)

lemma emptyNode_wf: "s < 64 \<Longrightarrow> trie_wf hf s P (Some (Node emptyNode))"
  by (simp add: trie_wf_Node_iff emptyNode_def storeKeyBranchFactor_def slot_ok_def wf_None)

lemma trie_wf_update:
  assumes "trie_wf hf s P (Some (Node ss))" "slot_ok hf s (\<lambda>h. P h \<and> slotIndex s h = i) sl" "i < 32"
  shows "trie_wf hf s P (Some (Node (ss[i := sl])))"
  using assms by (auto simp: trie_wf_Node_iff nth_list_update)

section \<open>Lookup from a shift\<close>

definition lookup_at :: "nat \<Rightarrow> storeKeyNode option \<Rightarrow> u64 \<Rightarrow> bytes \<Rightarrow> storeLocation option" where
  "lookup_at s root h k = storeKeyLookupFrom root (drop_bit s h) h k"

definition slot_lookup :: "nat \<Rightarrow> storeKeySlot \<Rightarrow> u64 \<Rightarrow> bytes \<Rightarrow> storeLocation option" where
  "slot_lookup s sl h k =
     (case chain_lookup (leaf sl) h k of Some v \<Rightarrow> Some v | None \<Rightarrow> lookup_at (s + 5) (child sl) h k)"

lemma lookup_at_None [simp]: "lookup_at s None h k = None"
  by (simp add: lookup_at_def storeKeyLookupFrom.simps)

lemma lookup_at_Node: "length ss = 32 \<Longrightarrow> lookup_at s (Some (Node ss)) h k = slot_lookup s (ss ! slotIndex s h) h k"
  using slotIndex_less [of s h]
  by (simp add: lookup_at_def storeKeyLookupFrom.simps slot_lookup_def chain_lookup_def slotIndex_def Let_def
      storeTrieBits_def drop_bit_drop_bit add.commute split: option.split)

lemma lookup_at_update:
  assumes "length ss = 32" "i < 32"
  shows "lookup_at s (Some (Node (ss[i := sl]))) h k =
    (if slotIndex s h = i then slot_lookup s sl h k else lookup_at s (Some (Node ss)) h k)"
  using assms slotIndex_less [of s h] by (simp add: lookup_at_Node nth_list_update)

lemma lookup_at_empty: "lookup_at s (Some (Node emptyNode)) h k = None"
  using slotIndex_less [of s h]
  by (simp add: lookup_at_Node emptyNode_def storeKeyBranchFactor_def slot_lookup_def)

section \<open>Insertion\<close>

definition inserted ::
  "(bytes \<Rightarrow> u64) \<Rightarrow> nat \<Rightarrow> (u64 \<Rightarrow> bool) \<Rightarrow> storeKeyNode option \<Rightarrow> storeKeyLeaf \<Rightarrow> storeKeyNode option \<Rightarrow> bool" where
  "inserted hf s P root add res \<longleftrightarrow> res \<noteq> None \<and> trie_wf hf s P res \<and>
     (\<forall>k. P (hf k) \<longrightarrow> lookup_at s res (hf k) k =
        (if k = l_key add then Some (l_loc add) else lookup_at s root (hf k) k))"

text \<open>Replacing one slot by a slot whose lookups are those of the old slot with the leaf added.\<close>

lemma inserted_slot:
  assumes wf: "trie_wf hf s P (Some (Node ss))"
    and i: "i = slotIndex s (l_hash add)" and a: "P (l_hash add)" "l_hash add = hf (l_key add)"
    and sl: "slot_ok hf s (\<lambda>h. P h \<and> slotIndex s h = i) sl"
    and lk: "\<And>k. P (hf k) \<Longrightarrow> slotIndex s (hf k) = i \<Longrightarrow>
       slot_lookup s sl (hf k) k = (if k = l_key add then Some (l_loc add) else slot_lookup s (ss ! i) (hf k) k)"
  shows "inserted hf s P (Some (Node ss)) add (Some (Node (ss[i := sl])))"
proof -
  have len: "length ss = 32" using wf by (simp add: trie_wf_Node_iff)
  have i32: "i < 32" using i slotIndex_less by simp
  show ?thesis
    using trie_wf_update [OF wf sl i32] lk a i
    by (auto simp: inserted_def lookup_at_update [OF len] slotIndex_less lookup_at_Node [OF len])
qed

lemma promote_correct:
  assumes ins: "\<And>c l. trie_wf hf s P c \<Longrightarrow> P (l_hash l) \<Longrightarrow> l_hash l = hf (l_key l) \<Longrightarrow>
      inserted hf s P c l (ins c l)"
  shows "chain_ok hf P ls \<Longrightarrow> trie_wf hf s P c \<Longrightarrow>
    \<exists>c'. storeKeyPromote ins c ls = Some c' \<and> trie_wf hf s P c' \<and>
      (\<forall>k. P (hf k) \<longrightarrow> lookup_at s c' (hf k) k =
        (case chain_lookup ls (hf k) k of Some v \<Rightarrow> Some v | None \<Rightarrow> lookup_at s c (hf k) k))"
proof (induction ls arbitrary: c)
  case (Cons l ls)
  let ?l = "\<lparr>l_hash = l_hash l, l_key = l_key l, l_loc = l_loc l\<rparr>"
  have l: "P (l_hash l)" "l_hash l = hf (l_key l)" "l_key l \<notin> l_key ` set ls" and ls: "chain_ok hf P ls"
    using Cons.prems(1) by auto
  have "inserted hf s P c ?l (ins c ?l)" using ins [OF Cons.prems(2), of ?l] l by simp
  then obtain n where n: "ins c ?l = Some n" "trie_wf hf s P (Some n)"
    "\<And>k. P (hf k) \<Longrightarrow> lookup_at s (Some n) (hf k) k =
        (if k = l_key l then Some (l_loc l) else lookup_at s c (hf k) k)"
    by (auto simp: inserted_def)
  obtain c' where c': "storeKeyPromote ins (Some n) ls = Some c'" "trie_wf hf s P c'"
    "\<And>k. P (hf k) \<Longrightarrow> lookup_at s c' (hf k) k =
        (case chain_lookup ls (hf k) k of Some v \<Rightarrow> Some v | None \<Rightarrow> lookup_at s (Some n) (hf k) k)"
    using Cons.IH [OF ls n(2)] by auto
  have "chain_lookup ls (hf (l_key l)) (l_key l) = None"
    using l(3) by (auto simp: chain_lookup_None intro: rev_image_eqI)
  then show ?case using n c' l(2) by (auto split: option.split)
qed simp

lemma insertAt_correct:
  "trie_wf hf s P root \<Longrightarrow> sep s P \<Longrightarrow> P (l_hash add) \<Longrightarrow> l_hash add = hf (l_key add) \<Longrightarrow>
   s < 64 \<Longrightarrow> 64 \<le> s + 5 * n \<Longrightarrow> inserted hf s P root add (storeKeyInsertAt n root s add)"
proof (induction n arbitrary: s P root add)
  case (Suc n)
  define ss where "ss = (case root of None \<Rightarrow> emptyNode | Some node \<Rightarrow> slots node)"
  let ?i = "slotIndex s (l_hash add)"
  let ?P = "\<lambda>h. P h \<and> slotIndex s h = ?i"
  let ?sl = "ss ! ?i"
  have wf: "trie_wf hf s P (Some (Node ss))"
    using Suc.prems(1,5) emptyNode_wf by (cases root) (auto simp: ss_def)
  have same: "inserted hf s P root add r" if "inserted hf s P (Some (Node ss)) add r" for r
    using that by (cases root) (auto simp: inserted_def ss_def lookup_at_empty)
  have ok: "slot_ok hf s ?P ?sl" using wf slotIndex_less by (auto simp: trie_wf_Node_iff)
  have sep: "sep (s + 5) ?P" using Suc.prems(2) by (rule sep_step)
  note upd = same [OF inserted_slot [OF wf refl Suc.prems(3,4)]]
  have IH: "inserted hf (s + 5) ?P c l (storeKeyInsertAt n c (s + 5) l)"
    if "trie_wf hf (s + 5) ?P c" "?P (l_hash l)" "l_hash l = hf (l_key l)" "s + 5 < 64" for c l
    by (rule Suc.IH) (use that sep Suc.prems(6) in auto)
  have chain: "slot_ok hf s ?P (Slot None (storeLeafInsert (leaf ?sl) add)) \<and>
      (\<forall>k. P (hf k) \<longrightarrow> slotIndex s (hf k) = ?i \<longrightarrow>
        slot_lookup s (Slot None (storeLeafInsert (leaf ?sl) add)) (hf k) k =
        (if k = l_key add then Some (l_loc add) else slot_lookup s ?sl (hf k) k))" if "child ?sl = None"
    using ok that leafInsert_ok [of hf ?P "leaf ?sl" add] leafInsert_lookup [of hf ?P "leaf ?sl" add] Suc.prems(3,4)
    by (auto simp: slot_ok_def slot_lookup_def wf_None split: option.split)
  show ?case
  proof (cases "child ?sl")
    case (Some c)
    then have lf: "leaf ?sl = []" and wc: "trie_wf hf (s + 5) ?P (Some c)" using ok by (auto simp: slot_ok_def)
    then have s5: "s + 5 < 64" by (cases c) (auto simp: trie_wf_Node_iff)
    have "inserted hf (s + 5) ?P (Some c) add (storeKeyInsertAt n (Some c) (s + 5) add)"
      using IH [OF wc _ Suc.prems(4) s5] Suc.prems(3) by simp
    then obtain c' where c': "storeKeyInsertAt n (Some c) (s + 5) add = Some c'" "inserted hf (s + 5) ?P (Some c) add (Some c')"
      by (auto simp: inserted_def)
    have "inserted hf s P root add (Some (Node (ss[?i := Slot (Some c') (leaf ?sl)])))"
      by (rule upd) (use c'(2) lf Some in \<open>auto simp: slot_ok_def inserted_def slot_lookup_def\<close>)
    then show ?thesis
      using Some c'(1) by (simp add: storeKeyInsertAt.simps ss_def [symmetric] Let_def storeTrieBits_def)
  next
    case None
    note chain = chain [OF None]
    consider "leaf ?sl = []" | "leaf ?sl \<noteq> []" "storeKeyLeafHasHash (leaf ?sl) (l_hash add) \<or>
        s \<ge> storeKeyBucketShift \<and> storeKeyLeafCount (leaf ?sl) < storeKeyLeafBucket"
      | (promote) "leaf ?sl \<noteq> []" "\<not> storeKeyLeafHasHash (leaf ?sl) (l_hash add)"
        "\<not> (s \<ge> storeKeyBucketShift \<and> storeKeyLeafCount (leaf ?sl) < storeKeyLeafBucket)"
      by blast
    then show ?thesis
    proof cases
      case 1
      then have "storeKeyInsertAt (Suc n) root s add = Some (Node (ss[?i := Slot None (storeLeafInsert (leaf ?sl) add)]))"
        using None by (simp add: storeKeyInsertAt.simps ss_def [symmetric] Let_def)
      then show ?thesis using upd chain by simp
    next
      case 2
      then have "storeKeyInsertAt (Suc n) root s add = Some (Node (ss[?i := Slot None (storeLeafInsert (leaf ?sl) add)]))"
        using None by (auto simp: storeKeyInsertAt.simps ss_def [symmetric] Let_def)
      then show ?thesis using upd chain by simp
    next
      case promote
      have co: "chain_ok hf ?P (leaf ?sl)" using ok by (simp add: slot_ok_def)
      obtain l where l: "l \<in> set (leaf ?sl)" using promote(1) by (cases "leaf ?sl") auto
      have pl: "?P (l_hash l)" "?P (l_hash add)" using co l Suc.prems(3) unfolding chain_ok_def by blast+
      have "l_hash l \<noteq> l_hash add" using promote(2) l by (auto simp: hasHash_iff intro: rev_image_eqI)
      from sep_distinct [OF sep pl this] have s5: "s + 5 < 64" .
      obtain c where c: "storeKeyPromote (\<lambda>c l. storeKeyInsertAt n c (s + 5) l) None (leaf ?sl) = Some c"
        "trie_wf hf (s + 5) ?P c"
        "\<And>k. ?P (hf k) \<Longrightarrow> lookup_at (s + 5) c (hf k) k = chain_lookup (leaf ?sl) (hf k) k"
        using promote_correct [of hf "s + 5" ?P "\<lambda>c l. storeKeyInsertAt n c (s + 5) l" "leaf ?sl" None] IH s5 co
        by (fastforce simp: wf_None split: option.splits)
      have "inserted hf (s + 5) ?P c add (storeKeyInsertAt n c (s + 5) add)"
        using IH [OF c(2) _ Suc.prems(4) s5] Suc.prems(3) by simp
      then obtain c' where c': "storeKeyInsertAt n c (s + 5) add = Some c'" "inserted hf (s + 5) ?P c add (Some c')"
        by (auto simp: inserted_def)
      have "inserted hf s P root add (Some (Node (ss[?i := Slot (Some c') []])))"
        by (rule upd) (use c'(2) c(3) None in \<open>auto simp: slot_ok_def inserted_def slot_lookup_def split: option.split\<close>)
      then show ?thesis
        using None promote c(1) c'(1) by (auto simp: storeKeyInsertAt.simps ss_def [symmetric] Let_def storeTrieBits_def)
    qed
  qed
qed simp

section \<open>Flattening\<close>

fun node_leaves :: "storeKeyNode \<Rightarrow> storeKeyLeaf list"
and slot_leaves :: "storeKeySlot \<Rightarrow> storeKeyLeaf list" where
  "node_leaves (Node ss) = concat (map slot_leaves ss)"
| "slot_leaves (Slot None ls) = ls"
| "slot_leaves (Slot (Some c) ls) = node_leaves c @ ls"

lemma collectChain_eq:
  "length acc \<le> 2 \<Longrightarrow> collectChain ls acc = (if length (acc @ ls) \<le> 2 then Some (acc @ ls) else None)"
  by (induction ls arbitrary: acc) (auto simp: storeKeyLeafBucket_def)

lemma collect_eq:
  "length acc \<le> 2 \<Longrightarrow> storeKeyCollectLeaves nd acc =
     (if length (acc @ node_leaves nd) \<le> 2 then Some (acc @ node_leaves nd) else None)"
  "length acc \<le> 2 \<Longrightarrow> collectSlot sl acc =
     (if length (acc @ slot_leaves sl) \<le> 2 then Some (acc @ slot_leaves sl) else None)"
  "length acc \<le> 2 \<Longrightarrow> collectSlots ss acc =
     (if length (acc @ concat (map slot_leaves ss)) \<le> 2 then Some (acc @ concat (map slot_leaves ss)) else None)"
  by (induction nd acc and sl acc and ss acc rule: storeKeyCollectLeaves_collectSlot_collectSlots.induct)
    (auto simp: collectChain_eq split: if_splits)

lemma leafBucket_leaves: "storeKeyNodeLeafBucket (Some nd) = Some b \<Longrightarrow> b = node_leaves nd"
  by (auto simp: storeKeyNodeLeafBucket_def collect_eq split: if_splits)

lemma singletonFrom_leaves:
  "storeKeySingletonFrom ss one = Some b \<Longrightarrow> b = one @ concat (map slot_leaves ss)"
proof (induction ss one rule: storeKeySingletonFrom.induct)
  case (2 s ss one)
  then show ?case by (cases s) (auto split: if_splits)
qed (auto split: if_splits)

lemma singleton_leaves: "storeKeySingleton (Some nd) = Some b \<Longrightarrow> b = node_leaves nd"
  by (cases nd) (auto simp: storeKeySingleton_def dest: singletonFrom_leaves)

text \<open>A subtree answers lookups like the chain of all its leaves, which is a legal chain.\<close>

lemma in_concat_nth: "y \<in> set (concat xss) \<longleftrightarrow> (\<exists>j < length xss. y \<in> set (xss ! j))"
  by (auto simp: set_conv_nth [of xss])

lemma distinct_concat_index:
  assumes "\<And>i. i < length xss \<Longrightarrow> distinct (map f (xss ! i))"
    and "\<And>i x. i < length xss \<Longrightarrow> x \<in> set (xss ! i) \<Longrightarrow> g (f x) = i"
  shows "distinct (map f (concat xss))"
  using assms
proof (induction xss rule: rev_induct)
  case (snoc xs xss)
  have d: "distinct (map f (concat xss))"
  proof (rule snoc.IH)
    fix i assume "i < length xss"
    then show "distinct (map f (xss ! i))" using snoc.prems(1) [of i] by (simp add: nth_append)
  next
    fix i x assume "i < length xss" "x \<in> set (xss ! i)"
    then show "g (f x) = i" using snoc.prems(2) [of i x] by (simp add: nth_append)
  qed
  have "f x \<noteq> f y" if xy: "x \<in> set xs" "y \<in> set (concat xss)" for x y
  proof -
    obtain j where "j < length xss" "y \<in> set (xss ! j)" using xy(2) by (auto simp only: in_concat_nth)
    then have "g (f y) = j" "j < length xss" using snoc.prems(2) [of j y] by (auto simp: nth_append)
    moreover have "g (f x) = length xss" using snoc.prems(2) [of "length xss" x] xy(1) by simp
    ultimately show ?thesis by auto
  qed
  then have "f ` set (concat xss) \<inter> f ` set xs = {}" by fastforce
  moreover have "distinct (map f xs)" using snoc.prems(1) [of "length xss"] by simp
  ultimately show ?case using d by simp
qed simp

lemma chain_lookup_concat:
  assumes "i < length xss" "\<And>j. j < length xss \<Longrightarrow> j \<noteq> i \<Longrightarrow> chain_lookup (xss ! j) h k = None"
  shows "chain_lookup (concat xss) h k = chain_lookup (xss ! i) h k"
  using assms
proof (induction xss arbitrary: i)
  case (Cons xs xss)
  show ?case
  proof (cases i)
    case 0
    have "chain_lookup (concat xss) h k = None"
    proof -
      have "\<forall>ys \<in> set xss. chain_lookup ys h k = None"
        using Cons.prems(2) [of "Suc _"] 0 by (simp add: all_set_conv_all_nth)
      then show ?thesis by (auto simp: chain_lookup_None)
    qed
    then show ?thesis using 0 by (simp add: chain_lookup_append split: option.split)
  next
    case (Suc m)
    have "chain_lookup (concat xss) h k = chain_lookup (xss ! m) h k"
    proof (rule Cons.IH)
      fix j assume "j < length xss" "j \<noteq> m"
      then show "chain_lookup (xss ! j) h k = None" using Cons.prems(2) [of "Suc j"] Suc by simp
    qed (use Cons.prems Suc in auto)
    moreover have "chain_lookup xs h k = None" using Cons.prems(2) [of 0] Suc by simp
    ultimately show ?thesis using Suc by (simp add: chain_lookup_append)
  qed
qed simp

definition flat_ok :: "(bytes \<Rightarrow> u64) \<Rightarrow> nat \<Rightarrow> (u64 \<Rightarrow> bool) \<Rightarrow> storeKeyNode option \<Rightarrow> storeKeyLeaf list \<Rightarrow> bool" where
  "flat_ok hf s P root ls \<longleftrightarrow> chain_ok hf P ls \<and>
     (\<forall>k. P (hf k) \<longrightarrow> lookup_at s root (hf k) k = chain_lookup ls (hf k) k)"

lemma node_flat_ok: "trie_wf hf s P root \<Longrightarrow> flat_ok hf s P root (case root of None \<Rightarrow> [] | Some nd \<Rightarrow> node_leaves nd)"
proof (induction rule: trie_wf.induct)
  case (wf_Node s ss P)
  let ?P = "\<lambda>i h. P h \<and> slotIndex s h = i"
  let ?L = "map slot_leaves ss"
  have slot: "chain_ok hf (?P i) (slot_leaves (ss ! i))"
    "\<And>k. ?P i (hf k) \<Longrightarrow> slot_lookup s (ss ! i) (hf k) k = chain_lookup (slot_leaves (ss ! i)) (hf k) k"
    if "i < 32" for i
    using wf_Node(3,4,6) [OF that]
    by (cases "ss ! i"; cases "child (ss ! i)"; auto simp: flat_ok_def slot_lookup_def split: option.split)+
  have mem: "P (l_hash l) \<and> slotIndex s (hf (l_key l)) = i \<and> l_hash l = hf (l_key l)"
    if "i < 32" "l \<in> set (slot_leaves (ss ! i))" for i l
    using slot(1) [OF that(1)] that(2) by (auto simp: chain_ok_def)
  have "distinct (map l_key (concat ?L))"
    by (rule distinct_concat_index [where g = "\<lambda>k. slotIndex s (hf k)"])
      (use wf_Node(2) slot(1) mem in \<open>auto simp: chain_ok_def\<close>)
  moreover have "P (l_hash l) \<and> l_hash l = hf (l_key l)" if l: "l \<in> set (concat ?L)" for l
  proof -
    obtain i where "i < 32" "l \<in> set (slot_leaves (ss ! i))"
      using l wf_Node(2) by (auto simp only: in_concat_nth length_map nth_map)
    then show ?thesis using mem by blast
  qed
  ultimately have "chain_ok hf P (concat ?L)" unfolding chain_ok_def by blast
  moreover have "lookup_at s (Some (Node ss)) (hf k) k = chain_lookup (concat ?L) (hf k) k" if "P (hf k)" for k
  proof -
    let ?i = "slotIndex s (hf k)"
    have "chain_lookup (concat ?L) (hf k) k = chain_lookup (?L ! ?i) (hf k) k"
    proof (rule chain_lookup_concat)
      fix j assume j: "j < length ?L" "j \<noteq> ?i"
      then show "chain_lookup (?L ! j) (hf k) k = None"
        using mem [of j] wf_Node(2) by (auto simp: chain_lookup_None)
    qed (simp add: wf_Node(2) slotIndex_less)
    then show ?thesis
      using slot(2) [OF slotIndex_less [of s "hf k"], of k] that wf_Node(2) slotIndex_less [of s "hf k"]
      by (simp add: lookup_at_Node)
  qed
  ultimately show ?case by (simp add: flat_ok_def)
qed (simp add: flat_ok_def)

section \<open>Deletion\<close>

definition deleted ::
  "(bytes \<Rightarrow> u64) \<Rightarrow> nat \<Rightarrow> (u64 \<Rightarrow> bool) \<Rightarrow> storeKeyNode option \<Rightarrow> bytes \<Rightarrow> storeKeyNode option \<times> bool \<Rightarrow> bool" where
  "deleted hf s P root key res \<longleftrightarrow> trie_wf hf s P (fst res) \<and>
     (snd res \<longleftrightarrow> lookup_at s root (hf key) key \<noteq> None) \<and> (\<not> snd res \<longrightarrow> fst res = root) \<and>
     (\<forall>k. P (hf k) \<longrightarrow> lookup_at s (fst res) (hf k) k =
        (if k = key then None else lookup_at s root (hf k) k))"

lemma flat_slot:
  "flat_ok hf (s + 5) P c b \<Longrightarrow> slot_ok hf s P (Slot None b) \<and>
     (\<forall>k. P (hf k) \<longrightarrow> slot_lookup s (Slot None b) (hf k) k = lookup_at (s + 5) c (hf k) k)"
  by (auto simp: flat_ok_def slot_ok_def slot_lookup_def wf_None split: option.split)

lemma collapse_correct:
  assumes "trie_wf hf (s + 5) P c"
  shows "slot_ok hf s P (collapseSlot s c [])"
    "P (hf k) \<Longrightarrow> slot_lookup s (collapseSlot s c []) (hf k) k = lookup_at (s + 5) c (hf k) k"
proof -
  have "slot_ok hf s P (collapseSlot s c []) \<and>
    (P (hf k) \<longrightarrow> slot_lookup s (collapseSlot s c []) (hf k) k = lookup_at (s + 5) c (hf k) k)"
  proof (cases "\<exists>b. collapseSlot s c [] = Slot None b \<and> flat_ok hf (s + 5) P c b")
    case True
    then show ?thesis using flat_slot [of hf s P c] by auto
  next
    case False
    have "flat_ok hf (s + 5) P c b" if "storeKeyNodeLeafBucket c = Some b \<or> storeKeySingleton c = Some b" for b
      using that node_flat_ok [OF assms]
      by (cases c) (auto simp: storeKeyNodeLeafBucket_def [of None] storeKeySingleton_def [of None]
          dest: leafBucket_leaves singleton_leaves)
    then have "collapseSlot s c [] = Slot c []"
      using False by (auto simp: collapseSlot_def split: option.splits if_splits)
    then show ?thesis using assms by (simp add: slot_ok_def slot_lookup_def)
  qed
  then show "slot_ok hf s P (collapseSlot s c [])"
    "P (hf k) \<Longrightarrow> slot_lookup s (collapseSlot s c []) (hf k) k = lookup_at (s + 5) c (hf k) k"
    by blast+
qed

lemma nodeEmpty_lookup: "storeKeyNodeEmpty ss \<Longrightarrow> length ss = 32 \<Longrightarrow> lookup_at s (Some (Node ss)) h k = None"
  using slotIndex_less [of s h]
  by (auto simp: storeKeyNodeEmpty_def lookup_at_Node slot_lookup_def list_all_length)

lemma deleteAt_correct:
  "trie_wf hf s P root \<Longrightarrow> P (hf key) \<Longrightarrow> deleted hf s P root key (storeKeyDeleteAt root s (hf key) key)"
proof (induction rule: trie_wf.induct)
  case (wf_Node s ss P)
  let ?i = "slotIndex s (hf key)"
  let ?P = "\<lambda>h. P h \<and> slotIndex s h = ?i"
  let ?sl = "ss ! ?i"
  have i32: "?i < 32" by (rule slotIndex_less)
  have wf: "trie_wf hf s P (Some (Node ss))"
    using wf_Node(1-5) by (rule trie_wf.wf_Node)
  define r where "r = (if child ?sl \<noteq> None then
      (case storeKeyDeleteAt (child ?sl) (s + storeTrieBits) (hf key) key of
         (c, changed) \<Rightarrow> (collapseSlot s c (leaf ?sl), changed))
    else (case storeLeafDelete (leaf ?sl) (hf key) key of (ls, changed) \<Rightarrow> (Slot None ls, changed)))"
  have r: "slot_ok hf s ?P (fst r) \<and> (snd r \<longleftrightarrow> slot_lookup s ?sl (hf key) key \<noteq> None) \<and>
      (\<forall>k. ?P (hf k) \<longrightarrow> snd r \<longrightarrow> slot_lookup s (fst r) (hf k) k =
          (if k = key then None else slot_lookup s ?sl (hf k) k))"
  proof (cases "child ?sl = None")
    case True
    obtain ls c where d: "storeLeafDelete (leaf ?sl) (hf key) key = (ls, c)"
      by (cases "storeLeafDelete (leaf ?sl) (hf key) key")
    show ?thesis
      using leafDelete_ok [OF wf_Node(3) [OF i32] d] True d
      by (auto simp: r_def slot_ok_def slot_lookup_def wf_None split: option.split)
  next
    case False
    then have lf: "leaf ?sl = []" using wf_Node(4) [OF i32] by auto
    obtain c b where d: "storeKeyDeleteAt (child ?sl) (s + 5) (hf key) key = (c, b)"
      by (cases "storeKeyDeleteAt (child ?sl) (s + 5) (hf key) key")
    have "deleted hf (s + 5) ?P (child ?sl) key (c, b)"
      using wf_Node(6) [OF i32] wf_Node.prems d by simp
    then show ?thesis
      using False lf d collapse_correct [of hf s ?P c]
      by (auto simp: r_def deleted_def slot_lookup_def storeTrieBits_def)
  qed
  have eq: "storeKeyDeleteAt (Some (Node ss)) s (hf key) key =
      (if \<not> snd r then (Some (Node ss), False)
       else if storeKeyNodeEmpty (ss[?i := fst r]) then (None, True) else (Some (Node (ss[?i := fst r])), True))"
  proof -
    obtain sl ch where sc: "r = (sl, ch)" by (cases r)
    have "\<not> ?i \<ge> length ss" using i32 wf_Node(2) by simp
    then show ?thesis using sc [unfolded r_def] sc by (simp add: storeKeyDeleteAt.simps)
  qed
  have upd: "trie_wf hf s P (Some (Node (ss[?i := fst r])))"
    by (rule trie_wf_update [OF wf _ i32]) (use r in blast)
  have lk: "lookup_at s (Some (Node (ss[?i := fst r]))) (hf k) k =
      (if k = key then None else lookup_at s (Some (Node ss)) (hf k) k)" if "P (hf k)" "snd r" for k
    using r that wf_Node(2) by (auto simp: lookup_at_update [OF wf_Node(2) i32] lookup_at_Node)
  have old: "lookup_at s (Some (Node ss)) (hf key) key = slot_lookup s ?sl (hf key) key"
    using wf_Node(2) by (simp add: lookup_at_Node)
  show ?case
  proof (cases "snd r \<and> storeKeyNodeEmpty (ss[?i := fst r])")
    case True
    then have "lookup_at s (Some (Node (ss[?i := fst r]))) h k = None" for h k
      using nodeEmpty_lookup [of "ss[?i := fst r]"] wf_Node(2) by simp
    then show ?thesis using True lk old r unfolding eq by (auto simp: deleted_def trie_wf.wf_None)
  next
    case False
    then show ?thesis using lk old r upd wf unfolding eq by (auto simp: deleted_def)
  qed
qed (simp add: deleted_def storeKeyDeleteAt.simps wf_None)

section \<open>The trie as a key directory\<close>

definition trie_inv :: "(bytes \<Rightarrow> u64) \<Rightarrow> storeKeyNode option \<Rightarrow> bool" where
  "trie_inv hf root \<longleftrightarrow> trie_wf hf 0 (\<lambda>h. True) root"

lemma trie_inv_None: "trie_inv hf None"
  by (simp add: trie_inv_def wf_None)

lemma storeKeyLookup_at: "storeKeyLookup root h k = lookup_at 0 root h k"
  by (simp add: storeKeyLookup_def lookup_at_def)

lemma storeKeyInsert_inserted:
  assumes "trie_inv hf root"
  shows "inserted hf 0 (\<lambda>h. True) root \<lparr>l_hash = hf k, l_key = k, l_loc = loc\<rparr> (storeKeyInsert root (hf k) k loc)"
  unfolding storeKeyInsert_def
  by (rule insertAt_correct) (use assms in \<open>auto simp: trie_inv_def sep_def trieFuel_def\<close>)

lemma storeKeyDelete_deleted:
  "trie_inv hf root \<Longrightarrow> deleted hf 0 (\<lambda>h. True) root k (storeKeyDeleteAt root 0 (hf k) k)"
  by (rule deleteAt_correct) (simp_all add: trie_inv_def)

interpretation trie: key_directory
  "\<lambda>root k. storeKeyLookup root (hf k) k" "\<lambda>root k loc. storeKeyInsert root (hf k) k loc"
  "\<lambda>root k. storeKeyDelete root (hf k) k" "trie_inv hf"
  for hf :: "bytes \<Rightarrow> u64"
proof
  fix d :: "storeKeyNode option" and k k' :: bytes and v :: storeLocation
  assume inv: "trie_inv hf d"
  note ins = storeKeyInsert_inserted [OF inv, of k v, unfolded inserted_def]
  note del = storeKeyDelete_deleted [OF inv, of k, unfolded deleted_def]
  show "trie_inv hf (storeKeyInsert d (hf k) k v)" using ins by (simp add: trie_inv_def)
  show "trie_inv hf (storeKeyDelete d (hf k) k)" using del by (simp add: trie_inv_def storeKeyDelete_def)
  show "storeKeyLookup (storeKeyInsert d (hf k) k v) (hf k') k' =
      (if k' = k then Some v else storeKeyLookup d (hf k') k')"
    using ins by (simp add: storeKeyLookup_at)
  show "storeKeyLookup (storeKeyDelete d (hf k) k) (hf k') k' =
      (if k' = k then None else storeKeyLookup d (hf k') k')"
    using del by (simp add: storeKeyLookup_at storeKeyDelete_def)
qed

section \<open>Properties\<close>

text \<open>C8. For every hash function, colliding or not, and every sequence of insertions and deletions from
  the empty directory, looking a key up in the trie gives what the same sequence leaves in a finite
  map.\<close>

theorem trie_refines_map:
  "storeKeyLookup
     (fold (dir_edit (\<lambda>root k loc. storeKeyInsert root (hf k) k loc) (\<lambda>root k. storeKeyDelete root (hf k) k)) es None)
     (hf key) key = fold map_edit es Map.empty key"
  using fun_cong [OF trie.lookup_script [OF trie_inv_None [of hf], of es], of key]
  by (simp add: storeKeyLookup_at)

text \<open>Insertion into a well-formed trie never runs out of its 13 levels, keeps the routing invariant
  (so no node sits below the last hash bits), and changes the location of the inserted key only.\<close>

theorem storeKeyInsert_correct:
  assumes "trie_inv hf root"
  shows "\<exists>node. storeKeyInsert root (hf key) key loc = Some node \<and> trie_inv hf (Some node) \<and>
    (\<forall>k. storeKeyLookup (Some node) (hf k) k =
       (if k = key then Some loc else storeKeyLookup root (hf k) k))"
  using storeKeyInsert_inserted [OF assms, of key loc]
  by (auto simp: inserted_def trie_inv_def storeKeyLookup_at)

theorem storeKeyInsert_correct_witness:
  "\<exists>node. storeKeyInsert None 7 [1] \<lparr>l_chunk = 3, l_slot = 9\<rparr> = Some node \<and>
     storeKeyLookup (Some node) 7 [1] = Some \<lparr>l_chunk = 3, l_slot = 9\<rparr>"
  using storeKeyInsert_correct [OF trie_inv_None, of "\<lambda>k. 7" "[1]" "\<lparr>l_chunk = 3, l_slot = 9\<rparr>"] by auto

text \<open>Deletion reports a change exactly when the key was present; without a change the old root is
  returned as it is, and with one the result is well formed (collapsed buckets and singletons included)
  and only the deleted key is gone.\<close>

theorem storeKeyDelete_correct:
  assumes "trie_inv hf root" "storeKeyDeleteAt root 0 (hf key) key = (root', changed)"
  shows "trie_inv hf root' \<and> (changed \<longleftrightarrow> storeKeyLookup root (hf key) key \<noteq> None) \<and>
    (\<not> changed \<longrightarrow> root' = root) \<and>
    (\<forall>k. storeKeyLookup root' (hf k) k = (if k = key then None else storeKeyLookup root (hf k) k))"
  using storeKeyDelete_deleted [OF assms(1), of key] assms(2)
  by (simp add: deleted_def trie_inv_def storeKeyLookup_at)

theorem storeKeyDelete_correct_witness:
  "\<exists>root' changed. storeKeyDeleteAt (storeKeyInsert None 7 [1] \<lparr>l_chunk = 3, l_slot = 9\<rparr>) 0 7 [1] = (root', changed) \<and>
     changed \<and> storeKeyLookup root' 7 [1] = None"
proof -
  let ?root = "storeKeyInsert None 7 [1] \<lparr>l_chunk = 3, l_slot = 9\<rparr>"
  have inv: "trie_inv (\<lambda>k. 7) ?root" by (rule trie.inv_put [OF trie_inv_None, of "\<lambda>k. 7"])
  have "storeKeyLookup ?root 7 [1] \<noteq> None"
    using trie.lookup_put [OF trie_inv_None, of "\<lambda>k. 7" "[1]"] by simp
  moreover obtain root' changed where "storeKeyDeleteAt ?root 0 7 [1] = (root', changed)"
    by (cases "storeKeyDeleteAt ?root 0 7 [1]")
  ultimately show ?thesis using storeKeyDelete_correct [OF inv, of "[1]" root' changed] by auto
qed

end
