(* ===== verification/ChunkVector.thy ===== *)
theory ChunkVector
  imports Prelude
begin

unbundle bit_operations_syntax

text \<open>
  The persistent 32-way radix vector of \<^verbatim>\<open>store_vector.go\<close> that holds the store's immutable document
  chunks. A chunk pointer is an \<open>'c option\<close>, a node two arrays of 32 pointers. The recursion over
  nodes follows the level, as in the code. Theory \<open>ChunkVectorCorrect\<close> has the proofs.
\<close>

datatype 'c storeChunkNode =
  CNode (children: "'c storeChunkNode option list") (leaves: "'c option list")

record 'c storeChunkVector =
  vroot :: "'c storeChunkNode option"
  vdepth :: nat
  vcount :: u32

definition emptyChunkNode :: "'c storeChunkNode" where
  "emptyChunkNode = CNode (replicate 32 None) (replicate 32 None)"

definition emptyVector :: "'c storeChunkVector" where
  "emptyVector = \<lparr>vroot = None, vdepth = 0, vcount = 0\<rparr>"

text \<open>\<^verbatim>\<open>(cid >> (uint(level)*5)) & 31\<close>.\<close>

definition chunkIndex :: "nat \<Rightarrow> u32 \<Rightarrow> nat" where
  "chunkIndex level cid = unat (drop_bit (level * 5) cid AND 31)"

section \<open>Access\<close>

primrec chunkGet :: "nat \<Rightarrow> 'c storeChunkNode \<Rightarrow> u32 \<Rightarrow> 'c option" where
  "chunkGet 0 node cid = leaves node ! unat (cid AND 31)"
| "chunkGet (Suc level) node cid =
     (case children node ! chunkIndex (Suc level) cid of
        None \<Rightarrow> None
      | Some node \<Rightarrow> chunkGet level node cid)"

definition vectorGet :: "'c storeChunkVector \<Rightarrow> u32 \<Rightarrow> 'c option" where
  "vectorGet v cid =
     (if cid \<ge> vcount v then None
      else case vroot v of None \<Rightarrow> None | Some node \<Rightarrow> chunkGet (vdepth v) node cid)"

primrec storeChunkSet :: "nat \<Rightarrow> 'c storeChunkNode option \<Rightarrow> u32 \<Rightarrow> 'c option \<Rightarrow> 'c storeChunkNode" where
  "storeChunkSet 0 node cid chunk =
     (let out = (case node of None \<Rightarrow> emptyChunkNode | Some n \<Rightarrow> n)
      in CNode (children out) ((leaves out)[unat (cid AND 31) := chunk]))"
| "storeChunkSet (Suc level) node cid chunk =
     (let out = (case node of None \<Rightarrow> emptyChunkNode | Some n \<Rightarrow> n);
          i = chunkIndex (Suc level) cid
      in CNode ((children out)[i := Some (storeChunkSet level (children out ! i) cid chunk)]) (leaves out))"

text \<open>\<^verbatim>\<open>set\<close> panics out of range: \<open>None\<close>.\<close>

definition vectorSet :: "'c storeChunkVector \<Rightarrow> u32 \<Rightarrow> 'c option \<Rightarrow> 'c storeChunkVector option" where
  "vectorSet v cid chunk =
     (if cid \<ge> vcount v then None
      else Some (v\<lparr>vroot := Some (storeChunkSet (vdepth v) (vroot v) cid chunk)\<rparr>))"

text \<open>The shared first half of the two appends: a full vector gets a new root above the old one.\<close>

definition growRoot :: "'c storeChunkVector \<Rightarrow> 'c storeChunkVector" where
  "growRoot v =
     (let capacity = (push_bit (vdepth v * 5) 32 :: u64)
      in if ucast (vcount v) = capacity
         then v\<lparr>vroot := Some (CNode ((replicate 32 None)[0 := vroot v]) (replicate 32 None)),
                vdepth := vdepth v + 1\<rparr>
         else v)"

definition vectorAppend :: "'c storeChunkVector \<Rightarrow> 'c option \<Rightarrow> 'c storeChunkVector \<times> u32" where
  "vectorAppend v chunk =
     (let cid = vcount v;
          v = growRoot v;
          v = v\<lparr>vcount := vcount v + 1\<rparr>;
          v = v\<lparr>vroot := Some (storeChunkSet (vdepth v) (vroot v) cid chunk)\<rparr>
      in (v, cid))"

text \<open>The builder's append mutates nodes it owns alone; the argument is the pointer cell and the result
  its content afterwards.\<close>

primrec storeChunkSetTransient ::
  "nat \<Rightarrow> 'c storeChunkNode option \<Rightarrow> u32 \<Rightarrow> 'c option \<Rightarrow> 'c storeChunkNode option" where
  "storeChunkSetTransient 0 node cid chunk =
     (let node = (if node = None then Some emptyChunkNode else node); n = the node
      in Some (CNode (children n) ((leaves n)[unat (cid AND 31) := chunk])))"
| "storeChunkSetTransient (Suc level) node cid chunk =
     (let node = (if node = None then Some emptyChunkNode else node); n = the node;
          i = chunkIndex (Suc level) cid
      in Some (CNode ((children n)[i := storeChunkSetTransient level (children n ! i) cid chunk]) (leaves n)))"

definition appendTransient :: "'c storeChunkVector \<Rightarrow> 'c option \<Rightarrow> 'c storeChunkVector \<times> u32" where
  "appendTransient v chunk =
     (let cid = vcount v;
          v = growRoot v;
          v = v\<lparr>vcount := vcount v + 1\<rparr>;
          v = v\<lparr>vroot := storeChunkSetTransient (vdepth v) (vroot v) cid chunk\<rparr>
      in (v, cid))"

section \<open>Search from a cursor\<close>

fun nextLeaf :: "u64 \<Rightarrow> u64 \<Rightarrow> nat \<Rightarrow> 'c option list \<Rightarrow> (u32 \<times> 'c) option" where
  "nextLeaf prefix count i [] = None"
| "nextLeaf prefix count i (x # xs) =
     (let cid = prefix + of_nat i in
      if cid \<ge> count then None
      else case x of Some chunk \<Rightarrow> Some (ucast cid, chunk) | None \<Rightarrow> nextLeaf prefix count (i + 1) xs)"

fun nextChild ::
  "('c storeChunkNode option \<Rightarrow> u64 \<Rightarrow> u64 \<Rightarrow> (u32 \<times> 'c) option) \<Rightarrow> nat \<Rightarrow> u64 \<Rightarrow> u64 \<Rightarrow> u64 \<Rightarrow> nat
     \<Rightarrow> 'c storeChunkNode option list \<Rightarrow> (u32 \<times> 'c) option" where
  "nextChild rec shift prefix count from i [] = None"
| "nextChild rec shift prefix count from i (x # xs) =
     (let childPrefix = prefix + push_bit shift (of_nat i) in
      if childPrefix \<ge> count then None
      else case rec x childPrefix (max from childPrefix) of
        Some r \<Rightarrow> Some r
      | None \<Rightarrow> nextChild rec shift prefix count from (i + 1) xs)"

primrec storeChunkNext ::
  "nat \<Rightarrow> u64 \<Rightarrow> 'c storeChunkNode option \<Rightarrow> u64 \<Rightarrow> u64 \<Rightarrow> (u32 \<times> 'c) option" where
  "storeChunkNext 0 count node prefix from =
     (case node of
        None \<Rightarrow> None
      | Some nd \<Rightarrow>
          if prefix \<ge> count then None
          else if from > prefix \<and> from - prefix \<ge> of_nat (length (leaves nd)) then None
          else let start = (if from > prefix then unat (from - prefix) else 0)
               in nextLeaf prefix count start (drop start (leaves nd)))"
| "storeChunkNext (Suc level) count node prefix from =
     (case node of
        None \<Rightarrow> None
      | Some nd \<Rightarrow>
          if prefix \<ge> count then None
          else let shift = Suc level * 5;
                   start = (if from > prefix then unat (drop_bit shift (from - prefix)) else 0)
               in if from > prefix \<and> start \<ge> length (children nd) then None
                  else nextChild (storeChunkNext level count) shift prefix count from start
                         (drop start (children nd)))"

definition vectorNext :: "'c storeChunkVector \<Rightarrow> u64 \<Rightarrow> (u32 \<times> 'c) option" where
  "vectorNext v from =
     (if vroot v = None \<or> from \<ge> ucast (vcount v) then None
      else storeChunkNext (vdepth v) (ucast (vcount v)) (vroot v) 0 from)"

section \<open>Iteration\<close>

text \<open>The callback \<open>fn\<close> carries its own state \<open>'s\<close> and answers whether to continue.\<close>

fun eachLeaf ::
  "(u32 \<Rightarrow> 'c \<Rightarrow> 's \<Rightarrow> bool \<times> 's) \<Rightarrow> u32 \<Rightarrow> u32 \<Rightarrow> nat \<Rightarrow> 'c option list \<Rightarrow> 's \<Rightarrow> bool \<times> 's" where
  "eachLeaf fn prefix count i [] s = (True, s)"
| "eachLeaf fn prefix count i (x # xs) s =
     (let cid = prefix OR of_nat i in
      if cid \<ge> count then (True, s)
      else case x of
        None \<Rightarrow> eachLeaf fn prefix count (i + 1) xs s
      | Some chunk \<Rightarrow>
          (case fn cid chunk s of
             (go, s') \<Rightarrow> if \<not> go then (False, s') else eachLeaf fn prefix count (i + 1) xs s'))"

fun eachChild ::
  "('c storeChunkNode \<Rightarrow> u32 \<Rightarrow> 's \<Rightarrow> bool \<times> 's) \<Rightarrow> nat \<Rightarrow> u32 \<Rightarrow> u32 \<Rightarrow> nat
     \<Rightarrow> 'c storeChunkNode option list \<Rightarrow> 's \<Rightarrow> bool \<times> 's" where
  "eachChild rec shift prefix count i [] s = (True, s)"
| "eachChild rec shift prefix count i (x # xs) s =
     (case x of
        None \<Rightarrow> eachChild rec shift prefix count (i + 1) xs s
      | Some child \<Rightarrow>
          let childPrefix = prefix OR push_bit shift (of_nat i) in
          if childPrefix \<ge> count then (True, s)
          else (case rec child childPrefix s of
                  (go, s') \<Rightarrow> if \<not> go then (False, s') else eachChild rec shift prefix count (i + 1) xs s'))"

primrec storeChunkEach ::
  "nat \<Rightarrow> u32 \<Rightarrow> (u32 \<Rightarrow> 'c \<Rightarrow> 's \<Rightarrow> bool \<times> 's) \<Rightarrow> 'c storeChunkNode \<Rightarrow> u32 \<Rightarrow> 's \<Rightarrow> bool \<times> 's" where
  "storeChunkEach 0 count fn node prefix s = eachLeaf fn prefix count 0 (leaves node) s"
| "storeChunkEach (Suc level) count fn node prefix s =
     eachChild (storeChunkEach level count fn) (Suc level * 5) prefix count 0 (children node) s"

definition vectorEach :: "'c storeChunkVector \<Rightarrow> (u32 \<Rightarrow> 'c \<Rightarrow> 's \<Rightarrow> bool \<times> 's) \<Rightarrow> 's \<Rightarrow> 's" where
  "vectorEach v fn s =
     (case vroot v of None \<Rightarrow> s | Some node \<Rightarrow> snd (storeChunkEach (vdepth v) (vcount v) fn node 0 s))"

end
