(* ===== verification/ChunkVectorCorrect.thy ===== *)
theory ChunkVectorCorrect
  imports ChunkVector
begin

unbundle bit_operations_syntax

text \<open>
  Correctness of the radix vector against the sequence of its chunk pointers: \<^verbatim>\<open>get\<close>, \<^verbatim>\<open>set\<close> and
  \<^verbatim>\<open>append\<close> are array access, update and extension; \<^verbatim>\<open>next\<close> finds the first materialized chunk
  from a cursor; \<^verbatim>\<open>each\<close> visits the materialized chunks in order.
\<close>

section \<open>Radix arithmetic\<close>

lemma unat_and_31: "unat (x AND 31) = unat x mod 32" for x :: "'a::len word"
proof -
  have "(31 :: 'a word) = mask 5" by (simp add: mask_eq_exp_minus_1)
  then have "x AND 31 = take_bit 5 x" by (simp add: take_bit_eq_mask)
  then show ?thesis by (simp only: unsigned_take_bit_eq) (simp add: take_bit_eq_mod)
qed

lemma chunkIndex_eq: "chunkIndex level cid = unat cid div 32 ^ level mod 32"
proof -
  have "(2::nat) ^ (level * 5) = 32 ^ level" by (simp add: power_mult mult.commute [of level])
  then show ?thesis by (simp add: chunkIndex_def unat_and_31 unat_drop_bit_eq) (simp add: drop_bit_eq_div)
qed

lemma chunkIndex_less: "chunkIndex level cid < 32"
  by (simp add: chunkIndex_eq)

lemma mod_radix:
  "(n::nat) mod (32 * K) = m mod (32 * K) \<longleftrightarrow> n div K mod 32 = m div K mod 32 \<and> n mod K = m mod K"
  if "0 < K"
proof -
  have e: "x mod (32 * K) = K * (x div K mod 32) + x mod K" for x :: nat
    by (simp add: mod_mult2_eq mult.commute [of 32])
  show ?thesis
  proof
    assume a: "n mod (32 * K) = m mod (32 * K)"
    have "n mod (32 * K) div K = m mod (32 * K) div K" "n mod (32 * K) mod K = m mod (32 * K) mod K"
      using a by simp_all
    then show "n div K mod 32 = m div K mod 32 \<and> n mod K = m mod K" unfolding e using that by simp
  next
    assume "n div K mod 32 = m div K mod 32 \<and> n mod K = m mod K"
    then show "n mod (32 * K) = m mod (32 * K)" unfolding e by simp
  qed
qed

section \<open>Nodes as partial sequences\<close>

primrec cn_get :: "nat \<Rightarrow> 'c storeChunkNode \<Rightarrow> nat \<Rightarrow> 'c option" where
  "cn_get 0 nd n = leaves nd ! (n mod 32)"
| "cn_get (Suc l) nd n =
     (case children nd ! (n div 32 ^ Suc l mod 32) of None \<Rightarrow> None | Some c \<Rightarrow> cn_get l c n)"

definition cn_get_opt :: "nat \<Rightarrow> 'c storeChunkNode option \<Rightarrow> nat \<Rightarrow> 'c option" where
  "cn_get_opt l node n = (case node of None \<Rightarrow> None | Some nd \<Rightarrow> cn_get l nd n)"

lemma cn_get_opt_simps [simp]:
  "cn_get_opt l None n = None" "cn_get_opt l (Some nd) n = cn_get l nd n"
  by (simp_all add: cn_get_opt_def)

lemma cn_get_Suc: "cn_get (Suc l) nd n = cn_get_opt l (children nd ! (n div 32 ^ Suc l mod 32)) n"
  by (simp add: cn_get_opt_def)

lemma chunkGet_eq: "chunkGet l nd cid = cn_get l nd (unat cid)"
  by (induction l arbitrary: nd) (auto simp: unat_and_31 chunkIndex_eq split: option.split)

text \<open>Well-formed subtree at prefix \<open>p\<close> of a vector of \<open>c\<close> chunks: arrays of 32, and a branch is
  materialized only where some position below \<open>c\<close> lies in it.\<close>

primrec cn_wf :: "nat \<Rightarrow> nat \<Rightarrow> nat \<Rightarrow> 'c storeChunkNode \<Rightarrow> bool" where
  "cn_wf 0 p c nd \<longleftrightarrow> length (leaves nd) = 32 \<and> length (children nd) = 32 \<and> p < c"
| "cn_wf (Suc l) p c nd \<longleftrightarrow> length (leaves nd) = 32 \<and> length (children nd) = 32 \<and> p < c \<and>
     (\<forall>i < 32. case children nd ! i of None \<Rightarrow> True | Some ch \<Rightarrow> cn_wf l (p + i * 32 ^ Suc l) c ch)"

definition cn_wf_opt :: "nat \<Rightarrow> nat \<Rightarrow> nat \<Rightarrow> 'c storeChunkNode option \<Rightarrow> bool" where
  "cn_wf_opt l p c node \<longleftrightarrow> (\<forall>nd. node = Some nd \<longrightarrow> cn_wf l p c nd)"

lemma cn_wf_opt_simps [simp]: "cn_wf_opt l p c None" "cn_wf_opt l p c (Some nd) \<longleftrightarrow> cn_wf l p c nd"
  by (simp_all add: cn_wf_opt_def)

lemma cn_wf_Suc:
  "cn_wf (Suc l) p c nd \<longleftrightarrow> length (leaves nd) = 32 \<and> length (children nd) = 32 \<and> p < c \<and>
     (\<forall>i < 32. cn_wf_opt l (p + i * 32 ^ Suc l) c (children nd ! i))"
  by (auto simp: cn_wf_opt_def split: option.splits)

lemma cn_wf_lengths:
  "cn_wf l p c nd \<Longrightarrow> length (leaves nd) = 32" "cn_wf l p c nd \<Longrightarrow> length (children nd) = 32"
  "cn_wf l p c nd \<Longrightarrow> p < c"
  by (cases l; simp)+

lemma cn_wf_mono: "cn_wf l p c nd \<Longrightarrow> c \<le> c' \<Longrightarrow> cn_wf l p c' nd"
  by (induction l arbitrary: p nd) (auto split: option.splits)

declare cn_get.simps(2) [simp del] cn_wf.simps(2) [simp del]

definition node_or_empty :: "'c storeChunkNode option \<Rightarrow> 'c storeChunkNode" where
  "node_or_empty node = (case node of None \<Rightarrow> emptyChunkNode | Some n \<Rightarrow> n)"

lemma emptyChunkNode_get [simp]: "cn_get l emptyChunkNode n = None"
  by (cases l) (simp_all add: emptyChunkNode_def cn_get_Suc)

lemma emptyChunkNode_wf: "p < c \<Longrightarrow> cn_wf l p c emptyChunkNode"
  by (cases l) (simp_all add: emptyChunkNode_def cn_wf_Suc)

lemma node_or_empty_wf: "cn_wf_opt l p c node \<Longrightarrow> p < c \<Longrightarrow> cn_wf l p c (node_or_empty node)"
  by (auto simp: node_or_empty_def cn_wf_opt_def emptyChunkNode_wf split: option.split)

lemma node_or_empty_get: "cn_get l (node_or_empty node) n = cn_get_opt l node n"
  by (simp add: node_or_empty_def cn_get_opt_def split: option.split)

lemma storeChunkSet_simps:
  "storeChunkSet 0 node cid chunk =
     CNode (children (node_or_empty node)) ((leaves (node_or_empty node))[unat cid mod 32 := chunk])"
  "storeChunkSet (Suc l) node cid chunk =
     (let out = node_or_empty node; i = unat cid div 32 ^ Suc l mod 32
      in CNode ((children out)[i := Some (storeChunkSet l (children out ! i) cid chunk)]) (leaves out))"
  by (simp_all add: node_or_empty_def Let_def chunkIndex_eq unat_and_31)

declare storeChunkSet.simps [simp del]

text \<open>Setting position \<open>n\<close> changes exactly the positions that agree with \<open>n\<close> on the radix digits of
  the subtree.\<close>

lemma storeChunkSet_get:
  "cn_wf_opt l p c node \<Longrightarrow> p < c \<Longrightarrow>
   cn_get l (storeChunkSet l node cid chunk) n =
     (if n mod 32 ^ Suc l = unat cid mod 32 ^ Suc l then chunk else cn_get_opt l node n)"
proof (induction l arbitrary: p node)
  case 0
  have "length (leaves (node_or_empty node)) = 32"
    using node_or_empty_wf [OF 0] by simp
  then show ?case
    using node_or_empty_get [of 0 node n, symmetric] by (auto simp: storeChunkSet_simps nth_list_update)
next
  case (Suc l)
  let ?o = "node_or_empty node"
  let ?i = "unat cid div 32 ^ Suc l mod 32"
  have wf: "cn_wf (Suc l) p c ?o" by (rule node_or_empty_wf [OF Suc.prems])
  then have len: "length (children ?o) = 32" by (rule cn_wf_lengths)
  show ?case
  proof (cases "n div 32 ^ Suc l mod 32 = ?i")
    case True
    let ?p = "p + ?i * 32 ^ Suc l"
    have wc: "cn_wf_opt l ?p c (children ?o ! ?i)" using wf by (simp add: cn_wf_Suc)
    have ih: "cn_get l (storeChunkSet l (children ?o ! ?i) cid chunk) n =
      (if n mod 32 ^ Suc l = unat cid mod 32 ^ Suc l then chunk else cn_get_opt l (children ?o ! ?i) n)"
    proof (cases "?p < c")
      case True then show ?thesis using Suc.IH [OF wc] by simp
    next
      case False
      then have "children ?o ! ?i = None" using wc by (cases "children ?o ! ?i") (auto dest: cn_wf_lengths(3))
      then show ?thesis using Suc.IH [of 0 "None"] \<open>p < c\<close> Suc.IH [of p None] by simp
    qed
    show ?thesis
      using ih len True node_or_empty_get [of "Suc l" node n, symmetric] mod_radix [of "32 ^ Suc l" n "unat cid"]
      by (simp add: storeChunkSet_simps Let_def cn_get_Suc)
  next
    case False
    then show ?thesis
      using len node_or_empty_get [of "Suc l" node n, symmetric] mod_radix [of "32 ^ Suc l" n "unat cid"]
      by (simp add: storeChunkSet_simps Let_def cn_get_Suc nth_list_update)
  qed
qed

lemma storeChunkSet_wf:
  "cn_wf_opt l p c node \<Longrightarrow> p \<le> unat cid \<Longrightarrow> unat cid < c \<Longrightarrow> p mod 32 ^ Suc l = 0 \<Longrightarrow> unat cid < p + 32 ^ Suc l \<Longrightarrow>
   cn_wf l p c (storeChunkSet l node cid chunk)"
proof (induction l arbitrary: p node)
  case 0
  then show ?case using node_or_empty_wf [of 0 p c node] by (simp add: storeChunkSet_simps)
next
  case (Suc l)
  let ?o = "node_or_empty node"
  let ?i = "unat cid div 32 ^ Suc l mod 32"
  let ?p = "p + ?i * 32 ^ Suc l"
  have wf: "cn_wf (Suc l) p c ?o" by (rule node_or_empty_wf) (use Suc.prems in auto)
  define K where "K = (32::nat) ^ Suc l"
  have K: "0 < K" "32 ^ Suc (Suc l) = 32 * K" by (simp_all add: K_def)
  obtain q where q: "p = 32 * K * q" using Suc.prems(4) K by (auto simp: mod_eq_0_iff_dvd)
  have lo: "unat cid - p < 32 * K" "unat cid = p + (unat cid - p)" using Suc.prems K by auto
  have "unat cid div K = 32 * q + (unat cid - p) div K"
  proof -
    have "unat cid = (unat cid - p) + K * (32 * q)" using lo(2) q by simp
    then have "unat cid div K = ((unat cid - p) + K * (32 * q)) div K" by (rule arg_cong)
    also have "\<dots> = 32 * q + (unat cid - p) div K" using K(1) by (simp only: div_mult_self2 less_numeral_extra neq0_conv simp_thms)
    finally show ?thesis .
  qed
  moreover have "(unat cid - p) div K < 32" using lo(1) K(1) by (simp add: less_mult_imp_div_less)
  ultimately have i: "?i = (unat cid - p) div K" unfolding K_def [symmetric] by simp
  have pe: "?p = p + (unat cid - p) div K * K" using i unfolding K_def [symmetric] by simp
  have b: "?p \<le> unat cid" "unat cid < ?p + K"
    using dividend_less_div_times [OF K(1), of "unat cid - p"] div_times_less_eq_dividend [of "unat cid - p" K]
      Suc.prems(2) pe by linarith+
  have "?p mod K = 0" using q unfolding K_def [symmetric] by simp
  then have "cn_wf l ?p c (storeChunkSet l (children ?o ! ?i) cid chunk)"
    using Suc.IH [of ?p "children ?o ! ?i"] wf b Suc.prems(3) by (simp add: cn_wf_Suc K_def)
  then show ?case
    using wf by (auto simp: storeChunkSet_simps Let_def cn_wf_Suc nth_list_update)
qed

section \<open>Vectors as sequences\<close>

definition vec_wf :: "'c storeChunkVector \<Rightarrow> bool" where
  "vec_wf v \<longleftrightarrow>
     (case vroot v of None \<Rightarrow> vcount v = 0 \<and> vdepth v = 0 | Some nd \<Rightarrow> cn_wf (vdepth v) 0 (unat (vcount v)) nd) \<and>
     unat (vcount v) \<le> 32 ^ Suc (vdepth v) \<and> (vdepth v = 0 \<or> 32 ^ vdepth v < unat (vcount v))"

definition vec_abs :: "'c storeChunkVector \<Rightarrow> 'c option list" where
  "vec_abs v = map (cn_get_opt (vdepth v) (vroot v)) [0..<unat (vcount v)]"

lemma vec_abs_nth: "i < unat (vcount v) \<Longrightarrow> vec_abs v ! i = cn_get_opt (vdepth v) (vroot v) i"
  by (simp add: vec_abs_def)

lemma length_vec_abs [simp]: "length (vec_abs v) = unat (vcount v)"
  by (simp add: vec_abs_def)

lemma emptyVector_wf: "vec_wf emptyVector" "vec_abs emptyVector = []"
  by (simp_all add: vec_wf_def emptyVector_def vec_abs_def)

lemma vec_wf_depth:
  assumes "vec_wf v"
  shows "vdepth v \<le> 6"
proof (rule ccontr)
  assume "\<not> vdepth v \<le> 6"
  then have "(32::nat) ^ 7 \<le> 32 ^ vdepth v" by (intro power_increasing) auto
  also have "\<dots> < unat (vcount v)" using assms \<open>\<not> vdepth v \<le> 6\<close> by (auto simp: vec_wf_def)
  also have "\<dots> < 2 ^ 32" using unsigned_less [of "vcount v"] by simp
  finally show False by simp
qed

lemma vectorGet_abs: "vectorGet v cid = (if unat cid < length (vec_abs v) then vec_abs v ! unat cid else None)"
  by (auto simp: vectorGet_def vec_abs_nth chunkGet_eq word_le_nat_alt split: option.split)

lemma vec_wf_root: "vec_wf v \<Longrightarrow> 0 < unat (vcount v) \<Longrightarrow> \<exists>nd. vroot v = Some nd \<and> cn_wf (vdepth v) 0 (unat (vcount v)) nd"
  by (auto simp: vec_wf_def split: option.splits)

text \<open>Writing position \<open>cid\<close> through the root.\<close>

lemma root_set:
  assumes "cn_wf_opt d 0 c root" "unat cid < c" "c \<le> 32 ^ Suc d"
  shows "cn_wf d 0 c (storeChunkSet d root cid chunk)"
    "n < c \<Longrightarrow> cn_get d (storeChunkSet d root cid chunk) n = (if n = unat cid then chunk else cn_get_opt d root n)"
proof -
  show "cn_wf d 0 c (storeChunkSet d root cid chunk)"
    by (rule storeChunkSet_wf) (use assms in auto)
  assume n: "n < c"
  then have "n mod 32 ^ Suc d = n" "unat cid mod 32 ^ Suc d = unat cid" using assms by (auto intro!: mod_less)
  then show "cn_get d (storeChunkSet d root cid chunk) n = (if n = unat cid then chunk else cn_get_opt d root n)"
    using storeChunkSet_get [OF assms(1), of cid chunk n] assms(2) by simp
qed

lemma vectorSet_abs:
  assumes "vec_wf v"
  shows "vectorSet v cid chunk = None \<longleftrightarrow> length (vec_abs v) \<le> unat cid"
    "vectorSet v cid chunk = Some v' \<Longrightarrow> vec_wf v' \<and> vec_abs v' = (vec_abs v)[unat cid := chunk]"
proof -
  show "vectorSet v cid chunk = None \<longleftrightarrow> length (vec_abs v) \<le> unat cid"
    by (simp add: vectorSet_def word_le_nat_alt)
  assume s: "vectorSet v cid chunk = Some v'"
  then have lt: "unat cid < unat (vcount v)"
    and v': "v' = v\<lparr>vroot := Some (storeChunkSet (vdepth v) (vroot v) cid chunk)\<rparr>"
    by (auto simp: vectorSet_def word_le_nat_alt split: if_splits)
  obtain nd where nd: "vroot v = Some nd" "cn_wf (vdepth v) 0 (unat (vcount v)) nd"
    using vec_wf_root [OF assms] lt by auto
  have wf: "cn_wf_opt (vdepth v) 0 (unat (vcount v)) (vroot v)" using nd by simp
  have le: "unat (vcount v) \<le> 32 ^ Suc (vdepth v)" using assms by (simp add: vec_wf_def)
  note r = root_set [OF wf lt le, where chunk = chunk]
  show "vec_wf v' \<and> vec_abs v' = (vec_abs v)[unat cid := chunk]"
    using v' r assms by (auto simp: vec_wf_def vec_abs_nth nth_list_update intro!: nth_equalityI)
qed

lemma growRoot_full:
  assumes "vec_wf v"
  shows "(ucast (vcount v) = (push_bit (vdepth v * 5) 32 :: u64)) \<longleftrightarrow> unat (vcount v) = 32 ^ Suc (vdepth v)"
proof -
  have d: "vdepth v \<le> 6" by (rule vec_wf_depth [OF assms])
  then have "(2::nat) ^ (vdepth v * 5) \<le> 2 ^ 30" by (intro power_increasing) auto
  then have "32 * 2 ^ (vdepth v * 5) < (2::nat) ^ 64" by simp
  then have "unat (push_bit (vdepth v * 5) 32 :: u64) = 32 * 2 ^ (vdepth v * 5)"
    by (simp only: unsigned_push_bit_eq) (simp add: push_bit_eq_mult take_bit_eq_mod)
  also have "\<dots> = 32 ^ Suc (vdepth v)" by (simp add: power_mult mult.commute [of _ 5])
  finally have p: "unat (push_bit (vdepth v * 5) 32 :: u64) = 32 ^ Suc (vdepth v)" .
  have "unat (ucast (vcount v) :: u64) = unat (vcount v)" by simp
  then show ?thesis using p by (simp only: word_unat_eq_iff)
qed

lemma growRoot_abs:
  assumes "vec_wf v" "unat (vcount v) < 2 ^ 32 - 1"
  defines "w \<equiv> growRoot v"
  shows "cn_wf_opt (vdepth w) 0 (unat (vcount v) + 1) (vroot w)" "vcount w = vcount v"
    "unat (vcount v) + 1 \<le> 32 ^ Suc (vdepth w)" "vdepth w = 0 \<or> 32 ^ vdepth w < unat (vcount v) + 1"
    "n < unat (vcount v) \<Longrightarrow> cn_get_opt (vdepth w) (vroot w) n = cn_get_opt (vdepth v) (vroot v) n"
proof -
  let ?c = "unat (vcount v)"
  have inv: "cn_wf_opt (vdepth v) 0 ?c (vroot v)" "?c \<le> 32 ^ Suc (vdepth v)"
    using assms(1) by (auto simp: vec_wf_def cn_wf_opt_def split: option.splits)
  have inv1: "cn_wf_opt (vdepth v) 0 (?c + 1) (vroot v)"
    using inv(1) by (auto simp: cn_wf_opt_def intro: cn_wf_mono)
  have "cn_wf_opt (vdepth w) 0 (?c + 1) (vroot w) \<and> vcount w = vcount v \<and> ?c + 1 \<le> 32 ^ Suc (vdepth w) \<and>
      (vdepth w = 0 \<or> 32 ^ vdepth w < ?c + 1) \<and>
      (n < ?c \<longrightarrow> cn_get_opt (vdepth w) (vroot w) n = cn_get_opt (vdepth v) (vroot v) n)"
  proof (cases "?c = 32 ^ Suc (vdepth v)")
    case True
    then have w: "w = v\<lparr>vroot := Some (CNode ((replicate 32 None)[0 := vroot v]) (replicate 32 None)), vdepth := vdepth v + 1\<rparr>"
      using growRoot_full [OF assms(1)] by (simp add: w_def growRoot_def)
    show ?thesis
      unfolding w using inv1 True by (auto simp: cn_wf_Suc nth_list_update cn_get_Suc)
  next
    case False
    then have "w = v" using growRoot_full [OF assms(1)] by (simp add: w_def growRoot_def)
    then show ?thesis using False inv inv1 assms(1) by (auto simp: vec_wf_def)
  qed
  then show "cn_wf_opt (vdepth w) 0 (?c + 1) (vroot w)" "vcount w = vcount v"
    "?c + 1 \<le> 32 ^ Suc (vdepth w)" "vdepth w = 0 \<or> 32 ^ vdepth w < ?c + 1"
    "n < ?c \<Longrightarrow> cn_get_opt (vdepth w) (vroot w) n = cn_get_opt (vdepth v) (vroot v) n"
    by blast+
qed

lemma vectorAppend_abs:
  assumes "vec_wf v" "unat (vcount v) < 2 ^ 32 - 1" "vectorAppend v chunk = (v', cid)"
  shows "vec_wf v' \<and> vec_abs v' = vec_abs v @ [chunk] \<and> unat cid = length (vec_abs v)"
proof -
  let ?c = "unat (vcount v)"
  define w where "w = growRoot v"
  note g = growRoot_abs [OF assms(1,2), folded w_def]
  have v': "v' = w\<lparr>vcount := vcount v + 1, vroot := Some (storeChunkSet (vdepth w) (vroot w) (vcount v) chunk)\<rparr>"
    and cid: "cid = vcount v"
    using assms(3) g(2) by (auto simp: vectorAppend_def w_def Let_def)
  have c1: "unat (vcount v + 1) = ?c + 1"
    using assms(2) by (simp add: unat_word_ariths)
  note r = root_set [OF g(1) _ g(3), of "vcount v", where chunk = chunk, simplified]
  have wf: "vec_wf v'" using r(1) g(3,4) c1 by (simp add: v' vec_wf_def)
  have "vec_abs v' ! n = (vec_abs v @ [chunk]) ! n" if "n < ?c + 1" for n
    using that r(2) [of n] g(5) [of n] c1 by (auto simp: v' vec_abs_nth nth_append)
  then have "vec_abs v' = vec_abs v @ [chunk]" using c1 by (intro nth_equalityI) (auto simp: v')
  then show ?thesis using wf cid by simp
qed

lemma setTransient_eq: "storeChunkSetTransient l node cid chunk = Some (storeChunkSet l node cid chunk)"
  by (induction l arbitrary: node) (auto simp: storeChunkSet.simps Let_def split: option.split)

lemma appendTransient_eq: "appendTransient v chunk = vectorAppend v chunk"
  by (simp add: appendTransient_def vectorAppend_def setTransient_eq)

end
