(* ===== verification/ChunkVectorScan.thy ===== *)
theory ChunkVectorScan
  imports ChunkVectorCorrect
begin

unbundle bit_operations_syntax

text \<open>
  Search and iteration over the radix vector: both follow the list of materialized entries in
  increasing order of their ids.
\<close>

section \<open>Entries\<close>

definition entries :: "nat \<Rightarrow> nat \<Rightarrow> (nat \<Rightarrow> 'c option) \<Rightarrow> (nat \<times> 'c) list" where
  "entries lo hi g = concat (map (\<lambda>n. case g n of None \<Rightarrow> [] | Some c \<Rightarrow> [(n, c)]) [lo..<hi])"

lemma entries_empty [simp]: "hi \<le> lo \<Longrightarrow> entries lo hi g = []"
  by (simp add: entries_def)

lemma entries_step:
  "lo < hi \<Longrightarrow> entries lo hi g = (case g lo of None \<Rightarrow> [] | Some c \<Rightarrow> [(lo, c)]) @ entries (Suc lo) hi g"
  by (simp add: entries_def upt_conv_Cons)

lemma entries_split: "entries lo hi g = entries lo (min hi m) g @ entries (max lo m) hi g"
proof (cases "lo \<le> min hi m")
  case True
  then have "[lo..<hi] = [lo..<min hi m] @ [min hi m..<hi]" using upt_add_eq_append [of lo "min hi m" "hi - min hi m"] by simp
  moreover have "[min hi m..<hi] = [max lo m..<hi]" using True by (cases "hi \<le> m") auto
  ultimately show ?thesis by (simp add: entries_def)
next
  case False
  then show ?thesis by (cases "hi \<le> m") (auto simp: max_def min_def)
qed

lemma entries_cong: "(\<And>n. lo \<le> n \<Longrightarrow> n < hi \<Longrightarrow> g n = g' n) \<Longrightarrow> entries lo hi g = entries lo hi g'"
  unfolding entries_def by (intro arg_cong [where f = concat] map_cong) auto

lemma entries_None [simp]: "entries lo hi (\<lambda>n. None) = []"
  by (simp add: entries_def)

lemma fst_entries: "map fst (entries lo hi g) = filter (\<lambda>n. g n \<noteq> None) [lo..<hi]"
proof -
  have "map fst (concat (map (\<lambda>n. case g n of None \<Rightarrow> [] | Some c \<Rightarrow> [(n, c)]) xs)) = filter (\<lambda>n. g n \<noteq> None) xs" for xs
    by (induction xs) (auto split: option.split)
  then show ?thesis by (simp add: entries_def)
qed

lemma set_entries: "(n, c) \<in> set (entries lo hi g) \<longleftrightarrow> lo \<le> n \<and> n < hi \<and> g n = Some c"
  by (auto simp: entries_def split: option.splits)

definition first_entry :: "(nat \<times> 'c) list \<Rightarrow> (u32 \<times> 'c) option" where
  "first_entry es = (case es of [] \<Rightarrow> None | e # _ \<Rightarrow> Some (of_nat (fst e), snd e))"

lemma first_entry_append: "first_entry (a @ b) = (case first_entry a of None \<Rightarrow> first_entry b | Some r \<Rightarrow> Some r)"
  by (cases a) (auto simp: first_entry_def)

lemma first_entry_simps [simp]: "first_entry [] = None" "first_entry (e # es) = Some (of_nat (fst e), snd e)"
  by (simp_all add: first_entry_def)

fun visit :: "(u32 \<Rightarrow> 'c \<Rightarrow> 's \<Rightarrow> bool \<times> 's) \<Rightarrow> (nat \<times> 'c) list \<Rightarrow> 's \<Rightarrow> bool \<times> 's" where
  "visit fn [] s = (True, s)"
| "visit fn ((n, c) # es) s =
     (case fn (of_nat n) c s of (go, s') \<Rightarrow> if \<not> go then (False, s') else visit fn es s')"

lemma visit_append:
  "visit fn (a @ b) s = (case visit fn a s of (go, s') \<Rightarrow> if \<not> go then (False, s') else visit fn b s')"
  by (induction fn a s rule: visit.induct) (auto split: prod.splits)

text \<open>Inside child \<open>i\<close> of a node at a prefix that is a multiple of its span.\<close>

lemma child_range:
  assumes p: "p mod (32 * 32 ^ Suc l) = 0" and i: "i < 32"
    and n: "p + i * 32 ^ Suc l \<le> n" "n < p + Suc i * 32 ^ Suc l"
  shows "cn_get (Suc l) nd n = cn_get_opt l (children nd ! i) n"
proof -
  define K where "K = (32::nat) ^ Suc l"
  obtain q where q: "p = 32 * K * q" using p by (auto simp: mod_eq_0_iff_dvd K_def)
  have n': "p + i * K \<le> n" "n < p + i * K + K" using n by (simp_all add: K_def)
  obtain r where r: "n = K * (32 * q + i) + r" "r < K"
  proof (rule that)
    show "n = K * (32 * q + i) + (n - (p + i * K))" using n'(1) q by (simp add: algebra_simps)
    show "n - (p + i * K) < K" using n' by simp
  qed
  have "n div K = 32 * q + i" using r by simp
  then show ?thesis using i by (simp add: cn_get_Suc K_def [symmetric] del: power_Suc)
qed

section \<open>Search\<close>

lemma ucast_u32_of_nat: "(ucast (x :: u64) :: u32) = of_nat (unat x)"
  by (simp add: of_nat_unat)

lemma nextLeaf_eq:
  assumes "i \<le> 32" "length (leaves nd) = 32" "unat prefix mod 32 = 0" "unat prefix < unat count" "unat count < 2 ^ 32"
  shows "nextLeaf prefix count i (drop i (leaves nd)) =
     first_entry (entries (unat prefix + i) (min (unat count) (unat prefix + 32)) (cn_get 0 nd))"
  using assms
proof (induction "32 - i" arbitrary: i)
  case (Suc m)
  then have i: "i < 32" by simp
  have d: "drop i (leaves nd) = leaves nd ! i # drop (Suc i) (leaves nd)"
    using i Suc.prems(2) by (simp add: Cons_nth_drop_Suc)
  have u: "unat (prefix + of_nat i) = unat prefix + i"
    using Suc.prems i by (simp add: unat_word_ariths unsigned_of_nat take_bit_eq_mod)
  have g: "cn_get 0 nd (unat prefix + i) = leaves nd ! i"
    using Suc.prems(3) i by (simp add: mod_add_left_eq [symmetric])
  have ih: "nextLeaf prefix count (Suc i) (drop (Suc i) (leaves nd)) =
     first_entry (entries (unat prefix + Suc i) (min (unat count) (unat prefix + 32)) (cn_get 0 nd))"
    using Suc.hyps Suc.prems by (intro Suc.hyps(1)) auto
  show ?case
  proof (cases "unat prefix + i < unat count")
    case True
    then have "\<not> prefix + of_nat i \<ge> count" using u by (simp add: word_le_nat_alt)
    moreover have "entries (unat prefix + i) (min (unat count) (unat prefix + 32)) (cn_get 0 nd) =
      (case leaves nd ! i of None \<Rightarrow> [] | Some c \<Rightarrow> [(unat prefix + i, c)]) @
      entries (unat prefix + Suc i) (min (unat count) (unat prefix + 32)) (cn_get 0 nd)"
      using True i entries_step [of "unat prefix + i" "min (unat count) (unat prefix + 32)" "cn_get 0 nd"]
      unfolding g by simp
    moreover have "(ucast (prefix + of_nat i) :: u32) = of_nat (unat prefix + i)"
      unfolding ucast_u32_of_nat u ..
    ultimately show ?thesis using ih by (cases "leaves nd ! i") (simp_all add: d Let_def)
  next
    case False
    then have "prefix + of_nat i \<ge> count" using u by (simp add: word_le_nat_alt)
    then show ?thesis using False by (simp add: d Let_def)
  qed
qed simp

text \<open>The arithmetic of a child's prefix does not wrap at either width.\<close>

lemma unat_child_prefix:
  assumes "i < 32" "unat (prefix :: u64) < 2 ^ 32" "l \<le> 5"
  shows "unat (prefix + push_bit (Suc l * 5) (of_nat i)) = unat prefix + i * 32 ^ Suc l"
proof -
  have e: "(2::nat) ^ (Suc l * 5) = 32 ^ Suc l" by (simp only: power_mult mult.commute [of "Suc l"]) simp
  have "(32::nat) ^ Suc l \<le> 32 ^ 6" using assms(3) by (intro power_increasing) auto
  then have k: "(32::nat) ^ Suc l \<le> 2 ^ 30" by simp
  then have b: "i * 32 ^ Suc l < 2 ^ 36"
    using assms(1) mult_strict_mono' [of i 32 "32 ^ Suc l" "2 ^ 30 + 1"] by simp
  have u: "unat (of_nat i :: u64) = i" using assms(1) by (simp add: unsigned_of_nat take_bit_eq_mod)
  have "unat (push_bit (Suc l * 5) (of_nat i) :: u64) = take_bit 64 (i * 2 ^ (Suc l * 5))"
    by (simp only: unsigned_push_bit_eq u) (simp add: push_bit_eq_mult)
  also have "\<dots> = i * 32 ^ Suc l" using b unfolding e by (simp add: take_bit_eq_mod)
  finally have "unat (push_bit (Suc l * 5) (of_nat i) :: u64) = i * 32 ^ Suc l" .
  then show ?thesis using b assms(2) by (simp only: unat_word_ariths) simp
qed

lemma cn_get_opt_fun [simp]: "cn_get_opt l (Some nd) = cn_get l nd" "cn_get_opt l None = (\<lambda>n. None)"
  by (rule ext, simp)+

definition next_spec :: "nat \<Rightarrow> nat \<Rightarrow> 'c storeChunkNode option \<Rightarrow> nat \<Rightarrow> nat \<Rightarrow> (u32 \<times> 'c) option" where
  "next_spec l c node p f = first_entry (entries (max p f) (min c (p + 32 ^ Suc l)) (cn_get_opt l node))"

lemma nextChild_eq:
  assumes rec: "\<And>node prefix' from'. unat prefix' mod 32 ^ Suc l = 0 \<Longrightarrow> unat prefix' < unat count \<Longrightarrow>
      cn_wf_opt l (unat prefix') (unat count) node \<Longrightarrow> unat from' < 2 ^ 32 \<Longrightarrow>
      rec node prefix' from' = next_spec l (unat count) node (unat prefix') (unat from')"
    and wf: "cn_wf (Suc l) (unat prefix) (unat count) nd" and p: "unat prefix mod 32 ^ Suc (Suc l) = 0"
    and c: "unat count < 2 ^ 32" and l: "l \<le> 5" and f: "unat from < 2 ^ 32"
  shows "i \<le> 32 \<Longrightarrow> nextChild rec (Suc l * 5) prefix count from i (drop i (children nd)) =
     first_entry (entries (max (unat prefix + i * 32 ^ Suc l) (unat from))
       (min (unat count) (unat prefix + 32 ^ Suc (Suc l))) (cn_get (Suc l) nd))"
proof (induction "32 - i" arbitrary: i)
  case 0
  then have "i = 32" by simp
  then show ?case using cn_wf_lengths(2) [OF wf] by simp
next
  case (Suc m)
  define K where "K = (32::nat) ^ Suc l"
  have i: "i < 32" using Suc.hyps by simp
  have len: "length (children nd) = 32" by (rule cn_wf_lengths(2) [OF wf])
  have d: "drop i (children nd) = children nd ! i # drop (Suc i) (children nd)"
    using i len by (simp add: Cons_nth_drop_Suc)
  have KK: "32 ^ Suc (Suc l) = 32 * K" by (simp add: K_def)
  have pc: "unat prefix < unat count" by (rule cn_wf_lengths(3) [OF wf])
  let ?cp = "prefix + push_bit (Suc l * 5) (of_nat i)"
  have cp: "unat ?cp = unat prefix + i * K"
    using unat_child_prefix [OF i _ l, of prefix] pc c by (simp add: K_def)
  have ih: "nextChild rec (Suc l * 5) prefix count from (Suc i) (drop (Suc i) (children nd)) =
     first_entry (entries (max (unat prefix + Suc i * K) (unat from)) (min (unat count) (unat prefix + 32 * K)) (cn_get (Suc l) nd))"
    using Suc.hyps(1) [of "Suc i"] Suc.hyps(2) i unfolding K_def [symmetric] KK [symmetric] by simp
  let ?hi = "min (unat count) (unat prefix + 32 * K)"
  let ?lo = "max (unat prefix + i * K) (unat from)"
  show ?case
  proof (cases "unat ?cp < unat count")
    case False
    then have "?cp \<ge> count" by (simp add: word_le_nat_alt)
    then show ?thesis using False cp by (simp add: d Let_def K_def [symmetric] del: power_Suc)
  next
    case True
    have wc: "cn_wf_opt l (unat ?cp) (unat count) (children nd ! i)"
      using wf i unfolding cn_wf_Suc cp K_def by simp
    have m0: "unat ?cp mod 32 ^ Suc l = 0"
    proof -
      obtain q where "unat prefix = 32 * K * q" using p unfolding KK by (auto simp: mod_eq_0_iff_dvd)
      then have "unat ?cp = K * (32 * q + i)" unfolding cp by (simp add: algebra_simps)
      then show ?thesis unfolding K_def [symmetric] by simp
    qed
    have fmax: "unat (max from ?cp) = max (unat from) (unat ?cp)" by (simp add: max_def word_le_nat_alt)
    have r: "rec (children nd ! i) ?cp (max from ?cp) =
        first_entry (entries ?lo (min ?hi (unat prefix + Suc i * K)) (cn_get (Suc l) nd))"
    proof -
      have "rec (children nd ! i) ?cp (max from ?cp) = next_spec l (unat count) (children nd ! i) (unat ?cp) (unat (max from ?cp))"
        by (rule rec [OF m0 True wc]) (use f c True in \<open>simp add: fmax\<close>)
      also have "\<dots> = first_entry (entries ?lo (min (unat count) (unat ?cp + K)) (cn_get_opt l (children nd ! i)))"
        unfolding next_spec_def fmax K_def [symmetric] cp by (simp add: max.commute)
      also have "min (unat count) (unat ?cp + K) = min ?hi (unat prefix + Suc i * K)"
      proof -
        have "unat prefix + Suc i * K \<le> unat prefix + 32 * K" using i by (intro add_left_mono mult_le_mono1) simp
        then show ?thesis unfolding cp by (simp only: min.assoc min.absorb2) simp
      qed
      also have "entries ?lo (min ?hi (unat prefix + Suc i * K)) (cn_get_opt l (children nd ! i)) =
          entries ?lo (min ?hi (unat prefix + Suc i * K)) (cn_get (Suc l) nd)"
        by (rule entries_cong, rule child_range [symmetric, OF p [simplified power_Suc [of _ "Suc l"]] i]) (auto simp: K_def)
      finally show ?thesis .
    qed
    have "entries ?lo ?hi (cn_get (Suc l) nd) = entries ?lo (min ?hi (unat prefix + Suc i * K)) (cn_get (Suc l) nd) @
        entries (max (unat prefix + Suc i * K) (unat from)) ?hi (cn_get (Suc l) nd)"
      using entries_split [of ?lo ?hi "cn_get (Suc l) nd" "unat prefix + Suc i * K"]
      by (simp add: max.assoc max.commute max.left_commute max_absorb2)
    moreover have "\<not> ?cp \<ge> count" using True by (simp add: word_le_nat_alt)
    ultimately show ?thesis
      unfolding d KK K_def [symmetric]
      using r ih by (simp add: Let_def first_entry_append del: power_Suc split: option.split)
  qed
qed

lemma storeChunkNext_eq:
  "unat prefix mod 32 ^ Suc l = 0 \<Longrightarrow> unat prefix < unat count \<Longrightarrow> cn_wf_opt l (unat prefix) (unat count) node \<Longrightarrow>
   unat from < 2 ^ 32 \<Longrightarrow> unat count < 2 ^ 32 \<Longrightarrow> l \<le> 6 \<Longrightarrow>
   storeChunkNext l count node prefix from = next_spec l (unat count) node (unat prefix) (unat from)"
proof (induction l arbitrary: prefix "from" node)
  case 0
  show ?case
  proof (cases node)
    case (Some nd)
    have sub: "unat (from - prefix) = unat from - unat prefix" if "prefix < from"
      using that by (simp add: unat_sub order_less_imp_le)
    have len: "length (leaves nd) = 32" using 0(3) Some by simp
    note nl = nextLeaf_eq [of _ nd prefix count, OF _ len _ 0(2,5)]
    have p: "unat prefix mod 32 = 0" using 0(1) by simp
    have pc: "\<not> count \<le> prefix" using 0(2) by (simp add: word_le_nat_alt)
    consider "unat from \<le> unat prefix" | "unat prefix < unat from" "unat from - unat prefix \<ge> 32"
      | "unat prefix < unat from" "unat from - unat prefix < 32" by linarith
    then show ?thesis
    proof cases
      case 1
      then have "\<not> prefix < from" by (simp add: word_less_nat_alt)
      then show ?thesis using Some pc nl [of 0] p 1 by (simp add: next_spec_def max_def)
    next
      case 2
      then have f: "prefix < from" by (simp add: word_less_nat_alt)
      have "from - prefix \<ge> of_nat (length (leaves nd))" using sub [OF f] 2 len by (simp add: word_le_nat_alt)
      then show ?thesis using Some pc f 2 by (simp add: next_spec_def)
    next
      case 3
      then have f: "prefix < from" by (simp add: word_less_nat_alt)
      have "\<not> from - prefix \<ge> of_nat (length (leaves nd))" using sub [OF f] 3 len by (simp add: word_le_nat_alt)
      then show ?thesis
        using Some pc f 3 nl [of "unat from - unat prefix"] p sub [OF f] by (simp add: next_spec_def max_def)
    qed
  qed (simp add: next_spec_def cn_get_opt_def)
next
  case (Suc l)
  show ?case
  proof (cases node)
    case (Some nd)
    define K where "K = (32::nat) ^ Suc l"
    have wf: "cn_wf (Suc l) (unat prefix) (unat count) nd" using Suc.prems(3) Some by simp
    have l5: "l \<le> 5" using Suc.prems(6) by simp
    have len: "length (children nd) = 32" by (rule cn_wf_lengths(2) [OF wf])
    have pc: "\<not> count \<le> prefix" using Suc.prems(2) by (simp add: word_le_nat_alt)
    note nc = nextChild_eq [of l count "storeChunkNext l count", OF Suc.IH wf Suc.prems(1,5) l5 Suc.prems(4)]
    let ?hi = "min (unat count) (unat prefix + 32 ^ Suc (Suc l))"
    have spec: "next_spec (Suc l) (unat count) node (unat prefix) (unat from) =
        first_entry (entries (max (unat prefix) (unat from)) ?hi (cn_get (Suc l) nd))"
      by (simp add: next_spec_def Some cn_get_opt_def)
    let ?st = "if prefix < from then unat (drop_bit (Suc l * 5) (from - prefix)) else 0"
    have st: "?st = (if unat prefix < unat from then (unat from - unat prefix) div K else 0)"
    proof -
      have "(2::nat) ^ (Suc l * 5) = K" unfolding K_def by (simp only: power_mult mult.commute [of "Suc l"]) simp
      then show ?thesis
        by (simp add: word_less_nat_alt unat_drop_bit_eq unat_sub word_le_nat_alt) (simp add: drop_bit_eq_div)
    qed
    show ?thesis
    proof (cases "?st \<ge> 32")
      case True
      then have "unat prefix < unat from" "32 \<le> (unat from - unat prefix) div K" unfolding st by (auto split: if_splits)
      then have "32 * K \<le> unat from - unat prefix"
        using div_times_less_eq_dividend [of "unat from - unat prefix" K] mult_le_mono1 [of 32 _ K] by (meson order_trans)
      then have "unat prefix + 32 ^ Suc (Suc l) \<le> unat from" using \<open>unat prefix < unat from\<close> by (simp add: K_def)
      then show ?thesis
        using True \<open>unat prefix < unat from\<close> len pc Some spec
        by (simp add: Let_def word_less_nat_alt del: power_Suc mult_Suc)
    next
      case False
      have "max (unat prefix + ?st * K) (unat from) = max (unat prefix) (unat from)"
      proof (cases "unat prefix < unat from")
        case lt: True
        then have "unat prefix + (unat from - unat prefix) div K * K \<le> unat from"
          using div_times_less_eq_dividend [of "unat from - unat prefix" K] by linarith
        then show ?thesis unfolding st using lt by simp
      qed (unfold st, simp)
      then have "nextChild (storeChunkNext l count) (Suc l * 5) prefix count from ?st (drop ?st (children nd)) =
          first_entry (entries (max (unat prefix) (unat from)) ?hi (cn_get (Suc l) nd))"
        using nc [of ?st] False Suc.prems(5) l5 unfolding K_def by simp
      then show ?thesis
        using False len pc Some spec by (auto simp: Let_def simp del: power_Suc mult_Suc split: if_splits)
    qed
  qed (simp add: next_spec_def cn_get_opt_def)
qed

lemma vectorNext_eq:
  assumes "vec_wf v"
  shows "vectorNext v from = first_entry (entries (unat from) (unat (vcount v)) (cn_get_opt (vdepth v) (vroot v)))"
proof (cases "vroot v = None \<or> unat from \<ge> unat (vcount v)")
  case True
  then show ?thesis by (auto simp: vectorNext_def word_le_nat_alt)
next
  case False
  then obtain nd where nd: "vroot v = Some nd" by auto
  have wf: "cn_wf_opt (vdepth v) (unat (0::u64)) (unat (ucast (vcount v) :: u64)) (vroot v)"
    and c: "unat (vcount v) \<le> 32 ^ Suc (vdepth v)"
    using assms nd by (auto simp: vec_wf_def)
  have lt: "unat (vcount v) < 2 ^ 32" using unsigned_less [of "vcount v"] by simp
  have e: "storeChunkNext (vdepth v) (ucast (vcount v)) (vroot v) 0 from =
      next_spec (vdepth v) (unat (ucast (vcount v) :: u64)) (vroot v) (unat (0::u64)) (unat from)"
    by (rule storeChunkNext_eq [OF _ _ wf]) (use False lt vec_wf_depth [OF assms] in auto)
  have "min (unat (vcount v)) (32 ^ Suc (vdepth v)) = unat (vcount v)" using c by simp
  then show ?thesis using False e by (simp add: vectorNext_def next_spec_def word_le_nat_alt del: power_Suc)
qed

section \<open>Iteration\<close>

lemma or_push_bit_add:
  assumes p: "unat (prefix :: u32) mod 2 ^ (m + 5) = 0" and i: "i < 32" and b: "unat prefix + i * 2 ^ m < 2 ^ 32"
  shows "unat (prefix OR push_bit m (of_nat i)) = unat prefix + i * 2 ^ m"
proof -
  have "bit prefix n \<Longrightarrow> m + 5 \<le> n" for n
  proof (rule ccontr)
    assume a: "bit prefix n" "\<not> m + 5 \<le> n"
    have "take_bit (m + 5) (unat prefix) = 0" using p by (simp add: take_bit_eq_mod)
    then have "\<not> bit (take_bit (m + 5) (unat prefix)) n" by simp
    then show False using a by (simp add: bit_take_bit_iff bit_unsigned_iff)
  qed
  moreover have "bit (push_bit m (of_nat i) :: u32) n \<Longrightarrow> n < m + 5" for n
  proof -
    assume "bit (push_bit m (of_nat i) :: u32) n"
    then have "bit i (n - m)" "m \<le> n" by (auto simp: bit_push_bit_iff bit_of_nat_iff)
    moreover have "take_bit 5 i = i" using i by (simp add: take_bit_eq_mod)
    ultimately have "n - m < 5" by (metis bit_take_bit_iff)
    then show "n < m + 5" by simp
  qed
  ultimately have "prefix AND push_bit m (of_nat i) = 0"
    by (intro bit_word_eqI) (auto simp: bit_and_iff dest: leD)
  then have o: "prefix OR push_bit m (of_nat i) = prefix + push_bit m (of_nat i)"
    by (simp add: disjunctive_add_eq_or)
  have u: "unat (of_nat i :: u32) = i" using i by (simp add: unsigned_of_nat take_bit_eq_mod)
  have "unat (push_bit m (of_nat i) :: u32) = take_bit 32 (i * 2 ^ m)"
    by (simp only: unsigned_push_bit_eq u) (simp add: push_bit_eq_mult)
  also have "\<dots> = i * 2 ^ m" using b by (simp add: take_bit_eq_mod)
  finally show ?thesis using b unfolding o by (simp only: unat_word_ariths) simp
qed

lemma eachLeaf_eq:
  assumes "length (leaves nd) = 32" "unat prefix mod 32 = 0"
  shows "i \<le> 32 \<Longrightarrow> eachLeaf fn prefix count i (drop i (leaves nd)) s =
     visit fn (entries (unat prefix + i) (min (unat count) (unat prefix + 32)) (cn_get 0 nd)) s"
proof (induction "32 - i" arbitrary: i s)
  case 0
  then show ?case using assms by simp
next
  case (Suc m)
  then have i: "i < 32" by simp
  have d: "drop i (leaves nd) = leaves nd ! i # drop (Suc i) (leaves nd)"
    using i assms(1) by (simp add: Cons_nth_drop_Suc)
  have "unat prefix \<le> 2 ^ 32 - 32"
    using assms(2) unsigned_less [of prefix, where ?'a = nat] by (simp add: mod_eq_0_iff_dvd) (auto elim!: dvdE)
  then have u: "unat (prefix OR of_nat i) = unat prefix + i"
    using or_push_bit_add [of prefix 0 i] assms(2) i by simp
  have g: "cn_get 0 nd (unat prefix + i) = leaves nd ! i"
    using assms(2) i by (simp add: mod_add_left_eq [symmetric])
  have ih: "eachLeaf fn prefix count (Suc i) (drop (Suc i) (leaves nd)) s =
     visit fn (entries (unat prefix + Suc i) (min (unat count) (unat prefix + 32)) (cn_get 0 nd)) s" for s
    using Suc.hyps(1) [of "Suc i"] Suc.hyps(2) i by simp
  show ?case
  proof (cases "unat prefix + i < unat count")
    case True
    then have "\<not> (prefix OR of_nat i) \<ge> count" using u by (simp add: word_le_nat_alt)
    moreover have "entries (unat prefix + i) (min (unat count) (unat prefix + 32)) (cn_get 0 nd) =
      (case leaves nd ! i of None \<Rightarrow> [] | Some c \<Rightarrow> [(unat prefix + i, c)]) @
      entries (unat prefix + Suc i) (min (unat count) (unat prefix + 32)) (cn_get 0 nd)"
      using True i entries_step [of "unat prefix + i" "min (unat count) (unat prefix + 32)" "cn_get 0 nd"]
      unfolding g by simp
    moreover have "prefix OR of_nat i = of_nat (unat prefix + i)"
      by (simp add: word_unat_eq_iff [of "prefix OR of_nat i"] u [symmetric] del: of_nat_add)
    ultimately show ?thesis using ih by (cases "leaves nd ! i") (simp_all add: d Let_def split: prod.split)
  next
    case False
    then have "(prefix OR of_nat i) \<ge> count" using u by (simp add: word_le_nat_alt)
    then show ?thesis using False by (simp add: d Let_def)
  qed
qed

lemma eachChild_eq:
  assumes rec: "\<And>ch prefix' s. unat prefix' mod 32 ^ Suc l = 0 \<Longrightarrow> cn_wf l (unat prefix') (unat count) ch \<Longrightarrow>
      rec ch prefix' s = visit fn (entries (unat prefix') (min (unat count) (unat prefix' + 32 ^ Suc l)) (cn_get l ch)) s"
    and wf: "cn_wf (Suc l) (unat prefix) (unat count) nd" and p: "unat prefix mod 32 ^ Suc (Suc l) = 0"
  shows "i \<le> 32 \<Longrightarrow> eachChild rec (Suc l * 5) prefix count i (drop i (children nd)) s =
     visit fn (entries (unat prefix + i * 32 ^ Suc l)
       (min (unat count) (unat prefix + 32 ^ Suc (Suc l))) (cn_get (Suc l) nd)) s"
proof (induction "32 - i" arbitrary: i s)
  case 0
  then have "i = 32" by simp
  then show ?case using cn_wf_lengths(2) [OF wf] by simp
next
  case (Suc m)
  define K where "K = (32::nat) ^ Suc l"
  have i: "i < 32" using Suc.hyps by simp
  have len: "length (children nd) = 32" by (rule cn_wf_lengths(2) [OF wf])
  have d: "drop i (children nd) = children nd ! i # drop (Suc i) (children nd)"
    using i len by (simp add: Cons_nth_drop_Suc)
  have KK: "32 ^ Suc (Suc l) = 32 * K" by (simp add: K_def)
  have Kp: "(2::nat) ^ (Suc l * 5) = K" "(2::nat) ^ (Suc l * 5 + 5) = 32 * K"
    unfolding K_def by (simp_all only: power_add power_mult mult.commute [of "Suc l"]) simp_all
  let ?lo = "unat prefix + i * K" and ?hi = "min (unat count) (unat prefix + 32 * K)"
  let ?mid = "unat prefix + Suc i * K"
  have ih: "eachChild rec (Suc l * 5) prefix count (Suc i) (drop (Suc i) (children nd)) s =
     visit fn (entries ?mid ?hi (cn_get (Suc l) nd)) s" for s
    using Suc.hyps(1) [of "Suc i"] Suc.hyps(2) i unfolding K_def [symmetric] KK [symmetric] by simp
  have split: "entries ?lo ?hi (cn_get (Suc l) nd) =
      entries ?lo (min ?hi ?mid) (cn_get_opt l (children nd ! i)) @ entries ?mid ?hi (cn_get (Suc l) nd)"
  proof -
    have "entries ?lo (min ?hi ?mid) (cn_get_opt l (children nd ! i)) = entries ?lo (min ?hi ?mid) (cn_get (Suc l) nd)"
      by (rule entries_cong, rule child_range [symmetric, OF p [simplified power_Suc [of _ "Suc l"]] i]) (auto simp: K_def)
    then show ?thesis using entries_split [of ?lo ?hi "cn_get (Suc l) nd" ?mid] by (simp add: max_def)
  qed
  show ?case
  proof (cases "children nd ! i")
    case None
    then show ?thesis using ih split unfolding d KK K_def [symmetric] by (simp del: mult_Suc power_Suc)
  next
    case (Some ch)
    let ?cp = "prefix OR push_bit (Suc l * 5) (of_nat i)"
    have wc: "cn_wf l ?lo (unat count) ch" using wf i Some unfolding cn_wf_Suc K_def by (metis cn_wf_opt_simps(2))
    have lt: "?lo < unat count" by (rule cn_wf_lengths(3) [OF wc])
    then have "?lo < 2 ^ 32" using unsigned_less [of count, where ?'a = nat] by simp
    then have cp: "unat ?cp = ?lo" using or_push_bit_add [of prefix "Suc l * 5" i] p i unfolding Kp KK by simp
    have "?lo mod K = 0"
    proof -
      obtain q where "unat prefix = 32 * K * q" using p unfolding KK by (auto simp: mod_eq_0_iff_dvd)
      then have "?lo = K * (32 * q + i)" by (simp add: algebra_simps)
      then show ?thesis by simp
    qed
    then have r: "rec ch ?cp s = visit fn (entries ?lo (min (unat count) (?lo + K)) (cn_get l ch)) s" for s
      using rec [of ?cp ch] wc unfolding cp K_def by simp
    have "min (unat count) (?lo + K) = min ?hi ?mid"
    proof -
      have "?mid \<le> unat prefix + 32 * K" using i by (intro add_left_mono mult_le_mono1) simp
      then show ?thesis by (simp only: min.assoc min.absorb2) simp
    qed
    moreover have "\<not> ?cp \<ge> count" using lt cp by (simp add: word_le_nat_alt)
    ultimately show ?thesis
      using ih split r Some unfolding d KK K_def [symmetric]
      by (simp add: Let_def visit_append del: mult_Suc power_Suc split: prod.split)
  qed
qed

lemma storeChunkEach_eq:
  "unat prefix mod 32 ^ Suc l = 0 \<Longrightarrow> cn_wf l (unat prefix) (unat count) nd \<Longrightarrow>
   storeChunkEach l count fn nd prefix s =
     visit fn (entries (unat prefix) (min (unat count) (unat prefix + 32 ^ Suc l)) (cn_get l nd)) s"
proof (induction l arbitrary: prefix nd s)
  case 0
  then show ?case using eachLeaf_eq [of nd prefix 0 fn count s] by (simp del: cn_get.simps)
next
  case (Suc l)
  have "eachChild (storeChunkEach l count fn) (Suc l * 5) prefix count 0 (drop 0 (children nd)) s =
     visit fn (entries (unat prefix + 0 * 32 ^ Suc l)
       (min (unat count) (unat prefix + 32 ^ Suc (Suc l))) (cn_get (Suc l) nd)) s"
    by (rule eachChild_eq [OF Suc.IH Suc.prems(2,1)]) simp_all
  then show ?case by (simp del: mult_Suc power_Suc)
qed

lemma vectorEach_eq:
  assumes "vec_wf v"
  shows "vectorEach v fn s = snd (visit fn (entries 0 (unat (vcount v)) (cn_get_opt (vdepth v) (vroot v))) s)"
proof (cases "vroot v")
  case None
  then show ?thesis by (simp add: vectorEach_def)
next
  case (Some nd)
  then have wf: "cn_wf (vdepth v) (unat (0::u32)) (unat (vcount v)) nd" "unat (vcount v) \<le> 32 ^ Suc (vdepth v)"
    using assms by (auto simp: vec_wf_def)
  then have "min (unat (vcount v)) (32 ^ Suc (vdepth v)) = unat (vcount v)" by simp
  then show ?thesis
    using storeChunkEach_eq [OF _ wf(1), of fn s] Some by (simp add: vectorEach_def del: power_Suc)
qed

section \<open>The chunk vector as an array\<close>

locale chunk_array =
  fixes get :: "'v \<Rightarrow> u32 \<Rightarrow> 'c option"
    and set_at :: "'v \<Rightarrow> u32 \<Rightarrow> 'c option \<Rightarrow> 'v option"
    and append1 :: "'v \<Rightarrow> 'c option \<Rightarrow> 'v \<times> u32"
    and abs :: "'v \<Rightarrow> 'c option list"
    and inv :: "'v \<Rightarrow> bool"
  assumes get_abs: "inv v \<Longrightarrow> get v i = (if unat i < length (abs v) then abs v ! unat i else None)"
    and set_abs: "inv v \<Longrightarrow> set_at v i c = Some w \<Longrightarrow> inv w \<and> abs w = (abs v)[unat i := c]"
    and set_range: "inv v \<Longrightarrow> set_at v i c = None \<longleftrightarrow> length (abs v) \<le> unat i"
    and append_abs: "inv v \<Longrightarrow> length (abs v) < 2 ^ 32 - 1 \<Longrightarrow> append1 v c = (w, i) \<Longrightarrow>
      inv w \<and> abs w = abs v @ [c] \<and> unat i = length (abs v)"
begin

lemma get_set: "inv v \<Longrightarrow> set_at v i c = Some w \<Longrightarrow> get w j = (if j = i then c else get v j)"
  using set_abs [of v i c w] set_range [of v i c] get_abs [of v j] get_abs [of w j]
  by (auto simp: nth_list_update word_unat_eq_iff not_le)

lemma append_all:
  "inv v \<Longrightarrow> length (abs v) + length cs < 2 ^ 32 \<Longrightarrow>
   inv (fold (\<lambda>c v. fst (append1 v c)) cs v) \<and> abs (fold (\<lambda>c v. fst (append1 v c)) cs v) = abs v @ cs"
proof (induction cs arbitrary: v)
  case (Cons c cs)
  obtain w i where "append1 v c = (w, i)" by (cases "append1 v c")
  then show ?case using append_abs [of v c w i] Cons.IH [of w] Cons.prems by simp
qed simp

end

lemma vector_append_law:
  "vec_wf v \<Longrightarrow> length (vec_abs v) < 2 ^ 32 - 1 \<Longrightarrow> vectorAppend v c = (w, i) \<Longrightarrow>
   vec_wf w \<and> vec_abs w = vec_abs v @ [c] \<and> unat i = length (vec_abs v)"
  using vectorAppend_abs [of v c w i] by simp

interpretation vector: chunk_array vectorGet vectorSet vectorAppend vec_abs vec_wf
  by unfold_locales
    (rule vectorGet_abs, erule (1) vectorSet_abs(2), erule vectorSet_abs(1), erule (2) vector_append_law)

interpretation transient: chunk_array vectorGet vectorSet appendTransient vec_abs vec_wf
  unfolding appendTransient_eq [abs_def]
  by (rule vector.chunk_array_axioms)

section \<open>Properties\<close>

text \<open>C9. Appending a list of chunk pointers to the empty vector, by the persistent append or by the
  builder's in-place one, makes \<^verbatim>\<open>get\<close> return exactly the list's entries, across every growth of the
  root, as long as the ids fit 32 bits.\<close>

theorem append_then_get:
  assumes "length cs < 2 ^ 32"
  shows "vectorGet (fold (\<lambda>c v. fst (vectorAppend v c)) cs emptyVector) i =
      (if unat i < length cs then cs ! unat i else None) \<and>
    fold (\<lambda>c v. fst (appendTransient v c)) cs emptyVector = fold (\<lambda>c v. fst (vectorAppend v c)) cs emptyVector"
proof -
  have abs: "vec_abs (fold (\<lambda>c v. fst (vectorAppend v c)) cs emptyVector) = cs"
    using vector.append_all [OF emptyVector_wf(1), of cs] assms by (simp add: emptyVector_wf(2))
  show ?thesis by (simp only: vectorGet_abs abs appendTransient_eq simp_thms)
qed

theorem append_then_get_witness:
  "vectorGet (fold (\<lambda>c v. fst (vectorAppend v c)) (replicate 40 (Some True)) emptyVector) 37 = Some True"
  using append_then_get [of "replicate 40 (Some True)" 37] by simp

text \<open>\<^verbatim>\<open>set\<close> panics exactly on an id out of range; otherwise it keeps the vector well formed and
  changes what \<^verbatim>\<open>get\<close> returns for that id only.\<close>

theorem vectorSet_correct:
  assumes "vec_wf v"
  shows "(vectorSet v i c = None \<longleftrightarrow> i \<ge> vcount v) \<and>
    (\<forall>w. vectorSet v i c = Some w \<longrightarrow> vec_wf w \<and> (\<forall>j. vectorGet w j = (if j = i then c else vectorGet v j)))"
  using vector.get_set [OF assms] vectorSet_abs [OF assms] by (auto simp: word_le_nat_alt)

lemma one_chunk_wf: "vec_wf (fst (vectorAppend emptyVector c))"
  using vector.append_all [OF emptyVector_wf(1), of "[c]"] by (simp add: emptyVector_wf(2))

theorem vectorSet_correct_witness:
  "\<exists>w. vectorSet (fst (vectorAppend emptyVector (Some True))) 0 (Some False) = Some w \<and> vectorGet w 0 = Some False"
  using vectorSet_correct [OF one_chunk_wf [of "Some True"], of 0 "Some False"]
  by (auto simp: vectorAppend_def emptyVector_def growRoot_def Let_def)

text \<open>\<^verbatim>\<open>next\<close> returns the materialized chunk with the smallest id at or above the cursor, and
  nothing exactly when there is none.\<close>

theorem vectorNext_correct:
  assumes "vec_wf v"
  shows "case vectorNext v from of
      None \<Rightarrow> \<forall>j. unat from \<le> unat j \<longrightarrow> vectorGet v j = None
    | Some (j, c) \<Rightarrow> unat from \<le> unat j \<and> vectorGet v j = Some c \<and>
        (\<forall>k. unat from \<le> unat k \<and> k < j \<longrightarrow> vectorGet v k = None)"
proof -
  define es where "es = entries (unat from) (unat (vcount v)) (cn_get_opt (vdepth v) (vroot v))"
  have mem: "(unat j, c) \<in> set es \<longleftrightarrow> unat from \<le> unat j \<and> vectorGet v j = Some c" for j c
    using vectorGet_abs [of v j] by (auto simp: es_def set_entries vec_abs_nth)
  have sorted: "sorted (map fst es)"
    unfolding es_def fst_entries by (simp add: sorted_wrt_filter)
  have nx: "vectorNext v from = first_entry es" using vectorNext_eq [OF assms] by (simp add: es_def)
  show ?thesis
  proof (cases es)
    case Nil
    then have "vectorGet v j = None" if "unat from \<le> unat j" for j
      using mem [of j] that by (cases "vectorGet v j") auto
    then show ?thesis using nx Nil by simp
  next
    case (Cons e rest)
    obtain n c where e: "e = (n, c)" by (cases e)
    have "(n, c) \<in> set es" using Cons e by simp
    then have "n < unat (vcount v)" by (simp add: es_def set_entries)
    then have n: "unat (of_nat n :: u32) = n"
      using unsigned_less [of "vcount v", where ?'a = nat] by (simp add: unsigned_of_nat take_bit_eq_mod)
    have "vectorGet v k = None" if kn: "unat from \<le> unat k" "unat k < n" for k
    proof (rule ccontr)
      assume "vectorGet v k \<noteq> None"
      then obtain d where "(unat k, d) \<in> set es" using mem kn(1) by auto
      then show False using sorted kn(2) Cons e by (auto simp: in_set_conv_decomp)
    qed
    then show ?thesis
      using nx Cons e mem [of "of_nat n" c] n by (auto simp: word_less_nat_alt)
  qed
qed

theorem vectorNext_correct_witness:
  "vectorNext (fst (vectorAppend emptyVector (Some True))) 0 \<noteq> None"
proof
  assume n: "vectorNext (fst (vectorAppend emptyVector (Some True))) 0 = None"
  have "vectorGet (fst (vectorAppend emptyVector (Some True))) 0 = Some True"
    using vector.append_all [OF emptyVector_wf(1), of "[Some True]"] by (simp add: vectorGet_abs emptyVector_wf(2) del: length_vec_abs)
  then show False using vectorNext_correct [OF one_chunk_wf [of "Some True"], of 0] n by auto
qed

text \<open>\<^verbatim>\<open>each\<close> calls its function on exactly the materialized chunks below the count, in increasing id
  order, and stops at the first call that answers false.\<close>

theorem vectorEach_correct:
  assumes "vec_wf v"
  shows "vectorEach v fn s =
     snd (visit fn (entries 0 (unat (vcount v)) (\<lambda>n. vectorGet v (of_nat n))) s)"
proof -
  have "entries 0 (unat (vcount v)) (cn_get_opt (vdepth v) (vroot v)) =
      entries 0 (unat (vcount v)) (\<lambda>n. vectorGet v (of_nat n))"
  proof (rule entries_cong)
    fix n assume n: "n < unat (vcount v)"
    then have "unat (of_nat n :: u32) = n"
      using unsigned_less [of "vcount v", where ?'a = nat] by (simp add: unsigned_of_nat take_bit_eq_mod)
    then show "cn_get_opt (vdepth v) (vroot v) n = vectorGet v (of_nat n)"
      using n by (simp add: vectorGet_abs vec_abs_nth)
  qed
  then show ?thesis by (simp add: vectorEach_eq [OF assms])
qed

theorem vectorEach_correct_witness:
  "vectorEach (fst (vectorAppend emptyVector (Some True))) (\<lambda>i c s. (True, (i, c) # s)) [] = [(0, True)]"
proof -
  let ?v = "fst (vectorAppend emptyVector (Some True))"
  have "vec_abs ?v = [Some True]"
    using vector.append_all [OF emptyVector_wf(1), of "[Some True]"] by (simp add: emptyVector_wf(2))
  then have g: "vectorGet ?v 0 = Some True" "unat (vcount ?v) = 1"
    using length_vec_abs [of ?v] by (simp_all add: vectorGet_abs del: length_vec_abs)
  show ?thesis
    using vectorEach_correct [OF one_chunk_wf [of "Some True"], of "\<lambda>i c s. (True, (i, c) # s)" "[]"] g
    by (simp add: entries_step)
qed

end
