(* ===== verification/Ttl.thy ===== *)
theory Ttl
  imports Hamt "HOL-Library.Multiset"
begin

unbundle bit_operations_syntax

text \<open>
  The expiration metadata of \<^verbatim>\<open>store_ttl.go\<close>: a four-ary min-heap of deadlines with a map from key to
  heap position, and the collection loop of \<^verbatim>\<open>ExpireDue\<close>. \<open>TtlCorrect\<close> has the proofs.
\<close>

section \<open>Keys and instants\<close>

type_synonym storeTTLKey = u64

definition storeTTLKeyOf :: "storeLocation \<Rightarrow> storeTTLKey" where
  "storeTTLKeyOf loc = push_bit 8 (ucast (l_chunk loc)) OR ucast (l_slot loc)"

definition keyLocation :: "storeTTLKey \<Rightarrow> storeLocation" where
  "keyLocation k = \<lparr>l_chunk = ucast (drop_bit 8 k), l_slot = ucast k\<rparr>"

datatype storeInstant = Instant (sec: int) (nsec: int)

definition before :: "storeInstant \<Rightarrow> storeInstant \<Rightarrow> bool" where
  "before i other \<longleftrightarrow> sec i < sec other \<or> sec i = sec other \<and> nsec i < nsec other"

definition after :: "storeInstant \<Rightarrow> storeInstant \<Rightarrow> bool" where
  "after i other \<longleftrightarrow> before other i"

section \<open>The heap\<close>

record storeTTLItem =
  i_key :: storeTTLKey
  i_deadline :: storeInstant

record storeTTLState =
  heap :: "storeTTLItem list"
  pos :: "storeTTLKey \<rightharpoonup> nat"

definition emptyTTL :: storeTTLState where
  "emptyTTL = \<lparr>heap = [], pos = Map.empty\<rparr>"

definition swap :: "storeTTLState \<Rightarrow> nat \<Rightarrow> nat \<Rightarrow> storeTTLState" where
  "swap t a b =
     (let h = (heap t)[a := heap t ! b, b := heap t ! a]
      in t\<lparr>heap := h, pos := (pos t)(i_key (h ! a) \<mapsto> a, i_key (h ! b) \<mapsto> b)\<rparr>)"

function up :: "storeTTLState \<Rightarrow> nat \<Rightarrow> storeTTLState" where
  "up t i =
     (if i > 0 then
        let parent = (i - 1) div 4 in
        if \<not> before (i_deadline (heap t ! i)) (i_deadline (heap t ! parent)) then t
        else up (swap t parent i) parent
      else t)"
  by pat_completeness auto
termination by (relation "measure snd") auto

text \<open>The inner loop of \<^verbatim>\<open>down\<close>: the earliest of the children \<open>ch .. stop - 1\<close> and \<open>best\<close>.\<close>

function bestChild :: "storeTTLItem list \<Rightarrow> nat \<Rightarrow> nat \<Rightarrow> nat \<Rightarrow> nat" where
  "bestChild h best ch stop =
     (if ch < stop then
        bestChild h (if before (i_deadline (h ! ch)) (i_deadline (h ! best)) then ch else best) (ch + 1) stop
      else best)"
  by pat_completeness auto
termination by (relation "measure (\<lambda>(h, best, ch, stop). stop - ch)") auto

declare up.simps [simp del] bestChild.simps [simp del]

lemma bestChild_range:
  "lo \<le> best \<Longrightarrow> best < ch \<Longrightarrow> ch \<le> stop \<Longrightarrow> lo \<le> bestChild h best ch stop \<and> bestChild h best ch stop < stop"
proof (induction h best ch stop rule: bestChild.induct)
  case (1 h best ch stop)
  then show ?case by (subst (1 2) bestChild.simps) (auto split: if_splits)
qed

lemma length_swap [simp]: "length (heap (swap t a b)) = length (heap t)"
  by (simp add: swap_def Let_def)

function down :: "storeTTLState \<Rightarrow> nat \<Rightarrow> storeTTLState" where
  "down t i =
     (let first = i * 4 + 1 in
      if first \<ge> length (heap t) then t
      else let best = bestChild (heap t) first (first + 1) (min (first + 4) (length (heap t))) in
        if \<not> before (i_deadline (heap t ! best)) (i_deadline (heap t ! i)) then t
        else down (swap t i best) best)"
  by pat_completeness auto
termination
proof (relation "measure (\<lambda>(t, i). length (heap t) - i)")
  fix t :: storeTTLState and i first best
  assume a: "first = i * 4 + 1" "\<not> first \<ge> length (heap t)"
    "best = bestChild (heap t) first (first + 1) (min (first + 4) (length (heap t)))"
  then have "first \<le> best \<and> best < min (first + 4) (length (heap t))"
    by (simp only: a(3)) (rule bestChild_range; simp)
  then have "i < best" "best < length (heap t)" using a(1) by auto
  then show "((swap t i best, best), (t, i)) \<in> measure (\<lambda>(t, i). length (heap t) - i)" by simp
qed simp

declare down.simps [simp del]

definition upsert :: "storeTTLState \<Rightarrow> storeTTLKey \<Rightarrow> storeInstant \<Rightarrow> storeTTLState" where
  "upsert t key deadline =
     (case pos t key of
        Some i \<Rightarrow>
          let old = i_deadline (heap t ! i);
              t = t\<lparr>heap := (heap t)[i := (heap t ! i)\<lparr>i_deadline := deadline\<rparr>]\<rparr>
          in if before deadline old then up t i else down t i
      | None \<Rightarrow>
          let i = length (heap t);
              t = t\<lparr>heap := heap t @ [\<lparr>i_key = key, i_deadline = deadline\<rparr>], pos := (pos t)(key \<mapsto> i)\<rparr>
          in up t i)"

definition removeAt :: "storeTTLState \<Rightarrow> nat \<Rightarrow> storeTTLItem \<times> storeTTLState" where
  "removeAt t i =
     (let removed = heap t ! i;
          last = length (heap t) - 1;
          t = t\<lparr>pos := (pos t)(i_key removed := None)\<rparr>
      in if i = last then (removed, t\<lparr>heap := take last (heap t)\<rparr>)
         else
           let t = t\<lparr>heap := take last ((heap t)[i := heap t ! last])\<rparr>;
               t = t\<lparr>pos := (pos t)(i_key (heap t ! i) \<mapsto> i)\<rparr>
           in (removed,
               if i > 0 \<and> before (i_deadline (heap t ! i)) (i_deadline (heap t ! ((i - 1) div 4)))
               then up t i else down t i))"

definition remove :: "storeTTLState \<Rightarrow> storeTTLKey \<Rightarrow> bool \<times> storeTTLState" where
  "remove t key =
     (case pos t key of
        None \<Rightarrow> (False, t)
      | Some i \<Rightarrow> (True, snd (removeAt t i)))"

section \<open>Collecting the due keys\<close>

lemma length_up: "length (heap (up t i)) = length (heap t)"
proof (induction t i rule: up.induct)
  case (1 t i)
  then show ?case by (subst up.simps) (auto simp: Let_def)
qed

lemma length_down: "length (heap (down t i)) = length (heap t)"
proof (induction t i rule: down.induct)
  case (1 t i)
  then show ?case by (subst down.simps) (auto simp: Let_def)
qed

lemma length_removeAt: "i < length (heap t) \<Longrightarrow> length (heap (snd (removeAt t i))) < length (heap t)"
  by (auto simp: removeAt_def Let_def length_up length_down)

text \<open>The collection loop of \<^verbatim>\<open>ExpireDue\<close>. \<open>live\<close> answers whether the location's slot is live in the
  published state, the code's chunk lookup and bit test; \<open>scratch\<close> is the batch so far.\<close>

function expireLoop ::
  "(storeLocation \<Rightarrow> bool) \<Rightarrow> storeInstant \<Rightarrow> int \<Rightarrow> storeTTLState \<Rightarrow> storeLocation list
     \<Rightarrow> storeLocation list \<times> storeTTLState" where
  "expireLoop live deadline limit t scratch =
     (if length (heap t) \<noteq> 0 \<and> \<not> after (i_deadline (heap t ! 0)) deadline \<and>
         (limit \<le> 0 \<or> int (length scratch) < limit) then
        let loc = keyLocation (i_key (fst (removeAt t 0)))
        in if \<not> live loc then expireLoop live deadline limit (snd (removeAt t 0)) scratch
           else expireLoop live deadline limit (snd (removeAt t 0)) (scratch @ [loc])
      else (scratch, t))"
  by pat_completeness auto
termination
  by (relation "measure (\<lambda>(live, deadline, limit, t, scratch). length (heap t))") (auto intro: length_removeAt)

declare expireLoop.simps [simp del]

end
