(* ===== verification/TtlCorrect.thy ===== *)
theory TtlCorrect
  imports Ttl Directory
begin

unbundle bit_operations_syntax

text \<open>
  Correctness of the deadline heap: the heap order and the position index are invariants of every
  operation, the heap is a map from keys to deadlines, and collecting due keys takes exactly those
  whose deadline has passed, earliest first.
\<close>

section \<open>Instants are linearly ordered\<close>

instantiation storeInstant :: linorder
begin

definition less_storeInstant :: "storeInstant \<Rightarrow> storeInstant \<Rightarrow> bool" where
  "less_storeInstant a b = before a b"

definition less_eq_storeInstant :: "storeInstant \<Rightarrow> storeInstant \<Rightarrow> bool" where
  "less_eq_storeInstant a b = (\<not> before b a)"

instance
  by standard (auto simp: less_storeInstant_def less_eq_storeInstant_def before_def intro: storeInstant.expand)

end

lemma before_less: "before a b \<longleftrightarrow> a < b"
  by (simp add: less_storeInstant_def)

lemma not_before_le: "\<not> before a b \<longleftrightarrow> b \<le> a"
  by (simp add: less_eq_storeInstant_def)

section \<open>The position index\<close>

abbreviation dl :: "storeTTLState \<Rightarrow> nat \<Rightarrow> storeInstant" where
  "dl t i \<equiv> i_deadline (heap t ! i)"

definition pos_ok :: "storeTTLState \<Rightarrow> bool" where
  "pos_ok t \<longleftrightarrow> (\<forall>i < length (heap t). pos t (i_key (heap t ! i)) = Some i) \<and>
     (\<forall>k i. pos t k = Some i \<longrightarrow> i < length (heap t) \<and> i_key (heap t ! i) = k)"

lemma pos_ok_inj: "pos_ok t \<Longrightarrow> i < length (heap t) \<Longrightarrow> j < length (heap t) \<Longrightarrow>
    i_key (heap t ! i) = i_key (heap t ! j) \<Longrightarrow> i = j"
  unfolding pos_ok_def by (metis option.inject)

lemma swap_heap_nth:
  "a < length (heap t) \<Longrightarrow> b < length (heap t) \<Longrightarrow> i < length (heap t) \<Longrightarrow>
   heap (swap t a b) ! i = heap t ! (if i = a then b else if i = b then a else i)"
  by (auto simp: swap_def Let_def nth_list_update)

lemma swap_pos_ok:
  assumes "pos_ok t" "a < length (heap t)" "b < length (heap t)"
  shows "pos_ok (swap t a b)"
proof -
  let ?k = "\<lambda>i. i_key (heap t ! i)"
  have p: "pos (swap t a b) = (pos t)(?k b \<mapsto> a, ?k a \<mapsto> b)"
    using assms(2,3) by (auto simp: swap_def Let_def nth_list_update)
  have inj: "i < length (heap t) \<Longrightarrow> j < length (heap t) \<Longrightarrow> ?k i = ?k j \<longleftrightarrow> i = j" for i j
    using pos_ok_inj [OF assms(1)] by blast
  show ?thesis
    unfolding pos_ok_def length_swap
  proof (intro conjI allI impI)
    fix i assume i: "i < length (heap t)"
    then show "pos (swap t a b) (i_key (heap (swap t a b) ! i)) = Some i"
      using assms inj by (auto simp: p swap_heap_nth pos_ok_def)
  next
    fix k i assume k: "pos (swap t a b) k = Some i"
    then show "i < length (heap t)" using assms by (auto simp: p pos_ok_def split: if_splits)
    then show "i_key (heap (swap t a b) ! i) = k"
      using k assms by (auto simp: p swap_heap_nth pos_ok_def split: if_splits)
  qed
qed

lemma swap_mset:
  "a < length (heap t) \<Longrightarrow> b < length (heap t) \<Longrightarrow> mset (heap (swap t a b)) = mset (heap t)"
  by (simp add: swap_def Let_def mset_swap)

section \<open>Heap order\<close>

definition parent :: "nat \<Rightarrow> nat" where
  "parent i = (i - 1) div 4"

lemma parent_less: "0 < i \<Longrightarrow> parent i < i"
  by (simp add: parent_def)

lemma parent_iff: "0 < j \<Longrightarrow> parent j = i \<longleftrightarrow> i * 4 + 1 \<le> j \<and> j < i * 4 + 5"
  unfolding parent_def by auto

definition heap_ok :: "storeTTLState \<Rightarrow> bool" where
  "heap_ok t \<longleftrightarrow> (\<forall>j. 0 < j \<and> j < length (heap t) \<longrightarrow> dl t (parent j) \<le> dl t j)"

text \<open>Order everywhere but between \<open>i\<close> and its parent, and order between \<open>i\<close>'s parent and \<open>i\<close>'s
  children.\<close>

definition up_ok :: "storeTTLState \<Rightarrow> nat \<Rightarrow> bool" where
  "up_ok t i \<longleftrightarrow> i < length (heap t) \<and>
     (\<forall>j. 0 < j \<and> j < length (heap t) \<and> j \<noteq> i \<longrightarrow> dl t (parent j) \<le> dl t j) \<and>
     (\<forall>j. 0 < i \<and> 0 < j \<and> j < length (heap t) \<and> parent j = i \<longrightarrow> dl t (parent i) \<le> dl t j)"

definition down_ok :: "storeTTLState \<Rightarrow> nat \<Rightarrow> bool" where
  "down_ok t i \<longleftrightarrow> i < length (heap t) \<and>
     (\<forall>j. 0 < j \<and> j < length (heap t) \<and> parent j \<noteq> i \<longrightarrow> dl t (parent j) \<le> dl t j) \<and>
     (\<forall>j. 0 < i \<and> 0 < j \<and> j < length (heap t) \<and> parent j = i \<longrightarrow> dl t (parent i) \<le> dl t j)"

text \<open>What the sifting operations keep.\<close>

definition same_items :: "storeTTLState \<Rightarrow> storeTTLState \<Rightarrow> bool" where
  "same_items t t' \<longleftrightarrow> mset (heap t') = mset (heap t) \<and> (pos_ok t \<longrightarrow> pos_ok t')"

lemma same_items_refl: "same_items t t"
  by (simp add: same_items_def)

lemma same_items_trans: "same_items t t' \<Longrightarrow> same_items t' t'' \<Longrightarrow> same_items t t''"
  by (simp add: same_items_def)

lemma same_items_swap: "a < length (heap t) \<Longrightarrow> b < length (heap t) \<Longrightarrow> same_items t (swap t a b)"
  by (simp add: same_items_def swap_mset swap_pos_ok)

lemma swap_up_ok:
  assumes u: "up_ok t i" and i: "0 < i" and lt: "dl t i < dl t (parent i)"
  shows "up_ok (swap t (parent i) i) (parent i)"
proof -
  let ?p = "parent i" and ?t = "swap t (parent i) i"
  have pi: "?p < i" using parent_less [OF i] .
  have il: "i < length (heap t)" and pl: "?p < length (heap t)" using u pi by (auto simp: up_ok_def)
  have nth: "j < length (heap t) \<Longrightarrow> dl ?t j = dl t (if j = ?p then i else if j = i then ?p else j)" for j
    using swap_heap_nth [OF pl il] by simp
  have ord: "\<And>j. 0 < j \<Longrightarrow> j < length (heap t) \<Longrightarrow> j \<noteq> i \<Longrightarrow> dl t (parent j) \<le> dl t j"
    and gr: "\<And>j. 0 < j \<Longrightarrow> j < length (heap t) \<Longrightarrow> parent j = i \<Longrightarrow> dl t ?p \<le> dl t j"
    using u i by (auto simp: up_ok_def)
  show ?thesis
    unfolding up_ok_def length_swap
  proof (intro conjI allI impI)
    show "?p < length (heap t)" by (rule pl)
  next
    fix j assume j: "0 < j \<and> j < length (heap t) \<and> j \<noteq> ?p"
    then have pj: "parent j < length (heap t)" using parent_less [of j] by simp
    show "dl ?t (parent j) \<le> dl ?t j"
    proof (cases "j = i")
      case True then show ?thesis using j nth [of j] nth [of ?p] pl lt by simp
    next
      case False
      have o: "dl t (parent j) \<le> dl t j" using ord j False by simp
      consider "parent j = i" | "parent j = ?p" | "parent j \<noteq> i" "parent j \<noteq> ?p" by blast
      then show ?thesis
      proof cases
        case 1 then show ?thesis using gr [of j] j False nth [of j] nth [of i] il pi by (simp add: 1)
      next
        case 2 then show ?thesis using o lt j False nth [of j] nth [of ?p] pl by (simp add: 2)
      next
        case 3 then show ?thesis using o j False nth [of j] nth [of "parent j"] pj by simp
      qed
    qed
  next
    fix j assume j: "0 < ?p \<and> 0 < j \<and> j < length (heap t) \<and> parent j = ?p"
    then have pp: "parent ?p < ?p" using parent_less by blast
    then have n1: "dl ?t (parent ?p) = dl t (parent ?p)" using nth [of "parent ?p"] pl pi by simp
    have o: "dl t (parent ?p) \<le> dl t ?p" using ord [of ?p] j pl pi by simp
    show "dl ?t (parent ?p) \<le> dl ?t j"
    proof (cases "j = i")
      case True then show ?thesis using n1 o nth [of i] il pi by simp
    next
      case False
      then have "dl t ?p \<le> dl t j" using ord [of j] j by simp
      moreover have "j \<noteq> ?p" using j parent_less [of ?p] by auto
      ultimately show ?thesis using n1 o nth [of j] j False by simp
    qed
  qed
qed

lemma up_correct: "up_ok t i \<Longrightarrow> heap_ok (up t i) \<and> same_items t (up t i)"
proof (induction t i rule: up.induct)
  case (1 t i)
  show ?case
  proof (cases "0 < i \<and> dl t i < dl t (parent i)")
    case True
    have il: "i < length (heap t)" "parent i < length (heap t)"
      using "1.prems" True parent_less [of i] by (auto simp: up_ok_def)
    have "heap_ok (up (swap t (parent i) i) (parent i)) \<and> same_items (swap t (parent i) i) (up (swap t (parent i) i) (parent i))"
      using "1.IH" [of "parent i"] True swap_up_ok [OF "1.prems"] by (simp add: parent_def before_less)
    then show ?thesis
      using True same_items_trans [OF same_items_swap [OF il(2,1)]]
      by (subst (1 2) up.simps) (simp add: parent_def before_less Let_def)
  next
    case False
    then have "up t i = t" by (subst up.simps) (auto simp: parent_def before_less Let_def)
    moreover have "heap_ok t"
      unfolding heap_ok_def
    proof (intro allI impI)
      fix j assume j: "0 < j \<and> j < length (heap t)"
      show "dl t (parent j) \<le> dl t j"
        by (cases "j = i") (use False j "1.prems" in \<open>auto simp: up_ok_def not_less\<close>)
    qed
    ultimately show ?thesis by (simp add: same_items_refl)
  qed
qed

lemma bestChild_least:
  "best < ch \<Longrightarrow> ch \<le> stop \<Longrightarrow> (\<forall>j. lo \<le> j \<and> j < ch \<longrightarrow> i_deadline (h ! best) \<le> i_deadline (h ! j)) \<Longrightarrow>
   lo \<le> j \<Longrightarrow> j < stop \<Longrightarrow> i_deadline (h ! bestChild h best ch stop) \<le> i_deadline (h ! j)"
proof (induction h best ch stop rule: bestChild.induct)
  case (1 h best ch stop)
  show ?case
  proof (cases "ch < stop")
    case True
    let ?b = "if before (i_deadline (h ! ch)) (i_deadline (h ! best)) then ch else best"
    have "\<forall>j. lo \<le> j \<and> j < ch + 1 \<longrightarrow> i_deadline (h ! ?b) \<le> i_deadline (h ! j)"
      using "1.prems"(3) by (auto simp: less_Suc_eq before_less not_less intro: order.trans less_imp_le)
    then have "i_deadline (h ! bestChild h ?b (ch + 1) stop) \<le> i_deadline (h ! j)"
      using "1.IH" [OF True] "1.prems"(1,4,5) True by auto
    then show ?thesis using True by (subst bestChild.simps) simp
  next
    case False
    then show ?thesis using "1.prems" by (subst bestChild.simps) simp
  qed
qed

lemma swap_down_ok:
  assumes u: "down_ok t i" and b: "parent b = i" "0 < b" "b < length (heap t)" and lt: "dl t b < dl t i"
    and least: "\<And>j. 0 < j \<Longrightarrow> j < length (heap t) \<Longrightarrow> parent j = i \<Longrightarrow> dl t b \<le> dl t j"
  shows "down_ok (swap t i b) b"
proof -
  let ?t = "swap t i b"
  have ib: "i < b" using parent_less [OF b(2)] b(1) by simp
  have il: "i < length (heap t)" using ib b(3) by simp
  have nth: "j < length (heap t) \<Longrightarrow> dl ?t j = dl t (if j = i then b else if j = b then i else j)" for j
    using swap_heap_nth [OF il b(3)] by simp
  have ord: "\<And>j. 0 < j \<Longrightarrow> j < length (heap t) \<Longrightarrow> parent j \<noteq> i \<Longrightarrow> dl t (parent j) \<le> dl t j"
    and gr: "\<And>j. 0 < i \<Longrightarrow> 0 < j \<Longrightarrow> j < length (heap t) \<Longrightarrow> parent j = i \<Longrightarrow> dl t (parent i) \<le> dl t j"
    using u by (auto simp: down_ok_def)
  show ?thesis
    unfolding down_ok_def length_swap
  proof (intro conjI allI impI)
    show "b < length (heap t)" by (rule b)
  next
    fix j assume j: "0 < j \<and> j < length (heap t) \<and> parent j \<noteq> b"
    then have pj: "parent j < length (heap t)" "parent j < j" using parent_less [of j] by auto
    consider "j = i" | "j = b" | "j \<noteq> i" "j \<noteq> b" "parent j = i" | "j \<noteq> i" "j \<noteq> b" "parent j \<noteq> i" by blast
    then show "dl ?t (parent j) \<le> dl ?t j"
    proof cases
      case 1
      then have "dl t (parent i) \<le> dl t b" using gr [of b] b j by simp
      then show ?thesis using 1 nth [of "parent j"] nth [of j] pj j by simp
    next
      case 2 then show ?thesis using b lt nth [of i] nth [of b] il ib by simp
    next
      case 3 then show ?thesis using least [of j] nth [of j] nth [of i] il j by simp
    next
      case 4 then show ?thesis using ord [of j] nth [of j] nth [of "parent j"] pj j by simp
    qed
  next
    fix j assume j: "0 < b \<and> 0 < j \<and> j < length (heap t) \<and> parent j = b"
    then have "b < j" using parent_less [of j] by simp
    moreover have "dl t b \<le> dl t j" using ord [of j] j ib by simp
    ultimately show "dl ?t (parent b) \<le> dl ?t j" using b nth [of i] nth [of j] il ib j by simp
  qed
qed

lemma down_correct: "down_ok t i \<Longrightarrow> heap_ok (down t i) \<and> same_items t (down t i)"
proof (induction t i rule: down.induct)
  case (1 t i)
  let ?first = "i * 4 + 1"
  let ?stop = "min (?first + 4) (length (heap t))"
  let ?b = "bestChild (heap t) ?first (?first + 1) ?stop"
  show ?case
  proof (cases "?first < length (heap t)")
    case True
    have r: "?first \<le> ?b" "?b < ?stop" using bestChild_range [of ?first ?first "?first + 1" ?stop] True by auto
    have pb: "parent ?b = i" "0 < ?b" "?b < length (heap t)" using r parent_iff [of ?b i] by auto
    have least: "dl t ?b \<le> dl t j" if j: "0 < j" "j < length (heap t)" "parent j = i" for j
      by (rule bestChild_least [where lo = ?first]) (use True j parent_iff [of j i] in \<open>auto simp: le_less_Suc_eq\<close>)
    show ?thesis
    proof (cases "dl t ?b < dl t i")
      case lt: True
      have il: "i < length (heap t)" using True by simp
      have "down_ok (swap t i ?b) ?b" using swap_down_ok [OF "1.prems" pb lt] least by blast
      then have "heap_ok (down (swap t i ?b) ?b) \<and> same_items (swap t i ?b) (down (swap t i ?b) ?b)"
        using "1.IH" [OF refl _ refl] True lt by (simp add: before_less)
      moreover have "down t i = down (swap t i ?b) ?b"
        using True lt by (subst down.simps) (simp add: before_less Let_def)
      ultimately show ?thesis using same_items_trans [OF same_items_swap [OF il pb(3)]] by simp
    next
      case False
      have "down t i = t" using True False by (subst down.simps) (simp add: before_less Let_def)
      moreover have "heap_ok t"
        unfolding heap_ok_def
      proof (intro allI impI)
        fix j assume j: "0 < j \<and> j < length (heap t)"
        show "dl t (parent j) \<le> dl t j"
        proof (cases "parent j = i")
          case True then show ?thesis using least [of j] j False by simp
        next
          case False then show ?thesis using "1.prems" j by (simp add: down_ok_def)
        qed
      qed
      ultimately show ?thesis by (simp add: same_items_refl)
    qed
  next
    case False
    have "down t i = t" using False by (subst down.simps) simp
    moreover have "heap_ok t"
      using "1.prems" False parent_iff by (fastforce simp: heap_ok_def down_ok_def)
    ultimately show ?thesis by (simp add: same_items_refl)
  qed
qed

section \<open>The heap as a map\<close>

definition ttl_inv :: "storeTTLState \<Rightarrow> bool" where
  "ttl_inv t \<longleftrightarrow> pos_ok t \<and> heap_ok t"

definition ttl_lookup :: "storeTTLState \<Rightarrow> storeTTLKey \<Rightarrow> storeInstant option" where
  "ttl_lookup t k = map_option (dl t) (pos t k)"

lemma ttl_lookup_set:
  assumes "pos_ok t"
  shows "ttl_lookup t k = Some d \<longleftrightarrow> \<lparr>i_key = k, i_deadline = d\<rparr> \<in> set (heap t)"
proof
  assume "ttl_lookup t k = Some d"
  then obtain i where i: "pos t k = Some i" "dl t i = d" by (auto simp: ttl_lookup_def)
  then have "i < length (heap t)" "i_key (heap t ! i) = k" using assms by (auto simp: pos_ok_def)
  then show "\<lparr>i_key = k, i_deadline = d\<rparr> \<in> set (heap t)"
    using i nth_mem [of i "heap t"] by (metis storeTTLItem.surjective old.unit.exhaust)
next
  assume "\<lparr>i_key = k, i_deadline = d\<rparr> \<in> set (heap t)"
  then obtain i where "i < length (heap t)" "heap t ! i = \<lparr>i_key = k, i_deadline = d\<rparr>"
    by (auto simp: in_set_conv_nth)
  moreover from this have "pos t (i_key (heap t ! i)) = Some i" using assms unfolding pos_ok_def by blast
  ultimately show "ttl_lookup t k = Some d" by (simp add: ttl_lookup_def)
qed

lemma same_items_lookup:
  assumes "pos_ok t" "same_items t t'"
  shows "ttl_lookup t' = ttl_lookup t"
proof (rule ext)
  fix k
  have "pos_ok t'" "set (heap t') = set (heap t)" using assms by (auto simp: same_items_def dest: mset_eq_setD)
  then have "ttl_lookup t' k = Some d \<longleftrightarrow> ttl_lookup t k = Some d" for d
    using ttl_lookup_set assms(1) by simp
  then show "ttl_lookup t' k = ttl_lookup t k" by (metis option.exhaust)
qed

text \<open>Sifting a heap that is almost in order restores the invariant and keeps the map.\<close>

lemma sift_inv:
  assumes "pos_ok t" "up_ok t i \<and> t' = up t i \<or> down_ok t i \<and> t' = down t i"
  shows "ttl_inv t'" "ttl_lookup t' = ttl_lookup t"
proof -
  have "heap_ok t' \<and> same_items t t'" using assms(2) up_correct [of t i] down_correct [of t i] by auto
  then show "ttl_inv t'" "ttl_lookup t' = ttl_lookup t"
    using assms(1) same_items_lookup [OF assms(1), of t'] by (simp_all add: ttl_inv_def same_items_def)
qed

lemma emptyTTL_inv: "ttl_inv emptyTTL" "ttl_lookup emptyTTL = Map.empty"
  by (auto simp: ttl_inv_def pos_ok_def heap_ok_def emptyTTL_def ttl_lookup_def)

lemma heap_okD: "heap_ok t \<Longrightarrow> 0 < j \<Longrightarrow> j < length (heap t) \<Longrightarrow> dl t (parent j) \<le> dl t j"
  by (simp add: heap_ok_def)

lemma upsert_correct:
  assumes inv: "ttl_inv t"
  shows "ttl_inv (upsert t key d)" "ttl_lookup (upsert t key d) = (ttl_lookup t)(key \<mapsto> d)"
proof -
  have po: "pos_ok t" and ho: "heap_ok t" using inv by (auto simp: ttl_inv_def)
  have "ttl_inv (upsert t key d) \<and> ttl_lookup (upsert t key d) = (ttl_lookup t)(key \<mapsto> d)"
  proof (cases "pos t key")
    case (Some i)
    have i: "i < length (heap t)" "i_key (heap t ! i) = key" using po Some by (auto simp: pos_ok_def)
    let ?t = "t\<lparr>heap := (heap t)[i := (heap t ! i)\<lparr>i_deadline := d\<rparr>]\<rparr>"
    have nth: "j < length (heap t) \<Longrightarrow> dl ?t j = (if j = i then d else dl t j)" for j
      by (simp add: nth_list_update)
    have key: "j < length (heap t) \<Longrightarrow> i_key (heap ?t ! j) = i_key (heap t ! j)" for j
      by (cases "j = i") auto
    have pot: "pos_ok ?t" using po key unfolding pos_ok_def by simp
    have lk: "ttl_lookup ?t = (ttl_lookup t)(key \<mapsto> d)"
    proof (rule ext)
      fix k show "ttl_lookup ?t k = ((ttl_lookup t)(key \<mapsto> d)) k"
      proof (cases "pos t k")
        case None
        then have "k \<noteq> key" using Some by auto
        then show ?thesis using None by (simp add: ttl_lookup_def)
      next
        case (Some j)
        then have "j < length (heap t)" "i_key (heap t ! j) = k" using po by (auto simp: pos_ok_def)
        then show ?thesis using nth [of j] i pos_ok_inj [OF po, of i j] Some \<open>pos t key = Some i\<close>
          by (auto simp: ttl_lookup_def)
      qed
    qed
    have pl: "j < length (heap t) \<Longrightarrow> 0 < j \<Longrightarrow> parent j < length (heap t) \<and> parent j \<noteq> j" for j
      using parent_less [of j] by simp
    note ord = heap_okD [OF ho]
    have up: "up_ok ?t i" if "d < dl t i"
      unfolding up_ok_def
    proof (intro conjI allI impI)
      fix j assume "0 < j \<and> j < length (heap ?t) \<and> j \<noteq> i"
      then show "dl ?t (parent j) \<le> dl ?t j"
        using nth [of j] nth [of "parent j"] ord [of j] pl [of j] that by auto
    next
      fix j assume j: "0 < i \<and> 0 < j \<and> j < length (heap ?t) \<and> parent j = i"
      then have "dl t (parent i) \<le> dl t j" using ord [of i] ord [of j] i by auto
      then show "dl ?t (parent i) \<le> dl ?t j"
        using nth [of j] nth [of "parent i"] pl [of i] pl [of j] i j by auto
    qed (use i in simp)
    have down: "down_ok ?t i" if "dl t i \<le> d"
      unfolding down_ok_def
    proof (intro conjI allI impI)
      fix j assume "0 < j \<and> j < length (heap ?t) \<and> parent j \<noteq> i"
      then show "dl ?t (parent j) \<le> dl ?t j"
        using nth [of j] nth [of "parent j"] ord [of j] pl [of j] that by auto
    next
      fix j assume j: "0 < i \<and> 0 < j \<and> j < length (heap ?t) \<and> parent j = i"
      then have "dl t (parent i) \<le> dl t j" using ord [of i] ord [of j] i by auto
      then show "dl ?t (parent i) \<le> dl ?t j"
        using nth [of j] nth [of "parent i"] pl [of i] pl [of j] i j by auto
    qed (use i in simp)
    have "upsert t key d = (if before d (dl t i) then up ?t i else down ?t i)"
      using Some by (simp add: upsert_def Let_def)
    then show ?thesis using sift_inv [OF pot, of i "upsert t key d"] up down lk
      by (cases "d < dl t i") (auto simp: before_less)
  next
    case None
    let ?i = "length (heap t)"
    let ?t = "t\<lparr>heap := heap t @ [\<lparr>i_key = key, i_deadline = d\<rparr>], pos := (pos t)(key \<mapsto> ?i)\<rparr>"
    have nk: "i_key (heap t ! j) \<noteq> key" if "j < ?i" for j using po None that by (auto simp: pos_ok_def)
    have pot: "pos_ok ?t" using po nk by (auto simp: pos_ok_def nth_append less_Suc_eq)
    have nth: "j < ?i \<Longrightarrow> dl ?t j = dl t j" for j by (simp add: nth_append)
    have "up_ok ?t ?i"
      unfolding up_ok_def
    proof (intro conjI allI impI)
      fix j assume "0 < j \<and> j < length (heap ?t) \<and> j \<noteq> ?i"
      then show "dl ?t (parent j) \<le> dl ?t j"
        using heap_okD [OF ho, of j] parent_less [of j] nth [of j] nth [of "parent j"] by simp
    next
      fix j assume "0 < ?i \<and> 0 < j \<and> j < length (heap ?t) \<and> parent j = ?i"
      then show "dl ?t (parent ?i) \<le> dl ?t j" using parent_less [of j] by simp
    qed simp
    moreover have "ttl_lookup ?t = (ttl_lookup t)(key \<mapsto> d)"
    proof (rule ext)
      fix k
      have "j < ?i" if "pos t k = Some j" for j using po that by (simp add: pos_ok_def)
      then show "ttl_lookup ?t k = ((ttl_lookup t)(key \<mapsto> d)) k"
        by (cases "pos t k") (auto simp: ttl_lookup_def nth_append)
    qed
    moreover have "upsert t key d = up ?t ?i" using None by (simp add: upsert_def Let_def)
    ultimately show ?thesis using sift_inv [OF pot, of ?i "upsert t key d"] by simp
  qed
  then show "ttl_inv (upsert t key d)" "ttl_lookup (upsert t key d) = (ttl_lookup t)(key \<mapsto> d)" by blast+
qed

lemma removeAt_correct:
  assumes inv: "ttl_inv t" and i: "i < length (heap t)"
  shows "fst (removeAt t i) = heap t ! i" "ttl_inv (snd (removeAt t i))"
    "ttl_lookup (snd (removeAt t i)) = (ttl_lookup t)(i_key (heap t ! i) := None)"
proof -
  have po: "pos_ok t" and ho: "heap_ok t" using inv by (auto simp: ttl_inv_def)
  note ord = heap_okD [OF ho]
  show "fst (removeAt t i) = heap t ! i" by (simp add: removeAt_def Let_def)
  let ?k = "i_key (heap t ! i)" and ?last = "length (heap t) - 1"
  have pk: "pos t ?k = Some i" using po i by (simp add: pos_ok_def)
  have other: "pos t k = Some j \<Longrightarrow> j < length (heap t) \<and> i_key (heap t ! j) = k" for k j
    using po by (simp add: pos_ok_def)
  have inj: "j < length (heap t) \<Longrightarrow> j' < length (heap t) \<Longrightarrow> i_key (heap t ! j) = i_key (heap t ! j') \<longleftrightarrow> j = j'" for j j'
    using pos_ok_inj [OF po] by blast
  have posi: "j < length (heap t) \<Longrightarrow> pos t (i_key (heap t ! j)) = Some j" for j
    using po by (simp add: pos_ok_def)
  have "ttl_inv (snd (removeAt t i)) \<and>
      ttl_lookup (snd (removeAt t i)) = (ttl_lookup t)(?k := None)"
  proof (cases "i = ?last")
    case True
    let ?t = "t\<lparr>pos := (pos t)(?k := None), heap := take ?last (heap t)\<rparr>"
    have r: "snd (removeAt t i) = ?t" using True by (simp add: removeAt_def Let_def)
    have nth: "j < ?last \<Longrightarrow> heap ?t ! j = heap t ! j" for j by simp
    have "pos_ok ?t"
      unfolding pos_ok_def
    proof (intro conjI allI impI)
      fix j assume "j < length (heap ?t)"
      then show "pos ?t (i_key (heap ?t ! j)) = Some j" using posi [of j] inj [of j i] i True by auto
    next
      fix k j assume "pos ?t k = Some j"
      then have "k \<noteq> ?k" "pos t k = Some j" by (auto split: if_splits)
      then have "j < length (heap t)" "i_key (heap t ! j) = k" "j \<noteq> i" using other [of k j] by auto
      then show "j < length (heap ?t)" "i_key (heap ?t ! j) = k" using True i by auto
    qed
    moreover have "heap_ok ?t"
      unfolding heap_ok_def
    proof (intro allI impI)
      fix j assume "0 < j \<and> j < length (heap ?t)"
      then show "dl ?t (parent j) \<le> dl ?t j" using ord [of j] parent_less [of j] by simp
    qed
    moreover have "ttl_lookup ?t = (ttl_lookup t)(?k := None)"
    proof (rule ext)
      fix k
      have "j < ?last" if "pos t k = Some j" "k \<noteq> ?k" for j using other [OF that(1)] that(2) True by (cases "j = ?last") auto
      then show "ttl_lookup ?t k = ((ttl_lookup t)(?k := None)) k"
        by (cases "pos t k") (auto simp: ttl_lookup_def)
    qed
    ultimately show ?thesis using r by (simp add: ttl_inv_def)
  next
    case False
    then have il: "i < ?last" "?last < length (heap t)" using i by auto
    let ?h = "take ?last ((heap t)[i := heap t ! ?last])"
    let ?t = "t\<lparr>heap := ?h, pos := (pos t)(?k := None, i_key (heap t ! ?last) \<mapsto> i)\<rparr>"
    have nth: "heap ?t ! j = (if j = i then heap t ! ?last else heap t ! j)" if "j < ?last" for j
      using that il by (simp add: nth_list_update)
    have len: "length (heap ?t) = ?last" using i by simp
    have ne: "heap t \<noteq> []" using i by auto
    have r: "snd (removeAt t i) =
        (if i > 0 \<and> before (dl ?t i) (dl ?t (parent i)) then up ?t i else down ?t i)"
      using False il ne by (cases i) (simp_all add: removeAt_def Let_def parent_def)
    have "pos_ok ?t"
      unfolding pos_ok_def len
    proof (intro conjI allI impI)
      fix j assume j: "j < ?last"
      then show "pos ?t (i_key (heap ?t ! j)) = Some j"
        using nth [OF j] posi [of j] inj [of j i] inj [of j ?last] il by auto
    next
      fix k j assume k: "pos ?t k = Some j"
      show "j < ?last"
      proof (cases "k = i_key (heap t ! ?last)")
        case True then show ?thesis using k il by simp
      next
        case nk: False
        then have "pos t k = Some j" using k by (auto split: if_splits)
        then have "j < length (heap t)" "i_key (heap t ! j) = k" using other by auto
        then show ?thesis using nk by (cases "j = ?last") auto
      qed
      then show "i_key (heap ?t ! j) = k"
        using k nth [of j] other [of k j] posi il inj [of i ?last] by (cases "j = i") (auto split: if_splits)
    qed
    have lk: "ttl_lookup ?t = (ttl_lookup t)(?k := None)"
    proof (rule ext)
      fix k
      have lastpos: "pos t (i_key (heap t ! ?last)) = Some ?last" using posi il by simp
      have "j < ?last \<and> j \<noteq> i" if "pos t k = Some j" "k \<noteq> ?k" "k \<noteq> i_key (heap t ! ?last)" for j
        using other [OF that(1)] that(2,3) by (cases "j = ?last") auto
      then show "ttl_lookup ?t k = ((ttl_lookup t)(?k := None)) k"
        using nth il inj [of i ?last] lastpos by (cases "pos t k") (auto simp: ttl_lookup_def)
    qed
    have pl: "0 < j \<Longrightarrow> parent j < j" for j using parent_less by simp
    have "up_ok ?t i" if "0 < i" "dl ?t i < dl ?t (parent i)"
      unfolding up_ok_def len
    proof (intro conjI allI impI)
      fix j assume j: "0 < j \<and> j < ?last \<and> j \<noteq> i"
      have "dl t (parent i) \<le> dl t i" "dl t (parent j) \<le> dl t j" using ord [of i] ord [of j] that(1) i j il by auto
      then show "dl ?t (parent j) \<le> dl ?t j"
        using that nth [of j] nth [of "parent j"] nth [of i] nth [of "parent i"] pl [of j] pl [of i] j il
        by (cases "parent j = i") auto
    next
      fix j assume j: "0 < i \<and> 0 < j \<and> j < ?last \<and> parent j = i"
      then have "dl t (parent i) \<le> dl t j" using ord [of i] ord [of j] i il by auto
      then show "dl ?t (parent i) \<le> dl ?t j"
        using nth [of j] nth [of "parent i"] pl [of j] pl [of i] j il by auto
    qed (rule il)
    moreover have "down_ok ?t i" if "\<not> (0 < i \<and> dl ?t i < dl ?t (parent i))"
      unfolding down_ok_def len
    proof (intro conjI allI impI)
      fix j assume j: "0 < j \<and> j < ?last \<and> parent j \<noteq> i"
      then show "dl ?t (parent j) \<le> dl ?t j"
        using that ord [of j] nth [of j] nth [of "parent j"] pl [of j] il by (cases "j = i") auto
    next
      fix j assume j: "0 < i \<and> 0 < j \<and> j < ?last \<and> parent j = i"
      then have "dl t (parent i) \<le> dl t j" using ord [of i] ord [of j] i il by auto
      then show "dl ?t (parent i) \<le> dl ?t j"
        using nth [of j] nth [of "parent i"] pl [of j] pl [of i] j il by auto
    qed (rule il)
    ultimately show ?thesis
      using sift_inv [OF \<open>pos_ok ?t\<close>, of i "snd (removeAt t i)"] r lk by (auto simp: before_less split: if_splits)
  qed
  then show "ttl_inv (snd (removeAt t i))"
    "ttl_lookup (snd (removeAt t i)) = (ttl_lookup t)(i_key (heap t ! i) := None)" by blast+
qed

lemma remove_correct:
  assumes "ttl_inv t"
  shows "fst (remove t key) \<longleftrightarrow> ttl_lookup t key \<noteq> None" "ttl_inv (snd (remove t key))"
    "ttl_lookup (snd (remove t key)) = (ttl_lookup t)(key := None)"
proof -
  have po: "pos_ok t" using assms by (simp add: ttl_inv_def)
  have "(fst (remove t key) \<longleftrightarrow> ttl_lookup t key \<noteq> None) \<and> ttl_inv (snd (remove t key)) \<and>
    ttl_lookup (snd (remove t key)) = (ttl_lookup t)(key := None)"
  proof (cases "pos t key")
    case None
    then show ?thesis using assms by (auto simp: remove_def ttl_lookup_def)
  next
    case (Some i)
    then have "i < length (heap t)" "i_key (heap t ! i) = key" using po by (auto simp: pos_ok_def)
    then show ?thesis using removeAt_correct [OF assms, of i] Some by (simp add: remove_def ttl_lookup_def)
  qed
  then show "fst (remove t key) \<longleftrightarrow> ttl_lookup t key \<noteq> None" "ttl_inv (snd (remove t key))"
    "ttl_lookup (snd (remove t key)) = (ttl_lookup t)(key := None)" by blast+
qed

interpretation ttl: key_directory ttl_lookup upsert "\<lambda>t k. snd (remove t k)" ttl_inv
  by unfold_locales (simp_all add: upsert_correct remove_correct)

section \<open>Due keys\<close>

lemma heap_min:
  assumes "heap_ok t" "i < length (heap t)"
  shows "dl t 0 \<le> dl t i"
  using assms(2)
proof (induction i rule: less_induct)
  case (less i)
  show ?case
  proof (cases "i = 0")
    case False
    then have "dl t 0 \<le> dl t (parent i)" using less.IH [of "parent i"] parent_less [of i] less.prems by simp
    also have "\<dots> \<le> dl t i" using heap_okD [OF assms(1)] False less.prems by simp
    finally show ?thesis .
  qed simp
qed

lemma lookup_min: "ttl_inv t \<Longrightarrow> ttl_lookup t k = Some d \<Longrightarrow> heap t \<noteq> [] \<and> dl t 0 \<le> d"
  using heap_min [of t] by (auto simp: ttl_inv_def pos_ok_def ttl_lookup_def)

lemma lookup_root: "ttl_inv t \<Longrightarrow> heap t \<noteq> [] \<Longrightarrow> ttl_lookup t (i_key (heap t ! 0)) = Some (dl t 0)"
  by (auto simp: ttl_inv_def pos_ok_def ttl_lookup_def)

definition due_keys :: "(storeLocation \<Rightarrow> bool) \<Rightarrow> storeInstant \<Rightarrow> storeTTLState \<Rightarrow> storeTTLKey set" where
  "due_keys live now t = {k. live (keyLocation k) \<and> (\<exists>d. ttl_lookup t k = Some d \<and> d \<le> now)}"

lemma expireLoop_unlimited:
  assumes "ttl_inv t" "limit \<le> 0"
  shows "ttl_inv (snd (expireLoop live now limit t scratch)) \<and>
    (\<forall>k. ttl_lookup (snd (expireLoop live now limit t scratch)) k =
       (case ttl_lookup t k of Some d \<Rightarrow> if d \<le> now then None else Some d | None \<Rightarrow> None)) \<and>
    set (fst (expireLoop live now limit t scratch)) =
      set scratch \<union> keyLocation ` due_keys live now t"
  using assms
proof (induction live now limit t scratch rule: expireLoop.induct)
  case (1 live now limit t scratch)
  let ?k = "i_key (heap t ! 0)" and ?t = "snd (removeAt t 0)"
  show ?case
  proof (cases "heap t \<noteq> [] \<and> dl t 0 \<le> now")
    case True
    then have go: "length (heap t) \<noteq> 0 \<and> \<not> after (dl t 0) now \<and> (limit \<le> 0 \<or> int (length scratch) < limit)"
      using "1.prems"(2) by (simp add: after_def not_before_le)
    note r = removeAt_correct [OF "1.prems"(1), of 0]
    have root: "ttl_lookup t ?k = Some (dl t 0)" using lookup_root "1.prems"(1) True by blast
    have due: "due_keys live now t = due_keys live now ?t \<union> (if live (keyLocation ?k) then {?k} else {})"
      using r(3) True root by (auto simp: due_keys_def split: if_splits)
    have lk: "(case ttl_lookup t k of Some d \<Rightarrow> if d \<le> now then None else Some d | None \<Rightarrow> None) =
        (case ttl_lookup ?t k of Some d \<Rightarrow> if d \<le> now then None else Some d | None \<Rightarrow> None)" for k
      using r(3) True root by (cases "k = ?k") auto
    have eq: "expireLoop live now limit t scratch =
        expireLoop live now limit ?t (if live (keyLocation ?k) then scratch @ [keyLocation ?k] else scratch)"
      using go r(1) True by (subst expireLoop.simps) (auto simp: Let_def)
    show ?thesis
      using "1.IH"(1) [OF go refl] "1.IH"(2) [OF go refl] r True "1.prems"(2) due unfolding eq lk
      by (cases "live (keyLocation ?k)") auto
  next
    case False
    then have "expireLoop live now limit t scratch = (scratch, t)"
      by (subst expireLoop.simps) (auto simp: after_def not_before_le)
    moreover have "\<not> d \<le> now" if "ttl_lookup t k = Some d" for k d
      using lookup_min [OF "1.prems"(1) that] False by auto
    ultimately show ?thesis using "1.prems"(1) by (auto simp: due_keys_def split: option.split)
  qed
qed

section \<open>Properties\<close>

text \<open>C10. After every sequence of deadline assignments and removals the heap is in order, the position
  index points at the right heap slots, and the deadline of each key is the one a finite map would
  hold.\<close>

theorem ttl_refines_map:
  "ttl_inv (fold (dir_edit upsert (\<lambda>t k. snd (remove t k))) es emptyTTL) \<and>
   ttl_lookup (fold (dir_edit upsert (\<lambda>t k. snd (remove t k))) es emptyTTL) = fold map_edit es Map.empty"
  using ttl.inv_script [OF emptyTTL_inv(1)] ttl.lookup_script [OF emptyTTL_inv(1)] emptyTTL_inv(2) by simp

text \<open>C34. The collection loop of \<^verbatim>\<open>ExpireDue\<close> without a limit removes from the heap exactly the keys whose
  deadline is not after now, leaves every later deadline in place, and collects exactly the removed
  keys whose slot is live.\<close>

theorem expireLoop_collects_due:
  assumes "ttl_inv t" "limit \<le> 0" "expireLoop live now limit t [] = (batch, t')"
  shows "ttl_inv t' \<and> set batch = keyLocation ` due_keys live now t \<and>
    (\<forall>k. ttl_lookup t' k = (case ttl_lookup t k of Some d \<Rightarrow> if d \<le> now then None else Some d | None \<Rightarrow> None))"
  using expireLoop_unlimited [OF assms(1,2), of live now "[]"] assms(3) by simp

theorem expireLoop_collects_due_witness:
  "\<exists>batch t'. expireLoop (\<lambda>l. True) (Instant 2 0) 0 (upsert emptyTTL 5 (Instant 1 0)) [] = (batch, t') \<and>
     ttl_lookup t' 5 = None \<and> keyLocation 5 \<in> set batch"
proof -
  let ?t = "upsert emptyTTL 5 (Instant 1 0)"
  obtain batch t' where e: "expireLoop (\<lambda>l. True) (Instant 2 0) 0 ?t [] = (batch, t')"
    by (cases "expireLoop (\<lambda>l. True) (Instant 2 0) 0 ?t []")
  have inv: "ttl_inv ?t" by (rule ttl.inv_put [OF emptyTTL_inv(1)])
  have lk: "ttl_lookup ?t 5 = Some (Instant 1 0)" using ttl.lookup_put [OF emptyTTL_inv(1)] by simp
  have le: "Instant 1 0 \<le> Instant 2 0" by (simp add: less_eq_storeInstant_def before_def)
  have "5 \<in> due_keys (\<lambda>l. True) (Instant 2 0) ?t" using lk le by (simp add: due_keys_def)
  then show ?thesis
    using expireLoop_collects_due [OF inv _ e] e lk le by (intro exI [of _ batch] exI [of _ t']) auto
qed

text \<open>A location survives packing into a heap key and unpacking it, so distinct slots never share a
  deadline.\<close>

theorem ttl_key_roundtrip: "keyLocation (storeTTLKeyOf loc) = loc"
proof -
  have c: "(ucast (drop_bit 8 (push_bit 8 (ucast (c :: u32)) OR ucast (s :: u8) :: u64)) :: u32) = c" for c s
    by (rule bit_word_eqI) (auto simp: bit_ucast_iff bit_drop_bit_eq bit_or_iff bit_push_bit_iff dest: bit_imp_le_length)
  have s: "(ucast (push_bit 8 (ucast (c :: u32)) OR ucast (s :: u8) :: u64) :: u8) = s" for c s
    by (rule bit_word_eqI) (auto simp: bit_ucast_iff bit_or_iff bit_push_bit_iff)
  show ?thesis by (simp only: keyLocation_def storeTTLKeyOf_def c s) simp
qed

end
