(* ===== verification/StorePage.thy ===== *)
theory StorePage
  imports Prelude
begin

unbundle bit_operations_syntax

text \<open>
  The common page envelope of the attached store (\<^verbatim>\<open>internal/storeio/page.go\<close>) and the size and
  checksum helpers of \<^verbatim>\<open>superblock.go\<close> it uses. A page is the byte string of its physical extent. A
  Go \<^verbatim>\<open>[16]byte\<close> store id is the 128-bit word whose little-endian bytes it holds.
  \<^verbatim>\<open>InitPage\<close> returns a payload window that aliases the page: here it returns the page, the window
  is the zero bytes from \<open>PageHeaderSize\<close> on, and \<open>fillPage\<close> writes a filled window back.
  An error value is the sentinel that \<^verbatim>\<open>errors.Is\<close> finds, outermost first; the texts are omitted.
  \<open>Panic\<close> is a Go run-time panic and \<open>NoReturn\<close> a call that never returns; both are results like any
  other, so that a theorem can exclude them. Theory \<open>StorePageCorrect\<close> has the proofs.
\<close>

datatype io_error =
    ErrInvalidWrite | ErrPageCorrupt | ErrSuperblockCorrupt | ErrSuperblockNotFound
  | ErrSuperblockConflict | ErrRecoveryBufferTooSmall | ErrStateRootCorrupt
  | ErrFreeDirectoryCorrupt | ErrChunkDirectoryCorrupt | ErrTTLDirectoryCorrupt
  | ErrOverflowPageCorrupt | ErrDocumentGroupCorrupt | ErrTooManyPages | ErrBatchState
  | ErrLeaseCapacity | ErrGenerationLeasesClosed | ErrLeasesActive | ErrRetiredExtentCapacity
  | ErrClosed | ErrQueueFull | ErrGenerationOrder | ErrDuplicateBuffer | ErrOverlappingWrite | DeviceError
  | ReadError | Panic | NoReturn

type_synonym u128 = "128 word"
type_synonym PageKind = u8

section \<open>Checksums and page sizes\<close>

text \<open>CRC-32C (Castagnoli) as \<^verbatim>\<open>hash/crc32\<close> computes it: reflected, initial value and final
  exclusive or all ones.\<close>

definition crc_step :: "u32 \<Rightarrow> u32" where
  "crc_step c = (if bit c 0 then drop_bit 1 c XOR 0x82F63B78 else drop_bit 1 c)"

definition crc_byte :: "u32 \<Rightarrow> byte \<Rightarrow> u32" where
  "crc_byte c b = (crc_step ^^ 8) (c XOR ucast b)"

definition PageChecksum :: "bytes \<Rightarrow> u32" where
  "PageChecksum data = NOT (foldl crc_byte (- 1) data)"

definition physicalPageQuantum :: u32 where "physicalPageQuantum = 4096"
definition superblockCopies :: u64 where "superblockCopies = 2"
definition maxSuperblockFileOffset :: u64 where "maxSuperblockFileOffset = drop_bit 1 (NOT 0)"

definition validPhysicalPageSize :: "u32 \<Rightarrow> bool" where
  "validPhysicalPageSize pageSize \<longleftrightarrow> pageSize \<ge> physicalPageQuantum \<and> pageSize AND (pageSize - 1) = 0"

section \<open>Page kinds and headers\<close>

definition PageHeaderSize :: nat where "PageHeaderSize = 64"
definition PageTrailerSize :: nat where "PageTrailerSize = 8"
definition pageMagic :: bytes where "pageMagic = ascii ''SJPAGE01''"
definition pageVersion :: u16 where "pageVersion = 1"

definition PageStateRoot :: PageKind where "PageStateRoot = 1"
definition PageDocument :: PageKind where "PageDocument = 2"
definition PageOverflow :: PageKind where "PageOverflow = 3"
definition PageChunkDirectory :: PageKind where "PageChunkDirectory = 4"
definition PageKeyDirectory :: PageKind where "PageKeyDirectory = 5"
definition PageIndexDirectory :: PageKind where "PageIndexDirectory = 6"
definition PageTTLDirectory :: PageKind where "PageTTLDirectory = 7"
definition PageFreeDirectory :: PageKind where "PageFreeDirectory = 8"
definition PageIndexPosting :: PageKind where "PageIndexPosting = 9"
definition PageDocumentGroup :: PageKind where "PageDocumentGroup = 10"
definition PageFloat64Group :: PageKind where "PageFloat64Group = 11"
definition PageFloat64Catalog :: PageKind where "PageFloat64Catalog = 12"
definition PageFloat64Stripe :: PageKind where "PageFloat64Stripe = 13"
definition PageIndexGroupCatalog :: PageKind where "PageIndexGroupCatalog = 14"

lemmas page_kinds = PageStateRoot_def PageDocument_def PageOverflow_def PageChunkDirectory_def
  PageKeyDirectory_def PageIndexDirectory_def PageTTLDirectory_def PageFreeDirectory_def
  PageIndexPosting_def PageDocumentGroup_def PageFloat64Group_def PageFloat64Catalog_def
  PageFloat64Stripe_def PageIndexGroupCatalog_def

definition DocumentGroupFlagFloat64Sidecar :: u16 where "DocumentGroupFlagFloat64Sidecar = 1"
definition documentGroupFloat64OrderMask :: u16 where "documentGroupFloat64OrderMask = push_bit 1 0x0F"
definition documentGroupFloat64LogicalHighMask :: u16 where
  "documentGroupFloat64LogicalHighMask = push_bit 5 0x07"
definition documentGroupKnownFlags :: u16 where
  "documentGroupKnownFlags =
     DocumentGroupFlagFloat64Sidecar OR documentGroupFloat64OrderMask OR documentGroupFloat64LogicalHighMask"

record PageHeader =
  ph_StoreID :: u128
  ph_Generation :: u64
  ph_LogicalID :: u64
  ph_PageSize :: u32
  ph_PayloadLength :: u32
  ph_Kind :: PageKind
  ph_Flags :: u8

definition zeroPageHeader :: PageHeader where
  "zeroPageHeader = \<lparr>ph_StoreID = 0, ph_Generation = 0, ph_LogicalID = 0, ph_PageSize = 0,
     ph_PayloadLength = 0, ph_Kind = 0, ph_Flags = 0\<rparr>"

definition validPageKind :: "PageKind \<Rightarrow> bool" where
  "validPageKind kind \<longleftrightarrow> kind \<ge> PageStateRoot \<and> kind \<le> PageIndexGroupCatalog"

definition validPageFlags :: "PageKind \<Rightarrow> u8 \<Rightarrow> bool" where
  "validPageFlags kind flags =
     (if kind = PageDocumentGroup then
        let encoded = ucast flags :: u16 in
        encoded AND NOT documentGroupKnownFlags = 0 \<and>
        (encoded AND DocumentGroupFlagFloat64Sidecar \<noteq> 0 \<or> encoded = 0)
      else flags = 0)"

definition validatePageHeader :: "PageHeader \<Rightarrow> io_error option" where
  "validatePageHeader header =
     (if ph_StoreID header = 0 \<or> ph_Generation header = 0 \<or> ph_LogicalID header = 0 then Some ErrInvalidWrite
      else if \<not> validPageKind (ph_Kind header) \<or> \<not> validPageFlags (ph_Kind header) (ph_Flags header)
      then Some ErrInvalidWrite
      else if \<not> validPhysicalPageSize (ph_PageSize header) \<or>
              (ucast (ph_PayloadLength header) :: u64) > ucast (ph_PageSize header) - 64 - 8
      then Some ErrInvalidWrite
      else None)"

definition InitPage :: "bytes \<Rightarrow> PageHeader \<Rightarrow> io_error + bytes" where
  "InitPage dst header =
     (case validatePageHeader header of
        Some err \<Rightarrow> Inl err
      | None \<Rightarrow>
          if length dst < unat (ph_PageSize header) then Inl ErrInvalidWrite
          else
            let page = replicate (unat (ph_PageSize header)) 0;
                page = put_bytes 0 pageMagic page;
                page = put_bytes 8 (le_bytes 2 pageVersion) page;
                page = put_bytes 10 (le_bytes 2 (of_nat PageHeaderSize :: u16)) page;
                page = put_bytes 12 [ph_Kind header] page;
                page = put_bytes 13 [ph_Flags header] page;
                page = put_bytes 16 (le_bytes 4 (ph_PageSize header)) page;
                page = put_bytes 20 (le_bytes 4 (ph_PayloadLength header)) page;
                page = put_bytes 24 (le_bytes 8 (ph_Generation header)) page;
                page = put_bytes 32 (le_bytes 8 (ph_LogicalID header)) page;
                page = put_bytes 40 (le_bytes 16 (ph_StoreID header)) page
            in Inr page)"

definition fillPage :: "bytes \<Rightarrow> bytes \<Rightarrow> bytes" where
  "fillPage page payload = put_bytes PageHeaderSize payload page"

definition decodePageHeader :: "bytes \<Rightarrow> PageHeader \<times> bool" where
  "decodePageHeader src =
     (if length src < PageHeaderSize \<or> get_bytes 0 8 src \<noteq> pageMagic \<or>
         le_word (get_bytes 8 2 src) \<noteq> pageVersion \<or>
         le_word (get_bytes 10 2 src) \<noteq> (of_nat PageHeaderSize :: u16)
      then (zeroPageHeader, False)
      else
        let header = \<lparr>ph_StoreID = le_word (get_bytes 40 16 src),
                      ph_Generation = le_word (get_bytes 24 8 src),
                      ph_LogicalID = le_word (get_bytes 32 8 src),
                      ph_PageSize = le_word (get_bytes 16 4 src),
                      ph_PayloadLength = le_word (get_bytes 20 4 src),
                      ph_Kind = src ! 12,
                      ph_Flags = src ! 13\<rparr>
        in (header, validatePageHeader header = None))"

definition sealPage :: "bytes \<Rightarrow> bool \<Rightarrow> io_error + (bytes \<times> u32)" where
  "sealPage page validatePadding =
     (case decodePageHeader page of (header, ok) \<Rightarrow>
        if \<not> ok \<or> length page < unat (ph_PageSize header) then Inl ErrInvalidWrite
        else
          let page = take (unat (ph_PageSize header)) page;
              payloadEnd = PageHeaderSize + unat (ph_PayloadLength header);
              trailer = length page - PageTrailerSize
          in if \<not> allZero (get_bytes 14 2 page) \<or> \<not> allZero (get_bytes 56 8 page) \<or>
                validatePadding \<and> \<not> allZero (get_bytes payloadEnd (trailer - payloadEnd) page)
             then Inl ErrInvalidWrite
             else
               let checksum = PageChecksum (take trailer page);
                   page = put_bytes trailer (le_bytes 4 checksum) page;
                   page = put_bytes (trailer + 4) (le_bytes 4 (NOT checksum)) page
               in Inr (page, checksum))"

definition SealPage :: "bytes \<Rightarrow> io_error + (bytes \<times> u32)" where
  "SealPage page = sealPage page True"

definition sealInitializedPage :: "bytes \<Rightarrow> io_error + (bytes \<times> u32)" where
  "sealInitializedPage page = sealPage page False"

definition OpenPage :: "bytes \<Rightarrow> io_error + (PageHeader \<times> bytes)" where
  "OpenPage src =
     (case decodePageHeader src of (header, ok) \<Rightarrow>
        if \<not> ok \<or> length src < unat (ph_PageSize header) then Inl ErrPageCorrupt
        else
          let page = take (unat (ph_PageSize header)) src;
              trailer = length page - PageTrailerSize;
              checksum = le_word (get_bytes trailer 4 page) :: u32
          in if le_word (get_bytes (trailer + 4) 4 page) \<noteq> NOT checksum \<or>
                PageChecksum (take trailer page) \<noteq> checksum
             then Inl ErrPageCorrupt
             else if \<not> allZero (get_bytes 14 2 page) \<or> \<not> allZero (get_bytes 56 8 page)
             then Inl ErrPageCorrupt
             else Inr (header, get_bytes PageHeaderSize (unat (ph_PayloadLength header)) page))"

end
