(* ===== verification/StorePageCorrect.thy ===== *)
theory StorePageCorrect
  imports StorePage
begin

unbundle bit_operations_syntax

text \<open>
  What the page envelope guarantees: a filled and sealed page opens to its header and payload, and
  any change of a single byte outside the page-size field is detected.
\<close>

section \<open>Reading a written buffer\<close>

lemma get_append [simp, buffer_simps]: "off + n \<le> length a \<Longrightarrow> get_bytes off n (a @ b) = get_bytes off n a"
  by (simp add: get_bytes_def)

lemma get_take [simp, buffer_simps]: "off + n \<le> m \<Longrightarrow> get_bytes off n (take m a) = get_bytes off n a"
  by (simp add: get_bytes_def drop_take)

lemma take_put_bytes: "m \<le> off \<Longrightarrow> off \<le> length buf \<Longrightarrow> take m (put_bytes off bs buf) = take m buf"
  by (simp add: put_bytes_def min_def)

lemma le_word_le_bytes128 [simp]: "le_word (le_bytes 16 w) = (w :: u128)"
  by (simp add: le_word_le_bytes)

lemmas get_put = get_put_same get_put_before get_put_after

section \<open>Header facts\<close>

lemma unat_ucast32_64: "unat (ucast (x :: u32) :: u64) = unat x"
  by (rule unat_ucast_up) simp

lemma unat_u32: "unat (x :: u32) < 2 ^ 32"
  using unsigned_less [of x, where ?'a = nat] by simp

lemma validPhysicalPageSize_ge: "validPhysicalPageSize p \<Longrightarrow> 4096 \<le> unat p"
  by (simp add: validPhysicalPageSize_def physicalPageQuantum_def word_le_nat_alt)

lemma payload_bound:
  assumes "validPhysicalPageSize p"
  shows "(ucast (q :: u32) :: u64) > ucast p - 64 - 8 \<longleftrightarrow> unat p < 72 + unat q"
proof -
  have p: "4096 \<le> unat p" using assms by (rule validPhysicalPageSize_ge)
  have "ucast p - 64 - 8 = (ucast p - 72 :: u64)" by simp
  moreover have "72 \<le> (ucast p :: u64)" using p by (simp add: word_le_nat_alt unat_ucast32_64)
  ultimately have "unat (ucast p - 64 - 8 :: u64) = unat p - 72" using unat_sub [of "72" "ucast p :: u64"]
    by (simp add: unat_ucast32_64)
  then show ?thesis using p by (auto simp: word_less_nat_alt unat_ucast32_64)
qed

lemma validatePageHeader_None:
  "validatePageHeader h = None \<Longrightarrow> validPhysicalPageSize (ph_PageSize h) \<and> 4096 \<le> unat (ph_PageSize h) \<and>
     64 + unat (ph_PayloadLength h) + 8 \<le> unat (ph_PageSize h)"
  using validPhysicalPageSize_ge [of "ph_PageSize h"] payload_bound [of "ph_PageSize h" "ph_PayloadLength h"]
  by (auto simp: validatePageHeader_def split: if_splits)

section \<open>Round trip\<close>

text \<open>\<open>header_bytes h page\<close>: the first 64 bytes of the page encode the header, reserved bytes zero.\<close>

definition header_bytes :: "PageHeader \<Rightarrow> bytes \<Rightarrow> bool" where
  "header_bytes h page \<longleftrightarrow> PageHeaderSize \<le> length page \<and> decodePageHeader page = (h, True) \<and>
     allZero (get_bytes 14 2 page) \<and> allZero (get_bytes 56 8 page)"

lemma decodePageHeader_cong:
  assumes "get_bytes 0 64 a = get_bytes 0 64 b" "64 \<le> length a" "64 \<le> length b"
  shows "decodePageHeader a = decodePageHeader b" "off + n \<le> 64 \<Longrightarrow> get_bytes off n a = get_bytes off n b"
proof -
  have g: "get_bytes off n a = get_bytes off n b" if "off + n \<le> 64" for off n
    using arg_cong [OF assms(1), of "get_bytes off n"] that by (simp add: get_bytes_def drop_take)
  then show "off + n \<le> 64 \<Longrightarrow> get_bytes off n a = get_bytes off n b" .
  have "a ! 12 = b ! 12" "a ! 13 = b ! 13"
    using g [of 12 1] g [of 13 1] nth_get1 [of 12 a] nth_get1 [of 12 b] nth_get1 [of 13 a] nth_get1 [of 13 b] assms
    by auto
  then show "decodePageHeader a = decodePageHeader b"
    using assms g by (simp add: decodePageHeader_def PageHeaderSize_def)
qed

lemma header_bytes_cong:
  "header_bytes h a \<Longrightarrow> get_bytes 0 64 a = get_bytes 0 64 b \<Longrightarrow> 64 \<le> length b \<Longrightarrow> header_bytes h b"
  using decodePageHeader_cong [of a b] unfolding header_bytes_def PageHeaderSize_def by simp

lemma InitPage_header:
  assumes "InitPage dst h = Inr page"
  shows "length page = unat (ph_PageSize h)" "header_bytes h page" "validatePageHeader h = None"
    "get_bytes 64 (unat (ph_PageSize h) - 64) page = replicate (unat (ph_PageSize h) - 64) 0"
proof -
  have v: "validatePageHeader h = None" using assms by (auto simp: InitPage_def split: option.splits)
  note b = validatePageHeader_None [OF v]
  have p: "page = put_bytes 40 (le_bytes 16 (ph_StoreID h)) (put_bytes 32 (le_bytes 8 (ph_LogicalID h))
      (put_bytes 24 (le_bytes 8 (ph_Generation h)) (put_bytes 20 (le_bytes 4 (ph_PayloadLength h))
      (put_bytes 16 (le_bytes 4 (ph_PageSize h)) (put_bytes 13 [ph_Flags h] (put_bytes 12 [ph_Kind h]
      (put_bytes 10 (le_bytes 2 (of_nat PageHeaderSize :: u16)) (put_bytes 8 (le_bytes 2 pageVersion)
      (put_bytes 0 pageMagic (replicate (unat (ph_PageSize h)) 0))))))))))"
    using assms v by (auto simp: InitPage_def Let_def split: if_splits)
  have m: "length pageMagic = 8" by (simp add: pageMagic_def)
  show "length page = unat (ph_PageSize h)" using b by (simp add: p m)
  show "validatePageHeader h = None" by (rule v)
  have "decodePageHeader page = (h, True)"
    using b v by (cases h) (simp add: p m decodePageHeader_def PageHeaderSize_def get_put Let_def)
  moreover have "allZero (get_bytes 14 2 page)" "allZero (get_bytes 56 8 page)"
    using b by (simp_all add: p m get_put get_replicate)
  ultimately show "header_bytes h page" using b by (simp add: header_bytes_def p m PageHeaderSize_def)
  show "get_bytes 64 (unat (ph_PageSize h) - 64) page = replicate (unat (ph_PageSize h) - 64) 0"
    using b by (simp add: p m get_put get_replicate)
qed

text \<open>The lemma every encoder's round trip rests on: sealing an initialized page filled with a
  payload succeeds, with and without the padding check, and the sealed page opens to the header and
  that payload, also as the prefix of a longer buffer.\<close>

lemma seal_open:
  assumes i: "InitPage dst h = Inr page" and l: "length payload = unat (ph_PayloadLength h)"
  shows "\<exists>sealed c. sealPage (fillPage page payload) vp = Inr (sealed, c) \<and>
    length sealed = unat (ph_PageSize h) \<and> OpenPage (sealed @ rest) = Inr (h, payload)"
proof -
  note I = InitPage_header [OF i]
  note b = validatePageHeader_None [OF I(3)]
  define q where "q = fillPage page payload"
  have lq: "length q = unat (ph_PageSize h)" using b l I(1) by (simp add: q_def fillPage_def PageHeaderSize_def)
  have hq: "header_bytes h q"
    by (rule header_bytes_cong [OF I(2)])
      (use b l I(1) in \<open>simp_all add: q_def fillPage_def PageHeaderSize_def get_put\<close>)
  let ?tr = "unat (ph_PageSize h) - 8"
  have pad: "allZero (get_bytes (64 + length payload) (?tr - (64 + length payload)) q)"
  proof -
    have "get_bytes (64 + length payload) (?tr - (64 + length payload)) q =
        get_bytes (64 + length payload) (?tr - (64 + length payload)) page"
      using b l I(1) by (simp add: q_def fillPage_def PageHeaderSize_def get_put_after)
    also have "\<dots> = get_bytes (length payload) (?tr - (64 + length payload))
        (get_bytes 64 (unat (ph_PageSize h) - 64) page)"
      using b l by (simp add: get_bytes_def drop_take min_def add.commute)
    finally show ?thesis using b l unfolding I(4) by (simp add: get_replicate)
  qed
  define c where "c = PageChecksum (take ?tr q)"
  define s where "s = put_bytes (?tr + 4) (le_bytes 4 (NOT c)) (put_bytes ?tr (le_bytes 4 c) q)"
  have ls: "length s = unat (ph_PageSize h)" using lq b by (simp add: s_def)
  have "64 \<le> ?tr" "64 \<le> unat (ph_PageSize h) - 4" using b by linarith+
  then have hs: "header_bytes h (s @ rest)"
    by (intro header_bytes_cong [OF hq]) (use b lq ls in \<open>simp_all add: s_def get_put\<close>)
  have seal: "sealPage q vp = Inr (s, c)"
    using hq lq pad l b by (simp add: sealPage_def header_bytes_def c_def s_def Let_def PageHeaderSize_def PageTrailerSize_def)
  have tk: "take ?tr s = take ?tr q" using lq b by (simp add: s_def take_put_bytes)
  have z: "allZero (get_bytes 14 2 s)" "allZero (get_bytes 56 8 s)"
    using hs ls b by (simp_all add: header_bytes_def)
  have cs: "get_bytes ?tr 4 s = le_bytes 4 c" "get_bytes (?tr + 4) 4 s = le_bytes 4 (NOT c)"
    using lq b by (simp_all add: s_def get_put)
  have "64 + unat (ph_PayloadLength h) \<le> ?tr" "64 + unat (ph_PayloadLength h) \<le> unat (ph_PageSize h) - 4"
    using b by linarith+
  then have pl: "get_bytes 64 (unat (ph_PayloadLength h)) s = payload"
    using lq b l I(1) by (simp add: s_def q_def fillPage_def PageHeaderSize_def get_put)
  have "OpenPage (s @ rest) = Inr (h, payload)"
    using hs ls tk z cs pl by (simp add: OpenPage_def header_bytes_def c_def Let_def PageHeaderSize_def PageTrailerSize_def)
  then show ?thesis using seal ls unfolding q_def [symmetric] by blast
qed

text \<open>C38. A page initialized with a valid header, filled with a payload of the declared length and sealed opens again to exactly that header and payload; sealing never fails on such a page, whether or not the padding is rescanned.\<close>

theorem page_roundtrip:
  assumes "validatePageHeader h = None" "unat (ph_PageSize h) \<le> length dst"
    and "length payload = unat (ph_PayloadLength h)"
  shows "\<exists>page sealed c. InitPage dst h = Inr page \<and> sealPage (fillPage page payload) vp = Inr (sealed, c) \<and>
     length sealed = unat (ph_PageSize h) \<and> OpenPage sealed = Inr (h, payload)"
proof -
  obtain page where i: "InitPage dst h = Inr page" using assms by (auto simp: InitPage_def Let_def)
  from seal_open [OF i assms(3), of vp "[]"] i show ?thesis by auto
qed

definition sample_header :: PageHeader where
  "sample_header = \<lparr>ph_StoreID = 7, ph_Generation = 3, ph_LogicalID = 9, ph_PageSize = 4096,
     ph_PayloadLength = 3, ph_Kind = 2, ph_Flags = 0\<rparr>"

lemma sample_header_valid: "validatePageHeader sample_header = None"
  by (simp add: sample_header_def validatePageHeader_def validPageKind_def validPageFlags_def page_kinds
      validPhysicalPageSize_def physicalPageQuantum_def word_less_nat_alt)

theorem page_roundtrip_witness:
  "\<exists>page sealed c. InitPage (replicate 4096 0xAA) sample_header = Inr page \<and>
     sealPage (fillPage page [1, 2, 3]) True = Inr (sealed, c) \<and>
     length sealed = 4096 \<and> OpenPage sealed = Inr (sample_header, [1, 2, 3])"
  using page_roundtrip [OF sample_header_valid, of "replicate 4096 0xAA" "[1, 2, 3]" True]
  by (simp add: sample_header_def)

section \<open>Error detection\<close>

text \<open>A step of the checksum register loses nothing: the polynomial's top bit records the bit that
  was shifted out.\<close>

lemma bit_crc_step:
  "bit (crc_step c) n \<longleftrightarrow> n < 32 \<and> (bit c (Suc n) \<noteq> (bit c 0 \<and> bit (0x82F63B78 :: u32) n))"
  using bit_imp_le_length [of c "Suc n"] bit_imp_le_length [of "0x82F63B78 :: u32" n]
  by (auto simp: crc_step_def bit_xor_iff bit_drop_bit_eq)

lemma crc_step_inj: "crc_step a = crc_step b \<Longrightarrow> a = b"
proof (rule bit_word_eqI)
  assume e: "crc_step a = crc_step b"
  have top: "bit (0x82F63B78 :: u32) 31" "\<not> bit a 32" "\<not> bit b 32"
    by (auto dest: bit_imp_le_length)
  have z: "bit a 0 = bit b 0"
    using arg_cong [OF e, of "\<lambda>w. bit w 31"] top by (simp add: bit_crc_step numeral_eq_Suc)
  fix n assume "n < LENGTH(32)"
  then show "bit a n = bit b n"
    using z arg_cong [OF e, of "\<lambda>w. bit w (n - 1)"] by (cases n) (auto simp: bit_crc_step)
qed

lemma crc_steps_inj: "(crc_step ^^ n) a = (crc_step ^^ n) b \<Longrightarrow> a = b"
  by (induction n arbitrary: a b) (auto dest: crc_step_inj simp: funpow_swap1)

lemma xor_cancel: "a XOR c = b XOR c \<longleftrightarrow> a = b" "c XOR a = c XOR b \<longleftrightarrow> a = b" for a b c :: u32
  by (auto simp: bit_eq_iff bit_xor_iff)

lemma crc_byte_inj_state: "crc_byte a x = crc_byte b x \<Longrightarrow> a = b"
  unfolding crc_byte_def by (drule crc_steps_inj) (simp only: xor_cancel)

lemma unat_ucast_byte32: "unat (ucast (x :: byte) :: u32) = unat x"
  by (rule unat_ucast_up) simp

lemma crc_byte_inj_byte: "crc_byte a x = crc_byte a y \<Longrightarrow> x = y"
  unfolding crc_byte_def
  by (drule crc_steps_inj) (metis xor_cancel(2) word_unat_eq_iff unat_ucast_byte32)

lemma crc_foldl_inj: "foldl crc_byte a bs = foldl crc_byte b bs \<Longrightarrow> a = b"
  by (induction bs arbitrary: a b) (auto dest: crc_byte_inj_state)

lemma PageChecksum_change:
  assumes "i < length bs" "b \<noteq> bs ! i"
  shows "PageChecksum (bs[i := b]) \<noteq> PageChecksum bs"
proof
  assume e: "PageChecksum (bs[i := b]) = PageChecksum bs"
  have s: "bs = take i bs @ bs ! i # drop (Suc i) bs" using assms(1) by (simp add: id_take_nth_drop)
  have u: "bs[i := b] = take i bs @ b # drop (Suc i) bs" using assms(1) by (simp add: upd_conv_take_nth_drop)
  have "foldl crc_byte (- 1) (bs[i := b]) = foldl crc_byte (- 1) bs"
    using e unfolding PageChecksum_def by (metis bit.double_compl)
  then have "foldl crc_byte (crc_byte (foldl crc_byte (- 1) (take i bs)) b) (drop (Suc i) bs) =
      foldl crc_byte (crc_byte (foldl crc_byte (- 1) (take i bs)) (bs ! i)) (drop (Suc i) bs)"
    unfolding u by (subst (asm) (2) s) simp
  then show False using crc_foldl_inj crc_byte_inj_byte assms(2) by metis
qed

lemma get_list_update: "i < off \<or> off + n \<le> i \<Longrightarrow> get_bytes off n (p[i := b]) = get_bytes off n p"
  by (auto simp: get_bytes_def drop_update_cancel drop_update_swap take_update_cancel)

lemma get_update_inside:
  assumes "off \<le> i" "i < off + n" "i < length p" "b \<noteq> p ! i"
  shows "get_bytes off n (p[i := b]) \<noteq> get_bytes off n p"
proof
  assume "get_bytes off n (p[i := b]) = get_bytes off n p"
  then have "get_bytes off n (p[i := b]) ! (i - off) = get_bytes off n p ! (i - off)" by simp
  then show False using assms by (simp add: get_bytes_def)
qed

lemma le_word32_inj: "length a = 4 \<Longrightarrow> length b = 4 \<Longrightarrow> (le_word a :: u32) = le_word b \<Longrightarrow> a = b"
  by (rule le_word_inj [where 'a = 32]) auto

lemma decodePageHeader_size: "decodePageHeader src = (h, True) \<Longrightarrow> ph_PageSize h = le_word (get_bytes 16 4 src) \<and>
    validatePageHeader h = None"
  by (auto simp: decodePageHeader_def Let_def split: if_splits)

lemma trailer_detects_change:
  assumes c: "le_word (get_bytes (t + 4) 4 p) = NOT (le_word (get_bytes t 4 p) :: u32)"
    "PageChecksum (take t p) = le_word (get_bytes t 4 p)"
    and l: "length p = t + 8" and i: "i < length p" and b: "b \<noteq> p ! i"
  shows "le_word (get_bytes (t + 4) 4 (p[i := b])) \<noteq> NOT (le_word (get_bytes t 4 (p[i := b])) :: u32) \<or>
    PageChecksum (take t (p[i := b])) \<noteq> le_word (get_bytes t 4 (p[i := b]))"
proof -
  let ?q = "p[i := b]"
  have l4: "length (get_bytes t 4 p) = 4" "length (get_bytes t 4 ?q) = 4"
    "length (get_bytes (t + 4) 4 p) = 4" "length (get_bytes (t + 4) 4 ?q) = 4"
    using l by simp_all
  consider "i < t" | "t \<le> i" "i < t + 4" | "t + 4 \<le> i" "i < t + 8" using i l by linarith
  then show ?thesis
  proof cases
    case 1
    then have "PageChecksum (take t ?q) \<noteq> PageChecksum (take t p)"
      using PageChecksum_change [of i "take t p" b] b l by (simp add: take_update_swap)
    then show ?thesis using c(2) 1 by (simp add: get_list_update)
  next
    case 2
    then have "(le_word (get_bytes t 4 ?q) :: u32) \<noteq> le_word (get_bytes t 4 p)"
      using get_update_inside [OF 2(1), of 4 p b] le_word32_inj [OF l4(2,1)] i b by auto
    then show ?thesis using c(1) 2 by (simp add: get_list_update bit.compl_eq_compl_iff)
  next
    case 3
    then have "(le_word (get_bytes (t + 4) 4 ?q) :: u32) \<noteq> le_word (get_bytes (t + 4) 4 p)"
      using get_update_inside [OF 3(1), of 4 p b] le_word32_inj [OF l4(4,3)] i b by auto
    then show ?thesis using c(1) 3 by (simp add: get_list_update)
  qed
qed

text \<open>C39. Corruption of any single byte of a valid page, in its header, payload, padding or trailer, is detected: only the four bytes of the page-size field, which decide where the trailer is looked for, are outside this guarantee.\<close>

theorem OpenPage_detects_change:
  assumes ok: "OpenPage p = Inr (h, payload)" and len: "length p = unat (ph_PageSize h)"
    and i: "i < length p" "i < 16 \<or> 20 \<le> i" and b: "b \<noteq> p ! i"
  shows "OpenPage (p[i := b]) = Inl ErrPageCorrupt"
proof -
  let ?q = "p[i := b]" and ?tr = "length p - 8"
  have d: "decodePageHeader p = (h, True)" using ok by (auto simp: OpenPage_def Let_def split: prod.splits if_splits)
  note hs = decodePageHeader_size [OF d] and bd = validatePageHeader_None [OF decodePageHeader_size [OF d, THEN conjunct2]]
  have c: "le_word (get_bytes (?tr + 4) 4 p) = NOT (le_word (get_bytes ?tr 4 p) :: u32)"
    "PageChecksum (take ?tr p) = le_word (get_bytes ?tr 4 p)"
    using ok d len by (auto simp: OpenPage_def Let_def PageTrailerSize_def split: if_splits)
  obtain h' ok' where d': "decodePageHeader ?q = (h', ok')" by (cases "decodePageHeader ?q")
  show ?thesis
  proof (cases ok')
    case True
    have "ph_PageSize h' = ph_PageSize h"
      using decodePageHeader_size [of ?q h'] d' True hs i(2) get_list_update [of i 16 4 p b] by auto
    then have ps: "unat (ph_PageSize h') = length p" using len by simp
    show ?thesis using trailer_detects_change [OF c _ i(1) b] d' True ps bd len by (simp add: OpenPage_def Let_def PageTrailerSize_def)
  qed (use d' in \<open>simp add: OpenPage_def\<close>)
qed

lemma not_byte_neq: "NOT b \<noteq> b" for b :: byte
proof
  assume "NOT b = b"
  then have "bit (NOT b) 0 = bit b 0" by simp
  then show False by (simp add: bit_not_iff)
qed

theorem OpenPage_detects_change_witness:
  "\<exists>p. OpenPage p = Inr (sample_header, [1, 2, 3]) \<and> OpenPage (p[4000 := NOT (p ! 4000)]) = Inl ErrPageCorrupt"
proof -
  obtain page where i: "InitPage (replicate 4096 0) sample_header = Inr page"
    using sample_header_valid by (auto simp: InitPage_def Let_def) (simp add: sample_header_def)
  obtain p where p: "OpenPage p = Inr (sample_header, [1, 2, 3])" "length p = 4096"
    using seal_open [OF i, of "[1, 2, 3]" True "[]"] by (auto simp: sample_header_def)
  have "OpenPage (p[4000 := NOT (p ! 4000)]) = Inl ErrPageCorrupt"
    by (rule OpenPage_detects_change [OF p(1)]) (use not_byte_neq in \<open>simp_all add: p(2) sample_header_def\<close>)
  then show ?thesis using p(1) by blast
qed

end
