(* ===== verification/StateRoot.thy ===== *)
theory StateRoot
  imports StorePageCorrect
begin

unbundle bit_operations_syntax

text \<open>
  Page references and the state root of an attached-store generation
  (\<^verbatim>\<open>internal/storeio/state_root.go\<close>): the references' fixed 32-byte encoding, the validation of a
  root, its page codec with the four accepted versions, and the round trip.
\<close>

section \<open>Page references\<close>

definition StateRootLogicalID :: u64 where "StateRootLogicalID = 1"
definition StateRootPayloadSize :: nat where "StateRootPayloadSize = 256"
definition PageRefSize :: nat where "PageRefSize = 32"

record PageRef =
  pr_Offset :: u64
  pr_LogicalID :: u64
  pr_Generation :: u64
  pr_Length :: u32
  pr_Kind :: PageKind
  pr_Flags :: u8
  pr_Aux :: u16

definition zeroPageRef :: PageRef where
  "zeroPageRef = \<lparr>pr_Offset = 0, pr_LogicalID = 0, pr_Generation = 0, pr_Length = 0, pr_Kind = 0,
     pr_Flags = 0, pr_Aux = 0\<rparr>"

text \<open>The seven writes of \<^verbatim>\<open>encodePageRef\<close> cover its 32-byte destination without gaps.\<close>

definition encodePageRef :: "PageRef \<Rightarrow> bytes" where
  "encodePageRef ref =
     le_bytes 8 (pr_Offset ref) @ le_bytes 8 (pr_LogicalID ref) @ le_bytes 8 (pr_Generation ref) @
     le_bytes 4 (pr_Length ref) @ [pr_Kind ref] @ [pr_Flags ref] @ le_bytes 2 (pr_Aux ref)"

definition decodePageRef :: "bytes \<Rightarrow> PageRef" where
  "decodePageRef src =
     \<lparr>pr_Offset = le_word (get_bytes 0 8 src),
      pr_LogicalID = le_word (get_bytes 8 8 src),
      pr_Generation = le_word (get_bytes 16 8 src),
      pr_Length = le_word (get_bytes 24 4 src),
      pr_Kind = src ! 28,
      pr_Flags = src ! 29,
      pr_Aux = le_word (get_bytes 30 2 src)\<rparr>"

definition pageRefReservedZero :: "bytes \<Rightarrow> bool" where
  "pageRefReservedZero src \<longleftrightarrow> le_word (get_bytes 30 2 src) = (0 :: u16)"

section \<open>The state root\<close>

definition stateRootVersionV2 :: u32 where "stateRootVersionV2 = 2"
definition stateRootVersionV3 :: u32 where "stateRootVersionV3 = 3"
definition stateRootVersionV4 :: u32 where "stateRootVersionV4 = 4"
definition stateRootVersion :: u32 where "stateRootVersion = 5"

definition StateOptionFloat64Columns :: u32 where "StateOptionFloat64Columns = 16"
definition StateOptionSchema :: u32 where "StateOptionSchema = 32"
definition stateRootKnownOptions :: u32 where
  "stateRootKnownOptions = 1 OR 2 OR 4 OR 8 OR StateOptionFloat64Columns OR StateOptionSchema"

record StateRoot =
  sr_StoreID :: u128
  sr_Generation :: u64
  sr_PageSize :: u32
  sr_Options :: u32
  sr_DocumentCount :: u64
  sr_TTLCount :: u64
  sr_NextLogicalID :: u64
  sr_ChunkHighWater :: u32
  sr_LiveChunks :: u32
  sr_ChunkDocuments :: u32
  sr_IndexCount :: u32
  sr_IndexMaxDepth :: u32
  sr_IndexCatalogHash :: u64
  sr_FreeChunkHint :: u32
  sr_ChunkDirectory :: PageRef
  sr_KeyDirectory :: PageRef
  sr_IndexDirectory :: PageRef
  sr_TTLDirectory :: PageRef
  sr_Float64ScanHead :: PageRef
  sr_IndexGroupHead :: PageRef

definition validateStatePageRef :: "PageRef \<Rightarrow> PageKind \<Rightarrow> bool \<Rightarrow> StateRoot \<Rightarrow> u64 \<Rightarrow> io_error option" where
  "validateStatePageRef ref kind required root fileEnd =
     (if ref = zeroPageRef then (if required then Some ErrInvalidWrite else None)
      else
        let pageSize = ucast (sr_PageSize root) :: u64 in
        if pr_Kind ref \<noteq> kind \<or> pr_Flags ref \<noteq> 0 \<or> pr_Aux ref \<noteq> 0 \<or> pr_Length ref \<noteq> sr_PageSize root \<or>
           pr_Generation ref = 0 \<or> pr_Generation ref > sr_Generation root \<or>
           pr_LogicalID ref \<le> StateRootLogicalID \<or> pr_LogicalID ref \<ge> sr_NextLogicalID root \<or>
           pr_Offset ref < superblockCopies * pageSize \<or> pr_Offset ref mod pageSize \<noteq> 0 \<or>
           pr_Offset ref > maxSuperblockFileOffset \<or> pr_Offset ref > fileEnd - pageSize
        then Some ErrInvalidWrite else None)"

definition sameTarget :: "PageRef \<Rightarrow> PageRef \<Rightarrow> bool" where
  "sameTarget other ref \<longleftrightarrow> other \<noteq> zeroPageRef \<and>
     (pr_LogicalID other = pr_LogicalID ref \<or> pr_Offset other = pr_Offset ref)"

fun validateRootRefs ::
  "StateRoot \<Rightarrow> u64 \<Rightarrow> PageRef list \<Rightarrow> (PageRef \<times> PageKind \<times> bool \<times> bool) list \<Rightarrow> io_error option" where
  "validateRootRefs root fileEnd earlier [] = None"
| "validateRootRefs root fileEnd earlier ((ref, kind, required, allowed) # refs) =
     (case validateStatePageRef ref kind required root fileEnd of
        Some err \<Rightarrow> Some err
      | None \<Rightarrow>
          if \<not> allowed \<and> ref \<noteq> zeroPageRef then Some ErrInvalidWrite
          else if ref \<noteq> zeroPageRef \<and> list_ex (\<lambda>other. sameTarget other ref) earlier then Some ErrInvalidWrite
          else validateRootRefs root fileEnd (earlier @ [ref]) refs)"

definition validateFloat64ScanHead :: "StateRoot \<Rightarrow> u64 \<Rightarrow> bool" where
  "validateFloat64ScanHead root fileEnd \<longleftrightarrow>
     sr_Float64ScanHead root = zeroPageRef \<or>
     (let ref = sr_Float64ScanHead root; length = ucast (pr_Length ref) :: u64;
          pageSize = ucast (sr_PageSize root) :: u64
      in \<not> (sr_Options root AND StateOptionFloat64Columns = 0 \<or>
            pr_Kind ref \<noteq> PageFloat64Catalog \<or> pr_Flags ref \<noteq> 0 \<or> pr_Aux ref \<noteq> 0 \<or>
            pr_Length ref \<noteq> sr_PageSize root \<or>
            pr_Generation ref = 0 \<or> pr_Generation ref > sr_Generation root \<or>
            pr_LogicalID ref \<le> StateRootLogicalID \<or> pr_LogicalID ref \<ge> sr_NextLogicalID root \<or>
            pr_Offset ref < superblockCopies * pageSize \<or> pr_Offset ref mod pageSize \<noteq> 0 \<or>
            length > fileEnd \<or> pr_Offset ref > maxSuperblockFileOffset \<or> pr_Offset ref > fileEnd - length) \<and>
         \<not> list_ex (\<lambda>other. sameTarget other ref)
            [sr_ChunkDirectory root, sr_KeyDirectory root, sr_IndexDirectory root, sr_TTLDirectory root])"

definition validateIndexGroupHead :: "StateRoot \<Rightarrow> u64 \<Rightarrow> bool" where
  "validateIndexGroupHead root fileEnd \<longleftrightarrow>
     sr_IndexGroupHead root = zeroPageRef \<or>
     (let ref = sr_IndexGroupHead root; length = ucast (pr_Length ref) :: u64;
          pageSize = ucast (sr_PageSize root) :: u64
      in \<not> (sr_IndexCount root = 0 \<or> sr_DocumentCount root = 0 \<or>
            pr_Kind ref \<noteq> PageIndexGroupCatalog \<or> pr_Flags ref \<noteq> 0 \<or> pr_Aux ref \<noteq> 0 \<or>
            \<not> validPhysicalPageSize (pr_Length ref) \<or> pr_Length ref < sr_PageSize root \<or>
            pr_Length ref mod sr_PageSize root \<noteq> 0 \<or>
            pr_Generation ref = 0 \<or> pr_Generation ref > sr_Generation root \<or>
            pr_LogicalID ref \<le> StateRootLogicalID \<or> pr_LogicalID ref \<ge> sr_NextLogicalID root \<or>
            pr_Offset ref < superblockCopies * pageSize \<or> pr_Offset ref mod pageSize \<noteq> 0 \<or>
            length > fileEnd \<or> pr_Offset ref > maxSuperblockFileOffset \<or> pr_Offset ref > fileEnd - length) \<and>
         \<not> list_ex (\<lambda>other. sameTarget other ref)
            [sr_ChunkDirectory root, sr_KeyDirectory root, sr_IndexDirectory root, sr_TTLDirectory root,
             sr_Float64ScanHead root])"

definition validateStateRoot :: "StateRoot \<Rightarrow> u64 \<Rightarrow> io_error option" where
  "validateStateRoot root fileEnd =
     (if sr_StoreID root = 0 \<or> sr_Generation root = 0 \<or> \<not> validPhysicalPageSize (sr_PageSize root) \<or>
         sr_Options root AND NOT stateRootKnownOptions \<noteq> 0
      then Some ErrInvalidWrite
      else
        let pageSize = ucast (sr_PageSize root) :: u64 in
        if fileEnd < superblockCopies * pageSize \<or> fileEnd > maxSuperblockFileOffset \<or> fileEnd mod pageSize \<noteq> 0
        then Some ErrInvalidWrite
        else
          let hasCatalog = sr_IndexCount root \<noteq> 0 \<or>
                sr_Options root AND (StateOptionFloat64Columns OR StateOptionSchema) \<noteq> 0 in
          if sr_ChunkDocuments root = 0 \<or> sr_ChunkDocuments root > 64 \<or>
             sr_LiveChunks root > sr_ChunkHighWater root \<or> sr_TTLCount root > sr_DocumentCount root \<or>
             sr_FreeChunkHint root > sr_ChunkHighWater root \<or> sr_NextLogicalID root \<le> StateRootLogicalID \<or>
             hasCatalog \<noteq> (sr_IndexCatalogHash root \<noteq> 0)
          then Some ErrInvalidWrite
          else if sr_LiveChunks root = 0 \<and> sr_DocumentCount root \<noteq> 0 then Some ErrInvalidWrite
          else if sr_LiveChunks root \<noteq> 0 \<and>
             (sr_DocumentCount root < ucast (sr_LiveChunks root) \<or>
              sr_DocumentCount root > ucast (sr_LiveChunks root) * ucast (sr_ChunkDocuments root))
          then Some ErrInvalidWrite
          else case validateRootRefs root fileEnd []
               [(sr_ChunkDirectory root, PageChunkDirectory, sr_LiveChunks root \<noteq> 0, sr_LiveChunks root \<noteq> 0),
                (sr_KeyDirectory root, PageKeyDirectory, sr_DocumentCount root \<noteq> 0, sr_DocumentCount root \<noteq> 0),
                (sr_IndexDirectory root, PageIndexDirectory, False, sr_IndexCount root \<noteq> 0),
                (sr_TTLDirectory root, PageTTLDirectory, sr_TTLCount root \<noteq> 0, sr_TTLCount root \<noteq> 0)] of
            Some err \<Rightarrow> Some err
          | None \<Rightarrow>
              if \<not> validateFloat64ScanHead root fileEnd then Some ErrInvalidWrite
              else if \<not> validateIndexGroupHead root fileEnd then Some ErrInvalidWrite
              else None)"

definition stateRootPayload :: "StateRoot \<Rightarrow> bytes" where
  "stateRootPayload root =
     (let payload = replicate StateRootPayloadSize 0;
          payload = put_bytes 0 (le_bytes 4 stateRootVersion) payload;
          payload = put_bytes 4 (le_bytes 4 (sr_Options root)) payload;
          payload = put_bytes 8 (le_bytes 8 (sr_DocumentCount root)) payload;
          payload = put_bytes 16 (le_bytes 8 (sr_TTLCount root)) payload;
          payload = put_bytes 24 (le_bytes 8 (sr_NextLogicalID root)) payload;
          payload = put_bytes 32 (le_bytes 4 (sr_ChunkHighWater root)) payload;
          payload = put_bytes 36 (le_bytes 4 (sr_LiveChunks root)) payload;
          payload = put_bytes 40 (le_bytes 4 (sr_ChunkDocuments root)) payload;
          payload = put_bytes 44 (le_bytes 4 (sr_IndexCount root)) payload;
          payload = put_bytes 48 (le_bytes 4 (sr_IndexMaxDepth root)) payload;
          payload = put_bytes 52 (le_bytes 8 (sr_IndexCatalogHash root)) payload;
          payload = put_bytes 60 (le_bytes 4 (sr_FreeChunkHint root)) payload;
          payload = put_bytes 64 (encodePageRef (sr_ChunkDirectory root)) payload;
          payload = put_bytes 96 (encodePageRef (sr_KeyDirectory root)) payload;
          payload = put_bytes 128 (encodePageRef (sr_IndexDirectory root)) payload;
          payload = put_bytes 160 (encodePageRef (sr_TTLDirectory root)) payload;
          payload = put_bytes 192 (encodePageRef (sr_Float64ScanHead root)) payload
      in put_bytes 224 (encodePageRef (sr_IndexGroupHead root)) payload)"

definition EncodeStateRootPage :: "bytes \<Rightarrow> StateRoot \<Rightarrow> u64 \<Rightarrow> io_error + bytes" where
  "EncodeStateRootPage dst root fileEnd =
     (case validateStateRoot root fileEnd of
        Some err \<Rightarrow> Inl err
      | None \<Rightarrow>
          let header = \<lparr>ph_StoreID = sr_StoreID root, ph_Generation = sr_Generation root,
                ph_LogicalID = StateRootLogicalID, ph_PageSize = sr_PageSize root,
                ph_PayloadLength = of_nat StateRootPayloadSize, ph_Kind = PageStateRoot, ph_Flags = 0\<rparr>
          in case InitPage dst header of
               Inl err \<Rightarrow> Inl err
             | Inr page \<Rightarrow>
                 (case sealInitializedPage (fillPage page (stateRootPayload root)) of
                    Inl err \<Rightarrow> Inl err
                  | Inr (page, _) \<Rightarrow> Inr page))"

text \<open>The read of the version comes before any check of the payload's length, so a shorter payload is
  a slice panic.\<close>

definition DecodeStateRootPage :: "bytes \<Rightarrow> u64 \<Rightarrow> io_error + StateRoot" where
  "DecodeStateRootPage src fileEnd =
     (case OpenPage src of
        Inl _ \<Rightarrow> Inl ErrStateRootCorrupt
      | Inr (header, payload) \<Rightarrow>
          if length payload < 4 then Inl Panic
          else
            let version = le_word (get_bytes 0 4 payload) :: u32 in
            if ph_Kind header \<noteq> PageStateRoot \<or> ph_LogicalID header \<noteq> StateRootLogicalID \<or>
               length payload \<noteq> StateRootPayloadSize \<or>
               version \<noteq> stateRootVersionV2 \<and> version \<noteq> stateRootVersionV3 \<and>
               version \<noteq> stateRootVersionV4 \<and> version \<noteq> stateRootVersion \<or>
               \<not> pageRefReservedZero (get_bytes 64 32 payload) \<or>
               \<not> pageRefReservedZero (get_bytes 96 32 payload) \<or>
               \<not> pageRefReservedZero (get_bytes 128 32 payload) \<or>
               \<not> pageRefReservedZero (get_bytes 160 32 payload)
            then Inl ErrStateRootCorrupt
            else if version = stateRootVersionV2 \<and> \<not> allZero (get_bytes 60 4 payload)
            then Inl ErrStateRootCorrupt
            else if (version = stateRootVersion \<or> version = stateRootVersionV4) \<and>
               (\<not> pageRefReservedZero (get_bytes 192 32 payload) \<or>
                version = stateRootVersionV4 \<and> \<not> allZero (drop 224 payload))
            then Inl ErrStateRootCorrupt
            else if version = stateRootVersion \<and>
               (\<not> pageRefReservedZero (get_bytes 224 32 payload) \<or> \<not> allZero (drop 256 payload))
            then Inl ErrStateRootCorrupt
            else if \<not> (version = stateRootVersion \<or> version = stateRootVersionV4) \<and> \<not> allZero (drop 192 payload)
            then Inl ErrStateRootCorrupt
            else
              let root =
                \<lparr>sr_StoreID = ph_StoreID header, sr_Generation = ph_Generation header,
                 sr_PageSize = ph_PageSize header,
                 sr_Options = le_word (get_bytes 4 4 payload),
                 sr_DocumentCount = le_word (get_bytes 8 8 payload),
                 sr_TTLCount = le_word (get_bytes 16 8 payload),
                 sr_NextLogicalID = le_word (get_bytes 24 8 payload),
                 sr_ChunkHighWater = le_word (get_bytes 32 4 payload),
                 sr_LiveChunks = le_word (get_bytes 36 4 payload),
                 sr_ChunkDocuments = le_word (get_bytes 40 4 payload),
                 sr_IndexCount = le_word (get_bytes 44 4 payload),
                 sr_IndexMaxDepth = le_word (get_bytes 48 4 payload),
                 sr_IndexCatalogHash = le_word (get_bytes 52 8 payload),
                 sr_FreeChunkHint = (if version = stateRootVersionV2 then 0 else le_word (get_bytes 60 4 payload)),
                 sr_ChunkDirectory = decodePageRef (get_bytes 64 32 payload),
                 sr_KeyDirectory = decodePageRef (get_bytes 96 32 payload),
                 sr_IndexDirectory = decodePageRef (get_bytes 128 32 payload),
                 sr_TTLDirectory = decodePageRef (get_bytes 160 32 payload),
                 sr_Float64ScanHead =
                   (if version = stateRootVersion \<or> version = stateRootVersionV4
                    then decodePageRef (get_bytes 192 32 payload) else zeroPageRef),
                 sr_IndexGroupHead =
                   (if version = stateRootVersion then decodePageRef (get_bytes 224 32 payload) else zeroPageRef)\<rparr>
              in case validateStateRoot root fileEnd of
                   Some _ \<Rightarrow> Inl ErrStateRootCorrupt
                 | None \<Rightarrow> Inr root)"

end
