(* ===== verification/StateRootCorrect.thy ===== *)
theory StateRootCorrect
  imports StateRoot
begin

unbundle bit_operations_syntax

text \<open>Round trip of page references and of the state root.\<close>

lemma length_encodePageRef [simp]: "length (encodePageRef r) = 32"
  by (simp add: encodePageRef_def)

lemma decode_encodePageRef [simp]: "decodePageRef (encodePageRef r) = r"
  by (cases r) (simp add: encodePageRef_def decodePageRef_def get_bytes_def nth_append)

lemma pageRefReservedZero_encode [simp]: "pageRefReservedZero (encodePageRef r) \<longleftrightarrow> pr_Aux r = 0"
  by (simp add: encodePageRef_def pageRefReservedZero_def get_bytes_def)

lemma zeroPageRef_Aux [simp]: "pr_Aux zeroPageRef = 0"
  by (simp add: zeroPageRef_def)

text \<open>A page built by \<open>InitPage\<close>, filled and sealed by an encoder.\<close>

lemma encode_open:
  assumes "validatePageHeader h = None" "unat (ph_PageSize h) \<le> length dst"
    and "length payload = unat (ph_PayloadLength h)"
  shows "\<exists>page sealed c. InitPage dst h = Inr page \<and> sealInitializedPage (fillPage page payload) = Inr (sealed, c) \<and>
    length sealed = unat (ph_PageSize h) \<and> OpenPage sealed = Inr (h, payload)"
proof -
  obtain page where i: "InitPage dst h = Inr page" using assms by (auto simp: InitPage_def Let_def)
  from seal_open [OF i assms(3), of False "[]"] i show ?thesis by (auto simp: sealInitializedPage_def)
qed

lemma validateStatePageRef_Aux: "validateStatePageRef r k q root fe = None \<Longrightarrow> pr_Aux r = 0"
  by (auto simp: validateStatePageRef_def Let_def split: if_splits)

lemma validateRootRefs_Aux:
  "validateRootRefs root fe earlier refs = None \<Longrightarrow> \<forall>r \<in> set refs. pr_Aux (fst r) = 0"
  by (induction root fe earlier refs rule: validateRootRefs.induct)
    (auto dest: validateStatePageRef_Aux split: option.splits if_splits)

lemma validateStateRoot_Aux:
  assumes "validateStateRoot root fe = None"
  shows "pr_Aux (sr_ChunkDirectory root) = 0" "pr_Aux (sr_KeyDirectory root) = 0"
    "pr_Aux (sr_IndexDirectory root) = 0" "pr_Aux (sr_TTLDirectory root) = 0"
    "pr_Aux (sr_Float64ScanHead root) = 0" "pr_Aux (sr_IndexGroupHead root) = 0"
proof -
  obtain refs where r: "validateRootRefs root fe [] refs = None"
    "map fst refs = [sr_ChunkDirectory root, sr_KeyDirectory root, sr_IndexDirectory root, sr_TTLDirectory root]"
    and f: "validateFloat64ScanHead root fe" "validateIndexGroupHead root fe"
    using assms unfolding validateStateRoot_def Let_def
    by (simp split: if_splits option.splits del: validateRootRefs.simps)
  have "\<forall>x \<in> set (map fst refs). pr_Aux x = 0" using validateRootRefs_Aux [OF r(1)] by auto
  then show "pr_Aux (sr_ChunkDirectory root) = 0" "pr_Aux (sr_KeyDirectory root) = 0"
    "pr_Aux (sr_IndexDirectory root) = 0" "pr_Aux (sr_TTLDirectory root) = 0"
    unfolding r(2) by simp_all
  show "pr_Aux (sr_Float64ScanHead root) = 0" "pr_Aux (sr_IndexGroupHead root) = 0"
    using f by (auto simp: validateFloat64ScanHead_def validateIndexGroupHead_def Let_def)
qed

lemma length_stateRootPayload [simp]: "length (stateRootPayload root) = 256"
  by (simp add: stateRootPayload_def Let_def StateRootPayloadSize_def)

lemma get_stateRootPayload [simp]:
  "get_bytes 0 4 (stateRootPayload root) = le_bytes 4 stateRootVersion"
  "get_bytes 4 4 (stateRootPayload root) = le_bytes 4 (sr_Options root)"
  "get_bytes 8 8 (stateRootPayload root) = le_bytes 8 (sr_DocumentCount root)"
  "get_bytes 16 8 (stateRootPayload root) = le_bytes 8 (sr_TTLCount root)"
  "get_bytes 24 8 (stateRootPayload root) = le_bytes 8 (sr_NextLogicalID root)"
  "get_bytes 32 4 (stateRootPayload root) = le_bytes 4 (sr_ChunkHighWater root)"
  "get_bytes 36 4 (stateRootPayload root) = le_bytes 4 (sr_LiveChunks root)"
  "get_bytes 40 4 (stateRootPayload root) = le_bytes 4 (sr_ChunkDocuments root)"
  "get_bytes 44 4 (stateRootPayload root) = le_bytes 4 (sr_IndexCount root)"
  "get_bytes 48 4 (stateRootPayload root) = le_bytes 4 (sr_IndexMaxDepth root)"
  "get_bytes 52 8 (stateRootPayload root) = le_bytes 8 (sr_IndexCatalogHash root)"
  "get_bytes 60 4 (stateRootPayload root) = le_bytes 4 (sr_FreeChunkHint root)"
  "get_bytes 64 32 (stateRootPayload root) = encodePageRef (sr_ChunkDirectory root)"
  "get_bytes 96 32 (stateRootPayload root) = encodePageRef (sr_KeyDirectory root)"
  "get_bytes 128 32 (stateRootPayload root) = encodePageRef (sr_IndexDirectory root)"
  "get_bytes 160 32 (stateRootPayload root) = encodePageRef (sr_TTLDirectory root)"
  "get_bytes 192 32 (stateRootPayload root) = encodePageRef (sr_Float64ScanHead root)"
  "get_bytes 224 32 (stateRootPayload root) = encodePageRef (sr_IndexGroupHead root)"
  by (simp_all add: stateRootPayload_def Let_def StateRootPayloadSize_def get_put)

lemma validateStateRoot_header:
  "validateStateRoot root fe = None \<Longrightarrow>
   sr_StoreID root \<noteq> 0 \<and> sr_Generation root \<noteq> 0 \<and> validPhysicalPageSize (sr_PageSize root)"
  by (auto simp: validateStateRoot_def split: if_splits)

lemma state_root_encode:
  assumes v: "validateStateRoot root fe = None" and len: "unat (sr_PageSize root) \<le> length dst"
  shows "\<exists>page. EncodeStateRootPage dst root fe = Inr page \<and> length page = unat (sr_PageSize root) \<and>
     DecodeStateRootPage page fe = Inr root"
proof -
  let ?h = "\<lparr>ph_StoreID = sr_StoreID root, ph_Generation = sr_Generation root, ph_LogicalID = StateRootLogicalID,
    ph_PageSize = sr_PageSize root, ph_PayloadLength = of_nat StateRootPayloadSize, ph_Kind = PageStateRoot, ph_Flags = 0\<rparr>"
  note h = validateStateRoot_header [OF v]
  have ps: "4096 \<le> unat (sr_PageSize root)" using h validPhysicalPageSize_ge by blast
  have hv: "validatePageHeader ?h = None"
    using h ps payload_bound [of "sr_PageSize root" "of_nat StateRootPayloadSize"]
    by (simp add: validatePageHeader_def validPageKind_def validPageFlags_def page_kinds StateRootLogicalID_def
        StateRootPayloadSize_def)
  obtain page sealed c where p: "InitPage dst ?h = Inr page"
    "sealInitializedPage (fillPage page (stateRootPayload root)) = Inr (sealed, c)"
    "length sealed = unat (sr_PageSize root)" "OpenPage sealed = Inr (?h, stateRootPayload root)"
    using encode_open [OF hv, of dst "stateRootPayload root"] len by (auto simp: StateRootPayloadSize_def)
  have "EncodeStateRootPage dst root fe = Inr sealed" using p v by (simp add: EncodeStateRootPage_def)
  moreover have "DecodeStateRootPage sealed fe = Inr root"
    using v validateStateRoot_Aux [OF v]
    by (cases root) (simp add: DecodeStateRootPage_def p(4) Let_def StateRootPayloadSize_def stateRootVersion_def
        stateRootVersionV2_def stateRootVersionV4_def allZero_def)
  ultimately show ?thesis using p(3) by blast
qed

text \<open>C40. A valid state root survives its page: encoding succeeds into any buffer of a page's size and decoding the page against the same file end gives back the same root.\<close>

theorem state_root_roundtrip:
  assumes v: "validateStateRoot root fe = None" and len: "unat (sr_PageSize root) \<le> length dst"
  shows "\<exists>page. EncodeStateRootPage dst root fe = Inr page \<and> length page = unat (sr_PageSize root) \<and>
     DecodeStateRootPage page fe = Inr root"
  by (rule state_root_encode [OF assms])

definition sample_root :: StateRoot where
  "sample_root = \<lparr>sr_StoreID = 7, sr_Generation = 3, sr_PageSize = 4096, sr_Options = 0, sr_DocumentCount = 0,
     sr_TTLCount = 0, sr_NextLogicalID = 2, sr_ChunkHighWater = 0, sr_LiveChunks = 0, sr_ChunkDocuments = 64,
     sr_IndexCount = 0, sr_IndexMaxDepth = 0, sr_IndexCatalogHash = 0, sr_FreeChunkHint = 0,
     sr_ChunkDirectory = zeroPageRef, sr_KeyDirectory = zeroPageRef, sr_IndexDirectory = zeroPageRef,
     sr_TTLDirectory = zeroPageRef, sr_Float64ScanHead = zeroPageRef, sr_IndexGroupHead = zeroPageRef\<rparr>"

lemma maxSuperblockFileOffset_val: "maxSuperblockFileOffset = 0x7FFFFFFFFFFFFFFF"
  by (simp add: maxSuperblockFileOffset_def mask_eq_exp_minus_1)

lemma sample_root_valid: "validateStateRoot sample_root 12288 = None"
  by (simp add: sample_root_def validateStateRoot_def validPhysicalPageSize_def physicalPageQuantum_def Let_def
      superblockCopies_def maxSuperblockFileOffset_val validateStatePageRef_def
      validateFloat64ScanHead_def validateIndexGroupHead_def StateRootLogicalID_def word_le_nat_alt)

theorem state_root_roundtrip_witness:
  "\<exists>page. EncodeStateRootPage (replicate 4096 0) sample_root 12288 = Inr page \<and> length page = 4096 \<and>
     DecodeStateRootPage page 12288 = Inr sample_root"
  using state_root_roundtrip [OF sample_root_valid, of "replicate 4096 0"] by (simp add: sample_root_def)

lemma if_member: "x \<in> S \<Longrightarrow> y \<in> S \<Longrightarrow> (if b then x else y) \<in> S"
  by simp

lemma option_member: "(\<And>e. f e \<in> S) \<Longrightarrow> y \<in> S \<Longrightarrow> (case z of Some e \<Rightarrow> f e | None \<Rightarrow> y) \<in> S"
  by (cases z) auto

text \<open>C37. What a failed decode of a state root reports: corruption, except that it panics on exactly the pages that open with a payload of less than four bytes, and there are such pages.\<close>

theorem DecodeStateRootPage_panics:
  "DecodeStateRootPage src fileEnd \<in> {Inl ErrStateRootCorrupt, Inl Panic} \<union> range Inr \<and>
   (DecodeStateRootPage src fileEnd = Inl Panic) = (\<exists>h p. OpenPage src = Inr (h, p) \<and> length p < 4) \<and>
   (\<exists>page h. OpenPage page = Inr (h, []))"
proof -
  define h where "h = sample_header\<lparr>ph_PayloadLength := 0\<rparr>"
  have "validatePageHeader h = None"
    by (simp add: h_def sample_header_def validatePageHeader_def validPageKind_def validPageFlags_def page_kinds
        validPhysicalPageSize_def physicalPageQuantum_def)
  then have "\<exists>page h. OpenPage page = Inr (h, [])"
    using encode_open [of h "replicate 4096 0" "[]"] by (auto simp: h_def sample_header_def)
  moreover have "DecodeStateRootPage src fileEnd \<in> {Inl ErrStateRootCorrupt} \<union> range Inr"
    if "OpenPage src = Inr (hd, p)" "\<not> length p < 4" for hd p
    unfolding DecodeStateRootPage_def that(1) sum.case prod.case if_not_P [OF that(2)] Let_def
    by (intro if_member option_member) simp_all
  moreover have "DecodeStateRootPage src fileEnd = Inl ErrStateRootCorrupt" if "OpenPage src = Inl e" for e
    using that by (simp add: DecodeStateRootPage_def)
  moreover have "DecodeStateRootPage src fileEnd = Inl Panic" if "OpenPage src = Inr (hd, p)" "length p < 4" for hd p
    using that by (simp add: DecodeStateRootPage_def)
  ultimately show ?thesis by (cases "OpenPage src") fastforce+
qed

end
