(* ===== verification/RecordPages.thy ===== *)
theory RecordPages
  imports StateRootCorrect
begin

unbundle bit_operations_syntax

text \<open>
  What the directory pages share: fixed-size records behind a payload header, the binary search of
  their lookups, and the uniqueness filter \<^verbatim>\<open>chunkDirectoryRefSet\<close> of \<^verbatim>\<open>chunk_directory.go\<close>. The locale
  \<open>record_codec\<close> is the interface of one record format: its instances are the extents and children of
  the free directory, the keys and children of the expiry directory, and the references of the chunk
  directory.
\<close>

section \<open>Binary search\<close>

text \<open>The loop \<^verbatim>\<open>for low < high { middle := int(uint(low+high) >> 1); if before(middle) { low = middle + 1
  } else { high = middle } }\<close> of every directory lookup.\<close>

function searchLoop :: "(nat \<Rightarrow> bool) \<Rightarrow> nat \<Rightarrow> nat \<Rightarrow> nat" where
  "searchLoop before low high =
     (if low < high then
        let middle = (low + high) div 2 in
        if before middle then searchLoop before (middle + 1) high else searchLoop before low middle
      else low)"
  by pat_completeness auto
termination
  by (relation "measure (\<lambda>(before, low, high). high - low)") auto

declare searchLoop.simps [simp del]

lemma searchLoop_split:
  assumes "low \<le> high" "high \<le> n" "\<And>i j. i \<le> j \<Longrightarrow> j < n \<Longrightarrow> before j \<Longrightarrow> before i"
    and "\<And>i. i < low \<Longrightarrow> before i" "\<And>i. high \<le> i \<Longrightarrow> i < n \<Longrightarrow> \<not> before i"
  shows "searchLoop before low high \<le> high \<and> (\<forall>i < searchLoop before low high. before i) \<and>
    (\<forall>i. searchLoop before low high \<le> i \<and> i < n \<longrightarrow> \<not> before i)"
  using assms
proof (induction before low high rule: searchLoop.induct)
  case (1 before low high)
  show ?case
  proof (cases "low < high")
    case True
    let ?m = "(low + high) div 2"
    have m: "low \<le> ?m" "?m < high" using True by auto
    show ?thesis
    proof (cases "before ?m")
      case b: True
      have mn: "?m < n" using m 1(4) by linarith
      have lo: "\<And>i. i < ?m + 1 \<Longrightarrow> before i" using 1(5) [OF _ mn b] by simp
      let ?r = "searchLoop before (?m + 1) high"
      have "?r \<le> high \<and> (\<forall>i < ?r. before i) \<and> (\<forall>i. ?r \<le> i \<and> i < n \<longrightarrow> \<not> before i)"
        by (rule 1(1) [OF True refl b]) (use m 1(4,5,7) lo in auto)
      then show ?thesis using m True b by (subst (1 2 3) searchLoop.simps) simp
    next
      case b: False
      have hi: "\<And>i. ?m \<le> i \<Longrightarrow> i < n \<Longrightarrow> \<not> before i" using b 1(5) by blast
      let ?r = "searchLoop before low ?m"
      have "?r \<le> ?m \<and> (\<forall>i < ?r. before i) \<and> (\<forall>i. ?r \<le> i \<and> i < n \<longrightarrow> \<not> before i)"
        by (rule 1(2) [OF True refl b]) (use m 1(4-6) hi in auto)
      then show ?thesis using m True b by (subst (1 2 3) searchLoop.simps) auto
    qed
  next
    case False
    then have "searchLoop before low high = low" "low = high" using 1(3) by (subst searchLoop.simps, simp, simp)
    then show ?thesis using 1(6,7) by auto
  qed
qed

text \<open>The search over a whole page of \<open>n\<close> records ordered by \<open>before\<close>: the first record that is not
  before the target.\<close>

lemma searchLoop_first:
  assumes "\<forall>i j. i \<le> j \<and> j < n \<and> before j \<longrightarrow> before i"
  shows "searchLoop before 0 n \<le> n \<and> (\<forall>i < n. before i \<longleftrightarrow> i < searchLoop before 0 n)"
proof -
  have "searchLoop before 0 n \<le> n \<and> (\<forall>i < searchLoop before 0 n. before i) \<and>
      (\<forall>i. searchLoop before 0 n \<le> i \<and> i < n \<longrightarrow> \<not> before i)"
    by (rule searchLoop_split) (use assms in auto)
  then show ?thesis by (meson not_le)
qed

lemma filter_prefix:
  assumes "\<forall>i < length xs. P (xs ! i) \<longleftrightarrow> i < k" "k \<le> length xs"
  shows "filter P xs = take k xs"
proof -
  have t: "\<forall>x \<in> set (take k xs). P x" using assms by (auto simp: in_set_conv_nth)
  have d: "\<forall>x \<in> set (drop k xs). \<not> P x"
  proof
    fix x assume "x \<in> set (drop k xs)"
    then obtain j where "j < length xs - k" "x = xs ! (k + j)" by (auto simp: in_set_conv_nth)
    then show "\<not> P x" using assms by auto
  qed
  have "filter P xs = filter P (take k xs) @ filter P (drop k xs)"
    by (metis append_take_drop_id filter_append)
  then show ?thesis using t d by (simp add: filter_id_conv filter_empty_conv)
qed

lemma last_take_nth: "0 < k \<Longrightarrow> k \<le> length xs \<Longrightarrow> take k xs \<noteq> [] \<and> last (take k xs) = xs ! (k - 1)"
  using last_conv_nth [of "take k xs"] by (cases xs) (auto simp: min_absorb2)

section \<open>Records\<close>

text \<open>The encoders write record \<open>i\<close> into \<^verbatim>\<open>payload[base+i*width:]\<close>.\<close>

definition putRecords :: "nat \<Rightarrow> nat \<Rightarrow> bytes list \<Rightarrow> bytes \<Rightarrow> bytes" where
  "putRecords base width records payload =
     foldl (\<lambda>payload (i, record). put_bytes (base + i * width) record payload) payload (enumerate 0 records)"

lemma length_putRecords [simp]: "length (putRecords base width rs p) = length p"
proof -
  have "length (foldl (\<lambda>p (i, r). put_bytes (base + i * width) r p) p irs) = length p" for irs
    by (induction irs arbitrary: p) auto
  then show ?thesis by (simp add: putRecords_def)
qed

lemma putRecords_snoc:
  "putRecords base width (rs @ [r]) p = put_bytes (base + length rs * width) r (putRecords base width rs p)"
  by (simp add: putRecords_def enumerate_append_eq)

lemma get_putRecords_header: "off + n \<le> base \<Longrightarrow> get_bytes off n (putRecords base width rs p) = get_bytes off n p"
  by (induction rs rule: rev_induct) (simp_all add: putRecords_snoc get_put_before putRecords_def [of _ _ "[]"])

lemma get_putRecords:
  assumes "\<forall>r \<in> set rs. length r = width" "base + length rs * width \<le> length p" "i < length rs"
  shows "get_bytes (base + i * width) width (putRecords base width rs p) = rs ! i"
  using assms
proof (induction rs rule: rev_induct)
  case (snoc r rs)
  show ?case
  proof (cases "i = length rs")
    case True
    then show ?thesis using snoc.prems by (simp add: putRecords_snoc get_put_same)
  next
    case False
    then have i: "i < length rs" using snoc.prems by simp
    then have "i * width + width \<le> length rs * width" by (metis Suc_leI add.commute mult_Suc mult_le_mono1)
    then show ?thesis using snoc i by (simp add: putRecords_snoc get_put_before nth_append)
  qed
qed simp

lemma drop_get: "off + n \<le> width \<Longrightarrow> get_bytes off n (drop k p) = get_bytes off n (get_bytes k width p)"
  by (simp add: get_bytes_def drop_take)

lemma drop_nth: "off < width \<Longrightarrow> k + width \<le> length p \<Longrightarrow> drop k p ! off = get_bytes k width p ! off"
  by (simp add: get_bytes_def)

text \<open>The interface of a record format: a record is encoded in \<open>width\<close> bytes and decoded from a
  slice that starts with them.\<close>

locale record_codec =
  fixes enc :: "'r \<Rightarrow> bytes" and decode :: "bytes \<Rightarrow> 'r" and width :: nat
  assumes length_enc [simp]: "length (enc r) = width"
    and decode_prefix: "decode (enc r @ rest) = r"
begin

lemma decode_record:
  assumes "base + length rs * width \<le> length p" "i < length rs"
  shows "decode (drop (base + i * width) (putRecords base width (map enc rs) p)) = rs ! i"
proof -
  let ?q = "putRecords base width (map enc rs) p"
  have "i * width + width \<le> length rs * width" using assms(2) by (metis Suc_leI add.commute mult_Suc mult_le_mono1)
  then have le: "base + i * width + width \<le> length ?q" using assms(1) by simp
  have "get_bytes (base + i * width) width ?q = enc (rs ! i)"
    using get_putRecords [of "map enc rs" width base p i] assms by simp
  then have "drop (base + i * width) ?q = enc (rs ! i) @ drop (base + i * width + width) ?q"
    by (metis append_take_drop_id drop_drop get_bytes_def add.commute)
  then show ?thesis by (simp add: decode_prefix)
qed

lemma decode_records:
  assumes "base + length rs * width \<le> length p"
  shows "map (\<lambda>i. decode (drop (base + i * width) (putRecords base width (map enc rs) p))) [0..<length rs] = rs"
  by (rule nth_equalityI) (use decode_record [OF assms] in auto)

end

end
