(* ===== verification/RefSet.thy ===== *)
theory RefSet
  imports StateRootCorrect
begin

unbundle bit_operations_syntax

text \<open>
  The uniqueness filter \<^verbatim>\<open>chunkDirectoryRefSet\<close> of \<^verbatim>\<open>internal/storeio/chunk_directory.go\<close>: two open
  hash tables of 128 slots with linear probing, zero for an empty slot. A probe loop that has tried
  all 128 slots is back at its first slot with the table unchanged, so it never returns; that is the
  value \<open>None\<close> here. The lemmas show that it returns as long as a slot is empty and that the tables
  implement sets.
\<close>

definition chunkDirectoryRefSetSize :: nat where "chunkDirectoryRefSetSize = 128"

definition refSetSlot :: "u64 \<Rightarrow> nat" where
  "refSetSlot value = unat (drop_bit 57 (value * 0x9E3779B97F4A7C15))"

fun refSetProbe :: "nat \<Rightarrow> u64 list \<Rightarrow> nat \<Rightarrow> u64 \<Rightarrow> (u64 list \<times> bool) option" where
  "refSetProbe 0 table slot value = None"
| "refSetProbe (Suc tries) table slot value =
     (let current = table ! slot in
      if current = 0 then Some (table[slot := value], True)
      else if current = value then Some (table, False)
      else refSetProbe tries table ((slot + 1) mod chunkDirectoryRefSetSize) value)"

definition chunkDirectoryRefSetInsert :: "u64 list \<Rightarrow> u64 \<Rightarrow> (u64 list \<times> bool) option" where
  "chunkDirectoryRefSetInsert table value = refSetProbe chunkDirectoryRefSetSize table (refSetSlot value) value"

record chunkDirectoryRefSet =
  rs_logical :: "u64 list"
  rs_offset :: "u64 list"

definition emptyRefSet :: chunkDirectoryRefSet where
  "emptyRefSet = \<lparr>rs_logical = replicate chunkDirectoryRefSetSize 0, rs_offset = replicate chunkDirectoryRefSetSize 0\<rparr>"

definition refSetAdd :: "chunkDirectoryRefSet \<Rightarrow> PageRef \<Rightarrow> (chunkDirectoryRefSet \<times> bool) option" where
  "refSetAdd seen ref =
     (case chunkDirectoryRefSetInsert (rs_logical seen) (pr_LogicalID ref) of
        None \<Rightarrow> None
      | Some (logical, fresh) \<Rightarrow>
          if \<not> fresh then Some (seen\<lparr>rs_logical := logical\<rparr>, False)
          else case chunkDirectoryRefSetInsert (rs_offset seen) (pr_Offset ref) of
            None \<Rightarrow> None
          | Some (offset, fresh) \<Rightarrow> Some (seen\<lparr>rs_logical := logical, rs_offset := offset\<rparr>, fresh))"

section \<open>Linear probing\<close>

lemma refSetSlot_less [simp]: "refSetSlot v < 128"
proof -
  have "unat (drop_bit 57 (v * 0x9E3779B97F4A7C15)) = unat (v * 0x9E3779B97F4A7C15) div 2 ^ 57"
    by (simp only: unat_drop_bit_eq) (simp add: drop_bit_eq_div)
  moreover have "unat (v * 0x9E3779B97F4A7C15) < 2 ^ 64"
    using unsigned_less [of "v * 0x9E3779B97F4A7C15", where ?'a = nat] by simp
  ultimately show ?thesis by (simp add: refSetSlot_def less_mult_imp_div_less)
qed

abbreviation probe :: "u64 \<Rightarrow> nat \<Rightarrow> nat" where
  "probe v d \<equiv> (refSetSlot v + d) mod 128"

text \<open>Every stored value is reached from its own slot through nonempty slots of other values.\<close>

definition probe_ok :: "u64 list \<Rightarrow> bool" where
  "probe_ok table \<longleftrightarrow> length table = 128 \<and>
     (\<forall>v \<in> set table. v \<noteq> 0 \<longrightarrow>
        (\<exists>d. table ! probe v d = v \<and> (\<forall>e < d. table ! probe v e \<noteq> 0 \<and> table ! probe v e \<noteq> v)))"

definition entries :: "u64 list \<Rightarrow> u64 set" where
  "entries table = set table - {0}"

lemma probe_covers: "s < 128 \<Longrightarrow> \<exists>d < 128. probe v d = s"
proof -
  assume s: "s < 128"
  have h: "refSetSlot v < 128" by simp
  show ?thesis
  proof (cases "refSetSlot v \<le> s")
    case True
    then show ?thesis using s by (intro exI [of _ "s - refSetSlot v"]) auto
  next
    case False
    then have "refSetSlot v + (128 + s - refSetSlot v) = 128 + s" using h by linarith
    then show ?thesis using s False by (intro exI [of _ "128 + s - refSetSlot v"]) auto
  qed
qed

lemma refSetProbe_run:
  assumes "\<And>e. e < d \<Longrightarrow> table ! probe v e \<noteq> 0 \<and> table ! probe v e \<noteq> v" "k \<le> d" "d < k + tries"
  shows "refSetProbe tries table (probe v k) v =
    (if table ! probe v d = 0 then Some (table[probe v d := v], True)
     else if table ! probe v d = v then Some (table, False)
     else refSetProbe (tries - (d - k)) table (probe v d) v)"
  using assms(2,3)
proof (induction tries arbitrary: k)
  case (Suc tries)
  show ?case
  proof (cases "k = d")
    case False
    then have "table ! probe v k \<noteq> 0" "table ! probe v k \<noteq> v" using assms(1) [of k] Suc.prems by auto
    then show ?thesis
      using Suc.IH [of "Suc k"] Suc.prems False by (simp add: Let_def chunkDirectoryRefSetSize_def mod_Suc_eq)
  qed (auto simp: Let_def)
qed simp

lemma refSetInsert:
  assumes ok: "probe_ok table" and v: "v \<noteq> 0" and free: "0 \<in> set table"
  obtains table' where "chunkDirectoryRefSetInsert table v = Some (table', v \<notin> entries table)"
    "probe_ok table'" "entries table' = insert v (entries table)"
    "length (filter (\<lambda>x. x = 0) table) \<le> Suc (length (filter (\<lambda>x. x = 0) table'))"
proof -
  have len: "length table = 128" using ok by (simp add: probe_ok_def)
  obtain s where s: "s < 128" "table ! s = 0" using free len by (auto simp: in_set_conv_nth)
  obtain f where f: "f < 128" "probe v f = s" using probe_covers [OF s(1), of v] by (elim exE conjE)
  note f = f(1) s(2) [folded f(2)]
  define d where "d = (LEAST d. table ! probe v d = 0 \<or> table ! probe v d = v)"
  have hit: "table ! probe v d = 0 \<or> table ! probe v d = v"
    unfolding d_def by (rule LeastI [of _ f]) (simp add: f)
  have le: "d \<le> f" unfolding d_def by (rule Least_le) (simp add: f)
  have miss: "table ! probe v e \<noteq> 0 \<and> table ! probe v e \<noteq> v" if "e < d" for e
    using not_less_Least [of e "\<lambda>d. table ! probe v d = 0 \<or> table ! probe v d = v"] that by (auto simp: d_def)
  have in_iff: "v \<in> set table \<longleftrightarrow> table ! probe v d = v"
  proof
    assume "v \<in> set table"
    then obtain e where e: "table ! probe v e = v" "\<forall>k < e. table ! probe v k \<noteq> 0 \<and> table ! probe v k \<noteq> v"
      using ok v by (auto simp: probe_ok_def)
    then show "table ! probe v d = v" using hit miss by (metis linorder_neqE_nat)
  next
    assume "table ! probe v d = v"
    then show "v \<in> set table" using len by (metis mod_less_divisor nth_mem zero_less_numeral)
  qed
  have run: "chunkDirectoryRefSetInsert table v =
      (if table ! probe v d = 0 then Some (table[probe v d := v], True) else Some (table, False))"
  proof -
    have "refSetProbe 128 table (probe v 0) v =
        (if table ! probe v d = 0 then Some (table[probe v d := v], True) else Some (table, False))"
      using refSetProbe_run [of d table v 0 128] miss hit le f(1) by (auto simp del: refSetProbe.simps)
    moreover have "probe v 0 = refSetSlot v" by simp
    ultimately show ?thesis by (simp only: chunkDirectoryRefSetInsert_def chunkDirectoryRefSetSize_def)
  qed
  have pl: "probe v d < length table" using len by simp
  show thesis
  proof (cases "table ! probe v d = 0")
    case False
    then have "v \<in> entries table" using hit v in_iff by (simp add: entries_def)
    then show thesis using that [of table] run False ok by (auto simp: insert_absorb)
  next
    case True
    let ?t = "table[probe v d := v]"
    have split: "table = take (probe v d) table @ 0 # drop (Suc (probe v d)) table"
      using id_take_nth_drop [OF pl] True by simp
    have nin: "v \<notin> set table" using in_iff True v by simp
    have other: "?t ! probe w e = table ! probe w e" if "table ! probe w e \<noteq> 0" for w e
      using that True by (metis nth_list_update_neq)
    have "probe_ok ?t"
      unfolding probe_ok_def
    proof (intro conjI ballI impI)
      fix w assume w: "w \<in> set ?t" "w \<noteq> 0"
      show "\<exists>d. ?t ! probe w d = w \<and> (\<forall>e < d. ?t ! probe w e \<noteq> 0 \<and> ?t ! probe w e \<noteq> w)"
      proof (cases "w = v")
        case True
        have "?t ! probe v e \<noteq> 0 \<and> ?t ! probe v e \<noteq> v" if "e < d" for e using other [of v e] miss [OF that] by simp
        then show ?thesis using pl True by (intro exI [of _ d]) simp
      next
        case False
        then have "w \<in> set table" using w(1) set_update_subset_insert [of table "probe v d" v] by auto
        then obtain c where c: "table ! probe w c = w" "\<forall>e < c. table ! probe w e \<noteq> 0 \<and> table ! probe w e \<noteq> w"
          using ok w(2) by (auto simp: probe_ok_def)
        then show ?thesis using other w(2) by (intro exI [of _ c]) simp
      qed
    qed (simp add: len)
    moreover have "set ?t - {0} = insert v (set table - {0})"
    proof -
      have "set table = insert 0 (set (take (probe v d) table) \<union> set (drop (Suc (probe v d)) table))"
        by (subst split) (simp only: set_append list.set(2) Un_insert_right)
      moreover have "set ?t = insert v (set (take (probe v d) table) \<union> set (drop (Suc (probe v d)) table))"
        using pl by (simp add: upd_conv_take_nth_drop)
      ultimately show ?thesis using v by auto
    qed
    moreover have "length (filter (\<lambda>x. x = 0) table) = Suc (length (filter (\<lambda>x. x = 0) ?t))"
    proof -
      have "filter (\<lambda>x. x = 0) table = filter (\<lambda>x. x = 0) (take (probe v d) table @ 0 # drop (Suc (probe v d)) table)"
        by (subst split) (rule refl)
      then show ?thesis using pl v by (simp add: upd_conv_take_nth_drop)
    qed
    ultimately show thesis using that [of ?t] run True nin by (simp add: entries_def)
  qed
qed

section \<open>The filter\<close>

text \<open>\<open>ref_set seen L O k\<close>: the filter holds the logical ids \<open>L\<close> and the offsets \<open>O\<close> after at most \<open>k\<close>
  insertions.\<close>

definition ref_set :: "chunkDirectoryRefSet \<Rightarrow> u64 set \<Rightarrow> u64 set \<Rightarrow> nat \<Rightarrow> bool" where
  "ref_set seen L Os k \<longleftrightarrow> probe_ok (rs_logical seen) \<and> probe_ok (rs_offset seen) \<and>
     entries (rs_logical seen) = L \<and> entries (rs_offset seen) = Os \<and>
     128 \<le> k + length (filter (\<lambda>x. x = 0) (rs_logical seen)) \<and>
     128 \<le> k + length (filter (\<lambda>x. x = 0) (rs_offset seen))"

lemma ref_set_empty: "ref_set emptyRefSet {} {} 0"
  by (auto simp: ref_set_def emptyRefSet_def probe_ok_def entries_def chunkDirectoryRefSetSize_def)

lemma refSetAdd:
  assumes r: "ref_set seen L Os k" and k: "k < 128" and nz: "pr_LogicalID ref \<noteq> 0" "pr_Offset ref \<noteq> 0"
  shows "\<exists>seen' fresh. refSetAdd seen ref = Some (seen', fresh) \<and>
    fresh = (pr_LogicalID ref \<notin> L \<and> pr_Offset ref \<notin> Os) \<and>
    (fresh \<longrightarrow> ref_set seen' (insert (pr_LogicalID ref) L) (insert (pr_Offset ref) Os) (Suc k))"
proof -
  have zero: "0 \<in> set t" if "128 \<le> k + length (filter (\<lambda>x. x = 0) t)" for t :: "u64 list"
    using that k by (cases "filter (\<lambda>x. x = 0) t") (auto dest: filter_eq_ConsD)
  obtain tl where tl: "chunkDirectoryRefSetInsert (rs_logical seen) (pr_LogicalID ref) = Some (tl, pr_LogicalID ref \<notin> L)"
    "probe_ok tl" "entries tl = insert (pr_LogicalID ref) L"
    "length (filter (\<lambda>x. x = 0) (rs_logical seen)) \<le> Suc (length (filter (\<lambda>x. x = 0) tl))"
    using refSetInsert [of "rs_logical seen" "pr_LogicalID ref"] r nz(1) zero by (auto simp: ref_set_def)
  obtain to where to: "chunkDirectoryRefSetInsert (rs_offset seen) (pr_Offset ref) = Some (to, pr_Offset ref \<notin> Os)"
    "probe_ok to" "entries to = insert (pr_Offset ref) Os"
    "length (filter (\<lambda>x. x = 0) (rs_offset seen)) \<le> Suc (length (filter (\<lambda>x. x = 0) to))"
    using refSetInsert [of "rs_offset seen" "pr_Offset ref"] r nz(2) zero by (auto simp: ref_set_def)
  show ?thesis using tl to r by (auto simp: refSetAdd_def ref_set_def)
qed

end
