(* ===== verification/FreeDirectory.thy ===== *)
theory FreeDirectory
  imports RecordPages RefSet
begin

unbundle bit_operations_syntax

text \<open>
  The nodes of the persistent free-extent tree (\<^verbatim>\<open>internal/storeio/free_directory.go\<close>): leaves of
  extents, branches of offset lower bounds, their encoders and the validating opener, and the lookups
  on an opened view. Theory \<open>FreeDirectoryCorrect\<close> has the proofs.
\<close>

definition FreeDirectoryPayloadHeaderSize :: nat where "FreeDirectoryPayloadHeaderSize = 32"
definition FreeDirectoryLeafRecordSize :: nat where "FreeDirectoryLeafRecordSize = 24"
definition FreeDirectoryBranchRecordSize :: nat where "FreeDirectoryBranchRecordSize = 48"
definition freeDirectoryVersion :: u32 where "freeDirectoryVersion = 1"
definition freeDirectoryKnownFlags :: u8 where "freeDirectoryKnownFlags = 0"

lemmas free_sizes = FreeDirectoryPayloadHeaderSize_def FreeDirectoryLeafRecordSize_def
  FreeDirectoryBranchRecordSize_def

record FreeExtent =
  fe_Offset :: u64
  fe_Length :: u64
  fe_RetiredGeneration :: u64

definition zeroFreeExtent :: FreeExtent where
  "zeroFreeExtent = \<lparr>fe_Offset = 0, fe_Length = 0, fe_RetiredGeneration = 0\<rparr>"

record FreeDirectoryChild =
  fc_Lower :: u64
  fc_Ref :: PageRef

record FreeDirectoryHeader =
  fh_StoreID :: u128
  fh_Generation :: u64
  fh_LogicalID :: u64
  fh_PageSize :: u32
  fh_Level :: u8
  fh_Flags :: u8

record FreeDirectoryView =
  fv_header :: FreeDirectoryHeader
  fv_payload :: bytes
  fv_count :: u16

section \<open>Validation\<close>

definition validateFreeExtent :: "FreeExtent \<Rightarrow> u32 \<Rightarrow> u64 \<Rightarrow> io_error option" where
  "validateFreeExtent extent pageSize fileEnd =
     (let quantum = ucast pageSize :: u64 in
      if fe_Length extent = 0 \<or> fe_Offset extent < superblockCopies * quantum \<or>
         fe_Offset extent mod quantum \<noteq> 0 \<or> fe_Length extent mod quantum \<noteq> 0 \<or>
         fe_Offset extent > maxSuperblockFileOffset \<or> fe_Length extent > fileEnd \<or>
         fe_Offset extent > fileEnd - fe_Length extent \<or> fe_RetiredGeneration extent = 0
      then Some ErrInvalidWrite else None)"

definition validateFreeDirectoryHeader :: "FreeDirectoryHeader \<Rightarrow> nat \<Rightarrow> nat \<Rightarrow> u64 \<Rightarrow> io_error option" where
  "validateFreeDirectoryHeader header count recordSize nextLogicalID =
     (if fh_StoreID header = 0 \<or> fh_Generation header = 0 \<or>
         fh_LogicalID header \<le> StateRootLogicalID \<or> fh_LogicalID header \<ge> nextLogicalID \<or>
         \<not> validPhysicalPageSize (fh_PageSize header) \<or>
         fh_Flags header AND NOT freeDirectoryKnownFlags \<noteq> 0 \<or> count = 0 \<or> count > 65535 \<or>
         recordSize = FreeDirectoryBranchRecordSize \<and> count > 64
      then Some ErrInvalidWrite
      else if of_nat FreeDirectoryPayloadHeaderSize + of_nat count * of_nat recordSize >
              (ucast (fh_PageSize header) - 64 - 8 :: u64)
      then Some ErrInvalidWrite
      else None)"

definition validateFreeDirectoryChild :: "FreeDirectoryHeader \<Rightarrow> PageRef \<Rightarrow> u64 \<Rightarrow> u64 \<Rightarrow> io_error option" where
  "validateFreeDirectoryChild header ref fileEnd nextLogicalID =
     (let pageSize = ucast (fh_PageSize header) :: u64 in
      if fileEnd < superblockCopies * pageSize \<or> fileEnd > maxSuperblockFileOffset \<or> fileEnd mod pageSize \<noteq> 0 \<or>
         pr_Kind ref \<noteq> PageFreeDirectory \<or> pr_Flags ref \<noteq> 0 \<or> pr_Aux ref \<noteq> 0 \<or>
         pr_Length ref \<noteq> fh_PageSize header \<or>
         pr_Generation ref = 0 \<or> pr_Generation ref > fh_Generation header \<or>
         pr_LogicalID ref \<le> StateRootLogicalID \<or> pr_LogicalID ref \<ge> nextLogicalID \<or>
         pr_LogicalID ref = fh_LogicalID header \<or>
         pr_Offset ref < superblockCopies * pageSize \<or> pr_Offset ref mod pageSize \<noteq> 0 \<or>
         pr_Offset ref > maxSuperblockFileOffset \<or> pr_Offset ref > fileEnd - pageSize
      then Some ErrInvalidWrite else None)"

text \<open>The record loops, shared by encoder and opener; \<open>err\<close> is the error they report. The previous
  end or bound is \<open>None\<close> in the first round.\<close>

fun checkFreeExtents :: "io_error \<Rightarrow> u32 \<Rightarrow> u64 \<Rightarrow> u64 option \<Rightarrow> FreeExtent list \<Rightarrow> io_error option" where
  "checkFreeExtents err pageSize fileEnd previousEnd [] = None"
| "checkFreeExtents err pageSize fileEnd previousEnd (extent # extents) =
     (if validateFreeExtent extent pageSize fileEnd \<noteq> None \<or>
         (case previousEnd of None \<Rightarrow> False | Some e \<Rightarrow> fe_Offset extent < e)
      then Some err
      else checkFreeExtents err pageSize fileEnd (Some (fe_Offset extent + fe_Length extent)) extents)"

fun checkFreeChildren ::
  "io_error \<Rightarrow> FreeDirectoryHeader \<Rightarrow> u64 \<Rightarrow> u64 \<Rightarrow> chunkDirectoryRefSet \<Rightarrow> u64 option \<Rightarrow>
   FreeDirectoryChild list \<Rightarrow> io_error option" where
  "checkFreeChildren err header fileEnd nextLogicalID seen previousLower [] = None"
| "checkFreeChildren err header fileEnd nextLogicalID seen previousLower (c # cs) =
     (if (case previousLower of None \<Rightarrow> False | Some l \<Rightarrow> l \<ge> fc_Lower c) then Some err
      else if validateFreeDirectoryChild header (fc_Ref c) fileEnd nextLogicalID \<noteq> None then Some err
      else case refSetAdd seen (fc_Ref c) of
        None \<Rightarrow> Some NoReturn
      | Some (seen, fresh) \<Rightarrow>
          if \<not> fresh then Some err
          else checkFreeChildren err header fileEnd nextLogicalID seen (Some (fc_Lower c)) cs)"

section \<open>Encoding\<close>

definition freePageHeader :: "FreeDirectoryHeader \<Rightarrow> nat \<Rightarrow> PageHeader" where
  "freePageHeader header payloadLength =
     \<lparr>ph_StoreID = fh_StoreID header, ph_Generation = fh_Generation header,
      ph_LogicalID = fh_LogicalID header, ph_PageSize = fh_PageSize header,
      ph_PayloadLength = of_nat payloadLength, ph_Kind = PageFreeDirectory, ph_Flags = 0\<rparr>"

definition encodeFreeDirectoryHeader :: "bytes \<Rightarrow> FreeDirectoryHeader \<Rightarrow> nat \<Rightarrow> bytes" where
  "encodeFreeDirectoryHeader payload header count =
     (let payload = put_bytes 0 (le_bytes 4 freeDirectoryVersion) payload;
          payload = put_bytes 4 [fh_Level header] payload;
          payload = put_bytes 5 [fh_Flags header] payload
      in put_bytes 6 (le_bytes 2 (of_nat count :: u16)) payload)"

definition encodeFreeExtent :: "FreeExtent \<Rightarrow> bytes" where
  "encodeFreeExtent extent =
     le_bytes 8 (fe_Offset extent) @ le_bytes 8 (fe_Length extent) @ le_bytes 8 (fe_RetiredGeneration extent)"

text \<open>A branch record leaves its bytes 8 to 15 as the cleared page has them.\<close>

definition encodeFreeChild :: "FreeDirectoryChild \<Rightarrow> bytes" where
  "encodeFreeChild c = le_bytes 8 (fc_Lower c) @ replicate 8 0 @ encodePageRef (fc_Ref c)"

definition EncodeFreeDirectoryLeaf ::
  "bytes \<Rightarrow> FreeDirectoryHeader \<Rightarrow> FreeExtent list \<Rightarrow> u64 \<Rightarrow> u64 \<Rightarrow> io_error + bytes" where
  "EncodeFreeDirectoryLeaf dst header extents fileEnd nextLogicalID =
     (if fh_Level header \<noteq> 0 then Inl ErrInvalidWrite
      else case validateFreeDirectoryHeader header (length extents) FreeDirectoryLeafRecordSize nextLogicalID of
        Some err \<Rightarrow> Inl err
      | None \<Rightarrow>
          (case checkFreeExtents ErrInvalidWrite (fh_PageSize header) fileEnd None extents of
             Some err \<Rightarrow> Inl err
           | None \<Rightarrow>
               let payloadLength = FreeDirectoryPayloadHeaderSize + length extents * FreeDirectoryLeafRecordSize
               in case InitPage dst (freePageHeader header payloadLength) of
                    Inl err \<Rightarrow> Inl err
                  | Inr page \<Rightarrow>
                      let payload = encodeFreeDirectoryHeader (replicate payloadLength 0) header (length extents);
                          payload = putRecords FreeDirectoryPayloadHeaderSize FreeDirectoryLeafRecordSize
                            (map encodeFreeExtent extents) payload
                      in case sealInitializedPage (fillPage page payload) of
                           Inl err \<Rightarrow> Inl err
                         | Inr (page, _) \<Rightarrow> Inr page))"

definition EncodeFreeDirectoryBranch ::
  "bytes \<Rightarrow> FreeDirectoryHeader \<Rightarrow> FreeDirectoryChild list \<Rightarrow> u64 \<Rightarrow> u64 \<Rightarrow> io_error + bytes" where
  "EncodeFreeDirectoryBranch dst header children fileEnd nextLogicalID =
     (if fh_Level header = 0 \<or> length children > 64 then Inl ErrInvalidWrite
      else case validateFreeDirectoryHeader header (length children) FreeDirectoryBranchRecordSize nextLogicalID of
        Some err \<Rightarrow> Inl err
      | None \<Rightarrow>
          (case checkFreeChildren ErrInvalidWrite header fileEnd nextLogicalID emptyRefSet None children of
             Some err \<Rightarrow> Inl err
           | None \<Rightarrow>
               let payloadLength = FreeDirectoryPayloadHeaderSize + length children * FreeDirectoryBranchRecordSize
               in case InitPage dst (freePageHeader header payloadLength) of
                    Inl err \<Rightarrow> Inl err
                  | Inr page \<Rightarrow>
                      let payload = encodeFreeDirectoryHeader (replicate payloadLength 0) header (length children);
                          payload = putRecords FreeDirectoryPayloadHeaderSize FreeDirectoryBranchRecordSize
                            (map encodeFreeChild children) payload
                      in case sealInitializedPage (fillPage page payload) of
                           Inl err \<Rightarrow> Inl err
                         | Inr (page, _) \<Rightarrow> Inr page))"

section \<open>Opening\<close>

definition decodeFreeExtent :: "bytes \<Rightarrow> FreeExtent" where
  "decodeFreeExtent src =
     \<lparr>fe_Offset = le_word (get_bytes 0 8 src), fe_Length = le_word (get_bytes 8 8 src),
      fe_RetiredGeneration = le_word (get_bytes 16 8 src)\<rparr>"

definition decodeFreeChild :: "bytes \<Rightarrow> FreeDirectoryChild" where
  "decodeFreeChild record = \<lparr>fc_Lower = le_word (get_bytes 0 8 record), fc_Ref = decodePageRef (get_bytes 16 32 record)\<rparr>"

definition freeRecord :: "bytes \<Rightarrow> nat \<Rightarrow> nat \<Rightarrow> bytes" where
  "freeRecord payload recordSize i = drop (FreeDirectoryPayloadHeaderSize + i * recordSize) payload"

text \<open>Every rejection of the record loop is the same error, so the reserved bytes of all branch records
  are checked in front of their order and references.\<close>

definition OpenFreeDirectoryPage :: "bytes \<Rightarrow> u64 \<Rightarrow> u64 \<Rightarrow> io_error + FreeDirectoryView" where
  "OpenFreeDirectoryPage src fileEnd nextLogicalID =
     (case OpenPage src of
        Inl _ \<Rightarrow> Inl ErrFreeDirectoryCorrupt
      | Inr (pageHeader, payload) \<Rightarrow>
          if ph_Kind pageHeader \<noteq> PageFreeDirectory \<or> length payload < FreeDirectoryPayloadHeaderSize \<or>
             le_word (get_bytes 0 4 payload) \<noteq> freeDirectoryVersion \<or>
             \<not> allZero (get_bytes 8 24 payload)
          then Inl ErrFreeDirectoryCorrupt
          else
            let header = \<lparr>fh_StoreID = ph_StoreID pageHeader, fh_Generation = ph_Generation pageHeader,
                  fh_LogicalID = ph_LogicalID pageHeader, fh_PageSize = ph_PageSize pageHeader,
                  fh_Level = payload ! 4, fh_Flags = payload ! 5\<rparr>;
                rawCount = le_word (get_bytes 6 2 payload) :: u16;
                count = unat rawCount;
                recordSize = (if fh_Level header \<noteq> 0 then FreeDirectoryBranchRecordSize else FreeDirectoryLeafRecordSize);
                records = map (freeRecord payload recordSize) [0..<count]
            in if validateFreeDirectoryHeader header count recordSize nextLogicalID \<noteq> None \<or>
                  length payload \<noteq> FreeDirectoryPayloadHeaderSize + count * recordSize
               then Inl ErrFreeDirectoryCorrupt
               else if fh_Level header = 0 then
                 (case checkFreeExtents ErrFreeDirectoryCorrupt (fh_PageSize header) fileEnd None
                         (map decodeFreeExtent records) of
                    Some err \<Rightarrow> Inl err
                  | None \<Rightarrow> Inr \<lparr>fv_header = header, fv_payload = payload, fv_count = rawCount\<rparr>)
               else if \<not> list_all (\<lambda>record. allZero (get_bytes 8 8 record) \<and>
                    pageRefReservedZero (get_bytes 16 32 record)) records
               then Inl ErrFreeDirectoryCorrupt
               else
                 (case checkFreeChildren ErrFreeDirectoryCorrupt header fileEnd nextLogicalID emptyRefSet None
                         (map decodeFreeChild records) of
                    Some err \<Rightarrow> Inl err
                  | None \<Rightarrow> Inr \<lparr>fv_header = header, fv_payload = payload, fv_count = rawCount\<rparr>))"

section \<open>Lookups\<close>

definition freeLen :: "FreeDirectoryView \<Rightarrow> nat" where
  "freeLen v = unat (fv_count v)"

definition ExtentAt :: "FreeDirectoryView \<Rightarrow> int \<Rightarrow> FreeExtent option" where
  "ExtentAt v rank =
     (if fh_Level (fv_header v) \<noteq> 0 \<or> rank < 0 \<or> rank \<ge> int (unat (fv_count v)) then None
      else Some (decodeFreeExtent (freeRecord (fv_payload v) FreeDirectoryLeafRecordSize (nat rank))))"

text \<open>Inside the search the middle is in range, so the second result of \<^verbatim>\<open>ExtentAt\<close> is dropped.\<close>

definition freeLowerBound :: "FreeDirectoryView \<Rightarrow> u64 \<Rightarrow> nat" where
  "freeLowerBound v offset =
     (if fh_Level (fv_header v) \<noteq> 0 then 0
      else searchLoop
        (\<lambda>middle. let extent = (case ExtentAt v (int middle) of Some e \<Rightarrow> e | None \<Rightarrow> zeroFreeExtent)
                  in fe_Offset extent + fe_Length extent \<le> offset) 0 (unat (fv_count v)))"

definition freeChild :: "FreeDirectoryView \<Rightarrow> u64 \<Rightarrow> PageRef option" where
  "freeChild v offset =
     (if fh_Level (fv_header v) = 0 \<or> fv_count v = 0 then None
      else
        let low = searchLoop
              (\<lambda>middle. le_word (get_bytes 0 8 (freeRecord (fv_payload v) FreeDirectoryBranchRecordSize middle)) \<le> offset)
              0 (unat (fv_count v))
        in if low = 0 then None
           else Some (decodePageRef (get_bytes 16 32
                  (freeRecord (fv_payload v) FreeDirectoryBranchRecordSize (low - 1)))))"

definition freeChildAt :: "FreeDirectoryView \<Rightarrow> int \<Rightarrow> FreeDirectoryChild option" where
  "freeChildAt v rank =
     (if fh_Level (fv_header v) = 0 \<or> rank < 0 \<or> rank \<ge> int (unat (fv_count v)) then None
      else Some (decodeFreeChild (freeRecord (fv_payload v) FreeDirectoryBranchRecordSize (nat rank))))"

end
