(* ===== verification/FreeDirectoryCorrect.thy ===== *)
theory FreeDirectoryCorrect
  imports FreeDirectory
begin

unbundle bit_operations_syntax

text \<open>
  Correctness of the free-directory nodes: round trips of leaves and branches, and the lookups on any
  page the opener accepts.
\<close>

section \<open>Records\<close>

interpretation extents: record_codec encodeFreeExtent decodeFreeExtent FreeDirectoryLeafRecordSize
proof
  show "length (encodeFreeExtent r) = FreeDirectoryLeafRecordSize" for r
    by (simp add: encodeFreeExtent_def free_sizes)
  show "decodeFreeExtent (encodeFreeExtent r @ rest) = r" for r rest
    by (cases r) (simp add: encodeFreeExtent_def decodeFreeExtent_def get_bytes_def)
qed

interpretation children: record_codec encodeFreeChild decodeFreeChild FreeDirectoryBranchRecordSize
proof
  show "length (encodeFreeChild r) = FreeDirectoryBranchRecordSize" for r
    by (simp add: encodeFreeChild_def free_sizes)
  show "decodeFreeChild (encodeFreeChild r @ rest) = r" for r rest
  proof -
    have "get_bytes 16 32 (encodeFreeChild r @ rest) = encodePageRef (fc_Ref r)"
      by (simp add: encodeFreeChild_def get_bytes_def)
    moreover have "get_bytes 0 8 (encodeFreeChild r @ rest) = le_bytes 8 (fc_Lower r)"
      by (simp add: encodeFreeChild_def get_bytes_def)
    ultimately show ?thesis by (cases r) (simp add: decodeFreeChild_def)
  qed
qed

section \<open>Payloads\<close>

definition freePayload :: "FreeDirectoryHeader \<Rightarrow> nat \<Rightarrow> bytes list \<Rightarrow> bytes" where
  "freePayload header width records =
     putRecords 32 width records
       (encodeFreeDirectoryHeader (replicate (32 + length records * width) 0) header (length records))"

lemma freePayload_header [simp]:
  "length (freePayload h w rs) = 32 + length rs * w"
  "get_bytes 0 4 (freePayload h w rs) = le_bytes 4 freeDirectoryVersion"
  "get_bytes 6 2 (freePayload h w rs) = le_bytes 2 (of_nat (length rs) :: u16)"
  "allZero (get_bytes 8 24 (freePayload h w rs))"
  "freePayload h w rs ! 4 = fh_Level h" "freePayload h w rs ! 5 = fh_Flags h"
proof -
  let ?e = "encodeFreeDirectoryHeader (replicate (32 + length rs * w) 0) h (length rs)"
  have get: "get_bytes off n (freePayload h w rs) = get_bytes off n ?e" if "off + n \<le> 32" for off n
    using that by (simp add: freePayload_def get_putRecords_header)
  have nth: "freePayload h w rs ! k = ?e ! k" if "k < 32" for k
    using get [of k 1] nth_get1 [of k "freePayload h w rs"] nth_get1 [of k ?e] that
    by (simp add: freePayload_def encodeFreeDirectoryHeader_def Let_def)
  show "length (freePayload h w rs) = 32 + length rs * w"
    by (simp add: freePayload_def encodeFreeDirectoryHeader_def Let_def)
  show "get_bytes 0 4 (freePayload h w rs) = le_bytes 4 freeDirectoryVersion"
    "get_bytes 6 2 (freePayload h w rs) = le_bytes 2 (of_nat (length rs) :: u16)"
    "allZero (get_bytes 8 24 (freePayload h w rs))"
    by (simp_all add: get encodeFreeDirectoryHeader_def Let_def get_put get_replicate)
  show "freePayload h w rs ! 4 = fh_Level h" "freePayload h w rs ! 5 = fh_Flags h"
    by (simp_all add: nth encodeFreeDirectoryHeader_def Let_def)
qed

lemma of_nat_u64_fits:
  assumes "n < 2 ^ 32" "validPhysicalPageSize p"
  shows "(of_nat n :: u64) > ucast p - 64 - 8 \<longleftrightarrow> unat p < 72 + n"
proof -
  have "ucast (of_nat n :: u32) = (of_nat n :: u64)"
    using assms(1) by (simp add: word_unat_eq_iff unat_ucast32_64 unat_of_nat)
  then show ?thesis using payload_bound [OF assms(2), of "of_nat n"] assms(1) by (simp add: unat_of_nat)
qed

lemma validateFreeDirectoryHeader_None:
  assumes "validateFreeDirectoryHeader h c w nid = None" "w \<le> 48"
  shows "validPhysicalPageSize (fh_PageSize h)" "32 + c * w + 72 \<le> unat (fh_PageSize h)" "c \<le> 65535" "0 < c"
    "validatePageHeader (freePageHeader h (32 + c * w)) = None"
    "unat (ph_PayloadLength (freePageHeader h (32 + c * w))) = 32 + c * w" "fh_Flags h = 0"
proof -
  show v: "validPhysicalPageSize (fh_PageSize h)" and c: "c \<le> 65535" "0 < c" and f: "fh_Flags h = 0"
    using assms(1) by (auto simp: validateFreeDirectoryHeader_def freeDirectoryKnownFlags_def split: if_splits)
  have "c * w \<le> 65535 * 48" using c(1) assms(2) by (rule mult_le_mono)
  then have n: "32 + c * w < 2 ^ 32" by simp
  have "\<not> of_nat (32 + c * w) > (ucast (fh_PageSize h) - 64 - 8 :: u64)"
    using assms(1) by (auto simp: validateFreeDirectoryHeader_def FreeDirectoryPayloadHeaderSize_def split: if_splits)
  then show le: "32 + c * w + 72 \<le> unat (fh_PageSize h)" using of_nat_u64_fits [OF n v] by linarith
  show u: "unat (ph_PayloadLength (freePageHeader h (32 + c * w))) = 32 + c * w"
    using n by (simp add: freePageHeader_def unat_of_nat del: of_nat_add of_nat_mult)
  have "fh_StoreID h \<noteq> 0" "fh_Generation h \<noteq> 0" "fh_LogicalID h \<noteq> 0"
    using assms(1) by (auto simp: validateFreeDirectoryHeader_def split: if_splits)
  then show "validatePageHeader (freePageHeader h (32 + c * w)) = None"
    using v le u payload_bound [OF v, of "of_nat (32 + c * w)"]
    by (simp add: validatePageHeader_def freePageHeader_def validPageKind_def validPageFlags_def page_kinds
        del: of_nat_add of_nat_mult)
qed

lemma freePageHeader_simps [simp]:
  "ph_Kind (freePageHeader h n) = PageFreeDirectory" "ph_PageSize (freePageHeader h n) = fh_PageSize h"
  "ph_StoreID (freePageHeader h n) = fh_StoreID h" "ph_Generation (freePageHeader h n) = fh_Generation h"
  "ph_LogicalID (freePageHeader h n) = fh_LogicalID h"
  by (simp_all add: freePageHeader_def)

section \<open>The record loops\<close>

lemma checkFreeExtents_err:
  "checkFreeExtents e ps fe prev es = None \<longleftrightarrow> checkFreeExtents e' ps fe prev es = None"
  by (induction e ps fe prev es rule: checkFreeExtents.induct) auto

lemma checkFreeChildren_err:
  "checkFreeChildren e h fe nid seen prev cs = None \<longleftrightarrow> checkFreeChildren e' h fe nid seen prev cs = None"
  by (induction e h fe nid seen prev cs rule: checkFreeChildren.induct) (auto split: option.splits)

text \<open>An accepted extent does not wrap around, so its end is the sum of its offset and length.\<close>

lemma validateFreeExtent_end:
  assumes "validateFreeExtent x ps fe = None"
  shows "unat (fe_Offset x + fe_Length x) = unat (fe_Offset x) + unat (fe_Length x)"
    "unat (fe_Offset x) + unat (fe_Length x) \<le> unat fe" "fe_Length x \<noteq> 0"
proof -
  have a: "fe_Length x \<le> fe" "fe_Offset x \<le> fe - fe_Length x" and z: "fe_Length x \<noteq> 0"
    using assms by (auto simp: validateFreeExtent_def Let_def split: if_splits)
  then show "unat (fe_Offset x) + unat (fe_Length x) \<le> unat fe"
    using unat_sub [OF a(1)] by (simp add: word_le_nat_alt)
  then show "unat (fe_Offset x + fe_Length x) = unat (fe_Offset x) + unat (fe_Length x)"
    using unsigned_less [of fe, where ?'a = nat] by (simp add: unat_word_ariths)
  show "fe_Length x \<noteq> 0" by (rule z)
qed

definition extent_end :: "FreeExtent \<Rightarrow> nat" where
  "extent_end x = unat (fe_Offset x) + unat (fe_Length x)"

lemma checkFreeExtents_sorted:
  "checkFreeExtents e ps fe prev es = None \<Longrightarrow>
   (\<forall>x \<in> set es. validateFreeExtent x ps fe = None \<and> (\<forall>p. prev = Some p \<longrightarrow> unat p \<le> unat (fe_Offset x))) \<and>
   sorted_wrt (\<lambda>a b. extent_end a \<le> unat (fe_Offset b)) es"
proof (induction e ps fe prev es rule: checkFreeExtents.induct)
  case (2 e ps fe prev x xs)
  have v: "validateFreeExtent x ps fe = None" "\<forall>p. prev = Some p \<longrightarrow> unat p \<le> unat (fe_Offset x)"
    using 2(2) by (auto simp: word_less_nat_alt split: if_splits option.splits)
  have ih: "(\<forall>y \<in> set xs. validateFreeExtent y ps fe = None \<and>
      unat (fe_Offset x + fe_Length x) \<le> unat (fe_Offset y)) \<and>
      sorted_wrt (\<lambda>a b. extent_end a \<le> unat (fe_Offset b)) xs"
    using 2 by (auto split: if_splits)
  have "unat (fe_Offset x) \<le> extent_end x" by (simp add: extent_end_def)
  then show ?case using v ih validateFreeExtent_end(1) [OF v(1)] by (fastforce simp: extent_end_def)
qed simp

section \<open>Leaves\<close>

text \<open>\<open>leaf_view v es\<close>: the view is a leaf of the extents \<open>es\<close>.\<close>

definition leaf_view :: "FreeDirectoryView \<Rightarrow> FreeExtent list \<Rightarrow> bool" where
  "leaf_view v es \<longleftrightarrow> fh_Level (fv_header v) = 0 \<and> freeLen v = length es \<and>
     (\<forall>i < length es. ExtentAt v (int i) = Some (es ! i))"

lemma leaf_ends_mono:
  assumes "checkFreeExtents e ps fe None es = None" "i \<le> j" "j < length es"
  shows "extent_end (es ! i) \<le> extent_end (es ! j)"
proof (cases "i = j")
  case False
  then have "extent_end (es ! i) \<le> unat (fe_Offset (es ! j))"
    using checkFreeExtents_sorted [OF assms(1)] assms(2,3) by (simp add: sorted_wrt_iff_nth_less)
  then show ?thesis by (simp add: extent_end_def)
qed simp

lemma leaf_lowerBound:
  assumes v: "leaf_view v es" and ok: "checkFreeExtents e ps fe None es = None"
  shows "freeLowerBound v off \<le> length es \<and>
    (\<forall>i < length es. extent_end (es ! i) \<le> unat off \<longleftrightarrow> i < freeLowerBound v off)"
proof -
  let ?b = "\<lambda>m. let x = (case ExtentAt v (int m) of Some e \<Rightarrow> e | None \<Rightarrow> zeroFreeExtent)
    in fe_Offset x + fe_Length x \<le> off"
  have b: "?b i \<longleftrightarrow> extent_end (es ! i) \<le> unat off" if "i < length es" for i
    using v that checkFreeExtents_sorted [OF ok] validateFreeExtent_end(1) [of "es ! i" ps fe]
    by (simp add: leaf_view_def extent_end_def word_le_nat_alt Let_def)
  have lb: "freeLowerBound v off = searchLoop ?b 0 (length es)"
    using v by (simp add: freeLowerBound_def leaf_view_def freeLen_def)
  have "\<forall>i j. i \<le> j \<and> j < length es \<and> ?b j \<longrightarrow> ?b i"
    using b leaf_ends_mono [OF ok] by (meson le_less_trans order_trans)
  from searchLoop_first [OF this] b show ?thesis unfolding lb by blast
qed

lemma OpenFreeDirectoryPage_leaf:
  assumes "OpenFreeDirectoryPage src fe nid = Inr v" "fh_Level (fv_header v) = 0"
  obtains es where "leaf_view v es" "checkFreeExtents ErrFreeDirectoryCorrupt (fh_PageSize (fv_header v)) fe None es = None"
proof -
  let ?es = "map decodeFreeExtent (map (freeRecord (fv_payload v) FreeDirectoryLeafRecordSize) [0..<unat (fv_count v)])"
  have "checkFreeExtents ErrFreeDirectoryCorrupt (fh_PageSize (fv_header v)) fe None ?es = None"
    using assms unfolding OpenFreeDirectoryPage_def Let_def by (auto split: sum.splits if_splits option.splits)
  moreover have "leaf_view v ?es" using assms(2) by (simp add: leaf_view_def freeLen_def ExtentAt_def del: of_nat_unat)
  ultimately show thesis using that by blast
qed

text \<open>On every page the opener accepts as a free leaf, whatever its bytes, the extents are nonempty, end inside the file, do not overlap and are in offset order, and \<^verbatim>\<open>LowerBound\<close> returns the first extent that ends after the offset.\<close>

theorem free_leaf_lookup:
  assumes "OpenFreeDirectoryPage src fe nid = Inr v" "fh_Level (fv_header v) = 0"
  shows "\<exists>es. freeLen v = length es \<and> (\<forall>i < length es. ExtentAt v (int i) = Some (es ! i)) \<and>
     (\<forall>x \<in> set es. fe_Length x \<noteq> 0 \<and> extent_end x \<le> unat fe) \<and>
     sorted_wrt (\<lambda>a b. extent_end a \<le> unat (fe_Offset b)) es \<and>
     freeLowerBound v off \<le> length es \<and>
     (\<forall>i < length es. (extent_end (es ! i) \<le> unat off) = (i < freeLowerBound v off))"
proof -
  obtain es where es: "leaf_view v es"
    "checkFreeExtents ErrFreeDirectoryCorrupt (fh_PageSize (fv_header v)) fe None es = None"
    using OpenFreeDirectoryPage_leaf [OF assms] .
  show ?thesis
    using es leaf_lowerBound [OF es, where off = off] checkFreeExtents_sorted [OF es(2)] validateFreeExtent_end
    unfolding leaf_view_def extent_end_def by (intro exI [of _ es]) blast
qed

lemma free_leaf_encode:
  assumes "fh_Level h = 0" "validateFreeDirectoryHeader h (length es) FreeDirectoryLeafRecordSize nid = None"
    and "checkFreeExtents ErrInvalidWrite (fh_PageSize h) fe None es = None" "unat (fh_PageSize h) \<le> length dst"
  shows "\<exists>page v. EncodeFreeDirectoryLeaf dst h es fe nid = Inr page \<and> OpenFreeDirectoryPage page fe nid = Inr v \<and>
     fv_header v = h \<and> leaf_view v es"
proof -
  let ?n = "32 + length es * 24" and ?p = "freePayload h 24 (map encodeFreeExtent es)"
  have H: "validateFreeDirectoryHeader h (length es) 24 nid = None" using assms(2) by (simp add: free_sizes)
  note hv = validateFreeDirectoryHeader_None [OF H]
  obtain page s c where p: "InitPage dst (freePageHeader h ?n) = Inr page"
    "sealInitializedPage (fillPage page ?p) = Inr (s, c)" "OpenPage s = Inr (freePageHeader h ?n, ?p)"
    using encode_open [OF hv(5), of dst ?p] hv(6) assms(4) by auto
  have cnt: "unat (of_nat (length es) :: u16) = length es" using hv(3) by (simp add: unat_of_nat)
  have enc: "EncodeFreeDirectoryLeaf dst h es fe nid = Inr s"
    using assms p by (simp add: EncodeFreeDirectoryLeaf_def free_sizes freePayload_def Let_def)
  have recs: "map (\<lambda>i. decodeFreeExtent (freeRecord ?p 24 i)) [0..<length es] = es"
    using extents.decode_records [of 32 es "encodeFreeDirectoryHeader (replicate ?n 0) h (length es)"]
    by (simp add: freePayload_def freeRecord_def free_sizes encodeFreeDirectoryHeader_def Let_def)
  have ck: "checkFreeExtents ErrFreeDirectoryCorrupt (fh_PageSize h) fe None es = None"
    using assms(3) checkFreeExtents_err by blast
  let ?v = "\<lparr>fv_header = h, fv_payload = ?p, fv_count = of_nat (length es)\<rparr>"
  have hh: "\<lparr>fh_StoreID = fh_StoreID h, fh_Generation = fh_Generation h, fh_LogicalID = fh_LogicalID h,
      fh_PageSize = fh_PageSize h, fh_Level = 0, fh_Flags = fh_Flags h\<rparr> = h" using assms(1) by (cases h) simp
  have op: "OpenFreeDirectoryPage s fe nid = Inr ?v"
    using assms(1) H ck cnt recs by (simp add: OpenFreeDirectoryPage_def p(3) free_sizes Let_def hh comp_def)
  have "decodeFreeExtent (freeRecord ?p 24 i) = es ! i" if "i < length es" for i
    using arg_cong [OF recs, of "\<lambda>l. l ! i"] that by simp
  then have "leaf_view ?v es" using assms(1) cnt by (simp add: leaf_view_def freeLen_def ExtentAt_def free_sizes)
  then show ?thesis using enc op by (intro exI [of _ s] exI [of _ ?v]) simp
qed

section \<open>Branches\<close>

lemma validateFreeDirectoryChild_nonzero:
  assumes "validateFreeDirectoryChild h r fe nid = None" "validPhysicalPageSize (fh_PageSize h)"
  shows "pr_LogicalID r \<noteq> 0" "pr_Offset r \<noteq> 0" "pr_Aux r = 0"
proof -
  show "pr_LogicalID r \<noteq> 0" "pr_Aux r = 0"
    using assms(1) by (auto simp: validateFreeDirectoryChild_def Let_def split: if_splits)
  have "unat (2 * ucast (fh_PageSize h) :: u64) = 2 * unat (fh_PageSize h)"
    using unat_u32 [of "fh_PageSize h"] by (simp add: unat_word_ariths unat_ucast32_64)
  then have "2 * unat (fh_PageSize h) \<le> unat (pr_Offset r)"
    using assms(1) by (auto simp: validateFreeDirectoryChild_def Let_def superblockCopies_def word_less_nat_alt split: if_splits)
  then show "pr_Offset r \<noteq> 0" using validPhysicalPageSize_ge [OF assms(2)] by auto
qed

lemma checkFreeChildren_sorted:
  "checkFreeChildren e h fe nid seen prev cs = None \<Longrightarrow>
   (\<forall>c \<in> set cs. validateFreeDirectoryChild h (fc_Ref c) fe nid = None \<and> (\<forall>p. prev = Some p \<longrightarrow> p < fc_Lower c)) \<and>
   sorted_wrt (\<lambda>a b. fc_Lower a < fc_Lower b) cs"
proof (induction e h fe nid seen prev cs rule: checkFreeChildren.induct)
  case (2 e h fe nid seen prev c cs)
  then show ?case by (fastforce simp: not_le split: if_splits option.splits)
qed simp

text \<open>The filter accepts exactly distinct references, and with at most 128 of them it returns.\<close>

lemma checkFreeChildren_distinct:
  "checkFreeChildren e h fe nid seen prev cs = r \<Longrightarrow> validPhysicalPageSize (fh_PageSize h) \<Longrightarrow>
   ref_set seen L Os k \<Longrightarrow> k + length cs \<le> 128 \<Longrightarrow> e \<noteq> NoReturn \<Longrightarrow>
   r \<noteq> Some NoReturn \<and>
   (r = None \<longrightarrow> distinct (map (pr_LogicalID \<circ> fc_Ref) cs) \<and> distinct (map (pr_Offset \<circ> fc_Ref) cs) \<and>
      (pr_LogicalID \<circ> fc_Ref) ` set cs \<inter> L = {} \<and> (pr_Offset \<circ> fc_Ref) ` set cs \<inter> Os = {})"
proof (induction cs arbitrary: seen prev L Os k)
  case (Cons c cs)
  show ?case
  proof (cases "(case prev of None \<Rightarrow> False | Some l \<Rightarrow> l \<ge> fc_Lower c) \<or>
      validateFreeDirectoryChild h (fc_Ref c) fe nid \<noteq> None")
    case True
    then have "r = Some e" unfolding Cons.prems(1) [symmetric] by (elim disjE) simp_all
    then show ?thesis using Cons.prems(5) by simp
  next
    case False
    then have "validateFreeDirectoryChild h (fc_Ref c) fe nid = None" by simp
    note nz = validateFreeDirectoryChild_nonzero [OF this Cons.prems(2)]
    obtain seen' fresh where a: "refSetAdd seen (fc_Ref c) = Some (seen', fresh)"
      "fresh = (pr_LogicalID (fc_Ref c) \<notin> L \<and> pr_Offset (fc_Ref c) \<notin> Os)"
      "fresh \<longrightarrow> ref_set seen' (insert (pr_LogicalID (fc_Ref c)) L) (insert (pr_Offset (fc_Ref c)) Os) (Suc k)"
      using refSetAdd [OF Cons.prems(3) _ nz(1,2)] Cons.prems(4) by auto
    show ?thesis
    proof (cases fresh)
      case True
      have ck: "checkFreeChildren e h fe nid seen' (Some (fc_Lower c)) cs = r" using Cons.prems(1) False a(1) True by simp
      have k: "Suc k + length cs \<le> 128" using Cons.prems(4) by simp
      have "pr_LogicalID (fc_Ref c) \<notin> L" "pr_Offset (fc_Ref c) \<notin> Os" using True a(2) by auto
      then show ?thesis using Cons.IH [OF ck Cons.prems(2) a(3) [rule_format, OF True] k Cons.prems(5)] by auto
    qed (use Cons.prems(1,5) False a(1) in auto)
  qed
qed auto

definition branch_view :: "FreeDirectoryView \<Rightarrow> FreeDirectoryChild list \<Rightarrow> bool" where
  "branch_view v cs \<longleftrightarrow> fh_Level (fv_header v) \<noteq> 0 \<and> freeLen v = length cs \<and>
     (\<forall>i < length cs. decodeFreeChild (freeRecord (fv_payload v) FreeDirectoryBranchRecordSize i) = cs ! i)"

lemma branch_child:
  assumes v: "branch_view v cs" and s: "sorted_wrt (\<lambda>a b. fc_Lower a < fc_Lower b) cs"
  shows "freeChild v off = (case filter (\<lambda>c. fc_Lower c \<le> off) cs of [] \<Rightarrow> None | l \<Rightarrow> Some (fc_Ref (last l)))"
proof (cases "cs = []")
  case True
  then show ?thesis using v by (simp add: freeChild_def branch_view_def freeLen_def unat_eq_0)
next
  case False
  let ?b = "\<lambda>m. le_word (get_bytes 0 8 (freeRecord (fv_payload v) FreeDirectoryBranchRecordSize m)) \<le> off"
  have rec: "le_word (get_bytes 0 8 (freeRecord (fv_payload v) FreeDirectoryBranchRecordSize i)) = fc_Lower (cs ! i)"
    "decodePageRef (get_bytes 16 32 (freeRecord (fv_payload v) FreeDirectoryBranchRecordSize i)) = fc_Ref (cs ! i)"
    if "i < length cs" for i
  proof -
    have "cs ! i = decodeFreeChild (freeRecord (fv_payload v) FreeDirectoryBranchRecordSize i)"
      using v that by (simp add: branch_view_def)
    then show "le_word (get_bytes 0 8 (freeRecord (fv_payload v) FreeDirectoryBranchRecordSize i)) = fc_Lower (cs ! i)"
      "decodePageRef (get_bytes 16 32 (freeRecord (fv_payload v) FreeDirectoryBranchRecordSize i)) = fc_Ref (cs ! i)"
      by (simp_all add: decodeFreeChild_def)
  qed
  have "\<forall>i j. i \<le> j \<and> j < length cs \<and> ?b j \<longrightarrow> ?b i"
  proof (intro allI impI)
    fix i j assume a: "i \<le> j \<and> j < length cs \<and> ?b j"
    then have "fc_Lower (cs ! i) \<le> fc_Lower (cs ! j)"
      using s by (cases "i = j") (auto simp: sorted_wrt_iff_nth_less less_imp_le)
    then show "?b i" using a rec(1) [of i] rec(1) [of j] by (auto elim: order_trans)
  qed
  note f = searchLoop_first [OF this]
  let ?k = "searchLoop ?b 0 (length cs)"
  have tk: "filter (\<lambda>c. fc_Lower c \<le> off) cs = take ?k cs"
    by (rule filter_prefix) (use f rec in auto)
  have fc: "freeChild v off = (if ?k = 0 then None else Some (decodePageRef (get_bytes 16 32
      (freeRecord (fv_payload v) FreeDirectoryBranchRecordSize (?k - 1)))))"
    using v False by (auto simp: freeChild_def branch_view_def freeLen_def Let_def unat_eq_0 [symmetric])
  show ?thesis
  proof (cases "?k = 0")
    case False
    then have "take ?k cs \<noteq> []" "last (take ?k cs) = cs ! (?k - 1)" using f last_take_nth [of ?k cs] by auto
    then show ?thesis using False f rec(2) [of "?k - 1"] unfolding tk fc by (auto split: list.splits)
  qed (simp add: tk fc)
qed

text \<open>A branch survives its page, and the child lookup on the opened page returns the reference with the greatest lower bound not above the offset, or nothing when every bound is above it; the accepted references are pairwise distinct in logical id and in offset.\<close>

theorem free_branch_roundtrip:
  assumes "fh_Level h \<noteq> 0" "validateFreeDirectoryHeader h (length cs) FreeDirectoryBranchRecordSize nid = None"
    and "checkFreeChildren ErrInvalidWrite h fe nid emptyRefSet None cs = None" "unat (fh_PageSize h) \<le> length dst"
  shows "\<exists>page v. EncodeFreeDirectoryBranch dst h cs fe nid = Inr page \<and> OpenFreeDirectoryPage page fe nid = Inr v \<and>
     fv_header v = h \<and> freeLen v = length cs \<and> (\<forall>i < length cs. freeChildAt v (int i) = Some (cs ! i)) \<and>
     freeChild v off = (case filter (\<lambda>c. fc_Lower c \<le> off) cs of [] \<Rightarrow> None | l \<Rightarrow> Some (fc_Ref (last l))) \<and>
     distinct (map (pr_LogicalID \<circ> fc_Ref) cs) \<and> distinct (map (pr_Offset \<circ> fc_Ref) cs)"
proof -
  let ?n = "32 + length cs * 48" and ?p = "freePayload h 48 (map encodeFreeChild cs)"
  have H: "validateFreeDirectoryHeader h (length cs) 48 nid = None" using assms(2) by (simp add: free_sizes)
  note hv = validateFreeDirectoryHeader_None [OF H]
  have c64: "length cs \<le> 64"
    using H by (auto simp: validateFreeDirectoryHeader_def free_sizes split: if_splits)
  obtain page s c where p: "InitPage dst (freePageHeader h ?n) = Inr page"
    "sealInitializedPage (fillPage page ?p) = Inr (s, c)" "OpenPage s = Inr (freePageHeader h ?n, ?p)"
    using encode_open [OF hv(5), of dst ?p] hv(6) assms(4) by auto
  have cnt: "unat (of_nat (length cs) :: u16) = length cs" using hv(3) by (simp add: unat_of_nat)
  have enc: "EncodeFreeDirectoryBranch dst h cs fe nid = Inr s"
    using assms p c64 by (simp add: EncodeFreeDirectoryBranch_def free_sizes freePayload_def Let_def)
  have recs: "map (\<lambda>i. decodeFreeChild (freeRecord ?p 48 i)) [0..<length cs] = cs"
    using children.decode_records [of 32 cs "encodeFreeDirectoryHeader (replicate ?n 0) h (length cs)"]
    by (simp add: freePayload_def freeRecord_def free_sizes encodeFreeDirectoryHeader_def Let_def)
  note so = checkFreeChildren_sorted [OF assms(3)]
  have res: "allZero (get_bytes 8 8 (freeRecord ?p 48 i)) \<and> pageRefReservedZero (get_bytes 16 32 (freeRecord ?p 48 i))"
    if "i < length cs" for i
  proof -
    have g: "get_bytes (32 + i * 48) 48 ?p = encodeFreeChild (cs ! i)"
      unfolding freePayload_def
      by (subst get_putRecords) (use that in \<open>simp_all add: encodeFreeDirectoryHeader_def Let_def encodeFreeChild_def\<close>)
    have "get_bytes 8 8 (freeRecord ?p 48 i) = replicate 8 0"
      "get_bytes 16 32 (freeRecord ?p 48 i) = encodePageRef (fc_Ref (cs ! i))"
      using drop_get [of 8 8 48 "32 + i * 48" ?p] drop_get [of 16 32 48 "32 + i * 48" ?p] g
      by (simp_all add: freeRecord_def free_sizes encodeFreeChild_def get_bytes_def)
    moreover have "pr_Aux (fc_Ref (cs ! i)) = 0"
      using so [THEN conjunct1] nth_mem [OF that] validateFreeDirectoryChild_nonzero(3) [OF _ hv(1)] by blast
    ultimately show ?thesis by simp
  qed
  have ck: "checkFreeChildren ErrFreeDirectoryCorrupt h fe nid emptyRefSet None cs = None"
    using assms(3) checkFreeChildren_err by blast
  let ?v = "\<lparr>fv_header = h, fv_payload = ?p, fv_count = of_nat (length cs)\<rparr>"
  have hh: "\<lparr>fh_StoreID = fh_StoreID h, fh_Generation = fh_Generation h, fh_LogicalID = fh_LogicalID h,
      fh_PageSize = fh_PageSize h, fh_Level = fh_Level h, fh_Flags = fh_Flags h\<rparr> = h" by (cases h) simp
  have op: "OpenFreeDirectoryPage s fe nid = Inr ?v"
    using assms(1) H ck cnt recs res by (simp add: OpenFreeDirectoryPage_def p(3) free_sizes Let_def hh comp_def list_all_iff)
  have nth: "decodeFreeChild (freeRecord ?p 48 i) = cs ! i" if "i < length cs" for i
    using arg_cong [OF recs, of "\<lambda>l. l ! i"] that by simp
  then have bv: "branch_view ?v cs" using assms(1) cnt by (simp add: branch_view_def freeLen_def free_sizes)
  have "\<forall>i < length cs. freeChildAt ?v (int i) = Some (cs ! i)"
    using nth assms(1) cnt by (simp add: freeChildAt_def free_sizes)
  moreover have "distinct (map (pr_LogicalID \<circ> fc_Ref) cs) \<and> distinct (map (pr_Offset \<circ> fc_Ref) cs)"
    using checkFreeChildren_distinct [OF assms(3) hv(1) ref_set_empty] c64 by simp
  ultimately show ?thesis
    using enc op branch_child [OF bv so [THEN conjunct2], of off] cnt
    by (intro exI [of _ s] exI [of _ ?v]) (simp add: freeLen_def)
qed

lemma checkFreeExtents_Some: "checkFreeExtents e ps fe prev es = Some x \<Longrightarrow> x = e"
  by (induction e ps fe prev es rule: checkFreeExtents.induct) (auto split: if_splits)

lemma validateFreeDirectoryHeader_Some: "validateFreeDirectoryHeader h c w nid = Some x \<Longrightarrow> x \<noteq> NoReturn"
  by (auto simp: validateFreeDirectoryHeader_def split: if_splits)

lemma header_checkFreeChildren:
  "checkFreeChildren e h fe nid emptyRefSet None cs = Some NoReturn \<Longrightarrow>
   validateFreeDirectoryHeader h n FreeDirectoryBranchRecordSize nid = None \<Longrightarrow> length cs = n \<Longrightarrow> e = NoReturn"
  using checkFreeChildren_distinct [of e h fe nid emptyRefSet None cs "Some NoReturn", OF _ _ ref_set_empty]
  by (auto simp: validateFreeDirectoryHeader_def split: if_splits)

lemma InitPage_error: "InitPage dst h = Inl x \<Longrightarrow> x \<noteq> NoReturn"
  by (auto simp: InitPage_def validatePageHeader_def Let_def split: option.splits if_splits)

lemma seal_error: "sealInitializedPage p = Inl x \<Longrightarrow> x \<noteq> NoReturn"
  by (auto simp: sealInitializedPage_def sealPage_def Let_def split: prod.splits if_splits)

text \<open>Opening a free-directory page and encoding a branch always return: the probing of the reference filter never runs into a full table.\<close>

theorem free_directory_returns:
  "OpenFreeDirectoryPage src fe nid \<noteq> Inl NoReturn \<and> EncodeFreeDirectoryBranch dst h cs fe nid \<noteq> Inl NoReturn"
proof
  show "OpenFreeDirectoryPage src fe nid \<noteq> Inl NoReturn"
  proof
    assume "OpenFreeDirectoryPage src fe nid = Inl NoReturn"
    then show False
      unfolding OpenFreeDirectoryPage_def Let_def
      by (auto split: sum.splits if_splits option.splits dest!: checkFreeExtents_Some
          dest!: header_checkFreeChildren)
  qed
  show "EncodeFreeDirectoryBranch dst h cs fe nid \<noteq> Inl NoReturn"
  proof
    assume "EncodeFreeDirectoryBranch dst h cs fe nid = Inl NoReturn"
    then show False
      unfolding EncodeFreeDirectoryBranch_def Let_def
      by (auto split: sum.splits if_splits option.splits prod.splits
          dest: validateFreeDirectoryHeader_Some header_checkFreeChildren InitPage_error seal_error)
  qed
qed

section \<open>A sample page\<close>

definition sample_free_header :: "u8 \<Rightarrow> FreeDirectoryHeader" where
  "sample_free_header level = \<lparr>fh_StoreID = 7, fh_Generation = 3, fh_LogicalID = 9, fh_PageSize = 4096,
     fh_Level = level, fh_Flags = 0\<rparr>"

definition sample_extents :: "FreeExtent list" where
  "sample_extents = [\<lparr>fe_Offset = 8192, fe_Length = 4096, fe_RetiredGeneration = 1\<rparr>,
     \<lparr>fe_Offset = 16384, fe_Length = 8192, fe_RetiredGeneration = 2\<rparr>]"

definition sample_children :: "FreeDirectoryChild list" where
  "sample_children = [\<lparr>fc_Lower = 0, fc_Ref = \<lparr>pr_Offset = 8192, pr_LogicalID = 4, pr_Generation = 1, pr_Length = 4096,
     pr_Kind = 8, pr_Flags = 0, pr_Aux = 0\<rparr>\<rparr>]"

lemmas sample_free_defs = sample_free_header_def sample_extents_def sample_children_def
  validateFreeDirectoryHeader_def validateFreeExtent_def validateFreeDirectoryChild_def
  validPhysicalPageSize_def physicalPageQuantum_def StateRootLogicalID_def freeDirectoryKnownFlags_def
  superblockCopies_def maxSuperblockFileOffset_val free_sizes page_kinds

lemma sample_leaf_ok:
  "validateFreeDirectoryHeader (sample_free_header 0) (length sample_extents) FreeDirectoryLeafRecordSize 10 = None"
  "checkFreeExtents ErrInvalidWrite (fh_PageSize (sample_free_header 0)) 32768 None sample_extents = None"
  by (simp_all add: sample_free_defs word_le_nat_alt word_less_nat_alt)

lemma sample_branch_ok:
  "validateFreeDirectoryHeader (sample_free_header 1) (length sample_children) FreeDirectoryBranchRecordSize 10 = None"
  "checkFreeChildren ErrInvalidWrite (sample_free_header 1) 32768 10 emptyRefSet None sample_children = None"
proof -
  show "validateFreeDirectoryHeader (sample_free_header 1) (length sample_children) FreeDirectoryBranchRecordSize 10 = None"
    by (simp add: sample_free_defs word_le_nat_alt word_less_nat_alt)
  have "\<exists>seen. refSetAdd emptyRefSet (fc_Ref (hd sample_children)) = Some (seen, True)"
    using refSetAdd [OF ref_set_empty, of "fc_Ref (hd sample_children)"] by (auto simp: sample_children_def)
  then show "checkFreeChildren ErrInvalidWrite (sample_free_header 1) 32768 10 emptyRefSet None sample_children = None"
    by (auto simp: sample_free_defs word_le_nat_alt word_less_nat_alt)
qed

text \<open>A leaf of extents survives its page: every valid leaf is encoded, the page opens to the same header, and the extents read back are the ones written.\<close>

theorem free_leaf_roundtrip:
  assumes "fh_Level h = 0" "validateFreeDirectoryHeader h (length es) FreeDirectoryLeafRecordSize nid = None"
    and "checkFreeExtents ErrInvalidWrite (fh_PageSize h) fe None es = None" "unat (fh_PageSize h) \<le> length dst"
  shows "\<exists>page v. EncodeFreeDirectoryLeaf dst h es fe nid = Inr page \<and> OpenFreeDirectoryPage page fe nid = Inr v \<and>
     fv_header v = h \<and> freeLen v = length es \<and> (\<forall>i < length es. ExtentAt v (int i) = Some (es ! i))"
  using free_leaf_encode [OF assms] unfolding leaf_view_def by blast

theorem free_leaf_roundtrip_witness:
  "\<exists>page v. EncodeFreeDirectoryLeaf (replicate 4096 0) (sample_free_header 0) sample_extents 32768 10 = Inr page \<and>
     OpenFreeDirectoryPage page 32768 10 = Inr v \<and> freeLen v = 2 \<and>
     ExtentAt v 1 = Some \<lparr>fe_Offset = 16384, fe_Length = 8192, fe_RetiredGeneration = 2\<rparr>"
proof -
  have "\<exists>page v. EncodeFreeDirectoryLeaf (replicate 4096 0) (sample_free_header 0) sample_extents 32768 10 = Inr page \<and>
     OpenFreeDirectoryPage page 32768 10 = Inr v \<and> fv_header v = sample_free_header 0 \<and> freeLen v = length sample_extents \<and>
     (\<forall>i < length sample_extents. ExtentAt v (int i) = Some (sample_extents ! i))"
    by (rule free_leaf_roundtrip [OF _ sample_leaf_ok]) (simp_all add: sample_free_header_def)
  then show ?thesis by (fastforce simp: sample_extents_def dest!: spec [of _ "Suc 0"])
qed

theorem free_leaf_lookup_witness:
  "\<exists>src v. OpenFreeDirectoryPage src 32768 10 = Inr v \<and> freeLowerBound v 12288 \<le> freeLen v"
proof -
  obtain page v where v: "OpenFreeDirectoryPage page 32768 10 = Inr v" "fv_header v = sample_free_header 0"
    using free_leaf_encode [OF _ sample_leaf_ok, of "replicate 4096 0"] by (auto simp: sample_free_header_def)
  have "fh_Level (fv_header v) = 0" using v(2) by (simp add: sample_free_header_def)
  from free_leaf_lookup [OF v(1) this, of 12288] have "freeLowerBound v 12288 \<le> freeLen v" by auto
  then show ?thesis using v(1) by blast
qed

theorem free_branch_roundtrip_witness:
  "\<exists>page v. EncodeFreeDirectoryBranch (replicate 4096 0) (sample_free_header 1) sample_children 32768 10 = Inr page \<and>
     OpenFreeDirectoryPage page 32768 10 = Inr v \<and> freeChild v 5 = Some (fc_Ref (hd sample_children))"
proof -
  have "\<exists>page v. EncodeFreeDirectoryBranch (replicate 4096 0) (sample_free_header 1) sample_children 32768 10 = Inr page \<and>
     OpenFreeDirectoryPage page 32768 10 = Inr v \<and> fv_header v = sample_free_header 1 \<and> freeLen v = length sample_children \<and>
     (\<forall>i < length sample_children. freeChildAt v (int i) = Some (sample_children ! i)) \<and>
     freeChild v 5 = (case filter (\<lambda>c. fc_Lower c \<le> 5) sample_children of [] \<Rightarrow> None | l \<Rightarrow> Some (fc_Ref (last l))) \<and>
     distinct (map (pr_LogicalID \<circ> fc_Ref) sample_children) \<and> distinct (map (pr_Offset \<circ> fc_Ref) sample_children)"
    by (rule free_branch_roundtrip [OF _ sample_branch_ok]) (simp_all add: sample_free_header_def)
  then show ?thesis by (auto simp: sample_children_def)
qed

end
