(* ===== verification/Superblock.thy ===== *)
theory Superblock
  imports FreeDirectoryCorrect
begin

unbundle bit_operations_syntax

text \<open>
  The two alternating root records of an attached store and crash recovery
  (\<^verbatim>\<open>internal/storeio/superblock.go\<close>). A file is what the code uses of \<^verbatim>\<open>os.File\<close>: \<open>readAt off n\<close> is
  \<^verbatim>\<open>ReadAt\<close> into a buffer of \<open>n\<close> bytes, the bytes read (fewer at the end of the file) or \<open>None\<close> for an
  error other than \<^verbatim>\<open>io.EOF\<close>; \<open>stat\<close> is the size, \<open>None\<close> for an error. The caller's scratch buffer is
  overwritten by every read before it is used, so the bytes of the last read stand for it. Theory
  \<open>SuperblockCorrect\<close> has the proofs.
\<close>

definition SuperblockSize :: nat where "SuperblockSize = 128"
definition superblockMagic :: bytes where "superblockMagic = ascii ''SJROOT01''"
definition superblockVersion :: u32 where "superblockVersion = 1"
definition superblockKnownFlags :: u32 where "superblockKnownFlags = 0"

record Superblock =
  sb_StoreID :: u128
  sb_Generation :: u64
  sb_StateOffset :: u64
  sb_StateLength :: u32
  sb_StateChecksum :: u32
  sb_FileEnd :: u64
  sb_FreeOffset :: u64
  sb_FreeLength :: u32
  sb_FreeChecksum :: u32
  sb_PageSize :: u32
  sb_Flags :: u32

definition SuperblockOffset :: "u64 \<Rightarrow> u32 \<Rightarrow> io_error + nat" where
  "SuperblockOffset generation pageSize =
     (if generation = 0 \<or> \<not> validPhysicalPageSize pageSize then Inl ErrInvalidWrite
      else Inr (unat ((generation - 1) AND (superblockCopies - 1)) * unat pageSize))"

definition validRootExtent :: "u64 \<Rightarrow> u32 \<Rightarrow> u64 \<Rightarrow> u32 \<Rightarrow> bool \<Rightarrow> bool" where
  "validRootExtent offset len fileEnd pageSize required =
     (if len = 0 then \<not> required \<and> offset = 0
      else
        let width = ucast pageSize :: u64 in
        len \<le> pageSize \<and> offset \<ge> superblockCopies * width \<and> offset mod width = 0 \<and>
        offset \<le> maxSuperblockFileOffset \<and> offset \<le> fileEnd - width)"

definition validateSuperblock :: "Superblock \<Rightarrow> io_error option" where
  "validateSuperblock root =
     (if sb_Generation root = 0 \<or> sb_Flags root AND NOT superblockKnownFlags \<noteq> 0 \<or>
         \<not> validPhysicalPageSize (sb_PageSize root)
      then Some ErrInvalidWrite
      else if sb_StoreID root = 0 then Some ErrInvalidWrite
      else
        let pageSize = ucast (sb_PageSize root) :: u64; dataStart = superblockCopies * pageSize in
        if sb_FileEnd root < dataStart \<or> sb_FileEnd root > maxSuperblockFileOffset \<or> sb_FileEnd root mod pageSize \<noteq> 0
        then Some ErrInvalidWrite
        else if \<not> validRootExtent (sb_StateOffset root) (sb_StateLength root) (sb_FileEnd root) (sb_PageSize root) True
        then Some ErrInvalidWrite
        else if \<not> validRootExtent (sb_FreeOffset root) (sb_FreeLength root) (sb_FileEnd root) (sb_PageSize root) False
        then Some ErrInvalidWrite
        else if sb_FreeLength root = 0 \<and> sb_FreeChecksum root \<noteq> 0 then Some ErrInvalidWrite
        else if sb_FreeLength root \<noteq> 0 \<and> sb_FreeOffset root = sb_StateOffset root then Some ErrInvalidWrite
        else None)"

text \<open>The record without its checksum, then with it.\<close>

definition superblockBody :: "Superblock \<Rightarrow> bytes" where
  "superblockBody root =
     (let dst = replicate SuperblockSize 0;
          dst = put_bytes 0 superblockMagic dst;
          dst = put_bytes 8 (le_bytes 4 superblockVersion) dst;
          dst = put_bytes 12 (le_bytes 4 (of_nat SuperblockSize :: u32)) dst;
          dst = put_bytes 16 (le_bytes 4 (sb_Flags root)) dst;
          dst = put_bytes 20 (le_bytes 4 (sb_PageSize root)) dst;
          dst = put_bytes 24 (le_bytes 8 (sb_Generation root)) dst;
          dst = put_bytes 32 (le_bytes 8 (NOT (sb_Generation root))) dst;
          dst = put_bytes 40 (le_bytes 8 (sb_StateOffset root)) dst;
          dst = put_bytes 48 (le_bytes 4 (sb_StateLength root)) dst;
          dst = put_bytes 52 (le_bytes 4 (sb_StateChecksum root)) dst;
          dst = put_bytes 56 (le_bytes 4 (NOT (sb_StateChecksum root))) dst;
          dst = put_bytes 64 (le_bytes 8 (sb_FileEnd root)) dst;
          dst = put_bytes 72 (le_bytes 8 (sb_FreeOffset root)) dst;
          dst = put_bytes 80 (le_bytes 4 (sb_FreeLength root)) dst;
          dst = put_bytes 84 (le_bytes 4 (sb_FreeChecksum root)) dst;
          dst = put_bytes 88 (le_bytes 4 (NOT (sb_FreeChecksum root))) dst
      in put_bytes 96 (le_bytes 16 (sb_StoreID root)) dst)"

definition EncodeSuperblock :: "bytes \<Rightarrow> Superblock \<Rightarrow> io_error + bytes" where
  "EncodeSuperblock dst root =
     (if length dst < SuperblockSize then Inl ErrInvalidWrite
      else case validateSuperblock root of
        Some err \<Rightarrow> Inl err
      | None \<Rightarrow>
          let dst = superblockBody root; checksum = PageChecksum (take 120 dst);
              dst = put_bytes 120 (le_bytes 4 checksum) dst
          in Inr (put_bytes 124 (le_bytes 4 (NOT checksum)) dst))"

definition decodedSuperblock :: "bytes \<Rightarrow> Superblock" where
  "decodedSuperblock src =
     \<lparr>sb_StoreID = le_word (get_bytes 96 16 src),
      sb_Generation = le_word (get_bytes 24 8 src),
      sb_StateOffset = le_word (get_bytes 40 8 src),
      sb_StateLength = le_word (get_bytes 48 4 src),
      sb_StateChecksum = le_word (get_bytes 52 4 src),
      sb_FileEnd = le_word (get_bytes 64 8 src),
      sb_FreeOffset = le_word (get_bytes 72 8 src),
      sb_FreeLength = le_word (get_bytes 80 4 src),
      sb_FreeChecksum = le_word (get_bytes 84 4 src),
      sb_PageSize = le_word (get_bytes 20 4 src),
      sb_Flags = le_word (get_bytes 16 4 src)\<rparr>"

definition DecodeSuperblock :: "bytes \<Rightarrow> io_error + Superblock" where
  "DecodeSuperblock src =
     (if length src < SuperblockSize then Inl ErrSuperblockCorrupt
      else
        let src = take SuperblockSize src in
        if get_bytes 0 8 src \<noteq> superblockMagic then Inl ErrSuperblockCorrupt
        else if le_word (get_bytes 8 4 src) \<noteq> superblockVersion \<or>
           le_word (get_bytes 12 4 src) \<noteq> (of_nat SuperblockSize :: u32)
        then Inl ErrSuperblockCorrupt
        else
          let checksum = le_word (get_bytes 120 4 src) :: u32 in
          if le_word (get_bytes 124 4 src) \<noteq> NOT checksum \<or> PageChecksum (take 120 src) \<noteq> checksum
          then Inl ErrSuperblockCorrupt
          else if \<not> allZero (get_bytes 60 4 src) \<or> \<not> allZero (get_bytes 92 4 src) \<or> \<not> allZero (get_bytes 112 8 src)
          then Inl ErrSuperblockCorrupt
          else
            let root = decodedSuperblock src in
            if le_word (get_bytes 32 8 src) \<noteq> NOT (sb_Generation root) \<or>
               le_word (get_bytes 56 4 src) \<noteq> NOT (sb_StateChecksum root) \<or>
               le_word (get_bytes 88 4 src) \<noteq> NOT (sb_FreeChecksum root)
            then Inl ErrSuperblockCorrupt
            else if validateSuperblock root \<noteq> None then Inl ErrSuperblockCorrupt
            else Inr root)"

section \<open>Selection\<close>

text \<open>A candidate is a root and its slot; the list is the prefix of the candidate array that counts.\<close>

definition slotRoot :: "bytes \<Rightarrow> u64 \<Rightarrow> (Superblock \<times> int) list" where
  "slotRoot src slot =
     (case DecodeSuperblock src of
        Inl _ \<Rightarrow> []
      | Inr root \<Rightarrow>
          if (sb_Generation root - 1) AND (superblockCopies - 1) \<noteq> slot then [] else [(root, uint slot)])"

definition orderedSuperblocks :: "bytes \<Rightarrow> bytes \<Rightarrow> io_error + (Superblock \<times> int) list" where
  "orderedSuperblocks first second =
     (case slotRoot first 0 @ slotRoot second 1 of
        [] \<Rightarrow> Inl ErrSuperblockNotFound
      | [a, b] \<Rightarrow>
          if sb_StoreID (fst a) \<noteq> sb_StoreID (fst b) \<or> sb_PageSize (fst a) \<noteq> sb_PageSize (fst b)
          then Inl ErrSuperblockConflict
          else if sb_Generation (fst b) > sb_Generation (fst a) then Inr [b, a] else Inr [a, b]
      | candidates \<Rightarrow> Inr candidates)"

definition SelectSuperblock :: "bytes \<Rightarrow> bytes \<Rightarrow> io_error + (Superblock \<times> int)" where
  "SelectSuperblock first second =
     (case orderedSuperblocks first second of Inl err \<Rightarrow> Inl err | Inr candidates \<Rightarrow> Inr (hd candidates))"

section \<open>Recovery\<close>

type_synonym read_at = "nat \<Rightarrow> nat \<Rightarrow> bytes option"

definition readCheckedPage :: "read_at \<Rightarrow> u64 \<Rightarrow> u32 \<Rightarrow> u32 \<Rightarrow> io_error + bytes option" where
  "readCheckedPage readAt offset len checksum =
     (case readAt (unat offset) (unat len) of
        None \<Rightarrow> Inl ReadError
      | Some buf \<Rightarrow> Inr (if length buf = unat len \<and> PageChecksum buf = checksum then Some buf else None))"

definition stateRootReferencesOffset :: "StateRoot \<Rightarrow> u64 \<Rightarrow> bool" where
  "stateRootReferencesOffset root offset \<longleftrightarrow>
     pr_Offset (sr_ChunkDirectory root) = offset \<or> pr_Offset (sr_KeyDirectory root) = offset \<or>
     pr_Offset (sr_IndexDirectory root) = offset \<or> pr_Offset (sr_TTLDirectory root) = offset \<or>
     pr_Offset (sr_Float64ScanHead root) = offset \<or> pr_Offset (sr_IndexGroupHead root) = offset"

fun readRefs :: "read_at \<Rightarrow> StateRoot \<Rightarrow> PageRef list \<Rightarrow> io_error + bool" where
  "readRefs readAt root [] = Inr True"
| "readRefs readAt root (ref # refs) =
     (if ref = zeroPageRef then readRefs readAt root refs
      else case readAt (unat (pr_Offset ref)) (unat (pr_Length ref)) of
        None \<Rightarrow> Inl ReadError
      | Some buf \<Rightarrow>
          if length buf \<noteq> unat (pr_Length ref) then Inr False
          else case OpenPage buf of
            Inl _ \<Rightarrow> Inr False
          | Inr (header, _) \<Rightarrow>
              if ph_StoreID header \<noteq> sr_StoreID root \<or> ph_PageSize header \<noteq> sr_PageSize root \<or>
                 ph_Kind header \<noteq> pr_Kind ref \<or> ph_LogicalID header \<noteq> pr_LogicalID ref \<or>
                 ph_Generation header \<noteq> pr_Generation ref
              then Inr False
              else readRefs readAt root refs)"

definition readStateRootRefs :: "read_at \<Rightarrow> StateRoot \<Rightarrow> io_error + bool" where
  "readStateRootRefs readAt root =
     readRefs readAt root [sr_ChunkDirectory root, sr_KeyDirectory root, sr_IndexDirectory root, sr_TTLDirectory root]"

definition zeroStateRoot :: StateRoot where
  "zeroStateRoot = \<lparr>sr_StoreID = 0, sr_Generation = 0, sr_PageSize = 0, sr_Options = 0, sr_DocumentCount = 0,
     sr_TTLCount = 0, sr_NextLogicalID = 0, sr_ChunkHighWater = 0, sr_LiveChunks = 0, sr_ChunkDocuments = 0,
     sr_IndexCount = 0, sr_IndexMaxDepth = 0, sr_IndexCatalogHash = 0, sr_FreeChunkHint = 0,
     sr_ChunkDirectory = zeroPageRef, sr_KeyDirectory = zeroPageRef, sr_IndexDirectory = zeroPageRef,
     sr_TTLDirectory = zeroPageRef, sr_Float64ScanHead = zeroPageRef, sr_IndexGroupHead = zeroPageRef\<rparr>"

text \<open>One round of the candidate loop: an error, \<open>None\<close> for \<^verbatim>\<open>continue\<close>, or the state. It has three
  parts, in the code's order: the state page, its references, the free-tree page.\<close>

definition checkState :: "read_at \<Rightarrow> bool \<Rightarrow> Superblock \<Rightarrow> io_error + StateRoot option" where
  "checkState readAt decodeState root =
     (case readCheckedPage readAt (sb_StateOffset root) (sb_StateLength root) (sb_StateChecksum root) of
        Inl err \<Rightarrow> Inl err
      | Inr None \<Rightarrow> Inr None
      | Inr (Some page) \<Rightarrow>
          if \<not> decodeState then Inr (Some zeroStateRoot)
          else case DecodeStateRootPage page (sb_FileEnd root) of
            Inl Panic \<Rightarrow> Inl Panic
          | Inl _ \<Rightarrow> Inr None
          | Inr state \<Rightarrow>
              if sr_StoreID state \<noteq> sb_StoreID root \<or> sr_Generation state \<noteq> sb_Generation root \<or>
                 sr_PageSize state \<noteq> sb_PageSize root \<or> stateRootReferencesOffset state (sb_StateOffset root) \<or>
                 sb_FreeLength root \<noteq> 0 \<and> stateRootReferencesOffset state (sb_FreeOffset root)
              then Inr None
              else case readStateRootRefs readAt state of
                Inl err \<Rightarrow> Inl err
              | Inr ok \<Rightarrow> Inr (if ok then Some state else None))"

definition checkFree :: "read_at \<Rightarrow> bool \<Rightarrow> Superblock \<Rightarrow> StateRoot \<Rightarrow> io_error + bool" where
  "checkFree readAt decodeState root state =
     (if sb_FreeLength root = 0 then Inr True
      else case readCheckedPage readAt (sb_FreeOffset root) (sb_FreeLength root) (sb_FreeChecksum root) of
        Inl err \<Rightarrow> Inl err
      | Inr None \<Rightarrow> Inr False
      | Inr (Some page) \<Rightarrow>
          if \<not> decodeState then Inr True
          else case OpenFreeDirectoryPage page (sb_FileEnd root) (sr_NextLogicalID state) of
            Inl NoReturn \<Rightarrow> Inl NoReturn
          | Inl _ \<Rightarrow> Inr False
          | Inr free \<Rightarrow>
              let freeHeader = fv_header free in
              Inr (\<not> (fh_StoreID freeHeader \<noteq> sb_StoreID root \<or> fh_PageSize freeHeader \<noteq> sb_PageSize root \<or>
                      fh_Generation freeHeader > sb_Generation root \<or>
                      fh_LogicalID freeHeader = StateRootLogicalID)))"

definition checkCandidate ::
  "read_at \<Rightarrow> nat \<Rightarrow> u32 \<Rightarrow> bool \<Rightarrow> Superblock \<Rightarrow> io_error + StateRoot option" where
  "checkCandidate readAt fileSize pageSize decodeState root =
     (if sb_PageSize root \<noteq> pageSize \<or> unat (sb_FileEnd root) > fileSize then Inr None
      else case checkState readAt decodeState root of
        Inl err \<Rightarrow> Inl err
      | Inr None \<Rightarrow> Inr None
      | Inr (Some state) \<Rightarrow>
          (case checkFree readAt decodeState root state of
             Inl err \<Rightarrow> Inl err
           | Inr ok \<Rightarrow> Inr (if ok then Some state else None)))"

fun tryCandidates ::
  "read_at \<Rightarrow> nat \<Rightarrow> u32 \<Rightarrow> bool \<Rightarrow> (Superblock \<times> int) list \<Rightarrow> io_error + (Superblock \<times> StateRoot \<times> int)" where
  "tryCandidates readAt fileSize pageSize decodeState [] = Inl ErrSuperblockNotFound"
| "tryCandidates readAt fileSize pageSize decodeState ((root, slot) # candidates) =
     (case checkCandidate readAt fileSize pageSize decodeState root of
        Inl err \<Rightarrow> Inl err
      | Inr (Some state) \<Rightarrow> Inr (root, state, slot)
      | Inr None \<Rightarrow> tryCandidates readAt fileSize pageSize decodeState candidates)"

text \<open>A short header read leaves the rest of the 128 bytes zero.\<close>

definition readHeader :: "read_at \<Rightarrow> nat \<Rightarrow> bytes option" where
  "readHeader readAt off =
     (case readAt off SuperblockSize of
        None \<Rightarrow> None
      | Some buf \<Rightarrow> Some (buf @ replicate (SuperblockSize - length buf) 0))"

definition recoverRoots ::
  "read_at \<Rightarrow> int option \<Rightarrow> u32 \<Rightarrow> nat \<Rightarrow> bool \<Rightarrow> io_error + (Superblock \<times> StateRoot \<times> int)" where
  "recoverRoots readAt stat pageSize scratch decodeState =
     (if \<not> validPhysicalPageSize pageSize then Inl ErrInvalidWrite
      else if scratch < unat pageSize then Inl ErrRecoveryBufferTooSmall
      else case (readHeader readAt 0, readHeader readAt (unat pageSize)) of
        (Some first, Some second) \<Rightarrow>
          (case orderedSuperblocks first second of
             Inl err \<Rightarrow> Inl err
           | Inr candidates \<Rightarrow>
               (case stat of
                  None \<Rightarrow> Inl ReadError
                | Some fileSize \<Rightarrow>
                    if fileSize < 0 then Inl ErrSuperblockNotFound
                    else tryCandidates readAt (nat fileSize) pageSize decodeState candidates))
      | _ \<Rightarrow> Inl ReadError)"

definition RecoverSuperblock :: "read_at \<Rightarrow> int option \<Rightarrow> u32 \<Rightarrow> nat \<Rightarrow> io_error + (Superblock \<times> int)" where
  "RecoverSuperblock readAt stat pageSize scratch =
     (case recoverRoots readAt stat pageSize scratch False of
        Inl err \<Rightarrow> Inl err
      | Inr (root, _, slot) \<Rightarrow> Inr (root, slot))"

definition RecoverStateRoot ::
  "read_at \<Rightarrow> int option \<Rightarrow> u32 \<Rightarrow> nat \<Rightarrow> io_error + (Superblock \<times> StateRoot \<times> int)" where
  "RecoverStateRoot readAt stat pageSize scratch = recoverRoots readAt stat pageSize scratch True"

end
