(* ===== verification/Committer.thy ===== *)
theory Committer
  imports Superblock
begin

unbundle bit_operations_syntax

text \<open>
  The model of \<^verbatim>\<open>internal/storeio/committer.go\<close>, \<^verbatim>\<open>committer_worker.go\<close> and the write validation of
  \<^verbatim>\<open>device.go\<close>: the bounded queue between the one producer (the store's writer) and the one worker that
  owns the device. The pools of free descriptors and staging buffers are stacks; the single producer pops
  them and only \<open>releaseBatch\<close> pushes, so the whole of \<^verbatim>\<open>Begin\<close> is one step, which parks (the result
  \<open>None\<close>) as long as the pools cannot serve it. A batch is a value that moves: from the pool to the
  producer that fills it, to the queue, to the worker and back. The waiting, waking and timing of the
  goroutines is not modelled: the worker's round is the function \<open>commitRound\<close>, which a run takes at any
  moment. What the device does with a commit is a parameter. Receivers are not \<^verbatim>\<open>nil\<close>: the methods refuse a nil one
  as they refuse a closed committer or a batch that is not owned. Theory \<open>CommitterCorrect\<close> has the proofs.
\<close>

section \<open>Options\<close>

record CommitterOptions =
  co_QueueSlots :: int
  co_MaxPagesPerBatch :: int
  co_GroupLimit :: int
  co_CoalesceDelay :: int

definition nextPowerOfTwo :: "int \<Rightarrow> int" where
  "nextPowerOfTwo value =
     (let value = value - 1;
          value = value OR drop_bit 1 value; value = value OR drop_bit 2 value;
          value = value OR drop_bit 4 value; value = value OR drop_bit 8 value;
          value = value OR drop_bit 16 value; value = value OR drop_bit 32 value
      in value + 1)"

definition maxCommitDescriptors :: int where "maxCommitDescriptors = 1048576"
definition maxCommitCoalesce :: int where "maxCommitCoalesce = 1000000000"

definition normalizedCommitter :: "CommitterOptions \<Rightarrow> int \<Rightarrow> io_error + CommitterOptions" where
  "normalizedCommitter opts bufferCount =
     (let opts = (if co_QueueSlots opts = 0 then opts\<lparr>co_QueueSlots := 64\<rparr> else opts) in
      if co_QueueSlots opts < 1 \<or> co_QueueSlots opts > 65536 then Inl ErrInvalidWrite
      else
        let opts = opts\<lparr>co_QueueSlots := nextPowerOfTwo (co_QueueSlots opts)\<rparr>;
            opts = (if co_MaxPagesPerBatch opts = 0 then opts\<lparr>co_MaxPagesPerBatch := bufferCount - 1\<rparr> else opts) in
        if co_MaxPagesPerBatch opts < 0 \<or> co_MaxPagesPerBatch opts \<ge> bufferCount then Inl ErrTooManyPages
        else if co_MaxPagesPerBatch opts \<noteq> 0 \<and> co_QueueSlots opts > maxCommitDescriptors div co_MaxPagesPerBatch opts
        then Inl ErrTooManyPages
        else
          let opts = (if co_GroupLimit opts = 0 then opts\<lparr>co_GroupLimit := min 32 (co_QueueSlots opts)\<rparr> else opts) in
          if co_GroupLimit opts < 1 \<or> co_GroupLimit opts > co_QueueSlots opts then Inl ErrInvalidWrite
          else if co_CoalesceDelay opts < 0 \<or> co_CoalesceDelay opts > maxCommitCoalesce then Inl ErrInvalidWrite
          else Inr opts)"

section \<open>Writes\<close>

record Write =
  w_Offset :: int
  w_Length :: u32
  w_Buffer :: u16
  w_kind :: PageKind

definition zeroWrite :: Write where
  "zeroWrite = \<lparr>w_Offset = 0, w_Length = 0, w_Buffer = 0, w_kind = 0\<rparr>"

definition maxInt64 :: int where "maxInt64 = 2 ^ 63 - 1"

definition validateWrite :: "nat \<Rightarrow> nat \<Rightarrow> Write \<Rightarrow> io_error + int" where
  "validateWrite bufferCount bufferSize write =
     (if unat (w_Buffer write) \<ge> bufferCount \<or> w_Length write = 0 \<or> unat (w_Length write) > bufferSize \<or>
         w_Offset write < 0 \<or> int (unat (w_Length write)) > maxInt64 - w_Offset write
      then Inl ErrInvalidWrite
      else Inr (w_Offset write + int (unat (w_Length write))))"

text \<open>The bit set \<^verbatim>\<open>seen\<close> is the set of the buffers met so far; the first page is compared with no end.\<close>

fun validatePages :: "nat \<Rightarrow> nat \<Rightarrow> u16 set \<Rightarrow> int option \<Rightarrow> Write list \<Rightarrow> io_error option" where
  "validatePages bufferCount bufferSize seen previousEnd [] = None"
| "validatePages bufferCount bufferSize seen previousEnd (write # pages) =
     (case validateWrite bufferCount bufferSize write of
        Inl err \<Rightarrow> Some err
      | Inr stop \<Rightarrow>
          if w_Buffer write \<in> seen then Some ErrDuplicateBuffer
          else if (case previousEnd of None \<Rightarrow> False | Some p \<Rightarrow> w_Offset write < p) then Some ErrOverlappingWrite
          else validatePages bufferCount bufferSize (insert (w_Buffer write) seen) (Some stop) pages)"

definition validateCommit :: "nat \<Rightarrow> nat \<Rightarrow> Write list \<Rightarrow> Write \<Rightarrow> io_error option" where
  "validateCommit bufferCount bufferSize pages root =
     (case validatePages bufferCount bufferSize {} None pages of
        Some err \<Rightarrow> Some err
      | None \<Rightarrow>
          (case validateWrite bufferCount bufferSize root of
             Inl err \<Rightarrow> Some err
           | Inr rootEnd \<Rightarrow>
               if list_ex (\<lambda>write. w_Offset write < rootEnd \<and>
                    w_Offset root < w_Offset write + int (unat (w_Length write))) pages
               then Some ErrOverlappingWrite else None))"

section \<open>Batches and the committer\<close>

datatype batch_state = batchFree | batchOwned | batchPublished

record Batch =
  b_pages :: "Write list"
  b_root :: Write
  b_rootGeneration :: u64
  b_generation :: u64
  b_index :: u32
  b_state :: batch_state

record Committer =
  c_options :: CommitterOptions
  c_buffers :: "bytes list"
  c_bufferSize :: nat
  c_bufferCount :: nat
  c_freeBuffers :: "u32 list"
  c_freeBatches :: "u32 list"
  c_pending :: "Batch list"
  c_closing :: bool
  c_published :: u64
  c_durable :: u64
  c_failure :: "io_error option"
  c_deviceCommits :: u64
  c_batchesDone :: u64
  c_largestGroup :: u32
  c_suppressedRootWrites :: u64
  c_suppressedRootBytes :: u64

text \<open>The descriptors of \<^verbatim>\<open>newCommitter\<close>: pools filled from the highest index down, so that index 0 is on top.
  The buffers are those of the device.\<close>

definition newCommitter :: "CommitterOptions \<Rightarrow> nat \<Rightarrow> bytes list \<Rightarrow> io_error + Committer" where
  "newCommitter options bufferSize buffers =
     (case normalizedCommitter options (int (length buffers)) of
        Inl err \<Rightarrow> Inl err
      | Inr opts \<Rightarrow> Inr \<lparr>c_options = opts, c_buffers = buffers, c_bufferSize = bufferSize, c_bufferCount = length buffers,
          c_freeBuffers = map of_nat [0..<length buffers], c_freeBatches = map of_nat [0..<nat (co_QueueSlots opts)],
          c_pending = [], c_closing = False, c_published = 0, c_durable = 0, c_failure = None,
          c_deviceCommits = 0, c_batchesDone = 0, c_largestGroup = 0,
          c_suppressedRootWrites = 0, c_suppressedRootBytes = 0\<rparr>)"

definition Begin :: "Committer \<Rightarrow> int \<Rightarrow> (io_error + (Committer \<times> Batch)) option" where
  "Begin c pageCount =
     (case c_failure c of
        Some err \<Rightarrow> Some (Inl err)
      | None \<Rightarrow>
          if c_closing c then Some (Inl ErrClosed)
          else if pageCount < 0 \<or> pageCount > co_MaxPagesPerBatch (c_options c) then Some (Inl ErrTooManyPages)
          else
            let n = nat pageCount in
            if c_freeBatches c = [] \<or> length (c_freeBuffers c) < n + 1 then None
            else
              let taken = take (n + 1) (c_freeBuffers c) in
              Some (Inr (c\<lparr>c_freeBatches := tl (c_freeBatches c), c_freeBuffers := drop (n + 1) (c_freeBuffers c)\<rparr>,
                \<lparr>b_pages = map (\<lambda>buffer. zeroWrite\<lparr>w_Buffer := ucast buffer\<rparr>) (take n taken),
                 b_root = zeroWrite\<lparr>w_Buffer := ucast (taken ! n)\<rparr>,
                 b_rootGeneration = 0, b_generation = 0, b_index = hd (c_freeBatches c), b_state = batchOwned\<rparr>)))"

definition PageBuffer :: "Committer \<Rightarrow> Batch \<Rightarrow> int \<Rightarrow> io_error + bytes" where
  "PageBuffer c b page =
     (if b_state b \<noteq> batchOwned \<or> page < 0 \<or> page \<ge> int (length (b_pages b)) then Inl ErrBatchState
      else Inr (c_buffers c ! unat (w_Buffer (b_pages b ! nat page))))"

definition setPage :: "Batch \<Rightarrow> int \<Rightarrow> int \<Rightarrow> int \<Rightarrow> PageKind \<Rightarrow> io_error + Batch" where
  "setPage b page offset len kind =
     (if b_state b \<noteq> batchOwned \<or> page < 0 \<or> page \<ge> int (length (b_pages b)) then Inl ErrBatchState
      else if len < 0 \<or> len > 2 ^ 32 - 1 then Inl ErrInvalidWrite
      else
        let write = (b_pages b ! nat page)\<lparr>w_Offset := offset, w_Length := of_int len, w_kind := kind\<rparr>
        in Inr (b\<lparr>b_pages := (b_pages b)[nat page := write]\<rparr>))"

definition SetPage :: "Batch \<Rightarrow> int \<Rightarrow> int \<Rightarrow> int \<Rightarrow> io_error + Batch" where
  "SetPage b page offset len = setPage b page offset len 0"

definition setStorePage :: "Batch \<Rightarrow> int \<Rightarrow> int \<Rightarrow> int \<Rightarrow> PageKind \<Rightarrow> io_error + Batch" where
  "setStorePage b page offset len kind = setPage b page offset len kind"

definition ResizePages :: "Committer \<Rightarrow> Batch \<Rightarrow> int \<Rightarrow> io_error + (Committer \<times> Batch)" where
  "ResizePages c b pageCount =
     (if b_state b \<noteq> batchOwned \<or> pageCount < 0 \<or> pageCount > int (length (b_pages b)) then Inl ErrBatchState
      else
        let n = nat pageCount;
            dropped = map (\<lambda>write. ucast (w_Buffer write)) (drop n (b_pages b))
        in Inr (c\<lparr>c_freeBuffers := rev dropped @ c_freeBuffers c\<rparr>, b\<lparr>b_pages := take n (b_pages b)\<rparr>))"

definition RootBuffer :: "Committer \<Rightarrow> Batch \<Rightarrow> io_error + bytes" where
  "RootBuffer c b =
     (if b_state b \<noteq> batchOwned then Inl ErrBatchState else Inr (c_buffers c ! unat (w_Buffer (b_root b))))"

definition SetRoot :: "Batch \<Rightarrow> int \<Rightarrow> int \<Rightarrow> io_error + Batch" where
  "SetRoot b offset len =
     (if b_state b \<noteq> batchOwned then Inl ErrBatchState
      else if len < 0 \<or> len > 2 ^ 32 - 1 then Inl ErrInvalidWrite
      else Inr (b\<lparr>b_root := (b_root b)\<lparr>w_Offset := offset, w_Length := of_int len\<rparr>, b_rootGeneration := 0\<rparr>))"

text \<open>A failed encoding leaves the cleared page behind in the staging buffer, so the committer is returned
  in every case.\<close>

definition SetSuperblock :: "Committer \<Rightarrow> Batch \<Rightarrow> Superblock \<Rightarrow> Committer \<times> (io_error + Batch)" where
  "SetSuperblock c b root =
     (if b_state b \<noteq> batchOwned then (c, Inl ErrBatchState)
      else
        let index = unat (w_Buffer (b_root b)); buffer = c_buffers c ! index in
        if unat (sb_PageSize root) > length buffer then (c, Inl ErrInvalidWrite)
        else
          let page = replicate (unat (sb_PageSize root)) 0 in
          case EncodeSuperblock page root of
            Inl err \<Rightarrow> (c\<lparr>c_buffers := (c_buffers c)[index := put_bytes 0 page buffer]\<rparr>, Inl err)
          | Inr encoded \<Rightarrow>
              let c = c\<lparr>c_buffers := (c_buffers c)[index := put_bytes 0 encoded (put_bytes 0 page buffer)]\<rparr> in
              case SuperblockOffset (sb_Generation root) (sb_PageSize root) of
                Inl err \<Rightarrow> (c, Inl err)
              | Inr offset \<Rightarrow> (c, Inr (b\<lparr>b_root := (b_root b)\<lparr>w_Offset := int offset, w_Length := sb_PageSize root\<rparr>,
                  b_rootGeneration := sb_Generation root\<rparr>)))"

definition releaseBatch :: "Committer \<Rightarrow> Batch \<Rightarrow> Committer" where
  "releaseBatch c b =
     c\<lparr>c_freeBuffers := ucast (w_Buffer (b_root b)) # rev (map (\<lambda>write. ucast (w_Buffer write)) (b_pages b)) @ c_freeBuffers c,
       c_freeBatches := b_index b # c_freeBatches c\<rparr>"

definition batchAbort :: "Committer \<Rightarrow> Batch \<Rightarrow> io_error + Committer" where
  "batchAbort c b = (if b_state b \<noteq> batchOwned then Inl ErrBatchState else Inr (releaseBatch c b))"

definition publish :: "Committer \<Rightarrow> Batch \<Rightarrow> u64 \<Rightarrow> io_error + Committer" where
  "publish c b generation =
     (case c_failure c of
        Some err \<Rightarrow> Inl err
      | None \<Rightarrow>
          if c_closing c then Inl ErrClosed
          else if generation = 0 \<or> generation \<le> c_published c then Inl ErrGenerationOrder
          else if b_rootGeneration b \<noteq> 0 \<and> b_rootGeneration b \<noteq> generation then Inl ErrGenerationOrder
          else case validateCommit (c_bufferCount c) (c_bufferSize c) (b_pages b) (b_root b) of
            Some err \<Rightarrow> Inl err
          | None \<Rightarrow>
              if length (c_pending c) \<ge> nat (co_QueueSlots (c_options c)) then Inl ErrQueueFull
              else Inr (c\<lparr>c_pending := c_pending c @ [b\<lparr>b_generation := generation, b_state := batchPublished\<rparr>],
                          c_published := generation\<rparr>))"

definition batchPublish :: "Committer \<Rightarrow> Batch \<Rightarrow> u64 \<Rightarrow> io_error + Committer" where
  "batchPublish c b generation = (if b_state b \<noteq> batchOwned then Inl ErrBatchState else publish c b generation)"

definition InitializeGeneration :: "Committer \<Rightarrow> u64 \<Rightarrow> io_error + Committer" where
  "InitializeGeneration c generation =
     (if generation = 0 \<or> c_closing c \<or> c_pending c \<noteq> [] \<or> c_published c \<noteq> 0 \<or> c_durable c \<noteq> 0
      then Inl ErrGenerationOrder
      else Inr (c\<lparr>c_published := generation, c_durable := generation\<rparr>))"

section \<open>The worker\<close>

text \<open>The adjacent batches that follow the first one, up to the group limit and the capacity of the scratch
  (one write for each buffer).\<close>

fun groupBatches :: "nat \<Rightarrow> nat \<Rightarrow> Batch list \<Rightarrow> Batch list \<Rightarrow> Batch list \<times> Batch list" where
  "groupBatches limit capacity grouped [] = (grouped, [])"
| "groupBatches limit capacity grouped (next # pending) =
     (if length grouped < limit \<and> length (concat (map b_pages grouped)) + length (b_pages next) \<le> capacity
      then groupBatches limit capacity (grouped @ [next]) pending
      else (grouped, next # pending))"

definition latestState :: "Write list \<Rightarrow> int" where
  "latestState writes =
     foldl (\<lambda>found (index, write). if w_kind write = PageStateRoot then int index else found) (- 1) (enumerate 0 writes)"

definition suppressRoots :: "Write list \<Rightarrow> Write list \<times> Write list" where
  "suppressRoots writes =
     (let latest = latestState writes in
      if latest \<ge> 0 then
        foldl (\<lambda>(kept, dropped) (index, write).
            if w_kind write = PageStateRoot \<and> int index \<noteq> latest then (kept, dropped @ [write])
            else (kept @ [write], dropped))
          ([], []) (enumerate 0 writes)
      else (writes, []))"

definition setFailure :: "Committer \<Rightarrow> io_error \<Rightarrow> Committer" where
  "setFailure c err =
     (case c_failure c of
        Some _ \<Rightarrow> c
      | None \<Rightarrow> c\<lparr>c_failure := Some err, c_closing := True\<rparr>)"

definition drainFailed :: "Committer \<Rightarrow> Committer" where
  "drainFailed c = foldl releaseBatch (c\<lparr>c_pending := []\<rparr>) (c_pending c)"

text \<open>One round of the worker's loop, \<open>None\<close> when the queue is empty: the writes submitted to the device,
  the root, and the committer after the device's answer.\<close>

definition commitRound ::
  "Committer \<Rightarrow> (Write list \<Rightarrow> Write \<Rightarrow> io_error option) \<Rightarrow> (Committer \<times> Write list \<times> Write) option" where
  "commitRound c device =
     (case c_pending c of
        [] \<Rightarrow> None
      | first # rest \<Rightarrow>
          let (grouped, pending) = groupBatches (nat (co_GroupLimit (c_options c))) (c_bufferCount c) [first] rest;
              latest = last grouped;
              (kept, dropped) = suppressRoots (concat (map b_pages grouped));
              writes = sort_key w_Offset kept;
              c = c\<lparr>c_pending := pending, c_suppressedRootWrites := c_suppressedRootWrites c + of_nat (length dropped),
                    c_suppressedRootBytes := c_suppressedRootBytes c + sum_list (map (\<lambda>write. ucast (w_Length write)) dropped)\<rparr>
          in case device writes (b_root latest) of
               Some err \<Rightarrow> Some (drainFailed (foldl releaseBatch (setFailure c err) grouped), writes, b_root latest)
             | None \<Rightarrow>
                 Some (foldl releaseBatch
                   (c\<lparr>c_deviceCommits := c_deviceCommits c + 1, c_batchesDone := c_batchesDone c + of_nat (length grouped),
                      c_largestGroup := max (c_largestGroup c) (of_nat (length grouped)),
                      c_durable := b_generation latest\<rparr>) grouped, writes, b_root latest))"

end
