(* ===== verification/WriteTransaction.thy ===== *)
theory WriteTransaction
  imports Committer
begin

unbundle bit_operations_syntax

text \<open>
  The model of \<^verbatim>\<open>internal/storeio/write_transaction.go\<close>: one copy-on-write publication. The transaction
  owns its batch until it is published or aborted; the committer is passed along beside it. A method
  returns the transaction next to its error, since a refused call may still have changed it. The staging
  bytes of a \<^verbatim>\<open>TransactionPage\<close> alias a buffer of the committer, so the model reads them there. The calls
  into the page cache are the parameters \<open>admit\<close> and \<open>discard\<close>, \<open>None\<close> for a transaction without a cache.
  Theory \<open>WriteTransactionCorrect\<close> has the proofs.
\<close>

record ReuseEdit =
  re_Index :: u32
  re_Before :: FreeExtent

record WriteTransactionOptions =
  wo_StoreID :: u128
  wo_Generation :: u64
  wo_PageSize :: u32
  wo_FileEnd :: u64
  wo_NextLogicalID :: u64
  wo_Reusable :: "FreeExtent list"
  wo_journalCap :: nat
  wo_SingleReuseExtent :: bool

record WriteTransaction =
  wt_batch :: "Batch option"
  wt_options :: WriteTransactionOptions
  wt_fileEnd :: u64
  wt_nextID :: u64
  wt_allocated :: nat
  wt_reuseEdits :: "ReuseEdit list"
  wt_reuseEnabled :: bool
  wt_reuseIndex :: int
  wt_reuseStart :: nat
  wt_reuseEnd :: nat
  wt_reuseExclude :: int
  wt_active :: bool

record TransactionPage =
  tp_index :: nat
  tp_ref :: PageRef

section \<open>Beginning\<close>

definition BeginWriteTransaction ::
  "Committer \<Rightarrow> int \<Rightarrow> WriteTransactionOptions \<Rightarrow> (io_error + (Committer \<times> WriteTransaction)) option" where
  "BeginWriteTransaction c maxPages options =
     (if wo_StoreID options = 0 \<or> wo_Generation options = 0 \<or> \<not> validPhysicalPageSize (wo_PageSize options) \<or>
         wo_FileEnd options < superblockCopies * ucast (wo_PageSize options) \<or>
         wo_FileEnd options mod ucast (wo_PageSize options) \<noteq> 0 \<or> wo_FileEnd options > maxSuperblockFileOffset \<or>
         wo_NextLogicalID options \<le> StateRootLogicalID
      then Some (Inl ErrInvalidWrite)
      else case Begin c maxPages of
        None \<Rightarrow> None
      | Some (Inl err) \<Rightarrow> Some (Inl err)
      | Some (Inr (c, batch)) \<Rightarrow>
          Some (Inr (c, \<lparr>wt_batch = Some batch, wt_options = options, wt_fileEnd = wo_FileEnd options,
            wt_nextID = wo_NextLogicalID options, wt_allocated = 0, wt_reuseEdits = [], wt_reuseEnabled = True,
            wt_reuseIndex = - 1, wt_reuseStart = 0, wt_reuseEnd = length (wo_Reusable options),
            wt_reuseExclude = - 1, wt_active = True\<rparr>)))"

section \<open>Allocation\<close>

definition variableTransactionExtent :: "PageKind \<Rightarrow> bool" where
  "variableTransactionExtent kind \<longleftrightarrow>
     kind = PageDocument \<or> kind = PageOverflow \<or> kind = PageFloat64Stripe \<or> kind = PageIndexGroupCatalog"

definition setReusable :: "WriteTransaction \<Rightarrow> nat \<Rightarrow> FreeExtent \<Rightarrow> WriteTransaction" where
  "setReusable t index extent =
     t\<lparr>wt_options := (wt_options t)\<lparr>wo_Reusable := (wo_Reusable (wt_options t))[index := extent]\<rparr>\<rparr>"

definition allocateFromReusable ::
  "WriteTransaction \<Rightarrow> nat \<Rightarrow> FreeExtent \<Rightarrow> u64 \<Rightarrow> WriteTransaction \<times> (io_error + (u64 \<times> bool))" where
  "allocateFromReusable t index extent want =
     (let opts = wt_options t; pageSize = ucast (wo_PageSize opts) :: u64 in
      if fe_Offset extent < 2 * pageSize \<or> fe_Offset extent mod pageSize \<noteq> 0 \<or>
         fe_Length extent mod pageSize \<noteq> 0 \<or> fe_Length extent > wo_FileEnd opts \<or>
         fe_Offset extent > wo_FileEnd opts - fe_Length extent \<or>
         fe_RetiredGeneration extent = 0 \<or> fe_RetiredGeneration extent \<ge> wo_Generation opts
      then (t, Inl ErrInvalidWrite)
      else if length (wt_reuseEdits t) = wo_journalCap opts then (t, Inl ErrTooManyPages)
      else
        let t = t\<lparr>wt_reuseEdits := wt_reuseEdits t @ [\<lparr>re_Index = of_nat index, re_Before = extent\<rparr>]\<rparr>;
            offset = fe_Offset extent + fe_Length extent - want;
            extent = extent\<lparr>fe_Length := fe_Length extent - want\<rparr>;
            extent = (if fe_Length extent = 0 then zeroFreeExtent else extent)
        in (setReusable t index extent, Inr (offset, True)))"

text \<open>The scan over \<^verbatim>\<open>[reuseStart, reuseEnd)\<close>: the first extent long enough or, with a single reuse extent,
  the longest one.\<close>

fun selectReusable :: "FreeExtent list \<Rightarrow> bool \<Rightarrow> u64 \<Rightarrow> int \<Rightarrow> int \<Rightarrow> nat list \<Rightarrow> int" where
  "selectReusable reusable single want exclude selected [] = selected"
| "selectReusable reusable single want exclude selected (i # is) =
     (if int i = exclude then selectReusable reusable single want exclude selected is
      else if fe_Length (reusable ! i) < want then selectReusable reusable single want exclude selected is
      else if selected < 0 \<or> single \<and> fe_Length (reusable ! i) > fe_Length (reusable ! nat selected)
      then (if \<not> single then int i else selectReusable reusable single want exclude (int i) is)
      else selectReusable reusable single want exclude selected is)"

definition allocatePhysical :: "WriteTransaction \<Rightarrow> u32 \<Rightarrow> WriteTransaction \<times> (io_error + (u64 \<times> bool))" where
  "allocatePhysical t len =
     (let want = ucast len :: u64; opts = wt_options t;
          append = (if want > maxSuperblockFileOffset - wt_fileEnd t then (t, Inl ErrInvalidWrite)
                    else (t, Inr (wt_fileEnd t, False)))
      in if \<not> wt_reuseEnabled t then append
         else if wo_SingleReuseExtent opts \<and> wt_reuseIndex t \<ge> 0 then
           let extent = wo_Reusable opts ! nat (wt_reuseIndex t) in
           if fe_Length extent < want then (t, Inr (wt_fileEnd t, False))
           else allocateFromReusable t (nat (wt_reuseIndex t)) extent want
         else
           let selected = selectReusable (wo_Reusable opts) (wo_SingleReuseExtent opts) want (wt_reuseExclude t)
                 (- 1) [wt_reuseStart t ..< wt_reuseEnd t]
           in if selected \<ge> 0
              then allocateFromReusable (t\<lparr>wt_reuseIndex := selected\<rparr>) (nat selected)
                     (wo_Reusable opts ! nat selected) want
              else append)"

definition batchPages :: "WriteTransaction \<Rightarrow> Write list" where
  "batchPages t = (case wt_batch t of None \<Rightarrow> [] | Some b \<Rightarrow> b_pages b)"

text \<open>The second half of \<^verbatim>\<open>Allocate\<close>, once the logical identity is settled.\<close>

definition placePage ::
  "Committer \<Rightarrow> WriteTransaction \<Rightarrow> PageKind \<Rightarrow> u32 \<Rightarrow> u64 \<Rightarrow> WriteTransaction \<times> (io_error + TransactionPage)" where
  "placePage c t kind len logicalID =
     (case allocatePhysical t len of
        (t, Inl err) \<Rightarrow> (t, Inl err)
      | (t, Inr (offset, reused)) \<Rightarrow>
          let index = wt_allocated t in
          (case wt_batch t of
             None \<Rightarrow> (t, Inl ErrBatchState)
           | Some b \<Rightarrow>
               (case PageBuffer c b (int index) of
                  Inl err \<Rightarrow> (t, Inl err)
                | Inr _ \<Rightarrow>
                    let ref = \<lparr>pr_Offset = offset, pr_LogicalID = logicalID, pr_Generation = wo_Generation (wt_options t),
                          pr_Length = len, pr_Kind = kind, pr_Flags = 0, pr_Aux = 0\<rparr>;
                        t = (if reused then t else t\<lparr>wt_fileEnd := wt_fileEnd t + ucast len\<rparr>)
                    in (t\<lparr>wt_allocated := wt_allocated t + 1\<rparr>, Inr \<lparr>tp_index = index, tp_ref = ref\<rparr>))))"

definition Allocate ::
  "Committer \<Rightarrow> WriteTransaction \<Rightarrow> PageKind \<Rightarrow> u32 \<Rightarrow> u64 \<Rightarrow> WriteTransaction \<times> (io_error + TransactionPage)" where
  "Allocate c t kind len logicalID =
     (let pageSize = wo_PageSize (wt_options t) in
      if \<not> wt_active t \<or> wt_allocated t \<ge> length (batchPages t) \<or> \<not> validPageKind kind \<or>
         \<not> validPhysicalPageSize len \<or> len < pageSize \<or> len mod pageSize \<noteq> 0
      then (t, Inl ErrTooManyPages)
      else if \<not> variableTransactionExtent kind \<and> len \<noteq> pageSize then (t, Inl ErrInvalidWrite)
      else if unat len > c_bufferSize c then (t, Inl ErrTooManyPages)
      else
        let fresh = logicalID = 0;
            named = (if fresh then wt_nextID t else logicalID)
        in
        if fresh \<and> (named \<le> StateRootLogicalID \<or> named = NOT 0) then (t, Inl ErrInvalidWrite)
        else if \<not> fresh \<and> named \<noteq> StateRootLogicalID \<and> (named \<le> StateRootLogicalID \<or> named \<ge> wt_nextID t)
        then (t, Inl ErrInvalidWrite)
        else
          let t = (if fresh then t\<lparr>wt_nextID := wt_nextID t + 1\<rparr> else t) in
          if kind = PageStateRoot \<and> named \<noteq> StateRootLogicalID \<or> kind \<noteq> PageStateRoot \<and> named = StateRootLogicalID
          then (t, Inl ErrInvalidWrite)
          else placePage c t kind len named)"

definition DisableReuse :: "WriteTransaction \<Rightarrow> WriteTransaction" where
  "DisableReuse t = t\<lparr>wt_reuseEnabled := False\<rparr>"

definition SetReuseRange :: "WriteTransaction \<Rightarrow> int \<Rightarrow> int \<Rightarrow> int \<Rightarrow> io_error + WriteTransaction" where
  "SetReuseRange t start stop exclude =
     (if \<not> wt_active t \<or> start < 0 \<or> stop < start \<or> stop > int (length (wo_Reusable (wt_options t))) \<or> exclude \<ge> stop
      then Inl ErrInvalidWrite
      else Inr (t\<lparr>wt_reuseEnabled := True, wt_reuseIndex := - 1, wt_reuseStart := nat start,
                  wt_reuseEnd := nat stop, wt_reuseExclude := exclude\<rparr>))"

section \<open>Staging, publication, abort\<close>

definition pageBytes :: "Committer \<Rightarrow> WriteTransaction \<Rightarrow> TransactionPage \<Rightarrow> bytes" where
  "pageBytes c t p = take (unat (pr_Length (tp_ref p))) (c_buffers c ! unat (w_Buffer (batchPages t ! tp_index p)))"

definition Stage ::
  "(PageRef \<Rightarrow> bytes \<Rightarrow> u64 \<Rightarrow> io_error option) option \<Rightarrow> Committer \<Rightarrow> WriteTransaction \<Rightarrow> TransactionPage \<Rightarrow>
   io_error + WriteTransaction" where
  "Stage admit c t p =
     (let ref = tp_ref p; opts = wt_options t in
      if \<not> wt_active t \<or> tp_index p \<ge> wt_allocated t \<or> length (pageBytes c t p) \<noteq> unat (pr_Length ref)
      then Inl ErrBatchState
      else case OpenPage (pageBytes c t p) of
        Inl err \<Rightarrow> Inl err
      | Inr (header, _) \<Rightarrow>
          if ph_StoreID header \<noteq> wo_StoreID opts \<or> ph_Generation header \<noteq> wo_Generation opts \<or>
             ph_LogicalID header \<noteq> pr_LogicalID ref \<or> ph_PageSize header \<noteq> pr_Length ref \<or>
             ph_Kind header \<noteq> pr_Kind ref \<or> ph_Flags header \<noteq> pr_Flags ref
          then Inl ErrInvalidWrite
          else if w_Length (batchPages t ! tp_index p) \<noteq> 0 then Inl ErrBatchState
          else
            let refused = (case admit of
                  Some f \<Rightarrow> if pr_LogicalID ref \<noteq> StateRootLogicalID
                            then f ref (pageBytes c t p) (wo_Generation opts) else None
                | None \<Rightarrow> None)
            in case refused of
                 Some err \<Rightarrow> Inl err
               | None \<Rightarrow>
                   (case wt_batch t of
                      None \<Rightarrow> Inl ErrBatchState
                    | Some b \<Rightarrow>
                        (case setStorePage b (int (tp_index p)) (sint (pr_Offset ref)) (int (unat (pr_Length ref))) (pr_Kind ref) of
                           Inl err \<Rightarrow> Inl err
                         | Inr b \<Rightarrow> Inr (t\<lparr>wt_batch := Some b\<rparr>))))"

fun checkStaged :: "Committer \<Rightarrow> PageRef \<Rightarrow> u32 \<Rightarrow> bool \<Rightarrow> Write list \<Rightarrow> io_error + bool" where
  "checkStaged c stateRef stateChecksum stagedState [] = Inr stagedState"
| "checkStaged c stateRef stateChecksum stagedState (write # writes) =
     (if w_Length write = 0 then Inl ErrInvalidWrite
      else if word_of_int (w_Offset write) = pr_Offset stateRef \<and> w_Length write = pr_Length stateRef then
        (if PageChecksum (take (unat (w_Length write)) (c_buffers c ! unat (w_Buffer write))) \<noteq> stateChecksum
         then Inl ErrInvalidWrite
         else checkStaged c stateRef stateChecksum True writes)
      else checkStaged c stateRef stateChecksum stagedState writes)"

definition publishRoot :: "WriteTransaction \<Rightarrow> PageRef \<Rightarrow> u32 \<Rightarrow> u64 \<Rightarrow> u32 \<Rightarrow> u32 \<Rightarrow> Superblock" where
  "publishRoot t stateRef stateChecksum freeOffset freeLength freeChecksum =
     \<lparr>sb_StoreID = wo_StoreID (wt_options t), sb_Generation = wo_Generation (wt_options t),
      sb_StateOffset = pr_Offset stateRef, sb_StateLength = pr_Length stateRef, sb_StateChecksum = stateChecksum,
      sb_FileEnd = wt_fileEnd t, sb_FreeOffset = freeOffset, sb_FreeLength = freeLength,
      sb_FreeChecksum = freeChecksum, sb_PageSize = wo_PageSize (wt_options t), sb_Flags = 0\<rparr>"

definition txPublish ::
  "Committer \<Rightarrow> WriteTransaction \<Rightarrow> PageRef \<Rightarrow> u32 \<Rightarrow> u64 \<Rightarrow> u32 \<Rightarrow> u32 \<Rightarrow> (Committer \<times> WriteTransaction) \<times> io_error option" where
  "txPublish c t stateRef stateChecksum freeOffset freeLength freeChecksum =
     (if \<not> wt_active t \<or> pr_Kind stateRef \<noteq> PageStateRoot \<or> pr_LogicalID stateRef \<noteq> StateRootLogicalID \<or>
         pr_Generation stateRef \<noteq> wo_Generation (wt_options t) \<or> pr_Length stateRef \<noteq> wo_PageSize (wt_options t)
      then ((c, t), Some ErrBatchState)
      else case wt_batch t of
        None \<Rightarrow> ((c, t), Some ErrBatchState)
      | Some b \<Rightarrow>
          (case checkStaged c stateRef stateChecksum False (take (wt_allocated t) (b_pages b)) of
             Inl err \<Rightarrow> ((c, t), Some err)
           | Inr stagedState \<Rightarrow>
               if \<not> stagedState then ((c, t), Some ErrInvalidWrite)
               else case ResizePages c b (int (wt_allocated t)) of
                 Inl err \<Rightarrow> ((c, t), Some err)
               | Inr (c, b) \<Rightarrow>
                   let b = b\<lparr>b_pages := sort_key w_Offset (b_pages b)\<rparr>;
                       root = publishRoot t stateRef stateChecksum freeOffset freeLength freeChecksum
                   in case SetSuperblock c b root of
                        (c, Inl err) \<Rightarrow> ((c, t\<lparr>wt_batch := Some b\<rparr>), Some err)
                      | (c, Inr b) \<Rightarrow>
                          (case batchPublish c b (wo_Generation (wt_options t)) of
                             Inl err \<Rightarrow> ((c, t\<lparr>wt_batch := Some b\<rparr>), Some err)
                           | Inr c \<Rightarrow> ((c, t\<lparr>wt_batch := None, wt_active := False\<rparr>), None))))"

definition undoEdits :: "ReuseEdit list \<Rightarrow> FreeExtent list \<Rightarrow> FreeExtent list" where
  "undoEdits edits reusable =
     foldr (\<lambda>edit reusable. reusable[unat (re_Index edit) := re_Before edit]) edits reusable"

definition txAbort ::
  "(u64 \<Rightarrow> io_error option) option \<Rightarrow> Committer \<Rightarrow> WriteTransaction \<Rightarrow> (Committer \<times> WriteTransaction) \<times> io_error option" where
  "txAbort discard c t =
     (case (wt_active t, wt_batch t) of
        (True, Some b) \<Rightarrow>
          (case batchAbort c b of
             Inl err \<Rightarrow> ((c, t), Some err)
           | Inr c \<Rightarrow>
               ((c, t\<lparr>wt_options := (wt_options t)\<lparr>wo_Reusable := undoEdits (wt_reuseEdits t) (wo_Reusable (wt_options t))\<rparr>,
                      wt_reuseEdits := [], wt_active := False, wt_batch := None\<rparr>),
                (case discard of None \<Rightarrow> None | Some f \<Rightarrow> f (wo_Generation (wt_options t)))))
      | _ \<Rightarrow> ((c, t), Some ErrBatchState))"

end
