(* ===== verification/Leases.thy ===== *)
theory Leases
  imports FreeDirectory
begin

unbundle bit_operations_syntax

text \<open>
  The model of \<^verbatim>\<open>internal/storeio/generation_leases.go\<close>: the fixed table of snapshot leases and the
  reclaimer of retired extents. A method that changes its receiver returns it updated; a pointer
  receiver is an option, \<open>None\<close> being \<^verbatim>\<open>nil\<close>. A lease keeps only whether its owner is set, since every
  lease here belongs to the one table. Each method holds its mutex from start to end and is therefore one
  step, except \<^verbatim>\<open>AppendReusable\<close>, which reads the floor of the leases before it locks the reclaimer; its
  two halves are \<open>reclaimFloor\<close> and \<open>takeReusable\<close>. Theory \<open>LeasesCorrect\<close> has the proofs.
\<close>

section \<open>Generation leases\<close>

definition normalizedLeases :: "int \<Rightarrow> io_error + nat" where
  "normalizedLeases maxLeases =
     (let n = (if maxLeases = 0 then 1024 else maxLeases) in
      if n < 1 \<or> n > push_bit 20 1 then Inl ErrInvalidWrite else Inr (nat n))"

record generationLeaseSlot =
  ls_generation :: u64
  ls_token :: u64
  ls_active :: bool

definition zeroSlot :: generationLeaseSlot where
  "zeroSlot = \<lparr>ls_generation = 0, ls_token = 0, ls_active = False\<rparr>"

record GenerationLeaseStats =
  gs_Capacity :: u64
  gs_Active :: u64
  gs_MinimumGeneration :: u64

record GenerationLeases =
  gl_slots :: "generationLeaseSlot list"
  gl_free :: "u32 list"
  gl_next :: u64
  gl_closing :: bool
  gl_closed :: bool

record GenerationLease =
  lh_owner :: bool
  lh_index :: u32
  lh_generation :: u64
  lh_token :: u64

definition NewGenerationLeases :: "int \<Rightarrow> io_error + GenerationLeases" where
  "NewGenerationLeases maxLeases =
     (case normalizedLeases maxLeases of
        Inl err \<Rightarrow> Inl err
      | Inr n \<Rightarrow> Inr \<lparr>gl_slots = replicate n zeroSlot, gl_free = map (\<lambda>i. of_nat (n - 1 - i)) [0..<n],
          gl_next = 0, gl_closing = False, gl_closed = False\<rparr>)"

definition generationSuccessor :: "u64 \<Rightarrow> u64" where
  "generationSuccessor generation = (if generation = NOT 0 then generation else generation + 1)"

definition Acquire :: "GenerationLeases option \<Rightarrow> u64 \<Rightarrow> io_error + (GenerationLeases \<times> GenerationLease)" where
  "Acquire leases generation =
     (case leases of
        None \<Rightarrow> Inl ErrGenerationLeasesClosed
      | Some l \<Rightarrow>
          if gl_closing l \<or> gl_closed l then Inl ErrGenerationLeasesClosed
          else if length (gl_free l) = 0 then Inl ErrLeaseCapacity
          else
            let index = last (gl_free l);
                next1 = gl_next l + 1;
                token = (if next1 = 0 then next1 + 1 else next1)
            in Inr (l\<lparr>gl_free := butlast (gl_free l), gl_next := token,
                      gl_slots := (gl_slots l)[unat index :=
                        \<lparr>ls_generation = generation, ls_token = token, ls_active = True\<rparr>]\<rparr>,
                    \<lparr>lh_owner = True, lh_index = index, lh_generation = generation, lh_token = token\<rparr>))"

definition releaseSlot :: "GenerationLeases \<Rightarrow> u32 \<Rightarrow> u64 \<Rightarrow> GenerationLeases" where
  "releaseSlot l index token =
     (if unat index < length (gl_slots l) then
        let slot = gl_slots l ! unat index in
        if ls_active slot \<and> ls_token slot = token
        then l\<lparr>gl_slots := (gl_slots l)[unat index := zeroSlot], gl_free := gl_free l @ [index]\<rparr>
        else l
      else l)"

definition leaseGeneration :: "GenerationLease option \<Rightarrow> u64" where
  "leaseGeneration lease =
     (case lease of None \<Rightarrow> 0 | Some h \<Rightarrow> if lh_owner h then lh_generation h else 0)"

definition Release :: "GenerationLeases \<Rightarrow> GenerationLease option \<Rightarrow> GenerationLeases \<times> GenerationLease option" where
  "Release l lease =
     (case lease of
        None \<Rightarrow> (l, None)
      | Some h \<Rightarrow>
          if \<not> lh_owner h then (l, Some h)
          else (releaseSlot l (lh_index h) (lh_token h),
                Some (h\<lparr>lh_owner := False, lh_generation := 0, lh_token := 0\<rparr>)))"

definition Minimum :: "GenerationLeases option \<Rightarrow> u64 \<Rightarrow> u64" where
  "Minimum leases current =
     (case leases of
        None \<Rightarrow> generationSuccessor current
      | Some l \<Rightarrow>
          foldl (\<lambda>minimum slot. if ls_active slot \<and> ls_generation slot < minimum then ls_generation slot else minimum)
            (generationSuccessor current) (gl_slots l))"

definition leaseStats :: "GenerationLeases option \<Rightarrow> u64 \<Rightarrow> GenerationLeaseStats" where
  "leaseStats leases current =
     (case leases of
        None \<Rightarrow> \<lparr>gs_Capacity = 0, gs_Active = 0, gs_MinimumGeneration = generationSuccessor current\<rparr>
      | Some l \<Rightarrow>
          foldl (\<lambda>stats slot.
              if ls_active slot then
                let stats = stats\<lparr>gs_Active := gs_Active stats + 1\<rparr> in
                if ls_generation slot < gs_MinimumGeneration stats
                then stats\<lparr>gs_MinimumGeneration := ls_generation slot\<rparr> else stats
              else stats)
            \<lparr>gs_Capacity = of_nat (length (gl_slots l)), gs_Active = 0,
              gs_MinimumGeneration = generationSuccessor current\<rparr> (gl_slots l))"

definition leasesClose :: "GenerationLeases option \<Rightarrow> GenerationLeases option \<times> io_error option" where
  "leasesClose leases =
     (case leases of
        None \<Rightarrow> (None, None)
      | Some l \<Rightarrow>
          if gl_closed l then (Some l, None)
          else
            let l = l\<lparr>gl_closing := True\<rparr> in
            if length (gl_free l) \<noteq> length (gl_slots l) then (Some l, Some ErrLeasesActive)
            else (Some (l\<lparr>gl_closed := True\<rparr>), None))"

section \<open>Retired extents\<close>

definition normalizedRetired :: "int \<Rightarrow> io_error + nat" where
  "normalizedRetired maxRetiredExtents =
     (let n = (if maxRetiredExtents = 0 then push_bit 16 1 else maxRetiredExtents) in
      if n < 1 \<or> n > push_bit 24 1 then Inl ErrInvalidWrite else Inr (nat n))"

record ExtentReclaimerStats =
  xs_Capacity :: u64
  xs_Pending :: u64
  xs_PendingBytes :: u64
  xs_OldestRetired :: u64

record ExtentReclaimer =
  er_pending :: "FreeExtent list"
  er_limit :: nat

definition NewExtentReclaimer :: "GenerationLeases option \<Rightarrow> int \<Rightarrow> io_error + ExtentReclaimer" where
  "NewExtentReclaimer leases maxRetiredExtents =
     (case leases of
        None \<Rightarrow> Inl ErrInvalidWrite
      | Some _ \<Rightarrow>
          (case normalizedRetired maxRetiredExtents of
             Inl err \<Rightarrow> Inl err
           | Inr n \<Rightarrow> Inr \<lparr>er_pending = [], er_limit = n\<rparr>))"

definition overlaps :: "FreeExtent \<Rightarrow> FreeExtent \<Rightarrow> bool" where
  "overlaps extent other \<longleftrightarrow>
     fe_Offset extent < fe_Offset other + fe_Length other \<and> fe_Offset other < fe_Offset extent + fe_Length extent"

fun checkRetired :: "FreeExtent list \<Rightarrow> FreeExtent list \<Rightarrow> FreeExtent list \<Rightarrow> io_error option" where
  "checkRetired pending earlier [] = None"
| "checkRetired pending earlier (extent # extents) =
     (if fe_Offset extent = 0 \<or> fe_Length extent = 0 \<or> fe_RetiredGeneration extent = 0 \<or>
         fe_Offset extent > NOT 0 - fe_Length extent
      then Some ErrInvalidWrite
      else if list_ex (overlaps extent) pending then Some ErrInvalidWrite
      else if list_ex (overlaps extent) earlier then Some ErrInvalidWrite
      else checkRetired pending (earlier @ [extent]) extents)"

definition RetireBatch :: "ExtentReclaimer option \<Rightarrow> FreeExtent list \<Rightarrow> io_error + ExtentReclaimer" where
  "RetireBatch reclaimer extents =
     (case reclaimer of
        None \<Rightarrow> Inl ErrInvalidWrite
      | Some r \<Rightarrow>
          if int (length extents) > int (er_limit r) - int (length (er_pending r)) then Inl ErrRetiredExtentCapacity
          else case checkRetired (er_pending r) [] extents of
            Some err \<Rightarrow> Inl err
          | None \<Rightarrow> Inr (r\<lparr>er_pending := er_pending r @ extents\<rparr>))"

definition Retire :: "ExtentReclaimer option \<Rightarrow> FreeExtent \<Rightarrow> io_error + ExtentReclaimer" where
  "Retire reclaimer extent = RetireBatch reclaimer [extent]"

fun tailStart :: "FreeExtent list \<Rightarrow> u64 \<Rightarrow> nat \<Rightarrow> nat" where
  "tailStart pending generation 0 = 0"
| "tailStart pending generation (Suc first) =
     (if fe_RetiredGeneration (pending ! first) = generation then tailStart pending generation first else Suc first)"

definition CancelRetiredGeneration :: "ExtentReclaimer option \<Rightarrow> u64 \<Rightarrow> io_error + ExtentReclaimer" where
  "CancelRetiredGeneration reclaimer generation =
     (case reclaimer of
        None \<Rightarrow> Inl ErrInvalidWrite
      | Some r \<Rightarrow>
          if generation = 0 then Inl ErrInvalidWrite
          else
            let first = tailStart (er_pending r) generation (length (er_pending r)) in
            if list_ex (\<lambda>extent. fe_RetiredGeneration extent = generation) (take first (er_pending r))
            then Inl ErrInvalidWrite
            else Inr (r\<lparr>er_pending := take first (er_pending r)\<rparr>))"

definition reclaimFloor :: "GenerationLeases \<Rightarrow> u64 \<Rightarrow> u64 \<Rightarrow> u64" where
  "reclaimFloor leases currentGeneration oldestRecoveryGeneration =
     min (Minimum (Some leases) currentGeneration) oldestRecoveryGeneration"

definition takeReusable :: "ExtentReclaimer \<Rightarrow> FreeExtent list \<Rightarrow> u64 \<Rightarrow> ExtentReclaimer \<times> FreeExtent list" where
  "takeReusable r dst floor =
     (let (dst, kept) = foldl (\<lambda>(dst, kept) extent.
            if fe_RetiredGeneration extent < floor then (dst @ [extent], kept) else (dst, kept @ [extent]))
            (dst, []) (er_pending r)
      in (r\<lparr>er_pending := kept\<rparr>, dst))"

definition AppendReusable ::
  "ExtentReclaimer option \<Rightarrow> GenerationLeases \<Rightarrow> FreeExtent list \<Rightarrow> u64 \<Rightarrow> u64 \<Rightarrow> ExtentReclaimer option \<times> FreeExtent list" where
  "AppendReusable reclaimer leases dst currentGeneration oldestRecoveryGeneration =
     (case reclaimer of
        None \<Rightarrow> (None, dst)
      | Some r \<Rightarrow>
          let (r, dst) = takeReusable r dst (reclaimFloor leases currentGeneration oldestRecoveryGeneration)
          in (Some r, dst))"

definition reclaimerStats :: "ExtentReclaimer option \<Rightarrow> ExtentReclaimerStats" where
  "reclaimerStats reclaimer =
     (case reclaimer of
        None \<Rightarrow> \<lparr>xs_Capacity = 0, xs_Pending = 0, xs_PendingBytes = 0, xs_OldestRetired = 0\<rparr>
      | Some r \<Rightarrow>
          foldl (\<lambda>stats extent.
              let stats = stats\<lparr>xs_PendingBytes := xs_PendingBytes stats + fe_Length extent\<rparr> in
              if xs_OldestRetired stats = 0 \<or> fe_RetiredGeneration extent < xs_OldestRetired stats
              then stats\<lparr>xs_OldestRetired := fe_RetiredGeneration extent\<rparr> else stats)
            \<lparr>xs_Capacity = of_nat (er_limit r), xs_Pending = of_nat (length (er_pending r)),
              xs_PendingBytes = 0, xs_OldestRetired = 0\<rparr> (er_pending r))"

section \<open>The store around them\<close>

text \<open>The part of a \<^verbatim>\<open>FileStore\<close> that the leases and the reclaimer depend on. \<open>st_reusable\<close> collects every
  extent ever handed back, so that a statement about it covers all later uses of the extent;
  \<open>st_floor\<close> is the floor of an \<^verbatim>\<open>AppendReusable\<close> between its two halves; \<open>st_roots\<close> are the generations of
  the superblocks in the two fixed slots of the file, zero for none.\<close>

record store_state =
  st_current :: u64
  st_durable :: u64
  st_roots :: "u64 list"
  st_leases :: GenerationLeases
  st_held :: "GenerationLease set"
  st_reclaimer :: ExtentReclaimer
  st_reusable :: "FreeExtent list"
  st_floor :: "u64 option"

definition oldestRecovery :: "u64 \<Rightarrow> u64" where
  "oldestRecovery durable = (if durable > 1 then durable - 1 else 1)"

definition rootSlot :: "u64 \<Rightarrow> nat" where
  "rootSlot generation = unat ((generation - 1) AND (superblockCopies - 1))"

text \<open>Readers and the device run at any moment; the writer's steps are serialised, so none of them happens
  between the halves of \<^verbatim>\<open>AppendReusable\<close>.
  \<^item> \<open>snapshot\<close> is \<^verbatim>\<open>Snapshot\<close>: \<^verbatim>\<open>snapshotGate\<close> makes its load of the current state and its \<^verbatim>\<open>Acquire\<close> atomic
    with respect to publications. \<open>close_snapshot\<close> is \<^verbatim>\<open>FileSnapshot.Close\<close>.
  \<^item> \<open>retire\<close> reserves the pages a transaction replaces (\<^verbatim>\<open>reserveFileRetirements\<close>), with the generation
    of the current state; \<open>cancel\<close> is the rollback of an aborted transaction, \<open>publish\<close> the store of the
    next state.
  \<^item> \<open>commit\<close> is the committer making a published generation durable: it groups up to \<^verbatim>\<open>GroupLimit\<close> adjacent
    generations and writes the superblock of the newest one into that generation's slot.
  \<^item> \<open>reclaim_floor\<close> and \<open>reclaim_take\<close> are the \<^verbatim>\<open>AppendReusable\<close> of \<^verbatim>\<open>refreshReusable\<close>.\<close>

inductive store_step :: "nat \<Rightarrow> store_state \<Rightarrow> store_state \<Rightarrow> bool" for limit where
  snapshot: "Acquire (Some (st_leases s)) (st_current s) = Inr (l, h) \<Longrightarrow>
     store_step limit s (s\<lparr>st_leases := l, st_held := insert h (st_held s)\<rparr>)"
| close_snapshot: "h \<in> st_held s \<Longrightarrow> Release (st_leases s) (Some h) = (l, h') \<Longrightarrow>
     store_step limit s (s\<lparr>st_leases := l, st_held := st_held s - {h}\<rparr>)"
| retire: "st_floor s = None \<Longrightarrow> \<forall>e \<in> set extents. fe_RetiredGeneration e = st_current s \<Longrightarrow>
     RetireBatch (Some (st_reclaimer s)) extents = Inr r \<Longrightarrow> store_step limit s (s\<lparr>st_reclaimer := r\<rparr>)"
| cancel: "st_floor s = None \<Longrightarrow> CancelRetiredGeneration (Some (st_reclaimer s)) (st_current s) = Inr r \<Longrightarrow>
     store_step limit s (s\<lparr>st_reclaimer := r\<rparr>)"
| publish: "st_floor s = None \<Longrightarrow> st_current s + 1 \<noteq> 0 \<Longrightarrow>
     store_step limit s (s\<lparr>st_current := st_current s + 1\<rparr>)"
| commit: "st_durable s < d \<Longrightarrow> d \<le> st_current s \<Longrightarrow> unat d - unat (st_durable s) \<le> limit \<Longrightarrow>
     store_step limit s (s\<lparr>st_durable := d, st_roots := (st_roots s)[rootSlot d := d]\<rparr>)"
| reclaim_floor: "st_floor s = None \<Longrightarrow>
     store_step limit s (s\<lparr>st_floor := Some (reclaimFloor (st_leases s) (st_current s) (oldestRecovery (st_durable s)))\<rparr>)"
| reclaim_take: "st_floor s = Some floor \<Longrightarrow> takeReusable (st_reclaimer s) (st_reusable s) floor = (r, dst) \<Longrightarrow>
     store_step limit s (s\<lparr>st_reclaimer := r, st_reusable := dst, st_floor := None\<rparr>)"
| shut: "leasesClose (Some (st_leases s)) = (Some l, e) \<Longrightarrow> store_step limit s (s\<lparr>st_leases := l\<rparr>)"

definition opened :: "store_state \<Rightarrow> bool" where
  "opened s \<longleftrightarrow> (\<exists>maxLeases maxRetired.
     NewGenerationLeases maxLeases = Inr (st_leases s) \<and>
     NewExtentReclaimer (Some (st_leases s)) maxRetired = Inr (st_reclaimer s)) \<and>
     st_held s = {} \<and> st_reusable s = [] \<and> st_floor s = None \<and>
     0 < st_current s \<and> st_durable s = st_current s \<and>
     length (st_roots s) = 2 \<and> st_roots s ! rootSlot (st_current s) = st_current s"

inductive reachable :: "nat \<Rightarrow> store_state \<Rightarrow> bool" for limit where
  reach_open: "opened s \<Longrightarrow> reachable limit s"
| reach_step: "reachable limit s \<Longrightarrow> store_step limit s t \<Longrightarrow> reachable limit t"

end
