(* ===== verification/LeasesCorrect.thy ===== *)
theory LeasesCorrect
  imports Leases FreeDirectoryCorrect
begin

unbundle bit_operations_syntax

text \<open>
  Correctness of the lease table and the reclaimer of theory \<open>Leases\<close>. The locale \<open>lease_table\<close> is what
  the reclaimer relies on: the leases in force, how \<^verbatim>\<open>Acquire\<close> and \<^verbatim>\<open>Release\<close> change them, and that
  \<^verbatim>\<open>Minimum\<close> is their floor. The invariant of the store's step relation then gives that a page handed back
  for reuse is out of reach of every snapshot and of both recovery roots, and that no retired page waits
  for ever.
\<close>

section \<open>The interface of the lease table\<close>

locale lease_table =
  fixes ok :: "'l \<Rightarrow> bool" and held :: "'l \<Rightarrow> GenerationLease set"
    and acquire :: "'l \<Rightarrow> u64 \<Rightarrow> io_error + ('l \<times> GenerationLease)"
    and release :: "'l \<Rightarrow> GenerationLease \<Rightarrow> 'l" and minimum :: "'l \<Rightarrow> u64 \<Rightarrow> u64"
  assumes acquire_held: "ok l \<Longrightarrow> acquire l g = Inr (l', h) \<Longrightarrow>
      ok l' \<and> h \<notin> held l \<and> held l' = insert h (held l) \<and> lh_generation h = g"
    and release_held: "ok l \<Longrightarrow> h \<in> held l \<Longrightarrow> ok (release l h) \<and> held (release l h) = held l - {h}"
    and minimum_le: "ok l \<Longrightarrow> h \<in> held l \<Longrightarrow> minimum l c \<le> lh_generation h"
    and minimum_none: "ok l \<Longrightarrow> held l = {} \<Longrightarrow> minimum l c = generationSuccessor c"
begin

lemma floor_protects:
  assumes "ok l" "h \<in> held l" "g < min (minimum l c) oldest"
  shows "g < lh_generation h"
  using minimum_le [OF assms(1,2), of c] assms(3) by (auto intro: less_le_trans)

lemma acquire_release: "ok l \<Longrightarrow> acquire l g = Inr (l', h) \<Longrightarrow> held (release l' h) = held l"
  using acquire_held [of l g l' h] release_held [of l' h] by auto

lemma acquire_floor:
  assumes "ok l" "acquire l g = Inr (l', h)"
  shows "minimum l' c \<le> g"
  using acquire_held [OF assms] minimum_le [of l' h c] by auto

end

section \<open>The table\<close>

definition leases_of :: "GenerationLeases \<Rightarrow> GenerationLease set" where
  "leases_of l = {h. lh_owner h \<and> unat (lh_index h) < length (gl_slots l) \<and>
     gl_slots l ! unat (lh_index h) = \<lparr>ls_generation = lh_generation h, ls_token = lh_token h, ls_active = True\<rparr>}"

definition lease_table_ok :: "GenerationLeases \<Rightarrow> bool" where
  "lease_table_ok l \<longleftrightarrow> length (gl_slots l) \<le> 2 ^ 20 \<and> distinct (gl_free l) \<and>
     set (gl_free l) = {i. unat i < length (gl_slots l) \<and> \<not> ls_active (gl_slots l ! unat i)}"

lemma NewGenerationLeases_ok:
  assumes "NewGenerationLeases n = Inr l"
  shows "lease_table_ok l" "leases_of l = {}"
proof -
  obtain m where m: "normalizedLeases n = Inr m" using assms
    by (auto simp: NewGenerationLeases_def split: sum.splits)
  then have le: "m \<le> 2 ^ 20"
    by (auto simp: normalizedLeases_def Let_def push_bit_eq_mult split: if_splits)
  have l: "gl_slots l = replicate m zeroSlot" "gl_free l = map (\<lambda>i. of_nat (m - 1 - i)) [0..<m]"
    using assms m by (auto simp: NewGenerationLeases_def)
  have un: "unat (of_nat k :: u32) = k" if "k < m" for k
    by (subst unat_of_nat) (use that le in simp)
  have "inj_on (\<lambda>i. of_nat (m - 1 - i) :: u32) (set [0..<m])"
  proof (rule inj_onI)
    fix i j assume "i \<in> set [0..<m]" "j \<in> set [0..<m]" "(of_nat (m - 1 - i) :: u32) = of_nat (m - 1 - j)"
    then show "i = j" using un [of "m - 1 - i"] un [of "m - 1 - j"] by auto
  qed
  then have d: "distinct (gl_free l)" by (simp add: l distinct_map)
  have "(\<lambda>i. of_nat (m - 1 - i) :: u32) ` {0..<m} = {i. unat i < m}"
  proof (rule set_eqI, rule iffI)
    fix x :: u32 assume "x \<in> {i. unat i < m}"
    then have "x = of_nat (m - 1 - (m - 1 - unat x))" "m - 1 - unat x \<in> {0..<m}" by auto
    then show "x \<in> (\<lambda>i. of_nat (m - 1 - i)) ` {0..<m}" by blast
  next
    fix x :: u32 assume "x \<in> (\<lambda>i. of_nat (m - 1 - i)) ` {0..<m}"
    then show "x \<in> {i. unat i < m}" by (auto simp: un simp del: of_nat_diff)
  qed
  then show "lease_table_ok l" using d le by (auto simp: lease_table_ok_def l zeroSlot_def)
  show "leases_of l = {}" by (auto simp: leases_of_def l zeroSlot_def)
qed

lemma Acquire_held:
  assumes "lease_table_ok l" "Acquire (Some l) g = Inr (l', h)"
  shows "lease_table_ok l' \<and> h \<notin> leases_of l \<and> leases_of l' = insert h (leases_of l) \<and> lh_generation h = g"
proof -
  define i where "i = last (gl_free l)"
  have ne: "gl_free l \<noteq> []" using assms(2) by (auto simp: Acquire_def split: if_splits)
  then have "i \<in> set (gl_free l)" by (simp add: i_def)
  then have i: "unat i < length (gl_slots l)" "\<not> ls_active (gl_slots l ! unat i)"
    using assms(1) by (auto simp: lease_table_ok_def)
  obtain t where l': "l' = l\<lparr>gl_free := butlast (gl_free l), gl_next := t,
        gl_slots := (gl_slots l)[unat i := \<lparr>ls_generation = g, ls_token = t, ls_active = True\<rparr>]\<rparr>"
    and h: "h = \<lparr>lh_owner = True, lh_index = i, lh_generation = g, lh_token = t\<rparr>"
    using assms(2) by (auto simp: Acquire_def Let_def i_def split: if_splits)
  have snoc: "gl_free l = butlast (gl_free l) @ [i]" using ne by (simp add: i_def)
  then have d: "distinct (butlast (gl_free l) @ [i])" using assms(1) by (simp add: lease_table_ok_def)
  have "set (butlast (gl_free l)) = set (gl_free l) - {i}" using d by (subst (2) snoc) auto
  then have "lease_table_ok l'" using assms(1) d i by (auto simp: lease_table_ok_def l' nth_list_update word_unat_eq_iff)
  moreover have "x \<in> leases_of l' \<longleftrightarrow> x = h \<or> x \<in> leases_of l" for x
    by (cases x) (use i in \<open>auto simp: leases_of_def l' h nth_list_update word_unat_eq_iff\<close>)
  ultimately show ?thesis using i by (auto simp: leases_of_def h)
qed

lemma leases_of_index: "x \<in> leases_of l \<Longrightarrow> y \<in> leases_of l \<Longrightarrow> lh_index x = lh_index y \<Longrightarrow> x = y"
  by (auto simp: leases_of_def intro: GenerationLease.equality)

lemma releaseSlot_held:
  assumes "lease_table_ok l" "h \<in> leases_of l"
  shows "lease_table_ok (releaseSlot l (lh_index h) (lh_token h)) \<and>
    leases_of (releaseSlot l (lh_index h) (lh_token h)) = leases_of l - {h}"
proof -
  let ?i = "lh_index h"
  have i: "unat ?i < length (gl_slots l)" and s: "gl_slots l ! unat ?i =
      \<lparr>ls_generation = lh_generation h, ls_token = lh_token h, ls_active = True\<rparr>" and o: "lh_owner h"
    using assms(2) by (auto simp: leases_of_def)
  define l' where "l' = l\<lparr>gl_slots := (gl_slots l)[unat ?i := zeroSlot], gl_free := gl_free l @ [?i]\<rparr>"
  have r: "releaseSlot l ?i (lh_token h) = l'" using i s by (simp add: releaseSlot_def l'_def)
  have "?i \<notin> set (gl_free l)" using assms(1) s by (auto simp: lease_table_ok_def)
  moreover have "(gl_slots l)[unat ?i := zeroSlot] ! unat j = (if j = ?i then zeroSlot else gl_slots l ! unat j)" for j :: u32
    using i by (simp add: nth_list_update word_unat_eq_iff)
  ultimately have "lease_table_ok l'" using assms(1) i
    by (auto simp: lease_table_ok_def l'_def zeroSlot_def)
  moreover have "x \<in> leases_of l' \<longleftrightarrow> x \<in> leases_of l - {h}" for x
  proof (cases "unat (lh_index x) = unat ?i")
    case True
    then have "x \<notin> leases_of l'" using i by (simp add: leases_of_def l'_def zeroSlot_def)
    moreover have "x = h" if "x \<in> leases_of l"
      using leases_of_index [OF that assms(2)] True by (simp add: word_unat_eq_iff)
    ultimately show ?thesis by blast
  qed (auto simp: leases_of_def l'_def)
  ultimately show ?thesis using r by blast
qed

lemma minimum_fold:
  "foldl (\<lambda>m s. if ls_active s \<and> ls_generation s < m then ls_generation s else m) c ss =
   Min (insert c (ls_generation ` {s \<in> set ss. ls_active s}))"
proof -
  let ?f = "\<lambda>m s. if ls_active s \<and> ls_generation s < m then ls_generation s else m"
  have "foldl ?f c ss \<in> insert c (ls_generation ` {s \<in> set ss. ls_active s}) \<and>
      foldl ?f c ss \<le> c \<and> (\<forall>s \<in> set ss. ls_active s \<longrightarrow> foldl ?f c ss \<le> ls_generation s)"
  proof (induction ss arbitrary: c)
    case (Cons s ss)
    show ?case using Cons [of "?f c s"] by (auto split: if_splits)
  qed simp
  then show ?thesis by (intro Min_eqI [symmetric]) auto
qed

lemma leases_of_generations:
  "length (gl_slots l) \<le> 2 ^ 32 \<Longrightarrow> lh_generation ` leases_of l = ls_generation ` {s \<in> set (gl_slots l). ls_active s}"
proof (rule set_eqI, rule iffI)
  fix g assume len: "length (gl_slots l) \<le> 2 ^ 32" and "g \<in> ls_generation ` {s \<in> set (gl_slots l). ls_active s}"
  then obtain i where i: "i < length (gl_slots l)" "ls_active (gl_slots l ! i)" "g = ls_generation (gl_slots l ! i)"
    by (auto simp: in_set_conv_nth)
  have "unat (of_nat i :: u32) = i" by (subst unat_of_nat) (use i len in simp)
  then have "\<lparr>lh_owner = True, lh_index = of_nat i, lh_generation = g, lh_token = ls_token (gl_slots l ! i)\<rparr> \<in> leases_of l"
    using i by (simp add: leases_of_def)
  then show "g \<in> lh_generation ` leases_of l" by (rule rev_image_eqI) simp
qed (auto simp: leases_of_def intro!: rev_image_eqI [OF _ ] dest: nth_mem)

lemma Minimum_leases:
  "lease_table_ok l \<Longrightarrow> Minimum (Some l) c = Min (insert (generationSuccessor c) (lh_generation ` leases_of l))"
  by (simp add: Minimum_def minimum_fold leases_of_generations lease_table_ok_def)

lemma finite_leases_of: "finite (leases_of l)"
proof -
  have "inj_on lh_index (leases_of l)" by (rule inj_onI) (rule leases_of_index)
  moreover have "lh_index ` leases_of l \<subseteq> UNIV" by simp
  ultimately show ?thesis by (meson finite finite_imageD)
qed

interpretation leases: lease_table lease_table_ok leases_of "\<lambda>l. Acquire (Some l)"
  "\<lambda>l h. fst (Release l (Some h))" "\<lambda>l. Minimum (Some l)"
proof unfold_locales
  fix l h c assume l: "lease_table_ok l"
  show "Minimum (Some l) c \<le> lh_generation h" if "h \<in> leases_of l"
    using that finite_leases_of by (simp add: Minimum_leases [OF l])
  show "Minimum (Some l) c = generationSuccessor c" if "leases_of l = {}"
    using that by (simp add: Minimum_leases [OF l])
  show "lease_table_ok (fst (Release l (Some h))) \<and> leases_of (fst (Release l (Some h))) = leases_of l - {h}"
    if "h \<in> leases_of l" using releaseSlot_held [OF l that] that by (simp add: Release_def leases_of_def)
qed (rule Acquire_held)

section \<open>Retired extents\<close>

definition extent_range :: "FreeExtent \<Rightarrow> nat set" where
  "extent_range e = {unat (fe_Offset e) ..< unat (fe_Offset e) + unat (fe_Length e)}"

definition no_wrap :: "FreeExtent \<Rightarrow> bool" where
  "no_wrap e \<longleftrightarrow> unat (fe_Offset e) + unat (fe_Length e) < 2 ^ 64"

definition retired_ok :: "FreeExtent list \<Rightarrow> bool" where
  "retired_ok es \<longleftrightarrow> (\<forall>e \<in> set es. no_wrap e) \<and> sorted_wrt (\<lambda>a b. extent_range a \<inter> extent_range b = {}) es"

lemma no_wrap_iff: "fe_Offset e \<le> NOT 0 - fe_Length e \<longleftrightarrow> no_wrap e"
proof -
  have "unat (NOT 0 - fe_Length e) = 2 ^ 64 - 1 - unat (fe_Length e)"
    by (subst unat_sub) (simp_all add: unsigned_minus_1_eq_mask mask_eq_exp_minus_1)
  then show ?thesis using unsigned_less [of "fe_Length e", where ?'a = nat]
    by (auto simp: no_wrap_def word_le_nat_alt)
qed

lemma overlaps_iff:
  assumes "no_wrap a" "no_wrap b" "fe_Length a \<noteq> 0" "fe_Length b \<noteq> 0"
  shows "overlaps a b \<longleftrightarrow> extent_range a \<inter> extent_range b \<noteq> {}"
proof -
  have e: "unat (fe_Offset x + fe_Length x) = unat (fe_Offset x) + unat (fe_Length x)" if "no_wrap x" for x
    using that by (simp add: no_wrap_def unat_word_ariths)
  have p: "0 < unat (fe_Length a)" "0 < unat (fe_Length b)" using assms(3,4) by (simp_all add: unat_gt_0)
  have "overlaps a b \<longleftrightarrow> unat (fe_Offset a) < unat (fe_Offset b) + unat (fe_Length b) \<and>
      unat (fe_Offset b) < unat (fe_Offset a) + unat (fe_Length a)"
    by (simp add: overlaps_def word_less_nat_alt e assms(1,2))
  also have "\<dots> \<longleftrightarrow> extent_range a \<inter> extent_range b \<noteq> {}"
    using p by (auto simp: extent_range_def not_less Int_atLeastLessThan max_def min_def)
  finally show ?thesis .
qed

lemma empty_range: "fe_Length e = 0 \<Longrightarrow> extent_range e = {}"
  by (simp add: extent_range_def)

lemma checkRetired_ok:
  "checkRetired pending earlier es = None \<Longrightarrow> retired_ok (pending @ earlier) \<Longrightarrow> retired_ok (pending @ earlier @ es)"
proof (induction pending earlier es rule: checkRetired.induct)
  case (2 pending earlier e es)
  from 2(2) have e: "no_wrap e" "fe_Length e \<noteq> 0" and rest: "checkRetired pending (earlier @ [e]) es = None"
    and no: "\<forall>x \<in> set pending \<union> set earlier. \<not> overlaps e x"
    by (auto simp: no_wrap_iff [symmetric] not_less list_ex_iff split: if_splits)
  have "extent_range x \<inter> extent_range e = {}" if "x \<in> set pending \<union> set earlier" for x
    using overlaps_iff [of e x] no that 2(3) e empty_range [of x] by (cases "fe_Length x = 0") (auto simp: retired_ok_def)
  then have "retired_ok (pending @ earlier @ [e])"
    using 2(3) e by (auto simp: retired_ok_def sorted_wrt_append)
  then show ?case using 2(1) rest 2(2) by (auto split: if_splits)
qed simp

lemma RetireBatch_cases:
  assumes "RetireBatch (Some r) es = Inr r'"
  shows "r' = r\<lparr>er_pending := er_pending r @ es\<rparr>" "retired_ok (er_pending r) \<Longrightarrow> retired_ok (er_pending r')"
  using assms checkRetired_ok [of "er_pending r" "[]" es]
  by (auto simp: RetireBatch_def split: if_splits option.splits)

lemma CancelRetired_cases:
  assumes "CancelRetiredGeneration (Some r) g = Inr r'"
  obtains k where "r' = r\<lparr>er_pending := take k (er_pending r)\<rparr>"
  using assms by (auto simp: CancelRetiredGeneration_def Let_def split: if_splits)

lemma takeReusable_eq:
  "takeReusable r dst floor =
     (r\<lparr>er_pending := filter (\<lambda>e. \<not> fe_RetiredGeneration e < floor) (er_pending r)\<rparr>,
      dst @ filter (\<lambda>e. fe_RetiredGeneration e < floor) (er_pending r))"
proof -
  have "foldl (\<lambda>(dst, kept) e. if fe_RetiredGeneration e < floor then (dst @ [e], kept) else (dst, kept @ [e])) (dst, kept) es =
      (dst @ filter (\<lambda>e. fe_RetiredGeneration e < floor) es, kept @ filter (\<lambda>e. \<not> fe_RetiredGeneration e < floor) es)"
    for kept es by (induction es arbitrary: dst kept) auto
  then show ?thesis by (simp add: takeReusable_def)
qed

lemma sorted_wrt_filter_take:
  assumes "retired_ok es"
  shows "retired_ok (filter P es)" "retired_ok (take k es)"
  using assms by (auto simp: retired_ok_def sorted_wrt_filter sorted_wrt_take dest: in_set_takeD)

section \<open>The invariant of the store\<close>

definition beyond :: "u64 \<Rightarrow> store_state \<Rightarrow> bool" where
  "beyond g s \<longleftrightarrow> g \<le> oldestRecovery (st_durable s) \<and> (\<forall>h \<in> st_held s. g \<le> lh_generation h)"

definition reclaimed :: "u64 \<Rightarrow> store_state \<Rightarrow> bool" where
  "reclaimed g s \<longleftrightarrow> 0 < g \<and> g < oldestRecovery (st_durable s) \<and> (\<forall>h \<in> st_held s. g < lh_generation h)"

definition store_inv :: "store_state \<Rightarrow> bool" where
  "store_inv s \<longleftrightarrow> lease_table_ok (st_leases s) \<and> leases_of (st_leases s) = st_held s \<and>
     0 < st_durable s \<and> st_durable s \<le> st_current s \<and>
     retired_ok (er_pending (st_reclaimer s)) \<and>
     (\<forall>e \<in> set (er_pending (st_reclaimer s)).
       0 < fe_RetiredGeneration e \<and> fe_RetiredGeneration e \<le> st_current s) \<and>
     (\<forall>e \<in> set (st_reusable s). reclaimed (fe_RetiredGeneration e) s) \<and>
     (\<forall>floor. st_floor s = Some floor \<longrightarrow> beyond floor s)"

lemma oldestRecovery_le: "0 < d \<Longrightarrow> oldestRecovery d \<le> d"
  by (auto simp: oldestRecovery_def word_le_nat_alt word_less_nat_alt unat_sub)

lemma oldestRecovery_mono: "d \<le> d' \<Longrightarrow> oldestRecovery d \<le> oldestRecovery d'"
  by (auto simp: oldestRecovery_def word_le_nat_alt word_less_nat_alt unat_sub)

lemma generationSuccessor_ge: "c \<le> generationSuccessor c"
  using unatSuc [of c] by (auto simp: generationSuccessor_def word_le_nat_alt add.commute eq_neg_iff_add_eq_0)

lemma floor_beyond:
  assumes "store_inv s"
  shows "beyond (reclaimFloor (st_leases s) (st_current s) (oldestRecovery (st_durable s))) s"
  using assms leases.minimum_le [of "st_leases s" _ "st_current s"]
  by (auto simp: beyond_def reclaimFloor_def store_inv_def intro: min.coboundedI1)

lemma beyond_snapshot:
  assumes "store_inv s" "Acquire (Some (st_leases s)) (st_current s) = Inr (l, h)"
  shows "store_inv (s\<lparr>st_leases := l, st_held := insert h (st_held s)\<rparr>)"
proof -
  have h: "lh_generation h = st_current s" "lease_table_ok l" "leases_of l = insert h (st_held s)"
    using leases.acquire_held [OF _ assms(2)] assms(1) by (auto simp: store_inv_def)
  have "oldestRecovery (st_durable s) \<le> st_current s"
    using oldestRecovery_le [of "st_durable s"] assms(1) by (auto simp: store_inv_def)
  then show ?thesis using assms(1) h by (auto simp: store_inv_def beyond_def reclaimed_def intro: less_le_trans)
qed

lemma beyond_release:
  assumes "store_inv s" "h \<in> st_held s" "Release (st_leases s) (Some h) = (l, h')"
  shows "store_inv (s\<lparr>st_leases := l, st_held := st_held s - {h}\<rparr>)"
  using assms leases.release_held [of "st_leases s" h] by (auto simp: store_inv_def beyond_def reclaimed_def)

lemma beyond_commit:
  assumes "store_inv s" "st_durable s < d" "d \<le> st_current s"
  shows "store_inv (s\<lparr>st_durable := d, st_roots := roots\<rparr>)"
  using assms oldestRecovery_mono [of "st_durable s" d]
  by (auto simp: store_inv_def beyond_def reclaimed_def intro: less_le_trans order_trans)

lemma beyond_take:
  assumes "store_inv s" "st_floor s = Some floor" "takeReusable (st_reclaimer s) (st_reusable s) floor = (r, dst)"
  shows "store_inv (s\<lparr>st_reclaimer := r, st_reusable := dst, st_floor := None\<rparr>)"
  using assms sorted_wrt_filter_take(1) [of "er_pending (st_reclaimer s)"]
  by (auto simp: takeReusable_eq store_inv_def beyond_def reclaimed_def) (meson less_le_trans)+

lemma leasesClose_table:
  assumes "leasesClose (Some l) = (Some l', err)"
  shows "lease_table_ok l' = lease_table_ok l" "leases_of l' = leases_of l"
  using assms by (auto simp: leasesClose_def Let_def lease_table_ok_def leases_of_def split: if_splits)

lemma store_step_inv: "store_step limit s t \<Longrightarrow> store_inv s \<Longrightarrow> store_inv t"
proof (induction rule: store_step.induct)
  case (retire s es r)
  then show ?case using RetireBatch_cases [OF retire(3)] by (auto simp: store_inv_def beyond_def reclaimed_def)
next
  case (cancel s r)
  from cancel(2) obtain k where "r = (st_reclaimer s)\<lparr>er_pending := take k (er_pending (st_reclaimer s))\<rparr>"
    by (rule CancelRetired_cases)
  then show ?case using cancel sorted_wrt_filter_take(2)
    by (auto simp: store_inv_def beyond_def reclaimed_def dest: in_set_takeD)
next
  case (publish s)
  have "st_current s \<le> st_current s + 1"
    using publish(2) unatSuc [of "st_current s"] by (simp add: word_le_nat_alt add.commute)
  then show ?case using publish by (auto simp: store_inv_def beyond_def reclaimed_def)
next
  case (reclaim_floor s)
  then show ?case using floor_beyond [of s] by (auto simp: store_inv_def beyond_def reclaimed_def)
next
  case (shut s l e)
  then show ?case using leasesClose_table [OF shut(1)] by (auto simp: store_inv_def beyond_def reclaimed_def)
qed (simp_all add: beyond_snapshot beyond_release beyond_commit beyond_take)

lemma NewExtentReclaimer_pending: "NewExtentReclaimer l n = Inr r \<Longrightarrow> er_pending r = []"
  by (cases "normalizedRetired n") (auto simp: NewExtentReclaimer_def split: option.splits)

lemma opened_inv: "opened s \<Longrightarrow> store_inv s"
  by (auto simp: opened_def store_inv_def retired_ok_def NewGenerationLeases_ok dest: NewExtentReclaimer_pending)

lemma reachable_inv: "reachable limit s \<Longrightarrow> store_inv s"
  by (induction rule: reachable.induct) (auto intro: opened_inv store_step_inv)

text \<open>In every state that snapshots, retirements, publications, commits and reclamations can reach in any order, the free list of the lease table holds exactly the inactive slots, each once, the active slots are exactly the leases the readers hold, and the extents that wait for reclamation are pairwise disjoint.\<close>

theorem lease_table_invariant:
  assumes "reachable limit s"
  shows "distinct (gl_free (st_leases s)) \<and>
    set (gl_free (st_leases s)) = {i. unat i < length (gl_slots (st_leases s)) \<and> \<not> ls_active (gl_slots (st_leases s) ! unat i)} \<and>
    leases_of (st_leases s) = st_held s \<and>
    sorted_wrt (\<lambda>a b. extent_range a \<inter> extent_range b = {}) (er_pending (st_reclaimer s))"
  using reachable_inv [OF assms] by (simp add: store_inv_def lease_table_ok_def retired_ok_def)

text \<open>C12. A page is never reused under a reader: whatever happens between the two halves of a reclamation and after it, an extent that was handed back for reuse was retired before the generation of every snapshot that is open, and before the recovery floor (the generation before the durable one) that the store computes.\<close>

theorem reclaimed_unreachable:
  assumes "reachable limit s" "e \<in> set (st_reusable s)"
  shows "(\<forall>h \<in> st_held s. fe_RetiredGeneration e < lh_generation h) \<and>
    fe_RetiredGeneration e < oldestRecovery (st_durable s) \<and> fe_RetiredGeneration e < st_current s"
proof -
  have inv: "store_inv s" by (rule reachable_inv) (rule assms(1))
  then have "oldestRecovery (st_durable s) \<le> st_current s"
    using oldestRecovery_le [of "st_durable s"] by (auto simp: store_inv_def)
  then show ?thesis using inv assms(2) by (auto simp: store_inv_def reclaimed_def intro: less_le_trans)
qed

text \<open>A reclamation is exact: it keeps, in their order, the pending extents that a recovery root or an open snapshot may still reach, and hands back all the others.\<close>

theorem AppendReusable_exact:
  assumes "reachable limit s"
    and "AppendReusable (Some (st_reclaimer s)) (st_leases s) dst (st_current s) (oldestRecovery (st_durable s)) = (Some r, out)"
  defines "needed \<equiv> \<lambda>e. oldestRecovery (st_durable s) \<le> fe_RetiredGeneration e \<or>
    (\<exists>h \<in> st_held s. lh_generation h \<le> fe_RetiredGeneration e)"
  shows "er_pending r = filter needed (er_pending (st_reclaimer s)) \<and>
    out = dst @ filter (\<lambda>e. \<not> needed e) (er_pending (st_reclaimer s))"
proof -
  let ?floor = "reclaimFloor (st_leases s) (st_current s) (oldestRecovery (st_durable s))"
  have inv: "store_inv s" by (rule reachable_inv) (rule assms(1))
  then have d: "oldestRecovery (st_durable s) \<le> st_current s"
    using oldestRecovery_le [of "st_durable s"] by (auto simp: store_inv_def)
  have "fe_RetiredGeneration e < ?floor \<longleftrightarrow> \<not> needed e" if "e \<in> set (er_pending (st_reclaimer s))" for e
  proof -
    have le: "fe_RetiredGeneration e \<le> st_current s" using inv that by (auto simp: store_inv_def)
    have "fe_RetiredGeneration e < generationSuccessor (st_current s)"
      if "fe_RetiredGeneration e < oldestRecovery (st_durable s)"
    proof -
      have "fe_RetiredGeneration e < st_current s" using that d by (rule less_le_trans)
      then show ?thesis using unatSuc [of "st_current s"]
        by (auto simp: generationSuccessor_def word_less_nat_alt add.commute eq_neg_iff_add_eq_0)
    qed
    then show ?thesis using inv finite_leases_of
      by (auto simp: needed_def reclaimFloor_def store_inv_def Minimum_leases not_le)
  qed
  then show ?thesis using assms(2) by (auto simp: AppendReusable_def takeReusable_eq intro!: filter_cong)
qed

section \<open>No retired extent waits for ever\<close>

lemma release_all:
  assumes "store_inv s"
  shows "\<exists>l. (store_step limit)\<^sup>*\<^sup>* s (s\<lparr>st_leases := l, st_held := {}\<rparr>)"
  using assms
proof (induction "card (st_held s)" arbitrary: s)
  case 0
  have "finite (st_held s)" using 0(2) finite_leases_of [of "st_leases s"] by (simp add: store_inv_def)
  then have "s\<lparr>st_leases := st_leases s, st_held := {}\<rparr> = s" using 0(1) by simp
  then show ?case by (metis rtranclp.rtrancl_refl)
next
  case (Suc n)
  have fin: "finite (st_held s)" using Suc(3) finite_leases_of [of "st_leases s"] by (simp add: store_inv_def)
  obtain h where h: "h \<in> st_held s" using Suc(2) by (metis card.empty equals0I nat.distinct(1))
  obtain l h' where r: "Release (st_leases s) (Some h) = (l, h')" by fastforce
  let ?t = "s\<lparr>st_leases := l, st_held := st_held s - {h}\<rparr>"
  have step: "store_step limit s ?t" using h r by (rule close_snapshot)
  have "\<exists>l'. (store_step limit)\<^sup>*\<^sup>* ?t (?t\<lparr>st_leases := l', st_held := {}\<rparr>)"
    by (rule Suc(1)) (use Suc(2) fin h store_step_inv [OF step Suc(3)] in auto)
  then show ?case using step by (auto intro: converse_rtranclp_into_rtranclp)
qed

lemma finish_reclaim:
  "\<exists>t. (store_step limit)\<^sup>*\<^sup>* s t \<and> st_floor t = None \<and> st_current t = st_current s \<and>
     (\<forall>e \<in> set (er_pending (st_reclaimer s)). e \<in> set (er_pending (st_reclaimer t)) \<or> e \<in> set (st_reusable t))"
proof (cases "st_floor s")
  case (Some floor)
  obtain r dst where t: "takeReusable (st_reclaimer s) (st_reusable s) floor = (r, dst)" by fastforce
  have "store_step limit s (s\<lparr>st_reclaimer := r, st_reusable := dst, st_floor := None\<rparr>)"
    using Some t by (rule reclaim_take)
  then show ?thesis using t by (intro exI [of _ "s\<lparr>st_reclaimer := r, st_reusable := dst, st_floor := None\<rparr>"])
    (auto simp: takeReusable_eq)
qed blast

lemma commit_all:
  assumes "store_inv s" "0 < limit"
  shows "\<exists>roots. (store_step limit)\<^sup>*\<^sup>* s (s\<lparr>st_durable := st_current s, st_roots := roots\<rparr>)"
  using assms(1)
proof (induction "unat (st_current s) - unat (st_durable s)" arbitrary: s)
  case 0
  then have "st_durable s = st_current s" by (auto simp: store_inv_def word_le_nat_alt word_unat_eq_iff)
  then have "s\<lparr>st_durable := st_current s, st_roots := st_roots s\<rparr> = s" by simp
  then show ?case by (metis rtranclp.rtrancl_refl)
next
  case (Suc n)
  let ?d = "st_durable s + 1"
  have lt: "unat (st_durable s) < unat (st_current s)" using Suc(2) by simp
  then have u: "unat ?d = unat (st_durable s) + 1"
    using unsigned_less [of "st_current s", where ?'a = nat] by (subst unat_word_ariths) simp
  let ?t = "s\<lparr>st_durable := ?d, st_roots := (st_roots s)[rootSlot ?d := ?d]\<rparr>"
  have step: "store_step limit s ?t"
    by (rule commit) (use u lt assms(2) in \<open>auto simp: word_less_nat_alt word_le_nat_alt\<close>)
  have "\<exists>roots. (store_step limit)\<^sup>*\<^sup>* ?t (?t\<lparr>st_durable := st_current ?t, st_roots := roots\<rparr>)"
    by (rule Suc(1)) (use Suc(2) u store_step_inv [OF step Suc(3)] in auto)
  then show ?case using step by (auto intro: converse_rtranclp_into_rtranclp)
qed

lemma advance_commit:
  assumes "store_inv s" "st_floor s = None" "unat (st_current s) + 2 < 2 ^ 64" "0 < limit"
  shows "\<exists>roots. (store_step limit)\<^sup>*\<^sup>* s
    (s\<lparr>st_current := st_current s + 2, st_durable := st_current s + 2, st_roots := roots\<rparr>)"
proof -
  let ?t = "s\<lparr>st_current := st_current s + 1\<rparr>" let ?u = "?t\<lparr>st_current := st_current s + 2\<rparr>"
  have u: "unat (st_current s + 1) = unat (st_current s) + 1" "unat (st_current s + 2) = unat (st_current s) + 2"
    using assms(3) by (simp_all add: unat_word_ariths)
  have p: "store_step limit s ?t" by (rule publish) (use assms(2) u(1) in \<open>auto simp: word_unat_eq_iff\<close>)
  have "store_step limit ?t (?t\<lparr>st_current := st_current ?t + 1\<rparr>)"
    by (rule publish) (use assms(2) u(2) in \<open>auto simp: word_unat_eq_iff add.assoc\<close>)
  then have q: "store_step limit ?t ?u" by (simp add: add.assoc)
  have "store_inv ?u" using store_step_inv [OF q] store_step_inv [OF p] assms(1) by blast
  then have "\<exists>roots. (store_step limit)\<^sup>*\<^sup>* ?u (?u\<lparr>st_durable := st_current ?u, st_roots := roots\<rparr>)"
    using assms(4) by (rule commit_all)
  then show ?thesis using p q by auto (meson converse_rtranclp_into_rtranclp)
qed

lemma reclaim_now:
  assumes "store_inv s" "st_floor s = None" "st_held s = {}" "e \<in> set (er_pending (st_reclaimer s))"
    and "fe_RetiredGeneration e < oldestRecovery (st_durable s)"
  shows "\<exists>t. (store_step limit)\<^sup>*\<^sup>* s t \<and> e \<in> set (st_reusable t)"
proof -
  let ?f = "reclaimFloor (st_leases s) (st_current s) (oldestRecovery (st_durable s))"
  have "Minimum (Some (st_leases s)) (st_current s) = generationSuccessor (st_current s)"
    using assms(1,3) by (auto simp: store_inv_def intro: leases.minimum_none)
  moreover have "oldestRecovery (st_durable s) \<le> generationSuccessor (st_current s)"
    using oldestRecovery_le [of "st_durable s"] generationSuccessor_ge [of "st_current s"] assms(1)
    by (auto simp: store_inv_def)
  ultimately have f: "fe_RetiredGeneration e < ?f" using assms(5) by (simp add: reclaimFloor_def)
  let ?t = "s\<lparr>st_floor := Some ?f\<rparr>"
  have t: "store_step limit s ?t" using assms(2) by (rule reclaim_floor)
  obtain r dst where td: "takeReusable (st_reclaimer s) (st_reusable s) ?f = (r, dst)" by fastforce
  have "store_step limit ?t (?t\<lparr>st_reclaimer := r, st_reusable := dst, st_floor := None\<rparr>)"
    by (rule reclaim_take) (use td in simp_all)
  moreover have "e \<in> set dst" using td assms(4) f by (auto simp: takeReusable_eq)
  ultimately show ?thesis using t
    by (intro exI [of _ "?t\<lparr>st_reclaimer := r, st_reusable := dst, st_floor := None\<rparr>"])
      (auto intro: converse_rtranclp_into_rtranclp)
qed

lemma steps_inv: "(store_step limit)\<^sup>*\<^sup>* s t \<Longrightarrow> store_inv s \<Longrightarrow> store_inv t"
  by (induction rule: rtranclp_induct) (auto intro: store_step_inv)


section \<open>The recovery roots\<close>

definition roots_inv :: "store_state \<Rightarrow> bool" where
  "roots_inv s \<longleftrightarrow> length (st_roots s) = 2 \<and> st_roots s ! rootSlot (st_durable s) = st_durable s \<and>
     (st_roots s ! (1 - rootSlot (st_durable s)) = st_durable s - 1 \<or>
      (\<forall>e \<in> set (er_pending (st_reclaimer s)) \<union> set (st_reusable s). st_durable s \<le> fe_RetiredGeneration e))"

lemma rootSlot_mod: "0 < d \<Longrightarrow> rootSlot d = (unat d - 1) mod 2"
proof -
  assume "0 < d"
  then have "unat (d - 1) = unat d - 1" by (simp add: unat_minus_one word_gt_0)
  moreover have "rootSlot d = unat ((d - 1) mod 2)"
    by (simp add: rootSlot_def superblockCopies_def and_one_eq)
  ultimately show ?thesis by (simp add: unat_mod)
qed

lemma rootSlot_less: "0 < d \<Longrightarrow> rootSlot d < 2"
  by (simp add: rootSlot_mod)

lemma rootSlot_next:
  assumes "0 < d" "unat d' = unat d + 1"
  shows "rootSlot d' = 1 - rootSlot d" "d' - 1 = d"
proof -
  have "0 < d'" using assms(2) by (simp add: word_less_nat_alt)
  moreover have "0 < unat d" using assms(1) by (simp add: word_less_nat_alt)
  ultimately show "rootSlot d' = 1 - rootSlot d" using assms
    by (cases "unat d") (simp_all add: rootSlot_mod mod_Suc)
  show "d' - 1 = d" using assms(2) \<open>0 < d'\<close> by (simp add: word_unat_eq_iff unat_minus_one word_gt_0)
qed

lemma roots_step: "store_step 1 s t \<Longrightarrow> store_inv s \<Longrightarrow> roots_inv s \<Longrightarrow> roots_inv t"
proof (induction rule: store_step.induct)
  case (retire s es r)
  then show ?case using RetireBatch_cases [OF retire(3)] by (auto simp: roots_inv_def store_inv_def)
next
  case (cancel s r)
  from cancel(2) obtain k where "r = (st_reclaimer s)\<lparr>er_pending := take k (er_pending (st_reclaimer s))\<rparr>"
    by (rule CancelRetired_cases)
  then show ?case using cancel by (auto simp: roots_inv_def dest: in_set_takeD)
next
  case (reclaim_take s floor r dst)
  then show ?case by (auto simp: roots_inv_def takeReusable_eq)
next
  case (commit s d)
  have d: "0 < st_durable s" using commit(4) by (simp add: store_inv_def)
  have "unat d = unat (st_durable s) + 1" using commit(1,3) by (simp add: word_less_nat_alt)
  note n = rootSlot_next [OF d this]
  have "rootSlot (st_durable s) = 0 \<or> rootSlot (st_durable s) = 1" using rootSlot_less [OF d] by linarith
  then show ?case using commit(5) n by (auto simp: roots_inv_def nth_list_update)
qed (auto simp: roots_inv_def)

lemma reachable_roots: "reachable 1 s \<Longrightarrow> roots_inv s"
proof (induction rule: reachable.induct)
  case (reach_open s)
  then show ?case by (auto simp: opened_def roots_inv_def dest: NewExtentReclaimer_pending)
qed (auto intro: roots_step reachable_inv)

text \<open>C17. When every generation is committed on its own (a group limit of one), an extent handed back for reuse was retired before the generations of both superblocks of the file, so that neither recovery root reaches it.\<close>

theorem recovery_roots_protected:
  assumes "reachable 1 s" "e \<in> set (st_reusable s)" "g \<in> set (st_roots s)"
  shows "fe_RetiredGeneration e < g"
proof -
  have inv: "store_inv s" and r: "roots_inv s" using assms(1) by (auto intro: reachable_inv reachable_roots)
  have d: "0 < st_durable s" using inv by (simp add: store_inv_def)
  have lt: "fe_RetiredGeneration e < oldestRecovery (st_durable s)" using inv assms(2) by (auto simp: store_inv_def reclaimed_def)
  moreover have le: "oldestRecovery (st_durable s) \<le> st_durable s" using d by (rule oldestRecovery_le)
  ultimately have lt': "fe_RetiredGeneration e < st_durable s" by (rule less_le_trans)
  then have o: "st_roots s ! (1 - rootSlot (st_durable s)) = st_durable s - 1"
    using r assms(2) by (auto simp: roots_inv_def dest: leD)
  have "0 < fe_RetiredGeneration e" using inv assms(2) by (auto simp: store_inv_def reclaimed_def)
  then have "1 < st_durable s" using lt' by (simp add: word_less_nat_alt)
  then have "oldestRecovery (st_durable s) = st_durable s - 1" by (simp add: oldestRecovery_def)
  moreover obtain i where i: "i < 2" "g = st_roots s ! i" using assms(3) r by (auto simp: roots_inv_def in_set_conv_nth)
  moreover have "i = rootSlot (st_durable s) \<or> i = 1 - rootSlot (st_durable s)"
    using i(1) rootSlot_less [OF d] by linarith
  ultimately show ?thesis using lt lt' o r by (auto simp: roots_inv_def)
qed

section \<open>Two runs\<close>

text \<open>A store with one lease slot retires a page at generation 2 and publishes up to generation 5.\<close>

definition run_leases :: GenerationLeases where
  "run_leases = \<lparr>gl_slots = [zeroSlot], gl_free = [0], gl_next = 0, gl_closing = False, gl_closed = False\<rparr>"

definition run_extent :: FreeExtent where
  "run_extent = \<lparr>fe_Offset = 8192, fe_Length = 4096, fe_RetiredGeneration = 2\<rparr>"

definition run_state :: "u64 \<Rightarrow> u64 \<Rightarrow> u64 list \<Rightarrow> FreeExtent list \<Rightarrow> store_state" where
  "run_state current durable roots pending = \<lparr>st_current = current, st_durable = durable, st_roots = roots,
     st_leases = run_leases, st_held = {}, st_reclaimer = \<lparr>er_pending = pending, er_limit = 4\<rparr>,
     st_reusable = [], st_floor = None\<rparr>"

definition run_lease :: GenerationLease where
  "run_lease = \<lparr>lh_owner = True, lh_index = 0, lh_generation = 5, lh_token = 1\<rparr>"

definition run_end :: "u64 list \<Rightarrow> store_state" where
  "run_end roots = \<lparr>st_current = 5, st_durable = 5, st_roots = roots,
     st_leases = \<lparr>gl_slots = [\<lparr>ls_generation = 5, ls_token = 1, ls_active = True\<rparr>], gl_free = [], gl_next = 1,
       gl_closing = False, gl_closed = False\<rparr>,
     st_held = {run_lease}, st_reclaimer = \<lparr>er_pending = [], er_limit = 4\<rparr>, st_reusable = [run_extent], st_floor = None\<rparr>"

lemma run_opened: "reachable limit (run_state 1 1 [1, 0] [])"
proof (rule reach_open)
  have "NewGenerationLeases 1 = Inr run_leases"
    by (simp add: NewGenerationLeases_def normalizedLeases_def run_leases_def push_bit_eq_mult)
  moreover have "NewExtentReclaimer (Some run_leases) 4 = Inr \<lparr>er_pending = [], er_limit = 4\<rparr>"
    by (simp add: NewExtentReclaimer_def normalizedRetired_def push_bit_eq_mult)
  ultimately show "opened (run_state 1 1 [1, 0] [])"
    unfolding opened_def by (auto simp: run_state_def rootSlot_def superblockCopies_def)
qed

lemma run_publish:
  "reachable limit (run_state c d roots es) \<Longrightarrow> c + 1 \<noteq> 0 \<Longrightarrow> reachable limit (run_state (c + 1) d roots es)"
  using reach_step [OF _ publish [of "run_state c d roots es"]] by (simp add: run_state_def)

lemma run_commit:
  "reachable limit (run_state c d roots es) \<Longrightarrow> d < d' \<Longrightarrow> d' \<le> c \<Longrightarrow> unat d' - unat d \<le> limit \<Longrightarrow>
   reachable limit (run_state c d' (roots[rootSlot d' := d']) es)"
  using reach_step [OF _ commit [of "run_state c d roots es" d' limit]] by (simp add: run_state_def)

lemma run_retired: "0 < limit \<Longrightarrow> reachable limit (run_state 5 2 [1, 2] [run_extent])"
proof -
  assume l: "0 < limit"
  have 2: "reachable limit (run_state 2 1 [1, 0] [])" using run_publish [OF run_opened] by simp
  have "reachable limit (run_state 2 2 [1, 2] [])"
    using run_commit [OF 2, of 2] l by (simp add: rootSlot_def superblockCopies_def)
  moreover have "RetireBatch (Some \<lparr>er_pending = [], er_limit = 4\<rparr>) [run_extent] = Inr \<lparr>er_pending = [run_extent], er_limit = 4\<rparr>"
    by (simp add: RetireBatch_def run_extent_def)
  then have "store_step limit (run_state 2 2 [1, 2] []) (run_state 2 2 [1, 2] [run_extent])"
    using retire [of "run_state 2 2 [1, 2] []" "[run_extent]"] by (simp add: run_state_def run_extent_def)
  ultimately have "reachable limit (run_state 2 2 [1, 2] [run_extent])" by (rule reach_step)
  from run_publish [OF this] have "reachable limit (run_state 3 2 [1, 2] [run_extent])" by simp
  from run_publish [OF this] have "reachable limit (run_state 4 2 [1, 2] [run_extent])" by simp
  from run_publish [OF this] show ?thesis by simp
qed

lemma run_reached:
  assumes "reachable limit (run_state 5 5 roots [run_extent])"
  shows "reachable limit (run_end roots)"
proof -
  let ?s = "run_state 5 5 roots [run_extent]" let ?t = "?s\<lparr>st_floor := Some 4\<rparr>"
  have "reclaimFloor run_leases 5 (oldestRecovery 5) = 4"
    by (simp add: reclaimFloor_def Minimum_def run_leases_def zeroSlot_def oldestRecovery_def generationSuccessor_def min_def)
  then have "store_step limit ?s ?t" using reclaim_floor [of ?s] by (simp add: run_state_def)
  then have t: "reachable limit ?t" by (rule reach_step [OF assms])
  let ?l = "st_leases (run_end roots)" let ?u = "?t\<lparr>st_leases := ?l, st_held := {run_lease}\<rparr>"
  have "Acquire (Some run_leases) 5 = Inr (?l, run_lease)"
    by (simp add: Acquire_def run_leases_def run_end_def run_lease_def)
  then have "store_step limit ?t ?u" using snapshot [of ?t] by (simp add: run_state_def)
  then have u: "reachable limit ?u" by (rule reach_step [OF t])
  have "takeReusable \<lparr>er_pending = [run_extent], er_limit = 4\<rparr> [] 4 = (\<lparr>er_pending = [], er_limit = 4\<rparr>, [run_extent])"
    by (simp add: takeReusable_def run_extent_def)
  then have "store_step limit ?u (run_end roots)" using reclaim_take [of ?u 4] by (simp add: run_state_def run_end_def)
  then show ?thesis by (rule reach_step [OF u])
qed

text \<open>One commit for each generation.\<close>

lemma run_single: "reachable 1 (run_end [5, 4])"
proof -
  have "reachable 1 (run_state 5 3 [3, 2] [run_extent])"
    using run_commit [OF run_retired, of 1 3] by (simp add: rootSlot_def superblockCopies_def)
  from run_commit [OF this, of 4] have "reachable 1 (run_state 5 4 [3, 4] [run_extent])"
    by (simp add: rootSlot_def superblockCopies_def)
  from run_commit [OF this, of 5] have "reachable 1 (run_state 5 5 [5, 4] [run_extent])"
    by (simp add: rootSlot_def superblockCopies_def)
  then show ?thesis by (rule run_reached)
qed

text \<open>A group commit of two generations writes both of its superblocks into the same slot: generation 5
  replaces generation 3, which was durable, and the other slot still holds generation 2.\<close>

lemma run_group: "reachable 2 (run_end [5, 2])"
proof -
  have "reachable 2 (run_state 5 3 [3, 2] [run_extent])"
    using run_commit [OF run_retired, of 2 3] by (simp add: rootSlot_def superblockCopies_def)
  from run_commit [OF this, of 5] have "reachable 2 (run_state 5 5 [5, 2] [run_extent])"
    by (simp add: rootSlot_def superblockCopies_def)
  then show ?thesis by (rule run_reached)
qed

text \<open>C36. The protection of both recovery roots is lost with group commits: with a group limit of two there is a reachable state where an extent was handed back for reuse although the superblock in the other slot is of a generation that still reaches it.\<close>

theorem group_commit_exposes_root:
  "\<exists>s e g. reachable 2 s \<and> e \<in> set (st_reusable s) \<and> g \<in> set (st_roots s) \<and> 0 < g \<and> g \<le> fe_RetiredGeneration e"
  by (intro exI [of _ "run_end [5, 2]"] exI [of _ run_extent] exI [of _ 2] conjI run_group)
    (simp_all add: run_end_def run_extent_def)

theorem lease_table_invariant_witness:
  "reachable 1 (run_end [5, 4]) \<and> gl_free (st_leases (run_end [5, 4])) = [] \<and> leases_of (st_leases (run_end [5, 4])) = {run_lease}"
  using lease_table_invariant [OF run_single] run_single by (simp add: run_end_def)

theorem reclaimed_unreachable_witness:
  "reachable 1 (run_end [5, 4]) \<and> run_extent \<in> set (st_reusable (run_end [5, 4])) \<and> run_lease \<in> st_held (run_end [5, 4]) \<and>
   fe_RetiredGeneration run_extent < lh_generation run_lease"
  using reclaimed_unreachable [OF run_single, of run_extent] run_single by (simp add: run_end_def)

theorem recovery_roots_protected_witness:
  "reachable 1 (run_end [5, 4]) \<and> run_extent \<in> set (st_reusable (run_end [5, 4])) \<and> fe_RetiredGeneration run_extent < 4"
  using recovery_roots_protected [OF run_single, of run_extent 4] run_single by (simp add: run_end_def)

lemma run_pending: "reachable 2 (run_state 5 5 [5, 2] [run_extent])"
  using run_commit [OF run_commit [OF run_retired, of 2 3], of 5] by (simp add: rootSlot_def superblockCopies_def)

theorem AppendReusable_exact_witness:
  "AppendReusable (Some \<lparr>er_pending = [run_extent], er_limit = 4\<rparr>) run_leases [] 5 (oldestRecovery 5) =
     (Some \<lparr>er_pending = [], er_limit = 4\<rparr>, [run_extent])"
proof -
  obtain r out where a: "AppendReusable (Some \<lparr>er_pending = [run_extent], er_limit = 4\<rparr>) run_leases [] 5 (oldestRecovery 5) = (Some r, out)"
    by (fastforce simp: AppendReusable_def Let_def split: prod.splits)
  then have l: "er_limit r = 4" by (auto simp: AppendReusable_def takeReusable_eq)
  have "er_pending r = []" "out = [run_extent]"
    using AppendReusable_exact [OF run_pending, of "[]" r out] a
    by (simp_all add: run_state_def run_extent_def oldestRecovery_def)
  then show ?thesis using a l by (cases r) simp
qed


end
