(* ===== verification/CommitterCorrect.thy ===== *)
theory CommitterCorrect
  imports Committer "HOL-Library.Multiset"
begin

unbundle bit_operations_syntax

text \<open>
  Correctness of the committer of theory \<open>Committer\<close>: what a validated commit is, that staging buffers and
  descriptors are neither lost nor shared, that generations become durable in the order of their
  publication, and what a group commit submits to the device.
\<close>

section \<open>Validated commits\<close>

definition write_end :: "Write \<Rightarrow> int" where
  "write_end w = w_Offset w + int (unat (w_Length w))"

definition write_ok :: "nat \<Rightarrow> nat \<Rightarrow> Write \<Rightarrow> bool" where
  "write_ok bufferCount bufferSize w \<longleftrightarrow> unat (w_Buffer w) < bufferCount \<and> 0 < unat (w_Length w) \<and>
     unat (w_Length w) \<le> bufferSize \<and> 0 \<le> w_Offset w \<and> write_end w \<le> maxInt64"

lemma validateWrite_iff:
  "validateWrite n m w = (if write_ok n m w then Inr (write_end w) else Inl ErrInvalidWrite)"
  by (auto simp: validateWrite_def write_ok_def write_end_def unat_gt_0)

lemma validatePages_iff:
  "validatePages n m seen p ws = None \<longleftrightarrow>
     (\<forall>w \<in> set ws. write_ok n m w) \<and> distinct (map w_Buffer ws) \<and> set (map w_Buffer ws) \<inter> seen = {} \<and>
     sorted_wrt (\<lambda>a b. write_end a \<le> w_Offset b) ws \<and> (\<forall>e. p = Some e \<longrightarrow> (\<forall>w \<in> set ws. e \<le> w_Offset w))"
proof (induction n m seen p ws rule: validatePages.induct)
  case (2 n m seen p w ws)
  have le: "w_Offset w \<le> write_end w" by (simp add: write_end_def)
  show ?case
  proof (cases "write_ok n m w \<and> w_Buffer w \<notin> seen \<and> (\<forall>e. p = Some e \<longrightarrow> e \<le> w_Offset w)")
    case True
    then have "validatePages n m seen p (w # ws) = validatePages n m (insert (w_Buffer w) seen) (Some (write_end w)) ws"
      by (auto simp: validateWrite_iff split: option.splits)
    moreover have "validatePages n m (insert (w_Buffer w) seen) (Some (write_end w)) ws = None \<longleftrightarrow>
        (\<forall>x \<in> set ws. write_ok n m x) \<and> distinct (map w_Buffer ws) \<and> set (map w_Buffer ws) \<inter> insert (w_Buffer w) seen = {} \<and>
        sorted_wrt (\<lambda>a b. write_end a \<le> w_Offset b) ws \<and> (\<forall>x \<in> set ws. write_end w \<le> w_Offset x)"
      using 2(1) [of "write_end w"] True by (auto simp: validateWrite_iff not_less split: option.splits)
    ultimately show ?thesis using True le by (auto 4 4)
  next
    case False
    then show ?thesis by (auto simp: validateWrite_iff not_less split: option.splits)
  qed
qed simp

text \<open>\<^verbatim>\<open>validateCommit\<close> accepts a commit exactly when every write lies in a staging buffer and in the file, the page writes come from distinct buffers, in file order and without overlap, and the root overlaps none of them.\<close>

theorem validateCommit_exact:
  "validateCommit bufferCount bufferSize pages root = None \<longleftrightarrow>
     (\<forall>w \<in> set (root # pages). write_ok bufferCount bufferSize w) \<and> distinct (map w_Buffer pages) \<and>
     sorted_wrt (\<lambda>a b. write_end a \<le> w_Offset b) pages \<and>
     (\<forall>w \<in> set pages. write_end w \<le> w_Offset root \<or> write_end root \<le> w_Offset w)"
proof -
  have "validateCommit bufferCount bufferSize pages root = None \<longleftrightarrow>
     validatePages bufferCount bufferSize {} None pages = None \<and> write_ok bufferCount bufferSize root \<and>
     \<not> list_ex (\<lambda>w. w_Offset w < write_end root \<and> w_Offset root < write_end w) pages"
    by (auto simp: validateCommit_def validateWrite_iff write_end_def split: option.splits)
  then show ?thesis by (auto simp: validatePages_iff list_ex_iff not_less)
qed

section \<open>Ownership of buffers and descriptors\<close>

definition batch_buffers :: "Batch \<Rightarrow> u32 list" where
  "batch_buffers b = map (\<lambda>w. ucast (w_Buffer w)) (b_root b # b_pages b)"

text \<open>The producer's side of a run: the batches it owns. It fills a batch by the calls that keep the
  buffers (\<open>fill\<close>), gives trailing pages back, aborts or publishes it; the worker takes rounds, the
  device answering anything.\<close>

record commit_state =
  cs_committer :: Committer
  cs_owned :: "Batch list"

definition same_buffers :: "Batch \<Rightarrow> Batch \<Rightarrow> bool" where
  "same_buffers b b' \<longleftrightarrow> mset (batch_buffers b') = mset (batch_buffers b) \<and> b_index b' = b_index b"

inductive commit_step :: "commit_state \<Rightarrow> commit_state \<Rightarrow> bool" where
  start: "Begin (cs_committer s) n = Some (Inr (c, b)) \<Longrightarrow>
     commit_step s (s\<lparr>cs_committer := c, cs_owned := b # cs_owned s\<rparr>)"
| set_page: "cs_owned s = xs @ b # ys \<Longrightarrow> setPage b page offset len kind = Inr b' \<Longrightarrow>
     commit_step s (s\<lparr>cs_owned := xs @ b' # ys\<rparr>)"
| set_root: "cs_owned s = xs @ b # ys \<Longrightarrow> SetRoot b offset len = Inr b' \<Longrightarrow>
     commit_step s (s\<lparr>cs_owned := xs @ b' # ys\<rparr>)"
| set_superblock: "cs_owned s = xs @ b # ys \<Longrightarrow> SetSuperblock (cs_committer s) b root = (c, Inr b') \<Longrightarrow>
     commit_step s (s\<lparr>cs_committer := c, cs_owned := xs @ b' # ys\<rparr>)"
| sort_pages: "cs_owned s = xs @ b # ys \<Longrightarrow>
     commit_step s (s\<lparr>cs_owned := xs @ (b\<lparr>b_pages := sort_key w_Offset (b_pages b)\<rparr>) # ys\<rparr>)"
| resize: "cs_owned s = xs @ b # ys \<Longrightarrow> ResizePages (cs_committer s) b n = Inr (c, b') \<Longrightarrow>
     commit_step s (s\<lparr>cs_committer := c, cs_owned := xs @ b' # ys\<rparr>)"
| abort: "cs_owned s = xs @ b # ys \<Longrightarrow> batchAbort (cs_committer s) b = Inr c \<Longrightarrow>
     commit_step s (s\<lparr>cs_committer := c, cs_owned := xs @ ys\<rparr>)"
| publish: "cs_owned s = xs @ b # ys \<Longrightarrow> batchPublish (cs_committer s) b g = Inr c \<Longrightarrow>
     commit_step s (s\<lparr>cs_committer := c, cs_owned := xs @ ys\<rparr>)"
| round: "commitRound (cs_committer s) device = Some (c, writes, root) \<Longrightarrow>
     commit_step s (s\<lparr>cs_committer := c\<rparr>)"
| shut: "commit_step s (s\<lparr>cs_committer := (cs_committer s)\<lparr>c_closing := True\<rparr>\<rparr>)"

definition committer_opened :: "commit_state \<Rightarrow> bool" where
  "committer_opened s \<longleftrightarrow> cs_owned s = [] \<and> (\<exists>options bufferSize buffers c g.
     length buffers \<le> 32768 \<and> newCommitter options bufferSize buffers = Inr c \<and>
     (cs_committer s = c \<or> InitializeGeneration c g = Inr (cs_committer s)))"

inductive commit_reachable :: "commit_state \<Rightarrow> bool" where
  commit_open: "committer_opened s \<Longrightarrow> commit_reachable s"
| commit_next: "commit_reachable s \<Longrightarrow> commit_step s t \<Longrightarrow> commit_reachable t"

definition all_buffers :: "commit_state \<Rightarrow> u32 multiset" where
  "all_buffers s = mset (c_freeBuffers (cs_committer s)) +
     mset (concat (map batch_buffers (cs_owned s @ c_pending (cs_committer s))))"

definition all_batches :: "commit_state \<Rightarrow> u32 multiset" where
  "all_batches s = mset (c_freeBatches (cs_committer s)) + mset (map b_index (cs_owned s @ c_pending (cs_committer s)))"

lemma releases_free:
  "mset (c_freeBuffers (foldl releaseBatch c bs)) = mset (c_freeBuffers c) + mset (concat (map batch_buffers bs)) \<and>
   mset (c_freeBatches (foldl releaseBatch c bs)) = mset (c_freeBatches c) + mset (map b_index bs)"
  by (induction bs arbitrary: c) (simp_all add: releaseBatch_def batch_buffers_def)

lemma releases_rest:
  "c_pending (foldl releaseBatch c bs) = c_pending c" "c_published (foldl releaseBatch c bs) = c_published c"
  "c_durable (foldl releaseBatch c bs) = c_durable c" "c_options (foldl releaseBatch c bs) = c_options c"
  "c_bufferCount (foldl releaseBatch c bs) = c_bufferCount c" "c_failure (foldl releaseBatch c bs) = c_failure c"
  "c_closing (foldl releaseBatch c bs) = c_closing c"
  by (induction bs arbitrary: c) (simp_all add: releaseBatch_def)

lemma groupBatches_append:
  "groupBatches limit cap g pending = (g', rest) \<Longrightarrow> g' @ rest = g @ pending \<and> (\<exists>h. g' = g @ h)"
  by (induction limit cap g pending rule: groupBatches.induct) (auto split: if_splits)

definition owned_once :: "commit_state \<Rightarrow> bool" where
  "owned_once s \<longleftrightarrow>
     all_buffers s = mset (map of_nat [0..<c_bufferCount (cs_committer s)]) \<and>
     all_batches s = mset (map of_nat [0..<nat (co_QueueSlots (c_options (cs_committer s)))])"

definition in_order :: "Committer \<Rightarrow> bool" where
  "in_order c \<longleftrightarrow> sorted_wrt (<) (map b_generation (c_pending c)) \<and>
     (\<forall>b \<in> set (c_pending c). c_durable c < b_generation b \<and> b_generation b \<le> c_published c) \<and>
     c_durable c \<le> c_published c \<and>
     (if c_pending c = [] then c_failure c = None \<longrightarrow> c_durable c = c_published c
      else b_generation (last (c_pending c)) = c_published c)"

lemma same_pages_buffers:
  "setPage b page offset len kind = Inr b' \<Longrightarrow> batch_buffers b' = batch_buffers b \<and> b_index b' = b_index b"
proof -
  assume a: "setPage b page offset len kind = Inr b'"
  have "map (\<lambda>w. ucast (w_Buffer w) :: u32) ((b_pages b)[nat page := w']) = map (\<lambda>w. ucast (w_Buffer w)) (b_pages b)"
    if "nat page < length (b_pages b)" "w_Buffer w' = w_Buffer (b_pages b ! nat page)" for w'
    using that by (simp add: map_update list_update_same_conv)
  then show ?thesis using a by (auto simp: setPage_def batch_buffers_def Let_def split: if_splits)
qed

lemma set_root_buffers: "SetRoot b offset len = Inr b' \<Longrightarrow> batch_buffers b' = batch_buffers b \<and> b_index b' = b_index b"
  by (auto simp: SetRoot_def batch_buffers_def split: if_splits)

lemma set_superblock_buffers:
  assumes "SetSuperblock c b root = (c', Inr b')"
  shows "batch_buffers b' = batch_buffers b \<and> b_index b' = b_index b \<and> (\<exists>bufs. c' = c\<lparr>c_buffers := bufs\<rparr>)"
  using assms by (auto simp: SetSuperblock_def batch_buffers_def Let_def split: if_splits sum.splits)

lemma resize_buffers:
  assumes "ResizePages c b n = Inr (c', b')"
  shows "mset (c_freeBuffers c') + mset (batch_buffers b') = mset (c_freeBuffers c) + mset (batch_buffers b) \<and>
    b_index b' = b_index b \<and> (\<exists>free. c' = c\<lparr>c_freeBuffers := free\<rparr>)"
proof -
  have "mset (map f (drop k ws)) + mset (map f (take k ws)) = mset (map f ws)" for f k and ws :: "Write list"
    by (metis append_take_drop_id map_append mset_append union_commute)
  then show ?thesis using assms
    by (auto simp: ResizePages_def Let_def batch_buffers_def split: if_splits)
qed

lemma begin_buffers:
  assumes "Begin c n = Some (Inr (c', b))" "\<forall>i \<in> set (c_freeBuffers c). unat i < 2 ^ 16"
  shows "mset (c_freeBuffers c') + mset (batch_buffers b) = mset (c_freeBuffers c)"
    and "add_mset (b_index b) (mset (c_freeBatches c')) = mset (c_freeBatches c)"
    and "\<exists>fs fb. c' = c\<lparr>c_freeBatches := fs, c_freeBuffers := fb\<rparr>"
proof -
  let ?n = "nat n" let ?t = "take (?n + 1) (c_freeBuffers c)"
  have ne: "c_freeBatches c \<noteq> []" "?n + 1 \<le> length (c_freeBuffers c)"
    and c': "c' = c\<lparr>c_freeBatches := tl (c_freeBatches c), c_freeBuffers := drop (?n + 1) (c_freeBuffers c)\<rparr>"
    and b: "b = \<lparr>b_pages = map (\<lambda>buffer. zeroWrite\<lparr>w_Buffer := ucast buffer\<rparr>) (take ?n ?t),
        b_root = zeroWrite\<lparr>w_Buffer := ucast (?t ! ?n)\<rparr>, b_rootGeneration = 0, b_generation = 0,
        b_index = hd (c_freeBatches c), b_state = batchOwned\<rparr>"
    using assms(1) by (auto simp: Begin_def Let_def split: option.splits if_splits)
  have bk: "ucast (ucast i :: u16) = i" if "i \<in> set (c_freeBuffers c)" for i :: u32
    using that assms(2) by (auto simp: word_unat_eq_iff unsigned_ucast_eq unsigned_take_bit_eq take_bit_nat_eq_self)
  have sp: "?t = take ?n ?t @ [?t ! ?n]" using ne(2)
    by (metis (no_types, lifting) Suc_eq_plus1 length_take lessI min.absorb2 take_Suc_conv_app_nth take_all_iff order_refl)
  have in_free: "?t ! ?n \<in> set (c_freeBuffers c)"
    by (metis in_set_conv_decomp in_set_takeD sp)
  have "mset (batch_buffers b) = mset ?t"
  proof -
    have m: "map (\<lambda>i. ucast (ucast i :: u16)) (take ?n ?t) = take ?n ?t"
      by (rule map_idI) (meson bk in_set_takeD)
    have "batch_buffers b = ucast (ucast (?t ! ?n) :: u16) # map (\<lambda>i. ucast (ucast i :: u16)) (take ?n ?t)"
      by (simp add: batch_buffers_def b comp_def)
    then have "mset (batch_buffers b) = mset (take ?n ?t @ [?t ! ?n])" using bk [OF in_free] m by simp
    then show ?thesis using sp by presburger
  qed
  then show "mset (c_freeBuffers c') + mset (batch_buffers b) = mset (c_freeBuffers c)"
    by (simp add: c') (metis append_take_drop_id mset_append union_commute)
  show "add_mset (b_index b) (mset (c_freeBatches c')) = mset (c_freeBatches c)"
    using ne(1) by (simp add: c' b) (metis list.collapse mset.simps(2))
  show "\<exists>fs fb. c' = c\<lparr>c_freeBatches := fs, c_freeBuffers := fb\<rparr>" by (auto simp: c')
qed

lemma free_small:
  assumes "all_buffers s = mset (map of_nat [0..<c_bufferCount (cs_committer s)])" "c_bufferCount (cs_committer s) \<le> 32768"
  shows "\<forall>i \<in> set (c_freeBuffers (cs_committer s)). unat i < 2 ^ 16"
proof
  fix i assume "i \<in> set (c_freeBuffers (cs_committer s))"
  then have "i \<in># all_buffers s" by (simp add: all_buffers_def)
  then obtain k where "i = of_nat k" "k < c_bufferCount (cs_committer s)" using assms(1) by auto
  then show "unat i < 2 ^ 16" using assms(2) by (simp add: unat_of_nat)
qed

definition commit_inv :: "commit_state \<Rightarrow> bool" where
  "commit_inv s \<longleftrightarrow> owned_once s \<and> in_order (cs_committer s) \<and> c_bufferCount (cs_committer s) \<le> 32768 \<and>
     0 < co_GroupLimit (c_options (cs_committer s))"

lemma round_cases:
  assumes "commitRound c device = Some (c', writes, root)"
  obtains g rest where "g @ rest = c_pending c" "g \<noteq> []"
    "mset (c_freeBuffers c') + mset (concat (map batch_buffers (c_pending c'))) =
     mset (c_freeBuffers c) + mset (concat (map batch_buffers (c_pending c)))"
    "mset (c_freeBatches c') + mset (map b_index (c_pending c')) =
     mset (c_freeBatches c) + mset (map b_index (c_pending c))"
    "c_options c' = c_options c" "c_bufferCount c' = c_bufferCount c" "c_published c' = c_published c"
    "c_failure c' \<noteq> None \<and> c_pending c' = [] \<and> c_durable c' = c_durable c \<or>
     c_failure c' = c_failure c \<and> c_pending c' = rest \<and> c_durable c' = b_generation (last g)"
proof -
  obtain first tail where p: "c_pending c = first # tail" using assms by (auto simp: commitRound_def split: list.splits)
  obtain g rest where g: "groupBatches (nat (co_GroupLimit (c_options c))) (c_bufferCount c) [first] tail = (g, rest)"
    by fastforce
  obtain kept dropped where k: "suppressRoots (concat (map b_pages g)) = (kept, dropped)" by fastforce
  have gr: "g @ rest = c_pending c" "g \<noteq> []" using groupBatches_append [OF g] p by auto
  note eqs = commitRound_def p g k
  have bufs: "mset (concat (map batch_buffers (c_pending c))) =
      mset (concat (map batch_buffers g)) + mset (concat (map batch_buffers rest))"
    and idx: "mset (map b_index (c_pending c)) = mset (map b_index g) + mset (map b_index rest)"
    by (simp_all flip: gr(1))
  show thesis
  proof (cases "device (sort_key w_Offset kept) (b_root (last g))")
    case None
    show thesis
      by (rule that [OF gr]) (use assms None bufs idx in \<open>auto simp: eqs Let_def releases_free releases_rest\<close>)
  next
    case (Some err)
    show thesis
      by (rule that [OF gr]) (use assms Some bufs idx in \<open>auto simp: eqs Let_def drainFailed_def releases_free releases_rest
        setFailure_def split: option.splits\<close>)
  qed
qed

lemma in_order_publish:
  assumes "in_order c" "batchPublish c b g = Inr c'"
  shows "in_order c'" "c_freeBuffers c' = c_freeBuffers c" "c_freeBatches c' = c_freeBatches c"
    "c_options c' = c_options c" "c_bufferCount c' = c_bufferCount c"
    "\<exists>b'. c_pending c' = c_pending c @ [b'] \<and> batch_buffers b' = batch_buffers b \<and> b_index b' = b_index b"
proof -
  have g: "c_published c < g"
    and c': "c' = c\<lparr>c_pending := c_pending c @ [b\<lparr>b_generation := g, b_state := batchPublished\<rparr>], c_published := g\<rparr>"
    using assms(2) by (auto simp: batchPublish_def publish_def not_le split: if_splits option.splits)
  show "in_order c'" using assms(1) g
    by (auto simp: in_order_def c' sorted_wrt_append intro: le_less_trans order_trans less_imp_le)
qed (use assms(2) in \<open>auto simp: batchPublish_def publish_def batch_buffers_def split: if_splits option.splits\<close>)

lemma in_order_round:
  assumes "in_order c" "commitRound c device = Some (c', writes, root)"
  shows "in_order c'"
proof -
  obtain g rest where g: "g @ rest = c_pending c" "g \<noteq> []" "c_published c' = c_published c"
    and r: "c_failure c' \<noteq> None \<and> c_pending c' = [] \<and> c_durable c' = c_durable c \<or>
       c_failure c' = c_failure c \<and> c_pending c' = rest \<and> c_durable c' = b_generation (last g)"
    by (rule round_cases [OF assms(2)])
  have srt: "sorted_wrt (<) (map b_generation (g @ rest))" and le: "\<forall>b \<in> set (g @ rest). b_generation b \<le> c_published c"
    and "c_durable c \<le> c_published c" and lst: "b_generation (last (g @ rest)) = c_published c"
    using assms(1) g by (auto simp: in_order_def split: if_splits)
  moreover have "last g \<in> set g" using g(2) by simp
  ultimately show ?thesis using r g(2,3)
    by (auto simp: in_order_def sorted_wrt_append split: if_splits)
qed

lemma owned_once_step:
  assumes "commit_step s t" "owned_once s" "c_bufferCount (cs_committer s) \<le> 32768"
  shows "owned_once t \<and> c_bufferCount (cs_committer t) = c_bufferCount (cs_committer s) \<and>
    c_options (cs_committer t) = c_options (cs_committer s)"
  using assms
proof (induction rule: commit_step.induct)
  case (start s n c b)
  have "\<forall>i \<in> set (c_freeBuffers (cs_committer s)). unat i < 2 ^ 16"
    by (rule free_small) (use start in \<open>simp_all add: owned_once_def\<close>)
  note b = begin_buffers [OF start(1) this]
  from b(3) obtain fs fb where c: "c = (cs_committer s)\<lparr>c_freeBatches := fs, c_freeBuffers := fb\<rparr>" by blast
  have e: "mset (c_freeBuffers (cs_committer s)) = mset (batch_buffers b) + mset fb"
    "mset (c_freeBatches (cs_committer s)) = add_mset (b_index b) (mset fs)"
    using b(1,2) by (simp_all add: c ac_simps)
  show ?case using start(2) by (auto simp: owned_once_def all_buffers_def all_batches_def c e ac_simps)
next
  case (set_page s xs b ys page offset len kind b')
  then show ?case using same_pages_buffers [OF set_page(2)]
    by (simp add: owned_once_def all_buffers_def all_batches_def)
next
  case (set_root s xs b ys offset len b')
  then show ?case using set_root_buffers [OF set_root(2)]
    by (simp add: owned_once_def all_buffers_def all_batches_def)
next
  case (set_superblock s xs b ys root c b')
  then show ?case using set_superblock_buffers [OF set_superblock(2)]
    by (auto simp: owned_once_def all_buffers_def all_batches_def)
next
  case (sort_pages s xs b ys)
  have "mset (batch_buffers (b\<lparr>b_pages := sort_key w_Offset (b_pages b)\<rparr>)) = mset (batch_buffers b)"
    by (simp add: batch_buffers_def)
  then show ?case using sort_pages by (simp add: owned_once_def all_buffers_def all_batches_def)
next
  case (resize s xs b ys n c b')
  let ?t = "s\<lparr>cs_committer := c, cs_owned := xs @ b' # ys\<rparr>"
  let ?rest = "mset (concat (map batch_buffers (xs @ ys @ c_pending (cs_committer s))))"
  obtain free where c: "c = (cs_committer s)\<lparr>c_freeBuffers := free\<rparr>" "b_index b' = b_index b"
    and eq: "mset (c_freeBuffers c) + mset (batch_buffers b') = mset (c_freeBuffers (cs_committer s)) + mset (batch_buffers b)"
    using resize_buffers [OF resize(2)] by blast
  have "all_buffers ?t = mset (c_freeBuffers c) + mset (batch_buffers b') + ?rest"
    by (simp add: all_buffers_def c(1) ac_simps)
  also have "\<dots> = all_buffers s" unfolding eq using resize(1) by (simp add: all_buffers_def ac_simps)
  finally show ?case using resize(1,3) c by (simp add: owned_once_def all_batches_def)
next
  case (abort s xs b ys c)
  have "c = releaseBatch (cs_committer s) b" using abort(2) by (auto simp: batchAbort_def split: if_splits)
  then show ?case using abort by (auto simp: owned_once_def all_buffers_def all_batches_def releaseBatch_def batch_buffers_def ac_simps)
next
  case (publish s xs b ys g c)
  then show ?case using publish(2)
    by (auto simp: batchPublish_def publish_def owned_once_def all_buffers_def all_batches_def batch_buffers_def ac_simps
        split: if_splits option.splits)
next
  case (round s device c writes root)
  let ?t = "s\<lparr>cs_committer := c\<rparr>"
  from round(1) obtain g rest where
    eq: "mset (c_freeBuffers c) + mset (concat (map batch_buffers (c_pending c))) =
      mset (c_freeBuffers (cs_committer s)) + mset (concat (map batch_buffers (c_pending (cs_committer s))))"
      "mset (c_freeBatches c) + mset (map b_index (c_pending c)) =
      mset (c_freeBatches (cs_committer s)) + mset (map b_index (c_pending (cs_committer s)))"
    and o: "c_options c = c_options (cs_committer s)" "c_bufferCount c = c_bufferCount (cs_committer s)"
    by (rule round_cases)
  have "all_buffers ?t = mset (c_freeBuffers c) + mset (concat (map batch_buffers (c_pending c))) + mset (concat (map batch_buffers (cs_owned s)))"
    by (simp add: all_buffers_def ac_simps)
  also have "\<dots> = all_buffers s" unfolding eq(1) by (simp add: all_buffers_def ac_simps)
  finally have 1: "all_buffers ?t = all_buffers s" .
  have "all_batches ?t = mset (c_freeBatches c) + mset (map b_index (c_pending c)) + mset (map b_index (cs_owned s))"
    by (simp add: all_batches_def ac_simps)
  also have "\<dots> = all_batches s" unfolding eq(2) by (simp add: all_batches_def ac_simps)
  finally show ?case using round(2) 1 o by (simp add: owned_once_def)
next
  case (shut s)
  then show ?case by (simp add: owned_once_def all_buffers_def all_batches_def)
qed

lemma in_order_step: "commit_step s t \<Longrightarrow> in_order (cs_committer s) \<Longrightarrow> in_order (cs_committer t)"
proof (induction rule: commit_step.induct)
  case (start s n c b)
  then show ?case
    by (auto simp: Begin_def in_order_def Let_def split: option.splits if_splits)
next
  case (set_superblock s xs b ys root c b')
  then show ?case using set_superblock_buffers [OF set_superblock(2)] by (auto simp: in_order_def)
next
  case (resize s xs b ys n c b')
  then show ?case using resize_buffers [OF resize(2)] by (auto simp: in_order_def)
next
  case (abort s xs b ys c)
  then show ?case by (auto simp: batchAbort_def releaseBatch_def in_order_def split: if_splits)
next
  case (publish s xs b ys g c)
  then show ?case using in_order_publish(1) [OF publish(3,2)] by simp
next
  case (round s device c writes root)
  then show ?case using in_order_round [OF round(2,1)] by simp
qed (simp_all add: in_order_def)

lemma opened_committer:
  assumes "committer_opened s"
  shows "owned_once s \<and> in_order (cs_committer s) \<and> c_bufferCount (cs_committer s) \<le> 32768"
proof -
  obtain options bufferSize buffers c g where "length buffers \<le> 32768" "newCommitter options bufferSize buffers = Inr c"
    and s: "cs_owned s = []" "cs_committer s = c \<or> InitializeGeneration c g = Inr (cs_committer s)"
    using assms unfolding committer_opened_def by blast
  then have c: "c_pending c = []" "c_freeBuffers c = map of_nat [0..<length buffers]" "c_bufferCount c = length buffers"
    "c_freeBatches c = map of_nat [0..<nat (co_QueueSlots (c_options c))]" "c_published c = c_durable c" "length buffers \<le> 32768"
    by (auto simp: newCommitter_def split: sum.splits)
  have "cs_committer s = c \<or> cs_committer s = c\<lparr>c_published := g, c_durable := g\<rparr>"
    using s(2) by (auto simp: InitializeGeneration_def split: if_splits)
  then show ?thesis
    by (elim disjE) (simp_all add: s(1) c owned_once_def all_buffers_def all_batches_def in_order_def)
qed

lemma commit_reachable_inv:
  "commit_reachable s \<Longrightarrow> owned_once s \<and> in_order (cs_committer s) \<and> c_bufferCount (cs_committer s) \<le> 32768"
proof (induction rule: commit_reachable.induct)
  case (commit_next s t)
  then show ?case using owned_once_step [OF commit_next(2)] in_order_step [OF commit_next(2)] by simp
qed (rule opened_committer)


section \<open>What a group commit writes\<close>

abbreviation is_state :: "Write \<Rightarrow> bool" where "is_state w \<equiv> w_kind w = PageStateRoot"

lemma latestState_none: "filter is_state ws = [] \<Longrightarrow> latestState ws = - 1"
  by (induction ws rule: rev_induct) (auto simp: latestState_def enumerate_append_eq split: if_splits)

lemma latestState_last: "is_state w \<Longrightarrow> filter is_state bs = [] \<Longrightarrow> latestState (as @ w # bs) = int (length as)"
proof (induction bs rule: rev_induct)
  case (snoc b bs)
  have "latestState (xs @ [b]) = latestState xs" for xs
    using snoc(3) by (simp add: latestState_def enumerate_append_eq split: if_splits)
  from this [of "as @ w # bs"] snoc show ?case by (simp split: if_splits)
qed (simp add: latestState_def enumerate_append_eq)

definition keeps :: "int \<Rightarrow> nat \<times> Write \<Rightarrow> bool" where
  "keeps l = (\<lambda>(i, w). \<not> (is_state w \<and> int i \<noteq> l))"

lemma suppress_fold:
  "foldl (\<lambda>(kept, dropped) (index, write).
       if is_state write \<and> int index \<noteq> l then (kept, dropped @ [write]) else (kept @ [write], dropped)) (k, d) iws =
   (k @ map snd (filter (keeps l) iws), d @ map snd (filter (\<lambda>x. \<not> keeps l x) iws))"
proof (induction iws arbitrary: k d)
  case (Cons iw iws)
  obtain i w where iw: "iw = (i, w)" by fastforce
  have "(is_state w \<and> int i \<noteq> l) = (\<not> keeps l (i, w))" by (simp add: keeps_def)
  then show ?case using Cons by (simp add: iw)
qed simp

lemma keeps_plain: "filter is_state ws = [] \<Longrightarrow> map snd (filter (keeps l) (enumerate n ws)) = ws"
  by (induction ws arbitrary: n) (auto simp: keeps_def split: if_splits)

lemma keeps_before: "l \<ge> int (n + length ws) \<Longrightarrow> map snd (filter (keeps l) (enumerate n ws)) = filter (\<lambda>w. \<not> is_state w) ws"
  by (induction ws arbitrary: n) (auto simp: keeps_def)

lemma suppressRoots_kept:
  assumes "suppressRoots ws = (kept, dropped)"
  shows "mset kept = mset (filter (\<lambda>w. \<not> is_state w) ws) +
    (if filter is_state ws = [] then {#} else {#last (filter is_state ws)#})"
proof (cases "filter is_state ws = []")
  case True
  then have "filter (\<lambda>w. \<not> is_state w) ws = ws" by (simp add: filter_id_conv filter_empty_conv)
  then show ?thesis using assms True by (simp add: suppressRoots_def latestState_none)
next
  case False
  then obtain as w bs where ws: "ws = as @ w # bs" "is_state w" "\<forall>x \<in> set bs. \<not> is_state x"
    using split_list_last_prop [of ws is_state] by (auto simp: filter_empty_conv)
  then have n: "filter is_state bs = []" by (simp add: filter_empty_conv)
  then have bs: "filter (\<lambda>w. \<not> is_state w) bs = bs" by (simp add: filter_id_conv filter_empty_conv)
  have l: "latestState ws = int (length as)" using latestState_last [OF ws(2) n] ws(1) by simp
  have "kept = map snd (filter (keeps (int (length as))) (enumerate 0 ws))"
    using assms unfolding suppressRoots_def l Let_def suppress_fold by simp
  also have "\<dots> = filter (\<lambda>w. \<not> is_state w) as @ w # bs"
    using keeps_before [of 0 as "int (length as)"] keeps_plain [OF n] ws(2)
    by (simp add: ws(1) enumerate_append_eq) (simp add: keeps_def)
  finally show ?thesis using ws bs n by simp
qed

lemma groupBatches_limit:
  "groupBatches limit cap g pending = (g', rest) \<Longrightarrow> length g \<le> max 1 limit \<Longrightarrow> length g' \<le> max 1 limit"
  by (induction limit cap g pending rule: groupBatches.induct) (auto split: if_splits)

text \<open>A round of the worker commits a nonempty run of the oldest queued batches, at most as many as the group limit: it submits, in file order, all their pages except the state roots that a later batch of the group replaces, and the superblock of the newest batch.\<close>

theorem commitRound_writes:
  assumes "commitRound c device = Some (c', writes, root)"
  shows "\<exists>grouped rest. c_pending c = grouped @ rest \<and> grouped \<noteq> [] \<and>
    length grouped \<le> max 1 (nat (co_GroupLimit (c_options c))) \<and> root = b_root (last grouped) \<and>
    sorted (map w_Offset writes) \<and>
    (let pages = concat (map b_pages grouped); roots = filter is_state pages in
       mset writes = mset (filter (\<lambda>w. \<not> is_state w) pages) + (if roots = [] then {#} else {#last roots#}))"
proof -
  obtain first tail where p: "c_pending c = first # tail" using assms by (auto simp: commitRound_def split: list.splits)
  obtain g rest where g: "groupBatches (nat (co_GroupLimit (c_options c))) (c_bufferCount c) [first] tail = (g, rest)"
    by fastforce
  obtain kept dropped where k: "suppressRoots (concat (map b_pages g)) = (kept, dropped)" by fastforce
  have "writes = sort_key w_Offset kept" "root = b_root (last g)"
    using assms by (auto simp: commitRound_def p g k Let_def split: option.splits)
  then show ?thesis using groupBatches_append [OF g] groupBatches_limit [OF g] suppressRoots_kept [OF k] p
    by (intro exI [of _ g] exI [of _ rest]) (auto simp: Let_def)
qed

section \<open>A run\<close>

text \<open>A committer with four buffers publishes one batch of one page.\<close>

definition run_options :: CommitterOptions where
  "run_options = \<lparr>co_QueueSlots = 2, co_MaxPagesPerBatch = 1, co_GroupLimit = 2, co_CoalesceDelay = 0\<rparr>"

definition run_committer :: Committer where
  "run_committer = \<lparr>c_options = run_options, c_buffers = [[], [], [], []], c_bufferSize = 4096, c_bufferCount = 4,
     c_freeBuffers = [0, 1, 2, 3], c_freeBatches = [0, 1], c_pending = [], c_closing = False, c_published = 0,
     c_durable = 0, c_failure = None, c_deviceCommits = 0, c_batchesDone = 0, c_largestGroup = 0,
     c_suppressedRootWrites = 0, c_suppressedRootBytes = 0\<rparr>"

definition run_write :: Write where
  "run_write = \<lparr>w_Offset = 8192, w_Length = 4096, w_Buffer = 0, w_kind = 1\<rparr>"

definition run_root :: Write where
  "run_root = \<lparr>w_Offset = 0, w_Length = 4096, w_Buffer = 1, w_kind = 0\<rparr>"

definition run_batch :: "Write list \<Rightarrow> Write \<Rightarrow> Batch" where
  "run_batch pages root = \<lparr>b_pages = pages, b_root = root, b_rootGeneration = 0, b_generation = 0, b_index = 0, b_state = batchOwned\<rparr>"

definition run_published :: Committer where
  "run_published = run_committer\<lparr>c_freeBuffers := [2, 3], c_freeBatches := [1],
     c_pending := [(run_batch [run_write] run_root)\<lparr>b_generation := 1, b_state := batchPublished\<rparr>], c_published := 1\<rparr>"

lemma run_commit_valid: "validateCommit 4 4096 [run_write] run_root = None"
  by (simp add: validateCommit_def validateWrite_def run_write_def run_root_def maxInt64_def)

lemma run_reachable: "commit_reachable \<lparr>cs_committer = run_published, cs_owned = []\<rparr>"
proof -
  have "newCommitter run_options 4096 [[], [], [], []] = Inr run_committer"
    by (simp add: newCommitter_def normalizedCommitter_def nextPowerOfTwo_def run_options_def run_committer_def
        maxCommitDescriptors_def maxCommitCoalesce_def upt_rec)
  moreover have "length [[], [], [], [] :: bytes] \<le> 32768" by simp
  ultimately have "committer_opened \<lparr>cs_committer = run_committer, cs_owned = []\<rparr>"
    unfolding committer_opened_def by (metis commit_state.select_convs)
  then have "commit_reachable \<lparr>cs_committer = run_committer, cs_owned = []\<rparr>" by (rule commit_open)
  moreover define c where "c = run_committer\<lparr>c_freeBuffers := [2, 3], c_freeBatches := [1]\<rparr>"
  let ?w = "zeroWrite" let ?r = "zeroWrite\<lparr>w_Buffer := 1\<rparr>"
  have "Begin run_committer 1 = Some (Inr (c, run_batch [?w] ?r))"
    by (simp add: Begin_def run_committer_def run_options_def c_def run_batch_def zeroWrite_def)
  then have "commit_step \<lparr>cs_committer = run_committer, cs_owned = []\<rparr> \<lparr>cs_committer = c, cs_owned = [run_batch [?w] ?r]\<rparr>"
    using start [of "\<lparr>cs_committer = run_committer, cs_owned = []\<rparr>"] by simp
  ultimately have 1: "commit_reachable \<lparr>cs_committer = c, cs_owned = [run_batch [?w] ?r]\<rparr>" by (rule commit_next)
  have "setPage (run_batch [?w] ?r) 0 8192 4096 1 = Inr (run_batch [run_write] ?r)"
    by (simp add: setPage_def run_batch_def run_write_def zeroWrite_def)
  then have "commit_step \<lparr>cs_committer = c, cs_owned = [run_batch [?w] ?r]\<rparr> \<lparr>cs_committer = c, cs_owned = [run_batch [run_write] ?r]\<rparr>"
    using set_page [of "\<lparr>cs_committer = c, cs_owned = [run_batch [?w] ?r]\<rparr>" "[]" _ "[]"] by simp
  then have 2: "commit_reachable \<lparr>cs_committer = c, cs_owned = [run_batch [run_write] ?r]\<rparr>" by (rule commit_next [OF 1])
  have "SetRoot (run_batch [run_write] ?r) 0 4096 = Inr (run_batch [run_write] run_root)"
    by (simp add: SetRoot_def run_batch_def run_root_def zeroWrite_def)
  then have "commit_step \<lparr>cs_committer = c, cs_owned = [run_batch [run_write] ?r]\<rparr> \<lparr>cs_committer = c, cs_owned = [run_batch [run_write] run_root]\<rparr>"
    using set_root [of "\<lparr>cs_committer = c, cs_owned = [run_batch [run_write] ?r]\<rparr>" "[]" _ "[]"] by simp
  then have 3: "commit_reachable \<lparr>cs_committer = c, cs_owned = [run_batch [run_write] run_root]\<rparr>" by (rule commit_next [OF 2])
  have "batchPublish c (run_batch [run_write] run_root) 1 = Inr run_published"
    using run_commit_valid by (simp add: batchPublish_def publish_def run_batch_def c_def run_committer_def run_options_def run_published_def)
  then have "commit_step \<lparr>cs_committer = c, cs_owned = [run_batch [run_write] run_root]\<rparr> \<lparr>cs_committer = run_published, cs_owned = []\<rparr>"
    using publish [of "\<lparr>cs_committer = c, cs_owned = [run_batch [run_write] run_root]\<rparr>" "[]" _ "[]"] by simp
  then show ?thesis by (rule commit_next [OF 3])
qed

theorem validateCommit_exact_witness:
  "validateCommit 4 4096 [run_write] run_root = None \<and> write_end run_root \<le> w_Offset run_write"
  using validateCommit_exact [of 4 4096 "[run_write]" run_root] run_commit_valid
  by (simp add: write_end_def run_write_def run_root_def)


theorem commitRound_writes_witness:
  "\<exists>c'. commitRound run_published (\<lambda>_ _. None) = Some (c', [run_write], run_root) \<and> c_durable c' = 1"
proof -
  obtain c' writes root where r: "commitRound run_published (\<lambda>_ _. None) = Some (c', writes, root)"
    by (cases "suppressRoots [run_write]") (auto simp: commitRound_def run_published_def run_batch_def Let_def)
  have "c_durable c' = 1"
    using r by (auto simp: commitRound_def run_published_def run_batch_def Let_def releaseBatch_def split: prod.splits)
  moreover have "root = run_root" "mset writes = {#run_write#}"
    using commitRound_writes [OF r]
    by (auto simp: run_published_def run_batch_def run_write_def PageStateRoot_def Cons_eq_append_conv Let_def)
  ultimately show ?thesis using r by simp
qed

end
