(* ===== verification/SuperblockCorrect.thy ===== *)
theory SuperblockCorrect
  imports Superblock
begin

unbundle bit_operations_syntax

text \<open>
  Correctness of the root records: the encoding round-trips and is canonical, selection returns the
  newest root that survived, publication of the next generation is atomic with respect to a torn
  record, and recovery falls back to the preceding generation.
\<close>

section \<open>Round trip\<close>

lemma length_superblockBody [simp]: "length (superblockBody root) = 128"
  by (simp add: superblockBody_def Let_def SuperblockSize_def)

lemma get_superblockBody [simp]:
  "get_bytes 0 8 (superblockBody root) = superblockMagic"
  "get_bytes 8 4 (superblockBody root) = le_bytes 4 superblockVersion"
  "get_bytes 12 4 (superblockBody root) = le_bytes 4 (of_nat SuperblockSize :: u32)"
  "get_bytes 16 4 (superblockBody root) = le_bytes 4 (sb_Flags root)"
  "get_bytes 20 4 (superblockBody root) = le_bytes 4 (sb_PageSize root)"
  "get_bytes 24 8 (superblockBody root) = le_bytes 8 (sb_Generation root)"
  "get_bytes 32 8 (superblockBody root) = le_bytes 8 (NOT (sb_Generation root))"
  "get_bytes 40 8 (superblockBody root) = le_bytes 8 (sb_StateOffset root)"
  "get_bytes 48 4 (superblockBody root) = le_bytes 4 (sb_StateLength root)"
  "get_bytes 52 4 (superblockBody root) = le_bytes 4 (sb_StateChecksum root)"
  "get_bytes 56 4 (superblockBody root) = le_bytes 4 (NOT (sb_StateChecksum root))"
  "get_bytes 60 4 (superblockBody root) = replicate 4 0"
  "get_bytes 64 8 (superblockBody root) = le_bytes 8 (sb_FileEnd root)"
  "get_bytes 72 8 (superblockBody root) = le_bytes 8 (sb_FreeOffset root)"
  "get_bytes 80 4 (superblockBody root) = le_bytes 4 (sb_FreeLength root)"
  "get_bytes 84 4 (superblockBody root) = le_bytes 4 (sb_FreeChecksum root)"
  "get_bytes 88 4 (superblockBody root) = le_bytes 4 (NOT (sb_FreeChecksum root))"
  "get_bytes 92 4 (superblockBody root) = replicate 4 0"
  "get_bytes 96 16 (superblockBody root) = le_bytes 16 (sb_StoreID root)"
  "get_bytes 112 8 (superblockBody root) = replicate 8 0"
  by (simp_all add: superblockBody_def Let_def SuperblockSize_def superblockMagic_def get_put get_replicate)

definition sealedSuperblock :: "Superblock \<Rightarrow> bytes" where
  "sealedSuperblock root =
     (let c = PageChecksum (take 120 (superblockBody root))
      in put_bytes 124 (le_bytes 4 (NOT c)) (put_bytes 120 (le_bytes 4 c) (superblockBody root)))"

lemma EncodeSuperblock_eq:
  "128 \<le> length dst \<Longrightarrow> validateSuperblock root = None \<Longrightarrow> EncodeSuperblock dst root = Inr (sealedSuperblock root)"
  by (simp add: EncodeSuperblock_def SuperblockSize_def sealedSuperblock_def Let_def)

lemma sealedSuperblock [simp]:
  "length (sealedSuperblock root) = 128"
  "off + n \<le> 120 \<Longrightarrow> get_bytes off n (sealedSuperblock root) = get_bytes off n (superblockBody root)"
  "take 120 (sealedSuperblock root) = take 120 (superblockBody root)"
  "get_bytes 120 4 (sealedSuperblock root) = le_bytes 4 (PageChecksum (take 120 (superblockBody root)))"
  "get_bytes 124 4 (sealedSuperblock root) = le_bytes 4 (NOT (PageChecksum (take 120 (superblockBody root))))"
  by (simp_all add: sealedSuperblock_def Let_def get_put take_put_bytes)

lemma decode_sealedSuperblock:
  assumes "validateSuperblock root = None"
  shows "DecodeSuperblock (sealedSuperblock root @ rest) = Inr root"
proof -
  have d: "decodedSuperblock (sealedSuperblock root) = root" by (cases root) (simp add: decodedSuperblock_def)
  show ?thesis
    using assms by (simp add: DecodeSuperblock_def SuperblockSize_def Let_def d)
qed

text \<open>A valid root record survives its encoding, also in front of the rest of its physical page.\<close>

theorem superblock_roundtrip:
  assumes "validateSuperblock root = None" "128 \<le> length dst"
  shows "\<exists>b. EncodeSuperblock dst root = Inr b \<and> length b = 128 \<and> DecodeSuperblock (b @ rest) = Inr root"
  using EncodeSuperblock_eq [OF assms(2,1)] decode_sealedSuperblock [OF assms(1)] by simp

section \<open>Canonical encoding\<close>

lemma drop_segment:
  "get_bytes k n a = get_bytes k n b \<Longrightarrow> drop (k + n) a = drop (k + n) b \<Longrightarrow> drop k a = drop k b"
  by (metis append_take_drop_id drop_drop get_bytes_def add.commute)

text \<open>Equality of byte strings segment by segment.\<close>

fun seg_eq :: "nat \<Rightarrow> nat list \<Rightarrow> bytes \<Rightarrow> bytes \<Rightarrow> bool" where
  "seg_eq k [] a b = (drop k a = drop k b)"
| "seg_eq k (n # ns) a b = (get_bytes k n a = get_bytes k n b \<and> seg_eq (k + n) ns a b)"

lemma seg_eq_drop: "seg_eq k ns a b \<Longrightarrow> drop k a = drop k b"
  by (induction ns arbitrary: k) (auto dest: drop_segment)

lemma le_bytes_get:
  "k + n \<le> length p \<Longrightarrow> 8 * n \<le> LENGTH('a::len) \<Longrightarrow> le_bytes n (le_word (get_bytes k n p) :: 'a word) = get_bytes k n p"
  using le_bytes_le_word [of "get_bytes k n p", where 'a = 'a] by simp

lemma le_word_eqD:
  "(le_word (get_bytes k n p) :: 'a::len word) = w \<Longrightarrow> k + n \<le> length p \<Longrightarrow> 8 * n \<le> LENGTH('a) \<Longrightarrow>
   get_bytes k n p = le_bytes n w"
  using le_bytes_get [of k n p, where 'a = 'a] by simp

lemma allZero_get: "allZero (get_bytes k n p) \<Longrightarrow> k + n \<le> length p \<Longrightarrow> get_bytes k n p = replicate n 0"
  by (metis allZero_iff length_get_bytes replicate_length_same)

lemma decode_canonical:
  assumes ok: "DecodeSuperblock src = Inr root"
  shows "take 128 src = sealedSuperblock root" "validateSuperblock root = None" "128 \<le> length src"
proof -
  let ?p = "take 128 src"
  show len: "128 \<le> length src" using ok by (auto simp: DecodeSuperblock_def SuperblockSize_def split: if_splits)
  then have l: "length ?p = 128" by simp
  have r: "root = decodedSuperblock ?p" and magic: "get_bytes 0 8 ?p = superblockMagic"
    and ver: "le_word (get_bytes 8 4 ?p) = superblockVersion" "le_word (get_bytes 12 4 ?p) = (of_nat SuperblockSize :: u32)"
    and sum: "le_word (get_bytes 124 4 ?p) = NOT (le_word (get_bytes 120 4 ?p) :: u32)"
      "PageChecksum (take 120 ?p) = le_word (get_bytes 120 4 ?p)"
    and zero: "allZero (get_bytes 60 4 ?p)" "allZero (get_bytes 92 4 ?p)" "allZero (get_bytes 112 8 ?p)"
    and compl: "le_word (get_bytes 32 8 ?p) = NOT (sb_Generation root)"
      "le_word (get_bytes 56 4 ?p) = NOT (sb_StateChecksum root)"
      "le_word (get_bytes 88 4 ?p) = NOT (sb_FreeChecksum root)"
    and val: "validateSuperblock root = None"
    using ok unfolding DecodeSuperblock_def Let_def SuperblockSize_def by (auto split: if_splits)
  show "validateSuperblock root = None" by (rule val)
  have fields: "get_bytes 16 4 ?p = le_bytes 4 (sb_Flags root)" "get_bytes 20 4 ?p = le_bytes 4 (sb_PageSize root)"
    "get_bytes 24 8 ?p = le_bytes 8 (sb_Generation root)" "get_bytes 40 8 ?p = le_bytes 8 (sb_StateOffset root)"
    "get_bytes 48 4 ?p = le_bytes 4 (sb_StateLength root)" "get_bytes 52 4 ?p = le_bytes 4 (sb_StateChecksum root)"
    "get_bytes 64 8 ?p = le_bytes 8 (sb_FileEnd root)" "get_bytes 72 8 ?p = le_bytes 8 (sb_FreeOffset root)"
    "get_bytes 80 4 ?p = le_bytes 4 (sb_FreeLength root)" "get_bytes 84 4 ?p = le_bytes 4 (sb_FreeChecksum root)"
    "get_bytes 96 16 ?p = le_bytes 16 (sb_StoreID root)"
    using l by (simp_all add: r decodedSuperblock_def le_bytes_get del: get_take)
  have words: "get_bytes 8 4 ?p = le_bytes 4 superblockVersion" "get_bytes 12 4 ?p = le_bytes 4 (of_nat SuperblockSize :: u32)"
    "get_bytes 32 8 ?p = le_bytes 8 (NOT (sb_Generation root))" "get_bytes 56 4 ?p = le_bytes 4 (NOT (sb_StateChecksum root))"
    "get_bytes 88 4 ?p = le_bytes 4 (NOT (sb_FreeChecksum root))"
    using le_word_eqD [OF ver(1)] le_word_eqD [OF ver(2)] le_word_eqD [OF compl(1)] le_word_eqD [OF compl(2)]
      le_word_eqD [OF compl(3)] l by simp_all
  have zeros: "get_bytes 60 4 ?p = replicate 4 0" "get_bytes 92 4 ?p = replicate 4 0" "get_bytes 112 8 ?p = replicate 8 0"
    using allZero_get [OF zero(1)] allZero_get [OF zero(2)] allZero_get [OF zero(3)] l by simp_all
  define a where "a = take 120 ?p"
  define b where "b = take 120 (superblockBody root)"
  have ga: "get_bytes k n a = get_bytes k n ?p" and gb: "get_bytes k n b = get_bytes k n (superblockBody root)"
    if "k + n \<le> 120" for k n using that by (simp_all add: a_def b_def del: get_take)
       (simp_all add: get_bytes_def drop_take)
  have "seg_eq 0 [8, 4, 4, 4, 4, 8, 8, 8, 4, 4, 4, 4, 8, 8, 4, 4, 4, 4, 16, 8] a b"
    using l by (simp add: ga gb magic words zeros fields) (simp add: a_def b_def)
  then have ab: "take 120 ?p = take 120 (superblockBody root)" using seg_eq_drop unfolding a_def b_def by fastforce
  have "get_bytes 120 4 ?p = le_bytes 4 (PageChecksum (take 120 ?p))"
    by (rule le_word_eqD [OF sum(2) [symmetric]]) (use l in simp_all)
  moreover have "get_bytes 124 4 ?p = le_bytes 4 (NOT (PageChecksum (take 120 ?p)))"
    unfolding sum(2) by (rule le_word_eqD [OF sum(1)]) (use l in simp_all)
  moreover note ab
  ultimately have "seg_eq 120 [4, 4] ?p (sealedSuperblock root)" using l by (simp del: get_take)
  then have "drop 120 ?p = drop 120 (sealedSuperblock root)" by (rule seg_eq_drop)
  moreover have "take 120 ?p = take 120 (sealedSuperblock root)" using ab by simp
  ultimately show "take 128 src = sealedSuperblock root" by (metis append_take_drop_id)
qed

text \<open>The encoding is canonical: bytes that decode to a root are that root's encoding, so no two different records are accepted for one root and no reserved byte can carry data.\<close>

theorem superblock_canonical:
  assumes "DecodeSuperblock src = Inr root"
  shows "EncodeSuperblock (replicate 128 0) root = Inr (take 128 src)"
  using decode_canonical [OF assms] EncodeSuperblock_eq [of "replicate 128 0" root] by simp

section \<open>Slots\<close>

definition slot :: "Superblock \<Rightarrow> u64" where
  "slot root = (sb_Generation root - 1) AND (superblockCopies - 1)"

lemma slot_cases: "slot root = 0 \<or> slot root = 1"
proof -
  have "(sb_Generation root - 1) AND 1 = (sb_Generation root - 1) mod 2" by (simp add: and_one_eq)
  moreover have "x mod 2 = 0 \<or> x mod 2 = 1" for x :: u64 by (metis parity_cases)
  ultimately show ?thesis by (simp add: slot_def superblockCopies_def)
qed

lemma slot_next:
  assumes "sb_Generation b = sb_Generation a + 1"
  shows "slot b = 1 - slot a"
proof -
  have "sb_Generation a = (sb_Generation a - 1) + 1" by simp
  then have "even (sb_Generation a) \<longleftrightarrow> odd (sb_Generation a - 1)" by (metis even_plus_one_iff)
  then have "sb_Generation a mod 2 = 1 - (sb_Generation a - 1) mod 2"
    by (cases "even (sb_Generation a)") (auto simp: even_iff_mod_2_eq_zero odd_iff_mod_2_eq_one)
  then show ?thesis using assms by (simp add: slot_def superblockCopies_def and_one_eq)
qed

lemma generation_next:
  assumes "sb_Generation b = sb_Generation a + 1" "sb_Generation b \<noteq> 0"
  shows "sb_Generation a < sb_Generation b"
proof -
  have "unat (sb_Generation a + 1) = unat (sb_Generation a) + 1"
    using assms unatSuc [of "sb_Generation a"] by (simp add: add.commute)
  then show ?thesis using assms(1) by (simp add: word_less_nat_alt)
qed

lemma slotRoot_eq: "DecodeSuperblock src = Inr root \<Longrightarrow> slotRoot src n = (if slot root = n then [(root, uint n)] else [])"
  by (auto simp: slotRoot_def slot_def)

lemma slotRoot_error: "DecodeSuperblock src = Inl e \<Longrightarrow> slotRoot src n = []"
  by (simp add: slotRoot_def)

lemma slotRoot_mem: "(r, s) \<in> set (slotRoot src n) \<Longrightarrow> DecodeSuperblock src = Inr r \<and> slot r = n \<and> s = uint n \<and> slotRoot src n = [(r, s)]"
  (is "_ \<Longrightarrow> ?thesis")
proof (cases "DecodeSuperblock src")
  case (Inr root)
  then show "(r, s) \<in> set (slotRoot src n) \<Longrightarrow> ?thesis" by (simp add: slotRoot_eq split: if_splits)
qed (simp add: slotRoot_error)

lemma slotRoot_cases: "slotRoot src n = [] \<or> (\<exists>r s. slotRoot src n = [(r, s)])"
  by (auto simp: slotRoot_def split: sum.splits)

section \<open>Recovery\<close>

text \<open>A file with the given content and no read errors.\<close>

definition fileRead :: "bytes \<Rightarrow> read_at" where
  "fileRead content = (\<lambda>off n. Some (get_bytes off n content))"

text \<open>The two header reads, zero-filled past the end of the file.\<close>

definition header_at :: "bytes \<Rightarrow> u32 \<Rightarrow> u64 \<Rightarrow> bytes" where
  "header_at content ps n =
     (let buf = get_bytes (unat n * unat ps) 128 content in buf @ replicate (128 - length buf) 0)"

definition recover :: "bytes \<Rightarrow> u32 \<Rightarrow> nat \<Rightarrow> io_error + (Superblock \<times> StateRoot \<times> int)" where
  "recover content ps scratch = RecoverStateRoot (fileRead content) (Some (int (length content))) ps scratch"

lemma recover_eq:
  "recover content ps scratch =
     (if \<not> validPhysicalPageSize ps then Inl ErrInvalidWrite
      else if scratch < unat ps then Inl ErrRecoveryBufferTooSmall
      else case orderedSuperblocks (header_at content ps 0) (header_at content ps 1) of
        Inl e \<Rightarrow> Inl e
      | Inr cs \<Rightarrow> tryCandidates (fileRead content) (length content) ps True cs)"
  by (simp add: recover_def RecoverStateRoot_def recoverRoots_def readHeader_def fileRead_def header_at_def
      SuperblockSize_def Let_def split: sum.split)

lemma tryCandidates_mem:
  "tryCandidates rd sz ps ds cs = Inr (r, st, s) \<Longrightarrow> (r, s) \<in> set cs \<and> checkCandidate rd sz ps ds r = Inr (Some st)"
  by (induction rd sz ps ds cs rule: tryCandidates.induct) (auto split: sum.splits option.splits)

lemma orderedSuperblocks_mem:
  "orderedSuperblocks a b = Inr cs \<Longrightarrow> set cs = set (slotRoot a 0 @ slotRoot b 1)"
  using slotRoot_cases [of a 0] slotRoot_cases [of b 1]
  by (auto simp: orderedSuperblocks_def split: if_splits)

text \<open>The bytes a recovered generation consists of: its record, its state page, its free-tree page and
  the pages its state names.\<close>

definition footprint :: "u32 \<Rightarrow> Superblock \<Rightarrow> StateRoot \<Rightarrow> (nat \<times> nat) list" where
  "footprint ps r st =
     [(unat (slot r) * unat ps, 128), (unat (sb_StateOffset r), unat (sb_StateLength r)),
      (unat (sb_FreeOffset r), unat (sb_FreeLength r))] @
     map (\<lambda>ref. (unat (pr_Offset ref), unat (pr_Length ref)))
       [sr_ChunkDirectory st, sr_KeyDirectory st, sr_IndexDirectory st, sr_TTLDirectory st]"

definition agree_on :: "(nat \<times> nat) list \<Rightarrow> bytes \<Rightarrow> bytes \<Rightarrow> bool" where
  "agree_on fp a b \<longleftrightarrow> (\<forall>(off, n) \<in> set fp. get_bytes off n a = get_bytes off n b)"

lemma readRefs_cong:
  "\<forall>ref \<in> set refs. get_bytes (unat (pr_Offset ref)) (unat (pr_Length ref)) a = get_bytes (unat (pr_Offset ref)) (unat (pr_Length ref)) b \<Longrightarrow>
   readRefs (fileRead a) st refs = readRefs (fileRead b) st refs"
  by (induction refs) (auto simp: fileRead_def split: sum.splits)

lemma checkState_state: "checkState rd True r = Inr (Some st) \<Longrightarrow>
   \<exists>page. DecodeStateRootPage page (sb_FileEnd r) = Inr st \<and>
     readCheckedPage rd (sb_StateOffset r) (sb_StateLength r) (sb_StateChecksum r) = Inr (Some page)"
  by (auto simp: checkState_def split: sum.splits option.splits if_splits io_error.splits)

lemma checkCandidate_cong:
  assumes ok: "checkCandidate (fileRead a) (length a) ps True r = Inr (Some st)"
    and ag: "agree_on (footprint ps r st) a b" and len: "length a \<le> length b"
  shows "checkCandidate (fileRead b) (length b) ps True r = Inr (Some st)"
proof -
  have st: "checkState (fileRead a) True r = Inr (Some st)" and fr: "checkFree (fileRead a) True r st = Inr True"
    and sz: "sb_PageSize r = ps" "unat (sb_FileEnd r) \<le> length a"
    using ok by (auto simp: checkCandidate_def split: sum.splits option.splits if_splits)
  have rd: "readCheckedPage (fileRead a) (sb_StateOffset r) (sb_StateLength r) c =
      readCheckedPage (fileRead b) (sb_StateOffset r) (sb_StateLength r) c"
    "readCheckedPage (fileRead a) (sb_FreeOffset r) (sb_FreeLength r) c =
      readCheckedPage (fileRead b) (sb_FreeOffset r) (sb_FreeLength r) c" for c
    using ag by (simp_all add: readCheckedPage_def fileRead_def agree_on_def footprint_def)
  have refs: "readStateRootRefs (fileRead a) st = readStateRootRefs (fileRead b) st"
    unfolding readStateRootRefs_def by (rule readRefs_cong) (use ag in \<open>auto simp: agree_on_def footprint_def\<close>)
  obtain page where "DecodeStateRootPage page (sb_FileEnd r) = Inr st"
    "readCheckedPage (fileRead a) (sb_StateOffset r) (sb_StateLength r) (sb_StateChecksum r) = Inr (Some page)"
    using checkState_state [OF st] by blast
  then have "checkState (fileRead b) True r = checkState (fileRead a) True r"
    using rd refs by (simp add: checkState_def)
  moreover have "checkFree (fileRead b) True r st = checkFree (fileRead a) True r st"
    using rd(2) by (simp add: checkFree_def)
  ultimately show ?thesis using st fr sz len by (simp add: checkCandidate_def)
qed

lemma recover_candidate:
  assumes "recover content ps scratch = Inr (r, st, s)"
  shows "DecodeSuperblock (header_at content ps (slot r)) = Inr r" "s = uint (slot r)"
    "checkCandidate (fileRead content) (length content) ps True r = Inr (Some st)"
    "validPhysicalPageSize ps" "\<not> scratch < unat ps"
proof -
  show v: "validPhysicalPageSize ps" "\<not> scratch < unat ps" using assms by (auto simp: recover_eq split: if_splits)
  then obtain cs where cs: "orderedSuperblocks (header_at content ps 0) (header_at content ps 1) = Inr cs"
    "tryCandidates (fileRead content) (length content) ps True cs = Inr (r, st, s)"
    using assms by (auto simp: recover_eq split: sum.splits)
  note m = tryCandidates_mem [OF cs(2)]
  show "checkCandidate (fileRead content) (length content) ps True r = Inr (Some st)" using m by simp
  have "(r, s) \<in> set (slotRoot (header_at content ps 0) 0) \<or> (r, s) \<in> set (slotRoot (header_at content ps 1) 1)"
    using m orderedSuperblocks_mem [OF cs(1)] by auto
  then show "DecodeSuperblock (header_at content ps (slot r)) = Inr r" "s = uint (slot r)"
    by (auto dest: slotRoot_mem)
qed

lemma ordered_one:
  "DecodeSuperblock (if slot r = 0 then a else b) = Inr r \<Longrightarrow> DecodeSuperblock (if slot r = 0 then b else a) = Inl e \<Longrightarrow>
   orderedSuperblocks a b = Inr [(r, uint (slot r))]"
  using slot_cases [of r] by (auto simp: orderedSuperblocks_def slotRoot_eq slotRoot_error split: if_splits)

lemma ordered_two:
  assumes "DecodeSuperblock (if slot r = 0 then a else b) = Inr r" "DecodeSuperblock (if slot r = 0 then b else a) = Inr r'"
    and "sb_Generation r' = sb_Generation r + 1" "sb_StoreID r' = sb_StoreID r" "sb_PageSize r' = sb_PageSize r"
  shows "orderedSuperblocks a b = Inr [(r', uint (slot r')), (r, uint (slot r))]"
proof -
  have "validateSuperblock r' = None" using decode_canonical(2) [OF assms(2)] .
  then have "sb_Generation r' \<noteq> 0" by (auto simp: validateSuperblock_def split: if_splits)
  then have lt: "sb_Generation r < sb_Generation r'" using generation_next [OF assms(3)] by simp
  have s: "slot r' = 1 - slot r" by (rule slot_next [OF assms(3)])
  show ?thesis
  proof (cases "slot r = 0")
    case True
    then show ?thesis using assms lt s by (simp add: orderedSuperblocks_def slotRoot_eq)
  next
    case False
    then have "slot r = 1" using slot_cases by blast
    then show ?thesis using assms lt s False by (auto simp: orderedSuperblocks_def slotRoot_eq dest: order.asym)
  qed
qed

text \<open>C11. Crash safety of a publication. Let a file recover to a generation, and change it anywhere outside that generation's own bytes. Whatever ends up in the other slot: if it is torn, recovery still returns the old generation; if it is the next generation's record but the generation itself is damaged, recovery falls back to the old one; if the next generation is intact, recovery returns it.\<close>

theorem recovery_crash_safe:
  assumes old: "recover content ps scratch = Inr (r, st, s)"
    and ag: "agree_on (footprint ps r st) content content'" and len: "length content \<le> length content'"
  defines "other \<equiv> DecodeSuperblock (header_at content' ps (1 - slot r))"
    and "next r' \<equiv> sb_Generation r' = sb_Generation r + 1 \<and> sb_StoreID r' = sb_StoreID r \<and> sb_PageSize r' = sb_PageSize r"
    and "check r' \<equiv> checkCandidate (fileRead content') (length content') ps True r'"
  shows "(\<forall>e. other = Inl e \<longrightarrow> recover content' ps scratch = Inr (r, st, s)) \<and>
     (\<forall>r'. other = Inr r' \<and> next r' \<and> check r' = Inr None \<longrightarrow> recover content' ps scratch = Inr (r, st, s)) \<and>
     (\<forall>r' st'. other = Inr r' \<and> next r' \<and> check r' = Inr (Some st') \<longrightarrow>
        recover content' ps scratch = Inr (r', st', uint (slot r')))"
proof -
  note old' = recover_candidate [OF old]
  have ck: "checkCandidate (fileRead content') (length content') ps True r = Inr (Some st)"
    by (rule checkCandidate_cong [OF old'(3) ag len])
  have "get_bytes (unat (slot r) * unat ps) 128 content' = get_bytes (unat (slot r) * unat ps) 128 content"
    using ag by (simp add: agree_on_def footprint_def)
  then have own: "DecodeSuperblock (header_at content' ps (slot r)) = Inr r"
    using old'(1) by (simp add: header_at_def)
  let ?a = "header_at content' ps 0" and ?b = "header_at content' ps 1"
  have sel: "(if slot r = 0 then ?a else ?b) = header_at content' ps (slot r)"
    "(if slot r = 0 then ?b else ?a) = header_at content' ps (1 - slot r)"
    using slot_cases [of r] by auto
  have rec: "recover content' ps scratch = (case orderedSuperblocks ?a ?b of Inl e \<Rightarrow> Inl e
      | Inr cs \<Rightarrow> tryCandidates (fileRead content') (length content') ps True cs)"
    using old'(4,5) by (simp add: recover_eq)
  have torn: "orderedSuperblocks ?a ?b = Inr [(r, uint (slot r))]" if "other = Inl e" for e
    by (rule ordered_one) (use own that in \<open>simp_all add: sel other_def\<close>)
  have two: "orderedSuperblocks ?a ?b = Inr [(r', uint (slot r')), (r, uint (slot r))]" if "other = Inr r'" "next r'" for r'
    by (rule ordered_two) (use own that in \<open>simp_all add: sel other_def next_def\<close>)
  show ?thesis using torn two ck old'(2) unfolding rec check_def by auto
qed

section \<open>A sample file\<close>

definition sample_superblock :: "bytes \<Rightarrow> Superblock" where
  "sample_superblock page = \<lparr>sb_StoreID = 7, sb_Generation = 3, sb_StateOffset = 8192, sb_StateLength = 4096,
     sb_StateChecksum = PageChecksum page, sb_FileEnd = 12288, sb_FreeOffset = 0, sb_FreeLength = 0, sb_FreeChecksum = 0,
     sb_PageSize = 4096, sb_Flags = 0\<rparr>"

lemma sample_superblock_valid: "validateSuperblock (sample_superblock page) = None"
  by (simp add: sample_superblock_def validateSuperblock_def superblockKnownFlags_def validPhysicalPageSize_def
      physicalPageQuantum_def superblockCopies_def maxSuperblockFileOffset_val validRootExtent_def Let_def)

lemma sample_slot: "slot (sample_superblock page) = 0"
  by (simp add: slot_def sample_superblock_def superblockCopies_def)

definition sample_file :: "bytes \<Rightarrow> bytes" where
  "sample_file page = sealedSuperblock (sample_superblock page) @ replicate (8192 - 128) 0 @ page"

lemma sample_file_reads:
  assumes "length page = 4096"
  shows "length (sample_file page) = 12288" "get_bytes 0 128 (sample_file page) = sealedSuperblock (sample_superblock page)"
    "get_bytes 4096 128 (sample_file page) = replicate 128 0" "get_bytes 8192 4096 (sample_file page) = page"
  using assms by (simp_all add: sample_file_def get_bytes_def)

lemma decode_zeros: "DecodeSuperblock (replicate 128 0) = Inl ErrSuperblockCorrupt"
  by (simp add: DecodeSuperblock_def SuperblockSize_def superblockMagic_def get_bytes_def Let_def numeral_eq_Suc)

lemma sample_recovers:
  assumes "length page = 4096" "DecodeStateRootPage page 12288 = Inr sample_root"
  shows "recover (sample_file page) 4096 4096 = Inr (sample_superblock page, sample_root, 0)"
proof -
  let ?f = "sample_file page" and ?r = "sample_superblock page"
  note rd = sample_file_reads [OF assms(1)]
  have "header_at ?f 4096 0 = sealedSuperblock ?r" "header_at ?f 4096 1 = replicate 128 0"
    using rd by (simp_all add: header_at_def Let_def)
  moreover have "DecodeSuperblock (sealedSuperblock ?r) = Inr ?r"
    using decode_sealedSuperblock [OF sample_superblock_valid, of page "[]"] by simp
  ultimately have ord: "orderedSuperblocks (header_at ?f 4096 0) (header_at ?f 4096 1) = Inr [(?r, 0)]"
    using ordered_one [of ?r "header_at ?f 4096 0" "header_at ?f 4096 1"] by (simp add: sample_slot decode_zeros)
  have st: "checkState (fileRead ?f) True ?r = Inr (Some sample_root)"
    using rd assms
    by (simp add: checkState_def readCheckedPage_def fileRead_def sample_superblock_def sample_root_def zeroPageRef_def
        stateRootReferencesOffset_def readStateRootRefs_def)
  have "checkCandidate (fileRead ?f) (length ?f) 4096 True ?r = Inr (Some sample_root)"
    using rd(1) st by (simp add: checkCandidate_def checkFree_def sample_superblock_def)
  then show ?thesis
    using ord by (simp add: recover_eq validPhysicalPageSize_def physicalPageQuantum_def)
qed

theorem recovery_crash_safe_witness:
  "\<exists>content r st. recover content 4096 4096 = Inr (r, st, 0) \<and> recover (content @ [1, 2, 3]) 4096 4096 = Inr (r, st, 0)"
proof -
  obtain page where p: "length page = 4096" "DecodeStateRootPage page 12288 = Inr sample_root"
    using state_root_encode [OF sample_root_valid, of "replicate 4096 0"] by (auto simp: sample_root_def)
  let ?f = "sample_file page"
  note rd = sample_file_reads [OF p(1)]
  have "agree_on (footprint 4096 (sample_superblock page) sample_root) ?f (?f @ [1, 2, 3])"
    using rd(1) sample_slot [of page, unfolded sample_superblock_def]
    by (simp add: agree_on_def footprint_def sample_superblock_def sample_root_def zeroPageRef_def)
  moreover have "DecodeSuperblock (header_at (?f @ [1, 2, 3]) 4096 (1 - slot (sample_superblock page))) = Inl ErrSuperblockCorrupt"
    using rd by (simp add: header_at_def sample_slot Let_def decode_zeros)
  ultimately have "recover (?f @ [1, 2, 3]) 4096 4096 = Inr (sample_superblock page, sample_root, 0)"
    using recovery_crash_safe [OF sample_recovers [OF p], of "?f @ [1, 2, 3]"] by simp
  then show ?thesis using sample_recovers [OF p] by blast
qed

theorem superblock_roundtrip_witness:
  "\<exists>b. EncodeSuperblock (replicate 128 1) (sample_superblock []) = Inr b \<and> length b = 128 \<and>
     DecodeSuperblock (b @ [0]) = Inr (sample_superblock [])"
  by (rule superblock_roundtrip [OF sample_superblock_valid]) simp

theorem superblock_canonical_witness:
  "EncodeSuperblock (replicate 128 0) (sample_superblock []) = Inr (take 128 (sealedSuperblock (sample_superblock [])))"
proof -
  have "DecodeSuperblock (sealedSuperblock (sample_superblock [])) = Inr (sample_superblock [])"
    using decode_sealedSuperblock [OF sample_superblock_valid, of "[]" "[]"] by simp
  from superblock_canonical [OF this] show ?thesis .
qed

end
