(* ===== verification/WriteTransactionCorrect.thy ===== *)
theory WriteTransactionCorrect
  imports WriteTransaction LeasesCorrect CommitterCorrect SuperblockCorrect
begin

unbundle bit_operations_syntax

text \<open>
  Correctness of the write transaction of theory \<open>WriteTransaction\<close>: the extents it hands out are aligned,
  pairwise disjoint and disjoint from what stays reusable, whatever sequence of allocations, refusals and
  changes of the reuse phase leads to them, and an abort gives the caller its reusable extents back.
\<close>

section \<open>Physical allocation\<close>

definition reuse_ok :: "WriteTransaction \<Rightarrow> bool" where
  "reuse_ok t \<longleftrightarrow> wt_reuseEnd t \<le> length (wo_Reusable (wt_options t)) \<and>
     wt_reuseIndex t < int (length (wo_Reusable (wt_options t)))"

lemma selectReusable_result:
  assumes "selectReusable reusable single want exclude selected is = i" "0 \<le> i"
    and "0 \<le> selected \<Longrightarrow> nat selected < n \<and> want \<le> fe_Length (reusable ! nat selected)" "\<forall>i \<in> set is. i < n"
  shows "nat i < n \<and> want \<le> fe_Length (reusable ! nat i)"
  using assms
  by (induction reusable single want exclude selected "is" rule: selectReusable.induct)
    (auto simp: not_less split: if_splits)

definition usable :: "WriteTransactionOptions \<Rightarrow> FreeExtent \<Rightarrow> bool" where
  "usable opts e \<longleftrightarrow> \<not> (fe_Offset e < 2 * ucast (wo_PageSize opts) \<or> fe_Offset e mod ucast (wo_PageSize opts) \<noteq> 0 \<or>
     fe_Length e mod ucast (wo_PageSize opts) \<noteq> 0 \<or> fe_Length e > wo_FileEnd opts \<or>
     fe_Offset e > wo_FileEnd opts - fe_Length e \<or>
     fe_RetiredGeneration e = 0 \<or> fe_RetiredGeneration e \<ge> wo_Generation opts)"

definition shrink :: "FreeExtent \<Rightarrow> u64 \<Rightarrow> FreeExtent" where
  "shrink e want = (let e' = e\<lparr>fe_Length := fe_Length e - want\<rparr> in if fe_Length e' = 0 then zeroFreeExtent else e')"

lemma allocateFromReusable_eq:
  "allocateFromReusable t i e want =
     (if \<not> usable (wt_options t) e then (t, Inl ErrInvalidWrite)
      else if length (wt_reuseEdits t) = wo_journalCap (wt_options t) then (t, Inl ErrTooManyPages)
      else (setReusable (t\<lparr>wt_reuseEdits := wt_reuseEdits t @ [\<lparr>re_Index = of_nat i, re_Before = e\<rparr>]\<rparr>) i (shrink e want),
            Inr (fe_Offset e + fe_Length e - want, True)))"
  by (simp add: allocateFromReusable_def usable_def shrink_def Let_def)

inductive physical :: "WriteTransaction \<Rightarrow> u64 \<Rightarrow> WriteTransaction \<Rightarrow> (io_error + (u64 \<times> bool)) \<Rightarrow> bool" where
  refused: "reuse_ok (t\<lparr>wt_reuseIndex := i\<rparr>) \<Longrightarrow> physical t want (t\<lparr>wt_reuseIndex := i\<rparr>) (Inl err)"
| appended: "physical t want t (Inr (wt_fileEnd t, False))"
| reused: "i < length (wo_Reusable (wt_options t)) \<Longrightarrow> e = wo_Reusable (wt_options t) ! i \<Longrightarrow>
     usable (wt_options t) e \<Longrightarrow> want \<le> fe_Length e \<Longrightarrow>
     physical t want (setReusable (t\<lparr>wt_reuseIndex := int i,
         wt_reuseEdits := wt_reuseEdits t @ [\<lparr>re_Index = of_nat i, re_Before = e\<rparr>]\<rparr>) i (shrink e want))
       (Inr (fe_Offset e + fe_Length e - want, True))"

lemma physical_from:
  assumes "i < length (wo_Reusable (wt_options t))" "want \<le> fe_Length (wo_Reusable (wt_options t) ! i)"
    and "wt_reuseEnd t \<le> length (wo_Reusable (wt_options t))"
    and "allocateFromReusable (t\<lparr>wt_reuseIndex := int i\<rparr>) i (wo_Reusable (wt_options t) ! i) want = (t', r)"
  shows "physical t want t' r"
proof -
  let ?e = "wo_Reusable (wt_options t) ! i"
  have "physical t want (t\<lparr>wt_reuseIndex := int i\<rparr>) (Inl err)" for err
    by (rule refused) (use assms(1,3) in \<open>simp add: reuse_ok_def\<close>)
  moreover have "physical t want (setReusable (t\<lparr>wt_reuseIndex := int i,
      wt_reuseEdits := wt_reuseEdits t @ [\<lparr>re_Index = of_nat i, re_Before = ?e\<rparr>]\<rparr>) i (shrink ?e want))
      (Inr (fe_Offset ?e + fe_Length ?e - want, True))" if "usable (wt_options t) ?e"
    using assms(1,2) that by (intro reused) auto
  ultimately show ?thesis using assms(4) by (auto simp: allocateFromReusable_eq split: if_splits)
qed

lemma allocatePhysical_cases:
  assumes "allocatePhysical t len = (t', r)" "reuse_ok t"
  shows "physical t (ucast len) t' r"
proof -
  have self: "t\<lparr>wt_reuseIndex := wt_reuseIndex t\<rparr> = t" by simp
  have no: "physical t want t (Inl err)" for err want
    using refused [where t = t and i = "wt_reuseIndex t"] assms(2) by simp
  let ?opts = "wt_options t" let ?R = "wo_Reusable ?opts" let ?want = "ucast len :: u64"
  let ?sel = "selectReusable ?R (wo_SingleReuseExtent ?opts) ?want (wt_reuseExclude t) (- 1) [wt_reuseStart t ..< wt_reuseEnd t]"
  have sel: "nat ?sel < length ?R \<and> ?want \<le> fe_Length (?R ! nat ?sel)" if "0 \<le> ?sel"
    by (rule selectReusable_result [OF refl that]) (use assms(2) in \<open>auto simp: reuse_ok_def\<close>)
  have cases: "r = Inl ErrInvalidWrite \<and> t' = t \<or> r = Inr (wt_fileEnd t, False) \<and> t' = t \<or>
     (\<exists>i < length ?R. ?want \<le> fe_Length (?R ! i) \<and>
        allocateFromReusable (t\<lparr>wt_reuseIndex := int i\<rparr>) i (?R ! i) ?want = (t', r))"
  proof (cases "wt_reuseEnabled t \<and> wo_SingleReuseExtent ?opts \<and> 0 \<le> wt_reuseIndex t")
    case True
    let ?i = "nat (wt_reuseIndex t)"
    have i: "?i < length ?R" "t\<lparr>wt_reuseIndex := int ?i\<rparr> = t" using True assms(2) by (auto simp: reuse_ok_def)
    show ?thesis using assms(1) True i by (auto simp: allocatePhysical_def Let_def not_less split: if_splits intro!: exI [of _ ?i])
  next
    case False
    then show ?thesis using assms(1) sel
      by (auto simp: allocatePhysical_def Let_def split: if_splits intro!: exI [of _ "nat ?sel"])
  qed
  then show ?thesis using no appended [of t ?want] physical_from [of _ t ?want t' r] assms(2)
    by (auto simp: reuse_ok_def)
qed

section \<open>The geometry of a reused extent\<close>

definition ref_range :: "PageRef \<Rightarrow> nat set" where
  "ref_range r = {unat (pr_Offset r) ..< unat (pr_Offset r) + unat (pr_Length r)}"

lemma usable_nat:
  assumes "usable opts e"
  shows "2 * unat (wo_PageSize opts) \<le> unat (fe_Offset e)"
    "unat (fe_Offset e) mod unat (wo_PageSize opts) = 0" "unat (fe_Length e) mod unat (wo_PageSize opts) = 0"
    "unat (fe_Offset e) + unat (fe_Length e) \<le> unat (wo_FileEnd opts)"
proof -
  let ?p = "ucast (wo_PageSize opts) :: u64"
  have p: "unat ?p = unat (wo_PageSize opts)" by (simp add: unat_ucast_up)
  have "unat (wo_PageSize opts) < 2 ^ 32" using unsigned_less [of "wo_PageSize opts", where ?'a = nat] by simp
  then have "unat (2 * ?p) = 2 * unat (wo_PageSize opts)" by (simp add: unat_word_ariths p)
  then show "2 * unat (wo_PageSize opts) \<le> unat (fe_Offset e)"
    using assms by (simp add: usable_def word_less_nat_alt)
  have "unat (fe_Offset e mod ?p) = 0" "unat (fe_Length e mod ?p) = 0" using assms by (simp_all add: usable_def)
  then show "unat (fe_Offset e) mod unat (wo_PageSize opts) = 0" "unat (fe_Length e) mod unat (wo_PageSize opts) = 0"
    by (simp_all add: unat_mod p)
  have "fe_Length e \<le> wo_FileEnd opts" "fe_Offset e \<le> wo_FileEnd opts - fe_Length e"
    using assms by (simp_all add: usable_def not_less)
  then show "unat (fe_Offset e) + unat (fe_Length e) \<le> unat (wo_FileEnd opts)"
    by (simp add: word_le_nat_alt unat_sub)
qed

lemma tail_offset:
  assumes "usable opts e" "want \<le> fe_Length e"
  shows "unat (fe_Offset e + fe_Length e - want) = unat (fe_Offset e) + unat (fe_Length e) - unat want"
proof -
  have "unat (fe_Offset e) + unat (fe_Length e) < 2 ^ 64"
    using usable_nat(4) [OF assms(1)] unsigned_less [of "wo_FileEnd opts", where ?'a = nat] by simp
  then have u: "unat (fe_Offset e + fe_Length e) = unat (fe_Offset e) + unat (fe_Length e)" by (simp add: unat_word_ariths)
  then have "want \<le> fe_Offset e + fe_Length e" using assms(2) by (simp add: word_le_nat_alt)
  then show ?thesis using u by (simp add: unat_sub)
qed

lemma shrink_range:
  assumes "want \<le> fe_Length e"
  shows "extent_range (shrink e want) \<subseteq> {unat (fe_Offset e) ..< unat (fe_Offset e) + unat (fe_Length e) - unat want}"
proof (cases "fe_Length e = want")
  case False
  have "unat (fe_Length e - want) = unat (fe_Length e) - unat want" using assms by (simp add: unat_sub word_le_nat_alt)
  then show ?thesis using False assms by (simp add: shrink_def extent_range_def word_le_nat_alt)
qed (simp add: shrink_def extent_range_def zeroFreeExtent_def)

lemma tail_range:
  assumes "usable opts e" "ucast (pr_Length r) \<le> fe_Length e" "pr_Offset r = fe_Offset e + fe_Length e - ucast (pr_Length r)"
  shows "ref_range r \<subseteq> extent_range e" "ref_range r \<inter> extent_range (shrink e (ucast (pr_Length r))) = {}"
    "extent_range (shrink e (ucast (pr_Length r))) \<subseteq> extent_range e" "extent_range e \<subseteq> {..<unat (wo_FileEnd opts)}"
    "unat (pr_Length r) mod unat (wo_PageSize opts) = 0 \<Longrightarrow> unat (pr_Offset r) mod unat (wo_PageSize opts) = 0"
    "2 * unat (wo_PageSize opts) \<le> unat (pr_Offset r)"
proof -
  let ?w = "ucast (pr_Length r) :: u64"
  have w: "unat ?w = unat (pr_Length r)" by (simp add: unat_ucast_up)
  have le: "unat (pr_Length r) \<le> unat (fe_Length e)" using assms(2) by (simp add: word_le_nat_alt w)
  have o: "unat (pr_Offset r) = unat (fe_Offset e) + unat (fe_Length e) - unat (pr_Length r)"
    using tail_offset [OF assms(1,2)] assms(3) w by simp
  note u = usable_nat [OF assms(1)]
  show "ref_range r \<subseteq> extent_range e" using le by (auto simp: ref_range_def extent_range_def o)
  show "extent_range (shrink e ?w) \<subseteq> extent_range e"
    using shrink_range [OF assms(2)] by (auto simp: extent_range_def)
  show "ref_range r \<inter> extent_range (shrink e ?w) = {}"
    using shrink_range [OF assms(2)] le by (auto simp: ref_range_def o w)
  show "extent_range e \<subseteq> {..<unat (wo_FileEnd opts)}" using u(4) by (auto simp: extent_range_def)
  show "2 * unat (wo_PageSize opts) \<le> unat (pr_Offset r)" using u(1) le by (simp add: o)
  show "unat (pr_Offset r) mod unat (wo_PageSize opts) = 0" if "unat (pr_Length r) mod unat (wo_PageSize opts) = 0"
    using u(2,3) that le by (auto simp: o mod_0_imp_dvd intro!: dvd_imp_mod_0 dvd_diff_nat)
qed

section \<open>Runs of a transaction\<close>

text \<open>A run collects the references handed out so far; the committer may change between the calls, as the
  caller fills the staging buffers.\<close>

inductive tx_step :: "WriteTransaction \<times> PageRef list \<Rightarrow> WriteTransaction \<times> PageRef list \<Rightarrow> bool" where
  allocate: "Allocate c t kind len logicalID = (t', Inr p) \<Longrightarrow> tx_step (t, refs) (t', refs @ [tp_ref p])"
| refuse: "Allocate c t kind len logicalID = (t', Inl err) \<Longrightarrow> tx_step (t, refs) (t', refs)"
| stage: "Stage admit c t p = Inr t' \<Longrightarrow> tx_step (t, refs) (t', refs)"
| disable: "tx_step (t, refs) (DisableReuse t, refs)"
| set_range: "SetReuseRange t start stop exclude = Inr t' \<Longrightarrow> tx_step (t, refs) (t', refs)"

definition batch_ok :: "WriteTransaction \<Rightarrow> bool" where
  "batch_ok t \<longleftrightarrow> wt_active t \<and> (\<exists>b. wt_batch t = Some b \<and> b_state b = batchOwned) \<and> length (batchPages t) \<le> 2 ^ 30"

definition journal_ok :: "WriteTransactionOptions \<Rightarrow> WriteTransaction \<Rightarrow> bool" where
  "journal_ok opts t \<longleftrightarrow> wt_options t = opts\<lparr>wo_Reusable := wo_Reusable (wt_options t)\<rparr> \<and>
     length (wo_Reusable (wt_options t)) = length (wo_Reusable opts) \<and>
     undoEdits (wt_reuseEdits t) (wo_Reusable (wt_options t)) = wo_Reusable opts"

definition file_ok :: "WriteTransactionOptions \<Rightarrow> WriteTransaction \<Rightarrow> bool" where
  "file_ok opts t \<longleftrightarrow> wt_allocated t \<le> length (batchPages t) \<and> unat (wo_FileEnd opts) \<le> unat (wt_fileEnd t) \<and>
     unat (wt_fileEnd t) \<le> unat (wo_FileEnd opts) + wt_allocated t * 2 ^ 32 \<and>
     unat (wt_fileEnd t) mod unat (wo_PageSize opts) = 0"

definition placed :: "WriteTransactionOptions \<Rightarrow> WriteTransaction \<Rightarrow> PageRef \<Rightarrow> bool" where
  "placed opts t r \<longleftrightarrow> unat (pr_Offset r) mod unat (wo_PageSize opts) = 0 \<and> 2 * unat (wo_PageSize opts) \<le> unat (pr_Offset r) \<and>
     (ref_range r \<subseteq> {unat (wo_FileEnd opts) ..< unat (wt_fileEnd t)} \<or>
      ref_range r \<subseteq> {..<unat (wo_FileEnd opts)} \<and> (\<forall>e \<in> set (wo_Reusable (wt_options t)). ref_range r \<inter> extent_range e = {}))"

definition apart :: "WriteTransactionOptions \<Rightarrow> WriteTransaction \<Rightarrow> PageRef list \<Rightarrow> bool" where
  "apart opts t refs \<longleftrightarrow>
     sorted_wrt (\<lambda>a b. extent_range a \<inter> extent_range b = {}) (wo_Reusable (wt_options t)) \<and>
     sorted_wrt (\<lambda>a b. ref_range a \<inter> ref_range b = {}) refs \<and> (\<forall>r \<in> set refs. placed opts t r)"

definition tx_inv :: "WriteTransactionOptions \<Rightarrow> WriteTransaction \<times> PageRef list \<Rightarrow> bool" where
  "tx_inv opts = (\<lambda>(t, refs). batch_ok t \<and> reuse_ok t \<and> journal_ok opts t \<and> file_ok opts t \<and> apart opts t refs)"

definition tx_options :: "WriteTransactionOptions \<Rightarrow> bool" where
  "tx_options opts \<longleftrightarrow> 0 < unat (wo_PageSize opts) \<and> unat (wo_FileEnd opts) mod unat (wo_PageSize opts) = 0 \<and>
     2 * unat (wo_PageSize opts) \<le> unat (wo_FileEnd opts) \<and> unat (wo_FileEnd opts) < 2 ^ 63 \<and>
     length (wo_Reusable opts) < 2 ^ 32"

lemma sorted_wrt_update:
  assumes "sorted_wrt (\<lambda>a b. extent_range a \<inter> extent_range b = {}) es" "i < length es" "extent_range e \<subseteq> extent_range (es ! i)"
  shows "sorted_wrt (\<lambda>a b. extent_range a \<inter> extent_range b = {}) (es[i := e])"
  using assms by (auto simp: sorted_wrt_iff_nth_less nth_list_update)

lemma disjoint_others:
  assumes "sorted_wrt (\<lambda>a b. extent_range a \<inter> extent_range b = {}) es" "i < length es" "j < length es" "i \<noteq> j"
  shows "extent_range (es ! i) \<inter> extent_range (es ! j) = {}"
proof (cases "i < j")
  case False
  then have "extent_range (es ! j) \<inter> extent_range (es ! i) = {}" using assms by (simp add: sorted_wrt_iff_nth_less)
  then show ?thesis by blast
qed (use assms in \<open>simp add: sorted_wrt_iff_nth_less\<close>)

lemma undo_snoc:
  assumes "i < length es" "length es < 2 ^ 32" "undoEdits edits es = r"
  shows "undoEdits (edits @ [\<lparr>re_Index = of_nat i, re_Before = es ! i\<rparr>]) (es[i := e]) = r"
proof -
  have "unat (of_nat i :: u32) = i" by (subst unat_of_nat) (use assms in simp)
  then show ?thesis using assms by (simp add: undoEdits_def)
qed

lemma journal_opts:
  assumes "journal_ok opts t"
  shows "wo_PageSize (wt_options t) = wo_PageSize opts" "wo_FileEnd (wt_options t) = wo_FileEnd opts"
    "wo_Generation (wt_options t) = wo_Generation opts" "wo_StoreID (wt_options t) = wo_StoreID opts"
proof -
  have "wt_options t = opts\<lparr>wo_Reusable := wo_Reusable (wt_options t)\<rparr>" using assms by (simp add: journal_ok_def)
  then obtain es where "wt_options t = opts\<lparr>wo_Reusable := es\<rparr>" by blast
  then show "wo_PageSize (wt_options t) = wo_PageSize opts" "wo_FileEnd (wt_options t) = wo_FileEnd opts"
    "wo_Generation (wt_options t) = wo_Generation opts" "wo_StoreID (wt_options t) = wo_StoreID opts" by simp_all
qed

lemma apart_reuse:
  assumes a: "apart opts t refs" and j: "journal_ok opts t" and i: "i < length (wo_Reusable (wt_options t))"
    and e: "e = wo_Reusable (wt_options t) ! i" "usable (wt_options t) e" "ucast (pr_Length r) \<le> fe_Length e"
    and r: "pr_Offset r = fe_Offset e + fe_Length e - ucast (pr_Length r)"
    and len: "unat (pr_Length r) mod unat (wo_PageSize opts) = 0"
    and t': "wo_Reusable (wt_options t') = (wo_Reusable (wt_options t))[i := shrink e (ucast (pr_Length r))]" "wt_fileEnd t' = wt_fileEnd t"
  shows "apart opts t' (refs @ [r])"
proof -
  let ?R = "wo_Reusable (wt_options t)" let ?e' = "shrink e (ucast (pr_Length r))"
  have o: "wo_PageSize (wt_options t) = wo_PageSize opts" "wo_FileEnd (wt_options t) = wo_FileEnd opts"
    using journal_opts [OF j] by simp_all
  note tr = tail_range [OF e(2,3) r, unfolded o]
  have srt: "sorted_wrt (\<lambda>a b. extent_range a \<inter> extent_range b = {}) ?R" using a by (simp add: apart_def)
  have in_R: "e \<in> set ?R" using i e(1) by simp
  have new: "set (wo_Reusable (wt_options t')) \<subseteq> insert ?e' (set ?R)" by (simp add: t' set_update_subset_insert)
  have others: "ref_range r \<inter> extent_range x = {}" if x: "x \<in> set (?R[i := ?e'])" for x
  proof -
    obtain k where k: "k < length ?R" "x = ?R[i := ?e'] ! k" using x by (auto simp: in_set_conv_nth)
    show ?thesis
    proof (cases "k = i")
      case True
      then show ?thesis using k tr(2) by simp
    next
      case False
      then have "extent_range e \<inter> extent_range x = {}" using disjoint_others [OF srt i k(1)] k(2) e(1) by simp
      then show ?thesis using tr(1) by blast
    qed
  qed
  have old: "placed opts t' q \<and> ref_range q \<inter> ref_range r = {}" if q: "q \<in> set refs" for q
  proof -
    have p: "placed opts t q" using a q by (simp add: apart_def)
    have "ref_range q \<inter> ref_range r = {}" using p in_R tr(1,4) by (fastforce simp: placed_def)
    moreover have "ref_range q \<inter> extent_range x = {}"
      if "x \<in> set (wo_Reusable (wt_options t'))" "\<forall>e \<in> set ?R. ref_range q \<inter> extent_range e = {}" for x
      using that new in_R tr(3) by fastforce
    then have "placed opts t' q" using p t'(2) unfolding placed_def by auto
    ultimately show ?thesis by blast
  qed
  have "placed opts t' r" using tr(1,4,5,6) len others by (auto simp: placed_def t'(1))
  then show ?thesis using a old sorted_wrt_update [OF srt i, of ?e'] tr(3)
    by (simp add: apart_def sorted_wrt_append t'(1) e(1))
qed

lemma apart_append:
  assumes a: "apart opts t refs" and f: "file_ok opts t" and o: "tx_options opts"
    and r: "pr_Offset r = wt_fileEnd t" "unat (pr_Length r) mod unat (wo_PageSize opts) = 0"
    and t': "wo_Reusable (wt_options t') = wo_Reusable (wt_options t)" "unat (wt_fileEnd t') = unat (wt_fileEnd t) + unat (pr_Length r)"
  shows "apart opts t' (refs @ [r])"
proof -
  have "ref_range r \<subseteq> {unat (wo_FileEnd opts) ..< unat (wt_fileEnd t')}"
    using f r(1) t'(2) by (auto simp: ref_range_def file_ok_def)
  moreover have "unat (pr_Offset r) mod unat (wo_PageSize opts) = 0" "2 * unat (wo_PageSize opts) \<le> unat (pr_Offset r)"
    using f o r(1) by (auto simp: file_ok_def tx_options_def)
  ultimately have new: "placed opts t' r" by (simp add: placed_def)
  have old: "placed opts t' q \<and> ref_range q \<inter> ref_range r = {}" if "q \<in> set refs" for q
  proof -
    have p: "placed opts t q" using a that by (simp add: apart_def)
    have "\<forall>x \<in> ref_range q. x < unat (wt_fileEnd t)" using p f by (fastforce simp: placed_def file_ok_def)
    moreover have "\<forall>x \<in> ref_range r. unat (wt_fileEnd t) \<le> x" using r(1) by (simp add: ref_range_def)
    ultimately have "ref_range q \<inter> ref_range r = {}" by fastforce
    moreover have "placed opts t' q" using p t' by (fastforce simp: placed_def)
    ultimately show ?thesis by blast
  qed
  then show ?thesis using a new by (simp add: apart_def sorted_wrt_append t'(1))
qed

lemmas tx_inv_defs = tx_inv_def batch_ok_def reuse_ok_def journal_ok_def file_ok_def apart_def placed_def batchPages_def

lemma tx_inv_nextID [simp]: "tx_inv opts (t\<lparr>wt_nextID := n\<rparr>, refs) = tx_inv opts (t, refs)"
  by (simp add: tx_inv_defs)

lemma tx_inv_index:
  "tx_inv opts (t, refs) \<Longrightarrow> reuse_ok (t\<lparr>wt_reuseIndex := i\<rparr>) \<Longrightarrow> tx_inv opts (t\<lparr>wt_reuseIndex := i\<rparr>, refs)"
  by (simp add: tx_inv_defs)

lemma append_inv:
  assumes inv: "tx_inv opts (t, refs)" and o: "tx_options opts" and room: "wt_allocated t < length (batchPages t)"
    and r: "pr_Offset r = wt_fileEnd t" "pr_Length r = len" "unat len mod unat (wo_PageSize opts) = 0"
  shows "tx_inv opts (t\<lparr>wt_fileEnd := wt_fileEnd t + ucast len, wt_allocated := wt_allocated t + 1\<rparr>, refs @ [r])"
proof -
  let ?t = "t\<lparr>wt_fileEnd := wt_fileEnd t + ucast len, wt_allocated := wt_allocated t + 1\<rparr>"
  have f: "file_ok opts t" and a: "apart opts t refs" and b: "batch_ok t" and rj: "reuse_ok t" "journal_ok opts t"
    using inv by (simp_all add: tx_inv_def)
  have len: "unat len < 2 ^ 32" using unsigned_less [of len, where ?'a = nat] by simp
  have "wt_allocated t * 2 ^ 32 \<le> 2 ^ 30 * 2 ^ 32" using room b by (intro mult_right_mono) (auto simp: batch_ok_def)
  then have "unat (wt_fileEnd t) + unat len < 2 ^ 64" using f o len by (simp add: file_ok_def tx_options_def)
  then have end': "unat (wt_fileEnd ?t) = unat (wt_fileEnd t) + unat len"
    by (simp add: unat_word_ariths unat_ucast_up)
  have "apart opts ?t (refs @ [r])" by (rule apart_append [OF a f o r(1)]) (use r end' in simp_all)
  moreover have "file_ok opts ?t"
  proof -
    have "unat (wt_fileEnd t) + unat len \<le> unat (wo_FileEnd opts) + (wt_allocated t + 1) * 2 ^ 32"
      using f len by (simp add: file_ok_def)
    moreover have "(unat (wt_fileEnd t) + unat len) mod unat (wo_PageSize opts) = 0"
      using f r(3) by (simp add: file_ok_def mod_0_imp_dvd)
    ultimately show ?thesis using f end' room unfolding file_ok_def by (simp add: batchPages_def)
  qed
  moreover have "batch_ok ?t" "reuse_ok ?t" "journal_ok opts ?t"
    using b rj by (simp_all add: batch_ok_def batchPages_def reuse_ok_def journal_ok_def)
  ultimately show ?thesis by (simp add: tx_inv_def)
qed

lemma reuse_inv:
  assumes inv: "tx_inv opts (t, refs)" and o: "tx_options opts" and room: "wt_allocated t < length (batchPages t)"
    and i: "i < length (wo_Reusable (wt_options t))"
    and e: "e = wo_Reusable (wt_options t) ! i" "usable (wt_options t) e" "ucast len \<le> fe_Length e"
    and r: "pr_Offset r = fe_Offset e + fe_Length e - ucast len" "pr_Length r = len" "unat len mod unat (wo_PageSize opts) = 0"
  shows "tx_inv opts ((setReusable (t\<lparr>wt_reuseIndex := int i,
      wt_reuseEdits := wt_reuseEdits t @ [\<lparr>re_Index = of_nat i, re_Before = e\<rparr>]\<rparr>) i (shrink e (ucast len)))
      \<lparr>wt_allocated := wt_allocated t + 1\<rparr>, refs @ [r])"
    (is "tx_inv opts (?t, _)")
proof -
  have f: "file_ok opts t" and a: "apart opts t refs" and b: "batch_ok t" and rj: "reuse_ok t" "journal_ok opts t"
    using inv by (simp_all add: tx_inv_def)
  have "apart opts ?t (refs @ [r])"
    by (rule apart_reuse [OF a rj(2) i e(1,2)]) (use e r in \<open>simp_all add: setReusable_def\<close>)
  moreover have "journal_ok opts ?t"
  proof -
    obtain es where es: "wt_options t = opts\<lparr>wo_Reusable := es\<rparr>" using rj(2) unfolding journal_ok_def by blast
    have "undoEdits (wt_reuseEdits ?t) (wo_Reusable (wt_options ?t)) = wo_Reusable opts"
      using undo_snoc [OF i] rj(2) o e(1) by (simp add: setReusable_def journal_ok_def tx_options_def)
    then show ?thesis using rj(2) by (simp add: journal_ok_def setReusable_def es)
  qed
  moreover have "batch_ok ?t" "reuse_ok ?t" "file_ok opts ?t"
    using b rj f i room by (simp_all add: batch_ok_def batchPages_def reuse_ok_def file_ok_def setReusable_def)
  ultimately show ?thesis by (simp add: tx_inv_def)
qed

lemma placePage_inv:
  assumes inv: "tx_inv opts (t, refs)" and o: "tx_options opts" and room: "wt_allocated t < length (batchPages t)"
    and len: "unat len mod unat (wo_PageSize opts) = 0" and p: "placePage c t kind len logicalID = (t', r)"
  shows "tx_inv opts (t', case r of Inl _ \<Rightarrow> refs | Inr p \<Rightarrow> refs @ [tp_ref p])"
proof -
  obtain t1 r1 where ph: "allocatePhysical t len = (t1, r1)" by fastforce
  have ok: "reuse_ok t" and b: "batch_ok t" using inv by (simp_all add: tx_inv_def)
  obtain bt where bt: "wt_batch t = Some bt" "b_state bt = batchOwned" using b by (auto simp: batch_ok_def)
  then have buf: "PageBuffer c bt (int (wt_allocated t)) \<noteq> Inl err" for err
    using room by (simp add: PageBuffer_def batchPages_def)
  have "physical t (ucast len) t1 r1" using ph ok by (rule allocatePhysical_cases)
  then show ?thesis
  proof (cases rule: physical.cases)
    case (refused i err)
    then show ?thesis using p ph tx_inv_index [OF inv] by (auto simp: placePage_def)
  next
    case appended
    then show ?thesis using p ph bt buf append_inv [OF inv o room _ _ len]
      by (auto simp: placePage_def Let_def split: sum.splits)
  next
    case (reused i e)
    then show ?thesis using p ph bt buf reuse_inv [OF inv o room reused(3-6) _ _ len]
      by (auto simp: placePage_def Let_def setReusable_def split: sum.splits)
  qed
qed

lemma Allocate_cases:
  assumes "Allocate c t kind len logicalID = (t', r)"
  shows "(t' = t \<or> t' = t\<lparr>wt_nextID := wt_nextID t + 1\<rparr>) \<and> (\<exists>err. r = Inl err) \<or>
    wt_allocated t < length (batchPages t) \<and> len mod wo_PageSize (wt_options t) = 0 \<and>
    (\<exists>n named. placePage c (t\<lparr>wt_nextID := n\<rparr>) kind len named = (t', r))"
proof (cases "logicalID = 0")
  case True
  then show ?thesis using assms by (auto simp: Allocate_def Let_def split: if_split_asm)
next
  case False
  have "\<exists>n named. placePage c (t\<lparr>wt_nextID := n\<rparr>) kind len named = (t', r)" if "placePage c t kind len logicalID = (t', r)"
    using that by (intro exI [of _ "wt_nextID t"] exI [of _ logicalID]) simp
  then show ?thesis using assms False by (auto simp: Allocate_def Let_def split: if_split_asm)
qed

lemma Allocate_inv:
  assumes inv: "tx_inv opts (t, refs)" and o: "tx_options opts" and al: "Allocate c t kind len logicalID = (t', r)"
  shows "tx_inv opts (t', case r of Inl _ \<Rightarrow> refs | Inr p \<Rightarrow> refs @ [tp_ref p])"
  using Allocate_cases [OF al]
proof (elim disjE conjE exE)
  fix n named assume room: "wt_allocated t < length (batchPages t)" and len: "len mod wo_PageSize (wt_options t) = 0"
    and p: "placePage c (t\<lparr>wt_nextID := n\<rparr>) kind len named = (t', r)"
  have "unat (len mod wo_PageSize (wt_options t)) = 0" using len by simp
  then have "unat len mod unat (wo_PageSize opts) = 0"
    using inv journal_opts(1) [of opts t] by (simp add: unat_mod tx_inv_def)
  then show ?thesis using placePage_inv [OF _ o _ _ p] inv room by (simp add: batchPages_def)
qed (use inv in simp_all)

lemma Stage_batch:
  assumes "Stage admit c t p = Inr t'"
  obtains b b' where "wt_batch t = Some b" "t' = t\<lparr>wt_batch := Some b'\<rparr>" "b_state b' = b_state b"
    "length (b_pages b') = length (b_pages b)"
  using assms by (auto simp: Stage_def setStorePage_def setPage_def Let_def split: if_splits sum.splits option.splits)

lemma tx_step_inv: "tx_step x y \<Longrightarrow> tx_options opts \<Longrightarrow> tx_inv opts x \<Longrightarrow> tx_inv opts y"
proof (induction rule: tx_step.induct)
  case (allocate c t kind len logicalID t' p refs)
  then show ?case using Allocate_inv [of opts t refs c kind len logicalID t' "Inr p"] by simp
next
  case (refuse c t kind len logicalID t' err refs)
  then show ?case using Allocate_inv [of opts t refs c kind len logicalID t' "Inl err"] by simp
next
  case (stage admit c t p t' refs)
  from stage(1) obtain b b' where "wt_batch t = Some b" "t' = t\<lparr>wt_batch := Some b'\<rparr>" "b_state b' = b_state b"
    "length (b_pages b') = length (b_pages b)" by (rule Stage_batch)
  then show ?case using stage(3) by (simp add: tx_inv_defs)
next
  case (disable t refs)
  then show ?case by (simp add: DisableReuse_def tx_inv_defs)
next
  case (set_range t start stop exclude t' refs)
  then have t': "t' = t\<lparr>wt_reuseEnabled := True, wt_reuseIndex := - 1, wt_reuseStart := nat start,
      wt_reuseEnd := nat stop, wt_reuseExclude := exclude\<rparr>" "nat stop \<le> length (wo_Reusable (wt_options t))"
    by (auto simp: SetReuseRange_def split: if_splits)
  then show ?case using set_range(3) by (simp add: tx_inv_defs)
qed

lemma tx_steps_inv: "tx_step\<^sup>*\<^sup>* x y \<Longrightarrow> tx_options opts \<Longrightarrow> tx_inv opts x \<Longrightarrow> tx_inv opts y"
  by (induction rule: rtranclp_induct) (auto intro: tx_step_inv)

definition reusable_ok :: "WriteTransactionOptions \<Rightarrow> bool" where
  "reusable_ok opts \<longleftrightarrow> sorted_wrt (\<lambda>a b. extent_range a \<inter> extent_range b = {}) (wo_Reusable opts) \<and>
     length (wo_Reusable opts) < 2 ^ 32"

lemma begin_inv:
  assumes "BeginWriteTransaction c n opts = Some (Inr (c', t))" "reusable_ok opts" "n \<le> 2 ^ 30"
  shows "tx_options opts \<and> tx_inv opts (t, [])"
proof -
  let ?p = "ucast (wo_PageSize opts) :: u64"
  have ok: "validPhysicalPageSize (wo_PageSize opts)" "2 * ?p \<le> wo_FileEnd opts" "wo_FileEnd opts mod ?p = 0"
    "wo_FileEnd opts \<le> maxSuperblockFileOffset"
    using assms(1) by (auto simp: BeginWriteTransaction_def superblockCopies_def not_less split: if_splits)
  obtain b where b: "Begin c n = Some (Inr (c', b))" and t: "t = \<lparr>wt_batch = Some b, wt_options = opts, wt_fileEnd = wo_FileEnd opts,
            wt_nextID = wo_NextLogicalID opts, wt_allocated = 0, wt_reuseEdits = [], wt_reuseEnabled = True,
            wt_reuseIndex = - 1, wt_reuseStart = 0, wt_reuseEnd = length (wo_Reusable opts),
            wt_reuseExclude = - 1, wt_active = True\<rparr>"
    using assms(1) by (auto simp: BeginWriteTransaction_def split: if_splits option.splits sum.splits)
  have bb: "b_state b = batchOwned" "length (b_pages b) \<le> 2 ^ 30"
    using b assms(3) by (auto simp: Begin_def Let_def split: option.splits if_splits)
  have p: "unat ?p = unat (wo_PageSize opts)" by (simp add: unat_ucast_up)
  have "unat (wo_PageSize opts) < 2 ^ 32" using unsigned_less [of "wo_PageSize opts", where ?'a = nat] by simp
  then have "unat (2 * ?p) = 2 * unat (wo_PageSize opts)" by (simp add: unat_word_ariths p)
  moreover have "unat (wo_FileEnd opts mod ?p) = 0" using ok(3) by simp
  moreover have "unat maxSuperblockFileOffset < 2 ^ 63" by (simp add: maxSuperblockFileOffset_val)
  moreover have "0 < unat (wo_PageSize opts)"
    using ok(1) by (simp add: validPhysicalPageSize_def physicalPageQuantum_def word_le_nat_alt)
  ultimately have o: "tx_options opts" using ok(2,4) assms(2)
    by (simp add: tx_options_def reusable_ok_def word_le_nat_alt unat_mod p)
  moreover have "tx_inv opts (t, [])" using bb o assms(2)
    by (simp add: tx_inv_defs t reusable_ok_def undoEdits_def tx_options_def)
  ultimately show ?thesis by blast
qed

text \<open>C14. The extents a transaction hands out never collide: from its start, after any sequence of allocations (granted and refused), stagings and changes of the reuse phase, they are pairwise disjoint, page-aligned, past the superblocks, below the new end of the file, and those below the old end overlap nothing that stays reusable.\<close>

theorem allocations_disjoint:
  assumes "BeginWriteTransaction c n opts = Some (Inr (c', t0))" "reusable_ok opts" "n \<le> 2 ^ 30"
    and "tx_step\<^sup>*\<^sup>* (t0, []) (t, refs)"
  shows "sorted_wrt (\<lambda>a b. ref_range a \<inter> ref_range b = {}) refs \<and>
    (\<forall>r \<in> set refs. unat (pr_Offset r) mod unat (wo_PageSize opts) = 0 \<and> 2 * unat (wo_PageSize opts) \<le> unat (pr_Offset r) \<and>
      ref_range r \<subseteq> {..<unat (wt_fileEnd t)} \<and>
      (ref_range r \<subseteq> {unat (wo_FileEnd opts)..} \<or> (\<forall>e \<in> set (wo_Reusable (wt_options t)). ref_range r \<inter> extent_range e = {})))"
proof -
  have "tx_inv opts (t, refs)" using tx_steps_inv [OF assms(4)] begin_inv [OF assms(1-3)] by blast
  then show ?thesis by (fastforce simp: tx_inv_def apart_def placed_def file_ok_def)
qed

text \<open>An abort undoes the transaction: after the same sequences it gives the caller its reusable extents back unchanged and every staging buffer of the batch to the pool, and the transaction is inactive.\<close>

theorem txAbort_restores:
  assumes "BeginWriteTransaction c n opts = Some (Inr (c', t0))" "reusable_ok opts" "n \<le> 2 ^ 30"
    and "tx_step\<^sup>*\<^sup>* (t0, []) (t, refs)"
  shows "case txAbort discard cc t of ((c2, t'), err) \<Rightarrow>
    wo_Reusable (wt_options t') = wo_Reusable opts \<and> \<not> wt_active t' \<and> wt_batch t' = None \<and>
    mset (c_freeBuffers c2) = mset (c_freeBuffers cc) + mset (batch_buffers (the (wt_batch t)))"
proof -
  have "tx_inv opts (t, refs)" using tx_steps_inv [OF assms(4)] begin_inv [OF assms(1-3)] by blast
  then show ?thesis
    by (auto simp: tx_inv_def batch_ok_def journal_ok_def txAbort_def batchAbort_def releaseBatch_def batch_buffers_def)
qed

section \<open>Publication\<close>

lemma checkStaged_found:
  "checkStaged c ref cs found ws = Inr True \<Longrightarrow> \<not> found \<Longrightarrow>
   \<exists>w \<in> set ws. word_of_int (w_Offset w) = pr_Offset ref \<and> w_Length w = pr_Length ref \<and>
     PageChecksum (take (unat (w_Length w)) (c_buffers c ! unat (w_Buffer w))) = cs"
  by (induction c ref cs found ws rule: checkStaged.induct) (auto split: if_splits)

lemma SetSuperblock_result:
  assumes "SetSuperblock c b root = (c', Inr b')" "unat (w_Buffer (b_root b)) < length (c_buffers c)"
  shows "DecodeSuperblock (c_buffers c' ! unat (w_Buffer (b_root b'))) = Inr root"
    "SuperblockOffset (sb_Generation root) (sb_PageSize root) = Inr (nat (w_Offset (b_root b')))"
    "b_pages b' = b_pages b" "w_Buffer (b_root b') = w_Buffer (b_root b)"
    "\<exists>bufs. c' = c\<lparr>c_buffers := bufs\<rparr>"
proof -
  let ?i = "unat (w_Buffer (b_root b))" let ?n = "unat (sb_PageSize root)"
  obtain encoded offset where e: "EncodeSuperblock (replicate ?n 0) root = Inr encoded"
    and o: "SuperblockOffset (sb_Generation root) (sb_PageSize root) = Inr offset"
    and len: "?n \<le> length (c_buffers c ! ?i)"
    and c': "c' = c\<lparr>c_buffers := (c_buffers c)[?i := put_bytes 0 encoded (put_bytes 0 (replicate ?n 0) (c_buffers c ! ?i))]\<rparr>"
    and b': "b' = b\<lparr>b_root := (b_root b)\<lparr>w_Offset := int offset, w_Length := sb_PageSize root\<rparr>, b_rootGeneration := sb_Generation root\<rparr>"
    using assms(1) by (auto simp: SetSuperblock_def Let_def split: if_splits sum.splits)
  have v: "validateSuperblock root = None" "128 \<le> ?n"
    using e by (auto simp: EncodeSuperblock_def SuperblockSize_def split: if_splits option.splits)
  then have en: "encoded = sealedSuperblock root" using e EncodeSuperblock_eq [of "replicate ?n 0" root] by simp
  have "put_bytes 0 encoded (put_bytes 0 (replicate ?n 0) (c_buffers c ! ?i)) = encoded @ drop 128 (put_bytes 0 (replicate ?n 0) (c_buffers c ! ?i))"
    using v(2) len by (simp add: put_bytes_fit en)
  then show "DecodeSuperblock (c_buffers c' ! unat (w_Buffer (b_root b'))) = Inr root"
    using assms(2) decode_sealedSuperblock [OF v(1)] by (simp add: c' b' en)
qed (use assms in \<open>auto simp: SetSuperblock_def Let_def split: if_splits sum.splits\<close>)

text \<open>C16. A publication that succeeds has queued, behind everything published before and under a greater generation, exactly the pages the transaction allocated, in an order the device accepts, with a root record that decodes to the superblock naming the staged state page, its checksum and the new end of the file, at the slot of its generation.\<close>

theorem txPublish_queues:
  assumes "txPublish c t stateRef stateChecksum freeOffset freeLength freeChecksum = ((c', t'), None)"
    and "c_bufferCount c = length (c_buffers c)"
  defines "root \<equiv> publishRoot t stateRef stateChecksum freeOffset freeLength freeChecksum"
  shows "c_published c < sb_Generation root \<and> c_published c' = sb_Generation root \<and> \<not> wt_active t' \<and>
    (\<exists>b. c_pending c' = c_pending c @ [b] \<and> b_generation b = sb_Generation root \<and>
       mset (b_pages b) = mset (take (wt_allocated t) (batchPages t)) \<and>
       validateCommit (c_bufferCount c) (c_bufferSize c) (b_pages b) (b_root b) = None \<and>
       DecodeSuperblock (c_buffers c' ! unat (w_Buffer (b_root b))) = Inr root \<and>
       SuperblockOffset (sb_Generation root) (sb_PageSize root) = Inr (nat (w_Offset (b_root b))) \<and>
       (\<exists>w \<in> set (b_pages b). word_of_int (w_Offset w) = sb_StateOffset root \<and> w_Length w = sb_StateLength root \<and>
          PageChecksum (take (unat (w_Length w)) (c_buffers c ! unat (w_Buffer w))) = sb_StateChecksum root))"
proof -
  obtain b c1 b1 c2 b2 where b: "wt_batch t = Some b"
    and st: "checkStaged c stateRef stateChecksum False (take (wt_allocated t) (b_pages b)) = Inr True"
    and rs: "ResizePages c b (int (wt_allocated t)) = Inr (c1, b1)"
    and ss: "SetSuperblock c1 (b1\<lparr>b_pages := sort_key w_Offset (b_pages b1)\<rparr>) root = (c2, Inr b2)"
    and pb: "batchPublish c2 b2 (wo_Generation (wt_options t)) = Inr c'" and t': "\<not> wt_active t'"
    using assms(1) unfolding root_def
    by (auto simp: txPublish_def Let_def split: if_splits option.splits sum.splits prod.splits)
  have r: "b1 = b\<lparr>b_pages := take (wt_allocated t) (b_pages b)\<rparr>" "\<exists>free. c1 = c\<lparr>c_freeBuffers := free\<rparr>"
    using rs by (auto simp: ResizePages_def Let_def split: if_splits)
  have g: "sb_Generation root = wo_Generation (wt_options t)" "sb_StateOffset root = pr_Offset stateRef"
    "sb_StateLength root = pr_Length stateRef" "sb_StateChecksum root = stateChecksum"
    by (simp_all add: root_def publishRoot_def)
  define q where "q = b2\<lparr>b_generation := sb_Generation root, b_state := batchPublished\<rparr>"
  have q: "c' = c2\<lparr>c_pending := c_pending c2 @ [q], c_published := sb_Generation root\<rparr>"
    "c_published c2 < sb_Generation root"
    "validateCommit (c_bufferCount c2) (c_bufferSize c2) (b_pages b2) (b_root b2) = None"
    using pb by (auto simp: batchPublish_def publish_def q_def g(1) not_le split: if_splits option.splits)
  have c2: "\<exists>free bufs. c2 = c\<lparr>c_freeBuffers := free, c_buffers := bufs\<rparr>"
    using r(2) set_superblock_buffers [OF ss] by auto
  have "unat (w_Buffer (b_root b)) < length (c_buffers c)"
  proof -
    have "batch_buffers b2 = batch_buffers (b1\<lparr>b_pages := sort_key w_Offset (b_pages b1)\<rparr>)" "w_Buffer (b_root b2) = w_Buffer (b_root b)"
      using ss r by (auto simp: SetSuperblock_def batch_buffers_def Let_def split: if_splits sum.splits)
    then show ?thesis using q(3) c2 assms(2) by (auto simp: validateCommit_def validateWrite_iff write_ok_def split: option.splits sum.splits if_splits)
  qed
  then have "unat (w_Buffer (b_root (b1\<lparr>b_pages := sort_key w_Offset (b_pages b1)\<rparr>))) < length (c_buffers c1)" using r by auto
  note sr = SetSuperblock_result [OF ss this]
  have pages: "b_pages q = sort_key w_Offset (take (wt_allocated t) (b_pages b))" using sr(3) r by (simp add: q_def)
  have "\<exists>w \<in> set (b_pages q). word_of_int (w_Offset w) = sb_StateOffset root \<and> w_Length w = sb_StateLength root \<and>
      PageChecksum (take (unat (w_Length w)) (c_buffers c ! unat (w_Buffer w))) = sb_StateChecksum root"
    using checkStaged_found [OF st] by (simp add: pages g)
  moreover have "mset (b_pages q) = mset (take (wt_allocated t) (batchPages t))" by (simp add: pages batchPages_def b)
  ultimately show ?thesis using q sr c2 t' by (auto simp: q_def)
qed

text \<open>With a single reuse extent that is already chosen and too short, an allocation at the end of the file
  is granted without the check that the other two ways to the end of the file make.\<close>

theorem single_reuse_skips_limit:
  "\<exists>t t'. wt_fileEnd t \<le> maxSuperblockFileOffset \<and> wt_fileEnd t + 4096 > maxSuperblockFileOffset \<and>
     allocatePhysical t 4096 = (t, Inr (wt_fileEnd t, False)) \<and>
     allocatePhysical (DisableReuse t) 4096 = (t', Inl ErrInvalidWrite)"
proof -
  let ?opts = "\<lparr>wo_StoreID = 7, wo_Generation = 3, wo_PageSize = 4096, wo_FileEnd = 8192, wo_NextLogicalID = 2,
     wo_Reusable = [zeroFreeExtent], wo_journalCap = 1, wo_SingleReuseExtent = True\<rparr>"
  let ?t = "\<lparr>wt_batch = None, wt_options = ?opts, wt_fileEnd = 0x7FFFFFFFFFFFF000, wt_nextID = 2, wt_allocated = 0,
     wt_reuseEdits = [], wt_reuseEnabled = True, wt_reuseIndex = 0, wt_reuseStart = 0, wt_reuseEnd = 1,
     wt_reuseExclude = - 1, wt_active = True\<rparr>"
  show ?thesis
    by (intro exI [of _ ?t] exI [of _ "DisableReuse ?t"])
      (simp add: allocatePhysical_def DisableReuse_def zeroFreeExtent_def maxSuperblockFileOffset_val)
qed

section \<open>Sample transactions\<close>

text \<open>A transaction with one reusable page allocates a document page from it.\<close>

definition sample_opts :: WriteTransactionOptions where
  "sample_opts = \<lparr>wo_StoreID = 7, wo_Generation = 3, wo_PageSize = 4096, wo_FileEnd = 16384, wo_NextLogicalID = 2,
     wo_Reusable = [\<lparr>fe_Offset = 8192, fe_Length = 4096, fe_RetiredGeneration = 1\<rparr>], wo_journalCap = 1,
     wo_SingleReuseExtent = True\<rparr>"

definition sample_tx :: WriteTransaction where
  "sample_tx = \<lparr>wt_batch = Some (run_batch [zeroWrite] (zeroWrite\<lparr>w_Buffer := 1\<rparr>)), wt_options = sample_opts,
     wt_fileEnd = 16384, wt_nextID = 2, wt_allocated = 0, wt_reuseEdits = [], wt_reuseEnabled = True,
     wt_reuseIndex = - 1, wt_reuseStart = 0, wt_reuseEnd = 1, wt_reuseExclude = - 1, wt_active = True\<rparr>"

definition sample_ref :: PageRef where
  "sample_ref = \<lparr>pr_Offset = 8192, pr_LogicalID = 2, pr_Generation = 3, pr_Length = 4096, pr_Kind = PageDocument, pr_Flags = 0, pr_Aux = 0\<rparr>"

definition sample_tx' :: WriteTransaction where
  "sample_tx' = sample_tx\<lparr>wt_options := sample_opts\<lparr>wo_Reusable := [zeroFreeExtent]\<rparr>, wt_nextID := 3, wt_allocated := 1,
     wt_reuseEdits := [\<lparr>re_Index = 0, re_Before = \<lparr>fe_Offset = 8192, fe_Length = 4096, fe_RetiredGeneration = 1\<rparr>\<rparr>],
     wt_reuseIndex := 0\<rparr>"

lemma sample_begin:
  "BeginWriteTransaction run_committer 1 sample_opts =
     Some (Inr (run_committer\<lparr>c_freeBuffers := [2, 3], c_freeBatches := [1]\<rparr>, sample_tx))"
  by (simp add: BeginWriteTransaction_def Begin_def run_committer_def run_options_def sample_opts_def sample_tx_def run_batch_def
      zeroWrite_def validPhysicalPageSize_def physicalPageQuantum_def superblockCopies_def maxSuperblockFileOffset_val
      StateRootLogicalID_def word_le_nat_alt)

lemma sample_reusable: "reusable_ok sample_opts"
  by (simp add: reusable_ok_def sample_opts_def)

lemma sample_allocate:
  "Allocate run_committer sample_tx PageDocument 4096 0 = (sample_tx', Inr \<lparr>tp_index = 0, tp_ref = sample_ref\<rparr>)"
  by (simp add: Allocate_def placePage_def allocatePhysical_def allocateFromReusable_def setReusable_def PageBuffer_def
      sample_tx_def sample_tx'_def sample_opts_def sample_ref_def run_batch_def run_committer_def batchPages_def
      validPageKind_def validPhysicalPageSize_def physicalPageQuantum_def variableTransactionExtent_def PageDocument_def
      PageStateRoot_def PageIndexGroupCatalog_def StateRootLogicalID_def zeroFreeExtent_def word_le_nat_alt upt_rec)

lemma sample_run: "tx_step\<^sup>*\<^sup>* (sample_tx, []) (sample_tx', [sample_ref])"
  using allocate [OF sample_allocate, of "[]"] by (auto intro: r_into_rtranclp)

theorem allocations_disjoint_witness:
  "tx_step\<^sup>*\<^sup>* (sample_tx, []) (sample_tx', [sample_ref]) \<and> ref_range sample_ref \<subseteq> {..<16384}"
  using allocations_disjoint [OF sample_begin sample_reusable _ sample_run] sample_run
  by (simp add: sample_tx'_def sample_tx_def)

theorem txAbort_restores_witness:
  "case txAbort None run_committer sample_tx' of ((c2, t'), err) \<Rightarrow>
     wo_Reusable (wt_options t') = [\<lparr>fe_Offset = 8192, fe_Length = 4096, fe_RetiredGeneration = 1\<rparr>] \<and> \<not> wt_active t'"
  using txAbort_restores [OF sample_begin sample_reusable _ sample_run, where discard = None and cc = run_committer]
  by (auto simp: sample_opts_def)

text \<open>A transaction with one staged state page is published.\<close>

definition publish_committer :: Committer where
  "publish_committer = run_committer\<lparr>c_buffers := replicate 4 (replicate 4096 0), c_freeBuffers := [2, 3], c_freeBatches := [1]\<rparr>"

definition publish_tx :: WriteTransaction where
  "publish_tx = sample_tx\<lparr>wt_batch := Some (run_batch [run_write] (zeroWrite\<lparr>w_Buffer := 1\<rparr>)), wt_allocated := 1\<rparr>"

definition state_ref :: PageRef where
  "state_ref = \<lparr>pr_Offset = 8192, pr_LogicalID = 1, pr_Generation = 3, pr_Length = 4096, pr_Kind = PageStateRoot, pr_Flags = 0, pr_Aux = 0\<rparr>"

lemma publish_sample:
  assumes "cs = PageChecksum (replicate 4096 0)"
  shows "\<exists>c t. txPublish publish_committer publish_tx state_ref cs 0 0 0 = ((c, t), None)"
proof -
  let ?root = "publishRoot publish_tx state_ref cs 0 0 0"
  have ps: "sb_PageSize ?root = 4096" "sb_Generation ?root = 3"
    by (simp_all add: publishRoot_def publish_tx_def sample_tx_def sample_opts_def)
  have v: "validateSuperblock ?root = None"
    by (simp add: validateSuperblock_def publishRoot_def publish_tx_def sample_tx_def sample_opts_def state_ref_def
        superblockKnownFlags_def validPhysicalPageSize_def physicalPageQuantum_def superblockCopies_def
        maxSuperblockFileOffset_val validRootExtent_def word_le_nat_alt)
  have e: "EncodeSuperblock (replicate 4096 0) ?root = Inr (sealedSuperblock ?root)"
    by (rule EncodeSuperblock_eq) (use v in simp_all)
  have o: "SuperblockOffset 3 4096 = Inr 0"
    by (simp add: SuperblockOffset_def validPhysicalPageSize_def physicalPageQuantum_def superblockCopies_def word_le_nat_alt)
  have st: "checkStaged publish_committer state_ref cs False [run_write] = Inr True"
    by (simp add: publish_committer_def state_ref_def run_write_def assms)
  have rs: "ResizePages publish_committer (run_batch [run_write] (zeroWrite\<lparr>w_Buffer := 1\<rparr>)) 1 =
      Inr (publish_committer, run_batch [run_write] (zeroWrite\<lparr>w_Buffer := 1\<rparr>))"
    by (simp add: ResizePages_def run_batch_def publish_committer_def)
  let ?b = "(run_batch [run_write] run_root)\<lparr>b_rootGeneration := 3\<rparr>"
  obtain bufs where ss: "SetSuperblock publish_committer (run_batch [run_write] (zeroWrite\<lparr>w_Buffer := 1\<rparr>)) ?root =
      (publish_committer\<lparr>c_buffers := bufs\<rparr>, Inr ?b)"
    using e o ps by (simp add: SetSuperblock_def run_batch_def run_root_def zeroWrite_def publish_committer_def Let_def)
  have "batchPublish (publish_committer\<lparr>c_buffers := bufs\<rparr>) ?b 3 = Inr (publish_committer\<lparr>c_buffers := bufs,
      c_pending := [?b\<lparr>b_generation := 3, b_state := batchPublished\<rparr>], c_published := 3\<rparr>)"
    using run_commit_valid by (simp add: batchPublish_def publish_def run_batch_def publish_committer_def run_committer_def run_options_def)
  then show ?thesis using st rs ss
    by (simp add: txPublish_def publish_tx_def sample_tx_def sample_opts_def state_ref_def StateRootLogicalID_def run_batch_def)
qed

theorem txPublish_queues_witness:
  "\<exists>c t. txPublish publish_committer publish_tx state_ref (PageChecksum (replicate 4096 0)) 0 0 0 = ((c, t), None) \<and>
     c_published c = 3 \<and> length (c_pending c) = 1"
proof -
  obtain c t where p: "txPublish publish_committer publish_tx state_ref (PageChecksum (replicate 4096 0)) 0 0 0 = ((c, t), None)"
    using publish_sample [OF refl] by blast
  have "c_bufferCount publish_committer = length (c_buffers publish_committer)"
    by (simp add: publish_committer_def run_committer_def)
  from txPublish_queues [OF p this] have "c_published c = 3" "length (c_pending c) = 1"
    by (auto simp: publishRoot_def publish_tx_def sample_tx_def sample_opts_def publish_committer_def run_committer_def)
  then show ?thesis using p by blast
qed

end
