(* ===== verification/Spec2Isabelle.thy ===== *)
theory Spec2Isabelle
  imports TapeProps IndentCorrect JsonPointerCorrect FieldCursorCorrect EncodeStringCorrect NumberEqualCorrect TimeTextCorrect HamtCorrect ChunkVectorScan TtlCorrect OrderedKeyProps WriteTransactionCorrect
begin

text \<open>
  A verification development of slopjson, a JSON library in Go with a document store. The library validates, indexes,
  transforms and prints JSON text; the store keeps documents under keys, in memory or in a file of checksummed pages
  that is written by copy on write, published by alternating superblocks and read through leased snapshots.

  \<^bold>\<open>Conventions.\<close> A Go slice of bytes is a list of 8-bit words, an unsigned integer a word of its width, an offset a natural
  number where the code keeps it inside the slice. A struct is a record, a method that changes its receiver returns it
  updated, an error is the left of a sum and a panic or a missing answer is \<open>None\<close>. A loop that stops because a cursor moves is a
  function with a termination proof. The recursive descents have fuel: \<open>parseFuel src = length src + 1\<close> is enough
  for the validator, the transforms and the bool-only validator, because every level consumes a byte
  (\<open>validator_terminates\<close>); the hash trie and the radix vector recurse on their height (\<open>trieFuel\<close> is 13, the number of
  five-bit digits of a 64-bit hash); a probe of \<^verbatim>\<open>chunkDirectoryRefSet\<close> gives up after its 128 slots. Positions and counts of the
  index are 32-bit words as in the code; the index properties therefore assume sources and capacities below \<open>2 ^ 32\<close>, which
  the code checks. Exact number equality is shown for spellings below \<open>2 ^ 32\<close> bytes.

  \<^bold>\<open>Text.\<close> \<open>JsonText\<close> is the specification side: abstract JSON values and the RFC 8259 grammar with strict UTF-8 as inductive
  relations. \<open>Swar\<close> and \<open>Scanner\<close> model the byte masks and the scanners of \<^verbatim>\<open>internal/scanner/scan_generic.go\<close>, \<^verbatim>\<open>scan.go\<close> and
  \<^verbatim>\<open>space.go\<close>: each finds the first byte of its class. \<open>Utf8\<close> has what the code uses of Go's UTF-8 and UTF-16 packages. \<open>Validator\<close>
  is \<^verbatim>\<open>validate.go\<close> with the positions of \<^verbatim>\<open>error.go\<close>; \<open>ValidatorNumbers\<close>, \<open>ValidatorStrings\<close>, \<open>ValidatorParse\<close> and \<open>ValidatorComplete\<close> show
  that \<^verbatim>\<open>validateOptions\<close> accepts exactly the documents of the grammar within the depth limit and that \<^verbatim>\<open>countLayout\<close> counts their
  containers. \<open>FastScan\<close> is \<^verbatim>\<open>valid_fast.go\<close>, the unchecked scanners and the bool-only validator, and \<open>FastScanCorrect\<close> shows that it decides
  the same language. \<open>Transforms\<close> is \<^verbatim>\<open>compact.go\<close> and \<^verbatim>\<open>indent.go\<close>; \<open>JsonLex\<close> and \<open>JsonLayout\<close> specify both as one-pass lexical functions,
  \<open>CompactCorrect\<close> and \<open>IndentCorrect\<close> show that the descents compute them, keep the document and are inverse to each other.

  \<^bold>\<open>Index.\<close> \<open>Tape\<close> is \<^verbatim>\<open>index.go\<close>, \<^verbatim>\<open>walk_number_swar.go\<close> and \<^verbatim>\<open>index_keyhash.go\<close>: the 16-byte entry, the fast walk as a machine over the
  labels of the code, the diagnostic builder with its scope stack threaded through the entries, the router and the key
  hashes. \<open>TapeSpec\<close> says what the tape of a document is, apart from any builder. \<open>TapeWalk\<close>, \<open>TapeDiagnose\<close> and \<open>TapeBuild\<close> show that each
  builder accepts exactly the documents whose tape fits and writes that tape; the fast walk stops at depth 64 and leaves
  deeper documents to the diagnostic builder. \<open>TapeRoom\<close> shows that every document has a tape and how long it is, \<open>TapeProps\<close> the
  properties of the router, of \<^verbatim>\<open>RequiredIndexEntries\<close> and of hash enrichment.

  \<^bold>\<open>Reading an index.\<close> \<open>NodeApi\<close> is \<^verbatim>\<open>node.go\<close>, \<^verbatim>\<open>index_iter.go\<close>, \<^verbatim>\<open>index_tapescan.go\<close>, \<^verbatim>\<open>field_cursor.go\<close> and \<^verbatim>\<open>key.go\<close>: a node is a source, a tape and a
  position, and stepping over entries is arithmetic on positions. \<open>NodeTree\<close> says which value a node stands for: the entries from its
  position on are the tape of that value, plain or enriched. \<open>NodeGet\<close> shows that the lookup ladder (length gate, hash gate, four-wide
  backward scan) returns the last member whose key decodes to the query. \<open>NodeRead\<close> has the scalar reads, exact integers, the
  iterators and \<^verbatim>\<open>AppendColumn\<close>; \<open>FieldCursorCorrect\<close> the cyclic first match of field cursors. \<open>JsonPointer\<close> is \<^verbatim>\<open>pointer.go\<close> with the walks of
  \<^verbatim>\<open>node.go\<close>, and \<open>JsonPointerCorrect\<close> shows that pointers on a built index resolve as RFC 6901 resolves them on the document, compiled or not.

  \<^bold>\<open>Scalars.\<close> \<open>EncodeString\<close> models \<^verbatim>\<open>encoder_string.go\<close>, the plain encoder of \<^verbatim>\<open>encode.go\<close> and \<^verbatim>\<open>strings_decode.go\<close>; \<open>DecodeStringCorrect\<close> and
  \<open>EncodeStringCorrect\<close> show that every encoding path writes the rune-by-rune reference, that decoding yields the code points
  a literal denotes and that the two are inverse. \<open>NumberEqual\<close> is \<^verbatim>\<open>number_equal.go\<close>; \<open>NumberEqualWeights\<close> and \<open>NumberEqualCorrect\<close> show that it
  decides equality of the denoted rationals. \<open>IntegerText\<close> has the digit kernels of \<^verbatim>\<open>simd/digits.go\<close>, the scanners of
  \<^verbatim>\<open>number_digits.go\<close> and the formatter of \<^verbatim>\<open>encoder_int.go\<close>; \<open>IntegerKernels\<close> and \<open>IntegerTextCorrect\<close> show them exact and inverse to each other.
  \<open>TimeText\<close> is \<^verbatim>\<open>simd/time.go\<close> and \<^verbatim>\<open>simd/time_date.go\<close>; \<open>CalendarCorrect\<close> compares the date arithmetic with the proleptic Gregorian
  calendar and \<open>TimeTextCorrect\<close> the text with RFC 3339, memo included. \<open>OrderedKey\<close> is \<^verbatim>\<open>internal/orderedkey/key.go\<close>; \<open>OrderedKeyOrder\<close>,
  \<open>OrderedKeyNumbers\<close>, \<open>OrderedKeyCorrect\<close> and \<open>OrderedKeyProps\<close> show that comparing composite keys bytewise compares their scalars.

  \<^bold>\<open>Store in memory.\<close> \<open>Hamt\<close> is the hash trie of \<^verbatim>\<open>store_hamt.go\<close>, for any hash function; \<open>Directory\<close> is the contract of a key directory as a
  locale, which \<open>HamtCorrect\<close> interprets: the trie refines a finite map. \<open>ChunkVector\<close> is the radix vector of \<^verbatim>\<open>store_vector.go\<close>; \<open>ChunkVectorCorrect\<close>
  and \<open>ChunkVectorScan\<close> show that it is a sequence. \<open>Ttl\<close> is the deadline heap of \<^verbatim>\<open>store_ttl.go\<close>; \<open>TtlCorrect\<close> interprets the same contract and
  shows that expiry collects exactly the due keys.

  \<^bold>\<open>Store in a file.\<close> All under \<^verbatim>\<open>internal/storeio\<close>. \<open>StorePage\<close> is the page envelope of \<^verbatim>\<open>page.go\<close> with its CRC-32C, \<open>StateRoot\<close> the root page of
  \<^verbatim>\<open>state_root.go\<close>, \<open>RecordPages\<close>, \<open>RefSet\<close> and \<open>FreeDirectory\<close> the free-extent pages of \<^verbatim>\<open>free_directory.go\<close>, \<open>Superblock\<close> the two root records and the
  recovery of \<^verbatim>\<open>superblock.go\<close>. Their \<open>Correct\<close> theories have the round trips, the detection of damage and that recovery
  after a torn write finds the last durable root. \<open>Leases\<close> is \<^verbatim>\<open>generation_leases.go\<close> with the publication steps of \<^verbatim>\<open>store_file.go\<close> as a step
  relation; \<open>LeasesCorrect\<close> shows by rule induction that no page that a snapshot or a recoverable root still reaches is handed
  out, and that a retired extent becomes reusable once nothing holds it. \<open>Committer\<close> is the group committer of
  \<^verbatim>\<open>committer.go\<close> and \<^verbatim>\<open>committer_worker.go\<close>: buffers are neither lost nor shared and generations become durable in order. \<open>WriteTransaction\<close>
  is \<^verbatim>\<open>write_transaction.go\<close> on top of both: its allocations are disjoint, an abort restores the committer and the reusable
  extents, and a publication queues the staged pages with their superblock.

  \<^bold>\<open>Interfaces.\<close> \<open>Directory\<close> holds the contract of a map from keys that the trie and the heap provide, \<open>RecordPages\<close> that of a page of
  fixed-size records with its binary search, \<open>LeasesCorrect\<close> what the reclaimer relies on of a lease table, \<open>NodeRead\<close> what an iterator
  promises (arrays and objects provide it), \<open>ChunkVectorScan\<close> the sequence that both appends of the vector build, and \<open>Scanner\<close> what a
  word scanner needs of its mask. Every locale is interpreted on
  the definitions of the code.

  \<^bold>\<open>Not modelled.\<close> The bitmap engines of \<^verbatim>\<open>valid_bitmap.go\<close>, \<^verbatim>\<open>valid_positions.go\<close>, \<^verbatim>\<open>index_positions.go\<close> and \<^verbatim>\<open>internal/kernels\<close> and the SIMD variants of
  the scanners, digit kernels and checksums: vector code per architecture, which answers earlier what the portable
  routes answer. Where the code tries such an engine first, the engine is an argument of the definition and the property
  speaks of the inputs it does not decide. Floating-point text rests on tables of powers of ten and on rounding proofs of
  their own. The typed decoder and encoder run plans compiled by reflection through unsafe pointers into Go memory. Owned
  values, the hashed member table of \<^verbatim>\<open>index_probe.go\<close>, raw seeking, document sets, shapes, streams and the query engine are clients of
  what is modelled; so are the store types of \<^verbatim>\<open>store.go\<close> and \<^verbatim>\<open>store_file*.go\<close> beyond the steps named above, and the page formats that
  resemble the free-extent directory. The page cache, the devices, file locks, timers and the parking of goroutines are
  input and output or scheduling; the transaction and the committer take what they call of them as arguments. The capacity of
  a destination slice is modelled only where the code branches on it.
\<close>

end
